(* ===== verification/Prelude.thy ===== *)
theory Prelude
  imports Main "HOL-Library.List_Lexorder" "HOL-Library.Char_ord" "HOL-Library.Sublist"
begin

text \<open>
  Shared vocabulary of the development: Go strings as byte lists and the functions of the
  packages \<open>strings\<close>, \<open>strconv\<close> and \<open>sort\<close> that the modelled code calls, generic
  lemmas on lists, and the locale of a transition function with an invariant.

  A Go \<open>string\<close> or \<open>[]byte\<close> is an Isabelle \<open>string\<close>, a list of bytes; the
  lexicographic order of \<open>List_Lexorder\<close> over \<open>Char_ord\<close> is Go's bytewise
  string comparison.
\<close>

type_synonym bytes = string

abbreviation byte :: "char \<Rightarrow> nat" where "byte c \<equiv> of_char c"

lemma byte_less: "byte c < 256"
  using of_char_mod_256[of c, where 'a = nat] by (metis mod_less_divisor zero_less_numeral)

named_theorems outcome_simps \<open>equations that evaluate one branch of an operation\<close>
named_theorems preserves \<open>preservation of a component's invariant by its operations\<close>

section \<open>Package strings\<close>

text \<open>\<open>strings.HasPrefix\<close>, \<open>strings.HasSuffix\<close> and \<open>strings.CutSuffix\<close>.\<close>

definition hasPrefix :: "'a list \<Rightarrow> 'a list \<Rightarrow> bool" where
  "hasPrefix s p \<longleftrightarrow> take (length p) s = p"

definition hasSuffix :: "'a list \<Rightarrow> 'a list \<Rightarrow> bool" where
  "hasSuffix s p \<longleftrightarrow> hasPrefix (rev s) (rev p)"

definition cutSuffix :: "'a list \<Rightarrow> 'a list \<Rightarrow> 'a list option" where
  "cutSuffix s p = (if hasSuffix s p then Some (take (length s - length p) s) else None)"

lemma hasPrefix_iff: "hasPrefix s p \<longleftrightarrow> (\<exists>t. s = p @ t)"
  by (metis append_eq_conv_conj append_take_drop_id hasPrefix_def)

lemma hasPrefix_Nil [simp]: "hasPrefix s []"
  by (simp add: hasPrefix_def)

lemma hasPrefix_append [simp]: "hasPrefix (p @ t) p"
  by (auto simp: hasPrefix_iff)

lemma hasPrefix_length: "hasPrefix s p \<Longrightarrow> length p \<le> length s"
  by (auto simp: hasPrefix_iff)

lemma hasSuffix_iff: "hasSuffix s p \<longleftrightarrow> (\<exists>t. s = t @ p)"
  by (simp add: hasSuffix_def hasPrefix_iff) (metis rev_append rev_rev_ident)

lemma cutSuffix_Some: "cutSuffix s p = Some t \<longleftrightarrow> s = t @ p"
  by (auto simp: cutSuffix_def hasSuffix_iff)

lemma cutSuffix_None: "cutSuffix s p = None \<longleftrightarrow> (\<forall>t. s \<noteq> t @ p)"
  by (auto simp: cutSuffix_def hasSuffix_iff)

text \<open>\<open>strings.Index\<close> (also \<open>bytes.Index\<close>) and \<open>strings.LastIndex\<close>; \<open>None\<close> is Go's -1.\<close>

fun indexOf :: "'a list \<Rightarrow> 'a list \<Rightarrow> nat option" where
  "indexOf [] p = (if p = [] then Some 0 else None)"
| "indexOf (c # s) p =
     (if hasPrefix (c # s) p then Some 0 else map_option Suc (indexOf s p))"

fun lastIndexOf :: "'a list \<Rightarrow> 'a list \<Rightarrow> nat option" where
  "lastIndexOf [] p = (if p = [] then Some 0 else None)"
| "lastIndexOf (c # s) p =
     (case lastIndexOf s p of
        Some i \<Rightarrow> Some (Suc i)
      | None \<Rightarrow> if hasPrefix (c # s) p then Some 0 else None)"

lemma indexOf_Some:
  "indexOf s p = Some i \<Longrightarrow> \<exists>t. s = take i s @ p @ t \<and> i \<le> length s"
proof (induction s arbitrary: i)
  case Nil
  then show ?case by (auto split: if_splits)
next
  case (Cons c s)
  show ?case
  proof (cases "hasPrefix (c # s) p")
    case True
    with Cons.prems show ?thesis by (auto simp: hasPrefix_iff)
  next
    case False
    with Cons.prems obtain j where "indexOf s p = Some j" and "i = Suc j" by auto
    with Cons.IH[of j] show ?thesis by auto
  qed
qed

lemma indexOf_None: "indexOf s p = None \<longleftrightarrow> (\<forall>a b. s \<noteq> a @ p @ b)"
proof (induction s)
  case Nil
  then show ?case by auto
next
  case (Cons c s)
  show ?case
  proof (cases "hasPrefix (c # s) p")
    case True
    then obtain t where "c # s = [] @ p @ t" by (auto simp: hasPrefix_iff)
    with True show ?thesis by (metis indexOf.simps(2) option.distinct(1))
  next
    case False
    have "(\<forall>a b. c # s \<noteq> a @ p @ b) \<longleftrightarrow> (\<forall>a b. s \<noteq> a @ p @ b)"
    proof
      assume "\<forall>a b. c # s \<noteq> a @ p @ b"
      then show "\<forall>a b. s \<noteq> a @ p @ b" by (metis append_Cons)
    next
      assume *: "\<forall>a b. s \<noteq> a @ p @ b"
      show "\<forall>a b. c # s \<noteq> a @ p @ b"
      proof (intro allI notI)
        fix a b assume eq: "c # s = a @ p @ b"
        show False
        proof (cases a)
          case Nil
          with eq False show False by (simp add: hasPrefix_iff)
        next
          case (Cons d a')
          with eq * show False by simp
        qed
      qed
    qed
    with False Cons.IH show ?thesis by simp
  qed
qed

lemma indexOf_first:
  "indexOf s p = Some i \<Longrightarrow> j < i \<Longrightarrow> \<not> hasPrefix (drop j s) p"
proof (induction s arbitrary: i j)
  case Nil
  then show ?case by (auto split: if_splits)
next
  case (Cons c s)
  then show ?case by (cases j) (auto split: if_splits)
qed

lemma lastIndexOf_None: "lastIndexOf s p = None \<longleftrightarrow> (\<forall>a b. s \<noteq> a @ p @ b)"
proof (induction s)
  case Nil
  then show ?case by auto
next
  case (Cons c s)
  have step: "(\<exists>a b. c # s = a @ p @ b) \<longleftrightarrow> (hasPrefix (c # s) p \<or> (\<exists>a b. s = a @ p @ b))"
  proof
    assume "\<exists>a b. c # s = a @ p @ b"
    then obtain a b where eq: "c # s = a @ p @ b" by blast
    then show "hasPrefix (c # s) p \<or> (\<exists>a b. s = a @ p @ b)"
      by (cases a) (auto simp: hasPrefix_iff)
  next
    assume "hasPrefix (c # s) p \<or> (\<exists>a b. s = a @ p @ b)"
    then show "\<exists>a b. c # s = a @ p @ b"
      by (metis append_Cons append_Nil hasPrefix_iff)
  qed
  show ?case
  proof (cases "lastIndexOf s p")
    case None
    with Cons.IH step show ?thesis by (auto split: if_splits)
  next
    case (Some i)
    with Cons.IH step show ?thesis by auto
  qed
qed

lemma lastIndexOf_Some:
  "lastIndexOf s p = Some i \<Longrightarrow> \<exists>t. s = take i s @ p @ t \<and> i \<le> length s"
proof (induction s arbitrary: i)
  case Nil
  then show ?case by (auto split: if_splits)
next
  case (Cons c s)
  then show ?case
    by (fastforce simp: hasPrefix_iff split: option.splits if_splits)
qed

text \<open>The occurrence found is the last one: appending a tail in which the pattern starts nowhere
  leaves the index where the pattern was put.\<close>

lemma lastIndexOf_append:
  assumes "\<forall>a b. tl (p @ t) \<noteq> a @ p @ b" and "p \<noteq> []"
  shows "lastIndexOf (s @ p @ t) p = Some (length s)"
proof (induction s)
  case Nil
  obtain c q where p: "p = c # q" using assms(2) by (cases p) auto
  with assms(1) have "lastIndexOf (q @ t) p = None" by (simp add: lastIndexOf_None)
  with p show ?case by (simp add: hasPrefix_iff)
next
  case (Cons c s)
  then show ?case by simp
qed

text \<open>\<open>slices.Contains\<close> and \<open>strings.Join\<close>.\<close>

fun join :: "'a list list \<Rightarrow> 'a list \<Rightarrow> 'a list" where
  "join [] sep = []"
| "join [x] sep = x"
| "join (x # y # xs) sep = x @ sep @ join (y # xs) sep"

section \<open>Package strconv\<close>

text \<open>
  \<open>strconv.Itoa\<close> on an unbounded integer, and \<open>strconv.Atoi\<close> on a 64-bit platform:
  an optional sign, at least one decimal digit and nothing else, and a value an \<open>int\<close> holds.
\<close>

definition digit_char :: "nat \<Rightarrow> char" where
  "digit_char d = char_of (48 + d)"

definition is_digit :: "char \<Rightarrow> bool" where
  "is_digit c \<longleftrightarrow> 48 \<le> (of_char c :: nat) \<and> (of_char c :: nat) \<le> 57"

definition digit_val :: "char \<Rightarrow> nat" where
  "digit_val c = of_char c - 48"

fun digits :: "nat \<Rightarrow> string" where
  "digits n = (if n < 10 then [digit_char n] else digits (n div 10) @ [digit_char (n mod 10)])"

declare digits.simps [simp del]

definition itoa :: "int \<Rightarrow> string" where
  "itoa n = (if n < 0 then CHR ''-'' # digits (nat (- n)) else digits (nat n))"

fun digits_val :: "nat \<Rightarrow> string \<Rightarrow> nat" where
  "digits_val acc [] = acc"
| "digits_val acc (c # s) = digits_val (acc * 10 + digit_val c) s"

definition in_int64 :: "int \<Rightarrow> bool" where
  "in_int64 n \<longleftrightarrow> - (2 ^ 63) \<le> n \<and> n < 2 ^ 63"

text \<open>An \<open>int64\<close>, or an \<open>int\<close>, that has wrapped.\<close>

definition go_int :: "int \<Rightarrow> int" where
  "go_int n = (n + 2 ^ 63) mod 2 ^ 64 - 2 ^ 63"

lemma go_int_ok: "in_int64 (go_int n)"
proof -
  have "0 \<le> (n + 2 ^ 63) mod 2 ^ 64" "(n + 2 ^ 63) mod 2 ^ 64 < 2 ^ 64" by simp_all
  then show ?thesis unfolding in_int64_def go_int_def by (intro conjI) simp_all
qed

lemma go_int_id: "in_int64 n \<Longrightarrow> go_int n = n"
proof -
  assume "in_int64 n"
  then have "0 \<le> n + 2 ^ 63" "n + 2 ^ 63 < 2 ^ 64" by (simp_all add: in_int64_def)
  then have "(n + 2 ^ 63) mod 2 ^ 64 = n + 2 ^ 63" by (rule mod_pos_pos_trivial)
  then show ?thesis by (simp add: go_int_def)
qed

lemma go_int_add: "go_int (go_int a + b) = go_int (a + b)"
proof -
  have "go_int a + b + 2 ^ 63 = (a + 2 ^ 63) mod 2 ^ 64 + b" by (simp add: go_int_def)
  then have "(go_int a + b + 2 ^ 63) mod 2 ^ 64 = (a + 2 ^ 63 + b) mod 2 ^ 64" by (simp only: mod_add_left_eq)
  then show ?thesis by (simp add: go_int_def ac_simps)
qed

fun atoi_unsigned :: "string \<Rightarrow> nat option" where
  "atoi_unsigned s = (if s \<noteq> [] \<and> list_all is_digit s then Some (digits_val 0 s) else None)"

definition atoi :: "string \<Rightarrow> int option" where
  "atoi s =
     (case (case s of
              [] \<Rightarrow> None
            | c # t \<Rightarrow>
                if c = CHR ''-'' then map_option (\<lambda>n. - int n) (atoi_unsigned t)
                else if c = CHR ''+'' then map_option int (atoi_unsigned t)
                else map_option int (atoi_unsigned s)) of
        None \<Rightarrow> None
      | Some n \<Rightarrow> if in_int64 n then Some n else None)"

lemma of_char_digit_char: "d < 10 \<Longrightarrow> (of_char (digit_char d) :: nat) = 48 + d"
  by (simp add: digit_char_def)

lemma is_digit_digit_char: "d < 10 \<Longrightarrow> is_digit (digit_char d)"
  by (simp add: is_digit_def of_char_digit_char)

lemma digit_val_digit_char: "d < 10 \<Longrightarrow> digit_val (digit_char d) = d"
  by (simp add: digit_val_def of_char_digit_char)

lemma digits_not_Nil [simp]: "digits n \<noteq> []"
  by (subst digits.simps) simp

lemma digits_all: "list_all is_digit (digits n)"
proof (induction n rule: digits.induct)
  case (1 n)
  then show ?case
    by (subst digits.simps) (auto simp: is_digit_digit_char)
qed

lemma digits_val_append: "digits_val acc (s @ t) = digits_val (digits_val acc s) t"
  by (induction s arbitrary: acc) auto

lemma digits_val_digits: "digits_val 0 (digits n) = n"
proof (induction n rule: digits.induct)
  case (1 n)
  show ?case
  proof (cases "n < 10")
    case True
    then show ?thesis by (subst digits.simps) (simp add: digit_val_digit_char)
  next
    case False
    with "1.IH" show ?thesis
      by (subst digits.simps) (simp add: digits_val_append digit_val_digit_char)
  qed
qed

lemma atoi_digits: "int n < 2 ^ 63 \<Longrightarrow> atoi (digits n) = Some (int n)"
proof -
  assume n: "int n < 2 ^ 63"
  obtain c t where d: "digits n = c # t" by (cases "digits n") auto
  with digits_all[of n] have "is_digit c" by simp
  then have "c \<noteq> CHR ''-''" and "c \<noteq> CHR ''+''" by (auto simp: is_digit_def)
  moreover have "atoi_unsigned (c # t) = Some n"
    using d digits_all[of n] digits_val_digits[of n] by simp
  ultimately show ?thesis using n d by (simp add: atoi_def in_int64_def)
qed

lemma itoa_nonneg: "0 \<le> n \<Longrightarrow> itoa n = digits (nat n)"
  by (simp add: itoa_def)

lemma atoi_itoa: "0 \<le> n \<Longrightarrow> in_int64 n \<Longrightarrow> atoi (itoa n) = Some n"
  using atoi_digits[of "nat n"] by (simp add: itoa_nonneg in_int64_def)

lemma digits_inj: "digits m = digits n \<Longrightarrow> m = n"
  by (metis digits_val_digits)

section \<open>Machines with an invariant\<close>

text \<open>
  The interface every stateful component offers its clients: operations as labelled steps of a
  function, a starting state and an invariant that every step keeps. A client runs any sequence
  of operations.
\<close>

locale machine =
  fixes step :: "'s \<Rightarrow> 'op \<Rightarrow> 's"
    and inv :: "'s \<Rightarrow> bool"
  assumes step_inv: "inv s \<Longrightarrow> inv (step s op)"
begin

lemma run_inv: "inv s \<Longrightarrow> inv (foldl step s ops)"
  by (induction ops arbitrary: s) (auto simp: step_inv)

text \<open>A quantity no step lowers is no lower after a run.\<close>

lemma run_mono:
  fixes q :: "'s \<Rightarrow> 'q::preorder"
  assumes "\<And>s op. inv s \<Longrightarrow> q s \<le> q (step s op)" and "inv s"
  shows "q s \<le> q (foldl step s ops)"
  using assms(2)
proof (induction ops arbitrary: s)
  case Nil
  then show ?case by simp
next
  case (Cons op ops)
  from Cons.prems have "q s \<le> q (step s op)" by (rule assms(1))
  also have "\<dots> \<le> q (foldl step (step s op) ops)"
    using Cons.prems by (intro Cons.IH step_inv)
  finally show ?case by simp
qed

end

end
