(* ===== verification/Go_Map.thy ===== *)
theory Go_Map
  imports Prelude "HOL-Library.AList"
begin

text \<open>
  Go's built-in \<open>map[K]V\<close> as an association list with one entry per key: lookup with the
  comma-ok form, assignment, \<open>delete\<close>, \<open>len\<close> and the keys a \<open>range\<close> visits. The
  interface is the locale \<open>go_map\<close>; the components use its laws through the interpretation
  \<open>gm\<close>. Iteration order is unspecified in Go; where a component ranges over a map, its
  theory says why the order does not reach the result.
\<close>

type_synonym ('k, 'v) gmap = "('k \<times> 'v) list"

definition m_get :: "('k, 'v) gmap \<Rightarrow> 'k \<Rightarrow> 'v option" where
  "m_get m k = map_of m k"

definition m_put :: "'k \<Rightarrow> 'v \<Rightarrow> ('k, 'v) gmap \<Rightarrow> ('k, 'v) gmap" where
  "m_put k v m = AList.update k v m"

definition m_del :: "'k \<Rightarrow> ('k, 'v) gmap \<Rightarrow> ('k, 'v) gmap" where
  "m_del k m = AList.delete k m"

definition m_keys :: "('k, 'v) gmap \<Rightarrow> 'k list" where
  "m_keys m = map fst m"

definition m_ok :: "('k, 'v) gmap \<Rightarrow> bool" where
  "m_ok m \<longleftrightarrow> distinct (map fst m)"

section \<open>The interface\<close>

locale go_map =
  fixes get :: "'m \<Rightarrow> 'k \<Rightarrow> 'v option"
    and put :: "'k \<Rightarrow> 'v \<Rightarrow> 'm \<Rightarrow> 'm"
    and del :: "'k \<Rightarrow> 'm \<Rightarrow> 'm"
    and keys :: "'m \<Rightarrow> 'k list"
    and ok :: "'m \<Rightarrow> bool"
  assumes get_put: "get (put k v m) k' = (if k' = k then Some v else get m k')"
    and get_del: "get (del k m) k' = (if k' = k then None else get m k')"
    and ok_put: "ok m \<Longrightarrow> ok (put k v m)"
    and ok_del: "ok m \<Longrightarrow> ok (del k m)"
    and set_keys: "set (keys m) = dom (get m)"
    and distinct_keys: "ok m \<Longrightarrow> distinct (keys m)"
begin

lemma finite_dom_get: "finite (dom (get m))"
  by (metis List.finite_set set_keys)

lemma get_put_fun: "get (put k v m) = (get m)(k \<mapsto> v)"
  by (rule ext) (simp add: get_put)

lemma get_del_fun: "get (del k m) = (get m)(k := None)"
  by (rule ext) (simp add: get_del)

lemma len_keys: "ok m \<Longrightarrow> length (keys m) = card (dom (get m))"
  by (metis distinct_card distinct_keys set_keys)

text \<open>\<open>len\<close> grows by one exactly when the key is new.\<close>

lemma len_put:
  "ok m \<Longrightarrow> length (keys (put k v m)) = (if get m k = None then Suc (length (keys m)) else length (keys m))"
proof -
  assume ok: "ok m"
  have "length (keys (put k v m)) = card (insert k (dom (get m)))"
    by (simp add: len_keys ok ok_put get_put_fun)
  also have "\<dots> = (if k \<in> dom (get m) then card (dom (get m)) else Suc (card (dom (get m))))"
    by (simp add: card_insert_if finite_dom_get)
  finally show ?thesis by (auto simp: len_keys ok)
qed

lemma len_del: "ok m \<Longrightarrow> length (keys (del k m)) \<le> length (keys m)"
  by (simp add: len_keys ok_del get_del_fun card_mono finite_dom_get)

end

lemma m_get_map_of: "m_get m = map_of m"
  by (rule ext) (simp add: m_get_def)

interpretation gm: go_map m_get m_put m_del m_keys m_ok
  by unfold_locales
    (simp_all add: m_get_map_of m_put_def m_del_def m_keys_def m_ok_def AList.update_conv'
      AList.delete_conv' dom_map_of_conv_image_fst AList.distinct_update AList.distinct_delete)

declare gm.get_put [simp] gm.get_del [simp] gm.set_keys [simp]

lemma m_get_Nil [simp]: "m_get [] k = None"
  by (simp add: m_get_def)

lemma m_get_map [simp]: "m_get (map (\<lambda>(k, v). (k, h v)) m) k = map_option h (m_get m k)"
  unfolding m_get_def by (induction m) auto

lemma m_get_entry: "m_ok m \<Longrightarrow> m_get m k = Some v \<longleftrightarrow> (k, v) \<in> set m"
  by (simp add: m_ok_def m_get_def)

lemma m_ok_map [simp]: "m_ok (map (\<lambda>(k, v). (k, h v)) m) = m_ok m"
  by (simp add: m_ok_def comp_def case_prod_unfold)

lemma m_del_Nil [simp]: "m_del k [] = []"
  by (simp add: m_del_def)

lemma m_ok_Nil [simp]: "m_ok []"
  by (simp add: m_ok_def)

lemmas gm_ok [simp, intro] = gm.ok_put gm.ok_del

section \<open>Maps of slices\<close>

text \<open>Reading a missing key gives the nil slice; \<open>m[k] = append(m[k], v)\<close>.\<close>

definition m_list :: "('k, 'v list) gmap \<Rightarrow> 'k \<Rightarrow> 'v list" where
  "m_list m k = (case m_get m k of None \<Rightarrow> [] | Some l \<Rightarrow> l)"

definition m_append :: "'k \<Rightarrow> 'v \<Rightarrow> ('k, 'v list) gmap \<Rightarrow> ('k, 'v list) gmap" where
  "m_append k v m = m_put k (m_list m k @ [v]) m"

lemma m_list_append [simp]: "m_list (m_append k v m) j = (if j = k then m_list m k @ [v] else m_list m j)"
  by (simp add: m_append_def m_list_def)

lemma m_list_Nil [simp]: "m_list [] k = []"
  by (simp add: m_list_def)

section \<open>A sum over the entries of a map\<close>

definition msum :: "('k \<Rightarrow> 'v \<Rightarrow> int) \<Rightarrow> ('k \<rightharpoonup> 'v) \<Rightarrow> int" where
  "msum w f = (\<Sum>k \<in> dom f. w k (the (f k)))"

lemma msum_empty [simp]: "msum w Map.empty = 0"
  by (simp add: msum_def)

lemma msum_delete:
  "finite (dom f) \<Longrightarrow> f k = Some v \<Longrightarrow> msum w (f(k := None)) = msum w f - w k v"
proof -
  assume fin: "finite (dom f)" and k: "f k = Some v"
  have "msum w f = w k v + (\<Sum>j \<in> dom f - {k}. w j (the (f j)))"
    unfolding msum_def using fin k by (simp add: sum.remove[of "dom f" k] domI)
  moreover have "(\<Sum>j \<in> dom f - {k}. w j (the (f j))) = msum w (f(k := None))"
    unfolding msum_def by (rule sum.cong) auto
  ultimately show ?thesis by simp
qed

lemma msum_insert:
  "finite (dom f) \<Longrightarrow> f k = None \<Longrightarrow> msum w (f(k \<mapsto> v)) = msum w f + w k v"
proof -
  assume fin: "finite (dom f)" and k: "f k = None"
  have "msum w (f(k \<mapsto> v)) = w k v + (\<Sum>j \<in> dom f. w j (the ((f(k \<mapsto> v)) j)))"
    unfolding msum_def using fin k by (simp add: domIff)
  moreover have "(\<Sum>j \<in> dom f. w j (the ((f(k \<mapsto> v)) j))) = msum w f"
    unfolding msum_def using k by (intro sum.cong) (auto simp: domIff)
  ultimately show ?thesis by simp
qed

lemma msum_update:
  "finite (dom f) \<Longrightarrow> f k = Some old \<Longrightarrow> msum w (f(k \<mapsto> v)) = msum w f - w k old + w k v"
proof -
  assume fin: "finite (dom f)" and k: "f k = Some old"
  let ?g = "f(k := None)"
  have "finite (dom ?g)" and "?g k = None" using fin by simp_all
  then have "msum w (?g(k \<mapsto> v)) = msum w ?g + w k v" by (rule msum_insert)
  then show ?thesis using msum_delete[OF fin k, of w] by simp
qed

lemma msum_nonneg: "(\<And>k v. 0 \<le> w k v) \<Longrightarrow> 0 \<le> msum w f"
  unfolding msum_def by (rule sum_nonneg) simp

end
