(* ===== verification/Topology.thy ===== *)
theory Topology
  imports Go_Map
begin

text \<open>
  \<^verbatim>\<open>internal/team/topology.go\<close>: the edge list of a team resolved against its agents. A
  topology is the sorted agent names and the permitted pairs (\<open>allowed\<close>, from to to);
  \<open>newTopology\<close> builds one or refuses, \<open>topo_attach\<close> and \<open>topo_detach\<close> are the two
  mutations a spawn performs, and the rest are queries. Each method holds the topology's lock
  for its whole body, so each is one step.
\<close>

section \<open>Data\<close>

record edge =
  edge_from :: string
  edge_to :: string
  bidirectional :: bool

record topology =
  agents :: "string list"
  allowed :: "(string, (string, bool) gmap) gmap"

datatype topo_error =
    EmptyAgentName
  | AgentNameTooLong string nat
  | AgentNameChar string char
  | DuplicateAgent string
  | MintedName string string
  | EmptyEndpoint
  | MatchesNoAgent
  | NoSuchEndpoint
  | EdgeFrom string topo_error
  | EdgeTo string topo_error

section \<open>Agent names\<close>

definition name_char :: "char \<Rightarrow> bool" where
  "name_char c \<longleftrightarrow>
     (CHR ''a'' \<le> c \<and> c \<le> CHR ''z'') \<or> (CHR ''A'' \<le> c \<and> c \<le> CHR ''Z'') \<or>
     (CHR ''0'' \<le> c \<and> c \<le> CHR ''9'') \<or> c = CHR ''-'' \<or> c = CHR ''_'' \<or> c = CHR ''.''"

text \<open>
  The source ranges over runes; a byte of \<open>0x80\<close> and above is part of a rune outside the ASCII
  ranges, and the first such rune is reported, here by its first byte.
\<close>

definition validAgentName :: "string \<Rightarrow> topo_error + unit" where
  "validAgentName name =
     (if name = [] then Inl EmptyAgentName
      else if length name > 64 then Inl (AgentNameTooLong (take 32 name) (length name))
      else case find (\<lambda>c. \<not> name_char c) name of
             Some c \<Rightarrow> Inl (AgentNameChar name c)
           | None \<Rightarrow> Inr ())"

definition spawn_sep :: string where
  "spawn_sep = ''-spawn-''"

definition mintedSpawnName :: "string \<Rightarrow> string list \<Rightarrow> string option" where
  "mintedSpawnName name known =
     (case lastIndexOf name spawn_sep of
        None \<Rightarrow> None
      | Some i \<Rightarrow>
          let spawner = take i name; num = drop (i + length spawn_sep) name in
          if spawner \<notin> set known then None
          else case atoi num of
                 None \<Rightarrow> None
               | Some n \<Rightarrow> if n < 1 \<or> itoa n \<noteq> num then None else Some spawner)"

section \<open>Building a topology\<close>

definition row :: "(string, (string, bool) gmap) gmap \<Rightarrow> string \<Rightarrow> (string, bool) gmap" where
  "row m f = (case m_get m f of None \<Rightarrow> [] | Some r \<Rightarrow> r)"

definition permit :: "string \<Rightarrow> string \<Rightarrow> topology \<Rightarrow> topology" where
  "permit f g t = t\<lparr>allowed := m_put f (m_put g True (row (allowed t) f)) (allowed t)\<rparr>"

definition expand :: "string \<Rightarrow> string list \<Rightarrow> topo_error + string list" where
  "expand spec ags =
     (if spec = [] then Inl EmptyEndpoint
      else case cutSuffix spec ''*'' of
             Some p \<Rightarrow>
               (let out = filter (\<lambda>a. hasPrefix a p) ags
                in if out = [] then Inl MatchesNoAgent else Inr out)
           | None \<Rightarrow> if spec \<in> set ags then Inr [spec] else Inl NoSuchEndpoint)"

fun check_names :: "string list \<Rightarrow> string list \<Rightarrow> topo_error + string list" where
  "check_names known [] = Inr known"
| "check_names known (a # as) =
     (case validAgentName a of
        Inl e \<Rightarrow> Inl e
      | Inr _ \<Rightarrow> if a \<in> set known then Inl (DuplicateAgent a) else check_names (a # known) as)"

fun check_minted :: "string list \<Rightarrow> string list \<Rightarrow> topo_error + unit" where
  "check_minted known [] = Inr ()"
| "check_minted known (a # as) =
     (case mintedSpawnName a known of
        Some spawner \<Rightarrow> Inl (MintedName a spawner)
      | None \<Rightarrow> check_minted known as)"

fun permit_pairs :: "bool \<Rightarrow> (string \<times> string) list \<Rightarrow> topology \<Rightarrow> topology" where
  "permit_pairs bi [] t = t"
| "permit_pairs bi ((f, g) # ps) t =
     permit_pairs bi ps
       (if f = g then t else if bi then permit g f (permit f g t) else permit f g t)"

fun add_edges :: "edge list \<Rightarrow> topology \<Rightarrow> topo_error + topology" where
  "add_edges [] t = Inr t"
| "add_edges (e # es) t =
     (case expand (edge_from e) (agents t) of
        Inl err \<Rightarrow> Inl (EdgeFrom (edge_from e) err)
      | Inr fs \<Rightarrow>
          (case expand (edge_to e) (agents t) of
             Inl err \<Rightarrow> Inl (EdgeTo (edge_to e) err)
           | Inr gs \<Rightarrow> add_edges es (permit_pairs (bidirectional e) (List.product fs gs) t)))"

definition newTopology :: "string list \<Rightarrow> edge list \<Rightarrow> topo_error + topology" where
  "newTopology as es =
     (case check_names [] as of
        Inl e \<Rightarrow> Inl e
      | Inr known \<Rightarrow>
          (case check_minted known as of
             Inl e \<Rightarrow> Inl e
           | Inr _ \<Rightarrow> add_edges es \<lparr>agents = sort as, allowed = []\<rparr>))"

section \<open>Mutation and queries\<close>

definition topo_attach :: "string \<Rightarrow> string \<Rightarrow> topology \<Rightarrow> topology" where
  "topo_attach name spawner t =
     permit name spawner (permit spawner name (t\<lparr>agents := sort (agents t @ [name])\<rparr>))"

definition topo_detach :: "string \<Rightarrow> topology \<Rightarrow> topology" where
  "topo_detach name t =
     t\<lparr>agents := remove1 name (agents t),
       allowed := map (\<lambda>(f, r). (f, m_del name r)) (m_del name (allowed t))\<rparr>"

definition topo_allows :: "topology \<Rightarrow> string \<Rightarrow> string \<Rightarrow> bool" where
  "topo_allows t f g = (m_get (row (allowed t) f) g = Some True)"

definition topo_exists :: "topology \<Rightarrow> string \<Rightarrow> bool" where
  "topo_exists t name = (name \<in> set (agents t))"

definition peersOf :: "topology \<Rightarrow> string \<Rightarrow> string list" where
  "peersOf t a = sort (m_keys (row (allowed t) a))"

section \<open>Minted names\<close>

text \<open>The name \<^verbatim>\<open>fmt.Sprintf("%s-spawn-%d", spawner, n)\<close> of \<^verbatim>\<open>spawn.go\<close>.\<close>

definition mint :: "string \<Rightarrow> int \<Rightarrow> string" where
  "mint spawner n = spawner @ spawn_sep @ itoa n"

lemma spawn_sep_unrepeated: "\<forall>a b. tl (spawn_sep @ digits n) \<noteq> a @ spawn_sep @ b"
proof (intro allI notI)
  fix a b
  assume eq: "tl (spawn_sep @ digits n) = a @ spawn_sep @ b"
  have nos: "CHR ''s'' \<notin> set (digits n)"
    using digits_all[of n] by (auto simp: list_all_iff is_digit_def)
  show False
  proof (cases a)
    case Nil
    with eq show False by (simp add: spawn_sep_def)
  next
    case (Cons x a')
    with eq have "''pawn-'' @ digits n = a' @ spawn_sep @ b" by (simp add: spawn_sep_def)
    then have "CHR ''s'' \<in> set (''pawn-'' @ digits n)" by (simp add: spawn_sep_def)
    with nos show False by simp
  qed
qed

lemma lastIndexOf_mint: "lastIndexOf (s @ spawn_sep @ digits n) spawn_sep = Some (length s)"
  by (rule lastIndexOf_append [OF spawn_sep_unrepeated]) (simp add: spawn_sep_def)

lemma mintedSpawnName_iff:
  "mintedSpawnName name known = Some s \<longleftrightarrow>
     s \<in> set known \<and> (\<exists>n. 1 \<le> n \<and> in_int64 n \<and> name = mint s n)"
proof
  assume asm: "mintedSpawnName name known = Some s"
  then obtain i n where i: "lastIndexOf name spawn_sep = Some i" and s: "s = take i name"
    and "s \<in> set known" and at: "atoi (drop (i + length spawn_sep) name) = Some n" and "\<not> n < 1"
    and it: "itoa n = drop (i + length spawn_sep) name"
    by (auto simp: mintedSpawnName_def Let_def split: option.splits if_splits)
  moreover from lastIndexOf_Some[OF i] obtain t where t: "name = take i name @ spawn_sep @ t"
    and "i \<le> length name" by blast
  moreover from t \<open>i \<le> length name\<close> have "drop (i + length spawn_sep) name = t"
    by (metis append_eq_conv_conj drop_drop length_take min.absorb2 add.commute)
  moreover from at have "in_int64 n" by (auto simp: atoi_def split: option.splits if_splits)
  ultimately have "name = mint s n" and "s \<in> set known" and "1 \<le> n" and "in_int64 n"
    by (simp_all add: mint_def)
  then show "s \<in> set known \<and> (\<exists>n. 1 \<le> n \<and> in_int64 n \<and> name = mint s n)"
    by blast
next
  assume "s \<in> set known \<and> (\<exists>n. 1 \<le> n \<and> in_int64 n \<and> name = mint s n)"
  then obtain n where s: "s \<in> set known" and n: "1 \<le> n" "in_int64 n" and name: "name = mint s n"
    by blast
  have "lastIndexOf name spawn_sep = Some (length s)"
    using n by (simp add: name mint_def itoa_nonneg lastIndexOf_mint)
  with s n show "mintedSpawnName name known = Some s"
    by (simp add: mintedSpawnName_def name mint_def atoi_itoa)
qed

lemma mint_inj: "1 \<le> m \<Longrightarrow> 1 \<le> n \<Longrightarrow> mint s m = mint u n \<Longrightarrow> s = u \<and> m = n"
proof -
  assume mn: "1 \<le> m" "1 \<le> n" and eq: "mint s m = mint u n"
  then have "Some (length s) = Some (length u)"
    using lastIndexOf_mint[of s "nat m"] lastIndexOf_mint[of u "nat n"]
    by (simp add: mint_def itoa_nonneg)
  with eq have "s = u" and "itoa m = itoa n" by (simp_all add: mint_def)
  moreover from this mn have "nat m = nat n" by (intro digits_inj) (simp add: itoa_nonneg)
  ultimately show ?thesis using mn by simp
qed

section \<open>What the permitted pairs are\<close>

lemma row_put [simp]: "row (m_put k r m) f = (if f = k then r else row m f)"
  by (simp add: row_def)

lemma allows_permit [simp]:
  "topo_allows (permit f g t) a b \<longleftrightarrow> (a = f \<and> b = g) \<or> topo_allows t a b"
  by (auto simp: topo_allows_def permit_def)

lemma agents_permit [simp]: "agents (permit f g t) = agents t"
  by (simp add: permit_def)

lemma agents_permit_pairs [simp]: "agents (permit_pairs bi ps t) = agents t"
  by (induction bi ps t rule: permit_pairs.induct) auto

lemma allows_permit_pairs:
  "topo_allows (permit_pairs bi ps t) a b \<longleftrightarrow>
     topo_allows t a b \<or> (a \<noteq> b \<and> ((a, b) \<in> set ps \<or> (bi \<and> (b, a) \<in> set ps)))"
  by (induction bi ps t rule: permit_pairs.induct) auto

text \<open>An endpoint of an edge or of a store rule names an agent, exactly or by a trailing star.\<close>

definition endpoint_matches :: "string \<Rightarrow> string \<Rightarrow> bool" where
  "endpoint_matches spec a =
     (case cutSuffix spec ''*'' of Some p \<Rightarrow> hasPrefix a p | None \<Rightarrow> a = spec)"

lemma expand_set:
  "expand spec ags = Inr out \<Longrightarrow> set out = {a \<in> set ags. endpoint_matches spec a}"
  by (auto simp: expand_def endpoint_matches_def Let_def split: if_splits option.splits)

lemma expand_ok:
  "(\<exists>out. expand spec ags = Inr out) \<longleftrightarrow> spec \<noteq> [] \<and> (\<exists>a \<in> set ags. endpoint_matches spec a)"
proof (cases "cutSuffix spec ''*''")
  case None
  then show ?thesis by (cases "spec \<in> set ags") (simp_all add: expand_def endpoint_matches_def)
next
  case (Some p)
  have "filter (\<lambda>a. hasPrefix a p) ags = [] \<longleftrightarrow> \<not> (\<exists>a \<in> set ags. hasPrefix a p)"
    by (simp add: filter_empty_conv)
  with Some show ?thesis
    by (cases "filter (\<lambda>a. hasPrefix a p) ags = []")
      (simp_all add: expand_def endpoint_matches_def Let_def)
qed

text \<open>The pairs one declared edge grants.\<close>

definition edge_grants :: "edge \<Rightarrow> string \<Rightarrow> string \<Rightarrow> bool" where
  "edge_grants e f g \<longleftrightarrow> f \<noteq> g \<and>
     (endpoint_matches (edge_from e) f \<and> endpoint_matches (edge_to e) g \<or>
      bidirectional e \<and> endpoint_matches (edge_from e) g \<and> endpoint_matches (edge_to e) f)"

lemma add_edges_Cons_Inr:
  "add_edges (e # es) t = Inr t' \<longleftrightarrow>
     (\<exists>fs gs. expand (edge_from e) (agents t) = Inr fs \<and> expand (edge_to e) (agents t) = Inr gs \<and>
        add_edges es (permit_pairs (bidirectional e) (List.product fs gs) t) = Inr t')"
  by (simp split: sum.split)

lemma agents_add_edges: "add_edges es t = Inr t' \<Longrightarrow> agents t' = agents t"
proof (induction es arbitrary: t)
  case Nil
  then show ?case by simp
next
  case (Cons e es)
  then obtain u where "add_edges es u = Inr t'" and "agents u = agents t"
    by (auto simp: add_edges_Cons_Inr simp del: add_edges.simps)
  with Cons.IH[of u] show ?case by simp
qed

lemma allows_add_edges:
  "add_edges es t = Inr t' \<Longrightarrow>
     topo_allows t' f g \<longleftrightarrow> topo_allows t f g \<or>
       (f \<in> set (agents t) \<and> g \<in> set (agents t) \<and> (\<exists>e \<in> set es. edge_grants e f g))"
proof (induction es arbitrary: t)
  case Nil
  then show ?case by simp
next
  case (Cons e es)
  then obtain fs gs where fs: "expand (edge_from e) (agents t) = Inr fs"
    and gs: "expand (edge_to e) (agents t) = Inr gs"
    and rest: "add_edges es (permit_pairs (bidirectional e) (List.product fs gs) t) = Inr t'"
    unfolding add_edges_Cons_Inr by blast
  from Cons.IH[OF rest] expand_set[OF fs] expand_set[OF gs] show ?case
    by (auto simp: allows_permit_pairs edge_grants_def)
qed

lemma add_edges_ok:
  "(\<exists>t'. add_edges es t = Inr t') \<longleftrightarrow>
     (\<forall>e \<in> set es. (\<exists>out. expand (edge_from e) (agents t) = Inr out) \<and>
                   (\<exists>out. expand (edge_to e) (agents t) = Inr out))"
proof (induction es arbitrary: t)
  case Nil
  then show ?case by simp
next
  case (Cons e es)
  have "(\<exists>t'. add_edges (e # es) t = Inr t') \<longleftrightarrow>
      (\<exists>fs gs. expand (edge_from e) (agents t) = Inr fs \<and> expand (edge_to e) (agents t) = Inr gs \<and>
        (\<exists>t'. add_edges es (permit_pairs (bidirectional e) (List.product fs gs) t) = Inr t'))"
    unfolding add_edges_Cons_Inr by blast
  then show ?case unfolding Cons.IH by simp
qed

lemma check_names_Inr:
  "check_names known as = Inr k \<longleftrightarrow>
     k = rev as @ known \<and> (\<forall>a \<in> set as. validAgentName a = Inr ()) \<and> distinct as \<and>
     set as \<inter> set known = {}"
  by (induction known as rule: check_names.induct) (auto split: sum.splits)

lemma mintedSpawnName_cong: "set known = set known' \<Longrightarrow> mintedSpawnName a known = mintedSpawnName a known'"
  by (simp add: mintedSpawnName_def Let_def split: option.split)

lemma check_minted_Inr:
  "check_minted known as = Inr () \<longleftrightarrow> (\<forall>a \<in> set as. mintedSpawnName a known = None)"
  by (induction known as rule: check_minted.induct) (auto split: option.splits)

lemma newTopology_Inr:
  "newTopology as es = Inr t \<longleftrightarrow>
     (\<forall>a \<in> set as. validAgentName a = Inr ()) \<and> distinct as \<and>
     (\<forall>a \<in> set as. mintedSpawnName a as = None) \<and>
     add_edges es \<lparr>agents = sort as, allowed = []\<rparr> = Inr t"
proof (cases "check_names [] as")
  case (Inl e)
  then have "\<not> ((\<forall>a \<in> set as. validAgentName a = Inr ()) \<and> distinct as)"
    using check_names_Inr[of "[]" as "rev as"] by auto
  with Inl show ?thesis by (auto simp: newTopology_def)
next
  case (Inr k)
  then have k: "k = rev as" and ok: "\<forall>a \<in> set as. validAgentName a = Inr ()" "distinct as"
    by (auto simp: check_names_Inr)
  from k have same: "mintedSpawnName a k = mintedSpawnName a as" for a
    by (intro mintedSpawnName_cong) simp
  show ?thesis
  proof (cases "check_minted k as")
    case (Inl e)
    with check_minted_Inr[of k as] have "\<not> (\<forall>a \<in> set as. mintedSpawnName a as = None)"
      by (auto simp: same)
    with Inl Inr show ?thesis by (auto simp: newTopology_def)
  next
    case (Inr u)
    with check_minted_Inr[of k as] have "\<forall>a \<in> set as. mintedSpawnName a as = None"
      by (auto simp: same)
    with ok Inr \<open>check_names [] as = Inr k\<close> show ?thesis by (auto simp: newTopology_def)
  qed
qed

section \<open>The invariant\<close>

text \<open>
  Agents are sorted and distinct; every stored row maps its keys to \<^const>\<open>True\<close>; a permitted
  pair joins two different agents of the team.
\<close>

definition topo_ok :: "topology \<Rightarrow> bool" where
  "topo_ok t \<longleftrightarrow> sorted (agents t) \<and> distinct (agents t) \<and>
     (\<forall>f. m_ok (row (allowed t) f) \<and> (\<forall>g b. m_get (row (allowed t) f) g = Some b \<longrightarrow> b)) \<and>
     (\<forall>f g. topo_allows t f g \<longrightarrow> f \<noteq> g \<and> f \<in> set (agents t) \<and> g \<in> set (agents t))"

definition rows_ok :: "topology \<Rightarrow> bool" where
  "rows_ok t \<longleftrightarrow>
     (\<forall>f. m_ok (row (allowed t) f) \<and> (\<forall>g b. m_get (row (allowed t) f) g = Some b \<longrightarrow> b))"

lemma rows_ok_agents_update [simp]: "rows_ok (t\<lparr>agents := as\<rparr>) = rows_ok t"
  by (simp add: rows_ok_def)

lemma rows_ok_permit: "rows_ok t \<Longrightarrow> rows_ok (permit f g t)"
  by (auto simp: rows_ok_def permit_def)

lemma rows_ok_permit_pairs: "rows_ok t \<Longrightarrow> rows_ok (permit_pairs bi ps t)"
  by (induction bi ps t rule: permit_pairs.induct) (auto simp: rows_ok_permit)

lemma rows_ok_add_edges: "add_edges es t = Inr t' \<Longrightarrow> rows_ok t \<Longrightarrow> rows_ok t'"
proof (induction es arbitrary: t)
  case Nil
  then show ?case by simp
next
  case (Cons e es)
  then show ?case unfolding add_edges_Cons_Inr by (blast intro: rows_ok_permit_pairs)
qed

lemma topo_okI:
  "sorted (agents t) \<Longrightarrow> distinct (agents t) \<Longrightarrow> rows_ok t \<Longrightarrow>
     (\<And>f g. topo_allows t f g \<Longrightarrow> f \<noteq> g \<and> f \<in> set (agents t) \<and> g \<in> set (agents t)) \<Longrightarrow> topo_ok t"
  unfolding topo_ok_def rows_ok_def by blast

lemma topo_ok_rows: "topo_ok t \<Longrightarrow> rows_ok t"
  unfolding topo_ok_def rows_ok_def by blast

lemma topo_ok_agents: "topo_ok t \<Longrightarrow> sorted (agents t) \<and> distinct (agents t)"
  by (simp add: topo_ok_def)

lemma topo_ok_allows: "topo_ok t \<Longrightarrow> topo_allows t f g \<Longrightarrow>
    f \<noteq> g \<and> f \<in> set (agents t) \<and> g \<in> set (agents t)"
  by (simp add: topo_ok_def)

lemma allows_fresh [simp]: "topo_allows \<lparr>agents = as, allowed = []\<rparr> f g = False"
  by (simp add: topo_allows_def row_def)

lemma newTopology_ok: "newTopology as es = Inr t \<Longrightarrow> topo_ok t"
proof -
  assume "newTopology as es = Inr t"
  then have d: "distinct as" and e: "add_edges es \<lparr>agents = sort as, allowed = []\<rparr> = Inr t"
    by (simp_all add: newTopology_Inr)
  have ags: "agents t = sort as" using agents_add_edges[OF e] by simp
  show ?thesis
  proof (rule topo_okI)
    show "sorted (agents t)" "distinct (agents t)" using ags d by simp_all
    show "rows_ok t" by (rule rows_ok_add_edges[OF e]) (simp add: rows_ok_def row_def)
    show "\<And>f g. topo_allows t f g \<Longrightarrow> f \<noteq> g \<and> f \<in> set (agents t) \<and> g \<in> set (agents t)"
      using allows_add_edges[OF e] ags by (auto simp: edge_grants_def)
  qed
qed

section \<open>Attach and detach\<close>

lemma agents_attach [simp]: "set (agents (topo_attach n s t)) = insert n (set (agents t))"
  by (simp add: topo_attach_def)

lemma allows_agents_update [simp]: "topo_allows (t\<lparr>agents := as\<rparr>) f g = topo_allows t f g"
  by (simp add: topo_allows_def)

lemma allows_attach:
  "topo_allows (topo_attach n s t) f g \<longleftrightarrow>
     (f = s \<and> g = n) \<or> (f = n \<and> g = s) \<or> topo_allows t f g"
  by (auto simp: topo_attach_def)

lemma row_detach: "row (allowed (topo_detach n t)) f = (if f = n then [] else m_del n (row (allowed t) f))"
  by (simp add: topo_detach_def row_def split: option.split)

lemma allows_detach:
  "topo_allows (topo_detach n t) f g \<longleftrightarrow> f \<noteq> n \<and> g \<noteq> n \<and> topo_allows t f g"
  by (auto simp: topo_allows_def row_detach)

lemma agents_detach: "distinct (agents t) \<Longrightarrow> set (agents (topo_detach n t)) = set (agents t) - {n}"
  by (simp add: topo_detach_def set_remove1_eq)

lemma topo_ok_attach:
  "topo_ok t \<Longrightarrow> n \<notin> set (agents t) \<Longrightarrow> s \<in> set (agents t) \<Longrightarrow> topo_ok (topo_attach n s t)"
proof (rule topo_okI)
  assume ok: "topo_ok t" and n: "n \<notin> set (agents t)" and s: "s \<in> set (agents t)"
  show "sorted (agents (topo_attach n s t))" by (simp add: topo_attach_def)
  show "distinct (agents (topo_attach n s t))"
    using n topo_ok_agents[OF ok] by (simp add: topo_attach_def)
  have "rows_ok (t\<lparr>agents := sort (agents t @ [n])\<rparr>)"
    using topo_ok_rows[OF ok] by simp
  then show "rows_ok (topo_attach n s t)" by (simp add: topo_attach_def rows_ok_permit)
  fix f g assume "topo_allows (topo_attach n s t) f g"
  then show "f \<noteq> g \<and> f \<in> set (agents (topo_attach n s t)) \<and> g \<in> set (agents (topo_attach n s t))"
    using n s topo_ok_allows[OF ok, of f g] by (auto simp: allows_attach)
qed

lemma topo_ok_detach: "topo_ok t \<Longrightarrow> topo_ok (topo_detach n t)"
proof (rule topo_okI)
  assume ok: "topo_ok t"
  then have sd: "sorted (agents t)" "distinct (agents t)" by (simp_all add: topo_ok_agents)
  show "sorted (agents (topo_detach n t))" "distinct (agents (topo_detach n t))"
    using sd by (simp_all add: topo_detach_def sorted_remove1)
  show "rows_ok (topo_detach n t)"
    using topo_ok_rows[OF ok] by (auto simp: rows_ok_def row_detach split: if_splits)
  fix f g assume "topo_allows (topo_detach n t) f g"
  then show "f \<noteq> g \<and> f \<in> set (agents (topo_detach n t)) \<and> g \<in> set (agents (topo_detach n t))"
    using topo_ok_allows[OF ok, of f g] by (auto simp: allows_detach agents_detach[OF sd(2)])
qed

section \<open>The interface the broker uses\<close>

text \<open>
  The laws of a peering structure: who exists, who may initiate to whom, and what attaching and
  detaching one member does to both. The client lemmas are what a spawn followed by a despawn
  amounts to for the rest of the team.
\<close>

locale peering =
  fixes exists :: "'t \<Rightarrow> 'a \<Rightarrow> bool"
    and allows :: "'t \<Rightarrow> 'a \<Rightarrow> 'a \<Rightarrow> bool"
    and attach :: "'a \<Rightarrow> 'a \<Rightarrow> 't \<Rightarrow> 't"
    and detach :: "'a \<Rightarrow> 't \<Rightarrow> 't"
    and ok :: "'t \<Rightarrow> bool"
  assumes exists_attach: "exists (attach n s t) a \<longleftrightarrow> a = n \<or> exists t a"
    and allows_attach: "allows (attach n s t) f g \<longleftrightarrow>
      (f = s \<and> g = n) \<or> (f = n \<and> g = s) \<or> allows t f g"
    and exists_detach: "ok t \<Longrightarrow> exists (detach n t) a \<longleftrightarrow> a \<noteq> n \<and> exists t a"
    and allows_detach: "allows (detach n t) f g \<longleftrightarrow> f \<noteq> n \<and> g \<noteq> n \<and> allows t f g"
    and allows_exists: "ok t \<Longrightarrow> allows t f g \<Longrightarrow> f \<noteq> g \<and> exists t f \<and> exists t g"
    and ok_attach: "ok t \<Longrightarrow> \<not> exists t n \<Longrightarrow> exists t s \<Longrightarrow> ok (attach n s t)"
    and ok_detach: "ok t \<Longrightarrow> ok (detach n t)"
begin

lemma attach_frame: "f \<noteq> n \<Longrightarrow> g \<noteq> n \<Longrightarrow> allows (attach n s t) f g = allows t f g"
  by (auto simp: allows_attach)

lemma attach_only_spawner:
  "ok t \<Longrightarrow> \<not> exists t n \<Longrightarrow>
     (allows (attach n s t) n g \<longleftrightarrow> g = s) \<and> (allows (attach n s t) f n \<longleftrightarrow> f = s)"
  using allows_exists by (auto simp: allows_attach)

lemma detach_attach:
  assumes "ok t" and "\<not> exists t n" and "exists t s"
  shows "allows (detach n (attach n s t)) f g = allows t f g"
    and "exists (detach n (attach n s t)) a = exists t a"
  using assms allows_exists[of t f g] exists_detach[OF ok_attach[OF assms]]
  by (auto simp: allows_attach allows_detach exists_attach)

end

interpretation tp: peering topo_exists topo_allows topo_attach topo_detach topo_ok
proof unfold_locales
  fix t n a assume "topo_ok t"
  then show "topo_exists (topo_detach n t) a \<longleftrightarrow> a \<noteq> n \<and> topo_exists t a"
    using agents_detach[of t n] by (auto simp: topo_exists_def topo_ok_agents)
next
  fix t n s assume "topo_ok t" and "\<not> topo_exists t n" and "topo_exists t s"
  then show "topo_ok (topo_attach n s t)" by (simp add: topo_exists_def topo_ok_attach)
qed (auto simp: topo_exists_def allows_attach allows_detach topo_ok_allows topo_ok_detach
    dest: topo_ok_allows)

section \<open>Peers\<close>

lemma peersOf_spec:
  "topo_ok t \<Longrightarrow> sorted (peersOf t a) \<and> distinct (peersOf t a) \<and> set (peersOf t a) = {g. topo_allows t a g}"
proof -
  assume ok: "topo_ok t"
  let ?r = "row (allowed t) a"
  from ok have r: "m_ok ?r" "\<And>g b. m_get ?r g = Some b \<Longrightarrow> b" by (auto simp: topo_ok_def)
  have "distinct (m_keys ?r)" using r(1) by (rule gm.distinct_keys)
  moreover have "set (m_keys ?r) = {g. topo_allows t a g}"
    using r(2) by (fastforce simp: topo_allows_def)
  ultimately show ?thesis by (simp add: peersOf_def)
qed

end
