(* ===== verification/Team_Store.thy ===== *)
theory Team_Store
  imports Topology
begin

text \<open>
  \<^verbatim>\<open>internal/team/store.go\<close>, with the events and errors every team operation shares
  (\<^verbatim>\<open>broker.go\<close>). The store is a key/blob map with access rules and three ceilings; a
  call returns the new store, the events it recorded and a value or a refusal. The critical
  section of \<open>Put\<close> is one step; the rules are read-only.
\<close>

section \<open>Events and refusals\<close>

record event =
  ev_type :: string
  ev_from :: string
  ev_to :: string
  ev_kind :: string
  ev_bytes :: nat
  ev_sha :: string
  ev_body :: bytes
  ev_reason :: string
  ev_outcome :: string

text \<open>The zero value of Go's struct: every field empty.\<close>

definition no_event :: event where
  "no_event = \<lparr>ev_type = [], ev_from = [], ev_to = [], ev_kind = [], ev_bytes = 0, ev_sha = [],
     ev_body = [], ev_reason = [], ev_outcome = []\<rparr>"

abbreviation "OutcomeDelivered \<equiv> ''delivered''"
abbreviation "OutcomeRefused \<equiv> ''refused''"
abbreviation "OutcomeUnreachable \<equiv> ''unreachable''"
abbreviation "OutcomeTimeout \<equiv> ''timeout''"

text \<open>One constructor per refusal of the package, with the values its message quotes.\<close>

datatype team_error =
    KeyTooLong nat
  | StoreDenied string string string
  | NotFound string
  | ValueTooLarge nat
  | TooManyKeys
  | StoreFull
  | NoStore
  | NoSuchAgent string
  | NoEdge string string
  | Unreachable string
  | AskTimeout string int
  | RecvTimeout int
  | MissingCorrelation
  | UnknownCorrelation
  | NoSpawnBudget string
  | BudgetExhausted string nat int
  | ImageNotPermitted string string "string list"
  | NameTaken string
  | CannotSpawn
  | BodyNotBase64
  | UnknownOp string
  | HostError string

text \<open>The \<open>Kind\<close> each refusal carries to the guest.\<close>

fun err_kind :: "team_error \<Rightarrow> string" where
  "err_kind (KeyTooLong _) = ''denied''"
| "err_kind (StoreDenied _ _ _) = ''denied''"
| "err_kind (NotFound _) = ''not_found''"
| "err_kind (ValueTooLarge _) = ''denied''"
| "err_kind TooManyKeys = ''denied''"
| "err_kind StoreFull = ''denied''"
| "err_kind NoStore = ''denied''"
| "err_kind (NoSuchAgent _) = ''no_such_agent''"
| "err_kind (NoEdge _ _) = ''no_edge''"
| "err_kind (Unreachable _) = ''unreachable''"
| "err_kind (AskTimeout _ _) = ''timeout''"
| "err_kind (RecvTimeout _) = ''timeout''"
| "err_kind MissingCorrelation = ''denied''"
| "err_kind UnknownCorrelation = ''denied''"
| "err_kind (NoSpawnBudget _) = ''denied''"
| "err_kind (BudgetExhausted _ _ _) = ''denied''"
| "err_kind (ImageNotPermitted _ _ _) = ''denied''"
| "err_kind (NameTaken _) = ''denied''"
| "err_kind CannotSpawn = ''denied''"
| "err_kind BodyNotBase64 = ''bad_request''"
| "err_kind (UnknownOp _) = ''bad_request''"
| "err_kind (HostError _) = ''internal''"

section \<open>The store\<close>

record rule =
  rule_name :: string
  rule_read :: "string list"
  rule_write :: "string list"

record store =
  s_rules :: "rule list"
  s_data :: "(string, bytes) gmap"
  s_bytes :: int

definition MaxValueBytes :: nat where "MaxValueBytes = 1048576"
definition MaxStoreBytes :: nat where "MaxStoreBytes = 67108864"
definition MaxKeyBytes :: nat where "MaxKeyBytes = 1024"
definition MaxStoreKeys :: nat where "MaxStoreKeys = 10000"

lemmas store_limits = MaxValueBytes_def MaxStoreBytes_def MaxKeyBytes_def MaxStoreKeys_def

definition globMatch :: "string \<Rightarrow> string \<Rightarrow> bool" where
  "globMatch pattern s =
     (case cutSuffix pattern ''*'' of Some p \<Rightarrow> hasPrefix s p | None \<Rightarrow> pattern = s)"

datatype store_error = EmptyRuleName | RuleNames string string topo_error

fun check_rule_agents :: "string \<Rightarrow> string list \<Rightarrow> string list \<Rightarrow> store_error + unit" where
  "check_rule_agents name [] ags = Inr ()"
| "check_rule_agents name (who # ws) ags =
     (if who = ''*'' then check_rule_agents name ws ags
      else case expand who ags of
             Inl e \<Rightarrow> Inl (RuleNames name who e)
           | Inr _ \<Rightarrow> check_rule_agents name ws ags)"

fun check_rules :: "rule list \<Rightarrow> string list \<Rightarrow> store_error + unit" where
  "check_rules [] ags = Inr ()"
| "check_rules (r # rs) ags =
     (if rule_name r = [] then Inl EmptyRuleName
      else case check_rule_agents (rule_name r) (rule_read r @ rule_write r) ags of
             Inl e \<Rightarrow> Inl e
           | Inr _ \<Rightarrow> check_rules rs ags)"

definition newStore :: "topology \<Rightarrow> rule list \<Rightarrow> store_error + store" where
  "newStore topo rules =
     (case check_rules rules (agents topo) of
        Inl e \<Rightarrow> Inl e
      | Inr _ \<Rightarrow> Inr \<lparr>s_rules = rules, s_data = [], s_bytes = 0\<rparr>)"

fun may :: "rule list \<Rightarrow> string \<Rightarrow> string \<Rightarrow> bool \<Rightarrow> bool" where
  "may [] agent key write = True"
| "may (r # rs) agent key write =
     (if globMatch (rule_name r) key
      then list_ex (\<lambda>who. who = ''*'' \<or> globMatch who agent)
             (if write then rule_write r else rule_read r)
      else may rs agent key write)"

definition mayRead :: "store \<Rightarrow> string \<Rightarrow> string \<Rightarrow> bool" where
  "mayRead s agent key = may (s_rules s) agent key False"

definition mayWrite :: "store \<Rightarrow> string \<Rightarrow> string \<Rightarrow> bool" where
  "mayWrite s agent key = may (s_rules s) agent key True"

definition store_event :: "string \<Rightarrow> string \<Rightarrow> string \<Rightarrow> nat \<Rightarrow> string \<Rightarrow> string \<Rightarrow> event" where
  "store_event agent key kind n outcome reason =
     no_event\<lparr>ev_type := ''team.store'', ev_from := agent, ev_to := key, ev_kind := kind,
       ev_bytes := n, ev_outcome := outcome, ev_reason := reason\<rparr>"

definition store_get :: "store \<Rightarrow> string \<Rightarrow> string \<Rightarrow> event list \<times> (team_error + bytes)" where
  "store_get s agent key =
     (if length key > MaxKeyBytes
      then ([store_event agent [] ''get'' 0 OutcomeRefused ''key_too_long''], Inl (KeyTooLong (length key)))
      else if \<not> mayRead s agent key
      then ([store_event agent key ''get'' 0 OutcomeRefused ''denied''], Inl (StoreDenied agent ''read'' key))
      else case m_get (s_data s) key of
             None \<Rightarrow> ([store_event agent key ''get'' 0 OutcomeRefused ''no_such_key''], Inl (NotFound key))
           | Some v \<Rightarrow> ([store_event agent key ''get'' (length v) OutcomeDelivered []], Inr v))"

definition store_delete :: "store \<Rightarrow> string \<Rightarrow> store" where
  "store_delete s key =
     (case m_get (s_data s) key of
        Some old \<Rightarrow> s\<lparr>s_bytes := s_bytes s - (int (length old) + int (length key)),
                      s_data := m_del key (s_data s)\<rparr>
      | None \<Rightarrow> s)"

definition store_put :: "store \<Rightarrow> string \<Rightarrow> string \<Rightarrow> bytes \<Rightarrow> store \<times> event list \<times> (team_error + unit)" where
  "store_put s agent key v =
     (if length key > MaxKeyBytes
      then (s, [store_event agent [] ''put'' (length v) OutcomeRefused ''key_too_long''], Inl (KeyTooLong (length key)))
      else if \<not> mayWrite s agent key
      then (s, [store_event agent key ''put'' (length v) OutcomeRefused ''denied''], Inl (StoreDenied agent ''write'' key))
      else if length v > MaxValueBytes
      then (s, [store_event agent key ''put'' (length v) OutcomeRefused ''value_too_large''], Inl (ValueTooLarge (length v)))
      else if v = []
      then (store_delete s key, [store_event agent key ''delete'' 0 OutcomeDelivered []], Inr ())
      else
        let old = m_get (s_data s) key;
            replacing = (old \<noteq> None);
            oldlen = (case old of None \<Rightarrow> 0 | Some o' \<Rightarrow> int (length o'));
            grown0 = s_bytes s - oldlen + int (length v);
            grown = (if replacing then grown0 else grown0 + int (length key))
        in if \<not> replacing \<and> length (m_keys (s_data s)) \<ge> MaxStoreKeys
           then (s, [store_event agent key ''put'' (length v) OutcomeRefused ''too_many_keys''], Inl TooManyKeys)
           else if grown > int MaxStoreBytes
           then (s, [store_event agent key ''put'' (length v) OutcomeRefused ''store_full''], Inl StoreFull)
           else (s\<lparr>s_data := m_put key v (s_data s), s_bytes := grown\<rparr>,
                 [store_event agent key ''put'' (length v) OutcomeDelivered []], Inr ()))"

section \<open>Access rules\<close>

text \<open>The store matches agents with the same trailing-star rule edges use.\<close>

lemma globMatch_endpoint: "globMatch p a = endpoint_matches p a"
  by (auto simp: globMatch_def endpoint_matches_def split: option.split)

lemma may_append_narrows:
  "may (rs @ rs') agent key w \<Longrightarrow> may rs agent key w"
  by (induction rs) (auto split: if_splits)

lemma may_first:
  "may rs agent key w \<longleftrightarrow>
     (case find (\<lambda>r. globMatch (rule_name r) key) rs of
        None \<Rightarrow> True
      | Some r \<Rightarrow> \<exists>who \<in> set (if w then rule_write r else rule_read r). who = ''*'' \<or> globMatch who agent)"
  by (induction rs) (auto simp: list_ex_iff)

lemma check_rule_agents_Inr:
  "check_rule_agents name ws ags = Inr () \<longleftrightarrow>
     (\<forall>who \<in> set ws. who = ''*'' \<or> (\<exists>out. expand who ags = Inr out))"
  by (induction name ws ags rule: check_rule_agents.induct) (auto split: sum.splits)

lemma check_rules_Inr:
  "check_rules rs ags = Inr () \<longleftrightarrow>
     (\<forall>r \<in> set rs. rule_name r \<noteq> [] \<and>
        (\<forall>who \<in> set (rule_read r) \<union> set (rule_write r). who = ''*'' \<or> (\<exists>out. expand who ags = Inr out)))"
proof (induction rs ags rule: check_rules.induct)
  case (2 r rs ags)
  then show ?case
    using check_rule_agents_Inr[of "rule_name r" "rule_read r @ rule_write r" ags]
    by (cases "check_rule_agents (rule_name r) (rule_read r @ rule_write r) ags") auto
qed simp

section \<open>The invariant\<close>

definition entry_weight :: "string \<Rightarrow> bytes \<Rightarrow> int" where
  "entry_weight k v = int (length k) + int (length v)"

text \<open>
  The byte count is the weight of what is held, keys included; every ceiling holds; no empty
  value is stored.
\<close>

definition store_ok :: "store \<Rightarrow> bool" where
  "store_ok s \<longleftrightarrow>
     m_ok (s_data s) \<and> s_bytes s = msum entry_weight (m_get (s_data s)) \<and>
     s_bytes s \<le> int MaxStoreBytes \<and> length (m_keys (s_data s)) \<le> MaxStoreKeys \<and>
     (\<forall>k v. m_get (s_data s) k = Some v \<longrightarrow>
        length k \<le> MaxKeyBytes \<and> 0 < length v \<and> length v \<le> MaxValueBytes)"

lemma newStore_ok: "newStore t rs = Inr s \<Longrightarrow> store_ok s"
  by (auto simp: newStore_def store_ok_def m_keys_def m_get_map_of split: sum.splits)

lemma entry_weight_nonneg: "0 \<le> entry_weight k v"
  by (simp add: entry_weight_def)

lemma store_delete_ok [preserves]: "store_ok s \<Longrightarrow> store_ok (store_delete s key)"
proof (cases "m_get (s_data s) key")
  case None
  then show "store_ok s \<Longrightarrow> ?thesis" by (simp add: store_delete_def)
next
  case (Some old)
  assume ok: "store_ok s"
  have "msum entry_weight (m_get (m_del key (s_data s))) = s_bytes s - (int (length old) + int (length key))"
    using ok Some by (simp add: gm.get_del_fun msum_delete gm.finite_dom_get store_ok_def entry_weight_def)
  moreover have "length (m_keys (m_del key (s_data s))) \<le> MaxStoreKeys"
    using ok gm.len_del[of "s_data s" key] by (simp add: store_ok_def)
  ultimately show ?thesis using ok Some by (simp add: store_delete_def store_ok_def)
qed

lemma store_write_ok:
  assumes ok: "store_ok s" and k: "length key \<le> MaxKeyBytes" and v: "v \<noteq> []" "length v \<le> MaxValueBytes"
    and room: "m_get (s_data s) key \<noteq> None \<or> length (m_keys (s_data s)) < MaxStoreKeys"
    and g: "grown = s_bytes s - (case m_get (s_data s) key of None \<Rightarrow> - int (length key) | Some o' \<Rightarrow> int (length o')) + int (length v)"
    and fits: "grown \<le> int MaxStoreBytes"
  shows "store_ok (s\<lparr>s_data := m_put key v (s_data s), s_bytes := grown\<rparr>)"
proof -
  have m: "m_ok (s_data s)" using ok by (simp add: store_ok_def)
  have "msum entry_weight (m_get (m_put key v (s_data s))) = grown"
    using ok g
    by (cases "m_get (s_data s) key")
      (simp_all add: gm.get_put_fun msum_insert msum_update gm.finite_dom_get store_ok_def entry_weight_def)
  moreover have "length (m_keys (m_put key v (s_data s))) \<le> MaxStoreKeys"
    using ok room gm.len_put[OF m, of key v] by (auto simp: store_ok_def)
  ultimately show ?thesis using ok k v fits by (simp add: store_ok_def)
qed

lemma store_put_ok [preserves]: "store_ok s \<Longrightarrow> store_ok (fst (store_put s agent key v))"
proof -
  assume ok: "store_ok s"
  show ?thesis
    by (cases "m_get (s_data s) key")
      (simp_all add: store_put_def Let_def ok store_delete_ok store_write_ok)
qed

section \<open>The store as a map\<close>

text \<open>
  The contract a client sees: a partial map from keys to non-empty values, on which an accepted
  put of \<open>v\<close> is an update, an accepted put of nothing a removal, and a refused call nothing.
\<close>

definition store_map :: "store \<Rightarrow> string \<rightharpoonup> bytes" where
  "store_map s = m_get (s_data s)"

definition map_put :: "(string \<rightharpoonup> bytes) \<Rightarrow> string \<Rightarrow> bytes \<Rightarrow> (string \<rightharpoonup> bytes)" where
  "map_put f k v = (if v = [] then f(k := None) else f(k \<mapsto> v))"

lemma store_put_refines:
  "store_put s agent key v = (s', evs, r) \<Longrightarrow>
     store_map s' = (case r of Inl _ \<Rightarrow> store_map s | Inr _ \<Rightarrow> map_put (store_map s) key v)"
  by (auto simp: store_put_def Let_def store_map_def map_put_def store_delete_def gm.get_put_fun
      gm.get_del_fun fun_upd_idem split: if_splits option.splits)

lemma store_put_rules: "s_rules (fst (store_put s agent key v)) = s_rules s"
  by (auto simp: store_put_def Let_def store_delete_def split: option.splits)

lemma store_get_refines:
  "snd (store_get s agent key) = Inr v \<longleftrightarrow>
     length key \<le> MaxKeyBytes \<and> mayRead s agent key \<and> store_map s key = Some v"
  by (auto simp: store_get_def store_map_def split: option.splits)

section \<open>The record of an access\<close>

text \<open>One event per call, delivered exactly when the call succeeded, and an oversized key in none.\<close>

definition audited :: "string \<Rightarrow> event list \<Rightarrow> team_error + 'a \<Rightarrow> bool" where
  "audited agent evs r \<longleftrightarrow>
     (\<exists>e. evs = [e] \<and> ev_from e = agent \<and> (ev_outcome e = OutcomeDelivered \<longleftrightarrow> (\<exists>v. r = Inr v)) \<and>
        length (ev_to e) \<le> MaxKeyBytes \<and> ev_body e = [])"

lemmas store_event_simps [simp] = store_event_def no_event_def

lemma store_get_audited: "store_get s agent key = (evs, r) \<Longrightarrow> audited agent evs r"
  by (auto simp: store_get_def audited_def split: if_splits option.splits)

lemma store_put_audited: "store_put s agent key v = (s', evs, r) \<Longrightarrow> audited agent evs r"
  by (auto simp: store_put_def Let_def audited_def split: if_splits option.splits)

section \<open>The interface the broker uses\<close>

text \<open>
  What a permissioned blob store promises its callers. The client lemmas are the guarantees an
  agent has: it reads back what was written, a refused write is invisible to everybody, and a
  write leaves other keys alone.
\<close>

locale blob_store =
  fixes get :: "'s \<Rightarrow> 'a \<Rightarrow> 'k \<Rightarrow> 'e \<times> ('x + 'v)"
    and put :: "'s \<Rightarrow> 'a \<Rightarrow> 'k \<Rightarrow> 'v \<Rightarrow> 's \<times> 'e \<times> ('x + unit)"
    and view :: "'s \<Rightarrow> 'k \<Rightarrow> 'v option"
    and readable :: "'s \<Rightarrow> 'a \<Rightarrow> 'k \<Rightarrow> bool"
    and nothing :: "'v \<Rightarrow> bool"
  assumes get_iff: "snd (get s a k) = Inr v \<longleftrightarrow> readable s a k \<and> view s k = Some v"
    and put_view: "put s a k v = (s', e, r) \<Longrightarrow>
      view s' = (case r of Inl _ \<Rightarrow> view s
                 | Inr _ \<Rightarrow> if nothing v then (view s)(k := None) else (view s)(k \<mapsto> v))"
    and put_readable: "put s a k v = (s', e, r) \<Longrightarrow> readable s' b j = readable s b j"
begin

lemma read_your_write:
  "put s a k v = (s', e, Inr u) \<Longrightarrow> \<not> nothing v \<Longrightarrow> readable s b k \<Longrightarrow> snd (get s' b k) = Inr v"
  using put_view[of s a k v s' e "Inr u"] put_readable[of s a k v s' e "Inr u"]
  by (simp add: get_iff)

lemma removed_is_gone:
  "put s a k v = (s', e, Inr u) \<Longrightarrow> nothing v \<Longrightarrow> \<exists>x. snd (get s' b k) = Inl x"
  using put_view[of s a k v s' e "Inr u"] get_iff[of s' b k]
  by (cases "snd (get s' b k)") auto

lemma refused_put_invisible:
  "put s a k v = (s', e, Inl x) \<Longrightarrow> snd (get s' b j) = Inr w \<longleftrightarrow> snd (get s b j) = Inr w"
  using put_view[of s a k v s' e "Inl x"] put_readable[of s a k v s' e "Inl x"]
  by (simp add: get_iff)

lemma put_frame:
  "put s a k v = (s', e, r) \<Longrightarrow> j \<noteq> k \<Longrightarrow> snd (get s' b j) = Inr w \<longleftrightarrow> snd (get s b j) = Inr w"
  using put_view[of s a k v s' e r] put_readable[of s a k v s' e r]
  by (auto simp: get_iff split: sum.splits if_splits)

end

definition store_readable :: "store \<Rightarrow> string \<Rightarrow> string \<Rightarrow> bool" where
  "store_readable s agent key \<longleftrightarrow> length key \<le> MaxKeyBytes \<and> mayRead s agent key"

interpretation bs: blob_store store_get store_put store_map store_readable "\<lambda>v. v = []"
proof unfold_locales
  fix s s' :: store and a k b j :: string and v :: bytes and e r
  assume p: "store_put s a k v = (s', e, r)"
  then show "store_map s' = (case r of Inl _ \<Rightarrow> store_map s
      | Inr _ \<Rightarrow> if v = [] then (store_map s)(k := None) else (store_map s)(k \<mapsto> v))"
    by (auto dest!: store_put_refines simp: map_put_def split: sum.split)
  from p have "s_rules s' = s_rules s" using store_put_rules[of s a k v] by simp
  then show "store_readable s' b j = store_readable s b j"
    by (simp add: store_readable_def mayRead_def)
qed (auto simp: store_get_refines store_readable_def)

end
