(* ===== verification/Base64.thy ===== *)
theory Base64
  imports Prelude
begin

text \<open>
  What the source uses of Go's \<open>encoding/base64\<close>: \<open>StdEncoding.EncodeToString\<close> and
  \<open>StdEncoding.DecodeString\<close>. The decoder skips carriage returns and newlines, requires
  padding, does not check the unused bits of a last quantum, and refuses everything else.
\<close>

definition b64_char :: "nat \<Rightarrow> char" where
  "b64_char n =
     (if n < 26 then char_of (65 + n)
      else if n < 52 then char_of (97 + (n - 26))
      else if n < 62 then char_of (48 + (n - 52))
      else if n = 62 then CHR ''+'' else CHR ''/'')"

definition b64_val :: "char \<Rightarrow> nat option" where
  "b64_val c =
     (let n = (of_char c :: nat) in
      if 65 \<le> n \<and> n \<le> 90 then Some (n - 65)
      else if 97 \<le> n \<and> n \<le> 122 then Some (n - 97 + 26)
      else if 48 \<le> n \<and> n \<le> 57 then Some (n - 48 + 52)
      else if c = CHR ''+'' then Some 62
      else if c = CHR ''/'' then Some 63 else None)"

fun b64_encode :: "bytes \<Rightarrow> string" where
  "b64_encode [] = []"
| "b64_encode [a] = [b64_char (byte a div 4), b64_char (byte a mod 4 * 16), CHR ''='', CHR ''='']"
| "b64_encode [a, b] =
     [b64_char (byte a div 4), b64_char (byte a mod 4 * 16 + byte b div 16),
      b64_char (byte b mod 16 * 4), CHR ''='']"
| "b64_encode (a # b # c # r) =
     b64_char (byte a div 4) # b64_char (byte a mod 4 * 16 + byte b div 16) #
     b64_char (byte b mod 16 * 4 + byte c div 64) # b64_char (byte c mod 64) # b64_encode r"

fun b64_quanta :: "string \<Rightarrow> bytes option" where
  "b64_quanta [] = Some []"
| "b64_quanta (p # q # r # s # t) =
     (case (b64_val p, b64_val q, b64_val r, b64_val s) of
        (Some i, Some j, Some k, Some l) \<Rightarrow>
          map_option (\<lambda>u. char_of (i * 4 + j div 16) # char_of (j mod 16 * 16 + k div 4) #
                          char_of (k mod 4 * 64 + l) # u) (b64_quanta t)
      | (Some i, Some j, Some k, None) \<Rightarrow>
          if s = CHR ''='' \<and> t = []
          then Some [char_of (i * 4 + j div 16), char_of (j mod 16 * 16 + k div 4)] else None
      | (Some i, Some j, None, None) \<Rightarrow>
          if r = CHR ''='' \<and> s = CHR ''='' \<and> t = [] then Some [char_of (i * 4 + j div 16)] else None
      | _ \<Rightarrow> None)"
| "b64_quanta _ = None"

definition newline_char :: "char \<Rightarrow> bool" where
  "newline_char c \<longleftrightarrow> byte c = 10 \<or> byte c = 13"

definition b64_decode :: "string \<Rightarrow> bytes option" where
  "b64_decode s = b64_quanta (filter (\<lambda>c. \<not> newline_char c) s)"

lemma b64_val_char: "n < 64 \<Longrightarrow> b64_val (b64_char n) = Some n"
  by (auto simp: b64_val_def b64_char_def Let_def)

lemma b64_char_plain: "n < 64 \<Longrightarrow> \<not> newline_char (b64_char n)"
  by (auto simp: newline_char_def b64_char_def)

lemma sextet_bounds:
  fixes x y :: nat
  assumes "x < 256" and "y < 256"
  shows "x div 4 < 64" "x mod 4 * 16 + y div 16 < 64" "x mod 16 * 4 + y div 64 < 64"
    "x mod 4 * 16 < 64" "x mod 16 * 4 < 64" "x mod 64 < 64"
  using assms by linarith+

lemmas byte_div = sextet_bounds [OF byte_less byte_less]

lemma b64_val_pad [simp]: "b64_val CHR ''='' = None"
  by (simp add: b64_val_def)

text \<open>Shifting by a power of two and adding what fits below it is undone by \<open>div\<close> and \<open>mod\<close>.\<close>

lemma pack:
  fixes x y m :: nat
  assumes "y < m"
  shows "(x * m + y) div m = x" and "(x * m + y) mod m = y"
  using assms by simp_all

lemma sextet_parts:
  fixes x y :: nat
  assumes "x < 256" and "y < 256"
  shows "(x mod 4 * 16 + y div 16) div 16 = x mod 4"
    and "(x mod 4 * 16 + y div 16) mod 16 = y div 16"
    and "(x mod 16 * 4 + y div 64) div 4 = x mod 16"
    and "(x mod 16 * 4 + y div 64) mod 4 = y div 64"
proof -
  have y: "y div 16 < 16" "y div 64 < 4" using assms by linarith+
  show "(x mod 4 * 16 + y div 16) div 16 = x mod 4" "(x mod 4 * 16 + y div 16) mod 16 = y div 16"
    "(x mod 16 * 4 + y div 64) div 4 = x mod 16" "(x mod 16 * 4 + y div 64) mod 4 = y div 64"
    using pack[OF y(1)] pack[OF y(2)] by simp_all
qed

lemmas byte_parts = sextet_parts [OF byte_less byte_less]

lemma byte_high: "byte b div 16 mod 16 = byte b div 16" "byte b div 64 mod 4 = byte b div 64"
proof -
  have "byte b div 16 < 16" and "byte b div 64 < 4" using byte_less[of b] by linarith+
  then show "byte b div 16 mod 16 = byte b div 16" "byte b div 64 mod 4 = byte b div 64"
    by (simp_all only: mod_less)
qed

lemma b64_quanta_encode: "b64_quanta (b64_encode s) = Some s"
proof (induction s rule: b64_encode.induct)
  case 1
  then show ?case by simp
next
  case (2 a)
  then show ?case by (simp add: b64_val_char byte_div)
next
  case (3 a b)
  then show ?case by (simp add: b64_val_char byte_div byte_parts byte_high)
next
  case (4 a b c r)
  then show ?case by (simp add: b64_val_char byte_div byte_parts byte_high)
qed

lemma b64_encode_plain: "filter (\<lambda>c. \<not> newline_char c) (b64_encode s) = b64_encode s"
  by (induction s rule: b64_encode.induct)
    (simp_all add: b64_char_plain byte_div, simp_all add: newline_char_def)

lemma b64_decode_encode: "b64_decode (b64_encode s) = Some s"
  by (simp add: b64_decode_def b64_encode_plain b64_quanta_encode)

end
