(* ===== verification/Broker.thy ===== *)
theory Broker
  imports Team_Store Base64 "HOL-Library.Word"
begin

text \<open>
  \<^verbatim>\<open>internal/team/broker.go\<close> and \<^verbatim>\<open>internal/team/spawn.go\<close>: the broker that
  routes every message of a team. Its state is the topology, the optional store, one bounded
  mailbox per agent (a buffered channel, as the list of what it holds), the questions that are
  outstanding, the reply channel of each question, the spawn budgets and the workers spawned so
  far; \<open>b_log\<close> is what the \<open>record\<close> callback has been given, in order.

  \<open>H\<close> is the hexadecimal SHA-256 of a body. \<open>Ask\<close> blocks, so it is three operations:
  \<open>ask_begin\<close> up to the select, and the two ways out of it.
\<close>

section \<open>How long a call is held open\<close>

definition MaxWait :: "64 word" where "MaxWait = 900000000000"

definition waitFor :: "64 word \<Rightarrow> 64 word" where
  "waitFor ms =
     (let d = ms * 1000000 in
      if sint d \<le> 0 then 60000000000
      else if sint d > sint MaxWait then MaxWait
      else d)"

section \<open>State\<close>

record message =
  m_from :: string
  m_body :: bytes
  m_corr :: string

record ask =
  a_from :: string
  a_to :: string

record budget =
  bud_max :: int
  bud_images :: "string list"
  bud_life :: int

record spawn_request =
  sr_name :: string
  sr_spawner :: string
  sr_image :: string
  sr_life :: int

record broker =
  b_topo :: topology
  b_store :: "store option"
  b_capture :: bool
  b_boxes :: "(string, message list) gmap"
  b_pending :: "(string, ask) gmap"
  b_chans :: "(string, bytes list) gmap"
  b_budgets :: "(string, budget) gmap"
  b_spawned :: "(string, string list) gmap"
  b_seq :: int
  b_log :: "event list"

definition mailbox :: nat where "mailbox = 64"

definition newBroker :: "topology \<Rightarrow> bool \<Rightarrow> broker" where
  "newBroker topo capture =
     \<lparr>b_topo = topo, b_store = None, b_capture = capture, b_boxes = map (\<lambda>a. (a, [])) (agents topo),
      b_pending = [], b_chans = [], b_budgets = [], b_spawned = [], b_seq = 0, b_log = []\<rparr>"

definition record_event :: "event \<Rightarrow> broker \<Rightarrow> broker" where
  "record_event e b = b\<lparr>b_log := b_log b @ [e]\<rparr>"

section \<open>Messages\<close>

definition describe :: "(bytes \<Rightarrow> string) \<Rightarrow> bool \<Rightarrow> string \<Rightarrow> string \<Rightarrow> bytes \<Rightarrow> string \<Rightarrow> string \<Rightarrow> string \<Rightarrow> event" where
  "describe H capture from to body kind outcome reason =
     \<lparr>ev_type = (if outcome = OutcomeRefused then ''team.refused'' else ''team.message''),
      ev_from = from, ev_to = to, ev_kind = kind, ev_bytes = length body, ev_sha = H body,
      ev_body = (if capture \<and> outcome = OutcomeDelivered then body else []),
      ev_reason = reason, ev_outcome = outcome\<rparr>"

definition deliver ::
  "(bytes \<Rightarrow> string) \<Rightarrow> broker \<Rightarrow> string \<Rightarrow> string \<Rightarrow> bytes \<Rightarrow> string \<Rightarrow> string \<Rightarrow> broker \<times> (team_error + unit)" where
  "deliver H b from to body kind corr =
     (let note = (\<lambda>outcome reason. record_event (describe H (b_capture b) from to body kind outcome reason));
          full = (note OutcomeUnreachable ''mailbox_full'' b, Inl (Unreachable to))
      in if \<not> topo_exists (b_topo b) to
         then (note OutcomeRefused ''no_such_agent'' b, Inl (NoSuchAgent to))
         else if \<not> topo_allows (b_topo b) from to
         then (note OutcomeRefused ''no_edge'' b, Inl (NoEdge from to))
         else case m_get (b_boxes b) to of
                None \<Rightarrow> full
              | Some q \<Rightarrow>
                  if length q < mailbox
                  then (note OutcomeDelivered []
                          (b\<lparr>b_boxes := m_put to (q @ [\<lparr>m_from = from, m_body = body, m_corr = corr\<rparr>]) (b_boxes b)\<rparr>),
                        Inr ())
                  else full)"

definition broker_send :: "(bytes \<Rightarrow> string) \<Rightarrow> broker \<Rightarrow> string \<Rightarrow> string \<Rightarrow> bytes \<Rightarrow> broker \<times> (team_error + unit)" where
  "broker_send H b from to body = deliver H b from to body ''send'' []"

text \<open>\<open>Recv\<close> takes the head of the mailbox; an empty one is the case where the timer fires first.\<close>

definition broker_recv :: "broker \<Rightarrow> string \<Rightarrow> int \<Rightarrow> broker \<times> (team_error + message)" where
  "broker_recv b agent timeout =
     (case m_get (b_boxes b) agent of
        None \<Rightarrow> (b, Inl (NoSuchAgent agent))
      | Some [] \<Rightarrow> (b, Inl (RecvTimeout timeout))
      | Some (m # q) \<Rightarrow> (b\<lparr>b_boxes := m_put agent q (b_boxes b)\<rparr>, Inr m))"

section \<open>Questions and answers\<close>

definition ask_close :: "string \<Rightarrow> broker \<Rightarrow> broker" where
  "ask_close tag b = b\<lparr>b_pending := m_del tag (b_pending b)\<rparr>"

definition ask_open :: "string \<Rightarrow> string \<Rightarrow> string \<Rightarrow> broker \<Rightarrow> broker" where
  "ask_open tag from to b =
     b\<lparr>b_pending := m_put tag \<lparr>a_from = from, a_to = to\<rparr> (b_pending b), b_chans := m_put tag [] (b_chans b)\<rparr>"

definition ask_deliver ::
  "(bytes \<Rightarrow> string) \<Rightarrow> broker \<Rightarrow> string \<Rightarrow> string \<Rightarrow> string \<Rightarrow> bytes \<Rightarrow> broker \<times> (team_error + unit)" where
  "ask_deliver H b tag from to body =
     (case deliver H b from to body ''ask'' tag of
        (b', Inl e) \<Rightarrow> (ask_close tag b', Inl e)
      | (b', Inr _) \<Rightarrow> (b', Inr ()))"

definition ask_begin ::
  "(bytes \<Rightarrow> string) \<Rightarrow> broker \<Rightarrow> string \<Rightarrow> string \<Rightarrow> string \<Rightarrow> bytes \<Rightarrow> broker \<times> (team_error + unit)" where
  "ask_begin H b tag from to body = ask_deliver H (ask_open tag from to b) tag from to body"

text \<open>The select of \<open>Ask\<close>: an answer is taken from the reply channel, if there is one.\<close>

definition ask_answer :: "broker \<Rightarrow> string \<Rightarrow> (broker \<times> bytes) option" where
  "ask_answer b tag =
     (case m_get (b_chans b) tag of
        Some (x # q) \<Rightarrow> Some (ask_close tag (b\<lparr>b_chans := m_put tag q (b_chans b)\<rparr>), x)
      | _ \<Rightarrow> None)"

definition ask_timeout :: "broker \<Rightarrow> string \<Rightarrow> string \<Rightarrow> string \<Rightarrow> int \<Rightarrow> broker \<times> (team_error + bytes)" where
  "ask_timeout b tag from to timeout =
     (let outstanding = (m_get (b_pending b) tag \<noteq> None);
          b1 = ask_close tag b;
          gone = (record_event (no_event\<lparr>ev_type := ''team.message'', ev_from := to, ev_to := from,
                    ev_kind := ''reply'', ev_outcome := OutcomeTimeout\<rparr>) b1,
                  Inl (AskTimeout to timeout))
      in if outstanding then gone
         else case m_get (b_chans b1) tag of
                Some (x # q) \<Rightarrow> (b1\<lparr>b_chans := m_put tag q (b_chans b1)\<rparr>, Inr x)
              | _ \<Rightarrow> gone)"

definition broker_reply :: "(bytes \<Rightarrow> string) \<Rightarrow> broker \<Rightarrow> string \<Rightarrow> string \<Rightarrow> bytes \<Rightarrow> broker \<times> (team_error + unit)" where
  "broker_reply H b from tag body =
     (let refuse = (\<lambda>reason. record_event (no_event\<lparr>ev_type := ''team.refused'', ev_from := from,
                      ev_kind := ''reply'', ev_reason := reason, ev_outcome := OutcomeRefused\<rparr>) b)
      in if tag = [] then (refuse ''missing_correlation'', Inl MissingCorrelation)
         else case m_get (b_pending b) tag of
                None \<Rightarrow> (refuse ''unknown_correlation'', Inl UnknownCorrelation)
              | Some a \<Rightarrow>
                  if a_to a \<noteq> from then (refuse ''unknown_correlation'', Inl UnknownCorrelation)
                  else
                    let b1 = ask_close tag b in
                    if m_get (b_chans b1) tag = Some []
                    then (record_event (describe H (b_capture b) from (a_from a) body ''reply'' OutcomeDelivered [])
                            (b1\<lparr>b_chans := m_put tag [body] (b_chans b1)\<rparr>), Inr ())
                    else (record_event (describe H (b_capture b) from (a_from a) body ''reply''
                            OutcomeUnreachable ''mailbox_full'') b1, Inl (Unreachable (a_from a))))"

section \<open>The store, through the broker\<close>

definition broker_store_get :: "broker \<Rightarrow> string \<Rightarrow> string \<Rightarrow> broker \<times> (team_error + bytes)" where
  "broker_store_get b agent key =
     (case b_store b of
        None \<Rightarrow> (b, Inl NoStore)
      | Some s \<Rightarrow> (case store_get s agent key of (evs, r) \<Rightarrow> (b\<lparr>b_log := b_log b @ evs\<rparr>, r)))"

definition broker_store_put :: "broker \<Rightarrow> string \<Rightarrow> string \<Rightarrow> bytes \<Rightarrow> broker \<times> (team_error + unit)" where
  "broker_store_put b agent key v =
     (case b_store b of
        None \<Rightarrow> (b, Inl NoStore)
      | Some s \<Rightarrow> (case store_put s agent key v of
                    (s', evs, r) \<Rightarrow> (b\<lparr>b_store := Some s', b_log := b_log b @ evs\<rparr>, r)))"

section \<open>Spawning\<close>

definition grantSpawn :: "string \<Rightarrow> budget \<Rightarrow> broker \<Rightarrow> broker" where
  "grantSpawn agent bud b = b\<lparr>b_budgets := m_put agent bud (b_budgets b)\<rparr>"

definition spawn_event :: "string \<Rightarrow> string \<Rightarrow> string \<Rightarrow> string \<Rightarrow> string \<Rightarrow> event" where
  "spawn_event spawner name kind outcome reason =
     no_event\<lparr>ev_type := ''team.spawn'', ev_from := spawner, ev_to := name, ev_kind := kind,
       ev_outcome := outcome, ev_reason := reason\<rparr>"

definition live_workers :: "broker \<Rightarrow> string \<Rightarrow> string list" where
  "live_workers b spawner = (case m_get (b_spawned b) spawner of None \<Rightarrow> [] | Some l \<Rightarrow> l)"

definition broker_spawn :: "broker \<Rightarrow> string \<Rightarrow> string \<Rightarrow> broker \<times> (team_error + spawn_request)" where
  "broker_spawn b spawner image0 =
     (let refuse = (\<lambda>name reason. record_event (spawn_event spawner name ''spawn'' OutcomeRefused reason))
      in case m_get (b_budgets b) spawner of
        None \<Rightarrow> (refuse [] ''no_spawn_budget'' b, Inl (NoSpawnBudget spawner))
      | Some bud \<Rightarrow>
        let live = live_workers b spawner in
        if int (length live) \<ge> bud_max bud
        then (refuse [] ''budget_exhausted'' b, Inl (BudgetExhausted spawner (length live) (bud_max bud)))
        else
        let image = (if image0 = [] \<and> bud_images bud \<noteq> [] then hd (bud_images bud) else image0) in
        if image \<notin> set (bud_images bud)
        then (refuse [] ''image_not_permitted'' b, Inl (ImageNotPermitted spawner image (bud_images bud)))
        else
        let n = b_seq b + 1; name = mint spawner n; b1 = b\<lparr>b_seq := n\<rparr> in
        if m_get (b_boxes b) name \<noteq> None \<or> topo_exists (b_topo b) name
        then (refuse name ''name_taken'' b1, Inl (NameTaken name))
        else
          (record_event (spawn_event spawner name ''spawn'' OutcomeDelivered [])
             (b1\<lparr>b_spawned := m_put spawner (live @ [name]) (b_spawned b),
                 b_boxes := m_put name [] (b_boxes b),
                 b_topo := topo_attach name spawner (b_topo b)\<rparr>),
           Inr \<lparr>sr_name = name, sr_spawner = spawner, sr_image = image, sr_life = bud_life bud\<rparr>))"

text \<open>The spawner of a name: the map is ranged over, and the last owner found is kept.\<close>

definition owner_of :: "broker \<Rightarrow> string \<Rightarrow> string" where
  "owner_of b name =
     (case filter (\<lambda>(who, l). name \<in> set l) (b_spawned b) of [] \<Rightarrow> [] | os \<Rightarrow> fst (last os))"

definition broker_despawn :: "broker \<Rightarrow> string \<Rightarrow> broker" where
  "broker_despawn b name =
     (let spawner = owner_of b name;
          b1 = b\<lparr>b_spawned := map (\<lambda>(who, l). (who, remove1 name l)) (b_spawned b)\<rparr>
      in if spawner = []
         then record_event (spawn_event [] name ''despawn'' OutcomeRefused ''not_a_spawned_worker'') b1
         else record_event (spawn_event spawner name ''despawn'' OutcomeDelivered [])
                (b1\<lparr>b_boxes := m_del name (b_boxes b), b_topo := topo_detach name (b_topo b)\<rparr>))"

end
