(* ===== verification/Broker_Inv.thy ===== *)
theory Broker_Inv
  imports Broker
begin

text \<open>
  The broker's invariant, its preservation by every operation, and what a team can rely on over
  any sequence of operations: mailboxes belong to members and are bounded, every spawned worker
  has a minted name and its place in a budget, nothing reaches a mailbox unrecorded and no
  payload of an undelivered message is kept.
\<close>

section \<open>Operations as steps\<close>

datatype broker_op =
    OpSend string string bytes
  | OpRecv string int
  | OpAskBegin string string string bytes
  | OpAskAnswer string
  | OpAskTimeout string string string int
  | OpReply string string bytes
  | OpStoreGet string string
  | OpStorePut string string bytes
  | OpSpawn string string
  | OpDespawn string

fun broker_step :: "(bytes \<Rightarrow> string) \<Rightarrow> broker \<Rightarrow> broker_op \<Rightarrow> broker" where
  "broker_step H b (OpSend f t body) = fst (broker_send H b f t body)"
| "broker_step H b (OpRecv a d) = fst (broker_recv b a d)"
| "broker_step H b (OpAskBegin tag f t body) = fst (ask_begin H b tag f t body)"
| "broker_step H b (OpAskAnswer tag) = (case ask_answer b tag of None \<Rightarrow> b | Some (b', _) \<Rightarrow> b')"
| "broker_step H b (OpAskTimeout tag f t d) = fst (ask_timeout b tag f t d)"
| "broker_step H b (OpReply f tag body) = fst (broker_reply H b f tag body)"
| "broker_step H b (OpStoreGet a k) = fst (broker_store_get b a k)"
| "broker_step H b (OpStorePut a k v) = fst (broker_store_put b a k v)"
| "broker_step H b (OpSpawn a img) = fst (broker_spawn b a img)"
| "broker_step H b (OpDespawn n) = broker_despawn b n"

section \<open>The invariant\<close>

definition spawned_names :: "broker \<Rightarrow> string set" where
  "spawned_names b = (\<Union>who. set (live_workers b who))"

lemma live_workers_frame [simp]:
  "live_workers (b\<lparr>b_log := l\<rparr>) = live_workers b"
  "live_workers (b\<lparr>b_pending := p\<rparr>) = live_workers b"
  "live_workers (b\<lparr>b_chans := c\<rparr>) = live_workers b"
  "live_workers (b\<lparr>b_boxes := q\<rparr>) = live_workers b"
  "live_workers (b\<lparr>b_store := s\<rparr>) = live_workers b"
  "live_workers (b\<lparr>b_topo := t\<rparr>) = live_workers b"
  "live_workers (b\<lparr>b_seq := n\<rparr>) = live_workers b"
  by (simp_all add: live_workers_def fun_eq_iff)

lemma live_workers_put [simp]:
  "live_workers (b\<lparr>b_spawned := m_put s l (b_spawned c)\<rparr>) who = (if who = s then l else live_workers c who)"
  by (simp add: live_workers_def)

text \<open>The declared agents: what \<^const>\<open>newTopology\<close> accepted.\<close>

definition declared_ok :: "string list \<Rightarrow> bool" where
  "declared_ok D \<longleftrightarrow> (\<forall>a \<in> set D. a \<noteq> [] \<and> mintedSpawnName a D = None)"

definition minted_by :: "string \<Rightarrow> int \<Rightarrow> string \<Rightarrow> bool" where
  "minted_by who hi n \<longleftrightarrow> (\<exists>k. 1 \<le> k \<and> k \<le> hi \<and> n = mint who k)"

lemma minted_by_Suc: "minted_by who hi n \<Longrightarrow> minted_by who (hi + 1) n"
  by (fastforce simp: minted_by_def)

lemma minted_by_top [simp]: "1 \<le> hi \<Longrightarrow> minted_by who hi (mint who hi)"
  by (fastforce simp: minted_by_def)

definition workers_ok :: "string list \<Rightarrow> broker \<Rightarrow> bool" where
  "workers_ok D b \<longleftrightarrow>
     m_ok (b_spawned b) \<and> 0 \<le> b_seq b \<and>
     (\<forall>who. (live_workers b who \<noteq> [] \<longrightarrow> who \<in> set D) \<and> distinct (live_workers b who) \<and>
        (\<forall>n \<in> set (live_workers b who). minted_by who (b_seq b) n) \<and>
        (\<forall>bud. m_get (b_budgets b) who = Some bud \<longrightarrow>
           live_workers b who = [] \<or> int (length (live_workers b who)) \<le> bud_max bud)) \<and>
     (\<forall>a bud. m_get (b_budgets b) a = Some bud \<longrightarrow> a \<in> set D)"

definition members_ok :: "string list \<Rightarrow> broker \<Rightarrow> bool" where
  "members_ok D b \<longleftrightarrow>
     topo_ok (b_topo b) \<and> m_ok (b_boxes b) \<and>
     dom (m_get (b_boxes b)) = set (agents (b_topo b)) \<and>
     set (agents (b_topo b)) = set D \<union> spawned_names b \<and> set D \<inter> spawned_names b = {} \<and>
     (\<forall>a q. m_get (b_boxes b) a = Some q \<longrightarrow> length q \<le> mailbox)"

definition broker_ok :: "string list \<Rightarrow> broker \<Rightarrow> bool" where
  "broker_ok D b \<longleftrightarrow>
     declared_ok D \<and> workers_ok D b \<and> members_ok D b \<and>
     (\<forall>s. b_store b = Some s \<longrightarrow> store_ok s)"

definition delivered_event :: "(bytes \<Rightarrow> string) \<Rightarrow> string \<Rightarrow> message \<Rightarrow> event \<Rightarrow> bool" where
  "delivered_event H a m e \<longleftrightarrow>
     ev_from e = m_from m \<and> ev_to e = a \<and> ev_outcome e = OutcomeDelivered \<and>
     ev_sha e = H (m_body m) \<and> ev_bytes e = length (m_body m)"

definition log_ok :: "(bytes \<Rightarrow> string) \<Rightarrow> broker \<Rightarrow> bool" where
  "log_ok H b \<longleftrightarrow>
     (\<forall>e \<in> set (b_log b). ev_body e \<noteq> [] \<longrightarrow> b_capture b \<and> ev_outcome e = OutcomeDelivered) \<and>
     (\<forall>a q m. m_get (b_boxes b) a = Some q \<longrightarrow> m \<in> set q \<longrightarrow>
        (\<exists>e \<in> set (b_log b). delivered_event H a m e))"

text \<open>Fields the invariant does not read.\<close>

lemma workers_ok_frame [simp]:
  "workers_ok D (b\<lparr>b_log := l\<rparr>) = workers_ok D b"
  "workers_ok D (b\<lparr>b_pending := p\<rparr>) = workers_ok D b"
  "workers_ok D (b\<lparr>b_chans := c\<rparr>) = workers_ok D b"
  "workers_ok D (b\<lparr>b_boxes := q\<rparr>) = workers_ok D b"
  "workers_ok D (b\<lparr>b_store := s\<rparr>) = workers_ok D b"
  "workers_ok D (b\<lparr>b_topo := t\<rparr>) = workers_ok D b"
  by (simp_all add: workers_ok_def)

lemma spawned_names_frame [simp]:
  "spawned_names (b\<lparr>b_log := l\<rparr>) = spawned_names b"
  "spawned_names (b\<lparr>b_pending := p\<rparr>) = spawned_names b"
  "spawned_names (b\<lparr>b_chans := c\<rparr>) = spawned_names b"
  "spawned_names (b\<lparr>b_boxes := q\<rparr>) = spawned_names b"
  "spawned_names (b\<lparr>b_store := s\<rparr>) = spawned_names b"
  "spawned_names (b\<lparr>b_seq := n\<rparr>) = spawned_names b"
  by (simp_all add: spawned_names_def)

lemma members_ok_frame [simp]:
  "members_ok D (b\<lparr>b_log := l\<rparr>) = members_ok D b"
  "members_ok D (b\<lparr>b_pending := p\<rparr>) = members_ok D b"
  "members_ok D (b\<lparr>b_chans := c\<rparr>) = members_ok D b"
  "members_ok D (b\<lparr>b_store := s\<rparr>) = members_ok D b"
  "members_ok D (b\<lparr>b_seq := n\<rparr>) = members_ok D b"
  by (simp_all add: members_ok_def)

lemma broker_ok_frame [simp]:
  "broker_ok D (b\<lparr>b_log := l\<rparr>) = broker_ok D b"
  "broker_ok D (b\<lparr>b_pending := p\<rparr>) = broker_ok D b"
  "broker_ok D (b\<lparr>b_chans := c\<rparr>) = broker_ok D b"
  "broker_ok D (record_event e b) = broker_ok D b"
  "broker_ok D (ask_close tag b) = broker_ok D b"
  by (simp_all add: broker_ok_def record_event_def ask_close_def)

section \<open>Messages keep the invariant\<close>

lemma members_ok_box:
  "members_ok D b \<Longrightarrow> m_get (b_boxes b) a = Some q \<Longrightarrow> length q' \<le> mailbox \<Longrightarrow>
     members_ok D (b\<lparr>b_boxes := m_put a q' (b_boxes b)\<rparr>)"
  by (auto simp: members_ok_def gm.get_put_fun insert_absorb domI)

lemma broker_ok_box:
  "broker_ok D b \<Longrightarrow> m_get (b_boxes b) a = Some q \<Longrightarrow> length q' \<le> mailbox \<Longrightarrow>
     broker_ok D (b\<lparr>b_boxes := m_put a q' (b_boxes b)\<rparr>)"
  by (simp add: broker_ok_def members_ok_box)

lemma deliver_ok [preserves]: "broker_ok D b \<Longrightarrow> broker_ok D (fst (deliver H b f t body kind corr))"
  by (simp add: deliver_def Let_def broker_ok_box split: option.split)

lemma recv_ok [preserves]: "broker_ok D b \<Longrightarrow> broker_ok D (fst (broker_recv b a d))"
proof -
  assume ok: "broker_ok D b"
  then have "length (m # q) \<le> mailbox" if "m_get (b_boxes b) a = Some (m # q)" for m q
    using that unfolding broker_ok_def members_ok_def by blast
  then show ?thesis
    using ok by (auto simp: broker_recv_def broker_ok_box split: option.split list.split)
qed

lemma ask_deliver_ok [preserves]: "broker_ok D b \<Longrightarrow> broker_ok D (fst (ask_deliver H b tag f t body))"
  using deliver_ok[of D b H f t body "''ask''" tag]
  by (auto simp: ask_deliver_def split: prod.split sum.split)

lemma ask_begin_ok [preserves]: "broker_ok D b \<Longrightarrow> broker_ok D (fst (ask_begin H b tag f t body))"
  unfolding ask_begin_def by (rule ask_deliver_ok) (simp add: ask_open_def)

lemma ask_answer_ok [preserves]: "broker_ok D b \<Longrightarrow> ask_answer b tag = Some (b', x) \<Longrightarrow> broker_ok D b'"
  by (auto simp: ask_answer_def split: option.splits list.splits)

lemma ask_timeout_ok [preserves]: "broker_ok D b \<Longrightarrow> broker_ok D (fst (ask_timeout b tag f t d))"
  by (simp add: ask_timeout_def Let_def split: option.split list.split)

lemma reply_ok [preserves]: "broker_ok D b \<Longrightarrow> broker_ok D (fst (broker_reply H b f tag body))"
  by (simp add: broker_reply_def Let_def split: option.split)

lemma broker_store_get_ok [preserves]: "broker_ok D b \<Longrightarrow> broker_ok D (fst (broker_store_get b a k))"
  by (simp add: broker_store_get_def split: option.split prod.split)

lemma broker_store_put_ok [preserves]: "broker_ok D b \<Longrightarrow> broker_ok D (fst (broker_store_put b a k v))"
proof -
  assume ok: "broker_ok D b"
  have "store_ok s'" if "b_store b = Some s" "store_put s a k v = (s', evs, r)" for s s' evs r
    using store_put_ok[of s a k v] that ok by (simp add: broker_ok_def)
  then show ?thesis
    using ok by (auto simp: broker_store_put_def broker_ok_def split: option.split prod.split)
qed

section \<open>Spawning keeps the invariant\<close>

lemma workers_ok_live:
  "workers_ok D b \<Longrightarrow> distinct (live_workers b s) \<and>
     (\<forall>n \<in> set (live_workers b s). minted_by s (b_seq b) n)"
  by (simp add: workers_ok_def)

lemma workers_ok_declared: "workers_ok D b \<Longrightarrow> n \<in> set (live_workers b who) \<Longrightarrow> who \<in> set D"
  by (cases "live_workers b who = []") (auto simp: workers_ok_def)

lemma workers_ok_budget:
  "workers_ok D b \<Longrightarrow> m_get (b_budgets b) who = Some bud \<Longrightarrow> live_workers b who \<noteq> [] \<Longrightarrow>
     int (length (live_workers b who)) \<le> bud_max bud"
  unfolding workers_ok_def by blast

text \<open>The next name an agent's spawn mints belongs to nobody.\<close>

lemma minted_is_fresh:
  assumes ok: "broker_ok D b" and s: "s \<in> set D" and n: "in_int64 (b_seq b + 1)"
  shows "mint s (b_seq b + 1) \<notin> set (agents (b_topo b))"
proof -
  let ?n = "b_seq b + 1"
  have w: "workers_ok D b" and m: "members_ok D b" and d: "declared_ok D"
    using ok by (simp_all add: broker_ok_def)
  have pos: "1 \<le> ?n" using w by (simp add: workers_ok_def)
  have "mintedSpawnName (mint s ?n) D = Some s"
    unfolding mintedSpawnName_iff using s pos n by blast
  then have "mint s ?n \<notin> set D" using d by (auto simp: declared_ok_def)
  moreover have "mint s ?n \<notin> spawned_names b"
  proof
    assume "mint s ?n \<in> spawned_names b"
    then obtain who k where "1 \<le> k" and "k \<le> b_seq b"
      and "mint s ?n = mint who k"
      using w unfolding workers_ok_def spawned_names_def minted_by_def by blast
    with mint_inj[of ?n k s who] pos show False by simp
  qed
  ultimately show ?thesis using m by (simp add: members_ok_def)
qed

lemma spawned_names_put:
  "spawned_names (b\<lparr>b_spawned := m_put s (live_workers b s @ [n]) (b_spawned b)\<rparr>) = insert n (spawned_names b)"
  unfolding spawned_names_def live_workers_put by (auto split: if_splits)

lemma workers_ok_seq: "workers_ok D b \<Longrightarrow> workers_ok D (b\<lparr>b_seq := b_seq b + 1\<rparr>)"
  unfolding workers_ok_def by (auto intro: minted_by_Suc)

lemma workers_ok_spawn:
  assumes w: "workers_ok D b" and bud: "m_get (b_budgets b) s = Some bud"
    and room: "int (length (live_workers b s)) < bud_max bud"
  shows "workers_ok D (b\<lparr>b_seq := b_seq b + 1,
    b_spawned := m_put s (live_workers b s @ [mint s (b_seq b + 1)]) (b_spawned b)\<rparr>)"
proof -
  let ?n = "b_seq b + 1"
  have s: "s \<in> set D" and pos: "1 \<le> ?n" using w bud by (auto simp: workers_ok_def)
  have "\<not> minted_by s (b_seq b) (mint s ?n)"
    using mint_inj[of ?n _ s s] pos by (fastforce simp: minted_by_def)
  then have "distinct (live_workers b s @ [mint s ?n])"
    and "\<forall>x \<in> set (live_workers b s @ [mint s ?n]). minted_by s ?n x"
    using workers_ok_live[OF w, of s] pos by (auto intro: minted_by_Suc)
  moreover have "workers_ok D (b\<lparr>b_seq := ?n\<rparr>)" using w by (rule workers_ok_seq)
  ultimately show ?thesis
    using s room bud unfolding workers_ok_def by simp
qed

lemma members_ok_spawn:
  assumes ok: "members_ok D b" and n: "n \<notin> set (agents (b_topo b))"
    and s: "s \<in> set (agents (b_topo b))"
  shows "members_ok D (b\<lparr>b_spawned := m_put s (live_workers b s @ [n]) (b_spawned b),
    b_boxes := m_put n [] (b_boxes b), b_topo := topo_attach n s (b_topo b)\<rparr>)"
proof -
  have "spawned_names (b\<lparr>b_spawned := m_put s (live_workers b s @ [n]) (b_spawned b),
      b_boxes := m_put n [] (b_boxes b), b_topo := topo_attach n s (b_topo b)\<rparr>) = insert n (spawned_names b)"
    using spawned_names_put[where b = b and s = s and n = n] by (simp add: spawned_names_def live_workers_def)
  then show ?thesis
    using ok n s topo_ok_attach[of "b_topo b" n s]
    by (auto simp: members_ok_def gm.get_put_fun mailbox_def)
qed

lemma spawn_ok [preserves]: "broker_ok D b \<Longrightarrow> broker_ok D (fst (broker_spawn b s img))"
proof -
  assume ok: "broker_ok D b"
  show ?thesis
  proof (cases "\<exists>r. snd (broker_spawn b s img) = Inr r")
    case False
    have "broker_ok D (b\<lparr>b_seq := b_seq b + 1\<rparr>)"
      using ok unfolding broker_ok_def by (simp add: workers_ok_seq)
    with ok False show ?thesis
      by (auto simp: broker_spawn_def Let_def split: option.splits if_splits)
  next
    case True
    then obtain bud where bud: "m_get (b_budgets b) s = Some bud"
      and room: "int (length (live_workers b s)) < bud_max bud"
      and free: "\<not> topo_exists (b_topo b) (mint s (b_seq b + 1))"
      and res: "fst (broker_spawn b s img) =
        record_event (spawn_event s (mint s (b_seq b + 1)) ''spawn'' OutcomeDelivered [])
          (b\<lparr>b_seq := b_seq b + 1, b_spawned := m_put s (live_workers b s @ [mint s (b_seq b + 1)]) (b_spawned b),
             b_boxes := m_put (mint s (b_seq b + 1)) [] (b_boxes b),
             b_topo := topo_attach (mint s (b_seq b + 1)) s (b_topo b)\<rparr>)"
      by (fastforce simp: broker_spawn_def Let_def split: option.splits if_splits)
    have w: "workers_ok D b" and m: "members_ok D b" using ok by (simp_all add: broker_ok_def)
    have "s \<in> set (agents (b_topo b))" using w m bud by (auto simp: workers_ok_def members_ok_def)
    then have "members_ok D (b\<lparr>b_spawned := m_put s (live_workers b s @ [mint s (b_seq b + 1)]) (b_spawned b),
        b_boxes := m_put (mint s (b_seq b + 1)) [] (b_boxes b),
        b_topo := topo_attach (mint s (b_seq b + 1)) s (b_topo b)\<rparr>)"
      using m w free by (intro members_ok_spawn) (simp_all add: workers_ok_def topo_exists_def)
    then have "members_ok D (fst (broker_spawn b s img))"
      unfolding res record_event_def by (simp add: members_ok_def spawned_names_def live_workers_def)
    moreover have "workers_ok D (fst (broker_spawn b s img))"
      unfolding res record_event_def using workers_ok_spawn[OF w bud room]
      by (simp add: workers_ok_def live_workers_def)
    moreover have "b_store (fst (broker_spawn b s img)) = b_store b"
      unfolding res record_event_def by simp
    ultimately show ?thesis using ok by (simp add: broker_ok_def)
  qed
qed

section \<open>Despawning keeps the invariant\<close>

lemma live_workers_remove [simp]:
  "live_workers (b\<lparr>b_spawned := map (\<lambda>(who, l). (who, remove1 n l)) (b_spawned c)\<rparr>) who = remove1 n (live_workers c who)"
  by (simp add: live_workers_def split: option.split)

lemma live_workers_mem:
  "n \<in> set (live_workers b who) \<longleftrightarrow> (\<exists>l. m_get (b_spawned b) who = Some l \<and> n \<in> set l)"
  by (cases "m_get (b_spawned b) who") (simp_all add: live_workers_def)

lemma spawned_entry:
  "m_ok (b_spawned b) \<Longrightarrow> (who, l) \<in> set (b_spawned b) \<Longrightarrow> live_workers b who = l"
  by (simp add: live_workers_def m_get_entry [symmetric])

lemma owner_of_spawned:
  assumes w: "workers_ok D b" and d: "declared_ok D" and n: "n \<in> spawned_names b"
  shows "n \<in> set (live_workers b (owner_of b n))" and "owner_of b n \<noteq> []"
proof -
  have m: "m_ok (b_spawned b)" using w by (simp add: workers_ok_def)
  from n obtain who l where wl: "m_get (b_spawned b) who = Some l" "n \<in> set l"
    by (auto simp: spawned_names_def live_workers_mem)
  let ?os = "filter (\<lambda>(who, l). n \<in> set l) (b_spawned b)"
  have ne: "?os \<noteq> []" using wl m by (auto simp: filter_empty_conv m_get_entry)
  then have "last ?os \<in> set ?os" by (rule last_in_set)
  then have "(fst (last ?os), snd (last ?os)) \<in> set (b_spawned b)" and "n \<in> set (snd (last ?os))"
    by auto
  moreover have "owner_of b n = fst (last ?os)"
    using ne by (auto simp: owner_of_def split: list.split)
  ultimately show mem: "n \<in> set (live_workers b (owner_of b n))"
    using spawned_entry[OF m, of "fst (last ?os)" "snd (last ?os)"] by simp
  then have "owner_of b n \<in> set D" by (rule workers_ok_declared[OF w])
  then show "owner_of b n \<noteq> []" using d by (auto simp: declared_ok_def)
qed

lemma owner_of_stranger:
  assumes w: "workers_ok D b" and n: "n \<notin> spawned_names b"
  shows "owner_of b n = []"
    and "map (\<lambda>(who, l). (who, remove1 n l)) (b_spawned b) = b_spawned b"
proof -
  have m: "m_ok (b_spawned b)" using w by (simp add: workers_ok_def)
  have out: "n \<notin> set l" if "(who, l) \<in> set (b_spawned b)" for who l
    using n spawned_entry[OF m that] by (auto simp: spawned_names_def)
  then have none: "filter (\<lambda>(who, l). n \<in> set l) (b_spawned b) = []"
    by (auto simp: filter_empty_conv)
  show "owner_of b n = []" unfolding owner_of_def none by simp
  show "map (\<lambda>(who, l). (who, remove1 n l)) (b_spawned b) = b_spawned b"
    by (rule map_idI) (auto simp: remove1_idem dest: out)
qed

lemma despawn_stranger:
  "workers_ok D b \<Longrightarrow> n \<notin> spawned_names b \<Longrightarrow>
     broker_despawn b n = record_event (spawn_event [] n ''despawn'' OutcomeRefused ''not_a_spawned_worker'') b"
  by (simp add: broker_despawn_def Let_def owner_of_stranger)

lemma workers_ok_remove:
  "workers_ok D b \<Longrightarrow>
     workers_ok D (b\<lparr>b_spawned := map (\<lambda>(who, l). (who, remove1 n l)) (b_spawned b)\<rparr>)"
proof -
  assume w: "workers_ok D b"
  let ?r = "\<lambda>who. remove1 n (live_workers b who)"
  have sub: "set (?r who) \<subseteq> set (live_workers b who)" for who by (rule set_remove1_subset)
  have "who \<in> set D" if "?r who \<noteq> []" for who
  proof -
    from that obtain x where "x \<in> set (?r who)" by (cases "?r who") auto
    with sub workers_ok_declared[OF w] show ?thesis by blast
  qed
  moreover have "?r who = [] \<or> int (length (?r who)) \<le> bud_max bud"
    if "m_get (b_budgets b) who = Some bud" for who bud
  proof (cases "live_workers b who = []")
    case False
    have "length (?r who) \<le> length (live_workers b who)" by (simp add: length_remove1)
    with workers_ok_budget[OF w that False] show ?thesis by linarith
  qed simp
  moreover have "\<forall>x \<in> set (?r who). minted_by who (b_seq b) x" and "distinct (?r who)" for who
    using workers_ok_live[OF w, of who] sub by (auto simp: distinct_remove1)
  ultimately show ?thesis
    using w unfolding workers_ok_def live_workers_remove by simp
qed

lemma spawned_names_remove:
  "workers_ok D b \<Longrightarrow>
     spawned_names (b\<lparr>b_spawned := map (\<lambda>(who, l). (who, remove1 n l)) (b_spawned b)\<rparr>) = spawned_names b - {n}"
  unfolding spawned_names_def live_workers_remove by (auto simp: workers_ok_def)

lemma despawn_ok [preserves]: "broker_ok D b \<Longrightarrow> broker_ok D (broker_despawn b n)"
proof -
  assume ok: "broker_ok D b"
  then have w: "workers_ok D b" and m: "members_ok D b" and d: "declared_ok D"
    by (simp_all add: broker_ok_def)
  show ?thesis
  proof (cases "n \<in> spawned_names b")
    case False
    with ok show ?thesis by (simp add: despawn_stranger[OF w])
  next
    case True
    let ?b1 = "b\<lparr>b_spawned := map (\<lambda>(who, l). (who, remove1 n l)) (b_spawned b)\<rparr>"
    let ?b2 = "?b1\<lparr>b_boxes := m_del n (b_boxes b), b_topo := topo_detach n (b_topo b)\<rparr>"
    have sp: "spawned_names ?b2 = spawned_names b - {n}"
      using spawned_names_remove[OF w, of n] by (simp add: spawned_names_def)
    have "members_ok D ?b2"
      using m True sp topo_ok_detach[of "b_topo b" n] agents_detach[of "b_topo b" n]
      unfolding members_ok_def by (auto simp: gm.get_del_fun topo_ok_agents)
    moreover have "workers_ok D ?b2" using workers_ok_remove[OF w, of n] by simp
    ultimately have "broker_ok D ?b2" using ok by (simp add: broker_ok_def)
    then show ?thesis
      using owner_of_spawned(2)[OF w d True] by (simp add: broker_despawn_def Let_def)
  qed
qed

section \<open>The record\<close>

lemma log_ok_frame [simp]:
  "log_ok H (b\<lparr>b_pending := p\<rparr>) = log_ok H b"
  "log_ok H (b\<lparr>b_chans := c\<rparr>) = log_ok H b"
  "log_ok H (b\<lparr>b_store := s\<rparr>) = log_ok H b"
  "log_ok H (b\<lparr>b_topo := t\<rparr>) = log_ok H b"
  "log_ok H (b\<lparr>b_spawned := sp\<rparr>) = log_ok H b"
  "log_ok H (b\<lparr>b_seq := n\<rparr>) = log_ok H b"
  "log_ok H (ask_close tag b) = log_ok H b"
  by (simp_all add: log_ok_def ask_close_def)

lemma log_ok_append:
  "log_ok H b \<Longrightarrow> \<forall>e \<in> set es. ev_body e \<noteq> [] \<longrightarrow> b_capture b \<and> ev_outcome e = OutcomeDelivered \<Longrightarrow>
     log_ok H (b\<lparr>b_log := b_log b @ es\<rparr>)"
  unfolding log_ok_def by (auto simp: bex_Un)

lemma log_ok_record:
  "log_ok H b \<Longrightarrow> ev_body e \<noteq> [] \<longrightarrow> b_capture b \<and> ev_outcome e = OutcomeDelivered \<Longrightarrow>
     log_ok H (record_event e b)"
  unfolding record_event_def by (rule log_ok_append) auto

lemma describe_private:
  "ev_body (describe H cap f t body kind outcome reason) \<noteq> [] \<longrightarrow> cap \<and>
     ev_outcome (describe H cap f t body kind outcome reason) = OutcomeDelivered"
  by (simp add: describe_def)

lemma log_ok_shrink:
  "log_ok H b \<Longrightarrow> (\<And>a q. m_get bx a = Some q \<Longrightarrow> \<exists>q'. m_get (b_boxes b) a = Some q' \<and> set q \<subseteq> set q') \<Longrightarrow>
     log_ok H (b\<lparr>b_boxes := bx\<rparr>)"
  unfolding log_ok_def by simp (meson subsetD)

lemma deliver_log_ok: "log_ok H b \<Longrightarrow> log_ok H (fst (deliver H b f t body kind corr))"
proof -
  assume ok: "log_ok H b"
  have rec: "log_ok H (record_event (describe H (b_capture b) f t body kind outcome reason) b)" for outcome reason
    using ok describe_private by (rule log_ok_record)
  have new: "log_ok H (record_event (describe H (b_capture b) f t body kind OutcomeDelivered [])
      (b\<lparr>b_boxes := m_put t (q @ [\<lparr>m_from = f, m_body = body, m_corr = corr\<rparr>]) (b_boxes b)\<rparr>))"
    if "m_get (b_boxes b) t = Some q" for q
    using ok that unfolding log_ok_def record_event_def
    by (auto simp: delivered_event_def describe_def)
  show ?thesis
    by (simp add: deliver_def Let_def rec new split: option.split)
qed

lemma recv_log_ok: "log_ok H b \<Longrightarrow> log_ok H (fst (broker_recv b a d))"
  by (auto simp: broker_recv_def split: option.split list.split if_splits intro!: log_ok_shrink)

lemma ask_begin_log_ok: "log_ok H b \<Longrightarrow> log_ok H (fst (ask_begin H b tag f t body))"
proof -
  assume "log_ok H b"
  then have "log_ok H (ask_open tag f t b)" by (simp add: ask_open_def)
  then show ?thesis
    using deliver_log_ok[of H "ask_open tag f t b" f t body "''ask''" tag]
    by (auto simp: ask_begin_def ask_deliver_def split: prod.split sum.split)
qed

lemma ask_answer_log_ok: "log_ok H b \<Longrightarrow> ask_answer b tag = Some (b', x) \<Longrightarrow> log_ok H b'"
  by (auto simp: ask_answer_def split: option.splits list.splits)

lemma ask_timeout_log_ok: "log_ok H b \<Longrightarrow> log_ok H (fst (ask_timeout b tag f t d))"
  by (simp add: ask_timeout_def Let_def log_ok_record split: option.split list.split)

lemma reply_log_ok: "log_ok H b \<Longrightarrow> log_ok H (fst (broker_reply H b f tag body))"
proof -
  assume ok: "log_ok H b"
  have rec: "log_ok H (record_event (describe H (b_capture b) f to body kind outcome reason) c)"
    if "log_ok H c" and "b_capture c = b_capture b" for to kind outcome reason c
    by (rule log_ok_record[OF that(1)]) (unfold that(2), rule describe_private)
  have cap: "b_capture (ask_close tag b) = b_capture b" by (simp add: ask_close_def)
  show ?thesis
    by (simp add: broker_reply_def Let_def rec cap ok log_ok_record split: option.split)
qed

lemma broker_store_get_log_ok: "log_ok H b \<Longrightarrow> log_ok H (fst (broker_store_get b a k))"
  by (auto simp: broker_store_get_def audited_def split: option.split prod.split
      dest!: store_get_audited intro!: log_ok_append)

lemma broker_store_put_log_ok: "log_ok H b \<Longrightarrow> log_ok H (fst (broker_store_put b a k v))"
proof -
  assume ok: "log_ok H b"
  have "log_ok H (b\<lparr>b_store := s', b_log := b_log b @ evs\<rparr>)" if "audited a evs r" for s' evs r
    using that ok log_ok_append[of H "b\<lparr>b_store := s'\<rparr>" evs] by (auto simp: audited_def)
  then show ?thesis
    by (auto simp: broker_store_put_def split: option.split prod.split dest!: store_put_audited simp: ok)
qed

lemma spawn_log_ok: "log_ok H b \<Longrightarrow> log_ok H (fst (broker_spawn b s img))"
proof -
  assume ok: "log_ok H b"
  have "log_ok H (record_event (spawn_event s n ''spawn'' OutcomeDelivered [])
      (b\<lparr>b_seq := k, b_spawned := sp, b_boxes := m_put n [] (b_boxes b), b_topo := t\<rparr>))" for n k sp t
  proof (rule log_ok_record)
    show "log_ok H (b\<lparr>b_seq := k, b_spawned := sp, b_boxes := m_put n [] (b_boxes b), b_topo := t\<rparr>)"
      using ok unfolding log_ok_def by (auto split: if_splits)
  qed (simp add: spawn_event_def)
  then show ?thesis
    using ok by (simp add: broker_spawn_def Let_def log_ok_record spawn_event_def split: option.split)
qed

lemma despawn_log_ok: "log_ok H b \<Longrightarrow> log_ok H (broker_despawn b n)"
proof -
  assume ok: "log_ok H b"
  have "log_ok H (b\<lparr>b_spawned := sp, b_boxes := m_del n (b_boxes b), b_topo := t\<rparr>)" for sp t
    using ok unfolding log_ok_def by (auto split: if_splits)
  then show ?thesis
    using ok by (simp add: broker_despawn_def Let_def log_ok_record spawn_event_def)
qed

section \<open>Any sequence of operations\<close>

definition broker_inv :: "(bytes \<Rightarrow> string) \<Rightarrow> string list \<Rightarrow> broker \<Rightarrow> bool" where
  "broker_inv H D b \<longleftrightarrow> broker_ok D b \<and> log_ok H b"

interpretation brk: machine "broker_step H" "broker_inv H D" for H D
proof unfold_locales
  fix b op assume inv: "broker_inv H D b"
  then have ok: "broker_ok D b" and lg: "log_ok H b" by (simp_all add: broker_inv_def)
  show "broker_inv H D (broker_step H b op)"
  proof (cases op)
    case (OpAskAnswer tag)
    with inv ok lg show ?thesis
      by (auto simp: broker_inv_def split: option.split dest: ask_answer_ok ask_answer_log_ok)
  qed (use ok lg in \<open>simp_all add: broker_inv_def preserves broker_send_def deliver_log_ok recv_log_ok
      ask_begin_log_ok ask_timeout_log_ok reply_log_ok broker_store_get_log_ok broker_store_put_log_ok
      spawn_log_ok despawn_log_ok\<close>)
qed

section \<open>A team coming up\<close>

fun grant_all :: "(string \<times> budget) list \<Rightarrow> broker \<Rightarrow> broker" where
  "grant_all [] b = b"
| "grant_all ((a, bud) # gs) b = grant_all gs (grantSpawn a bud b)"

definition team_up :: "topology \<Rightarrow> bool \<Rightarrow> store option \<Rightarrow> (string \<times> budget) list \<Rightarrow> broker" where
  "team_up topo capture st gs = grant_all gs ((newBroker topo capture)\<lparr>b_store := st\<rparr>)"

lemma grant_all_fields:
  "b_topo (grant_all gs b) = b_topo b \<and> b_store (grant_all gs b) = b_store b \<and>
   b_capture (grant_all gs b) = b_capture b \<and> b_boxes (grant_all gs b) = b_boxes b \<and>
   b_spawned (grant_all gs b) = b_spawned b \<and> b_seq (grant_all gs b) = b_seq b \<and>
   b_log (grant_all gs b) = b_log b"
  by (induction gs b rule: grant_all.induct) (simp_all add: grantSpawn_def)

lemma grant_all_budgets:
  "m_get (b_budgets (grant_all gs b)) a = Some bud \<Longrightarrow>
     m_get (b_budgets b) a = Some bud \<or> a \<in> fst ` set gs"
  by (induction gs b rule: grant_all.induct) (auto simp: grantSpawn_def split: if_splits)

lemma m_get_const_map: "m_get (map (\<lambda>a. (a, v)) xs) k = (if k \<in> set xs then Some v else None)"
  by (induction xs) (auto simp: m_get_def)

lemma team_up_inv:
  assumes t: "newTopology D es = Inr topo" and st: "\<forall>s. st = Some s \<longrightarrow> store_ok s"
    and gs: "fst ` set gs \<subseteq> set D"
  shows "broker_inv H D (team_up topo capture st gs)"
proof -
  let ?b = "team_up topo capture st gs"
  note fields = grant_all_fields[of gs "(newBroker topo capture)\<lparr>b_store := st\<rparr>"]
  have ags: "set (agents topo) = set D"
    using t agents_add_edges[of es] by (fastforce simp: newTopology_Inr)
  have tok: "topo_ok topo" by (rule newTopology_ok[OF t])
  have "validAgentName [] = Inl EmptyAgentName" by (simp add: validAgentName_def)
  then have d: "declared_ok D" using t unfolding newTopology_Inr declared_ok_def by fastforce
  have live: "live_workers ?b who = []" for who
    using fields by (simp add: live_workers_def team_up_def newBroker_def)
  have "a \<in> set D" if "m_get (b_budgets ?b) a = Some bud" for a bud
    using grant_all_budgets[of gs "(newBroker topo capture)\<lparr>b_store := st\<rparr>" a bud] that gs by (auto simp: team_up_def newBroker_def)
  then have w: "workers_ok D ?b"
    using fields live by (auto simp: workers_ok_def team_up_def newBroker_def)
  have boxes: "b_boxes ?b = map (\<lambda>a. (a, [])) (agents topo)" and topo: "b_topo ?b = topo"
    using fields by (simp_all add: team_up_def newBroker_def)
  have "m_ok (b_boxes ?b)"
    using topo_ok_agents[OF tok] by (simp add: boxes m_ok_def comp_def)
  then have "members_ok D ?b"
    using tok ags live unfolding members_ok_def boxes topo
    by (auto simp: m_get_const_map spawned_names_def dom_def split: if_splits)
  moreover have "log_ok H ?b"
    using fields unfolding log_ok_def boxes
    by (auto simp: team_up_def newBroker_def m_get_const_map split: if_splits)
  moreover have "b_store ?b = st" using fields by (simp add: team_up_def)
  ultimately show ?thesis using d w st by (simp add: broker_inv_def broker_ok_def)
qed

end
