(* ===== verification/Team_Serve.thy ===== *)
theory Team_Serve
  imports Broker_Inv
begin

text \<open>
  \<^verbatim>\<open>Broker.Serve\<close>: the single entry point of a guest's team request. The agent name is
  the host's. A request either gets its response at once or, for an accepted question, waits;
  \<open>serve_answer\<close> is the response when the wait ends. \<open>onSpawn\<close> is the host's callback that
  boots a machine (\<open>None\<close> when this team has none, an error text when the boot failed) and
  \<open>tag\<close> is what \<open>crypto/rand\<close> produced, or \<open>None\<close> when it failed.
\<close>

record team_request =
  rq_op :: string
  rq_to :: string
  rq_body :: string
  rq_correlate :: string
  rq_key :: string
  rq_image :: string
  rq_timeout :: "64 word"

record team_response =
  rs_ok :: bool
  rs_from :: string
  rs_body :: string
  rs_peers :: "string list"
  rs_agent :: string
  rs_correlate :: string
  rs_error :: "team_error option"

definition ok_response :: team_response where
  "ok_response = \<lparr>rs_ok = True, rs_from = [], rs_body = [], rs_peers = [], rs_agent = [],
     rs_correlate = [], rs_error = None\<rparr>"

definition failed :: "team_error \<Rightarrow> team_response" where
  "failed e = ok_response\<lparr>rs_ok := False, rs_error := Some e\<rparr>"

datatype serve_result =
    Response team_response
  | AwaitAnswer string string string int

definition serve_unit :: "broker \<times> (team_error + unit) \<Rightarrow> broker \<times> serve_result" where
  "serve_unit br = (fst br, Response (case snd br of Inl e \<Rightarrow> failed e | Inr _ \<Rightarrow> ok_response))"

definition serve_body :: "broker \<times> (team_error + bytes) \<Rightarrow> broker \<times> serve_result" where
  "serve_body br =
     (fst br, Response (case snd br of Inl e \<Rightarrow> failed e | Inr v \<Rightarrow> ok_response\<lparr>rs_body := b64_encode v\<rparr>))"

definition serve_recv :: "broker \<times> (team_error + message) \<Rightarrow> broker \<times> serve_result" where
  "serve_recv br =
     (fst br, Response (case snd br of Inl e \<Rightarrow> failed e
        | Inr m \<Rightarrow> ok_response\<lparr>rs_from := m_from m, rs_correlate := m_corr m, rs_body := b64_encode (m_body m)\<rparr>))"

definition serve_spawn :: "(spawn_request \<Rightarrow> string option) option \<Rightarrow> broker \<Rightarrow> string \<Rightarrow> string \<Rightarrow> broker \<times> serve_result" where
  "serve_spawn onSpawn b agent img =
     (case onSpawn of
        None \<Rightarrow> (b, Response (failed CannotSpawn))
      | Some boot \<Rightarrow>
          (case broker_spawn b agent img of
             (b', Inl e) \<Rightarrow> (b', Response (failed e))
           | (b', Inr sr) \<Rightarrow>
               (case boot sr of
                  Some msg \<Rightarrow> (broker_despawn b' (sr_name sr), Response (failed (HostError msg)))
                | None \<Rightarrow> (b', Response (ok_response\<lparr>rs_agent := sr_name sr\<rparr>)))))"

definition serve_ask ::
  "(bytes \<Rightarrow> string) \<Rightarrow> string option \<Rightarrow> broker \<Rightarrow> string \<Rightarrow> string \<Rightarrow> bytes \<Rightarrow> int \<Rightarrow> broker \<times> serve_result" where
  "serve_ask H tag b agent to body timeout =
     (case tag of
        None \<Rightarrow> (b, Response (failed (HostError ''mint a correlation tag'')))
      | Some t \<Rightarrow>
          (case ask_begin H b t agent to body of
             (b', Inl e) \<Rightarrow> (b', Response (failed e))
           | (b', Inr _) \<Rightarrow> (b', AwaitAnswer t agent to timeout)))"

definition serve ::
  "(bytes \<Rightarrow> string) \<Rightarrow> (spawn_request \<Rightarrow> string option) option \<Rightarrow> string option \<Rightarrow> broker \<Rightarrow> string \<Rightarrow>
     team_request \<Rightarrow> broker \<times> serve_result" where
  "serve H onSpawn tag b agent req =
     (case b64_decode (rq_body req) of
        None \<Rightarrow> (b, Response (failed BodyNotBase64))
      | Some body \<Rightarrow>
          let timeout = sint (waitFor (rq_timeout req)) in
          if rq_op req = ''send'' then serve_unit (broker_send H b agent (rq_to req) body)
          else if rq_op req = ''recv'' then serve_recv (broker_recv b agent timeout)
          else if rq_op req = ''ask'' then serve_ask H tag b agent (rq_to req) body timeout
          else if rq_op req = ''reply'' then serve_unit (broker_reply H b agent (rq_correlate req) body)
          else if rq_op req = ''peers''
          then (b, Response (ok_response\<lparr>rs_peers := peersOf (b_topo b) agent, rs_agent := agent\<rparr>))
          else if rq_op req = ''store_get'' then serve_body (broker_store_get b agent (rq_key req))
          else if rq_op req = ''store_put'' then serve_unit (broker_store_put b agent (rq_key req) body)
          else if rq_op req = ''spawn'' then serve_spawn onSpawn b agent (rq_image req)
          else (b, Response (failed (UnknownOp (rq_op req)))))"

text \<open>The end of a wait: the answer that arrived, or the timer.\<close>

definition serve_answer :: "broker \<Rightarrow> string \<Rightarrow> string \<Rightarrow> string \<Rightarrow> int \<Rightarrow> bool \<Rightarrow> broker \<times> serve_result" where
  "serve_answer b tag from to timeout fired =
     (if fired then serve_body (ask_timeout b tag from to timeout)
      else case ask_answer b tag of
             None \<Rightarrow> (b, AwaitAnswer tag from to timeout)
           | Some (b', x) \<Rightarrow> serve_body (b', Inr x))"

section \<open>Serve keeps the broker's invariant\<close>

lemma serve_unit_fst [simp]: "fst (serve_unit br) = fst br"
  by (simp add: serve_unit_def)

lemma serve_body_fst [simp]: "fst (serve_body br) = fst br"
  by (simp add: serve_body_def)

lemma serve_recv_fst [simp]: "fst (serve_recv br) = fst br"
  by (simp add: serve_recv_def)

text \<open>Every request is a run of at most two of the broker's operations.\<close>

lemma serve_is_run: "\<exists>ops. length ops \<le> 2 \<and> fst (serve H onSpawn tag b agent req) = foldl (broker_step H) b ops"
proof -
  have none: "\<exists>ops. length ops \<le> 2 \<and> b = foldl (broker_step H) b ops" by (rule exI[of _ "[]"]) simp
  have one: "\<exists>ops. length ops \<le> 2 \<and> broker_step H b op = foldl (broker_step H) b ops" for op
    by (rule exI[of _ "[op]"]) simp
  note steps = one[of "OpSend _ _ _"] one[of "OpRecv _ _"] one[of "OpAskBegin _ _ _ _"] one[of "OpReply _ _ _"]
    one[of "OpStoreGet _ _"] one[of "OpStorePut _ _ _"] one[of "OpSpawn _ _"]
  have ask: "\<exists>ops. length ops \<le> 2 \<and> fst (serve_ask H tag b agent to body d) = foldl (broker_step H) b ops" for to body d
    using one[of "OpAskBegin _ _ _ _"] none
    by (auto simp: serve_ask_def split: option.split prod.split sum.split) (metis broker_step.simps(3) fst_conv)+
  have spawn: "\<exists>ops. length ops \<le> 2 \<and> fst (serve_spawn onSpawn b agent img) = foldl (broker_step H) b ops" for img
  proof (cases onSpawn)
    case None
    with none show ?thesis by (simp add: serve_spawn_def)
  next
    case (Some boot)
    obtain b' r where br: "broker_spawn b agent img = (b', r)" by (cases "broker_spawn b agent img")
    have b': "b' = broker_step H b (OpSpawn agent img)" using br by simp
    show ?thesis
    proof (cases "\<exists>sr msg. r = Inr sr \<and> boot sr = Some msg")
      case True
      then obtain sr msg where "r = Inr sr" "boot sr = Some msg" by blast
      then have "fst (serve_spawn onSpawn b agent img) = foldl (broker_step H) b [OpSpawn agent img, OpDespawn (sr_name sr)]"
        using Some br by (simp add: serve_spawn_def)
      then show ?thesis by (intro exI[of _ "[OpSpawn agent img, OpDespawn (sr_name sr)]"]) simp
    next
      case False
      then have "fst (serve_spawn onSpawn b agent img) = b'"
        using Some br by (auto simp: serve_spawn_def split: sum.split option.split)
      with one[of "OpSpawn agent img"] b' show ?thesis by simp
    qed
  qed
  show ?thesis
    using none steps ask spawn
    by (simp add: serve_def Let_def split: option.split)
qed

lemma serve_inv: "broker_inv H D b \<Longrightarrow> broker_inv H D (fst (serve H onSpawn tag b agent req))"
  using serve_is_run[of H onSpawn tag b agent req] brk.run_inv by metis

end
