(* ===== verification/Ask_Machine.thy ===== *)
theory Ask_Machine
  imports Team_Serve "HOL-Library.Multiset"
begin

text \<open>
  Questions under concurrency. Every guest channel is served on its own goroutine, so the steps
  of \<open>Ask\<close>, \<open>Reply\<close> and the other calls interleave in any order. A step is what the code does
  between two points where another goroutine may run: entering the question under the lock,
  delivering it, leaving the select with the answer, leaving it with the timer, the claim a \<open>Reply\<close>
  makes under the lock, and any other operation of the broker. The broker does not hold its lock
  while it records, so what a step decides to record is due, and enters the record in a step of its
  own, in any order.

  The system is the broker, the phase of each call to \<open>Ask\<close> (by its tag), the events that are due
  and, per tag, the events that the calls of \<open>Ask\<close> and \<open>Reply\<close> with that tag decided to record: exactly what
  the model's operations append to \<open>b_log\<close>.
\<close>

datatype phase =
    Opened string string bytes int
  | Waiting string string int
  | Closed string string "team_error + bytes"

record ask_sys =
  as_broker :: broker
  as_phase :: "string \<Rightarrow> phase option"
  as_due :: "event list"
  as_calls :: "string \<Rightarrow> event list"

definition logged :: "broker \<Rightarrow> broker \<Rightarrow> event list" where
  "logged b b' = drop (length (b_log b)) (b_log b')"

text \<open>The broker an operation leaves, with its events due rather than recorded.\<close>

definition act :: "broker \<Rightarrow> ask_sys \<Rightarrow> ask_sys" where
  "act b' s = s\<lparr>as_broker := b'\<lparr>b_log := b_log (as_broker s)\<rparr>, as_due := as_due s @ logged (as_broker s) b'\<rparr>"

definition act_on :: "string \<Rightarrow> broker \<Rightarrow> ask_sys \<Rightarrow> ask_sys" where
  "act_on tag b' s = (act b' s)\<lparr>as_calls := (as_calls s)(tag := as_calls s tag @ logged (as_broker s) b')\<rparr>"

definition set_phase :: "string \<Rightarrow> phase \<Rightarrow> ask_sys \<Rightarrow> ask_sys" where
  "set_phase tag p s = s\<lparr>as_phase := (as_phase s)(tag := Some p)\<rparr>"

text \<open>The operations that leave questions alone.\<close>

fun quiet_op :: "broker_op \<Rightarrow> bool" where
  "quiet_op (OpAskBegin _ _ _ _) = False"
| "quiet_op (OpAskAnswer _) = False"
| "quiet_op (OpAskTimeout _ _ _ _) = False"
| "quiet_op (OpReply _ _ _) = False"
| "quiet_op _ = True"

inductive ask_step :: "(bytes \<Rightarrow> string) \<Rightarrow> ask_sys \<Rightarrow> ask_sys \<Rightarrow> bool" for H where
  step_open: "as_phase s tag = None \<Longrightarrow>
    ask_step H s (set_phase tag (Opened f t body d) (act_on tag (ask_open tag f t (as_broker s)) s))"
| step_asked: "as_phase s tag = Some (Opened f t body d) \<Longrightarrow>
    ask_deliver H (as_broker s) tag f t body = (b', Inr u) \<Longrightarrow>
    ask_step H s (set_phase tag (Waiting f t d) (act_on tag b' s))"
| step_refused: "as_phase s tag = Some (Opened f t body d) \<Longrightarrow>
    ask_deliver H (as_broker s) tag f t body = (b', Inl e) \<Longrightarrow>
    ask_step H s (set_phase tag (Closed f t (Inl e)) (act_on tag b' s))"
| step_answer: "as_phase s tag = Some (Waiting f t d) \<Longrightarrow>
    ask_answer (as_broker s) tag = Some (b', x) \<Longrightarrow>
    ask_step H s (set_phase tag (Closed f t (Inr x)) (act_on tag b' s))"
| step_timer: "as_phase s tag = Some (Waiting f t d) \<Longrightarrow>
    ask_timeout (as_broker s) tag f t d = (b', r) \<Longrightarrow>
    ask_step H s (set_phase tag (Closed f t r) (act_on tag b' s))"
| step_reply: "broker_reply H (as_broker s) who tag body = (b', r) \<Longrightarrow> ask_step H s (act_on tag b' s)"
| step_other: "quiet_op op \<Longrightarrow> ask_step H s (act (broker_step H (as_broker s) op) s)"
| step_record: "as_due s = es @ e # es' \<Longrightarrow>
    ask_step H s (s\<lparr>as_due := es @ es', as_broker := record_event e (as_broker s)\<rparr>)"

inductive ask_reachable :: "(bytes \<Rightarrow> string) \<Rightarrow> broker \<Rightarrow> ask_sys \<Rightarrow> bool" for H b0 where
  reach_start: "b_pending b0 = [] \<Longrightarrow>
    ask_reachable H b0 \<lparr>as_broker = b0, as_phase = (\<lambda>_. None), as_due = [], as_calls = (\<lambda>_. [])\<rparr>"
| reach_step: "ask_reachable H b0 s \<Longrightarrow> ask_step H s s' \<Longrightarrow> ask_reachable H b0 s'"

inductive_cases ask_step_cases: "ask_step H s s'"

section \<open>What settles a question\<close>

definition settles :: "event \<Rightarrow> bool" where
  "settles e \<longleftrightarrow> ev_kind e = ''reply'' \<and> (ev_outcome e = OutcomeDelivered \<or> ev_outcome e = OutcomeTimeout)"

definition verdict :: "ask_sys \<Rightarrow> string \<Rightarrow> event list" where
  "verdict s tag = filter settles (as_calls s tag)"

definition reply_event :: "(bytes \<Rightarrow> string) \<Rightarrow> bool \<Rightarrow> string \<Rightarrow> string \<Rightarrow> bytes \<Rightarrow> event" where
  "reply_event H cap from to body = describe H cap from to body ''reply'' OutcomeDelivered []"

definition timeout_event :: "string \<Rightarrow> string \<Rightarrow> event" where
  "timeout_event from to = no_event\<lparr>ev_type := ''team.message'', ev_from := to, ev_to := from, ev_kind := ''reply'',
     ev_outcome := OutcomeTimeout\<rparr>"

definition undelivered :: "team_error \<Rightarrow> bool" where
  "undelivered e \<longleftrightarrow> (\<exists>a. e = NoSuchAgent a) \<or> (\<exists>a b. e = NoEdge a b) \<or> (\<exists>a. e = Unreachable a)"

lemma outcomes_differ [simp]: "OutcomeTimeout \<noteq> OutcomeDelivered" "OutcomeRefused \<noteq> OutcomeDelivered" "OutcomeRefused \<noteq> OutcomeTimeout"
  "OutcomeUnreachable \<noteq> OutcomeDelivered" "OutcomeUnreachable \<noteq> OutcomeTimeout"
  by simp_all

lemma settling [simp]: "settles (reply_event H cap f t x)" "settles (timeout_event f t)"
  by (simp_all add: settles_def reply_event_def describe_def timeout_event_def)

section \<open>The invariant of one question\<close>

definition pend :: "broker \<Rightarrow> string \<Rightarrow> ask option" where
  "pend b tag = m_get (b_pending b) tag"

definition chan :: "broker \<Rightarrow> string \<Rightarrow> bytes list option" where
  "chan b tag = m_get (b_chans b) tag"

text \<open>
  While the question is open, either nobody has answered (it is in the table and its channel is
  empty) or exactly one reply was decided (it is out of the table and that body is in the
  channel). Once closed it is out of the table, and what the asker got is what was decided.
\<close>

definition answered :: "(bytes \<Rightarrow> string) \<Rightarrow> bool \<Rightarrow> string \<Rightarrow> string \<Rightarrow> bytes list option \<Rightarrow> event list \<Rightarrow> bool" where
  "answered H cap f t c vs \<longleftrightarrow> (\<exists>x. c = Some [x] \<and> vs = [reply_event H cap t f x])"

fun open_ok :: "(bytes \<Rightarrow> string) \<Rightarrow> bool \<Rightarrow> string \<Rightarrow> string \<Rightarrow> ask option \<Rightarrow> bytes list option \<Rightarrow> event list \<Rightarrow> bool" where
  "open_ok H cap f t (Some a) c vs = (a = \<lparr>a_from = f, a_to = t\<rparr> \<and> c = Some [] \<and> vs = [])"
| "open_ok H cap f t None c vs = answered H cap f t c vs"

text \<open>What a closed question may have returned, beside what was decided about it.\<close>

definition closed_ok :: "(bytes \<Rightarrow> string) \<Rightarrow> bool \<Rightarrow> string \<Rightarrow> string \<Rightarrow> team_error + bytes \<Rightarrow> event list \<Rightarrow> bool" where
  "closed_ok H cap f t r vs \<longleftrightarrow>
     (\<exists>x. r = Inr x \<and> vs = [reply_event H cap t f x]) \<or>
     (\<exists>d. r = Inl (AskTimeout t d) \<and> vs = [timeout_event f t]) \<or>
     (\<exists>e. r = Inl e \<and> undelivered e \<and> length vs \<le> 1)"

fun phase_ok :: "(bytes \<Rightarrow> string) \<Rightarrow> bool \<Rightarrow> phase option \<Rightarrow> ask option \<Rightarrow> bytes list option \<Rightarrow> event list \<Rightarrow> bool" where
  "phase_ok H cap None p c vs = (p = None \<and> vs = [])"
| "phase_ok H cap (Some (Opened f t _ _)) p c vs = open_ok H cap f t p c vs"
| "phase_ok H cap (Some (Waiting f t _)) p c vs = open_ok H cap f t p c vs"
| "phase_ok H cap (Some (Closed f t r)) p c vs = (p = None \<and> closed_ok H cap f t r vs)"

definition question_ok :: "(bytes \<Rightarrow> string) \<Rightarrow> bool \<Rightarrow> ask_sys \<Rightarrow> string \<Rightarrow> bool" where
  "question_ok H cap s tag \<longleftrightarrow> b_capture (as_broker s) = cap \<and>
     phase_ok H cap (as_phase s tag) (pend (as_broker s) tag) (chan (as_broker s) tag) (verdict s tag)"

section \<open>What each operation does\<close>

text \<open>To the table, the channels, the policy on payloads, and the record.\<close>

definition adds :: "broker \<Rightarrow> broker \<Rightarrow> event list \<Rightarrow> bool" where
  "adds b b' es \<longleftrightarrow> b_log b' = b_log b @ es \<and> b_capture b' = b_capture b"

lemma adds_logged: "adds b b' es \<Longrightarrow> logged b b' = es"
  by (simp add: adds_def logged_def)

lemma frame_pend [simp]:
  "pend (record_event e b) tag = pend b tag" "chan (record_event e b) tag = chan b tag"
  "pend (b\<lparr>b_log := l\<rparr>) tag = pend b tag" "chan (b\<lparr>b_log := l\<rparr>) tag = chan b tag"
  "b_capture (record_event e b) = b_capture b" "b_log (record_event e b) = b_log b @ [e]"
  by (simp_all add: pend_def chan_def record_event_def)

lemma close_pend [simp]:
  "pend (ask_close tag b) tag' = (if tag' = tag then None else pend b tag')"
  "chan (ask_close tag b) tag' = chan b tag'"
  "b_capture (ask_close tag b) = b_capture b" "b_log (ask_close tag b) = b_log b"
  by (simp_all add: pend_def chan_def ask_close_def)

lemma put_chan [simp]:
  "pend (b\<lparr>b_chans := m_put tag q (b_chans c)\<rparr>) tag' = pend b tag'"
  "chan (b\<lparr>b_chans := m_put tag q (b_chans c)\<rparr>) tag' = (if tag' = tag then Some q else chan c tag')"
  by (simp_all add: pend_def chan_def)

lemma open_pend [simp]:
  "pend (ask_open tag f t b) tag' = (if tag' = tag then Some \<lparr>a_from = f, a_to = t\<rparr> else pend b tag')"
  "chan (ask_open tag f t b) tag' = (if tag' = tag then Some [] else chan b tag')"
  "b_capture (ask_open tag f t b) = b_capture b" "b_log (ask_open tag f t b) = b_log b"
  by (simp_all add: pend_def chan_def ask_open_def)

lemma deliver_effect:
  assumes "deliver H b f t body kind corr = (b', r)"
  shows "pend b' tag = pend b tag \<and> chan b' tag = chan b tag \<and> (\<exists>e. adds b b' [e] \<and> ev_kind e = kind) \<and>
    (\<forall>e. r = Inl e \<longrightarrow> undelivered e)"
  using assms
  by (auto simp: deliver_def Let_def pend_def chan_def adds_def record_event_def describe_def undelivered_def
      split: option.splits if_splits)

lemma ask_deliver_effect:
  assumes "ask_deliver H b tag f t body = (b', r)"
  shows "chan b' tag' = chan b tag' \<and> pend b' tag' = (if tag' = tag \<and> (\<exists>e. r = Inl e) then None else pend b tag') \<and>
    (\<exists>e. adds b b' [e] \<and> \<not> settles e) \<and> (\<forall>e. r = Inl e \<longrightarrow> undelivered e)"
proof -
  obtain b1 r1 where d: "deliver H b f t body ''ask'' tag = (b1, r1)" by fastforce
  have e: "b' = (case r1 of Inl _ \<Rightarrow> ask_close tag b1 | Inr _ \<Rightarrow> b1)" "r = (case r1 of Inl e \<Rightarrow> Inl e | Inr _ \<Rightarrow> Inr ())"
    using assms d by (auto simp: ask_deliver_def split: sum.splits)
  show ?thesis using deliver_effect[OF d, of tag'] by (cases r1) (auto simp: e adds_def settles_def)
qed

lemma ask_answer_effect:
  "ask_answer b tag = Some (b', x) \<Longrightarrow>
     (\<exists>q. chan b tag = Some (x # q)) \<and> pend b' tag = None \<and> adds b b' [] \<and>
     (tag' \<noteq> tag \<longrightarrow> pend b' tag' = pend b tag' \<and> chan b' tag' = chan b tag')"
  by (auto simp: ask_answer_def adds_def chan_def [symmetric] split: option.splits list.splits)

lemma ask_timeout_effect:
  assumes "ask_timeout b tag f t d = (b', r)"
  shows "pend b' tag = None \<and> (tag' \<noteq> tag \<longrightarrow> pend b' tag' = pend b tag' \<and> chan b' tag' = chan b tag') \<and>
     (case r of Inl e \<Rightarrow> e = AskTimeout t d \<and> (pend b tag \<noteq> None \<or> (\<forall>x q. chan b tag \<noteq> Some (x # q))) \<and> adds b b' [timeout_event f t]
      | Inr x \<Rightarrow> pend b tag = None \<and> (\<exists>q. chan b tag = Some (x # q)) \<and> adds b b' [])"
  using assms
  by (auto simp: ask_timeout_def Let_def adds_def timeout_event_def pend_def [symmetric] chan_def [symmetric]
      split: if_splits option.splits list.splits)

lemma broker_reply_effect:
  assumes "broker_reply H b who tag body = (b', r)"
  shows "(tag' \<noteq> tag \<longrightarrow> pend b' tag' = pend b tag' \<and> chan b' tag' = chan b tag') \<and>
     ((\<exists>a. pend b tag = Some a \<and> a_to a = who \<and> chan b tag = Some [] \<and> pend b' tag = None \<and> chan b' tag = Some [body] \<and>
        adds b b' [reply_event H (b_capture b) who (a_from a) body]) \<or>
      (pend b' tag = pend b tag \<and> chan b' tag = chan b tag \<and> (\<exists>e. adds b b' [e] \<and> \<not> settles e)) \<or>
      (\<exists>a. pend b tag = Some a \<and> chan b tag \<noteq> Some []))"
  using assms
  by (auto simp: broker_reply_def Let_def adds_def settles_def reply_event_def pend_def [symmetric] chan_def [symmetric]
      split: if_splits option.splits)

text \<open>No other operation records an answer.\<close>

definition silent :: "broker \<Rightarrow> broker \<Rightarrow> bool" where
  "silent b b' \<longleftrightarrow> (\<exists>es. adds b b' es \<and> filter settles es = []) \<and> (\<forall>tag. pend b' tag = pend b tag \<and> chan b' tag = chan b tag)"

lemma silent_event:
  assumes "\<exists>e. adds b b' [e] \<and> ev_kind e \<noteq> ''reply''" and "b_pending b' = b_pending b" and "b_chans b' = b_chans b"
  shows "silent b b'"
proof -
  obtain e where "adds b b' [e]" "\<not> settles e" using assms(1) by (auto simp: settles_def)
  then show ?thesis using assms(2,3) unfolding silent_def pend_def chan_def by (intro conjI exI[of _ "[e]"]) auto
qed

lemma silent_none: "b_log b' = b_log b \<Longrightarrow> b_capture b' = b_capture b \<Longrightarrow> b_pending b' = b_pending b \<Longrightarrow> b_chans b' = b_chans b \<Longrightarrow> silent b b'"
  unfolding silent_def adds_def pend_def chan_def by (intro conjI exI[of _ "[]"]) auto

lemma spawn_silent: "silent b (fst (broker_spawn b a img))"
proof (rule silent_event)
  show "\<exists>e. adds b (fst (broker_spawn b a img)) [e] \<and> ev_kind e \<noteq> ''reply''"
    by (simp add: broker_spawn_def Let_def adds_def record_event_def spawn_event_def split: option.split)
qed (simp_all add: broker_spawn_def Let_def record_event_def split: option.split)

lemma despawn_silent: "silent b (broker_despawn b n)"
proof (rule silent_event)
  show "\<exists>e. adds b (broker_despawn b n) [e] \<and> ev_kind e \<noteq> ''reply''"
    by (simp add: broker_despawn_def Let_def adds_def record_event_def spawn_event_def)
qed (simp_all add: broker_despawn_def Let_def record_event_def)

lemma send_silent: "silent b (fst (broker_send H b f t body))"
proof (rule silent_event)
  show "\<exists>e. adds b (fst (broker_send H b f t body)) [e] \<and> ev_kind e \<noteq> ''reply''"
    using deliver_effect[of H b f t body "''send''" "[]" _ _ "[]", OF prod.collapse[symmetric]] unfolding broker_send_def by force
qed (simp_all add: broker_send_def deliver_def Let_def record_event_def split: option.split)

lemma store_events_quiet:
  "filter settles (fst (store_get s a k)) = []" "filter settles (fst (snd (store_put s a k v))) = []"
  by (simp_all add: store_get_def store_put_def Let_def store_event_def settles_def split: option.split)

lemma store_silent: "silent b (fst (broker_store_get b a k))" "silent b (fst (broker_store_put b a k v))"
proof -
  have "silent b (b\<lparr>b_log := b_log b @ fst (store_get s a k)\<rparr>)" for s
    using store_events_quiet(1)[of s a k] unfolding silent_def adds_def
    by (intro conjI exI[of _ "fst (store_get s a k)"]) simp_all
  then have "silent b (b\<lparr>b_log := b_log b @ es\<rparr>)" if "store_get s a k = (es, r)" for s es r
    using that by (metis fst_conv)
  then show "silent b (fst (broker_store_get b a k))"
    by (auto simp: broker_store_get_def silent_none split: option.split prod.split)
  have "silent b (b\<lparr>b_store := st, b_log := b_log b @ fst (snd (store_put s a k v))\<rparr>)" for s st
    using store_events_quiet(2)[of s a k v] unfolding silent_def adds_def pend_def chan_def
    by (intro conjI exI[of _ "fst (snd (store_put s a k v))"]) simp_all
  then have "silent b (b\<lparr>b_store := st, b_log := b_log b @ es\<rparr>)" if "store_put s a k v = (s', es, r)" for s s' es r st
    using that by (metis fst_conv snd_conv)
  then show "silent b (fst (broker_store_put b a k v))"
    by (auto simp: broker_store_put_def silent_none split: option.split prod.split)
qed

lemma quiet_silent: "quiet_op op \<Longrightarrow> silent b (broker_step H b op)"
proof (cases op)
  case (OpRecv a d)
  then show ?thesis by (auto simp: broker_recv_def intro!: silent_none split: option.split list.split)
qed (simp_all add: send_silent store_silent spawn_silent despawn_silent)

section \<open>Every step keeps it\<close>

lemma act_simps [simp]:
  "as_broker (act b' s) = b'\<lparr>b_log := b_log (as_broker s)\<rparr>" "as_due (act b' s) = as_due s @ logged (as_broker s) b'"
  "as_phase (act b' s) = as_phase s" "as_calls (act b' s) = as_calls s"
  "as_broker (act_on tag b' s) = b'\<lparr>b_log := b_log (as_broker s)\<rparr>" "as_due (act_on tag b' s) = as_due s @ logged (as_broker s) b'"
  "as_phase (act_on tag b' s) = as_phase s"
  "as_calls (act_on tag b' s) tag' = (if tag' = tag then as_calls s tag @ logged (as_broker s) b' else as_calls s tag')"
  "as_broker (set_phase tag p s) = as_broker s" "as_due (set_phase tag p s) = as_due s" "as_calls (set_phase tag p s) = as_calls s"
  "as_phase (set_phase tag p s) tag' = (if tag' = tag then Some p else as_phase s tag')"
  by (simp_all add: act_def act_on_def set_phase_def)

lemma verdict_simps [simp]:
  "verdict (set_phase tag p s) = verdict s" "verdict (act b' s) = verdict s"
  "verdict (act_on tag b' s) tag' = (if tag' = tag then verdict s tag @ filter settles (logged (as_broker s) b') else verdict s tag')"
  by (simp_all add: verdict_def fun_eq_iff)

lemma open_okD: "open_ok H cap f t p c vs \<Longrightarrow>
    p = Some \<lparr>a_from = f, a_to = t\<rparr> \<and> c = Some [] \<and> vs = [] \<or> p = None \<and> answered H cap f t c vs"
  by (cases p) auto

lemma phase_ok_pending: "phase_ok H cap ph (Some a) c vs \<Longrightarrow> c = Some [] \<and> vs = [] \<and>
    (\<exists>x d. ph = Some (Opened (a_from a) (a_to a) x d) \<or> ph = Some (Waiting (a_from a) (a_to a) d))"
  by (cases "(H, cap, ph, Some a, c, vs)" rule: phase_ok.cases) auto

lemma phase_ok_replied: "phase_ok H cap ph (Some a) c vs \<Longrightarrow>
    phase_ok H cap ph None (Some [x]) (vs @ [reply_event H cap (a_to a) (a_from a) x])"
  by (cases "(H, cap, ph, Some a, c, vs)" rule: phase_ok.cases) (auto simp: answered_def)

lemma closed_answer: "open_ok H cap f t None (Some (x # q)) vs \<Longrightarrow> closed_ok H cap f t (Inr x) vs"
  by (auto simp: answered_def closed_ok_def)

lemma ask_step_question_ok:
  assumes "ask_step H s s'" and "\<forall>tag. question_ok H cap s tag"
  shows "question_ok H cap s' tag'"
  using assms
proof (induction rule: ask_step.induct)
  case (step_open s tag f t body d)
  then have "question_ok H cap s tag" and "question_ok H cap s tag'" by blast+
  then show ?case using step_open(1) by (auto simp: question_ok_def logged_def)
next
  case (step_asked s tag f t body d b' u)
  then have "question_ok H cap s tag" and "question_ok H cap s tag'" by blast+
  then show ?case
    using step_asked(1) ask_deliver_effect[OF step_asked(2), of tag'] by (auto simp: question_ok_def adds_def logged_def)
next
  case (step_refused s tag f t body d b' e)
  then have q: "question_ok H cap s tag" "question_ok H cap s tag'" by blast+
  note eff = ask_deliver_effect[OF step_refused(2), of tag']
  have "length (verdict s tag) \<le> 1"
    using q(1) step_refused(1) by (auto simp: question_ok_def answered_def dest!: open_okD)
  then show ?case
    using q step_refused(1) eff by (auto simp: question_ok_def adds_def logged_def closed_ok_def)
next
  case (step_answer s tag f t d b' x)
  then have q: "question_ok H cap s tag" "question_ok H cap s tag'" by blast+
  note eff = ask_answer_effect[OF step_answer(2), of tag']
  have "closed_ok H cap f t (Inr x) (verdict s tag)"
    using q(1) step_answer(1) eff by (auto simp: question_ok_def closed_ok_def answered_def dest!: open_okD)
  then show ?case using q step_answer(1) eff by (auto simp: question_ok_def adds_def logged_def)
next
  case (step_timer s tag f t d b' r)
  then have q: "question_ok H cap s tag" "question_ok H cap s tag'" by blast+
  note eff = ask_timeout_effect[OF step_timer(2), of tag']
  have "closed_ok H cap f t r (verdict s tag @ filter settles (logged (as_broker s) b'))"
  proof (cases r)
    case (Inl e)
    then have "verdict s tag = []" using q(1) step_timer(1) eff by (auto simp: question_ok_def answered_def dest!: open_okD)
    then show ?thesis using Inl eff by (auto simp: closed_ok_def adds_def logged_def)
  next
    case (Inr x)
    then show ?thesis using q(1) step_timer(1) eff by (auto simp: question_ok_def closed_ok_def answered_def adds_def logged_def dest!: open_okD)
  qed
  moreover have "b_capture b' = b_capture (as_broker s)" using eff by (cases r) (auto simp: adds_def)
  ultimately show ?case using q step_timer(1) eff by (auto simp: question_ok_def)
next
  case (step_reply s who tag body b' r)
  then have q: "question_ok H cap s tag" "question_ok H cap s tag'" by blast+
  note eff = broker_reply_effect[OF step_reply(1), of tag']
  have cap: "b_capture (as_broker s) = cap" using q(1) by (simp add: question_ok_def)
  show ?case
  proof (cases "tag' = tag")
    case False
    have "b_capture b' = b_capture (as_broker s)" using eff q(1) by (auto simp: adds_def question_ok_def dest: phase_ok_pending)
    then show ?thesis using False q(2) eff by (simp add: question_ok_def)
  next
    case True
    have "phase_ok H cap (as_phase s tag) (pend (as_broker s) tag) (chan (as_broker s) tag) (verdict s tag)"
      using q(1) by (simp add: question_ok_def)
    then show ?thesis using eff True cap
      by (auto simp: question_ok_def adds_def logged_def dest: phase_ok_pending phase_ok_replied)
  qed
next
  case (step_other op s)
  then have q: "question_ok H cap s tag'" by blast
  then show ?case using quiet_silent[OF step_other(1), of "as_broker s" H] by (auto simp: question_ok_def silent_def adds_def)
next
  case (step_record s es e es')
  then have "question_ok H cap s tag'" by blast
  then show ?case by (simp add: question_ok_def verdict_def)
qed

lemma ask_reachable_question_ok: "ask_reachable H b0 s \<Longrightarrow> question_ok H (b_capture b0) s tag"
proof (induction arbitrary: tag rule: ask_reachable.induct)
  case reach_start
  then show ?case by (simp add: question_ok_def pend_def verdict_def)
next
  case (reach_step s s')
  then show ?case by (blast intro: ask_step_question_ok)
qed

lemma verdict_one: "question_ok H cap s tag \<Longrightarrow> length (verdict s tag) \<le> 1"
  unfolding question_ok_def
  by (cases "(H, cap, as_phase s tag, pend (as_broker s) tag, chan (as_broker s) tag, verdict s tag)" rule: phase_ok.cases)
    (auto simp: answered_def closed_ok_def dest!: open_okD)

section \<open>The record as a whole\<close>

text \<open>
  The answers and timeouts in the record, with those that are due, are one for each question that
  has one.
\<close>

definition settled_events :: "broker \<Rightarrow> ask_sys \<Rightarrow> event list" where
  "settled_events b0 s = filter settles (logged b0 (as_broker s) @ as_due s)"

definition books_ok :: "broker \<Rightarrow> ask_sys \<Rightarrow> bool" where
  "books_ok b0 s \<longleftrightarrow> (\<exists>es. b_log (as_broker s) = b_log b0 @ es) \<and> finite {tag. verdict s tag \<noteq> []} \<and>
     mset (settled_events b0 s) = (\<Sum>tag | verdict s tag \<noteq> []. mset (verdict s tag))"

lemma books_act:
  assumes "books_ok b0 s" and "b_log (as_broker s') = b_log (as_broker s)" and "as_due s' = as_due s @ es"
    and "verdict s' = (verdict s)(tag := verdict s tag @ filter settles es)"
  shows "books_ok b0 s'"
proof -
  let ?T = "{tag. verdict s tag \<noteq> []}" and ?T' = "{tag. verdict s' tag \<noteq> []}"
  have fin: "finite ?T" using assms(1) by (simp add: books_ok_def)
  have sub: "?T' \<subseteq> insert tag ?T" "?T \<subseteq> insert tag ?T" unfolding assms(4) by (auto split: if_splits)
  have all: "(\<Sum>x \<in> {x. v x \<noteq> []}. mset (v x)) = (\<Sum>x \<in> insert tag ?T. mset (v x))" if "{x. v x \<noteq> []} \<subseteq> insert tag ?T" for v :: "string \<Rightarrow> event list"
    using fin that by (intro sum.mono_neutral_left) auto
  have "(\<Sum>x \<in> ?T'. mset (verdict s' x)) = (\<Sum>x \<in> insert tag ?T. mset (verdict s x)) + mset (filter settles es)"
    unfolding all[OF sub(1)] using fin by (simp add: sum.insert_remove assms(4))
  also have "\<dots> = mset (settled_events b0 s) + mset (filter settles es)" using assms(1) unfolding all[OF sub(2), symmetric] by (simp add: books_ok_def)
  also have "\<dots> = mset (settled_events b0 s')" by (simp add: settled_events_def assms(2,3) logged_def)
  finally have "mset (settled_events b0 s') = (\<Sum>x \<in> ?T'. mset (verdict s' x))" ..
  moreover have "finite ?T'" using sub(1) fin finite_subset by blast
  ultimately show ?thesis using assms(1,2) by (simp add: books_ok_def)
qed

lemma books_act_on: "books_ok b0 s \<Longrightarrow> books_ok b0 (act_on tag b' s)"
  by (rule books_act[of b0 s _ "logged (as_broker s) b'" tag]) (auto simp: fun_eq_iff)

lemma books_set_phase: "books_ok b0 (set_phase tag p s) = books_ok b0 s"
  by (simp add: books_ok_def settled_events_def)

lemma ask_step_books: "ask_step H s s' \<Longrightarrow> books_ok b0 s \<Longrightarrow> books_ok b0 s'"
proof (induction rule: ask_step.induct)
  case (step_other op s)
  obtain es where "adds (as_broker s) (broker_step H (as_broker s) op) es" "filter settles es = []"
    using quiet_silent[OF step_other(1), of "as_broker s" H] unfolding silent_def by blast
  then show ?case using books_act[OF step_other(2), of _ es "[]"] by (simp add: adds_logged)
next
  case (step_record s es e es')
  then show ?case by (auto simp: books_ok_def settled_events_def verdict_def logged_def)
qed (simp_all add: books_set_phase books_act_on)

lemma ask_reachable_books: "ask_reachable H b0 s \<Longrightarrow> books_ok b0 s"
proof (induction rule: ask_reachable.induct)
  case reach_start
  then show ?case by (simp add: books_ok_def settled_events_def verdict_def logged_def)
next
  case (reach_step s s')
  then show ?case by (blast intro: ask_step_books)
qed

end
