(* ===== verification/Team_Steps.thy ===== *)
theory Team_Steps
  imports Ask_Machine
begin

text \<open>
  The calls that take more than one critical section, section by section. \<open>deliver\<close>, \<open>Recv\<close>,
  \<open>Spawn\<close> and \<open>Despawn\<close> give up the locks between one section and the next, and other goroutines run
  in between: an agent can be despawned after the edge to it was checked, a message can go into
  a mailbox that has just been taken out of the map. A call in progress is a value that says which
  section comes next and what the goroutine holds in its variables; a section is a function of that and
  of the shared state. A run of the sections of one call without another call in between is the
  operation of \<open>Broker\<close>, and the step relation interleaves the sections of any calls.

  A channel is known by the name it was made for: \<open>sh_gone\<close> keeps the ones taken out of the map, into
  which a call that looked one up before can still send. That no name ever gets a second mailbox, so
  that the name stands for the channel, is part of what is proved.
\<close>

section \<open>Sections\<close>

record shared =
  sh_broker :: broker
  sh_gone :: "(string, message list) gmap"

record letter =
  lt_from :: string
  lt_to :: string
  lt_body :: bytes
  lt_kind :: string
  lt_corr :: string

datatype outcome =
    Sent "team_error + unit"
  | Got "team_error + message"
  | Spawned "team_error + spawn_request"
  | Despawned

datatype call_at =
    DeliverExists letter
  | DeliverAllows letter
  | DeliverLookup letter
  | DeliverSend letter "string option"
  | RecvLookup string int
  | RecvTake string int
  | SpawnReserve string string
  | SpawnAttach spawn_request
  | DespawnTake string
  | DespawnDetach string string
  | Returned outcome

text \<open>The channel of a name, in the map or out of it.\<close>

definition channel :: "shared \<Rightarrow> string \<Rightarrow> message list option" where
  "channel s n = (case m_get (b_boxes (sh_broker s)) n of Some q \<Rightarrow> Some q | None \<Rightarrow> m_get (sh_gone s) n)"

definition set_channel :: "string \<Rightarrow> message list \<Rightarrow> shared \<Rightarrow> shared" where
  "set_channel n q s =
     (case m_get (b_boxes (sh_broker s)) n of
        Some _ \<Rightarrow> s\<lparr>sh_broker := (sh_broker s)\<lparr>b_boxes := m_put n q (b_boxes (sh_broker s))\<rparr>\<rparr>
      | None \<Rightarrow> s\<lparr>sh_gone := m_put n q (sh_gone s)\<rparr>)"

definition letter_event :: "(bytes \<Rightarrow> string) \<Rightarrow> broker \<Rightarrow> letter \<Rightarrow> string \<Rightarrow> string \<Rightarrow> event" where
  "letter_event H b l outcome reason =
     describe H (b_capture b) (lt_from l) (lt_to l) (lt_body l) (lt_kind l) outcome reason"

definition mailed :: "letter \<Rightarrow> message" where
  "mailed l = \<lparr>m_from = lt_from l, m_body = lt_body l, m_corr = lt_corr l\<rparr>"

text \<open>
  \<open>deliver\<close>: \<open>Exists\<close> and \<open>Allows\<close> take the topology's lock one after the other, the mailbox is looked
  up under the broker's, and the send is on the channel that was found; a name with no mailbox gives
  the nil channel, on which the select takes its default.
\<close>

definition deliver_exists :: "(bytes \<Rightarrow> string) \<Rightarrow> letter \<Rightarrow> shared \<Rightarrow> event list \<times> call_at" where
  "deliver_exists H l s =
     (if topo_exists (b_topo (sh_broker s)) (lt_to l) then ([], DeliverAllows l)
      else ([letter_event H (sh_broker s) l OutcomeRefused ''no_such_agent''], Returned (Sent (Inl (NoSuchAgent (lt_to l))))))"

definition deliver_allows :: "(bytes \<Rightarrow> string) \<Rightarrow> letter \<Rightarrow> shared \<Rightarrow> event list \<times> call_at" where
  "deliver_allows H l s =
     (if topo_allows (b_topo (sh_broker s)) (lt_from l) (lt_to l) then ([], DeliverLookup l)
      else ([letter_event H (sh_broker s) l OutcomeRefused ''no_edge''], Returned (Sent (Inl (NoEdge (lt_from l) (lt_to l))))))"

definition deliver_lookup :: "letter \<Rightarrow> shared \<Rightarrow> event list \<times> call_at" where
  "deliver_lookup l s =
     ([], DeliverSend l (if m_get (b_boxes (sh_broker s)) (lt_to l) = None then None else Some (lt_to l)))"

definition deliver_put :: "(bytes \<Rightarrow> string) \<Rightarrow> letter \<Rightarrow> string option \<Rightarrow> shared \<Rightarrow> shared \<times> event list \<times> call_at" where
  "deliver_put H l ch s =
     (let full = (s, [letter_event H (sh_broker s) l OutcomeUnreachable ''mailbox_full''], Returned (Sent (Inl (Unreachable (lt_to l)))))
      in case Option.bind ch (channel s) of
           None \<Rightarrow> full
         | Some q \<Rightarrow>
             if length q < mailbox
             then (set_channel (the ch) (q @ [mailed l]) s, [letter_event H (sh_broker s) l OutcomeDelivered []], Returned (Sent (Inr ())))
             else full)"

text \<open>\<open>Recv\<close>: the lookup, then the select; an empty channel leaves only the timer.\<close>

definition recv_lookup :: "string \<Rightarrow> int \<Rightarrow> shared \<Rightarrow> call_at" where
  "recv_lookup a d s =
     (if m_get (b_boxes (sh_broker s)) a = None then Returned (Got (Inl (NoSuchAgent a))) else RecvTake a d)"

definition recv_take :: "string \<Rightarrow> int \<Rightarrow> shared \<Rightarrow> shared \<times> call_at" where
  "recv_take a d s =
     (case channel s a of
        Some (m # q) \<Rightarrow> (set_channel a q s, Returned (Got (Inr m)))
      | _ \<Rightarrow> (s, Returned (Got (Inl (RecvTimeout d)))))"

text \<open>
  \<open>Spawn\<close>: everything under the broker's lock, which is the budget, the image, the name and the
  reservation; then the edge, under the topology's.
\<close>

definition spawn_reserve :: "string \<Rightarrow> string \<Rightarrow> shared \<Rightarrow> shared \<times> event list \<times> call_at" where
  "spawn_reserve spawner image0 s =
     (let b = sh_broker s;
          refuse = (\<lambda>b' name reason e. (s\<lparr>sh_broker := b'\<rparr>, [spawn_event spawner name ''spawn'' OutcomeRefused reason], Returned (Spawned (Inl e))))
      in case m_get (b_budgets b) spawner of
        None \<Rightarrow> refuse b [] ''no_spawn_budget'' (NoSpawnBudget spawner)
      | Some bud \<Rightarrow>
        let live = live_workers b spawner in
        if int (length live) \<ge> bud_max bud
        then refuse b [] ''budget_exhausted'' (BudgetExhausted spawner (length live) (bud_max bud))
        else
        let image = (if image0 = [] \<and> bud_images bud \<noteq> [] then hd (bud_images bud) else image0) in
        if image \<notin> set (bud_images bud)
        then refuse b [] ''image_not_permitted'' (ImageNotPermitted spawner image (bud_images bud))
        else
        let n = b_seq b + 1; name = mint spawner n; b1 = b\<lparr>b_seq := n\<rparr> in
        if m_get (b_boxes b) name \<noteq> None \<or> topo_exists (b_topo b) name
        then refuse b1 name ''name_taken'' (NameTaken name)
        else (s\<lparr>sh_broker := b1\<lparr>b_spawned := m_put spawner (live @ [name]) (b_spawned b), b_boxes := m_put name [] (b_boxes b)\<rparr>\<rparr>,
              [], SpawnAttach \<lparr>sr_name = name, sr_spawner = spawner, sr_image = image, sr_life = bud_life bud\<rparr>))"

definition spawn_attach :: "spawn_request \<Rightarrow> shared \<Rightarrow> shared \<times> event list \<times> call_at" where
  "spawn_attach r s =
     (let b = sh_broker s in
      (s\<lparr>sh_broker := b\<lparr>b_topo := topo_attach (sr_name r) (sr_spawner r) (b_topo b)\<rparr>\<rparr>,
       [spawn_event (sr_spawner r) (sr_name r) ''spawn'' OutcomeDelivered []], Returned (Spawned (Inr r))))"

text \<open>\<open>Despawn\<close>: the worker leaves its spawner's list and the map; then its edges go.\<close>

definition despawn_take :: "string \<Rightarrow> shared \<Rightarrow> shared \<times> event list \<times> call_at" where
  "despawn_take n s =
     (let b = sh_broker s; spawner = owner_of b n;
          b1 = b\<lparr>b_spawned := map (\<lambda>(who, l). (who, remove1 n l)) (b_spawned b)\<rparr>
      in if spawner = []
         then (s\<lparr>sh_broker := b1\<rparr>, [spawn_event [] n ''despawn'' OutcomeRefused ''not_a_spawned_worker''], Returned Despawned)
         else (s\<lparr>sh_broker := b1\<lparr>b_boxes := m_del n (b_boxes b)\<rparr>,
                  sh_gone := (case m_get (b_boxes b) n of None \<Rightarrow> sh_gone s | Some q \<Rightarrow> m_put n q (sh_gone s))\<rparr>,
               [], DespawnDetach spawner n))"

definition despawn_detach :: "string \<Rightarrow> string \<Rightarrow> shared \<Rightarrow> shared \<times> event list \<times> call_at" where
  "despawn_detach spawner n s =
     (let b = sh_broker s in
      (s\<lparr>sh_broker := b\<lparr>b_topo := topo_detach n (b_topo b)\<rparr>\<rparr>,
       [spawn_event spawner n ''despawn'' OutcomeDelivered []], Returned Despawned))"

text \<open>The next section of a call.\<close>

fun advance :: "(bytes \<Rightarrow> string) \<Rightarrow> call_at \<Rightarrow> shared \<Rightarrow> shared \<times> event list \<times> call_at" where
  "advance H (DeliverExists l) s = (s, deliver_exists H l s)"
| "advance H (DeliverAllows l) s = (s, deliver_allows H l s)"
| "advance H (DeliverLookup l) s = (s, deliver_lookup l s)"
| "advance H (DeliverSend l ch) s = deliver_put H l ch s"
| "advance H (RecvLookup a d) s = (s, [], recv_lookup a d s)"
| "advance H (RecvTake a d) s = (case recv_take a d s of (s', c) \<Rightarrow> (s', [], c))"
| "advance H (SpawnReserve a img) s = spawn_reserve a img s"
| "advance H (SpawnAttach r) s = spawn_attach r s"
| "advance H (DespawnTake n) s = despawn_take n s"
| "advance H (DespawnDetach w n) s = despawn_detach w n s"
| "advance H (Returned r) s = (s, [], Returned r)"

section \<open>A call by itself\<close>

text \<open>The sections of one call in a row; what they record is recorded as it comes.\<close>

fun alone :: "(bytes \<Rightarrow> string) \<Rightarrow> nat \<Rightarrow> call_at \<Rightarrow> shared \<Rightarrow> shared \<times> call_at" where
  "alone H 0 c s = (s, c)"
| "alone H (Suc k) c s =
     (case advance H c s of
        (s', es, c') \<Rightarrow> alone H k c' (s'\<lparr>sh_broker := foldl (\<lambda>b e. record_event e b) (sh_broker s') es\<rparr>))"

lemma shared_eqI: "sh_broker s = sh_broker s' \<Longrightarrow> sh_gone s = sh_gone s' \<Longrightarrow> s = (s' :: shared)"
  by simp

lemma deliver_alone:
  "alone H 4 (DeliverExists l) s =
     (case deliver H (sh_broker s) (lt_from l) (lt_to l) (lt_body l) (lt_kind l) (lt_corr l) of
        (b, r) \<Rightarrow> (s\<lparr>sh_broker := b\<rparr>, Returned (Sent r)))"
  by (simp add: eval_nat_numeral deliver_exists_def deliver_allows_def deliver_lookup_def deliver_put_def channel_def
      set_channel_def letter_event_def mailed_def deliver_def Let_def split: option.split)

lemma recv_alone:
  "alone H 2 (RecvLookup a d) s =
     (case broker_recv (sh_broker s) a d of (b, r) \<Rightarrow> (s\<lparr>sh_broker := b\<rparr>, Returned (Got r)))"
  by (simp add: eval_nat_numeral recv_lookup_def recv_take_def channel_def set_channel_def broker_recv_def
      split: option.split list.split)

lemma spawn_alone:
  "alone H 2 (SpawnReserve a img) s =
     (case broker_spawn (sh_broker s) a img of (b, r) \<Rightarrow> (s\<lparr>sh_broker := b\<rparr>, Returned (Spawned r)))"
  by (simp add: eval_nat_numeral spawn_reserve_def spawn_attach_def broker_spawn_def Let_def record_event_def split: option.split)

lemma despawn_alone:
  "fst (alone H 2 (DespawnTake n) s) =
     s\<lparr>sh_broker := broker_despawn (sh_broker s) n, sh_gone := sh_gone (fst (alone H 2 (DespawnTake n) s))\<rparr> \<and>
   snd (alone H 2 (DespawnTake n) s) = Returned Despawned"
  by (simp add: eval_nat_numeral despawn_take_def despawn_detach_def broker_despawn_def Let_def record_event_def)


section \<open>Calls interleaved\<close>

text \<open>
  A goroutine enters a call, advances it by a section, or lets the timer of its receive fire; an event that a section decided on is
  recorded later, in any order. What the other calls of the broker do (questions, replies, the
  store) touches neither the mailboxes nor the topology nor the workers.
\<close>

record team_sys =
  ts_shared :: shared
  ts_calls :: "nat \<Rightarrow> call_at option"
  ts_due :: "event list"

fun entry :: "call_at \<Rightarrow> bool" where
  "entry (DeliverExists l) = True"
| "entry (RecvLookup a d) = True"
| "entry (SpawnReserve a img) = True"
| "entry (DespawnTake n) = True"
| "entry _ = False"

fun elsewhere :: "broker_op \<Rightarrow> bool" where
  "elsewhere (OpAskAnswer _) = True"
| "elsewhere (OpAskTimeout _ _ _ _) = True"
| "elsewhere (OpReply _ _ _) = True"
| "elsewhere (OpStoreGet _ _) = True"
| "elsewhere (OpStorePut _ _ _) = True"
| "elsewhere _ = False"

inductive team_step :: "(bytes \<Rightarrow> string) \<Rightarrow> team_sys \<Rightarrow> team_sys \<Rightarrow> bool" for H where
  call_enter: "ts_calls s i = None \<Longrightarrow> entry c \<Longrightarrow> team_step H s (s\<lparr>ts_calls := (ts_calls s)(i := Some c)\<rparr>)"
| call_advance: "ts_calls s i = Some c \<Longrightarrow> advance H c (ts_shared s) = (sh, es, c') \<Longrightarrow>
    team_step H s (s\<lparr>ts_shared := sh, ts_calls := (ts_calls s)(i := Some c'), ts_due := ts_due s @ es\<rparr>)"
| call_timer: "ts_calls s i = Some (RecvTake a d) \<Longrightarrow>
    team_step H s (s\<lparr>ts_calls := (ts_calls s)(i := Some (Returned (Got (Inl (RecvTimeout d)))))\<rparr>)"
| call_record: "ts_due s = es @ e # es' \<Longrightarrow>
    team_step H s (s\<lparr>ts_due := es @ es', ts_shared := (ts_shared s)\<lparr>sh_broker := record_event e (sh_broker (ts_shared s))\<rparr>\<rparr>)"
| call_question: "team_step H s (s\<lparr>ts_shared := (ts_shared s)\<lparr>sh_broker := ask_open tag f t (sh_broker (ts_shared s))\<rparr>\<rparr>)"
| call_close: "team_step H s (s\<lparr>ts_shared := (ts_shared s)\<lparr>sh_broker := ask_close tag (sh_broker (ts_shared s))\<rparr>\<rparr>)"
| call_other: "elsewhere op \<Longrightarrow>
    team_step H s (s\<lparr>ts_shared := (ts_shared s)\<lparr>sh_broker := broker_step H (sh_broker (ts_shared s)) op\<rparr>\<rparr>)"

inductive team_reachable :: "(bytes \<Rightarrow> string) \<Rightarrow> broker \<Rightarrow> team_sys \<Rightarrow> bool" for H b0 where
  team_start: "team_reachable H b0 \<lparr>ts_shared = \<lparr>sh_broker = b0, sh_gone = []\<rparr>, ts_calls = (\<lambda>_. None), ts_due = []\<rparr>"
| team_next: "team_reachable H b0 s \<Longrightarrow> team_step H s s' \<Longrightarrow> team_reachable H b0 s'"

section \<open>The invariant\<close>

text \<open>The edges of a run: the declared ones, and both ways between an agent and a worker minted for it.\<close>

definition run_edge :: "topology \<Rightarrow> string list \<Rightarrow> int \<Rightarrow> string \<Rightarrow> string \<Rightarrow> bool" where
  "run_edge t D hi f g \<longleftrightarrow> topo_allows t f g \<or> (f \<in> set D \<and> minted_by f hi g) \<or> (g \<in> set D \<and> minted_by g hi f)"

definition gone_ok :: "shared \<Rightarrow> bool" where
  "gone_ok s \<longleftrightarrow> (\<forall>n. m_get (sh_gone s) n \<noteq> None \<longrightarrow>
     m_get (b_boxes (sh_broker s)) n = None \<and> (\<exists>who. minted_by who (b_seq (sh_broker s)) n))"

definition names_ok :: "string list \<Rightarrow> shared \<Rightarrow> bool" where
  "names_ok D s \<longleftrightarrow> declared_ok D \<and> workers_ok D (sh_broker s) \<and>
     dom (m_get (b_boxes (sh_broker s))) = set D \<union> spawned_names (sh_broker s) \<and> set D \<inter> spawned_names (sh_broker s) = {} \<and>
     gone_ok s"

definition edges_ok :: "topology \<Rightarrow> string list \<Rightarrow> broker \<Rightarrow> bool" where
  "edges_ok t D b \<longleftrightarrow> (\<forall>f g. topo_allows (b_topo b) f g \<longrightarrow> run_edge t D (b_seq b) f g) \<and>
     (\<forall>f \<in> set D. \<forall>g \<in> set D. topo_allows (b_topo b) f g = topo_allows t f g)"

definition mail_ok :: "(bytes \<Rightarrow> string) \<Rightarrow> topology \<Rightarrow> string list \<Rightarrow> shared \<Rightarrow> event list \<Rightarrow> bool" where
  "mail_ok H t D s es \<longleftrightarrow> (\<forall>n q. channel s n = Some q \<longrightarrow> length q \<le> mailbox \<and>
     (\<forall>m \<in> set q. run_edge t D (b_seq (sh_broker s)) (m_from m) n \<and> (\<exists>e \<in> set es. delivered_event H n m e)))"

fun call_ok :: "topology \<Rightarrow> string list \<Rightarrow> int \<Rightarrow> call_at \<Rightarrow> bool" where
  "call_ok t D hi (DeliverLookup l) = run_edge t D hi (lt_from l) (lt_to l)"
| "call_ok t D hi (DeliverSend l ch) = (run_edge t D hi (lt_from l) (lt_to l) \<and> (ch = None \<or> ch = Some (lt_to l)))"
| "call_ok t D hi (SpawnAttach r) = (sr_spawner r \<in> set D \<and> minted_by (sr_spawner r) hi (sr_name r) \<and> sr_name r \<notin> set D)"
| "call_ok t D hi (DespawnDetach w n) = (n \<notin> set D)"
| "call_ok t D hi _ = True"

definition shared_ok :: "(bytes \<Rightarrow> string) \<Rightarrow> topology \<Rightarrow> string list \<Rightarrow> shared \<Rightarrow> event list \<Rightarrow> bool" where
  "shared_ok H t D s es \<longleftrightarrow> names_ok D s \<and> edges_ok t D (sh_broker s) \<and> mail_ok H t D s (b_log (sh_broker s) @ es)"

definition team_ok :: "(bytes \<Rightarrow> string) \<Rightarrow> topology \<Rightarrow> string list \<Rightarrow> team_sys \<Rightarrow> bool" where
  "team_ok H t D s \<longleftrightarrow> shared_ok H t D (ts_shared s) (ts_due s) \<and>
     (\<forall>i c. ts_calls s i = Some c \<longrightarrow> call_ok t D (b_seq (sh_broker (ts_shared s))) c)"

lemma minted_by_mono: "minted_by who lo n \<Longrightarrow> lo \<le> hi \<Longrightarrow> minted_by who hi n"
  by (fastforce simp: minted_by_def)

lemma run_edge_mono: "run_edge t D lo f g \<Longrightarrow> lo \<le> hi \<Longrightarrow> run_edge t D hi f g"
  by (auto simp: run_edge_def intro: minted_by_mono)

lemma call_ok_mono: "call_ok t D lo c \<Longrightarrow> lo \<le> hi \<Longrightarrow> call_ok t D hi c"
  by (cases "(t, D, lo, c)" rule: call_ok.cases) (auto intro: minted_by_mono run_edge_mono)

lemma mail_ok_mono:
  "mail_ok H t D s es \<Longrightarrow> channel s' = channel s \<Longrightarrow> b_seq (sh_broker s) \<le> b_seq (sh_broker s') \<Longrightarrow> set es \<subseteq> set es' \<Longrightarrow>
     mail_ok H t D s' es'"
  unfolding mail_ok_def by (metis run_edge_mono subsetD)

text \<open>What the mailboxes are read from: the parts of the broker the invariant is about.\<close>

definition same_team :: "broker \<Rightarrow> broker \<Rightarrow> bool" where
  "same_team b b' \<longleftrightarrow> b_topo b' = b_topo b \<and> b_boxes b' = b_boxes b \<and> b_spawned b' = b_spawned b \<and> b_budgets b' = b_budgets b \<and>
     b_seq b' = b_seq b \<and> b_capture b' = b_capture b \<and> set (b_log b) \<subseteq> set (b_log b')"

lemma same_team_names: "same_team b b' \<Longrightarrow> live_workers b' = live_workers b \<and> spawned_names b' = spawned_names b \<and> workers_ok D b' = workers_ok D b"
  unfolding same_team_def spawned_names_def live_workers_def [abs_def] workers_ok_def by auto

lemma gone_ok_later:
  assumes "gone_ok s" and "\<forall>n. m_get (sh_gone s') n \<noteq> None \<longrightarrow> m_get (sh_gone s) n \<noteq> None"
    and "\<forall>n. m_get (sh_gone s) n \<noteq> None \<longrightarrow> m_get (b_boxes (sh_broker s)) n = None \<longrightarrow> m_get (b_boxes (sh_broker s')) n = None"
    and "b_seq (sh_broker s) \<le> b_seq (sh_broker s')"
  shows "gone_ok s'"
  unfolding gone_ok_def
proof (intro allI impI)
  fix n assume "m_get (sh_gone s') n \<noteq> None"
  then have g: "m_get (sh_gone s) n \<noteq> None" using assms(2) by blast
  then obtain who where "m_get (b_boxes (sh_broker s)) n = None" "minted_by who (b_seq (sh_broker s)) n"
    using assms(1) unfolding gone_ok_def by blast
  then show "m_get (b_boxes (sh_broker s')) n = None \<and> (\<exists>who. minted_by who (b_seq (sh_broker s')) n)"
    using assms(3,4) g minted_by_mono by blast
qed

lemma names_ok_cong:
  assumes "names_ok D s" and "workers_ok D (sh_broker s') = workers_ok D (sh_broker s)"
    and "spawned_names (sh_broker s') = spawned_names (sh_broker s)"
    and "dom (m_get (b_boxes (sh_broker s'))) = dom (m_get (b_boxes (sh_broker s)))"
    and "dom (m_get (sh_gone s')) = dom (m_get (sh_gone s))" and "b_seq (sh_broker s') = b_seq (sh_broker s)"
  shows "names_ok D s'"
proof -
  have "gone_ok s'"
  proof (rule gone_ok_later[of s])
    show "gone_ok s" using assms(1) by (simp add: names_ok_def)
    show "\<forall>n. m_get (sh_gone s') n \<noteq> None \<longrightarrow> m_get (sh_gone s) n \<noteq> None" using assms(5) by (metis domIff)
    show "\<forall>n. m_get (sh_gone s) n \<noteq> None \<longrightarrow> m_get (b_boxes (sh_broker s)) n = None \<longrightarrow> m_get (b_boxes (sh_broker s')) n = None"
      using assms(4) by (metis domIff)
  qed (simp add: assms(6))
  then show ?thesis using assms(1-4) by (simp add: names_ok_def)
qed

lemma same_team_shared:
  assumes "same_team (sh_broker s) b'" and "shared_ok H t D s es"
    and "set (b_log (sh_broker s) @ es) \<subseteq> set (b_log b' @ es')"
  shows "shared_ok H t D (s\<lparr>sh_broker := b'\<rparr>) es'"
proof -
  have c: "channel (s\<lparr>sh_broker := b'\<rparr>) = channel s" using assms(1) by (simp add: channel_def fun_eq_iff same_team_def split: option.split)
  have "mail_ok H t D (s\<lparr>sh_broker := b'\<rparr>) (b_log b' @ es')"
    using assms(2,3) assms(1) by (intro mail_ok_mono[OF _ c]) (auto simp: shared_ok_def same_team_def)
  moreover have "names_ok D (s\<lparr>sh_broker := b'\<rparr>)"
    using assms(1,2) same_team_names[OF assms(1), of D] by - (rule names_ok_cong[of D s], simp_all add: same_team_def shared_ok_def)
  ultimately show ?thesis using assms(1,2) by (simp add: shared_ok_def edges_ok_def same_team_def)
qed

lemma shared_ok_more: "shared_ok H t D s es \<Longrightarrow> set es \<subseteq> set es' \<Longrightarrow> shared_ok H t D s es'"
  using same_team_shared[of s "sh_broker s" H t D es es'] by (auto simp: same_team_def)

lemma elsewhere_same: "elsewhere op \<Longrightarrow> same_team b (broker_step H b op)"
proof (cases op)
  case (OpAskAnswer tag)
  then show ?thesis by (auto simp: same_team_def ask_answer_def ask_close_def split: option.split list.split)
next
  case (OpAskTimeout tag f t d)
  then show ?thesis by (auto simp: same_team_def ask_timeout_def ask_close_def record_event_def Let_def split: option.split list.split)
next
  case (OpReply f tag body)
  then show ?thesis by (auto simp: same_team_def broker_reply_def ask_close_def record_event_def Let_def split: option.split)
next
  case (OpStoreGet a k)
  then show ?thesis by (auto simp: same_team_def broker_store_get_def split: option.split prod.split)
next
  case (OpStorePut a k v)
  then show ?thesis by (auto simp: same_team_def broker_store_put_def split: option.split prod.split)
qed simp_all

section \<open>Every section keeps it\<close>

lemma set_channel_frame [simp]:
  "b_seq (sh_broker (set_channel n q s)) = b_seq (sh_broker s)" "b_topo (sh_broker (set_channel n q s)) = b_topo (sh_broker s)"
  "b_log (sh_broker (set_channel n q s)) = b_log (sh_broker s)" "workers_ok D (sh_broker (set_channel n q s)) = workers_ok D (sh_broker s)"
  "spawned_names (sh_broker (set_channel n q s)) = spawned_names (sh_broker s)"
  by (simp_all add: set_channel_def split: option.split)

lemma set_channel_get:
  assumes "channel s n = Some q0"
  shows "channel (set_channel n q s) = (channel s)(n := Some q)"
    and "dom (m_get (b_boxes (sh_broker (set_channel n q s)))) = dom (m_get (b_boxes (sh_broker s)))"
    and "dom (m_get (sh_gone (set_channel n q s))) = dom (m_get (sh_gone s))"
  using assms by (auto simp: channel_def set_channel_def fun_eq_iff gm.get_put split: option.splits if_splits)

lemma set_channel_ok:
  assumes "shared_ok H t D s es" and "channel s n = Some q0" and "length q \<le> mailbox" and "set es \<subseteq> set es'"
    and "\<forall>m \<in> set q. m \<in> set q0 \<or> run_edge t D (b_seq (sh_broker s)) (m_from m) n \<and> (\<exists>e \<in> set es'. delivered_event H n m e)"
  shows "shared_ok H t D (set_channel n q s) es'"
proof -
  have old: "length q1 \<le> mailbox \<and> (\<forall>m \<in> set q1. run_edge t D (b_seq (sh_broker s)) (m_from m) k \<and>
      (\<exists>e \<in> set (b_log (sh_broker s) @ es'). delivered_event H k m e))" if "channel s k = Some q1" for k q1
    using assms(1,4) that unfolding shared_ok_def mail_ok_def by fastforce
  have "mail_ok H t D (set_channel n q s) (b_log (sh_broker (set_channel n q s)) @ es')"
    unfolding mail_ok_def set_channel_get(1)[OF assms(2)] set_channel_frame
  proof (intro allI impI)
    fix k q1 assume k: "((channel s)(n := Some q)) k = Some q1"
    show "length q1 \<le> mailbox \<and> (\<forall>m \<in> set q1. run_edge t D (b_seq (sh_broker s)) (m_from m) k \<and>
        (\<exists>e \<in> set (b_log (sh_broker s) @ es'). delivered_event H k m e))"
    proof (cases "k = n")
      case True
      then have "q1 = q" using k by simp
      then show ?thesis using assms(3,5) old[OF assms(2)] True by fastforce
    next
      case False
      then show ?thesis using k old by simp
    qed
  qed
  moreover have "names_ok D (set_channel n q s)"
    using assms(1) set_channel_get(2,3)[OF assms(2)] by - (rule names_ok_cong[of D s], simp_all add: shared_ok_def)
  ultimately show ?thesis using assms(1) by (simp add: shared_ok_def edges_ok_def)
qed

lemma delivered_letter: "delivered_event H (lt_to l) (mailed l) (letter_event H b l OutcomeDelivered [])"
  by (simp add: delivered_event_def letter_event_def mailed_def describe_def)

lemma deliver_put_ok:
  assumes "shared_ok H t D s es" and "call_ok t D (b_seq (sh_broker s)) (DeliverSend l ch)"
    and "deliver_put H l ch s = (s', es', c')"
  shows "shared_ok H t D s' (es @ es') \<and> b_seq (sh_broker s') = b_seq (sh_broker s) \<and> (\<exists>r. c' = Returned r)"
proof (cases "Option.bind ch (channel s)")
  case None
  then show ?thesis using assms(1,3) by (auto simp: deliver_put_def Let_def intro: shared_ok_more)
next
  case (Some q)
  then have ch: "ch = Some (lt_to l)" "channel s (lt_to l) = Some q" using assms(2) by auto
  show ?thesis
  proof (cases "length q < mailbox")
    case False
    then show ?thesis using assms(1,3) Some by (auto simp: deliver_put_def Let_def intro: shared_ok_more)
  next
    case True
    then have e: "s' = set_channel (lt_to l) (q @ [mailed l]) s" "es' = [letter_event H (sh_broker s) l OutcomeDelivered []]"
      "c' = Returned (Sent (Inr ()))"
      using assms(3) Some ch(1) by (simp_all add: deliver_put_def Let_def)
    have "m_from (mailed l) = lt_from l" by (simp add: mailed_def)
    then have "shared_ok H t D s' (es @ es')"
      unfolding e(1) using True assms(2) delivered_letter[of H l "sh_broker s"]
      by (intro set_channel_ok[OF assms(1) ch(2)]) (auto simp: e(2))
    then show ?thesis using e by simp
  qed
qed

lemma recv_take_ok:
  assumes "shared_ok H t D s es" and "recv_take a d s = (s', c')"
  shows "shared_ok H t D s' es \<and> b_seq (sh_broker s') = b_seq (sh_broker s) \<and> (\<exists>r. c' = Returned r)"
proof (cases "\<exists>m q. channel s a = Some (m # q)")
  case True
  then obtain m q where q: "channel s a = Some (m # q)" by blast
  then have e: "s' = set_channel a q s" "c' = Returned (Got (Inr m))" using assms(2) by (simp_all add: recv_take_def)
  have "length (m # q) \<le> mailbox" using assms(1) q unfolding shared_ok_def mail_ok_def by blast
  then have "shared_ok H t D s' es" unfolding e(1) by (intro set_channel_ok[OF assms(1) q]) auto
  then show ?thesis using e by simp
next
  case False
  then have "s' = s \<and> c' = Returned (Got (Inl (RecvTimeout d)))" using assms(2) by (auto simp: recv_take_def split: option.splits list.splits)
  then show ?thesis using assms(1) by blast
qed

lemma attach_edges:
  assumes "edges_ok t D b" and "call_ok t D (b_seq b) (SpawnAttach r)"
  shows "edges_ok t D (b\<lparr>b_topo := topo_attach (sr_name r) (sr_spawner r) (b_topo b)\<rparr>)"
  using assms by (auto simp: edges_ok_def allows_attach run_edge_def)

lemma detach_edges: "edges_ok t D b \<Longrightarrow> n \<notin> set D \<Longrightarrow> edges_ok t D (b\<lparr>b_topo := topo_detach n (b_topo b)\<rparr>)"
  by (auto simp: edges_ok_def allows_detach)

lemma topo_shared:
  assumes "shared_ok H t D s es" and "edges_ok t D ((sh_broker s)\<lparr>b_topo := u\<rparr>)"
  shows "shared_ok H t D (s\<lparr>sh_broker := (sh_broker s)\<lparr>b_topo := u\<rparr>\<rparr>) es"
proof -
  have c: "channel (s\<lparr>sh_broker := (sh_broker s)\<lparr>b_topo := u\<rparr>\<rparr>) = channel s" by (simp add: channel_def fun_eq_iff split: option.split)
  have "mail_ok H t D (s\<lparr>sh_broker := (sh_broker s)\<lparr>b_topo := u\<rparr>\<rparr>) (b_log (sh_broker s) @ es)"
    using assms(1) by (intro mail_ok_mono[OF _ c]) (auto simp: shared_ok_def)
  moreover have "names_ok D (s\<lparr>sh_broker := (sh_broker s)\<lparr>b_topo := u\<rparr>\<rparr>)"
    using assms(1) by - (rule names_ok_cong[of D s], simp_all add: spawned_names_def shared_ok_def)
  ultimately show ?thesis using assms by (simp add: shared_ok_def)
qed

lemma channel_broker [simp]:
  "b_boxes b' = b_boxes (sh_broker s) \<Longrightarrow> channel (s\<lparr>sh_broker := b'\<rparr>) = channel s"
  by (simp add: channel_def fun_eq_iff split: option.split)

lemma edges_ok_seq:
  "edges_ok t D b \<Longrightarrow> b_topo b' = b_topo b \<Longrightarrow> b_seq b \<le> b_seq b' \<Longrightarrow> edges_ok t D b'"
  by (auto simp: edges_ok_def intro: run_edge_mono)

lemma seq_shared:
  assumes "shared_ok H t D s es"
  shows "shared_ok H t D (s\<lparr>sh_broker := (sh_broker s)\<lparr>b_seq := b_seq (sh_broker s) + 1\<rparr>\<rparr>) es"
proof -
  let ?b = "sh_broker s" and ?s = "s\<lparr>sh_broker := (sh_broker s)\<lparr>b_seq := b_seq (sh_broker s) + 1\<rparr>\<rparr>"
  have names: "names_ok D s" using assms by (simp add: shared_ok_def)
  then have "gone_ok ?s" by - (rule gone_ok_later[of s], simp_all add: names_ok_def)
  then have "names_ok D ?s" using names workers_ok_seq[of D ?b] by (simp add: names_ok_def)
  moreover have "edges_ok t D (sh_broker ?s)" using assms by - (rule edges_ok_seq[of t D ?b], simp_all add: shared_ok_def)
  moreover have "mail_ok H t D ?s (b_log (sh_broker ?s) @ es)"
    using assms by - (rule mail_ok_mono[of H t D s "b_log ?b @ es"], simp_all add: shared_ok_def)
  ultimately show ?thesis by (simp add: shared_ok_def)
qed

definition reserved :: "string \<Rightarrow> broker \<Rightarrow> broker" where
  "reserved a b = b\<lparr>b_seq := b_seq b + 1, b_spawned := m_put a (live_workers b a @ [mint a (b_seq b + 1)]) (b_spawned b),
     b_boxes := m_put (mint a (b_seq b + 1)) [] (b_boxes b)\<rparr>"

lemma reserved_fields [simp]:
  "b_seq (reserved a b) = b_seq b + 1" "b_topo (reserved a b) = b_topo b" "b_log (reserved a b) = b_log b"
  "m_get (b_boxes (reserved a b)) = (m_get (b_boxes b))(mint a (b_seq b + 1) \<mapsto> [])"
  "spawned_names (reserved a b) = insert (mint a (b_seq b + 1)) (spawned_names b)"
proof -
  show "spawned_names (reserved a b) = insert (mint a (b_seq b + 1)) (spawned_names b)"
    using spawned_names_put[where b = b and s = a and n = "mint a (b_seq b + 1)"] by (simp add: reserved_def spawned_names_def live_workers_def)
qed (simp_all add: reserved_def gm.get_put_fun)

lemma reserved_workers:
  "workers_ok D b \<Longrightarrow> m_get (b_budgets b) a = Some bud \<Longrightarrow> int (length (live_workers b a)) < bud_max bud \<Longrightarrow> workers_ok D (reserved a b)"
  using workers_ok_spawn[of D b a bud] by (simp add: reserved_def)

lemma seq_nonneg: "shared_ok H t D s es \<Longrightarrow> 0 \<le> b_seq (sh_broker s)"
  by (simp add: shared_ok_def names_ok_def workers_ok_def)

lemma reserve_ok:
  assumes ok: "shared_ok H t D s es" and bud: "m_get (b_budgets (sh_broker s)) a = Some bud"
    and room: "int (length (live_workers (sh_broker s) a)) < bud_max bud"
    and free: "m_get (b_boxes (sh_broker s)) (mint a (b_seq (sh_broker s) + 1)) = None"
  shows "shared_ok H t D (s\<lparr>sh_broker := reserved a (sh_broker s)\<rparr>) es"
    and "call_ok t D (b_seq (sh_broker s) + 1) (SpawnAttach \<lparr>sr_name = mint a (b_seq (sh_broker s) + 1), sr_spawner = a, sr_image = i, sr_life = l\<rparr>)"
proof -
  let ?b = "sh_broker s" and ?n = "mint a (b_seq (sh_broker s) + 1)"
  have names: "names_ok D s" using ok by (simp add: shared_ok_def)
  have pos: "1 \<le> b_seq ?b + 1" using seq_nonneg[OF ok] by simp
  have D: "?n \<notin> set D" using names free unfolding names_ok_def by blast
  have a: "a \<in> set D" using names bud unfolding names_ok_def workers_ok_def by blast
  have fresh: "\<not> minted_by who (b_seq ?b) ?n" for who
    using mint_inj[of "b_seq ?b + 1" _ a who] pos by (fastforce simp: minted_by_def)
  have gone: "gone_ok s" using names by (simp add: names_ok_def)
  have g: "m_get (sh_gone s) ?n = None" using gone fresh unfolding gone_ok_def by blast
  have "gone_ok (s\<lparr>sh_broker := reserved a ?b\<rparr>)" using gone g by - (rule gone_ok_later[of s], auto)
  moreover have "dom (m_get (b_boxes (reserved a ?b))) = set D \<union> spawned_names (reserved a ?b)"
    using names by (simp add: names_ok_def)
  moreover have "set D \<inter> spawned_names (reserved a ?b) = {}" using names D by (simp add: names_ok_def)
  ultimately have "names_ok D (s\<lparr>sh_broker := reserved a ?b\<rparr>)"
    using names reserved_workers[OF _ bud room, of D] by (simp add: names_ok_def)
  moreover have "edges_ok t D (reserved a ?b)" using ok by - (rule edges_ok_seq[of t D ?b], simp_all add: shared_ok_def)
  moreover have "mail_ok H t D (s\<lparr>sh_broker := reserved a ?b\<rparr>) (b_log ?b @ es)"
  proof -
    have c: "channel (s\<lparr>sh_broker := reserved a ?b\<rparr>) = (channel s)(?n := Some [])"
      by (auto simp: channel_def fun_eq_iff split: option.split)
    have "mail_ok H t D (s\<lparr>sh_broker := ?b\<lparr>b_seq := b_seq ?b + 1\<rparr>\<rparr>) (b_log ?b @ es)"
      using seq_shared[OF ok] by (simp add: shared_ok_def)
    then show ?thesis unfolding mail_ok_def c by simp
  qed
  ultimately show "shared_ok H t D (s\<lparr>sh_broker := reserved a ?b\<rparr>) es" by (simp add: shared_ok_def)
  show "call_ok t D (b_seq ?b + 1) (SpawnAttach \<lparr>sr_name = ?n, sr_spawner = a, sr_image = i, sr_life = l\<rparr>)"
    using a D pos by simp
qed

lemma spawn_reserve_ok:
  assumes ok: "shared_ok H t D s es" and r: "spawn_reserve a img s = (s', es', c')"
  shows "shared_ok H t D s' (es @ es') \<and> b_seq (sh_broker s) \<le> b_seq (sh_broker s') \<and> call_ok t D (b_seq (sh_broker s')) c'"
proof -
  let ?b = "sh_broker s"
  consider (refused) "s' = s" "\<exists>x. c' = Returned x"
    | (taken) "s' = s\<lparr>sh_broker := ?b\<lparr>b_seq := b_seq ?b + 1\<rparr>\<rparr>" "\<exists>x. c' = Returned x"
    | (free) bud i where "m_get (b_budgets ?b) a = Some bud" "int (length (live_workers ?b a)) < bud_max bud"
        "m_get (b_boxes ?b) (mint a (b_seq ?b + 1)) = None" "s' = s\<lparr>sh_broker := reserved a ?b\<rparr>"
        "c' = SpawnAttach \<lparr>sr_name = mint a (b_seq ?b + 1), sr_spawner = a, sr_image = i, sr_life = bud_life bud\<rparr>"
  proof (cases "m_get (b_budgets ?b) a")
    case None
    then show thesis using r by (intro refused) (auto simp: spawn_reserve_def)
  next
    case (Some bud)
    let ?i = "if img = [] \<and> bud_images bud \<noteq> [] then hd (bud_images bud) else img"
    show thesis
    proof (cases "bud_max bud \<le> int (length (live_workers ?b a)) \<or> ?i \<notin> set (bud_images bud)")
      case True
      then show thesis using r Some by (intro refused) (auto simp: spawn_reserve_def Let_def split: if_splits)
    next
      case False
      then have room: "int (length (live_workers ?b a)) < bud_max bud" and i: "?i \<in> set (bud_images bud)" by simp_all
      show thesis
      proof (cases "m_get (b_boxes ?b) (mint a (b_seq ?b + 1)) \<noteq> None \<or> topo_exists (b_topo ?b) (mint a (b_seq ?b + 1))")
        case True
        then show thesis using r Some room i unfolding spawn_reserve_def Let_def by (intro taken) auto
      next
        case False
        then show thesis using r Some room i unfolding spawn_reserve_def Let_def
          by (intro free[of bud ?i]) (auto simp: reserved_def)
      qed
    qed
  qed
  then show ?thesis
  proof cases
    case refused
    then show ?thesis using ok by (auto intro: shared_ok_more)
  next
    case taken
    then show ?thesis using shared_ok_more[OF seq_shared[OF ok], of "es @ es'"] by auto
  next
    case free
    show ?thesis using shared_ok_more[OF reserve_ok(1)[OF ok free(1-3)], of "es @ es'"] reserve_ok(2)[OF ok free(1-3)] free(4,5) by simp
  qed
qed

lemma despawn_take_ok:
  assumes ok: "shared_ok H t D s es" and r: "despawn_take n s = (s', es', c')"
  shows "shared_ok H t D s' (es @ es') \<and> b_seq (sh_broker s') = b_seq (sh_broker s) \<and> call_ok t D (b_seq (sh_broker s')) c'"
proof -
  let ?b = "sh_broker s" and ?w = "map (\<lambda>(who, l). (who, remove1 n l)) (b_spawned (sh_broker s))"
  have names: "names_ok D s" and w: "workers_ok D ?b" and d: "declared_ok D" using ok by (simp_all add: shared_ok_def names_ok_def)
  show ?thesis
  proof (cases "n \<in> spawned_names ?b")
    case False
    then have "s' = s" "\<exists>x. c' = Returned x" using r by (auto simp: despawn_take_def Let_def owner_of_stranger[OF w])
    then show ?thesis using ok by (auto intro: shared_ok_more)
  next
    case True
    have own: "owner_of ?b n \<noteq> []" by (rule owner_of_spawned(2)[OF w d True])
    have "n \<in> dom (m_get (b_boxes ?b))" using names True unfolding names_ok_def by blast
    then obtain q where q: "m_get (b_boxes ?b) n = Some q" by blast
    have nD: "n \<notin> set D" using names True unfolding names_ok_def by blast
    let ?b' = "?b\<lparr>b_spawned := ?w, b_boxes := m_del n (b_boxes ?b)\<rparr>"
    have s': "s' = \<lparr>sh_broker = ?b', sh_gone = m_put n q (sh_gone s)\<rparr>" and es': "es' = []" and c': "c' = DespawnDetach (owner_of ?b n) n"
      using r own q by (auto simp: despawn_take_def Let_def)
    have c: "channel s' = channel s"
    proof (rule ext)
      have g: "m_get (sh_gone s) n = None \<or> m_get (b_boxes ?b) n = None" using names unfolding names_ok_def gone_ok_def by blast
      fix k show "channel s' k = channel s k" using q by (auto simp: s' channel_def split: option.split)
    qed
    have sp: "spawned_names ?b' = spawned_names ?b - {n}"
      using spawned_names_remove[OF w, of n] by (simp add: spawned_names_def live_workers_def)
    have "gone_ok s'"
    proof -
      have "\<exists>who. minted_by who (b_seq ?b) n" using True w unfolding spawned_names_def workers_ok_def by blast
      then show ?thesis using names unfolding names_ok_def gone_ok_def s' by simp
    qed
    moreover have "workers_ok D ?b'" using workers_ok_remove[OF w, of n] by simp
    moreover have "dom (m_get (b_boxes ?b')) = set D \<union> spawned_names ?b'"
      using names nD unfolding sp names_ok_def by (auto simp: gm.get_del_fun)
    moreover have "set D \<inter> spawned_names ?b' = {}" using names unfolding sp names_ok_def by blast
    ultimately have "names_ok D s'" using d by (simp add: names_ok_def s')
    moreover have "edges_ok t D (sh_broker s')" using ok by (simp add: s' shared_ok_def edges_ok_def)
    moreover have "mail_ok H t D s' (b_log (sh_broker s') @ es)"
      using ok by - (rule mail_ok_mono[OF _ c, of H t D "b_log ?b @ es"], simp_all add: shared_ok_def s')
    ultimately show ?thesis using nD by (simp add: shared_ok_def es' c' s')
  qed
qed

lemma attach_ok:
  "shared_ok H t D s es \<Longrightarrow> call_ok t D (b_seq (sh_broker s)) (SpawnAttach r) \<Longrightarrow>
     shared_ok H t D (s\<lparr>sh_broker := (sh_broker s)\<lparr>b_topo := topo_attach (sr_name r) (sr_spawner r) (b_topo (sh_broker s))\<rparr>\<rparr>) es"
  by (rule topo_shared) (auto simp: shared_ok_def intro: attach_edges)

lemma detach_ok:
  "shared_ok H t D s es \<Longrightarrow> n \<notin> set D \<Longrightarrow>
     shared_ok H t D (s\<lparr>sh_broker := (sh_broker s)\<lparr>b_topo := topo_detach n (b_topo (sh_broker s))\<rparr>\<rparr>) es"
  by (rule topo_shared) (auto simp: shared_ok_def intro: detach_edges)

lemma advance_ok:
  assumes ok: "shared_ok H t D s es" and c: "call_ok t D (b_seq (sh_broker s)) c" and a: "advance H c s = (s', es', c')"
  shows "shared_ok H t D s' (es @ es') \<and> b_seq (sh_broker s) \<le> b_seq (sh_broker s') \<and> call_ok t D (b_seq (sh_broker s')) c'"
proof (cases c)
  case (DeliverExists l)
  then show ?thesis using ok a by (auto simp: deliver_exists_def intro: shared_ok_more split: if_splits)
next
  case (DeliverAllows l)
  have "run_edge t D (b_seq (sh_broker s)) f g" if "topo_allows (b_topo (sh_broker s)) f g" for f g
    using ok that unfolding shared_ok_def edges_ok_def by blast
  then show ?thesis using DeliverAllows ok a by (auto simp: deliver_allows_def intro: shared_ok_more split: if_splits)
next
  case (DeliverLookup l)
  then show ?thesis using ok c a by (auto simp: deliver_lookup_def)
next
  case (DeliverSend l ch)
  then show ?thesis using deliver_put_ok[OF ok, of l ch s' es' c'] c a by auto
next
  case (RecvLookup n d)
  then show ?thesis using ok a by (auto simp: recv_lookup_def)
next
  case (RecvTake n d)
  then show ?thesis using recv_take_ok[OF ok, of n d] a by (auto split: prod.splits)
next
  case (SpawnReserve n img)
  then show ?thesis using spawn_reserve_ok[OF ok, of n img s' es' c'] a by simp
next
  case (SpawnAttach r)
  then show ?thesis using shared_ok_more[OF attach_ok[OF ok], of r "es @ es'"] c a by (auto simp: spawn_attach_def Let_def)
next
  case (DespawnTake n)
  then show ?thesis using despawn_take_ok[OF ok, of n s' es' c'] a by auto
next
  case (DespawnDetach w n)
  then show ?thesis using shared_ok_more[OF detach_ok[OF ok], of n "es @ es'"] c a by (auto simp: despawn_detach_def Let_def)
next
  case (Returned r)
  then show ?thesis using ok a by auto
qed

lemma same_team_step:
  "team_ok H t D s \<Longrightarrow> same_team (sh_broker (ts_shared s)) b' \<Longrightarrow>
     team_ok H t D (s\<lparr>ts_shared := (ts_shared s)\<lparr>sh_broker := b'\<rparr>\<rparr>)"
  using same_team_shared[of "ts_shared s" b' H t D "ts_due s" "ts_due s"] by (auto simp: team_ok_def same_team_def)

lemma entry_ok: "entry c \<Longrightarrow> call_ok t D hi c"
  by (cases c) simp_all

lemma team_step_ok: "team_step H s s' \<Longrightarrow> team_ok H t D s \<Longrightarrow> team_ok H t D s'"
proof (induction rule: team_step.induct)
  case (call_enter s i c)
  then show ?case by (auto simp: team_ok_def intro: entry_ok)
next
  case (call_advance s i c sh es c')
  then have "shared_ok H t D (ts_shared s) (ts_due s)" "call_ok t D (b_seq (sh_broker (ts_shared s))) c" by (auto simp: team_ok_def)
  from advance_ok[OF this call_advance(2)] show ?case
    using call_advance(3) by (auto simp: team_ok_def intro: call_ok_mono)
next
  case (call_timer s i a d)
  then show ?case by (auto simp: team_ok_def)
next
  case (call_record s es e es')
  let ?b = "record_event e (sh_broker (ts_shared s))"
  have "same_team (sh_broker (ts_shared s)) ?b" by (auto simp: same_team_def record_event_def)
  moreover have "set (b_log (sh_broker (ts_shared s)) @ ts_due s) \<subseteq> set (b_log ?b @ es @ es')"
    using call_record(1) by (auto simp: record_event_def)
  ultimately have "shared_ok H t D ((ts_shared s)\<lparr>sh_broker := ?b\<rparr>) (es @ es')"
    using call_record(2) by (intro same_team_shared[of "ts_shared s" ?b H t D "ts_due s"]) (simp_all add: team_ok_def)
  then show ?case using call_record(2) by (simp add: team_ok_def record_event_def)
next
  case (call_question s tag f t')
  then show ?case by (rule same_team_step) (simp add: same_team_def ask_open_def)
next
  case (call_close s tag)
  then show ?case by (rule same_team_step) (simp add: same_team_def ask_close_def)
next
  case (call_other op s)
  then show ?case by (intro same_team_step elsewhere_same)
qed

lemma team_reachable_ok:
  assumes "team_reachable H b0 s" and t: "newTopology D es = Inr t" and b0: "b0 = team_up t capture st gs"
    and st: "\<forall>x. st = Some x \<longrightarrow> store_ok x" and gs: "fst ` set gs \<subseteq> set D"
  shows "team_ok H t D s"
  using assms(1)
proof (induction rule: team_reachable.induct)
  case team_start
  have inv: "broker_inv H D b0" unfolding b0 by (rule team_up_inv[OF t st gs])
  note f = grant_all_fields[of gs "(newBroker t capture)\<lparr>b_store := st\<rparr>"]
  have topo: "b_topo b0 = t" and boxes: "b_boxes b0 = map (\<lambda>a. (a, [])) (agents t)" and log: "b_log b0 = []"
    using f by (simp_all add: b0 team_up_def newBroker_def)
  have "names_ok D \<lparr>sh_broker = b0, sh_gone = []\<rparr>"
    using inv by (simp add: names_ok_def gone_ok_def broker_inv_def broker_ok_def members_ok_def)
  moreover have "edges_ok t D b0" by (simp add: edges_ok_def run_edge_def topo)
  moreover have "mail_ok H t D \<lparr>sh_broker = b0, sh_gone = []\<rparr> (b_log b0)"
    by (auto simp: mail_ok_def channel_def boxes m_get_const_map split: option.splits if_splits)
  ultimately show ?case by (simp add: team_ok_def shared_ok_def)
next
  case (team_next s s')
  then show ?case by (blast intro: team_step_ok)
qed
section \<open>A schedule\<close>

text \<open>Which goroutine runs next, and what it calls if it is new.\<close>

definition run_next :: "(bytes \<Rightarrow> string) \<Rightarrow> nat \<times> call_at option \<Rightarrow> team_sys \<Rightarrow> team_sys" where
  "run_next H x s =
     (case (ts_calls s (fst x), snd x) of
        (None, Some c) \<Rightarrow> if entry c then s\<lparr>ts_calls := (ts_calls s)(fst x := Some c)\<rparr> else s
      | (Some c, _) \<Rightarrow>
          (case advance H c (ts_shared s) of
             (sh, es, c') \<Rightarrow> s\<lparr>ts_shared := sh, ts_calls := (ts_calls s)(fst x := Some c'), ts_due := ts_due s @ es\<rparr>)
      | _ \<Rightarrow> s)"

lemma run_next_reachable: "team_reachable H b0 s \<Longrightarrow> team_reachable H b0 (run_next H x s)"
  by (auto simp: run_next_def split: option.split prod.split intro: team_next call_enter call_advance)

lemma schedule_reachable: "team_reachable H b0 s \<Longrightarrow> team_reachable H b0 (fold (run_next H) xs s)"
  by (induction xs arbitrary: s) (simp_all add: run_next_reachable)

end
