(* ===== verification/Team_Properties.thy ===== *)
theory Team_Properties
  imports Team_Steps
begin

text \<open>
  What the team's mediation guarantees: the topology that is accepted, the store and its rules,
  the broker over any run of a team, and a question's outcome. Each property is stated over the
  model of \<^verbatim>\<open>internal/team\<close> and followed, where it has hypotheses, by an
  instance on a small team.
\<close>

section \<open>A small team\<close>

definition demo_agents :: "string list" where
  "demo_agents = [''lead'', ''w-1'', ''w-2'']"

definition demo_edges :: "edge list" where
  "demo_edges = [\<lparr>edge_from = ''lead'', edge_to = ''w-*'', bidirectional = True\<rparr>]"

definition demo_topo :: topology where
  "demo_topo = (case newTopology demo_agents demo_edges of Inr t \<Rightarrow> t | Inl _ \<Rightarrow> \<lparr>agents = [], allowed = []\<rparr>)"

definition demo_broker :: broker where
  "demo_broker = team_up demo_topo False None [(''lead'', \<lparr>bud_max = 1, bud_images = [''base''], bud_life = 60\<rparr>)]"

lemma demo_new: "newTopology demo_agents demo_edges = Inr demo_topo"
  by code_simp

lemma demo_inv: "broker_inv H demo_agents demo_broker"
  unfolding demo_broker_def by (rule team_up_inv[OF demo_new]) (simp_all add: demo_agents_def)

section \<open>Topologies\<close>

text \<open>
  C16. \<open>NewTopology\<close> accepts exactly the declarations whose names are valid, distinct and not of
  the form a spawn of another member would mint, and whose edge endpoints each name somebody.
\<close>

theorem newTopology_accepts:
  "(\<exists>t. newTopology as es = Inr t) \<longleftrightarrow>
     (\<forall>a \<in> set as. validAgentName a = Inr ()) \<and> distinct as \<and>
     \<not> (\<exists>a \<in> set as. \<exists>s \<in> set as. \<exists>n. 1 \<le> n \<and> in_int64 n \<and> a = mint s n) \<and>
     (\<forall>e \<in> set es. edge_from e \<noteq> [] \<and> (\<exists>a \<in> set as. endpoint_matches (edge_from e) a) \<and>
        edge_to e \<noteq> [] \<and> (\<exists>a \<in> set as. endpoint_matches (edge_to e) a))"
proof -
  have minted: "(\<forall>a \<in> set as. mintedSpawnName a as = None) \<longleftrightarrow>
      \<not> (\<exists>a \<in> set as. \<exists>s \<in> set as. \<exists>n. 1 \<le> n \<and> in_int64 n \<and> a = mint s n)"
    using mintedSpawnName_iff[of _ as] by (metis not_None_eq)
  show ?thesis
    unfolding newTopology_Inr minted [symmetric] by (simp add: add_edges_ok expand_ok)
qed

theorem newTopology_accepts_witness:
  "distinct demo_agents \<and> \<not> (\<exists>n. 1 \<le> n \<and> in_int64 n \<and> ''w-1'' = mint ''lead'' n)"
proof -
  have "''w-1'' \<in> set demo_agents" and "''lead'' \<in> set demo_agents" by (simp_all add: demo_agents_def)
  then show ?thesis using newTopology_accepts[THEN iffD1, OF exI[of _ demo_topo], OF demo_new] by blast
qed

text \<open>
  In the accepted topology an agent may initiate to another exactly when a declared edge
  grants that pair: nothing is permitted that no edge says, and no edge is lost.
\<close>

theorem newTopology_grants:
  assumes "newTopology as es = Inr t"
  shows "topo_allows t f g \<longleftrightarrow> f \<in> set as \<and> g \<in> set as \<and> (\<exists>e \<in> set es. edge_grants e f g)"
  using assms allows_add_edges[of es "\<lparr>agents = sort as, allowed = []\<rparr>" t f g]
  by (simp add: newTopology_Inr)

theorem newTopology_grants_witness:
  "topo_allows demo_topo ''w-1'' ''lead'' \<and> \<not> topo_allows demo_topo ''w-1'' ''w-2''"
  unfolding newTopology_grants[OF demo_new] by code_simp

text \<open>
  \<open>PeersOf\<close> lists exactly the agents the caller may initiate to, in order and once each, on
  every topology \<open>NewTopology\<close> built and any spawns attached to.
\<close>

theorem peersOf_exact:
  assumes "topo_ok t"
  shows "sorted (peersOf t a) \<and> distinct (peersOf t a) \<and> set (peersOf t a) = {g. topo_allows t a g}"
  using assms by (rule peersOf_spec)

theorem peersOf_exact_witness:
  "set (peersOf demo_topo ''lead'') = {g. topo_allows demo_topo ''lead'' g} \<and> peersOf demo_topo ''lead'' = [''w-1'', ''w-2'']"
proof
  show "set (peersOf demo_topo ''lead'') = {g. topo_allows demo_topo ''lead'' g}"
    using peersOf_exact[OF newTopology_ok[OF demo_new]] by blast
  show "peersOf demo_topo ''lead'' = [''w-1'', ''w-2'']" by code_simp
qed

text \<open>
  \<open>mintedSpawnName\<close> recognises exactly the names \<open>Spawn\<close> can mint for a known agent: the
  spawner it reports is the one the name was minted for, whatever the spawner's own name holds.
\<close>

theorem mintedSpawnName_exact:
  "mintedSpawnName name known = Some s \<longleftrightarrow>
     s \<in> set known \<and> (\<exists>n. 1 \<le> n \<and> in_int64 n \<and> name = mint s n)"
  by (rule mintedSpawnName_iff)

text \<open>
  Attaching a spawned worker gives it one peer in each direction, its spawner, and changes
  nothing between the others; detaching it restores who exists and who may talk to whom.
\<close>

theorem attach_detach:
  assumes ok: "topo_ok t" and new: "\<not> topo_exists t n" and s: "topo_exists t s"
  shows "{g. topo_allows (topo_attach n s t) n g} = {s} \<and> {f. topo_allows (topo_attach n s t) f n} = {s} \<and>
    topo_allows (topo_detach n (topo_attach n s t)) = topo_allows t \<and>
    topo_exists (topo_detach n (topo_attach n s t)) = topo_exists t"
  using tp.attach_only_spawner[OF ok new] tp.detach_attach[OF ok new s] by (simp add: fun_eq_iff)

theorem attach_detach_witness:
  "topo_allows (topo_detach ''lead-spawn-1'' (topo_attach ''lead-spawn-1'' ''lead'' demo_topo)) = topo_allows demo_topo"
proof -
  have "\<not> topo_exists demo_topo ''lead-spawn-1''" and "topo_exists demo_topo ''lead''" by code_simp+
  then show ?thesis using attach_detach[OF newTopology_ok[OF demo_new]] by blast
qed

section \<open>The store\<close>

definition demo_rules :: "rule list" where
  "demo_rules = [\<lparr>rule_name = ''plan'', rule_read = [''*''], rule_write = [''lead'']\<rparr>,
     \<lparr>rule_name = ''w/*'', rule_read = [''w-*''], rule_write = [''w-*'']\<rparr>]"

definition demo_store :: store where
  "demo_store = \<lparr>s_rules = demo_rules, s_data = [], s_bytes = 0\<rparr>"

lemma demo_store_new: "newStore demo_topo demo_rules = Inr demo_store"
  by code_simp

fun store_puts :: "store \<Rightarrow> (string \<times> string \<times> bytes) list \<Rightarrow> store" where
  "store_puts s [] = s"
| "store_puts s ((agent, key, v) # ps) = store_puts (fst (store_put s agent key v)) ps"

lemma store_puts_ok: "store_ok s \<Longrightarrow> store_ok (store_puts s ps)"
  by (induction s ps rule: store_puts.induct) (simp_all add: store_put_ok)

text \<open>
  C19. After any sequence of puts by any agents the store's byte count is exactly the weight of
  what it holds, keys included, and every ceiling holds: total bytes, number of keys, and the
  size of each key and value.
\<close>

theorem store_ceilings:
  assumes "newStore topo rules = Inr s0" and "s = store_puts s0 ps"
  shows "s_bytes s = msum entry_weight (m_get (s_data s)) \<and> s_bytes s \<le> int MaxStoreBytes \<and>
    length (m_keys (s_data s)) \<le> MaxStoreKeys \<and>
    (\<forall>k v. store_map s k = Some v \<longrightarrow> length k \<le> MaxKeyBytes \<and> v \<noteq> [] \<and> length v \<le> MaxValueBytes)"
  using store_puts_ok[OF newStore_ok[OF assms(1)], of ps] assms(2)
  unfolding store_ok_def store_map_def by auto

theorem store_ceilings_witness:
  "s_bytes (store_puts demo_store [(''lead'', ''plan'', ''ab''), (''w-1'', ''plan'', ''c'')]) \<le> int MaxStoreBytes"
  using store_ceilings[OF demo_store_new refl] by blast

text \<open>
  A put refines a partial map: accepted, it stores the value under the key, or removes the
  key when the value is empty; refused, it changes nothing. It is accepted only for an agent the
  rules let write.
\<close>

theorem store_put_is_map_update:
  assumes "store_put s agent key v = (s', evs, r)"
  shows "store_map s' = (case r of Inl _ \<Rightarrow> store_map s | Inr _ \<Rightarrow> map_put (store_map s) key v) \<and>
    (r = Inr () \<longrightarrow> mayWrite s agent key)"
  using store_put_refines[OF assms] assms by (auto simp: store_put_def split: if_splits)

theorem store_put_is_map_update_witness:
  "store_map (fst (store_put demo_store ''lead'' ''plan'' ''a'')) = [''plan'' \<mapsto> ''a'']"
proof -
  have p: "store_put demo_store ''lead'' ''plan'' ''a'' =
      (demo_store\<lparr>s_data := [(''plan'', ''a'')], s_bytes := 5\<rparr>,
       [store_event ''lead'' ''plan'' ''put'' 1 OutcomeDelivered []], Inr ())"
    by (simp add: store_put_def Let_def demo_store_def demo_rules_def mayWrite_def globMatch_def cutSuffix_def
        hasSuffix_def hasPrefix_def store_limits m_get_def m_put_def m_keys_def)
  have "store_map demo_store = Map.empty" by (simp add: store_map_def demo_store_def m_get_def fun_eq_iff)
  then show ?thesis
    using store_put_is_map_update[OF p] by (simp add: p map_put_def)
qed

text \<open>
  What was written is what is read: after an accepted put of a value every agent the rules
  let read the key gets exactly that value, and no other key reads differently.
\<close>

theorem store_read_your_write:
  assumes "store_put s a k v = (s', e, Inr ())" and "v \<noteq> []" and "store_readable s b k" and "j \<noteq> k"
  shows "snd (store_get s' b k) = Inr v \<and> (snd (store_get s' c j) = Inr w \<longleftrightarrow> snd (store_get s c j) = Inr w)"
  using bs.read_your_write[OF assms(1,2,3)] bs.put_frame[OF assms(1,4)] by blast

theorem store_read_your_write_witness:
  "snd (store_get (fst (store_put demo_store ''lead'' ''plan'' ''hi'')) ''w-2'' ''plan'') = Inr ''hi''"
proof -
  have p: "store_put demo_store ''lead'' ''plan'' ''hi'' =
      (demo_store\<lparr>s_data := [(''plan'', ''hi'')], s_bytes := 6\<rparr>,
       [store_event ''lead'' ''plan'' ''put'' 2 OutcomeDelivered []], Inr ())"
    by (simp add: store_put_def Let_def demo_store_def demo_rules_def mayWrite_def globMatch_def cutSuffix_def
        hasSuffix_def hasPrefix_def store_limits m_get_def m_put_def m_keys_def)
  have "store_readable demo_store ''w-2'' ''plan''"
    by (simp add: store_readable_def mayRead_def demo_store_def demo_rules_def globMatch_def cutSuffix_def
        hasSuffix_def hasPrefix_def store_limits)
  then show ?thesis using store_read_your_write[OF p, of "''w-2''" "[]"] by (simp add: p)
qed

text \<open>
  Every access is recorded once, as delivered exactly when it succeeded, with no payload and
  never a key longer than the ceiling: an oversized key is refused unnamed.
\<close>

theorem store_access_recorded:
  "audited agent (fst (store_get s agent key)) (snd (store_get s agent key)) \<and>
   audited agent (fst (snd (store_put s agent key v))) (snd (snd (store_put s agent key v)))"
  using store_get_audited[of s agent key] store_put_audited[of s agent key v] by (metis prod.collapse)

text \<open>
  The first matching rule decides, so a rule added after the others only ever narrows access
  to the keys they leave open, and a rule added before them can widen it.
\<close>

theorem appended_rule_narrows:
  "(may (rs @ rs') agent key w \<longrightarrow> may rs agent key w) \<and>
   \<not> may demo_rules ''w-1'' ''plan'' True \<and>
   may (\<lparr>rule_name = ''plan'', rule_read = [''*''], rule_write = [''*'']\<rparr> # demo_rules) ''w-1'' ''plan'' True"
  using may_append_narrows by (auto simp: demo_rules_def globMatch_def cutSuffix_def hasSuffix_def hasPrefix_def)

theorem appended_rule_narrows_witness:
  "may demo_rules ''lead'' ''plan'' True \<and> may [] ''lead'' ''plan'' True"
proof -
  have "may ([] @ demo_rules) ''lead'' ''plan'' True" by code_simp
  then show ?thesis using appended_rule_narrows[of "[]" demo_rules] by auto
qed

section \<open>The broker over a run\<close>

text \<open>A team as the host brings it up, after any sequence of the broker's operations.\<close>

definition team_run ::
  "(bytes \<Rightarrow> string) \<Rightarrow> string list \<Rightarrow> edge list \<Rightarrow> broker \<Rightarrow> bool" where
  "team_run H D es b \<longleftrightarrow>
     (\<exists>topo capture st gs ops. newTopology D es = Inr topo \<and> (\<forall>s. st = Some s \<longrightarrow> store_ok s) \<and>
        fst ` set gs \<subseteq> set D \<and> b = foldl (broker_step H) (team_up topo capture st gs) ops)"

lemma team_run_inv: "team_run H D es b \<Longrightarrow> broker_inv H D b"
  unfolding team_run_def by (elim exE conjE, hypsubst, rule brk.run_inv, rule team_up_inv)

lemma demo_run: "team_run H demo_agents demo_edges (foldl (broker_step H) demo_broker ops)"
  unfolding team_run_def demo_broker_def
  by (rule exI[of _ demo_topo], rule exI[of _ False], rule exI[of _ None],
      rule exI[of _ "[(''lead'', \<lparr>bud_max = 1, bud_images = [''base''], bud_life = 60\<rparr>)]"], rule exI[of _ ops])
    (simp add: demo_new, simp add: demo_agents_def)



text \<open>
  Over any run, every message waiting in a mailbox was recorded as delivered with its
  sender, its size and its hash, and the record keeps a payload only of a delivered message and
  only when capture was asked for.
\<close>

theorem team_record:
  assumes "team_run H D es b"
  shows "(\<forall>a q m. m_get (b_boxes b) a = Some q \<longrightarrow> m \<in> set q \<longrightarrow> (\<exists>e \<in> set (b_log b). delivered_event H a m e)) \<and>
    (\<forall>e \<in> set (b_log b). ev_body e \<noteq> [] \<longrightarrow> b_capture b \<and> ev_outcome e = OutcomeDelivered)"
  using team_run_inv[OF assms] unfolding broker_inv_def log_ok_def by blast

theorem team_record_witness:
  "\<exists>e \<in> set (b_log (foldl (broker_step (\<lambda>x. x)) demo_broker [OpSend ''lead'' ''w-1'' ''go''])).
     delivered_event (\<lambda>x. x) ''w-1'' \<lparr>m_from = ''lead'', m_body = ''go'', m_corr = []\<rparr> e"
proof -
  let ?b = "foldl (broker_step (\<lambda>x. x)) demo_broker [OpSend ''lead'' ''w-1'' ''go'']"
  have "m_get (b_boxes ?b) ''w-1'' = Some [\<lparr>m_from = ''lead'', m_body = ''go'', m_corr = []\<rparr>]" by code_simp
  then show ?thesis using team_record[OF demo_run] by (meson list.set_intros(1))
qed

lemma describe_ends:
  "ev_from (describe H cap f t body kind outcome reason) = f"
  "ev_to (describe H cap f t body kind outcome reason) = t"
  by (simp_all add: describe_def)

lemma one_event:
  "ev_from x = f \<Longrightarrow> ev_to x = t \<Longrightarrow>
     \<exists>e. c\<lparr>b_log := l @ [x]\<rparr> = c\<lparr>b_log := l @ [e]\<rparr> \<and> ev_from e = f \<and> ev_to e = t"
  by blast

text \<open>
  C10. A message is delivered exactly when the recipient exists, the edge is permitted and its
  mailbox has room; then it is the last message of that mailbox and of no other. Refused or not,
  exactly one event is recorded, and nothing else of the broker changes.
\<close>

theorem deliver_mediated:
  "(snd (deliver H b f t body kind corr) = Inr () \<longleftrightarrow>
      topo_exists (b_topo b) t \<and> topo_allows (b_topo b) f t \<and>
      (\<exists>q. m_get (b_boxes b) t = Some q \<and> length q < mailbox)) \<and>
   (\<exists>e. fst (deliver H b f t body kind corr) =
      (if snd (deliver H b f t body kind corr) = Inr ()
       then b\<lparr>b_boxes := m_put t (the (m_get (b_boxes b) t) @ [\<lparr>m_from = f, m_body = body, m_corr = corr\<rparr>]) (b_boxes b),
              b_log := b_log b @ [e]\<rparr>
       else b\<lparr>b_log := b_log b @ [e]\<rparr>) \<and> ev_from e = f \<and> ev_to e = t)"
proof -
  consider "\<not> topo_exists (b_topo b) t" | "topo_exists (b_topo b) t" "\<not> topo_allows (b_topo b) f t"
    | "topo_exists (b_topo b) t" "topo_allows (b_topo b) f t" "m_get (b_boxes b) t = None"
    | q where "topo_exists (b_topo b) t" "topo_allows (b_topo b) f t" "m_get (b_boxes b) t = Some q"
    by blast
  then show ?thesis
    by cases (auto simp: deliver_def Let_def record_event_def intro!: one_event describe_ends)
qed

text \<open>
  On any reachable team a spawn by an agent with room in its budget and a permitted image
  always succeeds, under a name no member has ever had (the counter stays in the range of an
  \<open>int64\<close>): the refusal for a taken name is never reached.
\<close>

theorem spawn_succeeds:
  assumes run: "team_run H D es b" and bud: "m_get (b_budgets b) s = Some bud"
    and room: "int (length (live_workers b s)) < bud_max bud" and img: "img \<in> set (bud_images bud)"
    and n: "in_int64 (b_seq b + 1)"
  shows "\<exists>b'. broker_spawn b s img =
      (b', Inr \<lparr>sr_name = mint s (b_seq b + 1), sr_spawner = s, sr_image = (if img = [] then hd (bud_images bud) else img),
                sr_life = bud_life bud\<rparr>) \<and> mint s (b_seq b + 1) \<notin> set (agents (b_topo b))"
proof -
  have ok: "broker_ok D b" using team_run_inv[OF run] by (simp add: broker_inv_def)
  then have "s \<in> set D" using bud by (auto simp: broker_ok_def workers_ok_def)
  then have fresh: "mint s (b_seq b + 1) \<notin> set (agents (b_topo b))"
    by (rule minted_is_fresh[OF ok _ n])
  moreover have "m_get (b_boxes b) (mint s (b_seq b + 1)) = None"
    using ok fresh unfolding broker_ok_def members_ok_def by blast
  ultimately show ?thesis
    using bud room img by (cases "bud_images bud") (auto simp: broker_spawn_def Let_def topo_exists_def)
qed

theorem spawn_succeeds_witness:
  "\<exists>b'. broker_spawn demo_broker ''lead'' ''base'' =
     (b', Inr \<lparr>sr_name = ''lead-spawn-1'', sr_spawner = ''lead'', sr_image = ''base'', sr_life = 60\<rparr>)"
proof -
  have run: "team_run (\<lambda>x. x) demo_agents demo_edges demo_broker" using demo_run[of "\<lambda>x. x" "[]"] by simp
  have bud: "m_get (b_budgets demo_broker) ''lead'' = Some \<lparr>bud_max = 1, bud_images = [''base''], bud_life = 60\<rparr>"
    and live: "live_workers demo_broker ''lead'' = []" and seq: "b_seq demo_broker = 0" by code_simp+
  have name: "mint ''lead'' 1 = ''lead-spawn-1''" by code_simp
  show ?thesis
    using spawn_succeeds[OF run bud, of "''base''"] by (simp add: live seq name in_int64_def)
qed

lemma spawn_result:
  assumes "broker_spawn b s img = (b1, Inr sr)"
  shows "sr_name sr = mint s (b_seq b + 1) \<and> \<not> topo_exists (b_topo b) (sr_name sr) \<and> m_get (b_budgets b) s \<noteq> None \<and>
    b1 = record_event (spawn_event s (sr_name sr) ''spawn'' OutcomeDelivered [])
      (b\<lparr>b_seq := b_seq b + 1, b_spawned := m_put s (live_workers b s @ [sr_name sr]) (b_spawned b),
         b_boxes := m_put (sr_name sr) [] (b_boxes b), b_topo := topo_attach (sr_name sr) s (b_topo b)\<rparr>)"
  using assms by (auto simp: broker_spawn_def Let_def split: option.splits if_splits)

text \<open>
  A spawned worker can talk to its spawner and to nobody else, and despawning it gives back
  exactly the team there was: the same members, permitted pairs, mailboxes and live workers.
\<close>

theorem spawn_despawn_restores:
  assumes run: "team_run H D es b" and sp: "broker_spawn b s img = (b1, Inr sr)"
  shows "{g. topo_allows (b_topo b1) (sr_name sr) g} = {s} \<and>
    (let b2 = broker_despawn b1 (sr_name sr) in
       topo_allows (b_topo b2) = topo_allows (b_topo b) \<and> topo_exists (b_topo b2) = topo_exists (b_topo b) \<and>
       m_get (b_boxes b2) = m_get (b_boxes b) \<and> live_workers b2 = live_workers b)"
proof -
  let ?n = "sr_name sr"
  have ok: "broker_ok D b" using team_run_inv[OF run] by (simp add: broker_inv_def)
  then have w: "workers_ok D b" and m: "members_ok D b" and t: "topo_ok (b_topo b)"
    by (auto simp: broker_ok_def members_ok_def)
  have new: "\<not> topo_exists (b_topo b) ?n" and bud: "m_get (b_budgets b) s \<noteq> None"
    and b1: "b1 = record_event (spawn_event s ?n ''spawn'' OutcomeDelivered [])
      (b\<lparr>b_seq := b_seq b + 1, b_spawned := m_put s (live_workers b s @ [?n]) (b_spawned b),
         b_boxes := m_put ?n [] (b_boxes b), b_topo := topo_attach ?n s (b_topo b)\<rparr>)"
    using spawn_result[OF sp] by blast+
  have s: "topo_exists (b_topo b) s"
    using w m bud by (auto simp: workers_ok_def members_ok_def topo_exists_def)
  have gone: "?n \<notin> spawned_names b" "m_get (b_boxes b) ?n = None"
    using new m unfolding members_ok_def topo_exists_def by blast+
  have out: "?n \<notin> set (live_workers b who)" for who using gone by (auto simp: spawned_names_def)
  have live1: "live_workers b1 who = (if who = s then live_workers b s @ [?n] else live_workers b who)" for who
    by (simp add: b1 record_event_def live_workers_def)
  have ok1: "broker_ok D b1" using spawn_ok[OF ok, of s img] sp by simp
  then have w1: "workers_ok D b1" and d: "declared_ok D" by (simp_all add: broker_ok_def)
  have "?n \<in> set (live_workers b1 s)" using live1[of s] by simp
  then have "?n \<in> spawned_names b1" unfolding spawned_names_def by blast
  then have "owner_of b1 ?n \<noteq> []" by (rule owner_of_spawned(2)[OF w1 d])
  then have b2: "broker_despawn b1 ?n = record_event (spawn_event (owner_of b1 ?n) ?n ''despawn'' OutcomeDelivered [])
      (b1\<lparr>b_spawned := map (\<lambda>(who, l). (who, remove1 ?n l)) (b_spawned b1),
          b_boxes := m_del ?n (b_boxes b1), b_topo := topo_detach ?n (b_topo b1)\<rparr>)"
    by (simp add: broker_despawn_def Let_def)
  have "live_workers (broker_despawn b1 ?n) who = remove1 ?n (live_workers b1 who)" for who
    unfolding b2 record_event_def by (simp add: live_workers_def split: option.split)
  then have "live_workers (broker_despawn b1 ?n) = live_workers b"
    using out by (simp add: fun_eq_iff live1 remove1_append remove1_idem)
  moreover have "m_get (b_boxes (broker_despawn b1 ?n)) = m_get (b_boxes b)"
    using gone unfolding b2 record_event_def by (simp add: b1 record_event_def fun_eq_iff)
  moreover have "b_topo (broker_despawn b1 ?n) = topo_detach ?n (topo_attach ?n s (b_topo b))"
    and "b_topo b1 = topo_attach ?n s (b_topo b)" unfolding b2 by (simp_all add: b1 record_event_def)
  ultimately show ?thesis
    using tp.attach_only_spawner[OF t new] tp.detach_attach[OF t new s] by (simp add: fun_eq_iff Let_def)
qed

theorem spawn_despawn_restores_witness:
  "\<exists>b1 sr. broker_spawn demo_broker ''lead'' [] = (b1, Inr sr) \<and>
     live_workers (broker_despawn b1 (sr_name sr)) = live_workers demo_broker"
proof -
  have run: "team_run (\<lambda>x. x) demo_agents demo_edges demo_broker" using demo_run[of "\<lambda>x. x" "[]"] by simp
  have "snd (broker_spawn demo_broker ''lead'' []) =
      Inr \<lparr>sr_name = ''lead-spawn-1'', sr_spawner = ''lead'', sr_image = ''base'', sr_life = 60\<rparr>" by code_simp
  then obtain b1 sr where "broker_spawn demo_broker ''lead'' [] = (b1, Inr sr)" by (metis prod.collapse)
  with spawn_despawn_restores[OF run this] show ?thesis by (auto simp: Let_def)
qed

section \<open>Through the guest's requests\<close>

definition send_request :: "string \<Rightarrow> bytes \<Rightarrow> team_request" where
  "send_request t body = \<lparr>rq_op = ''send'', rq_to = t, rq_body = b64_encode body, rq_correlate = [], rq_key = [],
     rq_image = [], rq_timeout = 0\<rparr>"

definition recv_request :: "64 word \<Rightarrow> team_request" where
  "recv_request ms = \<lparr>rq_op = ''recv'', rq_to = [], rq_body = [], rq_correlate = [], rq_key = [],
     rq_image = [], rq_timeout = ms\<rparr>"

text \<open>
  What a guest sends over a permitted edge is what the other guest receives: sender and
  body come through the mailbox and both base64 encodings unchanged, for every body.
\<close>

theorem send_then_recv:
  assumes run: "team_run H D es b" and edge: "topo_allows (b_topo b) f t" and idle: "m_get (b_boxes b) t = Some []"
    and b1: "serve H sp tag b f (send_request t body) = (b1, r1)"
  shows "r1 = Response ok_response \<and>
    snd (serve H sp' tag' b1 t (recv_request ms)) = Response (ok_response\<lparr>rs_from := f, rs_body := b64_encode body\<rparr>) \<and>
    b64_decode (b64_encode body) = Some body"
proof -
  have "topo_ok (b_topo b)"
    using team_run_inv[OF run] by (simp add: broker_inv_def broker_ok_def members_ok_def)
  then have to: "topo_exists (b_topo b) t" using tp.allows_exists edge by blast
  have "b64_decode [] = Some []" by code_simp
  with b1 edge idle to show ?thesis
    by (auto simp: serve_def send_request_def recv_request_def b64_decode_encode serve_unit_def broker_send_def
        deliver_def Let_def record_event_def mailbox_def serve_recv_def broker_recv_def ok_response_def)
qed

theorem send_then_recv_witness:
  "fst (b64_encode ''go'', ()) = ''Z28='' \<and>
   snd (serve (\<lambda>x. x) None None (fst (serve (\<lambda>x. x) None None demo_broker ''lead'' (send_request ''w-1'' ''go'')))
          ''w-1'' (recv_request 5)) = Response (ok_response\<lparr>rs_from := ''lead'', rs_body := ''Z28=''\<rparr>)"
proof -
  have run: "team_run (\<lambda>x. x) demo_agents demo_edges demo_broker" using demo_run[of "\<lambda>x. x" "[]"] by simp
  have "topo_allows (b_topo demo_broker) ''lead'' ''w-1''" and "m_get (b_boxes demo_broker) ''w-1'' = Some []"
    and enc: "b64_encode ''go'' = ''Z28=''" by code_simp+
  then show ?thesis using send_then_recv[OF run _ _ prod.collapse[symmetric], of "''lead''" "''w-1''"] by (simp add: enc)
qed

text \<open>
  C36. However the calls interleave, at most one answer or timeout is decided for a question, and
  the record agrees with what the asker was told. An asker who got a body: the one event decided
  about that question is the delivery of that body (its sender, recipient, size, digest and, where
  payloads are kept, the text) from the agent asked to the asker. An asker told of a timeout: the
  one event is the timeout, so no reply to that question is ever recorded as delivered. Any other
  error is that the question itself could not be delivered (no such agent, no edge, mailbox
  unreachable). The answers and timeouts in the record, with those a call has decided on and not
  yet written, are exactly the events decided for the questions, each once.
\<close>

theorem one_outcome_per_question:
  assumes "ask_reachable H b0 s"
  shows "length (verdict s tag) \<le> 1 \<and>
    (\<forall>f t r. as_phase s tag = Some (Closed f t r) \<longrightarrow>
      (\<exists>x. r = Inr x \<and> verdict s tag = [reply_event H (b_capture b0) t f x]) \<or>
      (\<exists>d. r = Inl (AskTimeout t d) \<and> verdict s tag = [timeout_event f t]) \<or>
      (\<exists>e. r = Inl e \<and> undelivered e)) \<and>
    mset (filter settles (logged b0 (as_broker s) @ as_due s)) =
      (\<Sum>tag | verdict s tag \<noteq> []. mset (verdict s tag))"
proof (intro conjI allI impI)
  have ok: "question_ok H (b_capture b0) s tag" by (rule ask_reachable_question_ok[OF assms])
  show "length (verdict s tag) \<le> 1" by (rule verdict_one[OF ok])
  show "(\<exists>x. r = Inr x \<and> verdict s tag = [reply_event H (b_capture b0) t f x]) \<or>
      (\<exists>d. r = Inl (AskTimeout t d) \<and> verdict s tag = [timeout_event f t]) \<or>
      (\<exists>e. r = Inl e \<and> undelivered e)" if "as_phase s tag = Some (Closed f t r)" for f t r
    using ok that by (auto simp: question_ok_def closed_ok_def)
  show "mset (filter settles (logged b0 (as_broker s) @ as_due s)) = (\<Sum>tag | verdict s tag \<noteq> []. mset (verdict s tag))"
    using ask_reachable_books[OF assms] by (simp only: books_ok_def settled_events_def)
qed

theorem one_outcome_per_question_witness:
  "\<exists>s :: ask_sys. as_phase s ''q1'' = Some (Closed ''lead'' ''w-1'' (Inr ''yes'')) \<and>
     verdict s ''q1'' = [reply_event (\<lambda>x. x) (b_capture demo_broker) ''w-1'' ''lead'' ''yes'']"
proof -
  let ?H = "\<lambda>x. x :: bytes" and ?b = demo_broker
  let ?s0 = "\<lparr>as_broker = ?b, as_phase = (\<lambda>_. None), as_due = [], as_calls = (\<lambda>_. [])\<rparr>"
  have "b_pending ?b = []" by code_simp
  then have r0: "ask_reachable ?H ?b ?s0" by (rule reach_start)
  let ?s1 = "set_phase ''q1'' (Opened ''lead'' ''w-1'' ''ok'' 9) (act_on ''q1'' (ask_open ''q1'' ''lead'' ''w-1'' ?b) ?s0)"
  have r1: "ask_reachable ?H ?b ?s1" using r0 step_open[of ?s0 "''q1''"] by (auto intro: reach_step)
  have "snd (ask_deliver ?H (as_broker ?s1) ''q1'' ''lead'' ''w-1'' ''ok'') = Inr ()" by code_simp
  then obtain b2 where b2: "ask_deliver ?H (as_broker ?s1) ''q1'' ''lead'' ''w-1'' ''ok'' = (b2, Inr ())"
    by (metis prod.collapse)
  let ?s2 = "set_phase ''q1'' (Waiting ''lead'' ''w-1'' 9) (act_on ''q1'' b2 ?s1)"
  have r2: "ask_reachable ?H ?b ?s2" by (rule reach_step[OF r1 step_asked[OF _ b2]]) simp
  have p2: "pend (as_broker ?s2) ''q1'' = Some \<lparr>a_from = ''lead'', a_to = ''w-1''\<rparr>" and c2: "chan (as_broker ?s2) ''q1'' = Some []"
    using ask_deliver_effect[OF b2, of "''q1''"] by auto
  obtain b3 where b3: "broker_reply ?H (as_broker ?s2) ''w-1'' ''q1'' ''yes'' = (b3, Inr ())" and c3: "chan b3 ''q1'' = Some [''yes'']"
    using p2 c2 by (simp add: broker_reply_def Let_def pend_def chan_def ask_close_def record_event_def)
  let ?s3 = "act_on ''q1'' b3 ?s2"
  have r3: "ask_reachable ?H ?b ?s3" by (rule reach_step[OF r2 step_reply[OF b3]])
  obtain b4 where b4: "ask_answer (as_broker ?s3) ''q1'' = Some (b4, ''yes'')"
    using c3 by (simp add: ask_answer_def chan_def)
  let ?s4 = "set_phase ''q1'' (Closed ''lead'' ''w-1'' (Inr ''yes'')) (act_on ''q1'' b4 ?s3)"
  have r4: "ask_reachable ?H ?b ?s4" by (rule reach_step[OF r3 step_answer[OF _ b4]]) simp
  have c4: "as_phase ?s4 ''q1'' = Some (Closed ''lead'' ''w-1'' (Inr ''yes''))" by simp
  have "verdict ?s4 ''q1'' = [reply_event ?H (b_capture ?b) ''w-1'' ''lead'' ''yes'']"
    using one_outcome_per_question[OF r4, of "''q1''"] c4 by (auto simp: undelivered_def)
  then show ?thesis using c4 by blast
qed

section \<open>Calls in critical sections\<close>


text \<open>
  C37. However the critical sections of any calls interleave: a message in a mailbox, or in one
  that was taken out of the map while a call held it, came over an edge of the declared topology or
  between an agent and a worker minted for it, no mailbox holds more than 64, and the delivery of every message in one is
  recorded or about to be. Between declared agents the edges never change, a name never gets a
  second mailbox, mailboxes belong to declared agents and reserved or live workers, and nobody has
  more workers than its budget.
\<close>

theorem interleaved_mediation:
  assumes "newTopology D es = Inr t" and "\<forall>x. st = Some x \<longrightarrow> store_ok x" and "fst ` set gs \<subseteq> set D"
    and "team_reachable H (team_up t capture st gs) s"
  shows "(\<forall>n q m. channel (ts_shared s) n = Some q \<longrightarrow> length q \<le> mailbox \<and>
      (m \<in> set q \<longrightarrow>
         (topo_allows t (m_from m) n \<or> (m_from m \<in> set D \<and> (\<exists>k \<ge> 1. n = mint (m_from m) k)) \<or>
          (n \<in> set D \<and> (\<exists>k \<ge> 1. m_from m = mint n k))) \<and>
         (\<exists>e \<in> set (b_log (sh_broker (ts_shared s)) @ ts_due s). delivered_event H n m e))) \<and>
    (\<forall>f \<in> set D. \<forall>g \<in> set D. topo_allows (b_topo (sh_broker (ts_shared s))) f g = topo_allows t f g) \<and>
    (\<forall>n. m_get (sh_gone (ts_shared s)) n \<noteq> None \<longrightarrow> m_get (b_boxes (sh_broker (ts_shared s))) n = None) \<and>
    dom (m_get (b_boxes (sh_broker (ts_shared s)))) = set D \<union> spawned_names (sh_broker (ts_shared s)) \<and>
    (\<forall>who bud. live_workers (sh_broker (ts_shared s)) who \<noteq> [] \<longrightarrow> who \<in> set D \<and>
       (m_get (b_budgets (sh_broker (ts_shared s))) who = Some bud \<longrightarrow>
          int (length (live_workers (sh_broker (ts_shared s)) who)) \<le> bud_max bud))"
proof (intro conjI)
  let ?s = "ts_shared s" and ?b = "sh_broker (ts_shared s)"
  have ok: "names_ok D ?s" "edges_ok t D ?b" "mail_ok H t D ?s (b_log ?b @ ts_due s)"
    using team_reachable_ok[OF assms(4,1) refl assms(2,3)] by (simp_all add: team_ok_def shared_ok_def)
  have w: "workers_ok D ?b" using ok(1) by (simp add: names_ok_def)
  have edge: "topo_allows t f n \<or> (f \<in> set D \<and> (\<exists>k \<ge> 1. n = mint f k)) \<or> (n \<in> set D \<and> (\<exists>k \<ge> 1. f = mint n k))"
    if "run_edge t D hi f n" for hi f n
    using that unfolding run_edge_def minted_by_def by blast
  show "\<forall>n q m. channel ?s n = Some q \<longrightarrow> length q \<le> mailbox \<and>
      (m \<in> set q \<longrightarrow>
         (topo_allows t (m_from m) n \<or> (m_from m \<in> set D \<and> (\<exists>k \<ge> 1. n = mint (m_from m) k)) \<or>
          (n \<in> set D \<and> (\<exists>k \<ge> 1. m_from m = mint n k))) \<and>
         (\<exists>e \<in> set (b_log ?b @ ts_due s). delivered_event H n m e))"
    using ok(3) edge unfolding mail_ok_def by blast
  show "\<forall>f \<in> set D. \<forall>g \<in> set D. topo_allows (b_topo ?b) f g = topo_allows t f g"
    using ok(2) unfolding edges_ok_def by blast
  show "\<forall>n. m_get (sh_gone ?s) n \<noteq> None \<longrightarrow> m_get (b_boxes ?b) n = None"
    using ok(1) unfolding names_ok_def gone_ok_def by blast
  show "dom (m_get (b_boxes ?b)) = set D \<union> spawned_names ?b" using ok(1) by (simp add: names_ok_def)
  have "who \<in> set D" if "live_workers ?b who \<noteq> []" for who
    using that workers_ok_declared[OF w, of "hd (live_workers ?b who)" who] by simp
  then show "\<forall>who bud. live_workers ?b who \<noteq> [] \<longrightarrow> who \<in> set D \<and>
       (m_get (b_budgets ?b) who = Some bud \<longrightarrow> int (length (live_workers ?b who)) \<le> bud_max bud)"
    using workers_ok_budget[OF w] by blast
qed

text \<open>A race: a message is sent into the mailbox of a worker that is despawned after its edge was checked.\<close>

definition demo_race :: team_sys where
  "demo_race =
     fold (run_next (\<lambda>x. x))
       [(0, Some (SpawnReserve ''lead'' [])), (0, None), (0, None),
        (1, Some (DeliverExists \<lparr>lt_from = ''lead'', lt_to = ''lead-spawn-1'', lt_body = ''go'', lt_kind = ''send'', lt_corr = []\<rparr>)),
        (1, None), (1, None), (1, None),
        (2, Some (DespawnTake ''lead-spawn-1'')), (2, None), (2, None), (1, None)]
       \<lparr>ts_shared = \<lparr>sh_broker = demo_broker, sh_gone = []\<rparr>, ts_calls = (\<lambda>_. None), ts_due = []\<rparr>"

theorem interleaved_mediation_witness:
  "m_get (b_boxes (sh_broker (ts_shared demo_race))) ''lead-spawn-1'' = None \<and>
   (\<exists>e \<in> set (b_log (sh_broker (ts_shared demo_race)) @ ts_due demo_race).
      delivered_event (\<lambda>x. x) ''lead-spawn-1'' \<lparr>m_from = ''lead'', m_body = ''go'', m_corr = []\<rparr> e)"
proof -
  have r: "team_reachable (\<lambda>x. x) (team_up demo_topo False None [(''lead'', \<lparr>bud_max = 1, bud_images = [''base''], bud_life = 60\<rparr>)]) demo_race"
    unfolding demo_race_def demo_broker_def by (intro schedule_reachable team_start)
  have gone: "channel (ts_shared demo_race) ''lead-spawn-1'' = Some [\<lparr>m_from = ''lead'', m_body = ''go'', m_corr = []\<rparr>]"
    and "m_get (b_boxes (sh_broker (ts_shared demo_race))) ''lead-spawn-1'' = None"
    by code_simp+
  moreover have "fst ` set [(''lead'', \<lparr>bud_max = 1, bud_images = [''base''], bud_life = 60\<rparr> :: budget)] \<subseteq> set demo_agents"
    by (simp add: demo_agents_def)
  ultimately show ?thesis using interleaved_mediation[OF demo_new _ _ r, THEN conjunct1] by fastforce
qed

section \<open>How long a call waits\<close>

text \<open>
  Whatever the guest asks for, a call is held open for a positive time of at most fifteen
  minutes; a request in that range is honoured to the millisecond. The product is taken on 64
  bits, so a larger request can come out as any wait in the range, down to 64 nanoseconds.
\<close>

theorem waitFor_bounded:
  "0 < sint (waitFor ms) \<and> sint (waitFor ms) \<le> 900000000000 \<and>
   (1 \<le> uint ms \<and> uint ms \<le> 900000 \<longrightarrow> sint (waitFor ms) = uint ms * 1000000) \<and>
   (\<exists>big. 2 ^ 40 \<le> uint big \<and> uint big < 2 ^ 63 \<and> sint (waitFor big) = 64)"
proof -
  have "sint (waitFor ms) = uint ms * 1000000" if "1 \<le> uint ms" "uint ms \<le> 900000"
  proof -
    have "uint (ms * 1000000) = uint ms * uint (1000000 :: 64 word)"
      using that uint_mult_lem[of ms 1000000] by simp
    then have "sint (ms * 1000000) = uint ms * 1000000"
      using that by (simp add: sint_uint signed_take_bit_int_eq_self)
    then show ?thesis using that by (simp add: waitFor_def Let_def MaxWait_def)
  qed
  moreover have "2 ^ 40 \<le> uint (76480200929599801 :: 64 word) \<and> uint (76480200929599801 :: 64 word) < 2 ^ 63 \<and>
      sint (waitFor 76480200929599801) = 64"
    by (simp add: waitFor_def Let_def MaxWait_def)
  moreover have "0 < sint (waitFor ms) \<and> sint (waitFor ms) \<le> 900000000000"
    by (simp add: waitFor_def Let_def MaxWait_def)
  ultimately show ?thesis by blast
qed

theorem waitFor_bounded_witness:
  "sint (waitFor 1500) = 1500000000"
  using waitFor_bounded[of 1500] by simp

end
