(* ===== verification/Graph.thy ===== *)
theory Graph
  imports Go_Map "HOL-Library.Product_Lexorder" "HOL-Library.Multiset"
begin

text \<open>
  \<^verbatim>\<open>internal/graph/graph.go\<close> and \<^verbatim>\<open>sort.go\<close>: the input of the
  layout and of the reach view, and its validated, deduplicated and sorted form. Identifiers are
  strings. \<open>slices.SortFunc\<close> is not stable; the lists it is used on have no two elements that
  compare equal once the duplicates are refused or dropped, so any sorting algorithm gives the
  list modelled here.
\<close>

section \<open>Data\<close>

text \<open>The kinds are the three constants and, as \<open>uint8\<close> allows, anything else.\<close>

datatype resourceKind = Domain | StoreKey | Secret | OtherKind nat

fun kind_string :: "resourceKind \<Rightarrow> string" where
  "kind_string Domain = ''domain''"
| "kind_string StoreKey = ''store_key''"
| "kind_string Secret = ''secret''"
| "kind_string (OtherKind _) = ''resource''"

record gagent =
  ga_ID :: string
  ga_Group :: string

record gresource =
  gr_ID :: string
  gr_Kind :: resourceKind

datatype gedge = GEdge (ge_from: string) (ge_to: string)

datatype gaccess = GAccess (ac_agent: string) (ac_res: string) (ac_write: bool)

record ginput =
  in_agents :: "gagent list"
  in_edges :: "gedge list"
  in_resources :: "gresource list"
  in_access :: "gaccess list"

text \<open>The orders of \<open>sortEdges\<close> and \<open>sortAccess\<close>.\<close>

instantiation gedge :: linorder
begin

definition less_eq_gedge :: "gedge \<Rightarrow> gedge \<Rightarrow> bool" where
  "less_eq_gedge x y \<longleftrightarrow> (ge_from x, ge_to x) \<le> (ge_from y, ge_to y)"

definition less_gedge :: "gedge \<Rightarrow> gedge \<Rightarrow> bool" where
  "less_gedge x y \<longleftrightarrow> (ge_from x, ge_to x) < (ge_from y, ge_to y)"

instance
proof
  fix x y z :: gedge
  show "x < y \<longleftrightarrow> x \<le> y \<and> \<not> y \<le> x" "x \<le> x" "x \<le> y \<or> y \<le> x"
    by (auto simp: less_eq_gedge_def less_gedge_def)
  show "x \<le> y \<Longrightarrow> y \<le> z \<Longrightarrow> x \<le> z" unfolding less_eq_gedge_def by (rule order_trans)
  show "x \<le> y \<Longrightarrow> y \<le> x \<Longrightarrow> x = y"
    by (cases x; cases y) (auto simp: less_eq_gedge_def)
qed

end

instantiation gaccess :: linorder
begin

definition less_eq_gaccess :: "gaccess \<Rightarrow> gaccess \<Rightarrow> bool" where
  "less_eq_gaccess x y \<longleftrightarrow> (ac_agent x, ac_res x, ac_write x) \<le> (ac_agent y, ac_res y, ac_write y)"

definition less_gaccess :: "gaccess \<Rightarrow> gaccess \<Rightarrow> bool" where
  "less_gaccess x y \<longleftrightarrow> (ac_agent x, ac_res x, ac_write x) < (ac_agent y, ac_res y, ac_write y)"

instance
proof
  fix x y z :: gaccess
  show "x < y \<longleftrightarrow> x \<le> y \<and> \<not> y \<le> x" "x \<le> x" "x \<le> y \<or> y \<le> x"
    unfolding less_eq_gaccess_def less_gaccess_def by (simp_all only: less_le_not_le order_refl linear)
  show "x \<le> y \<Longrightarrow> y \<le> z \<Longrightarrow> x \<le> z" unfolding less_eq_gaccess_def by (rule order_trans)
  show "x \<le> y \<Longrightarrow> y \<le> x \<Longrightarrow> x = y"
    unfolding less_eq_gaccess_def by (drule (1) antisym) (simp add: gaccess.expand)
qed

end

definition sortAgents :: "gagent list \<Rightarrow> gagent list" where
  "sortAgents = sort_key ga_ID"

definition sortResources :: "gresource list \<Rightarrow> gresource list" where
  "sortResources = sort_key gr_ID"

definition sortEdges :: "gedge list \<Rightarrow> gedge list" where
  "sortEdges = sort"

definition sortAccess :: "gaccess list \<Rightarrow> gaccess list" where
  "sortAccess = sort"

section \<open>Normalization\<close>

datatype graph_error =
    EmptyAgentID
  | DuplicateAgentID string
  | EmptyResourceID
  | DuplicateResourceID string
  | EdgeFromUnknown string
  | EdgeToUnknown string
  | AccessByUnknown string
  | AccessToUnknown string

record normalized =
  n_agents :: "gagent list"
  n_edges :: "gedge list"
  n_resources :: "gresource list"
  n_access :: "gaccess list"
  n_agentIdx :: "(string, nat) gmap"
  n_resIdx :: "(string, gresource) gmap"

fun index_agents :: "nat \<Rightarrow> gagent list \<Rightarrow> (string, nat) gmap \<Rightarrow> graph_error + (string, nat) gmap" where
  "index_agents i [] m = Inr m"
| "index_agents i (a # as) m =
     (if ga_ID a = [] then Inl EmptyAgentID
      else if m_get m (ga_ID a) \<noteq> None then Inl (DuplicateAgentID (ga_ID a))
      else index_agents (Suc i) as (m_put (ga_ID a) i m))"

fun index_resources :: "gresource list \<Rightarrow> (string, gresource) gmap \<Rightarrow> graph_error + (string, gresource) gmap" where
  "index_resources [] m = Inr m"
| "index_resources (r # rs) m =
     (if gr_ID r = [] then Inl EmptyResourceID
      else if m_get m (gr_ID r) \<noteq> None then Inl (DuplicateResourceID (gr_ID r))
      else index_resources rs (m_put (gr_ID r) r m))"

text \<open>The maps \<open>edgeSeen\<close> and \<open>accessSeen\<close> hold exactly what has been collected.\<close>

fun collect_edges :: "(string, nat) gmap \<Rightarrow> gedge list \<Rightarrow> gedge list \<Rightarrow> graph_error + gedge list" where
  "collect_edges idx [] acc = Inr acc"
| "collect_edges idx (e # es) acc =
     (if ge_from e = ge_to e then collect_edges idx es acc
      else if m_get idx (ge_from e) = None then Inl (EdgeFromUnknown (ge_from e))
      else if m_get idx (ge_to e) = None then Inl (EdgeToUnknown (ge_to e))
      else if e \<in> set acc then collect_edges idx es acc
      else collect_edges idx es (acc @ [e]))"

fun collect_access ::
  "(string, nat) gmap \<Rightarrow> (string, gresource) gmap \<Rightarrow> gaccess list \<Rightarrow> gaccess list \<Rightarrow> graph_error + gaccess list" where
  "collect_access idx ridx [] acc = Inr acc"
| "collect_access idx ridx (a # as) acc =
     (if m_get idx (ac_agent a) = None then Inl (AccessByUnknown (ac_agent a))
      else if m_get ridx (ac_res a) = None then Inl (AccessToUnknown (ac_res a))
      else if a \<in> set acc then collect_access idx ridx as acc
      else collect_access idx ridx as (acc @ [a]))"

definition normalize :: "ginput \<Rightarrow> graph_error + normalized" where
  "normalize inp =
     (let ags = sortAgents (in_agents inp); ress = sortResources (in_resources inp) in
      case index_agents 0 ags [] of
        Inl e \<Rightarrow> Inl e
      | Inr idx \<Rightarrow>
          (case index_resources ress [] of
             Inl e \<Rightarrow> Inl e
           | Inr ridx \<Rightarrow>
               (case collect_edges idx (in_edges inp) [] of
                  Inl e \<Rightarrow> Inl e
                | Inr es \<Rightarrow>
                    (case collect_access idx ridx (in_access inp) [] of
                       Inl e \<Rightarrow> Inl e
                     | Inr acc \<Rightarrow>
                         Inr \<lparr>n_agents = ags, n_edges = sortEdges es, n_resources = ress,
                              n_access = sortAccess acc, n_agentIdx = idx, n_resIdx = ridx\<rparr>))))"

section \<open>What normalization accepts and gives\<close>

lemma index_agents_ok:
  "(\<exists>idx. index_agents i as m = Inr idx) \<longleftrightarrow>
     (\<forall>a \<in> set as. ga_ID a \<noteq> [] \<and> m_get m (ga_ID a) = None) \<and> distinct (map ga_ID as)"
proof (induction i as m rule: index_agents.induct)
  case (2 i a as m)
  show ?case
  proof (cases "ga_ID a \<noteq> [] \<and> m_get m (ga_ID a) = None")
    case True
    then have "(\<exists>idx. index_agents i (a # as) m = Inr idx) \<longleftrightarrow>
        (\<forall>b \<in> set as. ga_ID b \<noteq> [] \<and> m_get (m_put (ga_ID a) i m) (ga_ID b) = None) \<and> distinct (map ga_ID as)"
      using "2.IH" by simp
    with True show ?thesis by (auto split: if_splits) (metis image_eqI)
  qed auto
qed simp

lemma index_agents_get:
  "index_agents i as m = Inr idx \<Longrightarrow>
     (\<forall>k. k \<notin> ga_ID ` set as \<longrightarrow> m_get idx k = m_get m k) \<and>
     (\<forall>j < length as. m_get idx (ga_ID (as ! j)) = Some (i + j))"
proof (induction i as m rule: index_agents.induct)
  case (2 i a as m)
  then have r: "index_agents (Suc i) as (m_put (ga_ID a) i m) = Inr idx" and ne: "ga_ID a \<noteq> []" and new: "m_get m (ga_ID a) = None"
    by (auto split: if_splits)
  note IH = "2.IH"[OF ne]
  have a: "\<And>k. k \<notin> ga_ID ` set as \<Longrightarrow> m_get idx k = (if k = ga_ID a then Some i else m_get m k)"
    and n: "\<And>j. j < length as \<Longrightarrow> m_get idx (ga_ID (as ! j)) = Some (Suc i + j)"
    using IH new r by auto
  have "ga_ID a \<notin> ga_ID ` set as"
    using index_agents_ok[of "Suc i" as "m_put (ga_ID a) i m"] r by (auto split: if_splits)
  with a n show ?case by (auto simp: less_Suc_eq_0_disj)
qed simp

lemma index_resources_ok:
  "(\<exists>ridx. index_resources rs m = Inr ridx) \<longleftrightarrow>
     (\<forall>r \<in> set rs. gr_ID r \<noteq> [] \<and> m_get m (gr_ID r) = None) \<and> distinct (map gr_ID rs)"
proof (induction rs m rule: index_resources.induct)
  case (2 r rs m)
  show ?case
  proof (cases "gr_ID r \<noteq> [] \<and> m_get m (gr_ID r) = None")
    case True
    then have "(\<exists>ridx. index_resources (r # rs) m = Inr ridx) \<longleftrightarrow>
        (\<forall>b \<in> set rs. gr_ID b \<noteq> [] \<and> m_get (m_put (gr_ID r) r m) (gr_ID b) = None) \<and> distinct (map gr_ID rs)"
      using "2.IH" by simp
    with True show ?thesis by (auto split: if_splits) (metis image_eqI)
  qed auto
qed simp

lemma index_resources_get:
  "index_resources rs m = Inr ridx \<Longrightarrow>
     (\<forall>k. k \<notin> gr_ID ` set rs \<longrightarrow> m_get ridx k = m_get m k) \<and> (\<forall>r \<in> set rs. m_get ridx (gr_ID r) = Some r)"
proof (induction rs m rule: index_resources.induct)
  case (2 r rs m)
  then have e: "index_resources rs (m_put (gr_ID r) r m) = Inr ridx" and ne: "gr_ID r \<noteq> []" and new: "m_get m (gr_ID r) = None"
    by (auto split: if_splits)
  have "gr_ID r \<notin> gr_ID ` set rs"
    using index_resources_ok[of rs "m_put (gr_ID r) r m"] e by (auto split: if_splits)
  with "2.IH"[OF ne] new e show ?case by auto
qed simp

text \<open>An edge is kept unless it is a self-loop, once; a reference to nobody refuses the input.\<close>

lemma collect_edges_Inr:
  "collect_edges idx es acc = Inr out \<Longrightarrow> distinct acc \<Longrightarrow>
     distinct out \<and> set out = set acc \<union> {e \<in> set es. ge_from e \<noteq> ge_to e}"
  by (induction idx es acc rule: collect_edges.induct) (auto split: if_splits)

lemma collect_edges_ok:
  "(\<exists>out. collect_edges idx es acc = Inr out) \<longleftrightarrow>
     (\<forall>e \<in> set es. ge_from e \<noteq> ge_to e \<longrightarrow> m_get idx (ge_from e) \<noteq> None \<and> m_get idx (ge_to e) \<noteq> None)"
  by (induction idx es acc rule: collect_edges.induct) (simp, auto)

lemma collect_access_Inr:
  "collect_access idx ridx as acc = Inr out \<Longrightarrow> distinct acc \<Longrightarrow>
     distinct out \<and> set out = set acc \<union> set as"
  by (induction idx ridx as acc rule: collect_access.induct) (auto split: if_splits)

lemma collect_access_ok:
  "(\<exists>out. collect_access idx ridx as acc = Inr out) \<longleftrightarrow>
     (\<forall>a \<in> set as. m_get idx (ac_agent a) \<noteq> None \<and> m_get ridx (ac_res a) \<noteq> None)"
  by (induction idx ridx as acc rule: collect_access.induct) simp_all

text \<open>The identifiers that exist and what is kept of the references.\<close>

definition agent_ids :: "ginput \<Rightarrow> string set" where
  "agent_ids inp = ga_ID ` set (in_agents inp)"

definition resource_ids :: "ginput \<Rightarrow> string set" where
  "resource_ids inp = gr_ID ` set (in_resources inp)"

definition input_ok :: "ginput \<Rightarrow> bool" where
  "input_ok inp \<longleftrightarrow>
     distinct (map ga_ID (in_agents inp)) \<and> [] \<notin> agent_ids inp \<and>
     distinct (map gr_ID (in_resources inp)) \<and> [] \<notin> resource_ids inp \<and>
     (\<forall>e \<in> set (in_edges inp). ge_from e \<noteq> ge_to e \<longrightarrow> ge_from e \<in> agent_ids inp \<and> ge_to e \<in> agent_ids inp) \<and>
     (\<forall>a \<in> set (in_access inp). ac_agent a \<in> agent_ids inp \<and> ac_res a \<in> resource_ids inp)"

lemma distinct_map_sort_key [simp]: "distinct (map f (sort_key g xs)) = distinct (map f xs)"
  by (metis distinct_map distinct_sort set_sort)

lemma idx_dom:
  "index_agents 0 as [] = Inr idx \<Longrightarrow> m_get idx k \<noteq> None \<longleftrightarrow> k \<in> ga_ID ` set as"
proof -
  assume e: "index_agents 0 as [] = Inr idx"
  note g = index_agents_get[OF e]
  show ?thesis
  proof (cases "k \<in> ga_ID ` set as")
    case True
    then obtain j where "j < length as" "k = ga_ID (as ! j)" by (auto simp: in_set_conv_nth)
    with g True show ?thesis by auto
  qed (use g in auto)
qed

lemma ridx_dom:
  "index_resources rs [] = Inr ridx \<Longrightarrow> m_get ridx k \<noteq> None \<longleftrightarrow> k \<in> gr_ID ` set rs"
  using index_resources_get[of rs "[]" ridx] by (cases "k \<in> gr_ID ` set rs") auto

lemma normalize_cases:
  "normalize inp = Inr n \<longleftrightarrow>
     (\<exists>idx ridx es acc. index_agents 0 (sortAgents (in_agents inp)) [] = Inr idx \<and>
        index_resources (sortResources (in_resources inp)) [] = Inr ridx \<and>
        collect_edges idx (in_edges inp) [] = Inr es \<and> collect_access idx ridx (in_access inp) [] = Inr acc \<and>
        n = \<lparr>n_agents = sortAgents (in_agents inp), n_edges = sortEdges es,
             n_resources = sortResources (in_resources inp), n_access = sortAccess acc,
             n_agentIdx = idx, n_resIdx = ridx\<rparr>)"
  by (auto simp: normalize_def Let_def split: sum.splits)

lemma indexes_ok:
  "(\<exists>idx. index_agents 0 (sortAgents as) [] = Inr idx) \<longleftrightarrow> distinct (map ga_ID as) \<and> [] \<notin> ga_ID ` set as"
  "(\<exists>ridx. index_resources (sortResources rs) [] = Inr ridx) \<longleftrightarrow> distinct (map gr_ID rs) \<and> [] \<notin> gr_ID ` set rs"
  unfolding index_agents_ok index_resources_ok sortAgents_def sortResources_def by (auto simp: image_iff)

lemma normalize_ok: "(\<exists>n. normalize inp = Inr n) \<longleftrightarrow> input_ok inp"
proof (cases "\<exists>idx ridx. index_agents 0 (sortAgents (in_agents inp)) [] = Inr idx \<and>
    index_resources (sortResources (in_resources inp)) [] = Inr ridx")
  case False
  then have "\<not> input_ok inp"
    using indexes_ok(1)[of "in_agents inp"] indexes_ok(2)[of "in_resources inp"]
    unfolding input_ok_def agent_ids_def resource_ids_def by blast
  with False show ?thesis unfolding normalize_cases by blast
next
  case True
  then obtain idx ridx where i: "index_agents 0 (sortAgents (in_agents inp)) [] = Inr idx"
    and r: "index_resources (sortResources (in_resources inp)) [] = Inr ridx" by blast
  have base: "distinct (map ga_ID (in_agents inp)) \<and> [] \<notin> agent_ids inp \<and>
      distinct (map gr_ID (in_resources inp)) \<and> [] \<notin> resource_ids inp"
    using indexes_ok(1)[of "in_agents inp"] indexes_ok(2)[of "in_resources inp"] i r
    unfolding agent_ids_def resource_ids_def by blast
  have d: "m_get idx k \<noteq> None \<longleftrightarrow> k \<in> agent_ids inp" "m_get ridx k \<noteq> None \<longleftrightarrow> k \<in> resource_ids inp" for k
    using idx_dom[OF i] ridx_dom[OF r] by (simp_all add: agent_ids_def resource_ids_def sortAgents_def sortResources_def)
  have "(\<exists>n. normalize inp = Inr n) \<longleftrightarrow>
      (\<exists>es. collect_edges idx (in_edges inp) [] = Inr es) \<and> (\<exists>acc. collect_access idx ridx (in_access inp) [] = Inr acc)"
    unfolding normalize_cases using i r by auto
  then show ?thesis
    unfolding collect_edges_ok collect_access_ok d input_ok_def using base by blast
qed

lemma normalize_fields:
  assumes "normalize inp = Inr n"
  shows "n_agents n = sortAgents (in_agents inp)" and "n_resources n = sortResources (in_resources inp)"
    and "n_edges n = sorted_list_of_set {e \<in> set (in_edges inp). ge_from e \<noteq> ge_to e}"
    and "n_access n = sorted_list_of_set (set (in_access inp))"
    and "index_agents 0 (n_agents n) [] = Inr (n_agentIdx n)"
    and "index_resources (n_resources n) [] = Inr (n_resIdx n)"
proof -
  obtain idx ridx es acc where i: "index_agents 0 (sortAgents (in_agents inp)) [] = Inr idx"
    and r: "index_resources (sortResources (in_resources inp)) [] = Inr ridx"
    and es: "collect_edges idx (in_edges inp) [] = Inr es" and acc: "collect_access idx ridx (in_access inp) [] = Inr acc"
    and n: "n = \<lparr>n_agents = sortAgents (in_agents inp), n_edges = sortEdges es,
      n_resources = sortResources (in_resources inp), n_access = sortAccess acc, n_agentIdx = idx, n_resIdx = ridx\<rparr>"
    using assms unfolding normalize_cases by blast
  show "n_agents n = sortAgents (in_agents inp)" "n_resources n = sortResources (in_resources inp)"
    "index_agents 0 (n_agents n) [] = Inr (n_agentIdx n)" "index_resources (n_resources n) [] = Inr (n_resIdx n)"
    using n i r by simp_all
  have s: "sort xs = sorted_list_of_set X" if "distinct xs" "set xs = X" for xs :: "'z :: linorder list" and X
    using that sorted_list_of_set_sort_remdups[of xs] by (simp add: distinct_remdups_id)
  show "n_edges n = sorted_list_of_set {e \<in> set (in_edges inp). ge_from e \<noteq> ge_to e}"
    unfolding n using s[of es] collect_edges_Inr[OF es] by (simp add: sortEdges_def)
  show "n_access n = sorted_list_of_set (set (in_access inp))"
    unfolding n using s[of acc] collect_access_Inr[OF acc] by (simp add: sortAccess_def)
qed

section \<open>The order of the input does not matter\<close>

lemma sort_key_perm:
  assumes "mset xs = mset ys" and "distinct (map f xs)"
  shows "sort_key f xs = sort_key f ys"
proof (rule properties_for_sort_key)
  show "mset (sort_key f ys) = mset xs" using assms(1) by simp
  show "sorted (map f (sort_key f ys))" by simp
  fix k assume "k \<in> set (sort_key f ys)"
  have set: "set xs = set ys" using assms(1) by (rule mset_eq_setD)
  have "distinct (map f ys)"
    using assms mset_map[of f xs] mset_map[of f ys] by (metis mset_eq_imp_distinct_iff)
  have one: "filter (\<lambda>x. f k = f x) zs = [k]" if "distinct (map f zs)" "k \<in> set zs" for zs
    using that by (induction zs) (auto simp: filter_empty_conv image_iff)
  have k: "k \<in> set xs" using \<open>k \<in> set (sort_key f ys)\<close> set by simp
  have "filter (\<lambda>x. f k = f x) (sort_key f ys) = [k]"
    by (rule one) (use \<open>distinct (map f ys)\<close> k set in simp_all)
  also have "[k] = filter (\<lambda>x. f k = f x) xs" using one[OF assms(2) k] by simp
  finally show "filter (\<lambda>x. f k = f x) (sort_key f ys) = filter (\<lambda>x. f k = f x) xs" .
qed

definition same_input :: "ginput \<Rightarrow> ginput \<Rightarrow> bool" where
  "same_input a b \<longleftrightarrow> mset (in_agents a) = mset (in_agents b) \<and> mset (in_resources a) = mset (in_resources b) \<and>
     set (in_edges a) = set (in_edges b) \<and> set (in_access a) = set (in_access b)"

lemma normalize_same:
  assumes same: "same_input a b" and n: "normalize a = Inr n"
  shows "normalize b = Inr n"
proof -
  have ok: "input_ok a" using n normalize_ok by blast
  have sets: "set (in_agents a) = set (in_agents b)" "set (in_resources a) = set (in_resources b)"
    using same by (auto simp: same_input_def dest: mset_eq_setD)
  have dist: "distinct (map ga_ID (in_agents b))" "distinct (map gr_ID (in_resources b))"
    using same ok mset_map[of ga_ID] mset_map[of gr_ID] unfolding same_input_def input_ok_def
    by (metis mset_eq_imp_distinct_iff)+
  have "input_ok b"
    using ok same sets dist by (simp add: input_ok_def agent_ids_def resource_ids_def same_input_def)
  then obtain m where m: "normalize b = Inr m" using normalize_ok by blast
  have ag: "n_agents m = n_agents n" "n_resources m = n_resources n"
    using same ok sort_key_perm[of "in_agents a" "in_agents b" ga_ID] sort_key_perm[of "in_resources a" "in_resources b" gr_ID]
    by (simp_all add: normalize_fields(1,2)[OF n] normalize_fields(1,2)[OF m] same_input_def input_ok_def sortAgents_def sortResources_def)
  have "n_agentIdx m = n_agentIdx n" "n_resIdx m = n_resIdx n"
    using normalize_fields(5,6)[OF n] normalize_fields(5,6)[OF m] ag by auto
  moreover have "n_edges m = n_edges n" "n_access m = n_access n"
    using same by (simp_all add: normalize_fields(3,4)[OF n] normalize_fields(3,4)[OF m] same_input_def)
  ultimately have "m = n" using ag by simp
  with m show ?thesis by simp
qed

end
