(* ===== verification/Graph_Search.thy ===== *)
theory Graph_Search
  imports Go_Map
begin

text \<open>
  The breadth-first loop that \<^verbatim>\<open>internal/graph\<close> runs three times (\<open>bfsHops\<close>,
  \<open>components\<close>, \<open>bfsRows\<close>), over different data: a queue, a test for a node already seen
  and a mark for one that is not. \<open>scan\<close> is the inner loop over the neighbours, \<open>search\<close> the
  outer one; not returning is \<open>None\<close>. The locales prove, once, that the loop returns, what it has
  seen, and, where the mark is a distance, that it is the shortest.
\<close>

fun scan :: "('d \<Rightarrow> 'a \<Rightarrow> bool) \<Rightarrow> ('a \<Rightarrow> 'a \<Rightarrow> 'd \<Rightarrow> 'd) \<Rightarrow> 'a \<Rightarrow> 'a list \<Rightarrow> 'd \<Rightarrow> 'a list \<Rightarrow> 'd \<times> 'a list" where
  "scan seen mark cur [] d q = (d, q)"
| "scan seen mark cur (n # ns) d q =
     (if seen d n then scan seen mark cur ns d q
      else scan seen mark cur ns (mark cur n d) (q @ [n]))"

partial_function (option) search ::
  "('d \<Rightarrow> 'a \<Rightarrow> bool) \<Rightarrow> ('a \<Rightarrow> 'a \<Rightarrow> 'd \<Rightarrow> 'd) \<Rightarrow> ('a \<Rightarrow> 'd \<Rightarrow> 'd) \<Rightarrow> ('a \<Rightarrow> 'a list) \<Rightarrow> 'a list \<Rightarrow> 'd \<Rightarrow> 'd option" where
  [code]: "search seen mark visit adj queue d =
     (case queue of
        [] \<Rightarrow> Some d
      | cur # q \<Rightarrow>
          (case scan seen mark cur (adj cur) (visit cur d) q of
             (d', q') \<Rightarrow> search seen mark visit adj q' d'))"

lemma search_Nil [simp]: "search seen mark visit adj [] d = Some d"
  by (subst search.simps) simp

lemma search_Cons:
  "search seen mark visit adj (cur # q) d =
     (case scan seen mark cur (adj cur) (visit cur d) q of (d', q') \<Rightarrow> search seen mark visit adj q' d')"
  by (subst search.simps) simp

section \<open>What the loop has seen\<close>

locale graph_search =
  fixes seen :: "'d \<Rightarrow> 'a \<Rightarrow> bool"
    and mark :: "'a \<Rightarrow> 'a \<Rightarrow> 'd \<Rightarrow> 'd"
    and visit :: "'a \<Rightarrow> 'd \<Rightarrow> 'd"
    and adj :: "'a \<Rightarrow> 'a list"
    and V :: "'a set"
    and ok :: "'d \<Rightarrow> bool"
  assumes finite_V: "finite V"
    and adj_in: "x \<in> V \<Longrightarrow> set (adj x) \<subseteq> V"
    and seen_mark: "ok d \<Longrightarrow> c \<in> V \<Longrightarrow> seen d c \<Longrightarrow> n \<in> V \<Longrightarrow> x \<in> V \<Longrightarrow> seen (mark c n d) x \<longleftrightarrow> x = n \<or> seen d x"
    and seen_visit: "ok d \<Longrightarrow> c \<in> V \<Longrightarrow> x \<in> V \<Longrightarrow> seen (visit c d) x \<longleftrightarrow> seen d x"
    and ok_mark: "ok d \<Longrightarrow> c \<in> V \<Longrightarrow> seen d c \<Longrightarrow> n \<in> V \<Longrightarrow> ok (mark c n d)"
    and ok_visit: "ok d \<Longrightarrow> c \<in> V \<Longrightarrow> ok (visit c d)"
begin

definition arcs :: "('a \<times> 'a) set" where
  "arcs = {(x, y). x \<in> V \<and> y \<in> set (adj x)}"

definition unseen :: "'d \<Rightarrow> 'a set" where
  "unseen d = {x \<in> V. \<not> seen d x}"

lemma scan_result:
  "ok d \<Longrightarrow> c \<in> V \<Longrightarrow> seen d c \<Longrightarrow> set ns \<subseteq> V \<Longrightarrow> scan seen mark c ns d q = (d', q') \<Longrightarrow>
     \<exists>new. q' = q @ new \<and> distinct new \<and> set new = {n \<in> set ns. \<not> seen d n} \<and> ok d' \<and>
       (\<forall>x \<in> V. seen d' x \<longleftrightarrow> seen d x \<or> x \<in> set new)"
proof (induction ns arbitrary: d q)
  case Nil
  then show ?case by simp
next
  case (Cons n ns)
  show ?case
  proof (cases "seen d n")
    case True
    with Cons.IH[OF Cons.prems(1,2,3) _ , of q] Cons.prems show ?thesis by auto
  next
    case False
    let ?m = "mark c n d"
    have n: "n \<in> V" and m: "ok ?m" "seen ?m c"
      using Cons.prems ok_mark seen_mark by auto
    from False Cons.prems Cons.IH[OF m(1) _ m(2), of "q @ [n]"] obtain new where
      new: "q' = (q @ [n]) @ new" "distinct new" "set new = {x \<in> set ns. \<not> seen ?m x}" "ok d'"
        "\<forall>x \<in> V. seen d' x \<longleftrightarrow> seen ?m x \<or> x \<in> set new"
      by auto
    have sm: "\<And>x. x \<in> V \<Longrightarrow> seen ?m x \<longleftrightarrow> x = n \<or> seen d x"
      using seen_mark Cons.prems n by auto
    have "set new = {x \<in> set ns. x \<noteq> n \<and> \<not> seen d x}"
      using new(3) sm Cons.prems(4) by auto
    then show ?thesis
      using new sm n False by (intro exI[of _ "n # new"]) auto
  qed
qed

lemma unseen_scan:
  assumes "\<forall>x \<in> V. seen d' x \<longleftrightarrow> seen d x \<or> x \<in> set new" and "distinct new"
    and "set new \<subseteq> V" and "\<forall>x \<in> set new. \<not> seen d x"
  shows "card (unseen d') + length new = card (unseen d)"
proof -
  have diff: "unseen d' = unseen d - set new" using assms(1) by (auto simp: unseen_def)
  have sub: "set new \<subseteq> unseen d" using assms(3,4) by (auto simp: unseen_def)
  have fin: "finite (unseen d)" using finite_V by (simp add: unseen_def)
  have "length new \<le> card (unseen d)"
    using card_mono[OF fin sub] assms(2) by (simp add: distinct_card)
  then show ?thesis
    using assms(2) sub by (simp add: diff card_Diff_subset distinct_card)
qed

text \<open>One turn of the outer loop, with what it leaves for the invariants.\<close>

lemma turn:
  assumes "ok d" and "c \<in> V" and "seen d c" and "set q \<subseteq> V"
  obtains d' new where "scan seen mark c (adj c) (visit c d) q = (d', q @ new)"
    and "ok d'" and "distinct new" and "set new = {n \<in> set (adj c). \<not> seen d n}" and "set (q @ new) \<subseteq> V"
    and "\<forall>x \<in> V. seen d' x \<longleftrightarrow> seen d x \<or> x \<in> set new"
    and "card (unseen d') + length (q @ new) < card (unseen d) + length (c # q)"
proof -
  obtain d' q' where s: "scan seen mark c (adj c) (visit c d) q = (d', q')" by fastforce
  have v: "ok (visit c d)" "seen (visit c d) c" "\<And>x. x \<in> V \<Longrightarrow> seen (visit c d) x = seen d x"
    using assms ok_visit seen_visit by auto
  from scan_result[OF v(1) assms(2) v(2) adj_in[OF assms(2)] s] obtain new where
    new: "q' = q @ new" "distinct new" "set new = {n \<in> set (adj c). \<not> seen (visit c d) n}" "ok d'"
      "\<forall>x \<in> V. seen d' x \<longleftrightarrow> seen (visit c d) x \<or> x \<in> set new" by auto
  have sn: "set new = {n \<in> set (adj c). \<not> seen d n}"
    using new(3) v(3) adj_in[OF assms(2)] by auto
  have sd: "\<forall>x \<in> V. seen d' x \<longleftrightarrow> seen d x \<or> x \<in> set new" using new(5) v(3) by auto
  have inV: "set new \<subseteq> V" using sn adj_in[OF assms(2)] by auto
  have "card (unseen d') + length new = card (unseen d)"
    using unseen_scan[OF sd new(2) inV] sn by auto
  then show thesis
    using that[of d' new] s new sn sd inV assms(4) by auto
qed

text \<open>
  The loop returns; what it has seen is closed under the arcs and is what was seen before or is
  reached from the queue.
\<close>

lemma search_result:
  "ok d \<Longrightarrow> set q \<subseteq> V \<Longrightarrow> \<forall>x \<in> set q. seen d x \<Longrightarrow>
     \<forall>x \<in> V. seen d x \<longrightarrow> x \<notin> set q \<longrightarrow> (\<forall>y \<in> set (adj x). seen d y) \<Longrightarrow>
     \<exists>d'. search seen mark visit adj q d = Some d' \<and> ok d' \<and>
       (\<forall>x \<in> V. seen d x \<longrightarrow> seen d' x) \<and>
       (\<forall>x \<in> V. seen d' x \<longrightarrow> (\<forall>y \<in> set (adj x). seen d' y)) \<and>
       (\<forall>x \<in> V. seen d' x \<longrightarrow> seen d x \<or> (\<exists>s \<in> set q. (s, x) \<in> arcs\<^sup>*))"
proof (induction "card (unseen d) + length q" arbitrary: q d rule: less_induct)
  case less
  show ?case
  proof (cases q)
    case Nil
    with less.prems show ?thesis by auto
  next
    case (Cons c r)
    with less.prems have c: "c \<in> V" "seen d c" and r: "set r \<subseteq> V" by auto
    obtain d' new where t: "scan seen mark c (adj c) (visit c d) r = (d', r @ new)" "ok d'" "distinct new"
      "set new = {n \<in> set (adj c). \<not> seen d n}" "set (r @ new) \<subseteq> V"
      "\<forall>x \<in> V. seen d' x \<longleftrightarrow> seen d x \<or> x \<in> set new"
      and lt: "card (unseen d') + length (r @ new) < card (unseen d) + length (c # r)"
      by (rule turn[OF less.prems(1) c r])
    have fr: "\<forall>x \<in> set (r @ new). seen d' x"
      using t(5,6) less.prems(3) Cons by auto
    have cl: "\<forall>x \<in> V. seen d' x \<longrightarrow> x \<notin> set (r @ new) \<longrightarrow> (\<forall>y \<in> set (adj x). seen d' y)"
    proof (intro ballI impI)
      fix x y assume x: "x \<in> V" "seen d' x" "x \<notin> set (r @ new)" and y: "y \<in> set (adj x)"
      have yV: "y \<in> V" using adj_in x(1) y by auto
      from x t(6) have "seen d x" by auto
      show "seen d' y"
      proof (cases "x = c")
        case True
        with t(4,6) y yV show ?thesis by auto
      next
        case False
        with less.prems(4) x Cons \<open>seen d x\<close> y have "seen d y" by auto
        with t(6) yV show ?thesis by auto
      qed
    qed
    from less.hyps[OF _ t(2) t(5) fr cl] lt Cons obtain e where
      e: "search seen mark visit adj (r @ new) d' = Some e" "ok e"
        "\<forall>x \<in> V. seen d' x \<longrightarrow> seen e x" "\<forall>x \<in> V. seen e x \<longrightarrow> (\<forall>y \<in> set (adj x). seen e y)"
        "\<forall>x \<in> V. seen e x \<longrightarrow> seen d' x \<or> (\<exists>s \<in> set (r @ new). (s, x) \<in> arcs\<^sup>*)"
      by auto
    have step: "(c, n) \<in> arcs" if "n \<in> set new" for n using that t(4) c by (auto simp: arcs_def)
    have "seen d x \<or> (\<exists>s \<in> set q. (s, x) \<in> arcs\<^sup>*)" if x: "x \<in> V" "seen e x" for x
    proof -
      from e(5) x t(6) consider "seen d x" | "x \<in> set new" | s where "s \<in> set r" "(s, x) \<in> arcs\<^sup>*"
        | s where "s \<in> set new" "(s, x) \<in> arcs\<^sup>*" by auto
      then show ?thesis
        by cases (use Cons step in \<open>auto intro: converse_rtrancl_into_rtrancl\<close>)
    qed
    moreover have "search seen mark visit adj q d = Some e"
      using t(1) e(1) by (simp add: Cons search_Cons)
    ultimately show ?thesis using e t(6) by auto
  qed
qed

lemma search_seen:
  assumes "ok d" and "set q \<subseteq> V" and "\<forall>x \<in> set q. seen d x"
    and "\<forall>x \<in> V. seen d x \<longrightarrow> x \<notin> set q \<longrightarrow> (\<forall>y \<in> set (adj x). seen d y)"
  shows "\<exists>d'. search seen mark visit adj q d = Some d' \<and> ok d' \<and>
    (\<forall>x \<in> V. seen d' x \<longleftrightarrow> seen d x \<or> (\<exists>s \<in> set q. (s, x) \<in> arcs\<^sup>*))"
proof -
  obtain d' where d': "search seen mark visit adj q d = Some d'" "ok d'"
    "\<forall>x \<in> V. seen d x \<longrightarrow> seen d' x"
    "\<forall>x \<in> V. seen d' x \<longrightarrow> (\<forall>y \<in> set (adj x). seen d' y)"
    "\<forall>x \<in> V. seen d' x \<longrightarrow> seen d x \<or> (\<exists>s \<in> set q. (s, x) \<in> arcs\<^sup>*)"
    using search_result[OF assms] by blast
  have "seen d' x" if "(s, x) \<in> arcs\<^sup>*" "s \<in> set q" for s x
    using that(1)
  proof (induction rule: rtrancl_induct)
    case base
    then show ?case using that(2) assms(2,3) d'(3) by auto
  next
    case (step y z)
    then show ?case using d'(4) by (auto simp: arcs_def)
  qed
  with d' show ?thesis by blast
qed

end

section \<open>What the loop has visited\<close>

text \<open>Where a visit is written down, the list of visits is what was newly seen, once each.\<close>

locale traversal = graph_search seen mark visit adj V ok
  for seen :: "'d \<Rightarrow> 'a \<Rightarrow> bool" and mark visit adj V ok +
  fixes out :: "'d \<Rightarrow> 'a list"
  assumes out_mark: "ok d \<Longrightarrow> c \<in> V \<Longrightarrow> seen d c \<Longrightarrow> n \<in> V \<Longrightarrow> out (mark c n d) = out d"
    and out_visit: "ok d \<Longrightarrow> c \<in> V \<Longrightarrow> out (visit c d) = out d @ [c]"
begin

lemma scan_out:
  "ok d \<Longrightarrow> c \<in> V \<Longrightarrow> seen d c \<Longrightarrow> set ns \<subseteq> V \<Longrightarrow> scan seen mark c ns d q = (d', q') \<Longrightarrow> out d' = out d"
proof (induction ns arbitrary: d q)
  case (Cons n ns)
  show ?case
  proof (cases "seen d n")
    case True
    with Cons show ?thesis by auto
  next
    case False
    have n: "n \<in> V" using Cons.prems by simp
    have m: "ok (mark c n d)" "seen (mark c n d) c"
      using Cons.prems ok_mark seen_mark n by auto
    have "scan seen mark c ns (mark c n d) (q @ [n]) = (d', q')" using Cons.prems False by simp
    with Cons.IH[OF m(1) Cons.prems(2) m(2)] Cons.prems n show ?thesis by (simp add: out_mark)
  qed
qed simp

lemma search_out:
  "ok d \<Longrightarrow> set q \<subseteq> V \<Longrightarrow> distinct (out d @ q) \<Longrightarrow> set (out d @ q) \<inter> S = {} \<Longrightarrow>
     (\<forall>x \<in> V. seen d x \<longleftrightarrow> x \<in> S \<or> x \<in> set (out d @ q)) \<Longrightarrow> set (out d) \<subseteq> V \<Longrightarrow>
     \<exists>d'. search seen mark visit adj q d = Some d' \<and> distinct (out d') \<and> set (out d') \<inter> S = {} \<and>
       (\<forall>x \<in> V. seen d' x \<longleftrightarrow> x \<in> S \<or> x \<in> set (out d')) \<and> set (out d') \<subseteq> V"
proof (induction "card (unseen d) + length q" arbitrary: q d rule: less_induct)
  case less
  show ?case
  proof (cases q)
    case Nil
    with less.prems show ?thesis by auto
  next
    case (Cons c p)
    with less.prems have c: "c \<in> V" "seen d c" and p: "set p \<subseteq> V" by auto
    obtain d' new where t: "scan seen mark c (adj c) (visit c d) p = (d', p @ new)" "ok d'" "distinct new"
      "set new = {n \<in> set (adj c). \<not> seen d n}" "set (p @ new) \<subseteq> V"
      "\<forall>x \<in> V. seen d' x \<longleftrightarrow> seen d x \<or> x \<in> set new"
      and lt: "card (unseen d') + length (p @ new) < card (unseen d) + length (c # p)"
      by (rule turn[OF less.prems(1) c p])
    have v: "ok (visit c d)" "seen (visit c d) c" using less.prems(1) c ok_visit seen_visit by auto
    have o: "out d' = out d @ [c]"
      using scan_out[OF v(1) c(1) v(2) adj_in[OF c(1)] t(1)] less.prems(1) c(1) by (simp add: out_visit)
    have newV: "set new \<subseteq> V" and fresh: "\<forall>x \<in> set new. \<not> seen d x" using t(4,5) by auto
    have "distinct (out d' @ (p @ new))" and "set (out d' @ (p @ new)) \<inter> S = {}"
      and "\<forall>x \<in> V. seen d' x \<longleftrightarrow> x \<in> S \<or> x \<in> set (out d' @ (p @ new))" and "set (out d') \<subseteq> V"
      using less.prems(3,4,5,6) newV fresh t(3,6) c Cons unfolding o by auto
    with less.hyps[OF _ t(2) t(5)] lt Cons t(1) show ?thesis by (simp add: search_Cons)
  qed
qed

end

section \<open>Shortest distances\<close>

locale bfs = graph_search seen mark visit adj V ok
  for seen :: "'d \<Rightarrow> 'a \<Rightarrow> bool" and mark visit adj V ok +
  fixes dist :: "'d \<Rightarrow> 'a \<Rightarrow> nat"
  assumes dist_mark: "ok d \<Longrightarrow> c \<in> V \<Longrightarrow> seen d c \<Longrightarrow> n \<in> V \<Longrightarrow> x \<in> V \<Longrightarrow>
      dist (mark c n d) x = (if x = n then Suc (dist d c) else dist d x)"
    and dist_visit: "ok d \<Longrightarrow> c \<in> V \<Longrightarrow> x \<in> V \<Longrightarrow> dist (visit c d) x = dist d x"
begin

lemma scan_dist:
  "ok d \<Longrightarrow> c \<in> V \<Longrightarrow> seen d c \<Longrightarrow> set ns \<subseteq> V \<Longrightarrow> scan seen mark c ns d q = (d', q') \<Longrightarrow> x \<in> V \<Longrightarrow>
     dist d' x = (if x \<in> set ns \<and> \<not> seen d x then Suc (dist d c) else dist d x)"
proof (induction ns arbitrary: d q)
  case Nil
  then show ?case by simp
next
  case (Cons n ns)
  show ?case
  proof (cases "seen d n")
    case True
    with Cons show ?thesis by auto
  next
    case False
    let ?m = "mark c n d"
    have n: "n \<in> V" and cn: "c \<noteq> n" and m: "ok ?m" "seen ?m c"
      using Cons.prems False ok_mark seen_mark by auto
    have "dist d' x = (if x \<in> set ns \<and> \<not> seen ?m x then Suc (dist ?m c) else dist ?m x)"
      using Cons.IH[OF m(1) _ m(2), of "q @ [n]"] Cons.prems False by auto
    then show ?thesis
      using Cons.prems n cn False dist_mark[of d c n x] dist_mark[of d c n c] seen_mark[of d c n x] by auto
  qed
qed

text \<open>
  Distances along the queue are sorted and within one of its head; every seen node is as far as
  some path says; a node that left the queue has told its neighbours.
\<close>

definition frontier :: "'a \<Rightarrow> 'a list \<Rightarrow> 'd \<Rightarrow> bool" where
  "frontier r q d \<longleftrightarrow>
     r \<in> V \<and> seen d r \<and> dist d r = 0 \<and> set q \<subseteq> V \<and> (\<forall>x \<in> set q. seen d x) \<and>
     sorted (map (dist d) q) \<and>
     (\<forall>x \<in> V. seen d x \<longrightarrow> q \<noteq> [] \<longrightarrow> dist d x \<le> Suc (dist d (hd q))) \<and>
     (\<forall>x \<in> V. seen d x \<longrightarrow> (r, x) \<in> arcs ^^ dist d x) \<and>
     (\<forall>x \<in> V. seen d x \<longrightarrow> x \<notin> set q \<longrightarrow> (\<forall>y \<in> set (adj x). seen d y \<and> dist d y \<le> Suc (dist d x)))"

lemma frontier_turn:
  assumes f: "frontier r (c # q) d" and ok: "ok d"
    and t: "scan seen mark c (adj c) (visit c d) q = (d', q @ new)"
    and new: "set new = {n \<in> set (adj c). \<not> seen d n}"
    and sd: "\<forall>x \<in> V. seen d' x \<longleftrightarrow> seen d x \<or> x \<in> set new"
  shows "frontier r (q @ new) d'"
proof -
  have c: "c \<in> V" "seen d c" and q: "set q \<subseteq> V" "\<forall>x \<in> set q. seen d x"
    and so: "sorted (map (dist d) q)" "\<forall>x \<in> set q. dist d c \<le> dist d x"
    and hi: "\<forall>x \<in> V. seen d x \<longrightarrow> dist d x \<le> Suc (dist d c)"
    and path: "\<forall>x \<in> V. seen d x \<longrightarrow> (r, x) \<in> arcs ^^ dist d x"
    and told: "\<forall>x \<in> V. seen d x \<longrightarrow> x \<noteq> c \<longrightarrow> x \<notin> set q \<longrightarrow> (\<forall>y \<in> set (adj x). seen d y \<and> dist d y \<le> Suc (dist d x))"
    and r: "r \<in> V" "seen d r" "dist d r = 0"
    using f by (auto simp: frontier_def)
  have v: "ok (visit c d)" "seen (visit c d) c" "\<And>x. x \<in> V \<Longrightarrow> seen (visit c d) x = seen d x"
    "\<And>x. x \<in> V \<Longrightarrow> dist (visit c d) x = dist d x"
    using ok c ok_visit seen_visit dist_visit by auto
  have dd: "dist d' x = (if x \<in> set new then Suc (dist d c) else dist d x)" if "x \<in> V" for x
    using scan_dist[OF v(1) c(1) v(2) adj_in[OF c(1)] t that] v(3,4) that c(1) new by auto
  have newV: "set new \<subseteq> V" and fresh: "\<forall>x \<in> set new. \<not> seen d x" using new adj_in[OF c(1)] by auto
  have old: "dist d' x = dist d x" if "x \<in> V" "seen d x" for x using dd that fresh by auto
  have mq: "map (dist d') q = map (dist d) q" using old q by auto
  have far: "dist d' x = Suc (dist d c)" if "x \<in> set new" for x using dd that newV by auto
  then have mn: "map (dist d') new = map (\<lambda>_. Suc (dist d c)) new" by simp
  have "sorted (map (\<lambda>_. Suc (dist d c)) new)" by (induction new) auto
  moreover have "dist d x \<le> Suc (dist d c)" if "x \<in> set q" for x using that hi q by auto
  ultimately have sorted: "sorted (map (dist d') (q @ new))"
    unfolding map_append mq mn using so(1) by (auto simp: sorted_append)
  have high: "dist d' x \<le> Suc (dist d' (hd (q @ new)))" if "x \<in> V" "seen d' x" "q @ new \<noteq> []" for x
  proof -
    have "hd (q @ new) \<in> set q \<or> hd (q @ new) \<in> set new" using that(3) by (cases q) auto
    then have "dist d c \<le> dist d' (hd (q @ new))" using so(2) q old dd newV by (auto simp: subset_eq)
    moreover have "dist d' x \<le> Suc (dist d c)" using that dd hi sd by auto
    ultimately show ?thesis by simp
  qed
  have paths: "(r, x) \<in> arcs ^^ dist d' x" if "x \<in> V" "seen d' x" for x
  proof (cases "x \<in> set new")
    case True
    then have "(c, x) \<in> arcs" using new c(1) by (auto simp: arcs_def)
    with path c have "(r, x) \<in> arcs ^^ Suc (dist d c)" by auto
    with True dd[OF that(1)] show ?thesis by simp
  next
    case False
    with that sd path old show ?thesis by auto
  qed
  have tell: "seen d' y \<and> dist d' y \<le> Suc (dist d' x)"
    if x: "x \<in> V" "seen d' x" "x \<notin> set (q @ new)" and y: "y \<in> set (adj x)" for x y
  proof -
    have yV: "y \<in> V" using adj_in x(1) y by auto
    have sx: "seen d x" using x sd by auto
    show ?thesis
    proof (cases "x = c")
      case True
      with y new sd yV have "seen d' y" by auto
      moreover have "dist d' y \<le> Suc (dist d c)" using \<open>seen d' y\<close> yV dd hi sd by auto
      ultimately show ?thesis using True old c by simp
    next
      case False
      with told x sx y have "seen d y" "dist d y \<le> Suc (dist d x)" by auto
      with old yV sx x(1) sd show ?thesis by auto
    qed
  qed
  have "seen d' r" and "dist d' r = 0" using r sd old by auto
  moreover have "set (q @ new) \<subseteq> V" using q newV by auto
  moreover from this have "\<forall>x \<in> set (q @ new). seen d' x" using sd q by auto
  ultimately show ?thesis
    unfolding frontier_def using r(1) sorted high paths tell by blast
qed

lemma search_frontier:
  "ok d \<Longrightarrow> frontier r q d \<Longrightarrow>
     \<exists>d'. search seen mark visit adj q d = Some d' \<and> ok d' \<and> frontier r [] d'"
proof (induction "card (unseen d) + length q" arbitrary: q d rule: less_induct)
  case less
  show ?case
  proof (cases q)
    case Nil
    with less.prems show ?thesis by auto
  next
    case (Cons c p)
    with less.prems(2) have c: "c \<in> V" "seen d c" and p: "set p \<subseteq> V" by (auto simp: frontier_def)
    obtain d' new where t: "scan seen mark c (adj c) (visit c d) p = (d', p @ new)" "ok d'" "distinct new"
      "set new = {n \<in> set (adj c). \<not> seen d n}" "set (p @ new) \<subseteq> V"
      "\<forall>x \<in> V. seen d' x \<longleftrightarrow> seen d x \<or> x \<in> set new"
      and lt: "card (unseen d') + length (p @ new) < card (unseen d) + length (c # p)"
      by (rule turn[OF less.prems(1) c p])
    have "frontier r (p @ new) d'"
      using frontier_turn[OF _ less.prems(1) t(1) t(4,6)] less.prems(2) Cons by simp
    from less.hyps[OF _ t(2) this] lt Cons t(1) show ?thesis by (auto simp: search_Cons)
  qed
qed

lemma bfs_shortest:
  assumes "ok d" and "r \<in> V" and "\<forall>x \<in> V. seen d x \<longleftrightarrow> x = r" and "dist d r = 0"
  shows "\<exists>d'. search seen mark visit adj [r] d = Some d' \<and> ok d' \<and>
    (\<forall>x \<in> V. (seen d' x \<longleftrightarrow> (r, x) \<in> arcs\<^sup>*) \<and>
       (seen d' x \<longrightarrow> (r, x) \<in> arcs ^^ dist d' x \<and> (\<forall>k. (r, x) \<in> arcs ^^ k \<longrightarrow> dist d' x \<le> k)))"
proof -
  have "frontier r [r] d" using assms by (auto simp: frontier_def)
  from search_frontier[OF assms(1) this] obtain d' where
    d': "search seen mark visit adj [r] d = Some d'" "ok d'" "frontier r [] d'" by blast
  have near: "seen d' x \<and> dist d' x \<le> k" if "(r, x) \<in> arcs ^^ k" for k x
    using that
  proof (induction k arbitrary: x)
    case 0
    then show ?case using d'(3) by (auto simp: frontier_def)
  next
    case (Suc k)
    then obtain y where y: "(r, y) \<in> arcs ^^ k" and yx: "y \<in> V" "x \<in> set (adj y)" by (auto simp: arcs_def)
    have "seen d' x \<and> dist d' x \<le> Suc (dist d' y)"
      using d'(3) yx Suc.IH[OF y] by (auto simp: frontier_def)
    with Suc.IH[OF y] show ?case by simp
  qed
  have "(seen d' x \<longleftrightarrow> (r, x) \<in> arcs\<^sup>*)" if "x \<in> V" for x
  proof
    assume "seen d' x"
    with d'(3) that have "(r, x) \<in> arcs ^^ dist d' x" by (auto simp: frontier_def)
    then show "(r, x) \<in> arcs\<^sup>*" by (rule relpow_imp_rtrancl)
  next
    assume "(r, x) \<in> arcs\<^sup>*"
    then show "seen d' x" using near by (auto dest: rtrancl_imp_relpow)
  qed
  moreover have "(r, x) \<in> arcs ^^ dist d' x" if "x \<in> V" "seen d' x" for x
    using d'(3) that by (auto simp: frontier_def)
  ultimately show ?thesis using d'(1,2) near by blast
qed

end

end
