(* ===== verification/Graph_Reach.thy ===== *)
theory Graph_Reach
  imports Graph Graph_Search
begin

text \<open>
  \<^verbatim>\<open>internal/graph/reach.go\<close>: the transitive closure of who can pass data to whom,
  over the declared edges and the store keys one agent writes and another reads, as the table of
  hop counts between agents. The closure is \<open>None\<close> where the search would not return.
\<close>

section \<open>The code\<close>

record closure =
  cl_Agents :: "string list"
  cl_Hops :: "int list list"
  cl_idx :: "(string, nat) gmap"
  cl_resourcesOf :: "(string, string list) gmap"

text \<open>Reading a missing index gives the zero value.\<close>

definition idx_of :: "(string, nat) gmap \<Rightarrow> string \<Rightarrow> nat" where
  "idx_of m k = (case m_get m k of None \<Rightarrow> 0 | Some i \<Rightarrow> i)"

fun number :: "nat \<Rightarrow> string list \<Rightarrow> (string, nat) gmap \<Rightarrow> (string, nat) gmap" where
  "number i [] m = m"
| "number i (a # as) m = number (Suc i) as (m_put a i m)"

definition add_arc :: "nat \<Rightarrow> nat \<Rightarrow> nat list list \<Rightarrow> nat list list" where
  "add_arc i j adj = adj[i := adj ! i @ [j]]"

fun edge_arcs :: "(string, nat) gmap \<Rightarrow> gedge list \<Rightarrow> nat list list \<Rightarrow> nat list list" where
  "edge_arcs idx [] adj = adj"
| "edge_arcs idx (e # es) adj =
     edge_arcs idx es (add_arc (idx_of idx (ge_from e)) (idx_of idx (ge_to e)) adj)"

record access_maps =
  am_writers :: "(string, string list) gmap"
  am_readers :: "(string, string list) gmap"
  am_resourcesOf :: "(string, string list) gmap"

definition kind_of :: "(string, gresource) gmap \<Rightarrow> string \<Rightarrow> resourceKind" where
  "kind_of ridx r = (case m_get ridx r of None \<Rightarrow> Domain | Some x \<Rightarrow> gr_Kind x)"

text \<open>\<open>seenResourceOf\<close> holds exactly what \<open>resourcesOf\<close> lists for the agent.\<close>

fun index_access :: "(string, gresource) gmap \<Rightarrow> gaccess list \<Rightarrow> access_maps \<Rightarrow> access_maps" where
  "index_access ridx [] m = m"
| "index_access ridx (a # as) m =
     (let m1 = (if ac_res a \<in> set (m_list (am_resourcesOf m) (ac_agent a)) then m
                else m\<lparr>am_resourcesOf := m_append (ac_agent a) (ac_res a) (am_resourcesOf m)\<rparr>)
      in index_access ridx as
           (if kind_of ridx (ac_res a) \<noteq> StoreKey then m1
            else if ac_write a then m1\<lparr>am_writers := m_append (ac_res a) (ac_agent a) (am_writers m1)\<rparr>
            else m1\<lparr>am_readers := m_append (ac_res a) (ac_agent a) (am_readers m1)\<rparr>))"

fun pair_arcs :: "(string, nat) gmap \<Rightarrow> (string \<times> string) list \<Rightarrow> nat list list \<Rightarrow> nat list list" where
  "pair_arcs idx [] adj = adj"
| "pair_arcs idx ((w, r) # ps) adj =
     pair_arcs idx ps (if w = r then adj else add_arc (idx_of idx w) (idx_of idx r) adj)"

fun store_arcs ::
  "(string, nat) gmap \<Rightarrow> access_maps \<Rightarrow> gresource list \<Rightarrow> nat list list \<Rightarrow> nat list list" where
  "store_arcs idx m [] adj = adj"
| "store_arcs idx m (r # rs) adj =
     store_arcs idx m rs
       (if gr_Kind r \<noteq> StoreKey then adj
        else pair_arcs idx (List.product (m_list (am_writers m) (gr_ID r)) (m_list (am_readers m) (gr_ID r))) adj)"

definition hop_seen :: "int list \<Rightarrow> nat \<Rightarrow> bool" where
  "hop_seen dist n \<longleftrightarrow> dist ! n \<noteq> -1"

definition hop_mark :: "nat \<Rightarrow> nat \<Rightarrow> int list \<Rightarrow> int list" where
  "hop_mark cur n dist = dist[n := dist ! cur + 1]"

definition bfsHops :: "nat \<Rightarrow> nat list list \<Rightarrow> int list \<Rightarrow> int list option" where
  "bfsHops from adj dist = search hop_seen hop_mark (\<lambda>_ d. d) ((!) adj) [from] dist"

definition hops_row :: "nat list list \<Rightarrow> nat \<Rightarrow> int list option" where
  "hops_row adj i = bfsHops i adj ((replicate (length adj) (-1))[i := 0])"

definition agent_names :: "normalized \<Rightarrow> string list" where
  "agent_names n = map ga_ID (n_agents n)"

definition access_index :: "normalized \<Rightarrow> access_maps" where
  "access_index n = index_access (n_resIdx n) (n_access n) \<lparr>am_writers = [], am_readers = [], am_resourcesOf = []\<rparr>"

definition one_hop :: "(string, nat) gmap \<Rightarrow> access_maps \<Rightarrow> normalized \<Rightarrow> nat list list" where
  "one_hop idx m n = store_arcs idx m (n_resources n) (edge_arcs idx (n_edges n) (replicate (length (n_agents n)) []))"

definition transitiveClosure :: "ginput \<Rightarrow> (graph_error + closure) option" where
  "transitiveClosure inp =
     (case normalize inp of
        Inl e \<Rightarrow> Some (Inl e)
      | Inr n \<Rightarrow>
          let ags = agent_names n;
              idx = number 0 ags [];
              m = access_index n;
              adj = one_hop idx m n
          in map_option (\<lambda>hops. Inr \<lparr>cl_Agents = ags, cl_Hops = hops, cl_idx = idx, cl_resourcesOf = am_resourcesOf m\<rparr>)
               (those (map (hops_row adj) [0..<length ags])))"

definition hopsBetween :: "closure \<Rightarrow> string \<Rightarrow> string \<Rightarrow> nat option" where
  "hopsBetween c from to =
     (case m_get (cl_idx c) from of
        None \<Rightarrow> None
      | Some i \<Rightarrow>
          (case m_get (cl_idx c) to of
             None \<Rightarrow> None
           | Some j \<Rightarrow> let h = cl_Hops c ! i ! j in if h < 0 then None else Some (nat h)))"

fun merge_shared :: "string list \<Rightarrow> string list \<Rightarrow> string list" where
  "merge_shared (x # xs) (y # ys) =
     (if x = y then x # merge_shared xs ys
      else if x < y then merge_shared xs (y # ys)
      else merge_shared (x # xs) ys)"
| "merge_shared _ _ = []"

definition sharedResources :: "closure \<Rightarrow> string \<Rightarrow> string \<Rightarrow> string list" where
  "sharedResources c a b =
     (if a = b then []
      else if m_get (cl_idx c) a = None then []
      else if m_get (cl_idx c) b = None then []
      else merge_shared (m_list (cl_resourcesOf c) a) (m_list (cl_resourcesOf c) b))"

section \<open>The one-hop relation\<close>

lemma number_get:
  "distinct as \<Longrightarrow> (\<forall>k. k \<notin> set as \<longrightarrow> m_get (number i as m) k = m_get m k) \<and>
     (\<forall>j < length as. m_get (number i as m) (as ! j) = Some (i + j))"
  by (induction i as m rule: number.induct) (auto simp: less_Suc_eq_0_disj)

lemma number_nth: "distinct as \<Longrightarrow> j < length as \<Longrightarrow> m_get (number 0 as []) (as ! j) = Some j"
  using number_get[of as 0 "[]"] by simp

lemma number_Some: "distinct as \<Longrightarrow> m_get (number 0 as []) k = Some j \<longleftrightarrow> j < length as \<and> as ! j = k"
proof
  assume d: "distinct as" and g: "m_get (number 0 as []) k = Some j"
  then have "k \<in> set as" using number_get[OF d, of 0 "[]"] by fastforce
  then obtain i where "i < length as" "as ! i = k" by (auto simp: in_set_conv_nth)
  with number_nth[OF d, of i] g show "j < length as \<and> as ! j = k" by simp
qed (use number_nth in auto)

text \<open>An adjacency list holds the arcs of a relation on indices.\<close>

definition holds :: "nat list list \<Rightarrow> (nat \<Rightarrow> nat \<Rightarrow> bool) \<Rightarrow> bool" where
  "holds adj R \<longleftrightarrow> (\<forall>i < length adj. \<forall>j. j \<in> set (adj ! i) \<longleftrightarrow> R i j)"

lemma holds_add_arc: "holds adj R \<Longrightarrow> holds (add_arc i j adj) (\<lambda>x y. R x y \<or> (x = i \<and> y = j))"
  by (cases "i < length adj") (auto simp: holds_def add_arc_def nth_list_update list_update_beyond split: if_splits)

lemma length_add_arc [simp]: "length (add_arc i j adj) = length adj"
  by (simp add: add_arc_def)

lemma holds_edge_arcs:
  "holds adj R \<Longrightarrow> length (edge_arcs idx es adj) = length adj \<and>
     holds (edge_arcs idx es adj) (\<lambda>x y. R x y \<or> (\<exists>e \<in> set es. x = idx_of idx (ge_from e) \<and> y = idx_of idx (ge_to e)))"
proof (induction idx es adj arbitrary: R rule: edge_arcs.induct)
  case (2 idx e es adj)
  from "2.IH"[OF holds_add_arc[OF "2.prems"]] show ?case by (auto simp: holds_def)
qed simp

lemma holds_pair_arcs:
  "holds adj R \<Longrightarrow> length (pair_arcs idx ps adj) = length adj \<and>
     holds (pair_arcs idx ps adj) (\<lambda>x y. R x y \<or> (\<exists>(w, r) \<in> set ps. w \<noteq> r \<and> x = idx_of idx w \<and> y = idx_of idx r))"
proof (induction idx ps adj arbitrary: R rule: pair_arcs.induct)
  case (2 idx w r ps adj)
  show ?case
  proof (cases "w = r")
    case True
    with "2.IH"[of R] "2.prems" show ?thesis by (auto simp: holds_def)
  next
    case False
    with "2.IH"[of "\<lambda>x y. R x y \<or> (x = idx_of idx w \<and> y = idx_of idx r)"] holds_add_arc[OF "2.prems"]
    show ?thesis by (auto simp: holds_def)
  qed
qed simp

lemma holds_store_arcs:
  "holds adj R \<Longrightarrow> length (store_arcs idx m rs adj) = length adj \<and>
     holds (store_arcs idx m rs adj) (\<lambda>x y. R x y \<or>
       (\<exists>r \<in> set rs. gr_Kind r = StoreKey \<and> (\<exists>w \<in> set (m_list (am_writers m) (gr_ID r)).
          \<exists>d \<in> set (m_list (am_readers m) (gr_ID r)). w \<noteq> d \<and> x = idx_of idx w \<and> y = idx_of idx d)))"
proof (induction idx m rs adj arbitrary: R rule: store_arcs.induct)
  case (2 idx m r rs adj)
  show ?case
  proof (cases "gr_Kind r = StoreKey")
    case False
    with "2.IH"[of R] "2.prems" show ?thesis by (auto simp: holds_def)
  next
    case True
    let ?ps = "List.product (m_list (am_writers m) (gr_ID r)) (m_list (am_readers m) (gr_ID r))"
    from True "2.IH"[of "\<lambda>x y. R x y \<or> (\<exists>(w, r) \<in> set ?ps. w \<noteq> r \<and> x = idx_of idx w \<and> y = idx_of idx r)"]
      holds_pair_arcs[OF "2.prems", of idx ?ps]
    show ?thesis by (simp add: holds_def)
  qed
qed simp

text \<open>What the access maps hold.\<close>

lemma index_access_writers:
  "m_list (am_writers (index_access ridx as m)) r =
     m_list (am_writers m) r @ map ac_agent (filter (\<lambda>a. ac_res a = r \<and> ac_write a \<and> kind_of ridx r = StoreKey) as)"
  by (induction ridx as m rule: index_access.induct) (auto simp: Let_def)

lemma index_access_readers:
  "m_list (am_readers (index_access ridx as m)) r =
     m_list (am_readers m) r @ map ac_agent (filter (\<lambda>a. ac_res a = r \<and> \<not> ac_write a \<and> kind_of ridx r = StoreKey) as)"
  by (induction ridx as m rule: index_access.induct) (auto simp: Let_def)

text \<open>The agents \<open>x\<close> that can hand data to \<open>y\<close> in one step.\<close>

definition passes :: "ginput \<Rightarrow> (string \<times> string) set" where
  "passes inp = {(x, y). x \<noteq> y \<and>
     (GEdge x y \<in> set (in_edges inp) \<or>
      (\<exists>r \<in> set (in_resources inp). gr_Kind r = StoreKey \<and>
         GAccess x (gr_ID r) True \<in> set (in_access inp) \<and> GAccess y (gr_ID r) False \<in> set (in_access inp)))}"

lemma passes_in: "input_ok inp \<Longrightarrow> (x, y) \<in> passes inp \<Longrightarrow> x \<in> agent_ids inp \<and> y \<in> agent_ids inp"
  unfolding passes_def input_ok_def by fastforce

lemma idx_of_number: "distinct as \<Longrightarrow> i < length as \<Longrightarrow> w \<in> set as \<Longrightarrow> i = idx_of (number 0 as []) w \<longleftrightarrow> as ! i = w"
  by (auto simp: idx_of_def number_nth in_set_conv_nth nth_eq_iff_index_eq)

definition table :: "normalized \<Rightarrow> nat list list" where
  "table n = one_hop (number 0 (agent_names n) []) (access_index n) n"

lemma agent_names_ids:
  "normalize inp = Inr n \<Longrightarrow> distinct (agent_names n) \<and> set (agent_names n) = agent_ids inp"
  using normalize_ok[of inp] unfolding agent_names_def normalize_fields(1)
  by (auto simp: input_ok_def agent_ids_def sortAgents_def)

lemma kind_of_resource:
  "normalize inp = Inr n \<Longrightarrow> r \<in> set (in_resources inp) \<Longrightarrow> kind_of (n_resIdx n) (gr_ID r) = gr_Kind r"
  using index_resources_get[OF normalize_fields(6)]
  by (auto simp: kind_of_def normalize_fields(2) sortResources_def)

lemma store_hop:
  assumes "normalize inp = Inr n" and "r \<in> set (in_resources inp)" and "gr_Kind r = StoreKey"
  shows "w \<in> set (m_list (am_writers (access_index n)) (gr_ID r)) \<longleftrightarrow> GAccess w (gr_ID r) True \<in> set (in_access inp)"
    and "w \<in> set (m_list (am_readers (access_index n)) (gr_ID r)) \<longleftrightarrow> GAccess w (gr_ID r) False \<in> set (in_access inp)"
proof -
  have k: "kind_of (n_resIdx n) (gr_ID r) = StoreKey" using kind_of_resource assms by simp
  have acc: "set (n_access n) = set (in_access inp)" by (simp add: normalize_fields(4)[OF assms(1)])
  have hit: "w \<in> ac_agent ` {a. a \<in> S \<and> ac_res a = x \<and> ac_write a = b} \<longleftrightarrow> GAccess w x b \<in> S" for S x b
  proof
    assume "w \<in> ac_agent ` {a. a \<in> S \<and> ac_res a = x \<and> ac_write a = b}"
    then show "GAccess w x b \<in> S" using gaccess.collapse by force
  next
    assume "GAccess w x b \<in> S"
    then show "w \<in> ac_agent ` {a. a \<in> S \<and> ac_res a = x \<and> ac_write a = b}" by (intro image_eqI[of _ _ "GAccess w x b"]) auto
  qed
  show "w \<in> set (m_list (am_writers (access_index n)) (gr_ID r)) \<longleftrightarrow> GAccess w (gr_ID r) True \<in> set (in_access inp)"
    "w \<in> set (m_list (am_readers (access_index n)) (gr_ID r)) \<longleftrightarrow> GAccess w (gr_ID r) False \<in> set (in_access inp)"
    using k acc hit[of "set (in_access inp)" "gr_ID r" True] hit[of "set (in_access inp)" "gr_ID r" False] by (simp_all add: access_index_def index_access_writers index_access_readers)
qed

lemma table_arcs:
  assumes n: "normalize inp = Inr n" and i: "i < length (agent_names n)"
  shows "length (table n) = length (agent_names n)"
    and "j \<in> set (table n ! i) \<longleftrightarrow> j < length (agent_names n) \<and> (agent_names n ! i, agent_names n ! j) \<in> passes inp"
proof -
  let ?N = "agent_names n" and ?idx = "number 0 (agent_names n) []" and ?m = "access_index n"
  let ?E = "\<lambda>x y. \<exists>e \<in> set (n_edges n). x = idx_of ?idx (ge_from e) \<and> y = idx_of ?idx (ge_to e)"
  let ?S = "\<lambda>x y. \<exists>r \<in> set (n_resources n). gr_Kind r = StoreKey \<and> (\<exists>w \<in> set (m_list (am_writers ?m) (gr_ID r)).
          \<exists>d \<in> set (m_list (am_readers ?m) (gr_ID r)). w \<noteq> d \<and> x = idx_of ?idx w \<and> y = idx_of ?idx d)"
  have ok: "input_ok inp" using n normalize_ok by blast
  have d: "distinct ?N" and ids: "set ?N = agent_ids inp" using agent_names_ids[OF n] by auto
  have "holds (replicate (length (n_agents n)) []) (\<lambda>_ _. False)" by (simp add: holds_def)
  from holds_edge_arcs[OF this, of ?idx "n_edges n"]
  have e: "length (edge_arcs ?idx (n_edges n) (replicate (length (n_agents n)) [])) = length ?N"
    "holds (edge_arcs ?idx (n_edges n) (replicate (length (n_agents n)) [])) (\<lambda>x y. False \<or> ?E x y)"
    by (simp_all add: agent_names_def)
  from holds_store_arcs[OF e(2), of ?idx ?m "n_resources n"] e(1)
  have h: "length (table n) = length ?N" "holds (table n) (\<lambda>x y. (False \<or> ?E x y) \<or> ?S x y)"
    by (simp_all add: table_def one_hop_def)
  show "length (table n) = length ?N" by (rule h(1))
  have at: "x = idx_of ?idx w \<longleftrightarrow> ?N ! x = w" if "x < length ?N" "w \<in> agent_ids inp" for x w
    using idx_of_number[OF d that(1)] that(2) ids by simp
  have lt: "idx_of ?idx w < length ?N" if "w \<in> agent_ids inp" for w
  proof -
    have "w \<in> set ?N" using that ids by simp
    then show ?thesis by (auto simp: idx_of_def in_set_conv_nth number_nth[OF d])
  qed
  have mem: "?N ! x \<in> agent_ids inp" if "x < length ?N" for x using nth_mem[OF that] ids by simp
  have edges: "set (n_edges n) = {e \<in> set (in_edges inp). ge_from e \<noteq> ge_to e}"
    by (simp add: normalize_fields(3)[OF n])
  have ress: "set (n_resources n) = set (in_resources inp)"
    by (simp add: normalize_fields(2)[OF n] sortResources_def)
  have E: "?E i j \<longleftrightarrow> j < length ?N \<and> ?N ! i \<noteq> ?N ! j \<and> GEdge (?N ! i) (?N ! j) \<in> set (in_edges inp)"
  proof
    assume "?E i j"
    then obtain e where e: "e \<in> set (in_edges inp)" "ge_from e \<noteq> ge_to e" "i = idx_of ?idx (ge_from e)" "j = idx_of ?idx (ge_to e)"
      using edges by auto
    then have "ge_from e \<in> agent_ids inp" "ge_to e \<in> agent_ids inp" using ok by (auto simp: input_ok_def)
    with e at i lt show "j < length ?N \<and> ?N ! i \<noteq> ?N ! j \<and> GEdge (?N ! i) (?N ! j) \<in> set (in_edges inp)"
      by (metis gedge.collapse)
  next
    assume j: "j < length ?N \<and> ?N ! i \<noteq> ?N ! j \<and> GEdge (?N ! i) (?N ! j) \<in> set (in_edges inp)"
    then have "i = idx_of ?idx (?N ! i)" "j = idx_of ?idx (?N ! j)" using at[OF i mem[OF i]] at[OF _ mem] by auto
    with j edges show "?E i j" by (intro bexI[of _ "GEdge (?N ! i) (?N ! j)"]) simp_all
  qed
  have S: "?S i j \<longleftrightarrow> j < length ?N \<and> ?N ! i \<noteq> ?N ! j \<and> (\<exists>r \<in> set (in_resources inp). gr_Kind r = StoreKey \<and>
      GAccess (?N ! i) (gr_ID r) True \<in> set (in_access inp) \<and> GAccess (?N ! j) (gr_ID r) False \<in> set (in_access inp))"
  proof
    assume "?S i j"
    then obtain r w t where r: "r \<in> set (in_resources inp)" "gr_Kind r = StoreKey" and w: "GAccess w (gr_ID r) True \<in> set (in_access inp)"
      and t: "GAccess t (gr_ID r) False \<in> set (in_access inp)" and wt: "w \<noteq> t" "i = idx_of ?idx w" "j = idx_of ?idx t"
      using store_hop[OF n] ress by auto
    have "w \<in> agent_ids inp" "t \<in> agent_ids inp" using ok w t by (auto simp: input_ok_def)
    with wt at i lt have "?N ! i = w" "?N ! j = t" "j < length ?N" by auto
    with r w t wt show "j < length ?N \<and> ?N ! i \<noteq> ?N ! j \<and> (\<exists>r \<in> set (in_resources inp). gr_Kind r = StoreKey \<and>
      GAccess (?N ! i) (gr_ID r) True \<in> set (in_access inp) \<and> GAccess (?N ! j) (gr_ID r) False \<in> set (in_access inp))" by auto
  next
    assume j: "j < length ?N \<and> ?N ! i \<noteq> ?N ! j \<and> (\<exists>r \<in> set (in_resources inp). gr_Kind r = StoreKey \<and>
      GAccess (?N ! i) (gr_ID r) True \<in> set (in_access inp) \<and> GAccess (?N ! j) (gr_ID r) False \<in> set (in_access inp))"
    then obtain r where r: "r \<in> set (in_resources inp)" "gr_Kind r = StoreKey"
      "?N ! i \<in> set (m_list (am_writers ?m) (gr_ID r))" "?N ! j \<in> set (m_list (am_readers ?m) (gr_ID r))"
      using store_hop[OF n] by auto
    have "i = idx_of ?idx (?N ! i)" "j = idx_of ?idx (?N ! j)" using j at[OF i mem[OF i]] at[OF _ mem] by auto
    with r j ress show "?S i j" by blast
  qed
  have "j \<in> set (table n ! i) \<longleftrightarrow> ?E i j \<or> ?S i j" using h i by (simp add: holds_def)
  also have "\<dots> \<longleftrightarrow> j < length ?N \<and> (?N ! i, ?N ! j) \<in> passes inp"
    unfolding E S passes_def by blast
  finally show "j \<in> set (table n ! i) \<longleftrightarrow> j < length ?N \<and> (?N ! i, ?N ! j) \<in> passes inp" .
qed

section \<open>The hop counts\<close>

text \<open>The nodes of an adjacency table whose entries are all in range.\<close>

definition nodes :: "nat list list \<Rightarrow> nat set" where
  "nodes adj = (if \<forall>i < length adj. \<forall>j \<in> set (adj ! i). j < length adj then {..<length adj} else {})"

interpretation hop: bfs hop_seen hop_mark "\<lambda>_ d. d" "(!) adj" "nodes adj"
  "\<lambda>d. length d = length adj \<and> (\<forall>i \<in> nodes adj. -1 \<le> d ! i)" "\<lambda>d i. nat (d ! i)" for adj
proof unfold_locales
  show "finite (nodes adj)" by (simp add: nodes_def)
  fix x assume "x \<in> nodes adj"
  then show "set (adj ! x) \<subseteq> nodes adj" by (auto simp: nodes_def split: if_splits)
qed (force simp: hop_seen_def hop_mark_def nodes_def nth_list_update split: if_splits)+

lemma nodes_table: "normalize inp = Inr n \<Longrightarrow> nodes (table n) = {..<length (agent_names n)}"
proof (cases "agent_names n = []")
  case True
  assume n: "normalize inp = Inr n"
  have "length (table n) = length (agent_names n)"
    using holds_store_arcs[OF conjunct2[OF holds_edge_arcs[of "replicate (length (n_agents n)) []" "\<lambda>_ _. False"]]]
      holds_edge_arcs[of "replicate (length (n_agents n)) []" "\<lambda>_ _. False"]
    by (simp add: table_def one_hop_def agent_names_def holds_def)
  with True show ?thesis by (simp add: nodes_def)
next
  case False
  assume n: "normalize inp = Inr n"
  have l: "length (table n) = length (agent_names n)" using table_arcs(1)[OF n] False by blast
  show ?thesis unfolding nodes_def l using table_arcs(2)[OF n] by auto
qed

definition arcs_of :: "normalized \<Rightarrow> (nat \<times> nat) set" where
  "arcs_of n = hop.arcs (table n)"

lemma arcs_of_iff: "(i, j) \<in> arcs_of n \<longleftrightarrow> i \<in> nodes (table n) \<and> j \<in> set (table n ! i)"
  by (simp add: arcs_of_def hop.arcs_def)

lemma arcs_table:
  "normalize inp = Inr n \<Longrightarrow> i < length (agent_names n) \<Longrightarrow>
     (i, j) \<in> arcs_of n \<longleftrightarrow> j < length (agent_names n) \<and> (agent_names n ! i, agent_names n ! j) \<in> passes inp"
  by (simp add: arcs_of_iff nodes_table table_arcs)

text \<open>A path on indices is a path on names.\<close>

lemma path_table:
  assumes n: "normalize inp = Inr n" and i: "i < length (agent_names n)"
  shows "j < length (agent_names n) \<Longrightarrow>
    (i, j) \<in> arcs_of n ^^ k \<longleftrightarrow> (agent_names n ! i, agent_names n ! j) \<in> passes inp ^^ k"
proof (induction k arbitrary: j)
  case 0
  then show ?case using i agent_names_ids[OF n] by (simp add: nth_eq_iff_index_eq)
next
  case (Suc k)
  have "input_ok inp" using n normalize_ok by blast
  then have step: "x \<in> set (agent_names n)" if "(x, y) \<in> passes inp" for x y
    using passes_in[OF _ that] agent_names_ids[OF n] by simp
  have "(i, j) \<in> arcs_of n ^^ Suc k \<longleftrightarrow>
      (\<exists>m < length (agent_names n). (i, m) \<in> arcs_of n ^^ k \<and> (m, j) \<in> arcs_of n)"
    by (auto simp: relcomp_unfold arcs_of_iff nodes_table[OF n])
  also have "\<dots> \<longleftrightarrow> (\<exists>m < length (agent_names n). (agent_names n ! i, agent_names n ! m) \<in> passes inp ^^ k \<and>
      (agent_names n ! m, agent_names n ! j) \<in> passes inp)"
    using Suc arcs_table[OF n] by auto
  also have "\<dots> \<longleftrightarrow> (agent_names n ! i, agent_names n ! j) \<in> passes inp ^^ Suc k"
  proof
    assume "(agent_names n ! i, agent_names n ! j) \<in> passes inp ^^ Suc k"
    then obtain x where x: "(agent_names n ! i, x) \<in> passes inp ^^ k" "(x, agent_names n ! j) \<in> passes inp" by auto
    then obtain m where "m < length (agent_names n)" "agent_names n ! m = x" using step by (auto simp: in_set_conv_nth)
    with x show "\<exists>m < length (agent_names n). (agent_names n ! i, agent_names n ! m) \<in> passes inp ^^ k \<and>
      (agent_names n ! m, agent_names n ! j) \<in> passes inp" by auto
  qed auto
  finally show ?case .
qed

definition shortest :: "('a \<times> 'a) set \<Rightarrow> 'a \<Rightarrow> 'a \<Rightarrow> nat \<Rightarrow> bool" where
  "shortest R x y k \<longleftrightarrow> (x, y) \<in> R ^^ k \<and> (\<forall>m. (x, y) \<in> R ^^ m \<longrightarrow> k \<le> m)"

lemma hops_row_spec:
  assumes n: "normalize inp = Inr n" and i: "i < length (agent_names n)"
  shows "\<exists>d. hops_row (table n) i = Some d \<and>
    (\<forall>j < length (agent_names n). \<forall>k. (0 \<le> d ! j \<and> nat (d ! j) = k) \<longleftrightarrow>
       shortest (passes inp) (agent_names n ! i) (agent_names n ! j) k)"
proof -
  let ?N = "length (agent_names n)" and ?d0 = "(replicate (length (table n)) (-1 :: int))[i := 0]"
  have l: "length (table n) = ?N" by (rule table_arcs(1)[OF n i])
  have v: "nodes (table n) = {..<?N}" by (rule nodes_table[OF n])
  have "length ?d0 = length (table n) \<and> (\<forall>x \<in> nodes (table n). -1 \<le> ?d0 ! x)" and "i \<in> nodes (table n)"
    and "\<forall>x \<in> nodes (table n). hop_seen ?d0 x \<longleftrightarrow> x = i" and "nat (?d0 ! i) = 0"
    using i l by (auto simp: v hop_seen_def nth_list_update)
  from hop.bfs_shortest[OF this, folded arcs_of_def] obtain d where
    d: "search hop_seen hop_mark (\<lambda>_ d. d) ((!) (table n)) [i] ?d0 = Some d" "\<forall>x \<in> nodes (table n). -1 \<le> d ! x"
    and s: "\<forall>x \<in> nodes (table n). (hop_seen d x \<longleftrightarrow> (i, x) \<in> (arcs_of n)\<^sup>*) \<and>
      (hop_seen d x \<longrightarrow> (i, x) \<in> arcs_of n ^^ nat (d ! x) \<and>
        (\<forall>k. (i, x) \<in> arcs_of n ^^ k \<longrightarrow> nat (d ! x) \<le> k))" by blast
  have "(0 \<le> d ! j \<and> nat (d ! j) = k) \<longleftrightarrow> shortest (passes inp) (agent_names n ! i) (agent_names n ! j) k"
    if j: "j < ?N" for j k
  proof -
    have seen: "hop_seen d j \<longleftrightarrow> 0 \<le> d ! j" using d(2) j by (force simp: v hop_seen_def)
    have p: "(i, j) \<in> arcs_of n ^^ m \<longleftrightarrow> (agent_names n ! i, agent_names n ! j) \<in> passes inp ^^ m" for m
      by (rule path_table[OF n i j])
    have jn: "j \<in> nodes (table n)" using j v by simp
    have at: "shortest (passes inp) (agent_names n ! i) (agent_names n ! j) (nat (d ! j))" if "hop_seen d j"
      using s jn that unfolding shortest_def p [symmetric] by blast
    have "hop_seen d j" if "shortest (passes inp) (agent_names n ! i) (agent_names n ! j) k"
      using s jn that relpow_imp_rtrancl[of "(i, j)" k] unfolding shortest_def p [symmetric] by blast
    then show ?thesis using at seen by (auto simp: shortest_def intro: antisym)
  qed
  with d(1) show ?thesis by (auto simp: hops_row_def bfsHops_def)
qed

lemma those_map: "(\<And>i. i \<in> set xs \<Longrightarrow> f i = Some (g i)) \<Longrightarrow> those (map f xs) = Some (map g xs)"
  by (induction xs) auto

text \<open>The closure is always computed, and its table is the shortest paths.\<close>

lemma transitiveClosure_Inr:
  assumes n: "normalize inp = Inr n"
  shows "\<exists>hops. transitiveClosure inp = Some (Inr \<lparr>cl_Agents = agent_names n, cl_Hops = hops,
      cl_idx = number 0 (agent_names n) [], cl_resourcesOf = am_resourcesOf (access_index n)\<rparr>) \<and>
    (\<forall>i < length (agent_names n). \<forall>j < length (agent_names n). \<forall>k.
       (0 \<le> hops ! i ! j \<and> nat (hops ! i ! j) = k) \<longleftrightarrow> shortest (passes inp) (agent_names n ! i) (agent_names n ! j) k)"
proof -
  let ?N = "length (agent_names n)"
  obtain g where g: "\<And>i. i < ?N \<Longrightarrow> hops_row (table n) i = Some (g i) \<and>
      (\<forall>j < ?N. \<forall>k. (0 \<le> g i ! j \<and> nat (g i ! j) = k) \<longleftrightarrow> shortest (passes inp) (agent_names n ! i) (agent_names n ! j) k)"
    using hops_row_spec[OF n] by metis
  then have "those (map (hops_row (table n)) [0..<?N]) = Some (map g [0..<?N])" by (intro those_map) auto
  then have "transitiveClosure inp = Some (Inr \<lparr>cl_Agents = agent_names n, cl_Hops = map g [0..<?N],
      cl_idx = number 0 (agent_names n) [], cl_resourcesOf = am_resourcesOf (access_index n)\<rparr>)"
    by (simp add: transitiveClosure_def n Let_def table_def [symmetric])
  with g show ?thesis by (intro exI[of _ "map g [0..<?N]"]) auto
qed

lemma hopsBetween_Some:
  assumes n: "normalize inp = Inr n" and c: "transitiveClosure inp = Some (Inr c)"
  shows "hopsBetween c a b = Some k \<longleftrightarrow> a \<in> agent_ids inp \<and> b \<in> agent_ids inp \<and> shortest (passes inp) a b k"
proof -
  let ?N = "agent_names n"
  obtain hops where h: "c = \<lparr>cl_Agents = ?N, cl_Hops = hops, cl_idx = number 0 ?N [], cl_resourcesOf = am_resourcesOf (access_index n)\<rparr>"
    and s: "\<forall>i < length ?N. \<forall>j < length ?N. \<forall>k. (0 \<le> hops ! i ! j \<and> nat (hops ! i ! j) = k) \<longleftrightarrow> shortest (passes inp) (?N ! i) (?N ! j) k"
    using transitiveClosure_Inr[OF n] c by auto
  have d: "distinct ?N" and ids: "set ?N = agent_ids inp" using agent_names_ids[OF n] by auto
  have "hopsBetween c a b = Some k \<longleftrightarrow>
      (\<exists>i j. i < length ?N \<and> ?N ! i = a \<and> j < length ?N \<and> ?N ! j = b \<and> 0 \<le> hops ! i ! j \<and> nat (hops ! i ! j) = k)"
  proof
    assume "hopsBetween c a b = Some k"
    then show "\<exists>i j. i < length ?N \<and> ?N ! i = a \<and> j < length ?N \<and> ?N ! j = b \<and> 0 \<le> hops ! i ! j \<and> nat (hops ! i ! j) = k"
      unfolding hopsBetween_def h by (auto simp: Let_def number_Some[OF d] split: option.splits if_splits) (metis not_less)
  next
    assume "\<exists>i j. i < length ?N \<and> ?N ! i = a \<and> j < length ?N \<and> ?N ! j = b \<and> 0 \<le> hops ! i ! j \<and> nat (hops ! i ! j) = k"
    then show "hopsBetween c a b = Some k"
      unfolding hopsBetween_def h by (auto simp: number_nth[OF d])
  qed
  also have "\<dots> \<longleftrightarrow> (\<exists>i j. i < length ?N \<and> ?N ! i = a \<and> j < length ?N \<and> ?N ! j = b \<and> shortest (passes inp) a b k)"
    using s by blast
  also have "\<dots> \<longleftrightarrow> a \<in> agent_ids inp \<and> b \<in> agent_ids inp \<and> shortest (passes inp) a b k"
    unfolding ids [symmetric] by (auto simp: in_set_conv_nth)
  finally show ?thesis .
qed

section \<open>Shared resources\<close>

fun uniq :: "'a list \<Rightarrow> 'a list \<Rightarrow> 'a list" where
  "uniq acc [] = acc"
| "uniq acc (x # xs) = uniq (if x \<in> set acc then acc else acc @ [x]) xs"

lemma uniq_set [simp]: "set (uniq acc xs) = set acc \<union> set xs"
  by (induction acc xs rule: uniq.induct) auto

lemma uniq_distinct: "distinct acc \<Longrightarrow> distinct (uniq acc xs)"
  by (induction acc xs rule: uniq.induct) auto

lemma uniq_sorted: "sorted (acc @ xs) \<Longrightarrow> sorted (uniq acc xs)"
  by (induction acc xs rule: uniq.induct) (auto simp: sorted_append)

lemma index_access_resources:
  "m_list (am_resourcesOf (index_access ridx as m)) a =
     uniq (m_list (am_resourcesOf m) a) (map ac_res (filter (\<lambda>x. ac_agent x = a) as))"
  by (induction ridx as m rule: index_access.induct) (auto simp: Let_def)

lemma sorted_resources: "sorted as \<Longrightarrow> sorted (map ac_res (filter (\<lambda>x. ac_agent x = a) as))"
  by (induction as) (auto simp: less_eq_gaccess_def)

lemma resourcesOf_spec:
  assumes n: "normalize inp = Inr n"
  shows "sorted (m_list (am_resourcesOf (access_index n)) a) \<and> distinct (m_list (am_resourcesOf (access_index n)) a) \<and>
    set (m_list (am_resourcesOf (access_index n)) a) = {ac_res x | x. x \<in> set (in_access inp) \<and> ac_agent x = a}"
proof -
  have "sorted (n_access n)" and "set (n_access n) = set (in_access inp)"
    by (simp_all add: normalize_fields(4)[OF n])
  then show ?thesis
    using uniq_sorted[of "[]"] sorted_resources uniq_distinct[of "[]"]
    by (auto simp: access_index_def index_access_resources)
qed

lemma merge_shared_spec:
  "sorted xs \<Longrightarrow> distinct xs \<Longrightarrow> sorted ys \<Longrightarrow> distinct ys \<Longrightarrow>
     set (merge_shared xs ys) = set xs \<inter> set ys \<and> sorted (merge_shared xs ys) \<and> distinct (merge_shared xs ys)"
  by (induction xs ys rule: merge_shared.induct) (auto split: if_splits)

end
