(* ===== verification/Graph_Layout.thy ===== *)
theory Graph_Layout
  imports Graph Graph_Search
begin

text \<open>
  \<^verbatim>\<open>internal/graph/layout.go\<close>: the placement of agents and resources on a grid and the
  routing of edges. Grid coordinates are naturals (they are only ever counted up from zero). The
  result is \<open>None\<close> where one of the searches would not return.
\<close>

section \<open>The code\<close>

datatype node = AgentNode string | ResourceNode string

type_synonym point = "nat \<times> nat"

record placed =
  pn_node :: node
  pn_pos :: point
  pn_group :: string
  pn_kind :: resourceKind

datatype edgeKind = EdgeMessage | EdgeRead | EdgeWrite

record routed =
  re_from :: node
  re_to :: node
  re_kind :: edgeKind
  re_path :: "point list"

record placement =
  pl_nodes :: "placed list"
  pl_edges :: "routed list"
  pl_width :: nat
  pl_height :: nat

definition nodeGap :: nat where "nodeGap = 1"

definition nb_add :: "string \<Rightarrow> string \<Rightarrow> (string, (string, bool) gmap) gmap \<Rightarrow> (string, (string, bool) gmap) gmap" where
  "nb_add a b s = m_put a (m_put b True (case m_get s a of None \<Rightarrow> [] | Some r \<Rightarrow> r)) s"

fun nb_sets :: "gedge list \<Rightarrow> (string, (string, bool) gmap) gmap \<Rightarrow> (string, (string, bool) gmap) gmap" where
  "nb_sets [] s = s"
| "nb_sets (e # es) s = nb_sets es (nb_add (ge_to e) (ge_from e) (nb_add (ge_from e) (ge_to e) s))"

definition undirected :: "normalized \<Rightarrow> (string, string list) gmap" where
  "undirected n = map (\<lambda>(a, r). (a, sort (m_keys r))) (nb_sets (n_edges n) [])"

definition comp_seen :: "string list \<times> string list \<Rightarrow> string \<Rightarrow> bool" where
  "comp_seen d x \<longleftrightarrow> x \<in> set (fst d)"

definition comp_mark :: "string \<Rightarrow> string \<Rightarrow> string list \<times> string list \<Rightarrow> string list \<times> string list" where
  "comp_mark cur n d = (n # fst d, snd d)"

definition comp_visit :: "string \<Rightarrow> string list \<times> string list \<Rightarrow> string list \<times> string list" where
  "comp_visit cur d = (fst d, snd d @ [cur])"

fun components_loop ::
  "(string \<Rightarrow> string list) \<Rightarrow> gagent list \<Rightarrow> string list \<Rightarrow> string list list option" where
  "components_loop adj [] visited = Some []"
| "components_loop adj (a # as) visited =
     (if ga_ID a \<in> set visited then components_loop adj as visited
      else case search comp_seen comp_mark comp_visit adj [ga_ID a] (ga_ID a # visited, []) of
             None \<Rightarrow> None
           | Some (visited', memb) \<Rightarrow> map_option ((#) (sort memb)) (components_loop adj as visited'))"

definition components :: "normalized \<Rightarrow> string list list option" where
  "components n = components_loop (m_list (undirected n)) (n_agents n) []"

fun hub_loop :: "(string \<Rightarrow> string list) \<Rightarrow> string \<Rightarrow> int \<Rightarrow> string list \<Rightarrow> string" where
  "hub_loop adj best deg [] = best"
| "hub_loop adj best deg (a # as) =
     (let d = int (length (adj a))
      in if d > deg \<or> (d = deg \<and> a < best) then hub_loop adj a d as else hub_loop adj best deg as)"

definition hub :: "string list \<Rightarrow> normalized \<Rightarrow> string" where
  "hub memb n = hub_loop (m_list (undirected n)) (hd memb) (-1) memb"

definition row_of :: "(string, nat) gmap \<Rightarrow> string \<Rightarrow> nat" where
  "row_of rows a = (case m_get rows a of None \<Rightarrow> 0 | Some k \<Rightarrow> k)"

definition row_seen :: "(string, nat) gmap \<Rightarrow> string \<Rightarrow> bool" where
  "row_seen rows a \<longleftrightarrow> m_get rows a \<noteq> None"

definition row_mark :: "string \<Rightarrow> string \<Rightarrow> (string, nat) gmap \<Rightarrow> (string, nat) gmap" where
  "row_mark cur n rows = m_put n (row_of rows cur + 1) rows"

definition bfsRows :: "string \<Rightarrow> normalized \<Rightarrow> (string, nat) gmap option" where
  "bfsRows root n = search row_seen row_mark (\<lambda>_ d. d) (m_list (undirected n)) [root] [(root, 0)]"

definition row_members :: "(string, nat) gmap \<Rightarrow> nat \<Rightarrow> string list" where
  "row_members rows r = sort (map fst (filter (\<lambda>(a, k). k = r) rows))"

definition max_row :: "(string, nat) gmap \<Rightarrow> nat" where
  "max_row rows = foldl (\<lambda>m (a, k). if k > m then k else m) 0 rows"

definition comp_width :: "(string, nat) gmap \<Rightarrow> nat" where
  "comp_width rows =
     foldl (\<lambda>w r. let k = length (row_members rows r) in if k > w then k else w) 0 [0..<Suc (max_row rows)]"

definition group_of :: "normalized \<Rightarrow> string \<Rightarrow> string" where
  "group_of n a = ga_Group (n_agents n ! (case m_get (n_agentIdx n) a of None \<Rightarrow> 0 | Some i \<Rightarrow> i))"

fun place_row :: "normalized \<Rightarrow> nat \<Rightarrow> nat \<Rightarrow> string list \<Rightarrow> placed list" where
  "place_row n x y [] = []"
| "place_row n x y (a # as) =
     \<lparr>pn_node = AgentNode a, pn_pos = (x, y), pn_group = group_of n a, pn_kind = Domain\<rparr> # place_row n (Suc x) y as"

definition place_comp :: "normalized \<Rightarrow> nat \<Rightarrow> (string, nat) gmap \<Rightarrow> placed list" where
  "place_comp n x rows = concat (map (\<lambda>r. place_row n x r (row_members rows r)) [0..<Suc (max_row rows)])"

fun place_comps :: "normalized \<Rightarrow> nat \<Rightarrow> int \<Rightarrow> string list list \<Rightarrow> (placed list \<times> int) option" where
  "place_comps n x maxRow [] = Some ([], maxRow)"
| "place_comps n x maxRow (c # cs) =
     (case bfsRows (hub c n) n of
        None \<Rightarrow> None
      | Some rows \<Rightarrow>
          map_option (\<lambda>(ns, m). (place_comp n x rows @ ns, m))
            (place_comps n (x + (comp_width rows + nodeGap)) (max maxRow (int (max_row rows))) cs))"

fun place_kind :: "nat \<Rightarrow> nat \<Rightarrow> gresource list \<Rightarrow> placed list" where
  "place_kind col row [] = []"
| "place_kind col row (r # rs) =
     \<lparr>pn_node = ResourceNode (gr_ID r), pn_pos = (col, row), pn_group = [], pn_kind = gr_Kind r\<rparr>
       # place_kind (Suc col) row rs"

fun place_kinds :: "nat \<Rightarrow> resourceKind list \<Rightarrow> gresource list \<Rightarrow> placed list" where
  "place_kinds row [] rs = []"
| "place_kinds row (k # ks) rs =
     (let ns = place_kind 0 row (filter (\<lambda>r. gr_Kind r = k) rs)
      in ns @ place_kinds (if ns = [] then row else Suc row) ks rs)"

text \<open>The position map is written with every node placed, in the same order.\<close>

definition positions :: "placed list \<Rightarrow> (node, point) gmap" where
  "positions ns = foldl (\<lambda>m p. m_put (pn_node p) (pn_pos p) m) [] ns"

definition pos_at :: "(node, point) gmap \<Rightarrow> node \<Rightarrow> point" where
  "pos_at pos v = (case m_get pos v of None \<Rightarrow> (0, 0) | Some p \<Rightarrow> p)"

definition route :: "point \<Rightarrow> point \<Rightarrow> point list" where
  "route a b = (if fst a = fst b \<or> snd a = snd b then [a, b] else [a, (fst a, snd b), b])"

definition route_edge :: "(node, point) gmap \<Rightarrow> gedge \<Rightarrow> routed" where
  "route_edge pos e = \<lparr>re_from = AgentNode (ge_from e), re_to = AgentNode (ge_to e), re_kind = EdgeMessage,
     re_path = route (pos_at pos (AgentNode (ge_from e))) (pos_at pos (AgentNode (ge_to e)))\<rparr>"

definition route_access :: "(node, point) gmap \<Rightarrow> gaccess \<Rightarrow> routed" where
  "route_access pos a = \<lparr>re_from = AgentNode (ac_agent a), re_to = ResourceNode (ac_res a),
     re_kind = (if ac_write a then EdgeWrite else EdgeRead),
     re_path = route (pos_at pos (AgentNode (ac_agent a))) (pos_at pos (ResourceNode (ac_res a)))\<rparr>"

definition extent :: "(point \<Rightarrow> nat) \<Rightarrow> placed list \<Rightarrow> nat" where
  "extent f ns = foldl (\<lambda>w p. if f (pn_pos p) + 1 > w then f (pn_pos p) + 1 else w) 0 ns"

definition layout :: "ginput \<Rightarrow> (graph_error + placement) option" where
  "layout inp =
     (case normalize inp of
        Inl e \<Rightarrow> Some (Inl e)
      | Inr n \<Rightarrow>
          (case components n of
             None \<Rightarrow> None
           | Some comps \<Rightarrow>
               (case place_comps n 0 (-1) comps of
                  None \<Rightarrow> None
                | Some (ans, maxAgentRow) \<Rightarrow>
                    let row = (if maxAgentRow \<ge> 0 then nat (maxAgentRow + 1) + nodeGap else 0);
                        ns = ans @ place_kinds row [Domain, StoreKey, Secret] (n_resources n);
                        pos = positions ns
                    in Some (Inr \<lparr>pl_nodes = ns,
                         pl_edges = map (route_edge pos) (n_edges n) @ map (route_access pos) (n_access n),
                         pl_width = extent fst ns, pl_height = extent snd ns\<rparr>))))"

section \<open>The undirected graph\<close>

definition linked :: "normalized \<Rightarrow> string \<Rightarrow> string \<Rightarrow> bool" where
  "linked n a b \<longleftrightarrow> GEdge a b \<in> set (n_edges n) \<or> GEdge b a \<in> set (n_edges n)"

lemma linked_sym: "linked n a b \<longleftrightarrow> linked n b a"
  by (auto simp: linked_def)

definition nb_row :: "(string, (string, bool) gmap) gmap \<Rightarrow> string \<Rightarrow> (string, bool) gmap" where
  "nb_row s a = (case m_get s a of None \<Rightarrow> [] | Some r \<Rightarrow> r)"

lemma nb_row_add: "nb_row (nb_add a b s) c = (if c = a then m_put b True (nb_row s a) else nb_row s c)"
  by (simp add: nb_row_def nb_add_def)

lemma nb_sets_row:
  "(\<forall>c. m_ok (nb_row s c)) \<Longrightarrow>
     m_ok (nb_row (nb_sets es s) a) \<and>
     (b \<in> set (m_keys (nb_row (nb_sets es s) a)) \<longleftrightarrow>
        b \<in> set (m_keys (nb_row s a)) \<or> GEdge a b \<in> set es \<or> GEdge b a \<in> set es)"
proof (induction es s rule: nb_sets.induct)
  case (2 e es s)
  let ?s = "nb_add (ge_to e) (ge_from e) (nb_add (ge_from e) (ge_to e) s)"
  have ok: "\<forall>c. m_ok (nb_row ?s c)" using "2.prems" by (auto simp: nb_row_add)
  obtain x y where e: "e = GEdge x y" by (cases e)
  from "2.IH"[OF ok] show ?case by (auto simp: nb_row_add e split: if_splits)
qed simp

lemma undirected_list: "m_list (undirected n) a = sort (m_keys (nb_row (nb_sets (n_edges n) []) a))"
  by (simp add: m_list_def undirected_def nb_row_def m_keys_def split: option.split)

lemma undirected_spec:
  "distinct (m_list (undirected n) a) \<and> (b \<in> set (m_list (undirected n) a) \<longleftrightarrow> linked n a b)"
proof -
  have "\<forall>c. m_ok (nb_row [] c)" by (simp add: nb_row_def)
  from nb_sets_row[OF this, of "n_edges n" a b] show ?thesis
    using gm.distinct_keys[of "nb_row (nb_sets (n_edges n) []) a"]
    by (auto simp: undirected_list linked_def nb_row_def[of "[]"] m_keys_def[of "[]"] simp del: gm.set_keys)
qed

section \<open>The searches\<close>

definition gnames :: "normalized \<Rightarrow> string list" where
  "gnames n = map ga_ID (n_agents n)"

text \<open>The agents, where no edge leads out of them.\<close>

definition unodes :: "normalized \<Rightarrow> string set" where
  "unodes n = (if \<forall>a \<in> set (gnames n). set (m_list (undirected n) a) \<subseteq> set (gnames n)
     then set (gnames n) else {})"

lemma unodes_closed: "x \<in> unodes n \<Longrightarrow> set (m_list (undirected n) x) \<subseteq> unodes n"
  by (auto simp: unodes_def split: if_splits)

lemma finite_unodes: "finite (unodes n)"
  by (simp add: unodes_def)

interpretation cmp: traversal comp_seen comp_mark comp_visit "m_list (undirected n)" "unodes n" "\<lambda>d. set (fst d) \<subseteq> unodes n" snd for n
  by unfold_locales (auto simp: comp_seen_def comp_mark_def comp_visit_def finite_unodes dest: unodes_closed)

interpretation rws: bfs row_seen row_mark "\<lambda>_ d. d" "m_list (undirected n)" "unodes n"
  "\<lambda>d. m_ok d \<and> dom (m_get d) \<subseteq> unodes n" row_of for n
  by unfold_locales (auto simp: row_seen_def row_mark_def row_of_def finite_unodes dest: unodes_closed subsetD[OF _ domI] split: if_splits)

lemma unodes_agents: "normalize inp = Inr n \<Longrightarrow> unodes n = set (gnames n) \<and> set (gnames n) = agent_ids inp \<and> distinct (gnames n)"
proof -
  assume n: "normalize inp = Inr n"
  then have ok: "input_ok inp" using normalize_ok by blast
  have ids: "set (gnames n) = agent_ids inp" and d: "distinct (gnames n)"
    using ok by (simp_all add: gnames_def normalize_fields(1)[OF n] sortAgents_def agent_ids_def input_ok_def)
  have "linked n a b \<Longrightarrow> b \<in> agent_ids inp" for a b
    using ok by (auto simp: linked_def normalize_fields(3)[OF n] input_ok_def)
  then show ?thesis using undirected_spec ids d by (auto simp: unodes_def)
qed

definition ties :: "normalized \<Rightarrow> (string \<times> string) set" where
  "ties n = {(a, b). linked n a b}"

lemma ties_sym: "(a, b) \<in> (ties n)\<^sup>* \<longleftrightarrow> (b, a) \<in> (ties n)\<^sup>*"
proof -
  have "sym (ties n)" using linked_sym[of n] by (auto simp: sym_def ties_def)
  then show ?thesis by (meson sym_rtrancl symD)
qed

lemma ties_arcs: "normalize inp = Inr n \<Longrightarrow> cmp.arcs n = ties n" "normalize inp = Inr n \<Longrightarrow> rws.arcs n = ties n"
proof -
  assume n: "normalize inp = Inr n"
  have "linked n a b \<Longrightarrow> a \<in> unodes n" for a b
    using normalize_ok[of inp] n unodes_agents[OF n]
    by (auto simp: linked_def normalize_fields(3)[OF n] input_ok_def)
  then have "{(x, y). x \<in> unodes n \<and> y \<in> set (m_list (undirected n) x)} = ties n"
    using undirected_spec by (auto simp: ties_def)
  then show "cmp.arcs n = ties n" "rws.arcs n = ties n" by (simp_all add: cmp.arcs_def rws.arcs_def)
qed

text \<open>The agents one can reach from \<open>a\<close> over the edges, in either direction.\<close>

definition component :: "normalized \<Rightarrow> string \<Rightarrow> string set" where
  "component n a = {b. (a, b) \<in> (ties n)\<^sup>*}"

lemma component_refl: "a \<in> component n a"
  by (simp add: component_def)

lemma component_eq: "b \<in> component n a \<Longrightarrow> component n b = component n a"
  unfolding component_def using ties_sym[of a b n] by (auto intro: rtrancl_trans)

lemma component_in: "normalize inp = Inr n \<Longrightarrow> a \<in> set (gnames n) \<Longrightarrow> component n a \<subseteq> set (gnames n)"
proof
  fix b assume n: "normalize inp = Inr n" and a: "a \<in> set (gnames n)" and "b \<in> component n a"
  then have "(a, b) \<in> (ties n)\<^sup>*" by (simp add: component_def)
  then show "b \<in> set (gnames n)"
  proof (induction rule: rtrancl_induct)
    case (step y z)
    then show ?case using unodes_closed[of y n] undirected_spec unodes_agents[OF n] by (auto simp: ties_def)
  qed (rule a)
qed

section \<open>Components\<close>

lemma component_search:
  assumes n: "normalize inp = Inr n" and a: "a \<in> set (gnames n)" and fresh: "a \<notin> set vis"
    and V: "set vis \<subseteq> set (gnames n)" and closed: "\<forall>x \<in> set vis. component n x \<subseteq> set vis"
  shows "\<exists>vis' cs. search comp_seen comp_mark comp_visit (m_list (undirected n)) [a] (a # vis, []) = Some (vis', cs) \<and>
    distinct cs \<and> set cs = component n a \<and> set vis' = set vis \<union> component n a"
proof -
  have u: "unodes n = set (gnames n)" using unodes_agents[OF n] by simp
  have step: "y \<in> set vis" if "x \<in> set vis" "y \<in> set (m_list (undirected n) x)" for x y
  proof -
    have "(x, y) \<in> ties n" using that(2) undirected_spec by (simp add: ties_def)
    then show ?thesis using closed that(1) by (auto simp: component_def)
  qed
  have pre: "set [a] \<subseteq> unodes n" "\<forall>x \<in> set [a]. comp_seen (a # vis, []) x"
    "\<forall>x \<in> unodes n. comp_seen (a # vis, []) x \<longrightarrow> x \<notin> set [a] \<longrightarrow> (\<forall>y \<in> set (m_list (undirected n) x). comp_seen (a # vis, []) y)"
    using a u step by (auto simp: comp_seen_def)
  have ok: "set (fst (a # vis, [] :: string list)) \<subseteq> unodes n" using a u V by simp
  from cmp.search_seen[OF ok pre] obtain d where okd: "set (fst d) \<subseteq> unodes n" and
    d: "search comp_seen comp_mark comp_visit (m_list (undirected n)) [a] (a # vis, []) = Some d"
    and seen: "\<forall>x \<in> unodes n. comp_seen d x \<longleftrightarrow> comp_seen (a # vis, []) x \<or> (\<exists>s \<in> set [a]. (s, x) \<in> (cmp.arcs n)\<^sup>*)"
    by blast
  have pre': "distinct (snd (a # vis, []) @ [a])" "set (snd (a # vis, []) @ [a]) \<inter> set vis = {}"
    "\<forall>x \<in> unodes n. comp_seen (a # vis, []) x \<longleftrightarrow> x \<in> set vis \<or> x \<in> set (snd (a # vis, []) @ [a])"
    "set (snd (a # vis, [])) \<subseteq> unodes n"
    using fresh by (auto simp: comp_seen_def)
  from cmp.search_out[OF ok pre(1) pre'] d have
    out: "distinct (snd d)" "set (snd d) \<inter> set vis = {}" "\<forall>x \<in> unodes n. comp_seen d x \<longleftrightarrow> x \<in> set vis \<or> x \<in> set (snd d)"
    "set (snd d) \<subseteq> unodes n" by auto
  have new: "component n a \<inter> set vis = {}"
  proof -
    have "a \<in> set vis" if "x \<in> component n a" "x \<in> set vis" for x
      using closed that component_eq[OF that(1)] component_refl[of a n] by auto
    with fresh show ?thesis by auto
  qed
  have seen': "comp_seen d x \<longleftrightarrow> x \<in> set vis \<or> x \<in> component n a" if "x \<in> unodes n" for x
    using seen that by (auto simp: comp_seen_def component_def ties_arcs[OF n])
  have cV: "component n a \<subseteq> unodes n" using component_in[OF n a] u by simp
  have "set (snd d) = component n a" using out seen' new cV by blast
  moreover have "set (fst d) = set vis \<union> component n a"
    using okd seen' cV V u by (auto simp: comp_seen_def)
  ultimately show ?thesis using d out(1) by (intro exI[of _ "fst d"] exI[of _ "snd d"]) simp
qed

definition comps_ok :: "normalized \<Rightarrow> string list list \<Rightarrow> bool" where
  "comps_ok n cs \<longleftrightarrow> distinct (concat cs) \<and> sorted (map hd cs) \<and>
     (\<forall>c \<in> set cs. c \<noteq> [] \<and> sorted c \<and> set c = component n (hd c))"

lemma components_loop_spec:
  assumes n: "normalize inp = Inr n"
  shows "sorted (map ga_ID as) \<Longrightarrow> ga_ID ` set as \<subseteq> set (gnames n) \<Longrightarrow> set vis \<subseteq> set (gnames n) \<Longrightarrow>
    \<forall>x \<in> set vis. component n x \<subseteq> set vis \<Longrightarrow> set (gnames n) - set vis \<subseteq> ga_ID ` set as \<Longrightarrow>
    \<exists>cs. components_loop (m_list (undirected n)) as vis = Some cs \<and> comps_ok n cs \<and>
      set (concat cs) = set (gnames n) - set vis \<and> hd ` set cs \<subseteq> ga_ID ` set as"
proof (induction as arbitrary: vis)
  case Nil
  then show ?case by (auto simp: comps_ok_def)
next
  case (Cons a as)
  show ?case
  proof (cases "ga_ID a \<in> set vis")
    case True
    with Cons.prems have "set (gnames n) - set vis \<subseteq> ga_ID ` set as" by auto
    moreover have "sorted (map ga_ID as)" "ga_ID ` set as \<subseteq> set (gnames n)" using Cons.prems by auto
    ultimately obtain cs where "components_loop (m_list (undirected n)) as vis = Some cs" "comps_ok n cs"
      "set (concat cs) = set (gnames n) - set vis" "hd ` set cs \<subseteq> ga_ID ` set as"
      using Cons.IH[of vis] Cons.prems(3,4) by blast
    with True show ?thesis by (intro exI[of _ cs]) (simp, blast)
  next
    case False
    let ?a = "ga_ID a"
    have a: "?a \<in> set (gnames n)" using Cons.prems by simp
    from component_search[OF n a False Cons.prems(3,4)] obtain vis' cs where
      s: "search comp_seen comp_mark comp_visit (m_list (undirected n)) [?a] (?a # vis, []) = Some (vis', cs)"
      and cs: "distinct cs" "set cs = component n ?a" and vis': "set vis' = set vis \<union> component n ?a" by blast
    have new: "component n ?a \<inter> set vis = {}"
    proof -
      have "?a \<in> set vis" if "x \<in> component n ?a" "x \<in> set vis" for x
        using Cons.prems(4) that component_eq[OF that(1)] component_refl[of ?a n] by auto
      with False show ?thesis by auto
    qed
    have sub: "component n ?a \<subseteq> ga_ID ` set (a # as)"
      using new Cons.prems(5) component_in[OF n a] by blast
    then have "\<forall>x \<in> component n ?a. ?a \<le> x" using Cons.prems(1) by auto
    then have hd: "hd (sort cs) = ?a" and ne: "sort cs \<noteq> []"
    proof -
      show "sort cs \<noteq> []" using cs(2) component_refl[of ?a n] by (metis empty_iff set_empty set_sort)
      then have "hd (sort cs) \<in> component n ?a" using cs(2) hd_in_set[of "sort cs"] by simp
      moreover have "hd (sort cs) \<le> ?a"
        using sorted_sort[of cs] cs(2) component_refl[of ?a n] \<open>sort cs \<noteq> []\<close>
        by (metis list.exhaust_sel set_ConsD set_sort sorted_simps(2) order_refl)
      ultimately show "hd (sort cs) = ?a" using \<open>\<forall>x \<in> component n ?a. ?a \<le> x\<close> by force
    qed
    have pre: "sorted (map ga_ID as)" "ga_ID ` set as \<subseteq> set (gnames n)" using Cons.prems by auto
    have pre3: "set vis' \<subseteq> set (gnames n)" unfolding vis' using Cons.prems(3) component_in[OF n a] by blast
    have pre4: "\<forall>x \<in> set vis'. component n x \<subseteq> set vis'"
      unfolding vis' using Cons.prems(4) component_eq[of _ n ?a] by blast
    have pre5: "set (gnames n) - set vis' \<subseteq> ga_ID ` set as"
      unfolding vis' using Cons.prems(5) component_refl[of ?a n] by auto
    from Cons.IH[OF pre pre3 pre4 pre5] obtain rest where
      r: "components_loop (m_list (undirected n)) as vis' = Some rest" "comps_ok n rest"
        "set (concat rest) = set (gnames n) - set vis'" "hd ` set rest \<subseteq> ga_ID ` set as" by blast
    have "comps_ok n (sort cs # rest)"
      using r(2,3,4) cs vis' hd ne Cons.prems(1) unfolding comps_ok_def by auto
    moreover have "set (concat (sort cs # rest)) = set (gnames n) - set vis"
      using r(3) cs(2) vis' new component_in[OF n a] by auto
    moreover have "components_loop (m_list (undirected n)) (a # as) vis = Some (sort cs # rest)"
      using False s r(1) by simp
    ultimately show ?thesis using r(4) hd by (intro exI[of _ "sort cs # rest"]) auto
  qed
qed

lemma components_spec:
  assumes n: "normalize inp = Inr n"
  shows "\<exists>cs. components n = Some cs \<and> comps_ok n cs \<and> set (concat cs) = set (gnames n)"
proof -
  have "sorted (map ga_ID (n_agents n))" by (simp add: normalize_fields(1)[OF n] sortAgents_def)
  from components_loop_spec[OF n this, of "[]"] show ?thesis by (auto simp: components_def gnames_def)
qed

section \<open>The hub and the rows\<close>

definition beats :: "(string \<Rightarrow> string list) \<Rightarrow> string \<Rightarrow> string \<Rightarrow> bool" where
  "beats adj b x \<longleftrightarrow> length (adj x) < length (adj b) \<or> (length (adj x) = length (adj b) \<and> b \<le> x)"

lemma beats_refl: "beats adj b b"
  by (simp add: beats_def)

lemma beats_trans: "beats adj a b \<Longrightarrow> beats adj b c \<Longrightarrow> beats adj a c"
  by (auto simp: beats_def)

lemma hub_loop_spec:
  "deg = int (length (adj best)) \<Longrightarrow>
     hub_loop adj best deg as \<in> insert best (set as) \<and> (\<forall>x \<in> insert best (set as). beats adj (hub_loop adj best deg as) x)"
proof (induction adj best deg as rule: hub_loop.induct)
  case (2 adj best deg a as)
  let ?d = "int (length (adj a))"
  show ?case
  proof (cases "?d > deg \<or> (?d = deg \<and> a < best)")
    case True
    then have "beats adj a best" using "2.prems" by (auto simp: beats_def)
    moreover have "hub_loop adj best deg (a # as) = hub_loop adj a ?d as" by (simp only: hub_loop.simps Let_def True if_True)
    ultimately show ?thesis using "2.IH"(1)[OF refl True refl] by (auto intro: beats_trans)
  next
    case False
    then have "beats adj best a" using "2.prems" by (auto simp: beats_def)
    moreover have "hub_loop adj best deg (a # as) = hub_loop adj best deg as" by (simp only: hub_loop.simps Let_def False if_False)
    ultimately show ?thesis using "2.IH"(2)[OF refl False "2.prems"] by (auto intro: beats_trans)
  qed
qed (simp add: beats_refl)

definition degree :: "normalized \<Rightarrow> string \<Rightarrow> nat" where
  "degree n a = card {b. linked n a b}"

lemma degree_list: "length (m_list (undirected n) a) = degree n a"
proof -
  have "set (m_list (undirected n) a) = {b. linked n a b}" and "distinct (m_list (undirected n) a)"
    using undirected_spec by auto
  then show ?thesis by (metis degree_def distinct_card)
qed

lemma hub_spec:
  "c \<noteq> [] \<Longrightarrow> hub c n \<in> set c \<and>
     (\<forall>x \<in> set c. degree n x < degree n (hub c n) \<or> (degree n x = degree n (hub c n) \<and> hub c n \<le> x))"
proof -
  assume "c \<noteq> []"
  then obtain a as where c: "c = a # as" by (cases c) auto
  let ?adj = "m_list (undirected n)"
  have "hub c n = hub_loop ?adj a (int (length (?adj a))) as" by (simp add: hub_def c)
  then show ?thesis using hub_loop_spec[OF refl, of ?adj a as] by (simp add: c beats_def degree_list)
qed

lemma bfsRows_spec:
  assumes n: "normalize inp = Inr n" and r: "r \<in> set (gnames n)"
  shows "\<exists>rows. bfsRows r n = Some rows \<and> m_ok rows \<and> set (m_keys rows) = component n r \<and>
    (\<forall>x \<in> component n r. (r, x) \<in> ties n ^^ row_of rows x \<and> (\<forall>k. (r, x) \<in> ties n ^^ k \<longrightarrow> row_of rows x \<le> k))"
proof -
  have u: "unodes n = set (gnames n)" using unodes_agents[OF n] by simp
  have cV: "component n r \<subseteq> unodes n" using component_in[OF n r] u by simp
  have one: "m_get [(r, 0 :: nat)] x = (if x = r then Some 0 else None)" for x by (simp add: m_get_def)
  then have "dom (m_get [(r, 0 :: nat)]) = {r}" by (auto simp: dom_def)
  then have "m_ok [(r, 0 :: nat)] \<and> dom (m_get [(r, 0 :: nat)]) \<subseteq> unodes n" and "r \<in> unodes n"
    and "\<forall>x \<in> unodes n. row_seen [(r, 0)] x \<longleftrightarrow> x = r" and "row_of [(r, 0)] r = 0"
    using r u by (simp_all add: row_seen_def row_of_def one m_ok_def)
  from rws.bfs_shortest[OF this, unfolded ties_arcs(2)[OF n], folded bfsRows_def] obtain rows where
    rows: "bfsRows r n = Some rows" "m_ok rows" "dom (m_get rows) \<subseteq> unodes n"
    and s: "\<forall>x \<in> unodes n. (row_seen rows x \<longleftrightarrow> (r, x) \<in> (ties n)\<^sup>*) \<and>
       (row_seen rows x \<longrightarrow> (r, x) \<in> ties n ^^ row_of rows x \<and> (\<forall>k. (r, x) \<in> ties n ^^ k \<longrightarrow> row_of rows x \<le> k))"
    by blast
  have seen: "row_seen rows x \<longleftrightarrow> x \<in> component n r" if "x \<in> unodes n" for x
    using that s by (simp add: component_def)
  have "dom (m_get rows) = component n r"
  proof
    show "dom (m_get rows) \<subseteq> component n r" using rows(3) seen by (auto simp: row_seen_def)
    show "component n r \<subseteq> dom (m_get rows)" using cV seen by (auto simp: row_seen_def)
  qed
  moreover have "(r, x) \<in> ties n ^^ row_of rows x \<and> (\<forall>k. (r, x) \<in> ties n ^^ k \<longrightarrow> row_of rows x \<le> k)"
    if "x \<in> component n r" for x
  proof -
    have x: "x \<in> unodes n" using that cV by blast
    then have "row_seen rows x" using that seen by simp
    with s x show ?thesis by simp
  qed
  ultimately show ?thesis using rows(1,2) by simp
qed

end
