(* ===== verification/Graph_Place.thy ===== *)
theory Graph_Place
  imports Graph_Layout
begin

text \<open>
  What \<^const>\<open>layout\<close> promises: every node placed exactly once, no two on one cell, all inside
  the extent, an agent on the row of its distance from the hub of its component, and every edge
  routed between the places of its ends.
\<close>

lemma foldl_max:
  fixes f :: "'a \<Rightarrow> nat"
  shows "m \<le> foldl (\<lambda>m x. if f x > m then f x else m) m xs \<and>
    (\<forall>x \<in> set xs. f x \<le> foldl (\<lambda>m x. if f x > m then f x else m) m xs)"
proof (induction xs arbitrary: m)
  case (Cons x xs)
  from Cons.IH[of "if f x > m then f x else m"] show ?case by auto
qed simp

lemma distinct_map_append:
  "distinct (map f xs) \<Longrightarrow> distinct (map f ys) \<Longrightarrow> (\<And>p q. p \<in> set xs \<Longrightarrow> q \<in> set ys \<Longrightarrow> f p \<noteq> f q) \<Longrightarrow>
     distinct (map f (xs @ ys))"
  by (auto dest: sym)

lemma extent_bound: "p \<in> set ns \<Longrightarrow> f (pn_pos p) < extent f ns"
  using foldl_max[of 0 "\<lambda>p. f (pn_pos p) + 1" ns] by (auto simp: extent_def)

lemma max_row_bound: "(a, k) \<in> set rows \<Longrightarrow> k \<le> max_row rows"
proof -
  assume a: "(a, k) \<in> set rows"
  have "(\<lambda>m (a, k). if k > m then k else m) = (\<lambda>m (p :: string \<times> nat). if snd p > m then snd p else m)"
    by (simp add: fun_eq_iff)
  then show ?thesis using foldl_max[of 0 snd rows] a by (fastforce simp: max_row_def)
qed

lemma comp_width_bound: "r \<le> max_row rows \<Longrightarrow> length (row_members rows r) \<le> comp_width rows"
  using foldl_max[of 0 "\<lambda>r. length (row_members rows r)" "[0..<Suc (max_row rows)]"]
  by (auto simp: comp_width_def Let_def)

lemma row_members_spec:
  assumes "m_ok rows"
  shows "distinct (row_members rows r) \<and> set (row_members rows r) = {a. m_get rows a = Some r}"
proof -
  have "distinct (map fst rows)" using assms by (simp add: m_ok_def)
  then have "distinct (map fst (filter P rows))" for P by (rule distinct_map_filter)
  moreover have "set (row_members rows r) = {a. m_get rows a = Some r}"
    using m_get_entry[OF assms] by (force simp: row_members_def)
  ultimately show ?thesis by (simp add: row_members_def)
qed

section \<open>Agents on the grid\<close>

lemma place_row_map:
  "place_row n x y as = map (\<lambda>i. \<lparr>pn_node = AgentNode (as ! i), pn_pos = (x + i, y),
     pn_group = group_of n (as ! i), pn_kind = Domain\<rparr>) [0..<length as]"
proof (induction n x y as rule: place_row.induct)
  case (2 n x y a as)
  have "[0..<length (a # as)] = 0 # map Suc [0..<length as]" by (simp add: upt_conv_Cons map_Suc_upt del: upt_Suc)
  with 2 show ?case by (simp del: upt_Suc)
qed simp

definition at_row :: "(string \<Rightarrow> nat \<Rightarrow> bool) \<Rightarrow> placed \<Rightarrow> bool" where
  "at_row P p \<longleftrightarrow> (\<exists>a. pn_node p = AgentNode a \<and> P a (snd (pn_pos p)))"

lemma place_row_facts:
  "map pn_node (place_row n x y as) = map AgentNode as"
  "distinct (map pn_pos (place_row n x y as))"
  "p \<in> set (place_row n x y as) \<Longrightarrow> snd (pn_pos p) = y \<and> x \<le> fst (pn_pos p) \<and> fst (pn_pos p) < x + length as \<and>
     (\<exists>a \<in> set as. pn_node p = AgentNode a)"
  unfolding place_row_map by (auto simp: comp_def map_nth distinct_map inj_on_def intro: nth_equalityI)

lemma concat_rows:
  assumes "\<And>r. distinct (g r)" and "\<And>r s a. a \<in> set (g r) \<Longrightarrow> a \<in> set (g s) \<Longrightarrow> r = s"
    and "distinct (rs :: nat list)"
  shows "distinct (map pn_node (concat (map (\<lambda>r. place_row n x r (g r)) rs)))"
    and "distinct (map pn_pos (concat (map (\<lambda>r. place_row n x r (g r)) rs)))"
    and "pn_node ` set (concat (map (\<lambda>r. place_row n x r (g r)) rs)) = AgentNode ` (\<Union>r \<in> set rs. set (g r))"
proof -
  have nodes: "pn_node ` set (place_row n x r (g r)) = AgentNode ` set (g r)" for r
    by (metis list.set_map place_row_facts(1))
  then show all: "pn_node ` set (concat (map (\<lambda>r. place_row n x r (g r)) rs)) = AgentNode ` (\<Union>r \<in> set rs. set (g r))" for rs
    by (simp add: image_UN)
  show "distinct (map pn_node (concat (map (\<lambda>r. place_row n x r (g r)) rs)))"
    using assms(3)
  proof (induction rs)
    case (Cons r rs)
    have "distinct (map pn_node (place_row n x r (g r)))"
      using assms(1)[of r] by (simp add: place_row_facts(1) distinct_map inj_on_def)
    moreover have "pn_node ` set (place_row n x r (g r)) \<inter>
        pn_node ` set (concat (map (\<lambda>r. place_row n x r (g r)) rs)) = {}"
      unfolding nodes all using assms(2) Cons.prems by fastforce
    ultimately show ?case using Cons by auto
  qed simp
  show "distinct (map pn_pos (concat (map (\<lambda>r. place_row n x r (g r)) rs)))"
    using assms(3)
  proof (induction rs)
    case (Cons r rs)
    have "snd (pn_pos p) = s" if "p \<in> set (place_row n x s (g s))" for p s using place_row_facts(3)[OF that] by simp
    then have "pn_pos p \<noteq> pn_pos q" if "p \<in> set (place_row n x r (g r))" "q \<in> set (place_row n x s (g s))" "s \<in> set rs" for p q s
      using that Cons.prems by (metis distinct.simps(2))
    then have "distinct (map pn_pos (place_row n x r (g r) @ concat (map (\<lambda>r. place_row n x r (g r)) rs)))"
      using Cons by (intro distinct_map_append place_row_facts(2)) auto
    then show ?case by simp
  qed simp
qed

lemma place_comp_facts:
  assumes ok: "m_ok rows"
  shows "distinct (map pn_node (place_comp n x rows))" and "distinct (map pn_pos (place_comp n x rows))"
    and "pn_node ` set (place_comp n x rows) = AgentNode ` set (m_keys rows)"
    and "p \<in> set (place_comp n x rows) \<Longrightarrow> x \<le> fst (pn_pos p) \<and> fst (pn_pos p) < x + comp_width rows \<and>
       snd (pn_pos p) \<le> max_row rows \<and> at_row (\<lambda>a y. m_get rows a = Some y) p"
proof -
  note mem = row_members_spec[OF ok]
  have "set (m_keys rows) = (\<Union>r \<in> set [0..<Suc (max_row rows)]. set (row_members rows r))"
    using mem max_row_bound m_get_entry[OF ok] by (force simp: less_Suc_eq_le)
  then show "distinct (map pn_node (place_comp n x rows))" "distinct (map pn_pos (place_comp n x rows))"
    "pn_node ` set (place_comp n x rows) = AgentNode ` set (m_keys rows)"
    unfolding place_comp_def using concat_rows[of "row_members rows" "[0..<Suc (max_row rows)]" n x] mem by auto
  assume "p \<in> set (place_comp n x rows)"
  then obtain r where r: "r \<le> max_row rows" "p \<in> set (place_row n x r (row_members rows r))"
    by (auto simp: place_comp_def less_Suc_eq_le simp del: upt_Suc)
  from place_row_facts(3)[OF r(2)] comp_width_bound[OF r(1)] mem[of r] r(1)
  show "x \<le> fst (pn_pos p) \<and> fst (pn_pos p) < x + comp_width rows \<and>
       snd (pn_pos p) \<le> max_row rows \<and> at_row (\<lambda>a y. m_get rows a = Some y) p"
    by (auto simp: at_row_def)
qed

text \<open>The row of an agent: its distance from the hub of the component it is in.\<close>

definition hub_row :: "normalized \<Rightarrow> string list list \<Rightarrow> string \<Rightarrow> nat \<Rightarrow> bool" where
  "hub_row n cs a y \<longleftrightarrow> (\<exists>c \<in> set cs. a \<in> set c \<and> (hub c n, a) \<in> ties n ^^ y \<and>
     (\<forall>k. (hub c n, a) \<in> ties n ^^ k \<longrightarrow> y \<le> k))"

lemma place_comps_facts:
  assumes n: "normalize inp = Inr n"
  shows "comps_ok n cs \<Longrightarrow> set (concat cs) \<subseteq> set (gnames n) \<Longrightarrow>
    \<exists>ns m. place_comps n x mr cs = Some (ns, m) \<and> mr \<le> m \<and>
      distinct (map pn_node ns) \<and> distinct (map pn_pos ns) \<and> pn_node ` set ns = AgentNode ` set (concat cs) \<and>
      (\<forall>p \<in> set ns. x \<le> fst (pn_pos p) \<and> int (snd (pn_pos p)) \<le> m \<and> at_row (hub_row n cs) p)"
proof (induction cs arbitrary: x mr)
  case Nil
  then show ?case by simp
next
  case (Cons c cs)
  have c: "c \<noteq> []" "set c = component n (hd c)" and rest: "comps_ok n cs" "set (concat cs) \<subseteq> set (gnames n)"
    using Cons.prems by (auto simp: comps_ok_def)
  have "distinct (c @ concat cs)" using Cons.prems(1) by (simp only: comps_ok_def concat.simps)
  then have disj: "set c \<inter> set (concat cs) = {}" by (simp only: distinct_append)
  have h: "hub c n \<in> set c" using hub_spec[OF c(1)] by blast
  then have hn: "hub c n \<in> set (gnames n)" using Cons.prems(2) by auto
  have comp: "component n (hub c n) = set c" using component_eq h c(2) by metis
  from bfsRows_spec[OF n hn] comp obtain rows where rows: "bfsRows (hub c n) n = Some rows" "m_ok rows" "set (m_keys rows) = set c"
    and near: "\<forall>a \<in> set c. (hub c n, a) \<in> ties n ^^ row_of rows a \<and> (\<forall>k. (hub c n, a) \<in> ties n ^^ k \<longrightarrow> row_of rows a \<le> k)"
    by auto
  let ?x = "x + (comp_width rows + nodeGap)" and ?mr = "max mr (int (max_row rows))"
  from Cons.IH[OF rest, of ?x ?mr] obtain ns m where
    r: "place_comps n ?x ?mr cs = Some (ns, m)" "?mr \<le> m" "distinct (map pn_node ns)" "distinct (map pn_pos ns)"
      "pn_node ` set ns = AgentNode ` set (concat cs)"
      "\<forall>p \<in> set ns. ?x \<le> fst (pn_pos p) \<and> int (snd (pn_pos p)) \<le> m \<and> at_row (hub_row n cs) p" by blast
  note pc = place_comp_facts[OF rows(2), where n = n and x = x]
  have here: "at_row (hub_row n (c # cs)) p" if "p \<in> set (place_comp n x rows)" for p
  proof -
    from pc(4)[OF that] obtain a where a: "pn_node p = AgentNode a" "m_get rows a = Some (snd (pn_pos p))"
      by (auto simp: at_row_def)
    then have "a \<in> set c" "row_of rows a = snd (pn_pos p)" using rows(3) by (auto simp: row_of_def)
    with near a(1) show ?thesis by (auto simp: at_row_def hub_row_def)
  qed
  have "hub_row n cs a y \<Longrightarrow> hub_row n (c # cs) a y" for a y by (auto simp: hub_row_def)
  then have there: "at_row (hub_row n (c # cs)) p" if "p \<in> set ns" for p
    using that r(6) unfolding at_row_def by blast
  have "distinct (map pn_node (place_comp n x rows @ ns))"
    using pc(1,3) r(3,5) rows(3) disj by auto
  moreover have "pn_pos p \<noteq> pn_pos q" if "p \<in> set (place_comp n x rows)" "q \<in> set ns" for p q
  proof
    assume "pn_pos p = pn_pos q"
    moreover have "fst (pn_pos p) < x + comp_width rows" using pc(4)[OF that(1)] by simp
    moreover have "?x \<le> fst (pn_pos q)" using r(6) that(2) by blast
    ultimately show False by simp
  qed
  then have "distinct (map pn_pos (place_comp n x rows @ ns))"
    using pc(2) r(4) by (intro distinct_map_append)
  moreover have "pn_node ` set (place_comp n x rows @ ns) = AgentNode ` set (concat (c # cs))"
    using pc(3) rows(3) r(5) by (simp add: image_Un)
  moreover have "\<forall>p \<in> set (place_comp n x rows @ ns). x \<le> fst (pn_pos p) \<and> int (snd (pn_pos p)) \<le> m \<and> at_row (hub_row n (c # cs)) p"
  proof
    fix p assume "p \<in> set (place_comp n x rows @ ns)"
    then consider "p \<in> set (place_comp n x rows)" | "p \<in> set ns" by auto
    then show "x \<le> fst (pn_pos p) \<and> int (snd (pn_pos p)) \<le> m \<and> at_row (hub_row n (c # cs)) p"
    proof cases
      case 1
      with pc(4)[OF 1] here[OF 1] r(2) show ?thesis by simp
    next
      case 2
      with r(6) there[OF 2] show ?thesis by auto
    qed
  qed
  moreover have "place_comps n x mr (c # cs) = Some (place_comp n x rows @ ns, m)"
    using rows(1) r(1) by simp
  ultimately show ?case using r(2) by (intro exI[of _ "place_comp n x rows @ ns"] exI[of _ m]) simp
qed

section \<open>Resources on the grid\<close>

lemma place_kind_map:
  "place_kind col row rs = map (\<lambda>i. \<lparr>pn_node = ResourceNode (gr_ID (rs ! i)), pn_pos = (col + i, row), pn_group = [],
     pn_kind = gr_Kind (rs ! i)\<rparr>) [0..<length rs]"
proof (induction col row rs rule: place_kind.induct)
  case (2 col row r rs)
  have "[0..<length (r # rs)] = 0 # map Suc [0..<length rs]" by (simp add: upt_conv_Cons map_Suc_upt del: upt_Suc)
  with 2 show ?case by (simp del: upt_Suc)
qed simp

lemma place_kind_facts:
  "map pn_node (place_kind col row rs) = map (\<lambda>r. ResourceNode (gr_ID r)) rs"
  "distinct (map pn_pos (place_kind col row rs))"
  "p \<in> set (place_kind col row rs) \<Longrightarrow> snd (pn_pos p) = row"
  unfolding place_kind_map by (auto simp: comp_def distinct_map inj_on_def intro: nth_equalityI)

lemma place_kinds_facts:
  assumes "distinct (map gr_ID rs)"
  shows "distinct ks \<Longrightarrow> distinct (map pn_node (place_kinds row ks rs)) \<and> distinct (map pn_pos (place_kinds row ks rs)) \<and>
    pn_node ` set (place_kinds row ks rs) = (\<lambda>r. ResourceNode (gr_ID r)) ` {r \<in> set rs. gr_Kind r \<in> set ks} \<and>
    (\<forall>p \<in> set (place_kinds row ks rs). row \<le> snd (pn_pos p))"
proof (induction ks arbitrary: row)
  case Nil
  then show ?case by simp
next
  case (Cons k ks)
  let ?f = "filter (\<lambda>r. gr_Kind r = k) rs"
  let ?a = "place_kind 0 row ?f" and ?row = "if place_kind 0 row (filter (\<lambda>r. gr_Kind r = k) rs) = [] then row else Suc row"
  let ?b = "place_kinds ?row ks rs"
  have eq: "place_kinds row (k # ks) rs = ?a @ ?b" by (simp add: Let_def)
  note IH = Cons.IH[of ?row]
  have na: "pn_node ` set ?a = (\<lambda>r. ResourceNode (gr_ID r)) ` {r \<in> set rs. gr_Kind r = k}"
    unfolding list.set_map [symmetric] place_kind_facts(1) by auto
  have inj: "inj_on gr_ID (set rs)" using assms by (simp add: distinct_map)
  have "distinct (map gr_ID ?f)" using assms by (rule distinct_map_filter)
  then have da: "distinct (map pn_node ?a)" by (simp add: place_kind_facts(1) distinct_map inj_on_def)
  have "pn_node ` set ?a \<inter> pn_node ` set ?b = {}"
    using IH Cons.prems inj unfolding na by (auto simp: inj_on_def)
  then have "distinct (map pn_node (?a @ ?b))" using da IH Cons.prems by auto
  moreover have "distinct (map pn_pos (?a @ ?b))"
  proof -
    have "pn_pos p \<noteq> pn_pos q" if "p \<in> set ?a" "q \<in> set ?b" for p q
    proof -
      have "snd (pn_pos p) = row" by (rule place_kind_facts(3)[OF that(1)])
      moreover have "Suc row \<le> snd (pn_pos q)" using IH Cons.prems that by (cases ?a) auto
      ultimately show ?thesis by (metis Suc_n_not_le_n)
    qed
    then show ?thesis using place_kind_facts(2)[of 0 row ?f] IH Cons.prems by (intro distinct_map_append) auto
  qed
  moreover have "\<forall>p \<in> set (?a @ ?b). row \<le> snd (pn_pos p)"
    using IH Cons.prems place_kind_facts(3)[of _ 0 row ?f] by (fastforce split: if_splits)
  moreover have "pn_node ` set (?a @ ?b) = (\<lambda>r. ResourceNode (gr_ID r)) ` {r \<in> set rs. gr_Kind r \<in> set (k # ks)}"
    using IH Cons.prems na by (auto simp: image_Un)
  ultimately show ?case unfolding eq by blast
qed

section \<open>Positions and routes\<close>

lemma foldl_put:
  "distinct (map pn_node ns) \<Longrightarrow> p \<in> set ns \<Longrightarrow>
     m_get (foldl (\<lambda>m p. m_put (pn_node p) (pn_pos p) m) m0 ns) (pn_node p) = Some (pn_pos p)"
proof (induction ns arbitrary: m0)
  case (Cons q ns)
  have keep: "v \<notin> pn_node ` set ns \<Longrightarrow> m_get (foldl (\<lambda>m p. m_put (pn_node p) (pn_pos p) m) m1 ns) v = m_get m1 v" for v m1
    by (induction ns arbitrary: m1) auto
  show ?case
  proof (cases "p \<in> set ns")
    case True
    with Cons show ?thesis by simp
  next
    case False
    with Cons.prems keep show ?thesis by auto
  qed
qed simp

lemma pos_at_placed: "distinct (map pn_node ns) \<Longrightarrow> p \<in> set ns \<Longrightarrow> pos_at (positions ns) (pn_node p) = pn_pos p"
  by (simp add: pos_at_def positions_def foldl_put)

text \<open>A polyline from \<open>a\<close> to \<open>b\<close> with at most one bend and every run on a row or a column.\<close>

fun straight_runs :: "point list \<Rightarrow> bool" where
  "straight_runs (p # q # ps) = ((fst p = fst q \<or> snd p = snd q) \<and> straight_runs (q # ps))"
| "straight_runs _ = True"

definition path_between :: "point \<Rightarrow> point \<Rightarrow> point list \<Rightarrow> bool" where
  "path_between a b ps \<longleftrightarrow> hd ps = a \<and> last ps = b \<and> (length ps = 2 \<or> length ps = 3) \<and> straight_runs ps"

lemma route_path: "path_between a b (route a b)"
  by (simp add: path_between_def route_def)

section \<open>The layout\<close>

definition known_kinds :: "ginput \<Rightarrow> bool" where
  "known_kinds inp \<longleftrightarrow> (\<forall>r \<in> set (in_resources inp). gr_Kind r \<in> {Domain, StoreKey, Secret})"

lemma layout_Inr:
  assumes n: "normalize inp = Inr n"
  shows "\<exists>p cs. layout inp = Some (Inr p) \<and> components n = Some cs \<and>
    distinct (map pn_node (pl_nodes p)) \<and> distinct (map pn_pos (pl_nodes p)) \<and>
    pn_node ` set (pl_nodes p) = AgentNode ` agent_ids inp \<union>
      (\<lambda>r. ResourceNode (gr_ID r)) ` {r \<in> set (in_resources inp). gr_Kind r \<in> {Domain, StoreKey, Secret}} \<and>
    (\<forall>v \<in> set (pl_nodes p). fst (pn_pos v) < pl_width p \<and> snd (pn_pos v) < pl_height p \<and>
       (\<forall>a. pn_node v = AgentNode a \<longrightarrow> hub_row n cs a (snd (pn_pos v)))) \<and>
    pl_edges p = map (route_edge (positions (pl_nodes p))) (n_edges n) @ map (route_access (positions (pl_nodes p))) (n_access n)"
proof -
  have u: "set (gnames n) = agent_ids inp" using unodes_agents[OF n] by simp
  from components_spec[OF n] obtain cs where cs: "components n = Some cs" "comps_ok n cs" "set (concat cs) = set (gnames n)" by blast
  from place_comps_facts[OF n cs(2), of 0 "-1"] cs(3) obtain ans m where
    a: "place_comps n 0 (-1) cs = Some (ans, m)" "-1 \<le> m" "distinct (map pn_node ans)" "distinct (map pn_pos ans)"
      "pn_node ` set ans = AgentNode ` agent_ids inp"
      "\<forall>p \<in> set ans. int (snd (pn_pos p)) \<le> m \<and> at_row (hub_row n cs) p" using u by auto
  let ?row = "if m \<ge> 0 then nat (m + 1) + nodeGap else 0"
  obtain rs where rs: "rs = place_kinds ?row [Domain, StoreKey, Secret] (n_resources n)" by blast
  have "input_ok inp" using n normalize_ok by blast
  then have "distinct (map gr_ID (n_resources n))" and ress: "set (n_resources n) = set (in_resources inp)"
    by (simp_all add: normalize_fields(2)[OF n] sortResources_def input_ok_def)
  then have r: "distinct (map pn_node rs)" "distinct (map pn_pos rs)"
    "pn_node ` set rs = (\<lambda>r. ResourceNode (gr_ID r)) ` {r \<in> set (in_resources inp). gr_Kind r \<in> {Domain, StoreKey, Secret}}"
    "\<forall>p \<in> set rs. ?row \<le> snd (pn_pos p)"
    using place_kinds_facts[of "n_resources n" "[Domain, StoreKey, Secret]" ?row] unfolding rs by (simp_all del: place_kinds.simps)
  let ?ns = "ans @ rs"
  let ?p = "\<lparr>pl_nodes = ?ns, pl_edges = map (route_edge (positions ?ns)) (n_edges n) @ map (route_access (positions ?ns)) (n_access n),
    pl_width = extent fst ?ns, pl_height = extent snd ?ns\<rparr>"
  have l: "layout inp = Some (Inr ?p)" by (simp add: layout_def n cs(1) a(1) Let_def rs del: place_kinds.simps)
  have "pn_node v \<noteq> pn_node w" if "v \<in> set ans" "w \<in> set rs" for v w
    using a(5) r(3) that by (metis (no_types, lifting) imageE imageI node.distinct(1))
  then have dn: "distinct (map pn_node ?ns)" using a(3) r(1) by (intro distinct_map_append)
  have "pn_pos p \<noteq> pn_pos q" if "p \<in> set ans" "q \<in> set rs" for p q
  proof -
    have p: "int (snd (pn_pos p)) \<le> m" using a(6) that(1) by blast
    then have "0 \<le> m" by linarith
    then have "m < int (snd (pn_pos q))" using r(4) that(2) by (auto simp: nodeGap_def)
    with p show ?thesis by auto
  qed
  then have dp: "distinct (map pn_pos ?ns)" using a(4) r(2) by (intro distinct_map_append)
  have rows: "hub_row n cs b (snd (pn_pos v))" if "v \<in> set ?ns" "pn_node v = AgentNode b" for v b
  proof -
    have "v \<notin> set rs" using r(3) that(2) by force
    with that a(6) show ?thesis by (auto simp: at_row_def)
  qed
  have nodes: "pn_node ` set ?ns = AgentNode ` agent_ids inp \<union>
      (\<lambda>r. ResourceNode (gr_ID r)) ` {r \<in> set (in_resources inp). gr_Kind r \<in> {Domain, StoreKey, Secret}}"
    using a(5) r(3) by (simp add: image_Un)
  have ext: "\<forall>v \<in> set ?ns. fst (pn_pos v) < extent fst ?ns \<and> snd (pn_pos v) < extent snd ?ns"
    using extent_bound by blast
  show ?thesis
    by (rule exI[of _ ?p], rule exI[of _ cs]) (use l cs(1) dn dp nodes ext rows in simp)
qed

end
