(* ===== verification/Graph_Properties.thy ===== *)
theory Graph_Properties
  imports Graph_Reach Graph_Place
begin

text \<open>
  What the reach view and the layout guarantee, over the model of \<^verbatim>\<open>internal/graph\<close>.
\<close>

section \<open>A small graph\<close>

definition star :: ginput where
  "star = \<lparr>in_agents = [\<lparr>ga_ID = ''w1'', ga_Group = ''w''\<rparr>, \<lparr>ga_ID = ''hub'', ga_Group = []\<rparr>, \<lparr>ga_ID = ''w2'', ga_Group = ''w''\<rparr>],
     in_edges = [GEdge ''hub'' ''w1'', GEdge ''hub'' ''w2'', GEdge ''w1'' ''w1''],
     in_resources = [\<lparr>gr_ID = ''notes'', gr_Kind = StoreKey\<rparr>, \<lparr>gr_ID = ''api.x'', gr_Kind = Domain\<rparr>],
     in_access = [GAccess ''w1'' ''notes'' True, GAccess ''w2'' ''notes'' False, GAccess ''w1'' ''api.x'' False,
       GAccess ''w2'' ''api.x'' False]\<rparr>"

definition star_shuffled :: ginput where
  "star_shuffled = star\<lparr>in_agents := rev (in_agents star), in_edges := rev (in_edges star) @ [GEdge ''hub'' ''w1'']\<rparr>"

lemma star_ok: "input_ok star"
  by (simp add: input_ok_def star_def agent_ids_def resource_ids_def)

section \<open>Normalization\<close>

text \<open>
  An input is accepted exactly when agents and resources have distinct non-empty names and
  every edge that is not a self-loop and every access names declared ones: a dangling reference
  is refused, never dropped, and a self-loop is the one thing dropped.
\<close>

theorem normalize_accepts:
  "(\<exists>n. normalize inp = Inr n) \<longleftrightarrow> input_ok inp"
  by (rule normalize_ok)

text \<open>
  The result does not depend on the order, or the repetition of edges and accesses, in which
  the caller built the input: normal form, closure and layout are the same.
\<close>

theorem input_order_irrelevant:
  assumes "same_input a b" and "input_ok a"
  shows "normalize b = normalize a \<and> transitiveClosure b = transitiveClosure a \<and> layout b = layout a"
proof -
  obtain n where n: "normalize a = Inr n" using assms(2) normalize_ok by blast
  with normalize_same[OF assms(1) n] show ?thesis by (simp add: transitiveClosure_def layout_def)
qed

theorem input_order_irrelevant_witness:
  "layout star_shuffled = layout star"
proof -
  have "same_input star star_shuffled" by (auto simp: same_input_def star_shuffled_def star_def)
  then show ?thesis using input_order_irrelevant star_ok by blast
qed

section \<open>Reach\<close>

text \<open>
  C11. The closure of every accepted input is computed, and its table is exactly the shortest
  distances over "an edge, or a store key one writes and the other reads": a pair has a count
  precisely when data can get from one to the other, and the count is the least number of hops.
\<close>

theorem closure_shortest:
  assumes "input_ok inp"
  shows "\<exists>c. transitiveClosure inp = Some (Inr c) \<and>
    (\<forall>a b k. hopsBetween c a b = Some k \<longleftrightarrow> a \<in> agent_ids inp \<and> b \<in> agent_ids inp \<and> shortest (passes inp) a b k)"
proof -
  obtain n where n: "normalize inp = Inr n" using assms normalize_ok by blast
  from transitiveClosure_Inr[OF n] hopsBetween_Some[OF n] show ?thesis by blast
qed

theorem closure_shortest_witness:
  "\<exists>c. transitiveClosure star = Some (Inr c) \<and> hopsBetween c ''w1'' ''w2'' = Some 1 \<and> hopsBetween c ''w1'' ''hub'' = None"
proof -
  from closure_shortest[OF star_ok] obtain c where c: "transitiveClosure star = Some (Inr c)"
    and h: "\<And>a b k. hopsBetween c a b = Some k \<longleftrightarrow> a \<in> agent_ids star \<and> b \<in> agent_ids star \<and> shortest (passes star) a b k"
    by blast
  have p: "passes star = {(''hub'', ''w1''), (''hub'', ''w2''), (''w1'', ''w2'')}"
    by (auto simp: passes_def star_def)
  have "shortest (passes star) ''w1'' ''w2'' 1"
    unfolding shortest_def p by (auto simp: Suc_le_eq intro: gr0I)
  then have "hopsBetween c ''w1'' ''w2'' = Some 1" unfolding h by (simp add: agent_ids_def star_def)
  moreover have "(x, ''hub'') \<in> passes star ^^ k \<Longrightarrow> x = ''hub''" for x k
    by (cases k) (auto simp: p)
  then have "hopsBetween c ''w1'' ''hub'' \<noteq> Some k" for k unfolding h shortest_def by fastforce
  then have "hopsBetween c ''w1'' ''hub'' = None" by (metis not_None_eq)
  ultimately show ?thesis using c by blast
qed

text \<open>
  \<open>SharedResources\<close> lists, sorted and once each, exactly the resources of any kind that two
  different agents both have an access to.
\<close>

theorem shared_resources_exact:
  assumes "transitiveClosure inp = Some (Inr c)" and "a \<noteq> b" and "a \<in> agent_ids inp" and "b \<in> agent_ids inp"
  shows "set (sharedResources c a b) = {r. \<exists>u v. GAccess a r u \<in> set (in_access inp) \<and> GAccess b r v \<in> set (in_access inp)} \<and>
    sorted (sharedResources c a b) \<and> distinct (sharedResources c a b)"
proof -
  obtain n where n: "normalize inp = Inr n"
    using assms(1) by (cases "normalize inp") (auto simp: transitiveClosure_def)
  from transitiveClosure_Inr[OF n] assms(1) have c: "cl_idx c = number 0 (agent_names n) []"
    "cl_resourcesOf c = am_resourcesOf (access_index n)" by auto
  have idx: "m_get (cl_idx c) x \<noteq> None" if "x \<in> agent_ids inp" for x
  proof -
    have "x \<in> set (agent_names n)" using agent_names_ids[OF n] that by simp
    then obtain j where "j < length (agent_names n)" "agent_names n ! j = x" by (auto simp: in_set_conv_nth)
    then show ?thesis using agent_names_ids[OF n] number_nth[of "agent_names n" j] by (simp add: c)
  qed
  then have s: "sharedResources c a b = merge_shared (m_list (cl_resourcesOf c) a) (m_list (cl_resourcesOf c) b)"
    using idx[OF assms(3)] idx[OF assms(4)] assms(2) by (auto simp: sharedResources_def)
  have "r \<in> {ac_res x | x. x \<in> set (in_access inp) \<and> ac_agent x = y} \<longleftrightarrow> (\<exists>w. GAccess y r w \<in> set (in_access inp))" for y r
    by (auto, metis gaccess.collapse, force)
  then show ?thesis
    unfolding s c using resourcesOf_spec[OF n] merge_shared_spec by auto
qed

theorem shared_resources_exact_witness:
  "\<exists>c. transitiveClosure star = Some (Inr c) \<and> set (sharedResources c ''w1'' ''w2'') = {''notes'', ''api.x''}"
proof -
  obtain n where "normalize star = Inr n" using star_ok normalize_ok by blast
  then obtain c where c: "transitiveClosure star = Some (Inr c)" using transitiveClosure_Inr by blast
  have "''w1'' \<in> agent_ids star" "''w2'' \<in> agent_ids star" by (simp_all add: agent_ids_def star_def)
  from shared_resources_exact[OF c _ this] c show ?thesis by (auto simp: star_def)
qed

section \<open>Layout\<close>

lemma layout_agents:
  "normalize inp = Inr n \<Longrightarrow> layout inp = Some (Inr p) \<Longrightarrow> AgentNode ` agent_ids inp \<subseteq> pn_node ` set (pl_nodes p)"
  by (drule layout_Inr) (elim exE conjE, simp)

text \<open>
  The layout of every accepted input is computed; it places every agent and every resource of
  the three kinds exactly once, no two on the same cell, all inside the width and height.
\<close>

theorem layout_places_all:
  assumes "input_ok inp" and "known_kinds inp"
  shows "\<exists>p. layout inp = Some (Inr p) \<and> distinct (map pn_node (pl_nodes p)) \<and> distinct (map pn_pos (pl_nodes p)) \<and>
    pn_node ` set (pl_nodes p) = AgentNode ` agent_ids inp \<union> ResourceNode ` resource_ids inp \<and>
    (\<forall>v \<in> set (pl_nodes p). fst (pn_pos v) < pl_width p \<and> snd (pn_pos v) < pl_height p)"
proof -
  obtain n where n: "normalize inp = Inr n" using assms(1) normalize_ok by blast
  have "(\<lambda>r. ResourceNode (gr_ID r)) ` {r \<in> set (in_resources inp). gr_Kind r \<in> {Domain, StoreKey, Secret}} = ResourceNode ` resource_ids inp"
    using assms(2) by (auto simp: known_kinds_def resource_ids_def)
  with layout_Inr[OF n] obtain p cs where "layout inp = Some (Inr p)" "distinct (map pn_node (pl_nodes p))"
    "distinct (map pn_pos (pl_nodes p))" "pn_node ` set (pl_nodes p) = AgentNode ` agent_ids inp \<union> ResourceNode ` resource_ids inp"
    and v: "\<forall>v \<in> set (pl_nodes p). fst (pn_pos v) < pl_width p \<and> snd (pn_pos v) < pl_height p \<and>
       (\<forall>a. pn_node v = AgentNode a \<longrightarrow> hub_row n cs a (snd (pn_pos v)))" by auto
  moreover from v have "\<forall>v \<in> set (pl_nodes p). fst (pn_pos v) < pl_width p \<and> snd (pn_pos v) < pl_height p" by blast
  ultimately show ?thesis by blast
qed

theorem layout_places_all_witness:
  "\<exists>p. layout star = Some (Inr p) \<and> distinct (map pn_pos (pl_nodes p)) \<and> AgentNode ''hub'' \<in> pn_node ` set (pl_nodes p)"
proof -
  have "known_kinds star" and "''hub'' \<in> agent_ids star" by (simp_all add: known_kinds_def star_def agent_ids_def)
  with layout_places_all[OF star_ok] show ?thesis by (metis UnI1 imageI)
qed

text \<open>
  Every agent is on the row of its least number of links to the hub of its component, and the
  hub is a member with the most neighbours, the first by name among those.
\<close>

theorem layout_rows:
  assumes "layout inp = Some (Inr p)" and "v \<in> set (pl_nodes p)" and "pn_node v = AgentNode a" and "normalize inp = Inr n"
  shows "\<exists>h. h \<in> component n a \<and> shortest (ties n) h a (snd (pn_pos v)) \<and>
    (\<forall>x \<in> component n a. degree n x < degree n h \<or> (degree n x = degree n h \<and> h \<le> x))"
proof -
  from layout_Inr[OF assms(4)] assms(1,2,3) obtain cs where cs: "components n = Some cs"
    and hr: "hub_row n cs a (snd (pn_pos v))" by auto
  have ok: "comps_ok n cs" using components_spec[OF assms(4)] cs by auto
  from hr obtain c where c: "c \<in> set cs" "a \<in> set c" "shortest (ties n) (hub c n) a (snd (pn_pos v))"
    by (auto simp: hub_row_def shortest_def)
  have ne: "c \<noteq> []" and "set c = component n (hd c)" using ok c(1) by (auto simp: comps_ok_def)
  then have "set c = component n a" using component_eq c(2) by metis
  with hub_spec[OF ne, of n] c(3) show ?thesis by (intro exI[of _ "hub c n"]) simp
qed

theorem layout_rows_witness:
  "\<exists>p n v h. layout star = Some (Inr p) \<and> v \<in> set (pl_nodes p) \<and> pn_node v = AgentNode ''w1'' \<and> h \<in> component n ''w1'' \<and>
     shortest (ties n) h ''w1'' (snd (pn_pos v))"
proof -
  obtain n where n: "normalize star = Inr n" using star_ok normalize_ok by blast
  from layout_Inr[OF n] obtain p where p: "layout star = Some (Inr p)" by (elim exE conjE)
  have "''w1'' \<in> agent_ids star" by (simp add: star_def agent_ids_def)
  with layout_agents[OF n p] have "AgentNode ''w1'' \<in> pn_node ` set (pl_nodes p)" by blast
  then obtain v where v: "v \<in> set (pl_nodes p)" "pn_node v = AgentNode ''w1''" by (rule imageE) simp
  from layout_rows[OF p v n] obtain h where h: "h \<in> component n ''w1''" "shortest (ties n) h ''w1'' (snd (pn_pos v))"
    by (elim exE conjE)
  show ?thesis by (rule exI[of _ p], rule exI[of _ n], rule exI[of _ v], rule exI[of _ h]) (intro conjI p v h)
qed

text \<open>
  Every edge and every access is routed once, in order, as a line from the place of one end
  to the place of the other with at most one bend, each run along a row or a column.
\<close>

theorem layout_routes:
  assumes "layout inp = Some (Inr p)" and "normalize inp = Inr n" and "known_kinds inp"
  shows "map (\<lambda>e. (re_from e, re_to e)) (pl_edges p) =
      map (\<lambda>e. (AgentNode (ge_from e), AgentNode (ge_to e))) (n_edges n) @
      map (\<lambda>a. (AgentNode (ac_agent a), ResourceNode (ac_res a))) (n_access n) \<and>
    (\<forall>e \<in> set (pl_edges p). \<exists>u \<in> set (pl_nodes p). \<exists>v \<in> set (pl_nodes p).
       pn_node u = re_from e \<and> pn_node v = re_to e \<and> path_between (pn_pos u) (pn_pos v) (re_path e))"
proof -
  let ?pos = "positions (pl_nodes p)"
  from layout_Inr[OF assms(2)] assms(1) have d: "distinct (map pn_node (pl_nodes p))"
    and nodes: "pn_node ` set (pl_nodes p) = AgentNode ` agent_ids inp \<union>
      (\<lambda>r. ResourceNode (gr_ID r)) ` {r \<in> set (in_resources inp). gr_Kind r \<in> {Domain, StoreKey, Secret}}"
    and es: "pl_edges p = map (route_edge ?pos) (n_edges n) @ map (route_access ?pos) (n_access n)" by auto
  have ok: "input_ok inp" using assms(2) normalize_ok by blast
  have ag: "\<exists>u \<in> set (pl_nodes p). pn_node u = AgentNode a \<and> pos_at ?pos (AgentNode a) = pn_pos u" if "a \<in> agent_ids inp" for a
  proof -
    have "AgentNode a \<in> pn_node ` set (pl_nodes p)" using that layout_agents[OF assms(2,1)] by blast
    then show ?thesis using pos_at_placed[OF d] by (metis imageE)
  qed
  have re: "\<exists>u \<in> set (pl_nodes p). pn_node u = ResourceNode r \<and> pos_at ?pos (ResourceNode r) = pn_pos u" if "r \<in> resource_ids inp" for r
  proof -
    have "ResourceNode r \<in> pn_node ` set (pl_nodes p)"
      unfolding nodes using that assms(3) by (auto simp: resource_ids_def known_kinds_def)
    then show ?thesis using pos_at_placed[OF d] by (metis imageE)
  qed
  have "ge_from e \<in> agent_ids inp \<and> ge_to e \<in> agent_ids inp" if "e \<in> set (n_edges n)" for e
    using that ok by (simp add: normalize_fields(3)[OF assms(2)] input_ok_def)
  moreover have "ac_agent a \<in> agent_ids inp \<and> ac_res a \<in> resource_ids inp" if "a \<in> set (n_access n)" for a
    using that ok by (simp add: normalize_fields(4)[OF assms(2)] input_ok_def)
  moreover have "\<exists>u \<in> set (pl_nodes p). \<exists>v \<in> set (pl_nodes p). pn_node u = x \<and> pn_node v = y \<and>
      path_between (pn_pos u) (pn_pos v) (route (pos_at ?pos x) (pos_at ?pos y))"
    if "\<exists>u \<in> set (pl_nodes p). pn_node u = x \<and> pos_at ?pos x = pn_pos u"
      "\<exists>v \<in> set (pl_nodes p). pn_node v = y \<and> pos_at ?pos y = pn_pos v" for x y
    using that route_path by metis
  ultimately have "\<forall>e \<in> set (pl_edges p). \<exists>u \<in> set (pl_nodes p). \<exists>v \<in> set (pl_nodes p).
       pn_node u = re_from e \<and> pn_node v = re_to e \<and> path_between (pn_pos u) (pn_pos v) (re_path e)"
    unfolding es using ag re by (auto simp: route_edge_def route_access_def)
  then show ?thesis by (simp add: es route_edge_def route_access_def comp_def)
qed

theorem layout_routes_witness:
  "\<exists>p. layout star = Some (Inr p) \<and> (AgentNode ''hub'', AgentNode ''w1'') \<in> (\<lambda>e. (re_from e, re_to e)) ` set (pl_edges p)"
proof -
  obtain n where n: "normalize star = Inr n" using star_ok normalize_ok by blast
  from layout_Inr[OF n] obtain p where p: "layout star = Some (Inr p)" by blast
  have k: "known_kinds star" by (simp add: known_kinds_def star_def)
  have e: "GEdge ''hub'' ''w1'' \<in> set (n_edges n)" by (simp add: normalize_fields(3)[OF n] star_def)
  have "(AgentNode ''hub'', AgentNode ''w1'') \<in> set (map (\<lambda>e. (AgentNode (ge_from e), AgentNode (ge_to e))) (n_edges n))"
    unfolding list.set_map by (rule image_eqI[OF _ e]) simp
  then have "(AgentNode ''hub'', AgentNode ''w1'') \<in> set (map (\<lambda>e. (re_from e, re_to e)) (pl_edges p))"
    unfolding conjunct1[OF layout_routes[OF p n k]] by simp
  with p show ?thesis unfolding list.set_map by blast
qed

end
