(* ===== verification/Utf8.thy ===== *)
theory Utf8
  imports Prelude
begin

text \<open>
  What the source uses of Go's \<open>unicode/utf8\<close> (\<open>DecodeRuneInString\<close>,
  \<open>DecodeLastRuneInString\<close>, \<open>RuneStart\<close>) on byte strings, and
  \<open>ClipUTF8\<close> of \<open>internal/argsummary/argsummary.go\<close>, the cut every summary of the
  program shares. A valid encoding is the shortest form of a code point that is no surrogate, at
  most four bytes; on anything else \<open>DecodeRune\<close> reports \<open>RuneError\<close> with size one
  and here \<open>rune_len\<close> is \<open>None\<close>.
\<close>

definition cont :: "char \<Rightarrow> bool" where
  "cont b \<longleftrightarrow> 128 \<le> byte b \<and> byte b < 192"

text \<open>The range of the second byte after a lead byte: Go's \<open>acceptRanges\<close>.\<close>

definition second_ok :: "char \<Rightarrow> char \<Rightarrow> bool" where
  "second_ok a b \<longleftrightarrow>
     (if byte a = 0xE0 then 0xA0 else if byte a = 0xF0 then 0x90 else 0x80) \<le> byte b \<and>
     byte b \<le> (if byte a = 0xED then 0x9F else if byte a = 0xF4 then 0x8F else 0xBF)"

text \<open>The number of bytes a lead byte announces; 0 for a byte no encoding starts with.\<close>

definition lead_len :: "char \<Rightarrow> nat" where
  "lead_len b = (let x = byte b in
     if x < 0x80 then 1 else if x < 0xC2 then 0 else if x < 0xE0 then 2
     else if x < 0xF0 then 3 else if x < 0xF5 then 4 else 0)"

fun tail_ok :: "char \<Rightarrow> string \<Rightarrow> bool" where
  "tail_ok a [] = True"
| "tail_ok a (b # bs) = (second_ok a b \<and> list_all cont bs)"

definition rune_len :: "string \<Rightarrow> nat option" where
  "rune_len s =
     (case s of
        [] \<Rightarrow> None
      | a # t \<Rightarrow>
          let n = lead_len a
          in if 1 \<le> n \<and> n \<le> length s \<and> tail_ok a (take (n - 1) t) then Some n else None)"

text \<open>\<open>utf8.ValidString\<close>: the string is a sequence of valid encodings.\<close>

function valid_utf8 :: "string \<Rightarrow> bool" where
  "valid_utf8 s =
     (if s = [] then True
      else case rune_len s of None \<Rightarrow> False | Some n \<Rightarrow> valid_utf8 (drop n s))"
  by pat_completeness auto

termination
proof (relation "measure length")
  fix s :: string and n
  assume "s \<noteq> []" and "rune_len s = Some n"
  then show "(drop n s, s) \<in> measure length"
    by (cases s) (auto simp: rune_len_def Let_def split: if_splits)
qed simp

declare valid_utf8.simps [simp del]

definition rune_start :: "char \<Rightarrow> bool" where
  "rune_start b \<longleftrightarrow> \<not> cont b"

text \<open>
  Where \<open>DecodeLastRuneInString\<close> starts decoding: the nearest byte before the last one, at
  most four from the end, that is no continuation byte; and the one before all of them when there
  is none (or the front of the string).
\<close>

definition last_start :: "string \<Rightarrow> nat" where
  "last_start s =
     (let n = length s
      in case filter (\<lambda>i. rune_start (s ! i)) (rev [n - 4..<n - 1]) of
           i # _ \<Rightarrow> i
         | [] \<Rightarrow> n - 4 - 1)"

definition last_ok :: "string \<Rightarrow> bool" where
  "last_ok s \<longleftrightarrow>
     (byte (last s) < 0x80 \<or> rune_len (drop (last_start s) s) = Some (length s - last_start s))"

fun strip_tail :: "nat \<Rightarrow> string \<Rightarrow> string" where
  "strip_tail 0 s = []"
| "strip_tail (Suc n) s = (if last_ok (take (Suc n) s) then take (Suc n) s else strip_tail n s)"

definition clipUTF8 :: "string \<Rightarrow> nat \<Rightarrow> string" where
  "clipUTF8 s n = (if length s \<le> n then s else strip_tail n s)"

section \<open>Facts on encodings\<close>

lemma rune_len_pos: "rune_len s = Some n \<Longrightarrow> 1 \<le> n \<and> n \<le> 4 \<and> n \<le> length s"
  by (cases s) (auto simp: rune_len_def Let_def lead_len_def split: if_splits)

lemma rune_len_append: "rune_len s = Some n \<Longrightarrow> rune_len (s @ t) = Some n"
  by (cases s) (auto simp: rune_len_def Let_def split: if_splits)

lemma rune_len_ascii: "byte c < 128 \<Longrightarrow> rune_len (c # s) = Some 1"
  by (simp add: rune_len_def lead_len_def)

lemma rune_len_ascii_iff: "rune_len (c # s) = Some 1 \<longleftrightarrow> byte c < 128"
  by (auto simp: rune_len_def lead_len_def Let_def split: if_splits)

lemma rune_len_take: "rune_len s = Some n \<Longrightarrow> n \<le> k \<Longrightarrow> rune_len (take k s) = Some n"
  by (cases s; cases k) (auto simp: rune_len_def Let_def min_def split: if_splits)

lemma second_cont: "second_ok a b \<Longrightarrow> cont b"
  by (auto simp: second_ok_def cont_def split: if_splits)

lemma tail_cont: "tail_ok a t \<Longrightarrow> list_all cont t"
  by (cases t) (auto dest: second_cont)

lemma lead_start: "lead_len a \<noteq> 0 \<Longrightarrow> rune_start a"
  by (auto simp: lead_len_def rune_start_def cont_def Let_def split: if_splits)

text \<open>A valid encoding: a byte that can start one and continuation bytes only.\<close>

lemma rune_shape:
  assumes "rune_len s = Some n"
  obtains a t r where "s = a # t @ r" and "length t = n - 1" and "rune_start a" and "list_all cont t"
    and "rune_len (a # t) = Some n" and "1 < n \<Longrightarrow> \<not> byte a < 128"
proof -
  from assms obtain a u where s: "s = a # u" by (cases s) (auto simp: rune_len_def)
  from assms have n: "lead_len a = n" "1 \<le> n" "n \<le> Suc (length u)" "tail_ok a (take (n - 1) u)"
    by (auto simp: rune_len_def s Let_def split: if_splits)
  show thesis
  proof (rule that[of a "take (n - 1) u" "drop (n - 1) u"])
    show "s = a # take (n - 1) u @ drop (n - 1) u" by (simp add: s)
    show "length (take (n - 1) u) = n - 1" using n by simp
    show "rune_start a" using n lead_start by auto
    show "list_all cont (take (n - 1) u)" using n tail_cont by auto
    show "rune_len (a # take (n - 1) u) = Some n" using n by (simp add: rune_len_def Let_def)
    show "\<not> byte a < 128" if "1 < n" using n that by (auto simp: lead_len_def)
  qed
qed

lemma valid_utf8_Nil [simp]: "valid_utf8 []"
  by (subst valid_utf8.simps) simp

lemma valid_utf8_step: "rune_len s = Some n \<Longrightarrow> valid_utf8 s = valid_utf8 (drop n s)"
  by (subst valid_utf8.simps) (auto simp: rune_len_def)

lemma valid_utf8_ascii [simp]: "byte c < 128 \<Longrightarrow> valid_utf8 (c # s) = valid_utf8 s"
  using valid_utf8_step[OF rune_len_ascii, of c s] by simp

lemma valid_utf8_append: "valid_utf8 s \<Longrightarrow> valid_utf8 (s @ t) = valid_utf8 t"
proof (induction s rule: valid_utf8.induct)
  case (1 s)
  show ?case
  proof (cases "s = []")
    case False
    with "1.prems" obtain n where n: "rune_len s = Some n" "valid_utf8 (drop n s)"
      by (subst (asm) valid_utf8.simps) (auto split: option.splits)
    with "1.IH"[OF False n(1) n(2)] rune_len_append[OF n(1), of t] rune_len_pos[OF n(1)] show ?thesis
      by (simp add: valid_utf8_step)
  qed simp
qed

section \<open>Cutting a string\<close>

lemma strip_tail_prefix: "\<exists>k \<le> n. strip_tail n s = take k s"
proof (induction n)
  case 0
  then show ?case by (rule exI[of _ 0]) simp
next
  case (Suc n)
  then show ?case by (auto intro: le_SucI)
qed

lemma clipUTF8_prefix: "\<exists>k. clipUTF8 s n = take k s"
  using strip_tail_prefix[of n s] by (auto simp: clipUTF8_def intro: exI[of _ "length s"])

lemma clipUTF8_length: "length (clipUTF8 s n) \<le> n"
  using strip_tail_prefix[of n s] by (auto simp: clipUTF8_def)

lemma clipUTF8_le: "length (clipUTF8 s n) \<le> length s"
  using clipUTF8_prefix[of s n] by auto

lemma clipUTF8_short: "length s \<le> n \<Longrightarrow> clipUTF8 s n = s"
  by (simp add: clipUTF8_def)

end
