(* ===== verification/Json.thy ===== *)
theory Json
  imports Utf8
begin

text \<open>
  What the source uses of Go's \<open>encoding/json\<close>: the encoder's string escaping (HTML escaping
  on, as \<open>json.Marshal\<close> has it), the compact rendering, and the decoder's grammar with its
  nesting limit of ten thousand. A decoded string is valid UTF-8: every byte that starts no
  encoding, and every unpaired surrogate escape, becomes U+FFFD. A number is kept as its literal.
\<close>

datatype json =
    JNull
  | JBool bool
  | JNum string
  | JStr string
  | JArr "json list"
  | JObj "(string \<times> json) list"

section \<open>Encoding\<close>

definition hex_char :: "nat \<Rightarrow> char" where
  "hex_char d = (if d < 10 then char_of (48 + d) else char_of (87 + d))"

definition quote_char :: char where "quote_char = CHR 0x22"
definition backslash :: char where "backslash = CHR 0x5C"
definition replacement :: string where "replacement = [CHR 0xEF, CHR 0xBF, CHR 0xBD]"
definition line_sep :: string where "line_sep = [CHR 0xE2, CHR 0x80, CHR 0xA8]"
definition para_sep :: string where "para_sep = [CHR 0xE2, CHR 0x80, CHR 0xA9]"

text \<open>One byte below 0x80 as it appears inside a JSON string.\<close>

definition esc_ascii :: "char \<Rightarrow> string" where
  "esc_ascii c =
     (if c = quote_char \<or> c = backslash then [backslash, c]
      else if byte c = 8 then [backslash, CHR ''b'']
      else if byte c = 12 then [backslash, CHR ''f'']
      else if byte c = 10 then [backslash, CHR ''n'']
      else if byte c = 13 then [backslash, CHR ''r'']
      else if byte c = 9 then [backslash, CHR ''t'']
      else if byte c < 32 \<or> c = CHR ''<'' \<or> c = CHR ''>'' \<or> c = CHR ''&''
           then [backslash, CHR ''u'', CHR ''0'', CHR ''0'', hex_char (byte c div 16), hex_char (byte c mod 16)]
      else [c])"

definition u_esc :: "string \<Rightarrow> string" where
  "u_esc h = backslash # CHR ''u'' # h"

function escape :: "string \<Rightarrow> string" where
  "escape s =
     (case s of
        [] \<Rightarrow> []
      | c # t \<Rightarrow>
          if byte c < 128 then esc_ascii c @ escape t
          else case rune_len s of
                 None \<Rightarrow> u_esc ''fffd'' @ escape t
               | Some n \<Rightarrow>
                   (if take n s = line_sep then u_esc ''2028''
                    else if take n s = para_sep then u_esc ''2029''
                    else take n s) @ escape (drop n s))"
  by pat_completeness auto

termination
proof (relation "measure length")
  fix s :: string and c t n
  assume "s = c # t" and "rune_len s = Some n"
  then show "(drop n s, s) \<in> measure length" using rune_len_pos by fastforce
qed auto

declare escape.simps [simp del]

definition quote_str :: "string \<Rightarrow> string" where
  "quote_str s = quote_char # escape s @ [quote_char]"

fun render :: "json \<Rightarrow> string" where
  "render JNull = ''null''"
| "render (JBool b) = (if b then ''true'' else ''false'')"
| "render (JNum n) = n"
| "render (JStr s) = quote_str s"
| "render (JArr js) = ''['' @ join (map render js) '','' @ '']''"
| "render (JObj ms) = ''{'' @ join (map (\<lambda>(k, v). quote_str k @ '':'' @ render v) ms) '','' @ ''}''"

section \<open>Decoding strings\<close>

definition hex_val :: "char \<Rightarrow> nat option" where
  "hex_val c =
     (if 48 \<le> byte c \<and> byte c \<le> 57 then Some (byte c - 48)
      else if 97 \<le> byte c \<and> byte c \<le> 102 then Some (byte c - 87)
      else if 65 \<le> byte c \<and> byte c \<le> 70 then Some (byte c - 55)
      else None)"

fun hex4 :: "string \<Rightarrow> (nat \<times> string) option" where
  "hex4 (a # b # c # d # t) =
     (case (hex_val a, hex_val b, hex_val c, hex_val d) of
        (Some w, Some x, Some y, Some z) \<Rightarrow> Some (w * 4096 + x * 256 + y * 16 + z, t)
      | _ \<Rightarrow> None)"
| "hex4 _ = None"

text \<open>\<open>utf8.AppendRune\<close>; a surrogate is encoded as U+FFFD.\<close>

definition encode_rune :: "nat \<Rightarrow> string" where
  "encode_rune u =
     (if u < 0x80 then [char_of u]
      else if u < 0x800 then [char_of (0xC0 + u div 64), char_of (0x80 + u mod 64)]
      else if 0xD800 \<le> u \<and> u < 0xE000 \<or> 0x110000 \<le> u then replacement
      else if u < 0x10000 then [char_of (0xE0 + u div 4096), char_of (0x80 + u div 64 mod 64), char_of (0x80 + u mod 64)]
      else [char_of (0xF0 + u div 262144), char_of (0x80 + u div 4096 mod 64),
            char_of (0x80 + u div 64 mod 64), char_of (0x80 + u mod 64)])"

text \<open>A high surrogate's partner, if one follows: the code point of the pair and the rest.\<close>

definition low_pair :: "nat \<Rightarrow> string \<Rightarrow> (nat \<times> string) option" where
  "low_pair u s =
     (case s of
        b # e # t \<Rightarrow>
          if b = backslash \<and> e = CHR ''u''
          then (case hex4 t of
                  Some (l, r) \<Rightarrow>
                    if u < 0xDC00 \<and> 0xDC00 \<le> l \<and> l < 0xE000
                    then Some (0x10000 + (u - 0xD800) * 1024 + (l - 0xDC00), r) else None
                | None \<Rightarrow> None)
          else None
      | _ \<Rightarrow> None)"

definition simple_esc :: "char \<Rightarrow> char option" where
  "simple_esc e =
     (if e = quote_char \<or> e = backslash \<or> e = CHR ''/'' then Some e
      else if e = CHR ''b'' then Some CHR 0x08
      else if e = CHR ''f'' then Some CHR 0x0C
      else if e = CHR ''n'' then Some CHR 0x0A
      else if e = CHR ''r'' then Some CHR 0x0D
      else if e = CHR ''t'' then Some CHR 0x09
      else None)"

definition prepend :: "string \<Rightarrow> (string \<times> string) option \<Rightarrow> (string \<times> string) option" where
  "prepend x = map_option (\<lambda>(y, r). (x @ y, r))"

lemma hex4_length: "hex4 s = Some (u, t) \<Longrightarrow> length t < length s"
  by (induction s rule: hex4.induct) (auto split: option.splits prod.splits)

lemma low_pair_length: "low_pair u s = Some (v, t) \<Longrightarrow> length t < length s"
  by (auto simp: low_pair_def split: list.splits if_splits option.splits dest: hex4_length)

text \<open>The text after an opening quote: the decoded string and what follows the closing quote.\<close>

function parse_str :: "string \<Rightarrow> (string \<times> string) option" where
  "parse_str s =
     (case s of
        [] \<Rightarrow> None
      | c # t \<Rightarrow>
          if c = quote_char then Some ([], t)
          else if c = backslash then
            (case t of
               [] \<Rightarrow> None
             | e # r \<Rightarrow>
                 (case simple_esc e of
                    Some d \<Rightarrow> prepend [d] (parse_str r)
                  | None \<Rightarrow>
                      if e \<noteq> CHR ''u'' then None
                      else (case hex4 r of
                              None \<Rightarrow> None
                            | Some (u, q) \<Rightarrow>
                                (case (if 0xD800 \<le> u \<and> u < 0xE000 then low_pair u q else None) of
                                   Some (v, p) \<Rightarrow> prepend (encode_rune v) (parse_str p)
                                 | None \<Rightarrow> prepend (encode_rune u) (parse_str q)))))
          else if byte c < 32 then None
          else if byte c < 128 then prepend [c] (parse_str t)
          else (case rune_len s of
                  None \<Rightarrow> prepend replacement (parse_str t)
                | Some n \<Rightarrow> prepend (take n s) (parse_str (drop n s))))"
  by pat_completeness auto

termination
proof (relation "measure length")
  fix s :: string and c t n
  assume "s = c # t" and "rune_len s = Some n"
  then show "(drop n s, s) \<in> measure length" using rune_len_pos by fastforce
qed (auto dest!: hex4_length low_pair_length split: if_splits)

declare parse_str.simps [simp del]

section \<open>Decoding values\<close>

definition is_ws :: "char \<Rightarrow> bool" where
  "is_ws c \<longleftrightarrow> byte c \<in> {32, 9, 10, 13}"

definition skip_ws :: "string \<Rightarrow> string" where
  "skip_ws s = dropWhile is_ws s"

text \<open>The number grammar: the longest literal at the front, and the rest.\<close>

definition num_digits :: "string \<Rightarrow> (string \<times> string) option" where
  "num_digits s = (if takeWhile is_digit s = [] then None else Some (takeWhile is_digit s, dropWhile is_digit s))"

definition num_int :: "string \<Rightarrow> (string \<times> string) option" where
  "num_int s =
     (case s of
        [] \<Rightarrow> None
      | c # t \<Rightarrow> if c = CHR ''0'' then Some (''0'', t) else num_digits s)"

definition num_frac :: "string \<Rightarrow> (string \<times> string) option" where
  "num_frac s =
     (case s of
        c # t \<Rightarrow> if c = CHR ''.'' then map_option (\<lambda>(d, r). (c # d, r)) (num_digits t) else Some ([], s)
      | [] \<Rightarrow> Some ([], []))"

definition num_sign :: "string \<Rightarrow> string \<times> string" where
  "num_sign s = (case s of c # t \<Rightarrow> if c = CHR ''+'' \<or> c = CHR ''-'' then ([c], t) else ([], s) | [] \<Rightarrow> ([], []))"

definition num_exp :: "string \<Rightarrow> (string \<times> string) option" where
  "num_exp s =
     (case s of
        c # t \<Rightarrow>
          if c = CHR ''e'' \<or> c = CHR ''E''
          then (let (g, u) = num_sign t in map_option (\<lambda>(d, r). (c # g @ d, r)) (num_digits u))
          else Some ([], s)
      | [] \<Rightarrow> Some ([], []))"

definition num_minus :: "string \<Rightarrow> string \<times> string" where
  "num_minus s = (case s of c # t \<Rightarrow> if c = CHR ''-'' then ([c], t) else ([], s) | [] \<Rightarrow> ([], []))"

definition parse_num :: "string \<Rightarrow> (string \<times> string) option" where
  "parse_num s =
     (let (m, s1) = num_minus s in
      case num_int s1 of
        None \<Rightarrow> None
      | Some (i, s2) \<Rightarrow>
          (case num_frac s2 of
             None \<Rightarrow> None
           | Some (f, s3) \<Rightarrow>
               (case num_exp s3 of
                  None \<Rightarrow> None
                | Some (e, s4) \<Rightarrow> Some (m @ i @ f @ e, s4))))"

text \<open>A keyword, a string or a number.\<close>

definition parse_scalar :: "string \<Rightarrow> (json \<times> string) option" where
  "parse_scalar s =
     (if hasPrefix s ''null'' then Some (JNull, drop 4 s)
      else if hasPrefix s ''true'' then Some (JBool True, drop 4 s)
      else if hasPrefix s ''false'' then Some (JBool False, drop 5 s)
      else (case s of
              c # t \<Rightarrow>
                if c = quote_char then map_option (\<lambda>(x, r). (JStr x, r)) (parse_str t)
                else map_option (\<lambda>(x, r). (JNum x, r)) (parse_num s)
            | [] \<Rightarrow> None))"

text \<open>
  The elements of an array and the members of an object, after the first one has been required:
  \<open>p\<close> reads one value, and the fuel is a bound on how many there can be.
\<close>

fun parse_elems :: "(string \<Rightarrow> (json \<times> string) option) \<Rightarrow> nat \<Rightarrow> string \<Rightarrow> (json list \<times> string) option" where
  "parse_elems p 0 s = None"
| "parse_elems p (Suc n) s =
     (case p (skip_ws s) of
        None \<Rightarrow> None
      | Some (j, r) \<Rightarrow>
          (case skip_ws r of
             c # t \<Rightarrow>
               if c = CHR '']'' then Some ([j], t)
               else if c = CHR '','' then map_option (\<lambda>(js, u). (j # js, u)) (parse_elems p n t)
               else None
           | [] \<Rightarrow> None))"

definition parse_key :: "string \<Rightarrow> (string \<times> string) option" where
  "parse_key s =
     (case skip_ws s of
        c # t \<Rightarrow>
          if c = quote_char
          then (case parse_str t of
                  Some (k, r) \<Rightarrow>
                    (case skip_ws r of d # u \<Rightarrow> if d = CHR '':'' then Some (k, u) else None | [] \<Rightarrow> None)
                | None \<Rightarrow> None)
          else None
      | [] \<Rightarrow> None)"

fun parse_members :: "(string \<Rightarrow> (json \<times> string) option) \<Rightarrow> nat \<Rightarrow> string \<Rightarrow> ((string \<times> json) list \<times> string) option" where
  "parse_members p 0 s = None"
| "parse_members p (Suc n) s =
     (case parse_key s of
        None \<Rightarrow> None
      | Some (k, v) \<Rightarrow>
          (case p (skip_ws v) of
             None \<Rightarrow> None
           | Some (j, r) \<Rightarrow>
               (case skip_ws r of
                  c # t \<Rightarrow>
                    if c = CHR ''}'' then Some ([(k, j)], t)
                    else if c = CHR '','' then map_option (\<lambda>(ms, u). ((k, j) # ms, u)) (parse_members p n t)
                    else None
                | [] \<Rightarrow> None)))"

primrec parse_value :: "nat \<Rightarrow> string \<Rightarrow> (json \<times> string) option" where
  "parse_value 0 s = parse_scalar s"
| "parse_value (Suc d) s =
     (case s of
        c # t \<Rightarrow>
          if c = CHR ''['' then
            (case skip_ws t of
               e # u \<Rightarrow>
                 if e = CHR '']'' then Some (JArr [], u)
                 else map_option (\<lambda>(js, r). (JArr js, r)) (parse_elems (parse_value d) (length s) t)
             | [] \<Rightarrow> None)
          else if c = CHR ''{'' then
            (case skip_ws t of
               e # u \<Rightarrow>
                 if e = CHR ''}'' then Some (JObj [], u)
                 else map_option (\<lambda>(ms, r). (JObj ms, r)) (parse_members (parse_value d) (length s) t)
             | [] \<Rightarrow> None)
          else parse_scalar s
      | [] \<Rightarrow> None)"

definition maxNestingDepth :: nat where "maxNestingDepth = 10000"

definition json_parse :: "string \<Rightarrow> json option" where
  "json_parse s =
     (case parse_value maxNestingDepth (skip_ws s) of
        Some (j, r) \<Rightarrow> if skip_ws r = [] then Some j else None
      | None \<Rightarrow> None)"

end
