(* ===== verification/Json_Roundtrip.thy ===== *)
theory Json_Roundtrip
  imports Json
begin

text \<open>
  What the decoder reads back from what the encoder wrote: every string with its invalid bytes
  replaced, every other value as it was.
\<close>

function to_valid :: "string \<Rightarrow> string" where
  "to_valid s =
     (case s of
        [] \<Rightarrow> []
      | c # t \<Rightarrow>
          if byte c < 128 then c # to_valid t
          else case rune_len s of
                 None \<Rightarrow> replacement @ to_valid t
               | Some n \<Rightarrow> take n s @ to_valid (drop n s))"
  by pat_completeness auto

termination
proof (relation "measure length")
  fix s :: string and c t n
  assume "s = c # t" and "rune_len s = Some n"
  then show "(drop n s, s) \<in> measure length" using rune_len_pos by fastforce
qed auto

declare to_valid.simps [simp del]

lemma to_valid_Nil [simp]: "to_valid [] = []"
  by (subst to_valid.simps) simp

lemma to_valid_ascii [simp]: "byte c < 128 \<Longrightarrow> to_valid (c # s) = c # to_valid s"
  by (subst to_valid.simps) simp

lemma to_valid_id: "valid_utf8 s \<Longrightarrow> to_valid s = s"
proof (induction s rule: to_valid.induct)
  case (1 s)
  show ?case
  proof (cases s)
    case (Cons c t)
    show ?thesis
    proof (cases "byte c < 128")
      case True
      then show ?thesis using 1 Cons by simp
    next
      case False
      from "1.prems" Cons obtain n where n: "rune_len s = Some n" "valid_utf8 (drop n s)"
        by (subst (asm) valid_utf8.simps) (auto split: option.splits)
      then show ?thesis using "1.IH"(3)[OF Cons False] Cons False
        by (subst to_valid.simps) simp
    qed
  qed simp
qed

section \<open>Strings\<close>

lemma hex_val_char: "d < 16 \<Longrightarrow> hex_val (hex_char d) = Some d"
  by (auto simp: hex_val_def hex_char_def)

lemma char_of_byte: "char_of (byte c) = c"
  by simp

lemma byte_eq: "byte c = byte d \<longleftrightarrow> c = d"
  by (metis char_of_byte)

lemma quote_nat [simp]: "byte quote_char = 34" "byte backslash = 92"
  by (simp_all add: quote_char_def backslash_def)

lemma parse_str_esc_ascii:
  assumes "byte c < 128"
  shows "parse_str (esc_ascii c @ u) = prepend [c] (parse_str u)"
proof -
  have bq: "backslash \<noteq> quote_char" by (simp add: backslash_def quote_char_def)
  consider (esc) "c = quote_char \<or> c = backslash"
    | (short) "byte c = 8 \<or> byte c = 9 \<or> byte c = 10 \<or> byte c = 12 \<or> byte c = 13"
    | (hex) "c \<noteq> quote_char" "c \<noteq> backslash" "byte c \<notin> {8, 9, 10, 12, 13}"
        "byte c < 32 \<or> c = CHR ''<'' \<or> c = CHR ''>'' \<or> c = CHR ''&''"
    | (plain) "c \<noteq> quote_char" "c \<noteq> backslash" "\<not> byte c < 32" "c \<noteq> CHR ''<''" "c \<noteq> CHR ''>''" "c \<noteq> CHR ''&''"
    by auto
  then show ?thesis
  proof cases
    case esc
    then have e: "esc_ascii c = [backslash, c]" "simple_esc c = Some c"
      by (auto simp: esc_ascii_def simple_esc_def)
    show ?thesis unfolding e by (subst parse_str.simps) (simp add: bq e)
  next
    case short
    then obtain e where e: "esc_ascii c = [backslash, e]" "simple_esc e = Some c"
    proof (elim disjE)
      assume "byte c = 8"
      then have "c = CHR 0x08" using byte_eq[of c "CHR 0x08"] by simp
      then show ?thesis by (intro that[of "CHR ''b''"]) (simp_all add: esc_ascii_def simple_esc_def quote_char_def backslash_def)
    next
      assume "byte c = 9"
      then have "c = CHR 0x09" using byte_eq[of c "CHR 0x09"] by simp
      then show ?thesis by (intro that[of "CHR ''t''"]) (simp_all add: esc_ascii_def simple_esc_def quote_char_def backslash_def)
    next
      assume "byte c = 10"
      then have "c = CHR 0x0A" using byte_eq[of c "CHR 0x0A"] by simp
      then show ?thesis by (intro that[of "CHR ''n''"]) (simp_all add: esc_ascii_def simple_esc_def quote_char_def backslash_def)
    next
      assume "byte c = 12"
      then have "c = CHR 0x0C" using byte_eq[of c "CHR 0x0C"] by simp
      then show ?thesis by (intro that[of "CHR ''f''"]) (simp_all add: esc_ascii_def simple_esc_def quote_char_def backslash_def)
    next
      assume "byte c = 13"
      then have "c = CHR 0x0D" using byte_eq[of c "CHR 0x0D"] by simp
      then show ?thesis by (intro that[of "CHR ''r''"]) (simp_all add: esc_ascii_def simple_esc_def quote_char_def backslash_def)
    qed
    show ?thesis unfolding e by (subst parse_str.simps) (simp add: bq e)
  next
    case hex
    let ?h = "[backslash, CHR ''u'', CHR ''0'', CHR ''0'', hex_char (byte c div 16), hex_char (byte c mod 16)]"
    from hex have e: "esc_ascii c = ?h" by (auto simp: esc_ascii_def)
    have v: "hex_val CHR ''0'' = Some 0" by (simp add: hex_val_def)
    have "byte c div 16 < 16" using assms by simp
    then have h: "hex4 (CHR ''0'' # CHR ''0'' # hex_char (byte c div 16) # hex_char (byte c mod 16) # u) = Some (byte c, u)"
      by (simp add: v hex_val_char)
    have s: "simple_esc CHR ''u'' = None" by (simp add: simple_esc_def quote_char_def backslash_def)
    have r: "encode_rune (byte c) = [c]" using assms by (simp add: encode_rune_def)
    show ?thesis unfolding e
      by (subst parse_str.simps) (simp add: bq s h r assms del: hex4.simps, use assms in linarith)
  next
    case plain
    then have "\<not> byte c < 32" "byte c \<noteq> 8" "byte c \<noteq> 9" "byte c \<noteq> 10" "byte c \<noteq> 12" "byte c \<noteq> 13" by auto
    with plain have e: "esc_ascii c = [c]" by (simp add: esc_ascii_def)
    show ?thesis unfolding e by (subst parse_str.simps) (simp add: plain assms)
  qed
qed

lemma parse_str_hex:
  assumes "hex4 (h @ u) = Some (v, u)" and "\<not> (0xD800 \<le> v \<and> v < 0xE000)"
  shows "parse_str (u_esc h @ u) = prepend (encode_rune v) (parse_str u)"
proof -
  have s: "simple_esc CHR ''u'' = None" by (simp add: simple_esc_def quote_char_def backslash_def)
  have bq: "backslash \<noteq> quote_char" by (simp add: backslash_def quote_char_def)
  show ?thesis unfolding u_esc_def
    by (subst parse_str.simps) (simp add: bq s assms)
qed

lemma parse_str_rune:
  assumes "\<not> byte c < 128" and "rune_len (c # t) = Some n"
  shows "parse_str (take n (c # t) @ u) = prepend (take n (c # t)) (parse_str u)"
proof -
  from rune_len_pos[OF assms(2)] obtain m where m: "n = Suc m" "m \<le> length t" by (cases n) auto
  have r: "rune_len (c # take m t @ u) = Some n"
    using rune_len_append[OF rune_len_take[OF assms(2), of n]] m by simp
  have c: "c \<noteq> quote_char" "c \<noteq> backslash" "\<not> byte c < 32" using assms(1) by auto
  show ?thesis
    by (subst parse_str.simps) (use m c r assms(1) in \<open>simp add: min_def\<close>)
qed

lemma hex4_consts:
  "hex4 (''fffd'' @ u) = Some (0xFFFD, u)" "hex4 (''2028'' @ u) = Some (0x2028, u)" "hex4 (''2029'' @ u) = Some (0x2029, u)"
  by (simp_all add: hex_val_def)

lemma encode_consts:
  "encode_rune 0xFFFD = replacement" "encode_rune 0x2028 = line_sep" "encode_rune 0x2029 = para_sep"
  by (simp_all add: encode_rune_def replacement_def line_sep_def para_sep_def char_of_eq_iff)

lemma parse_str_escape: "parse_str (escape s @ quote_char # r) = Some (to_valid s, r)"
proof (induction s rule: escape.induct)
  case (1 s)
  show ?case
  proof (cases s)
    case Nil
    then show ?thesis by (subst escape.simps, subst parse_str.simps) simp
  next
    case (Cons c t)
    show ?thesis
    proof (cases "byte c < 128")
      case True
      then have "escape s = esc_ascii c @ escape t" by (subst escape.simps) (simp add: Cons)
      with True "1.IH"(1)[OF Cons True] show ?thesis by (simp add: parse_str_esc_ascii prepend_def Cons)
    next
      case False
      show ?thesis
      proof (cases "rune_len s")
        case None
        then have e: "escape s = u_esc ''fffd'' @ escape t" using False by (subst escape.simps) (simp add: Cons)
        have v: "to_valid s = replacement @ to_valid t" using None False by (subst to_valid.simps) (simp add: Cons)
        show ?thesis using "1.IH"(2)[OF Cons False None]
          by (simp only: e v append_assoc parse_str_hex[OF hex4_consts(1), simplified] encode_consts prepend_def) simp
      next
        case (Some n)
        have v: "to_valid s = take n s @ to_valid (drop n s)" using Some False by (subst to_valid.simps) (simp add: Cons)
        have ih: "parse_str (escape (drop n s) @ quote_char # r) = Some (to_valid (drop n s), r)"
          using "1.IH"(3)[OF Cons False Some] .
        have e: "escape s =
          (if take n s = line_sep then u_esc ''2028'' else if take n s = para_sep then u_esc ''2029'' else take n s) @ escape (drop n s)"
          using Some False by (subst escape.simps) (simp add: Cons)
        consider "take n s = line_sep" | "take n s = para_sep" "take n s \<noteq> line_sep" | "take n s \<noteq> line_sep" "take n s \<noteq> para_sep" by blast
        then show ?thesis
        proof cases
          case 1
          then have "escape s = u_esc ''2028'' @ escape (drop n s)" by (simp add: e)
          then show ?thesis using ih 1
            by (simp only: v append_assoc parse_str_hex[OF hex4_consts(2), simplified] encode_consts prepend_def) simp
        next
          case 2
          then have "escape s = u_esc ''2029'' @ escape (drop n s)" by (simp add: e)
          then show ?thesis using ih 2
            by (simp only: v append_assoc parse_str_hex[OF hex4_consts(3), simplified] encode_consts prepend_def) simp
        next
          case 3
          then have "escape s = take n (c # t) @ escape (drop n s)" unfolding e by (simp only: Cons if_False)
          then show ?thesis using ih Some False parse_str_rune[of c t n]
            by (simp only: v[unfolded Cons] append_assoc Cons prepend_def) simp
        qed
      qed
    qed
  qed
qed

section \<open>Numbers\<close>

text \<open>What may follow a value inside a document.\<close>

definition follows :: "string \<Rightarrow> bool" where
  "follows r \<longleftrightarrow> (case r of [] \<Rightarrow> True | c # _ \<Rightarrow> c = CHR '','' \<or> c = CHR '']'' \<or> c = CHR ''}'')"

definition stops :: "string \<Rightarrow> bool" where
  "stops r \<longleftrightarrow> (case r of [] \<Rightarrow> True | c # _ \<Rightarrow> \<not> is_digit c)"

lemma takeWhile_stops: "list_all is_digit d \<Longrightarrow> stops r \<Longrightarrow> takeWhile is_digit (d @ r) = d \<and> dropWhile is_digit (d @ r) = r"
  by (induction d) (auto simp: stops_def split: list.splits)

lemma follows_stops: "follows r \<Longrightarrow> stops r"
  by (auto simp: follows_def stops_def is_digit_def split: list.splits)

lemma follows_end: "follows r \<Longrightarrow> num_frac r = Some ([], r) \<and> num_exp r = Some ([], r)"
  by (auto simp: follows_def num_frac_def num_exp_def split: list.splits)

definition is_num :: "string \<Rightarrow> bool" where
  "is_num n \<longleftrightarrow> (\<forall>r. follows r \<longrightarrow> parse_num (n @ r) = Some (n, r))"

lemma digits_head: "digits n = c # t \<Longrightarrow> c = CHR ''0'' \<Longrightarrow> n = 0 \<and> t = []"
proof (induction n arbitrary: c t rule: digits.induct)
  case (1 n)
  show ?case
  proof (cases "n < 10")
    case True
    with "1.prems" have c: "c = digit_char n" "t = []" by (simp_all add: digits.simps[of n])
    have "byte c = 48 + n" using True c of_char_digit_char by simp
    with "1.prems"(2) c show ?thesis by simp
  next
    case False
    obtain u where u: "digits (n div 10) = c # u" "t = u @ [digit_char (n mod 10)]"
      using "1.prems"(1) False by (cases "digits (n div 10)") (auto simp: digits.simps[of n])
    have "n div 10 = 0" using "1.IH"[OF False u(1) "1.prems"(2)] by simp
    then show ?thesis using False by simp
  qed
qed

lemma num_int_digits:
  assumes "stops r"
  shows "num_int (digits n @ r) = Some (digits n, r)"
proof -
  obtain c t where d: "digits n = c # t" by (cases "digits n") auto
  show ?thesis
  proof (cases "c = CHR ''0''")
    case True
    then show ?thesis using digits_head[OF d] d by (simp add: num_int_def)
  next
    case False
    then show ?thesis using takeWhile_stops[OF digits_all[of n] assms] d
      by (simp add: num_int_def num_digits_def)
  qed
qed

lemma digits_no_minus: "\<exists>c t. digits n = c # t \<and> is_digit c"
  using digits_all[of n] by (cases "digits n") auto

lemma itoa_is_num: "is_num (itoa n)"
proof -
  have m: "num_minus (digits k @ r) = ([], digits k @ r)" for k r
    using digits_no_minus[of k] by (auto simp: num_minus_def is_digit_def split: if_splits)
  have i: "num_int (digits k @ r) = Some (digits k, r)" if "follows r" for k r
    by (rule num_int_digits[OF follows_stops[OF that]])
  show ?thesis unfolding is_num_def
  proof (intro allI impI)
    fix r assume r: "follows r"
    have "num_minus (CHR ''-'' # digits k @ r) = (''-'', digits k @ r)" for k by (simp add: num_minus_def)
    then show "parse_num (itoa n @ r) = Some (itoa n, r)"
      using r follows_end[OF r] m i by (simp add: parse_num_def itoa_def)
  qed
qed

lemma is_num_head:
  assumes "is_num n"
  shows "\<exists>c t. n = c # t \<and> (c = CHR ''-'' \<or> is_digit c)"
proof -
  have "follows []" by (simp add: follows_def)
  with assms have p: "parse_num (n @ []) = Some (n, [])" unfolding is_num_def by blast
  show ?thesis
  proof (cases n)
    case Nil
    with p show ?thesis by (simp add: parse_num_def num_minus_def num_int_def)
  next
    case (Cons c t)
    have "c = CHR ''-'' \<or> is_digit c"
    proof (rule ccontr)
      assume a: "\<not> (c = CHR ''-'' \<or> is_digit c)"
      then have "c \<noteq> CHR ''0''" by (auto simp: is_digit_def)
      with a p Cons show False
        by (simp add: parse_num_def num_minus_def num_int_def num_digits_def)
    qed
    then show ?thesis using Cons by simp
  qed
qed

text \<open>Numbers are made of digits, signs, points and exponents.\<close>

definition num_char :: "char \<Rightarrow> bool" where
  "num_char c \<longleftrightarrow> is_digit c \<or> c \<in> {CHR ''-'', CHR ''+'', CHR ''.'', CHR ''e'', CHR ''E''}"

lemma takeWhile_digits: "list_all num_char (takeWhile is_digit s)"
  by (auto simp: list_all_iff num_char_def dest: set_takeWhileD)

lemma num_digits_chars: "num_digits s = Some (d, r) \<Longrightarrow> list_all num_char d"
  by (auto simp: num_digits_def takeWhile_digits split: if_splits)

lemma num_int_chars: "num_int s = Some (d, r) \<Longrightarrow> list_all num_char d"
  by (auto simp: num_int_def num_char_def is_digit_def split: list.splits if_splits dest: num_digits_chars)

lemma num_frac_chars: "num_frac s = Some (d, r) \<Longrightarrow> list_all num_char d"
  by (auto simp: num_frac_def num_char_def split: list.splits if_splits dest!: num_digits_chars)

lemma num_sign_chars: "num_sign s = (g, r) \<Longrightarrow> list_all num_char g"
  by (auto simp: num_sign_def num_char_def split: list.splits if_splits)

lemma num_minus_chars: "num_minus s = (g, r) \<Longrightarrow> list_all num_char g"
  by (auto simp: num_minus_def num_char_def split: list.splits if_splits)

lemma num_exp_chars: "num_exp s = Some (d, r) \<Longrightarrow> list_all num_char d"
  by (auto simp: num_exp_def num_char_def split: list.splits if_splits prod.splits
      dest!: num_digits_chars dest: num_sign_chars)

lemma parse_num_chars:
  assumes "parse_num n' = Some (n, r)"
  shows "list_all num_char n"
proof -
  obtain m i f x s1 s2 s3 where "n = m @ i @ f @ x" "num_minus n' = (m, s1)" "num_int s1 = Some (i, s2)"
    "num_frac s2 = Some (f, s3)" "num_exp s3 = Some (x, r)"
    using assms by (auto simp: parse_num_def split: prod.splits option.splits)
  then show ?thesis
    using num_minus_chars num_int_chars num_frac_chars num_exp_chars by simp
qed

lemma is_num_chars:
  assumes "is_num n"
  shows "list_all num_char n"
proof -
  have "follows []" by (simp add: follows_def)
  then have "parse_num (n @ []) = Some (n, [])" using assms unfolding is_num_def by blast
  then show ?thesis by (rule parse_num_chars)
qed

section \<open>Values\<close>

text \<open>The value with every string as the decoder gives it back.\<close>

fun norm :: "json \<Rightarrow> json" where
  "norm (JStr s) = JStr (to_valid s)"
| "norm (JArr js) = JArr (map norm js)"
| "norm (JObj ms) = JObj (map (\<lambda>(k, v). (to_valid k, norm v)) ms)"
| "norm j = j"

text \<open>A value nested at most \<open>d\<close> deep whose numbers are number literals.\<close>

fun fits :: "nat \<Rightarrow> json \<Rightarrow> bool" where
  "fits d (JNum n) = is_num n"
| "fits (Suc d) (JArr js) = (\<forall>j \<in> set js. fits d j)"
| "fits (Suc d) (JObj ms) = (\<forall>m \<in> set ms. fits d (snd m))"
| "fits 0 (JArr js) = False"
| "fits 0 (JObj ms) = False"
| "fits d j = True"

lemma skip_ws_id: "\<not> is_ws c \<Longrightarrow> skip_ws (c # s) = c # s"
  by (simp add: skip_ws_def)

lemma skip_ws_Nil [simp]: "skip_ws [] = []"
  by (simp add: skip_ws_def)

lemma follows_ws: "follows r \<Longrightarrow> skip_ws r = r"
  by (auto simp: follows_def skip_ws_def is_ws_def split: list.splits)

definition opens :: "string \<Rightarrow> bool" where
  "opens s \<longleftrightarrow> (case s of [] \<Rightarrow> False | c # _ \<Rightarrow> \<not> is_ws c \<and> c \<noteq> CHR '']'' \<and> c \<noteq> CHR ''}'')"

lemma render_opens: "fits d j \<Longrightarrow> opens (render j @ r)"
proof (cases j)
  case (JNum n)
  assume "fits d j"
  then have "is_num n" by (simp add: JNum)
  then show ?thesis using is_num_head[of n] by (auto simp: JNum opens_def is_ws_def is_digit_def)
qed (auto simp: opens_def is_ws_def quote_str_def quote_char_def)

lemma opens_ws: "opens s \<Longrightarrow> skip_ws s = s"
  by (cases s) (auto simp: opens_def skip_ws_def)

lemma parse_quote: "parse_str (escape s @ [quote_char] @ r) = Some (to_valid s, r)"
  using parse_str_escape by simp

lemma parse_scalar_render:
  assumes "fits 0 j" and "follows r"
  shows "parse_scalar (render j @ r) = Some (norm j, r)"
proof (cases j)
  case (JNum n)
  with assms have n: "is_num n" by simp
  obtain c t where c: "n = c # t" "c = CHR ''-'' \<or> is_digit c" using is_num_head[OF n] by blast
  have "\<not> hasPrefix (n @ r) ''null''" "\<not> hasPrefix (n @ r) ''true''" "\<not> hasPrefix (n @ r) ''false''" "c \<noteq> quote_char"
    using c by (auto simp: hasPrefix_def is_digit_def quote_char_def)
  moreover have "parse_num (n @ r) = Some (n, r)" using n assms(2) by (simp add: is_num_def)
  ultimately show ?thesis using c by (simp add: JNum parse_scalar_def)
next
  case (JStr s)
  then show ?thesis
    by (simp add: parse_scalar_def hasPrefix_def quote_str_def parse_str_escape) (simp add: quote_char_def)
qed (use assms in \<open>simp_all add: parse_scalar_def hasPrefix_def\<close>)

lemma join_Cons: "join (x # xs) sep = x @ (if xs = [] then [] else sep @ join xs sep)"
  by (cases xs) auto

lemma parse_elems_render:
  assumes "\<And>j r. j \<in> set js \<Longrightarrow> follows r \<Longrightarrow> p (render j @ r) = Some (norm j, r)"
    and "\<And>j. j \<in> set js \<Longrightarrow> fits d j" and "js \<noteq> []" and "length js \<le> n"
  shows "parse_elems p n (join (map render js) '','' @ CHR '']'' # r) = Some (map norm js, r)"
  using assms
proof (induction js arbitrary: n)
  case Nil
  then show ?case by simp
next
  case (Cons j js)
  then obtain m where n: "n = Suc m" "length js \<le> m" by (cases n) auto
  show ?case
  proof (cases "js = []")
    case True
    let ?r = "CHR '']'' # r"
    have "follows ?r" by (simp add: follows_def)
    moreover have "skip_ws (render j @ ?r) = render j @ ?r"
      using Cons.prems(2) by (intro opens_ws render_opens) auto
    ultimately show ?thesis using n True Cons.prems(1)[of j ?r] follows_ws[of ?r] by simp
  next
    case False
    let ?r = "CHR '','' # join (map render js) '','' @ CHR '']'' # r"
    have "follows ?r" by (simp add: follows_def)
    moreover have "skip_ws (render j @ ?r) = render j @ ?r"
      using Cons.prems(2) by (intro opens_ws render_opens) auto
    moreover have "parse_elems p m (join (map render js) '','' @ CHR '']'' # r) = Some (map norm js, r)"
      using Cons False n by (intro Cons.IH) auto
    ultimately show ?thesis using n False Cons.prems(1)[of j ?r] follows_ws[of ?r]
      by (simp add: join_Cons)
  qed
qed

lemma parse_key_render: "parse_key (quote_str k @ CHR '':'' # r) = Some (to_valid k, r)"
proof -
  have "skip_ws (quote_str k @ CHR '':'' # r) = quote_char # escape k @ quote_char # CHR '':'' # r"
    by (simp add: quote_str_def skip_ws_id is_ws_def)
  moreover have "skip_ws (CHR '':'' # r) = CHR '':'' # r" by (simp add: skip_ws_id is_ws_def)
  ultimately show ?thesis by (simp add: parse_key_def parse_str_escape)
qed

definition member :: "string \<times> json \<Rightarrow> string" where
  "member m = quote_str (fst m) @ CHR '':'' # render (snd m)"

lemma member_append: "member m @ r = quote_str (fst m) @ CHR '':'' # render (snd m) @ r"
  by (simp add: member_def)

lemma parse_members_render:
  assumes "\<And>m r. m \<in> set ms \<Longrightarrow> follows r \<Longrightarrow> p (render (snd m) @ r) = Some (norm (snd m), r)"
    and "\<And>m. m \<in> set ms \<Longrightarrow> fits d (snd m)" and "ms \<noteq> []" and "length ms \<le> n"
  shows "parse_members p n (join (map member ms) '','' @ CHR ''}'' # r) = Some (map (\<lambda>(k, v). (to_valid k, norm v)) ms, r)"
  using assms
proof (induction ms arbitrary: n)
  case Nil
  then show ?case by simp
next
  case (Cons m ms)
  then obtain l where n: "n = Suc l" "length ms \<le> l" by (cases n) auto
  have w: "skip_ws (render (snd m) @ q) = render (snd m) @ q" for q
    using Cons.prems(2)[of m] by (intro opens_ws render_opens[of d]) simp
  show ?case
  proof (cases "ms = []")
    case True
    let ?r = "CHR ''}'' # r"
    have "follows ?r" by (simp add: follows_def)
    then show ?thesis using n True Cons.prems(1)[of m ?r] follows_ws[of ?r] w[of ?r] parse_key_render[of "fst m" "render (snd m) @ ?r"]
      by (simp add: member_append case_prod_beta)
  next
    case False
    let ?r = "CHR '','' # join (map member ms) '','' @ CHR ''}'' # r"
    have "follows ?r" by (simp add: follows_def)
    moreover have "parse_members p l (join (map member ms) '','' @ CHR ''}'' # r) = Some (map (\<lambda>(k, v). (to_valid k, norm v)) ms, r)"
      using Cons False n by (intro Cons.IH) auto
    ultimately show ?thesis using n False Cons.prems(1)[of m ?r] follows_ws[of ?r] w[of ?r] parse_key_render[of "fst m" "render (snd m) @ ?r"]
      by (simp add: join_Cons member_append case_prod_beta)
  qed
qed

lemma render_members: "render (JObj ms) = CHR ''{'' # join (map member ms) '','' @ [CHR ''}'']"
  by (simp add: member_def[abs_def] case_prod_beta')

lemma join_length: "length xs \<le> Suc (length (join xs '',''))"
  by (induction xs "'',''::string" rule: join.induct) auto

lemma join_opens: "opens (hd xs @ r) \<Longrightarrow> (\<And>r'. opens (hd xs @ r')) \<Longrightarrow> xs \<noteq> [] \<Longrightarrow> opens (join xs sep @ r)"
  by (cases xs) (auto simp: join_Cons)

lemma opens_shape: "opens s \<Longrightarrow> \<exists>c t. s = c # t \<and> c \<noteq> CHR '']'' \<and> c \<noteq> CHR ''}''"
  by (cases s) (auto simp: opens_def)

lemma parse_render:
  assumes "fits d j" and "follows r"
  shows "parse_value d (render j @ r) = Some (norm j, r)"
  using assms
proof (induction d arbitrary: j r)
  case 0
  then show ?case by (simp add: parse_scalar_render del: render.simps)
next
  case (Suc d)
  show ?case
  proof (cases j)
    case (JArr js)
    let ?t = "join (map render js) '','' @ CHR '']'' # r"
    have f: "\<And>j. j \<in> set js \<Longrightarrow> fits d j" using Suc.prems(1) by (simp add: JArr)
    show ?thesis
    proof (cases "js = []")
      case True
      then show ?thesis by (simp add: JArr skip_ws_id is_ws_def)
    next
      case False
      have op: "opens ?t" using False f render_opens by (intro join_opens) (auto simp: hd_map intro: render_opens[OF f])
      then obtain e u where e: "?t = e # u" "e \<noteq> CHR '']''" using opens_shape by blast
      have "length js \<le> length (render j @ r)" using join_length[of "map render js"] by (simp add: JArr)
      then have "parse_elems (parse_value d) (length (render j @ r)) ?t = Some (map norm js, r)"
        using False f Suc.IH by (intro parse_elems_render[where d = d]) auto
      then show ?thesis using e opens_ws[OF op] by (simp add: JArr)
    qed
  next
    case (JObj ms)
    let ?t = "join (map member ms) '','' @ CHR ''}'' # r"
    have f: "\<And>m. m \<in> set ms \<Longrightarrow> fits d (snd m)" using Suc.prems(1) by (simp add: JObj)
    show ?thesis
    proof (cases "ms = []")
      case True
      then show ?thesis by (simp add: JObj skip_ws_id is_ws_def)
    next
      case False
      have "opens (member m @ q)" for m q by (simp add: member_def opens_def quote_str_def is_ws_def quote_char_def)
      then have op: "opens ?t" using False by (intro join_opens) (auto simp: hd_map)
      then obtain e u where e: "?t = e # u" "e \<noteq> CHR ''}''" using opens_shape by blast
      have len: "length ms \<le> length (render j @ r)"
        using join_length[of "map member ms"] render_members[of ms] by (simp add: JObj del: render.simps)
      then have "parse_members (parse_value d) (length (render j @ r)) ?t = Some (map (\<lambda>(k, v). (to_valid k, norm v)) ms, r)"
        using False f Suc.IH by (intro parse_members_render[where d = d]) auto
      then show ?thesis using e opens_ws[OF op] render_members[of ms] by (simp add: JObj del: render.simps)
    qed
  next
    case (JNum n)
    with Suc.prems have "parse_scalar (render j @ r) = Some (norm j, r)" by (intro parse_scalar_render) auto
    moreover obtain c t where "n = c # t" "c = CHR ''-'' \<or> is_digit c" using is_num_head[of n] Suc.prems(1) JNum by auto
    ultimately show ?thesis by (auto simp: JNum is_digit_def)
  next
    case (JStr s)
    with Suc.prems have "parse_scalar (render j @ r) = Some (norm j, r)" by (intro parse_scalar_render) auto
    then show ?thesis by (simp add: JStr quote_str_def quote_char_def)
  next
    case (JBool b)
    with Suc.prems have "parse_scalar (render j @ r) = Some (norm j, r)" by (intro parse_scalar_render) auto
    then show ?thesis by (cases b) (simp_all add: JBool)
  next
    case JNull
    with Suc.prems have "parse_scalar (render j @ r) = Some (norm j, r)" by (intro parse_scalar_render) auto
    then show ?thesis by (simp add: JNull)
  qed
qed

lemma json_parse_render:
  assumes "fits maxNestingDepth j"
  shows "json_parse (render j) = Some (norm j)"
proof -
  have "skip_ws (render j) = render j" using opens_ws[OF render_opens[OF assms, of "[]"]] by simp
  moreover have "parse_value maxNestingDepth (render j @ []) = Some (norm j, [])"
    by (rule parse_render[OF assms]) (simp add: follows_def)
  ultimately show ?thesis by (simp add: json_parse_def)
qed

end
