(* ===== verification/Recorder_Event.thy ===== *)
theory Recorder_Event
  imports Json_Roundtrip
begin

text \<open>
  The event of \<open>internal/recorder/recorder.go\<close>. The code treats \<open>Event\<close> three
  ways: as a struct with named fields, as the JSON object its tags declare, and, by reflection, as
  the list of its string fields. All three are views of one table, \<open>event_struct\<close>: the JSON key,
  the kind and the \<open>omitempty\<close> mark of every field in declared order. An event maps a key to a
  value of the key's kind; a field a literal leaves out has the zero value.
  \<open>marshal\<close> and \<open>unmarshal\<close> are \<open>json.Marshal\<close> and \<open>json.Unmarshal\<close> at this type.
\<close>

record evError =
  ee_Kind :: string
  ee_Message :: string

record evSecret =
  es_Name :: string
  es_Host :: string
  es_Path :: string

record evAgent =
  ea_Name :: string
  ea_Sandbox :: string
  ea_Group :: string

record evStoreKey =
  ek_Name :: string
  ek_Read :: "string list"
  ek_Write :: "string list"

datatype kind = KStr | KInt | KFloat | KBoolP | KIntP | KErrP | KStrs | KInts | KSecrets | KAgents | KStoreKeys

text \<open>
  The value of a field. A nil slice and an empty one are both the empty list: every slice field
  omits both. A \<open>float64\<close> is the number literal it is rendered as.
\<close>

datatype fval =
    FStr string
  | FInt int
  | FFloat string
  | FBoolP "bool option"
  | FIntP "int option"
  | FErrP "evError option"
  | FStrs "string list"
  | FInts "int list"
  | FSecrets "evSecret list"
  | FAgents "evAgent list"
  | FStoreKeys "evStoreKey list"

definition event_header :: "(string \<times> kind \<times> bool) list" where
  "event_header = [
    (''v'', KInt, False), (''seq'', KInt, False), (''ts'', KStr, False), (''sandbox'', KStr, False),
    (''type'', KStr, False), (''source'', KStr, False), (''prev'', KStr, False), (''hash'', KStr, False)]"

definition event_payload_run :: "(string \<times> kind \<times> bool) list" where
  "event_payload_run = [
    (''image'', KStr, True), (''arch'', KStr, True), (''kelyfos'', KStr, True), (''argv'', KStrs, True),
    (''boot_ms'', KInt, True), (''kernel'', KStr, True), (''supervisor'', KStr, True),
    (''overlay'', KBoolP, True), (''reason'', KStr, True), (''duration_ms'', KInt, True),
    (''call'', KStr, True), (''cmd'', KStrs, True), (''cwd'', KStr, True), (''via'', KStr, True),
    (''stream'', KStr, True), (''data'', KStr, True), (''bytes'', KInt, True), (''code'', KIntP, True),
    (''signal'', KStr, True), (''error'', KErrP, True), (''path'', KStr, True), (''sha256'', KStr, True),
    (''host'', KStr, True), (''port'', KInt, True), (''allowed'', KBoolP, True), (''mode'', KStr, True),
    (''bytes_in'', KInt, True), (''bytes_out'', KInt, True), (''name'', KStr, True), (''pid'', KInt, True),
    (''comm'', KStr, True), (''rss_kib'', KInt, True), (''mem_mib'', KInt, True), (''budget'', KStr, True),
    (''budget_ms'', KInt, True), (''elapsed_ms'', KInt, True), (''agent'', KStr, True),
    (''peer'', KStr, True), (''kind'', KStr, True), (''outcome'', KStr, True),
    (''cpu_seconds'', KFloat, True), (''peak_rss_kib'', KInt, True), (''net_in_bytes'', KInt, True),
    (''net_out_bytes'', KInt, True), (''disk_read_bytes'', KInt, True), (''disk_write_bytes'', KInt, True),
    (''vcpu_count'', KInt, True), (''cpu_quota_percent'', KInt, True), (''blocked_packets'', KInt, True)]"

definition event_payload_policy :: "(string \<times> kind \<times> bool) list" where
  "event_payload_policy = [
    (''args'', KStr, True), (''tool'', KStr, True), (''added'', KInt, True), (''modified'', KInt, True),
    (''deleted'', KInt, True), (''jailed'', KBoolP, True), (''guest_port'', KInt, True),
    (''profile'', KStr, True), (''disk_bytes'', KInt, True), (''scratch_bytes'', KInt, True),
    (''net_mbps_rx'', KInt, True), (''net_mbps_tx'', KInt, True), (''disk_iops'', KInt, True),
    (''disk_mbps'', KInt, True), (''max_runtime_ms'', KInt, True), (''idle_timeout_ms'', KInt, True),
    (''allow'', KStrs, True), (''ports'', KInts, True), (''secrets'', KSecrets, True),
    (''workspace'', KStr, True), (''plugins'', KStrs, True), (''forwards'', KStrs, True),
    (''rootfs_sha256'', KStr, True), (''kernel_sha256'', KStr, True), (''tools'', KStrs, True),
    (''parent_session'', KStr, True), (''traceparent'', KStr, True), (''agents'', KAgents, True),
    (''edges'', KStrs, True), (''store_keys'', KStoreKeys, True), (''record_payloads'', KBoolP, True),
    (''redacted_fields'', KInt, True), (''resolved_addr'', KStr, True)]"

definition event_struct :: "(string \<times> kind \<times> bool) list" where
  "event_struct = event_header @ event_payload_run @ event_payload_policy"

type_synonym event = "string \<Rightarrow> fval"

fun zero_val :: "kind \<Rightarrow> fval" where
  "zero_val KStr = FStr []"
| "zero_val KInt = FInt 0"
| "zero_val KFloat = FFloat ''0''"
| "zero_val KBoolP = FBoolP None"
| "zero_val KIntP = FIntP None"
| "zero_val KErrP = FErrP None"
| "zero_val KStrs = FStrs []"
| "zero_val KInts = FInts []"
| "zero_val KSecrets = FSecrets []"
| "zero_val KAgents = FAgents []"
| "zero_val KStoreKeys = FStoreKeys []"

fun kind_of_val :: "fval \<Rightarrow> kind" where
  "kind_of_val (FStr _) = KStr"
| "kind_of_val (FInt _) = KInt"
| "kind_of_val (FFloat _) = KFloat"
| "kind_of_val (FBoolP _) = KBoolP"
| "kind_of_val (FIntP _) = KIntP"
| "kind_of_val (FErrP _) = KErrP"
| "kind_of_val (FStrs _) = KStrs"
| "kind_of_val (FInts _) = KInts"
| "kind_of_val (FSecrets _) = KSecrets"
| "kind_of_val (FAgents _) = KAgents"
| "kind_of_val (FStoreKeys _) = KStoreKeys"

definition kind_at :: "string \<Rightarrow> kind" where
  "kind_at k = (case map_of event_struct k of Some (t, _) \<Rightarrow> t | None \<Rightarrow> KStr)"

definition zeroEvent :: event where
  "zeroEvent k = zero_val (kind_at k)"

definition get_str :: "event \<Rightarrow> string \<Rightarrow> string" where
  "get_str e k = (case e k of FStr s \<Rightarrow> s | _ \<Rightarrow> [])"

definition get_int :: "event \<Rightarrow> string \<Rightarrow> int" where
  "get_int e k = (case e k of FInt n \<Rightarrow> n | _ \<Rightarrow> 0)"

text \<open>The field of each key has its declared kind: what Go's type checker gives.\<close>

definition typed :: "event \<Rightarrow> bool" where
  "typed e \<longleftrightarrow> (\<forall>k. kind_of_val (e k) = kind_at k)"

section \<open>Marshalling\<close>

text \<open>Which values \<open>omitempty\<close> leaves out.\<close>

fun is_empty_val :: "fval \<Rightarrow> bool" where
  "is_empty_val (FStr s) = (s = [])"
| "is_empty_val (FInt n) = (n = 0)"
| "is_empty_val (FFloat f) = (f = ''0'' \<or> f = ''-0'')"
| "is_empty_val (FBoolP b) = (b = None)"
| "is_empty_val (FIntP n) = (n = None)"
| "is_empty_val (FErrP e) = (e = None)"
| "is_empty_val (FStrs xs) = (xs = [])"
| "is_empty_val (FInts xs) = (xs = [])"
| "is_empty_val (FSecrets xs) = (xs = [])"
| "is_empty_val (FAgents xs) = (xs = [])"
| "is_empty_val (FStoreKeys xs) = (xs = [])"

definition opt_str :: "string \<Rightarrow> string \<Rightarrow> (string \<times> json) list" where
  "opt_str k s = (if s = [] then [] else [(k, JStr s)])"

definition opt_strs :: "string \<Rightarrow> string list \<Rightarrow> (string \<times> json) list" where
  "opt_strs k xs = (if xs = [] then [] else [(k, JArr (map JStr xs))])"

definition error_json :: "evError \<Rightarrow> json" where
  "error_json e = JObj [(''kind'', JStr (ee_Kind e)), (''message'', JStr (ee_Message e))]"

definition secret_json :: "evSecret \<Rightarrow> json" where
  "secret_json s = JObj ([(''name'', JStr (es_Name s)), (''host'', JStr (es_Host s))] @ opt_str ''path'' (es_Path s))"

definition agent_json :: "evAgent \<Rightarrow> json" where
  "agent_json a = JObj ([(''name'', JStr (ea_Name a)), (''sandbox'', JStr (ea_Sandbox a))] @ opt_str ''group'' (ea_Group a))"

definition store_key_json :: "evStoreKey \<Rightarrow> json" where
  "store_key_json k = JObj ((''name'', JStr (ek_Name k)) # opt_strs ''read'' (ek_Read k) @ opt_strs ''write'' (ek_Write k))"

fun val_json :: "fval \<Rightarrow> json" where
  "val_json (FStr s) = JStr s"
| "val_json (FInt n) = JNum (itoa n)"
| "val_json (FFloat f) = JNum f"
| "val_json (FBoolP b) = (case b of None \<Rightarrow> JNull | Some x \<Rightarrow> JBool x)"
| "val_json (FIntP n) = (case n of None \<Rightarrow> JNull | Some x \<Rightarrow> JNum (itoa x))"
| "val_json (FErrP e) = (case e of None \<Rightarrow> JNull | Some x \<Rightarrow> error_json x)"
| "val_json (FStrs xs) = JArr (map JStr xs)"
| "val_json (FInts xs) = JArr (map (\<lambda>n. JNum (itoa n)) xs)"
| "val_json (FSecrets xs) = JArr (map secret_json xs)"
| "val_json (FAgents xs) = JArr (map agent_json xs)"
| "val_json (FStoreKeys xs) = JArr (map store_key_json xs)"

fun members_of :: "(string \<times> kind \<times> bool) list \<Rightarrow> event \<Rightarrow> (string \<times> json) list" where
  "members_of [] e = []"
| "members_of ((k, t, om) # fs) e =
     (if om \<and> is_empty_val (e k) then members_of fs e else (k, val_json (e k)) # members_of fs e)"

definition marshal :: "event \<Rightarrow> string" where
  "marshal e = render (JObj (members_of event_struct e))"

section \<open>Unmarshalling\<close>

text \<open>
  A JSON key finds the field of that exact name, or else the first one equal under simple folding
  (ASCII letters, the long s and the Kelvin sign).
\<close>

fun fold_name :: "string \<Rightarrow> string" where
  "fold_name [] = []"
| "fold_name (c # s) =
     (if hasPrefix (c # s) [CHR 0xC5, CHR 0xBF] then CHR ''S'' # fold_name (drop 1 s)
      else if hasPrefix (c # s) [CHR 0xE2, CHR 0x84, CHR 0xAA] then CHR ''K'' # fold_name (drop 2 s)
      else (if 97 \<le> byte c \<and> byte c \<le> 122 then char_of (byte c - 32) else c) # fold_name s)"

definition field_for :: "string list \<Rightarrow> string \<Rightarrow> string option" where
  "field_for names k = (if k \<in> set names then Some k else find (\<lambda>n. fold_name n = fold_name k) names)"

definition decode_int :: "string \<Rightarrow> int option" where
  "decode_int n =
     (case num_minus n of (m, d) \<Rightarrow>
        if d \<noteq> [] \<and> list_all is_digit d
        then (let v = (if m = [] then int (digits_val 0 d) else - int (digits_val 0 d))
              in if in_int64 v then Some v else None)
        else None)"

text \<open>
  A literal is out of a float64's range when its value rounds to infinity: at least
  \<open>2^1024 - 2^970\<close>.
\<close>

definition float_ok :: "string \<Rightarrow> bool" where
  "float_ok n =
     (let (_, s) = num_minus n;
          ip = takeWhile is_digit s; s1 = dropWhile is_digit s;
          fp = (case s1 of c # t \<Rightarrow> if c = CHR ''.'' then takeWhile is_digit t else [] | [] \<Rightarrow> []);
          s2 = (case s1 of c # t \<Rightarrow> if c = CHR ''.'' then dropWhile is_digit t else s1 | [] \<Rightarrow> []);
          (g, ed) = (case s2 of c # t \<Rightarrow> num_sign t | [] \<Rightarrow> ([], []));
          ex = (if g = ''-'' then - int (digits_val 0 ed) else int (digits_val 0 ed)) - int (length fp);
          man = digits_val 0 (ip @ fp)
      in if 0 \<le> ex then man * 10 ^ nat ex < 2 ^ 1024 - 2 ^ 970
         else man < (2 ^ 1024 - 2 ^ 970) * 10 ^ nat (- ex))"

fun decode_str :: "json \<Rightarrow> string \<Rightarrow> string option" where
  "decode_str (JStr s) old = Some s"
| "decode_str JNull old = Some old"
| "decode_str _ old = None"

fun decode_all :: "(json \<Rightarrow> 'a option) \<Rightarrow> json list \<Rightarrow> 'a list option" where
  "decode_all f [] = Some []"
| "decode_all f (j # js) =
     (case f j of None \<Rightarrow> None | Some x \<Rightarrow> map_option (\<lambda>xs. x # xs) (decode_all f js))"

fun decode_arr :: "(json \<Rightarrow> 'a option) \<Rightarrow> json \<Rightarrow> 'a list option" where
  "decode_arr f (JArr js) = decode_all f js"
| "decode_arr f JNull = Some []"
| "decode_arr f _ = None"

definition decode_strs :: "json \<Rightarrow> string list option" where
  "decode_strs = decode_arr (\<lambda>j. decode_str j [])"

text \<open>The members of an object, assigned in order by \<open>put\<close>, which may refuse one.\<close>

fun decode_members ::
  "string list \<Rightarrow> (string \<Rightarrow> json \<Rightarrow> 'a \<Rightarrow> 'a option) \<Rightarrow> (string \<times> json) list \<Rightarrow> 'a \<Rightarrow> 'a option" where
  "decode_members names put [] a = Some a"
| "decode_members names put ((k, j) # ms) a =
     (case field_for names k of
        None \<Rightarrow> decode_members names put ms a
      | Some f \<Rightarrow> (case put f j a of None \<Rightarrow> None | Some b \<Rightarrow> decode_members names put ms b))"

fun decode_obj :: "string list \<Rightarrow> (string \<Rightarrow> json \<Rightarrow> 'a \<Rightarrow> 'a option) \<Rightarrow> json \<Rightarrow> 'a \<Rightarrow> 'a option" where
  "decode_obj names put (JObj ms) a = decode_members names put ms a"
| "decode_obj names put JNull a = Some a"
| "decode_obj names put _ a = None"

definition set_error :: "string \<Rightarrow> json \<Rightarrow> evError \<Rightarrow> evError option" where
  "set_error k j e =
     (if k = ''kind'' then map_option (\<lambda>s. e\<lparr>ee_Kind := s\<rparr>) (decode_str j (ee_Kind e))
      else map_option (\<lambda>s. e\<lparr>ee_Message := s\<rparr>) (decode_str j (ee_Message e)))"

definition set_secret :: "string \<Rightarrow> json \<Rightarrow> evSecret \<Rightarrow> evSecret option" where
  "set_secret k j e =
     (if k = ''name'' then map_option (\<lambda>s. e\<lparr>es_Name := s\<rparr>) (decode_str j (es_Name e))
      else if k = ''host'' then map_option (\<lambda>s. e\<lparr>es_Host := s\<rparr>) (decode_str j (es_Host e))
      else map_option (\<lambda>s. e\<lparr>es_Path := s\<rparr>) (decode_str j (es_Path e)))"

definition set_agent :: "string \<Rightarrow> json \<Rightarrow> evAgent \<Rightarrow> evAgent option" where
  "set_agent k j e =
     (if k = ''name'' then map_option (\<lambda>s. e\<lparr>ea_Name := s\<rparr>) (decode_str j (ea_Name e))
      else if k = ''sandbox'' then map_option (\<lambda>s. e\<lparr>ea_Sandbox := s\<rparr>) (decode_str j (ea_Sandbox e))
      else map_option (\<lambda>s. e\<lparr>ea_Group := s\<rparr>) (decode_str j (ea_Group e)))"

definition set_store_key :: "string \<Rightarrow> json \<Rightarrow> evStoreKey \<Rightarrow> evStoreKey option" where
  "set_store_key k j e =
     (if k = ''name'' then map_option (\<lambda>s. e\<lparr>ek_Name := s\<rparr>) (decode_str j (ek_Name e))
      else if k = ''read'' then map_option (\<lambda>s. e\<lparr>ek_Read := s\<rparr>) (decode_strs j)
      else map_option (\<lambda>s. e\<lparr>ek_Write := s\<rparr>) (decode_strs j))"

definition decode_secret :: "json \<Rightarrow> evSecret option" where
  "decode_secret j = decode_obj [''name'', ''host'', ''path''] set_secret j \<lparr>es_Name = [], es_Host = [], es_Path = []\<rparr>"

definition decode_agent :: "json \<Rightarrow> evAgent option" where
  "decode_agent j = decode_obj [''name'', ''sandbox'', ''group''] set_agent j \<lparr>ea_Name = [], ea_Sandbox = [], ea_Group = []\<rparr>"

definition decode_store_key :: "json \<Rightarrow> evStoreKey option" where
  "decode_store_key j = decode_obj [''name'', ''read'', ''write''] set_store_key j \<lparr>ek_Name = [], ek_Read = [], ek_Write = []\<rparr>"

fun decode_num :: "json \<Rightarrow> int \<Rightarrow> int option" where
  "decode_num (JNum n) old = decode_int n"
| "decode_num JNull old = Some old"
| "decode_num _ old = None"

text \<open>One value decoded into a field that holds \<open>old\<close>.\<close>

fun decode_val :: "fval \<Rightarrow> json \<Rightarrow> fval option" where
  "decode_val (FStr s) j = map_option FStr (decode_str j s)"
| "decode_val (FInt n) j = map_option FInt (decode_num j n)"
| "decode_val (FFloat f) j =
     (case j of JNum n \<Rightarrow> if float_ok n then Some (FFloat n) else None | JNull \<Rightarrow> Some (FFloat f) | _ \<Rightarrow> None)"
| "decode_val (FBoolP b) j =
     (case j of JBool x \<Rightarrow> Some (FBoolP (Some x)) | JNull \<Rightarrow> Some (FBoolP None) | _ \<Rightarrow> None)"
| "decode_val (FIntP n) j =
     (if j = JNull then Some (FIntP None) else map_option (\<lambda>i. FIntP (Some i)) (decode_num j 0))"
| "decode_val (FErrP e) j =
     (if j = JNull then Some (FErrP None)
      else map_option (\<lambda>x. FErrP (Some x))
        (decode_obj [''kind'', ''message''] set_error j
           (case e of Some x \<Rightarrow> x | None \<Rightarrow> \<lparr>ee_Kind = [], ee_Message = []\<rparr>)))"
| "decode_val (FStrs xs) j = map_option FStrs (decode_strs j)"
| "decode_val (FInts xs) j = map_option FInts (decode_arr (\<lambda>i. decode_num i 0) j)"
| "decode_val (FSecrets xs) j = map_option FSecrets (decode_arr decode_secret j)"
| "decode_val (FAgents xs) j = map_option FAgents (decode_arr decode_agent j)"
| "decode_val (FStoreKeys xs) j = map_option FStoreKeys (decode_arr decode_store_key j)"

definition set_field :: "string \<Rightarrow> json \<Rightarrow> event \<Rightarrow> event option" where
  "set_field k j e = map_option (\<lambda>v. e(k := v)) (decode_val (e k) j)"

definition unmarshal :: "string \<Rightarrow> event option" where
  "unmarshal s =
     (case json_parse s of
        None \<Rightarrow> None
      | Some j \<Rightarrow> decode_obj (map fst event_struct) set_field j zeroEvent)"

section \<open>Building events\<close>

definition withPosture :: "event \<Rightarrow> bool \<Rightarrow> string \<Rightarrow> event" where
  "withPosture e jailed profile = e(''jailed'' := FBoolP (Some jailed), ''profile'' := FStr profile)"

record policyFields =
  pf_VcpuCount :: int
  pf_MemMiB :: int
  pf_CPUQuota :: int
  pf_DiskBytes :: int
  pf_ScratchBytes :: int
  pf_NetMbpsRx :: int
  pf_NetMbpsTx :: int
  pf_DiskIOPS :: int
  pf_DiskMbps :: int
  pf_MaxRuntimeMS :: int
  pf_IdleTimeoutMS :: int
  pf_Allow :: "string list"
  pf_Plugins :: "string list"
  pf_Forwards :: "string list"
  pf_Tools :: "string list"
  pf_Ports :: "int list"
  pf_Secrets :: "evSecret list"
  pf_Workspace :: string
  pf_RootfsSHA256 :: string
  pf_KernelSHA256 :: string
  pf_ParentSession :: string
  pf_Traceparent :: string

definition newSessionPolicy :: "string \<Rightarrow> policyFields \<Rightarrow> event" where
  "newSessionPolicy agent p = zeroEvent(
     ''type'' := FStr ''session.policy'', ''agent'' := FStr agent,
     ''vcpu_count'' := FInt (pf_VcpuCount p), ''mem_mib'' := FInt (pf_MemMiB p),
     ''cpu_quota_percent'' := FInt (pf_CPUQuota p),
     ''disk_bytes'' := FInt (pf_DiskBytes p), ''scratch_bytes'' := FInt (pf_ScratchBytes p),
     ''net_mbps_rx'' := FInt (pf_NetMbpsRx p), ''net_mbps_tx'' := FInt (pf_NetMbpsTx p),
     ''disk_iops'' := FInt (pf_DiskIOPS p), ''disk_mbps'' := FInt (pf_DiskMbps p),
     ''max_runtime_ms'' := FInt (pf_MaxRuntimeMS p), ''idle_timeout_ms'' := FInt (pf_IdleTimeoutMS p),
     ''allow'' := FStrs (pf_Allow p), ''ports'' := FInts (pf_Ports p), ''secrets'' := FSecrets (pf_Secrets p),
     ''workspace'' := FStr (pf_Workspace p), ''plugins'' := FStrs (pf_Plugins p),
     ''forwards'' := FStrs (pf_Forwards p), ''rootfs_sha256'' := FStr (pf_RootfsSHA256 p),
     ''kernel_sha256'' := FStr (pf_KernelSHA256 p), ''tools'' := FStrs (pf_Tools p),
     ''parent_session'' := FStr (pf_ParentSession p), ''traceparent'' := FStr (pf_Traceparent p))"

record topologyFields =
  tf_Agents :: "evAgent list"
  tf_Edges :: "string list"
  tf_StoreKeys :: "evStoreKey list"
  tf_CPUQuota :: int
  tf_RecordPayloads :: "bool option"

definition newTeamTopology :: "topologyFields \<Rightarrow> event" where
  "newTeamTopology f = zeroEvent(
     ''type'' := FStr ''team.topology'', ''agents'' := FAgents (tf_Agents f), ''edges'' := FStrs (tf_Edges f),
     ''store_keys'' := FStoreKeys (tf_StoreKeys f), ''cpu_quota_percent'' := FInt (tf_CPUQuota f),
     ''record_payloads'' := FBoolP (tf_RecordPayloads f))"

end
