(* ===== verification/Recorder_Codec.thy ===== *)
theory Recorder_Codec
  imports Recorder_Event
begin

text \<open>
  \<open>unmarshal\<close> inverts \<open>marshal\<close> on every well-typed event, up to the replacement of invalid
  UTF-8 in its strings.
\<close>

definition norm_error :: "evError \<Rightarrow> evError" where
  "norm_error e = \<lparr>ee_Kind = to_valid (ee_Kind e), ee_Message = to_valid (ee_Message e)\<rparr>"

definition norm_secret :: "evSecret \<Rightarrow> evSecret" where
  "norm_secret s = \<lparr>es_Name = to_valid (es_Name s), es_Host = to_valid (es_Host s), es_Path = to_valid (es_Path s)\<rparr>"

definition norm_agent :: "evAgent \<Rightarrow> evAgent" where
  "norm_agent a = \<lparr>ea_Name = to_valid (ea_Name a), ea_Sandbox = to_valid (ea_Sandbox a), ea_Group = to_valid (ea_Group a)\<rparr>"

definition norm_store_key :: "evStoreKey \<Rightarrow> evStoreKey" where
  "norm_store_key k =
     \<lparr>ek_Name = to_valid (ek_Name k), ek_Read = map to_valid (ek_Read k), ek_Write = map to_valid (ek_Write k)\<rparr>"

fun norm_val :: "fval \<Rightarrow> fval" where
  "norm_val (FStr s) = FStr (to_valid s)"
| "norm_val (FErrP e) = FErrP (map_option norm_error e)"
| "norm_val (FStrs xs) = FStrs (map to_valid xs)"
| "norm_val (FSecrets xs) = FSecrets (map norm_secret xs)"
| "norm_val (FAgents xs) = FAgents (map norm_agent xs)"
| "norm_val (FStoreKeys xs) = FStoreKeys (map norm_store_key xs)"
| "norm_val v = v"

definition norm_event :: "event \<Rightarrow> event" where
  "norm_event e k = (if k \<in> fst ` set event_struct then norm_val (e k) else zeroEvent k)"

text \<open>What a Go value of the kind is: 64-bit integers, and a float literal as the encoder writes one.\<close>

fun val_ok :: "fval \<Rightarrow> bool" where
  "val_ok (FInt n) = in_int64 n"
| "val_ok (FIntP n) = (case n of None \<Rightarrow> True | Some i \<Rightarrow> in_int64 i)"
| "val_ok (FInts xs) = list_all in_int64 xs"
| "val_ok (FFloat f) = (is_num f \<and> float_ok f \<and> f \<noteq> ''-0'')"
| "val_ok _ = True"

definition event_ok :: "event \<Rightarrow> bool" where
  "event_ok e \<longleftrightarrow> typed e \<and> (\<forall>k. val_ok (e k))"

section \<open>The table\<close>

definition ascii :: "string \<Rightarrow> bool" where
  "ascii s = list_all (\<lambda>c. byte c < 128) s"

lemma ascii_valid: "ascii s \<Longrightarrow> to_valid s = s"
  by (induction s) (auto simp: ascii_def)

lemmas struct_defs = event_struct_def event_header_def event_payload_run_def event_payload_policy_def

lemma struct_distinct: "distinct (map fst event_struct)"
  by (simp add: struct_defs)

lemma struct_ascii: "list_all (\<lambda>f. ascii (fst f)) event_struct"
  by (simp add: struct_defs ascii_def)

lemma kind_at_struct: "(k, t, om) \<in> set event_struct \<Longrightarrow> kind_at k = t"
  using map_of_is_SomeI[OF struct_distinct] by (simp add: kind_at_def)

lemma kind_table: "list_all (\<lambda>f. kind_at (fst f) = fst (snd f)) event_struct"
  by (auto simp: list_all_iff dest: kind_at_struct)

lemmas kinds = kind_table[unfolded struct_defs append.simps list.pred_inject fst_conv snd_conv]

lemma data_struct: "(''data'', KStr, True) \<in> set event_struct"
  by (simp_all only: struct_defs set_append set_simps Un_iff insert_iff prod.inject) simp

section \<open>Values\<close>

lemma decode_int_itoa: "in_int64 n \<Longrightarrow> decode_int (itoa n) = Some n"
proof -
  assume n: "in_int64 n"
  have m: "num_minus (digits k) = ([], digits k)" for k
    using digits_no_minus[of k] by (auto simp: num_minus_def is_digit_def)
  show ?thesis
  proof (cases "n < 0")
    case True
    then have "itoa n = CHR ''-'' # digits (nat (- n))" by (simp add: itoa_def)
    then show ?thesis using True n digits_all[of "nat (- n)"]
      by (simp add: decode_int_def num_minus_def digits_val_digits)
  next
    case False
    then have "itoa n = digits (nat n)" by (simp add: itoa_def)
    then show ?thesis using False n digits_all[of "nat n"] m
      by (simp add: decode_int_def digits_val_digits)
  qed
qed

lemma decode_strs_norm: "decode_strs (JArr (map (norm \<circ> JStr) xs)) = Some (map to_valid xs)"
  by (induction xs) (auto simp: decode_strs_def)

lemma decode_all_map:
  "(\<And>x. x \<in> set xs \<Longrightarrow> f (g x) = Some (h x)) \<Longrightarrow> decode_all f (map g xs) = Some (map h xs)"
  by (induction xs) auto

lemma to_valid_keys:
  "to_valid ''kind'' = ''kind''" "to_valid ''message'' = ''message''" "to_valid ''name'' = ''name''"
  "to_valid ''host'' = ''host''" "to_valid ''path'' = ''path''" "to_valid ''sandbox'' = ''sandbox''"
  "to_valid ''group'' = ''group''" "to_valid ''read'' = ''read''" "to_valid ''write'' = ''write''"
  by simp_all

lemma field_for_exact: "k \<in> set names \<Longrightarrow> field_for names k = Some k"
  by (simp add: field_for_def)

lemma decode_error_norm:
  "decode_obj [''kind'', ''message''] set_error (norm (error_json e)) z = Some (norm_error e)"
  by (simp add: error_json_def to_valid_keys field_for_def set_error_def norm_error_def)

lemma decode_secret_norm: "decode_secret (norm (secret_json s)) = Some (norm_secret s)"
  by (simp add: secret_json_def opt_str_def to_valid_keys field_for_def set_secret_def norm_secret_def decode_secret_def)

lemma decode_agent_norm: "decode_agent (norm (agent_json s)) = Some (norm_agent s)"
  by (simp add: agent_json_def opt_str_def to_valid_keys field_for_def set_agent_def norm_agent_def decode_agent_def)

lemma decode_store_key_norm: "decode_store_key (norm (store_key_json s)) = Some (norm_store_key s)"
  by (simp add: store_key_json_def opt_strs_def to_valid_keys field_for_def set_store_key_def norm_store_key_def
      decode_store_key_def decode_strs_norm)

lemma norm_not_null: "norm (error_json e) \<noteq> JNull"
  by (simp add: error_json_def)

lemma decode_val_norm:
  assumes "val_ok v" and "\<not> is_empty_val v"
  shows "decode_val (zero_val (kind_of_val v)) (norm (val_json v)) = Some (norm_val v)"
proof (cases v)
  case (FIntP n)
  with assms show ?thesis by (auto simp: decode_int_itoa)
next
  case (FInts xs)
  have "decode_all (\<lambda>i. decode_num i 0) (map (\<lambda>n. JNum (itoa n)) xs) = Some (map (\<lambda>n. n) xs)"
    using assms(1) by (intro decode_all_map) (auto simp: FInts list_all_iff decode_int_itoa)
  then show ?thesis by (simp add: FInts comp_def)
next
  case (FErrP e)
  with assms(2) obtain x where e: "e = Some x" by auto
  show ?thesis by (simp add: FErrP e norm_not_null decode_error_norm)
next
  case (FStrs xs)
  then show ?thesis using decode_strs_norm[of xs] by (simp add: comp_def)
next
  case (FSecrets xs)
  have "decode_all decode_secret (map (\<lambda>x. norm (secret_json x)) xs) = Some (map norm_secret xs)"
    by (intro decode_all_map) (rule decode_secret_norm)
  then show ?thesis by (simp add: FSecrets comp_def)
next
  case (FAgents xs)
  have "decode_all decode_agent (map (\<lambda>x. norm (agent_json x)) xs) = Some (map norm_agent xs)"
    by (intro decode_all_map) (rule decode_agent_norm)
  then show ?thesis by (simp add: FAgents comp_def)
next
  case (FStoreKeys xs)
  have "decode_all decode_store_key (map (\<lambda>x. norm (store_key_json x)) xs) = Some (map norm_store_key xs)"
    by (intro decode_all_map) (rule decode_store_key_norm)
  then show ?thesis by (simp add: FStoreKeys comp_def)
qed (use assms in \<open>auto simp: decode_int_itoa\<close>)

lemma decode_val_kind: "decode_val v j = Some w \<Longrightarrow> kind_of_val w = kind_of_val v"
  by (cases v) (auto split: json.splits if_splits)

lemma norm_empty: "val_ok v \<Longrightarrow> is_empty_val v \<Longrightarrow> norm_val v = zero_val (kind_of_val v)"
  by (cases v) auto

section \<open>Nesting\<close>

lemma fits_mono: "fits d j \<Longrightarrow> d \<le> d' \<Longrightarrow> fits d' j"
proof (induction d j arbitrary: d' rule: fits.induct)
  case (2 d js)
  from "2.prems"(2) obtain e where "d' = Suc e" "d \<le> e" by (cases d') auto
  then show ?case using "2.IH" "2.prems"(1) by auto
next
  case (3 d ms)
  from "3.prems"(2) obtain e where "d' = Suc e" "d \<le> e" by (cases d') auto
  then show ?case using "3.IH" "3.prems"(1) by auto
qed auto

lemma fits_val: "val_ok v \<Longrightarrow> fits 3 (val_json v)"
  by (cases v)
    (auto simp: numeral_3_eq_3 itoa_is_num error_json_def secret_json_def agent_json_def store_key_json_def
      opt_str_def opt_strs_def split: option.splits)

lemma fits_members: "\<forall>k. val_ok (e k) \<Longrightarrow> m \<in> set (members_of fs e) \<Longrightarrow> fits 3 (snd m)"
  by (induction fs e rule: members_of.induct) (auto simp: fits_val split: if_splits)

lemma fits_event:
  assumes "event_ok e"
  shows "fits maxNestingDepth (JObj (members_of event_struct e))"
proof (rule fits_mono)
  show "fits (Suc 3) (JObj (members_of event_struct e))"
    using assms fits_members[of e _ event_struct] unfolding fits.simps event_ok_def by blast
  show "Suc 3 \<le> maxNestingDepth" by (simp add: maxNestingDepth_def)
qed

section \<open>Events\<close>

definition norm_members :: "(string \<times> json) list \<Rightarrow> (string \<times> json) list" where
  "norm_members = map (\<lambda>(k, v). (to_valid k, norm v))"

lemma decode_members_struct:
  assumes "event_ok e" and "set fs \<subseteq> set event_struct" and "distinct (map fst fs)"
    and "\<And>k. k \<in> fst ` set fs \<Longrightarrow> a k = zeroEvent k"
  shows "decode_members (map fst event_struct) set_field (norm_members (members_of fs e)) a =
     Some (\<lambda>k. if k \<in> fst ` set fs then norm_val (e k) else a k)"
  using assms
proof (induction fs e arbitrary: a rule: members_of.induct)
  case (1 e)
  then show ?case by (simp add: norm_members_def)
next
  case (2 k t om fs e)
  have kt: "(k, t, om) \<in> set event_struct" using "2.prems"(2) by simp
  have eok: "event_ok e" by (rule "2.prems"(1))
  have kind: "kind_of_val (e k) = t" using eok kind_at_struct[OF kt] by (auto simp: event_ok_def typed_def)
  have ok: "val_ok (e k)" using eok by (simp add: event_ok_def)
  have z: "a k = zero_val t" using "2.prems"(4)[of k] kind_at_struct[OF kt] by (simp add: zeroEvent_def)
  have d: "k \<notin> fst ` set fs" "distinct (map fst fs)" "set fs \<subseteq> set event_struct" using "2.prems" by auto
  show ?case
  proof (cases "om \<and> is_empty_val (e k)")
    case True
    have "norm_val (e k) = a k" using True norm_empty[OF ok] kind z by simp
    moreover have "decode_members (map fst event_struct) set_field (norm_members (members_of fs e)) a =
       Some (\<lambda>k. if k \<in> fst ` set fs then norm_val (e k) else a k)"
      using "2.IH"(1)[OF True eok d(3,2)] "2.prems"(4) by simp
    ultimately show ?thesis using True by (auto simp: fun_eq_iff)
  next
    case False
    have v: "decode_val (a k) (norm (val_json (e k))) = Some (norm_val (e k))"
    proof (cases "is_empty_val (e k)")
      case False
      then show ?thesis using decode_val_norm[OF ok] kind z by simp
    next
      case True
      then show ?thesis using ok z kind by (cases "e k") (auto simp: decode_int_itoa decode_strs_def)
    qed
    have key: "to_valid k = k" using struct_ascii kt by (auto simp: list_all_iff ascii_valid)
    have tgt: "field_for (map fst event_struct) k = Some k" using kt by (intro field_for_exact) force
    let ?b = "a(k := norm_val (e k))"
    have b: "?b j = zeroEvent j" if "j \<in> fst ` set fs" for j using "2.prems"(4)[of j] that d(1) by auto
    have "decode_members (map fst event_struct) set_field (norm_members (members_of fs e)) ?b =
       Some (\<lambda>k. if k \<in> fst ` set fs then norm_val (e k) else ?b k)"
      using False by (intro "2.IH"(2) eok d b)
    moreover have "set_field k (norm (val_json (e k))) a = Some ?b" using v by (simp add: set_field_def)
    moreover have "members_of ((k, t, om) # fs) e = (k, val_json (e k)) # members_of fs e" using False by auto
    ultimately show ?thesis using key tgt d(1)
      by (auto simp: norm_members_def fun_eq_iff simp del: members_of.simps)
  qed
qed

lemma unmarshal_marshal:
  assumes "event_ok e"
  shows "unmarshal (marshal e) = Some (norm_event e)"
proof -
  have p: "json_parse (marshal e) = Some (norm (JObj (members_of event_struct e)))"
    unfolding marshal_def by (rule json_parse_render[OF fits_event[OF assms]])
  have "decode_members (map fst event_struct) set_field (norm_members (members_of event_struct e)) zeroEvent =
     Some (\<lambda>k. if k \<in> fst ` set event_struct then norm_val (e k) else zeroEvent k)"
    by (rule decode_members_struct[OF assms]) (simp_all add: struct_distinct)
  then show ?thesis using p by (simp add: unmarshal_def norm_members_def norm_event_def[abs_def])
qed

end
