(* ===== verification/Recorder_Clip.thy ===== *)
theory Recorder_Clip
  imports Recorder_Codec
begin

text \<open>
  The recorder's backstop against oversized lines (\<open>fitUnderMaxLine\<close> and what it calls in
  \<open>internal/recorder/recorder.go\<close>): every reachable field is measured, the ceiling the budget
  allows is found as a water level, and the fields above it are cut with a note of what was lost.
\<close>

definition MaxLine :: nat where "MaxLine = 8 * 2 ^ 20"
definition clipMargin :: nat where "clipMargin = 4 * 2 ^ 10"
definition maxClipAttempts :: nat where "maxClipAttempts = 8"
definition clipNoteBytes :: nat where "clipNoteBytes = 64"
definition secretsPerElementOverhead :: nat where "secretsPerElementOverhead = 22"
definition agentsPerElementOverhead :: nat where "agentsPerElementOverhead = 25"
definition stringsPerElementOverhead :: nat where "stringsPerElementOverhead = 3"

datatype clip_error =
    StillTooLong int nat nat
  | NothingLeftToClip int nat

section \<open>Measuring a field\<close>

definition stringsBytes :: "string list \<Rightarrow> nat" where
  "stringsBytes s = sum_list (map (\<lambda>v. length v + stringsPerElementOverhead) s)"

definition secretsBytes :: "evSecret list \<Rightarrow> nat" where
  "secretsBytes s =
     sum_list (map (\<lambda>x. length (es_Name x) + length (es_Host x) + length (es_Path x) + secretsPerElementOverhead) s)"

definition agentsBytes :: "evAgent list \<Rightarrow> nat" where
  "agentsBytes a =
     sum_list (map (\<lambda>x. length (ea_Name x) + length (ea_Sandbox x) + length (ea_Group x) + agentsPerElementOverhead) a)"

definition storeKeysBytes :: "evStoreKey list \<Rightarrow> nat" where
  "storeKeysBytes s =
     sum_list (map (\<lambda>k. length (ek_Name k) + stringsBytes (ek_Read k) + stringsBytes (ek_Write k) + secretsPerElementOverhead) s)"

definition portsBytes :: "int list \<Rightarrow> nat" where
  "portsBytes p = length p * 4"

section \<open>Cutting a field\<close>

definition str_note :: "string \<Rightarrow> nat \<Rightarrow> string" where
  "str_note s keep =
     (let kept = clipUTF8 s keep
      in kept @ ''...(clipped from '' @ digits (length s) @ '' to '' @ digits (length kept) @ '' bytes)'')"

definition count_note :: "nat \<Rightarrow> nat \<Rightarrow> string \<Rightarrow> string" where
  "count_note n k label = ''...(clipped from '' @ digits n @ '' bytes across '' @ digits k @ '' '' @ label @ '')''"

text \<open>The loop of \<open>joinLimit\<close>: \<open>b\<close> is the builder, \<open>first\<close> whether the index is 0.\<close>

fun join_loop :: "nat \<Rightarrow> bool \<Rightarrow> string \<Rightarrow> string list \<Rightarrow> string" where
  "join_loop n first b [] = b"
| "join_loop n first b (v # vs) =
     (if n \<le> length b then b
      else let c = (if first then b else b @ '' '');
               room = n - length c + 4
           in if room < length v then c @ take room v else join_loop n False (c @ v) vs)"

definition joinLimit :: "string list \<Rightarrow> nat \<Rightarrow> string" where
  "joinLimit s n = join_loop n True [] s"

definition clipStrings :: "string list \<Rightarrow> string \<Rightarrow> nat \<Rightarrow> string list" where
  "clipStrings s label keep = [clipUTF8 (joinLimit s keep) keep @ count_note (stringsBytes s) (length s) label]"

definition clipSecrets :: "evSecret list \<Rightarrow> evSecret list" where
  "clipSecrets s = [\<lparr>es_Name = count_note (secretsBytes s) (length s) ''secrets'', es_Host = [], es_Path = []\<rparr>]"

definition clipAgents :: "evAgent list \<Rightarrow> evAgent list" where
  "clipAgents a = [\<lparr>ea_Name = count_note (agentsBytes a) (length a) ''agents'', ea_Sandbox = [], ea_Group = []\<rparr>]"

definition clipStoreKeys :: "evStoreKey list \<Rightarrow> evStoreKey list" where
  "clipStoreKeys s = [\<lparr>ek_Name = count_note (storeKeysBytes s) (length s) ''store keys'', ek_Read = [], ek_Write = []\<rparr>]"

definition clipPorts :: "int list \<Rightarrow> int list" where
  "clipPorts p = (if length p \<le> 16 then p else take 16 p)"

section \<open>The fields clipping can reach\<close>

text \<open>A string field of the event itself, or of the struct its \<open>Error\<close> points to.\<close>

datatype target = OwnField string | ErrorKind string | ErrorMessage string

fun target_get :: "event \<Rightarrow> target \<Rightarrow> string" where
  "target_get e (OwnField k) = get_str e k"
| "target_get e (ErrorKind k) = (case e k of FErrP (Some x) \<Rightarrow> ee_Kind x | _ \<Rightarrow> [])"
| "target_get e (ErrorMessage k) = (case e k of FErrP (Some x) \<Rightarrow> ee_Message x | _ \<Rightarrow> [])"

fun target_set :: "event \<Rightarrow> target \<Rightarrow> string \<Rightarrow> event" where
  "target_set e (OwnField k) s = e(k := FStr s)"
| "target_set e (ErrorKind k) s =
     (case e k of FErrP (Some x) \<Rightarrow> e(k := FErrP (Some (x\<lparr>ee_Kind := s\<rparr>))) | _ \<Rightarrow> e)"
| "target_set e (ErrorMessage k) s =
     (case e k of FErrP (Some x) \<Rightarrow> e(k := FErrP (Some (x\<lparr>ee_Message := s\<rparr>))) | _ \<Rightarrow> e)"

text \<open>The reflection walk: string kinds, and a pointer to a struct that is not nil.\<close>

fun eachStringField :: "(string \<times> kind \<times> bool) list \<Rightarrow> event \<Rightarrow> target list" where
  "eachStringField [] e = []"
| "eachStringField ((k, t, om) # fs) e =
     (if t = KStr then [OwnField k]
      else if t = KErrP \<and> e k \<noteq> FErrP None then [ErrorKind k, ErrorMessage k] else [])
     @ eachStringField fs e"

datatype clippable =
    ClipStr target
  | ClipStrs string string
  | ClipSecrets
  | ClipPorts
  | ClipAgents
  | ClipStoreKeys

definition slices :: "clippable list" where
  "slices = [ClipStrs ''argv'' ''process arguments'', ClipStrs ''cmd'' ''argv elements'',
     ClipStrs ''allow'' ''domains'', ClipStrs ''plugins'' ''plugin names'', ClipStrs ''forwards'' ''forwards'',
     ClipStrs ''tools'' ''tool names'', ClipStrs ''edges'' ''edges'',
     ClipSecrets, ClipPorts, ClipAgents, ClipStoreKeys]"

definition clippableFields :: "event \<Rightarrow> clippable list" where
  "clippableFields e = map ClipStr (eachStringField event_struct e) @ slices"

definition get_strs :: "event \<Rightarrow> string \<Rightarrow> string list" where
  "get_strs e k = (case e k of FStrs xs \<Rightarrow> xs | _ \<Rightarrow> [])"

fun field_bytes :: "event \<Rightarrow> clippable \<Rightarrow> nat" where
  "field_bytes e (ClipStr t) = length (target_get e t)"
| "field_bytes e (ClipStrs k label) = stringsBytes (get_strs e k)"
| "field_bytes e ClipSecrets = (case e ''secrets'' of FSecrets xs \<Rightarrow> secretsBytes xs | _ \<Rightarrow> 0)"
| "field_bytes e ClipPorts = (case e ''ports'' of FInts xs \<Rightarrow> portsBytes xs | _ \<Rightarrow> 0)"
| "field_bytes e ClipAgents = (case e ''agents'' of FAgents xs \<Rightarrow> agentsBytes xs | _ \<Rightarrow> 0)"
| "field_bytes e ClipStoreKeys = (case e ''store_keys'' of FStoreKeys xs \<Rightarrow> storeKeysBytes xs | _ \<Rightarrow> 0)"

fun reduce :: "nat \<Rightarrow> clippable \<Rightarrow> event \<Rightarrow> event" where
  "reduce keep (ClipStr t) e = target_set e t (str_note (target_get e t) keep)"
| "reduce keep (ClipStrs k label) e = e(k := FStrs (clipStrings (get_strs e k) label keep))"
| "reduce keep ClipSecrets e = (case e ''secrets'' of FSecrets xs \<Rightarrow> e(''secrets'' := FSecrets (clipSecrets xs)) | _ \<Rightarrow> e)"
| "reduce keep ClipPorts e = (case e ''ports'' of FInts xs \<Rightarrow> e(''ports'' := FInts (clipPorts xs)) | _ \<Rightarrow> e)"
| "reduce keep ClipAgents e = (case e ''agents'' of FAgents xs \<Rightarrow> e(''agents'' := FAgents (clipAgents xs)) | _ \<Rightarrow> e)"
| "reduce keep ClipStoreKeys e =
     (case e ''store_keys'' of FStoreKeys xs \<Rightarrow> e(''store_keys'' := FStoreKeys (clipStoreKeys xs)) | _ \<Rightarrow> e)"

section \<open>The water level\<close>

fun level_loop :: "int \<Rightarrow> int \<Rightarrow> nat list \<Rightarrow> int" where
  "level_loop budget used [] = budget"
| "level_loop budget used (n # ns) =
     (let level = (budget - used) div int (length (n # ns))
      in if level < int n then (if level < 0 then 0 else level) else level_loop budget (used + int n) ns)"

definition capForBudget :: "nat list \<Rightarrow> int \<Rightarrow> nat" where
  "capForBudget sizes budget = nat (level_loop (if budget < 0 then 0 else budget) 0 (sort sizes))"

definition content_budget :: "event \<Rightarrow> int \<Rightarrow> int" where
  "content_budget e budget =
     (let reserve = int (length (clippableFields e) * clipNoteBytes)
      in if reserve < budget then budget - reserve else 0)"

definition content :: "event \<Rightarrow> nat" where
  "content e = sum_list (map (field_bytes e) (clippableFields e))"

fun reduce_over :: "nat \<Rightarrow> (clippable \<times> nat) list \<Rightarrow> event \<times> bool \<Rightarrow> event \<times> bool" where
  "reduce_over keep [] s = s"
| "reduce_over keep ((c, n) # cs) (e, clipped) =
     (if keep + clipNoteBytes < n then reduce_over keep cs (reduce keep c e, True)
      else reduce_over keep cs (e, clipped))"

text \<open>The event with its oversized fields cut, and whether anything was.\<close>

definition clipToBudget :: "event \<Rightarrow> int \<Rightarrow> event \<times> bool" where
  "clipToBudget e budget =
     (let b = content_budget e budget in
      if int (content e) \<le> b then (e, False)
      else let sizes = map (field_bytes e) (clippableFields e);
               keep = capForBudget sizes b
           in reduce_over keep (zip (clippableFields e) sizes) (e, False))"

definition lineBudget :: int where
  "lineBudget = int MaxLine - 64 - int clipMargin"

text \<open>The measuring loop, \<open>n\<close> attempts from giving up; every pass clips the event it was given.\<close>

fun fit_loop :: "nat \<Rightarrow> event \<Rightarrow> event \<Rightarrow> int \<Rightarrow> clip_error + event" where
  "fit_loop n orig e budget =
     (let b = length (marshal e) in
      if int b \<le> lineBudget then Inr e
      else case n of
             0 \<Rightarrow> Inl (StillTooLong (get_int e ''seq'') b maxClipAttempts)
           | Suc m \<Rightarrow>
               let next = budget - (int b - lineBudget);
                   half = budget div 2;
                   budget' = (if next < half then half else next);
                   (e', clipped) = clipToBudget orig budget'
               in if clipped then fit_loop m orig e' budget'
                  else Inl (NothingLeftToClip (get_int e' ''seq'') b))"

declare fit_loop.simps [simp del]

definition fitUnderMaxLine :: "event \<Rightarrow> clip_error + event" where
  "fitUnderMaxLine e = fit_loop maxClipAttempts e (fst (clipToBudget e lineBudget)) lineBudget"

end
