(* ===== verification/Recorder_Chain.thy ===== *)
theory Recorder_Chain
  imports Recorder_Clip
begin

text \<open>
  The hash chain of \<open>internal/recorder/recorder.go\<close>: digests, the line scanner every reader
  uses, \<open>Verify\<close>, \<open>Read\<close> and the out-of-band anchor. \<open>sha\<close>, an argument throughout,
  is SHA-256 on byte strings.
\<close>

section \<open>Digests\<close>

text \<open>\<open>hex.EncodeToString\<close>.\<close>

definition hexEncode :: "bytes \<Rightarrow> string" where
  "hexEncode b = concat (map (\<lambda>c. [hex_char (byte c div 16), hex_char (byte c mod 16)]) b)"

definition hashOf :: "(bytes \<Rightarrow> bytes) \<Rightarrow> event \<Rightarrow> string" where
  "hashOf sha e = hexEncode (sha (marshal (e(''hash'' := FStr []))))"

text \<open>\<open>bytes.Replace(s, old, new, 1)\<close>.\<close>

definition replace_first :: "string \<Rightarrow> string \<Rightarrow> string \<Rightarrow> string" where
  "replace_first s old new =
     (case indexOf s old of None \<Rightarrow> s | Some i \<Rightarrow> take i s @ new @ drop (i + length old) s)"

definition hash_key :: string where
  "hash_key = [CHR 0x22, CHR ''h'', CHR ''a'', CHR ''s'', CHR ''h'', CHR 0x22, CHR '':'', CHR 0x22]"

definition digestOfLine :: "(bytes \<Rightarrow> bytes) \<Rightarrow> string \<Rightarrow> string \<Rightarrow> string" where
  "digestOfLine sha raw hash =
     hexEncode (sha (replace_first raw (hash_key @ hash @ [CHR 0x22]) (hash_key @ [CHR 0x22])))"

definition short :: "string \<Rightarrow> string" where
  "short h = (if 12 < length h then take 12 h else if h = [] then ''(none)'' else h)"

section \<open>The line scanner\<close>

text \<open>
  A \<open>bufio.Scanner\<close> over the whole input with \<open>ScanLines\<close> and a buffer of at most
  \<open>max\<close> bytes: the lines it yields, without their newline and one carriage return before it, and
  whether it reached the end. A line that does not fit the buffer with its newline stops it.
\<close>

definition newline :: char where "newline = CHR 0x0A"

definition dropCR :: "string \<Rightarrow> string" where
  "dropCR s = (if s \<noteq> [] \<and> last s = CHR 0x0D then butlast s else s)"

definition first_line :: "string \<Rightarrow> string" where
  "first_line s = takeWhile (\<lambda>c. c \<noteq> newline) s"

function scan_lines :: "nat \<Rightarrow> string \<Rightarrow> string list \<times> bool" where
  "scan_lines m s =
     (if s = [] then ([], True)
      else let l = first_line s in
           if m \<le> length l then ([], False)
           else let (ls, ok) = scan_lines m (drop (Suc (length l)) s) in (dropCR l # ls, ok))"
  by pat_completeness auto

termination
  by (relation "measure (length \<circ> snd)") auto

declare scan_lines.simps [simp del]

section \<open>Verify and Read\<close>

datatype verify_error =
    NotAnEvent nat
  | GapAt nat int
  | WrongPrev int string string
  | NoDigest int
  | ModifiedEvent int string string
  | ScannerError

text \<open>
  The loop of \<open>Verify\<close>: \<open>line\<close> counts the lines read, \<open>n\<close> the events accepted. The
  result is the three values the code returns.
\<close>

fun verify_lines ::
  "(bytes \<Rightarrow> bytes) \<Rightarrow> string list \<Rightarrow> bool \<Rightarrow> nat \<Rightarrow> string \<Rightarrow> nat \<Rightarrow> nat \<times> string \<times> verify_error option" where
  "verify_lines sha [] ok line prev n = (if ok then (n, prev, None) else (n, [], Some ScannerError))"
| "verify_lines sha (raw # ls) ok line prev n =
     (let line = Suc line in
      if raw = [] then verify_lines sha ls ok line prev n
      else case unmarshal raw of
             None \<Rightarrow> (n, [], Some (NotAnEvent line))
           | Some e \<Rightarrow>
               let seq = get_int e ''seq''; hash = get_str e ''hash'' in
               if seq \<noteq> int line then (n, [], Some (GapAt line seq))
               else if get_str e ''prev'' \<noteq> prev then (n, [], Some (WrongPrev seq (short (get_str e ''prev'')) (short prev)))
               else if hash = [] then (n, [], Some (NoDigest seq))
               else if digestOfLine sha raw hash \<noteq> hash
                    then (n, [], Some (ModifiedEvent seq (short (digestOfLine sha raw hash)) (short hash)))
               else verify_lines sha ls ok line hash (Suc n))"

definition verify :: "(bytes \<Rightarrow> bytes) \<Rightarrow> string \<Rightarrow> nat \<times> string \<times> verify_error option" where
  "verify sha file = (case scan_lines MaxLine file of (ls, ok) \<Rightarrow> verify_lines sha ls ok 0 [] 0)"

text \<open>\<open>Read\<close>: the events parsed, and the first error.\<close>

fun read_lines :: "string list \<Rightarrow> bool \<Rightarrow> event list \<times> verify_error option" where
  "read_lines [] ok = ([], if ok then None else Some ScannerError)"
| "read_lines (raw # ls) ok =
     (if raw = [] then read_lines ls ok
      else case unmarshal raw of
             None \<Rightarrow> ([], Some (NotAnEvent 0))
           | Some e \<Rightarrow> (case read_lines ls ok of (es, err) \<Rightarrow> (e # es, err)))"

definition readEvents :: "string \<Rightarrow> event list \<times> verify_error option" where
  "readEvents file = (case scan_lines MaxLine file of (ls, ok) \<Rightarrow> read_lines ls ok)"

section \<open>The anchor\<close>

record headDoc =
  hd_V :: int
  hd_Sandbox :: string
  hd_Seq :: int
  hd_Hash :: string
  hd_TS :: string

definition head_json :: "headDoc \<Rightarrow> json" where
  "head_json h = JObj ([(''v'', JNum (itoa (hd_V h))), (''sandbox'', JStr (hd_Sandbox h)),
     (''seq'', JNum (itoa (hd_Seq h))), (''hash'', JStr (hd_Hash h))] @ opt_str ''ts'' (hd_TS h))"

text \<open>The bytes \<open>writeHeadFile\<close> puts in place.\<close>

definition head_bytes :: "headDoc \<Rightarrow> string" where
  "head_bytes h = render (head_json (h\<lparr>hd_V := 1\<rparr>))"

definition set_head :: "string \<Rightarrow> json \<Rightarrow> headDoc \<Rightarrow> headDoc option" where
  "set_head k j h =
     (if k = ''v'' then map_option (\<lambda>n. h\<lparr>hd_V := n\<rparr>) (decode_num j (hd_V h))
      else if k = ''sandbox'' then map_option (\<lambda>s. h\<lparr>hd_Sandbox := s\<rparr>) (decode_str j (hd_Sandbox h))
      else if k = ''seq'' then map_option (\<lambda>n. h\<lparr>hd_Seq := n\<rparr>) (decode_num j (hd_Seq h))
      else if k = ''hash'' then map_option (\<lambda>s. h\<lparr>hd_Hash := s\<rparr>) (decode_str j (hd_Hash h))
      else map_option (\<lambda>s. h\<lparr>hd_TS := s\<rparr>) (decode_str j (hd_TS h)))"

definition head_parse :: "string \<Rightarrow> headDoc option" where
  "head_parse s =
     (case json_parse s of
        None \<Rightarrow> None
      | Some j \<Rightarrow> decode_obj [''v'', ''sandbox'', ''seq'', ''hash'', ''ts''] set_head j
          \<lparr>hd_V = 0, hd_Sandbox = [], hd_Seq = 0, hd_Hash = [], hd_TS = []\<rparr>)"

datatype anchorState = AnchorMatches | AnchorBehindByOne | AnchorMissing | AnchorUnreadable | AnchorMismatch

record anchorReport =
  ar_State :: anchorState
  ar_AnchorSeq :: int
  ar_AnchorHash :: string
  ar_ChainSeq :: int
  ar_ChainHead :: string

text \<open>How reading \<open>head.json\<close> went: its bytes, no such file, or another error.\<close>

datatype anchor_read = HeadBytes string | HeadAbsent | HeadError

definition readAnchor :: "anchor_read \<Rightarrow> anchorState + headDoc" where
  "readAnchor r =
     (case r of
        HeadAbsent \<Rightarrow> Inl AnchorMissing
      | HeadError \<Rightarrow> Inl AnchorUnreadable
      | HeadBytes b \<Rightarrow> (case head_parse b of None \<Rightarrow> Inl AnchorUnreadable | Some h \<Rightarrow> Inr h))"

text \<open>The report, and whether it comes with \<open>ErrAnchorMismatch\<close>.\<close>

definition checkAnchor :: "anchor_read \<Rightarrow> int \<Rightarrow> string \<Rightarrow> string \<Rightarrow> anchorReport \<times> bool" where
  "checkAnchor r events head prevOfHead =
     (let rep = \<lparr>ar_State = AnchorMatches, ar_AnchorSeq = 0, ar_AnchorHash = [], ar_ChainSeq = events, ar_ChainHead = head\<rparr>
      in case readAnchor r of
           Inl st \<Rightarrow> (rep\<lparr>ar_State := st\<rparr>, False)
         | Inr h \<Rightarrow>
             let rep = rep\<lparr>ar_AnchorSeq := hd_Seq h, ar_AnchorHash := hd_Hash h\<rparr>
             in if hd_Seq h = events \<and> hd_Hash h = head then (rep\<lparr>ar_State := AnchorMatches\<rparr>, False)
                else if hd_Seq h = events - 1 \<and> prevOfHead \<noteq> [] \<and> hd_Hash h = prevOfHead
                     then (rep\<lparr>ar_State := AnchorBehindByOne\<rparr>, False)
                else (rep\<lparr>ar_State := AnchorMismatch\<rparr>, True))"

definition trim_newlines :: "string \<Rightarrow> string" where
  "trim_newlines s = rev (dropWhile (\<lambda>c. c = newline) (rev s))"

definition prevOfHead :: "string \<Rightarrow> string" where
  "prevOfHead chain =
     (let trimmed = trim_newlines chain
      in if trimmed = [] then []
         else case unmarshal (rev (takeWhile (\<lambda>c. c \<noteq> newline) (rev trimmed))) of
                None \<Rightarrow> []
              | Some e \<Rightarrow> get_str e ''prev'')"

fun anchor_text :: "anchorReport \<Rightarrow> string" where
  "anchor_text r =
     (case ar_State r of
        AnchorMatches \<Rightarrow> ''matches the chain head (event '' @ itoa (ar_ChainSeq r) @ '')''
      | AnchorBehindByOne \<Rightarrow>
          ''one behind the chain head (anchor at event '' @ itoa (ar_AnchorSeq r) @ '', chain at '' @ itoa (ar_ChainSeq r) @
          '') '' @ [CHR 0xE2, CHR 0x80, CHR 0x94] @ '' an append was interrupted between the line and the anchor; an observation, not a rewrite''
      | AnchorMissing \<Rightarrow>
          ''not present '' @ [CHR 0xE2, CHR 0x80, CHR 0x94] @ '' this record predates the anchor, or its write failed; nothing to compare against''
      | AnchorUnreadable \<Rightarrow>
          ''unreadable '' @ [CHR 0xE2, CHR 0x80, CHR 0x94] @ '' reported like a missing anchor, because whoever can corrupt it can delete it just as easily''
      | AnchorMismatch \<Rightarrow>
          ''disagrees with the chain: anchor records event '' @ itoa (ar_AnchorSeq r) @ '' (head '' @ short (ar_AnchorHash r) @
          ''), chain holds '' @ itoa (ar_ChainSeq r) @ '' events (head '' @ short (ar_ChainHead r) @ '')'')"

end
