(* ===== verification/Recorder_Line.thy ===== *)
theory Recorder_Line
  imports Recorder_Chain
begin

text \<open>
  What a line the recorder writes looks like, whatever strings a guest put into the event: it has
  no control character, and the text \<open>"hash":"\<close> occurs in it exactly once. So blanking the
  digest in the bytes of the line (\<open>digestOfLine\<close>) is blanking the \<open>hash\<close> field of the event
  that was written.
\<close>

section \<open>An automaton that looks for the end of the key\<close>

text \<open>
  The states are how much of \<open>sh":\<close> has just been read; \<open>None\<close> is a match. No key but
  \<open>hash\<close> ends in \<open>sh\<close>, and inside a string a quote follows a backslash.
\<close>

fun auto_step :: "nat \<Rightarrow> char \<Rightarrow> nat option" where
  "auto_step st c =
     (if c = CHR ''s'' then Some 1
      else if c = CHR ''h'' then Some (if st = 1 then 2 else 0)
      else if c = CHR 0x22 then Some (if st = 2 then 3 else 0)
      else if c = CHR '':'' \<and> st = 3 then None
      else Some 0)"

fun auto_run :: "nat \<Rightarrow> string \<Rightarrow> nat option" where
  "auto_run st [] = Some st"
| "auto_run st (c # s) = (case auto_step st c of None \<Rightarrow> None | Some st' \<Rightarrow> auto_run st' s)"

definition trigger :: string where "trigger = [CHR ''s'', CHR ''h'', CHR 0x22, CHR '':'']"

lemma auto_run_append: "auto_run st (x @ y) = (case auto_run st x of None \<Rightarrow> None | Some st' \<Rightarrow> auto_run st' y)"
  by (induction x arbitrary: st) (auto split: option.splits)

lemma auto_run_trigger: "auto_run st (trigger @ y) = None"
  by (simp add: trigger_def)

lemma auto_run_no_trigger: "auto_run st (a @ trigger @ b) = None"
  using auto_run_trigger by (simp add: auto_run_append split: option.splits)

lemma auto_run_prefix: "auto_run st (x @ y) \<noteq> None \<Longrightarrow> auto_run st x \<noteq> None"
  by (auto simp: auto_run_append split: option.splits)

text \<open>The one place where the trigger can be.\<close>

lemma trigger_unique:
  assumes "auto_run 0 (u @ take 3 trigger) \<noteq> None" and "auto_run 0 v \<noteq> None"
    and "a @ trigger @ b = u @ trigger @ v"
  shows "a = u"
proof -
  from assms(3) consider (before) us where "u = a @ us" "us @ trigger @ v = trigger @ b"
    | (after) us where "a = u @ us" "us @ trigger @ b = trigger @ v"
    using append_eq_append_conv2[of a "trigger @ b" u "trigger @ v"] by fastforce
  then show ?thesis
  proof cases
    case before
    show ?thesis
    proof (cases us)
      case Nil
      then show ?thesis using before by simp
    next
      case (Cons c us')
      have "take 4 (us @ take 3 trigger) = trigger"
        using arg_cong[OF before(2), of "take 4"] Cons
        by (cases us') (auto simp: trigger_def take_Cons' split: if_splits)
      then obtain r where "us @ take 3 trigger = trigger @ r" by (metis append_take_drop_id)
      then have "u @ take 3 trigger = a @ trigger @ r" using before(1) by simp
      then show ?thesis using assms(1) auto_run_no_trigger by simp
    qed
  next
    case after
    show ?thesis
    proof (cases "length us < 4")
      case True
      then consider "us = []" | c1 where "us = [c1]" | c1 c2 where "us = [c1, c2]" | c1 c2 c3 where "us = [c1, c2, c3]"
        by (cases us; cases "tl us"; cases "tl (tl us)"; cases "tl (tl (tl us))") auto
      then show ?thesis using after by cases (simp_all add: trigger_def)
    next
      case False
      then have "take 4 us = trigger" using arg_cong[OF after(2), of "take 4"] by (simp add: trigger_def)
      then obtain us' where "us = trigger @ us'" by (metis append_take_drop_id)
      then have "v = us' @ trigger @ b" using after(2) by simp
      then show ?thesis using assms(2) auto_run_no_trigger by simp
    qed
  qed
qed

section \<open>Strings, numbers and values\<close>

lemma step_no_quote: "st < 3 \<Longrightarrow> c \<noteq> CHR 0x22 \<Longrightarrow> \<exists>st' < 3. auto_step st c = Some st'"
  by auto

lemma run_no_quote: "st < 3 \<Longrightarrow> CHR 0x22 \<notin> set s \<Longrightarrow> \<exists>st' < 3. auto_run st s = Some st'"
proof (induction s arbitrary: st)
  case (Cons c s)
  obtain st1 where "st1 < 3" "auto_step st c = Some st1" using step_no_quote[OF Cons.prems(1), of c] Cons.prems(2) by auto
  with Cons.IH[of st1] Cons.prems(2) show ?case by simp
qed simp

lemma run_esc_ascii: "st < 3 \<Longrightarrow> \<exists>st' < 3. auto_run st (esc_ascii c) = Some st'"
proof (cases "c = quote_char")
  case True
  then show ?thesis by (simp add: esc_ascii_def quote_char_def backslash_def)
next
  case False
  assume "st < 3"
  moreover have "CHR 0x22 \<notin> set (esc_ascii c)"
  proof -
    have h: "hex_char d \<noteq> CHR 0x22" if "d < 16" for d
    proof
      assume "hex_char d = CHR 0x22"
      then have "byte (hex_char d) = 34" by simp
      then show False using that by (auto simp: hex_char_def split: if_splits)
    qed
    have "byte c div 16 < 16" by (rule less_mult_imp_div_less) (use byte_less[of c] in simp)
    then have "CHR 0x22 \<noteq> hex_char (byte c div 16)" "CHR 0x22 \<noteq> hex_char (byte c mod 16)"
      using h[of "byte c div 16"] h[of "byte c mod 16"] not_sym[of "hex_char _" "CHR 0x22"] by simp_all
    moreover have "CHR 0x22 \<noteq> c" using False by (auto simp: quote_char_def)
    ultimately show ?thesis by (simp add: esc_ascii_def quote_char_def backslash_def)
  qed
  ultimately show ?thesis by (rule run_no_quote)
qed

lemma rune_no_quote: "\<not> byte c < 128 \<Longrightarrow> rune_len (c # t) = Some n \<Longrightarrow> CHR 0x22 \<notin> set (take n (c # t))"
proof
  assume c: "\<not> byte c < 128" and n: "rune_len (c # t) = Some n" and q: "CHR 0x22 \<in> set (take n (c # t))"
  obtain u r where u: "c # t = c # u @ r" "length u = n - 1" "list_all cont u"
    using rune_shape[OF n] by (metis list.inject)
  have "take n (c # t) = c # u" using u rune_len_pos[OF n] by (cases n) auto
  then have "CHR 0x22 \<in> set u" using q c by auto
  then show False using u(3) by (auto simp: list_all_iff cont_def)
qed

lemma run_escape: "st < 3 \<Longrightarrow> \<exists>st' < 3. auto_run st (escape s) = Some st'"
proof (induction s arbitrary: st rule: escape.induct)
  case (1 s)
  show ?case
  proof (cases s)
    case Nil
    then show ?thesis using "1.prems" by (subst escape.simps) simp
  next
    case (Cons c t)
    have seq: "\<exists>st' < 3. auto_run st (x @ y) = Some st'"
      if "\<exists>st' < 3. auto_run st x = Some st'" "\<And>st. st < 3 \<Longrightarrow> \<exists>st' < 3. auto_run st y = Some st'" for x y
      using that by (auto simp: auto_run_append)
    show ?thesis
    proof (cases "byte c < 128")
      case True
      then have "escape s = esc_ascii c @ escape t" by (subst escape.simps) (simp add: Cons)
      then show ?thesis using seq[OF run_esc_ascii[OF "1.prems"] "1.IH"(1)[OF Cons True]] by simp
    next
      case False
      show ?thesis
      proof (cases "rune_len s")
        case None
        then have e: "escape s = u_esc ''fffd'' @ escape t" using False by (subst escape.simps) (simp add: Cons)
        have "CHR 0x22 \<notin> set (u_esc ''fffd'')" by (simp add: u_esc_def backslash_def)
        then show ?thesis unfolding e by (intro seq run_no_quote "1.prems" "1.IH"(2)[OF Cons False None])
      next
        case (Some n)
        then obtain x where e: "escape s = x @ escape (drop n s)" "CHR 0x22 \<notin> set x"
        proof -
          have "CHR 0x22 \<notin> set (if take n s = line_sep then u_esc ''2028'' else if take n s = para_sep then u_esc ''2029'' else take n s)"
            using rune_no_quote[OF False, of t n] Some by (simp add: Cons u_esc_def backslash_def)
          then show ?thesis using that Some False by (subst (asm) escape.simps) (simp add: Cons)
        qed
        then show ?thesis by (simp only: e(1)) (intro seq run_no_quote "1.prems" e(2) "1.IH"(3)[OF Cons False Some])
      qed
    qed
  qed
qed

lemma run_quote_str: "\<exists>st. auto_run 0 (quote_str s) = Some st \<and> (st = 0 \<or> st = 3)"
  using run_escape[of 0 s] by (auto simp: quote_str_def quote_char_def auto_run_append)

text \<open>A key that does not end in \<open>sh\<close> and needs no escape.\<close>

definition key_ok :: "string \<Rightarrow> bool" where
  "key_ok k \<longleftrightarrow> auto_run 0 (quote_str k @ '':'') = Some 0"

fun keys_ok :: "json \<Rightarrow> bool" where
  "keys_ok (JArr js) = (\<forall>j \<in> set js. keys_ok j)"
| "keys_ok (JObj ms) = (\<forall>m \<in> set ms. key_ok (fst m) \<and> keys_ok (snd m))"
| "keys_ok (JNum n) = (auto_run 0 n = Some 0)"
| "keys_ok j = True"

definition settled :: "nat option \<Rightarrow> bool" where
  "settled st \<longleftrightarrow> st = Some 0 \<or> st = Some 3"

lemma settled_comma: "settled (auto_run 0 x) \<Longrightarrow> auto_run 0 (x @ CHR '','' # y) = auto_run 0 y"
  by (auto simp: settled_def auto_run_append)

lemma run_join:
  assumes "\<And>x. x \<in> set xs \<Longrightarrow> settled (auto_run 0 x)"
  shows "settled (auto_run 0 (join xs '',''))"
  using assms
proof (induction xs "'',''::string" rule: join.induct)
  case 1
  then show ?case by (simp add: settled_def)
next
  case (3 x y xs)
  then show ?case using settled_comma[of x "join (y # xs) '',''"] by simp
qed simp

lemma run_member: "key_ok (fst m) \<Longrightarrow> auto_run 0 (member m) = auto_run 0 (render (snd m))"
proof -
  have "member m = (quote_str (fst m) @ '':'') @ render (snd m)" by (simp add: member_def)
  then show "key_ok (fst m) \<Longrightarrow> ?thesis" by (simp only: key_ok_def auto_run_append) simp
qed

lemma run_render: "keys_ok j \<Longrightarrow> settled (auto_run 0 (render j))"
proof (induction j rule: keys_ok.induct)
  case (1 js)
  have "settled (auto_run 0 (join (map render js) '',''))" using 1 by (intro run_join) auto
  then show ?case by (auto simp: settled_def auto_run_append)
next
  case (2 ms)
  have "settled (auto_run 0 (join (map member ms) '',''))" using 2 run_member by (intro run_join) force
  then show ?case unfolding render_members by (auto simp: settled_def auto_run_append)
qed (use run_quote_str in \<open>auto simp: settled_def\<close>)

lemma run_num: "list_all num_char n \<Longrightarrow> auto_run 0 n = Some 0"
proof (induction n)
  case (Cons c n)
  then have "auto_step 0 c = Some 0" by (auto simp: num_char_def is_digit_def)
  with Cons show ?case by simp
qed simp

section \<open>Keys\<close>

definition plain_char :: "char \<Rightarrow> bool" where
  "plain_char c \<longleftrightarrow> (48 \<le> byte c \<and> byte c \<le> 57) \<or> (97 \<le> byte c \<and> byte c \<le> 122) \<or> c = CHR ''_''"

lemma plain_esc: "plain_char c \<Longrightarrow> byte c < 128 \<and> esc_ascii c = [c]"
proof -
  assume p: "plain_char c"
  have "48 \<le> byte c" "byte c < 128" using p by (auto simp: plain_char_def)
  moreover have "c \<noteq> CHR ''<''" "c \<noteq> CHR ''>''" "c \<noteq> CHR ''&''" "c \<noteq> CHR 0x22" "c \<noteq> CHR 0x5C"
    using p by (auto simp: plain_char_def)
  ultimately show ?thesis by (simp add: esc_ascii_def quote_char_def backslash_def)
qed

lemma escape_plain: "list_all plain_char s \<Longrightarrow> escape s = s"
proof (induction s)
  case Nil
  then show ?case by (subst escape.simps) simp
next
  case (Cons c s)
  then show ?case using plain_esc[of c] by (subst escape.simps) simp
qed

lemma key_ok_plain: "list_all plain_char k \<Longrightarrow> auto_run 0 (k @ [CHR 0x22, CHR '':'']) = Some 0 \<Longrightarrow> key_ok k"
  by (simp add: key_ok_def quote_str_def escape_plain quote_char_def)

lemma nested_keys:
  "key_ok ''kind''" "key_ok ''message''" "key_ok ''name''" "key_ok ''host''" "key_ok ''path''" "key_ok ''sandbox''"
  "key_ok ''group''" "key_ok ''read''" "key_ok ''write''"
  by (rule key_ok_plain; simp add: plain_char_def)+

lemma struct_keys: "list_all (\<lambda>f. fst f = ''hash'' \<or> key_ok (fst f)) event_struct"
proof -
  have "list_all (\<lambda>f. fst f = ''hash'' \<or>
      list_all plain_char (fst f) \<and> auto_run 0 (fst f @ [CHR 0x22, CHR '':'']) = Some 0) event_struct"
    by (simp add: struct_defs plain_char_def)
  then show ?thesis by (auto simp: list_all_iff intro: key_ok_plain[unfolded list_all_iff])
qed

lemma keys_ok_val: "val_ok v \<Longrightarrow> keys_ok (val_json v)"
  by (cases v)
    (auto simp: error_json_def secret_json_def agent_json_def store_key_json_def opt_str_def opt_strs_def
      nested_keys run_num is_num_chars itoa_is_num split: option.splits)

section \<open>The line of an event\<close>

definition header7 :: "(string \<times> kind \<times> bool) list" where
  "header7 = butlast event_header"

definition payload :: "(string \<times> kind \<times> bool) list" where
  "payload = event_payload_run @ event_payload_policy"

lemma event_header_split: "event_header = header7 @ [(''hash'', KStr, False)]"
  by (simp add: header7_def event_header_def)

lemma members_of_append: "members_of (fs @ gs) e = members_of fs e @ members_of gs e"
  by (induction fs e rule: members_of.induct) auto

lemma members_of_cong: "(\<And>k. k \<in> fst ` set fs \<Longrightarrow> e k = e' k) \<Longrightarrow> members_of fs e = members_of fs e'"
proof (induction fs e rule: members_of.induct)
  case (2 k t om fs e)
  have "e k = e' k" using "2.prems"[of k] by simp
  moreover have "members_of fs e = members_of fs e'"
    using "2.IH" "2.prems" by (cases "om \<and> is_empty_val (e k)") auto
  ultimately show ?case by simp
qed simp

definition front :: "event \<Rightarrow> string" where
  "front e = CHR ''{'' # join (map member (members_of header7 e)) '','' @ '',''"

definition rear :: "event \<Rightarrow> string" where
  "rear e = (if members_of payload e = [] then [] else CHR '','' # join (map member (members_of payload e)) '','') @ ''}''"

lemma join_append: "xs \<noteq> [] \<Longrightarrow> ys \<noteq> [] \<Longrightarrow> join (xs @ ys) sep = join xs sep @ sep @ join ys sep"
proof (induction xs sep rule: join.induct)
  case (2 x sep)
  then show ?case by (cases ys) auto
qed auto

lemma header7_nonempty: "members_of header7 e \<noteq> []"
  by (simp add: header7_def event_header_def)

lemma marshal_split:
  assumes "typed e"
  shows "marshal e = front e @ hash_key @ escape (get_str e ''hash'') @ CHR 0x22 # rear e"
proof -
  have "kind_of_val (e ''hash'') = KStr"
    using assms kind_at_struct[of "''hash''" KStr False] by (simp add: typed_def struct_defs)
  then obtain h where h: "e ''hash'' = FStr h" by (cases "e ''hash''") auto
  have "escape ''hash'' = ''hash''" by (rule escape_plain) (simp add: plain_char_def)
  then have q: "quote_str ''hash'' = [CHR 0x22] @ ''hash'' @ [CHR 0x22]" by (simp add: quote_str_def quote_char_def)
  have m: "member (''hash'', JStr h) = hash_key @ escape h @ [CHR 0x22]"
    by (simp add: member_def q hash_key_def) (simp add: quote_str_def quote_char_def)
  let ?x = "members_of header7 e" and ?p = "members_of payload e"
  have "members_of event_struct e = ?x @ (''hash'', JStr h) # ?p"
    by (simp add: event_struct_def event_header_split members_of_append payload_def h)
  then have "marshal e = CHR ''{'' # join (map member (?x @ (''hash'', JStr h) # ?p)) '','' @ ''}''"
    by (simp only: marshal_def render_members)
  also have "join (map member (?x @ (''hash'', JStr h) # ?p)) '','' =
      join (map member ?x) '','' @ '','' @ join (map member ((''hash'', JStr h) # ?p)) '',''"
    using header7_nonempty by (simp add: join_append)
  also have "join (map member ((''hash'', JStr h) # ?p)) '','' =
      member (''hash'', JStr h) @ (if ?p = [] then [] else '','' @ join (map member ?p) '','')"
    by (simp add: join_Cons)
  finally show ?thesis by (simp add: front_def rear_def m get_str_def h)
qed

lemma hash_not_header7: "''hash'' \<notin> fst ` set header7"
  by (simp add: header7_def event_header_def)

lemma hash_not_payload: "''hash'' \<notin> fst ` set payload"
  by (simp add: payload_def event_payload_run_def event_payload_policy_def)

lemma front_hash [simp]: "front (e(''hash'' := v)) = front e"
proof -
  have "members_of header7 (e(''hash'' := v)) = members_of header7 e"
    by (rule members_of_cong) (use hash_not_header7 in \<open>metis fun_upd_other\<close>)
  then show ?thesis by (simp add: front_def)
qed

lemma rear_hash [simp]: "rear (e(''hash'' := v)) = rear e"
proof -
  have "members_of payload (e(''hash'' := v)) = members_of payload e"
    by (rule members_of_cong) (use hash_not_payload in \<open>metis fun_upd_other\<close>)
  then show ?thesis by (simp add: rear_def)
qed

lemma members_keys: "m \<in> set (members_of fs e) \<Longrightarrow> fst m \<in> fst ` set fs \<and> (\<exists>k. snd m = val_json (e k))"
  by (induction fs e rule: members_of.induct) (auto split: if_splits)

lemma run_members:
  assumes "event_ok e" and "set fs \<subseteq> set event_struct" and "''hash'' \<notin> fst ` set fs"
  shows "settled (auto_run 0 (join (map member (members_of fs e)) '',''))"
proof (rule run_join)
  fix x assume "x \<in> set (map member (members_of fs e))"
  then obtain m where m: "m \<in> set (members_of fs e)" "x = member m" by auto
  obtain k where k: "fst m \<in> fst ` set fs" "snd m = val_json (e k)" using members_keys[OF m(1)] by auto
  have "fst m \<noteq> ''hash''" using k(1) assms(3) by metis
  moreover obtain f where "f \<in> set event_struct" "fst m = fst f" using k(1) assms(2) by blast
  ultimately have "key_ok (fst m)" using struct_keys by (auto simp: list_all_iff)
  moreover have "keys_ok (snd m)" using k(2) assms(1) keys_ok_val by (simp add: event_ok_def)
  ultimately show "settled (auto_run 0 x)" using run_render run_member m(2) by simp
qed

lemma header7_struct: "set header7 \<subseteq> set event_struct"
  by (auto simp: event_struct_def event_header_split)

lemma payload_struct: "set payload \<subseteq> set event_struct"
  by (auto simp: event_struct_def payload_def)

lemma run_front: "event_ok e \<Longrightarrow> auto_run 0 (front e) = Some 0"
  using settled_comma[OF run_members[OF _ header7_struct hash_not_header7], of e "[]"] by (simp add: front_def)

lemma run_back:
  assumes "event_ok e"
  shows "auto_run 0 (CHR 0x22 # escape h @ CHR 0x22 # rear e) \<noteq> None"
proof -
  have j: "settled (auto_run 0 (join (map member (members_of payload e)) '',''))"
    by (rule run_members[OF assms payload_struct hash_not_payload])
  have b: "auto_run st (rear e) \<noteq> None" for st
    using j by (auto simp: rear_def settled_def auto_run_append)
  obtain st where "auto_run 0 (escape h) = Some st" using run_escape[of 0 h] by auto
  then show ?thesis using b by (auto simp: auto_run_append)
qed

lemma hash_key_trigger: "hash_key = [CHR 0x22, CHR ''h'', CHR ''a''] @ trigger @ [CHR 0x22]"
  by (simp add: hash_key_def trigger_def)

text \<open>The key occurs once.\<close>

lemma hash_key_unique:
  assumes "event_ok e" and "marshal e = a @ hash_key @ b"
  shows "a = front e \<and> b = escape (get_str e ''hash'') @ CHR 0x22 # rear e"
proof -
  let ?u = "front e @ [CHR 0x22, CHR ''h'', CHR ''a'']"
  let ?v = "CHR 0x22 # escape (get_str e ''hash'') @ CHR 0x22 # rear e"
  have "auto_run 0 (?u @ take 3 trigger) \<noteq> None"
    using run_front[OF assms(1)] by (simp add: auto_run_append trigger_def)
  moreover have "auto_run 0 ?v \<noteq> None" by (rule run_back[OF assms(1)])
  moreover have e: "(a @ [CHR 0x22, CHR ''h'', CHR ''a'']) @ trigger @ CHR 0x22 # b = ?u @ trigger @ ?v"
    using assms marshal_split[of e] by (simp add: event_ok_def hash_key_trigger)
  ultimately have "a @ [CHR 0x22, CHR ''h'', CHR ''a''] = ?u" by (rule trigger_unique)
  then show ?thesis using e by simp
qed

lemma event_ok_hash: "event_ok e \<Longrightarrow> event_ok (e(''hash'' := FStr h))"
  using kind_at_struct[of "''hash''" KStr False] by (auto simp: event_ok_def typed_def struct_defs)

lemma indexOf_split: "indexOf s p = Some i \<Longrightarrow> \<exists>x y. s = x @ p @ y \<and> i = length x"
proof -
  assume "indexOf s p = Some i"
  then obtain t where "s = take i s @ p @ t" "i \<le> length s" using indexOf_Some by blast
  then show ?thesis by (intro exI[of _ "take i s"] exI[of _ t]) simp
qed

lemma replace_first_at:
  assumes "s = a @ old @ b" and "\<And>x y. s = x @ old @ y \<Longrightarrow> x = a"
  shows "replace_first s old new = a @ new @ b"
proof (cases "indexOf s old")
  case None
  then show ?thesis using assms(1) indexOf_None by blast
next
  case (Some i)
  then obtain x y where xy: "s = x @ old @ y" "i = length x" using indexOf_split by blast
  have "x = a" by (rule assms(2)[OF xy(1)])
  then have "i = length a" "y = b" using xy assms(1) by simp_all
  then show ?thesis using Some assms(1) by (simp add: replace_first_def)
qed

text \<open>The digest of a written line is the digest of the event it was written from.\<close>

lemma preimage_written:
  assumes "event_ok e" and "list_all plain_char h"
  shows "replace_first (marshal (e(''hash'' := FStr h))) (hash_key @ h @ [CHR 0x22]) (hash_key @ [CHR 0x22]) =
    marshal (e(''hash'' := FStr []))"
proof -
  let ?e = "e(''hash'' := FStr h)"
  have ok: "event_ok ?e" "event_ok (e(''hash'' := FStr []))" using assms(1) event_ok_hash by blast+
  have h: "get_str ?e ''hash'' = h" "escape h = h" using assms(2) by (simp_all add: get_str_def escape_plain)
  have esc: "escape [] = []" by (subst escape.simps) simp
  have m: "marshal ?e = front e @ (hash_key @ h @ [CHR 0x22]) @ rear e"
    using marshal_split[of ?e] ok h by (simp add: event_ok_def)
  have m0: "marshal (e(''hash'' := FStr [])) = front e @ (hash_key @ [CHR 0x22]) @ rear e"
    using marshal_split[of "e(''hash'' := FStr [])"] ok esc by (simp add: event_ok_def get_str_def)
  have "x = front e" if "marshal ?e = x @ (hash_key @ h @ [CHR 0x22]) @ y" for x y
    using hash_key_unique[OF ok(1), of x "h @ CHR 0x22 # y"] that by simp
  from replace_first_at[OF m this] m0 show ?thesis by simp
qed

lemma digestOfLine_written:
  "event_ok e \<Longrightarrow> list_all plain_char h \<Longrightarrow> digestOfLine sha (marshal (e(''hash'' := FStr h))) h = hashOf sha e"
  by (simp add: digestOfLine_def hashOf_def preimage_written)

text \<open>And no other line has that preimage, except the preimage itself.\<close>

lemma preimage_unique:
  assumes "event_ok e" and "replace_first raw (hash_key @ h @ [CHR 0x22]) (hash_key @ [CHR 0x22]) = marshal (e(''hash'' := FStr []))"
  shows "raw = front e @ hash_key @ h @ CHR 0x22 # rear e \<or> raw = marshal (e(''hash'' := FStr []))"
proof (cases "indexOf raw (hash_key @ h @ [CHR 0x22])")
  case None
  then show ?thesis using assms(2) by (simp add: replace_first_def)
next
  case (Some i)
  have ok: "event_ok (e(''hash'' := FStr []))" by (rule event_ok_hash[OF assms(1)])
  have esc: "escape [] = []" by (subst escape.simps) simp
  obtain x y where r: "raw = x @ (hash_key @ h @ [CHR 0x22]) @ y" "i = length x"
    using indexOf_split[OF Some] by blast
  then have "marshal (e(''hash'' := FStr [])) = x @ hash_key @ CHR 0x22 # y"
    using assms(2) Some by (simp add: replace_first_def)
  from hash_key_unique[OF ok this] esc r(1) show ?thesis by (simp add: get_str_def)
qed

end
