(* ===== verification/Recorder_Fit.thy ===== *)
theory Recorder_Fit
  imports Recorder_Line "HOL-Library.Multiset"
begin

text \<open>
  What clipping does to an event: every field is reduced on its own, only fields longer than the
  ceiling and a note are touched, and an event that fits as it is stays as it is.
\<close>

section \<open>The water level\<close>

lemma level_loop_bound:
  assumes "sorted ns" and "\<forall>n \<in> set ns. m \<le> int n" and "m * int (length ns) \<le> b - u" and "0 \<le> m"
    and "b - u < int (sum_list ns)" and "level_loop b u ns = c"
  shows "m \<le> c \<and> (\<Sum>n\<leftarrow>ns. min (int n) c) \<le> b - u \<and> b - u < (\<Sum>n\<leftarrow>ns. min (int n) (c + 1))"
  using assms
proof (induction ns arbitrary: m u)
  case Nil
  then show ?case by simp
next
  case (Cons n ns)
  let ?k = "int (length (n # ns))"
  let ?l = "(b - u) div ?k"
  have k: "0 < ?k" by simp
  have ml: "m \<le> ?l" using Cons.prems(3) zdiv_mono1[OF Cons.prems(3) k] by simp
  show ?case
  proof (cases "?l < int n")
    case True
    have c: "c = ?l" using Cons.prems(4,6) ml True by (simp add: Let_def split: if_splits)
    have ge: "int n \<le> int x" if "x \<in> set (n # ns)" for x using Cons.prems(1) that by auto
    have "(\<Sum>x\<leftarrow>n # ns. min (int x) ?l) = (\<Sum>x\<leftarrow>n # ns. ?l)"
      by (intro arg_cong[where f = sum_list] map_cong refl) (use ge True in \<open>force simp: min_def\<close>)
    moreover have "(\<Sum>x\<leftarrow>n # ns. min (int x) (?l + 1)) = (\<Sum>x\<leftarrow>n # ns. ?l + 1)"
      by (intro arg_cong[where f = sum_list] map_cong refl) (use ge True in \<open>force simp: min_def\<close>)
    moreover have "(\<Sum>x\<leftarrow>xs. y) = int (length xs) * y" for xs :: "nat list" and y
      by (induction xs) (simp_all add: algebra_simps)
    moreover have "?k * ?l \<le> b - u"
      using pos_mod_sign[OF k, of "b - u"] div_mult_mod_eq[of "b - u" ?k] mult.commute[of ?k ?l] by linarith
    moreover have "b - u < ?k * (?l + 1)"
      using pos_mod_bound[OF k, of "b - u"] div_mult_mod_eq[of "b - u" ?k] mult.commute[of ?k ?l]
        distrib_left[of ?k ?l 1] by linarith
    ultimately show ?thesis using c ml by (simp only:)
  next
    case False
    have nk: "int n * ?k \<le> b - u"
      using False pos_mod_sign[OF k, of "b - u"] div_mult_mod_eq[of "b - u" ?k]
        mult_right_mono[of "int n" ?l ?k] by linarith
    have s: "sorted ns" "\<forall>x \<in> set ns. int n \<le> int x" using Cons.prems(1) by auto
    have "int n * int (length ns) \<le> b - (u + int n)" using nk by (simp add: algebra_simps)
    moreover have "b - (u + int n) < int (sum_list ns)" using Cons.prems(5) by simp
    moreover have "level_loop b (u + int n) ns = c" using Cons.prems(6) False by (simp add: Let_def)
    ultimately have ih: "int n \<le> c \<and> (\<Sum>n\<leftarrow>ns. min (int n) c) \<le> b - (u + int n) \<and>
        b - (u + int n) < (\<Sum>n\<leftarrow>ns. min (int n) (c + 1))"
      using Cons.IH[of "int n" "u + int n"] s by simp
    have "m \<le> int n" using Cons.prems(2) by simp
    then show ?thesis using ih by simp
  qed
qed

lemma capForBudget_level:
  assumes "0 \<le> b" and "b < int (sum_list sizes)"
  shows "(\<Sum>n\<leftarrow>sizes. min (int n) (int (capForBudget sizes b))) \<le> b \<and>
    b < (\<Sum>n\<leftarrow>sizes. min (int n) (int (capForBudget sizes b) + 1))"
proof -
  let ?c = "level_loop b 0 (sort sizes)"
  have sum: "sum_list (map f (sort sizes)) = sum_list (map f sizes)" for f :: "nat \<Rightarrow> int"
    by (metis mset_map mset_sort sum_mset_sum_list)
  have "sum_list (sort sizes) = sum_list sizes" by (metis mset_sort sum_mset_sum_list)
  then have "0 \<le> ?c \<and> (\<Sum>n\<leftarrow>sort sizes. min (int n) ?c) \<le> b - 0 \<and> b - 0 < (\<Sum>n\<leftarrow>sort sizes. min (int n) (?c + 1))"
    using assms by (intro level_loop_bound[OF _ _ _ _ _ refl]) auto
  then show ?thesis using assms by (simp add: sum capForBudget_def)
qed

section \<open>One field at a time\<close>

fun target_key :: "target \<Rightarrow> string" where
  "target_key (OwnField k) = k"
| "target_key (ErrorKind k) = k"
| "target_key (ErrorMessage k) = k"

fun key_of :: "clippable \<Rightarrow> string" where
  "key_of (ClipStr t) = target_key t"
| "key_of (ClipStrs k _) = k"
| "key_of ClipSecrets = ''secrets''"
| "key_of ClipPorts = ''ports''"
| "key_of ClipAgents = ''agents''"
| "key_of ClipStoreKeys = ''store_keys''"

lemma target_other: "target_key t \<noteq> k \<Longrightarrow> target_set e t s k = e k"
  by (cases t) (auto split: fval.splits option.splits)

lemma reduce_other: "key_of c \<noteq> k \<Longrightarrow> reduce keep c e k = e k"
  by (cases c) (auto simp: target_other split: fval.splits)

lemma target_local: "e (target_key t) = f (target_key t) \<Longrightarrow> target_get e t = target_get f t"
  by (cases t) (auto simp: get_str_def)

lemma reduce_local:
  assumes "e (key_of c) = f (key_of c)"
  shows "reduce keep c e (key_of c) = reduce keep c f (key_of c)"
proof (cases c)
  case (ClipStr t)
  then show ?thesis using assms target_local[of e t f]
    by (cases t) (auto split: fval.splits option.splits)
qed (use assms in \<open>auto simp: get_strs_def split: fval.splits\<close>)

lemma reduce_over_at:
  assumes "e k = f k"
  shows "fst (reduce_over keep cs (e, b)) k = fst (reduce_over keep (filter (\<lambda>(c, n). key_of c = k) cs) (f, b')) k"
  using assms
proof (induction cs arbitrary: e f b b')
  case (Cons x cs)
  obtain c n where x: "x = (c, n)" by (cases x)
  show ?case
  proof (cases "key_of c = k")
    case True
    then have "reduce keep c e k = reduce keep c f k" using reduce_local[of e c f keep] Cons.prems by auto
    then show ?thesis using Cons.IH Cons.prems True by (simp add: x)
  next
    case False
    then show ?thesis using Cons.IH Cons.prems by (simp add: x reduce_other)
  qed
qed simp

lemma reduce_over_none: "filter (\<lambda>(c, n). key_of c = k) cs = [] \<Longrightarrow> fst (reduce_over keep cs (e, b)) k = e k"
  using reduce_over_at[of e k e keep cs b b] by simp

lemma reduce_over_one:
  "filter (\<lambda>(c, n). key_of c = k) cs = [(c, n)] \<Longrightarrow>
    fst (reduce_over keep cs (e, b)) k = (if keep + clipNoteBytes < n then reduce keep c e k else e k)"
  using reduce_over_at[of e k e keep cs b b] by simp

lemma eachString_kind:
  "t \<in> set (eachStringField fs e) \<Longrightarrow> \<exists>om. (\<exists>k. t = OwnField k \<and> (k, KStr, om) \<in> set fs) \<or>
     (\<exists>k. (t = ErrorKind k \<or> t = ErrorMessage k) \<and> (k, KErrP, om) \<in> set fs)"
  by (induction fs e rule: eachStringField.induct) (auto split: if_splits)

definition slice_kind :: "clippable \<Rightarrow> kind" where
  "slice_kind c = (case c of ClipStrs _ _ \<Rightarrow> KStrs | ClipSecrets \<Rightarrow> KSecrets | ClipPorts \<Rightarrow> KInts
     | ClipAgents \<Rightarrow> KAgents | ClipStoreKeys \<Rightarrow> KStoreKeys
     | ClipStr t \<Rightarrow> (case t of OwnField _ \<Rightarrow> KStr | _ \<Rightarrow> KErrP))"

lemma kind_at_slices: "list_all (\<lambda>c. kind_at (key_of c) = slice_kind c) slices"
proof -
  have s: "(''argv'', KStrs, True) \<in> set event_struct" "(''cmd'', KStrs, True) \<in> set event_struct"
    "(''allow'', KStrs, True) \<in> set event_struct" "(''plugins'', KStrs, True) \<in> set event_struct"
    "(''forwards'', KStrs, True) \<in> set event_struct" "(''tools'', KStrs, True) \<in> set event_struct"
    "(''edges'', KStrs, True) \<in> set event_struct" "(''secrets'', KSecrets, True) \<in> set event_struct"
    "(''ports'', KInts, True) \<in> set event_struct" "(''agents'', KAgents, True) \<in> set event_struct"
    "(''store_keys'', KStoreKeys, True) \<in> set event_struct"
    by (simp_all only: struct_defs set_append set_simps Un_iff insert_iff prod.inject) simp_all
  show ?thesis using s[THEN kind_at_struct] by (simp add: slices_def slice_kind_def)
qed

lemma clippable_kind: "c \<in> set (clippableFields e) \<Longrightarrow> kind_at (key_of c) = slice_kind c"
proof -
  assume "c \<in> set (clippableFields e)"
  then consider t where "t \<in> set (eachStringField event_struct e)" "c = ClipStr t" | "c \<in> set slices"
    by (auto simp: clippableFields_def)
  then show ?thesis
  proof cases
    case 1
    then show ?thesis using eachString_kind[OF 1(1)] kind_at_struct by (auto simp: slice_kind_def)
  next
    case 2
    then show ?thesis using kind_at_slices by (simp add: list_all_iff)
  qed
qed

lemma reduce_ok:
  assumes "event_ok e" and "kind_at (key_of c) = slice_kind c"
  shows "event_ok (reduce keep c e)"
proof -
  have "kind_of_val (reduce keep c e k) = kind_at k \<and> val_ok (reduce keep c e k)" for k
  proof (cases "key_of c = k")
    case False
    then show ?thesis using assms(1) reduce_other by (simp add: event_ok_def typed_def)
  next
    case True
    have k: "kind_of_val (e k) = kind_at k" "val_ok (e k)" using assms(1) by (auto simp: event_ok_def typed_def)
    show ?thesis
    proof (cases c)
      case (ClipStr t)
      then show ?thesis using True k assms(2) by (cases t) (auto simp: slice_kind_def split: fval.splits option.splits)
    next
      case ClipPorts
      then show ?thesis using True k assms(2)
        by (auto simp: slice_kind_def clipPorts_def list_all_iff split: fval.splits dest: in_set_takeD)
    qed (use True k assms(2) in \<open>auto simp: slice_kind_def split: fval.splits\<close>)
  qed
  then show ?thesis by (simp add: event_ok_def typed_def)
qed

lemma reduce_over_ok:
  assumes "event_ok e" and "\<forall>c \<in> fst ` set cs. kind_at (key_of c) = slice_kind c"
  shows "event_ok (fst (reduce_over keep cs (e, b)))"
  using assms
proof (induction cs arbitrary: e b)
  case (Cons x cs)
  obtain c n where x: "x = (c, n)" by (cases x)
  have "kind_at (key_of c) = slice_kind c" using Cons.prems(2) by (simp add: x)
  with Cons.prems(1) have "event_ok (reduce keep c e)" by (rule reduce_ok)
  then show ?case using Cons by (simp add: x)
qed simp

lemma clipToBudget_ok: "event_ok e \<Longrightarrow> event_ok (fst (clipToBudget e b))"
  using clippable_kind by (auto simp: clipToBudget_def Let_def intro!: reduce_over_ok dest: in_set_zipE set_zip_leftD)

section \<open>What happens to each field\<close>

text \<open>Fields that are no strings, no error and no slices are never touched.\<close>

lemma clip_other:
  assumes "kind_at k \<in> {KInt, KFloat, KBoolP, KIntP}"
  shows "fst (clipToBudget e b) k = e k"
proof -
  have f: "filter (\<lambda>(c, n). key_of c = k) (zip (clippableFields e) ns) = []" for ns
  proof -
    have "key_of c \<noteq> k" if "c \<in> set (clippableFields e)" for c
      using clippable_kind[OF that] assms by (auto simp: slice_kind_def split: clippable.splits target.splits)
    then show ?thesis by (auto simp: filter_empty_conv dest: set_zip_leftD)
  qed
  then show ?thesis using reduce_over_none[OF f] by (simp add: clipToBudget_def Let_def)
qed

lemma eachString_filter:
  assumes "distinct (map fst fs)" and "(k, KStr, om) \<in> set fs"
  shows "filter (\<lambda>t. target_key t = k) (eachStringField fs e) = [OwnField k]"
proof -
  have none: "filter (\<lambda>t. target_key t = k) (eachStringField gs e) = []" if "k \<notin> fst ` set gs" for gs
  proof -
    have "target_key t \<noteq> k" if t: "t \<in> set (eachStringField gs e)" for t
      using eachString_kind[OF t] \<open>k \<notin> fst ` set gs\<close> by force
    then show ?thesis by (auto simp: filter_empty_conv)
  qed
  show ?thesis using assms
  proof (induction fs)
    case (Cons f fs)
    obtain j t o' where f: "f = (j, t, o')" by (cases f)
    show ?case
    proof (cases "j = k")
      case True
      then have "t = KStr" "k \<notin> fst ` set fs" using Cons.prems by (auto simp: f rev_image_eqI)
      then show ?thesis using none True by (simp add: f)
    next
      case False
      then show ?thesis using Cons by (auto simp: f)
    qed
  qed simp
qed

lemma clippable_filter:
  assumes "(k, KStr, om) \<in> set event_struct"
  shows "filter (\<lambda>c. key_of c = k) (clippableFields e) = [ClipStr (OwnField k)]"
proof -
  have "filter (\<lambda>c. key_of c = k) slices = []"
  proof -
    have "key_of c \<noteq> k" if "c \<in> set slices" for c
      using kind_at_slices that kind_at_struct[OF assms]
      by (auto simp: list_all_iff slice_kind_def slices_def)
    then show ?thesis by (auto simp: filter_empty_conv)
  qed
  moreover have "filter (\<lambda>c. key_of c = k) (map ClipStr ts) = map ClipStr (filter (\<lambda>t. target_key t = k) ts)" for ts
    by (induction ts) auto
  ultimately show ?thesis using eachString_filter[OF struct_distinct assms] by (simp add: clippableFields_def)
qed

lemma filter_zip_map: "filter (\<lambda>(c, n). P c) (zip cs (map f cs)) = map (\<lambda>c. (c, f c)) (filter P cs)"
  by (induction cs) auto

text \<open>A string field is as it was, or cut with its note when it was longer than the ceiling and the note.\<close>

lemma clip_string:
  assumes "(k, KStr, om) \<in> set event_struct" and "e k = FStr s"
  shows "fst (clipToBudget e b) k = FStr s \<or>
    (\<exists>keep. keep + clipNoteBytes < length s \<and> fst (clipToBudget e b) k = FStr (str_note s keep))"
proof -
  let ?cs = "clippableFields e"
  have f: "filter (\<lambda>(c, n). key_of c = k) (zip ?cs (map (field_bytes e) ?cs)) = [(ClipStr (OwnField k), length s)]"
    using clippable_filter[OF assms(1), of e] assms(2) by (simp add: filter_zip_map get_str_def)
  show ?thesis
    unfolding clipToBudget_def Let_def using assms(2)
    by (auto simp: reduce_over_one[OF f] get_str_def)
qed

section \<open>The measuring loop\<close>

lemma fit_loop_Inr:
  assumes "fit_loop n orig e b = Inr e'" and "\<exists>c. e = fst (clipToBudget orig c)"
  shows "(\<exists>c. e' = fst (clipToBudget orig c)) \<and> int (length (marshal e')) \<le> lineBudget"
  using assms
proof (induction n arbitrary: e b)
  case 0
  then show ?case by (subst (asm) fit_loop.simps) (auto simp: Let_def split: if_splits)
next
  case (Suc n)
  show ?case
  proof (cases "int (length (marshal e)) \<le> lineBudget")
    case True
    then show ?thesis using Suc.prems by (subst (asm) fit_loop.simps) auto
  next
    case False
    let ?next = "b - (int (length (marshal e)) - lineBudget)"
    let ?b = "if ?next < b div 2 then b div 2 else ?next"
    obtain f c where f: "clipToBudget orig ?b = (f, c)" by (cases "clipToBudget orig ?b")
    have "c" "fit_loop n orig f ?b = Inr e'"
      using Suc.prems(1) False by (subst (asm) fit_loop.simps; simp add: Let_def f split: if_splits)+
    moreover have "f = fst (clipToBudget orig ?b)" by (simp add: f)
    ultimately show ?thesis using Suc.IH by blast
  qed
qed

lemma fit_accepts:
  assumes "fitUnderMaxLine e = Inr e'"
  obtains c where "e' = fst (clipToBudget e c)" and "int (length (marshal e')) \<le> lineBudget"
  using fit_loop_Inr[of maxClipAttempts e _ lineBudget e'] assms by (auto simp: fitUnderMaxLine_def)

lemma fit_unchanged:
  assumes "int (content e) \<le> content_budget e lineBudget" and "int (length (marshal e)) \<le> lineBudget"
  shows "fitUnderMaxLine e = Inr e"
  using assms by (subst fitUnderMaxLine_def, subst fit_loop.simps) (simp add: clipToBudget_def)

text \<open>
  An event that is small as content and too long once escaped: the second pass gives half the
  budget, finds nothing above it and refuses.
\<close>

lemma fit_refuses:
  assumes "int (content e) + 64 * int (length (clippableFields e)) \<le> lineBudget div 2"
    and "lineBudget < int (length (marshal e))"
  shows "fitUnderMaxLine e = Inl (NothingLeftToClip (get_int e ''seq'') (length (marshal e)))"
proof -
  have lb: "0 \<le> lineBudget" by (simp add: lineBudget_def MaxLine_def clipMargin_def)
  have "int (content e) \<le> content_budget e c" if "lineBudget div 2 \<le> c" for c
    using that assms(1) by (simp add: content_budget_def clipNoteBytes_def Let_def)
  then have clip: "clipToBudget e c = (e, False)" if "lineBudget div 2 \<le> c" for c
    using that by (simp add: clipToBudget_def)
  have "maxClipAttempts = Suc 7" by (simp add: maxClipAttempts_def)
  then have "fitUnderMaxLine e = fit_loop (Suc 7) e e lineBudget"
    using clip[of lineBudget] lb by (simp add: fitUnderMaxLine_def)
  also have "\<dots> = Inl (NothingLeftToClip (get_int e ''seq'') (length (marshal e)))"
    using assms(2) by (subst fit_loop.simps) (simp add: Let_def clip)
  finally show ?thesis .
qed

section \<open>How long a line is\<close>

lemma join_ge: "x \<in> set xs \<Longrightarrow> length x \<le> length (join xs sep)"
  by (induction xs sep rule: join.induct) auto

lemma members_field:
  assumes "(k, t, om) \<in> set fs" and "\<not> is_empty_val (e k)"
  shows "(k, val_json (e k)) \<in> set (members_of fs e)"
  using assms by (induction fs e rule: members_of.induct) auto

lemma marshal_ge:
  assumes "(k, KStr, om) \<in> set event_struct" and "e k = FStr s" and "s \<noteq> []"
  shows "length (escape s) \<le> length (marshal e)"
proof -
  have m: "(k, JStr s) \<in> set (members_of event_struct e)"
    using members_field[OF assms(1), of e] assms(2,3) by simp
  have "length (escape s) \<le> length (member (k, JStr s))" by (simp add: member_def quote_str_def)
  also have "\<dots> \<le> length (join (map member (members_of event_struct e)) '','')"
    using m by (intro join_ge) force
  also have "\<dots> \<le> length (marshal e)" unfolding marshal_def render_members by simp
  finally show ?thesis .
qed

lemma escape_angle: "length (escape (replicate n CHR ''<'')) = 6 * n"
proof (induction n)
  case 0
  then show ?case by (subst escape.simps) simp
next
  case (Suc n)
  have "esc_ascii CHR ''<'' = [backslash, CHR ''u'', CHR ''0'', CHR ''0'', hex_char 3, hex_char 12]"
    by (simp add: esc_ascii_def quote_char_def backslash_def)
  with Suc show ?case by (subst escape.simps) simp
qed

lemma clippable_count: "length (clippableFields e) \<le> 2 * length event_struct + 11"
proof -
  have "length (eachStringField fs e) \<le> 2 * length fs" for fs
    by (induction fs e rule: eachStringField.induct) auto
  then show ?thesis by (simp add: clippableFields_def slices_def)
qed

text \<open>The content of an event literal that sets one string field.\<close>

lemma zero_bytes: "key_of c \<noteq> k \<Longrightarrow> c \<in> set (clippableFields e) \<Longrightarrow> field_bytes (zeroEvent(k := v)) c = 0"
proof -
  assume c: "key_of c \<noteq> k" "c \<in> set (clippableFields e)"
  have "(zeroEvent(k := v)) (key_of c) = zero_val (slice_kind c)"
    using c(1) clippable_kind[OF c(2)] by (simp add: zeroEvent_def)
  then show ?thesis
  proof (cases c)
    case (ClipStr t)
    with \<open>(zeroEvent(k := v)) (key_of c) = zero_val (slice_kind c)\<close> show ?thesis
      by (cases t) (auto simp: slice_kind_def get_str_def)
  qed (simp_all add: slice_kind_def get_strs_def stringsBytes_def secretsBytes_def portsBytes_def agentsBytes_def storeKeysBytes_def)
qed

lemma content_one:
  assumes "(k, KStr, om) \<in> set event_struct"
  shows "content (zeroEvent(k := FStr s)) = length s"
proof -
  let ?e = "zeroEvent(k := FStr s)"
  have split: "sum_list (map f cs) = sum_list (map f (filter P cs)) + sum_list (map f (filter (\<lambda>c. \<not> P c) cs))"
    for f :: "clippable \<Rightarrow> nat" and P cs by (induction cs) auto
  have "sum_list (map (field_bytes ?e) (filter (\<lambda>c. key_of c \<noteq> k) (clippableFields ?e))) = 0"
    using zero_bytes[of _ k ?e "FStr s"] by (auto simp: sum_list_eq_0_iff)
  then show ?thesis
    using split[of "field_bytes ?e" "clippableFields ?e" "\<lambda>c. key_of c = k"] clippable_filter[OF assms, of ?e]
    by (simp add: content_def get_str_def)
qed

end
