(* ===== verification/Recorder.thy ===== *)
theory Recorder
  imports Recorder_Chain
begin

text \<open>
  The recorder of \<open>internal/recorder/recorder.go\<close>: \<open>catchUp\<close>, \<open>Append\<close>, the latch
  and the epitaph. The two files of a session are explicit, because every process of the host may
  write them: an operation takes the recorder, the disk and what the system did during the call
  (\<open>io\<close>), and returns them updated. The texts of errors are the parameter \<open>etext\<close>.
\<close>

datatype rec_error =
    SystemError string
  | NoFinalNewline nat
  | CorruptEvent
  | CorruptSeq int int
  | CorruptPrev int string string
  | CorruptNoDigest int
  | CorruptDigest int string string
  | LineTooLong
  | ClipFailed clip_error
  | Stopped int rec_error

record recorder =
  rc_seq :: int
  rc_prev :: string
  rc_off :: nat
  rc_sandbox :: string
  rc_started :: int
  rc_broken :: bool
  rc_failure :: "rec_error option"
  rc_failedAt :: int
  rc_epitaph :: bool
  rc_anchorWarned :: bool

record disk =
  dk_chain :: string
  dk_head :: "string option"

text \<open>
  What the system does in one append: whether the lock is taken, the file's size read and its last
  byte read; how much of the line is written (\<open>None\<close> is all of it, \<open>Some n\<close> is an error
  after \<open>n\<close> bytes); whether the anchor is replaced and, if not, whether it can be removed; the
  time stamp; and the milliseconds on the clock.
\<close>

record io =
  io_lock :: bool
  io_stat :: bool
  io_tail :: bool
  io_write :: "nat option"
  io_head :: bool
  io_remove :: bool
  io_now :: string
  io_clock :: int

definition newRecorder :: "string \<Rightarrow> int \<Rightarrow> recorder" where
  "newRecorder sandbox started =
     \<lparr>rc_seq = 0, rc_prev = [], rc_off = 0, rc_sandbox = sandbox, rc_started = started, rc_broken = False,
      rc_failure = None, rc_failedAt = 0, rc_epitaph = False, rc_anchorWarned = False\<rparr>"

section \<open>Catching up with the file\<close>

fun catch_lines :: "(bytes \<Rightarrow> bytes) \<Rightarrow> string list \<Rightarrow> bool \<Rightarrow> int \<Rightarrow> string \<Rightarrow> rec_error + (int \<times> string)" where
  "catch_lines sha [] ok seq prev = (if ok then Inr (seq, prev) else Inl LineTooLong)"
| "catch_lines sha (raw # ls) ok seq prev =
     (if raw = [] then catch_lines sha ls ok seq prev
      else case unmarshal raw of
             None \<Rightarrow> Inl CorruptEvent
           | Some e \<Rightarrow>
               let s = get_int e ''seq''; hash = get_str e ''hash'' in
               if s \<noteq> seq + 1 then Inl (CorruptSeq s (seq + 1))
               else if get_str e ''prev'' \<noteq> prev then Inl (CorruptPrev s (short (get_str e ''prev'')) (short prev))
               else if hash = [] then Inl (CorruptNoDigest s)
               else if digestOfLine sha raw hash \<noteq> hash
                    then Inl (CorruptDigest s (short (digestOfLine sha raw hash)) (short hash))
               else catch_lines sha ls ok s hash)"

definition catchUp :: "(bytes \<Rightarrow> bytes) \<Rightarrow> io \<Rightarrow> recorder \<Rightarrow> disk \<Rightarrow> rec_error + recorder" where
  "catchUp sha i r d =
     (let file = dk_chain d in
      if \<not> io_stat i then Inl (SystemError ''stat'')
      else if length file = rc_off r then Inr r
      else if 0 < length file \<and> \<not> io_tail i then Inl (SystemError ''read'')
      else if 0 < length file \<and> last file \<noteq> newline then Inl (NoFinalNewline (length file))
      else case scan_lines MaxLine file of
             (ls, ok) \<Rightarrow>
               (case catch_lines sha ls ok 0 [] of
                  Inl err \<Rightarrow> Inl err
                | Inr (seq, prev) \<Rightarrow> Inr (r\<lparr>rc_seq := seq, rc_prev := prev, rc_off := length file\<rparr>)))"

section \<open>Appending\<close>

text \<open>The header every event gets, and the event \<open>Append\<close> chains.\<close>

definition stamp :: "io \<Rightarrow> recorder \<Rightarrow> event \<Rightarrow> event" where
  "stamp i r e = e(''v'' := FInt 1, ''seq'' := FInt (rc_seq r + 1), ''ts'' := FStr (io_now i),
     ''sandbox'' := FStr (rc_sandbox r),
     ''source'' := FStr (if get_str e ''source'' = [] then ''host'' else get_str e ''source''),
     ''prev'' := FStr (rc_prev r), ''hash'' := FStr [])"

definition anchor_write :: "io \<Rightarrow> recorder \<Rightarrow> string \<Rightarrow> disk \<Rightarrow> recorder \<times> disk" where
  "anchor_write i r ts d =
     (if io_head i
      then (r, d\<lparr>dk_head := Some (head_bytes
              \<lparr>hd_V = 0, hd_Sandbox = rc_sandbox r, hd_Seq = rc_seq r, hd_Hash = rc_prev r, hd_TS = ts\<rparr>)\<rparr>)
      else (r\<lparr>rc_anchorWarned := True\<rparr>, if io_remove i then d\<lparr>dk_head := None\<rparr> else d))"

definition appendLocked ::
  "(bytes \<Rightarrow> bytes) \<Rightarrow> io \<Rightarrow> event \<Rightarrow> recorder \<Rightarrow> disk \<Rightarrow> rec_error option \<times> recorder \<times> disk" where
  "appendLocked sha i e r d =
     (if \<not> io_lock i then (Some (SystemError ''lock''), r, d)
      else case catchUp sha i r d of
             Inl err \<Rightarrow> (Some err, r, d)
           | Inr r \<Rightarrow>
               (case fitUnderMaxLine (stamp i r e) of
                  Inl err \<Rightarrow> (Some (ClipFailed err), r, d)
                | Inr e \<Rightarrow>
                    let digest = hashOf sha e;
                        line = marshal (e(''hash'' := FStr digest)) @ [newline]
                    in case io_write i of
                         Some n \<Rightarrow> (Some (SystemError ''write''), r, d\<lparr>dk_chain := dk_chain d @ take n line\<rparr>)
                       | None \<Rightarrow>
                           let r = r\<lparr>rc_seq := rc_seq r + 1, rc_prev := digest, rc_off := rc_off r + length line\<rparr>;
                               (r, d) = anchor_write i r (get_str e ''ts'') (d\<lparr>dk_chain := dk_chain d @ line\<rparr>)
                           in (None, r, d)))"

section \<open>The latch\<close>

definition maxFailureReason :: nat where "maxFailureReason = 160"

definition epitaph_event :: "(rec_error \<Rightarrow> string) \<Rightarrow> io \<Rightarrow> recorder \<Rightarrow> rec_error \<Rightarrow> event" where
  "epitaph_event etext i r err = zeroEvent(
     ''type'' := FStr ''session.end'',
     ''reason'' := FStr (''recorder failed at seq '' @ itoa (rc_failedAt r) @ '': '' @ clipUTF8 (etext err) maxFailureReason),
     ''duration_ms'' := FInt (io_clock i - rc_started r))"

text \<open>\<open>writeEpitaphLocked\<close>, called with the failure set.\<close>

definition writeEpitaph ::
  "(bytes \<Rightarrow> bytes) \<Rightarrow> (rec_error \<Rightarrow> string) \<Rightarrow> io \<Rightarrow> rec_error \<Rightarrow> recorder \<Rightarrow> disk \<Rightarrow> rec_error option \<times> recorder \<times> disk" where
  "writeEpitaph sha etext i err r d =
     (if rc_epitaph r then (None, r, d)
      else case appendLocked sha i (epitaph_event etext i r err) r d of
             (None, r, d) \<Rightarrow> (None, r\<lparr>rc_epitaph := True\<rparr>, d)
           | (Some e, r, d) \<Rightarrow> (Some e, r, d))"

definition failLocked ::
  "(bytes \<Rightarrow> bytes) \<Rightarrow> (rec_error \<Rightarrow> string) \<Rightarrow> io \<Rightarrow> rec_error \<Rightarrow> recorder \<Rightarrow> disk \<Rightarrow> recorder \<times> disk" where
  "failLocked sha etext i err r d =
     (if rc_failure r \<noteq> None then (r, d)
      else let r = r\<lparr>rc_failure := Some err, rc_failedAt := rc_seq r + 1, rc_broken := True\<rparr>
           in snd (writeEpitaph sha etext i err r d))"

text \<open>
  \<open>Append\<close> on a recorder that is not nil; \<open>i\<close> is the system during the append and
  \<open>j\<close> during the epitaph a failure attempts.
\<close>

definition append_event ::
  "(bytes \<Rightarrow> bytes) \<Rightarrow> (rec_error \<Rightarrow> string) \<Rightarrow> io \<Rightarrow> io \<Rightarrow> event \<Rightarrow> recorder \<Rightarrow> disk \<Rightarrow> rec_error option \<times> recorder \<times> disk" where
  "append_event sha etext i j e r d =
     (case rc_failure r of
        Some err \<Rightarrow> (Some (Stopped (rc_failedAt r) err), r, d)
      | None \<Rightarrow>
          (case appendLocked sha i e r d of
             (None, r, d) \<Rightarrow> (None, r, d)
           | (Some err, r, d) \<Rightarrow> (Some err, failLocked sha etext j err r d)))"

definition failureOf :: "recorder \<Rightarrow> int \<times> rec_error option" where
  "failureOf r = (rc_failedAt r, rc_failure r)"

definition endBroken ::
  "(bytes \<Rightarrow> bytes) \<Rightarrow> (rec_error \<Rightarrow> string) \<Rightarrow> io \<Rightarrow> recorder \<Rightarrow> disk \<Rightarrow> rec_error option \<times> recorder \<times> disk" where
  "endBroken sha etext i r d =
     (case rc_failure r of
        None \<Rightarrow> (None, r, d)
      | Some err \<Rightarrow> if rc_epitaph r then (None, r, d) else writeEpitaph sha etext i err r d)"

end
