(* ===== verification/Recorder_File.thy ===== *)
theory Recorder_File
  imports Recorder_Fit Recorder
begin

text \<open>
  Files as lists of lines: what the scanner yields from a file of whole lines, what \<open>Verify\<close> and
  \<open>catchUp\<close> accept (\<open>chained\<close>), and that a line the recorder writes extends it.
\<close>

section \<open>Lines without control characters\<close>

definition printable :: "string \<Rightarrow> bool" where
  "printable s \<longleftrightarrow> list_all (\<lambda>c. 32 \<le> byte c) s"

lemma printable_simps [simp]:
  "printable []" "printable (c # s) \<longleftrightarrow> 32 \<le> byte c \<and> printable s" "printable (s @ t) \<longleftrightarrow> printable s \<and> printable t"
  by (simp_all add: printable_def)

lemma printable_esc_ascii: "printable (esc_ascii c)"
proof -
  have "32 \<le> byte (hex_char d)" if "d < 16" for d using that by (auto simp: hex_char_def)
  moreover have "byte c div 16 < 16" by (rule less_mult_imp_div_less) (use byte_less[of c] in simp)
  moreover have "byte c mod 16 < 16" by simp
  ultimately show ?thesis by (simp add: esc_ascii_def quote_char_def backslash_def)
qed

lemma printable_rune:
  assumes "\<not> byte c < 128" and "rune_len (c # t) = Some n"
  shows "printable (take n (c # t))"
proof -
  obtain u r where u: "c # t = c # u @ r" "length u = n - 1" "list_all cont u"
    using rune_shape[OF assms(2)] by (metis list.inject)
  have "take n (c # t) = c # u" using u rune_len_pos[OF assms(2)] by (cases n) auto
  moreover have "printable u" using u(3) by (auto simp: printable_def cont_def list_all_iff)
  ultimately show ?thesis using assms(1) by simp
qed

lemma printable_escape: "printable (escape s)"
proof (induction s rule: escape.induct)
  case (1 s)
  show ?case
  proof (cases s)
    case Nil
    then show ?thesis by (subst escape.simps) simp
  next
    case (Cons c t)
    show ?thesis
    proof (cases "byte c < 128")
      case True
      then show ?thesis using "1.IH"(1)[OF Cons True] printable_esc_ascii by (subst escape.simps) (simp add: Cons)
    next
      case False
      have u: "printable (u_esc ''fffd'')" "printable (u_esc ''2028'')" "printable (u_esc ''2029'')"
        by (simp_all add: u_esc_def backslash_def)
      show ?thesis
      proof (cases "rune_len s")
        case None
        then show ?thesis using "1.IH"(2)[OF Cons False None] u False by (subst escape.simps) (simp add: Cons)
      next
        case (Some n)
        then show ?thesis using "1.IH"(3)[OF Cons False Some] u False printable_rune[OF False, of t n]
          by (subst escape.simps) (simp add: Cons)
      qed
    qed
  qed
qed

lemma printable_quote: "printable (quote_str s)"
  using printable_escape by (simp add: quote_str_def quote_char_def)

lemma printable_num: "list_all num_char n \<Longrightarrow> printable n"
  by (auto simp: printable_def list_all_iff num_char_def is_digit_def)

lemma printable_join: "\<forall>x \<in> set xs. printable x \<Longrightarrow> printable (join xs '','')"
  by (induction xs "'',''::string" rule: join.induct) auto

lemma printable_render: "fits d j \<Longrightarrow> printable (render j)"
proof (induction d j rule: fits.induct)
  case (1 d n)
  then show ?case using printable_num is_num_chars by simp
next
  case (2 d js)
  then have "printable (join (map render js) '','')" by (intro printable_join) auto
  then show ?case by simp
next
  case (3 d ms)
  then have "printable (join (map member ms) '','')"
    using printable_quote by (intro printable_join) (auto simp: member_def)
  then show ?case unfolding render_members by simp
qed (simp_all add: printable_quote)

lemma printable_marshal: "event_ok e \<Longrightarrow> printable (marshal e)"
  unfolding marshal_def by (rule printable_render[OF fits_event])

section \<open>Scanning whole lines\<close>

definition whole_line :: "string \<Rightarrow> bool" where
  "whole_line l \<longleftrightarrow> newline \<notin> set l \<and> length l < MaxLine \<and> dropCR l = l"

definition unlines :: "string list \<Rightarrow> string" where
  "unlines ls = concat (map (\<lambda>l. l @ [newline]) ls)"

lemma unlines_simps [simp]:
  "unlines [] = []" "unlines (l # ls) = l @ newline # unlines ls" "unlines (ls @ ms) = unlines ls @ unlines ms"
  by (simp_all add: unlines_def)

lemma printable_whole:
  assumes "printable l" and "length l < MaxLine"
  shows "whole_line l"
proof -
  have "newline \<notin> set l" "CHR 0x0D \<notin> set l" using assms(1) by (auto simp: printable_def list_all_iff newline_def)
  moreover from this(2) have "dropCR l = l" by (cases l rule: rev_cases) (auto simp: dropCR_def)
  ultimately show ?thesis using assms(2) by (simp add: whole_line_def)
qed

lemma first_line_append: "newline \<notin> set l \<Longrightarrow> first_line (l @ newline # s) = l"
  unfolding first_line_def by (induction l) auto

lemma scan_line:
  assumes "whole_line l"
  shows "scan_lines MaxLine (l @ newline # s) = (case scan_lines MaxLine s of (ls, ok) \<Rightarrow> (l # ls, ok))"
  using assms by (subst scan_lines.simps) (simp add: first_line_append whole_line_def Let_def)

lemma scan_unlines: "\<forall>l \<in> set ls. whole_line l \<Longrightarrow> scan_lines MaxLine (unlines ls) = (ls, True)"
proof (induction ls)
  case Nil
  then show ?case by (subst scan_lines.simps) simp
next
  case (Cons l ls)
  then show ?case by (simp add: scan_line)
qed

lemma unlines_Nil_iff [simp]: "unlines ls = [] \<longleftrightarrow> ls = []"
  by (cases ls) auto

lemma unlines_last: "ls \<noteq> [] \<Longrightarrow> last (unlines ls) = newline \<and> unlines ls \<noteq> []"
  by (cases ls rule: rev_cases) simp_all

section \<open>Chains\<close>

text \<open>A line that may follow \<open>n\<close> lines the last of which has digest \<open>p\<close>; its own digest is \<open>h\<close>.\<close>

definition good_line :: "(bytes \<Rightarrow> bytes) \<Rightarrow> nat \<Rightarrow> string \<Rightarrow> string \<Rightarrow> string \<Rightarrow> bool" where
  "good_line sha n p raw h \<longleftrightarrow>
     raw \<noteq> [] \<and> h \<noteq> [] \<and> digestOfLine sha raw h = h \<and>
     (\<exists>e. unmarshal raw = Some e \<and> get_int e ''seq'' = int (Suc n) \<and> get_str e ''prev'' = p \<and> get_str e ''hash'' = h)"

inductive chained :: "(bytes \<Rightarrow> bytes) \<Rightarrow> nat \<Rightarrow> string \<Rightarrow> string list \<Rightarrow> nat \<Rightarrow> string \<Rightarrow> bool" for sha where
  chained_Nil: "chained sha n p [] n p"
| chained_Cons: "good_line sha n p raw h \<Longrightarrow> chained sha (Suc n) h ls m q \<Longrightarrow> chained sha n p (raw # ls) m q"

inductive_simps chained_Nil_iff [simp]: "chained sha n p [] m q"
inductive_simps chained_Cons_iff: "chained sha n p (raw # ls) m q"

lemma chained_append: "chained sha n p (ls @ ms) m q \<longleftrightarrow> (\<exists>k r. chained sha n p ls k r \<and> chained sha k r ms m q)"
  by (induction ls arbitrary: n p) (auto simp: chained_Cons_iff)

lemma chained_count: "chained sha n p ls m q \<Longrightarrow> m = n + length ls"
  by (induction rule: chained.induct) auto

lemma good_line_unique: "good_line sha n p raw h \<Longrightarrow> good_line sha n' p' raw h' \<Longrightarrow> h = h' \<and> p = p' \<and> n = n'"
  by (auto simp: good_line_def)

lemma chained_fun: "chained sha n p ls m q \<Longrightarrow> chained sha n p ls m' q' \<Longrightarrow> m = m' \<and> q = q'"
proof (induction arbitrary: m' q' rule: chained.induct)
  case (chained_Cons n p raw h ls m q)
  from chained_Cons.prems obtain h' where "good_line sha n p raw h'" "chained sha (Suc n) h' ls m' q'"
    by (auto simp: chained_Cons_iff)
  moreover from this(1) have "h' = h" using good_line_unique chained_Cons.hyps(1) by blast
  ultimately show ?case using chained_Cons.IH by blast
qed simp

lemma chained_head: "chained sha n p ls m q \<Longrightarrow> ls \<noteq> [] \<Longrightarrow> q \<noteq> []"
proof (induction rule: chained.induct)
  case (chained_Cons n p raw h ls m q)
  then show ?case by (cases ls) (auto simp: good_line_def)
qed simp

lemma verify_chained: "chained sha n p ls m q \<Longrightarrow> verify_lines sha ls True n p n = (m, q, None)"
  by (induction rule: chained.induct) (auto simp: good_line_def Let_def)

lemma catch_chained: "chained sha n p ls m q \<Longrightarrow> catch_lines sha ls True (int n) p = Inr (int m, q)"
  by (induction rule: chained.induct) (auto simp: good_line_def Let_def add.commute)

lemma verify_chained_only:
  "verify_lines sha ls ok n p n = (m, q, None) \<Longrightarrow> [] \<notin> set ls \<Longrightarrow> ok \<and> chained sha n p ls m q"
proof (induction ls arbitrary: n p)
  case (Cons raw ls)
  then obtain e where e: "unmarshal raw = Some e" by (auto split: option.splits)
  let ?h = "get_str e ''hash''"
  have g: "good_line sha n p raw ?h" "verify_lines sha ls ok (Suc n) ?h (Suc n) = (m, q, None)"
    using Cons.prems e by (auto simp: good_line_def Let_def split: if_splits)
  then show ?case using Cons.IH[OF g(2)] Cons.prems(2) by (auto intro: chained_Cons)
qed (auto split: if_splits)

lemma catch_chained_only:
  "catch_lines sha ls ok (int n) p = Inr (s, q) \<Longrightarrow> [] \<notin> set ls \<Longrightarrow> ok \<and> (\<exists>m. s = int m \<and> chained sha n p ls m q)"
proof (induction ls arbitrary: n p)
  case (Cons raw ls)
  then obtain e where e: "unmarshal raw = Some e" by (auto split: option.splits)
  let ?h = "get_str e ''hash''"
  have "catch_lines sha ls ok (get_int e ''seq'') ?h = Inr (s, q)" "good_line sha n p raw ?h" "get_int e ''seq'' = int (Suc n)"
    using Cons.prems e by (auto simp: good_line_def Let_def split: if_splits)
  then have g: "good_line sha n p raw ?h" "catch_lines sha ls ok (int (Suc n)) ?h = Inr (s, q)" by simp_all
  then show ?case using Cons.IH[OF g(2)] Cons.prems(2) by (auto intro: chained_Cons)
qed (auto split: if_splits)

section \<open>The line an append writes\<close>

definition digest32 :: "(bytes \<Rightarrow> bytes) \<Rightarrow> bool" where
  "digest32 sha \<longleftrightarrow> (\<forall>x. length (sha x) = 32)"

lemma plain_hex: "d < 16 \<Longrightarrow> plain_char (hex_char d)"
  by (auto simp: plain_char_def hex_char_def)

lemma hexEncode_plain: "list_all plain_char (hexEncode b)"
proof (induction b)
  case (Cons c b)
  have "byte c div 16 < 16" by (rule less_mult_imp_div_less) (use byte_less[of c] in simp)
  moreover have "byte c mod 16 < 16" by simp
  ultimately show ?case using Cons by (simp add: hexEncode_def plain_hex)
qed (simp add: hexEncode_def)

lemma hexEncode_length: "length (hexEncode b) = 2 * length b"
  by (induction b) (simp_all add: hexEncode_def)

lemma plain_valid: "list_all plain_char s \<Longrightarrow> to_valid s = s"
  by (induction s) (auto dest: plain_esc)

text \<open>A digest, or the empty string before the first event.\<close>

definition link :: "string \<Rightarrow> bool" where
  "link p \<longleftrightarrow> list_all plain_char p \<and> length p \<le> 64"

lemma link_digest: "digest32 sha \<Longrightarrow> link (hashOf sha e) \<and> hashOf sha e \<noteq> [] \<and> length (hashOf sha e) = 64"
proof -
  assume "digest32 sha"
  then have l: "length (hashOf sha e) = 64" by (simp add: hashOf_def hexEncode_length digest32_def)
  moreover have "list_all plain_char (hashOf sha e)" unfolding hashOf_def by (rule hexEncode_plain)
  ultimately show ?thesis by (auto simp: link_def)
qed

lemma header_struct:
  "(''v'', KInt, False) \<in> set event_struct" "(''seq'', KInt, False) \<in> set event_struct"
  "(''ts'', KStr, False) \<in> set event_struct" "(''sandbox'', KStr, False) \<in> set event_struct"
  "(''type'', KStr, False) \<in> set event_struct" "(''source'', KStr, False) \<in> set event_struct"
  "(''prev'', KStr, False) \<in> set event_struct" "(''hash'', KStr, False) \<in> set event_struct"
  by (simp_all add: event_struct_def event_header_def)

lemma marshal_hash_length:
  assumes "event_ok e" and "e ''hash'' = FStr []" and "list_all plain_char h"
  shows "length (marshal (e(''hash'' := FStr h))) = length (marshal e) + length h"
proof -
  have ok: "event_ok (e(''hash'' := FStr h))" by (rule event_ok_hash[OF assms(1)])
  have esc: "escape [] = []" by (subst escape.simps) simp
  show ?thesis
    using marshal_split[of e] marshal_split[of "e(''hash'' := FStr h)"] assms ok esc
    by (simp add: event_ok_def get_str_def escape_plain)
qed

lemma written_line:
  assumes sha: "digest32 sha" and ok: "event_ok e" and hash: "e ''hash'' = FStr []"
    and len: "int (length (marshal e)) \<le> lineBudget"
    and seq: "e ''seq'' = FInt (int (Suc n))" and prev: "e ''prev'' = FStr p" and p: "link p"
  shows "good_line sha n p (marshal (e(''hash'' := FStr (hashOf sha e)))) (hashOf sha e) \<and>
    whole_line (marshal (e(''hash'' := FStr (hashOf sha e))))"
proof -
  let ?h = "hashOf sha e"
  let ?e = "e(''hash'' := FStr ?h)"
  have h: "link ?h" "?h \<noteq> []" "length ?h = 64" using link_digest[OF sha] by auto
  have ok': "event_ok ?e" by (rule event_ok_hash[OF ok])
  have u: "unmarshal (marshal ?e) = Some (norm_event ?e)" by (rule unmarshal_marshal[OF ok'])
  have n: "norm_event ?e ''seq'' = FInt (int (Suc n))" "norm_event ?e ''prev'' = FStr p" "norm_event ?e ''hash'' = FStr ?h"
    using header_struct seq prev p h(1)
    by (auto simp: norm_event_def link_def plain_valid image_iff)
  have d: "digestOfLine sha (marshal ?e) ?h = ?h" using digestOfLine_written[OF ok, of ?h sha] h(1) by (simp add: link_def)
  have "length (marshal ?e) = length (marshal e) + 64"
    using marshal_hash_length[OF ok hash, of ?h] h by (simp add: link_def)
  then have "length (marshal ?e) < MaxLine" using len by (simp add: lineBudget_def clipMargin_def)
  then have "whole_line (marshal ?e)" using printable_marshal[OF ok'] printable_whole by blast
  moreover have "marshal ?e \<noteq> []" by (simp add: marshal_def)
  ultimately show ?thesis using u n d h by (auto simp: good_line_def get_int_def get_str_def)
qed

end
