(* ===== verification/Recorder_Session.thy ===== *)
theory Recorder_Session
  imports Recorder_File
begin

text \<open>
  A session written by any number of recorders: the file is always a chain of whole lines and, at
  most, one torn line after which nothing is written; and what a recorder writes once it failed.
\<close>

section \<open>Well-typed events\<close>

lemma event_ok_put: "event_ok e \<Longrightarrow> kind_of_val v = kind_at k \<Longrightarrow> val_ok v \<Longrightarrow> event_ok (e(k := v))"
  by (auto simp: event_ok_def typed_def)

lemma zero_ok: "event_ok zeroEvent"
proof -
  have "itoa 0 = ''0''" by (simp add: itoa_def digits.simps[of 0] digit_char_def char_of_eq_iff)
  then have "is_num ''0''" using itoa_is_num[of 0] by simp
  moreover have "float_ok ''0''" by (simp add: float_ok_def num_minus_def is_digit_def digit_val_def)
  ultimately have "kind_of_val (zero_val t) = t \<and> val_ok (zero_val t)" for t by (cases t) (auto simp: in_int64_def)
  then show ?thesis by (simp add: event_ok_def typed_def zeroEvent_def)
qed

section \<open>The event that is written\<close>

lemma stamp_ok: "event_ok e \<Longrightarrow> in_int64 (rc_seq r + 1) \<Longrightarrow> event_ok (stamp i r e)"
  using header_struct[THEN kind_at_struct] by (auto simp: event_ok_def typed_def stamp_def in_int64_def)

lemma stamp_fields:
  "stamp i r e ''v'' = FInt 1" "stamp i r e ''seq'' = FInt (rc_seq r + 1)" "stamp i r e ''prev'' = FStr (rc_prev r)"
  "stamp i r e ''hash'' = FStr []" "stamp i r e ''type'' = e ''type''"
  by (simp_all add: stamp_def)

lemma short_string_kept:
  assumes "fitUnderMaxLine e = Inr e'" and "(k, KStr, om) \<in> set event_struct" and "e k = FStr s" and "length s \<le> 64"
  shows "e' k = FStr s"
proof -
  obtain c where "e' = fst (clipToBudget e c)" using fit_accepts[OF assms(1)] by metis
  then show ?thesis using clip_string[OF assms(2), of e s c] assms(3) assms(4) by (auto simp: clipNoteBytes_def)
qed

lemma fit_event:
  assumes "fitUnderMaxLine e = Inr e'" and "event_ok e"
  shows "event_ok e' \<and> int (length (marshal e')) \<le> lineBudget \<and> e' ''seq'' = e ''seq''"
proof -
  obtain c where c: "e' = fst (clipToBudget e c)" "int (length (marshal e')) \<le> lineBudget"
    using fit_accepts[OF assms(1)] by metis
  then show ?thesis using clipToBudget_ok[OF assms(2)] clip_other[of "''seq''" e c] header_struct[THEN kind_at_struct]
    by simp
qed

section \<open>The file and what a recorder knows of it\<close>

definition written :: "(bytes \<Rightarrow> bytes) \<Rightarrow> event \<Rightarrow> string" where
  "written sha e = marshal (e(''hash'' := FStr (hashOf sha e)))"

text \<open>A line some recorder wrote whole.\<close>

definition record_line :: "(bytes \<Rightarrow> bytes) \<Rightarrow> string \<Rightarrow> bool" where
  "record_line sha l \<longleftrightarrow> whole_line l \<and> (\<exists>e. event_ok e \<and> e ''hash'' = FStr [] \<and> l = written sha e)"

definition file_ok :: "(bytes \<Rightarrow> bytes) \<Rightarrow> disk \<Rightarrow> string list \<Rightarrow> string \<Rightarrow> bool" where
  "file_ok sha d ls t \<longleftrightarrow>
     dk_chain d = unlines ls @ t \<and> newline \<notin> set t \<and> (\<forall>l \<in> set ls. record_line sha l) \<and>
     (\<exists>q. chained sha 0 [] ls (length ls) q)"

definition knows :: "(bytes \<Rightarrow> bytes) \<Rightarrow> string list \<Rightarrow> recorder \<Rightarrow> bool" where
  "knows sha ls r \<longleftrightarrow>
     (\<exists>a b. ls = a @ b \<and> rc_off r = length (unlines a) \<and> rc_seq r = int (length a) \<and> chained sha 0 [] a (length a) (rc_prev r))"

lemma knows_more: "knows sha ls r \<Longrightarrow> knows sha (ls @ ms) r"
  unfolding knows_def by (metis append.assoc)

lemma knows_fields:
  "rc_seq s = rc_seq r \<Longrightarrow> rc_prev s = rc_prev r \<Longrightarrow> rc_off s = rc_off r \<Longrightarrow> knows sha ls s = knows sha ls r"
  by (simp add: knows_def)

lemma chained_link: "chained sha n p ls m q \<Longrightarrow> digest32 sha \<Longrightarrow> link p \<Longrightarrow> link q"
proof (induction rule: chained.induct)
  case (chained_Cons n p raw h ls m q)
  have "h = digestOfLine sha raw h" using chained_Cons.hyps(1) by (simp add: good_line_def)
  then obtain b where "h = hexEncode (sha b)" by (simp add: digestOfLine_def)
  then have "link h" using chained_Cons.prems(1) hexEncode_plain by (simp add: link_def hexEncode_length digest32_def)
  then show ?case using chained_Cons by simp
qed simp

lemma link_Nil: "link []"
  by (simp add: link_def)

text \<open>Everything but the position in the chain.\<close>

definition same_latch :: "recorder \<Rightarrow> recorder \<Rightarrow> bool" where
  "same_latch r s \<longleftrightarrow> rc_failure s = rc_failure r \<and> rc_failedAt s = rc_failedAt r \<and> rc_epitaph s = rc_epitaph r \<and>
     rc_broken s = rc_broken r \<and> rc_sandbox s = rc_sandbox r \<and> rc_started s = rc_started r"

lemma same_latch_refl [simp]: "same_latch r r"
  by (simp add: same_latch_def)

lemma catchUp_ok:
  assumes f: "file_ok sha d ls t" and k: "knows sha ls r" and c: "catchUp sha i r d = Inr s"
  shows "t = [] \<and> rc_off s = length (unlines ls) \<and> rc_seq s = int (length ls) \<and>
    chained sha 0 [] ls (length ls) (rc_prev s) \<and> same_latch r s"
proof -
  from f have fl: "dk_chain d = unlines ls @ t" "newline \<notin> set t" "\<forall>l \<in> set ls. whole_line l"
    by (auto simp: file_ok_def record_line_def)
  from f obtain q where q: "chained sha 0 [] ls (length ls) q" by (auto simp: file_ok_def)
  show ?thesis
  proof (cases "length (dk_chain d) = rc_off r")
    case True
    with c have "s = r" by (auto simp: catchUp_def Let_def split: if_splits)
    moreover from k obtain a b where "ls = a @ b" "rc_off r = length (unlines a)" "rc_seq r = int (length a)"
      "chained sha 0 [] a (length a) (rc_prev r)" by (auto simp: knows_def)
    moreover from this True fl have "unlines b = []" "t = []" by auto
    ultimately show ?thesis by simp
  next
    case False
    have "t = []"
    proof (rule ccontr)
      assume t: "t \<noteq> []"
      then have "last (dk_chain d) \<noteq> newline" using fl(1,2) last_in_set[OF t] by (metis last_appendR t)
      then show False using c False t fl(1) by (auto simp: catchUp_def Let_def split: if_splits)
    qed
    then have "catchUp sha i r d = Inr (r\<lparr>rc_seq := int (length ls), rc_prev := q, rc_off := length (unlines ls)\<rparr>)"
      using c False fl scan_unlines[OF fl(3)] catch_chained[OF q]
      by (auto simp: catchUp_def Let_def split: if_splits)
    then show ?thesis using c q \<open>t = []\<close> by (auto simp: same_latch_def)
  qed
qed

lemma catchUp_latch: "catchUp sha i r d = Inr s \<Longrightarrow> same_latch r s"
  by (auto simp: catchUp_def Let_def same_latch_def split: if_splits prod.splits sum.splits)

section \<open>One append\<close>

lemma written_extends:
  assumes "digest32 sha" and "file_ok sha d ls []" and "chained sha 0 [] ls (length ls) (rc_prev s)"
    and "rc_seq s = int (length ls)" and "event_ok e" and "int (length ls) + 1 < 2 ^ 63"
    and "fitUnderMaxLine (stamp i s e) = Inr e'"
  shows "event_ok e' \<and> chained sha 0 [] (ls @ [written sha e']) (Suc (length ls)) (hashOf sha e') \<and> record_line sha (written sha e')"
proof -
  have l: "link (rc_prev s)" using chained_link[OF assms(3,1) link_Nil] .
  have ok: "event_ok (stamp i s e)" using assms(4,5,6) by (intro stamp_ok) (auto simp: in_int64_def)
  note fe = fit_event[OF assms(7) ok]
  have p: "e' ''prev'' = FStr (rc_prev s)" "e' ''hash'' = FStr []"
    using short_string_kept[OF assms(7) header_struct(7) stamp_fields(3)] l
      short_string_kept[OF assms(7) header_struct(8) stamp_fields(4)] by (auto simp: link_def)
  have "e' ''seq'' = FInt (int (Suc (length ls)))" using fe assms(4) by (simp add: stamp_fields)
  from written_line[OF assms(1) _ p(2) _ this p(1) l] fe
  have "good_line sha (length ls) (rc_prev s) (written sha e') (hashOf sha e') \<and> whole_line (written sha e')"
    by (simp add: written_def)
  then show ?thesis using assms(3) fe p(2) by (auto simp: chained_append chained_Cons_iff record_line_def)
qed

text \<open>
  The outcome of \<open>appendLocked\<close>: the file stays a chain with at most one torn line, it grows by at
  most the one line of the stamped event, and it does grow when the call succeeds.
\<close>

lemma file_grows:
  assumes "file_ok sha d ls []" and "chained sha 0 [] (ls @ [l]) (Suc (length ls)) h" and "record_line sha l"
  shows "file_ok sha (d\<lparr>dk_chain := dk_chain d @ l @ [newline]\<rparr>) (ls @ [l]) []"
  using assms by (auto simp: file_ok_def)

lemma file_torn:
  assumes "file_ok sha d ls []" and "chained sha 0 [] (ls @ [l]) (Suc (length ls)) h" and "record_line sha l"
  shows "\<exists>ms u. file_ok sha (d\<lparr>dk_chain := dk_chain d @ take n (l @ [newline])\<rparr>) (ls @ ms) u \<and>
    set ms \<subseteq> {l} \<and> length ms \<le> 1 \<and> (n = 0 \<longrightarrow> ms = [] \<and> u = [])"
proof (cases "n \<le> length l")
  case True
  then have "newline \<notin> set (take n l)" using assms(3) by (auto simp: record_line_def whole_line_def dest: in_set_takeD)
  then have "file_ok sha (d\<lparr>dk_chain := dk_chain d @ take n (l @ [newline])\<rparr>) (ls @ []) (take n l)"
    using True assms(1) by (auto simp: file_ok_def)
  then show ?thesis by (intro exI[of _ "[]"] exI[of _ "take n l"]) auto
next
  case False
  then have "file_ok sha (d\<lparr>dk_chain := dk_chain d @ take n (l @ [newline])\<rparr>) (ls @ [l]) []"
    using file_grows[OF assms] by simp
  then show ?thesis using False by (intro exI[of _ "[l]"] exI[of _ "[]"]) auto
qed

lemma anchor_write_chain:
  "anchor_write i r ts d = (s, d') \<Longrightarrow> dk_chain d' = dk_chain d \<and> same_latch r s \<and> rc_seq s = rc_seq r \<and>
    rc_prev s = rc_prev r \<and> rc_off s = rc_off r"
  by (auto simp: anchor_write_def same_latch_def split: if_splits)

lemma file_ok_chain: "dk_chain d = dk_chain d' \<Longrightarrow> file_ok sha d ls t = file_ok sha d' ls t"
  by (simp add: file_ok_def)

definition stamped :: "(bytes \<Rightarrow> bytes) \<Rightarrow> event \<Rightarrow> string \<Rightarrow> bool" where
  "stamped sha e l \<longleftrightarrow> (\<exists>i s e'. fitUnderMaxLine (stamp i s e) = Inr e' \<and> event_ok e' \<and> l = written sha e')"

lemma appendLocked_outcome:
  assumes sha: "digest32 sha" and f: "file_ok sha d ls t" and k: "knows sha ls r" and e: "event_ok e"
    and n: "int (length ls) + 1 < 2 ^ 63" and a: "appendLocked sha i e r d = (err, s, d')"
  shows "\<exists>ms u. file_ok sha d' (ls @ ms) u \<and> knows sha (ls @ ms) s \<and> same_latch r s \<and> length ms \<le> 1 \<and>
    (\<forall>l \<in> set ms. stamped sha e l) \<and> (err = None \<longrightarrow> t = [] \<and> u = [] \<and> length ms = 1) \<and>
    (io_write i = None \<or> io_write i = Some 0 \<longrightarrow> u = t \<and> (err \<noteq> None \<longrightarrow> ms = []))"
proof (cases "\<exists>s0. io_lock i \<and> catchUp sha i r d = Inr s0 \<and> (\<exists>e'. fitUnderMaxLine (stamp i s0 e) = Inr e')")
  case False
  have "d' = d \<and> knows sha ls s \<and> same_latch r s \<and> err \<noteq> None"
  proof (cases "\<exists>s0. io_lock i \<and> catchUp sha i r d = Inr s0")
    case True
    then obtain s0 where s0: "io_lock i" "catchUp sha i r d = Inr s0" by blast
    with False obtain x where "fitUnderMaxLine (stamp i s0 e) = Inl x" by (cases "fitUnderMaxLine (stamp i s0 e)") auto
    then have "s = s0" "d' = d" "err \<noteq> None" using a s0 by (auto simp: appendLocked_def)
    moreover have "knows sha ls s0" using catchUp_ok[OF f k s0(2)] unfolding knows_def by (metis append_Nil2)
    ultimately show ?thesis using catchUp_ok[OF f k s0(2)] by simp
  next
    case False
    then show ?thesis using a k by (auto simp: appendLocked_def split: if_splits sum.splits)
  qed
  then show ?thesis using f by (intro exI[of _ "[]"] exI[of _ t]) auto
next
  case True
  then obtain s0 e' where s0: "io_lock i" "catchUp sha i r d = Inr s0" "fitUnderMaxLine (stamp i s0 e) = Inr e'" by blast
  note c = catchUp_ok[OF f k s0(2)]
  have f0: "file_ok sha d ls []" and t: "t = []" using f c by auto
  from written_extends[OF sha f0 _ _ e n s0(3)] c
  have w: "event_ok e'" "chained sha 0 [] (ls @ [written sha e']) (Suc (length ls)) (hashOf sha e')" "record_line sha (written sha e')"
    by auto
  have st: "stamped sha e (written sha e')" using s0(3) w(1) by (auto simp: stamped_def)
  show ?thesis
  proof (cases "io_write i")
    case (Some m)
    then have s: "s = s0" "err \<noteq> None" "d' = d\<lparr>dk_chain := dk_chain d @ take m (written sha e' @ [newline])\<rparr>"
      using a s0 by (auto simp: appendLocked_def Let_def written_def)
    obtain ms u where mu: "file_ok sha d' (ls @ ms) u" "set ms \<subseteq> {written sha e'}" "length ms \<le> 1" "m = 0 \<longrightarrow> ms = [] \<and> u = []"
      using file_torn[OF f0 w(2,3), of m] s(3) by auto
    have "knows sha ls s0" using c unfolding knows_def by (metis append_Nil2)
    then have "knows sha (ls @ ms) s0" by (rule knows_more)
    then show ?thesis using mu s c t st Some by (intro exI[of _ ms] exI[of _ u]) auto
  next
    case None
    let ?s = "s0\<lparr>rc_seq := rc_seq s0 + 1, rc_prev := hashOf sha e', rc_off := rc_off s0 + length (written sha e' @ [newline])\<rparr>"
    let ?d = "d\<lparr>dk_chain := dk_chain d @ written sha e' @ [newline]\<rparr>"
    have aw: "anchor_write i ?s (get_str e' ''ts'') ?d = (s, d')" and err: "err = None"
      using a s0 None by (auto simp: appendLocked_def Let_def written_def split: prod.splits)
    note an = anchor_write_chain[OF aw]
    have "file_ok sha d' (ls @ [written sha e']) []" using file_grows[OF f0 w(2,3)] an file_ok_chain[of d' ?d] by simp
    moreover have "knows sha (ls @ [written sha e']) s"
      unfolding knows_def using an c w(2) by (intro exI[of _ "ls @ [written sha e']"] exI[of _ "[]"]) simp
    moreover have "same_latch r s" using an c by (auto simp: same_latch_def)
    ultimately show ?thesis using st err t by (intro exI[of _ "[written sha e']"] exI[of _ "[]"]) auto
  qed
qed

section \<open>The operations of a recorder\<close>

definition clock_ok :: "int \<Rightarrow> bool" where
  "clock_ok c \<longleftrightarrow> 0 \<le> c \<and> c < 2 ^ 62"

definition whole_write :: "io \<Rightarrow> bool" where
  "whole_write i \<longleftrightarrow> io_write i = None \<or> io_write i = Some 0"

lemma epitaph_ok: "clock_ok (io_clock i) \<Longrightarrow> clock_ok (rc_started r) \<Longrightarrow> event_ok (epitaph_event etext i r err)"
proof -
  have s: "(''reason'', KStr, True) \<in> set event_struct" "(''duration_ms'', KInt, True) \<in> set event_struct"
    by (simp_all only: struct_defs set_append set_simps Un_iff insert_iff prod.inject) simp_all
  show "clock_ok (io_clock i) \<Longrightarrow> clock_ok (rc_started r) \<Longrightarrow> ?thesis"
    using header_struct(5)[THEN kind_at_struct] s[THEN kind_at_struct] unfolding epitaph_event_def
    by (intro event_ok_put zero_ok) (auto simp: clock_ok_def in_int64_def)
qed

lemma writeEpitaph_outcome:
  assumes sha: "digest32 sha" and f: "file_ok sha d ls t" and k: "knows sha ls r"
    and c: "clock_ok (io_clock i)" "clock_ok (rc_started r)"
    and n: "int (length ls) + 1 < 2 ^ 63" and a: "writeEpitaph sha etext i x r d = (err, s, d')"
  shows "\<exists>ms u. file_ok sha d' (ls @ ms) u \<and> knows sha (ls @ ms) s \<and> length ms \<le> 1 \<and>
    (\<forall>l \<in> set ms. stamped sha (epitaph_event etext i r x) l) \<and> rc_failure s = rc_failure r \<and> rc_failedAt s = rc_failedAt r \<and>
    rc_started s = rc_started r \<and> (rc_epitaph r \<longrightarrow> s = r \<and> d' = d) \<and> (whole_write i \<longrightarrow> u = t)"
proof (cases "rc_epitaph r")
  case True
  then have "s = r" "d' = d" using a by (auto simp: writeEpitaph_def)
  then show ?thesis using f k by (intro exI[of _ "[]"] exI[of _ t]) simp
next
  case False
  obtain err0 s0 d0 where al: "appendLocked sha i (epitaph_event etext i r x) r d = (err0, s0, d0)"
    by (cases "appendLocked sha i (epitaph_event etext i r x) r d")
  then have s: "d' = d0" "s = (if err0 = None then s0\<lparr>rc_epitaph := True\<rparr> else s0)"
    using a False by (auto simp: writeEpitaph_def split: option.splits)
  from appendLocked_outcome[OF sha f k epitaph_ok[OF c] n al] obtain ms u where
    o: "file_ok sha d0 (ls @ ms) u" "knows sha (ls @ ms) s0" "same_latch r s0" "length ms \<le> 1"
      "\<forall>l \<in> set ms. stamped sha (epitaph_event etext i r x) l" "whole_write i \<longrightarrow> u = t"
    unfolding whole_write_def by blast
  have "knows sha (ls @ ms) s" using o(2) s(2) by (auto simp: knows_def)
  then show ?thesis using o s False by (intro exI[of _ ms] exI[of _ u]) (auto simp: same_latch_def)
qed

lemma append_event_outcome:
  assumes sha: "digest32 sha" and f: "file_ok sha d ls t" and k: "knows sha ls r" and e: "event_ok e"
    and c: "clock_ok (io_clock j)" "clock_ok (rc_started r)"
    and n: "int (length ls) + 2 < 2 ^ 63" and a: "append_event sha etext i j e r d = (err, s, d')"
  shows "\<exists>ms u. file_ok sha d' (ls @ ms) u \<and> knows sha (ls @ ms) s \<and> rc_started s = rc_started r \<and> length ms \<le> 2 \<and>
    (whole_write i \<and> whole_write j \<longrightarrow> u = t)"
proof (cases "rc_failure r")
  case (Some x)
  then have "s = r" "d' = d" using a by (auto simp: append_event_def)
  then show ?thesis using f k by (intro exI[of _ "[]"] exI[of _ t]) simp
next
  case None
  obtain err0 s0 d0 where al: "appendLocked sha i e r d = (err0, s0, d0)" by (cases "appendLocked sha i e r d")
  from appendLocked_outcome[OF sha f k e _ al] n obtain ms u where
    o: "file_ok sha d0 (ls @ ms) u" "knows sha (ls @ ms) s0" "same_latch r s0" "length ms \<le> 1" "whole_write i \<longrightarrow> u = t"
    unfolding whole_write_def by auto
  show ?thesis
  proof (cases err0)
    case None
    then have "s = s0" "d' = d0" using a al \<open>rc_failure r = None\<close> by (auto simp: append_event_def)
    then show ?thesis using o by (intro exI[of _ ms] exI[of _ u]) (auto simp: same_latch_def)
  next
    case (Some x)
    let ?r = "s0\<lparr>rc_failure := Some x, rc_failedAt := rc_seq s0 + 1, rc_broken := True\<rparr>"
    obtain err1 where w: "writeEpitaph sha etext j x ?r d0 = (err1, s, d')"
      using a al Some \<open>rc_failure r = None\<close> o(3)
      by (cases "writeEpitaph sha etext j x ?r d0") (auto simp: append_event_def failLocked_def same_latch_def)
    have "knows sha (ls @ ms) ?r" using o(2) by (simp add: knows_def)
    from writeEpitaph_outcome[OF sha o(1) this c(1) _ _ w] n o(3,4) c(2) obtain ns v where
      "file_ok sha d' ((ls @ ms) @ ns) v" "knows sha ((ls @ ms) @ ns) s" "rc_started s = rc_started r" "length ns \<le> 1"
      "whole_write j \<longrightarrow> v = u"
      by (auto simp: same_latch_def)
    then show ?thesis using o(4,5) by (intro exI[of _ "ms @ ns"] exI[of _ v]) auto
  qed
qed

section \<open>Sessions\<close>

text \<open>
  Processes open the session, append to it and, on the way out, try the epitaph again. An operation
  carries what the system does meanwhile; \<open>atomic\<close> restricts it to writes that write the whole
  line or nothing.
\<close>

datatype session_op =
    OpenSession string int
  | AppendBy nat io io event
  | EndBy nat io

fun op_ok :: "bool \<Rightarrow> session_op \<Rightarrow> bool" where
  "op_ok atomic (OpenSession sb started) = clock_ok started"
| "op_ok atomic (AppendBy n i j e) =
     (event_ok e \<and> clock_ok (io_clock j) \<and> (atomic \<longrightarrow> whole_write i \<and> whole_write j))"
| "op_ok atomic (EndBy n i) = (clock_ok (io_clock i) \<and> (atomic \<longrightarrow> whole_write i))"

fun do_op ::
  "(bytes \<Rightarrow> bytes) \<Rightarrow> (rec_error \<Rightarrow> string) \<Rightarrow> recorder list \<times> disk \<Rightarrow> session_op \<Rightarrow> recorder list \<times> disk" where
  "do_op sha etext (rs, d) (OpenSession sb started) = (rs @ [newRecorder sb started], d)"
| "do_op sha etext (rs, d) (AppendBy n i j e) =
     (if n < length rs
      then (case append_event sha etext i j e (rs ! n) d of (_, r, d) \<Rightarrow> (rs[n := r], d))
      else (rs, d))"
| "do_op sha etext (rs, d) (EndBy n i) =
     (if n < length rs
      then (case endBroken sha etext i (rs ! n) d of (_, r, d) \<Rightarrow> (rs[n := r], d))
      else (rs, d))"

definition session_step ::
  "(bytes \<Rightarrow> bytes) \<Rightarrow> (rec_error \<Rightarrow> string) \<Rightarrow> bool \<Rightarrow> recorder list \<times> disk \<Rightarrow> session_op \<Rightarrow> recorder list \<times> disk" where
  "session_step sha etext atomic s op = (if op_ok atomic op then do_op sha etext s op else s)"

definition session_good :: "(bytes \<Rightarrow> bytes) \<Rightarrow> bool \<Rightarrow> nat \<Rightarrow> recorder list \<times> disk \<Rightarrow> bool" where
  "session_good sha atomic n s \<longleftrightarrow>
     (\<exists>ls t. file_ok sha (snd s) ls t \<and> length ls \<le> 2 * n \<and> (atomic \<longrightarrow> t = []) \<and>
        (\<forall>r \<in> set (fst s). knows sha ls r \<and> clock_ok (rc_started r)))"

lemma knows_new: "knows sha ls (newRecorder sb started)"
  unfolding knows_def newRecorder_def by (intro exI[of _ "[]"] exI[of _ ls]) simp

lemma session_append:
  assumes "file_ok sha d ls t" and "\<forall>r \<in> set rs. knows sha ls r \<and> clock_ok (rc_started r)"
    and "file_ok sha d' (ls @ ms) u" and "knows sha (ls @ ms) r'" and "clock_ok (rc_started r')" and "atomic \<longrightarrow> u = []"
    and "length ls + length ms \<le> 2 * k"
  shows "session_good sha atomic k (rs[n := r'], d')"
  unfolding session_good_def
proof (intro exI conjI)
  show "file_ok sha (snd (rs[n := r'], d')) (ls @ ms) u" using assms(3) by simp
  show "\<forall>r \<in> set (fst (rs[n := r'], d')). knows sha (ls @ ms) r \<and> clock_ok (rc_started r)"
    using assms(2,4,5) knows_more by (auto dest!: set_update_subset_insert[THEN subsetD])
qed (use assms(6,7) in simp_all)

lemma session_more: "session_good sha atomic n s \<Longrightarrow> session_good sha atomic (Suc n) s"
  unfolding session_good_def by (metis le_SucI mult_Suc_right add_2_eq_Suc le_Suc_eq)

lemma do_op_good:
  assumes sha: "digest32 sha" and g: "session_good sha atomic m (rs, d)" and o: "op_ok atomic op"
    and b: "m < 2 ^ 60"
  shows "session_good sha atomic (Suc m) (do_op sha etext (rs, d) op)"
proof -
  obtain ls t where ls: "file_ok sha d ls t" "length ls \<le> 2 * m" "atomic \<longrightarrow> t = []" "\<forall>r \<in> set rs. knows sha ls r \<and> clock_ok (rc_started r)"
    using g by (auto simp: session_good_def)
  have n: "int (length ls) + 2 < 2 ^ 63" using ls(2) b by simp
  note g' = session_more[OF g]
  show ?thesis
  proof (cases op)
    case (OpenSession sb started)
    have "clock_ok (rc_started (newRecorder sb started))" using o OpenSession by (simp add: newRecorder_def)
    then show ?thesis using ls knows_new OpenSession unfolding session_good_def
      by (intro exI[of _ ls] exI[of _ t]) auto
  next
    case (AppendBy k i j e)
    show ?thesis
    proof (cases "k < length rs")
      case True
      obtain err r' d' where a: "append_event sha etext i j e (rs ! k) d = (err, r', d')"
        by (cases "append_event sha etext i j e (rs ! k) d")
      have kn: "knows sha ls (rs ! k)" "clock_ok (rc_started (rs ! k))" using ls(4) True by auto
      have e: "event_ok e" "clock_ok (io_clock j)" using o AppendBy by auto
      from append_event_outcome[OF sha ls(1) kn(1) e kn(2) n a] obtain ms u where
        "file_ok sha d' (ls @ ms) u" "knows sha (ls @ ms) r'" "rc_started r' = rc_started (rs ! k)" "length ms \<le> 2"
        "whole_write i \<and> whole_write j \<longrightarrow> u = t" by blast
      then show ?thesis using AppendBy True a o ls(2,3) kn(2) by (auto intro!: session_append[OF ls(1,4)])
    qed (use AppendBy g' in simp)
  next
    case (EndBy k i)
    show ?thesis
    proof (cases "k < length rs \<and> rc_failure (rs ! k) \<noteq> None \<and> \<not> rc_epitaph (rs ! k)")
      case True
      then obtain x where x: "rc_failure (rs ! k) = Some x" by auto
      obtain err r' d' where a: "writeEpitaph sha etext i x (rs ! k) d = (err, r', d')"
        by (cases "writeEpitaph sha etext i x (rs ! k) d")
      have kn: "knows sha ls (rs ! k)" "clock_ok (rc_started (rs ! k))" using ls(4) True by auto
      have e: "clock_ok (io_clock i)" using o EndBy by auto
      from writeEpitaph_outcome[OF sha ls(1) kn(1) e kn(2) _ a] n obtain ms u where
        "file_ok sha d' (ls @ ms) u" "knows sha (ls @ ms) r'" "rc_started r' = rc_started (rs ! k)" "length ms \<le> 1"
        "whole_write i \<longrightarrow> u = t" by auto
      then show ?thesis using EndBy True a x o ls(2,3) kn(2)
        by (auto simp: endBroken_def intro!: session_append[OF ls(1,4)])
    next
      case False
      then show ?thesis using EndBy g' by (auto simp: endBroken_def split: option.splits)
    qed
  qed
qed

text \<open>The number of operations so far travels with the session, as a bound on the sequence numbers.\<close>

definition counted_step ::
  "(bytes \<Rightarrow> bytes) \<Rightarrow> (rec_error \<Rightarrow> string) \<Rightarrow> bool \<Rightarrow> nat \<times> recorder list \<times> disk \<Rightarrow> session_op \<Rightarrow> nat \<times> recorder list \<times> disk" where
  "counted_step sha etext atomic ns op = (Suc (fst ns), session_step sha etext atomic (snd ns) op)"

definition counted_inv :: "(bytes \<Rightarrow> bytes) \<Rightarrow> bool \<Rightarrow> nat \<times> recorder list \<times> disk \<Rightarrow> bool" where
  "counted_inv sha atomic ns \<longleftrightarrow> (digest32 sha \<longrightarrow> fst ns \<le> 2 ^ 60 \<longrightarrow> session_good sha atomic (fst ns) (snd ns))"

interpretation sess: machine "counted_step sha etext atomic" "counted_inv sha atomic" for sha etext atomic
proof
  fix s op
  assume i: "counted_inv sha atomic s"
  obtain n rs d where s: "s = (n, rs, d)" by (cases s) auto
  show "counted_inv sha atomic (counted_step sha etext atomic s op)"
    using i do_op_good[of sha atomic n rs d op etext] session_more[of sha atomic n "(rs, d)"]
    by (auto simp: s counted_inv_def counted_step_def session_step_def)
qed

lemma counted_run:
  "foldl (counted_step sha etext atomic) (n, s) ops = (n + length ops, foldl (session_step sha etext atomic) s ops)"
  by (induction ops arbitrary: n s) (simp_all add: counted_step_def)

definition empty_session :: "recorder list \<times> disk" where
  "empty_session = ([], \<lparr>dk_chain = [], dk_head = None\<rparr>)"

lemma empty_session_inv: "counted_inv sha atomic (0, empty_session)"
  by (auto simp: counted_inv_def session_good_def empty_session_def file_ok_def intro!: exI[of _ "[]"])

lemma session_run:
  assumes "digest32 sha" and "foldl (session_step sha etext atomic) empty_session ops = (rs, d)"
    and "length ops \<le> 2 ^ 60"
  obtains ls t where "file_ok sha d ls t" and "atomic \<Longrightarrow> t = []" and "length ls \<le> 2 * length ops"
    and "\<forall>r \<in> set rs. knows sha ls r"
proof -
  have "counted_inv sha atomic (length ops, rs, d)"
    using sess.run_inv[where s = "(0, empty_session)", OF empty_session_inv, where sha = sha and etext = etext and atomic = atomic and ops = ops] by (simp add: counted_run assms(2))
  then show thesis using assms(1,3) that by (auto simp: counted_inv_def session_good_def)
qed

section \<open>Reading the record\<close>

lemma verify_file:
  assumes "file_ok sha d ls t"
  obtains q where "chained sha 0 [] ls (length ls) q" and "verify sha (unlines ls) = (length ls, q, None)"
proof -
  obtain q where q: "chained sha 0 [] ls (length ls) q" using assms by (auto simp: file_ok_def)
  have "verify sha (unlines ls) = (length ls, q, None)"
    using scan_unlines[of ls] assms verify_chained[OF q] by (simp add: verify_def file_ok_def record_line_def)
  with q show thesis by (rule that)
qed

lemma read_chained: "chained sha n p ls m q \<Longrightarrow> \<exists>es. read_lines ls True = (es, None) \<and> length es = length ls"
  by (induction rule: chained.induct) (auto simp: good_line_def)

lemma read_file:
  assumes "file_ok sha d ls t"
  shows "\<exists>es. readEvents (unlines ls) = (es, None) \<and> length es = length ls"
proof -
  obtain q where "chained sha 0 [] ls (length ls) q" using assms by (auto simp: file_ok_def)
  from read_chained[OF this] show ?thesis
    using scan_unlines[of ls] assms by (simp add: readEvents_def file_ok_def record_line_def)
qed

end
