(* ===== verification/Recorder_Tamper.thy ===== *)
theory Recorder_Tamper
  imports Recorder_Session
begin

text \<open>
  What the head of a record pins down: two files \<open>Verify\<close> accepts with the same head, one of
  them written by recorders, have the same lines, unless SHA-256 collides on two of the byte strings
  that were hashed. And how the anchor follows the chain.
\<close>

section \<open>Digests and their preimages\<close>

definition line_hash :: "string \<Rightarrow> string" where
  "line_hash raw = (case unmarshal raw of None \<Rightarrow> [] | Some e \<Rightarrow> get_str e ''hash'')"

text \<open>The byte string whose SHA-256 is a line's digest.\<close>

definition preimage :: "string \<Rightarrow> string" where
  "preimage raw = replace_first raw (hash_key @ line_hash raw @ [CHR 0x22]) (hash_key @ [CHR 0x22])"

lemma hex_char_inj: "a < 16 \<Longrightarrow> b < 16 \<Longrightarrow> hex_char a = hex_char b \<Longrightarrow> a = b"
  using hex_val_char by (metis option.inject)

lemma hexEncode_inj: "hexEncode a = hexEncode b \<Longrightarrow> a = b"
proof (induction a arbitrary: b)
  case Nil
  then show ?case by (cases b) (simp_all add: hexEncode_def)
next
  case (Cons c a)
  then obtain d b' where b: "b = d # b'" by (cases b) (simp_all add: hexEncode_def)
  have r: "byte x div 16 < 16" "byte x mod 16 < 16" for x
    using byte_less[of x] by (simp_all add: less_mult_imp_div_less)
  have e: "hex_char (byte c div 16) = hex_char (byte d div 16)" "hex_char (byte c mod 16) = hex_char (byte d mod 16)"
    "hexEncode a = hexEncode b'" using Cons.prems b by (simp_all add: hexEncode_def)
  have "byte c div 16 = byte d div 16" "byte c mod 16 = byte d mod 16"
    using hex_char_inj[OF r(1) r(1) e(1)] hex_char_inj[OF r(2) r(2) e(2)] by auto
  then have "byte c = byte d" by (metis div_mult_mod_eq)
  then show ?case using Cons.IH[OF e(3)] b byte_eq by simp
qed

section \<open>Links without sequence numbers\<close>

definition link_line :: "(bytes \<Rightarrow> bytes) \<Rightarrow> string \<Rightarrow> string \<Rightarrow> string \<Rightarrow> bool" where
  "link_line sha p raw h \<longleftrightarrow>
     raw \<noteq> [] \<and> h \<noteq> [] \<and> hexEncode (sha (preimage raw)) = h \<and> line_hash raw = h \<and>
     (\<exists>e. unmarshal raw = Some e \<and> get_str e ''prev'' = p)"

inductive linked :: "(bytes \<Rightarrow> bytes) \<Rightarrow> string \<Rightarrow> string list \<Rightarrow> string \<Rightarrow> bool" for sha where
  linked_Nil: "linked sha p [] p"
| linked_Cons: "link_line sha p raw h \<Longrightarrow> linked sha h ls q \<Longrightarrow> linked sha p (raw # ls) q"

inductive_simps linked_Nil_iff [simp]: "linked sha p [] q"
inductive_simps linked_Cons_iff: "linked sha p (raw # ls) q"

lemma linked_append: "linked sha p (ls @ ms) q \<longleftrightarrow> (\<exists>r. linked sha p ls r \<and> linked sha r ms q)"
  by (induction ls arbitrary: p) (auto simp: linked_Cons_iff)

lemma linked_head: "linked sha p ls q \<Longrightarrow> ls \<noteq> [] \<Longrightarrow> q \<noteq> []"
proof (induction rule: linked.induct)
  case (linked_Cons p raw h ls q)
  then show ?case by (cases ls) (auto simp: link_line_def)
qed simp

lemma good_link: "good_line sha n p raw h \<Longrightarrow> link_line sha p raw h"
  by (auto simp: good_line_def link_line_def line_hash_def preimage_def digestOfLine_def)

lemma chained_linked: "chained sha n p ls m q \<Longrightarrow> linked sha p ls q"
  by (induction rule: chained.induct) (auto intro: linked.intros good_link)

lemma verify_linked:
  "verify_lines sha ls ok line p n = (m, q, None) \<Longrightarrow> linked sha p (filter (\<lambda>l. l \<noteq> []) ls) q"
proof (induction ls arbitrary: line p n)
  case (Cons raw ls)
  show ?case
  proof (cases "raw = []")
    case True
    then show ?thesis using Cons by (auto simp: Let_def)
  next
    case False
    then obtain e where e: "unmarshal raw = Some e" using Cons.prems by (auto simp: Let_def split: option.splits)
    let ?h = "get_str e ''hash''"
    have "link_line sha p raw ?h" "verify_lines sha ls ok (Suc line) ?h (Suc n) = (m, q, None)"
      using Cons.prems e False
      by (auto simp: link_line_def line_hash_def preimage_def digestOfLine_def Let_def split: if_splits)
    then show ?thesis using Cons.IH False by (auto intro: linked_Cons)
  qed
qed (auto split: if_splits)

section \<open>Equal heads\<close>

lemma norm_event_at: "(k, t, om) \<in> set event_struct \<Longrightarrow> norm_event e k = norm_val (e k)"
  by (force simp: norm_event_def)

lemma record_line_preimage:
  assumes "record_line sha l"
  obtains e where "event_ok e" and "l = written sha e" and "line_hash l = hashOf sha e"
    and "preimage l = marshal (e(''hash'' := FStr []))"
proof -
  obtain e where e: "event_ok e" "l = written sha e" using assms by (auto simp: record_line_def)
  have p: "list_all plain_char (hashOf sha e)" unfolding hashOf_def by (rule hexEncode_plain)
  have u: "unmarshal l = Some (norm_event (e(''hash'' := FStr (hashOf sha e))))"
    unfolding e(2) written_def by (rule unmarshal_marshal[OF event_ok_hash[OF e(1)]])
  have h: "line_hash l = hashOf sha e"
    using norm_event_at[OF header_struct(8), of "e(''hash'' := FStr (hashOf sha e))"] plain_valid[OF p]
    by (simp add: line_hash_def u get_str_def)
  have "preimage l = marshal (e(''hash'' := FStr []))"
    using preimage_written[OF e(1) p] by (simp add: preimage_def h) (simp add: e(2) written_def)
  with e h show thesis by (rule that)
qed

lemma same_digest_same_line:
  assumes "record_line sha l" and "link_line sha p l h" and "link_line sha r m h"
    and "inj_on sha {preimage l, preimage m}"
  shows "m = l"
proof -
  obtain e where e: "event_ok e" "l = written sha e" "line_hash l = hashOf sha e"
    "preimage l = marshal (e(''hash'' := FStr []))" using record_line_preimage[OF assms(1)] by blast
  have hm: "line_hash m = h" "line_hash l = h" "h \<noteq> []" using assms(2,3) by (auto simp: link_line_def)
  have "hexEncode (sha (preimage l)) = hexEncode (sha (preimage m))" using assms(2,3) by (simp add: link_line_def)
  then have "sha (preimage l) = sha (preimage m)" by (rule hexEncode_inj)
  then have "preimage l = preimage m" by (rule inj_onD[OF assms(4)]) simp_all
  then have "replace_first m (hash_key @ h @ [CHR 0x22]) (hash_key @ [CHR 0x22]) = marshal (e(''hash'' := FStr []))"
    using e(4) hm by (simp add: preimage_def)
  from preimage_unique[OF e(1) this] show ?thesis
  proof
    assume m: "m = front e @ hash_key @ h @ CHR 0x22 # rear e"
    have p: "list_all plain_char (hashOf sha e)" unfolding hashOf_def by (rule hexEncode_plain)
    have "l = front e @ hash_key @ escape (hashOf sha e) @ CHR 0x22 # rear e"
      using marshal_split[of "e(''hash'' := FStr (hashOf sha e))"] event_ok_hash[OF e(1)]
      by (simp add: e(2) written_def event_ok_def get_str_def)
    then show ?thesis using m escape_plain[OF p] e(3) hm by simp
  next
    assume m: "m = marshal (e(''hash'' := FStr []))"
    have "unmarshal m = Some (norm_event (e(''hash'' := FStr [])))"
      unfolding m by (rule unmarshal_marshal[OF event_ok_hash[OF e(1)]])
    then have "line_hash m = []"
      using norm_event_at[OF header_struct(8), of "e(''hash'' := FStr [])"] by (simp add: line_hash_def get_str_def)
    then show ?thesis using hm by simp
  qed
qed

lemma same_head_same_lines:
  assumes "\<forall>l \<in> set ls. record_line sha l" and "linked sha [] ls q" and "linked sha [] ms q"
    and "inj_on sha (preimage ` (set ls \<union> set ms))"
  shows "ms = ls"
  using assms
proof (induction ls arbitrary: ms q rule: rev_induct)
  case Nil
  then show ?case using linked_head[of sha "[]" ms q] by auto
next
  case (snoc l ls)
  from snoc.prems(2) obtain r where r: "linked sha [] ls r" "link_line sha r l q"
    by (auto simp: linked_append linked_Cons_iff)
  then have "ms \<noteq> []" using snoc.prems(3) by (auto simp: link_line_def)
  then obtain ns m where ms: "ms = ns @ [m]" by (cases ms rule: rev_cases) auto
  from snoc.prems(3) obtain s where s: "linked sha [] ns s" "link_line sha s m q"
    by (auto simp: ms linked_append linked_Cons_iff)
  have "m = l"
  proof (rule same_digest_same_line[OF _ r(2) s(2)])
    show "record_line sha l" using snoc.prems(1) by simp
    show "inj_on sha {preimage l, preimage m}" by (rule inj_on_subset[OF snoc.prems(4)]) (auto simp: ms)
  qed
  moreover from this have "s = r" using r(2) s(2) by (auto simp: link_line_def)
  moreover have "ns = ls"
  proof (rule snoc.IH)
    show "\<forall>l \<in> set ls. record_line sha l" using snoc.prems(1) by simp
    show "linked sha [] ls r" by (rule r(1))
    show "linked sha [] ns r" using s(1) \<open>s = r\<close> by simp
    show "inj_on sha (preimage ` (set ls \<union> set ns))" by (rule inj_on_subset[OF snoc.prems(4)]) (auto simp: ms)
  qed
  ultimately show ?case by (simp add: ms)
qed

section \<open>The anchor\<close>

lemma head_keys:
  "to_valid ''v'' = ''v''" "to_valid ''seq'' = ''seq''" "to_valid ''hash'' = ''hash''" "to_valid ''ts'' = ''ts''"
  by simp_all

lemma head_parse_bytes:
  assumes "in_int64 (hd_Seq h)"
  shows "head_parse (head_bytes h) =
    Some \<lparr>hd_V = 1, hd_Sandbox = to_valid (hd_Sandbox h), hd_Seq = hd_Seq h, hd_Hash = to_valid (hd_Hash h),
      hd_TS = to_valid (hd_TS h)\<rparr>"
proof -
  have "fits (Suc 0) (head_json (h\<lparr>hd_V := 1\<rparr>))"
    by (auto simp: head_json_def opt_str_def itoa_is_num)
  from fits_mono[OF this, of maxNestingDepth] have "json_parse (head_bytes h) = Some (norm (head_json (h\<lparr>hd_V := 1\<rparr>)))"
    unfolding head_bytes_def by (intro json_parse_render) (simp add: maxNestingDepth_def)
  moreover have "in_int64 1" by (simp add: in_int64_def)
  ultimately show ?thesis using assms
    by (auto simp: head_parse_def head_json_def opt_str_def head_keys to_valid_keys field_for_def set_head_def decode_int_itoa)
qed

lemma trim_line: "l \<noteq> [] \<Longrightarrow> newline \<notin> set l \<Longrightarrow> trim_newlines (x @ l @ [newline]) = x @ l"
  by (cases l rule: rev_cases) (auto simp: trim_newlines_def)

lemma last_line:
  assumes "newline \<notin> set l"
  shows "takeWhile (\<lambda>c. c \<noteq> newline) (rev (unlines ls @ l)) = rev l"
proof -
  have t: "takeWhile P (xs @ ys) = xs @ takeWhile P ys" if "\<forall>x \<in> set xs. P x" for P and xs ys :: "'a list"
    using that by (induction xs) auto
  have "takeWhile (\<lambda>c. c \<noteq> newline) (rev (unlines ls)) = []" by (cases ls rule: rev_cases) auto
  moreover have "\<forall>x \<in> set (rev l). x \<noteq> newline" using assms by auto
  ultimately show ?thesis using t[of "rev l" "\<lambda>c. c \<noteq> newline" "rev (unlines ls)"] by simp
qed

lemma prevOfHead_last:
  assumes "newline \<notin> set l" and "l \<noteq> []" and "unmarshal l = Some e"
  shows "prevOfHead (unlines (ls @ [l])) = get_str e ''prev''"
  using trim_line[OF assms(2,1), of "unlines ls"] last_line[OF assms(1), of ls] assms(2,3)
  by (simp add: prevOfHead_def)

end
