(* ===== verification/Recorder_Demo.thy ===== *)
theory Recorder_Demo
  imports Recorder_Tamper
begin

text \<open>
  A concrete first event, for the witnesses: only its header is set. Its content is the length of its
  header strings, its line is the header, and the recorder writes it as it is.
\<close>

section \<open>Events with a header only\<close>

lemma members_zero:
  assumes "\<And>k t om. (k, t, om) \<in> set fs \<Longrightarrow> om \<and> is_empty_val (e k)"
  shows "members_of fs e = []"
  using assms by (induction fs e rule: members_of.induct) auto

lemma payload_om: "list_all (\<lambda>f. snd (snd f)) payload"
  by (simp add: payload_def event_payload_run_def event_payload_policy_def)

lemma zero_empty: "is_empty_val (zero_val t)"
  by (cases t) auto

lemma payload_zero:
  assumes "\<And>k. k \<in> fst ` set payload \<Longrightarrow> e k = zeroEvent k"
  shows "members_of payload e = []"
proof (rule members_zero)
  fix k t om assume f: "(k, t, om) \<in> set payload"
  then have "e k = zeroEvent k" by (intro assms) force
  then show "om \<and> is_empty_val (e k)" using f payload_om by (auto simp: list_all_iff zeroEvent_def zero_empty)
qed

lemma sum_filters:
  assumes "distinct ks" and "\<And>c. c \<in> set cs \<Longrightarrow> key_of c \<notin> set ks \<Longrightarrow> f c = (0::nat)"
  shows "sum_list (map f cs) = (\<Sum>k\<leftarrow>ks. sum_list (map f (filter (\<lambda>c. key_of c = k) cs)))"
  using assms
proof (induction cs)
  case (Cons c cs)
  have "(\<Sum>k\<leftarrow>ks. sum_list (map f (filter (\<lambda>x. key_of x = k) (c # cs)))) =
      (\<Sum>k\<leftarrow>ks. (if key_of c = k then f c else 0) + sum_list (map f (filter (\<lambda>x. key_of x = k) cs)))"
    by (intro arg_cong[where f = sum_list] map_cong refl) simp
  also have "\<dots> = (\<Sum>k\<leftarrow>ks. if key_of c = k then f c else 0) + sum_list (map f cs)"
    using Cons by (simp add: sum_list_addf)
  also have "(\<Sum>k\<leftarrow>ks. if key_of c = k then f c else 0) = (if key_of c \<in> set ks then f c else 0)"
    using Cons.prems(1) by (induction ks) auto
  finally show ?case using Cons.prems(2)[of c] by auto
qed simp

lemma content_strings:
  assumes "distinct ks" and "\<And>k. k \<in> set ks \<Longrightarrow> \<exists>om. (k, KStr, om) \<in> set event_struct"
    and "\<And>k. k \<notin> set ks \<Longrightarrow> kind_at k \<notin> {KInt, KFloat, KBoolP, KIntP} \<Longrightarrow> e k = zeroEvent k"
  shows "content e = (\<Sum>k\<leftarrow>ks. length (get_str e k))"
proof -
  have z: "field_bytes e c = 0" if c: "c \<in> set (clippableFields e)" "key_of c \<notin> set ks" for c
  proof -
    have k: "kind_at (key_of c) = slice_kind c" by (rule clippable_kind[OF c(1)])
    then have "kind_at (key_of c) \<notin> {KInt, KFloat, KBoolP, KIntP}"
    proof (cases "c = ClipPorts")
      case False
      with k show ?thesis by (auto simp: slice_kind_def split: clippable.splits target.splits)
    qed (use k in \<open>simp add: slice_kind_def\<close>)
    then have "e (key_of c) = zero_val (slice_kind c)" using assms(3)[OF c(2)] k by (simp add: zeroEvent_def)
    then show ?thesis
    proof (cases c)
      case (ClipStr t)
      with \<open>e (key_of c) = zero_val (slice_kind c)\<close> show ?thesis
        by (cases t) (auto simp: slice_kind_def get_str_def)
    qed (simp_all add: slice_kind_def get_strs_def stringsBytes_def secretsBytes_def portsBytes_def agentsBytes_def storeKeysBytes_def)
  qed
  have "sum_list (map (field_bytes e) (filter (\<lambda>c. key_of c = k) (clippableFields e))) = length (get_str e k)"
    if "k \<in> set ks" for k
    using assms(2)[OF that] clippable_filter[of k _ e] by auto
  then have "(\<Sum>k\<leftarrow>ks. sum_list (map (field_bytes e) (filter (\<lambda>c. key_of c = k) (clippableFields e)))) =
      (\<Sum>k\<leftarrow>ks. length (get_str e k))"
    by (intro arg_cong[where f = sum_list] map_cong refl)
  then show ?thesis unfolding content_def using sum_filters[OF assms(1) z] by simp
qed

section \<open>The first event of a session\<close>

definition demo_sha :: "bytes \<Rightarrow> bytes" where
  "demo_sha x = replicate 32 CHR ''a''"

definition demo_io :: io where
  "demo_io = \<lparr>io_lock = True, io_stat = True, io_tail = True, io_write = None, io_head = True, io_remove = True,
     io_now = ''t'', io_clock = 5\<rparr>"

definition demo_recorder :: recorder where
  "demo_recorder = newRecorder ''box'' 0"

definition demo_disk :: disk where
  "demo_disk = \<lparr>dk_chain = [], dk_head = None\<rparr>"

definition demo_event :: event where
  "demo_event = stamp demo_io demo_recorder zeroEvent"

lemma demo_digest: "digest32 demo_sha"
  by (simp add: digest32_def demo_sha_def)

text \<open>The same with any recorder: what \<open>Append\<close> stamps on the empty event.\<close>

definition plain_recorder :: "recorder \<Rightarrow> bool" where
  "plain_recorder r \<longleftrightarrow> rc_sandbox r = ''box'' \<and> rc_seq r \<in> {0, 1} \<and> link (rc_prev r)"

lemma stamp_unfold:
  "rc_sandbox r = ''box'' \<Longrightarrow> stamp demo_io r zeroEvent =
     zeroEvent(''v'' := FInt 1, ''seq'' := FInt (rc_seq r + 1), ''ts'' := FStr ''t'', ''sandbox'' := FStr ''box'',
     ''source'' := FStr ''host'', ''prev'' := FStr (rc_prev r), ''hash'' := FStr [])"
proof -
  have "get_str zeroEvent ''source'' = []"
    using header_struct(6)[THEN kind_at_struct] by (simp add: get_str_def zeroEvent_def)
  then show "rc_sandbox r = ''box'' \<Longrightarrow> ?thesis" by (simp add: stamp_def demo_io_def)
qed

lemma stamp_zero_ok: "plain_recorder r \<Longrightarrow> event_ok (stamp demo_io r zeroEvent)"
  by (rule stamp_ok[OF zero_ok]) (auto simp: plain_recorder_def in_int64_def)

lemma stamp_content:
  assumes "rc_sandbox r = ''box''"
  shows "content (stamp demo_io r zeroEvent) = 8 + length (rc_prev r)"
proof -
  let ?e = "stamp demo_io r zeroEvent" and ?ks = "[''ts'', ''sandbox'', ''type'', ''source'', ''prev'', ''hash'']"
  have "content ?e = (\<Sum>k\<leftarrow>?ks. length (get_str ?e k))"
  proof (rule content_strings)
    fix k assume k: "k \<notin> set ?ks" "kind_at k \<notin> {KInt, KFloat, KBoolP, KIntP}"
    then have "k \<noteq> ''v''" "k \<noteq> ''seq''" using header_struct(1,2)[THEN kind_at_struct] by auto
    then show "?e k = zeroEvent k" using k(1) by (simp add: stamp_unfold[OF assms])
  qed (use header_struct in auto)
  moreover have "get_str zeroEvent ''type'' = []"
    using header_struct(5)[THEN kind_at_struct] by (simp add: get_str_def zeroEvent_def)
  ultimately show ?thesis by (simp add: stamp_unfold[OF assms] get_str_def)
qed

lemma stamp_marshal:
  assumes "plain_recorder r"
  shows "length (marshal (stamp demo_io r zeroEvent)) = 86 + length (rc_prev r)"
proof -
  let ?e = "stamp demo_io r zeroEvent"
  have b: "rc_sandbox r = ''box''" "list_all plain_char (rc_prev r)" "rc_seq r = 0 \<or> rc_seq r = 1"
    using assms by (auto simp: plain_recorder_def link_def)
  note u = stamp_unfold[OF b(1)]
  have p: "members_of payload ?e = []"
  proof (rule payload_zero)
    fix k assume k: "k \<in> fst ` set payload"
    have "list_all (\<lambda>f. fst f \<notin> {''v'', ''seq'', ''ts'', ''sandbox'', ''source'', ''prev'', ''hash''}) payload"
      by (simp add: payload_def event_payload_run_def event_payload_policy_def)
    then have "k \<notin> {''v'', ''seq'', ''ts'', ''sandbox'', ''source'', ''prev'', ''hash''}"
      using k by (auto simp only: list_all_iff image_iff)
    then show "?e k = zeroEvent k" by (simp add: u)
  qed
  have t: "zeroEvent ''type'' = FStr []" using header_struct(5)[THEN kind_at_struct] by (simp add: zeroEvent_def)
  have esc: "escape s = s" if "list_all plain_char s" for s using that by (rule escape_plain)
  have one: "itoa 1 = ''1''" "itoa 2 = ''2''"
    by (simp_all add: itoa_def digits.simps[of "Suc 0"] digits.simps[of 2] digit_char_def char_of_eq_iff)
  have seq: "length (itoa (rc_seq r + 1)) = 1" using b(3) one by auto
  have h: "members_of header7 ?e = [(''v'', JNum ''1''), (''seq'', JNum (itoa (rc_seq r + 1))), (''ts'', JStr ''t''),
      (''sandbox'', JStr ''box''), (''type'', JStr []), (''source'', JStr ''host''), (''prev'', JStr (rc_prev r))]"
    by (simp add: header7_def event_header_def u t one)
  have m: "length (member (k, JStr s)) = length k + length s + 5" if "list_all plain_char k" "list_all plain_char s" for k s
    using that by (simp add: member_def quote_str_def esc)
  have n: "length (member (k, JNum s)) = length k + length s + 3" if "list_all plain_char k" for k s
    using that by (simp add: member_def quote_str_def esc)
  have e0: "escape [] = []" by (subst escape.simps) simp
  have hk: "get_str ?e ''hash'' = []" by (simp add: u get_str_def)
  have "length (marshal ?e) = length (front ?e) + 10"
    using marshal_split[of ?e] stamp_zero_ok[OF assms] p by (simp add: event_ok_def hk e0 rear_def hash_key_def)
  also have "length (front ?e) = 76 + length (rc_prev r)"
    using b(2) seq by (simp add: front_def h m n plain_char_def)
  finally show ?thesis by simp
qed

lemma stamp_fit:
  assumes "plain_recorder r"
  shows "fitUnderMaxLine (stamp demo_io r zeroEvent) = Inr (stamp demo_io r zeroEvent)"
proof (rule fit_unchanged)
  have l: "rc_sandbox r = ''box''" "length (rc_prev r) \<le> 64" using assms by (auto simp: plain_recorder_def link_def)
  have "64 * int (length (clippableFields (stamp demo_io r zeroEvent))) \<le> 64 * (2 * 90 + 11)"
    using clippable_count[of "stamp demo_io r zeroEvent"] by (simp add: struct_defs)
  then show "int (content (stamp demo_io r zeroEvent)) \<le> content_budget (stamp demo_io r zeroEvent) lineBudget"
    using l by (simp add: stamp_content content_budget_def clipNoteBytes_def lineBudget_def MaxLine_def clipMargin_def Let_def)
  show "int (length (marshal (stamp demo_io r zeroEvent))) \<le> lineBudget"
    using l stamp_marshal[OF assms] by (simp add: lineBudget_def MaxLine_def clipMargin_def)
qed

lemma demo_plain: "plain_recorder demo_recorder"
  by (simp add: plain_recorder_def demo_recorder_def newRecorder_def link_def)

lemma demo_fit: "fitUnderMaxLine demo_event = Inr demo_event"
  unfolding demo_event_def by (rule stamp_fit[OF demo_plain])

definition demo_line :: string where
  "demo_line = written demo_sha demo_event"

lemma demo_file: "file_ok demo_sha demo_disk [] []"
  by (auto simp: file_ok_def demo_disk_def)

lemma demo_knows: "knows demo_sha [] demo_recorder"
  unfolding demo_recorder_def by (rule knows_new)

lemma demo_written:
  "chained demo_sha 0 [] [demo_line] 1 (hashOf demo_sha demo_event) \<and> record_line demo_sha demo_line"
proof -
  have "chained demo_sha 0 [] ([] @ [written demo_sha demo_event]) (Suc (length [])) (hashOf demo_sha demo_event) \<and>
    record_line demo_sha (written demo_sha demo_event)"
    using written_extends[OF demo_digest demo_file, of demo_recorder zeroEvent demo_io demo_event] demo_fit zero_ok
    by (simp add: demo_event_def demo_recorder_def newRecorder_def)
  then show ?thesis by (simp add: demo_line_def)
qed

text \<open>Any plain recorder that has read the whole file appends the empty event.\<close>

lemma plain_append:
  assumes "plain_recorder r" and "rc_off r = length (dk_chain d)"
  shows "\<exists>s d'. appendLocked demo_sha demo_io zeroEvent r d = (None, s, d')"
proof -
  have "catchUp demo_sha demo_io r d = Inr r" using assms(2) by (simp add: catchUp_def demo_io_def)
  moreover have "io_lock demo_io" "io_write demo_io = None" "io_head demo_io" by (simp_all add: demo_io_def)
  ultimately show ?thesis using stamp_fit[OF assms(1)] by (simp add: appendLocked_def anchor_write_def Let_def)
qed

text \<open>The session after its first event.\<close>

definition demo_disk1 :: disk where
  "demo_disk1 = \<lparr>dk_chain = unlines [demo_line], dk_head = None\<rparr>"

definition demo_recorder1 :: recorder where
  "demo_recorder1 = demo_recorder\<lparr>rc_seq := 1, rc_prev := hashOf demo_sha demo_event, rc_off := length (unlines [demo_line])\<rparr>"

lemma demo_file1: "file_ok demo_sha demo_disk1 [demo_line] []"
  using demo_written by (auto simp: file_ok_def demo_disk1_def)

lemma demo_knows1: "knows demo_sha [demo_line] demo_recorder1"
  unfolding knows_def using demo_written
  by (intro exI[of _ "[demo_line]"] exI[of _ "[]"]) (simp add: demo_recorder1_def)

lemma demo_plain1: "plain_recorder demo_recorder1"
proof -
  have "link (hashOf demo_sha demo_event)"
    using chained_link[OF conjunct1[OF demo_written] demo_digest link_Nil] .
  then show ?thesis by (simp add: plain_recorder_def demo_recorder1_def demo_recorder_def newRecorder_def)
qed

end
