(* ===== verification/Recorder_Properties.thy ===== *)
theory Recorder_Properties
  imports Recorder_Demo
begin

text \<open>
  The properties of the flight recorder: the record is a chain \<open>Verify\<close> accepts whatever runs and
  whatever strings the events hold, what a head pins down, when the latch and the anchor speak, and
  what clipping keeps, refuses and bounds.
\<close>

text \<open>
  C2. However many processes append to one session, however their appends fail or are cut short,
  and whatever bytes the events hold: the file is a sequence of whole lines that \<open>Verify\<close> accepts,
  event by event, and \<open>Read\<close> reads back, followed by at most one torn line; there is none unless a
  write was cut short, and once there is one no recorder appends anything.
\<close>

theorem record_verifies:
  assumes "digest32 sha" and "foldl (session_step sha etext atomic) empty_session ops = (rs, d)"
    and "length ops \<le> 2 ^ 60"
  shows "\<exists>ls t q. dk_chain d = unlines ls @ t \<and> newline \<notin> set t \<and> (atomic \<longrightarrow> t = []) \<and>
    verify sha (unlines ls) = (length ls, q, None) \<and>
    (\<exists>es. readEvents (unlines ls) = (es, None) \<and> length es = length ls) \<and>
    (\<forall>l \<in> set ls. record_line sha l) \<and>
    (\<forall>r \<in> set rs. \<forall>i s. catchUp sha i r d = Inr s \<longrightarrow> t = [] \<and> rc_seq s = int (length ls) \<and> rc_prev s = q)"
proof -
  obtain ls t where f: "file_ok sha d ls t" "atomic \<Longrightarrow> t = []" "\<forall>r \<in> set rs. knows sha ls r"
    using session_run[OF assms] by metis
  obtain q where q: "chained sha 0 [] ls (length ls) q" "verify sha (unlines ls) = (length ls, q, None)"
    using verify_file[OF f(1)] by metis
  have "t = [] \<and> rc_seq s = int (length ls) \<and> rc_prev s = q" if "r \<in> set rs" "catchUp sha i r d = Inr s" for r i s
    using catchUp_ok[OF f(1) _ that(2)] f(3) that(1) chained_fun[OF q(1)] by blast
  then show ?thesis using f q(2) read_file[OF f(1)] by (intro exI[of _ ls] exI[of _ t] exI[of _ q]) (auto simp: file_ok_def)
qed

theorem record_verifies_witness:
  "\<exists>rs d ls q. foldl (session_step demo_sha (\<lambda>_. []) True) empty_session
      [OpenSession ''box'' 0, AppendBy 0 demo_io demo_io zeroEvent] = (rs, d) \<and>
    dk_chain d = unlines ls \<and> verify demo_sha (dk_chain d) = (length ls, q, None)"
proof -
  obtain rs d where r: "foldl (session_step demo_sha (\<lambda>_. []) True) empty_session
      [OpenSession ''box'' 0, AppendBy 0 demo_io demo_io zeroEvent] = (rs, d)" by fastforce
  have "length [OpenSession ''box'' 0, AppendBy 0 demo_io demo_io zeroEvent] \<le> 2 ^ 60" by simp
  from record_verifies[OF demo_digest r this] obtain ls q where
    "dk_chain d = unlines ls" "verify demo_sha (unlines ls) = (length ls, q, None)" by auto
  then show ?thesis using r by metis
qed

text \<open>
  C7. The head pins the whole record down: if recorders wrote the lines of one file, any file that
  \<open>Verify\<close> accepts with the same head has the same lines (blank ones aside), unless SHA-256 has
  one value on two of the byte strings the two files make \<open>Verify\<close> hash.
\<close>

theorem tamper_evident:
  assumes "\<forall>l \<in> set ls. record_line sha l" and "verify sha (unlines ls) = (n, h, None)"
    and "verify sha f = (m, h, None)"
    and "inj_on sha (preimage ` (set ls \<union> set (filter (\<lambda>l. l \<noteq> []) (fst (scan_lines MaxLine f)))))"
  shows "filter (\<lambda>l. l \<noteq> []) (fst (scan_lines MaxLine f)) = ls"
proof (rule same_head_same_lines[OF assms(1) _ _ assms(4)])
  have "scan_lines MaxLine (unlines ls) = (ls, True)" using assms(1) by (intro scan_unlines) (simp add: record_line_def)
  then have v: "verify_lines sha ls True 0 [] 0 = (n, h, None)" using assms(2) by (simp add: verify_def)
  have "\<forall>l \<in> set ls. l \<noteq> []"
  proof
    fix l assume "l \<in> set ls"
    then obtain e where "l = written sha e" using assms(1) record_line_preimage by metis
    then show "l \<noteq> []" by (simp add: written_def marshal_def)
  qed
  then have "filter (\<lambda>l. l \<noteq> []) ls = ls" by (simp add: filter_id_conv)
  then show "linked sha [] ls h" using verify_linked[OF v] by simp
  show "linked sha [] (filter (\<lambda>l. l \<noteq> []) (fst (scan_lines MaxLine f))) h"
    using assms(3) verify_linked by (auto simp: verify_def split: prod.splits)
qed

theorem tamper_evident_witness:
  "filter (\<lambda>l. l \<noteq> []) (fst (scan_lines MaxLine (unlines [demo_line]))) = [demo_line]"
proof (rule tamper_evident[where sha = demo_sha])
  have w: "record_line demo_sha demo_line" using demo_written by simp
  then show "\<forall>l \<in> set [demo_line]. record_line demo_sha l" by simp
  have s: "scan_lines MaxLine (unlines [demo_line]) = ([demo_line], True)"
    by (rule scan_unlines) (use w in \<open>simp add: record_line_def\<close>)
  have "verify_lines demo_sha [demo_line] True 0 [] 0 = (1, hashOf demo_sha demo_event, None)"
    using verify_chained[OF conjunct1[OF demo_written]] by simp
  then show "verify demo_sha (unlines [demo_line]) = (1, hashOf demo_sha demo_event, None)"
    unfolding verify_def s by (simp only: prod.case)
  then show "verify demo_sha (unlines [demo_line]) = (1, hashOf demo_sha demo_event, None)" .
  show "inj_on demo_sha (preimage ` (set [demo_line] \<union>
      set (filter (\<lambda>l. l \<noteq> []) (fst (scan_lines MaxLine (unlines [demo_line]))))))"
    using s by (simp add: inj_on_def)
qed

text \<open>
  A recorder that failed stays failed: however it is used afterwards its failure is the first
  one, and every line that still reaches the file through it is a \<open>session.end\<close>.
\<close>

fun own_op :: "session_op \<Rightarrow> bool" where
  "own_op (OpenSession _ _) = False"
| "own_op (AppendBy n _ _ _) = (n = 0)"
| "own_op (EndBy n _) = (n = 0)"

definition is_end :: "string \<Rightarrow> bool" where
  "is_end l \<longleftrightarrow> (\<exists>e. unmarshal l = Some e \<and> get_str e ''type'' = ''session.end'')"

lemma stamped_epitaph: "stamped sha (epitaph_event etext i r x) l \<Longrightarrow> is_end l"
proof -
  assume "stamped sha (epitaph_event etext i r x) l"
  then obtain j s e where e: "fitUnderMaxLine (stamp j s (epitaph_event etext i r x)) = Inr e" "event_ok e" "l = written sha e"
    by (auto simp: stamped_def)
  have "stamp j s (epitaph_event etext i r x) ''type'' = FStr ''session.end''"
    by (simp add: stamp_fields(5)) (simp add: epitaph_event_def)
  from short_string_kept[OF e(1) header_struct(5) this] have t: "e ''type'' = FStr ''session.end''" by simp
  have "unmarshal l = Some (norm_event (e(''hash'' := FStr (hashOf sha e))))"
    unfolding e(3) written_def by (rule unmarshal_marshal[OF event_ok_hash[OF e(2)]])
  then show ?thesis using norm_event_at[OF header_struct(5), of "e(''hash'' := FStr (hashOf sha e))"] t
    by (simp add: is_end_def get_str_def)
qed

lemma failed_step:
  assumes "digest32 sha" and "file_ok sha d ls t" and "knows sha ls r" and "clock_ok (rc_started r)"
    and "rc_failure r = Some x" and "own_op op" and "int (length ls) + 1 < 2 ^ 63"
    and "session_step sha etext atomic ([r], d) op = (rs, d')"
  shows "\<exists>s ms u. rs = [s] \<and> file_ok sha d' (ls @ ms) u \<and> knows sha (ls @ ms) s \<and> rc_started s = rc_started r \<and>
    rc_failure s = Some x \<and> rc_failedAt s = rc_failedAt r \<and> length ms \<le> 1 \<and> (\<forall>l \<in> set ms. is_end l)"
proof (cases "\<exists>n i. op = EndBy n i \<and> op_ok atomic op \<and> \<not> rc_epitaph r")
  case True
  then obtain n i where op: "op = EndBy n i" "clock_ok (io_clock i)" "op_ok atomic op" "\<not> rc_epitaph r" by auto
  obtain err s d1 where w: "writeEpitaph sha etext i x r d = (err, s, d1)" by (cases "writeEpitaph sha etext i x r d")
  have res: "rs = [s]" "d' = d1" using assms(5,6,8) op w by (auto simp: session_step_def endBroken_def)
  from writeEpitaph_outcome[OF assms(1-3) op(2) assms(4,7) w] obtain ms u where
    "file_ok sha d1 (ls @ ms) u" "knows sha (ls @ ms) s" "length ms \<le> 1"
    "\<forall>l \<in> set ms. stamped sha (epitaph_event etext i r x) l" "rc_failure s = rc_failure r"
    "rc_failedAt s = rc_failedAt r" "rc_started s = rc_started r" by blast
  then show ?thesis using res assms(5) stamped_epitaph by (intro exI[of _ s] exI[of _ ms] exI[of _ u]) auto
next
  case False
  have "rs = [r] \<and> d' = d"
  proof (cases op)
    case (AppendBy n i j e)
    then show ?thesis using assms(5,6,8) by (auto simp: session_step_def append_event_def split: if_splits)
  next
    case (EndBy n i)
    then show ?thesis using assms(5,6,8) False by (auto simp: session_step_def endBroken_def split: if_splits)
  qed (use assms(6) in simp)
  then show ?thesis using assms by (intro exI[of _ r] exI[of _ "[]"] exI[of _ t]) auto
qed

theorem failed_stays_failed:
  assumes "digest32 sha" and "file_ok sha d ls t" and "knows sha ls r" and "clock_ok (rc_started r)"
    and "rc_failure r = Some x" and "\<forall>op \<in> set ops. own_op op" and "length ls + length ops < 2 ^ 62"
  shows "\<exists>s d' ms u. foldl (session_step sha etext atomic) ([r], d) ops = ([s], d') \<and> file_ok sha d' (ls @ ms) u \<and>
    failureOf s = failureOf r \<and> (\<forall>l \<in> set ms. is_end l)"
  using assms
proof (induction ops arbitrary: r d ls t)
  case Nil
  then show ?case by (intro exI[of _ r] exI[of _ d] exI[of _ "[]"] exI[of _ t]) simp
next
  case (Cons op ops)
  obtain rs d1 where st: "session_step sha etext atomic ([r], d) op = (rs, d1)" by fastforce
  have "int (length ls) + 1 < 2 ^ 63" using Cons.prems(7) by simp
  from failed_step[OF Cons.prems(1-5) _ this st] Cons.prems(6) obtain s ms u where s: "rs = [s]" "file_ok sha d1 (ls @ ms) u"
    "knows sha (ls @ ms) s" "rc_started s = rc_started r" "rc_failure s = Some x" "rc_failedAt s = rc_failedAt r"
    "length ms \<le> 1" "\<forall>l \<in> set ms. is_end l" by auto
  have "\<exists>s' d' ns v. foldl (session_step sha etext atomic) ([s], d1) ops = ([s'], d') \<and> file_ok sha d' ((ls @ ms) @ ns) v \<and>
      failureOf s' = failureOf s \<and> (\<forall>l \<in> set ns. is_end l)"
    using s Cons.prems by (intro Cons.IH) auto
  then obtain s' d' ns v where "foldl (session_step sha etext atomic) ([s], d1) ops = ([s'], d')"
    "file_ok sha d' ((ls @ ms) @ ns) v" "failureOf s' = failureOf s" "\<forall>l \<in> set ns. is_end l" by blast
  then show ?case using st s Cons.prems(5)
    by (intro exI[of _ s'] exI[of _ d'] exI[of _ "ms @ ns"] exI[of _ v]) (auto simp: failureOf_def)
qed

theorem failed_stays_failed_witness:
  "\<exists>s d' ms u. foldl (session_step demo_sha (\<lambda>_. []) False)
      ([demo_recorder\<lparr>rc_failure := Some CorruptEvent, rc_failedAt := 1\<rparr>], demo_disk)
      [AppendBy 0 demo_io demo_io zeroEvent, EndBy 0 demo_io] = ([s], d') \<and>
    file_ok demo_sha d' ([] @ ms) u \<and> failureOf s = failureOf (demo_recorder\<lparr>rc_failure := Some CorruptEvent, rc_failedAt := 1\<rparr>) \<and>
    (\<forall>l \<in> set ms. is_end l)"
  by (rule failed_stays_failed[where x = CorruptEvent, OF demo_digest demo_file])
    (use demo_knows in \<open>simp_all add: knows_def clock_ok_def demo_recorder_def newRecorder_def\<close>)

lemma append_success:
  assumes "appendLocked sha i e r d = (None, s, d')"
  obtains s0 e' where "catchUp sha i r d = Inr s0" and "fitUnderMaxLine (stamp i s0 e) = Inr e'"
    and "io_lock i" and "io_write i = None"
proof -
  have l: "io_lock i" using assms by (cases "io_lock i") (simp_all add: appendLocked_def)
  then obtain s0 where s0: "catchUp sha i r d = Inr s0"
    using assms by (cases "catchUp sha i r d") (simp_all add: appendLocked_def)
  then obtain e' where e': "fitUnderMaxLine (stamp i s0 e) = Inr e'"
    using assms l by (cases "fitUnderMaxLine (stamp i s0 e)") (simp_all add: appendLocked_def)
  have "io_write i = None" using assms l s0 e' by (cases "io_write i") (simp_all add: appendLocked_def Let_def)
  with s0 e' l show thesis by (rule that)
qed

lemma last_good:
  assumes "chained sha 0 [] ls n p" and "chained sha 0 [] (ls @ [l]) m q"
  shows "good_line sha n p l q"
proof -
  obtain k r where k: "chained sha 0 [] ls k r" "chained sha k r [l] m q" using assms(2) chained_append by blast
  have "k = n" "r = p" using chained_fun[OF assms(1) k(1)] by auto
  moreover obtain h where "good_line sha k r l h" "chained sha (Suc k) h [] m q" using k(2) chained_Cons_iff by blast
  moreover have "h = q" using calculation(4) by (cases rule: chained.cases) auto
  ultimately show ?thesis by simp
qed

text \<open>
  The anchor after an append: the one the append wrote matches the chain, the one it replaced is
  reported as one behind when the process died between the two writes, and neither is a mismatch.
\<close>

theorem anchor_follows:
  assumes "digest32 sha" and "file_ok sha d ls []" and "knows sha ls r" and "event_ok e" and "length ls < 2 ^ 62"
    and "ls \<noteq> []" and "appendLocked sha i e r d = (None, s, d')" and "io_head i"
    and "old = head_bytes \<lparr>hd_V = 1, hd_Sandbox = sb, hd_Seq = int (length ls), hd_Hash = fst (snd (verify sha (dk_chain d))), hd_TS = ts\<rparr>"
  shows "(\<exists>new q. verify sha (dk_chain d') = (Suc (length ls), q, None) \<and> dk_head d' = Some new \<and>
    (case checkAnchor (HeadBytes new) (int (Suc (length ls))) q (prevOfHead (dk_chain d')) of
       (rep, err) \<Rightarrow> ar_State rep = AnchorMatches \<and> \<not> err) \<and>
    (case checkAnchor (HeadBytes old) (int (Suc (length ls))) q (prevOfHead (dk_chain d')) of
       (rep, err) \<Rightarrow> ar_State rep = AnchorBehindByOne \<and> \<not> err))"
proof -
  have n: "int (length ls) + 1 < 2 ^ 63" using assms(5) by simp
  from appendLocked_outcome[OF assms(1-4) n assms(7)] obtain ms where
    m: "file_ok sha d' (ls @ ms) []" "length ms = 1" "knows sha (ls @ ms) s" by auto
  then obtain l where l: "ms = [l]" by (cases ms) auto
  note f' = m(1)[unfolded l]
  obtain p where p: "chained sha 0 [] ls (length ls) p" "verify sha (unlines ls) = (length ls, p, None)"
    using verify_file[OF assms(2)] by metis
  obtain q where q: "chained sha 0 [] (ls @ [l]) (length (ls @ [l])) q"
    "verify sha (unlines (ls @ [l])) = (length (ls @ [l]), q, None)" using verify_file[OF f'] by metis
  have g: "good_line sha (length ls) p l q"
    by (rule last_good[OF p(1) q(1)])
  then obtain ev where ev: "unmarshal l = Some ev" "get_str ev ''prev'' = p" "l \<noteq> []" by (auto simp: good_line_def)
  have chain: "dk_chain d = unlines ls" "dk_chain d' = unlines (ls @ [l])" using assms(2) f' by (simp_all add: file_ok_def)
  have "newline \<notin> set l" using f' by (simp add: file_ok_def record_line_def whole_line_def)
  then have poh: "prevOfHead (dk_chain d') = p" using prevOfHead_last ev chain by metis
  have links: "link p" "link q" "p \<noteq> []" "q \<noteq> []"
    using chained_link[OF p(1) assms(1) link_Nil] chained_link[OF q(1) assms(1) link_Nil]
      chained_head[OF p(1) assms(6)] chained_head[OF q(1)] by auto
  have i: "in_int64 (int (length ls))" "in_int64 (int (Suc (length ls)))" using n by (auto simp: in_int64_def)
  obtain s0 e' where s0: "catchUp sha i r d = Inr s0" "fitUnderMaxLine (stamp i s0 e) = Inr e'" "io_lock i" "io_write i = None"
    by (rule append_success[OF assms(7)])
  have seq: "rc_seq s0 = int (length ls)" using catchUp_ok[OF assms(2,3) s0(1)] by simp
  have new: "dk_head d' = Some (head_bytes \<lparr>hd_V = 0, hd_Sandbox = rc_sandbox s0, hd_Seq = int (Suc (length ls)),
      hd_Hash = hashOf sha e', hd_TS = get_str e' ''ts''\<rparr>)" and pr: "rc_prev s = hashOf sha e'"
    "dk_chain d' = dk_chain d @ written sha e' @ [newline]"
    using assms(7,8) s0 seq by (auto simp: appendLocked_def anchor_write_def Let_def written_def add.commute)
  have "l = written sha e'" using pr(2) chain by simp
  moreover have "record_line sha l" using f' by (simp add: file_ok_def)
  moreover have "event_ok (stamp i s0 e)" using stamp_ok[OF assms(4), of s0 i] seq i(2) by (simp add: add.commute)
  then have "event_ok e'" using fit_event[OF s0(2)] by simp
  then have "unmarshal (written sha e') = Some (norm_event (e'(''hash'' := FStr (hashOf sha e'))))"
    unfolding written_def by (intro unmarshal_marshal event_ok_hash)
  moreover have hp: "list_all plain_char (hashOf sha e')" unfolding hashOf_def by (rule hexEncode_plain)
  ultimately have "q = hashOf sha e'"
    using g norm_event_at[OF header_struct(8), of "e'(''hash'' := FStr (hashOf sha e'))"] plain_valid[OF hp]
    by (auto simp: good_line_def get_str_def)
  then have a: "checkAnchor (HeadBytes (head_bytes \<lparr>hd_V = 0, hd_Sandbox = rc_sandbox s0, hd_Seq = int (Suc (length ls)),
      hd_Hash = hashOf sha e', hd_TS = get_str e' ''ts''\<rparr>)) (int (Suc (length ls))) q p =
      (\<lparr>ar_State = AnchorMatches, ar_AnchorSeq = int (Suc (length ls)), ar_AnchorHash = q,
        ar_ChainSeq = int (Suc (length ls)), ar_ChainHead = q\<rparr>, False)"
    using i(2) plain_valid[OF hp] by (simp add: checkAnchor_def readAnchor_def head_parse_bytes)
  have "fst (snd (verify sha (dk_chain d))) = p" by (simp add: chain p(2))
  then have "checkAnchor (HeadBytes old) (int (Suc (length ls))) q p =
      (\<lparr>ar_State = AnchorBehindByOne, ar_AnchorSeq = int (length ls), ar_AnchorHash = p,
        ar_ChainSeq = int (Suc (length ls)), ar_ChainHead = q\<rparr>, False)"
    using i(1) plain_valid[of p] links by (simp add: checkAnchor_def readAnchor_def assms(9) head_parse_bytes link_def)
  then show ?thesis using new a q(2) poh chain(2) by simp
qed

theorem anchor_follows_witness:
  "\<exists>s d'. appendLocked demo_sha demo_io zeroEvent demo_recorder1 demo_disk1 = (None, s, d') \<and>
    (\<exists>new q. verify demo_sha (dk_chain d') = (Suc (length [demo_line]), q, None) \<and> dk_head d' = Some new \<and>
    (case checkAnchor (HeadBytes new) (int (Suc (length [demo_line]))) q (prevOfHead (dk_chain d')) of
       (rep, err) \<Rightarrow> ar_State rep = AnchorMatches \<and> \<not> err) \<and>
    (case checkAnchor (HeadBytes (head_bytes \<lparr>hd_V = 1, hd_Sandbox = ''box'', hd_Seq = int (length [demo_line]),
         hd_Hash = fst (snd (verify demo_sha (dk_chain demo_disk1))), hd_TS = ''t''\<rparr>))
       (int (Suc (length [demo_line]))) q (prevOfHead (dk_chain d')) of
       (rep, err) \<Rightarrow> ar_State rep = AnchorBehindByOne \<and> \<not> err))"
proof -
  have "rc_off demo_recorder1 = length (dk_chain demo_disk1)" by (simp add: demo_recorder1_def demo_disk1_def)
  from plain_append[OF demo_plain1 this] obtain s d' where a:
    "appendLocked demo_sha demo_io zeroEvent demo_recorder1 demo_disk1 = (None, s, d')" by blast
  have hd: "io_head demo_io" by (simp add: demo_io_def)
  have n: "length [demo_line] < 2 ^ 62" "[demo_line] \<noteq> []" by simp_all
  show ?thesis
    by (rule exI[of _ s], rule exI[of _ d'], rule conjI[OF a],
        rule anchor_follows[OF demo_digest demo_file1 demo_knows1 zero_ok n a hd refl])
qed

text \<open>
  \<open>capForBudget\<close> finds the water level: the ceilings it could have chosen within the budget are
  exactly those up to the one it returns, so what is kept is the most one ceiling allows.
\<close>

lemma level_mono: "c \<le> c' \<Longrightarrow> (\<Sum>n\<leftarrow>sizes. min (int n) c) \<le> (\<Sum>n\<leftarrow>sizes. min (int n) c')"
  by (induction sizes) auto

theorem water_level:
  assumes "0 \<le> b" and "b < int (sum_list sizes)"
  shows "(\<Sum>n\<leftarrow>sizes. min (int n) (int c)) \<le> b \<longleftrightarrow> c \<le> capForBudget sizes b"
proof
  assume "c \<le> capForBudget sizes b"
  then have "int c \<le> int (capForBudget sizes b)" by simp
  then show "(\<Sum>n\<leftarrow>sizes. min (int n) (int c)) \<le> b" using level_mono capForBudget_level[OF assms] order_trans by blast
next
  assume c: "(\<Sum>n\<leftarrow>sizes. min (int n) (int c)) \<le> b"
  show "c \<le> capForBudget sizes b"
  proof (rule ccontr)
    assume "\<not> ?thesis"
    then have "int (capForBudget sizes b) + 1 \<le> int c" by simp
    from level_mono[OF this, of sizes] show False using c capForBudget_level[OF assms] by simp
  qed
qed

theorem water_level_witness:
  "(\<Sum>n\<leftarrow>[100, 5, 40]. min (int n) (int 30)) \<le> 70 \<longleftrightarrow> 30 \<le> capForBudget [100, 5, 40] 70"
  by (rule water_level) simp_all

text \<open>
  What \<open>fitUnderMaxLine\<close> accepts fits the line with room for its digest, and it is the event
  it was given but for the fields that were cut: every string is whole or a prefix followed by the
  note of both lengths, and no number, boolean or exit code changes. An event that fits is not touched.
\<close>

theorem fit_safe:
  assumes "fitUnderMaxLine e = Inr e'"
  shows "length (marshal e') + 64 + clipMargin \<le> MaxLine \<and>
    (\<forall>k om s. (k, KStr, om) \<in> set event_struct \<longrightarrow> e k = FStr s \<longrightarrow> e' k = FStr s \<or>
       (\<exists>p q. s = p @ q \<and> e' k = FStr (p @ ''...(clipped from '' @ digits (length s) @ '' to '' @ digits (length p) @ '' bytes)''))) \<and>
    (\<forall>k. kind_at k \<in> {KInt, KFloat, KBoolP, KIntP} \<longrightarrow> e' k = e k) \<and>
    (int (content e) \<le> content_budget e lineBudget \<longrightarrow> int (length (marshal e)) \<le> lineBudget \<longrightarrow> e' = e)"
proof -
  obtain c where c: "e' = fst (clipToBudget e c)" "int (length (marshal e')) \<le> lineBudget" by (rule fit_accepts[OF assms])
  have l: "length (marshal e') + 64 + clipMargin \<le> MaxLine"
    using c(2) by (simp add: lineBudget_def MaxLine_def clipMargin_def)
  have s: "e' k = FStr s \<or>
      (\<exists>p q. s = p @ q \<and> e' k = FStr (p @ ''...(clipped from '' @ digits (length s) @ '' to '' @ digits (length p) @ '' bytes)''))"
    if k: "(k, KStr, om) \<in> set event_struct" "e k = FStr s" for k om s
  proof -
    consider "e' k = FStr s" | keep where "e' k = FStr (str_note s keep)"
      using clip_string[of k om e s c, OF k] c(1) by blast
    then show ?thesis
    proof cases
      case (2 keep)
      obtain n where "clipUTF8 s keep = take n s" using clipUTF8_prefix by blast
      then have "s = clipUTF8 s keep @ drop n s" by simp
      with 2 show ?thesis unfolding str_note_def Let_def by blast
    qed simp
  qed
  have o: "e' k = e k" if "kind_at k \<in> {KInt, KFloat, KBoolP, KIntP}" for k using clip_other[OF that] c(1) by simp
  have u: "e' = e" if "int (content e) \<le> content_budget e lineBudget" "int (length (marshal e)) \<le> lineBudget"
    using fit_unchanged[OF that] assms by simp
  show ?thesis using l s o u by blast
qed

theorem fit_safe_witness:
  "fitUnderMaxLine demo_event = Inr demo_event \<and> length (marshal demo_event) + 64 + clipMargin \<le> MaxLine"
  using fit_safe[OF demo_fit] demo_fit by blast

text \<open>
  An event whose content takes at most half of the budget is refused, and not clipped, when its
  escaped line is too long: the second pass sees nothing above half the budget and gives up. Two
  mebibytes of an angle bracket, a sixth of which fill a line once escaped, are such an event.
\<close>

theorem escaped_refused:
  assumes "int (content e) + 64 * int (length (clippableFields e)) \<le> lineBudget div 2"
    and "lineBudget < int (length (marshal e))"
  shows "fitUnderMaxLine e = Inl (NothingLeftToClip (get_int e ''seq'') (length (marshal e)))"
  using assms by (rule fit_refuses)

theorem escaped_refused_witness:
  "\<exists>n. fitUnderMaxLine (zeroEvent(''data'' := FStr (replicate (2 ^ 21) CHR ''<''))) = Inl (NothingLeftToClip 0 n)"
proof -
  let ?s = "replicate (2 ^ 21) CHR ''<''"
  let ?e = "zeroEvent(''data'' := FStr ?s)"
  have "length (clippableFields ?e) \<le> 191" using clippable_count[of ?e] by (simp add: struct_defs)
  moreover have "content ?e = 2 ^ 21" by (simp only: content_one[OF data_struct] length_replicate)
  ultimately have a: "int (content ?e) + 64 * int (length (clippableFields ?e)) \<le> lineBudget div 2"
    by (simp add: lineBudget_def MaxLine_def clipMargin_def)
  have "?s \<noteq> []" by (simp only: replicate_empty) simp
  from marshal_ge[of "''data''" True ?e ?s, OF data_struct _ this] have "length (escape ?s) \<le> length (marshal ?e)" by simp
  then have b: "lineBudget < int (length (marshal ?e))"
    unfolding escape_angle by (simp add: lineBudget_def MaxLine_def clipMargin_def)
  have "zeroEvent ''seq'' = FInt 0" using header_struct(2)[THEN kind_at_struct] by (simp add: zeroEvent_def)
  then have "get_int ?e ''seq'' = 0" by (simp add: get_int_def)
  with escaped_refused[OF a b] show ?thesis by (intro exI) simp
qed

text \<open>
  Appending and verifying accept the same files: on a file without blank lines a recorder that has
  not read it takes the chain up exactly where \<open>Verify\<close> accepts it, at the same length and head. A
  blank line before the first event breaks this: the recorder goes on, \<open>Verify\<close> reports a gap.
\<close>

lemma catchUp_reads:
  assumes "io_stat i" and "io_tail i" and "dk_chain d \<noteq> []" and "last (dk_chain d) = newline"
    and "rc_off r \<noteq> length (dk_chain d)"
  shows "catchUp sha i r d =
    (case catch_lines sha (fst (scan_lines MaxLine (dk_chain d))) (snd (scan_lines MaxLine (dk_chain d))) 0 [] of
       Inl err \<Rightarrow> Inl err
     | Inr (seq, prev) \<Rightarrow> Inr (r\<lparr>rc_seq := seq, rc_prev := prev, rc_off := length (dk_chain d)\<rparr>))"
  using assms by (simp add: catchUp_def Let_def split: prod.splits)

lemma scan_blank: "scan_lines MaxLine (newline # f) = (case scan_lines MaxLine f of (ls, ok) \<Rightarrow> ([] # ls, ok))"
  by (subst scan_lines.simps) (simp add: first_line_def MaxLine_def dropCR_def)

lemma lines_agree:
  assumes "[] \<notin> set ls"
  shows "verify_lines sha ls ok 0 [] 0 = (m, q, None) \<longleftrightarrow> catch_lines sha ls ok 0 [] = Inr (int m, q)"
proof
  assume "verify_lines sha ls ok 0 [] 0 = (m, q, None)"
  from verify_chained_only[OF this assms] show "catch_lines sha ls ok 0 [] = Inr (int m, q)"
    using catch_chained[of sha 0] by simp
next
  assume "catch_lines sha ls ok 0 [] = Inr (int m, q)"
  then have "catch_lines sha ls ok (int 0) [] = Inr (int m, q)" by simp
  from catch_chained_only[OF this assms] have "ok" "chained sha 0 [] ls m q" by auto
  then show "verify_lines sha ls ok 0 [] 0 = (m, q, None)" using verify_chained by simp
qed

lemma blank_refused:
  assumes "verify_lines sha ls ok 0 [] 0 = (m, q, None)" and "[] \<notin> set ls" and "ls \<noteq> []"
  shows "verify_lines sha ([] # ls) ok 0 [] 0 = (0, [], Some (GapAt 2 1))"
proof -
  obtain raw rest where ls: "ls = raw # rest" using assms(3) by (cases ls) auto
  have "chained sha 0 [] ls m q" using verify_chained_only[OF assms(1,2)] by simp
  then obtain h where "good_line sha 0 [] raw h" by (auto simp: ls chained_Cons_iff)
  then show ?thesis by (auto simp: ls good_line_def)
qed

theorem readers_agree:
  assumes "io_stat i" and "io_tail i" and "dk_chain d \<noteq> []" and "last (dk_chain d) = newline"
    and "rc_off r \<noteq> length (dk_chain d)" and "[] \<notin> set (fst (scan_lines MaxLine (dk_chain d)))"
  shows "verify sha (dk_chain d) = (m, q, None) \<longleftrightarrow>
    catchUp sha i r d = Inr (r\<lparr>rc_seq := int m, rc_prev := q, rc_off := length (dk_chain d)\<rparr>)"
proof -
  obtain ls ok where s: "scan_lines MaxLine (dk_chain d) = (ls, ok)" by fastforce
  have "[] \<notin> set ls" using assms(6) s by simp
  from lines_agree[OF this] show ?thesis
    by (auto simp: catchUp_reads[OF assms(1-5)] s verify_def split: sum.splits dest: arg_cong[where f = rc_seq] arg_cong[where f = rc_prev])
qed

theorem readers_agree_witness:
  "catchUp demo_sha demo_io demo_recorder demo_disk1 = Inr (demo_recorder\<lparr>rc_seq := int 1,
     rc_prev := hashOf demo_sha demo_event, rc_off := length (dk_chain demo_disk1)\<rparr>)"
proof -
  have c: "dk_chain demo_disk1 = demo_line @ [newline]" by (simp add: demo_disk1_def)
  have w: "record_line demo_sha demo_line" using demo_written by simp
  then have s: "scan_lines MaxLine (dk_chain demo_disk1) = ([demo_line], True)"
    unfolding demo_disk1_def by (simp only: disk.simps) (rule scan_unlines, simp add: record_line_def)
  have v: "verify demo_sha (dk_chain demo_disk1) = (1, hashOf demo_sha demo_event, None)"
    unfolding verify_def s prod.case using verify_chained[OF conjunct1[OF demo_written]] by simp
  have "demo_line \<noteq> []" by (simp add: demo_line_def written_def marshal_def)
  then have "[] \<notin> set (fst (scan_lines MaxLine (dk_chain demo_disk1)))" by (simp add: s)
  from readers_agree[OF _ _ _ _ _ this, of demo_io demo_recorder demo_sha 1] v c show ?thesis
    by (simp add: demo_io_def demo_recorder_def newRecorder_def)
qed

text \<open>
  A blank line at the start is where the two readers part: the recorder takes the chain up as if it
  were not there, \<open>Verify\<close> refuses the file as having a gap at its second line.
\<close>

theorem blank_line_parts_readers:
  assumes "io_stat i" and "io_tail i" and "dk_chain d = newline # f" and "rc_off r \<noteq> length (dk_chain d)"
    and "f \<noteq> []" and "last f = newline" and "[] \<notin> set (fst (scan_lines MaxLine f))" and "verify sha f = (Suc m, q, None)"
  shows "catchUp sha i r d = Inr (r\<lparr>rc_seq := int (Suc m), rc_prev := q, rc_off := length (dk_chain d)\<rparr>) \<and>
    verify sha (dk_chain d) = (0, [], Some (GapAt 2 1))"
proof -
  obtain ls ok where s: "scan_lines MaxLine f = (ls, ok)" by fastforce
  then have b: "scan_lines MaxLine (dk_chain d) = ([] # ls, ok)" by (simp add: assms(3) scan_blank)
  have v: "verify_lines sha ls ok 0 [] 0 = (Suc m, q, None)" using assms(8) s by (simp add: verify_def)
  have n: "[] \<notin> set ls" using assms(7) s by simp
  have "ls \<noteq> []" using v by (auto split: if_splits)
  from blank_refused[OF v n this] have g: "verify sha (dk_chain d) = (0, [], Some (GapAt 2 1))" unfolding verify_def b prod.case .
  have "catch_lines sha ls ok 0 [] = Inr (int (Suc m), q)" using lines_agree[OF n] v by simp
  then have "catch_lines sha ([] # ls) ok 0 [] = Inr (int (Suc m), q)" by simp
  moreover have l: "dk_chain d \<noteq> []" "last (dk_chain d) = newline" using assms(3,5,6) by simp_all
  ultimately have "catchUp sha i r d = Inr (r\<lparr>rc_seq := int (Suc m), rc_prev := q, rc_off := length (dk_chain d)\<rparr>)"
    by (simp only: catchUp_reads[OF assms(1,2) l assms(4)] b fst_conv snd_conv sum.case prod.case)
  with g show ?thesis by simp
qed

theorem blank_line_parts_readers_witness:
  "verify demo_sha (newline # demo_line @ [newline]) = (0, [], Some (GapAt 2 1))"
proof -
  let ?f = "demo_line @ [newline]"
  let ?d = "\<lparr>dk_chain = newline # ?f, dk_head = None\<rparr>"
  have w: "record_line demo_sha demo_line" using demo_written by simp
  have "scan_lines MaxLine (unlines [demo_line]) = ([demo_line], True)" by (rule scan_unlines) (use w in \<open>simp add: record_line_def\<close>)
  then have s: "scan_lines MaxLine ?f = ([demo_line], True)" by simp
  have v: "verify demo_sha ?f = (Suc 0, hashOf demo_sha demo_event, None)"
    unfolding verify_def s prod.case using verify_chained[OF conjunct1[OF demo_written]] by simp
  have "demo_line \<noteq> []" by (simp add: demo_line_def written_def marshal_def)
  then have "[] \<notin> set (fst (scan_lines MaxLine ?f))" by (simp add: s)
  from blank_line_parts_readers[OF _ _ _ _ _ _ this v, of demo_io ?d demo_recorder] show ?thesis
    by (simp add: demo_io_def demo_recorder_def newRecorder_def)
qed

text \<open>
  C40. Every event survives its line: what the encoder writes decodes to the same event, field for
  field, but for the bytes of its strings that are not UTF-8, which are replaced.
\<close>

theorem event_roundtrip:
  assumes "event_ok e"
  shows "\<exists>e'. unmarshal (marshal e) = Some e' \<and> typed e' \<and>
    (\<forall>(k, t, om) \<in> set event_struct. e' k = norm_val (e k) \<and>
      (t \<in> {KInt, KFloat, KBoolP, KIntP, KInts} \<longrightarrow> e' k = e k) \<and> (\<forall>s. e k = FStr s \<longrightarrow> e' k = FStr (to_valid s) \<and> (valid_utf8 s \<longrightarrow> e' k = e k)))"
proof -
  have n: "norm_event e k = norm_val (e k)" if "(k, t, om) \<in> set event_struct" for k t om
    using that by (simp add: norm_event_at)
  have t: "kind_of_val (e k) = kind_at k" for k using assms by (simp add: event_ok_def typed_def)
  have s: "norm_val (e k) = e k" if "kind_at k \<in> {KInt, KFloat, KBoolP, KIntP, KInts}" for k
    using t[of k] that by (cases "e k") auto
  have "kind_of_val (norm_val v) = kind_of_val v" for v by (cases v) auto
  moreover have "kind_of_val (zeroEvent k) = kind_at k" for k using zero_ok by (simp add: event_ok_def typed_def)
  ultimately have "typed (norm_event e)" using t by (auto simp: typed_def norm_event_def)
  moreover have "norm_event e k = norm_val (e k) \<and> (t \<in> {KInt, KFloat, KBoolP, KIntP, KInts} \<longrightarrow> norm_event e k = e k) \<and>
      (\<forall>s. e k = FStr s \<longrightarrow> norm_event e k = FStr (to_valid s) \<and> (valid_utf8 s \<longrightarrow> norm_event e k = e k))" if f: "(k, t, om) \<in> set event_struct" for k t om
    using n[OF f] s[of k] kind_at_struct[OF f] to_valid_id by simp
  ultimately show ?thesis using unmarshal_marshal[OF assms] by blast
qed

theorem event_roundtrip_witness:
  "\<exists>e'. unmarshal (marshal demo_event) = Some e' \<and> e' ''sandbox'' = FStr ''box'' \<and> e' ''seq'' = FInt 1"
proof -
  have "event_ok demo_event" unfolding demo_event_def by (rule stamp_zero_ok[OF demo_plain])
  from event_roundtrip[OF this] obtain e' where e': "unmarshal (marshal demo_event) = Some e'"
    "\<forall>(k, t, om) \<in> set event_struct. e' k = norm_val (demo_event k) \<and>
      (t \<in> {KInt, KFloat, KBoolP, KIntP, KInts} \<longrightarrow> e' k = demo_event k) \<and>
      (\<forall>s. demo_event k = FStr s \<longrightarrow> e' k = FStr (to_valid s) \<and> (valid_utf8 s \<longrightarrow> e' k = demo_event k))" by blast
  have d: "demo_event ''sandbox'' = FStr ''box''" "demo_event ''seq'' = FInt 1"
    unfolding demo_event_def stamp_def by (simp_all add: demo_recorder_def newRecorder_def)
  have "to_valid ''box'' = ''box''" by (rule plain_valid) (simp add: plain_char_def)
  then show ?thesis using e' d bspec[OF e'(2) header_struct(4)] bspec[OF e'(2) header_struct(2)] by auto
qed

text \<open>
  Every event is well typed, wherever it comes from: the constructors make one, decoding any bytes
  at all gives one or fails, and stamping and clipping keep it one.
\<close>

lemma decode_members_typed:
  "decode_members names set_field ms e = Some e' \<Longrightarrow> typed e \<Longrightarrow> typed e'"
proof (induction names set_field ms e rule: decode_members.induct)
  case (2 names k j ms e)
  show ?case
  proof (cases "field_for names k")
    case (Some f)
    then obtain b where b: "set_field f j e = Some b" using "2.prems"(1) by (cases "set_field f j e") auto
    then have "typed b" using "2.prems"(2) decode_val_kind by (auto simp: set_field_def typed_def)
    then show ?thesis using 2 Some b by simp
  qed (use 2 in simp)
qed simp

lemma zero_typed: "typed zeroEvent"
  using zero_ok by (simp add: event_ok_def)

theorem events_typed:
  shows "typed (newSessionPolicy agent p) \<and> typed (newTeamTopology f) \<and>
    (unmarshal b = Some e \<longrightarrow> typed e) \<and> (typed e \<longrightarrow> typed (stamp i r e)) \<and>
    (typed e \<longrightarrow> typed (withPosture e jailed profile)) \<and> (event_ok e \<longrightarrow> fitUnderMaxLine e = Inr e' \<longrightarrow> event_ok e')"
proof -
  have put: "typed e \<Longrightarrow> kind_of_val v = kind_at k \<Longrightarrow> typed (e(k := v))" for e k v by (auto simp: typed_def)
  have "typed (newSessionPolicy agent p)"
    unfolding newSessionPolicy_def by (intro put zero_typed) (simp_all only: kind_of_val.simps kinds)
  moreover have "typed (newTeamTopology f)"
    unfolding newTeamTopology_def by (intro put zero_typed) (simp_all add: kinds)
  moreover have "unmarshal b = Some e \<longrightarrow> typed e"
  proof
    assume u: "unmarshal b = Some e"
    then obtain j where j: "decode_obj (map fst event_struct) set_field j zeroEvent = Some e"
      by (auto simp: unmarshal_def split: option.splits)
    then show "typed e" using decode_members_typed zero_typed by (cases j) auto
  qed
  moreover have "typed e \<longrightarrow> typed (stamp i r e)"
    unfolding stamp_def by (intro impI put) (use header_struct[THEN kind_at_struct] in simp_all)
  moreover have "typed e \<longrightarrow> typed (withPosture e jailed profile)"
    unfolding withPosture_def by (intro impI put) (simp_all add: kinds)
  moreover have "event_ok e \<longrightarrow> fitUnderMaxLine e = Inr e' \<longrightarrow> event_ok e'" using fit_event by blast
  ultimately show ?thesis by blast
qed

theorem events_typed_witness:
  "typed demo_event \<and> event_ok demo_event"
proof -
  have "event_ok demo_event" unfolding demo_event_def by (rule stamp_zero_ok[OF demo_plain])
  then show ?thesis using events_typed[where e = zeroEvent and i = demo_io and r = demo_recorder] zero_typed
      events_typed[where e = demo_event and e' = demo_event] demo_fit demo_event_def by simp
qed

end
