(* ===== verification/Json_Local.thy ===== *)
theory Json_Local
  imports Json_Roundtrip
begin

text \<open>
  A value that the decoder of \<open>Json\<close> reads is read the same wherever its bytes stand: the bytes
  it takes do not depend on what follows them nor on how deep it is. This is what lets a rewritten
  line carry the raw bytes of a member (\<open>json.RawMessage\<close>) and still mean the same.
\<close>

section \<open>Strings\<close>

lemma cont_no_quote: "\<not> cont quote_char" "\<not> second_ok a quote_char"
  using second_cont[of a quote_char] by (auto simp: cont_def)

lemma tail_no_quote: "quote_char \<in> set t \<Longrightarrow> \<not> tail_ok a t"
  using tail_cont[of a t] cont_no_quote by (auto simp: list_all_iff)

text \<open>No encoding reaches over a quote.\<close>

lemma rune_len_quote: "rune_len (c # a @ quote_char # r) = rune_len (c # a @ [quote_char])"
proof (cases "lead_len c \<le> Suc (length a)")
  case True
  then show ?thesis by (auto simp: rune_len_def Let_def)
next
  case False
  then have "quote_char \<in> set (take (lead_len c - 1) (a @ quote_char # q))" for q
    by (auto simp: take_Cons' Suc_diff_le)
  then have "\<not> tail_ok c (take (lead_len c - 1) (a @ quote_char # q))" for q by (rule tail_no_quote)
  from this[of r] this[of "[]"] show ?thesis by (simp add: rune_len_def Let_def)
qed

lemma hex4_local: "hex4 s = Some (u, t) \<Longrightarrow> \<exists>p. s = p @ t \<and> length p = 4 \<and> (\<forall>t'. hex4 (p @ t') = Some (u, t'))"
proof (induction s rule: hex4.induct)
  case (1 a b c d t)
  then show ?case by (intro exI[of _ "[a, b, c, d]"]) (auto split: option.splits)
qed simp_all

lemma hex_val_quote: "hex_val quote_char = None"
  by (simp add: hex_val_def)

lemma hex4_quote: "length a < 4 \<Longrightarrow> hex4 (a @ quote_char # r) = None"
proof -
  assume "length a < 4"
  then consider "a = []" | x where "a = [x]" | x y where "a = [x, y]" | x y z where "a = [x, y, z]"
    by (cases a; cases "tl a"; cases "tl (tl a)"; cases "tl (tl (tl a))") auto
  then show ?thesis
  proof cases
    case 1
    then show ?thesis by (cases r; cases "tl r"; cases "tl (tl r)") (simp_all add: hex_val_quote)
  next
    case (2 x)
    then show ?thesis by (cases r; cases "tl r") (simp_all add: hex_val_quote split: option.split)
  next
    case (3 x y)
    then show ?thesis by (cases r) (simp_all add: hex_val_quote split: option.split)
  next
    case (4 x y z)
    then show ?thesis by (simp add: hex_val_quote split: option.split)
  qed
qed

lemma low_pair_local:
  "low_pair u s = Some (v, t) \<Longrightarrow> \<exists>p. s = p @ t \<and> length p = 6 \<and> (\<forall>t'. low_pair u (p @ t') = Some (v, t'))"
proof -
  assume a: "low_pair u s = Some (v, t)"
  then obtain b e q l where s: "s = b # e # q" "b = backslash" "e = CHR ''u''" "hex4 q = Some (l, t)"
    and c: "u < 0xDC00" "0xDC00 \<le> l" "l < 0xE000" "v = 0x10000 + (u - 0xD800) * 1024 + (l - 0xDC00)"
    by (auto simp: low_pair_def split: list.splits if_splits option.splits)
  obtain p where p: "q = p @ t" "length p = 4" "\<forall>t'. hex4 (p @ t') = Some (l, t')" using hex4_local[OF s(4)] by blast
  then show ?thesis using s c by (intro exI[of _ "b # e # p"]) (simp add: low_pair_def)
qed

text \<open>And no pair of surrogates reaches over a quote.\<close>

lemma low_pair_quote: "length a < 6 \<Longrightarrow> low_pair u (a @ quote_char # r) = None"
proof -
  assume n: "length a < 6"
  have q: "quote_char \<noteq> backslash" "quote_char \<noteq> CHR ''u''" by (simp_all add: quote_char_def backslash_def)
  show ?thesis
  proof (cases a)
    case Nil
    then show ?thesis using q by (simp add: low_pair_def split: list.split)
  next
    case (Cons x b)
    show ?thesis
    proof (cases b)
      case Nil
      then show ?thesis using q Cons by (simp add: low_pair_def)
    next
      case c: (Cons y d)
      then have "hex4 (d @ quote_char # r) = None" using n Cons by (intro hex4_quote) simp
      then show ?thesis using Cons c by (simp add: low_pair_def)
    qed
  qed
qed

lemma low_pair_none:
  assumes "low_pair u (a @ quote_char # r) = None"
  shows "low_pair u (a @ quote_char # r') = None"
proof (cases "low_pair u (a @ quote_char # r')")
  case (Some x)
  then obtain v t where x: "low_pair u (a @ quote_char # r') = Some (v, t)" by (cases x) auto
  obtain p where p: "a @ quote_char # r' = p @ t" "length p = 6" "\<forall>t'. low_pair u (p @ t') = Some (v, t')"
    using low_pair_local[OF x] by blast
  show ?thesis
  proof (cases "length a < 6")
    case True
    then show ?thesis by (rule low_pair_quote)
  next
    case False
    then have "take 6 (a @ quote_char # r') = take 6 a" "take 6 (p @ t) = p" using p(2) by simp_all
    then have "p = take 6 a" using p(1) by simp
    then have "a = p @ drop 6 a" by simp
    then have "low_pair u (a @ quote_char # r) = Some (v, drop 6 a @ quote_char # r)"
      using p(3) by (metis append.assoc)
    then show ?thesis using assms by simp
  qed
qed

lemma prepend_Some: "prepend x y = Some (z, r) \<longleftrightarrow> (\<exists>w. y = Some (w, r) \<and> z = x @ w)"
  by (auto simp: prepend_def)

lemma parse_str_local:
  "parse_str s = Some (x, r) \<Longrightarrow> \<exists>a. s = a @ quote_char # r \<and> (\<forall>r'. parse_str (a @ quote_char # r') = Some (x, r'))"
proof (induction s arbitrary: x r rule: parse_str.induct)
  case (1 s)
  obtain c t where s: "s = c # t" using "1.prems" by (cases s) (auto simp: parse_str.simps)
  consider (quote) "c = quote_char" | (esc) "c = backslash" "c \<noteq> quote_char"
    | (ascii) "c \<noteq> quote_char" "c \<noteq> backslash" "\<not> byte c < 32" "byte c < 128"
    | (bad) "c \<noteq> quote_char" "c \<noteq> backslash" "\<not> byte c < 32" "\<not> byte c < 128" "rune_len s = None"
    | (rune) n where "c \<noteq> quote_char" "c \<noteq> backslash" "\<not> byte c < 32" "\<not> byte c < 128" "rune_len s = Some n"
    using "1.prems" unfolding s by (subst (asm) parse_str.simps) (auto split: if_splits)
  then show ?case
  proof cases
    case quote
    then show ?thesis using "1.prems" unfolding s by (intro exI[of _ "[]"]) (simp add: parse_str.simps)
  next
    case ascii
    then obtain w where w: "parse_str t = Some (w, r)" "x = c # w"
      using "1.prems" unfolding s by (subst (asm) parse_str.simps) (auto simp: prepend_Some)
    obtain a where a: "t = a @ quote_char # r" "\<forall>r'. parse_str (a @ quote_char # r') = Some (w, r')"
      using "1.IH"(4)[OF s ascii w(1)] by blast
    show ?thesis using a ascii w s by (intro exI[of _ "c # a"]) (simp add: parse_str.simps[of "c # _"] prepend_def)
  next
    case bad
    then obtain w where w: "parse_str t = Some (w, r)" "x = replacement @ w"
      using "1.prems" unfolding s by (subst (asm) parse_str.simps) (auto simp: prepend_Some)
    obtain a where a: "t = a @ quote_char # r" "\<forall>r'. parse_str (a @ quote_char # r') = Some (w, r')"
      using "1.IH"(5)[OF s bad w(1)] by blast
    have "rune_len (c # a @ quote_char # r') = None" for r'
      using bad(5) rune_len_quote[of c a r'] rune_len_quote[of c a r] unfolding s a(1) by simp
    then show ?thesis using a bad w s by (intro exI[of _ "c # a"]) (simp add: parse_str.simps[of "c # _"] prepend_def)
  next
    case (rune n)
    then obtain w where w: "parse_str (drop n s) = Some (w, r)" "x = take n s @ w"
      using "1.prems" unfolding s by (subst (asm) parse_str.simps) (auto simp: prepend_Some)
    obtain a where a: "drop n s = a @ quote_char # r" "\<forall>r'. parse_str (a @ quote_char # r') = Some (w, r')"
      using "1.IH"(6)[OF s rune w(1)] by blast
    have e: "parse_str (take n s @ u) = prepend (take n s) (parse_str u)" for u
      unfolding s by (rule parse_str_rune[OF rune(4)]) (use rune(5) s in simp)
    have "s = take n s @ a @ quote_char # r" unfolding a(1)[symmetric] by simp
    then show ?thesis using a(2) w(2) by (intro exI[of _ "take n s @ a"]) (simp add: e prepend_def)
  next
    case esc
    then obtain e q where t: "t = e # q" using "1.prems" unfolding s by (subst (asm) parse_str.simps) (auto split: list.splits)
    show ?thesis
    proof (cases "simple_esc e")
      case (Some d)
      then obtain w where w: "parse_str q = Some (w, r)" "x = d # w"
        using "1.prems" esc unfolding s t by (subst (asm) parse_str.simps) (auto simp: prepend_Some)
      obtain a where a: "q = a @ quote_char # r" "\<forall>r'. parse_str (a @ quote_char # r') = Some (w, r')"
        using "1.IH"(3)[OF s esc(2,1) t Some w(1)] by blast
      show ?thesis using a esc w s t Some
        by (intro exI[of _ "c # e # a"]) (simp add: parse_str.simps[of "backslash # _"] prepend_def)
    next
      case None
      have u: "e = CHR ''u''"
        using "1.prems" None esc unfolding s t by (subst (asm) parse_str.simps) (auto split: if_splits)
      obtain v y where h: "hex4 q = Some (v, y)"
        using "1.prems" None esc u unfolding s t by (subst (asm) parse_str.simps) (auto split: option.splits)
      obtain p where p: "q = p @ y" "length p = 4" "\<forall>t'. hex4 (p @ t') = Some (v, t')" using hex4_local[OF h] by blast
      let ?l = "if 0xD800 \<le> v \<and> v < 0xE000 then low_pair v y else None"
      show ?thesis
      proof (cases ?l)
        case n: None
        then obtain w where w: "parse_str y = Some (w, r)" "x = encode_rune v @ w"
          using "1.prems" None esc u h unfolding s t by (subst (asm) parse_str.simps) (auto simp: prepend_Some)
        obtain a where a: "y = a @ quote_char # r" "\<forall>r'. parse_str (a @ quote_char # r') = Some (w, r')"
          using "1.IH"(1)[OF s esc(2,1) t None _ h refl n w(1)] u by blast
        have "(if 0xD800 \<le> v \<and> v < 0xE000 then low_pair v (a @ quote_char # r') else None) = None" for r'
          using n low_pair_none[of v a r r'] unfolding a(1) by auto
        then have "parse_str (c # e # p @ a @ quote_char # r') = Some (x, r')" for r'
          using a(2) p(3) esc w None u by (subst parse_str.simps) (simp add: prepend_def)
        then show ?thesis using s t p(1) a(1) by (intro exI[of _ "c # e # p @ a"]) simp
      next
        case l: (Some vz)
        obtain v' z where vz: "vz = (v', z)" by (cases vz)
        then obtain w where w: "parse_str z = Some (w, r)" "x = encode_rune v' @ w"
          using "1.prems" None esc u h l unfolding s t by (subst (asm) parse_str.simps) (auto simp: prepend_Some)
        obtain a where a: "z = a @ quote_char # r" "\<forall>r'. parse_str (a @ quote_char # r') = Some (w, r')"
          using "1.IH"(2)[OF s esc(2,1) t None _ h refl l vz[symmetric] w(1)] u by blast
        have lv: "0xD800 \<le> v \<and> v < 0xE000" "low_pair v y = Some (v', z)" using l vz by (auto split: if_splits)
        obtain p' where p': "y = p' @ z" "\<forall>t'. low_pair v (p' @ t') = Some (v', t')" using low_pair_local[OF lv(2)] by blast
        have "parse_str (c # e # p @ p' @ a @ quote_char # r') = Some (x, r')" for r'
          using a(2) p(3) p'(2) lv(1) esc w None u by (subst parse_str.simps) (simp add: prepend_def)
        then show ?thesis using s t p(1) p'(1) a(1) by (intro exI[of _ "c # e # p @ p' @ a"]) simp
      qed
    qed
  qed
qed

section \<open>Numbers and scalars\<close>

text \<open>What may stand after a value: the end, a separator, a closing bracket or white space.\<close>

definition value_end :: "string \<Rightarrow> bool" where
  "value_end r \<longleftrightarrow> (case r of [] \<Rightarrow> True | c # _ \<Rightarrow> c = CHR '','' \<or> c = CHR '']'' \<or> c = CHR ''}'' \<or> is_ws c)"

lemma value_end_stops: "value_end r \<Longrightarrow> stops r"
  by (auto simp: value_end_def stops_def is_digit_def is_ws_def split: list.splits)

lemma num_digits_local: "num_digits s = Some (d, r) \<Longrightarrow> s = d @ r \<and> d \<noteq> [] \<and> list_all is_digit d"
  by (auto simp: num_digits_def list_all_iff dest: set_takeWhileD split: if_splits)

lemma num_digits_take: "d \<noteq> [] \<Longrightarrow> list_all is_digit d \<Longrightarrow> stops r \<Longrightarrow> num_digits (d @ r) = Some (d, r)"
  using takeWhile_stops[of d r] by (simp add: num_digits_def)

lemma num_int_local:
  assumes "num_int s = Some (i, r)"
  shows "s = i @ r \<and> i \<noteq> [] \<and> is_digit (hd i) \<and> (\<forall>r'. stops r' \<longrightarrow> num_int (i @ r') = Some (i, r'))"
proof -
  obtain c t where s: "s = c # t" using assms by (cases s) (auto simp: num_int_def)
  show ?thesis
  proof (cases "c = CHR ''0''")
    case True
    then show ?thesis using assms s by (auto simp: num_int_def is_digit_def)
  next
    case False
    then have "num_digits s = Some (i, r)" using assms s by (simp add: num_int_def)
    note d = num_digits_local[OF this]
    then obtain j where i: "i = c # j" using s by (cases i) auto
    have "num_int (i @ r') = Some (i, r')" if "stops r'" for r'
      using num_digits_take[of i r'] d that False by (simp add: num_int_def i)
    then show ?thesis using d i by simp
  qed
qed

lemma num_frac_local:
  assumes "num_frac s = Some (f, r)"
  shows "s = f @ r \<and> (f = [] \<or> hd f = CHR ''.'') \<and>
    (\<forall>r'. stops r' \<and> (r' = [] \<or> hd r' \<noteq> CHR ''.'') \<longrightarrow> num_frac (f @ r') = Some (f, r'))"
proof (cases "\<exists>t. s = CHR ''.'' # t")
  case True
  then obtain t d where t: "s = CHR ''.'' # t" "num_digits t = Some (d, r)" "f = CHR ''.'' # d"
    using assms by (auto simp: num_frac_def)
  note d = num_digits_local[OF t(2)]
  have "num_frac (f @ r') = Some (f, r')" if "stops r'" for r'
    using num_digits_take[of d r'] d that t(3) by (simp add: num_frac_def)
  then show ?thesis using t d by simp
next
  case False
  then have "f = []" "s = r" using assms by (auto simp: num_frac_def split: list.splits if_splits)
  moreover have "num_frac r' = Some ([], r')" if "r' = [] \<or> hd r' \<noteq> CHR ''.''" for r'
    using that by (cases r') (auto simp: num_frac_def)
  ultimately show ?thesis by simp
qed

lemma num_sign_local: "num_sign t = (g, u) \<Longrightarrow> t = g @ u"
  by (auto simp: num_sign_def split: list.splits if_splits)

lemma num_exp_local:
  assumes "num_exp s = Some (x, r)"
  shows "s = x @ r \<and> (x = [] \<or> hd x = CHR ''e'' \<or> hd x = CHR ''E'') \<and>
    (\<forall>r'. value_end r' \<longrightarrow> num_exp (x @ r') = Some (x, r'))"
proof (cases "\<exists>c t. s = c # t \<and> (c = CHR ''e'' \<or> c = CHR ''E'')")
  case True
  then obtain c t where s: "s = c # t" "c = CHR ''e'' \<or> c = CHR ''E''" by blast
  obtain g u where g: "num_sign t = (g, u)" by fastforce
  obtain d where d: "num_digits u = Some (d, r)" "x = c # g @ d"
    using assms s g by (auto simp: num_exp_def)
  note dl = num_digits_local[OF d(1)]
  have sg: "num_sign (g @ d @ r') = (g, d @ r')" for r'
  proof -
    obtain e d' where e: "d = e # d'" "is_digit e" using dl by (cases d) auto
    then have "e \<noteq> CHR ''+''" "e \<noteq> CHR ''-''" by (auto simp: is_digit_def)
    then show ?thesis using g e(1) by (auto simp: num_sign_def split: list.splits if_splits)
  qed
  have "num_exp (x @ r') = Some (x, r')" if "value_end r'" for r'
    using num_digits_take[of d r'] dl value_end_stops[OF that] s(2) d(2) sg[of r'] by (simp add: num_exp_def)
  then show ?thesis using s d(2) dl num_sign_local[OF g] by auto
next
  case False
  then have "x = []" "s = r" using assms by (auto simp: num_exp_def split: list.splits if_splits)
  moreover have "num_exp r' = Some ([], r')" if "value_end r'" for r'
    using that by (cases r') (auto simp: num_exp_def value_end_def is_ws_def)
  ultimately show ?thesis by simp
qed

lemma exp_stops:
  "x = [] \<or> hd x = CHR ''e'' \<or> hd x = CHR ''E'' \<Longrightarrow> value_end r \<Longrightarrow>
    stops (x @ r) \<and> (x @ r = [] \<or> hd (x @ r) \<noteq> CHR ''.'')"
proof (cases x)
  case Nil
  assume "value_end r"
  then show ?thesis using Nil by (cases r) (auto simp: value_end_def is_ws_def value_end_stops stops_def is_digit_def)
next
  case (Cons c y)
  assume "x = [] \<or> hd x = CHR ''e'' \<or> hd x = CHR ''E''"
  then have "c = CHR ''e'' \<or> c = CHR ''E''" using Cons by simp
  then show ?thesis using Cons by (auto simp: stops_def is_digit_def)
qed

lemma frac_stops: "f = [] \<or> hd f = CHR ''.'' \<Longrightarrow> stops r \<Longrightarrow> stops (f @ r)"
  by (cases f) (auto simp: stops_def is_digit_def)

lemma parse_num_local:
  assumes "parse_num s = Some (n, r)"
  shows "s = n @ r \<and> n \<noteq> [] \<and> (hd n = CHR ''-'' \<or> is_digit (hd n)) \<and>
    (\<forall>r'. value_end r' \<longrightarrow> parse_num (n @ r') = Some (n, r'))"
proof -
  obtain m s1 where m: "num_minus s = (m, s1)" by fastforce
  obtain i s2 f s3 x where p: "num_int s1 = Some (i, s2)" "num_frac s2 = Some (f, s3)" "num_exp s3 = Some (x, r)" "n = m @ i @ f @ x"
    using assms m by (auto simp: parse_num_def split: option.splits)
  note i = num_int_local[OF p(1)] and f = num_frac_local[OF p(2)] and x = num_exp_local[OF p(3)]
  have s: "s = m @ s1" using m by (auto simp: num_minus_def split: list.splits if_splits)
  have "parse_num (n @ r') = Some (n, r')" if v: "value_end r'" for r'
  proof -
    have st: "stops (x @ r') \<and> (x @ r' = [] \<or> hd (x @ r') \<noteq> CHR ''.'')"
      by (rule exp_stops[OF conjunct1[OF conjunct2[OF x]] v])
    have st2: "stops (f @ x @ r')" by (rule frac_stops[OF conjunct1[OF conjunct2[OF f]] conjunct1[OF st]])
    obtain e j where e: "i = e # j" "is_digit e" using i by (cases i) auto
    then have "e \<noteq> CHR ''-''" by (auto simp: is_digit_def)
    then have mm: "num_minus (m @ i @ f @ x @ r') = (m, i @ f @ x @ r')"
      using m e(1) by (auto simp: num_minus_def split: list.splits if_splits)
    show ?thesis using mm i f x st st2 v by (simp add: parse_num_def p(4))
  qed
  moreover have "n \<noteq> []" "hd n = CHR ''-'' \<or> is_digit (hd n)"
    using i m p(4) by (auto simp: num_minus_def split: list.splits if_splits)
  ultimately show ?thesis using s i f x p(4) by simp
qed

text \<open>Scalars, and that a bracket never opens one.\<close>

lemma parse_scalar_local:
  assumes "parse_scalar s = Some (j, r)"
  shows "\<exists>a. s = a @ r \<and> a \<noteq> [] \<and> hd a \<noteq> CHR ''['' \<and> hd a \<noteq> CHR ''{'' \<and> (\<forall>r'. value_end r' \<longrightarrow> parse_scalar (a @ r') = Some (j, r'))"
proof -
  consider (null) "hasPrefix s ''null''" | (true) "\<not> hasPrefix s ''null''" "hasPrefix s ''true''"
    | (false) "\<not> hasPrefix s ''null''" "\<not> hasPrefix s ''true''" "hasPrefix s ''false''"
    | (other) "\<not> hasPrefix s ''null''" "\<not> hasPrefix s ''true''" "\<not> hasPrefix s ''false''" by blast
  then show ?thesis
  proof cases
    case null
    then show ?thesis using assms by (intro exI[of _ "''null''"]) (auto simp: parse_scalar_def hasPrefix_iff)
  next
    case true
    then show ?thesis using assms by (intro exI[of _ "''true''"]) (auto simp: parse_scalar_def hasPrefix_iff)
  next
    case false
    then show ?thesis using assms by (intro exI[of _ "''false''"]) (auto simp: parse_scalar_def hasPrefix_iff)
  next
    case other
    obtain c t where s: "s = c # t" using assms other by (cases s) (auto simp: parse_scalar_def)
    show ?thesis
    proof (cases "c = quote_char")
      case True
      then obtain x where x: "parse_str t = Some (x, r)" "j = JStr x" using assms other s by (auto simp: parse_scalar_def)
      obtain a where a: "t = a @ quote_char # r" "\<forall>r'. parse_str (a @ quote_char # r') = Some (x, r')"
        using parse_str_local[OF x(1)] by blast
      show ?thesis using a x s True
        by (intro exI[of _ "quote_char # a @ [quote_char]"]) (simp add: parse_scalar_def hasPrefix_def quote_char_def)
    next
      case False
      then obtain x where x: "parse_num s = Some (x, r)" "j = JNum x" using assms other s by (auto simp: parse_scalar_def)
      note n = parse_num_local[OF x(1)]
      obtain d y where d: "x = d # y" "d = CHR ''-'' \<or> is_digit d" using n by (cases x) auto
      then have "d \<noteq> quote_char" "d \<noteq> CHR ''n''" "d \<noteq> CHR ''t''" "d \<noteq> CHR ''f''" "d \<noteq> CHR ''[''" "d \<noteq> CHR ''{''"
        by (auto simp: quote_char_def is_digit_def)
      then show ?thesis using n d x(2) by (intro exI[of _ x]) (auto simp: parse_scalar_def hasPrefix_def)
    qed
  qed
qed

section \<open>Values\<close>

lemma skip_ws_split:
  obtains w where "s = w @ skip_ws s" and "list_all is_ws w" and "skip_ws s = [] \<or> \<not> is_ws (hd (skip_ws s))"
proof (rule that[of "takeWhile is_ws s"])
  show "s = takeWhile is_ws s @ skip_ws s" by (simp add: skip_ws_def)
  show "list_all is_ws (takeWhile is_ws s)" by (auto simp: list_all_iff dest: set_takeWhileD)
  show "skip_ws s = [] \<or> \<not> is_ws (hd (skip_ws s))" unfolding skip_ws_def by (cases "dropWhile is_ws s") (auto dest: dropWhile_eq_Cons_conv[THEN iffD1])
qed

lemma skip_ws_over: "list_all is_ws w \<Longrightarrow> x \<noteq> [] \<Longrightarrow> \<not> is_ws (hd x) \<Longrightarrow> skip_ws (w @ x) = x"
  unfolding skip_ws_def by (induction w) (cases x; auto)+

text \<open>A reader whose results do not depend on what follows, nor on which of two readers is asked.\<close>

definition moves :: "(string \<Rightarrow> ('a \<times> string) option) \<Rightarrow> (string \<Rightarrow> ('a \<times> string) option) \<Rightarrow> bool" where
  "moves p p' \<longleftrightarrow> (\<forall>s j r. p s = Some (j, r) \<longrightarrow>
     (\<exists>a. s = a @ r \<and> a \<noteq> [] \<and> (\<forall>r'. value_end r' \<longrightarrow> p' (a @ r') = Some (j, r'))))"

lemma movesD:
  assumes "moves p p'" and "p s = Some (j, r)"
  obtains a where "s = a @ r" and "a \<noteq> []" and "\<And>r'. value_end r' \<Longrightarrow> p' (a @ r') = Some (j, r')"
  using assms unfolding moves_def by blast

text \<open>One value, the white space around it and the separator.\<close>

lemma one_value:
  assumes "moves p p'" and "p (skip_ws s) = Some (j, r)" and "skip_ws r = c # t" and "c = CHR '','' \<or> c = CHR '']'' \<or> c = CHR ''}''"
  obtains q b where "s = q @ c # t" and "q \<noteq> []"
    and "\<And>u. p' (skip_ws (q @ c # u)) = Some (j, b @ c # u)" and "\<And>u. skip_ws (b @ c # u) = c # u"
    and "\<And>u. skip_ws (q @ c # u) \<noteq> []" and "\<And>u. hd (skip_ws (q @ c # u)) = hd (skip_ws s)"
proof -
  obtain a where a: "skip_ws s = a @ r" "a \<noteq> []" "\<And>r'. value_end r' \<Longrightarrow> p' (a @ r') = Some (j, r')"
    by (rule movesD[OF assms(1,2)]) blast
  obtain w where w: "s = w @ skip_ws s" "list_all is_ws w" "skip_ws s = [] \<or> \<not> is_ws (hd (skip_ws s))" by (rule skip_ws_split)
  obtain b where b: "r = b @ skip_ws r" "list_all is_ws b" by (rule skip_ws_split)
  have cw: "\<not> is_ws c" using assms(4) by (auto simp: is_ws_def)
  have ha: "\<not> is_ws (hd a)" using w(3) a(1,2) by simp
  have sk: "skip_ws ((w @ a @ b) @ c # u) = a @ b @ c # u" for u
    using skip_ws_over[OF w(2), of "a @ b @ c # u"] a(2) ha by simp
  have "value_end (b @ c # u)" for u
    using assms(4) b(2) by (cases b) (auto simp: value_end_def)
  then have pv: "p' (skip_ws ((w @ a @ b) @ c # u)) = Some (j, b @ c # u)" for u unfolding sk by (rule a(3))
  show ?thesis
  proof (rule that[of "w @ a @ b" b])
    show "s = (w @ a @ b) @ c # t" using w(1) a(1) b(1) assms(3) by simp
    show "w @ a @ b \<noteq> []" using a(2) by simp
    show "skip_ws (b @ c # u) = c # u" for u by (rule skip_ws_over[OF b(2)]) (use cw in simp_all)
    show "skip_ws ((w @ a @ b) @ c # u) \<noteq> []" "hd (skip_ws ((w @ a @ b) @ c # u)) = hd (skip_ws s)" for u
      using a(1,2) unfolding sk by simp_all
  qed (rule pv)
qed

lemma parse_elems_local:
  assumes "moves p p'"
  shows "parse_elems p n s = Some (js, r) \<Longrightarrow> \<exists>q. s = q @ r \<and> length js \<le> length q \<and> js \<noteq> [] \<and>
    (\<forall>m r'. length js \<le> m \<longrightarrow> parse_elems p' m (q @ r') = Some (js, r') \<and>
      skip_ws (q @ r') \<noteq> [] \<and> hd (skip_ws (q @ r')) = hd (skip_ws s))"
proof (induction n arbitrary: s js r)
  case (Suc n)
  obtain j r0 c t where v: "p (skip_ws s) = Some (j, r0)" "skip_ws r0 = c # t"
    using Suc.prems by (auto split: option.splits prod.splits list.splits)
  have c: "c = CHR '','' \<or> c = CHR '']'' \<or> c = CHR ''}''"
    using Suc.prems v by (auto split: if_splits)
  obtain q b where o: "s = q @ c # t" "q \<noteq> []" "\<And>u. p' (skip_ws (q @ c # u)) = Some (j, b @ c # u)"
    "\<And>u. skip_ws (b @ c # u) = c # u" "\<And>u. skip_ws (q @ c # u) \<noteq> []" "\<And>u. hd (skip_ws (q @ c # u)) = hd (skip_ws s)"
    by (rule one_value[OF assms v c]) blast
  show ?case
  proof (cases "c = CHR '']''")
    case True
    then have e: "js = [j]" "r = t" using Suc.prems v by simp_all
    have "parse_elems p' m ((q @ [c]) @ r') = Some (js, r')" if "1 \<le> m" for m r'
      using that o(3)[of r'] o(4)[of r'] e(1) True by (cases m) simp_all
    then show ?thesis using o(1,5,6) e by (intro exI[of _ "q @ [c]"]) auto
  next
    case False
    then have cc: "c = CHR '',''" using Suc.prems v by (auto split: if_splits)
    then obtain js' where e: "parse_elems p n t = Some (js', r)" "js = j # js'" using Suc.prems v by auto
    obtain q' where q': "t = q' @ r" "length js' \<le> length q'" "\<And>m r'. length js' \<le> m \<Longrightarrow> parse_elems p' m (q' @ r') = Some (js', r')"
      using Suc.IH[OF e(1)] by blast
    have "parse_elems p' m ((q @ c # q') @ r') = Some (js, r')" if m: "length js \<le> m" for m r'
    proof -
      obtain k where k: "m = Suc k" "length js' \<le> k" using m e(2) by (cases m) auto
      show ?thesis using o(3)[of "q' @ r'"] o(4)[of "q' @ r'"] q'(3)[OF k(2), of r'] e(2) cc k(1) by simp
    qed
    moreover have "length js \<le> length (q @ c # q')" using e(2) q'(2) by simp
    ultimately show ?thesis using o(1) o(5)[of "q' @ _"] o(6)[of "q' @ _"] q'(1) e(2)
      by (intro exI[of _ "q @ c # q'"]) simp
  qed
qed simp

text \<open>The name of a member and its colon.\<close>

lemma parse_key_local:
  assumes "parse_key s = Some (k, v)"
  obtains q where "s = q @ v" and "q \<noteq> []" and "\<And>v'. parse_key (q @ v') = Some (k, v')"
    and "\<And>v'. skip_ws (q @ v') \<noteq> []" and "\<And>v'. hd (skip_ws (q @ v')) = quote_char" and "hd (skip_ws s) = quote_char"
proof -
  obtain t r where t: "skip_ws s = quote_char # t" "parse_str t = Some (k, r)" "skip_ws r = CHR '':'' # v"
    using assms by (auto simp: parse_key_def split: list.splits if_splits option.splits prod.splits)
  obtain w where w: "s = w @ skip_ws s" "list_all is_ws w" by (rule skip_ws_split)
  obtain a where a: "t = a @ quote_char # r" "\<And>r'. parse_str (a @ quote_char # r') = Some (k, r')" using parse_str_local[OF t(2)] by blast
  obtain b where b: "r = b @ skip_ws r" "list_all is_ws b" by (rule skip_ws_split)
  let ?q = "w @ quote_char # a @ quote_char # b @ [CHR '':'']"
  have sk: "skip_ws (?q @ v') = quote_char # a @ quote_char # b @ CHR '':'' # v'" for v'
    using skip_ws_over[OF w(2), of "quote_char # a @ quote_char # b @ CHR '':'' # v'"] by (simp add: is_ws_def)
  have "skip_ws (b @ CHR '':'' # v') = CHR '':'' # v'" for v' by (rule skip_ws_over[OF b(2)]) (simp_all add: is_ws_def)
  then have "parse_key (?q @ v') = Some (k, v')" for v' unfolding parse_key_def sk using a(2) by simp
  moreover have "s = ?q @ v" using w(1) t(1,3) a(1) b(1) by simp
  moreover have "hd (skip_ws s) = quote_char" using t(1) by simp
  ultimately show thesis using sk by (intro that[of ?q]) (assumption | simp)+
qed

lemma parse_members_local:
  assumes "moves p p'"
  shows "parse_members p n s = Some (ms, r) \<Longrightarrow> \<exists>q. s = q @ r \<and> length ms \<le> length q \<and> ms \<noteq> [] \<and>
    (\<forall>m r'. length ms \<le> m \<longrightarrow> parse_members p' m (q @ r') = Some (ms, r') \<and>
      skip_ws (q @ r') \<noteq> [] \<and> hd (skip_ws (q @ r')) = quote_char)"
proof (induction n arbitrary: s ms r)
  case (Suc n)
  obtain k v where k: "parse_key s = Some (k, v)" using Suc.prems by (auto split: option.splits prod.splits)
  obtain j r0 c t where v: "p (skip_ws v) = Some (j, r0)" "skip_ws r0 = c # t"
    using Suc.prems k by (auto split: option.splits prod.splits list.splits)
  have c: "c = CHR '','' \<or> c = CHR '']'' \<or> c = CHR ''}''"
    using Suc.prems k v by (auto split: if_splits)
  obtain x where x: "s = x @ v" "x \<noteq> []" "\<And>v'. parse_key (x @ v') = Some (k, v')"
    "\<And>v'. skip_ws (x @ v') \<noteq> []" "\<And>v'. hd (skip_ws (x @ v')) = quote_char" by (rule parse_key_local[OF k]) blast
  obtain q b where o: "v = q @ c # t" "\<And>u. p' (skip_ws (q @ c # u)) = Some (j, b @ c # u)" "\<And>u. skip_ws (b @ c # u) = c # u"
    by (rule one_value[OF assms v c]) blast
  show ?case
  proof (cases "c = CHR ''}''")
    case True
    then have e: "ms = [(k, j)]" "r = t" using Suc.prems k v by simp_all
    have "parse_members p' m ((x @ q @ [c]) @ r') = Some (ms, r')" if "1 \<le> m" for m r'
      using that x(3)[of "q @ c # r'"] o(2)[of r'] o(3)[of r'] e(1) True by (cases m) simp_all
    then show ?thesis using o(1) x(1,2) x(4)[of "q @ c # _"] x(5)[of "q @ c # _"] e by (intro exI[of _ "x @ q @ [c]"]) auto
  next
    case False
    then have cc: "c = CHR '',''" using Suc.prems k v by (auto split: if_splits)
    then obtain ms' where e: "parse_members p n t = Some (ms', r)" "ms = (k, j) # ms'" using Suc.prems k v by auto
    obtain q' where q': "t = q' @ r" "length ms' \<le> length q'" "\<And>m r'. length ms' \<le> m \<Longrightarrow> parse_members p' m (q' @ r') = Some (ms', r')"
      using Suc.IH[OF e(1)] by blast
    have "parse_members p' m ((x @ q @ c # q') @ r') = Some (ms, r')" if m: "length ms \<le> m" for m r'
    proof -
      obtain l where l: "m = Suc l" "length ms' \<le> l" using m e(2) by (cases m) auto
      show ?thesis using x(3)[of "q @ c # q' @ r'"] o(2)[of "q' @ r'"] o(3)[of "q' @ r'"] q'(3)[OF l(2), of r'] e(2) cc l(1) by simp
    qed
    moreover have "length ms \<le> length (x @ q @ c # q')" using e(2) q'(2) by simp
    ultimately show ?thesis using o(1) x(1) x(4)[of "q @ c # q' @ _"] x(5)[of "q @ c # q' @ _"] q'(1) e(2)
      by (intro exI[of _ "x @ q @ c # q'"]) simp
  qed
qed simp

lemma moves_bracket:
  assumes "list_all is_ws w" and "c = CHR '']'' \<or> c = CHR ''}''"
  shows "skip_ws (w @ c # r) = c # r"
  by (rule skip_ws_over[OF assms(1)]) (use assms(2) in \<open>auto simp: is_ws_def\<close>)

text \<open>The value reader, at any depth not below.\<close>

theorem parse_value_moves: "d \<le> d' \<Longrightarrow> moves (parse_value d) (parse_value d')"
proof (induction d arbitrary: d')
  case 0
  have "\<exists>a. s = a @ r \<and> a \<noteq> [] \<and> (\<forall>r'. value_end r' \<longrightarrow> parse_value d' (a @ r') = Some (j, r'))"
    if p: "parse_scalar s = Some (j, r)" for s j r
  proof -
    obtain a where a: "s = a @ r" "a \<noteq> []" "hd a \<noteq> CHR ''[''" "hd a \<noteq> CHR ''{''" "\<And>r'. value_end r' \<Longrightarrow> parse_scalar (a @ r') = Some (j, r')"
      using parse_scalar_local[OF p] by blast
    then obtain c b where "a = c # b" by (cases a) auto
    then have "parse_value d' (a @ r') = Some (j, r')" if "value_end r'" for r'
      using a(3,4) a(5)[OF that] by (cases d') simp_all
    then show ?thesis using a(1,2) by blast
  qed
  then show ?case by (simp add: moves_def)
next
  case (Suc d)
  then obtain e where e: "d' = Suc e" "d \<le> e" by (cases d') auto
  note ih = Suc.IH[OF e(2)]
  have "\<exists>a. s = a @ r \<and> a \<noteq> [] \<and> (\<forall>r'. value_end r' \<longrightarrow> parse_value d' (a @ r') = Some (j, r'))"
    if p: "parse_value (Suc d) s = Some (j, r)" for s j r
  proof -
    obtain c t where s: "s = c # t" using p by (cases s) auto
    obtain w where w: "t = w @ skip_ws t" "list_all is_ws w" by (rule skip_ws_split)
    consider (arr0) u where "c = CHR ''[''" "skip_ws t = CHR '']'' # u"
      | (arr) f u where "c = CHR ''[''" "skip_ws t = f # u" "f \<noteq> CHR '']''"
      | (obj0) u where "c = CHR ''{''" "skip_ws t = CHR ''}'' # u"
      | (obj) f u where "c = CHR ''{''" "skip_ws t = f # u" "f \<noteq> CHR ''}''"
      | (scalar) "c \<noteq> CHR ''[''" "c \<noteq> CHR ''{''"
      using p s by (cases "skip_ws t") (auto split: if_splits)
    then show ?thesis
    proof cases
      case arr0
      then have "j = JArr []" "r = u" using p s by simp_all
      then show ?thesis using s arr0 w moves_bracket[OF w(2)]
        by (intro exI[of _ "c # w @ [CHR '']'']"]) (simp add: e(1))
    next
      case arr
      then obtain js where js: "parse_elems (parse_value d) (length s) t = Some (js, r)" "j = JArr js" using p s by auto
      obtain q where q: "t = q @ r" "length js \<le> length q" "\<And>m r'. length js \<le> m \<Longrightarrow> parse_elems (parse_value e) m (q @ r') = Some (js, r')"
        "\<And>r'. skip_ws (q @ r') \<noteq> []" "\<And>r'. hd (skip_ws (q @ r')) = hd (skip_ws t)"
        using parse_elems_local[OF ih js(1)] by blast
      have "parse_value d' ((c # q) @ r') = Some (j, r')" for r'
      proof -
        obtain g y where "skip_ws (q @ r') = g # y" "g \<noteq> CHR '']''"
          using q(4)[of r'] q(5)[of r'] arr by (cases "skip_ws (q @ r')") auto
        then show ?thesis using arr(1) q(3)[of "length ((c # q) @ r')" r'] q(2) js(2) by (simp add: e(1))
      qed
      then show ?thesis using s q(1) by (intro exI[of _ "c # q"]) simp
    next
      case obj0
      then have "j = JObj []" "r = u" using p s by simp_all
      then show ?thesis using s obj0 w moves_bracket[OF w(2)]
        by (intro exI[of _ "c # w @ [CHR ''}'']"]) (simp add: e(1))
    next
      case obj
      then obtain ms where ms: "parse_members (parse_value d) (length s) t = Some (ms, r)" "j = JObj ms" using p s by auto
      obtain q where q: "t = q @ r" "length ms \<le> length q" "\<And>m r'. length ms \<le> m \<Longrightarrow> parse_members (parse_value e) m (q @ r') = Some (ms, r')"
        "\<And>r'. skip_ws (q @ r') \<noteq> []" "\<And>r'. hd (skip_ws (q @ r')) = quote_char"
        using parse_members_local[OF ih ms(1)] by blast
      have "parse_value d' ((c # q) @ r') = Some (j, r')" for r'
      proof -
        obtain g y where "skip_ws (q @ r') = g # y" "g \<noteq> CHR ''}''"
          using q(4)[of r'] q(5)[of r'] by (cases "skip_ws (q @ r')") (auto simp: quote_char_def)
        then show ?thesis using obj(1) q(3)[of "length ((c # q) @ r')" r'] q(2) ms(2) by (simp add: e(1))
      qed
      then show ?thesis using s q(1) by (intro exI[of _ "c # q"]) simp
    next
      case scalar
      then have "parse_scalar s = Some (j, r)" using p s by simp
      then obtain a where a: "s = a @ r" "a \<noteq> []" "\<And>r'. value_end r' \<Longrightarrow> parse_scalar (a @ r') = Some (j, r')"
        using parse_scalar_local by blast
      then obtain b where b: "a = c # b" using s by (cases a) auto
      have "parse_value d' (a @ r') = Some (j, r')" if "value_end r'" for r'
        using a(3)[OF that] scalar by (simp add: e(1) b)
      then show ?thesis using a(1,2) by blast
    qed
  qed
  then show ?case by (simp add: moves_def)
qed

end
