(* ===== verification/Json_Raw.thy ===== *)
theory Json_Raw
  imports Json_Local Go_Map
begin

text \<open>
  Objects held as raw members (\<open>rawObject\<close> of \<open>internal/recorder/erase.go\<close>) and what the
  rewrite of a line uses of \<open>json.RawMessage\<close>: a value kept as the bytes it was written as, an
  array cut into its elements, and the compaction \<open>json.Marshal\<close> applies to raw elements. An
  object is one list of names and values: the two fields of the struct, the order of the names and
  the map from them.
\<close>

section \<open>Objects\<close>

type_synonym rawObject = "(string, string) gmap"

datatype raw_error = NotAnObject | BadMember | MemberTwice string | TrailingBytes

text \<open>The members from a name on, into what has been read: the object and the text behind its brace.\<close>

fun raw_members :: "nat \<Rightarrow> string \<Rightarrow> rawObject \<Rightarrow> raw_error + rawObject \<times> string" where
  "raw_members 0 s o' = Inl BadMember"
| "raw_members (Suc n) s o' =
     (case parse_key s of
        None \<Rightarrow> Inl BadMember
      | Some (k, v) \<Rightarrow>
          let v = skip_ws v in
          (case parse_value maxNestingDepth v of
             None \<Rightarrow> Inl BadMember
           | Some (j, r) \<Rightarrow>
               if m_get o' k \<noteq> None then Inl (MemberTwice k)
               else let o' = m_put k (take (length v - length r) v) o' in
                 (case skip_ws r of
                    c # t \<Rightarrow>
                      if c = CHR ''}'' then Inr (o', t)
                      else if c = CHR '','' then raw_members n t o'
                      else Inl BadMember
                  | [] \<Rightarrow> Inl BadMember)))"

definition parseObject :: "string \<Rightarrow> raw_error + rawObject" where
  "parseObject raw =
     (case skip_ws raw of
        c # t \<Rightarrow>
          if c \<noteq> CHR ''{'' then Inl NotAnObject
          else (case (case skip_ws t of
                        d # u \<Rightarrow> if d = CHR ''}'' then Inr ([], u) else raw_members (length raw) t []
                      | [] \<Rightarrow> Inl BadMember) of
                  Inl err \<Rightarrow> Inl err
                | Inr (o', r) \<Rightarrow> if skip_ws r \<noteq> [] then Inl TrailingBytes else Inr o')
      | [] \<Rightarrow> Inl NotAnObject)"

definition raw_set :: "rawObject \<Rightarrow> string \<Rightarrow> string \<Rightarrow> rawObject" where
  "raw_set o' key v = m_put key v o'"

definition raw_member :: "string \<times> string \<Rightarrow> string" where
  "raw_member m = quote_str (fst m) @ CHR '':'' # snd m"

definition raw_marshal :: "rawObject \<Rightarrow> string" where
  "raw_marshal o' = CHR ''{'' # join (map raw_member o') '','' @ ''}''"

definition mustQuote :: "string \<Rightarrow> string" where
  "mustQuote s = quote_str s"

section \<open>Arrays\<close>

text \<open>The elements of an array as \<open>json.Unmarshal\<close> cuts them into a \<open>[]json.RawMessage\<close>.\<close>

fun raw_elems :: "nat \<Rightarrow> string \<Rightarrow> string list option" where
  "raw_elems 0 s = None"
| "raw_elems (Suc n) s =
     (let v = skip_ws s in
      case parse_value (maxNestingDepth - 1) v of
        None \<Rightarrow> None
      | Some (j, r) \<Rightarrow>
          (case skip_ws r of
             c # t \<Rightarrow>
               if c = CHR '']'' then Some [take (length v - length r) v]
               else if c = CHR '','' then map_option (\<lambda>vs. take (length v - length r) v # vs) (raw_elems n t)
               else None
           | [] \<Rightarrow> None))"

definition rawArray :: "string \<Rightarrow> string list option" where
  "rawArray raw =
     (case json_parse raw of
        Some JNull \<Rightarrow> Some []
      | Some (JArr []) \<Rightarrow> Some []
      | Some (JArr (j # js)) \<Rightarrow> raw_elems (length raw) (tl (skip_ws raw))
      | _ \<Rightarrow> None)"

text \<open>
  \<open>json.Marshal\<close> of a raw value compacts it: white space outside strings goes, and the characters
  its encoder escapes in a string are escaped. Outside and inside a string.
\<close>

function compact_out :: "string \<Rightarrow> string" and compact_in :: "string \<Rightarrow> string" where
  "compact_out [] = []"
| "compact_out (c # s) =
     (if is_ws c then compact_out s
      else if c = quote_char then c # compact_in s
      else c # compact_out s)"
| "compact_in [] = []"
| "compact_in (c # s) =
     (if c = backslash then (case s of [] \<Rightarrow> [c] | d # t \<Rightarrow> c # d # compact_in t)
      else if c = quote_char then c # compact_out s
      else if c = CHR ''<'' \<or> c = CHR ''>'' \<or> c = CHR ''&'' then esc_ascii c @ compact_in s
      else if take 3 (c # s) = line_sep then u_esc ''2028'' @ compact_in (drop 2 s)
      else if take 3 (c # s) = para_sep then u_esc ''2029'' @ compact_in (drop 2 s)
      else c # compact_in s)"
  by pat_completeness auto

termination
  by (relation "measure (\<lambda>x. case x of Inl s \<Rightarrow> length s | Inr s \<Rightarrow> length s)") auto

definition marshal_raws :: "string list \<Rightarrow> string" where
  "marshal_raws vs = CHR ''['' # join (map compact_out vs) '','' @ '']''"

section \<open>What an object reads as\<close>

lemma parse_scalar_ws: "is_ws c \<Longrightarrow> parse_scalar (c # t) = None"
proof -
  assume w: "is_ws c"
  then have c: "c \<noteq> CHR ''n''" "c \<noteq> CHR ''t''" "c \<noteq> CHR ''f''" "c \<noteq> quote_char" "c \<noteq> CHR ''-''" "c \<noteq> CHR ''0''" "\<not> is_digit c"
    by (auto simp: is_ws_def quote_char_def is_digit_def)
  then show ?thesis by (simp add: parse_scalar_def hasPrefix_def parse_num_def num_minus_def num_int_def num_digits_def)
qed

lemma parse_value_Nil: "parse_value d [] = None"
  by (cases d) (simp_all add: parse_scalar_def hasPrefix_def)

lemma parse_value_head: "parse_value d s = Some x \<Longrightarrow> \<exists>c t. s = c # t \<and> \<not> is_ws c"
proof -
  assume p: "parse_value d s = Some x"
  obtain c t where s: "s = c # t" using p parse_value_Nil by (cases s) auto
  have "\<not> is_ws c"
  proof
    assume w: "is_ws c"
    then have "c \<noteq> CHR ''[''" "c \<noteq> CHR ''{''" by (auto simp: is_ws_def)
    then have "parse_value d s = None" using parse_scalar_ws[OF w] s by (cases d) simp_all
    then show False using p by simp
  qed
  then show ?thesis using s by blast
qed

lemma value_ws: "parse_value d s = Some x \<Longrightarrow> skip_ws (s @ r) = s @ r"
  using parse_value_head[of d s x] by (auto simp: skip_ws_id)

lemma value_taken:
  assumes "parse_value d v = Some (j, r)"
  obtains a where "v = a @ r" and "take (length v - length r) v = a" and "parse_value d a = Some (j, [])" and "a \<noteq> []"
proof -
  obtain a where a: "v = a @ r" "a \<noteq> []" "\<And>r'. value_end r' \<Longrightarrow> parse_value d (a @ r') = Some (j, r')"
    by (rule movesD[OF parse_value_moves[OF order_refl] assms]) blast
  then show thesis using a(3)[of "[]"] by (intro that[of a]) (simp_all add: value_end_def)
qed

lemma value_deeper: "parse_value d v = Some (j, r) \<Longrightarrow> d \<le> d' \<Longrightarrow> value_end r \<Longrightarrow> parse_value d' v = Some (j, r)"
  using movesD[OF parse_value_moves] by metis

lemma value_inside: "parse_value d v = Some (j, []) \<Longrightarrow> d \<le> d' \<Longrightarrow> value_end r \<Longrightarrow> parse_value d' (v @ r) = Some (j, r)"
  using movesD[OF parse_value_moves, of d d' v j "[]"] by (metis append_Nil2)

text \<open>A raw member and the member the decoder sees.\<close>

definition reads :: "nat \<Rightarrow> string \<times> string \<Rightarrow> string \<times> json \<Rightarrow> bool" where
  "reads d m m' \<longleftrightarrow> fst m = fst m' \<and> parse_value d (snd m) = Some (snd m', [])"

lemma m_put_new: "k \<notin> fst ` set m \<Longrightarrow> m_put k v m = m @ [(k, v)]"
  unfolding m_put_def by (induction m) auto

lemma value_end_sep: "skip_ws r = c # t \<Longrightarrow> c = CHR '','' \<or> c = CHR '']'' \<or> c = CHR ''}'' \<Longrightarrow> value_end r"
proof -
  assume c: "skip_ws r = c # t" "c = CHR '','' \<or> c = CHR '']'' \<or> c = CHR ''}''"
  obtain b where b: "r = b @ skip_ws r" "list_all is_ws b" by (rule skip_ws_split)
  show ?thesis
  proof (cases b)
    case Nil
    then have "r = c # t" using b(1) c(1) by simp
    then show ?thesis using c(2) by (auto simp: value_end_def)
  next
    case (Cons x y)
    then have "r = x # y @ skip_ws r" "is_ws x" using b by simp_all
    then show ?thesis by (cases r) (simp_all add: value_end_def)
  qed
qed

lemma skip_ws_sub: "set (skip_ws s) \<subseteq> set s"
  unfolding skip_ws_def by (rule set_dropWhileD[THEN subsetI])

lemma parse_key_sub: "parse_key s = Some (k, v) \<Longrightarrow> set v \<subseteq> set s"
  by (erule parse_key_local) auto

text \<open>The members read from \<open>s\<close>, next to those an object had.\<close>

definition raw_read :: "nat \<Rightarrow> string \<Rightarrow> rawObject \<Rightarrow> rawObject \<Rightarrow> (string \<times> json) list \<Rightarrow> bool" where
  "raw_read d s o' vs ms \<longleftrightarrow> list_all2 (reads d) vs ms \<and> distinct (map fst vs) \<and> fst ` set vs \<inter> fst ` set o' = {} \<and>
     (\<forall>x \<in> set vs. set (snd x) \<subseteq> set s \<and> (\<exists>u w. parse_str u = Some (fst x, w)))"

lemma raw_read_Cons:
  assumes "raw_read d t (o' @ [(k, a)]) vs ms" and "set t \<subseteq> set s" and "set a \<subseteq> set s" and "parse_value d a = Some (j, [])"
    and "parse_str u = Some (k, w)" and "k \<notin> fst ` set o'"
  shows "raw_read d s o' ((k, a) # vs) ((k, j) # ms)"
proof -
  have "k \<notin> fst ` set vs" "fst ` set vs \<inter> fst ` set o' = {}" using assms(1) unfolding raw_read_def by auto
  moreover have "\<exists>u w. parse_str u = Some (k, w)" using assms(5) by blast
  moreover have "\<forall>x \<in> set vs. set (snd x) \<subseteq> set s \<and> (\<exists>u w. parse_str u = Some (fst x, w))"
    using assms(1,2) unfolding raw_read_def by (meson order_trans)
  ultimately show ?thesis using assms(1,3,4,6) unfolding raw_read_def by (intro conjI) (simp_all add: reads_def)
qed

lemma raw_read_Nil: "raw_read d s o' [] []"
  by (simp add: raw_read_def)

lemma raw_members_reads:
  "parse_members (parse_value d) n s = Some (ms, r) \<Longrightarrow> d \<le> maxNestingDepth \<Longrightarrow> raw_members m s o' = Inr (o1, r1) \<Longrightarrow>
    r1 = r \<and> (\<exists>vs. o1 = o' @ vs \<and> raw_read d s o' vs ms)"
proof (induction n arbitrary: s ms r m o')
  case (Suc n)
  obtain k v where k: "parse_key s = Some (k, v)" using Suc.prems(1) by (auto split: option.splits prod.splits)
  obtain j r0 c t where v: "parse_value d (skip_ws v) = Some (j, r0)" "skip_ws r0 = c # t"
    using Suc.prems(1) k by (auto split: option.splits prod.splits list.splits)
  have c: "c = CHR ''}'' \<or> c = CHR '',''" using Suc.prems(1) k v by (auto split: if_splits)
  obtain m' where m: "m = Suc m'" using Suc.prems(3) by (cases m) auto
  have ve: "value_end r0" using value_end_sep[OF v(2)] c by blast
  note deep = value_deeper[OF v(1) Suc.prems(2) ve]
  obtain a where a: "skip_ws v = a @ r0" "take (length (skip_ws v) - length r0) (skip_ws v) = a" "parse_value d a = Some (j, [])"
    by (rule value_taken[OF v(1)]) blast
  have nk: "m_get o' k = None"
    using Suc.prems(3) k deep unfolding m by (auto simp: Let_def split: if_splits)
  then have kn: "k \<notin> fst ` set o'" by (simp add: m_get_def map_of_eq_None_iff)
  obtain u w where key: "parse_str u = Some (k, w)"
    using k by (auto simp: parse_key_def split: list.splits if_splits option.splits prod.splits)
  have sub: "set (skip_ws v) \<subseteq> set s" using skip_ws_sub[of v] parse_key_sub[OF k] by blast
  have as: "set a \<subseteq> set s" using sub unfolding a(1) by simp
  have r0s: "set (skip_ws r0) \<subseteq> set s" using sub skip_ws_sub[of r0] unfolding a(1) by auto
  show ?case
  proof (cases "c = CHR ''}''")
    case True
    then have e: "ms = [(k, j)]" "r = t" "o1 = o' @ [(k, a)]" "r1 = t"
      using Suc.prems(1,3) k v deep nk a(2) m m_put_new[OF kn] by (simp_all add: Let_def)
    have "raw_read d s o' [(k, a)] [(k, j)]" by (rule raw_read_Cons[OF raw_read_Nil order_refl as a(3) key kn])
    then show ?thesis using e by blast
  next
    case False
    then have cc: "c = CHR '',''" using c by simp
    then obtain ms' where e: "parse_members (parse_value d) n t = Some (ms', r)" "ms = (k, j) # ms'" using Suc.prems(1) k v by auto
    have rec: "raw_members m' t (o' @ [(k, a)]) = Inr (o1, r1)"
      using Suc.prems(3) k v deep nk a(2) m cc m_put_new[OF kn] by (simp add: Let_def)
    obtain vs where vs: "r1 = r" "o1 = (o' @ [(k, a)]) @ vs" "raw_read d t (o' @ [(k, a)]) vs ms'"
      using Suc.IH[OF e(1) Suc.prems(2) rec] by blast
    have ts: "set t \<subseteq> set s" using r0s unfolding v(2) by auto
    have "raw_read d s o' ((k, a) # vs) ms" unfolding e(2) by (rule raw_read_Cons[OF vs(3) ts as a(3) key kn])
    then show ?thesis using vs(1,2) by (intro conjI exI[of _ "(k, a) # vs"]) simp_all
  qed
qed simp

text \<open>What the decoder gives is valid UTF-8.\<close>

lemma valid_rune: "rune_len s = Some (length s) \<Longrightarrow> valid_utf8 (s @ t) = valid_utf8 t"
  using valid_utf8_step[OF rune_len_append] by fastforce

lemma digits64:
  fixes u :: nat
  shows "u = 4096 * (u div 4096) + 64 * (u div 64 mod 64) + u mod 64"
    and "u = 262144 * (u div 262144) + 4096 * (u div 4096 mod 64) + 64 * (u div 64 mod 64) + u mod 64"
proof -
  have "u div 64 div 64 = u div 4096" "u div 4096 div 64 = u div 262144" by (simp_all add: div_mult2_eq[symmetric])
  then have "u div 64 = 64 * (u div 4096) + u div 64 mod 64" "u div 4096 = 64 * (u div 262144) + u div 4096 mod 64"
    using mult_div_mod_eq[of 64 "u div 64"] mult_div_mod_eq[of 64 "u div 4096"] by simp_all
  then show "u = 4096 * (u div 4096) + 64 * (u div 64 mod 64) + u mod 64"
    "u = 262144 * (u div 262144) + 4096 * (u div 4096 mod 64) + 64 * (u div 64 mod 64) + u mod 64"
    using mult_div_mod_eq[of 64 u] by linarith+
qed

lemma rune3:
  fixes p q w :: nat
  assumes "p < 16" and "q < 64" and "w < 64" and "p = 0 \<Longrightarrow> 32 \<le> q" and "p = 13 \<Longrightarrow> q < 32"
  shows "rune_len [char_of (0xE0 + p), char_of (0x80 + q), char_of (0x80 + w)] = Some 3"
  using assms by (auto simp: rune_len_def lead_len_def second_ok_def cont_def Let_def)

lemma rune4:
  fixes o' p q w :: nat
  assumes "o' < 5" and "p < 64" and "q < 64" and "w < 64" and "o' = 0 \<Longrightarrow> 16 \<le> p" and "o' = 4 \<Longrightarrow> p < 16"
  shows "rune_len [char_of (0xF0 + o'), char_of (0x80 + p), char_of (0x80 + q), char_of (0x80 + w)] = Some 4"
  using assms by (auto simp: rune_len_def lead_len_def second_ok_def cont_def Let_def)

lemma encode_rune_valid: "valid_utf8 (encode_rune u @ t) = valid_utf8 t"
proof -
  have r: "rune_len replacement = Some (length replacement)"
    by (simp add: replacement_def rune_len_def lead_len_def second_ok_def cont_def)
  consider (a) "u < 0x80" | (b) "0x80 \<le> u" "u < 0x800" | (s) "0x800 \<le> u" "0xD800 \<le> u \<and> u < 0xE000 \<or> 0x110000 \<le> u"
    | (c) "0x800 \<le> u" "u < 0x10000" "\<not> (0xD800 \<le> u \<and> u < 0xE000)" | (d) "0x10000 \<le> u" "u < 0x110000"
    by linarith
  then have "rune_len (encode_rune u) = Some (length (encode_rune u))"
  proof cases
    case a
    then show ?thesis by (simp add: encode_rune_def rune_len_def lead_len_def)
  next
    case b
    moreover have "2 \<le> u div 64" "u div 64 < 32" using b by linarith+
    ultimately show ?thesis by (simp add: encode_rune_def rune_len_def lead_len_def second_ok_def cont_def Let_def)
  next
    case s
    then show ?thesis using r by (simp add: encode_rune_def)
  next
    case c
    have m: "u div 64 mod 64 < 64" "u mod 64 < 64" "u div 4096 < 16" using c by (simp_all add: less_mult_imp_div_less)
    have z: "u div 4096 = 0 \<Longrightarrow> 32 \<le> u div 64 mod 64" "u div 4096 = 13 \<Longrightarrow> u div 64 mod 64 < 32"
      using c m digits64(1)[of u] by linarith+
    have e: "encode_rune u = [char_of (0xE0 + u div 4096), char_of (0x80 + u div 64 mod 64), char_of (0x80 + u mod 64)]"
      using c unfolding encode_rune_def by (simp only: if_False if_True not_less[symmetric]) auto
    show ?thesis unfolding e by (subst rune3[OF m(3,1,2) z]) simp_all
  next
    case d
    have m: "u div 4096 mod 64 < 64" "u div 64 mod 64 < 64" "u mod 64 < 64" "u div 262144 < 5" using d by (simp_all add: less_mult_imp_div_less)
    have z: "u div 262144 = 0 \<Longrightarrow> 16 \<le> u div 4096 mod 64" "u div 262144 = 4 \<Longrightarrow> u div 4096 mod 64 < 16"
      using d m digits64(2)[of u] by linarith+
    have e: "encode_rune u = [char_of (0xF0 + u div 262144), char_of (0x80 + u div 4096 mod 64), char_of (0x80 + u div 64 mod 64), char_of (0x80 + u mod 64)]"
      using d unfolding encode_rune_def by (simp only: if_False if_True not_less[symmetric]) auto
    show ?thesis unfolding e by (subst rune4[OF m(4,1,2,3) z]) simp_all
  qed
  then show ?thesis by (rule valid_rune)
qed

lemma parse_str_valid: "parse_str s = Some (x, r) \<Longrightarrow> valid_utf8 x"
proof (induction s arbitrary: x r rule: parse_str.induct)
  case (1 s)
  have rep: "valid_utf8 (replacement @ w) = valid_utf8 w" for w
    by (rule valid_rune) (simp add: replacement_def rune_len_def lead_len_def second_ok_def cont_def)
  have tk: "valid_utf8 (take n s @ w) = valid_utf8 w" if "rune_len s = Some n" for n w
    using valid_rune[of "take n s" w] rune_len_take[OF that order_refl] rune_len_pos[OF that] by simp
  have sim: "valid_utf8 (d # w) = valid_utf8 w" if "simple_esc e = Some d" for e d w
    using that by (intro valid_utf8_ascii) (auto simp: simple_esc_def split: if_splits)
  obtain c t where s: "s = c # t" using "1.prems" by (cases s) (auto simp: parse_str.simps)
  consider (quote) "c = quote_char" | (esc) "c = backslash" "c \<noteq> quote_char"
    | (ascii) "c \<noteq> quote_char" "c \<noteq> backslash" "\<not> byte c < 32" "byte c < 128"
    | (bad) "c \<noteq> quote_char" "c \<noteq> backslash" "\<not> byte c < 32" "\<not> byte c < 128" "rune_len s = None"
    | (rune) n where "c \<noteq> quote_char" "c \<noteq> backslash" "\<not> byte c < 32" "\<not> byte c < 128" "rune_len s = Some n"
    using "1.prems" unfolding s by (subst (asm) parse_str.simps) (auto split: if_splits)
  then show ?case
  proof cases
    case quote
    then show ?thesis using "1.prems" unfolding s by (simp add: parse_str.simps)
  next
    case ascii
    then obtain w where "parse_str t = Some (w, r)" "x = c # w"
      using "1.prems" unfolding s by (subst (asm) parse_str.simps) (auto simp: prepend_Some)
    then show ?thesis using "1.IH"(4)[OF s ascii] ascii by simp
  next
    case bad
    then obtain w where "parse_str t = Some (w, r)" "x = replacement @ w"
      using "1.prems" unfolding s by (subst (asm) parse_str.simps) (auto simp: prepend_Some)
    then show ?thesis using "1.IH"(5)[OF s bad] rep by simp
  next
    case (rune n)
    then obtain w where "parse_str (drop n s) = Some (w, r)" "x = take n s @ w"
      using "1.prems" unfolding s by (subst (asm) parse_str.simps) (auto simp: prepend_Some)
    then show ?thesis using "1.IH"(6)[OF s rune] tk[OF rune(5)] by simp
  next
    case esc
    then obtain e q where t: "t = e # q" using "1.prems" unfolding s by (subst (asm) parse_str.simps) (auto split: list.splits)
    show ?thesis
    proof (cases "simple_esc e")
      case (Some d)
      then obtain w where "parse_str q = Some (w, r)" "x = d # w"
        using "1.prems" esc unfolding s t by (subst (asm) parse_str.simps) (auto simp: prepend_Some)
      then show ?thesis using "1.IH"(3)[OF s esc(2,1) t Some] sim[OF Some] by simp
    next
      case None
      have u: "e = CHR ''u''"
        using "1.prems" None esc unfolding s t by (subst (asm) parse_str.simps) (auto split: if_splits)
      then have nu: "\<not> e \<noteq> CHR ''u''" by simp
      obtain v y where h: "hex4 q = Some (v, y)"
        using "1.prems" None esc u unfolding s t by (subst (asm) parse_str.simps) (auto split: option.splits)
      show ?thesis
      proof (cases "if 0xD800 \<le> v \<and> v < 0xE000 then low_pair v y else None")
        case n: None
        then obtain w where "parse_str y = Some (w, r)" "x = encode_rune v @ w"
          using "1.prems" None esc u h unfolding s t by (subst (asm) parse_str.simps) (auto simp: prepend_Some)
        then show ?thesis using "1.IH"(1)[OF s esc(2,1) t None nu h refl n] encode_rune_valid by simp
      next
        case l: (Some vz)
        obtain v' z where vz: "vz = (v', z)" by (cases vz)
        then obtain w where "parse_str z = Some (w, r)" "x = encode_rune v' @ w"
          using "1.prems" None esc u h l unfolding s t by (subst (asm) parse_str.simps) (auto simp: prepend_Some)
        then show ?thesis using "1.IH"(2)[OF s esc(2,1) t None nu h refl l vz[symmetric]] encode_rune_valid by simp
      qed
    qed
  qed
qed

section \<open>Reading and writing back\<close>

text \<open>An object as the decoder sees it: names that are valid UTF-8 and distinct, values that read as those of \<open>ms\<close>.\<close>

definition raw_as :: "nat \<Rightarrow> rawObject \<Rightarrow> (string \<times> json) list \<Rightarrow> bool" where
  "raw_as d o' ms \<longleftrightarrow> list_all2 (reads d) o' ms \<and> distinct (map fst o') \<and> list_all valid_utf8 (map fst o')"

lemma raw_as_keys: "raw_as d o' ms \<Longrightarrow> map fst ms = map fst o'"
  unfolding raw_as_def by (elim conjE, induction rule: list_all2_induct) (auto simp: reads_def)

theorem parseObject_reads:
  assumes "parseObject raw = Inr o'" and "parse_value (Suc d) (skip_ws raw) = Some (j, r)" and "d \<le> maxNestingDepth"
  shows "\<exists>ms. j = JObj ms \<and> raw_as d o' ms \<and> skip_ws r = [] \<and> (\<forall>x \<in> set o'. set (snd x) \<subseteq> set raw)"
proof -
  obtain t where t: "skip_ws raw = CHR ''{'' # t" using assms(1) by (auto simp: parseObject_def split: list.splits if_splits)
  obtain e u where e: "skip_ws t = e # u" using assms(1) t by (cases "skip_ws t") (auto simp: parseObject_def)
  show ?thesis
  proof (cases "e = CHR ''}''")
    case True
    then have "j = JObj []" "o' = []" "skip_ws r = []"
      using assms(1,2) t e by (auto simp: parseObject_def split: if_splits)
    then show ?thesis by (simp add: raw_as_def)
  next
    case False
    then obtain ms where ms: "parse_members (parse_value d) (length (skip_ws raw)) t = Some (ms, r)" "j = JObj ms"
      using assms(2) t e by auto
    obtain r1 where r1: "raw_members (length raw) t [] = Inr (o', r1)" "skip_ws r1 = []"
      using assms(1) t e False by (auto simp: parseObject_def split: sum.splits if_splits)
    obtain vs where vs: "r1 = r" "o' = vs" "raw_read d t [] vs ms"
      using raw_members_reads[OF ms(1) assms(3) r1(1)] by auto
    have "list_all valid_utf8 (map fst o')"
      using vs(2,3) parse_str_valid unfolding raw_read_def list_all_iff by fastforce
    then have "raw_as d o' ms" using vs(2,3) by (simp add: raw_as_def raw_read_def)
    moreover have "set t \<subseteq> set raw" using skip_ws_sub[of raw] unfolding t by auto
    then have "\<forall>x \<in> set o'. set (snd x) \<subseteq> set raw" using vs(2,3) unfolding raw_read_def by (meson order_trans)
    ultimately show ?thesis using ms(2) r1(2) vs(1) by blast
  qed
qed

lemma raw_member_append: "raw_member m @ r = quote_str (fst m) @ CHR '':'' # snd m @ r"
  by (simp add: raw_member_def)

lemma reads_key: "reads d m m' \<Longrightarrow> valid_utf8 (fst m) \<Longrightarrow> parse_key (raw_member m @ r) = Some (fst m', snd m @ r)"
  using parse_key_render[of "fst m" "snd m @ r"] by (simp add: raw_member_append reads_def to_valid_id)

lemma parse_members_raw:
  "list_all2 (reads d) ms ms' \<Longrightarrow> list_all valid_utf8 (map fst ms) \<Longrightarrow> ms \<noteq> [] \<Longrightarrow> length ms \<le> n \<Longrightarrow> d \<le> d' \<Longrightarrow>
    parse_members (parse_value d') n (join (map raw_member ms) '','' @ CHR ''}'' # r) = Some (ms', r)"
proof (induction ms ms' arbitrary: n rule: list_all2_induct)
  case (Cons m ms m' ms')
  then obtain l where n: "n = Suc l" "length ms \<le> l" by (cases n) auto
  have pv: "parse_value d (snd m) = Some (snd m', [])" using Cons.hyps(1) by (simp add: reads_def)
  have w: "skip_ws (snd m @ q) = snd m @ q" for q by (rule value_ws[OF pv])
  have k: "parse_key (raw_member m @ q) = Some (fst m', snd m @ q)" for q
    using reads_key[OF Cons.hyps(1)] Cons.prems(1) by simp
  show ?case
  proof (cases "ms = []")
    case True
    then have "ms' = []" using Cons.hyps(2) by simp
    moreover have "parse_value d' (snd m @ CHR ''}'' # r) = Some (snd m', CHR ''}'' # r)"
      by (rule value_inside[OF pv Cons.prems(4)]) (simp add: value_end_def)
    moreover have "skip_ws (CHR ''}'' # r) = CHR ''}'' # r" by (simp add: skip_ws_id is_ws_def)
    ultimately show ?thesis using n True w k by simp
  next
    case False
    let ?r = "CHR '','' # join (map raw_member ms) '','' @ CHR ''}'' # r"
    have "parse_value d' (snd m @ ?r) = Some (snd m', ?r)"
      by (rule value_inside[OF pv Cons.prems(4)]) (simp add: value_end_def)
    moreover have "skip_ws ?r = ?r" by (simp add: skip_ws_id is_ws_def)
    moreover have "parse_members (parse_value d') l (join (map raw_member ms) '','' @ CHR ''}'' # r) = Some (ms', r)"
      using Cons.IH[OF _ False n(2) Cons.prems(4)] Cons.prems(1) by simp
    ultimately show ?thesis using n False w k by (simp add: join_Cons)
  qed
qed simp

theorem raw_marshal_reads:
  assumes "raw_as d o' ms" and "d \<le> d'"
  shows "parse_value (Suc d') (raw_marshal o' @ r) = Some (JObj ms, r)"
proof (cases "o' = []")
  case True
  then show ?thesis using assms by (simp add: raw_marshal_def raw_as_def skip_ws_id is_ws_def)
next
  case False
  let ?t = "join (map raw_member o') '','' @ CHR ''}'' # r"
  have "length o' \<le> length (raw_marshal o' @ r)" using join_length[of "map raw_member o'"] by (simp add: raw_marshal_def)
  then have p: "parse_members (parse_value d') (length (raw_marshal o' @ r)) ?t = Some (ms, r)"
    using assms False by (intro parse_members_raw[of d]) (simp_all add: raw_as_def)
  have "opens (raw_member m @ q)" for m q by (simp add: raw_member_def opens_def quote_str_def is_ws_def quote_char_def)
  then have op: "opens ?t" using False by (intro join_opens) (auto simp: hd_map)
  then obtain e u where e: "?t = e # u" "e \<noteq> CHR ''}''" using opens_shape by blast
  have "raw_marshal o' @ r = CHR ''{'' # ?t" by (simp add: raw_marshal_def)
  then show ?thesis using e opens_ws[OF op] p by simp
qed

text \<open>Replacing a value, or adding a member.\<close>

lemma m_put_keys: "map fst (m_put k v m) = map fst m @ (if k \<in> fst ` set m then [] else [k])"
  unfolding m_put_def by (induction m) auto

lemma reads_pair: "reads d (k, v) (k', j) \<longleftrightarrow> k = k' \<and> parse_value d v = Some (j, [])"
  by (simp add: reads_def)

lemma raw_as_set:
  assumes "raw_as d o' ms" and "parse_value d v = Some (j, [])" and "valid_utf8 k"
  shows "raw_as d (raw_set o' k v) (m_put k j ms)"
proof -
  have "list_all2 (reads d) (m_put k v o') (m_put k j ms)" if "list_all2 (reads d) o' ms" for o' ms
    using that
  proof (induction rule: list_all2_induct)
    case Nil
    then show ?case using assms(2) by (simp add: m_put_def reads_pair)
  next
    case (Cons x xs y ys)
    then show ?case using assms(2) by (cases x; cases y) (auto simp: m_put_def reads_pair)
  qed
  moreover have "distinct (map fst (m_put k v o'))" using assms(1) by (simp add: m_put_keys raw_as_def)
  moreover have "list_all valid_utf8 (map fst (m_put k v o'))" using assms(1,3) by (simp add: m_put_keys raw_as_def)
  ultimately show ?thesis using assms(1) by (simp add: raw_as_def raw_set_def)
qed

section \<open>Arrays of raw elements\<close>

lemma raw_elems_reads:
  "parse_elems (parse_value d) n s = Some (js, r) \<Longrightarrow> d \<le> maxNestingDepth - 1 \<Longrightarrow> raw_elems m s = Some vs \<Longrightarrow>
    list_all2 (\<lambda>v j. parse_value d v = Some (j, [])) vs js \<and> (\<forall>v \<in> set vs. set v \<subseteq> set s)"
proof (induction n arbitrary: s js r m vs)
  case (Suc n)
  obtain j r0 c t where v: "parse_value d (skip_ws s) = Some (j, r0)" "skip_ws r0 = c # t"
    using Suc.prems(1) by (auto split: option.splits prod.splits list.splits)
  have c: "c = CHR '']'' \<or> c = CHR '',''" using Suc.prems(1) v by (auto split: if_splits)
  obtain m' where m: "m = Suc m'" using Suc.prems(3) by (cases m) auto
  have ve: "value_end r0" using value_end_sep[OF v(2)] c by blast
  note deep = value_deeper[OF v(1) Suc.prems(2) ve]
  obtain a where a: "skip_ws s = a @ r0" "take (length (skip_ws s) - length r0) (skip_ws s) = a" "parse_value d a = Some (j, [])"
    by (rule value_taken[OF v(1)]) blast
  have sub: "set a \<subseteq> set s" "set (skip_ws r0) \<subseteq> set s"
    using skip_ws_sub[of s] skip_ws_sub[of r0] unfolding a(1) by auto
  show ?case
  proof (cases "c = CHR '']''")
    case True
    then have "js = [j]" "vs = [a]" using Suc.prems(1,3) v deep a(2) m by (simp_all add: Let_def)
    then show ?thesis using a(3) sub(1) by simp
  next
    case False
    then have cc: "c = CHR '',''" using c by simp
    then obtain js' where e: "parse_elems (parse_value d) n t = Some (js', r)" "js = j # js'" using Suc.prems(1) v by auto
    obtain vs' where e': "raw_elems m' t = Some vs'" "vs = a # vs'" using Suc.prems(3) v deep a(2) m cc by (auto simp: Let_def)
    have ts: "set t \<subseteq> set s" using sub(2) unfolding v(2) by simp
    have "\<forall>v \<in> set vs'. set v \<subseteq> set t" "list_all2 (\<lambda>v j. parse_value d v = Some (j, [])) vs' js'"
      using Suc.IH[OF e(1) Suc.prems(2) e'(1)] by blast+
    then show ?thesis using e(2) e'(2) a(3) sub(1) ts by (simp add: order_trans[of _ "set t" "set s"])
  qed
qed simp

lemma rawArray_reads:
  assumes "rawArray raw = Some vs" and "parse_value (Suc d) raw = Some (JArr js, [])" and "Suc d \<le> maxNestingDepth"
  shows "list_all2 (\<lambda>v j. parse_value d v = Some (j, [])) vs js \<and> (\<forall>v \<in> set vs. set v \<subseteq> set raw)"
proof -
  have w: "skip_ws raw = raw" using value_ws[OF assms(2), of "[]"] by simp
  have "parse_value maxNestingDepth raw = Some (JArr js, [])"
    by (rule value_deeper[OF assms(2,3)]) (simp add: value_end_def)
  then have jp: "json_parse raw = Some (JArr js)" by (simp add: json_parse_def w)
  show ?thesis
  proof (cases js)
    case Nil
    then show ?thesis using assms(1) jp by (simp add: rawArray_def)
  next
    case (Cons j js')
    have s: "parse_scalar raw \<noteq> Some (JArr js, [])" by (auto simp: parse_scalar_def split: if_splits list.splits)
    then obtain t where t: "raw = CHR ''['' # t" using assms(2) by (auto split: list.splits if_splits)
    then obtain e u where e: "skip_ws t = e # u" using assms(2) by (cases "skip_ws t") auto
    have "e \<noteq> CHR '']''" using assms(2) t e Cons by auto
    then have pe: "parse_elems (parse_value d) (length raw) t = Some (js, [])" using assms(2) t e by auto
    have "raw_elems (length raw) t = Some vs" using assms(1) jp Cons w t by (simp add: rawArray_def)
    from raw_elems_reads[OF pe _ this] assms(3) show ?thesis unfolding t by fastforce
  qed
qed

end
