(* ===== verification/Json_Compact.thy ===== *)
theory Json_Compact
  imports Json_Raw
begin

text \<open>
  The compaction of a raw value (\<open>json.Marshal\<close> of a \<open>json.RawMessage\<close>) changes its bytes and
  not what they read as: white space goes, some characters of strings become escapes.
\<close>

section \<open>Strings\<close>

text \<open>An encoding is decided by the continuation bytes that follow, and compaction leaves those.\<close>

lemma take_conts: "list_all P (take n t) \<Longrightarrow> n \<le> length t \<Longrightarrow> n \<le> length (takeWhile P t)"
proof (induction t arbitrary: n)
  case (Cons x t)
  then show ?case by (cases n) simp_all
qed simp

lemma take_same: "n \<le> length (takeWhile P t) \<Longrightarrow> take n t = take n (takeWhile P t)"
proof (induction t arbitrary: n)
  case (Cons x t)
  then show ?case by (cases n) (auto split: if_splits)
qed simp

lemma rune_len_conts: "takeWhile cont t = takeWhile cont t' \<Longrightarrow> rune_len (c # t) = None \<Longrightarrow> rune_len (c # t') = None"
proof (rule ccontr)
  assume e: "takeWhile cont t = takeWhile cont t'" and n: "rune_len (c # t) = None" and s: "rune_len (c # t') \<noteq> None"
  let ?k = "lead_len c - 1"
  have k: "1 \<le> lead_len c" "lead_len c \<le> Suc (length t')" "tail_ok c (take ?k t')"
    using s by (auto simp: rune_len_def Let_def split: if_splits)
  then have "?k \<le> length (takeWhile cont t')" using take_conts[of cont ?k t'] tail_cont by auto
  then have l: "?k \<le> length (takeWhile cont t)" using e by simp
  have "take ?k t = take ?k t'" using take_same[OF l] take_same[of ?k cont t'] l e by simp
  moreover have "?k \<le> length t" using l length_takeWhile_le[of cont t] by linarith
  ultimately have "rune_len (c # t) \<noteq> None" using k by (simp add: rune_len_def Let_def)
  then show False using n by simp
qed

lemma takeWhile_compact: "takeWhile cont (compact_in s) = takeWhile cont s"
proof (induction s)
  case (Cons c s)
  have nc: "\<not> cont backslash" "\<not> cont quote_char" by (simp_all add: cont_def)
  have asc: "\<not> cont CHR ''<''" "\<not> cont CHR ''>''" "\<not> cont CHR ''&''" by (simp_all add: cont_def)
  have sep: "\<not> cont c" if "take 3 (c # s) = line_sep \<or> take 3 (c # s) = para_sep"
    using that by (auto simp: line_sep_def para_sep_def cont_def)
  show ?case using Cons nc asc sep
    by (auto simp: esc_ascii_def u_esc_def quote_char_def backslash_def split: list.splits)
qed simp

text \<open>The bytes that are copied.\<close>

definition copied :: "char \<Rightarrow> bool" where
  "copied c \<longleftrightarrow> c \<noteq> backslash \<and> c \<noteq> quote_char \<and> c \<noteq> CHR ''<'' \<and> c \<noteq> CHR ''>'' \<and> c \<noteq> CHR ''&'' \<and> byte c \<noteq> 0xE2"

lemma compact_copied: "copied c \<Longrightarrow> compact_in (c # s) = c # compact_in s"
proof -
  assume c: "copied c"
  have "c \<noteq> CHR 0xE2" using c by (auto simp: copied_def)
  then have "take 3 (c # s) \<noteq> line_sep" "take 3 (c # s) \<noteq> para_sep" by (simp_all add: line_sep_def para_sep_def)
  then show ?thesis using c by (simp add: copied_def)
qed

lemma compact_copies: "list_all copied u \<Longrightarrow> compact_in (u @ s) = u @ compact_in s"
  by (induction u) (simp_all add: compact_copied del: compact_in.simps)

lemma cont_copied: "cont c \<Longrightarrow> copied c"
  by (auto simp: cont_def copied_def)

lemma hex_copied: "hex_val c = Some n \<Longrightarrow> copied c"
  by (auto simp: hex_val_def copied_def quote_char_def backslash_def split: if_splits)

lemma hex4_chars: "hex4 s = Some (u, t) \<Longrightarrow> \<exists>p. s = p @ t \<and> list_all copied p \<and> (\<forall>t'. hex4 (p @ t') = Some (u, t'))"
proof (induction s rule: hex4.induct)
  case (1 a b c d t)
  then show ?case by (intro exI[of _ "[a, b, c, d]"]) (auto split: option.splits intro: hex_copied)
qed simp_all

text \<open>A hexadecimal digit of the compacted text is one of the text.\<close>

lemma compact_head:
  assumes "compact_in s = c # t" and "hex_val c = Some n"
  shows "\<exists>s'. s = c # s' \<and> t = compact_in s'"
proof -
  have h: "hex_val backslash = None" "hex_val quote_char = None" by (simp_all add: hex_val_def)
  obtain d s' where s: "s = d # s'" using assms(1) by (cases s) auto
  show ?thesis
  proof (cases "copied d")
    case True
    then show ?thesis using assms(1) compact_copied s by simp
  next
    case False
    have e: "\<exists>u. esc_ascii d = backslash # u" if "d = CHR ''<'' \<or> d = CHR ''>'' \<or> d = CHR ''&''"
      using that by (auto simp: esc_ascii_def quote_char_def backslash_def)
    have "(\<exists>u. compact_in s = backslash # u) \<or> (\<exists>u. compact_in s = quote_char # u) \<or> compact_in s = d # compact_in s'"
    proof (cases "d = backslash")
      case True
      then show ?thesis unfolding s by (cases s') simp_all
    next
      case nb: False
      then show ?thesis using e unfolding s compact_in.simps(2) if_not_P[OF nb] by (auto simp: u_esc_def simp del: compact_in.simps compact_out.simps)
    qed
    then show ?thesis using assms h s by auto
  qed
qed

lemma hex4_compact:
  assumes "hex4 (compact_in s) = Some (u, t)"
  shows "\<exists>s'. hex4 s = Some (u, s')"
proof -
  obtain a b c d where e: "compact_in s = a # b # c # d # t" "hex_val a \<noteq> None" "hex_val b \<noteq> None" "hex_val c \<noteq> None" "hex_val d \<noteq> None"
    using assms by (cases "compact_in s" rule: hex4.cases) (auto split: option.splits)
  obtain s1 where s1: "s = a # s1" "b # c # d # t = compact_in s1" using compact_head[OF e(1)] e(2) by blast
  obtain s2 where s2: "s1 = b # s2" "c # d # t = compact_in s2" using compact_head[OF s1(2)[symmetric]] e(3) by blast
  obtain s3 where s3: "s2 = c # s3" "d # t = compact_in s3" using compact_head[OF s2(2)[symmetric]] e(4) by blast
  obtain s4 where s4: "s3 = d # s4" using compact_head[OF s3(2)[symmetric]] e(5) by blast
  show ?thesis using assms e(1) unfolding s1(1) s2(1) s3(1) s4 by (auto split: option.splits)
qed

lemma low_pair_compact: "low_pair u s = None \<Longrightarrow> low_pair u (compact_in s) = None"
proof (rule ccontr)
  assume n: "low_pair u s = None" and c: "low_pair u (compact_in s) \<noteq> None"
  have q: "CHR ''u'' \<noteq> quote_char" "quote_char \<noteq> backslash" by (simp_all add: quote_char_def backslash_def)
  obtain t l r where t: "compact_in s = backslash # CHR ''u'' # t" "hex4 t = Some (l, r)" "u < 0xDC00" "0xDC00 \<le> l" "l < 0xE000"
    using c by (auto simp: low_pair_def split: list.splits if_splits option.splits prod.splits)
  obtain d s' where s: "s = d # s'" using t(1) by (cases s) auto
  show False
  proof (cases "d = backslash")
    case True
    then obtain s'' where "s' = CHR ''u'' # s''" "t = compact_in s''" using t(1) s by (auto split: list.splits)
    moreover from this obtain r' where "hex4 s'' = Some (l, r')" using hex4_compact t(2) by blast
    ultimately show False using n t(3-5) True s by (simp add: low_pair_def)
  next
    case False
    then have "d \<noteq> quote_char" using t(1) s q by auto
    then consider (a) "d = CHR ''<'' \<or> d = CHR ''>'' \<or> d = CHR ''&''" | (l) "take 3 s = line_sep" | (p) "take 3 s = para_sep" 
      using t(1) s False by (auto split: if_splits)
    then show False
    proof cases
      case a
      then have "\<exists>x. hex4 t = Some x \<and> fst x < 256"
        using t(1) s by (auto simp: esc_ascii_def quote_char_def backslash_def hex_char_def hex_val_def)
      then show False using t(2,4) by simp
    next
      case l
      then have "hex4 t = Some (0x2028, compact_in (drop 2 s'))"
        using t(1) s False \<open>d \<noteq> quote_char\<close> hex4_consts by (auto simp: u_esc_def line_sep_def)
      then show False using t(2,4) by simp
    next
      case p
      then have "hex4 t = Some (0x2029, compact_in (drop 2 s'))"
        using t(1) s False \<open>d \<noteq> quote_char\<close> hex4_consts by (auto simp: u_esc_def para_sep_def line_sep_def)
      then show False using t(2,4) by simp
    qed
  qed
qed

text \<open>An encoding that is no separator is copied.\<close>

lemma sep_rune: "take 3 s = line_sep \<or> take 3 s = para_sep \<Longrightarrow> rune_len s = Some 3"
proof -
  have "rune_len line_sep = Some 3" "rune_len para_sep = Some 3"
    by (simp_all add: line_sep_def para_sep_def rune_len_def lead_len_def second_ok_def cont_def)
  moreover assume "take 3 s = line_sep \<or> take 3 s = para_sep"
  ultimately have "rune_len (take 3 s) = Some 3" by auto
  from rune_len_append[OF this, of "drop 3 s"] show ?thesis by simp
qed

lemma compact_rune:
  assumes "\<not> byte c < 128" and "rune_len (c # t) = Some n"
  shows "compact_in (c # t) =
    (if take n (c # t) = line_sep then u_esc ''2028'' else if take n (c # t) = para_sep then u_esc ''2029'' else take n (c # t)) @
    compact_in (drop n (c # t))"
proof -
  have ns: "c \<noteq> backslash" "c \<noteq> quote_char" "c \<noteq> CHR ''<''" "c \<noteq> CHR ''>''" "c \<noteq> CHR ''&''" using assms(1) by auto
  obtain u r where u: "c # t = c # u @ r" "length u = n - 1" "list_all cont u"
    using rune_shape[OF assms(2)] by (metis list.inject)
  have n: "1 \<le> n" "n \<le> Suc (length t)" using rune_len_pos[OF assms(2)] by simp_all
  have tn: "take n (c # t) = c # u" "drop n (c # t) = r" using u n by (cases n; simp)+
  have three: "n = 3" if "take 3 (c # t) = line_sep \<or> take 3 (c # t) = para_sep"
    using sep_rune[OF that] assms(2) by simp
  show ?thesis
  proof (cases "take 3 (c # t) = line_sep \<or> take 3 (c # t) = para_sep")
    case True
    then have "n = 3" by (rule three)
    then have "drop n (c # t) = drop 2 t" by (simp add: numeral_3_eq_3 numeral_2_eq_2)
    then show ?thesis using True ns \<open>n = 3\<close> by (simp only:) auto
  next
    case False
    then have "take n (c # t) \<noteq> line_sep" "take n (c # t) \<noteq> para_sep"
    proof -
      have "length (take n (c # t)) = n" using n by simp
      then have "n = 3" if "take n (c # t) = line_sep \<or> take n (c # t) = para_sep"
        using that by (elim disjE) (simp_all add: line_sep_def para_sep_def)
      then show "take n (c # t) \<noteq> line_sep" "take n (c # t) \<noteq> para_sep" using False by auto
    qed
    moreover have "compact_in (c # t) = c # compact_in t" using False ns by simp
    moreover have "compact_in t = u @ compact_in r"
      using u(1,3) compact_copies[of u r] cont_copied by (auto simp: list_all_iff)
    ultimately show ?thesis by (simp add: tn)
  qed
qed

lemma compact_bad: "\<not> byte c < 128 \<Longrightarrow> rune_len (c # t) = None \<Longrightarrow> compact_in (c # t) = c # compact_in t"
proof -
  assume a: "\<not> byte c < 128" "rune_len (c # t) = None"
  then have "c \<noteq> backslash" "c \<noteq> quote_char" "c \<noteq> CHR ''<''" "c \<noteq> CHR ''>''" "c \<noteq> CHR ''&''" by auto
  moreover have "take 3 (c # t) \<noteq> line_sep" "take 3 (c # t) \<noteq> para_sep" using sep_rune[of "c # t"] a(2) by auto
  ultimately show ?thesis by simp
qed

lemma compact_ascii:
  "c \<noteq> quote_char \<Longrightarrow> c \<noteq> backslash \<Longrightarrow> \<not> byte c < 32 \<Longrightarrow> byte c < 128 \<Longrightarrow> compact_in (c # t) = esc_ascii c @ compact_in t"
proof -
  assume c: "c \<noteq> quote_char" "c \<noteq> backslash" "\<not> byte c < 32" "byte c < 128"
  show ?thesis
  proof (cases "c = CHR ''<'' \<or> c = CHR ''>'' \<or> c = CHR ''&''")
    case False
    then have "esc_ascii c = [c]" using c by (simp add: esc_ascii_def)
    moreover have "copied c" using c False by (auto simp: copied_def)
    ultimately show ?thesis using compact_copied by simp
  qed (use c in simp)
qed

lemma parse_esc: "simple_esc e = Some d \<Longrightarrow> parse_str (backslash # e # u) = prepend [d] (parse_str u)"
  by (subst parse_str.simps) (simp add: quote_char_def backslash_def)

lemma parse_u:
  assumes "hex4 q = Some (v, y)" and "(if 0xD800 \<le> v \<and> v < 0xE000 then low_pair v y else None) = lp"
  shows "parse_str (backslash # CHR ''u'' # q) =
    (case lp of Some (w, z) \<Rightarrow> prepend (encode_rune w) (parse_str z) | None \<Rightarrow> prepend (encode_rune v) (parse_str y))"
proof -
  have "simple_esc CHR ''u'' = None" "backslash \<noteq> quote_char" by (simp_all add: simple_esc_def quote_char_def backslash_def)
  then show ?thesis using assms by (subst parse_str.simps) (cases "0xD800 \<le> v \<and> v < 0xE000"; auto split: option.splits)
qed

lemma compact_str:
  "parse_str s = Some (x, r) \<Longrightarrow> \<exists>a. compact_in s = a @ quote_char # compact_out r \<and> (\<forall>r'. parse_str (a @ quote_char # r') = Some (x, r'))"
proof (induction s arbitrary: x r rule: parse_str.induct)
  case (1 s)
  obtain c t where s: "s = c # t" using "1.prems" by (cases s) (auto simp: parse_str.simps)
  consider (quote) "c = quote_char" | (esc) "c = backslash" "c \<noteq> quote_char"
    | (ascii) "c \<noteq> quote_char" "c \<noteq> backslash" "\<not> byte c < 32" "byte c < 128"
    | (bad) "c \<noteq> quote_char" "c \<noteq> backslash" "\<not> byte c < 32" "\<not> byte c < 128" "rune_len s = None"
    | (rune) n where "c \<noteq> quote_char" "c \<noteq> backslash" "\<not> byte c < 32" "\<not> byte c < 128" "rune_len s = Some n"
    using "1.prems" unfolding s by (subst (asm) parse_str.simps) (auto split: if_splits)
  then show ?case
  proof cases
    case quote
    have "quote_char \<noteq> backslash" by (simp add: quote_char_def backslash_def)
    then show ?thesis using "1.prems" quote unfolding s by (intro exI[of _ "[]"]) (simp add: parse_str.simps)
  next
    case ascii
    then obtain w where w: "parse_str t = Some (w, r)" "x = c # w"
      using "1.prems" unfolding s by (subst (asm) parse_str.simps) (auto simp: prepend_Some)
    obtain a where a: "compact_in t = a @ quote_char # compact_out r" "\<forall>r'. parse_str (a @ quote_char # r') = Some (w, r')"
      using "1.IH"(4)[OF s ascii w(1)] by blast
    show ?thesis using a w s compact_ascii[OF ascii] parse_str_esc_ascii[OF ascii(4)]
      by (intro exI[of _ "esc_ascii c @ a"]) (simp add: prepend_def del: compact_in.simps)
  next
    case bad
    then obtain w where w: "parse_str t = Some (w, r)" "x = replacement @ w"
      using "1.prems" unfolding s by (subst (asm) parse_str.simps) (auto simp: prepend_Some)
    obtain a where a: "compact_in t = a @ quote_char # compact_out r" "\<forall>r'. parse_str (a @ quote_char # r') = Some (w, r')"
      using "1.IH"(5)[OF s bad w(1)] by blast
    have "rune_len (c # compact_in t) = None"
      using rune_len_conts[of t "compact_in t" c] takeWhile_compact[of t] bad(5) s by simp
    then have "rune_len (c # a @ quote_char # r') = None" for r'
      unfolding a(1) using rune_len_quote[of c a r'] rune_len_quote[of c a "compact_out r"] by simp
    then show ?thesis using a bad w s compact_bad[OF bad(4)] bad(5)
      by (intro exI[of _ "c # a"]) (simp add: parse_str.simps[of "c # _"] prepend_def del: compact_in.simps)
  next
    case (rune n)
    then obtain w where w: "parse_str (drop n s) = Some (w, r)" "x = take n s @ w"
      using "1.prems" unfolding s by (subst (asm) parse_str.simps) (auto simp: prepend_Some)
    obtain a where a: "compact_in (drop n s) = a @ quote_char # compact_out r" "\<forall>r'. parse_str (a @ quote_char # r') = Some (w, r')"
      using "1.IH"(6)[OF s rune w(1)] by blast
    let ?e = "if take n s = line_sep then u_esc ''2028'' else if take n s = para_sep then u_esc ''2029'' else take n s"
    have "parse_str (?e @ u) = prepend (take n s) (parse_str u)" for u
    proof -
      have "parse_str (take n s @ u) = prepend (take n s) (parse_str u)"
        unfolding s by (rule parse_str_rune[OF rune(4)]) (use rune(5) s in simp)
      moreover have "parse_str (u_esc ''2028'' @ u) = prepend line_sep (parse_str u)" "parse_str (u_esc ''2029'' @ u) = prepend para_sep (parse_str u)"
        using parse_str_hex[OF hex4_consts(2)] parse_str_hex[OF hex4_consts(3)] encode_consts by simp_all
      ultimately show ?thesis by simp
    qed
    moreover have "compact_in s = ?e @ compact_in (drop n s)"
      using compact_rune[OF rune(4)] rune(5) unfolding s by blast
    ultimately show ?thesis using a w by (intro exI[of _ "?e @ a"]) (simp add: prepend_def del: compact_in.simps)
  next
    case esc
    then obtain e q where t: "t = e # q" using "1.prems" unfolding s by (subst (asm) parse_str.simps) (auto split: list.splits)
    have cs: "compact_in s = backslash # e # compact_in q" using s t esc by simp
    show ?thesis
    proof (cases "simple_esc e")
      case (Some d)
      then obtain w where w: "parse_str q = Some (w, r)" "x = d # w"
        using "1.prems" esc unfolding s t by (subst (asm) parse_str.simps) (auto simp: prepend_Some)
      obtain a where a: "compact_in q = a @ quote_char # compact_out r" "\<forall>r'. parse_str (a @ quote_char # r') = Some (w, r')"
        using "1.IH"(3)[OF s esc(2,1) t Some w(1)] by blast
      show ?thesis using a w cs parse_esc[OF Some]
        by (intro exI[of _ "backslash # e # a"]) (simp add: prepend_def del: compact_in.simps)
    next
      case None
      have u: "e = CHR ''u''"
        using "1.prems" None esc unfolding s t by (subst (asm) parse_str.simps) (auto split: if_splits)
      then have nu: "\<not> e \<noteq> CHR ''u''" by simp
      obtain v y where h: "hex4 q = Some (v, y)"
        using "1.prems" None esc u unfolding s t by (subst (asm) parse_str.simps) (auto split: option.splits)
      obtain p where p: "q = p @ y" "list_all copied p" "\<And>t'. hex4 (p @ t') = Some (v, t')" using hex4_chars[OF h] by blast
      have cq: "compact_in q = p @ compact_in y" unfolding p(1) by (rule compact_copies[OF p(2)])
      let ?lp = "if 0xD800 \<le> v \<and> v < 0xE000 then low_pair v y else None"
      have ps: "parse_str s = (case ?lp of Some (w, z) \<Rightarrow> prepend (encode_rune w) (parse_str z) | None \<Rightarrow> prepend (encode_rune v) (parse_str y))"
        using parse_u[OF h refl] unfolding s t esc(1) u .
      show ?thesis
      proof (cases ?lp)
        case n: None
        then obtain w where w: "parse_str y = Some (w, r)" "x = encode_rune v @ w" using "1.prems" ps by (auto simp: prepend_Some)
        obtain a where a: "compact_in y = a @ quote_char # compact_out r" "\<forall>r'. parse_str (a @ quote_char # r') = Some (w, r')"
          using "1.IH"(1)[OF s esc(2,1) t None nu h refl n w(1)] by blast
        have "(if 0xD800 \<le> v \<and> v < 0xE000 then low_pair v (a @ quote_char # r') else None) = None" for r'
          using n low_pair_compact[of v y] low_pair_none[of v a "compact_out r" r'] unfolding a(1) by auto
        from parse_u[OF p(3) this] have "parse_str (backslash # CHR ''u'' # p @ a @ quote_char # r') = Some (x, r')" for r'
          using a(2) w(2) by (simp add: prepend_def)
        then show ?thesis using cs cq a(1) u by (intro exI[of _ "backslash # e # p @ a"]) simp
      next
        case l: (Some vz)
        obtain v' z where vz: "vz = (v', z)" by (cases vz)
        then obtain w where w: "parse_str z = Some (w, r)" "x = encode_rune v' @ w" using "1.prems" ps l by (auto simp: prepend_Some)
        obtain a where a: "compact_in z = a @ quote_char # compact_out r" "\<forall>r'. parse_str (a @ quote_char # r') = Some (w, r')"
          using "1.IH"(2)[OF s esc(2,1) t None nu h refl l vz[symmetric] w(1)] by blast
        have lv: "0xD800 \<le> v \<and> v < 0xE000" "low_pair v y = Some (v', z)" using l vz by (auto split: if_splits)
        obtain y2 l2 where y: "y = backslash # CHR ''u'' # y2" "hex4 y2 = Some (l2, z)"
          using lv(2) by (auto simp: low_pair_def split: list.splits if_splits option.splits prod.splits)
        obtain p' where p': "y2 = p' @ z" "list_all copied p'" "\<And>t'. hex4 (p' @ t') = Some (l2, t')" using hex4_chars[OF y(2)] by blast
        have cy: "compact_in y = backslash # CHR ''u'' # p' @ compact_in z"
          using compact_copies[OF p'(2), of z] unfolding y(1) p'(1) by simp
        have "low_pair v (backslash # CHR ''u'' # p' @ t') = Some (v', t')" for t'
          using lv(2) y p'(3) by (auto simp: low_pair_def split: if_splits)
        then have "(if 0xD800 \<le> v \<and> v < 0xE000 then low_pair v (backslash # CHR ''u'' # p' @ t') else None) = Some (v', t')" for t'
          using lv(1) by simp
        from parse_u[OF p(3) this] have "parse_str (backslash # CHR ''u'' # p @ backslash # CHR ''u'' # p' @ a @ quote_char # r') = Some (x, r')" for r'
          using a(2) w(2) by (simp add: prepend_def)
        then show ?thesis using cs cq cy a(1) u by (intro exI[of _ "backslash # e # p @ backslash # CHR ''u'' # p' @ a"]) simp
      qed
    qed
  qed
qed

section \<open>Values\<close>

lemma compact_skip: "compact_out (skip_ws s) = compact_out s"
  unfolding skip_ws_def by (induction s) (auto simp del: compact_in.simps)

lemma compact_plain: "\<not> is_ws c \<Longrightarrow> c \<noteq> quote_char \<Longrightarrow> compact_out (c # s) = c # compact_out s"
  by simp

lemma compact_plains: "list_all (\<lambda>c. \<not> is_ws c \<and> c \<noteq> quote_char) a \<Longrightarrow> compact_out (a @ s) = a @ compact_out s"
  by (induction a) (simp_all del: compact_in.simps)

lemma compact_quote: "compact_out (quote_char # s) = quote_char # compact_in s"
  by (simp add: is_ws_def)

text \<open>A reader that reads the same value from the compacted text.\<close>

definition compacts :: "(string \<Rightarrow> ('a \<times> string) option) \<Rightarrow> bool" where
  "compacts p \<longleftrightarrow> (\<forall>s j r. p s = Some (j, r) \<longrightarrow>
     (\<exists>a. compact_out s = a @ compact_out r \<and> a \<noteq> [] \<and> \<not> is_ws (hd a) \<and> hd a \<noteq> CHR '']'' \<and>
        (\<forall>r'. value_end r' \<longrightarrow> p (a @ r') = Some (j, r'))))"

lemma compactsD:
  assumes "compacts p" and "p s = Some (j, r)"
  obtains a where "compact_out s = a @ compact_out r" and "a \<noteq> []" and "\<not> is_ws (hd a)" and "hd a \<noteq> CHR '']''"
    and "\<And>r'. value_end r' \<Longrightarrow> p (a @ r') = Some (j, r')"
  using assms unfolding compacts_def by blast

lemma compacts_scalar: "compacts parse_scalar"
  unfolding compacts_def
proof (intro allI impI)
  fix s j r assume p: "parse_scalar s = Some (j, r)"
  have kw: "\<exists>a. compact_out s = a @ compact_out r \<and> a \<noteq> [] \<and> \<not> is_ws (hd a) \<and> hd a \<noteq> CHR '']'' \<and>
        (\<forall>r'. value_end r' \<longrightarrow> parse_scalar (a @ r') = Some (j, r'))" if "s = k @ r" "list_all (\<lambda>c. \<not> is_ws c \<and> c \<noteq> quote_char) k" "k \<noteq> []" "hd k \<noteq> CHR '']''"
    "\<And>r'. value_end r' \<Longrightarrow> parse_scalar (k @ r') = Some (j, r')" for k
    using that compact_plains[OF that(2), of r] by (intro exI[of _ k]) (cases k; auto)
  consider (null) "hasPrefix s ''null''" | (true) "\<not> hasPrefix s ''null''" "hasPrefix s ''true''"
    | (false) "\<not> hasPrefix s ''null''" "\<not> hasPrefix s ''true''" "hasPrefix s ''false''"
    | (other) "\<not> hasPrefix s ''null''" "\<not> hasPrefix s ''true''" "\<not> hasPrefix s ''false''" by blast
  then show "\<exists>a. compact_out s = a @ compact_out r \<and> a \<noteq> [] \<and> \<not> is_ws (hd a) \<and> hd a \<noteq> CHR '']'' \<and>
        (\<forall>r'. value_end r' \<longrightarrow> parse_scalar (a @ r') = Some (j, r'))"
  proof cases
    case null
    then show ?thesis using p by (intro kw[of "''null''"]) (auto simp: parse_scalar_def hasPrefix_iff is_ws_def quote_char_def)
  next
    case true
    then show ?thesis using p by (intro kw[of "''true''"]) (auto simp: parse_scalar_def hasPrefix_iff is_ws_def quote_char_def)
  next
    case false
    then show ?thesis using p by (intro kw[of "''false''"]) (auto simp: parse_scalar_def hasPrefix_iff is_ws_def quote_char_def)
  next
    case other
    obtain c t where s: "s = c # t" using p other by (cases s) (auto simp: parse_scalar_def)
    show ?thesis
    proof (cases "c = quote_char")
      case True
      then obtain x where x: "parse_str t = Some (x, r)" "j = JStr x" using p other s by (auto simp: parse_scalar_def)
      obtain a where a: "compact_in t = a @ quote_char # compact_out r" "\<forall>r'. parse_str (a @ quote_char # r') = Some (x, r')"
        using compact_str[OF x(1)] by blast
      have "parse_scalar ((quote_char # a @ [quote_char]) @ r') = Some (j, r')" for r'
        using a(2) x(2) by (simp add: parse_scalar_def hasPrefix_def quote_char_def)
      moreover have "compact_out s = (quote_char # a @ [quote_char]) @ compact_out r"
        using compact_quote[of t] True s a(1) by simp
      ultimately show ?thesis by (intro exI[of _ "quote_char # a @ [quote_char]"]) (simp add: is_ws_def quote_char_def)
    next
      case False
      then obtain x where x: "parse_num s = Some (x, r)" "j = JNum x" using p other s by (auto simp: parse_scalar_def)
      note n = parse_num_local[OF x(1)]
      have ch: "list_all (\<lambda>c. \<not> is_ws c \<and> c \<noteq> quote_char) x"
        using parse_num_chars[OF x(1)] by (rule list.pred_mono_strong) (auto simp: num_char_def is_ws_def is_digit_def quote_char_def)
      obtain d y where d: "x = d # y" "d = CHR ''-'' \<or> is_digit d" using n by (cases x) auto
      then have "d \<noteq> quote_char" "d \<noteq> CHR ''n''" "d \<noteq> CHR ''t''" "d \<noteq> CHR ''f''" "d \<noteq> CHR '']''"
        by (auto simp: quote_char_def is_digit_def)
      then have "parse_scalar (x @ r') = Some (j, r')" if "value_end r'" for r'
        using n d x(2) that by (auto simp: parse_scalar_def hasPrefix_def)
      then show ?thesis using n ch d \<open>d \<noteq> CHR '']''\<close> by (intro kw[of x]) simp_all
    qed
  qed
qed

text \<open>One value and its separator, compacted.\<close>

lemma compact_one:
  assumes "compacts p" and "p (skip_ws s) = Some (j, r)" and "skip_ws r = c # t" and "c = CHR '','' \<or> c = CHR '']'' \<or> c = CHR ''}''"
  obtains a where "compact_out s = a @ c # compact_out t" and "a \<noteq> []" and "\<not> is_ws (hd a)" and "hd a \<noteq> CHR '']''"
    and "\<And>u. skip_ws (a @ c # u) = a @ c # u" and "\<And>u. p (a @ c # u) = Some (j, c # u)" and "\<And>u. skip_ws (c # u) = c # u"
proof -
  obtain a where a: "compact_out (skip_ws s) = a @ compact_out r" "a \<noteq> []" "\<not> is_ws (hd a)" "hd a \<noteq> CHR '']''"
    "\<And>r'. value_end r' \<Longrightarrow> p (a @ r') = Some (j, r')" by (rule compactsD[OF assms(1,2)]) blast
  have cw: "\<not> is_ws c" "c \<noteq> quote_char" using assms(4) by (auto simp: is_ws_def quote_char_def)
  have "compact_out r = c # compact_out t" using compact_skip[of r] assms(3) cw by simp
  moreover have "value_end (c # u)" for u using assms(4) by (auto simp: value_end_def)
  moreover have "skip_ws (a @ c # u) = a @ c # u" for u using a(2,3) by (cases a) (simp_all add: skip_ws_id)
  moreover have "skip_ws (c # u) = c # u" for u using cw by (simp add: skip_ws_id)
  ultimately show thesis using a compact_skip[of s] by (intro that[of a]) simp_all
qed

lemma compact_elems:
  assumes "compacts p"
  shows "parse_elems p n s = Some (js, r) \<Longrightarrow> \<exists>q. compact_out s = q @ compact_out r \<and> q \<noteq> [] \<and> \<not> is_ws (hd q) \<and> hd q \<noteq> CHR '']'' \<and>
    length js \<le> length q \<and> (\<forall>m r'. length js \<le> m \<longrightarrow> parse_elems p m (q @ r') = Some (js, r'))"
proof (induction n arbitrary: s js r)
  case (Suc n)
  obtain j r0 c t where v: "p (skip_ws s) = Some (j, r0)" "skip_ws r0 = c # t"
    using Suc.prems by (auto split: option.splits prod.splits list.splits)
  have c: "c = CHR '','' \<or> c = CHR '']'' \<or> c = CHR ''}''" using Suc.prems v by (auto split: if_splits)
  obtain a where a: "compact_out s = a @ c # compact_out t" "a \<noteq> []" "\<not> is_ws (hd a)" "hd a \<noteq> CHR '']''"
    "\<And>u. skip_ws (a @ c # u) = a @ c # u" "\<And>u. p (a @ c # u) = Some (j, c # u)" "\<And>u. skip_ws (c # u) = c # u"
    by (rule compact_one[OF assms v c]) blast
  show ?case
  proof (cases "c = CHR '']''")
    case True
    then have e: "js = [j]" "r = t" using Suc.prems v by simp_all
    have "parse_elems p m ((a @ [c]) @ r') = Some (js, r')" if "1 \<le> m" for m r'
      using that a(5-7)[of r'] e(1) True by (cases m) simp_all
    then show ?thesis using a(1-4) e by (intro exI[of _ "a @ [c]"]) simp
  next
    case False
    then have cc: "c = CHR '',''" using Suc.prems v by (auto split: if_splits)
    then obtain js' where e: "parse_elems p n t = Some (js', r)" "js = j # js'" using Suc.prems v by auto
    obtain q where q: "compact_out t = q @ compact_out r" "length js' \<le> length q" "\<And>m r'. length js' \<le> m \<Longrightarrow> parse_elems p m (q @ r') = Some (js', r')"
      using Suc.IH[OF e(1)] by blast
    have "parse_elems p m ((a @ c # q) @ r') = Some (js, r')" if m: "length js \<le> m" for m r'
    proof -
      obtain k where k: "m = Suc k" "length js' \<le> k" using m e(2) by (cases m) auto
      show ?thesis using a(5-7)[of "q @ r'"] q(3)[OF k(2), of r'] e(2) cc k(1) by simp
    qed
    then show ?thesis using a(1-4) q(1,2) e(2) by (intro exI[of _ "a @ c # q"]) simp
  qed
qed simp

lemma compact_key:
  assumes "parse_key s = Some (k, v)"
  obtains a where "compact_out s = a @ compact_out v" and "a \<noteq> []" and "hd a = quote_char" and "\<And>u. parse_key (a @ u) = Some (k, u)"
proof -
  obtain t r where t: "skip_ws s = quote_char # t" "parse_str t = Some (k, r)" "skip_ws r = CHR '':'' # v"
    using assms by (auto simp: parse_key_def split: list.splits if_splits option.splits prod.splits)
  obtain b where b: "compact_in t = b @ quote_char # compact_out r" "\<And>r'. parse_str (b @ quote_char # r') = Some (k, r')"
    using compact_str[OF t(2)] by blast
  let ?a = "quote_char # b @ [quote_char, CHR '':'']"
  have "compact_out r = CHR '':'' # compact_out v"
    using compact_skip[of r] unfolding t(3) by (simp add: is_ws_def quote_char_def)
  then have "compact_out s = ?a @ compact_out v"
    using compact_skip[of s] compact_quote[of t] b(1) unfolding t(1) by simp
  moreover have "parse_key (?a @ u) = Some (k, u)" for u
    using b(2)[of "CHR '':'' # u"] by (simp add: parse_key_def skip_ws_id is_ws_def)
  ultimately show thesis by (intro that[of ?a]) simp_all
qed

lemma compact_members:
  assumes "compacts p"
  shows "parse_members p n s = Some (ms, r) \<Longrightarrow> \<exists>q. compact_out s = q @ compact_out r \<and> q \<noteq> [] \<and> hd q = quote_char \<and>
    length ms \<le> length q \<and> (\<forall>m r'. length ms \<le> m \<longrightarrow> parse_members p m (q @ r') = Some (ms, r'))"
proof (induction n arbitrary: s ms r)
  case (Suc n)
  obtain k v where k: "parse_key s = Some (k, v)" using Suc.prems by (auto split: option.splits prod.splits)
  obtain j r0 c t where v: "p (skip_ws v) = Some (j, r0)" "skip_ws r0 = c # t"
    using Suc.prems k by (auto split: option.splits prod.splits list.splits)
  have c: "c = CHR '','' \<or> c = CHR '']'' \<or> c = CHR ''}''" using Suc.prems k v by (auto split: if_splits)
  obtain x where x: "compact_out s = x @ compact_out v" "x \<noteq> []" "hd x = quote_char" "\<And>u. parse_key (x @ u) = Some (k, u)"
    by (rule compact_key[OF k]) blast
  obtain a where a: "compact_out v = a @ c # compact_out t"
    "\<And>u. skip_ws (a @ c # u) = a @ c # u" "\<And>u. p (a @ c # u) = Some (j, c # u)" "\<And>u. skip_ws (c # u) = c # u"
    by (rule compact_one[OF assms v c]) blast
  show ?case
  proof (cases "c = CHR ''}''")
    case True
    then have e: "ms = [(k, j)]" "r = t" using Suc.prems k v by simp_all
    have "parse_members p m ((x @ a @ [c]) @ r') = Some (ms, r')" if "1 \<le> m" for m r'
      using that x(4)[of "a @ c # r'"] a(2-4)[of r'] e(1) True by (cases m) simp_all
    then show ?thesis using x(1-3) a(1) e by (intro exI[of _ "x @ a @ [c]"]) simp
  next
    case False
    then have cc: "c = CHR '',''" using Suc.prems k v by (auto split: if_splits)
    then obtain ms' where e: "parse_members p n t = Some (ms', r)" "ms = (k, j) # ms'" using Suc.prems k v by auto
    obtain q where q: "compact_out t = q @ compact_out r" "length ms' \<le> length q" "\<And>m r'. length ms' \<le> m \<Longrightarrow> parse_members p m (q @ r') = Some (ms', r')"
      using Suc.IH[OF e(1)] by blast
    have "parse_members p m ((x @ a @ c # q) @ r') = Some (ms, r')" if m: "length ms \<le> m" for m r'
    proof -
      obtain l where l: "m = Suc l" "length ms' \<le> l" using m e(2) by (cases m) auto
      show ?thesis using x(4)[of "a @ c # q @ r'"] a(2-4)[of "q @ r'"] q(3)[OF l(2), of r'] e(2) cc l(1) by simp
    qed
    then show ?thesis using x(1-3) a(1) q(1,2) e(2) by (intro exI[of _ "x @ a @ c # q"]) simp
  qed
qed simp

theorem compacts_value: "compacts (parse_value d)"
proof (induction d)
  case 0
  have "parse_value 0 = parse_scalar" by (rule ext) simp
  then show ?case using compacts_scalar by simp
next
  case (Suc d)
  show ?case unfolding compacts_def
  proof (intro allI impI)
    fix s j r assume p: "parse_value (Suc d) s = Some (j, r)"
    obtain c t where s: "s = c # t" using p by (cases s) auto
    have br: "compact_out (c # t) = c # compact_out t" if "c = CHR ''['' \<or> c = CHR ''{''" 
      using that by (intro compact_plain) (auto simp: is_ws_def quote_char_def)
    have cl: "compact_out t = e # compact_out u" if "skip_ws t = e # u" "e = CHR '']'' \<or> e = CHR ''}''" for e u
      using compact_skip[of t] that by (auto simp: is_ws_def quote_char_def)
    consider (arr0) u where "c = CHR ''[''" "skip_ws t = CHR '']'' # u"
      | (arr) f u where "c = CHR ''[''" "skip_ws t = f # u" "f \<noteq> CHR '']''"
      | (obj0) u where "c = CHR ''{''" "skip_ws t = CHR ''}'' # u"
      | (obj) f u where "c = CHR ''{''" "skip_ws t = f # u" "f \<noteq> CHR ''}''"
      | (scalar) "c \<noteq> CHR ''[''" "c \<noteq> CHR ''{''"
      using p s by (cases "skip_ws t") (auto split: if_splits)
    then show "\<exists>a. compact_out s = a @ compact_out r \<and> a \<noteq> [] \<and> \<not> is_ws (hd a) \<and> hd a \<noteq> CHR '']'' \<and>
        (\<forall>r'. value_end r' \<longrightarrow> parse_value (Suc d) (a @ r') = Some (j, r'))"
    proof cases
      case arr0
      then have "j = JArr []" "r = u" using p s by simp_all
      moreover have "compact_out s = ''[]'' @ compact_out u" using br cl[OF arr0(2)] s arr0(1) by simp
      ultimately show ?thesis by (intro exI[of _ "''[]''"]) (simp add: is_ws_def skip_ws_id)
    next
      case arr
      then obtain js where js: "parse_elems (parse_value d) (length s) t = Some (js, r)" "j = JArr js" using p s by auto
      obtain q where q: "compact_out t = q @ compact_out r" "q \<noteq> []" "\<not> is_ws (hd q)" "hd q \<noteq> CHR '']''" "length js \<le> length q"
        "\<And>m r'. length js \<le> m \<Longrightarrow> parse_elems (parse_value d) m (q @ r') = Some (js, r')"
        using compact_elems[OF Suc.IH js(1)] by blast
      have "parse_value (Suc d) ((c # q) @ r') = Some (j, r')" for r'
      proof -
        obtain g y where g: "q = g # y" using q(2) by (cases q) auto
        then show ?thesis using q(3,4) q(6)[of "length ((c # q) @ r')" r'] q(5) arr(1) js(2) by (simp add: skip_ws_id)
      qed
      moreover have "compact_out s = (c # q) @ compact_out r" using br s arr(1) q(1) by simp
      ultimately show ?thesis using arr(1) by (intro exI[of _ "c # q"]) (simp add: is_ws_def)
    next
      case obj0
      then have "j = JObj []" "r = u" using p s by simp_all
      moreover have "compact_out s = ''{}'' @ compact_out u" using br cl[OF obj0(2)] s obj0(1) by simp
      ultimately show ?thesis by (intro exI[of _ "''{}''"]) (simp add: is_ws_def skip_ws_id)
    next
      case obj
      then obtain ms where ms: "parse_members (parse_value d) (length s) t = Some (ms, r)" "j = JObj ms" using p s by auto
      obtain q where q: "compact_out t = q @ compact_out r" "q \<noteq> []" "hd q = quote_char" "length ms \<le> length q"
        "\<And>m r'. length ms \<le> m \<Longrightarrow> parse_members (parse_value d) m (q @ r') = Some (ms, r')"
        using compact_members[OF Suc.IH ms(1)] by blast
      have "parse_value (Suc d) ((c # q) @ r') = Some (j, r')" for r'
      proof -
        obtain y where g: "q = quote_char # y" using q(2,3) by (cases q) auto
        then show ?thesis using q(5)[of "length ((c # q) @ r')" r'] q(4) obj(1) ms(2) by (simp add: skip_ws_id is_ws_def quote_char_def)
      qed
      moreover have "compact_out s = (c # q) @ compact_out r" using br s obj(1) q(1) by simp
      ultimately show ?thesis using obj(1) by (intro exI[of _ "c # q"]) (simp add: is_ws_def)
    next
      case scalar
      then have ps: "parse_scalar s = Some (j, r)" using p s by simp
      obtain a where a: "compact_out s = a @ compact_out r" "a \<noteq> []" "\<not> is_ws (hd a)" "hd a \<noteq> CHR '']''"
        "\<And>r'. value_end r' \<Longrightarrow> parse_scalar (a @ r') = Some (j, r')" by (rule compactsD[OF compacts_scalar ps]) blast
      have "parse_value (Suc d) (a @ r') = Some (j, r')" if v: "value_end r'" for r'
      proof -
        have "\<exists>a'. a @ r' = a' @ r' \<and> a' \<noteq> [] \<and> hd a' \<noteq> CHR ''['' \<and> hd a' \<noteq> CHR ''{''"
          using parse_scalar_local[OF a(5)[OF v]] by blast
        then obtain g y where "a = g # y" "g \<noteq> CHR ''[''" "g \<noteq> CHR ''{''" by (cases a) auto
        then show ?thesis using a(5)[OF v] by simp
      qed
      then show ?thesis using a(1-4) by blast
    qed
  qed
qed

text \<open>A whole value, and an array of compacted elements.\<close>

theorem compact_reads:
  assumes "parse_value d v = Some (j, [])"
  shows "parse_value d (compact_out v) = Some (j, [])"
proof -
  obtain a where a: "compact_out v = a @ compact_out []" "\<And>r'. value_end r' \<Longrightarrow> parse_value d (a @ r') = Some (j, r')"
    by (rule compactsD[OF compacts_value assms]) blast
  have "value_end []" by (simp add: value_end_def)
  from a(2)[OF this] a(1) show ?thesis by simp
qed

lemma elems_raw:
  "list_all2 (\<lambda>v j. parse_value d v = Some (j, [])) vs js \<Longrightarrow> vs \<noteq> [] \<Longrightarrow> length vs \<le> n \<Longrightarrow>
    parse_elems (parse_value d) n (join vs '','' @ CHR '']'' # r) = Some (js, r)"
proof (induction vs js arbitrary: n rule: list_all2_induct)
  case (Cons v vs j js)
  then obtain l where n: "n = Suc l" "length vs \<le> l" by (cases n) auto
  have w: "skip_ws (v @ q) = v @ q" for q by (rule value_ws[OF Cons.hyps(1)])
  show ?case
  proof (cases "vs = []")
    case True
    then have "js = []" using Cons.hyps(2) by simp
    moreover have "parse_value d (v @ CHR '']'' # r) = Some (j, CHR '']'' # r)"
      by (rule value_inside[OF Cons.hyps(1) order_refl]) (simp add: value_end_def)
    moreover have "skip_ws (CHR '']'' # r) = CHR '']'' # r" by (simp add: skip_ws_id is_ws_def)
    ultimately show ?thesis using n True w by simp
  next
    case False
    let ?r = "CHR '','' # join vs '','' @ CHR '']'' # r"
    have "parse_value d (v @ ?r) = Some (j, ?r)"
      by (rule value_inside[OF Cons.hyps(1) order_refl]) (simp add: value_end_def)
    moreover have "skip_ws ?r = ?r" by (simp add: skip_ws_id is_ws_def)
    moreover have "parse_elems (parse_value d) l (join vs '','' @ CHR '']'' # r) = Some (js, r)"
      using Cons.IH[OF False n(2)] .
    ultimately show ?thesis using n False w by (simp add: join_Cons)
  qed
qed simp

theorem marshal_raws_reads:
  assumes "list_all2 (\<lambda>v j. parse_value d v = Some (j, [])) vs js"
  shows "parse_value (Suc d) (marshal_raws vs) = Some (JArr js, [])"
proof (cases vs)
  case Nil
  then show ?thesis using assms by (simp add: marshal_raws_def skip_ws_id is_ws_def)
next
  case (Cons v vs')
  let ?cs = "map compact_out vs"
  have cs: "list_all2 (\<lambda>v j. parse_value d v = Some (j, [])) ?cs js"
    using assms by (auto simp: list_all2_map1 compact_reads elim: list_all2_mono)
  let ?t = "join ?cs '','' @ CHR '']'' # []"
  have "length ?cs \<le> length (marshal_raws vs)" using join_length[of ?cs] by (simp add: marshal_raws_def)
  then have e: "parse_elems (parse_value d) (length (marshal_raws vs)) ?t = Some (js, [])"
    using Cons by (intro elems_raw[OF cs]) simp_all
  obtain j js' where "js = j # js'" "parse_value d v = Some (j, [])" using assms Cons by (cases js) auto
  then obtain a where a: "compact_out v = a" "a \<noteq> []" "\<not> is_ws (hd a)" "hd a \<noteq> CHR '']''"
    by (elim compactsD[OF compacts_value, of d v j "[]"]) auto
  then obtain g y where g: "?t = g # y" "\<not> is_ws g" "g \<noteq> CHR '']''" using Cons by (cases a) (auto simp: join_Cons)
  have "marshal_raws vs = CHR ''['' # ?t" by (simp add: marshal_raws_def)
  then show ?thesis using e g by (simp add: skip_ws_id)
qed

end
