(* ===== verification/Recorder_Erase.thy ===== *)
theory Recorder_Erase
  imports Recorder Json_Compact
begin

text \<open>
  The erasure of a session's content (\<open>internal/recorder/erase.go\<close>): every field that holds
  content is replaced by its fingerprint on the raw line it stands in, an event that says so is
  added, and the whole chain is hashed anew. Fields are named by their JSON names, which their struct
  tags give. The walks by reflection are walks over the table of \<open>Recorder_Event\<close>.
\<close>

section \<open>Fingerprints\<close>

definition erasedPrefix :: string where
  "erasedPrefix = ''(erased '' @ [CHR 0xE2, CHR 0x80, CHR 0x94] @ '' sha256:''"

definition erasedSuffix :: string where "erasedSuffix = '')''"

definition erasedPlaceholder :: "bytes \<Rightarrow> string" where
  "erasedPlaceholder digest = erasedPrefix @ hexEncode digest @ erasedSuffix"

definition isErasedPlaceholder :: "string \<Rightarrow> bool" where
  "isErasedPlaceholder s =
     (hasPrefix s erasedPrefix \<and> hasSuffix s erasedSuffix \<and>
      (let h = take (length s - length erasedPrefix - length erasedSuffix) (drop (length erasedPrefix) s)
       in length h = 64 \<and> list_all (\<lambda>c. hex_val c \<noteq> None) h))"

text \<open>The empty string for what is left alone.\<close>

definition redactString :: "(bytes \<Rightarrow> bytes) \<Rightarrow> string \<Rightarrow> string" where
  "redactString sha s = (if s = [] \<or> isErasedPlaceholder s then [] else erasedPlaceholder (sha s))"

text \<open>\<open>binary.BigEndian.PutUint64\<close>.\<close>

definition be64 :: "nat \<Rightarrow> string" where
  "be64 n = map (\<lambda>i. char_of (n div 256 ^ i)) [7, 6, 5, 4, 3, 2, 1, 0]"

definition redactStrings :: "(bytes \<Rightarrow> bytes) \<Rightarrow> string list \<Rightarrow> string list option" where
  "redactStrings sha xs =
     (if xs = [] then None
      else if length xs = 1 \<and> isErasedPlaceholder (hd xs) then None
      else Some [erasedPlaceholder (sha (concat (map (\<lambda>x. be64 (length x) @ x) xs)))])"

section \<open>Redacting an event\<close>

definition eraseExempt :: "string list" where
  "eraseExempt = [
     ''v'', ''seq'', ''ts'', ''sandbox'', ''type'', ''source'', ''prev'', ''hash'',
     ''image'', ''arch'', ''kelyfos'', ''kernel'', ''supervisor'', ''reason'', ''call'', ''via'', ''stream'', ''signal'',
     ''error.kind'', ''sha256'', ''mode'', ''budget'', ''kind'', ''outcome'', ''agent'', ''profile'', ''plugins'', ''forwards'',
     ''rootfs_sha256'', ''kernel_sha256'', ''tools'', ''parent_session'', ''edges'',
     ''secrets.name'', ''secrets.host'', ''secrets.path'', ''agents.name'', ''agents.sandbox'', ''agents.group'',
     ''store_keys.read'', ''store_keys.write'']"

definition redact_leaf :: "(bytes \<Rightarrow> bytes) \<Rightarrow> string \<Rightarrow> string \<Rightarrow> string \<times> bool" where
  "redact_leaf sha key s =
     (if key \<in> set eraseExempt then (s, False)
      else if redactString sha s \<noteq> [] then (redactString sha s, True)
      else (s, False))"

text \<open>\<open>redactStructSlice\<close>: the names of store keys; secrets and agents stay.\<close>

fun redact_store_keys :: "(bytes \<Rightarrow> bytes) \<Rightarrow> evStoreKey list \<Rightarrow> evStoreKey list \<times> bool" where
  "redact_store_keys sha [] = ([], False)"
| "redact_store_keys sha (k # ks) =
     (case redact_store_keys sha ks of (ks', t) \<Rightarrow>
        if redactString sha (ek_Name k) \<noteq> [] then (k\<lparr>ek_Name := redactString sha (ek_Name k)\<rparr> # ks', True)
        else (k # ks', t))"

fun redact_val :: "(bytes \<Rightarrow> bytes) \<Rightarrow> string \<Rightarrow> fval \<Rightarrow> fval \<times> bool" where
  "redact_val sha k (FStr s) = (case redact_leaf sha k s of (s', t) \<Rightarrow> (FStr s', t))"
| "redact_val sha k (FStrs xs) =
     (if k \<in> set eraseExempt then (FStrs xs, False)
      else case redactStrings sha xs of None \<Rightarrow> (FStrs xs, False) | Some ys \<Rightarrow> (FStrs ys, True))"
| "redact_val sha k (FErrP (Some e)) =
     (case redact_leaf sha (k @ ''.kind'') (ee_Kind e) of (kd, t) \<Rightarrow>
      case redact_leaf sha (k @ ''.message'') (ee_Message e) of (msg, u) \<Rightarrow>
        (FErrP (Some \<lparr>ee_Kind = kd, ee_Message = msg\<rparr>), t \<or> u))"
| "redact_val sha k (FStoreKeys ks) = (case redact_store_keys sha ks of (ks', t) \<Rightarrow> (FStoreKeys ks', t))"
| "redact_val sha k v = (v, False)"

fun redact_fields :: "(bytes \<Rightarrow> bytes) \<Rightarrow> (string \<times> kind \<times> bool) list \<Rightarrow> event \<Rightarrow> bool \<Rightarrow> event \<times> bool" where
  "redact_fields sha [] e touched = (e, touched)"
| "redact_fields sha ((k, t, om) # fs) e touched =
     (case redact_val sha k (e k) of (v, b) \<Rightarrow> redact_fields sha fs (e(k := v)) (touched \<or> b))"

definition redactEventFields :: "(bytes \<Rightarrow> bytes) \<Rightarrow> event \<Rightarrow> event \<times> bool" where
  "redactEventFields sha e = redact_fields sha event_struct e False"

section \<open>Names of members\<close>

text \<open>A member whose name is a field's under folding only; with the field's name.\<close>

fun folded_name :: "string list \<Rightarrow> string list \<Rightarrow> (string \<times> string) option" where
  "folded_name names [] = None"
| "folded_name names (k # ks) =
     (if k \<in> set names then folded_name names ks
      else case find (\<lambda>n. fold_name n = fold_name k) names of
             Some n \<Rightarrow> Some (k, n)
           | None \<Rightarrow> folded_name names ks)"

fun struct_names :: "kind \<Rightarrow> string list" where
  "struct_names KErrP = [''kind'', ''message'']"
| "struct_names KSecrets = [''name'', ''host'', ''path'']"
| "struct_names KAgents = [''name'', ''sandbox'', ''group'']"
| "struct_names KStoreKeys = [''name'', ''read'', ''write'']"
| "struct_names _ = []"

text \<open>What does not parse is passed over.\<close>

definition nested_name :: "kind \<Rightarrow> string \<Rightarrow> (string \<times> string) option" where
  "nested_name t raw =
     (case parseObject raw of Inl _ \<Rightarrow> None | Inr nested \<Rightarrow> folded_name (struct_names t) (map fst nested))"

fun first_some :: "'a option list \<Rightarrow> 'a option" where
  "first_some [] = None"
| "first_some (x # xs) = (case x of Some y \<Rightarrow> Some y | None \<Rightarrow> first_some xs)"

definition field_name :: "rawObject \<Rightarrow> string \<times> kind \<times> bool \<Rightarrow> (string \<times> string) option" where
  "field_name o' f =
     (case m_get o' (fst f) of
        None \<Rightarrow> None
      | Some raw \<Rightarrow>
          (if fst (snd f) = KErrP then nested_name KErrP raw
           else if fst (snd f) \<in> {KSecrets, KAgents, KStoreKeys}
           then (case rawArray raw of None \<Rightarrow> None | Some els \<Rightarrow> first_some (map (nested_name (fst (snd f))) els))
           else None))"

definition checkMemberNames :: "rawObject \<Rightarrow> (string \<times> string) option" where
  "checkMemberNames o' =
     (case folded_name (map fst event_struct) (map fst o') of
        Some x \<Rightarrow> Some x
      | None \<Rightarrow> first_some (map (field_name o') event_struct))"

section \<open>Writing a redaction back\<close>

datatype erase_refusal =
    BadRaw raw_error
  | FoldedMember string string
  | NotDecoded
  | CannotExpress string
  | NoMember string
  | BadNested string raw_error
  | BadElement string nat raw_error
  | NotAnArray string
  | CountDiffers string nat nat
  | WalksDisagree bool nat

text \<open>A nested struct as the walk sees it: the names and values of its fields.\<close>

definition error_fields :: "evError \<Rightarrow> (string \<times> fval) list" where
  "error_fields e = [(''kind'', FStr (ee_Kind e)), (''message'', FStr (ee_Message e))]"

definition secret_fields :: "evSecret \<Rightarrow> (string \<times> fval) list" where
  "secret_fields s = [(''name'', FStr (es_Name s)), (''host'', FStr (es_Host s)), (''path'', FStr (es_Path s))]"

definition agent_fields :: "evAgent \<Rightarrow> (string \<times> fval) list" where
  "agent_fields a = [(''name'', FStr (ea_Name a)), (''sandbox'', FStr (ea_Sandbox a)), (''group'', FStr (ea_Group a))]"

definition store_key_fields :: "evStoreKey \<Rightarrow> (string \<times> fval) list" where
  "store_key_fields k = [(''name'', FStr (ek_Name k)), (''read'', FStrs (ek_Read k)), (''write'', FStrs (ek_Write k))]"

text \<open>A leaf that changed is set, and counts.\<close>

definition apply_leaf :: "rawObject \<Rightarrow> string \<Rightarrow> fval \<Rightarrow> fval \<Rightarrow> rawObject \<times> nat" where
  "apply_leaf o' name b a =
     (if b = a then (o', 0)
      else case a of
        FStr s \<Rightarrow> (raw_set o' name (mustQuote s), 1)
      | FStrs xs \<Rightarrow> (raw_set o' name (render (JArr (map JStr xs))), 1)
      | _ \<Rightarrow> (o', 0))"

fun apply_leaves :: "rawObject \<Rightarrow> (string \<times> fval) list \<Rightarrow> (string \<times> fval) list \<Rightarrow> rawObject \<times> nat" where
  "apply_leaves o' ((name, b) # bs) ((name', a) # as) =
     (case apply_leaf o' name b a of (o1, n) \<Rightarrow> case apply_leaves o1 bs as of (o2, m) \<Rightarrow> (o2, n + m))"
| "apply_leaves o' _ _ = (o', 0)"

fun apply_elems ::
  "string \<Rightarrow> nat \<Rightarrow> string list \<Rightarrow> (string \<times> fval) list list \<Rightarrow> (string \<times> fval) list list \<Rightarrow> erase_refusal + string list \<times> nat" where
  "apply_elems name j (el # els) (b # bs) (a # as) =
     (case parseObject el of
        Inl err \<Rightarrow> Inl (BadElement name j err)
      | Inr nested \<Rightarrow>
          (case apply_leaves nested b a of (nested', n) \<Rightarrow>
           case apply_elems name (j + 1) els bs as of
             Inl err \<Rightarrow> Inl err
           | Inr (els', m) \<Rightarrow> Inr (raw_marshal nested' # els', n + m)))"
| "apply_elems name j _ _ _ = Inr ([], 0)"

definition applyRedactionToSlice ::
  "rawObject \<Rightarrow> string \<Rightarrow> (string \<times> fval) list list \<Rightarrow> (string \<times> fval) list list \<Rightarrow> erase_refusal + rawObject \<times> nat" where
  "applyRedactionToSlice o' name before after =
     (case m_get o' name of
        None \<Rightarrow> Inl (NoMember name)
      | Some raw \<Rightarrow>
          (case rawArray raw of
             None \<Rightarrow> Inl (NotAnArray name)
           | Some els \<Rightarrow>
               if length els \<noteq> length before \<or> length before \<noteq> length after
               then Inl (CountDiffers name (length els) (length before))
               else case apply_elems name 0 els before after of
                      Inl err \<Rightarrow> Inl err
                    | Inr (els', n) \<Rightarrow> Inr (raw_set o' name (marshal_raws els'), n)))"

definition apply_field :: "rawObject \<Rightarrow> string \<Rightarrow> fval \<Rightarrow> fval \<Rightarrow> erase_refusal + rawObject \<times> nat" where
  "apply_field o' name b a =
     (if b = a then Inr (o', 0)
      else case a of
        FStr _ \<Rightarrow> Inr (apply_leaf o' name b a)
      | FStrs _ \<Rightarrow> Inr (apply_leaf o' name b a)
      | FInts _ \<Rightarrow> Inl (CannotExpress name)
      | FSecrets y \<Rightarrow>
          (case b of FSecrets x \<Rightarrow> applyRedactionToSlice o' name (map secret_fields x) (map secret_fields y) | _ \<Rightarrow> Inr (o', 0))
      | FAgents y \<Rightarrow>
          (case b of FAgents x \<Rightarrow> applyRedactionToSlice o' name (map agent_fields x) (map agent_fields y) | _ \<Rightarrow> Inr (o', 0))
      | FStoreKeys y \<Rightarrow>
          (case b of FStoreKeys x \<Rightarrow> applyRedactionToSlice o' name (map store_key_fields x) (map store_key_fields y) | _ \<Rightarrow> Inr (o', 0))
      | FErrP (Some y) \<Rightarrow>
          (case b of
             FErrP (Some x) \<Rightarrow>
               (case m_get o' name of
                  None \<Rightarrow> Inl (NoMember name)
                | Some raw \<Rightarrow>
                    (case parseObject raw of
                       Inl err \<Rightarrow> Inl (BadNested name err)
                     | Inr nested \<Rightarrow>
                         (case apply_leaves nested (error_fields x) (error_fields y) of
                            (nested', n) \<Rightarrow> Inr (raw_set o' name (raw_marshal nested'), n))))
           | _ \<Rightarrow> Inr (o', 0))
      | _ \<Rightarrow> Inr (o', 0))"

fun applyRedaction :: "(string \<times> kind \<times> bool) list \<Rightarrow> event \<Rightarrow> event \<Rightarrow> rawObject \<Rightarrow> erase_refusal + rawObject \<times> nat" where
  "applyRedaction [] before after o' = Inr (o', 0)"
| "applyRedaction ((k, t, om) # fs) before after o' =
     (case apply_field o' k (before k) (after k) of
        Inl err \<Rightarrow> Inl err
      | Inr (o1, n) \<Rightarrow>
          (case applyRedaction fs before after o1 of
             Inl err \<Rightarrow> Inl err
           | Inr (o2, m) \<Rightarrow> Inr (o2, n + m)))"

section \<open>The lines\<close>

text \<open>One line: its members redacted, whether it was touched, and how many fields changed.\<close>

definition erase_line :: "(bytes \<Rightarrow> bytes) \<Rightarrow> string \<Rightarrow> erase_refusal + rawObject \<times> bool \<times> nat" where
  "erase_line sha raw =
     (case parseObject raw of
        Inl err \<Rightarrow> Inl (BadRaw err)
      | Inr o' \<Rightarrow>
          (case checkMemberNames o' of
             Some (k, name) \<Rightarrow> Inl (FoldedMember k name)
           | None \<Rightarrow>
               (case unmarshal raw of
                  None \<Rightarrow> Inl NotDecoded
                | Some before \<Rightarrow>
                    (case redactEventFields sha before of (after, touched) \<Rightarrow>
                     case applyRedaction event_struct before after o' of
                       Inl err \<Rightarrow> Inl err
                     | Inr (o1, n) \<Rightarrow>
                         if touched \<noteq> (0 < n) then Inl (WalksDisagree touched n) else Inr (o1, touched, n)))))"

text \<open>All lines; an error comes with the number of the event.\<close>

fun erase_lines :: "(bytes \<Rightarrow> bytes) \<Rightarrow> nat \<Rightarrow> string list \<Rightarrow> (nat \<times> erase_refusal) + rawObject list \<times> nat \<times> nat" where
  "erase_lines sha i [] = Inr ([], 0, 0)"
| "erase_lines sha i (raw # ls) =
     (if raw = [] then erase_lines sha i ls
      else case erase_line sha raw of
             Inl err \<Rightarrow> Inl (Suc i, err)
           | Inr (o', touched, n) \<Rightarrow>
               (case erase_lines sha (Suc i) ls of
                  Inl err \<Rightarrow> Inl err
                | Inr (os, redacted, changed) \<Rightarrow> Inr (o' # os, (if touched then 1 else 0) + redacted, n + changed)))"

text \<open>Sequence numbers, links and digests for the whole chain: the lines and the head, or the event too long.\<close>

definition rehash :: "(bytes \<Rightarrow> bytes) \<Rightarrow> nat \<Rightarrow> string \<Rightarrow> rawObject \<Rightarrow> rawObject \<times> string" where
  "rehash sha i prev o' =
     (let o' = raw_set (raw_set (raw_set o' ''seq'' (itoa (int i))) ''prev'' (mustQuote prev)) ''hash'' [quote_char, quote_char];
          digest = hexEncode (sha (raw_marshal o'))
      in (raw_set o' ''hash'' (mustQuote digest), digest))"

fun rechain :: "(bytes \<Rightarrow> bytes) \<Rightarrow> nat \<Rightarrow> string \<Rightarrow> rawObject list \<Rightarrow> (nat \<times> nat) + string list \<times> string" where
  "rechain sha i prev [] = Inr ([], prev)"
| "rechain sha i prev (o' # os) =
     (case rehash sha i prev o' of (o1, digest) \<Rightarrow>
        let line = raw_marshal o1 in
        if MaxLine < length line + 1 then Inl (i, length line + 1)
        else case rechain sha (Suc i) digest os of
               Inl err \<Rightarrow> Inl err
             | Inr (ls, p) \<Rightarrow> Inr (line # ls, p))"

section \<open>Erase\<close>

datatype erase_error =
    EraseSystem string
  | ChainInvalid verify_error
  | EmptyChain
  | AnchorDisagrees anchorReport
  | LastLineUnfinished nat
  | NewerVersion int int
  | NoSessionEnd
  | EventRefused nat erase_refusal
  | ScanStopped
  | NothingToErase
  | ErasureUnparsed raw_error
  | LineOverMax nat nat

text \<open>
  What the system does: the file opened, locked and read; the anchor read; how much of the new
  content is written (\<open>None\<close> is all of it), whether the file is then cut to its length and synced,
  whether the anchor is replaced and, if not, whether it can be removed; the time stamp.
\<close>

record erase_io =
  ei_open :: bool
  ei_lock :: bool
  ei_read :: bool
  ei_anchor :: bool
  ei_write :: "nat option"
  ei_truncate :: bool
  ei_sync :: bool
  ei_head :: bool
  ei_remove :: bool
  ei_now :: string

definition read_head :: "erase_io \<Rightarrow> disk \<Rightarrow> anchor_read" where
  "read_head i d = (if \<not> ei_anchor i then HeadError else case dk_head d of None \<Rightarrow> HeadAbsent | Some b \<Rightarrow> HeadBytes b)"

text \<open>The two counts are Go \<open>int\<close>s, which wrap.\<close>

definition erasure_event :: "string \<Rightarrow> string \<Rightarrow> nat \<Rightarrow> nat \<Rightarrow> string \<Rightarrow> string \<Rightarrow> event" where
  "erasure_event sandbox reason redacted changed preHead now = zeroEvent(
     ''type'' := FStr ''session.erasure'', ''source'' := FStr ''host'', ''sandbox'' := FStr sandbox,
     ''reason'' := FStr reason, ''modified'' := FInt (go_int (int redacted)), ''redacted_fields'' := FInt (go_int (int changed)),
     ''sha256'' := FStr preHead, ''v'' := FInt 1, ''ts'' := FStr now)"

text \<open>What is checked of the old chain, and the new one in memory: how many events were redacted, its lines and its head.\<close>

definition erase_checks :: "(bytes \<Rightarrow> bytes) \<Rightarrow> erase_io \<Rightarrow> disk \<Rightarrow> erase_error + nat \<times> string \<times> event list" where
  "erase_checks sha i d =
     (let blob = dk_chain d in
      case verify sha blob of
        (n, h, Some err) \<Rightarrow> Inl (ChainInvalid err)
      | (n, h, None) \<Rightarrow>
          (case readEvents blob of
             (es, Some err) \<Rightarrow> Inl (ChainInvalid err)
           | (es, None) \<Rightarrow>
               if es = [] then Inl EmptyChain
               else case checkAnchor (read_head i d) (int n) h (prevOfHead blob) of
                 (rep, mismatch) \<Rightarrow>
                   if mismatch then Inl (AnchorDisagrees rep)
                   else if blob \<noteq> [] \<and> last blob \<noteq> newline then Inl (LastLineUnfinished (length blob))
                   else case find (\<lambda>e. 1 < get_int e ''v'') es of
                     Some e \<Rightarrow> Inl (NewerVersion (get_int e ''seq'') (get_int e ''v''))
                   | None \<Rightarrow>
                       if \<not> list_ex (\<lambda>e. get_str e ''type'' = ''session.end'') es then Inl NoSessionEnd
                       else Inr (n, h, es)))"

definition erase_rewrite ::
  "(bytes \<Rightarrow> bytes) \<Rightarrow> erase_io \<Rightarrow> string \<Rightarrow> string \<Rightarrow> string \<Rightarrow> string \<Rightarrow> (nat \<times> erase_error) + nat \<times> string list" where
  "erase_rewrite sha i sandbox reason preHead blob =
     (case scan_lines MaxLine blob of (ls, ok) \<Rightarrow>
      case erase_lines sha 0 ls of
        Inl (n, err) \<Rightarrow> Inl (0, EventRefused n err)
      | Inr (os, redacted, changed) \<Rightarrow>
          if \<not> ok then Inl (0, ScanStopped)
          else if redacted = 0 then Inl (0, NothingToErase)
          else case parseObject (marshal (erasure_event sandbox reason redacted changed preHead (ei_now i))) of
                 Inl err \<Rightarrow> Inl (redacted, ErasureUnparsed err)
               | Inr erasure \<Rightarrow>
                   (case rechain sha 1 [] (os @ [erasure]) of
                      Inl (k, len) \<Rightarrow> Inl (redacted, LineOverMax k len)
                    | Inr (lines, head) \<Rightarrow> Inr (redacted, lines)))"

definition erase_write :: "(bytes \<Rightarrow> bytes) \<Rightarrow> erase_io \<Rightarrow> string \<Rightarrow> string \<Rightarrow> disk \<Rightarrow> erase_error option \<times> disk" where
  "erase_write sha i sandbox buf d =
     (case ei_write i of
        Some n \<Rightarrow> (Some (EraseSystem ''write''), d\<lparr>dk_chain := take n buf @ drop (min n (length buf)) (dk_chain d)\<rparr>)
      | None \<Rightarrow>
          let d1 = d\<lparr>dk_chain := buf @ drop (length buf) (dk_chain d)\<rparr> in
          if \<not> ei_truncate i then (Some (EraseSystem ''truncate''), d1)
          else let d2 = d1\<lparr>dk_chain := buf\<rparr> in
            if \<not> ei_sync i then (Some (EraseSystem ''sync''), d2)
            else case verify sha buf of
                   (n, h, None) \<Rightarrow>
                     (None,
                      if ei_head i
                      then d2\<lparr>dk_head := Some (head_bytes \<lparr>hd_V = 0, hd_Sandbox = sandbox, hd_Seq = int n, hd_Hash = h, hd_TS = []\<rparr>)\<rparr>
                      else if ei_remove i then d2\<lparr>dk_head := None\<rparr> else d2)
                 | (n, h, Some err) \<Rightarrow> (None, d2))"

definition erase ::
  "(bytes \<Rightarrow> bytes) \<Rightarrow> erase_io \<Rightarrow> string \<Rightarrow> string \<Rightarrow> disk \<Rightarrow> (nat \<times> erase_error option) \<times> disk" where
  "erase sha i sandbox reason d =
     (if \<not> ei_open i then ((0, Some (EraseSystem ''open'')), d)
      else if \<not> ei_lock i then ((0, Some (EraseSystem ''lock'')), d)
      else if \<not> ei_read i then ((0, Some (EraseSystem ''read'')), d)
      else case erase_checks sha i d of
        Inl err \<Rightarrow> ((0, Some err), d)
      | Inr (n, preHead, es) \<Rightarrow>
          (case erase_rewrite sha i sandbox reason preHead (dk_chain d) of
             Inl (redacted, err) \<Rightarrow> ((redacted, Some err), d)
           | Inr (redacted, lines) \<Rightarrow>
               (case erase_write sha i sandbox (concat (map (\<lambda>l. l @ [newline]) lines)) d of
                  (err, d') \<Rightarrow> ((redacted, err), d'))))"

end
