(* ===== verification/Recorder_Fields.thy ===== *)
theory Recorder_Fields
  imports Recorder_File Recorder_Erase
begin

text \<open>
  What decoding an object into a struct amounts to, field by field, when its members are named exactly
  and once: the locale \<open>struct_fields\<close> is the contract of a struct's assignment, interpreted on the
  event, its error and its store keys; \<open>holds\<close> is a raw object next to the struct it decodes to.
\<close>

section \<open>Exact names\<close>

definition exact :: "string list \<Rightarrow> string list \<Rightarrow> bool" where
  "exact names ks \<longleftrightarrow> distinct ks \<and> (\<forall>k \<in> set ks. k \<in> set names \<or> field_for names k = None)"

lemma folded_name_exact: "folded_name names ks = None \<Longrightarrow> distinct ks \<Longrightarrow> exact names ks"
proof (induction ks)
  case (Cons k ks)
  then have "k \<in> set names \<or> field_for names k = None" "folded_name names ks = None"
    by (auto simp: field_for_def split: if_splits option.splits)
  with Cons show ?case by (auto simp: exact_def)
qed (simp add: exact_def)

lemma exact_put: "exact names (map fst ms) \<Longrightarrow> k \<in> set names \<Longrightarrow> exact names (map fst (m_put k j ms))"
  by (auto simp: exact_def m_put_keys)

text \<open>A field after the members are decoded, which held \<open>v\<close>.\<close>

definition seen :: "string list \<Rightarrow> (string \<times> json) list \<Rightarrow> string \<Rightarrow> fval \<Rightarrow> fval option" where
  "seen names ms k v =
     (if k \<in> set names then (case m_get ms k of None \<Rightarrow> Some v | Some j \<Rightarrow> decode_val v j) else Some v)"

section \<open>The contract of a struct\<close>

locale struct_fields =
  fixes names :: "string list"
    and get :: "'a \<Rightarrow> string \<Rightarrow> fval"
    and put :: "string \<Rightarrow> json \<Rightarrow> 'a \<Rightarrow> 'a option"
  assumes put_None: "k \<in> set names \<Longrightarrow> put k j a = None \<longleftrightarrow> decode_val (get a k) j = None"
    and put_Some: "k \<in> set names \<Longrightarrow> put k j a = Some b \<Longrightarrow> decode_val (get a k) j = Some (get b k)"
    and put_frame: "k \<in> set names \<Longrightarrow> put k j a = Some b \<Longrightarrow> k' \<noteq> k \<Longrightarrow> get b k' = get a k'"
    and get_eq: "get a = get b \<Longrightarrow> a = b"
begin

lemma decode_members_seen:
  "exact names (map fst ms) \<Longrightarrow> decode_members names put ms a = Some b \<longleftrightarrow> (\<forall>k. seen names ms k (get a k) = Some (get b k))"
proof (induction ms arbitrary: a)
  case Nil
  then show ?case using get_eq[of a b] by (auto simp: seen_def)
next
  case (Cons m ms)
  obtain k j where m: "m = (k, j)" by (cases m)
  have x: "exact names (map fst ms)" "k \<notin> fst ` set ms" using Cons.prems by (auto simp: exact_def m)
  have n: "m_get ms k = None" using x(2) by (simp add: m_get_def map_of_eq_None_iff)
  show ?case
  proof (cases "k \<in> set names")
    case False
    then have "field_for names k = None" using Cons.prems by (simp add: exact_def m)
    moreover have "seen names (m # ms) k' v = seen names ms k' v" for k' v using False by (auto simp: seen_def m_get_def m)
    ultimately show ?thesis using Cons.IH[OF x(1)] by (simp add: m)
  next
    case True
    have o: "seen names (m # ms) k' v = seen names ms k' v" if "k' \<noteq> k" for k' v using that by (simp add: seen_def m_get_def m)
    have k: "seen names (m # ms) k v = decode_val v j" "seen names ms k v = Some v" for v
      using True n by (simp_all add: seen_def m_get_def m)
    show ?thesis
    proof (cases "put k j a")
      case None
      then have "decode_val (get a k) j = None" using put_None[OF True] by blast
      then have "seen names (m # ms) k (get a k) \<noteq> Some (get b k)" using k(1) by simp
      moreover have "decode_members names put (m # ms) a = None" using True None by (simp add: m field_for_exact)
      ultimately show ?thesis by auto
    next
      case (Some c)
      have c: "decode_val (get a k) j = Some (get c k)" "\<And>k'. k' \<noteq> k \<Longrightarrow> get c k' = get a k'"
        using put_Some[OF True Some] put_frame[OF True Some] by blast+
      have "seen names (m # ms) k' (get a k') = seen names ms k' (get c k')" for k'
        using o[of k'] k c by (cases "k' = k") auto
      then show ?thesis using Cons.IH[OF x(1), of c] True Some by (simp add: m field_for_exact)
    qed
  qed
qed

end

section \<open>The structs\<close>

definition error_get :: "evError \<Rightarrow> string \<Rightarrow> fval" where
  "error_get e k = FStr (if k = ''kind'' then ee_Kind e else if k = ''message'' then ee_Message e else [])"

definition store_key_get :: "evStoreKey \<Rightarrow> string \<Rightarrow> fval" where
  "store_key_get e k =
     (if k = ''name'' then FStr (ek_Name e) else if k = ''read'' then FStrs (ek_Read e)
      else if k = ''write'' then FStrs (ek_Write e) else FStr [])"

interpretation ev: struct_fields "map fst event_struct" "\<lambda>e. e" set_field
  by unfold_locales (auto simp: set_field_def)

lemma set_error_put:
  assumes "k \<in> set [''kind'', ''message'']"
  shows "decode_val (error_get a k) j = map_option (\<lambda>b. error_get b k) (set_error k j a)"
    and "set_error k j a = Some b \<Longrightarrow> k' \<noteq> k \<Longrightarrow> error_get b k' = error_get a k'"
proof -
  consider "k = ''kind''" | "k = ''message''" using assms by auto
  note c = this
  show "decode_val (error_get a k) j = map_option (\<lambda>b. error_get b k) (set_error k j a)"
    by (rule c) (simp_all add: set_error_def error_get_def option.map_comp comp_def)
  show "set_error k j a = Some b \<Longrightarrow> k' \<noteq> k \<Longrightarrow> error_get b k' = error_get a k'"
    by (rule c) (auto simp: set_error_def error_get_def)
qed

lemma set_store_key_put:
  assumes "k \<in> set [''name'', ''read'', ''write'']"
  shows "decode_val (store_key_get a k) j = map_option (\<lambda>b. store_key_get b k) (set_store_key k j a)"
    and "set_store_key k j a = Some b \<Longrightarrow> k' \<noteq> k \<Longrightarrow> store_key_get b k' = store_key_get a k'"
proof -
  consider "k = ''name''" | "k = ''read''" | "k = ''write''" using assms by auto
  note c = this
  show "decode_val (store_key_get a k) j = map_option (\<lambda>b. store_key_get b k) (set_store_key k j a)"
    by (rule c) (simp_all add: set_store_key_def store_key_get_def option.map_comp comp_def)
  show "set_store_key k j a = Some b \<Longrightarrow> k' \<noteq> k \<Longrightarrow> store_key_get b k' = store_key_get a k'"
    by (rule c) (auto simp: set_store_key_def store_key_get_def)
qed

interpretation er: struct_fields "[''kind'', ''message'']" error_get set_error
proof
  fix a b :: evError
  assume "error_get a = error_get b"
  then have "error_get a k = error_get b k" for k by simp
  from this[of "''kind''"] this[of "''message''"] show "a = b" by (simp add: error_get_def)
next
  fix k j and a b :: evError
  assume k: "k \<in> set [''kind'', ''message'']"
  note s = set_error_put(1)[OF k, of a j]
  show "(set_error k j a = None) = (decode_val (error_get a k) j = None)" unfolding s by simp
  show "set_error k j a = Some b \<Longrightarrow> decode_val (error_get a k) j = Some (error_get b k)" unfolding s by simp
qed (rule set_error_put(2))

interpretation sk: struct_fields "[''name'', ''read'', ''write'']" store_key_get set_store_key
proof
  fix a b :: evStoreKey
  assume "store_key_get a = store_key_get b"
  then have "store_key_get a k = store_key_get b k" for k by simp
  from this[of "''name''"] this[of "''read''"] this[of "''write''"] show "a = b" by (simp add: store_key_get_def)
next
  fix k j and a b :: evStoreKey
  assume k: "k \<in> set [''name'', ''read'', ''write'']"
  note s = set_store_key_put(1)[OF k, of a j]
  show "(set_store_key k j a = None) = (decode_val (store_key_get a k) j = None)" unfolding s by simp
  show "set_store_key k j a = Some b \<Longrightarrow> decode_val (store_key_get a k) j = Some (store_key_get b k)" unfolding s by simp
qed (rule set_store_key_put(2))

section \<open>A raw object and the struct it decodes to\<close>

definition unbroken :: "string \<Rightarrow> bool" where
  "unbroken s \<longleftrightarrow> newline \<notin> set s"

definition holds :: "nat \<Rightarrow> string list \<Rightarrow> (string \<Rightarrow> fval) \<Rightarrow> rawObject \<Rightarrow> (string \<Rightarrow> fval) \<Rightarrow> bool" where
  "holds d names z o' v \<longleftrightarrow>
     (\<exists>ms. raw_as d o' ms \<and> exact names (map fst ms) \<and> (\<forall>k. seen names ms k (z k) = Some (v k))) \<and>
     (\<forall>x \<in> set o'. unbroken (snd x))"

lemma m_put_snd: "x \<in> set (m_put k v m) \<Longrightarrow> x = (k, v) \<or> x \<in> set m"
  unfolding m_put_def by (induction m) (auto split: if_splits)

text \<open>Setting a member sets a field.\<close>

lemma holds_set:
  assumes h: "holds d names z o' v" and k: "k \<in> set names" "valid_utf8 k" and p: "parse_value d raw = Some (j, [])"
    and w: "decode_val (z k) j = Some w" and u: "unbroken raw"
  shows "holds d names z (raw_set o' k raw) (v(k := w))"
proof -
  obtain ms where ms: "raw_as d o' ms" "exact names (map fst ms)" "\<And>k. seen names ms k (z k) = Some (v k)"
    using h unfolding holds_def by blast
  have "seen names (m_put k j ms) k' (z k') = Some ((v(k := w)) k')" for k'
    using ms(3)[of k'] k w by (auto simp: seen_def)
  moreover have "raw_as d (raw_set o' k raw) (m_put k j ms)" by (rule raw_as_set[OF ms(1) p k(2)])
  moreover have "exact names (map fst (m_put k j ms))" by (rule exact_put[OF ms(2) k(1)])
  moreover have "\<forall>x \<in> set (raw_set o' k raw). unbroken (snd x)"
    using h u m_put_snd by (fastforce simp: holds_def raw_set_def)
  ultimately show ?thesis unfolding holds_def by blast
qed

text \<open>A member is the raw value of a field.\<close>

lemma raw_as_get: "raw_as d o' ms \<Longrightarrow> m_get o' k = Some raw \<Longrightarrow> \<exists>j. m_get ms k = Some j \<and> parse_value d raw = Some (j, [])"
proof -
  assume r: "raw_as d o' ms" and k: "m_get o' k = Some raw"
  have "list_all2 (reads d) o' ms" using r by (simp add: raw_as_def)
  then show ?thesis
    using k unfolding m_get_def by (induction rule: list_all2_induct) (auto simp: reads_def split: if_splits)
qed

lemma holds_get:
  assumes "holds d names z o' v" and "k \<in> set names" and "m_get o' k = Some raw"
  obtains j where "parse_value d raw = Some (j, [])" and "decode_val (z k) j = Some (v k)" and "unbroken raw"
proof -
  obtain ms where ms: "raw_as d o' ms" "\<And>k. seen names ms k (z k) = Some (v k)"
    using assms(1) unfolding holds_def by blast
  obtain j where j: "m_get ms k = Some j" "parse_value d raw = Some (j, [])" using raw_as_get[OF ms(1) assms(3)] by blast
  have "decode_val (z k) j = Some (v k)" using ms(2)[of k] j(1) assms(2) by (simp add: seen_def)
  moreover have "(k, raw) \<in> set o'" using assms(3) by (simp add: m_get_def map_of_SomeD)
  then have "unbroken raw" using assms(1) by (force simp: holds_def)
  ultimately show thesis using that j(2) by blast
qed

context struct_fields
begin

lemma holds_parsed:
  assumes "parseObject raw = Inr o'" and "parse_value (Suc d) (skip_ws raw) = Some (j, r)" and "d \<le> maxNestingDepth"
    and "folded_name names (map fst o') = None" and "decode_obj names put j a = Some b" and "unbroken raw"
  shows "holds d names (get a) o' (get b)"
proof -
  obtain ms where ms: "j = JObj ms" "raw_as d o' ms" "\<forall>x \<in> set o'. set (snd x) \<subseteq> set raw"
    using parseObject_reads[OF assms(1-3)] by blast
  have e: "exact names (map fst ms)"
    using folded_name_exact[OF assms(4)] raw_as_keys[OF ms(2)] ms(2) by (simp add: raw_as_def)
  have "\<forall>k. seen names ms k (get a k) = Some (get b k)" using decode_members_seen[OF e, of a b] assms(5) ms(1) by simp
  then show ?thesis using ms(2,3) e assms(6) unfolding holds_def unbroken_def by blast
qed

lemma holds_marshal:
  assumes "holds d names (get a) o' (get b)" and "d \<le> d'"
  obtains ms where "\<And>r. parse_value (Suc d') (raw_marshal o' @ r) = Some (JObj ms, r)" and "decode_obj names put (JObj ms) a = Some b"
proof -
  obtain ms where ms: "raw_as d o' ms" "exact names (map fst ms)" "\<forall>k. seen names ms k (get a k) = Some (get b k)"
    using assms(1) unfolding holds_def by blast
  show thesis
    using that[of ms] raw_marshal_reads[OF ms(1) assms(2)] decode_members_seen[OF ms(2), of a b] ms(3) by simp
qed

end

lemma unbroken_join: "\<forall>x \<in> set xs. unbroken x \<Longrightarrow> unbroken (join xs '','')"
  by (induction xs "'',''::string" rule: join.induct) (auto simp: unbroken_def newline_def)

lemma unbroken_printable: "printable s \<Longrightarrow> unbroken s"
  by (auto simp: unbroken_def printable_def list_all_iff newline_def)

lemma holds_unbroken: "holds d names z o' v \<Longrightarrow> unbroken (raw_marshal o')"
proof -
  assume h: "holds d names z o' v"
  have "unbroken (raw_member x)" if "x \<in> set o'" for x
    using h that printable_quote[of "fst x", THEN unbroken_printable] by (auto simp: raw_member_def holds_def unbroken_def newline_def)
  then have "unbroken (join (map raw_member o') '','')" by (intro unbroken_join) auto
  then show ?thesis by (simp add: raw_marshal_def unbroken_def newline_def)
qed

end
