(* ===== verification/Recorder_Redact.thy ===== *)
theory Recorder_Redact
  imports Recorder_Fields
begin

text \<open>
  Writing a redaction back into a line (\<open>internal/recorder/erase.go\<close>): a leaf, a nested struct, a
  slice of structs, a whole event. Each step keeps what the line decodes to in step with the redacted
  event, counts what it changed, and cannot be refused by the code's own consistency checks.
\<close>

declare parse_value.simps [simp del]

section \<open>Fingerprints\<close>

lemma list_all_valid: "list_all (\<lambda>c. byte c < 128) s \<Longrightarrow> valid_utf8 s"
  by (induction s) auto

lemma plain_utf8: "list_all plain_char s \<Longrightarrow> valid_utf8 s"
  by (rule list_all_valid) (auto simp: list_all_iff dest: plain_esc)

lemma placeholder_valid: "valid_utf8 (erasedPlaceholder h)"
proof -
  have "rune_len [CHR 0xE2, CHR 0x80, CHR 0x94] = Some (length [CHR 0xE2, CHR 0x80, CHR 0x94])"
    by (simp add: rune_len_def lead_len_def second_ok_def cont_def)
  then have d: "valid_utf8 ([CHR 0xE2, CHR 0x80, CHR 0x94] @ t) = valid_utf8 t" for t by (rule valid_rune)
  have a: "valid_utf8 ''(erased ''" "valid_utf8 '' sha256:''" "valid_utf8 '')''" by (simp_all add: list_all_valid)
  show ?thesis
    using d valid_utf8_append[OF a(1)] valid_utf8_append[OF a(2)] valid_utf8_append[OF plain_utf8[OF hexEncode_plain]] a(3)
    by (simp only: erasedPlaceholder_def erasedPrefix_def erasedSuffix_def append_assoc)
qed

lemma hex_val_plain: "d < 16 \<Longrightarrow> hex_val (hex_char d) \<noteq> None"
  by (auto simp: hex_val_def hex_char_def)

lemma hexEncode_hex: "list_all (\<lambda>c. hex_val c \<noteq> None) (hexEncode b)"
proof (induction b)
  case (Cons c b)
  have "byte c div 16 < 16" by (rule less_mult_imp_div_less) (use byte_less[of c] in simp)
  moreover have "byte c mod 16 < 16" by simp
  ultimately show ?case using Cons hex_val_plain by (simp add: hexEncode_def)
qed (simp add: hexEncode_def)

lemma placeholder_erased: "length h = 32 \<Longrightarrow> isErasedPlaceholder (erasedPlaceholder h)"
  using hexEncode_length[of h] hexEncode_hex[of h]
  by (auto simp: isErasedPlaceholder_def erasedPlaceholder_def hasPrefix_iff hasSuffix_iff Let_def erasedSuffix_def)

lemma placeholder_not_empty: "erasedPlaceholder h \<noteq> []"
  by (simp add: erasedPlaceholder_def erasedSuffix_def)

lemma redactString_cases:
  obtains "redactString sha s = []" "s = [] \<or> isErasedPlaceholder s"
  | "redactString sha s = erasedPlaceholder (sha s)" "s \<noteq> []" "\<not> isErasedPlaceholder s"
  by (auto simp: redactString_def)

section \<open>Changed leaves\<close>

definition leaf_change :: "fval \<Rightarrow> fval \<Rightarrow> bool" where
  "leaf_change b a \<longleftrightarrow>
     a = b \<or> (\<exists>s h. b = FStr s \<and> a = FStr (erasedPlaceholder h)) \<or> (\<exists>xs h. b = FStrs xs \<and> a = FStrs [erasedPlaceholder h])"

lemma leaf_change_refl: "leaf_change v v"
  by (simp add: leaf_change_def)

lemma redact_leaf_cases:
  assumes "digest32 sha" and "redact_leaf sha k s = (s', t)"
  shows "leaf_change (FStr s) (FStr s') \<and> (t \<longleftrightarrow> s' \<noteq> s)"
proof (cases "k \<in> set eraseExempt")
  case False
  show ?thesis
  proof (rule redactString_cases[of sha s])
    assume r: "redactString sha s = erasedPlaceholder (sha s)" "s \<noteq> []" "\<not> isErasedPlaceholder s"
    have "isErasedPlaceholder (erasedPlaceholder (sha s))" using assms(1) by (intro placeholder_erased) (simp add: digest32_def)
    then have "erasedPlaceholder (sha s) \<noteq> s" using r(3) by auto
    moreover have "s' = erasedPlaceholder (sha s)" "t" using assms(2) r(1) False placeholder_not_empty[of "sha s"]
      by (auto simp: redact_leaf_def split: if_splits)
    ultimately show ?thesis by (auto simp: leaf_change_def)
  qed (use assms(2) False in \<open>auto simp: redact_leaf_def leaf_change_def\<close>)
qed (use assms(2) in \<open>auto simp: redact_leaf_def leaf_change_def\<close>)

lemma holds_kind: "holds d names z o' v \<Longrightarrow> kind_of_val (v k) = kind_of_val (z k)"
proof -
  assume "holds d names z o' v"
  then obtain ms where "seen names ms k (z k) = Some (v k)" unfolding holds_def by blast
  then show ?thesis using decode_val_kind by (auto simp: seen_def split: if_splits option.splits)
qed

lemma parse_quoted: "valid_utf8 p \<Longrightarrow> parse_value d (quote_str p) = Some (JStr p, [])"
  using parse_render[of d "JStr p" "[]"] by (simp add: follows_def to_valid_id)

lemma parse_quotes: "\<forall>p \<in> set ps. valid_utf8 p \<Longrightarrow> parse_value (Suc d) (render (JArr (map JStr ps))) = Some (JArr (map JStr ps), [])"
proof -
  assume v: "\<forall>p \<in> set ps. valid_utf8 p"
  have "map (norm \<circ> JStr) ps = map JStr ps" using v by (auto simp: to_valid_id)
  then show ?thesis using parse_render[of "Suc d" "JArr (map JStr ps)" "[]"] by (simp add: follows_def)
qed

lemma unbroken_quote: "unbroken (quote_str s)"
  by (rule unbroken_printable[OF printable_quote])

lemma apply_leaf_get: "k' \<noteq> k \<Longrightarrow> m_get (fst (apply_leaf o' k b a)) k' = m_get o' k'"
  by (auto simp: apply_leaf_def raw_set_def split: fval.splits)

lemma apply_leaf_holds:
  assumes h: "holds (Suc d) names z o' v" and k: "k \<in> set names" "valid_utf8 k" and c: "leaf_change (v k) a"
    and r: "apply_leaf o' k (v k) a = (o1, n)"
  shows "holds (Suc d) names z o1 (v(k := a)) \<and> n = (if v k = a then 0 else 1)"
proof -
  consider "a = v k" | s p where "v k \<noteq> a" "v k = FStr s" "a = FStr (erasedPlaceholder p)"
    | xs p where "v k \<noteq> a" "v k = FStrs xs" "a = FStrs [erasedPlaceholder p]"
    using c unfolding leaf_change_def by metis
  then show ?thesis
  proof cases
    case 1
    then have "v(k := a) = v" by auto
    then show ?thesis using h r 1 by (simp add: apply_leaf_def)
  next
    case (2 s p)
    obtain s0 where z: "z k = FStr s0" using holds_kind[OF h, of k] 2(2) by (cases "z k") auto
    have "holds (Suc d) names z (raw_set o' k (mustQuote (erasedPlaceholder p))) (v(k := a))"
      unfolding mustQuote_def
      by (rule holds_set[OF h k parse_quoted[OF placeholder_valid] _ unbroken_quote]) (simp add: z 2(3))
    then show ?thesis using r 2 by (auto simp: apply_leaf_def)
  next
    case (3 xs p)
    obtain s0 where z: "z k = FStrs s0" using holds_kind[OF h, of k] 3(2) by (cases "z k") auto
    let ?j = "JArr (map JStr [erasedPlaceholder p])"
    have "parse_value (Suc d) (render ?j) = Some (?j, [])" by (rule parse_quotes) (simp add: placeholder_valid)
    moreover have "unbroken (render ?j)"
      using unbroken_quote[of "erasedPlaceholder p"] by (simp add: unbroken_def newline_def)
    moreover have "decode_val (z k) ?j = Some a" unfolding z 3(3) by (simp add: decode_strs_def)
    ultimately have "holds (Suc d) names z (raw_set o' k (render ?j)) (v(k := a))"
      by (intro holds_set[OF h k, of _ ?j])
    then show ?thesis using r 3 by (auto simp: apply_leaf_def)
  qed
qed

text \<open>The leaves of a nested struct.\<close>

definition pairs :: "string list \<Rightarrow> (string \<Rightarrow> fval) \<Rightarrow> (string \<times> fval) list" where
  "pairs ks v = map (\<lambda>k. (k, v k)) ks"

definition differ :: "string list \<Rightarrow> (string \<Rightarrow> fval) \<Rightarrow> (string \<Rightarrow> fval) \<Rightarrow> nat" where
  "differ ks v w = length (filter (\<lambda>k. v k \<noteq> w k) ks)"

lemma apply_leaves_holds:
  "holds (Suc d) names z o' v \<Longrightarrow> set ks \<subseteq> set names \<Longrightarrow> distinct ks \<Longrightarrow> list_all valid_utf8 ks \<Longrightarrow>
    \<forall>k \<in> set ks. leaf_change (v k) (w k) \<Longrightarrow> apply_leaves o' (pairs ks v) (pairs ks w) = (o1, n) \<Longrightarrow>
    holds (Suc d) names z o1 (\<lambda>k. if k \<in> set ks then w k else v k) \<and> n = differ ks v w"
proof (induction ks arbitrary: o' v n)
  case Nil
  then show ?case by (simp add: pairs_def differ_def)
next
  case (Cons k ks)
  obtain o2 i where l: "apply_leaf o' k (v k) (w k) = (o2, i)" by (metis surj_pair)
  have h: "holds (Suc d) names z o2 (v(k := w k))" "i = (if v k = w k then 0 else 1)"
    using apply_leaf_holds[OF Cons.prems(1) _ _ _ l] Cons.prems(2,4,5) by auto
  have p: "pairs ks (v(k := w k)) = pairs ks v" using Cons.prems(3) by (auto simp: pairs_def)
  obtain m where m: "apply_leaves o2 (pairs ks v) (pairs ks w) = (o1, m)" "n = i + m"
    using Cons.prems(6) l by (auto simp: pairs_def split: prod.splits)
  have "holds (Suc d) names z o1 (\<lambda>k'. if k' \<in> set ks then w k' else (v(k := w k)) k') \<and> m = differ ks (v(k := w k)) w"
  proof (rule Cons.IH[OF h(1)])
    show "apply_leaves o2 (pairs ks (v(k := w k))) (pairs ks w) = (o1, m)" unfolding p by (rule m(1))
  qed (use Cons.prems in auto)
  moreover have "(\<lambda>k'. if k' \<in> set ks then w k' else (v(k := w k)) k') = (\<lambda>k'. if k' \<in> set (k # ks) then w k' else v k')"
    by auto
  moreover have "differ ks (v(k := w k)) w = differ ks v w"
    unfolding differ_def by (rule arg_cong[of _ _ length], rule filter_cong) (use Cons.prems(3) in auto)
  ultimately show ?case using h(2) m(2) by (simp add: differ_def)
qed

section \<open>Nested structs\<close>

context struct_fields
begin

lemma nested_written:
  assumes p: "parse_value (Suc (Suc d)) raw = Some (j, [])" and d: "Suc d \<le> maxNestingDepth"
    and n: "parseObject raw = Inr nested" and f: "folded_name names (map fst nested) = None"
    and dec: "decode_obj names put j a = Some x" and u: "unbroken raw"
    and names: "distinct names" "list_all valid_utf8 names" and c: "\<forall>k. leaf_change (get x k) (get y k)"
    and out: "\<forall>k. k \<notin> set names \<longrightarrow> get x k = get y k"
    and r: "apply_leaves nested (pairs names (get x)) (pairs names (get y)) = (nested', m)"
  obtains ms where "parse_value (Suc (Suc d)) (raw_marshal nested') = Some (JObj ms, [])"
    and "decode_obj names put (JObj ms) a = Some y" and "unbroken (raw_marshal nested')" and "0 < m \<longleftrightarrow> x \<noteq> y"
proof -
  have w: "parse_value (Suc (Suc d)) (skip_ws raw) = Some (j, [])" using p value_ws[OF p, of "[]"] by simp
  have "holds (Suc d) names (get a) nested (get x)" by (rule holds_parsed[OF n w d f dec u])
  then have h: "holds (Suc d) names (get a) nested' (\<lambda>k. if k \<in> set names then get y k else get x k)"
    and m: "m = differ names (get x) (get y)"
    using apply_leaves_holds[OF _ order_refl names(1,2) _ r] c by blast+
  have "(\<lambda>k. if k \<in> set names then get y k else get x k) = get y" using out by auto
  then have g: "holds (Suc d) names (get a) nested' (get y)" using h by simp
  obtain ms where ms: "\<And>r. parse_value (Suc (Suc d)) (raw_marshal nested' @ r) = Some (JObj ms, r)"
      "decode_obj names put (JObj ms) a = Some y"
    by (rule holds_marshal[OF g order_refl]) blast
  have "0 < m \<longleftrightarrow> (\<exists>k \<in> set names. get x k \<noteq> get y k)" by (auto simp: m differ_def filter_empty_conv)
  also have "\<dots> \<longleftrightarrow> get x \<noteq> get y" using out fun_eq_iff[of "get x" "get y"] by blast
  also have "\<dots> \<longleftrightarrow> x \<noteq> y" using get_eq by auto
  finally show thesis using that[of ms] ms(1)[of "[]"] ms(2) holds_unbroken[OF g] by simp
qed

end

lemma nested_names:
  "distinct [''kind'', ''message'']" "list_all valid_utf8 [''kind'', ''message'']"
  "distinct [''name'', ''read'', ''write'']" "list_all valid_utf8 [''name'', ''read'', ''write'']"
  by simp_all

lemma error_fields_pairs: "error_fields e = pairs [''kind'', ''message''] (error_get e)"
  by (simp add: error_fields_def pairs_def error_get_def)

lemma store_key_fields_pairs: "store_key_fields e = pairs [''name'', ''read'', ''write''] (store_key_get e)"
  by (simp add: store_key_fields_def pairs_def store_key_get_def)

section \<open>Slices of structs\<close>

definition key_change :: "evStoreKey \<Rightarrow> evStoreKey \<Rightarrow> bool" where
  "key_change x y \<longleftrightarrow> (\<forall>k. leaf_change (store_key_get x k) (store_key_get y k))"

lemma key_change_name: "leaf_change (FStr (ek_Name x)) (FStr s) \<Longrightarrow> key_change x (x\<lparr>ek_Name := s\<rparr>)"
  by (simp add: key_change_def store_key_get_def leaf_change_refl)

lemma key_change_refl: "key_change x x"
  by (simp add: key_change_def leaf_change_refl)

lemma redact_store_keys_change:
  "digest32 sha \<Longrightarrow> redact_store_keys sha ks = (ks', t) \<Longrightarrow> list_all2 key_change ks ks' \<and> (t \<longleftrightarrow> ks \<noteq> ks')"
proof (induction ks arbitrary: ks' t)
  case (Cons k ks)
  obtain ls u where l: "redact_store_keys sha ks = (ls, u)" by (metis surj_pair)
  have i: "list_all2 key_change ks ls" "u \<longleftrightarrow> ks \<noteq> ls" using Cons.IH[OF Cons.prems(1) l] by blast+
  show ?case
  proof (rule redactString_cases[of sha "ek_Name k"])
    assume "redactString sha (ek_Name k) = []"
    then show ?thesis using Cons.prems(2) l i key_change_refl by auto
  next
    assume r: "redactString sha (ek_Name k) = erasedPlaceholder (sha (ek_Name k))" "\<not> isErasedPlaceholder (ek_Name k)"
    have "isErasedPlaceholder (erasedPlaceholder (sha (ek_Name k)))"
      using Cons.prems(1) by (intro placeholder_erased) (simp add: digest32_def)
    then have n: "ek_Name k \<noteq> erasedPlaceholder (sha (ek_Name k))" using r(2) by auto
    have k: "ks' = k\<lparr>ek_Name := erasedPlaceholder (sha (ek_Name k))\<rparr> # ls" "t"
      using Cons.prems(2) l r(1) placeholder_not_empty by auto
    have "ek_Name k \<noteq> ek_Name (hd ks')" using k(1) n by simp
    then have "k # ks \<noteq> ks'" by auto
    moreover have "key_change k (k\<lparr>ek_Name := erasedPlaceholder (sha (ek_Name k))\<rparr>)"
      by (rule key_change_name) (auto simp: leaf_change_def)
    ultimately show ?thesis using k i(1) by simp
  qed
qed simp

definition reads_as :: "nat \<Rightarrow> string \<Rightarrow> json \<Rightarrow> bool" where
  "reads_as d v j \<longleftrightarrow> parse_value d v = Some (j, [])"

lemma apply_elems_written:
  "list_all2 (reads_as (Suc (Suc d))) els js \<Longrightarrow> Suc d \<le> maxNestingDepth \<Longrightarrow> decode_all decode_store_key js = Some xs \<Longrightarrow>
    list_all2 key_change xs ys \<Longrightarrow> \<forall>el \<in> set els. nested_name KStoreKeys el = None \<and> unbroken el \<Longrightarrow>
    apply_elems name i els (map store_key_fields xs) (map store_key_fields ys) = Inr (els', m) \<Longrightarrow>
    \<exists>js'. list_all2 (reads_as (Suc (Suc d))) els' js' \<and> decode_all decode_store_key js' = Some ys \<and>
      (\<forall>el \<in> set els'. unbroken el) \<and> (0 < m \<longleftrightarrow> xs \<noteq> ys)"
proof (induction els js arbitrary: xs ys i els' m rule: list_all2_induct)
  case Nil
  then show ?case by auto
next
  case (Cons el els j js)
  obtain x xs1 where x: "xs = x # xs1" "decode_store_key j = Some x" "decode_all decode_store_key js = Some xs1"
    using Cons.prems(2) by (auto split: option.splits)
  obtain y ys1 where y: "ys = y # ys1" "key_change x y" "list_all2 key_change xs1 ys1"
    using Cons.prems(3) x(1) by (cases ys) auto
  obtain nested nested' k els1 m1 where e: "parseObject el = Inr nested"
      "apply_leaves nested (store_key_fields x) (store_key_fields y) = (nested', k)"
      "apply_elems name (i + 1) els (map store_key_fields xs1) (map store_key_fields ys1) = Inr (els1, m1)"
      "els' = raw_marshal nested' # els1" "m = k + m1"
    using Cons.prems(5) x(1) y(1) by (auto split: sum.splits prod.splits)
  obtain js1 where i: "list_all2 (reads_as (Suc (Suc d))) els1 js1" "decode_all decode_store_key js1 = Some ys1"
      "\<forall>el \<in> set els1. unbroken el" "0 < m1 \<longleftrightarrow> xs1 \<noteq> ys1"
    using Cons.IH[OF Cons.prems(1) x(3) y(3) _ e(3)] Cons.prems(4) by auto
  have f: "folded_name [''name'', ''read'', ''write''] (map fst nested) = None" "unbroken el"
    using Cons.prems(4) e(1) by (simp_all add: nested_name_def)
  let ?z = "\<lparr>ek_Name = [], ek_Read = [], ek_Write = []\<rparr>"
  obtain ms where ms: "parse_value (Suc (Suc d)) (raw_marshal nested') = Some (JObj ms, [])"
      "decode_obj [''name'', ''read'', ''write''] set_store_key (JObj ms) ?z = Some y"
      "unbroken (raw_marshal nested')" "0 < k \<longleftrightarrow> x \<noteq> y"
  proof (rule sk.nested_written)
    show "parse_value (Suc (Suc d)) el = Some (j, [])" using Cons.hyps(1) by (simp add: reads_as_def)
    show "decode_obj [''name'', ''read'', ''write''] set_store_key j ?z = Some x" using x(2) by (simp add: decode_store_key_def)
    show "apply_leaves nested (pairs [''name'', ''read'', ''write''] (store_key_get x))
        (pairs [''name'', ''read'', ''write''] (store_key_get y)) = (nested', k)"
      using e(2) by (simp only: store_key_fields_pairs)
    show "\<forall>k. leaf_change (store_key_get x k) (store_key_get y k)" using y(2) by (simp add: key_change_def)
  qed (use Cons.prems(1) e(1) f nested_names in \<open>auto simp: store_key_get_def\<close>)
  have d: "decode_all decode_store_key (JObj ms # js1) = Some ys" using ms(2) i(2) y(1) by (simp add: decode_store_key_def)
  have "list_all2 (reads_as (Suc (Suc d))) els' (JObj ms # js1)" using ms(1) i(1) e(4) by (simp add: reads_as_def[of _ "raw_marshal nested'"])
  moreover have "\<forall>el \<in> set els'. unbroken el" using ms(3) i(3) e(4) by simp
  moreover have "0 < m \<longleftrightarrow> xs \<noteq> ys" using ms(4) i(4) e(5) x(1) y(1) by auto
  ultimately show ?case using d by blast
qed

lemma compact_unbroken: "unbroken s \<Longrightarrow> unbroken (compact_out s)" and compact_in_unbroken: "unbroken s \<Longrightarrow> unbroken (compact_in s)"
proof (induction s and s rule: compact_out_compact_in.induct)
  case (4 c s)
  have e: "unbroken (esc_ascii c)" by (rule unbroken_printable[OF printable_esc_ascii])
  have d: "unbroken (drop 2 s)" using 4(7) by (auto simp: unbroken_def dest: in_set_dropD)
  have "unbroken (u_esc ''2028'')" "unbroken (u_esc ''2029'')" by (simp_all add: u_esc_def unbroken_def newline_def backslash_def)
  then show ?case using 4 e d by (subst compact_in.simps) (auto simp: unbroken_def split: list.splits)
qed (auto simp: unbroken_def newline_def)

section \<open>A field of the event\<close>

abbreviation event_names :: "string list" where
  "event_names \<equiv> map fst event_struct"

lemma event_names_valid: "k \<in> set event_names \<Longrightarrow> valid_utf8 k"
  using struct_ascii list_all_valid by (auto simp: list_all_iff ascii_def)

lemma holds_absent: "holds d names z o' v \<Longrightarrow> m_get o' k = None \<Longrightarrow> v k = z k"
proof -
  assume h: "holds d names z o' v" and n: "m_get o' k = None"
  obtain ms where ms: "raw_as d o' ms" "seen names ms k (z k) = Some (v k)" using h unfolding holds_def by blast
  have "m_get ms k = None" using n raw_as_keys[OF ms(1)] by (metis list.set_map m_get_def map_of_eq_None_iff)
  then show ?thesis using ms(2) by (simp add: seen_def split: if_splits)
qed

text \<open>What a step of the walk does: the line decodes to the redacted event, the count says whether it was touched.\<close>

definition field_step ::
  "nat \<Rightarrow> rawObject \<Rightarrow> event \<Rightarrow> string \<Rightarrow> fval \<Rightarrow> bool \<Rightarrow> erase_refusal + rawObject \<times> nat \<Rightarrow> bool" where
  "field_step d o' v k a touched r =
     (case r of
        Inl err \<Rightarrow> (\<exists>e. err = BadNested k e) \<or> (\<exists>j e. err = BadElement k j e)
      | Inr (o1, m) \<Rightarrow> holds d event_names zeroEvent o1 (v(k := a)) \<and> (touched \<longleftrightarrow> 0 < m) \<and>
          (\<forall>k'. k' \<noteq> k \<longrightarrow> m_get o1 k' = m_get o' k'))"

lemma field_step_same: "holds d event_names zeroEvent o' v \<Longrightarrow> field_step d o' v k (v k) False (apply_field o' k (v k) (v k))"
  by (simp add: field_step_def apply_field_def)

lemma field_step_leaf:
  assumes h: "holds (Suc d) event_names zeroEvent o' v" and k: "k \<in> set event_names" and c: "leaf_change (v k) a"
  shows "field_step (Suc d) o' v k a (v k \<noteq> a) (apply_field o' k (v k) a)"
proof (cases "v k = a")
  case True
  then show ?thesis using field_step_same[OF h, of k] by simp
next
  case False
  obtain o1 n where r: "apply_leaf o' k (v k) a = (o1, n)" by (metis surj_pair)
  have "apply_field o' k (v k) a = Inr (o1, n)" using False c r by (auto simp: apply_field_def leaf_change_def)
  moreover have "holds (Suc d) event_names zeroEvent o1 (v(k := a)) \<and> n = 1"
    using apply_leaf_holds[OF h k event_names_valid[OF k] c r] False by simp
  ultimately show ?thesis using apply_leaf_get[of _ k o' "v k" a] r False by (simp add: field_step_def)
qed

lemma field_step_set:
  assumes h: "holds d event_names zeroEvent o' v" and k: "k \<in> set event_names" and p: "parse_value d raw = Some (j, [])"
    and w: "decode_val (zeroEvent k) j = Some a" and u: "unbroken raw" and m: "touched \<longleftrightarrow> 0 < (m :: nat)"
  shows "field_step d o' v k a touched (Inr (raw_set o' k raw, m))"
  using holds_set[OF h k event_names_valid[OF k] p w u] m by (simp add: field_step_def raw_set_def)

lemma kind_zero: "(k, t, om) \<in> set event_struct \<Longrightarrow> zeroEvent k = zero_val t"
  by (simp add: zeroEvent_def kind_at_struct)

lemma kind_of_zero: "kind_of_val (zero_val t) = t"
  by (cases t) simp_all

lemma decode_error_val:
  "decode_val (FErrP None) j = Some (FErrP (Some x)) \<longleftrightarrow>
    j \<noteq> JNull \<and> decode_obj [''kind'', ''message''] set_error j \<lparr>ee_Kind = [], ee_Message = []\<rparr> = Some x"
  by auto

lemma field_step_error:
  assumes sha: "digest32 sha" and h: "holds (Suc (Suc (Suc d))) event_names zeroEvent o' v" and d: "Suc (Suc d) \<le> maxNestingDepth"
    and f: "(k, t, om) \<in> set event_struct" and n: "field_name o' (k, t, om) = None" and v: "v k = FErrP (Some x)"
    and r: "redact_val sha k (v k) = (a, touched)"
  shows "field_step (Suc (Suc (Suc d))) o' v k a touched (apply_field o' k (v k) a)"
proof -
  have k: "k \<in> set event_names" using f by force
  have t: "t = KErrP" using holds_kind[OF h, of k] v kind_zero[OF f] kind_of_zero[of t] by simp
  then have z: "zeroEvent k = FErrP None" using kind_zero[OF f] by simp
  obtain kd u where kd: "redact_leaf sha (k @ ''.kind'') (ee_Kind x) = (kd, u)" by (metis surj_pair)
  obtain msg w where msg: "redact_leaf sha (k @ ''.message'') (ee_Message x) = (msg, w)" by (metis surj_pair)
  let ?y = "\<lparr>ee_Kind = kd, ee_Message = msg\<rparr>"
  have a: "a = FErrP (Some ?y)" "touched \<longleftrightarrow> u \<or> w" using r v kd msg by auto
  have c: "leaf_change (FStr (ee_Kind x)) (FStr kd)" "u \<longleftrightarrow> kd \<noteq> ee_Kind x"
      "leaf_change (FStr (ee_Message x)) (FStr msg)" "w \<longleftrightarrow> msg \<noteq> ee_Message x"
    using redact_leaf_cases[OF sha kd] redact_leaf_cases[OF sha msg] by blast+
  have touched: "touched \<longleftrightarrow> x \<noteq> ?y" using a(2) c(2,4) by (cases x) auto
  show ?thesis
  proof (cases "x = ?y")
    case True
    then show ?thesis using field_step_same[OF h, of k] v a(1) touched by simp
  next
    case False
    obtain raw where raw: "m_get o' k = Some raw" using holds_absent[OF h, of k] v z by (cases "m_get o' k") auto
    obtain j where j: "parse_value (Suc (Suc (Suc d))) raw = Some (j, [])" "decode_val (zeroEvent k) j = Some (v k)" "unbroken raw"
      by (rule holds_get[OF h k raw])
    have dec: "decode_obj [''kind'', ''message''] set_error j \<lparr>ee_Kind = [], ee_Message = []\<rparr> = Some x"
      using j(2) unfolding z v decode_error_val by blast
    have ap: "apply_field o' k (v k) a =
        (case parseObject raw of
           Inl err \<Rightarrow> Inl (BadNested k err)
         | Inr nested \<Rightarrow> (case apply_leaves nested (error_fields x) (error_fields ?y) of
             (nested', n) \<Rightarrow> Inr (raw_set o' k (raw_marshal nested'), n)))"
      using False by (simp add: apply_field_def v a(1) raw)
    show ?thesis
    proof (cases "parseObject raw")
      case (Inl err)
      then show ?thesis unfolding ap by (simp add: field_step_def)
    next
      case (Inr nested)
      obtain nested' m where l: "apply_leaves nested (error_fields x) (error_fields ?y) = (nested', m)" by (metis surj_pair)
      have fn: "folded_name [''kind'', ''message''] (map fst nested) = None"
        using n by (simp add: field_name_def raw t nested_name_def Inr)
      obtain ms where ms: "parse_value (Suc (Suc (Suc d))) (raw_marshal nested') = Some (JObj ms, [])"
          "decode_obj [''kind'', ''message''] set_error (JObj ms) \<lparr>ee_Kind = [], ee_Message = []\<rparr> = Some ?y"
          "unbroken (raw_marshal nested')" "0 < m \<longleftrightarrow> x \<noteq> ?y"
      proof (rule er.nested_written)
        show "apply_leaves nested (pairs [''kind'', ''message''] (error_get x)) (pairs [''kind'', ''message''] (error_get ?y)) = (nested', m)"
          using l by (simp only: error_fields_pairs)
        show "Suc (Suc d) \<le> maxNestingDepth" by (rule d)
        show "\<forall>k. leaf_change (error_get x k) (error_get ?y k)" using c(1,3) by (simp add: error_get_def leaf_change_refl)
      qed (use j(1,3) Inr fn dec nested_names in \<open>auto simp: error_get_def\<close>)
      have "decode_val (zeroEvent k) (JObj ms) = Some a" unfolding z a(1) decode_error_val using ms(2) by blast
      then have "field_step (Suc (Suc (Suc d))) o' v k a touched (Inr (raw_set o' k (raw_marshal nested'), m))"
        using ms(4) touched by (intro field_step_set[OF h k ms(1) _ ms(3)]) blast+
      then show ?thesis using ap Inr l by simp
    qed
  qed
qed

lemma first_some_None: "first_some xs = None \<longleftrightarrow> (\<forall>x \<in> set xs. x = None)"
  by (induction xs) (auto split: option.splits)

lemma apply_elems_refused: "apply_elems name i els bs as = Inl err \<Longrightarrow> \<exists>j e. err = BadElement name j e"
  by (induction name i els bs as rule: apply_elems.induct) (auto split: sum.splits prod.splits)

lemma decode_all_length: "decode_all f js = Some xs \<Longrightarrow> length js = length xs"
  by (induction js arbitrary: xs) (auto split: option.splits)

lemma decode_keys_array:
  assumes "decode_val (FStoreKeys []) j = Some (FStoreKeys xs)" and "xs \<noteq> []"
  obtains js where "j = JArr js" and "decode_all decode_store_key js = Some xs"
  using assms by (cases j) auto

lemma raw_elems_some: "parse_elems (parse_value d) n s = Some (js, r) \<Longrightarrow> d \<le> maxNestingDepth - 1 \<Longrightarrow> raw_elems n s \<noteq> None"
proof (induction n arbitrary: s js)
  case (Suc n)
  obtain j r0 c t where v: "parse_value d (skip_ws s) = Some (j, r0)" "skip_ws r0 = c # t"
    using Suc.prems(1) by (auto split: option.splits prod.splits list.splits)
  have c: "c = CHR '']'' \<or> c = CHR '',''" using Suc.prems(1) v by (auto split: if_splits)
  have p: "parse_value (maxNestingDepth - 1) (skip_ws s) = Some (j, r0)"
    by (rule value_deeper[OF v(1) Suc.prems(2)]) (use value_end_sep[OF v(2)] c in blast)
  show ?case
  proof (cases "c = CHR '']''")
    case False
    then obtain js' where "parse_elems (parse_value d) n t = Some (js', r)" using Suc.prems(1) v by (auto split: if_splits option.splits)
    then have "raw_elems n t \<noteq> None" using Suc.IH Suc.prems(2) by blast
    then show ?thesis using p v(2) c by (auto simp: Let_def)
  qed (use p v(2) in \<open>simp add: Let_def\<close>)
qed simp

lemma rawArray_some:
  assumes "parse_value (Suc d) raw = Some (JArr js, [])" and "Suc d \<le> maxNestingDepth"
  shows "\<exists>vs. rawArray raw = Some vs"
proof -
  have w: "skip_ws raw = raw" using value_ws[OF assms(1), of "[]"] by simp
  have "parse_value maxNestingDepth raw = Some (JArr js, [])"
    by (rule value_deeper[OF assms(1,2)]) (simp add: value_end_def)
  then have jp: "json_parse raw = Some (JArr js)" by (simp add: json_parse_def w)
  show ?thesis
  proof (cases js)
    case Nil
    then show ?thesis using jp by (simp add: rawArray_def)
  next
    case (Cons j js')
    note pv = assms(1)[unfolded parse_value.simps]
    have s: "parse_scalar raw \<noteq> Some (JArr js, [])" by (auto simp: parse_scalar_def split: if_splits list.splits)
    then obtain t where t: "raw = CHR ''['' # t" using pv by (auto split: list.splits if_splits)
    then obtain e u where e: "skip_ws t = e # u" using pv by (cases "skip_ws t") auto
    have "e \<noteq> CHR '']''" using pv t e Cons by auto
    then have pe: "parse_elems (parse_value d) (length raw) t = Some (js, [])" using pv t e by auto
    have "d \<le> maxNestingDepth - 1" using assms(2) by simp
    from raw_elems_some[OF pe this] show ?thesis using jp Cons w t by (auto simp: rawArray_def)
  qed
qed

lemma unbroken_marshal_raws: "\<forall>v \<in> set vs. unbroken v \<Longrightarrow> unbroken (marshal_raws vs)"
proof -
  assume "\<forall>v \<in> set vs. unbroken v"
  then have "unbroken (join (map compact_out vs) '','')" using compact_unbroken by (intro unbroken_join) auto
  then show ?thesis by (simp add: marshal_raws_def unbroken_def newline_def)
qed

lemma field_step_keys:
  assumes sha: "digest32 sha" and h: "holds (Suc (Suc (Suc d))) event_names zeroEvent o' v" and d: "Suc (Suc (Suc d)) \<le> maxNestingDepth"
    and f: "(k, t, om) \<in> set event_struct" and n: "field_name o' (k, t, om) = None" and v: "v k = FStoreKeys xs"
    and r: "redact_val sha k (v k) = (a, touched)"
  shows "field_step (Suc (Suc (Suc d))) o' v k a touched (apply_field o' k (v k) a)"
proof -
  have k: "k \<in> set event_names" using f by force
  have t: "t = KStoreKeys" using holds_kind[OF h, of k] v kind_zero[OF f] kind_of_zero[of t] by simp
  then have z: "zeroEvent k = FStoreKeys []" using kind_zero[OF f] by simp
  obtain ys where ys: "redact_store_keys sha xs = (ys, touched)" "a = FStoreKeys ys" using r v by (auto split: prod.splits)
  have c: "list_all2 key_change xs ys" "touched \<longleftrightarrow> xs \<noteq> ys" using redact_store_keys_change[OF sha ys(1)] by blast+
  have len: "length xs = length ys" by (rule list_all2_lengthD[OF c(1)])
  show ?thesis
  proof (cases "xs = ys")
    case True
    then show ?thesis using field_step_same[OF h, of k] v ys(2) c(2) by simp
  next
    case False
    then have ne: "xs \<noteq> []" using len by auto
    obtain raw where raw: "m_get o' k = Some raw" using holds_absent[OF h, of k] v z ne by (cases "m_get o' k") auto
    obtain j where j: "parse_value (Suc (Suc (Suc d))) raw = Some (j, [])" "decode_val (zeroEvent k) j = Some (v k)" "unbroken raw"
      by (rule holds_get[OF h k raw])
    obtain js where js: "j = JArr js" "decode_all decode_store_key js = Some xs"
      by (rule decode_keys_array[OF j(2)[unfolded z v] ne])
    obtain els where els: "rawArray raw = Some els" using rawArray_some[OF j(1)[unfolded js(1)] d] by blast
    have e: "list_all2 (reads_as (Suc (Suc d))) els js" "\<forall>el \<in> set els. set el \<subseteq> set raw"
      using rawArray_reads[OF els j(1)[unfolded js(1)] d] unfolding reads_as_def[abs_def] by blast+
    have u: "\<forall>el \<in> set els. nested_name KStoreKeys el = None \<and> unbroken el"
      using n e(2) j(3) by (auto simp: field_name_def raw t els first_some_None unbroken_def)
    have l: "length els = length xs" using list_all2_lengthD[OF e(1)] decode_all_length[OF js(2)] by simp
    have ap: "apply_field o' k (v k) a =
        (case apply_elems k 0 els (map store_key_fields xs) (map store_key_fields ys) of
           Inl err \<Rightarrow> Inl err | Inr (els', n) \<Rightarrow> Inr (raw_set o' k (marshal_raws els'), n))"
      using False l len by (simp add: apply_field_def v ys(2) applyRedactionToSlice_def raw els)
    show ?thesis
    proof (cases "apply_elems k 0 els (map store_key_fields xs) (map store_key_fields ys)")
      case (Inl err)
      then show ?thesis using apply_elems_refused[OF Inl] unfolding ap by (auto simp: field_step_def)
    next
      case (Inr p)
      obtain els' m where p: "p = (els', m)" by (metis surj_pair)
      have "Suc d \<le> maxNestingDepth" using d by simp
      then obtain js' where w: "list_all2 (reads_as (Suc (Suc d))) els' js'" "decode_all decode_store_key js' = Some ys"
          "\<forall>el \<in> set els'. unbroken el" "0 < m \<longleftrightarrow> xs \<noteq> ys"
        using apply_elems_written[OF e(1) _ js(2) c(1) u Inr[unfolded p]] by blast
      have "parse_value (Suc (Suc (Suc d))) (marshal_raws els') = Some (JArr js', [])"
        by (rule marshal_raws_reads[OF w(1)[unfolded reads_as_def[abs_def]]])
      moreover have "decode_val (zeroEvent k) (JArr js') = Some a" unfolding z ys(2) using w(2) by simp
      ultimately have "field_step (Suc (Suc (Suc d))) o' v k a touched (Inr (raw_set o' k (marshal_raws els'), m))"
        using w(4) c(2) unbroken_marshal_raws[OF w(3)] by (intro field_step_set[OF h k]) auto
      then show ?thesis using ap Inr p by simp
    qed
  qed
qed

text \<open>Every field.\<close>

lemma redactStrings_change:
  assumes "digest32 sha" and "redactStrings sha xs = Some ys"
  shows "leaf_change (FStrs xs) (FStrs ys) \<and> xs \<noteq> ys"
proof -
  obtain h where y: "ys = [erasedPlaceholder (sha h)]" "\<not> (length xs = 1 \<and> isErasedPlaceholder (hd xs))"
    using assms(2) by (auto simp: redactStrings_def split: if_splits)
  have "isErasedPlaceholder (erasedPlaceholder (sha h))" using assms(1) by (intro placeholder_erased) (simp add: digest32_def)
  then show ?thesis using y by (auto simp: leaf_change_def)
qed

theorem field_step_any:
  assumes sha: "digest32 sha" and h: "holds (Suc (Suc (Suc d))) event_names zeroEvent o' v" and d: "Suc (Suc (Suc d)) \<le> maxNestingDepth"
    and f: "(k, t, om) \<in> set event_struct" and n: "field_name o' (k, t, om) = None"
    and r: "redact_val sha k (v k) = (a, touched)"
  shows "field_step (Suc (Suc (Suc d))) o' v k a touched (apply_field o' k (v k) a)"
proof -
  have k: "k \<in> set event_names" using f by force
  have same: ?thesis if "a = v k" "\<not> touched" using field_step_same[OF h, of k] that by simp
  have leaf: ?thesis if "leaf_change (v k) a" "touched \<longleftrightarrow> v k \<noteq> a" using field_step_leaf[OF h k that(1)] that(2) by simp
  show ?thesis
  proof (cases "v k")
    case (FStr s)
    obtain s' u where s: "redact_leaf sha k s = (s', u)" by (metis surj_pair)
    show ?thesis using redact_leaf_cases[OF sha s] r s FStr by (intro leaf) auto
  next
    case (FStrs xs)
    show ?thesis
    proof (cases "k \<in> set eraseExempt \<or> redactStrings sha xs = None")
      case True
      then show ?thesis using r FStrs by (intro same) (auto split: if_splits)
    next
      case False
      then obtain ys where ys: "redactStrings sha xs = Some ys" by auto
      show ?thesis using redactStrings_change[OF sha ys] r FStrs False ys by (intro leaf) auto
    qed
  next
    case (FErrP e)
    show ?thesis
    proof (cases e)
      case None
      then show ?thesis using r FErrP by (intro same) auto
    next
      case (Some x)
      have "Suc (Suc d) \<le> maxNestingDepth" using d by simp
      then show ?thesis using field_step_error[OF sha h _ f n _ r] FErrP Some by simp
    qed
  next
    case (FStoreKeys xs)
    show ?thesis by (rule field_step_keys[OF sha h d f n FStoreKeys r])
  qed (rule same; use r in auto)+
qed

section \<open>The walk\<close>

lemma redact_fields_frame: "redact_fields sha fs e c = (e', t) \<Longrightarrow> k \<notin> fst ` set fs \<Longrightarrow> e' k = e k"
  by (induction sha fs e c arbitrary: e' t rule: redact_fields.induct) (auto split: prod.splits)

lemma applyRedaction_cong: "\<forall>k \<in> fst ` set fs. v k = w k \<Longrightarrow> applyRedaction fs v after o' = applyRedaction fs w after o'"
  by (induction fs v after o' rule: applyRedaction.induct) (auto split: sum.splits)

lemma field_name_frame: "m_get o1 (fst f) = m_get o' (fst f) \<Longrightarrow> field_name o1 f = field_name o' f"
  by (simp add: field_name_def)

definition nested_refusal :: "erase_refusal \<Rightarrow> bool" where
  "nested_refusal err \<longleftrightarrow> (\<exists>k e. err = BadNested k e) \<or> (\<exists>k j e. err = BadElement k j e)"

text \<open>
  The redacted event and the line walked alongside: \<open>v\<close> is what the line decodes to, fields of
  \<open>fs\<close> are still those of \<open>before\<close>.
\<close>

lemma walk_step:
  assumes sha: "digest32 sha" and d: "Suc (Suc (Suc d)) \<le> maxNestingDepth"
  shows "holds (Suc (Suc (Suc d))) event_names zeroEvent o' v \<Longrightarrow> set fs \<subseteq> set event_struct \<Longrightarrow> distinct (map fst fs) \<Longrightarrow>
    \<forall>f \<in> set fs. field_name o' f = None \<Longrightarrow> redact_fields sha fs v c = (after, touched) \<Longrightarrow>
    (case applyRedaction fs v after o' of
       Inl err \<Rightarrow> nested_refusal err
     | Inr (o1, m) \<Rightarrow> holds (Suc (Suc (Suc d))) event_names zeroEvent o1 after \<and> (touched \<longleftrightarrow> c \<or> 0 < m))"
proof (induction fs arbitrary: o' v c)
  case Nil
  then show ?case by simp
next
  case (Cons f fs)
  obtain k t om where f: "f = (k, t, om)" by (cases f)
  obtain a b where a: "redact_val sha k (v k) = (a, b)" by (metis surj_pair)
  let ?w = "v(k := a)"
  have r: "redact_fields sha fs ?w (c \<or> b) = (after, touched)" using Cons.prems(5) f a by simp
  have k: "k \<notin> fst ` set fs" using Cons.prems(3) f by simp
  have ak: "after k = a" using redact_fields_frame[OF r k] by simp
  have st: "field_step (Suc (Suc (Suc d))) o' v k a b (apply_field o' k (v k) a)"
    using field_step_any[OF sha Cons.prems(1) d _ _ a] Cons.prems(2,4) f by auto
  show ?case
  proof (cases "apply_field o' k (v k) a")
    case (Inl err)
    then show ?thesis using st f ak by (auto simp: field_step_def nested_refusal_def)
  next
    case (Inr p)
    obtain o1 n where p: "p = (o1, n)" by (metis surj_pair)
    have h: "holds (Suc (Suc (Suc d))) event_names zeroEvent o1 ?w" "b \<longleftrightarrow> 0 < n" "\<forall>k'. k' \<noteq> k \<longrightarrow> m_get o1 k' = m_get o' k'"
      using st Inr p by (simp_all add: field_step_def)
    have fn: "\<forall>g \<in> set fs. field_name o1 g = None"
      using Cons.prems(4) h(3) k field_name_frame[of o1 _ o'] by (metis image_eqI list.set_intros(2))
    have i: "case applyRedaction fs ?w after o1 of
       Inl err \<Rightarrow> nested_refusal err
     | Inr (o2, m) \<Rightarrow> holds (Suc (Suc (Suc d))) event_names zeroEvent o2 after \<and> (touched \<longleftrightarrow> (c \<or> b) \<or> 0 < m)"
      by (rule Cons.IH[OF h(1) _ _ fn r]) (use Cons.prems(2,3) in auto)
    have "applyRedaction fs ?w after o1 = applyRedaction fs v after o1"
      by (rule applyRedaction_cong) (use k in auto)
    then show ?thesis using i h(2) Inr p f ak by (auto split: sum.splits)
  qed
qed

text \<open>A line: what comes out decodes to the redacted event, and a refusal is one of these.\<close>

lemma parse_depth: "maxNestingDepth = Suc (Suc (Suc (Suc (maxNestingDepth - 4))))"
  by (simp add: maxNestingDepth_def)

definition line_depth :: nat where
  "line_depth = Suc (Suc (Suc (maxNestingDepth - 4)))"

lemma line_depth: "maxNestingDepth = Suc line_depth" "line_depth \<le> maxNestingDepth"
  using parse_depth by (simp_all add: line_depth_def)

fun line_refusal :: "string \<Rightarrow> erase_refusal \<Rightarrow> bool" where
  "line_refusal raw (BadRaw e) = (parseObject raw = Inl e)"
| "line_refusal raw (FoldedMember k name) =
     (case parseObject raw of Inl e \<Rightarrow> False | Inr o' \<Rightarrow> checkMemberNames o' = Some (k, name))"
| "line_refusal raw NotDecoded = (unmarshal raw = None)"
| "line_refusal raw err = nested_refusal err"

lemma checked_names:
  assumes "checkMemberNames o' = None"
  shows "folded_name event_names (map fst o') = None" and "\<forall>f \<in> set event_struct. field_name o' f = None"
  using assms by (auto simp: checkMemberNames_def first_some_None split: option.splits)

lemma unmarshal_parsed:
  assumes "unmarshal raw = Some e" and "parseObject raw = Inr o'" and "folded_name event_names (map fst o') = None" and "unbroken raw"
  shows "holds line_depth event_names zeroEvent o' e"
proof -
  obtain j r where j: "parse_value maxNestingDepth (skip_ws raw) = Some (j, r)" "decode_obj event_names set_field j zeroEvent = Some e"
    using assms(1) by (auto simp: unmarshal_def json_parse_def split: option.splits if_splits)
  show ?thesis by (rule ev.holds_parsed[OF assms(2) j(1)[unfolded line_depth(1)] line_depth(2) assms(3) j(2) assms(4)])
qed

theorem erase_line_exact:
  assumes sha: "digest32 sha" and u: "unbroken raw"
  shows "case erase_line sha raw of
      Inl err \<Rightarrow> line_refusal raw err
    | Inr (o', touched, n) \<Rightarrow>
        (\<exists>e. unmarshal raw = Some e \<and> holds line_depth event_names zeroEvent o' (fst (redactEventFields sha e)) \<and>
          touched = snd (redactEventFields sha e) \<and> (touched \<longleftrightarrow> 0 < n))"
proof (cases "parseObject raw")
  case (Inl err)
  then show ?thesis by (simp add: erase_line_def)
next
  case (Inr o')
  show ?thesis
  proof (cases "checkMemberNames o'")
    case (Some x)
    then show ?thesis using Inr by (cases x) (simp add: erase_line_def)
  next
    case None
    show ?thesis
    proof (cases "unmarshal raw")
      case None
      then show ?thesis using Inr \<open>checkMemberNames o' = None\<close> by (simp add: erase_line_def)
    next
      case (Some e)
      obtain after t where r: "redact_fields sha event_struct e False = (after, t)" by (metis surj_pair)
      note c = checked_names[OF None]
      have h: "holds line_depth event_names zeroEvent o' e" by (rule unmarshal_parsed[OF Some Inr c(1) u])
      have w: "case applyRedaction event_struct e after o' of
          Inl err \<Rightarrow> nested_refusal err
        | Inr (o1, m) \<Rightarrow> holds line_depth event_names zeroEvent o1 after \<and> (t \<longleftrightarrow> False \<or> 0 < m)"
        using walk_step[OF sha line_depth(2)[unfolded line_depth_def] h[unfolded line_depth_def] order_refl struct_distinct c(2) r]
        unfolding line_depth_def by simp
      have refusal: "line_refusal raw err" if "nested_refusal err" for err
        using that by (auto simp: nested_refusal_def)
      have el: "erase_line sha raw =
          (case applyRedaction event_struct e after o' of
             Inl err \<Rightarrow> Inl err
           | Inr (o1, n) \<Rightarrow> if t \<noteq> (0 < n) then Inl (WalksDisagree t n) else Inr (o1, t, n))"
        by (simp add: erase_line_def Inr None Some redactEventFields_def r)
      show ?thesis using w refusal Some by (auto simp: el redactEventFields_def r split: sum.splits)
    qed
  qed
qed

end
