(* ===== verification/Recorder_Rechain.thy ===== *)
theory Recorder_Rechain
  imports Recorder_Redact
begin

text \<open>
  The chain hashed anew (\<open>internal/recorder/erase.go\<close>): every line gets its number, the digest of
  the line before and its own digest, and the whole verifies, unless a line says its own digest in a
  second place, where the reader would look for it first.
\<close>

section \<open>Sealing a line\<close>

text \<open>What an event is but for its place in the chain.\<close>

definition sealed :: "nat \<Rightarrow> string \<Rightarrow> string \<Rightarrow> event \<Rightarrow> event" where
  "sealed n p h e = e(''seq'' := FInt (int n), ''prev'' := FStr p, ''hash'' := FStr h)"

definition says_digest_twice :: "string \<Rightarrow> string \<Rightarrow> bool" where
  "says_digest_twice line h \<longleftrightarrow>
     (\<exists>x y x' y'. line = x @ hash_key @ h @ CHR 0x22 # y \<and> line = x' @ hash_key @ h @ CHR 0x22 # y' \<and> x \<noteq> x')"

lemma says_twiceI:
  "line = x @ (hash_key @ h @ [CHR 0x22]) @ y \<Longrightarrow> line = x' @ (hash_key @ h @ [CHR 0x22]) @ y' \<Longrightarrow> x \<noteq> x' \<Longrightarrow>
    says_digest_twice line h"
  unfolding says_digest_twice_def
  by (rule exI[of _ x], rule exI[of _ y], rule exI[of _ x'], rule exI[of _ y']) simp

lemma join_around: "\<exists>a b. \<forall>m. join (xs @ m # ys) sep = a @ m @ b"
proof -
  have "\<exists>b. \<forall>m. join (m # ys) sep = m @ b" by (cases ys) auto
  then obtain b where b: "\<And>m. join (m # ys) sep = m @ b" by blast
  show ?thesis
  proof (cases "xs = []")
    case True
    then show ?thesis using b by (intro exI[of _ "[]"] exI[of _ b]) simp
  next
    case False
    then show ?thesis using b join_append[OF False, of "_ # ys" sep]
      by (intro exI[of _ "join xs sep @ sep"] exI[of _ b]) simp
  qed
qed

lemma m_put_split:
  assumes "distinct (map fst m)" and "k \<in> fst ` set m"
  obtains xs ys where "\<And>v. m_put k v m = xs @ (k, v) # ys"
proof -
  obtain u where "(k, u) \<in> set m" using assms(2) by auto
  then obtain xs ys where m: "m = xs @ (k, u) # ys" by (meson split_list)
  have n: "k \<notin> fst ` set xs" using assms(1) m by auto
  have "m_put k v (xs @ (k, u) # ys) = xs @ (k, v) # ys" for v using n unfolding m_put_def by (induction xs) auto
  then show thesis using that m by blast
qed

lemma marshal_around:
  assumes "distinct (map fst o')" and "k \<in> fst ` set o'"
  obtains a b where "\<And>raw. raw_marshal (raw_set o' k raw) = a @ quote_str k @ CHR '':'' # raw @ b"
proof -
  obtain xs ys where x: "\<And>v. m_put k v o' = xs @ (k, v) # ys" by (rule m_put_split[OF assms]) blast
  obtain a b where j: "\<And>m. join (map raw_member xs @ m # map raw_member ys) '','' = a @ m @ b" using join_around by blast
  have "raw_marshal (raw_set o' k raw) = (CHR ''{'' # a) @ quote_str k @ CHR '':'' # raw @ (b @ ''}'')" for raw
    by (simp add: raw_marshal_def raw_set_def x j) (simp add: raw_member_def)
  then show thesis by (rule that)
qed

lemma hash_quoted: "quote_str ''hash'' @ CHR '':'' # mustQuote h @ b = hash_key @ escape h @ CHR 0x22 # b"
proof -
  have "escape ''hash'' = ''hash''" by (rule escape_plain) (simp add: plain_char_def)
  then show ?thesis by (simp add: mustQuote_def quote_str_def hash_key_def quote_char_def)
qed

lemma holds_keys: "holds d names z o' v \<Longrightarrow> distinct (map fst o')"
  by (auto simp: holds_def raw_as_def)

lemma raw_set_key: "k \<in> fst ` set (raw_set o' k v)"
proof -
  have "k \<in> set (map fst (m_put k v o'))" by (simp add: m_put_keys)
  then show ?thesis by (simp add: raw_set_def)
qed

lemma raw_set_twice: "raw_set (raw_set o' k v) k w = raw_set o' k w"
  unfolding raw_set_def m_put_def by (induction o') auto

lemma header_keys: "''seq'' \<in> set event_names" "''prev'' \<in> set event_names" "''hash'' \<in> set event_names"
  using header_struct by force+

lemma header_zero: "zeroEvent ''seq'' = FInt 0" "zeroEvent ''prev'' = FStr []" "zeroEvent ''hash'' = FStr []"
  using header_struct[THEN kind_zero] by simp_all

lemma link_utf8: "link p \<Longrightarrow> valid_utf8 p"
  by (simp add: link_def plain_utf8)

lemma holds_seq:
  assumes "holds d event_names zeroEvent o' v" and "in_int64 n"
  shows "holds d event_names zeroEvent (raw_set o' ''seq'' (itoa n)) (v(''seq'' := FInt n))"
proof (rule holds_set[OF assms(1) header_keys(1) event_names_valid[OF header_keys(1)]])
  show "parse_value d (itoa n) = Some (JNum (itoa n), [])"
    using parse_render[of d "JNum (itoa n)" "[]"] itoa_is_num by (simp add: follows_def)
  show "decode_val (zeroEvent ''seq'') (JNum (itoa n)) = Some (FInt n)" using assms(2) by (simp add: header_zero decode_int_itoa)
  show "unbroken (itoa n)" by (rule unbroken_printable[OF printable_num[OF is_num_chars[OF itoa_is_num]]])
qed

lemma holds_quote:
  assumes "holds d event_names zeroEvent o' v" and "k \<in> set event_names" and "zeroEvent k = FStr []" and "valid_utf8 p"
  shows "holds d event_names zeroEvent (raw_set o' k (mustQuote p)) (v(k := FStr p))"
  unfolding mustQuote_def
  by (rule holds_set[OF assms(1,2) event_names_valid[OF assms(2)] parse_quoted[OF assms(4)] _ unbroken_quote]) (simp add: assms(3))

lemma holds_unmarshal:
  assumes "holds line_depth event_names zeroEvent o' e"
  shows "unmarshal (raw_marshal o') = Some e"
proof -
  obtain ms where ms: "\<And>r. parse_value (Suc line_depth) (raw_marshal o' @ r) = Some (JObj ms, r)"
      "decode_obj event_names set_field (JObj ms) zeroEvent = Some e"
    by (rule ev.holds_marshal[OF assms order_refl]) blast
  have p: "parse_value maxNestingDepth (raw_marshal o') = Some (JObj ms, [])" using ms(1)[of "[]"] line_depth(1) by simp
  have "skip_ws (raw_marshal o') = raw_marshal o'" using value_ws[OF p, of "[]"] by simp
  then show ?thesis using p ms(2) by (simp add: unmarshal_def json_parse_def)
qed

lemma holds_whole: "holds d names z o' v \<Longrightarrow> length (raw_marshal o') < MaxLine \<Longrightarrow> whole_line (raw_marshal o')"
  using holds_unbroken[of d names z o' v] by (simp add: whole_line_def unbroken_def raw_marshal_def dropCR_def)

theorem rehash_good:
  assumes sha: "digest32 sha" and h: "holds line_depth event_names zeroEvent o' v" and p: "link p" and n: "int (Suc n) < 2 ^ 63"
    and r: "rehash sha (Suc n) p o' = (o1, digest)"
  shows "holds line_depth event_names zeroEvent o1 (sealed (Suc n) p digest v) \<and> link digest \<and>
    (good_line sha n p (raw_marshal o1) digest \<or> says_digest_twice (raw_marshal o1) digest)"
proof -
  have i: "in_int64 (int (Suc n))" using n by (simp add: in_int64_def)
  let ?oa = "raw_set (raw_set o' ''seq'' (itoa (int (Suc n)))) ''prev'' (mustQuote p)"
  let ?v = "v(''seq'' := FInt (int (Suc n)), ''prev'' := FStr p)"
  have ha: "holds line_depth event_names zeroEvent ?oa ?v"
    by (rule holds_quote[OF holds_seq[OF h i] header_keys(2) header_zero(2) link_utf8[OF p]])
  let ?ob = "raw_set ?oa ''hash'' (mustQuote [])"
  have q: "mustQuote [] = [quote_char, quote_char]" by (simp add: mustQuote_def quote_str_def escape.simps)
  have dg: "digest = hexEncode (sha (raw_marshal ?ob))" and o1: "o1 = raw_set ?oa ''hash'' (mustQuote digest)"
    using r by (auto simp: rehash_def Let_def q raw_set_twice)
  have plain: "list_all plain_char digest" "length digest = 64"
    using sha by (simp_all add: dg hexEncode_plain hexEncode_length digest32_def)
  then have l: "link digest" "digest \<noteq> []" by (auto simp: link_def)
  have hb: "holds line_depth event_names zeroEvent o1 (sealed (Suc n) p digest v)"
    unfolding o1 sealed_def by (rule holds_quote[OF ha header_keys(3) header_zero(3) link_utf8[OF l(1)]])
  have hb0: "holds line_depth event_names zeroEvent ?ob (?v(''hash'' := FStr []))"
    by (rule holds_quote[OF ha header_keys(3) header_zero(3)]) simp
  obtain a b where ab: "\<And>raw. raw_marshal (raw_set ?ob ''hash'' raw) = a @ quote_str ''hash'' @ CHR '':'' # raw @ b"
    by (rule marshal_around[OF holds_keys[OF hb0] raw_set_key]) blast
  have pre: "raw_marshal ?ob = a @ (hash_key @ [CHR 0x22]) @ b"
    using ab[of "mustQuote []"] hash_quoted[of "[]" b] by (simp add: raw_set_twice escape.simps)
  have line: "raw_marshal o1 = a @ (hash_key @ digest @ [CHR 0x22]) @ b"
    using ab[of "mustQuote digest"] hash_quoted[of digest b] by (simp add: raw_set_twice o1 escape_plain[OF plain(1)])
  have "good_line sha n p (raw_marshal o1) digest" if u: "\<not> says_digest_twice (raw_marshal o1) digest"
  proof -
    have "x = a" if "raw_marshal o1 = x @ (hash_key @ digest @ [CHR 0x22]) @ y" for x y
      using says_twiceI[OF that line] u by blast
    then have "replace_first (raw_marshal o1) (hash_key @ digest @ [CHR 0x22]) (hash_key @ [CHR 0x22]) = raw_marshal ?ob"
      unfolding pre by (intro replace_first_at[OF line]) blast
    then have "digestOfLine sha (raw_marshal o1) digest = digest" by (simp add: digestOfLine_def dg)
    then show ?thesis using holds_unmarshal[OF hb] l(2)
      by (simp add: good_line_def sealed_def get_int_def get_str_def raw_marshal_def)
  qed
  then show ?thesis using hb l(1) by blast
qed

end
