(* ===== verification/Recorder_Erased.thy ===== *)
theory Recorder_Erased
  imports Recorder_Rechain Recorder_Session
begin

text \<open>
  Erasing a whole chain (\<open>internal/recorder/erase.go\<close>): the new lines read as the redacted events in
  their old order and the erasure event, and they verify; what an erased event still holds; what a line
  keeps.
\<close>

section \<open>The new chain\<close>

definition self_quoting :: "string \<Rightarrow> bool" where
  "self_quoting l \<longleftrightarrow> (\<exists>e. unmarshal l = Some e \<and> says_digest_twice l (get_str e ''hash''))"

definition line_of :: "string \<Rightarrow> event \<Rightarrow> bool" where
  "line_of l v \<longleftrightarrow> l \<noteq> [] \<and> whole_line l \<and> (\<exists>i p h. unmarshal l = Some (sealed i p h v))"

lemma rechain_good:
  assumes sha: "digest32 sha"
  shows "list_all2 (holds line_depth event_names zeroEvent) os vs \<Longrightarrow> link p \<Longrightarrow> int (n + length os) < 2 ^ 63 \<Longrightarrow>
    rechain sha (Suc n) p os = Inr (ls, q) \<Longrightarrow>
    list_all2 line_of ls vs \<and> (chained sha n p ls (n + length os) q \<or> (\<exists>l \<in> set ls. self_quoting l))"
proof (induction os vs arbitrary: n p ls q rule: list_all2_induct)
  case Nil
  then show ?case by simp
next
  case (Cons o' os v vs)
  obtain o1 digest where r: "rehash sha (Suc n) p o' = (o1, digest)" by (metis surj_pair)
  obtain ls1 where l: "rechain sha (Suc (Suc n)) digest os = Inr (ls1, q)" "ls = raw_marshal o1 # ls1"
      "length (raw_marshal o1) < MaxLine"
    using Cons.prems(3) r by (auto simp: Let_def split: if_splits sum.splits)
  have n: "int (Suc n) < 2 ^ 63" "int (Suc n + length os) < 2 ^ 63" using Cons.prems(2) by simp_all
  have g: "holds line_depth event_names zeroEvent o1 (sealed (Suc n) p digest v)" "link digest"
      "good_line sha n p (raw_marshal o1) digest \<or> says_digest_twice (raw_marshal o1) digest"
    using rehash_good[OF sha Cons.hyps(1) Cons.prems(1) n(1) r] by blast+
  have u: "unmarshal (raw_marshal o1) = Some (sealed (Suc n) p digest v)" by (rule holds_unmarshal[OF g(1)])
  have "raw_marshal o1 \<noteq> []" by (simp add: raw_marshal_def)
  then have lo: "line_of (raw_marshal o1) v" using u holds_whole[OF g(1) l(3)] unfolding line_of_def by blast
  have "get_str (sealed (Suc n) p digest v) ''hash'' = digest" by (simp add: sealed_def get_str_def)
  then have sq: "says_digest_twice (raw_marshal o1) digest \<Longrightarrow> self_quoting (raw_marshal o1)"
    using u unfolding self_quoting_def by metis
  have i: "list_all2 line_of ls1 vs \<and> (chained sha (Suc n) digest ls1 (Suc n + length os) q \<or> (\<exists>l \<in> set ls1. self_quoting l))"
    by (rule Cons.IH[OF g(2) n(2) l(1)])
  then show ?case using lo g(3) sq l(2) by (auto intro: chained_Cons)
qed

lemma lines_of_read: "list_all2 line_of ls vs \<Longrightarrow>
    \<exists>es. read_lines ls True = (es, None) \<and> list_all2 (\<lambda>v e. \<exists>i p h. e = sealed i p h v) vs es"
proof (induction rule: list_all2_induct)
  case (Cons l ls v vs)
  then obtain es i p h where "read_lines ls True = (es, None)" "list_all2 (\<lambda>v e. \<exists>i p h. e = sealed i p h v) vs es"
      "l \<noteq> []" "unmarshal l = Some (sealed i p h v)"
    unfolding line_of_def by blast
  then show ?case by (intro exI[of _ "sealed i p h v # es"]) auto
qed simp

lemma lines_of_scan:
  assumes "list_all2 line_of ls vs"
  shows "scan_lines MaxLine (unlines ls) = (ls, True)" and "[] \<notin> set ls"
proof -
  have "\<forall>l \<in> set ls. whole_line l \<and> l \<noteq> []"
    using assms by (induction rule: list_all2_induct) (auto simp: line_of_def)
  then show "scan_lines MaxLine (unlines ls) = (ls, True)" "[] \<notin> set ls" using scan_unlines by blast+
qed

section \<open>The old lines\<close>

lemma scan_lines_unbroken: "scan_lines m s = (ls, ok) \<Longrightarrow> l \<in> set ls \<Longrightarrow> unbroken l"
proof (induction m s arbitrary: ls ok rule: scan_lines.induct)
  case (1 m s)
  show ?case
  proof (cases "s = [] \<or> m \<le> length (first_line s)")
    case True
    then show ?thesis using "1.prems" by (subst (asm) scan_lines.simps) (auto simp: Let_def split: if_splits)
  next
    case False
    obtain ls1 ok1 where r: "scan_lines m (drop (Suc (length (first_line s))) s) = (ls1, ok1)" by (metis surj_pair)
    have ls: "ls = dropCR (first_line s) # ls1"
      using "1.prems"(1) False r by (subst (asm) scan_lines.simps) (auto simp: Let_def)
    have "newline \<notin> set (first_line s)" unfolding first_line_def by (auto dest: set_takeWhileD)
    then have "unbroken (dropCR (first_line s))" by (auto simp: unbroken_def dropCR_def dest: in_set_butlastD)
    moreover have "l \<in> set ls1 \<Longrightarrow> unbroken l" by (rule "1.IH"[OF _ refl _ r]) (use False in auto)
    ultimately show ?thesis using "1.prems"(2) ls by auto
  qed
qed

lemma scan_lines_count: "scan_lines m s = (ls, ok) \<Longrightarrow> length ls \<le> length s"
proof (induction m s arbitrary: ls ok rule: scan_lines.induct)
  case (1 m s)
  show ?case
  proof (cases "s = [] \<or> m \<le> length (first_line s)")
    case True
    then show ?thesis using "1.prems" by (subst (asm) scan_lines.simps) (auto simp: Let_def split: if_splits)
  next
    case False
    obtain ls1 ok1 where r: "scan_lines m (drop (Suc (length (first_line s))) s) = (ls1, ok1)" by (metis surj_pair)
    have ls: "ls = dropCR (first_line s) # ls1"
      using "1.prems"(1) False r by (subst (asm) scan_lines.simps) (auto simp: Let_def)
    have "length ls1 \<le> length (drop (Suc (length (first_line s))) s)" by (rule "1.IH"[OF _ refl _ r]) (use False in auto)
    moreover obtain c t where "s = c # t" using False by (cases s) auto
    ultimately show ?thesis using ls by simp
  qed
qed

abbreviation redacted :: "(bytes \<Rightarrow> bytes) \<Rightarrow> event \<Rightarrow> event" where
  "redacted sha e \<equiv> fst (redactEventFields sha e)"

lemma erase_lines_good:
  assumes sha: "digest32 sha"
  shows "\<forall>l \<in> set ls. unbroken l \<Longrightarrow> erase_lines sha i ls = Inr (os, n, c) \<Longrightarrow>
    \<exists>es. read_lines ls ok = (es, if ok then None else Some ScannerError) \<and> length es \<le> length ls \<and>
      list_all2 (holds line_depth event_names zeroEvent) os (map (redacted sha) es) \<and>
      n = length (filter (\<lambda>e. snd (redactEventFields sha e)) es)"
proof (induction ls arbitrary: i os n c)
  case Nil
  then show ?case by simp
next
  case (Cons raw ls)
  show ?case
  proof (cases "raw = []")
    case True
    then obtain es where "read_lines ls ok = (es, if ok then None else Some ScannerError)" "length es \<le> length ls"
      "list_all2 (holds line_depth event_names zeroEvent) os (map (redacted sha) es)"
      "n = length (filter (\<lambda>e. snd (redactEventFields sha e)) es)"
      using Cons.IH[of i os n c] Cons.prems by auto
    then show ?thesis using True by (intro exI[of _ es]) simp
  next
    case False
    obtain o' t m where l: "erase_line sha raw = Inr (o', t, m)"
      using Cons.prems(2) False by (auto split: sum.splits)
    obtain os1 n1 c1 where r: "erase_lines sha (Suc i) ls = Inr (os1, n1, c1)" "os = o' # os1" "n = (if t then 1 else 0) + n1"
      using Cons.prems(2) False l by (auto split: sum.splits)
    have u: "unbroken raw" using Cons.prems(1) by simp
    obtain e where e: "unmarshal raw = Some e" "holds line_depth event_names zeroEvent o' (redacted sha e)"
        "t = snd (redactEventFields sha e)"
      using erase_line_exact[OF sha u] l by auto
    have "\<forall>l \<in> set ls. unbroken l" using Cons.prems(1) by simp
    then obtain es where es: "read_lines ls ok = (es, if ok then None else Some ScannerError)" "length es \<le> length ls"
      "list_all2 (holds line_depth event_names zeroEvent) os1 (map (redacted sha) es)"
      "n1 = length (filter (\<lambda>e. snd (redactEventFields sha e)) es)"
      using Cons.IH[OF _ r(1)] by blast
    then show ?thesis using False e r(2,3) by (intro exI[of _ "e # es"]) simp
  qed
qed

section \<open>The erasure event\<close>

lemma erasure_fields:
  "(''reason'', KStr, True) \<in> set event_struct" "(''modified'', KInt, True) \<in> set event_struct"
  "(''redacted_fields'', KInt, True) \<in> set event_struct" "(''sha256'', KStr, True) \<in> set event_struct"
  by (simp_all add: struct_defs)

lemma field_ok_put:
  assumes "event_ok e" and "(k, t, om) \<in> set event_struct" and "kind_of_val v = t" and "val_ok v"
  shows "event_ok (e(k := v))"
  using assms kind_at_struct[OF assms(2)] by (auto simp: event_ok_def typed_def)

lemma erasure_event_ok: "event_ok (erasure_event sandbox reason n c h now)"
proof -
  have one: "in_int64 1" by (simp add: in_int64_def)
  show ?thesis unfolding erasure_event_def
  by (rule field_ok_put[OF field_ok_put[OF field_ok_put[OF field_ok_put[OF field_ok_put[OF field_ok_put[OF field_ok_put[OF
        field_ok_put[OF field_ok_put[OF zero_ok header_struct(5)] header_struct(6)] header_struct(4)] erasure_fields(1)]
        erasure_fields(2)] erasure_fields(3)] erasure_fields(4)] header_struct(1)] header_struct(3)])
    (simp_all add: go_int_ok one)
qed

lemma members_in: "m \<in> set (members_of fs e) \<Longrightarrow> fst m \<in> set (map fst fs)"
  using members_keys by fastforce

lemma folded_name_none: "set ks \<subseteq> set names \<Longrightarrow> folded_name names ks = None"
  by (induction ks) auto

lemma marshalled_holds:
  assumes e: "event_ok e" and p: "parseObject (marshal e) = Inr o'"
  shows "holds line_depth event_names zeroEvent o' (norm_event e)"
proof -
  have jp: "json_parse (marshal e) = Some (norm (JObj (members_of event_struct e)))"
    unfolding marshal_def by (rule json_parse_render[OF fits_event[OF e]])
  then obtain j r where j: "parse_value maxNestingDepth (skip_ws (marshal e)) = Some (j, r)"
      "j = JObj (map (\<lambda>(k, v). (to_valid k, norm v)) (members_of event_struct e))"
    by (auto simp: json_parse_def split: option.splits if_splits)
  obtain ms where ms: "j = JObj ms" "raw_as line_depth o' ms"
    using parseObject_reads[OF p j(1)[unfolded line_depth(1)] line_depth(2)] by blast
  have k: "to_valid k = k" if "k \<in> set event_names" for k using event_names_valid[OF that] by (rule to_valid_id)
  have "fst m \<in> set event_names" if m: "m \<in> set ms" for m
  proof -
    have "m \<in> (\<lambda>(k, v). (to_valid k, norm v)) ` set (members_of event_struct e)"
      using m ms(1) j(2) by (metis json.inject(5) list.set_map)
    then obtain x where x: "x \<in> set (members_of event_struct e)" "fst m = to_valid (fst x)" by auto
    then show ?thesis using k members_in[OF x(1)] by simp
  qed
  then have "set (map fst o') \<subseteq> set event_names" using raw_as_keys[OF ms(2)] by (metis image_subsetI list.set_map)
  then have f: "folded_name event_names (map fst o') = None" by (rule folded_name_none)
  show ?thesis
    by (rule unmarshal_parsed[OF unmarshal_marshal[OF e] p f unbroken_printable[OF printable_marshal[OF e]]])
qed

lemma verify_lines_count: "verify_lines sha ls ok line p n = (m, h, None) \<Longrightarrow> read_lines ls ok = (es, None) \<Longrightarrow> m = n + length es"
proof (induction ls arbitrary: line p n es)
  case (Cons raw ls)
  show ?case
  proof (cases "raw = []")
    case True
    then show ?thesis using Cons.IH[of "Suc line" p n es] Cons.prems by (simp add: Let_def)
  next
    case False
    obtain e where e: "unmarshal raw = Some e" using Cons.prems(2) False by (cases "unmarshal raw") auto
    obtain es1 where r: "read_lines ls ok = (es1, None)" "es = e # es1"
      using Cons.prems(2) False e by (auto split: prod.splits)
    have "verify_lines sha ls ok (Suc line) (get_str e ''hash'') (Suc n) = (m, h, None)"
      using Cons.prems(1) False e by (auto simp: Let_def split: if_splits)
    from Cons.IH[OF this r(1)] show ?thesis using r(2) by simp
  qed
qed (auto split: if_splits)

section \<open>A successful erasure\<close>

text \<open>What was read, what is written, and how.\<close>

lemma erase_success:
  assumes sha: "digest32 sha" and size: "int (length (dk_chain d)) < 2 ^ 62"
    and e: "erase sha i sandbox reason d = ((n, None), d')"
  obtains es ls q c preHead where "readEvents (dk_chain d) = (es, None)" and "verify sha (dk_chain d) = (length es, preHead, None)"
    and "list_all2 line_of ls (map (redacted sha) es @ [norm_event (erasure_event sandbox reason n c preHead (ei_now i))])"
    and "dk_chain d' = unlines ls" and "n = length (filter (\<lambda>e. snd (redactEventFields sha e)) es)" and "0 < n"
    and "chained sha 0 [] ls (Suc (length es)) q \<or> (\<exists>l \<in> set ls. self_quoting l)"
proof -
  obtain m preHead es where ck: "erase_checks sha i d = Inr (m, preHead, es)"
    using e by (auto simp: erase_def split: if_splits sum.splits)
  obtain ls where rw: "erase_rewrite sha i sandbox reason preHead (dk_chain d) = Inr (n, ls)"
    using e ck by (auto simp: erase_def split: if_splits sum.splits prod.splits)
  have w: "erase_write sha i sandbox (unlines ls) d = (None, d')"
    using e ck rw by (auto simp: erase_def unlines_def split: if_splits prod.splits)
  have rd: "verify sha (dk_chain d) = (m, preHead, None)" "readEvents (dk_chain d) = (es, None)"
    using ck by (auto simp: erase_checks_def Let_def split: prod.splits option.splits if_splits)
  obtain old ok where sl: "scan_lines MaxLine (dk_chain d) = (old, ok)" by (metis surj_pair)
  have ok: "ok" using rw sl by (auto simp: erase_rewrite_def split: sum.splits prod.splits if_splits)
  obtain os c erasure q where l: "erase_lines sha 0 old = Inr (os, n, c)" "n \<noteq> 0"
      "parseObject (marshal (erasure_event sandbox reason n c preHead (ei_now i))) = Inr erasure"
      "rechain sha 1 [] (os @ [erasure]) = Inr (ls, q)"
    using rw sl ok by (auto simp: erase_rewrite_def split: sum.splits prod.splits if_splits)
  have u: "\<forall>l \<in> set old. unbroken l" using scan_lines_unbroken[OF sl] by blast
  obtain es1 where es1: "read_lines old ok = (es1, if ok then None else Some ScannerError)" "length es1 \<le> length old"
      "list_all2 (holds line_depth event_names zeroEvent) os (map (redacted sha) es1)"
      "n = length (filter (\<lambda>e. snd (redactEventFields sha e)) es1)"
    using erase_lines_good[OF sha u l(1), of ok] by blast
  have es: "es1 = es" using es1(1) rd(2) sl by (simp add: readEvents_def)
  let ?er = "norm_event (erasure_event sandbox reason n c preHead (ei_now i))"
  have h: "list_all2 (holds line_depth event_names zeroEvent) (os @ [erasure]) (map (redacted sha) es @ [?er])"
    using es1(3) marshalled_holds[OF erasure_event_ok l(3)] es by (simp add: list_all2_appendI)
  have len: "length os = length es" using list_all2_lengthD[OF es1(3)] es by simp
  have b: "length es \<le> length (dk_chain d)" using es1(2) scan_lines_count[OF sl] es by simp
  have "int (0 + length (os @ [erasure])) < 2 ^ 63" using size len b by simp
  then have g: "list_all2 line_of ls (map (redacted sha) es @ [?er])"
      "chained sha 0 [] ls (0 + length (os @ [erasure])) q \<or> (\<exists>l \<in> set ls. self_quoting l)"
    using rechain_good[OF sha h link_Nil, of 0] l(4) by auto
  have d': "dk_chain d' = unlines ls"
    using w by (auto simp: erase_write_def Let_def split: option.splits if_splits prod.splits)
  have m: "m = length es"
    using verify_lines_count[of sha old ok 0 "[]" 0 m preHead es] rd sl by (simp add: verify_def readEvents_def)
  show thesis using that[of es preHead ls c q] rd g d' es1(4) es l(2) len m by simp
qed

section \<open>What an erased event holds\<close>

definition leaf_free :: "string \<Rightarrow> string \<Rightarrow> bool" where
  "leaf_free key s \<longleftrightarrow> key \<in> set eraseExempt \<or> s = [] \<or> isErasedPlaceholder s"

text \<open>A field with no content in it: exempt, empty, or a fingerprint.\<close>

fun content_free :: "string \<Rightarrow> fval \<Rightarrow> bool" where
  "content_free k (FStr s) = leaf_free k s"
| "content_free k (FStrs xs) = (k \<in> set eraseExempt \<or> xs = [] \<or> length xs = 1 \<and> isErasedPlaceholder (hd xs))"
| "content_free k (FErrP (Some e)) = (leaf_free (k @ ''.kind'') (ee_Kind e) \<and> leaf_free (k @ ''.message'') (ee_Message e))"
| "content_free k (FStoreKeys ks) = (\<forall>x \<in> set ks. ek_Name x = [] \<or> isErasedPlaceholder (ek_Name x))"
| "content_free k v = True"

lemma fingerprint: "digest32 sha \<Longrightarrow> isErasedPlaceholder (erasedPlaceholder (sha x))"
  by (rule placeholder_erased) (simp add: digest32_def)

lemma redact_leaf_free: "digest32 sha \<Longrightarrow> leaf_free k (fst (redact_leaf sha k s))"
  by (rule redactString_cases[of sha s]) (auto simp: redact_leaf_def leaf_free_def fingerprint placeholder_not_empty)

lemma leaf_free_same: "leaf_free k s \<Longrightarrow> redact_leaf sha k s = (s, False)"
  by (auto simp: redact_leaf_def leaf_free_def redactString_def)

lemma redact_store_keys_free:
  assumes sha: "digest32 sha"
  shows "x \<in> set (fst (redact_store_keys sha ks)) \<Longrightarrow> ek_Name x = [] \<or> isErasedPlaceholder (ek_Name x)"
proof (induction ks)
  case (Cons k ks)
  obtain ls t where l: "redact_store_keys sha ks = (ls, t)" by (metis surj_pair)
  note i = Cons l fingerprint[OF sha, of "ek_Name k"] placeholder_not_empty[of "sha (ek_Name k)"]
  show ?case by (rule redactString_cases[of sha "ek_Name k"]) (use i in \<open>auto split: if_splits\<close>)
qed simp

lemma store_keys_same:
  "\<forall>x \<in> set ks. ek_Name x = [] \<or> isErasedPlaceholder (ek_Name x) \<Longrightarrow> redact_store_keys sha ks = (ks, False)"
  by (induction ks) (auto simp: redactString_def)

lemma redact_val_free:
  assumes sha: "digest32 sha"
  shows "content_free k (fst (redact_val sha k v))"
proof (cases v)
  case (FStr s)
  then show ?thesis using redact_leaf_free[OF sha, of k s] by (auto split: prod.splits)
next
  case (FStrs xs)
  then show ?thesis using fingerprint[OF sha] by (auto simp: redactStrings_def)
next
  case (FErrP e)
  show ?thesis
  proof (cases e)
    case (Some x)
    then show ?thesis
      using FErrP redact_leaf_free[OF sha, of "k @ ''.kind''" "ee_Kind x"] redact_leaf_free[OF sha, of "k @ ''.message''" "ee_Message x"]
      by (auto split: prod.splits)
  qed (simp add: FErrP)
next
  case (FStoreKeys ks)
  then show ?thesis using redact_store_keys_free[OF sha, of _ ks] by (auto split: prod.splits)
qed simp_all

lemma content_free_same: "content_free k v \<Longrightarrow> redact_val sha k v = (v, False)"
  by (cases "(k, v)" rule: content_free.cases) (auto simp: leaf_free_same store_keys_same redactStrings_def)

lemma redact_fields_eq:
  "distinct (map fst fs) \<Longrightarrow> redact_fields sha fs e c =
    (\<lambda>k. if k \<in> set (map fst fs) then fst (redact_val sha k (e k)) else e k, c \<or> (\<exists>k \<in> set (map fst fs). snd (redact_val sha k (e k))))"
proof (induction fs arbitrary: e c)
  case (Cons f fs)
  obtain k t om where f: "f = (k, t, om)" by (cases f)
  obtain v b where v: "redact_val sha k (e k) = (v, b)" by (metis surj_pair)
  have k: "k \<notin> set (map fst fs)" "distinct (map fst fs)" using Cons.prems f by auto
  have o: "(e(k := v)) k' = e k'" if "k' \<in> set (map fst fs)" for k' using k(1) that by auto
  have "(\<exists>k' \<in> set (map fst fs). snd (redact_val sha k' ((e(k := v)) k'))) \<longleftrightarrow> (\<exists>k' \<in> set (map fst fs). snd (redact_val sha k' (e k')))"
    using o by (metis (no_types, lifting))
  moreover have "(\<lambda>k'. if k' \<in> set (map fst fs) then fst (redact_val sha k' ((e(k := v)) k')) else (e(k := v)) k') =
      (\<lambda>k'. if k' \<in> set (map fst (f # fs)) then fst (redact_val sha k' (e k')) else e k')"
    using k(1) v f by (auto simp del: list.set_map)
  ultimately show ?case using Cons.IH[OF k(2), of "e(k := v)" "c \<or> b"] f v by (simp del: fun_upd_apply list.set_map)
qed simp

lemma redacted_at: "k \<in> set event_names \<Longrightarrow> redacted sha e k = fst (redact_val sha k (e k))"
  unfolding redactEventFields_def using redact_fields_eq[OF struct_distinct, of sha e False] by (simp del: list.set_map)

lemma untouched: "\<forall>k \<in> set event_names. content_free k (e k) \<Longrightarrow> \<not> snd (redactEventFields sha e)"
  unfolding redactEventFields_def using redact_fields_eq[OF struct_distinct, of sha e False] content_free_same
  by (simp del: list.set_map)

lemma content_free_exempt: "k \<in> set eraseExempt \<Longrightarrow> content_free k (FStr s)"
  by (simp add: leaf_free_def)

lemma content_free_zero: "content_free k (zero_val t)"
  by (cases t) (simp_all add: leaf_free_def)

lemma seal_free:
  assumes "\<forall>k \<in> set event_names. content_free k (v k)"
  shows "\<forall>k \<in> set event_names. content_free k (sealed i p h v k)"
proof -
  have "''prev'' \<in> set eraseExempt" "''hash'' \<in> set eraseExempt" by (simp_all add: eraseExempt_def)
  then show ?thesis using assms content_free_exempt by (simp add: sealed_def del: list.set_map)
qed

lemma erasure_event_free: "\<forall>k \<in> set event_names. content_free k (norm_event (erasure_event sandbox reason n c h now) k)"
proof
  fix k assume k: "k \<in> set event_names"
  have x: "list_all (\<lambda>k. k \<in> set eraseExempt) [''type'', ''source'', ''sandbox'', ''reason'', ''sha256'', ''v'', ''ts'']"
    by (simp add: eraseExempt_def)
  have n: "norm_event e k = norm_val (e k)" for e using k by (simp add: norm_event_def)
  have z: "content_free k (norm_val (zeroEvent k))" by (cases "kind_at k") (simp_all add: zeroEvent_def leaf_free_def)
  show "content_free k (norm_event (erasure_event sandbox reason n c h now) k)"
    unfolding n erasure_event_def using x z content_free_exempt by (simp del: content_free.simps(1) add: content_free.simps(10))
qed

lemma redacted_free: "digest32 sha \<Longrightarrow> \<forall>k \<in> set event_names. content_free k (redacted sha e k)"
  using redact_val_free by (simp add: redacted_at del: list.set_map)

end
