(* ===== verification/Recorder_Own.thy ===== *)
theory Recorder_Own
  imports Recorder_Erased Recorder_Demo
begin

text \<open>
  A raw object written and read back is itself, so the lines this program writes are read by an erasure
  as their members, and a concrete session is erased from end to end.
\<close>

section \<open>Written and read back\<close>

lemma raw_members_raw:
  "list_all2 (reads d) ms ms' \<Longrightarrow> list_all valid_utf8 (map fst ms) \<Longrightarrow> ms \<noteq> [] \<Longrightarrow> length ms \<le> n \<Longrightarrow> d \<le> maxNestingDepth \<Longrightarrow>
    distinct (map fst (acc @ ms)) \<Longrightarrow>
    raw_members n (join (map raw_member ms) '','' @ CHR ''}'' # r) acc = Inr (acc @ ms, r)"
proof (induction ms ms' arbitrary: n acc rule: list_all2_induct)
  case (Cons m ms m' ms')
  then obtain l where n: "n = Suc l" "length ms \<le> l" by (cases n) auto
  have pv: "parse_value d (snd m) = Some (snd m', [])" using Cons.hyps(1) by (simp add: reads_def)
  have w: "skip_ws (snd m @ q) = snd m @ q" for q by (rule value_ws[OF pv])
  have f: "fst m = fst m'" using Cons.hyps(1) by (simp add: reads_def)
  have k: "parse_key (raw_member m @ q) = Some (fst m', snd m @ q)" for q
    using reads_key[OF Cons.hyps(1)] Cons.prems(1) by simp
  have new: "fst m' \<notin> fst ` set acc" using Cons.prems(5) f by auto
  then have get: "m_get acc (fst m') = None" by (simp add: m_get_def map_of_eq_None_iff)
  have put: "m_put (fst m') v acc = acc @ [(fst m', v)]" for v by (rule m_put_new[OF new])
  have m: "(fst m', snd m) = m" using f by (cases m) simp
  show ?case
  proof (cases "ms = []")
    case True
    have "parse_value maxNestingDepth (snd m @ CHR ''}'' # r) = Some (snd m', CHR ''}'' # r)"
      by (rule value_inside[OF pv Cons.prems(4)]) (simp add: value_end_def)
    moreover have "skip_ws (CHR ''}'' # r) = CHR ''}'' # r" by (simp add: skip_ws_id is_ws_def)
    ultimately show ?thesis using n True w k get put m by (simp add: Let_def)
  next
    case False
    let ?r = "CHR '','' # join (map raw_member ms) '','' @ CHR ''}'' # r"
    have "parse_value maxNestingDepth (snd m @ ?r) = Some (snd m', ?r)"
      by (rule value_inside[OF pv Cons.prems(4)]) (simp add: value_end_def)
    moreover have "skip_ws ?r = ?r" by (simp add: skip_ws_id is_ws_def)
    moreover have "raw_members l (join (map raw_member ms) '','' @ CHR ''}'' # r) (acc @ [m]) = Inr ((acc @ [m]) @ ms, r)"
      by (rule Cons.IH[OF _ False n(2) Cons.prems(4)]) (use Cons.prems(1,5) in auto)
    ultimately show ?thesis using n False w k get put m by (simp add: join_Cons Let_def)
  qed
qed simp

theorem parseObject_marshal:
  assumes "raw_as d o' ms" and "d \<le> maxNestingDepth"
  shows "parseObject (raw_marshal o') = Inr o'"
proof (cases "o' = []")
  case True
  then show ?thesis by (simp add: parseObject_def raw_marshal_def skip_ws_id is_ws_def)
next
  case False
  let ?t = "join (map raw_member o') '','' @ CHR ''}'' # []"
  have "length o' \<le> length (raw_marshal o')" using join_length[of "map raw_member o'"] by (simp add: raw_marshal_def)
  then have p: "raw_members (length (raw_marshal o')) ?t [] = Inr ([] @ o', [])"
    using assms False by (intro raw_members_raw[of d _ ms]) (simp_all add: raw_as_def)
  have "opens (raw_member m @ q)" for m q by (simp add: raw_member_def opens_def quote_str_def is_ws_def quote_char_def)
  then have op: "opens ?t" using False by (intro join_opens) (auto simp: hd_map)
  then obtain e u where e: "?t = e # u" "e \<noteq> CHR ''}''" using opens_shape by blast
  have r: "raw_marshal o' = CHR ''{'' # ?t" by (simp add: raw_marshal_def)
  moreover have "skip_ws (raw_marshal o') = raw_marshal o'" unfolding r by (simp add: skip_ws_id is_ws_def)
  ultimately show ?thesis using e opens_ws[OF op] p unfolding parseObject_def by simp
qed

text \<open>The line of an event, as its raw members.\<close>

definition raws :: "(string \<times> json) list \<Rightarrow> rawObject" where
  "raws = map (\<lambda>m. (fst m, render (snd m)))"

lemma render_raws: "render (JObj ms) = raw_marshal (raws ms)"
  by (simp add: raw_marshal_def raws_def raw_member_def[abs_def] member_def[abs_def] comp_def case_prod_unfold)

lemma raws_as:
  assumes "\<forall>m \<in> set ms. fits d (snd m)" and "list_all valid_utf8 (map fst ms)" and "distinct (map fst ms)"
  shows "raw_as d (raws ms) (map (\<lambda>(k, v). (k, norm v)) ms)"
proof -
  have "reads d (fst m, render (snd m)) (fst m, norm (snd m))" if "m \<in> set ms" for m
    using parse_render[of d "snd m" "[]"] assms(1) that by (simp add: reads_def follows_def)
  then have "list_all2 (reads d) (raws ms) (map (\<lambda>(k, v). (k, norm v)) ms)"
    unfolding raws_def by (auto simp: list_all2_map1 list_all2_map2 list_all2_same case_prod_unfold)
  then show ?thesis using assms(2,3) by (simp add: raw_as_def raws_def comp_def)
qed

lemma parseObject_render:
  assumes "\<forall>m \<in> set ms. fits d (snd m)" and "d \<le> maxNestingDepth" and "list_all valid_utf8 (map fst ms)" and "distinct (map fst ms)"
  shows "parseObject (render (JObj ms)) = Inr (raws ms)"
  unfolding render_raws by (rule parseObject_marshal[OF raws_as[OF assms(1,3,4)] assms(2)])

lemma raw_elems_render:
  "\<forall>j \<in> set js. fits (maxNestingDepth - 1) j \<Longrightarrow> js \<noteq> [] \<Longrightarrow> length js \<le> n \<Longrightarrow>
    raw_elems n (join (map render js) '','' @ '']'') = Some (map render js)"
proof (induction js arbitrary: n)
  case (Cons j js)
  then obtain l where n: "n = Suc l" "length js \<le> l" by (cases n) auto
  let ?d = "maxNestingDepth - 1"
  have p: "parse_value ?d (render j @ r) = Some (norm j, r)" if "follows r" for r
    using parse_render[OF _ that, of ?d j] Cons.prems(1) by simp
  have w: "skip_ws (render j @ q) = render j @ q" for q
    by (rule value_ws[of ?d "render j" "(norm j, [])"]) (use p[of "[]"] in \<open>simp add: follows_def\<close>)
  show ?case
  proof (cases "js = []")
    case True
    have "skip_ws ('']'') = '']''" by (simp add: skip_ws_id is_ws_def)
    then show ?thesis using True n w[of "'']''"] p[of "'']''"] by (simp add: follows_def Let_def)
  next
    case False
    let ?r = "CHR '','' # join (map render js) '','' @ '']''"
    have "skip_ws ?r = ?r" by (simp add: skip_ws_id is_ws_def)
    moreover have "raw_elems l (join (map render js) '','' @ '']'') = Some (map render js)"
      by (rule Cons.IH[OF _ False n(2)]) (use Cons.prems(1) in simp)
    moreover have "join (map render (j # js)) '','' @ '']'' = render j @ ?r" using False by (simp add: join_Cons)
    ultimately show ?thesis using n w[of ?r] p[of ?r] by (simp add: follows_def Let_def del: join.simps)
  qed
qed simp

lemma rawArray_render:
  assumes "\<forall>j \<in> set js. fits (maxNestingDepth - 1) j"
  shows "rawArray (render (JArr js)) = Some (map render js)"
proof -
  have "maxNestingDepth = Suc (maxNestingDepth - 1)" by (simp add: maxNestingDepth_def)
  then have f: "fits maxNestingDepth (JArr js)" using assms fits.simps(2)[of "maxNestingDepth - 1" js] by simp
  have jp: "json_parse (render (JArr js)) = Some (JArr (map norm js))" using json_parse_render[OF f] by simp
  show ?thesis
  proof (cases js)
    case Nil
    then show ?thesis using jp by (simp add: rawArray_def)
  next
    case (Cons j js')
    have "length js \<le> length (render (JArr js))" using join_length[of "map render js"] by simp
    then have "raw_elems (length (render (JArr js))) (join (map render js) '','' @ '']'') = Some (map render js)"
      using Cons by (intro raw_elems_render[OF assms]) simp_all
    moreover have "tl (skip_ws (render (JArr js))) = join (map render js) '','' @ '']''" by (simp add: skip_ws_id is_ws_def)
    ultimately show ?thesis using jp Cons by (simp add: rawArray_def del: render.simps)
  qed
qed

section \<open>Refusals of the walk\<close>

text \<open>Where a nested value does not read as an object, the walk stops; nothing else stops it.\<close>

definition unreadable :: "rawObject \<Rightarrow> string \<Rightarrow> fval \<Rightarrow> bool" where
  "unreadable o' k v \<longleftrightarrow>
     (\<exists>raw. m_get o' k = Some raw \<and>
       (case v of
          FErrP (Some x) \<Rightarrow> \<exists>e. parseObject raw = Inl e
        | FErrP None \<Rightarrow> False
        | _ \<Rightarrow> kind_of_val v \<in> {KSecrets, KAgents, KStoreKeys} \<and>
            (\<exists>els. rawArray raw = Some els \<and> (\<exists>el \<in> set els. \<exists>e. parseObject el = Inl e))))"

lemma apply_elems_unread: "apply_elems name i els bs as = Inl err \<Longrightarrow> \<exists>j e. err = BadElement name j e \<and> (\<exists>el \<in> set els. parseObject el = Inl e)"
  by (induction name i els bs as rule: apply_elems.induct) (auto split: sum.splits prod.splits)

lemma apply_field_frame: "apply_field o' k b a = Inr (o1, n) \<Longrightarrow> k' \<noteq> k \<Longrightarrow> m_get o1 k' = m_get o' k'"
  using apply_leaf_get[of k' k o' b a]
  by (auto simp: apply_field_def applyRedactionToSlice_def raw_set_def split: if_splits fval.splits option.splits sum.splits prod.splits)

lemma apply_field_unread:
  assumes "apply_field o' k b a = Inl err" and "nested_refusal err"
  shows "unreadable o' k a"
  using assms apply_elems_unread
  by (fastforce simp: apply_field_def applyRedactionToSlice_def unreadable_def nested_refusal_def
      split: if_splits fval.splits option.splits sum.splits prod.splits)

lemma walk_unread:
  "applyRedaction fs before after o' = Inl err \<Longrightarrow> nested_refusal err \<Longrightarrow> distinct (map fst fs) \<Longrightarrow> \<exists>k \<in> set (map fst fs). unreadable o' k (after k)"
proof (induction fs before after o' rule: applyRedaction.induct)
  case (2 k t om fs before after o')
  show ?case
  proof (cases "apply_field o' k (before k) (after k)")
    case (Inl e)
    then have "unreadable o' k (after k)" using "2.prems"(1,2) by (intro apply_field_unread[OF Inl]) simp
    then show ?thesis by simp
  next
    case (Inr p)
    obtain o1 n where p: "p = (o1, n)" by (metis surj_pair)
    have "applyRedaction fs before after o1 = Inl err" using "2.prems"(1) Inr p by (auto split: sum.splits)
    then obtain k' where k': "k' \<in> set (map fst fs)" "unreadable o1 k' (after k')" using "2.IH"[OF Inr p[symmetric]] "2.prems"(2,3) p by auto
    moreover have "k \<notin> set (map fst fs)" using "2.prems"(3) by simp
    ultimately have "m_get o1 k' = m_get o' k'" using apply_field_frame[OF Inr[unfolded p]] by metis
    then show ?thesis using k' by (auto simp: unreadable_def)
  qed
qed simp

text \<open>Why a line is refused.\<close>

fun refused_because :: "(bytes \<Rightarrow> bytes) \<Rightarrow> string \<Rightarrow> erase_refusal \<Rightarrow> bool" where
  "refused_because sha raw (BadRaw e) = (parseObject raw = Inl e)"
| "refused_because sha raw (FoldedMember k name) =
     (case parseObject raw of Inl e \<Rightarrow> False | Inr o' \<Rightarrow> checkMemberNames o' = Some (k, name))"
| "refused_because sha raw NotDecoded = (unmarshal raw = None)"
| "refused_because sha raw err =
     (nested_refusal err \<and>
      (case parseObject raw of
         Inl e \<Rightarrow> False
       | Inr o' \<Rightarrow>
           (case unmarshal raw of None \<Rightarrow> False | Some e \<Rightarrow> \<exists>k \<in> set event_names. unreadable o' k (redacted sha e k))))"

lemma erase_line_refused:
  assumes sha: "digest32 sha" and u: "unbroken raw" and r: "erase_line sha raw = Inl err"
  shows "refused_because sha raw err"
proof (cases "nested_refusal err")
  case False
  have "line_refusal raw err" using erase_line_exact[OF sha u] r by simp
  then show ?thesis using False by (cases err) auto
next
  case True
  obtain o' where o': "parseObject raw = Inr o'" using r True by (cases "parseObject raw") (auto simp: erase_line_def nested_refusal_def)
  have c: "checkMemberNames o' = None"
    using r True o' by (cases "checkMemberNames o'") (auto simp: erase_line_def nested_refusal_def split: prod.splits)
  obtain e where e: "unmarshal raw = Some e"
    using r True o' c by (cases "unmarshal raw") (auto simp: erase_line_def nested_refusal_def)
  obtain after t where a: "redactEventFields sha e = (after, t)" by (metis surj_pair)
  have "applyRedaction event_struct e after o' = Inl err"
    using r True o' c e a by (auto simp: erase_line_def nested_refusal_def split: sum.splits if_splits)
  then have "\<exists>k \<in> set event_names. unreadable o' k (after k)" by (rule walk_unread[OF _ True struct_distinct])
  then show ?thesis using True o' e a by (cases err) (auto simp: nested_refusal_def)
qed

lemma members_distinct: "distinct (map fst fs) \<Longrightarrow> distinct (map fst (members_of fs e))"
proof (induction fs e rule: members_of.induct)
  case (2 k t om fs e)
  have "k \<notin> set (map fst (members_of fs e))" using "2.prems" members_in[of _ fs e] by (force simp del: list.set_map)
  then show ?case using 2 by auto
qed simp

lemma parseObject_own:
  assumes "event_ok e"
  shows "parseObject (marshal e) = Inr (raws (members_of event_struct e))"
proof -
  have "\<forall>m \<in> set (members_of event_struct e). fits 3 (snd m)" using fits_members assms by (auto simp: event_ok_def)
  moreover have "list_all valid_utf8 (map fst (members_of event_struct e))"
    using members_in event_names_valid by (auto simp: list_all_iff simp del: list.set_map)
  moreover have "distinct (map fst (members_of event_struct e))" by (rule members_distinct[OF struct_distinct])
  ultimately have "raw_as 3 (raws (members_of event_struct e)) (map (\<lambda>(k, v). (k, norm v)) (members_of event_struct e))"
    by (rule raws_as)
  then show ?thesis unfolding marshal_def render_raws by (rule parseObject_marshal) (simp add: maxNestingDepth_def)
qed

section \<open>A line this program wrote\<close>

lemma members_at: "m \<in> set (members_of fs e) \<Longrightarrow> snd m = val_json (e (fst m))"
  by (induction fs e rule: members_of.induct) (auto split: if_splits)

lemma raws_get: "m_get (raws ms) k = Some raw \<Longrightarrow> \<exists>j. (k, j) \<in> set ms \<and> raw = render j"
  unfolding raws_def m_get_def by (induction ms) (auto split: if_splits)

lemma own_member:
  assumes "m_get (raws (members_of event_struct e)) k = Some raw"
  shows "raw = render (val_json (e k))"
  using raws_get[OF assms] members_at by fastforce

text \<open>Nested objects read, with their own names.\<close>

lemma small_fits: "fits 2 (JStr s)" "fits 2 (JArr (map JStr xs))"
  by (simp_all add: numeral_2_eq_2)

lemma own_nested:
  "nested_name KErrP (render (error_json x)) = None" "\<exists>o'. parseObject (render (error_json x)) = Inr o'"
  "nested_name KSecrets (render (secret_json s)) = None"
  "nested_name KAgents (render (agent_json a)) = None"
  "nested_name KStoreKeys (render (store_key_json k)) = None" "\<exists>o'. parseObject (render (store_key_json k)) = Inr o'"
proof -
  have p: "parseObject (render (JObj ms)) = Inr (raws ms)"
    if "\<forall>m \<in> set ms. fits 2 (snd m)" "list_all valid_utf8 (map fst ms)" "distinct (map fst ms)" for ms
    by (rule parseObject_render[OF that(1) _ that(2,3)]) (simp add: maxNestingDepth_def)
  have n: "map fst (raws ms) = map fst ms" for ms by (simp add: raws_def)
  have e: "parseObject (render (error_json x)) = Inr (raws [(''kind'', JStr (ee_Kind x)), (''message'', JStr (ee_Message x))])"
    unfolding error_json_def by (rule p) simp_all
  show "nested_name KErrP (render (error_json x)) = None" "\<exists>o'. parseObject (render (error_json x)) = Inr o'"
    by (simp_all add: nested_name_def e n)
  have s: "parseObject (render (secret_json s)) =
      Inr (raws ([(''name'', JStr (es_Name s)), (''host'', JStr (es_Host s))] @ opt_str ''path'' (es_Path s)))"
    unfolding secret_json_def by (rule p) (simp_all add: opt_str_def)
  show "nested_name KSecrets (render (secret_json s)) = None" by (simp add: nested_name_def s n opt_str_def)
  have a: "parseObject (render (agent_json a)) =
      Inr (raws ([(''name'', JStr (ea_Name a)), (''sandbox'', JStr (ea_Sandbox a))] @ opt_str ''group'' (ea_Group a)))"
    unfolding agent_json_def by (rule p) (simp_all add: opt_str_def)
  show "nested_name KAgents (render (agent_json a)) = None" by (simp add: nested_name_def a n opt_str_def)
  have k: "parseObject (render (store_key_json k)) =
      Inr (raws ((''name'', JStr (ek_Name k)) # opt_strs ''read'' (ek_Read k) @ opt_strs ''write'' (ek_Write k)))"
    unfolding store_key_json_def by (rule p) (auto simp: opt_strs_def small_fits)
  show "nested_name KStoreKeys (render (store_key_json k)) = None" "\<exists>o'. parseObject (render (store_key_json k)) = Inr o'"
    by (simp_all add: nested_name_def k n opt_strs_def)
qed

lemma fits_nested: "fits (maxNestingDepth - 1) (secret_json s)" "fits (maxNestingDepth - 1) (agent_json a)"
  "fits (maxNestingDepth - 1) (store_key_json k)"
proof -
  have l: "3 \<le> maxNestingDepth - 1" by (simp add: maxNestingDepth_def)
  have "fits 3 (secret_json s)" "fits 3 (agent_json a)" "fits 3 (store_key_json k)"
    by (auto simp: numeral_3_eq_3 secret_json_def agent_json_def store_key_json_def opt_str_def opt_strs_def)
  then show "fits (maxNestingDepth - 1) (secret_json s)" "fits (maxNestingDepth - 1) (agent_json a)"
    "fits (maxNestingDepth - 1) (store_key_json k)" using fits_mono[OF _ l] by blast+
qed

lemma own_names:
  assumes e: "event_ok e"
  shows "checkMemberNames (raws (members_of event_struct e)) = None"
proof -
  let ?o = "raws (members_of event_struct e)"
  have k: "map fst ?o = map fst (members_of event_struct e)" by (simp add: raws_def)
  have "set (map fst ?o) \<subseteq> set event_names" unfolding k using members_in by (auto simp del: list.set_map simp: list.set_map[of fst "members_of _ _"])
  then have f: "folded_name event_names (map fst ?o) = None" by (rule folded_name_none)
  have "field_name ?o (k, t, om) = None" if s: "(k, t, om) \<in> set event_struct" for k t om
  proof (cases "m_get ?o k")
    case (Some raw)
    have raw: "raw = render (val_json (e k))" by (rule own_member[OF Some])
    have kv: "kind_of_val (e k) = t" using e kind_at_struct[OF s] by (simp add: event_ok_def typed_def)
    have arr: "rawArray (render (JArr (map f xs))) = Some (map render (map f xs))"
      if "\<And>x. fits (maxNestingDepth - 1) (f x)" for f :: "'x \<Rightarrow> json" and xs
      by (rule rawArray_render) (use that in auto)
    show ?thesis
    proof (cases "e k")
      case (FErrP x)
      show ?thesis
      proof (cases x)
        case None
        have "parseObject ''null'' = Inl NotAnObject" by (simp add: parseObject_def skip_ws_id is_ws_def)
        then show ?thesis using Some raw kv FErrP None by (auto simp: field_name_def nested_name_def)
      qed (use Some raw kv FErrP own_nested(1) in \<open>auto simp: field_name_def\<close>)
    next
      case (FSecrets xs)
      then show ?thesis using Some raw kv own_nested(3) arr[of secret_json xs] fits_nested(1)
        by (auto simp: field_name_def first_some_None simp del: render.simps)
    next
      case (FAgents xs)
      then show ?thesis using Some raw kv own_nested(4) arr[of agent_json xs] fits_nested(2)
        by (auto simp: field_name_def first_some_None simp del: render.simps)
    next
      case (FStoreKeys xs)
      then show ?thesis using Some raw kv own_nested(5) arr[of store_key_json xs] fits_nested(3)
        by (auto simp: field_name_def first_some_None simp del: render.simps)
    qed (use kv Some in \<open>auto simp: field_name_def\<close>)
  qed (simp add: field_name_def)
  then show ?thesis using f by (auto simp: checkMemberNames_def first_some_None)
qed

lemma redact_val_kind: "kind_of_val (fst (redact_val sha k v)) = kind_of_val v"
  by (cases "(sha, k, v)" rule: redact_val.cases) (auto split: prod.splits option.splits)

lemma redact_val_some: "fst (redact_val sha k v) = FErrP (Some y) \<Longrightarrow> \<exists>x. v = FErrP (Some x)"
  by (cases "(sha, k, v)" rule: redact_val.cases) (auto split: prod.splits option.splits if_splits)

lemma own_readable:
  assumes e: "event_ok e" and k: "k \<in> set event_names"
  shows "\<not> unreadable (raws (members_of event_struct e)) k (redacted sha (norm_event e) k)"
proof
  let ?v = "redacted sha (norm_event e) k"
  assume u: "unreadable (raws (members_of event_struct e)) k ?v"
  then obtain raw where g: "m_get (raws (members_of event_struct e)) k = Some raw" by (auto simp: unreadable_def)
  have raw: "raw = render (val_json (e k))" by (rule own_member[OF g])
  have n: "?v = fst (redact_val sha k (norm_val (e k)))" using k by (simp add: redacted_at norm_event_def del: list.set_map)
  have nk: "kind_of_val (norm_val v) = kind_of_val v" for v by (cases v) simp_all
  have kv: "kind_of_val ?v = kind_of_val (e k)" by (simp add: n redact_val_kind nk)
  have keys: "rawArray (render (JArr (map f xs))) = Some (map render (map f xs))"
    if "\<And>x. fits (maxNestingDepth - 1) (f x)" for f :: "'x \<Rightarrow> json" and xs
    by (rule rawArray_render) (use that in auto)
  have ok: "\<exists>o'. parseObject (render (secret_json s)) = Inr o'" "\<exists>o'. parseObject (render (agent_json a)) = Inr o'" for s a
  proof -
    show "\<exists>o'. parseObject (render (secret_json s)) = Inr o'" unfolding secret_json_def
      by (rule exI, rule parseObject_render[of _ 2]) (simp_all add: opt_str_def maxNestingDepth_def)
    show "\<exists>o'. parseObject (render (agent_json a)) = Inr o'" unfolding agent_json_def
      by (rule exI, rule parseObject_render[of _ 2]) (simp_all add: opt_str_def maxNestingDepth_def)
  qed
  show False
  proof (cases ?v)
    case (FErrP y)
    obtain y' where y: "y = Some y'" using u FErrP by (cases y) (auto simp: unreadable_def)
    obtain x where "norm_val (e k) = FErrP (Some x)" using redact_val_some FErrP y n by metis
    then obtain x' where "e k = FErrP (Some x')" by (cases "e k") auto
    then have "raw = render (error_json x')" using raw by simp
    then show False using u FErrP y g own_nested(2)[of x'] by (auto simp: unreadable_def)
  next
    case (FSecrets ys)
    then obtain xs where "e k = FSecrets xs" using kv by (cases "e k") auto
    then show False using u FSecrets g raw keys[of secret_json xs] fits_nested(1) ok(1)
      by (auto simp: unreadable_def simp del: render.simps) (metis sum.distinct(1))
  next
    case (FAgents ys)
    then obtain xs where "e k = FAgents xs" using kv by (cases "e k") auto
    then show False using u FAgents g raw keys[of agent_json xs] fits_nested(2) ok(2)
      by (auto simp: unreadable_def simp del: render.simps) (metis sum.distinct(1))
  next
    case (FStoreKeys ys)
    then obtain xs where "e k = FStoreKeys xs" using kv by (cases "e k") auto
    then show False using u FStoreKeys g raw keys[of store_key_json xs] fits_nested(3) own_nested(6)
      by (auto simp: unreadable_def simp del: render.simps) (metis sum.distinct(1))
  qed (use u in \<open>auto simp: unreadable_def\<close>)
qed

lemma own_line_read:
  assumes sha: "digest32 sha" and e: "event_ok e"
  shows "\<exists>o' t n. erase_line sha (marshal e) = Inr (o', t, n)"
proof (cases "erase_line sha (marshal e)")
  case (Inl err)
  have "refused_because sha (marshal e) err"
    by (rule erase_line_refused[OF sha unbroken_printable[OF printable_marshal[OF e]] Inl])
  then show ?thesis
    using own_readable[OF e, of _ sha] own_names[OF e] unmarshal_marshal[OF e] parseObject_own[OF e]
    by (cases err) (simp_all del: list.set_map)
next
  case (Inr r)
  then show ?thesis by (cases r) auto
qed

section \<open>What a line keeps\<close>

lemma raw_set_keys: "m_get o' k \<noteq> None \<Longrightarrow> map fst (raw_set o' k v) = map fst o'"
  by (auto simp: raw_set_def m_put_keys m_get_def map_of_eq_None_iff)

lemma apply_field_keys: "apply_field o' k b a = Inr (o1, n) \<Longrightarrow> b = a \<or> m_get o' k \<noteq> None \<Longrightarrow> map fst o1 = map fst o'"
  by (auto simp: apply_field_def apply_leaf_def applyRedactionToSlice_def raw_set_keys
      split: if_splits fval.splits option.splits sum.splits prod.splits)

lemma walk_keeps:
  "applyRedaction fs before after o' = Inr (o1, n) \<Longrightarrow> distinct (map fst fs) \<Longrightarrow>
    \<forall>k \<in> set (map fst fs). before k = after k \<or> m_get o' k \<noteq> None \<Longrightarrow>
    map fst o1 = map fst o' \<and> (\<forall>k. k \<notin> set (map fst fs) \<or> before k = after k \<longrightarrow> m_get o1 k = m_get o' k)"
proof (induction fs before after o' arbitrary: n rule: applyRedaction.induct)
  case (2 k t om fs before after o')
  obtain o2 i where a: "apply_field o' k (before k) (after k) = Inr (o2, i)"
    using "2.prems"(1) by (auto split: sum.splits)
  obtain m where r: "applyRedaction fs before after o2 = Inr (o1, m)" using "2.prems"(1) a by (auto split: sum.splits)
  have f: "m_get o2 k' = m_get o' k'" if "k' \<noteq> k" for k' by (rule apply_field_frame[OF a that])
  have k: "k \<notin> set (map fst fs)" using "2.prems"(2) by simp
  have h: "\<forall>k' \<in> set (map fst fs). before k' = after k' \<or> m_get o2 k' \<noteq> None" using "2.prems"(3) f k by (metis list.set_intros(2) list.simps(9))
  have i: "map fst o1 = map fst o2 \<and> (\<forall>k. k \<notin> set (map fst fs) \<or> before k = after k \<longrightarrow> m_get o1 k = m_get o2 k)"
    by (rule "2.IH"[OF a refl r _ h]) (use "2.prems"(2) in simp)
  have s: "before k = after k \<Longrightarrow> o2 = o'" using a by (simp add: apply_field_def)
  have "map fst o2 = map fst o'" using apply_field_keys[OF a] "2.prems"(3) by simp
  then show ?case using i f s by (metis fst_conv list.set_intros(1) list.set_intros(2) list.simps(9))
qed simp

lemma redact_zero: "redact_val sha k (zeroEvent k) = (zeroEvent k, False)"
  by (rule content_free_same) (simp add: zeroEvent_def content_free_zero)

lemma erase_line_keeps:
  assumes u: "unbroken raw" and r: "erase_line sha raw = Inr (o1, t, n)" and p: "parseObject raw = Inr o'" and e: "unmarshal raw = Some e"
  shows "map fst o1 = map fst o' \<and> (\<forall>k. k \<notin> set event_names \<or> redacted sha e k = e k \<longrightarrow> m_get o1 k = m_get o' k)"
proof -
  have c: "checkMemberNames o' = None" using r p by (auto simp: erase_line_def split: option.splits)
  obtain after t' where a: "redactEventFields sha e = (after, t')" by (metis surj_pair)
  have w: "applyRedaction event_struct e after o' = Inr (o1, n)"
    using r p c e a by (auto simp: erase_line_def split: sum.splits if_splits)
  have h: "holds line_depth event_names zeroEvent o' e" by (rule unmarshal_parsed[OF e p checked_names(1)[OF c] u])
  have "e k = after k \<or> m_get o' k \<noteq> None" if k: "k \<in> set event_names" for k
  proof (cases "m_get o' k")
    case None
    then have "e k = zeroEvent k" by (rule holds_absent[OF h])
    then show ?thesis using redacted_at[OF k, of sha e] redact_zero[of sha k] a by simp
  qed simp
  then show ?thesis using walk_keeps[OF w struct_distinct] a by (metis fst_conv)
qed

end
