(* ===== verification/Recorder_Erase_Demo.thy ===== *)
theory Recorder_Erase_Demo
  imports Recorder_Own
begin

text \<open>
  A session erased from end to end, for the witnesses: its only event ends it and holds one byte of
  content, and the digest is the constant one of \<open>Recorder_Demo\<close>.
\<close>

section \<open>How long a line is\<close>

lemma escape_length: "length (escape s) \<le> 6 * length s"
proof (induction s rule: escape.induct)
  case (1 s)
  have a: "length (esc_ascii c) \<le> 6" for c by (simp add: esc_ascii_def u_esc_def)
  have u: "length (u_esc h) = 2 + length h" for h by (simp add: u_esc_def)
  show ?case
  proof (cases s)
    case Nil
    then show ?thesis by (subst escape.simps) simp
  next
    case (Cons c t)
    show ?thesis
    proof (cases "byte c < 128")
      case True
      then show ?thesis using "1.IH"(1)[OF Cons True] a[of c] Cons by (subst escape.simps) simp
    next
      case False
      show ?thesis
      proof (cases "rune_len s")
        case None
        then show ?thesis using "1.IH"(2)[OF Cons False] Cons False u[of "''fffd''"] by (subst escape.simps) simp
      next
        case (Some n)
        have n: "0 < n" "n \<le> length s" using rune_len_pos[OF Some] by auto
        have "length (escape (drop n s)) \<le> 6 * length (drop n s)" by (rule "1.IH"(3)[OF Cons False Some])
        then have "6 * n + length (escape (drop n s)) \<le> 6 * length s" using n by simp
        moreover have "length (escape s) \<le> 6 * n + length (escape (drop n s))"
          using Cons False Some n u by (subst escape.simps) auto
        ultimately show ?thesis by linarith
      qed
    qed
  qed
qed

lemma quote_length: "length (quote_str s) \<le> 6 * length s + 2"
  using escape_length[of s] by (simp add: quote_str_def)

lemma join_length_le: "length (join xs '','') \<le> (\<Sum>x\<leftarrow>xs. length x + 1)"
  by (induction xs "'',''::string" rule: join.induct) auto

lemma raw_marshal_length: "length (raw_marshal o') \<le> 2 + (\<Sum>m\<leftarrow>o'. 6 * length (fst m) + length (snd m) + 4)"
proof -
  have "length (raw_member m) + 1 \<le> 6 * length (fst m) + length (snd m) + 4" for m
    using quote_length[of "fst m"] by (simp add: raw_member_def)
  then have "(\<Sum>m\<leftarrow>o'. length (raw_member m) + 1) \<le> (\<Sum>m\<leftarrow>o'. 6 * length (fst m) + length (snd m) + 4)"
    by (rule sum_list_mono)
  then show ?thesis using join_length_le[of "map raw_member o'"] by (simp add: raw_marshal_def comp_def)
qed

section \<open>One field redacted\<close>

lemma applyRedaction_one:
  assumes "\<And>k. k \<noteq> k0 \<Longrightarrow> before k = after k"
  shows "distinct (map fst fs) \<Longrightarrow> applyRedaction fs before after o' =
    (if k0 \<in> set (map fst fs) then apply_field o' k0 (before k0) (after k0) else Inr (o', 0))"
proof (induction fs arbitrary: o')
  case (Cons f fs)
  obtain k t om where f: "f = (k, t, om)" by (cases f)
  have d: "k \<notin> set (map fst fs)" "distinct (map fst fs)" using Cons.prems f by auto
  note i = Cons.IH[OF d(2)]
  show ?case
  proof (cases "k = k0")
    case True
    then show ?thesis using d(1) i f by (auto simp del: list.set_map split: sum.splits)
  next
    case False
    have "apply_field o' k (before k) (after k) = Inr (o', 0)" using assms[OF False] by (simp add: apply_field_def)
    then show ?thesis using i f False by (auto simp del: list.set_map split: sum.splits)
  qed
qed simp

section \<open>The session\<close>

definition end_event :: event where
  "end_event = zeroEvent(''v'' := FInt 1, ''seq'' := FInt 1, ''ts'' := FStr ''t'', ''sandbox'' := FStr ''box'',
     ''type'' := FStr ''session.end'', ''source'' := FStr ''host'', ''prev'' := FStr [], ''hash'' := FStr [], ''data'' := FStr ''x'')"

definition end_line :: string where
  "end_line = marshal (end_event(''hash'' := FStr (hashOf demo_sha end_event)))"

definition end_disk :: disk where
  "end_disk = \<lparr>dk_chain = unlines [end_line], dk_head = None\<rparr>"

definition erase_demo :: erase_io where
  "erase_demo = \<lparr>ei_open = True, ei_lock = True, ei_read = True, ei_anchor = True, ei_write = None, ei_truncate = True,
     ei_sync = True, ei_head = True, ei_remove = True, ei_now = ''t''\<rparr>"

lemma one_ok: "in_int64 1"
  by (simp add: in_int64_def)

lemma end_ok: "event_ok end_event"
  unfolding end_event_def
  by (rule field_ok_put[OF field_ok_put[OF field_ok_put[OF field_ok_put[OF field_ok_put[OF field_ok_put[OF field_ok_put[OF
        field_ok_put[OF field_ok_put[OF zero_ok header_struct(1)] header_struct(2)] header_struct(3)] header_struct(4)]
        header_struct(5)] header_struct(6)] header_struct(7)] header_struct(8)] data_struct])
    (simp_all add: one_ok)

lemma itoa_one: "itoa 1 = ''1''"
  by (simp add: itoa_def digits.simps[of "Suc 0"] digit_char_def char_of_eq_iff)

lemma end_members: "members_of event_struct (end_event(''hash'' := FStr h)) =
    [(''v'', JNum ''1''), (''seq'', JNum ''1''), (''ts'', JStr ''t''), (''sandbox'', JStr ''box''), (''type'', JStr ''session.end''),
     (''source'', JStr ''host''), (''prev'', JStr []), (''hash'', JStr h), (''data'', JStr ''x'')]"
  by (simp add: struct_defs end_event_def zeroEvent_def kinds itoa_one)

text \<open>A bound of the length that setting a member adds to.\<close>

definition weight :: "rawObject \<Rightarrow> nat" where
  "weight o' = (\<Sum>m\<leftarrow>o'. 6 * length (fst m) + length (snd m) + 4)"

lemma marshal_weight: "length (raw_marshal o') \<le> 2 + weight o'"
  unfolding weight_def by (rule raw_marshal_length)

lemma weight_set: "weight (raw_set o' k v) \<le> weight o' + 6 * length k + length v + 4"
  unfolding weight_def raw_set_def m_put_def by (induction o') auto

lemma rehash_weight:
  assumes "digest32 sha" and "rehash sha i p o' = (o1, dg)" and "length p \<le> 64"
  shows "weight o1 \<le> weight o' + length (itoa (int i)) + 1300" and "length dg = 64"
proof -
  let ?a = "raw_set o' ''seq'' (itoa (int i))" and ?b = "\<lambda>a. raw_set a ''prev'' (mustQuote p)"
  have o1: "o1 = raw_set (raw_set (?b ?a) ''hash'' [quote_char, quote_char]) ''hash'' (mustQuote dg)" and dg: "length dg = 64"
    using assms(1,2) by (auto simp: rehash_def Let_def hexEncode_length digest32_def)
  have q: "length (mustQuote p) \<le> 386" "length (mustQuote dg) \<le> 386"
    using quote_length[of p] quote_length[of dg] assms(3) dg by (simp_all add: mustQuote_def)
  have "weight ?a \<le> weight o' + length (itoa (int i)) + 22" using weight_set[of o' "''seq''" "itoa (int i)"] by simp
  moreover have "weight (?b ?a) \<le> weight ?a + 414" using weight_set[of ?a "''prev''" "mustQuote p"] q(1) by simp
  moreover have "weight (raw_set (?b ?a) ''hash'' [quote_char, quote_char]) \<le> weight (?b ?a) + 30"
    using weight_set[of "?b ?a" "''hash''" "[quote_char, quote_char]"] by simp
  moreover have "weight o1 \<le> weight (raw_set (?b ?a) ''hash'' [quote_char, quote_char]) + 414"
    using weight_set[of "raw_set (?b ?a) ''hash'' [quote_char, quote_char]" "''hash''" "mustQuote dg"] q(2) by (simp add: o1)
  ultimately show "weight o1 \<le> weight o' + length (itoa (int i)) + 1300" by linarith
  show "length dg = 64" by (rule dg)
qed

lemma end_weight: "length h \<le> 64 \<Longrightarrow> weight (raws (members_of event_struct (end_event(''hash'' := FStr h)))) \<le> 1000"
  using quote_length[of "''t''"] quote_length[of "''box''"] quote_length[of "''session.end''"] quote_length[of "''host''"]
    quote_length[of "[]"] quote_length[of h] quote_length[of "''x''"]
  by (simp add: end_members raws_def weight_def)

lemma MaxLine_large: "1000000 < MaxLine" "1000000 < lineBudget"
  by (simp_all add: lineBudget_def MaxLine_def clipMargin_def)

section \<open>What is read\<close>

abbreviation end_hash :: string where "end_hash \<equiv> hashOf demo_sha end_event"

abbreviation sealed_end :: event where "sealed_end \<equiv> end_event(''hash'' := FStr end_hash)"

lemma end_hash: "link end_hash" "length end_hash = 64"
  using link_digest[OF demo_digest, of end_event] by auto

lemma end_good: "good_line demo_sha 0 [] end_line end_hash \<and> whole_line end_line"
  unfolding end_line_def
proof (rule written_line[OF demo_digest end_ok])
  have h: "end_event(''hash'' := FStr []) = end_event" by (simp add: end_event_def fun_eq_iff)
  have "length (marshal end_event) \<le> 1002"
    using marshal_weight[of "raws (members_of event_struct end_event)"] end_weight[of "[]"] unfolding h marshal_def render_raws by simp
  then show "int (length (marshal end_event)) \<le> lineBudget" using MaxLine_large(2) by linarith
qed (simp_all add: end_event_def link_Nil)

lemma end_verifies: "verify demo_sha (dk_chain end_disk) = (1, end_hash, None)"
proof -
  have c: "chained demo_sha 0 [] [end_line] 1 end_hash" using end_good chained_Cons[of demo_sha 0 "[]" end_line end_hash "[]" 1] by (simp add: chained_Nil)
  have "scan_lines MaxLine (unlines [end_line]) = ([end_line], True)" using end_good by (intro scan_unlines) simp
  then show ?thesis using verify_chained[OF c] by (simp add: verify_def end_disk_def)
qed

lemma sealed_end_ok: "event_ok sealed_end"
  by (rule event_ok_hash[OF end_ok])

lemma end_reads: "readEvents (dk_chain end_disk) = ([norm_event sealed_end], None)"
proof -
  have "scan_lines MaxLine (unlines [end_line]) = ([end_line], True)" using end_good by (intro scan_unlines) simp
  moreover have "end_line \<noteq> []" using end_good by (simp add: good_line_def)
  ultimately show ?thesis using unmarshal_marshal[OF sealed_end_ok] by (simp add: readEvents_def end_disk_def end_line_def)
qed

lemma end_field: "k \<in> set event_names \<Longrightarrow> norm_event sealed_end k = norm_val (sealed_end k)"
  by (simp add: norm_event_def)

lemma end_texts: "to_valid ''session.end'' = ''session.end''" "to_valid ''x'' = ''x''"
  by (rule to_valid_id, simp)+

lemma end_names: "''data'' \<in> set event_names" "''type'' \<in> set event_names" "''v'' \<in> set event_names"
  using data_struct header_struct(1,5) by force+

lemma end_checked: "erase_checks demo_sha erase_demo end_disk = Inr (1, end_hash, [norm_event sealed_end])"
proof -
  have t: "get_str (norm_event sealed_end) ''type'' = ''session.end''"
    using end_field[OF end_names(2)] by (simp add: get_str_def end_event_def end_texts)
  have v: "get_int (norm_event sealed_end) ''v'' = 1" using end_field[OF end_names(3)] by (simp add: get_int_def end_event_def)
  have a: "snd (checkAnchor (read_head erase_demo end_disk) 1 end_hash p) = False" for p
    by (simp add: read_head_def erase_demo_def end_disk_def checkAnchor_def readAnchor_def)
  have l: "last (dk_chain end_disk) = newline" by (simp add: end_disk_def)
  obtain rep where c: "checkAnchor (read_head erase_demo end_disk) 1 end_hash (prevOfHead (dk_chain end_disk)) = (rep, False)"
    using a by (metis prod.collapse)
  have ne: "dk_chain end_disk \<noteq> []" by (simp add: end_disk_def)
  show ?thesis unfolding erase_checks_def by (simp add: Let_def end_verifies[unfolded One_nat_def] end_reads c t v l ne)
qed

section \<open>What is written\<close>

lemma end_content_free:
  assumes "k \<noteq> ''data''" and "k \<in> set event_names"
  shows "content_free k (norm_event sealed_end k)"
proof -
  have x: "list_all (\<lambda>k. k \<in> set eraseExempt) [''v'', ''seq'', ''ts'', ''sandbox'', ''type'', ''source'', ''prev'', ''hash'']"
    by (simp add: eraseExempt_def)
  have z: "content_free k (norm_val (zeroEvent k))" by (cases "kind_at k") (simp_all add: zeroEvent_def leaf_free_def)
  have "content_free k (norm_val (sealed_end k))" using x z content_free_exempt assms(1)
    by (simp add: end_event_def del: content_free.simps(1))
  then show ?thesis unfolding end_field[OF assms(2)] .
qed

lemma end_erased: "\<exists>o1. erase_lines demo_sha 0 [end_line] = Inr ([o1], 1, 1) \<and> weight o1 \<le> 2000"
proof -
  let ?e = "norm_event sealed_end" and ?p = "erasedPlaceholder (demo_sha ''x'')"
  let ?o = "raws (members_of event_struct sealed_end)"
  have x: "?e ''data'' = FStr ''x''" using end_field[OF end_names(1)] by (simp add: end_event_def end_texts)
  have nx: "\<not> isErasedPlaceholder ''x''" by (simp add: isErasedPlaceholder_def hasPrefix_def erasedPrefix_def)
  have de: "''data'' \<notin> set eraseExempt" by (simp add: eraseExempt_def)
  have r: "redact_val demo_sha ''data'' (?e ''data'') = (FStr ?p, True)"
    using nx de placeholder_not_empty by (simp add: x redact_leaf_def redactString_def)
  obtain after t where a: "redactEventFields demo_sha ?e = (after, t)" by (metis surj_pair)
  have at: "after = (\<lambda>k. if k \<in> set event_names then fst (redact_val demo_sha k (?e k)) else ?e k)"
    and t: "t \<longleftrightarrow> (\<exists>k \<in> set event_names. snd (redact_val demo_sha k (?e k)))"
    using a redact_fields_eq[OF struct_distinct, of demo_sha ?e False] by (auto simp: redactEventFields_def simp del: list.set_map)
  have same: "?e k = after k" if "k \<noteq> ''data''" for k
    using content_free_same[OF end_content_free[OF that]] by (simp add: at del: list.set_map)
  have ad: "after ''data'' = FStr ?p" using end_names(1) r by (simp add: at del: list.set_map)
  have tt: "t" unfolding t using end_names(1) r by force
  have ne: "?e ''data'' \<noteq> after ''data''" using x ad fingerprint[OF demo_digest, of "''x''"] nx by auto
  have af: "applyRedaction event_struct ?e after ?o = Inr (raw_set ?o ''data'' (mustQuote ?p), 1)"
    using applyRedaction_one[of "''data''" ?e after, OF same struct_distinct] end_names(1) ne ad
    by (simp add: apply_field_def apply_leaf_def del: list.set_map)
  have l: "erase_line demo_sha end_line = Inr (raw_set ?o ''data'' (mustQuote ?p), True, 1)"
    using parseObject_own[OF sealed_end_ok] own_names[OF sealed_end_ok] unmarshal_marshal[OF sealed_end_ok] a af tt
    by (simp add: erase_line_def end_line_def)
  have "length ?p = 19 + 64 + 1" using hexEncode_length[of "demo_sha ''x''"]
    by (simp add: erasedPlaceholder_def erasedPrefix_def erasedSuffix_def demo_sha_def)
  then have "weight (raw_set ?o ''data'' (mustQuote ?p)) \<le> 2000"
    using weight_set[of ?o "''data''" "mustQuote ?p"] quote_length[of ?p] end_weight[of end_hash] end_hash(2) by (simp add: mustQuote_def)
  moreover have "end_line \<noteq> []" using end_good by (simp add: good_line_def)
  ultimately show ?thesis using l by simp
qed

text \<open>The whole of it succeeds.\<close>

lemma erase_demo_succeeds: "\<exists>d'. erase demo_sha erase_demo ''box'' ''gdpr'' end_disk = ((1, None), d')"
proof -
  obtain o1 where o1: "erase_lines demo_sha 0 [end_line] = Inr ([o1], 1, 1)" "weight o1 \<le> 2000" using end_erased by blast
  let ?er = "erasure_event ''box'' ''gdpr'' 1 1 end_hash ''t''"
  let ?o = "raws (members_of event_struct ?er)"
  have p: "parseObject (marshal ?er) = Inr ?o" by (rule parseObject_own[OF erasure_event_ok])
  have g: "go_int 1 = 1" by (rule go_int_id[OF one_ok])
  have m: "members_of event_struct ?er = [(''v'', JNum ''1''), (''seq'', JNum (itoa 0)), (''ts'', JStr ''t''), (''sandbox'', JStr ''box''),
      (''type'', JStr ''session.erasure''), (''source'', JStr ''host''), (''prev'', JStr []), (''hash'', JStr []), (''reason'', JStr ''gdpr''),
      (''sha256'', JStr end_hash), (''modified'', JNum ''1''), (''redacted_fields'', JNum ''1'')]"
    using end_hash(2) by (auto simp: struct_defs erasure_event_def zeroEvent_def kinds itoa_one g)
  have i: "length (itoa 0) \<le> 1" "length (itoa 1) \<le> 1" "length (itoa 2) \<le> 1"
    by (simp_all add: itoa_def digits.simps[of 0] digits.simps[of "Suc 0"] digits.simps[of 2])
  have w: "weight ?o \<le> 3000"
    using quote_length[of "''t''"] quote_length[of "''box''"] quote_length[of "''session.erasure''"] quote_length[of "''host''"]
      quote_length[of "[]"] quote_length[of end_hash] quote_length[of "''gdpr''"] i(1) end_hash(2)
    by (simp add: m[unfolded One_nat_def] raws_def weight_def)
  obtain a h where a: "rehash demo_sha 1 [] o1 = (a, h)" by (metis surj_pair)
  have wa: "weight a \<le> 4000" "length h = 64" using rehash_weight[OF demo_digest a] o1(2) i(2) by simp_all
  obtain b q where b: "rehash demo_sha 2 h ?o = (b, q)" by (metis surj_pair)
  have wb: "weight b \<le> 5000" using rehash_weight(1)[OF demo_digest b] wa(2) w i(3) by simp
  have la: "\<not> MaxLine < length (raw_marshal a) + 1" "\<not> MaxLine < length (raw_marshal b) + 1"
    using marshal_weight[of a] marshal_weight[of b] wa(1) wb MaxLine_large(1) by simp_all
  have rc: "rechain demo_sha 1 [] [o1, ?o] = Inr ([raw_marshal a, raw_marshal b], q)"
    using a b la by (simp add: numeral_2_eq_2)
  have s: "scan_lines MaxLine (dk_chain end_disk) = ([end_line], True)"
    unfolding end_disk_def using end_good scan_unlines[of "[end_line]"] by simp
  have rw: "erase_rewrite demo_sha erase_demo ''box'' ''gdpr'' end_hash (dk_chain end_disk) = Inr (1, [raw_marshal a, raw_marshal b])"
    using rc p by (simp add: erase_rewrite_def s o1(1)[unfolded One_nat_def] erase_demo_def del: erase_lines.simps rechain.simps)
  have "fst (erase_write demo_sha erase_demo ''box'' buf end_disk) = None" for buf
    by (simp add: erase_write_def erase_demo_def Let_def split: prod.splits option.splits)
  then obtain d' where "erase_write demo_sha erase_demo ''box'' (concat (map (\<lambda>l. l @ [newline]) [raw_marshal a, raw_marshal b])) end_disk = (None, d')"
    by (metis prod.collapse)
  then show ?thesis using end_checked rw by (simp add: erase_def) (simp add: erase_demo_def)
qed

lemma end_size: "int (length (dk_chain end_disk)) < 2 ^ 62"
proof -
  have "length end_line \<le> 1002"
    using marshal_weight[of "raws (members_of event_struct sealed_end)"] end_weight[of end_hash] end_hash(2)
    unfolding end_line_def marshal_def render_raws by simp
  then show ?thesis by (simp add: end_disk_def)
qed

end
