(* ===== verification/Erase_Properties.thy ===== *)
theory Erase_Properties
  imports Recorder_Erase_Demo
begin

text \<open>
  What erasing the content of a session promises (\<open>internal/recorder/erase.go\<close>): the new chain
  verifies, holds the old events without their content and says that it was erased; a second erasure
  changes nothing; a refusal changes nothing; what is not content stays as it was written.
\<close>

section \<open>Lemmas\<close>

text \<open>An old event and the one that stands for it.\<close>

definition erased_as :: "(bytes \<Rightarrow> bytes) \<Rightarrow> event \<Rightarrow> event \<Rightarrow> bool" where
  "erased_as sha e e' \<longleftrightarrow> (\<forall>k \<in> set event_names. k \<notin> {''seq'', ''prev'', ''hash''} \<longrightarrow> e' k = fst (redact_val sha k (e k)))"

lemma sealed_erased: "erased_as sha e (sealed i p h (redacted sha e))"
  by (simp add: erased_as_def sealed_def redacted_at del: list.set_map)

lemma verify_lines_head:
  "verify_lines sha ls ok line p n = (m, h, None) \<Longrightarrow> list_all plain_char p \<Longrightarrow> list_all plain_char h"
proof (induction ls arbitrary: line p n)
  case (Cons raw ls)
  show ?case
  proof (cases "raw = []")
    case True
    then show ?thesis using Cons by (simp add: Let_def)
  next
    case False
    obtain e where e: "unmarshal raw = Some e" using Cons.prems(1) False by (cases "unmarshal raw") (auto simp: Let_def)
    have "verify_lines sha ls ok (Suc line) (get_str e ''hash'') (Suc n) = (m, h, None)"
      "digestOfLine sha raw (get_str e ''hash'') = get_str e ''hash''"
      using Cons.prems(1) False e by (auto simp: Let_def split: if_splits)
    then show ?thesis using Cons.IH hexEncode_plain by (metis digestOfLine_def)
  qed
qed (auto split: if_splits)

lemma verify_head_plain: "verify sha b = (m, h, None) \<Longrightarrow> to_valid h = h"
  using verify_lines_head[of sha _ _ 0 "[]" 0 m h] by (auto simp: verify_def plain_valid split: prod.splits)

lemma erasure_at:
  "norm_event (erasure_event sandbox reason n c h now) ''type'' = FStr ''session.erasure''"
  "norm_event (erasure_event sandbox reason n c h now) ''sha256'' = FStr (to_valid h)"
  "norm_event (erasure_event sandbox reason n c h now) ''reason'' = FStr (to_valid reason)"
  "norm_event (erasure_event sandbox reason n c h now) ''modified'' = FInt (go_int (int n))"
proof -
  have k: "''type'' \<in> set event_names" "''sha256'' \<in> set event_names" "''reason'' \<in> set event_names" "''modified'' \<in> set event_names"
    using header_struct(5) erasure_fields by force+
  have t: "to_valid ''session.erasure'' = ''session.erasure''" by (rule to_valid_id) simp
  show "norm_event (erasure_event sandbox reason n c h now) ''type'' = FStr ''session.erasure''"
    "norm_event (erasure_event sandbox reason n c h now) ''sha256'' = FStr (to_valid h)"
    "norm_event (erasure_event sandbox reason n c h now) ''reason'' = FStr (to_valid reason)"
    "norm_event (erasure_event sandbox reason n c h now) ''modified'' = FInt (go_int (int n))"
    using k by (simp_all add: norm_event_def erasure_event_def t del: list.set_map)
qed

lemma read_content_free:
  assumes sha: "digest32 sha" and l: "list_all2 line_of ls vs" and f: "\<forall>v \<in> set vs. \<forall>k \<in> set event_names. content_free k (v k)"
    and r: "read_lines ls True = (es, None)"
  shows "\<forall>e \<in> set es. \<forall>k \<in> set event_names. content_free k (e k)"
proof -
  obtain es1 where es1: "read_lines ls True = (es1, None)" "list_all2 (\<lambda>v e. \<exists>i p h. e = sealed i p h v) vs es1"
    using lines_of_read[OF l] by blast
  have "\<forall>e \<in> set es1. \<forall>k \<in> set event_names. content_free k (e k)"
    using es1(2) f
  proof (induction rule: list_all2_induct)
    case (Cons v vs e es)
    obtain i p h where e: "e = sealed i p h v" using Cons.hyps(1) by blast
    have "\<forall>k \<in> set event_names. content_free k (sealed i p h v k)" by (rule seal_free) (use Cons.prems in simp)
    moreover have "\<forall>e \<in> set es. \<forall>k \<in> set event_names. content_free k (e k)" by (rule Cons.IH) (use Cons.prems in simp)
    ultimately show ?case unfolding e by simp
  qed simp
  then show ?thesis using es1(1) r by simp
qed

lemma read_lines_count: "read_lines ls ok = (es, err) \<Longrightarrow> length es \<le> length ls"
proof (induction ls arbitrary: es err)
  case (Cons raw ls)
  obtain es1 err1 where r: "read_lines ls ok = (es1, err1)" by (metis surj_pair)
  show ?case using Cons.IH[OF r] Cons.prems r by (auto split: if_splits option.splits)
qed simp

text \<open>Lines without content are not erased again.\<close>

lemma erase_again:
  assumes sha: "digest32 sha" and l: "list_all2 line_of ls vs" and f: "\<forall>v \<in> set vs. \<forall>k \<in> set event_names. content_free k (v k)"
    and c: "dk_chain d = unlines ls"
  shows "\<exists>n err. erase sha i sandbox reason d = ((n, Some err), d)"
proof -
  have s: "scan_lines MaxLine (dk_chain d) = (ls, True)" using lines_of_scan(1)[OF l] c by simp
  have u: "\<forall>l \<in> set ls. unbroken l" using scan_lines_unbroken[OF s] by blast
  have "\<exists>n err. erase_rewrite sha i sandbox reason h (dk_chain d) = Inl (n, err)" for h
  proof (cases "erase_lines sha 0 ls")
    case (Inl err)
    then show ?thesis by (cases err) (simp add: erase_rewrite_def s)
  next
    case (Inr r)
    obtain os n ch where r: "r = (os, n, ch)" by (metis surj_pair)
    obtain es where es: "read_lines ls True = (es, None)" "n = length (filter (\<lambda>e. snd (redactEventFields sha e)) es)"
      using erase_lines_good[OF sha u Inr[unfolded r], of True] by auto
    have "filter (\<lambda>e. snd (redactEventFields sha e)) es = []"
      using read_content_free[OF sha l f es(1)] untouched by (simp add: filter_empty_conv del: list.set_map)
    then show ?thesis using Inr r es(2) by (simp add: erase_rewrite_def s)
  qed
  then show ?thesis by (auto simp: erase_def split: sum.splits prod.splits) (metis Inl_Inr_False)+
qed

lemma erased_lines:
  assumes "digest32 sha" and "int (length (dk_chain d)) < 2 ^ 62" and "erase sha i sandbox reason d = ((n, None), d')"
  obtains ls vs where "list_all2 line_of ls vs" and "\<forall>v \<in> set vs. \<forall>k \<in> set event_names. content_free k (v k)"
    and "dk_chain d' = unlines ls"
proof -
  obtain es ls q c h where *: "list_all2 line_of ls (map (redacted sha) es @ [norm_event (erasure_event sandbox reason n c h (ei_now i))])"
      "dk_chain d' = unlines ls"
    by (rule erase_success[OF assms]) blast
  show thesis using that[OF *(1) _ *(2)] redacted_free[OF assms(1)] erasure_event_free by auto
qed

section \<open>Properties\<close>

text \<open>
  C4. An erased chain verifies: after a successful erasure it has one event more than before, and reads
  as intact, unless a line says its own digest in a second place.
\<close>

theorem erased_verifies:
  assumes "digest32 sha" and "int (length (dk_chain d)) < 2 ^ 62" and "erase sha i sandbox reason d = ((n, None), d')"
  shows "\<exists>es ls q. readEvents (dk_chain d) = (es, None) \<and> dk_chain d' = unlines ls \<and>
    (verify sha (dk_chain d') = (Suc (length es), q, None) \<or> (\<exists>l \<in> set ls. self_quoting l))"
proof -
  obtain es ls q c h where *: "readEvents (dk_chain d) = (es, None)" "dk_chain d' = unlines ls"
      "list_all2 line_of ls (map (redacted sha) es @ [norm_event (erasure_event sandbox reason n c h (ei_now i))])"
      "chained sha 0 [] ls (Suc (length es)) q \<or> (\<exists>l \<in> set ls. self_quoting l)"
    by (rule erase_success[OF assms]) blast
  have "chained sha 0 [] ls (Suc (length es)) q \<Longrightarrow> verify sha (dk_chain d') = (Suc (length es), q, None)"
    using verify_chained[of sha 0 "[]" ls "Suc (length es)" q] lines_of_scan(1)[OF *(3)] *(2) by (simp add: verify_def)
  then show ?thesis using * by blast
qed

theorem erased_verifies_witness:
  "\<exists>d' es ls q. erase demo_sha erase_demo ''box'' ''gdpr'' end_disk = ((1, None), d') \<and> readEvents (dk_chain end_disk) = (es, None) \<and>
    dk_chain d' = unlines ls \<and> (verify demo_sha (dk_chain d') = (Suc (length es), q, None) \<or> (\<exists>l \<in> set ls. self_quoting l))"
proof -
  obtain d' where d: "erase demo_sha erase_demo ''box'' ''gdpr'' end_disk = ((1, None), d')" using erase_demo_succeeds by blast
  then show ?thesis using erased_verifies[OF demo_digest end_size d] by blast
qed

text \<open>
  C6. What is erased is gone and nothing else: the new chain reads as the old events in order, each field
  but the links replaced as its kind of content asks, with one event after them that names the old
  head, the reason and how many events were redacted; in none of them a field that is not exempt holds
  anything but fingerprints.
\<close>

theorem erased_content:
  assumes "digest32 sha" and "int (length (dk_chain d)) < 2 ^ 62" and "erase sha i sandbox reason d = ((n, None), d')"
  shows "\<exists>es es' er h. readEvents (dk_chain d) = (es, None) \<and> verify sha (dk_chain d) = (length es, h, None) \<and>
    readEvents (dk_chain d') = (es' @ [er], None) \<and> list_all2 (erased_as sha) es es' \<and>
    er ''type'' = FStr ''session.erasure'' \<and> er ''sha256'' = FStr h \<and> er ''reason'' = FStr (to_valid reason) \<and>
    er ''modified'' = FInt (int n) \<and> n = length (filter (\<lambda>e. snd (redactEventFields sha e)) es) \<and> 0 < n \<and>
    (\<forall>e \<in> set (es' @ [er]). \<forall>k \<in> set event_names. content_free k (e k))"
proof -
  obtain es ls q c h where *: "readEvents (dk_chain d) = (es, None)" "verify sha (dk_chain d) = (length es, h, None)"
      "list_all2 line_of ls (map (redacted sha) es @ [norm_event (erasure_event sandbox reason n c h (ei_now i))])"
      "dk_chain d' = unlines ls" "n = length (filter (\<lambda>e. snd (redactEventFields sha e)) es)" "0 < n"
    by (rule erase_success[OF assms]) blast
  let ?er = "norm_event (erasure_event sandbox reason n c h (ei_now i))"
  obtain new where new: "read_lines ls True = (new, None)"
      "list_all2 (\<lambda>v e. \<exists>i p h. e = sealed i p h v) (map (redacted sha) es @ [?er]) new"
    using lines_of_read[OF *(3)] by blast
  obtain es' rs where r: "new = es' @ rs" "list_all2 (\<lambda>v e. \<exists>i p h. e = sealed i p h v) (map (redacted sha) es) es'"
      "list_all2 (\<lambda>v e. \<exists>i p h. e = sealed i p h v) [?er] rs"
    using new(2) unfolding list_all2_append1 by blast
  obtain er where er: "rs = [er]" "\<exists>i p h. er = sealed i p h ?er" using r(3) unfolding list_all2_Cons1 by auto
  note e = r(1)[unfolded er(1)] r(2) er(2)
  have a: "list_all2 (erased_as sha) es es'"
    using e(2) unfolding list_all2_map1 by (rule list_all2_mono) (use sealed_erased in blast)
  have free: "\<forall>e \<in> set (es' @ [er]). \<forall>k \<in> set event_names. content_free k (e k)"
    by (rule read_content_free[OF assms(1) *(3) _ new(1)[unfolded e(1)]]) (use redacted_free[OF assms(1)] erasure_event_free in auto)
  have "length es \<le> length (dk_chain d)"
    using *(1) scan_lines_count read_lines_count by (fastforce simp: readEvents_def split: prod.splits intro: order_trans)
  moreover have "n \<le> length es" using *(5) by simp
  ultimately have "in_int64 (int n)" using assms(2) by (simp add: in_int64_def)
  then have g: "go_int (int n) = int n" by (rule go_int_id)
  have at: "er ''type'' = FStr ''session.erasure''" "er ''sha256'' = FStr h" "er ''reason'' = FStr (to_valid reason)"
      "er ''modified'' = FInt (int n)"
    using e(3) erasure_at[of sandbox reason n c h "ei_now i"] verify_head_plain[OF *(2)] g by (auto simp: sealed_def)
  have r: "readEvents (dk_chain d') = (es' @ [er], None)"
    using new(1) e(1) lines_of_scan(1)[OF *(3)] *(4) by (simp add: readEvents_def)
  show ?thesis
    by (rule exI[of _ es], rule exI[of _ es'], rule exI[of _ er], rule exI[of _ h]) (use *(1,2,5,6) r a at free in blast)
qed

theorem erased_content_witness:
  "\<exists>d' es es' er h. erase demo_sha erase_demo ''box'' ''gdpr'' end_disk = ((1, None), d') \<and> readEvents (dk_chain end_disk) = (es, None) \<and>
    readEvents (dk_chain d') = (es' @ [er], None) \<and> list_all2 (erased_as demo_sha) es es' \<and> er ''sha256'' = FStr h \<and>
    er ''modified'' = FInt 1"
proof -
  obtain d' where d: "erase demo_sha erase_demo ''box'' ''gdpr'' end_disk = ((1, None), d')" using erase_demo_succeeds by blast
  show ?thesis using d erased_content[OF demo_digest end_size d] by (elim exE conjE) (intro exI conjI, assumption+, simp)
qed

text \<open>
  Erasing twice is erasing once: whatever the system does, an erasure of an erased chain is refused
  and leaves the disk as it is.
\<close>

theorem erased_once:
  assumes "digest32 sha" and "int (length (dk_chain d)) < 2 ^ 62" and "erase sha i sandbox reason d = ((n, None), d')"
  shows "\<exists>m err. erase sha i' sandbox' reason' d' = ((m, Some err), d')"
proof -
  obtain ls vs where *: "list_all2 line_of ls vs" "\<forall>v \<in> set vs. \<forall>k \<in> set event_names. content_free k (v k)" "dk_chain d' = unlines ls"
    by (rule erased_lines[OF assms]) blast
  show ?thesis by (rule erase_again[OF assms(1) *])
qed

theorem erased_once_witness:
  "\<exists>d' m err. erase demo_sha erase_demo ''box'' ''gdpr'' end_disk = ((1, None), d') \<and>
    erase demo_sha erase_demo ''box'' ''again'' d' = ((m, Some err), d')"
proof -
  obtain d' where d: "erase demo_sha erase_demo ''box'' ''gdpr'' end_disk = ((1, None), d')" using erase_demo_succeeds by blast
  then show ?thesis using erased_once[OF demo_digest end_size d] by blast
qed

text \<open>
  A line is refused for a reason in the line: it does not read as an object or as an event, a member is
  a field's name in another case, or a nested value that has to change does not read as an object. The
  two walks never disagree, counts and shapes always fit.
\<close>

theorem erase_line_reasons:
  assumes "digest32 sha" and "unbroken raw" and "erase_line sha raw = Inl err"
  shows "refused_because sha raw err"
  by (rule erase_line_refused[OF assms])

theorem erase_line_reasons_witness:
  "refused_because demo_sha ''null'' (BadRaw NotAnObject)"
proof -
  have "erase_line demo_sha ''null'' = Inl (BadRaw NotAnObject)"
    by (simp add: erase_line_def parseObject_def skip_ws_id is_ws_def)
  then show ?thesis by (intro erase_line_reasons[OF demo_digest]) (simp_all add: unbroken_def newline_def)
qed

text \<open>
  What is not redacted stays: of an erased line every member is there in its old place, and a member
  that is no field, or whose field has no content, has the very bytes it had.
\<close>

theorem erase_line_lossless:
  assumes "unbroken raw" and "erase_line sha raw = Inr (o1, t, n)" and "parseObject raw = Inr o'" and "unmarshal raw = Some e"
  shows "map fst o1 = map fst o' \<and> (\<forall>k. k \<notin> set event_names \<or> redacted sha e k = e k \<longrightarrow> m_get o1 k = m_get o' k)"
  by (rule erase_line_keeps[OF assms])

theorem erase_line_lossless_witness:
  "\<exists>o1 t n. erase_line demo_sha end_line = Inr (o1, t, n) \<and> map fst o1 = map fst (raws (members_of event_struct sealed_end))"
proof -
  obtain o1 t n where l: "erase_line demo_sha end_line = Inr (o1, t, n)"
    using own_line_read[OF demo_digest sealed_end_ok] unfolding end_line_def by blast
  have u: "unbroken end_line" unfolding end_line_def by (rule unbroken_printable[OF printable_marshal[OF sealed_end_ok]])
  have p: "parseObject end_line = Inr (raws (members_of event_struct sealed_end))" unfolding end_line_def by (rule parseObject_own[OF sealed_end_ok])
  have e: "unmarshal end_line = Some (norm_event sealed_end)" unfolding end_line_def by (rule unmarshal_marshal[OF sealed_end_ok])
  from erase_line_lossless[OF u l p e] l show ?thesis by blast
qed

text \<open>A line this program wrote is never refused: the erasure of such a chain gets past every line.\<close>

theorem own_line_never_refused:
  assumes "digest32 sha" and "event_ok e"
  shows "\<exists>o' t n. erase_line sha (marshal e) = Inr (o', t, n)"
  by (rule own_line_read[OF assms])

theorem own_line_never_refused_witness: "\<exists>o' t n. erase_line demo_sha (marshal end_event) = Inr (o', t, n)"
  by (rule own_line_never_refused[OF demo_digest end_ok])

end
