(* ===== verification/Digest.thy ===== *)
theory Digest
  imports Recorder_Event Go_Map Base64
begin

text \<open>
  The fold over a session's record that every view builds on (\<open>internal/digest/digest.go\<close>):
  \<open>Absorb\<close> takes one event into the aggregate, \<open>Walk\<close> a whole chain, \<open>Snapshot\<close> is its
  JSON shape. An \<open>*Entry\<close> is the index of its entry in \<open>dg_heap\<close>, because the timeline and the
  table of open commands point at the same one. Sums of bytes wrap at 64 bits; a count cannot
  pass the number of events.
\<close>

definition get_boolp :: "event \<Rightarrow> string \<Rightarrow> bool option" where
  "get_boolp e k = (case e k of FBoolP b \<Rightarrow> b | _ \<Rightarrow> None)"

definition get_intp :: "event \<Rightarrow> string \<Rightarrow> int option" where
  "get_intp e k = (case e k of FIntP n \<Rightarrow> n | _ \<Rightarrow> None)"

definition MaxDistinctKeys :: nat where "MaxDistinctKeys = 4096"

section \<open>Counters\<close>

record counters =
  ct_Commands :: int
  ct_Failed :: int
  ct_Files :: int
  ct_EgressOK :: int
  ct_EgressBlocked :: int
  ct_Secrets :: int

definition no_counters :: counters where
  "no_counters = \<lparr>ct_Commands = 0, ct_Failed = 0, ct_Files = 0, ct_EgressOK = 0, ct_EgressBlocked = 0, ct_Secrets = 0\<rparr>"

definition counters_add :: "counters \<Rightarrow> counters \<Rightarrow> counters" where
  "counters_add c x = \<lparr>ct_Commands = ct_Commands c + ct_Commands x, ct_Failed = ct_Failed c + ct_Failed x,
     ct_Files = ct_Files c + ct_Files x, ct_EgressOK = ct_EgressOK c + ct_EgressOK x,
     ct_EgressBlocked = ct_EgressBlocked c + ct_EgressBlocked x, ct_Secrets = ct_Secrets c + ct_Secrets x\<rparr>"

record dagent =
  da_Name :: string
  da_Counters :: counters
  da_Receipt :: "event option"
  da_Policy :: "event option"

section \<open>Bounded tables\<close>

text \<open>A map with the order its keys were first seen in and the flag that says one was left out:
  \<open>Pairs\<close>, \<open>Domains\<close> and \<open>Store\<close> are kept in this one way. \<open>tableTouch\<close> is the lookup that
  mints a missing key, unless the table is full, followed by the caller's update.\<close>

record ('k, 'v) table =
  tb_map :: "('k, 'v) gmap"
  tb_order :: "'k list"
  tb_truncated :: bool

definition no_table :: "('k, 'v) table" where
  "no_table = \<lparr>tb_map = [], tb_order = [], tb_truncated = False\<rparr>"

definition tableTouch :: "('k \<Rightarrow> 'v) \<Rightarrow> 'k \<Rightarrow> ('v \<Rightarrow> 'v) \<Rightarrow> ('k, 'v) table \<Rightarrow> ('k, 'v) table" where
  "tableTouch fresh k f t =
     (case m_get (tb_map t) k of
        Some v \<Rightarrow> t\<lparr>tb_map := m_put k (f v) (tb_map t)\<rparr>
      | None \<Rightarrow>
          if MaxDistinctKeys \<le> length (m_keys (tb_map t)) then t\<lparr>tb_truncated := True\<rparr>
          else t\<lparr>tb_map := m_put k (f (fresh k)) (tb_map t), tb_order := tb_order t @ [k]\<rparr>)"

record pair_counts =
  pc_Messages :: int
  pc_Refused :: int
  pc_Bytes :: int

definition no_pair :: "string \<times> string \<Rightarrow> pair_counts" where
  "no_pair p = \<lparr>pc_Messages = 0, pc_Refused = 0, pc_Bytes = 0\<rparr>"

record domain_row =
  dm_Host :: string
  dm_Allowed :: int
  dm_Blocked :: int
  dm_Terminated :: int
  dm_BytesIn :: int
  dm_BytesOut :: int

definition no_domain :: "string \<Rightarrow> domain_row" where
  "no_domain h = \<lparr>dm_Host = h, dm_Allowed = 0, dm_Blocked = 0, dm_Terminated = 0, dm_BytesIn = 0, dm_BytesOut = 0\<rparr>"

record store_row =
  sk_Key :: string
  sk_Gets :: int
  sk_Puts :: int
  sk_Deletes :: int
  sk_Denied :: int
  sk_Bytes :: int

definition no_store_row :: "string \<Rightarrow> store_row" where
  "no_store_row k = \<lparr>sk_Key = k, sk_Gets = 0, sk_Puts = 0, sk_Deletes = 0, sk_Denied = 0, sk_Bytes = 0\<rparr>"

section \<open>The digest\<close>

record dentry =
  en_Event :: event
  en_Category :: string
  en_Refused :: bool
  en_Flow :: bool
  en_Exited :: bool
  en_Output :: string
  en_Text :: string

definition new_entry :: "event \<Rightarrow> string \<Rightarrow> dentry" where
  "new_entry e cat = \<lparr>en_Event = e, en_Category = cat, en_Refused = False, en_Flow = False, en_Exited = False,
     en_Output = [], en_Text = []\<rparr>"

record digest =
  dg_Events :: int
  dg_Image :: string
  dg_Arch :: string
  dg_Kelyfos :: string
  dg_Kernel :: string
  dg_Supervisor :: string
  dg_BootMS :: int
  dg_Started :: string
  dg_Ended :: string
  dg_EndReason :: string
  dg_SawSessionStart :: bool
  dg_Served :: bool
  dg_TimedOut :: string
  dg_OOMKills :: int
  dg_Terminated :: int
  dg_ForeignKnocks :: int
  dg_Session :: counters
  dg_Receipt :: "event option"
  dg_Policy :: "event option"
  dg_Topology :: "event option"
  dg_Secrets :: "(string \<times> string) list"
  dg_SecretsTruncated :: bool
  dg_Team :: bool
  dg_AgentOrder :: "string list"
  dg_Agents :: "(string, dagent) gmap"
  dg_PeerOnly :: "string list"
  dg_PeerOnlyTruncated :: bool
  dg_Messages :: int
  dg_MessagesRefused :: int
  dg_SpawnRefused :: int
  dg_StoreRefused :: int
  dg_Pairs :: "(string \<times> string, pair_counts) table"
  dg_Domains :: "(string, domain_row) table"
  dg_Store :: "(string, store_row) table"
  dg_KeepTimeline :: bool
  dg_Timeline :: "nat list"
  dg_heap :: "dentry list"
  dg_open :: "(string, nat) gmap"
  dg_seenSecret :: "string set"
  dg_peerSeen :: "string set"

definition emptyDigest :: "bool \<Rightarrow> digest" where
  "emptyDigest keep = \<lparr>dg_Events = 0, dg_Image = [], dg_Arch = [], dg_Kelyfos = [], dg_Kernel = [], dg_Supervisor = [],
     dg_BootMS = 0, dg_Started = [], dg_Ended = [], dg_EndReason = [], dg_SawSessionStart = False, dg_Served = False,
     dg_TimedOut = [], dg_OOMKills = 0, dg_Terminated = 0, dg_ForeignKnocks = 0, dg_Session = no_counters,
     dg_Receipt = None, dg_Policy = None, dg_Topology = None, dg_Secrets = [], dg_SecretsTruncated = False,
     dg_Team = False, dg_AgentOrder = [], dg_Agents = [], dg_PeerOnly = [], dg_PeerOnlyTruncated = False,
     dg_Messages = 0, dg_MessagesRefused = 0, dg_SpawnRefused = 0, dg_StoreRefused = 0, dg_Pairs = no_table,
     dg_Domains = no_table, dg_Store = no_table, dg_KeepTimeline = keep, dg_Timeline = [], dg_heap = [],
     dg_open = [], dg_seenSecret = {}, dg_peerSeen = {}\<rparr>"

definition newDigest :: digest where "newDigest = emptyDigest True"

definition totals :: "digest \<Rightarrow> counters" where
  "totals d = fold (\<lambda>(n, a) t. counters_add t (da_Counters a)) (dg_Agents d) (dg_Session d)"

definition agentTotals :: "digest \<Rightarrow> counters" where
  "agentTotals d = fold (\<lambda>(n, a) t. counters_add t (da_Counters a)) (dg_Agents d) no_counters"

definition teamRefused :: "digest \<Rightarrow> int" where
  "teamRefused d = dg_MessagesRefused d + dg_SpawnRefused d"

definition allRefusals :: "digest \<Rightarrow> int" where
  "allRefusals d = teamRefused d + dg_StoreRefused d"

definition find_agent :: "string \<Rightarrow> digest \<Rightarrow> digest" where
  "find_agent name d =
     (if m_get (dg_Agents d) name \<noteq> None then d
      else d\<lparr>dg_Agents := m_put name \<lparr>da_Name = name, da_Counters = no_counters, da_Receipt = None, da_Policy = None\<rparr> (dg_Agents d),
             dg_AgentOrder := dg_AgentOrder d @ [name], dg_Team := True, dg_PeerOnly := remove1 name (dg_PeerOnly d),
             dg_peerSeen := (if name \<in> set (dg_PeerOnly d) then dg_peerSeen d - {name} else dg_peerSeen d)\<rparr>)"

definition dig_peer :: "string \<Rightarrow> digest \<Rightarrow> digest" where
  "dig_peer name d =
     (if name = [] then d
      else if m_get (dg_Agents d) name \<noteq> None then d
      else if name \<in> dg_peerSeen d then d
      else if MaxDistinctKeys \<le> length (dg_PeerOnly d) then d\<lparr>dg_PeerOnlyTruncated := True\<rparr>
      else d\<lparr>dg_peerSeen := insert name (dg_peerSeen d), dg_PeerOnly := dg_PeerOnly d @ [name]\<rparr>)"

text \<open>An update of the agent the event names, or else of the session.\<close>

definition upd_agent :: "string \<Rightarrow> (dagent \<Rightarrow> dagent) \<Rightarrow> digest \<Rightarrow> digest" where
  "upd_agent n f d = (case m_get (dg_Agents d) n of None \<Rightarrow> d | Some a \<Rightarrow> d\<lparr>dg_Agents := m_put n (f a) (dg_Agents d)\<rparr>)"

definition count :: "string \<Rightarrow> (counters \<Rightarrow> counters) \<Rightarrow> digest \<Rightarrow> digest" where
  "count ag f d =
     (if ag \<noteq> [] then upd_agent ag (\<lambda>a. a\<lparr>da_Counters := f (da_Counters a)\<rparr>) d
      else d\<lparr>dg_Session := f (dg_Session d)\<rparr>)"

section \<open>One event\<close>

text \<open>\<open>StdEncoding.DecodeString\<close> with its error ignored: the bytes before the first quantum that
  does not decode.\<close>

fun b64_prefix :: "string \<Rightarrow> bytes" where
  "b64_prefix (p # q # r # s # t) =
     (case (b64_val p, b64_val q, b64_val r, b64_val s) of
        (Some i, Some j, Some k, Some l) \<Rightarrow>
          char_of (i * 4 + j div 16) # char_of (j mod 16 * 16 + k div 4) # char_of (k mod 4 * 64 + l) # b64_prefix t
      | (Some i, Some j, Some k, None) \<Rightarrow>
          if s = CHR ''='' then [char_of (i * 4 + j div 16), char_of (j mod 16 * 16 + k div 4)] else []
      | (Some i, Some j, None, None) \<Rightarrow>
          if r = CHR ''='' \<and> s = CHR ''='' then [char_of (i * 4 + j div 16)] else []
      | _ \<Rightarrow> [])"
| "b64_prefix _ = []"

definition decode_lax :: "string \<Rightarrow> bytes" where
  "decode_lax s = b64_prefix (filter (\<lambda>c. \<not> newline_char c) s)"

definition upd_heap :: "nat \<Rightarrow> (dentry \<Rightarrow> dentry) \<Rightarrow> digest \<Rightarrow> digest" where
  "upd_heap i f d = d\<lparr>dg_heap := (dg_heap d)[i := f (dg_heap d ! i)]\<rparr>"

definition absorbOutput :: "event \<Rightarrow> digest \<Rightarrow> digest \<times> dentry" where
  "absorbOutput e d =
     (let txt = decode_lax (get_str e ''data'');
          d' = (if dg_KeepTimeline d
                then (case m_get (dg_open d) (get_str e ''call'') of
                        Some i \<Rightarrow> upd_heap i (\<lambda>x. x\<lparr>en_Output := en_Output x @
                          (if get_str e ''stream'' = ''stderr'' then ''stderr: '' else []) @ txt\<rparr>) d
                      | None \<Rightarrow> d)
                else d)
      in (d', (new_entry e ''command-output'')\<lparr>en_Text := txt\<rparr>))"

definition absorbExit :: "event \<Rightarrow> digest \<Rightarrow> digest \<times> dentry" where
  "absorbExit e d =
     (let refused = (case get_intp e ''code'' of None \<Rightarrow> - 1 | Some n \<Rightarrow> n) \<noteq> 0;
          d1 = (case m_get (dg_open d) (get_str e ''call'') of
                  Some i \<Rightarrow> (upd_heap i (\<lambda>x. x\<lparr>en_Event := (en_Event x)(''code'' := e ''code'', ''duration_ms'' := e ''duration_ms'', ''error'' := e ''error''),
                               en_Refused := refused, en_Exited := True\<rparr>) d)\<lparr>dg_open := m_del (get_str e ''call'') (dg_open d)\<rparr>
                | None \<Rightarrow> d);
          d2 = (if refused then count (get_str e ''agent'') (\<lambda>c. c\<lparr>ct_Failed := ct_Failed c + 1\<rparr>) d1 else d1)
      in (d2, (new_entry e ''command-exit'')\<lparr>en_Refused := refused\<rparr>))"

definition absorb_session :: "event \<Rightarrow> digest \<Rightarrow> digest" where
  "absorb_session e d =
     (if get_str e ''agent'' \<noteq> [] then d
      else if get_str e ''type'' = ''session.start''
      then d\<lparr>dg_SawSessionStart := True, dg_Image := get_str e ''image'', dg_Arch := get_str e ''arch'',
             dg_Kelyfos := get_str e ''kelyfos'', dg_Started := get_str e ''ts'',
             dg_Served := (if get_str e ''image'' = [] \<and> get_str e ''reason'' = ''serve-mcp'' then True else dg_Served d)\<rparr>
      else if get_str e ''type'' = ''session.ready''
      then d\<lparr>dg_BootMS := get_int e ''boot_ms'', dg_Kernel := get_str e ''kernel'', dg_Supervisor := get_str e ''supervisor''\<rparr>
      else d\<lparr>dg_Ended := get_str e ''ts'', dg_EndReason := get_str e ''reason''\<rparr>)"

definition egress_allowed :: "event \<Rightarrow> bool" where
  "egress_allowed e = (get_boolp e ''allowed'' = Some True)"

definition domain_upd :: "event \<Rightarrow> domain_row \<Rightarrow> domain_row" where
  "domain_upd e r =
     (let allowed = egress_allowed e in
      r\<lparr>dm_Allowed := (if allowed then dm_Allowed r + 1 else dm_Allowed r),
        dm_Blocked := (if allowed then dm_Blocked r else dm_Blocked r + 1),
        dm_Terminated := (if allowed \<and> get_str e ''mode'' = ''terminated'' then dm_Terminated r + 1 else dm_Terminated r),
        dm_BytesIn := go_int (dm_BytesIn r + get_int e ''bytes_in''),
        dm_BytesOut := go_int (dm_BytesOut r + get_int e ''bytes_out'')\<rparr>)"

definition absorb_egress :: "event \<Rightarrow> digest \<Rightarrow> digest" where
  "absorb_egress e d =
     (if get_str e ''reason'' = ''foreign_peer'' then d\<lparr>dg_ForeignKnocks := dg_ForeignKnocks d + 1\<rparr>
      else
        let allowed = egress_allowed e;
            d1 = count (get_str e ''agent'')
                   (\<lambda>c. if allowed then c\<lparr>ct_EgressOK := ct_EgressOK c + 1\<rparr> else c\<lparr>ct_EgressBlocked := ct_EgressBlocked c + 1\<rparr>) d;
            d2 = (if allowed \<and> get_str e ''mode'' = ''terminated'' then d1\<lparr>dg_Terminated := dg_Terminated d1 + 1\<rparr> else d1)
        in if get_str e ''host'' \<noteq> [] then d2\<lparr>dg_Domains := tableTouch no_domain (get_str e ''host'') (domain_upd e) (dg_Domains d2)\<rparr>
           else d2)"

definition absorb_secret :: "event \<Rightarrow> digest \<Rightarrow> digest" where
  "absorb_secret e d =
     (let d1 = count (get_str e ''agent'') (\<lambda>c. c\<lparr>ct_Secrets := ct_Secrets c + 1\<rparr>) d;
          key = get_str e ''name'' @ ''@'' @ get_str e ''host''
      in if key \<in> dg_seenSecret d1 then d1
         else if MaxDistinctKeys \<le> length (dg_Secrets d1) then d1\<lparr>dg_SecretsTruncated := True\<rparr>
         else d1\<lparr>dg_seenSecret := insert key (dg_seenSecret d1),
                 dg_Secrets := dg_Secrets d1 @ [(get_str e ''name'', get_str e ''host'')]\<rparr>)"

definition pair_upd :: "event \<Rightarrow> pair_counts \<Rightarrow> pair_counts" where
  "pair_upd e p =
     (if get_str e ''type'' = ''team.refused'' then p\<lparr>pc_Refused := pc_Refused p + 1\<rparr>
      else p\<lparr>pc_Messages := pc_Messages p + 1, pc_Bytes := go_int (pc_Bytes p + get_int e ''bytes'')\<rparr>)"

definition absorb_message :: "event \<Rightarrow> digest \<Rightarrow> digest" where
  "absorb_message e d =
     (let d1 = (if get_str e ''type'' = ''team.refused'' then d\<lparr>dg_MessagesRefused := dg_MessagesRefused d + 1\<rparr>
                else d\<lparr>dg_Messages := dg_Messages d + 1\<rparr>);
          d2 = dig_peer (get_str e ''peer'') d1
      in d2\<lparr>dg_Pairs := tableTouch no_pair (get_str e ''agent'', get_str e ''peer'') (pair_upd e) (dg_Pairs d2)\<rparr>)"

definition store_upd :: "event \<Rightarrow> store_row \<Rightarrow> store_row" where
  "store_upd e r =
     (let k = get_str e ''kind'';
          r1 = (if k = ''get'' then r\<lparr>sk_Gets := sk_Gets r + 1\<rparr> else if k = ''put'' then r\<lparr>sk_Puts := sk_Puts r + 1\<rparr>
                else if k = ''delete'' then r\<lparr>sk_Deletes := sk_Deletes r + 1\<rparr> else r)
      in if get_str e ''outcome'' \<noteq> ''delivered'' then r1\<lparr>sk_Denied := sk_Denied r1 + 1\<rparr>
         else r1\<lparr>sk_Bytes := go_int (sk_Bytes r1 + get_int e ''bytes'')\<rparr>)"

definition absorb_store :: "event \<Rightarrow> digest \<Rightarrow> digest" where
  "absorb_store e d =
     (let d1 = (if get_str e ''outcome'' \<noteq> ''delivered'' then d\<lparr>dg_StoreRefused := dg_StoreRefused d + 1\<rparr> else d)
      in d1\<lparr>dg_Store := tableTouch no_store_row (get_str e ''peer'') (store_upd e) (dg_Store d1)\<rparr>)"

definition absorb_spawn :: "event \<Rightarrow> digest \<Rightarrow> digest" where
  "absorb_spawn e d =
     dig_peer (get_str e ''peer'')
       (if get_str e ''outcome'' \<noteq> ''delivered'' then d\<lparr>dg_SpawnRefused := dg_SpawnRefused d + 1\<rparr> else d)"

definition keep_receipt :: "event \<Rightarrow> digest \<Rightarrow> digest" where
  "keep_receipt e d =
     (if get_str e ''agent'' \<noteq> [] then upd_agent (get_str e ''agent'') (\<lambda>a. a\<lparr>da_Receipt := Some e\<rparr>) d
      else d\<lparr>dg_Receipt := Some e\<rparr>)"

definition keep_policy :: "event \<Rightarrow> digest \<Rightarrow> digest" where
  "keep_policy e d =
     (if get_str e ''agent'' \<noteq> [] then upd_agent (get_str e ''agent'') (\<lambda>a. a\<lparr>da_Policy := Some e\<rparr>) d
      else d\<lparr>dg_Policy := Some e\<rparr>)"

text \<open>What the second switch does to the aggregate, and the entry it makes.\<close>

definition absorb_state :: "event \<Rightarrow> digest \<Rightarrow> digest" where
  "absorb_state e d =
     (let t = get_str e ''type'' in
      if t = ''session.start'' \<or> t = ''session.ready'' \<or> t = ''session.end'' then absorb_session e d
      else if t = ''command.start'' then count (get_str e ''agent'') (\<lambda>c. c\<lparr>ct_Commands := ct_Commands c + 1\<rparr>) d
      else if t = ''file.write'' then count (get_str e ''agent'') (\<lambda>c. c\<lparr>ct_Files := ct_Files c + 1\<rparr>) d
      else if t = ''egress.attempt'' then absorb_egress e d
      else if t = ''secret.use'' then absorb_secret e d
      else if t = ''team.message'' \<or> t = ''team.refused'' then absorb_message e d
      else if t = ''team.store'' then absorb_store e d
      else if t = ''team.spawn'' then absorb_spawn e d
      else if t = ''resource.oom'' then d\<lparr>dg_OOMKills := dg_OOMKills d + 1\<rparr>
      else if t = ''resource.timeout'' then d\<lparr>dg_TimedOut := get_str e ''budget''\<rparr>
      else if t = ''resource.summary'' then keep_receipt e d
      else if t = ''session.policy'' then keep_policy e d
      else if t = ''team.topology'' then d\<lparr>dg_Topology := Some e\<rparr>
      else d)"

definition entry_of :: "event \<Rightarrow> dentry" where
  "entry_of e =
     (let t = get_str e ''type''; ok = (get_str e ''outcome'' = ''delivered'') in
      if t = ''session.start'' \<or> t = ''session.ready'' \<or> t = ''session.end'' then new_entry e ''session''
      else if t = ''command.start'' then new_entry e ''command''
      else if t = ''file.write'' then new_entry e ''file''
      else if t = ''egress.attempt'' then (new_entry e ''egress'')\<lparr>en_Refused := \<not> egress_allowed e\<rparr>
      else if t = ''secret.unscrubbable'' then new_entry e ''secret''
      else if t = ''channel.refused'' then new_entry e ''egress''
      else if t = ''vmm.api'' then new_entry e ''session''
      else if t = ''secret.use'' then new_entry e ''secret''
      else if t = ''team.message'' \<or> t = ''team.refused'' then (new_entry e ''team-message'')\<lparr>en_Flow := True, en_Refused := (t = ''team.refused'')\<rparr>
      else if t = ''team.store'' then (new_entry e ''team-store'')\<lparr>en_Refused := \<not> ok\<rparr>
      else if t = ''team.spawn'' then (new_entry e ''team-spawn'')\<lparr>en_Refused := \<not> ok, en_Flow := ok\<rparr>
      else if t = ''resource.oom'' \<or> t = ''resource.timeout'' then (new_entry e ''oom'')\<lparr>en_Refused := True\<rparr>
      else if t = ''resource.summary'' then new_entry e ''session''
      else if t = ''session.policy'' then new_entry e ''policy''
      else if t = ''team.topology'' then new_entry e ''topology''
      else if t = ''plugin.call'' then (new_entry e ''plugin'')\<lparr>en_Refused := (get_str e ''outcome'' \<noteq> ''ok'')\<rparr>
      else if t = ''plugin.crash'' then (new_entry e ''plugin'')\<lparr>en_Refused := True\<rparr>
      else if t = ''mcp.host.call'' then new_entry e ''client''
      else if t = ''mcp.host.result'' then (new_entry e ''client'')\<lparr>en_Refused := (get_str e ''outcome'' \<noteq> ''ok'')\<rparr>
      else new_entry e ''other'')"

definition absorb_entry :: "event \<Rightarrow> digest \<Rightarrow> digest \<times> dentry" where
  "absorb_entry e d =
     (let d1 = absorb_state e d;
          en = entry_of e;
          i = length (dg_heap d1);
          d2 = d1\<lparr>dg_heap := dg_heap d1 @ [en]\<rparr>;
          d3 = (if dg_KeepTimeline d2 then d2\<lparr>dg_Timeline := dg_Timeline d2 @ [i]\<rparr> else d2)
      in (if get_str e ''type'' = ''command.start'' then d3\<lparr>dg_open := m_put (get_str e ''call'') i (dg_open d3)\<rparr> else d3, en))"

definition absorb :: "event \<Rightarrow> digest \<Rightarrow> digest \<times> dentry" where
  "absorb e d =
     (let d1 = d\<lparr>dg_Events := dg_Events d + 1\<rparr>;
          d2 = (if get_str e ''agent'' \<noteq> [] then find_agent (get_str e ''agent'') d1 else d1)
      in if get_str e ''type'' = ''command.output'' then absorbOutput e d2
         else if get_str e ''type'' = ''command.exit'' then absorbExit e d2
         else absorb_entry e d2)"

definition absorb_all :: "event list \<Rightarrow> digest \<Rightarrow> digest" where
  "absorb_all es d = fold (\<lambda>e d. fst (absorb e d)) es d"

definition digestWalk :: "event list \<Rightarrow> digest" where
  "digestWalk es = absorb_all es newDigest"

section \<open>The snapshot\<close>

text \<open>The rows of a table in first-seen order, a key without a row passed over.\<close>

definition rows :: "('k, 'v) gmap \<Rightarrow> 'k list \<Rightarrow> ('k \<times> 'v) list" where
  "rows mp ks = List.map_filter (\<lambda>k. map_option (Pair k) (m_get mp k)) ks"

record snapshot =
  sn_Events :: int
  sn_Team :: bool
  sn_Served :: bool
  sn_SawSessionStart :: bool
  sn_Image :: string
  sn_Arch :: string
  sn_Kelyfos :: string
  sn_Kernel :: string
  sn_Supervisor :: string
  sn_BootMS :: int
  sn_Started :: string
  sn_Ended :: string
  sn_EndReason :: string
  sn_TimedOut :: string
  sn_OOMKills :: int
  sn_Terminated :: int
  sn_ForeignKnocks :: int
  sn_Session :: counters
  sn_Receipt :: "event option"
  sn_Policy :: "event option"
  sn_Topology :: "event option"
  sn_Secrets :: "(string \<times> string) list"
  sn_SecretsTruncated :: bool
  sn_PeerOnly :: "string list"
  sn_PeerOnlyTruncated :: bool
  sn_Messages :: int
  sn_MessagesRefused :: int
  sn_SpawnRefused :: int
  sn_StoreRefused :: int
  sn_PairsTruncated :: bool
  sn_DomainsTruncated :: bool
  sn_StoreTruncated :: bool
  sn_Totals :: counters
  sn_Agents :: "dagent list"
  sn_Pairs :: "((string \<times> string) \<times> pair_counts) list"
  sn_Domains :: "domain_row list"
  sn_Store :: "store_row list"

definition takeSnapshot :: "digest \<Rightarrow> snapshot" where
  "takeSnapshot d =
     \<lparr>sn_Events = dg_Events d, sn_Team = dg_Team d, sn_Served = dg_Served d,
      sn_SawSessionStart = dg_SawSessionStart d, sn_Image = dg_Image d, sn_Arch = dg_Arch d,
      sn_Kelyfos = dg_Kelyfos d, sn_Kernel = dg_Kernel d, sn_Supervisor = dg_Supervisor d,
      sn_BootMS = dg_BootMS d, sn_Started = dg_Started d, sn_Ended = dg_Ended d,
      sn_EndReason = dg_EndReason d, sn_TimedOut = dg_TimedOut d, sn_OOMKills = dg_OOMKills d,
      sn_Terminated = dg_Terminated d, sn_ForeignKnocks = dg_ForeignKnocks d, sn_Session = dg_Session d,
      sn_Receipt = dg_Receipt d, sn_Policy = dg_Policy d, sn_Topology = dg_Topology d,
      sn_Secrets = dg_Secrets d, sn_SecretsTruncated = dg_SecretsTruncated d, sn_PeerOnly = dg_PeerOnly d,
      sn_PeerOnlyTruncated = dg_PeerOnlyTruncated d, sn_Messages = dg_Messages d,
      sn_MessagesRefused = dg_MessagesRefused d, sn_SpawnRefused = dg_SpawnRefused d,
      sn_StoreRefused = dg_StoreRefused d, sn_PairsTruncated = tb_truncated (dg_Pairs d),
      sn_DomainsTruncated = tb_truncated (dg_Domains d), sn_StoreTruncated = tb_truncated (dg_Store d),
      sn_Totals = totals d, sn_Agents = map snd (rows (dg_Agents d) (dg_AgentOrder d)),
      sn_Pairs = rows (tb_map (dg_Pairs d)) (tb_order (dg_Pairs d)),
      sn_Domains = map snd (rows (tb_map (dg_Domains d)) (tb_order (dg_Domains d))),
      sn_Store = map snd (rows (tb_map (dg_Store d)) (tb_order (dg_Store d)))\<rparr>"

end
