(* ===== verification/Digest_Inv.thy ===== *)
theory Digest_Inv
  imports Digest
begin

text \<open>
  The tables of the digest: each holds at most the bound and keeps its keys in order, and each row
  is what the events of its key add up to. The frame lemmas say what each branch of \<open>Absorb\<close>
  leaves alone.
\<close>

section \<open>Tables\<close>

definition table_ok :: "('k, 'v) table \<Rightarrow> bool" where
  "table_ok t \<longleftrightarrow> m_ok (tb_map t) \<and> tb_order t = m_keys (tb_map t) \<and> length (m_keys (tb_map t)) \<le> MaxDistinctKeys"

lemma m_keys_put: "m_keys (m_put k v m) = (if m_get m k = None then m_keys m @ [k] else m_keys m)"
proof -
  have "map fst (AList.update k v m) = (if k \<in> fst ` set m then map fst m else map fst m @ [k])" by (induction m) auto
  then show ?thesis by (simp add: m_keys_def m_put_def m_get_def map_of_eq_None_iff)
qed

lemma no_table_ok: "table_ok no_table"
  by (simp add: table_ok_def no_table_def m_keys_def)

lemma touch_ok: "table_ok t \<Longrightarrow> table_ok (tableTouch fresh k f t)"
  by (auto simp: table_ok_def tableTouch_def m_keys_put split: option.splits)

text \<open>What a table says of the touches it has seen, newest last: a row is the updates of its key
  from the first one on, and a key without a row was left out because the table was full.\<close>

definition row_of :: "('k \<Rightarrow> 'v) \<Rightarrow> ('k \<times> ('v \<Rightarrow> 'v)) list \<Rightarrow> 'k \<Rightarrow> 'v" where
  "row_of fresh us k = fold (\<lambda>u v. if fst u = k then snd u v else v) us (fresh k)"

definition touched :: "('k \<times> ('v \<Rightarrow> 'v)) list \<Rightarrow> 'k set" where
  "touched us = fst ` set us"

definition table_says :: "('k \<Rightarrow> 'v) \<Rightarrow> ('k \<times> ('v \<Rightarrow> 'v)) list \<Rightarrow> ('k, 'v) table \<Rightarrow> bool" where
  "table_says fresh us t \<longleftrightarrow>
     (\<forall>k v. m_get (tb_map t) k = Some v \<longrightarrow> k \<in> touched us \<and> v = row_of fresh us k) \<and>
     (tb_truncated t \<longleftrightarrow> \<not> touched us \<subseteq> dom (m_get (tb_map t))) \<and>
     (tb_truncated t \<longrightarrow> length (tb_order t) = MaxDistinctKeys)"

lemma touched_simps [simp]: "touched [] = {}" "touched (us @ [(k, f)]) = insert k (touched us)"
  by (simp_all add: touched_def)

lemma row_of_snoc: "row_of fresh (us @ [(k, f)]) j = (if k = j then f (row_of fresh us j) else row_of fresh us j)"
  by (simp add: row_of_def)

lemma row_of_new: "k \<notin> touched us \<Longrightarrow> row_of fresh us k = fresh k"
  unfolding row_of_def touched_def by (induction us rule: rev_induct) auto

lemma no_table_says: "table_says fresh [] no_table"
  by (simp add: table_says_def no_table_def)

lemma says_row: "table_says fresh us t \<Longrightarrow> m_get (tb_map t) k = Some v \<Longrightarrow> k \<in> touched us \<and> v = row_of fresh us k"
  by (simp add: table_says_def)

lemma says_truncated: "table_says fresh us t \<Longrightarrow> tb_truncated t \<longleftrightarrow> \<not> touched us \<subseteq> dom (m_get (tb_map t))"
  by (simp add: table_says_def)

lemma says_kept:
  assumes "table_says fresh us t" and "m_get (tb_map t) k = Some v"
  shows "table_says fresh (us @ [(k, f)]) (t\<lparr>tb_map := m_put k (f v) (tb_map t)\<rparr>)"
  unfolding table_says_def
proof (intro conjI allI impI)
  fix j w
  assume "m_get (tb_map (t\<lparr>tb_map := m_put k (f v) (tb_map t)\<rparr>)) j = Some w"
  then have "w = f v \<and> j = k \<or> j \<noteq> k \<and> m_get (tb_map t) j = Some w" by (simp split: if_splits)
  then show "j \<in> touched (us @ [(k, f)])" "w = row_of fresh (us @ [(k, f)]) j"
    using says_row[OF assms(1)] says_row[OF assms] by (auto simp: row_of_snoc)
next
  have "k \<in> dom (m_get (tb_map t))" using assms(2) by blast
  then show "tb_truncated (t\<lparr>tb_map := m_put k (f v) (tb_map t)\<rparr>) \<longleftrightarrow>
      \<not> touched (us @ [(k, f)]) \<subseteq> dom (m_get (tb_map (t\<lparr>tb_map := m_put k (f v) (tb_map t)\<rparr>)))"
    using says_truncated[OF assms(1)] by (simp add: gm.get_put_fun insert_absorb)
qed (use assms(1) in \<open>simp add: table_says_def\<close>)

lemma says_full:
  assumes "table_says fresh us t" and "m_get (tb_map t) k = None" and "length (tb_order t) = MaxDistinctKeys"
  shows "table_says fresh (us @ [(k, f)]) (t\<lparr>tb_truncated := True\<rparr>)"
  unfolding table_says_def
proof (intro conjI allI impI)
  fix j w
  assume "m_get (tb_map (t\<lparr>tb_truncated := True\<rparr>)) j = Some w"
  then have "m_get (tb_map t) j = Some w" "j \<noteq> k" using assms(2) by auto
  then show "j \<in> touched (us @ [(k, f)])" "w = row_of fresh (us @ [(k, f)]) j"
    using says_row[OF assms(1)] by (simp_all add: row_of_snoc)
qed (use assms(2,3) in auto)

lemma says_new:
  assumes "table_says fresh us t" and "m_get (tb_map t) k = None" and "length (tb_order t) \<noteq> MaxDistinctKeys"
  shows "table_says fresh (us @ [(k, f)]) (t\<lparr>tb_map := m_put k (f (fresh k)) (tb_map t), tb_order := tb_order t @ [k]\<rparr>)"
  unfolding table_says_def
proof (intro conjI allI impI)
  have nt: "\<not> tb_truncated t" using assms(1,3) by (auto simp: table_says_def)
  then have sub: "touched us \<subseteq> dom (m_get (tb_map t))" using says_truncated[OF assms(1)] by blast
  then have new: "k \<notin> touched us" using assms(2) by blast
  show "j \<in> touched (us @ [(k, f)])" "w = row_of fresh (us @ [(k, f)]) j"
    if "m_get (tb_map (t\<lparr>tb_map := m_put k (f (fresh k)) (tb_map t), tb_order := tb_order t @ [k]\<rparr>)) j = Some w" for j w
  proof -
    have "w = f (fresh k) \<and> j = k \<or> j \<noteq> k \<and> m_get (tb_map t) j = Some w" using that by (simp split: if_splits)
    then show "j \<in> touched (us @ [(k, f)])" "w = row_of fresh (us @ [(k, f)]) j"
      using says_row[OF assms(1), of j w] row_of_new[OF new, of fresh] by (auto simp: row_of_snoc)
  qed
  show "tb_truncated (t\<lparr>tb_map := m_put k (f (fresh k)) (tb_map t), tb_order := tb_order t @ [k]\<rparr>) \<longleftrightarrow>
      \<not> touched (us @ [(k, f)]) \<subseteq> dom (m_get (tb_map (t\<lparr>tb_map := m_put k (f (fresh k)) (tb_map t), tb_order := tb_order t @ [k]\<rparr>)))"
    using nt sub by (auto simp: gm.get_put_fun)
  show "tb_truncated (t\<lparr>tb_map := m_put k (f (fresh k)) (tb_map t), tb_order := tb_order t @ [k]\<rparr>) \<Longrightarrow>
      length (tb_order (t\<lparr>tb_map := m_put k (f (fresh k)) (tb_map t), tb_order := tb_order t @ [k]\<rparr>)) = MaxDistinctKeys"
    using nt by simp
qed

lemma touch_says:
  assumes ok: "table_ok t" and s: "table_says fresh us t"
  shows "table_says fresh (us @ [(k, f)]) (tableTouch fresh k f t)"
proof (cases "m_get (tb_map t) k")
  case (Some v)
  then show ?thesis using says_kept[OF s Some] by (simp add: tableTouch_def)
next
  case None
  show ?thesis
  proof (cases "MaxDistinctKeys \<le> length (m_keys (tb_map t))")
    case True
    then have "length (tb_order t) = MaxDistinctKeys" using ok by (auto simp: table_ok_def intro: antisym)
    then show ?thesis using says_full[OF s None] True None by (simp add: tableTouch_def)
  next
    case False
    then have "length (tb_order t) \<noteq> MaxDistinctKeys" using ok by (simp add: table_ok_def)
    then show ?thesis using says_new[OF s None] False None by (simp add: tableTouch_def)
  qed
qed

text \<open>The touches a list of events makes.\<close>

definition domain_touches :: "event list \<Rightarrow> (string \<times> (domain_row \<Rightarrow> domain_row)) list" where
  "domain_touches es = map (\<lambda>e. (get_str e ''host'', domain_upd e))
     (filter (\<lambda>e. get_str e ''type'' = ''egress.attempt'' \<and> get_str e ''reason'' \<noteq> ''foreign_peer'' \<and> get_str e ''host'' \<noteq> []) es)"

definition pair_touches :: "event list \<Rightarrow> ((string \<times> string) \<times> (pair_counts \<Rightarrow> pair_counts)) list" where
  "pair_touches es = map (\<lambda>e. ((get_str e ''agent'', get_str e ''peer''), pair_upd e))
     (filter (\<lambda>e. get_str e ''type'' = ''team.message'' \<or> get_str e ''type'' = ''team.refused'') es)"

definition store_touches :: "event list \<Rightarrow> (string \<times> (store_row \<Rightarrow> store_row)) list" where
  "store_touches es = map (\<lambda>e. (get_str e ''peer'', store_upd e)) (filter (\<lambda>e. get_str e ''type'' = ''team.store'') es)"

section \<open>What one event leaves alone\<close>

lemma upd_agent_frame [simp]:
  "dg_Pairs (upd_agent n f d) = dg_Pairs d" "dg_Domains (upd_agent n f d) = dg_Domains d"
  "dg_Store (upd_agent n f d) = dg_Store d" "dg_PeerOnly (upd_agent n f d) = dg_PeerOnly d"
  "dg_peerSeen (upd_agent n f d) = dg_peerSeen d" "dg_AgentOrder (upd_agent n f d) = dg_AgentOrder d"
  "dg_Secrets (upd_agent n f d) = dg_Secrets d" "dg_seenSecret (upd_agent n f d) = dg_seenSecret d"
  "dg_heap (upd_agent n f d) = dg_heap d" "dg_Timeline (upd_agent n f d) = dg_Timeline d"
  "dg_open (upd_agent n f d) = dg_open d" "dg_KeepTimeline (upd_agent n f d) = dg_KeepTimeline d"
  "dg_Session (upd_agent n f d) = dg_Session d"
  by (simp_all add: upd_agent_def split: option.splits)

lemma count_frame [simp]:
  "dg_Pairs (count n f d) = dg_Pairs d" "dg_Domains (count n f d) = dg_Domains d"
  "dg_Store (count n f d) = dg_Store d" "dg_PeerOnly (count n f d) = dg_PeerOnly d"
  "dg_peerSeen (count n f d) = dg_peerSeen d" "dg_AgentOrder (count n f d) = dg_AgentOrder d"
  "dg_Secrets (count n f d) = dg_Secrets d" "dg_seenSecret (count n f d) = dg_seenSecret d"
  "dg_heap (count n f d) = dg_heap d" "dg_Timeline (count n f d) = dg_Timeline d" "dg_open (count n f d) = dg_open d"
  "dg_KeepTimeline (count n f d) = dg_KeepTimeline d"
  by (simp_all add: count_def)

lemma peer_frame [simp]:
  "dg_Pairs (dig_peer n d) = dg_Pairs d" "dg_Domains (dig_peer n d) = dg_Domains d"
  "dg_Store (dig_peer n d) = dg_Store d" "dg_Agents (dig_peer n d) = dg_Agents d"
  "dg_AgentOrder (dig_peer n d) = dg_AgentOrder d" "dg_Secrets (dig_peer n d) = dg_Secrets d"
  "dg_seenSecret (dig_peer n d) = dg_seenSecret d" "dg_heap (dig_peer n d) = dg_heap d"
  "dg_Timeline (dig_peer n d) = dg_Timeline d" "dg_open (dig_peer n d) = dg_open d"
  "dg_KeepTimeline (dig_peer n d) = dg_KeepTimeline d" "dg_Session (dig_peer n d) = dg_Session d"
  by (simp_all add: dig_peer_def)

lemma find_frame [simp]:
  "dg_Pairs (find_agent n d) = dg_Pairs d" "dg_Domains (find_agent n d) = dg_Domains d"
  "dg_Store (find_agent n d) = dg_Store d" "dg_Secrets (find_agent n d) = dg_Secrets d"
  "dg_seenSecret (find_agent n d) = dg_seenSecret d" "dg_heap (find_agent n d) = dg_heap d"
  "dg_Timeline (find_agent n d) = dg_Timeline d" "dg_open (find_agent n d) = dg_open d"
  "dg_KeepTimeline (find_agent n d) = dg_KeepTimeline d" "dg_Session (find_agent n d) = dg_Session d"
  by (simp_all add: find_agent_def)

lemma upd_heap_frame [simp]:
  "dg_Pairs (upd_heap i f d) = dg_Pairs d" "dg_Domains (upd_heap i f d) = dg_Domains d"
  "dg_Store (upd_heap i f d) = dg_Store d" "dg_PeerOnly (upd_heap i f d) = dg_PeerOnly d"
  "dg_peerSeen (upd_heap i f d) = dg_peerSeen d" "dg_Agents (upd_heap i f d) = dg_Agents d"
  "dg_AgentOrder (upd_heap i f d) = dg_AgentOrder d" "dg_Secrets (upd_heap i f d) = dg_Secrets d"
  "dg_seenSecret (upd_heap i f d) = dg_seenSecret d" "dg_Timeline (upd_heap i f d) = dg_Timeline d"
  "dg_open (upd_heap i f d) = dg_open d" "dg_KeepTimeline (upd_heap i f d) = dg_KeepTimeline d"
  "dg_Session (upd_heap i f d) = dg_Session d"
  by (simp_all add: upd_heap_def)

lemma upd_heap_at [simp]: "dg_heap (upd_heap i f d) = (dg_heap d)[i := f (dg_heap d ! i)]"
  by (simp add: upd_heap_def)

lemma session_frame [simp]:
  "dg_Pairs (absorb_session e d) = dg_Pairs d" "dg_Domains (absorb_session e d) = dg_Domains d"
  "dg_Store (absorb_session e d) = dg_Store d" "dg_PeerOnly (absorb_session e d) = dg_PeerOnly d"
  "dg_peerSeen (absorb_session e d) = dg_peerSeen d" "dg_Agents (absorb_session e d) = dg_Agents d"
  "dg_AgentOrder (absorb_session e d) = dg_AgentOrder d" "dg_Secrets (absorb_session e d) = dg_Secrets d"
  "dg_seenSecret (absorb_session e d) = dg_seenSecret d" "dg_heap (absorb_session e d) = dg_heap d"
  "dg_Timeline (absorb_session e d) = dg_Timeline d" "dg_open (absorb_session e d) = dg_open d"
  "dg_KeepTimeline (absorb_session e d) = dg_KeepTimeline d" "dg_Session (absorb_session e d) = dg_Session d"
  by (simp_all add: absorb_session_def)

lemma egress_frame [simp]:
  "dg_Pairs (absorb_egress e d) = dg_Pairs d" "dg_Store (absorb_egress e d) = dg_Store d"
  "dg_PeerOnly (absorb_egress e d) = dg_PeerOnly d" "dg_peerSeen (absorb_egress e d) = dg_peerSeen d"
  "dg_AgentOrder (absorb_egress e d) = dg_AgentOrder d" "dg_Secrets (absorb_egress e d) = dg_Secrets d"
  "dg_seenSecret (absorb_egress e d) = dg_seenSecret d" "dg_heap (absorb_egress e d) = dg_heap d"
  "dg_Timeline (absorb_egress e d) = dg_Timeline d" "dg_open (absorb_egress e d) = dg_open d"
  "dg_KeepTimeline (absorb_egress e d) = dg_KeepTimeline d"
  by (simp_all add: absorb_egress_def Let_def)

lemma secret_frame [simp]:
  "dg_Pairs (absorb_secret e d) = dg_Pairs d" "dg_Domains (absorb_secret e d) = dg_Domains d"
  "dg_Store (absorb_secret e d) = dg_Store d" "dg_PeerOnly (absorb_secret e d) = dg_PeerOnly d"
  "dg_peerSeen (absorb_secret e d) = dg_peerSeen d" "dg_AgentOrder (absorb_secret e d) = dg_AgentOrder d"
  "dg_heap (absorb_secret e d) = dg_heap d" "dg_Timeline (absorb_secret e d) = dg_Timeline d"
  "dg_open (absorb_secret e d) = dg_open d" "dg_KeepTimeline (absorb_secret e d) = dg_KeepTimeline d"
  by (simp_all add: absorb_secret_def Let_def)

lemma message_frame [simp]:
  "dg_Domains (absorb_message e d) = dg_Domains d" "dg_Store (absorb_message e d) = dg_Store d"
  "dg_Agents (absorb_message e d) = dg_Agents d" "dg_AgentOrder (absorb_message e d) = dg_AgentOrder d"
  "dg_Secrets (absorb_message e d) = dg_Secrets d" "dg_seenSecret (absorb_message e d) = dg_seenSecret d"
  "dg_heap (absorb_message e d) = dg_heap d" "dg_Timeline (absorb_message e d) = dg_Timeline d"
  "dg_open (absorb_message e d) = dg_open d" "dg_KeepTimeline (absorb_message e d) = dg_KeepTimeline d"
  "dg_Session (absorb_message e d) = dg_Session d"
  by (simp_all add: absorb_message_def Let_def)

lemma store_frame [simp]:
  "dg_Pairs (absorb_store e d) = dg_Pairs d" "dg_Domains (absorb_store e d) = dg_Domains d"
  "dg_PeerOnly (absorb_store e d) = dg_PeerOnly d" "dg_peerSeen (absorb_store e d) = dg_peerSeen d"
  "dg_Agents (absorb_store e d) = dg_Agents d" "dg_AgentOrder (absorb_store e d) = dg_AgentOrder d"
  "dg_Secrets (absorb_store e d) = dg_Secrets d" "dg_seenSecret (absorb_store e d) = dg_seenSecret d"
  "dg_heap (absorb_store e d) = dg_heap d" "dg_Timeline (absorb_store e d) = dg_Timeline d"
  "dg_open (absorb_store e d) = dg_open d" "dg_KeepTimeline (absorb_store e d) = dg_KeepTimeline d"
  "dg_Session (absorb_store e d) = dg_Session d"
  by (simp_all add: absorb_store_def Let_def)

lemma spawn_frame [simp]:
  "dg_Pairs (absorb_spawn e d) = dg_Pairs d" "dg_Domains (absorb_spawn e d) = dg_Domains d"
  "dg_Store (absorb_spawn e d) = dg_Store d" "dg_Agents (absorb_spawn e d) = dg_Agents d"
  "dg_AgentOrder (absorb_spawn e d) = dg_AgentOrder d" "dg_Secrets (absorb_spawn e d) = dg_Secrets d"
  "dg_seenSecret (absorb_spawn e d) = dg_seenSecret d" "dg_heap (absorb_spawn e d) = dg_heap d"
  "dg_Timeline (absorb_spawn e d) = dg_Timeline d" "dg_open (absorb_spawn e d) = dg_open d"
  "dg_KeepTimeline (absorb_spawn e d) = dg_KeepTimeline d" "dg_Session (absorb_spawn e d) = dg_Session d"
  by (simp_all add: absorb_spawn_def)

lemma receipt_frame [simp]:
  "dg_Pairs (keep_receipt e d) = dg_Pairs d" "dg_Domains (keep_receipt e d) = dg_Domains d"
  "dg_Store (keep_receipt e d) = dg_Store d" "dg_PeerOnly (keep_receipt e d) = dg_PeerOnly d"
  "dg_peerSeen (keep_receipt e d) = dg_peerSeen d" "dg_AgentOrder (keep_receipt e d) = dg_AgentOrder d"
  "dg_Secrets (keep_receipt e d) = dg_Secrets d" "dg_seenSecret (keep_receipt e d) = dg_seenSecret d"
  "dg_heap (keep_receipt e d) = dg_heap d" "dg_Timeline (keep_receipt e d) = dg_Timeline d"
  "dg_open (keep_receipt e d) = dg_open d" "dg_KeepTimeline (keep_receipt e d) = dg_KeepTimeline d"
  "dg_Session (keep_receipt e d) = dg_Session d"
  by (simp_all add: keep_receipt_def)

lemma policy_frame [simp]:
  "dg_Pairs (keep_policy e d) = dg_Pairs d" "dg_Domains (keep_policy e d) = dg_Domains d"
  "dg_Store (keep_policy e d) = dg_Store d" "dg_PeerOnly (keep_policy e d) = dg_PeerOnly d"
  "dg_peerSeen (keep_policy e d) = dg_peerSeen d" "dg_AgentOrder (keep_policy e d) = dg_AgentOrder d"
  "dg_Secrets (keep_policy e d) = dg_Secrets d" "dg_seenSecret (keep_policy e d) = dg_seenSecret d"
  "dg_heap (keep_policy e d) = dg_heap d" "dg_Timeline (keep_policy e d) = dg_Timeline d"
  "dg_open (keep_policy e d) = dg_open d" "dg_KeepTimeline (keep_policy e d) = dg_KeepTimeline d"
  "dg_Session (keep_policy e d) = dg_Session d"
  by (simp_all add: keep_policy_def)

text \<open>The switch by cases.\<close>

lemma if_prop: "(c \<Longrightarrow> P a) \<Longrightarrow> (\<not> c \<Longrightarrow> P b) \<Longrightarrow> P (if c then a else b)"
  by simp

lemma absorb_state_split:
  assumes "P (absorb_session e d)"
    and "get_str e ''type'' = ''command.start'' \<Longrightarrow> P (count (get_str e ''agent'') (\<lambda>c. c\<lparr>ct_Commands := ct_Commands c + 1\<rparr>) d)"
    and "get_str e ''type'' = ''file.write'' \<Longrightarrow> P (count (get_str e ''agent'') (\<lambda>c. c\<lparr>ct_Files := ct_Files c + 1\<rparr>) d)"
    and "get_str e ''type'' = ''egress.attempt'' \<Longrightarrow> P (absorb_egress e d)"
    and "get_str e ''type'' = ''secret.use'' \<Longrightarrow> P (absorb_secret e d)"
    and "get_str e ''type'' = ''team.message'' \<or> get_str e ''type'' = ''team.refused'' \<Longrightarrow> P (absorb_message e d)"
    and "get_str e ''type'' = ''team.store'' \<Longrightarrow> P (absorb_store e d)"
    and "get_str e ''type'' = ''team.spawn'' \<Longrightarrow> P (absorb_spawn e d)"
    and "P (d\<lparr>dg_OOMKills := dg_OOMKills d + 1\<rparr>)" and "P (d\<lparr>dg_TimedOut := get_str e ''budget''\<rparr>)"
    and "P (keep_receipt e d)" and "P (keep_policy e d)" and "P (d\<lparr>dg_Topology := Some e\<rparr>)" and "P d"
  shows "P (absorb_state e d)"
  unfolding absorb_state_def Let_def by (intro if_prop[where P = P] assms; assumption)

definition touch_all :: "('k \<Rightarrow> 'v) \<Rightarrow> ('k \<times> ('v \<Rightarrow> 'v)) list \<Rightarrow> ('k, 'v) table \<Rightarrow> ('k, 'v) table" where
  "touch_all fresh us t = fold (\<lambda>u. tableTouch fresh (fst u) (snd u)) us t"

lemma touch_all_simps [simp]:
  "touch_all fresh [] t = t" "touch_all fresh (u # us) t = touch_all fresh us (tableTouch fresh (fst u) (snd u) t)"
  "touch_all fresh (us @ ws) t = touch_all fresh ws (touch_all fresh us t)"
  by (simp_all add: touch_all_def)

lemma state_at:
  "get_str e ''type'' = ''command.start'' \<Longrightarrow> absorb_state e d = count (get_str e ''agent'') (\<lambda>c. c\<lparr>ct_Commands := ct_Commands c + 1\<rparr>) d"
  "get_str e ''type'' = ''file.write'' \<Longrightarrow> absorb_state e d = count (get_str e ''agent'') (\<lambda>c. c\<lparr>ct_Files := ct_Files c + 1\<rparr>) d"
  "get_str e ''type'' = ''egress.attempt'' \<Longrightarrow> absorb_state e d = absorb_egress e d"
  "get_str e ''type'' = ''secret.use'' \<Longrightarrow> absorb_state e d = absorb_secret e d"
  "get_str e ''type'' = ''team.message'' \<Longrightarrow> absorb_state e d = absorb_message e d"
  "get_str e ''type'' = ''team.refused'' \<Longrightarrow> absorb_state e d = absorb_message e d"
  "get_str e ''type'' = ''team.store'' \<Longrightarrow> absorb_state e d = absorb_store e d"
  by (simp_all add: absorb_state_def)

lemma state_domains: "dg_Domains (absorb_state e d) = touch_all no_domain (domain_touches [e]) (dg_Domains d)"
proof (cases "get_str e ''type'' = ''egress.attempt''")
  case True
  then show ?thesis by (simp add: state_at absorb_egress_def Let_def domain_touches_def)
next
  case False
  have "dg_Domains (absorb_state e d) = dg_Domains d"
    by (rule absorb_state_split[where P = "\<lambda>x. dg_Domains x = dg_Domains d"]) (use False in simp_all)
  then show ?thesis using False by (simp add: domain_touches_def)
qed

lemma state_pairs: "dg_Pairs (absorb_state e d) = touch_all no_pair (pair_touches [e]) (dg_Pairs d)"
proof (cases "get_str e ''type'' = ''team.message'' \<or> get_str e ''type'' = ''team.refused''")
  case True
  then show ?thesis by (auto simp: state_at absorb_message_def Let_def pair_touches_def)
next
  case False
  have "dg_Pairs (absorb_state e d) = dg_Pairs d"
    by (rule absorb_state_split[where P = "\<lambda>x. dg_Pairs x = dg_Pairs d"]) (use False in simp_all)
  then show ?thesis using False by (simp add: pair_touches_def)
qed

lemma state_store: "dg_Store (absorb_state e d) = touch_all no_store_row (store_touches [e]) (dg_Store d)"
proof (cases "get_str e ''type'' = ''team.store''")
  case True
  then show ?thesis by (simp add: state_at absorb_store_def Let_def store_touches_def)
next
  case False
  have "dg_Store (absorb_state e d) = dg_Store d"
    by (rule absorb_state_split[where P = "\<lambda>x. dg_Store x = dg_Store d"]) (use False in simp_all)
  then show ?thesis using False by (simp add: store_touches_def)
qed

text \<open>The three ways of an event: the heap, the timeline and the open commands apart, it does to
  the aggregate what the second switch does, or counts a failure, or nothing.\<close>

definition seen_agent :: "event \<Rightarrow> digest \<Rightarrow> digest" where
  "seen_agent e d =
     (let d1 = d\<lparr>dg_Events := dg_Events d + 1\<rparr> in if get_str e ''agent'' \<noteq> [] then find_agent (get_str e ''agent'') d1 else d1)"

definition is_output :: "event \<Rightarrow> bool" where "is_output e \<longleftrightarrow> get_str e ''type'' = ''command.output''"
definition is_exit :: "event \<Rightarrow> bool" where "is_exit e \<longleftrightarrow> get_str e ''type'' = ''command.exit''"

lemma absorb_cases:
  "fst (absorb e d) =
     (if is_output e then fst (absorbOutput e (seen_agent e d)) else if is_exit e then fst (absorbExit e (seen_agent e d))
      else fst (absorb_entry e (seen_agent e d)))"
  by (simp add: absorb_def seen_agent_def is_output_def is_exit_def Let_def)

lemma output_frame [simp]:
  "dg_Pairs (fst (absorbOutput e d)) = dg_Pairs d" "dg_Domains (fst (absorbOutput e d)) = dg_Domains d"
  "dg_Store (fst (absorbOutput e d)) = dg_Store d" "dg_PeerOnly (fst (absorbOutput e d)) = dg_PeerOnly d"
  "dg_peerSeen (fst (absorbOutput e d)) = dg_peerSeen d" "dg_Agents (fst (absorbOutput e d)) = dg_Agents d"
  "dg_AgentOrder (fst (absorbOutput e d)) = dg_AgentOrder d" "dg_Secrets (fst (absorbOutput e d)) = dg_Secrets d"
  "dg_seenSecret (fst (absorbOutput e d)) = dg_seenSecret d" "dg_Timeline (fst (absorbOutput e d)) = dg_Timeline d"
  "dg_open (fst (absorbOutput e d)) = dg_open d" "dg_KeepTimeline (fst (absorbOutput e d)) = dg_KeepTimeline d"
  "dg_Session (fst (absorbOutput e d)) = dg_Session d"
  by (simp_all add: absorbOutput_def Let_def split: option.splits)

lemma exit_frame [simp]:
  "dg_Pairs (fst (absorbExit e d)) = dg_Pairs d" "dg_Domains (fst (absorbExit e d)) = dg_Domains d"
  "dg_Store (fst (absorbExit e d)) = dg_Store d" "dg_PeerOnly (fst (absorbExit e d)) = dg_PeerOnly d"
  "dg_peerSeen (fst (absorbExit e d)) = dg_peerSeen d" "dg_AgentOrder (fst (absorbExit e d)) = dg_AgentOrder d"
  "dg_Secrets (fst (absorbExit e d)) = dg_Secrets d" "dg_seenSecret (fst (absorbExit e d)) = dg_seenSecret d"
  "dg_Timeline (fst (absorbExit e d)) = dg_Timeline d" "dg_KeepTimeline (fst (absorbExit e d)) = dg_KeepTimeline d"
  by (simp_all add: absorbExit_def Let_def split: option.splits)

lemma entry_frame [simp]:
  "dg_Pairs (fst (absorb_entry e d)) = dg_Pairs (absorb_state e d)"
  "dg_Domains (fst (absorb_entry e d)) = dg_Domains (absorb_state e d)"
  "dg_Store (fst (absorb_entry e d)) = dg_Store (absorb_state e d)"
  "dg_PeerOnly (fst (absorb_entry e d)) = dg_PeerOnly (absorb_state e d)"
  "dg_peerSeen (fst (absorb_entry e d)) = dg_peerSeen (absorb_state e d)"
  "dg_Agents (fst (absorb_entry e d)) = dg_Agents (absorb_state e d)"
  "dg_AgentOrder (fst (absorb_entry e d)) = dg_AgentOrder (absorb_state e d)"
  "dg_Secrets (fst (absorb_entry e d)) = dg_Secrets (absorb_state e d)"
  "dg_seenSecret (fst (absorb_entry e d)) = dg_seenSecret (absorb_state e d)"
  "dg_KeepTimeline (fst (absorb_entry e d)) = dg_KeepTimeline (absorb_state e d)"
  "dg_Session (fst (absorb_entry e d)) = dg_Session (absorb_state e d)"
  by (simp_all add: absorb_entry_def Let_def)

lemma seen_agent_frame [simp]:
  "dg_Pairs (seen_agent e d) = dg_Pairs d" "dg_Domains (seen_agent e d) = dg_Domains d" "dg_Store (seen_agent e d) = dg_Store d"
  "dg_Secrets (seen_agent e d) = dg_Secrets d" "dg_seenSecret (seen_agent e d) = dg_seenSecret d"
  "dg_heap (seen_agent e d) = dg_heap d" "dg_Timeline (seen_agent e d) = dg_Timeline d" "dg_open (seen_agent e d) = dg_open d"
  "dg_KeepTimeline (seen_agent e d) = dg_KeepTimeline d" "dg_Session (seen_agent e d) = dg_Session d"
  by (simp_all add: seen_agent_def Let_def)

lemma no_touches [simp]:
  "is_output e \<Longrightarrow> domain_touches [e] = []" "is_output e \<Longrightarrow> pair_touches [e] = []" "is_output e \<Longrightarrow> store_touches [e] = []"
  "is_exit e \<Longrightarrow> domain_touches [e] = []" "is_exit e \<Longrightarrow> pair_touches [e] = []" "is_exit e \<Longrightarrow> store_touches [e] = []"
  by (simp_all add: is_output_def is_exit_def domain_touches_def pair_touches_def store_touches_def)

lemma absorb_domains: "dg_Domains (fst (absorb e d)) = touch_all no_domain (domain_touches [e]) (dg_Domains d)"
  by (simp add: absorb_cases state_domains)

lemma absorb_pairs: "dg_Pairs (fst (absorb e d)) = touch_all no_pair (pair_touches [e]) (dg_Pairs d)"
  by (simp add: absorb_cases state_pairs)

lemma absorb_store_table: "dg_Store (fst (absorb e d)) = touch_all no_store_row (store_touches [e]) (dg_Store d)"
  by (simp add: absorb_cases state_store)

lemmas absorb_tables = absorb_domains absorb_pairs absorb_store_table

lemma absorb_all_snoc: "absorb_all (es @ [e]) d = fst (absorb e (absorb_all es d))"
  by (simp add: absorb_all_def)

lemma touch_all_ok: "table_ok (touch_all fresh us no_table) \<and> table_says fresh us (touch_all fresh us no_table)"
proof (induction us rule: rev_induct)
  case Nil
  then show ?case by (simp add: no_table_ok no_table_says)
next
  case (snoc u us)
  have "table_ok (tableTouch fresh (fst u) (snd u) (touch_all fresh us no_table))" by (rule touch_ok[OF conjunct1[OF snoc]])
  moreover have "table_says fresh (us @ [(fst u, snd u)]) (tableTouch fresh (fst u) (snd u) (touch_all fresh us no_table))"
    by (rule touch_says[OF conjunct1[OF snoc] conjunct2[OF snoc]])
  ultimately show ?case by simp
qed

lemma walk_tables:
  "dg_Domains (digestWalk es) = touch_all no_domain (domain_touches es) no_table \<and>
   dg_Pairs (digestWalk es) = touch_all no_pair (pair_touches es) no_table \<and>
   dg_Store (digestWalk es) = touch_all no_store_row (store_touches es) no_table"
proof (induction es rule: rev_induct)
  case Nil
  then show ?case
    by (simp add: digestWalk_def absorb_all_def newDigest_def emptyDigest_def domain_touches_def pair_touches_def store_touches_def)
next
  case (snoc e es)
  have "domain_touches (es @ [e]) = domain_touches es @ domain_touches [e]" "pair_touches (es @ [e]) = pair_touches es @ pair_touches [e]"
    "store_touches (es @ [e]) = store_touches es @ store_touches [e]"
    by (simp_all add: domain_touches_def pair_touches_def store_touches_def)
  then show ?case using snoc absorb_tables by (simp add: digestWalk_def absorb_all_snoc)
qed

lemma walk_ok: "table_ok (dg_Domains (digestWalk es))" "table_ok (dg_Pairs (digestWalk es))" "table_ok (dg_Store (digestWalk es))"
  by (simp_all add: walk_tables touch_all_ok)

lemma walk_says:
  "table_says no_domain (domain_touches es) (dg_Domains (digestWalk es))" "table_says no_pair (pair_touches es) (dg_Pairs (digestWalk es))"
  "table_says no_store_row (store_touches es) (dg_Store (digestWalk es))"
  by (simp_all add: walk_tables touch_all_ok)

section \<open>Rows in numbers\<close>

definition tally :: "('a \<Rightarrow> bool) \<Rightarrow> 'a list \<Rightarrow> int" where
  "tally p xs = int (length (filter p xs))"

definition amount :: "('a \<Rightarrow> bool) \<Rightarrow> ('a \<Rightarrow> int) \<Rightarrow> 'a list \<Rightarrow> int" where
  "amount p w xs = go_int (sum_list (map w (filter p xs)))"

lemma tally_simps [simp]:
  "tally p [] = 0" "tally p (xs @ [x]) = (if p x then tally p xs + 1 else tally p xs)"
  by (simp_all add: tally_def)

lemma go_int_zero [simp]: "go_int 0 = 0"
  by (simp add: go_int_def)

lemma amount_simps [simp]:
  "amount p w [] = 0" "amount p w (xs @ [x]) = (if p x then go_int (amount p w xs + w x) else amount p w xs)"
  by (simp_all add: amount_def go_int_add)

definition attempt_on :: "string \<Rightarrow> event \<Rightarrow> bool" where
  "attempt_on h e \<longleftrightarrow> get_str e ''type'' = ''egress.attempt'' \<and> get_str e ''reason'' \<noteq> ''foreign_peer'' \<and> get_str e ''host'' = h"

lemma domain_row:
  assumes "h \<noteq> []"
  shows "row_of no_domain (domain_touches es) h =
     \<lparr>dm_Host = h,
      dm_Allowed = tally (\<lambda>e. attempt_on h e \<and> egress_allowed e) es,
      dm_Blocked = tally (\<lambda>e. attempt_on h e \<and> \<not> egress_allowed e) es,
      dm_Terminated = tally (\<lambda>e. attempt_on h e \<and> egress_allowed e \<and> get_str e ''mode'' = ''terminated'') es,
      dm_BytesIn = amount (attempt_on h) (\<lambda>e. get_int e ''bytes_in'') es,
      dm_BytesOut = amount (attempt_on h) (\<lambda>e. get_int e ''bytes_out'') es\<rparr>"
proof (induction es rule: rev_induct)
  case Nil
  then show ?case by (simp add: domain_touches_def row_of_def no_domain_def)
next
  case (snoc e es)
  show ?case
  proof (cases "attempt_on h e")
    case True
    then have "domain_touches (es @ [e]) = domain_touches es @ [(h, domain_upd e)]"
      using assms by (simp add: domain_touches_def attempt_on_def)
    then show ?thesis using snoc True by (simp add: row_of_snoc domain_upd_def Let_def)
  next
    case False
    then have "row_of no_domain (domain_touches (es @ [e])) h = row_of no_domain (domain_touches es) h"
      by (auto simp: domain_touches_def attempt_on_def row_of_snoc)
    then show ?thesis using snoc False by simp
  qed
qed

definition message_of :: "string \<times> string \<Rightarrow> event \<Rightarrow> bool" where
  "message_of p e \<longleftrightarrow> get_str e ''type'' = ''team.message'' \<and> (get_str e ''agent'', get_str e ''peer'') = p"

definition refusal_of :: "string \<times> string \<Rightarrow> event \<Rightarrow> bool" where
  "refusal_of p e \<longleftrightarrow> get_str e ''type'' = ''team.refused'' \<and> (get_str e ''agent'', get_str e ''peer'') = p"

lemma pair_row:
  "row_of no_pair (pair_touches es) p =
     \<lparr>pc_Messages = tally (message_of p) es, pc_Refused = tally (refusal_of p) es,
      pc_Bytes = amount (message_of p) (\<lambda>e. get_int e ''bytes'') es\<rparr>"
proof (induction es rule: rev_induct)
  case Nil
  then show ?case by (simp add: pair_touches_def row_of_def no_pair_def)
next
  case (snoc e es)
  show ?case
  proof (cases "message_of p e \<or> refusal_of p e")
    case True
    then have "pair_touches (es @ [e]) = pair_touches es @ [(p, pair_upd e)]"
      by (auto simp: pair_touches_def message_of_def refusal_of_def)
    then show ?thesis using snoc True by (auto simp: row_of_snoc pair_upd_def message_of_def refusal_of_def)
  next
    case False
    then have "row_of no_pair (pair_touches (es @ [e])) p = row_of no_pair (pair_touches es) p"
      by (auto simp: pair_touches_def message_of_def refusal_of_def row_of_snoc)
    then show ?thesis using snoc False by simp
  qed
qed

definition access_of :: "string \<Rightarrow> event \<Rightarrow> bool" where
  "access_of k e \<longleftrightarrow> get_str e ''type'' = ''team.store'' \<and> get_str e ''peer'' = k"

lemma store_row:
  "row_of no_store_row (store_touches es) k =
     \<lparr>sk_Key = k, sk_Gets = tally (\<lambda>e. access_of k e \<and> get_str e ''kind'' = ''get'') es,
      sk_Puts = tally (\<lambda>e. access_of k e \<and> get_str e ''kind'' = ''put'') es,
      sk_Deletes = tally (\<lambda>e. access_of k e \<and> get_str e ''kind'' = ''delete'') es,
      sk_Denied = tally (\<lambda>e. access_of k e \<and> get_str e ''outcome'' \<noteq> ''delivered'') es,
      sk_Bytes = amount (\<lambda>e. access_of k e \<and> get_str e ''outcome'' = ''delivered'') (\<lambda>e. get_int e ''bytes'') es\<rparr>"
proof (induction es rule: rev_induct)
  case Nil
  then show ?case by (simp add: store_touches_def row_of_def no_store_row_def)
next
  case (snoc e es)
  show ?case
  proof (cases "access_of k e")
    case True
    then have "store_touches (es @ [e]) = store_touches es @ [(k, store_upd e)]"
      by (auto simp: store_touches_def access_of_def)
    then show ?thesis using snoc True by (simp add: row_of_snoc store_upd_def Let_def)
  next
    case False
    then have "row_of no_store_row (store_touches (es @ [e])) k = row_of no_store_row (store_touches es) k"
      by (auto simp: store_touches_def access_of_def row_of_snoc)
    then show ?thesis using snoc False by simp
  qed
qed

end
