(* ===== verification/Digest_Agents.thy ===== *)
theory Digest_Agents
  imports Digest_Inv
begin

text \<open>
  The agents, the peers that are no agents and the secrets of a digest: one of each name, in the
  order first seen, the last two within the bound.
\<close>

section \<open>Agents and peers\<close>

definition agents_ok :: "digest \<Rightarrow> bool" where
  "agents_ok d \<longleftrightarrow> m_ok (dg_Agents d) \<and> dg_AgentOrder d = m_keys (dg_Agents d)"

definition peers_ok :: "digest \<Rightarrow> bool" where
  "peers_ok d \<longleftrightarrow> distinct (dg_PeerOnly d) \<and> set (dg_PeerOnly d) = dg_peerSeen d \<and> [] \<notin> dg_peerSeen d \<and>
     dg_peerSeen d \<inter> dom (m_get (dg_Agents d)) = {} \<and> length (dg_PeerOnly d) \<le> MaxDistinctKeys"

definition secrets_ok :: "digest \<Rightarrow> bool" where
  "secrets_ok d \<longleftrightarrow> distinct (dg_Secrets d) \<and> dg_seenSecret d = (\<lambda>(n, h). n @ ''@'' @ h) ` set (dg_Secrets d) \<and>
     length (dg_Secrets d) \<le> MaxDistinctKeys"

lemma upd_agent_keys [simp]: "m_keys (dg_Agents (upd_agent n f d)) = m_keys (dg_Agents d)"
  by (simp add: upd_agent_def m_keys_put split: option.splits)

lemma upd_agent_dom [simp]: "dom (m_get (dg_Agents (upd_agent n f d))) = dom (m_get (dg_Agents d))"
  by (metis gm.set_keys upd_agent_keys)

lemma count_keys [simp]:
  "m_keys (dg_Agents (count n f d)) = m_keys (dg_Agents d)" "dom (m_get (dg_Agents (count n f d))) = dom (m_get (dg_Agents d))"
  by (simp_all add: count_def)

lemma handler_keys [simp]:
  "m_keys (dg_Agents (absorb_egress e d)) = m_keys (dg_Agents d)" "m_keys (dg_Agents (absorb_secret e d)) = m_keys (dg_Agents d)"
  "m_keys (dg_Agents (keep_receipt e d)) = m_keys (dg_Agents d)" "m_keys (dg_Agents (keep_policy e d)) = m_keys (dg_Agents d)"
  by (simp_all add: absorb_egress_def absorb_secret_def keep_receipt_def keep_policy_def Let_def)

lemma state_keys [simp]: "m_keys (dg_Agents (absorb_state e d)) = m_keys (dg_Agents d)"
  by (rule absorb_state_split[where P = "\<lambda>x. m_keys (dg_Agents x) = m_keys (dg_Agents d)"]) simp_all

lemma state_order [simp]: "dg_AgentOrder (absorb_state e d) = dg_AgentOrder d"
  by (rule absorb_state_split[where P = "\<lambda>x. dg_AgentOrder x = dg_AgentOrder d"]) simp_all

lemma exit_keys [simp]: "m_keys (dg_Agents (fst (absorbExit e d))) = m_keys (dg_Agents d)"
  by (simp add: absorbExit_def Let_def split: option.splits)

lemma absorb_keys: "m_keys (dg_Agents (fst (absorb e d))) = m_keys (dg_Agents (seen_agent e d))"
  by (simp add: absorb_cases)

lemma absorb_order: "dg_AgentOrder (fst (absorb e d)) = dg_AgentOrder (seen_agent e d)"
  by (simp add: absorb_cases)

lemma m_ok_keys: "m_ok m \<longleftrightarrow> distinct (m_keys m)"
  by (simp add: m_ok_def m_keys_def)

lemma key_in: "k \<in> set (m_keys m) \<longleftrightarrow> m_get m k \<noteq> None"
  by (simp add: domIff)

lemma seen_keys:
  "m_keys (dg_Agents (seen_agent e d)) =
     (if get_str e ''agent'' = [] \<or> get_str e ''agent'' \<in> set (m_keys (dg_Agents d)) then m_keys (dg_Agents d)
      else m_keys (dg_Agents d) @ [get_str e ''agent''])"
  unfolding key_in by (simp add: seen_agent_def find_agent_def Let_def m_keys_put)

lemma seen_order:
  "dg_AgentOrder (seen_agent e d) =
     (if get_str e ''agent'' = [] \<or> get_str e ''agent'' \<in> set (m_keys (dg_Agents d)) then dg_AgentOrder d
      else dg_AgentOrder d @ [get_str e ''agent''])"
  unfolding key_in by (simp add: seen_agent_def find_agent_def Let_def)

lemma seen_agents_ok: "agents_ok d \<Longrightarrow> agents_ok (seen_agent e d)"
  unfolding agents_ok_def m_ok_keys seen_keys seen_order by simp

lemma absorb_agents_ok: "agents_ok d \<Longrightarrow> agents_ok (fst (absorb e d))"
  using seen_agents_ok[of d e] unfolding agents_ok_def m_ok_keys absorb_keys absorb_order by simp

text \<open>The agents are the names that stand in the events, in the order they first do.\<close>

definition named :: "event list \<Rightarrow> string set" where
  "named es = (\<lambda>e. get_str e ''agent'') ` set es - {[]}"

lemma walk_snoc: "digestWalk (es @ [e]) = fst (absorb e (digestWalk es))"
  by (simp add: digestWalk_def absorb_all_snoc)

lemma walk_Nil: "digestWalk [] = emptyDigest True"
  by (simp add: digestWalk_def absorb_all_def newDigest_def)

lemma walk_agents: "agents_ok (digestWalk es) \<and> set (m_keys (dg_Agents (digestWalk es))) = named es"
proof (induction es rule: rev_induct)
  case Nil
  then show ?case by (simp add: walk_Nil emptyDigest_def agents_ok_def m_keys_def named_def)
next
  case (snoc e es)
  have "named (es @ [e]) = (if get_str e ''agent'' = [] then named es else insert (get_str e ''agent'') (named es))"
    by (auto simp: named_def)
  then show ?case using snoc absorb_agents_ok unfolding walk_snoc absorb_keys seen_keys by auto
qed

section \<open>Peers and secrets\<close>

lemma peers_cong:
  assumes "dg_PeerOnly d' = dg_PeerOnly d" and "dg_peerSeen d' = dg_peerSeen d" and "m_keys (dg_Agents d') = m_keys (dg_Agents d)"
  shows "peers_ok d' = peers_ok d"
  using assms gm.set_keys[of "dg_Agents d'"] gm.set_keys[of "dg_Agents d"] by (simp add: peers_ok_def)

lemma find_agent_peers: "peers_ok d \<Longrightarrow> peers_ok (find_agent n d)"
proof -
  assume p: "peers_ok d"
  have "set (remove1 n (dg_PeerOnly d)) = dg_peerSeen d - {n}" using p by (simp add: peers_ok_def set_remove1_eq)
  moreover have "dg_peerSeen (find_agent n d) = dg_peerSeen d - {n}" if "m_get (dg_Agents d) n = None"
    using that p by (auto simp: find_agent_def peers_ok_def)
  moreover have "length (remove1 n (dg_PeerOnly d)) \<le> MaxDistinctKeys" using p by (auto simp: peers_ok_def length_remove1)
  ultimately show ?thesis
    using p by (cases "m_get (dg_Agents d) n") (auto simp: find_agent_def peers_ok_def gm.get_put_fun)
qed

lemma peers_add: "peers_ok d \<Longrightarrow> peers_ok (dig_peer n d)"
  by (auto simp: dig_peer_def peers_ok_def)

lemma state_peers: "peers_ok d \<Longrightarrow> peers_ok (absorb_state e d)"
proof (rule absorb_state_split[where P = peers_ok])
  assume p: "peers_ok d"
  note same = peers_cong[THEN iffD2, OF _ _ _ p]
  show "peers_ok (absorb_session e d)" "peers_ok (absorb_egress e d)" "peers_ok (absorb_secret e d)" "peers_ok (absorb_store e d)"
    "peers_ok (keep_receipt e d)" "peers_ok (keep_policy e d)" "peers_ok d"
    "peers_ok (d\<lparr>dg_OOMKills := dg_OOMKills d + 1\<rparr>)" "peers_ok (d\<lparr>dg_TimedOut := get_str e ''budget''\<rparr>)" "peers_ok (d\<lparr>dg_Topology := Some e\<rparr>)"
    "peers_ok (count (get_str e ''agent'') (\<lambda>c. c\<lparr>ct_Commands := ct_Commands c + 1\<rparr>) d)"
    "peers_ok (count (get_str e ''agent'') (\<lambda>c. c\<lparr>ct_Files := ct_Files c + 1\<rparr>) d)"
    by (rule same; simp)+
  let ?d1 = "if get_str e ''type'' = ''team.refused'' then d\<lparr>dg_MessagesRefused := dg_MessagesRefused d + 1\<rparr>
      else d\<lparr>dg_Messages := dg_Messages d + 1\<rparr>"
  have "peers_ok ?d1" using p by (simp add: peers_ok_def)
  then have "peers_ok (dig_peer (get_str e ''peer'') ?d1)" by (rule peers_add)
  moreover have "dg_PeerOnly (absorb_message e d) = dg_PeerOnly (dig_peer (get_str e ''peer'') ?d1)"
    "dg_peerSeen (absorb_message e d) = dg_peerSeen (dig_peer (get_str e ''peer'') ?d1)"
    unfolding absorb_message_def Let_def by simp_all
  moreover have "dg_Agents (absorb_message e d) = dg_Agents (dig_peer (get_str e ''peer'') ?d1)" by simp
  ultimately show "peers_ok (absorb_message e d)" by (simp only: peers_ok_def simp_thms)
  have "peers_ok (if c then d\<lparr>dg_SpawnRefused := x\<rparr> else d)" for c x using p by (simp add: peers_ok_def)
  then show "peers_ok (absorb_spawn e d)" unfolding absorb_spawn_def by (rule peers_add)
qed

lemma absorb_peers: "peers_ok d \<Longrightarrow> peers_ok (fst (absorb e d))"
proof -
  assume "peers_ok d"
  then have "peers_ok (d\<lparr>dg_Events := dg_Events d + 1\<rparr>)" by (simp add: peers_ok_def)
  then have s: "peers_ok (seen_agent e d)" using find_agent_peers by (simp add: seen_agent_def Let_def)
  have "peers_ok (fst (absorbOutput e (seen_agent e d)))" "peers_ok (fst (absorbExit e (seen_agent e d)))"
    by (rule peers_cong[THEN iffD2, OF _ _ _ s]; simp)+
  moreover have "peers_ok (fst (absorb_entry e (seen_agent e d)))"
    by (rule peers_cong[THEN iffD2, OF _ _ _ state_peers[OF s]]) simp_all
  ultimately show ?thesis by (simp add: absorb_cases)
qed

lemma secrets_cong:
  "dg_Secrets d' = dg_Secrets d \<Longrightarrow> dg_seenSecret d' = dg_seenSecret d \<Longrightarrow> secrets_ok d' = secrets_ok d"
  by (simp add: secrets_ok_def)

lemma absorb_secret_ok: "secrets_ok d \<Longrightarrow> secrets_ok (absorb_secret e d)"
proof -
  assume s: "secrets_ok d"
  let ?n = "get_str e ''name''" and ?h = "get_str e ''host''"
  have "(?n, ?h) \<notin> set (dg_Secrets d)" if "?n @ ''@'' @ ?h \<notin> dg_seenSecret d" using that s by (force simp: secrets_ok_def)
  then show ?thesis using s by (auto simp: absorb_secret_def Let_def secrets_ok_def)
qed

lemma state_secrets: "secrets_ok d \<Longrightarrow> secrets_ok (absorb_state e d)"
proof (cases "get_str e ''type'' = ''secret.use''")
  case True
  then show "secrets_ok d \<Longrightarrow> ?thesis" using absorb_secret_ok by (simp add: state_at)
next
  case False
  have "dg_Secrets (absorb_state e d) = dg_Secrets d"
    by (rule absorb_state_split[where P = "\<lambda>x. dg_Secrets x = dg_Secrets d"]) (use False in simp_all)
  moreover have "dg_seenSecret (absorb_state e d) = dg_seenSecret d"
    by (rule absorb_state_split[where P = "\<lambda>x. dg_seenSecret x = dg_seenSecret d"]) (use False in simp_all)
  ultimately show "secrets_ok d \<Longrightarrow> ?thesis" using secrets_cong by blast
qed

lemma absorb_secrets: "secrets_ok d \<Longrightarrow> secrets_ok (fst (absorb e d))"
proof -
  assume "secrets_ok d"
  then have s: "secrets_ok (seen_agent e d)" by (simp add: secrets_ok_def)
  have "secrets_ok (fst (absorbOutput e (seen_agent e d)))" "secrets_ok (fst (absorbExit e (seen_agent e d)))"
    using s by (simp_all add: secrets_ok_def)
  moreover have "secrets_ok (fst (absorb_entry e (seen_agent e d)))" using state_secrets[OF s] by (simp add: secrets_ok_def)
  ultimately show ?thesis by (simp add: absorb_cases)
qed

lemma walk_peers: "peers_ok (digestWalk es) \<and> secrets_ok (digestWalk es)"
proof (induction es rule: rev_induct)
  case Nil
  then show ?case by (simp add: walk_Nil emptyDigest_def peers_ok_def secrets_ok_def)
next
  case (snoc e es)
  then show ?case by (simp add: walk_snoc absorb_peers absorb_secrets)
qed

end
