(* ===== verification/Digest_Fold.thy ===== *)
theory Digest_Fold
  imports Digest_Agents
begin

text \<open>
  The counters of a digest are a count of the events whoever they name, and its timeline is what
  each command turns out to be when its output and its exit are looked up further on.
\<close>

section \<open>Counters\<close>

lemma add_assoc: "counters_add (counters_add a b) c = counters_add a (counters_add b c)"
  by (simp add: counters_add_def)

lemma add_comm: "counters_add a b = counters_add b a"
  by (simp add: counters_add_def)

lemma add_none [simp]: "counters_add a no_counters = a" "counters_add no_counters a = a"
  by (simp_all add: counters_add_def no_counters_def)

lemma add_left_comm: "counters_add a (counters_add b c) = counters_add b (counters_add a c)"
  by (simp add: counters_add_def)

lemmas add_ac = add_assoc add_comm add_left_comm

definition agents_sum :: "(string, dagent) gmap \<Rightarrow> counters" where
  "agents_sum m = foldr (\<lambda>(n, a). counters_add (da_Counters a)) m no_counters"

lemma fold_sum: "fold (\<lambda>(n, a) t. counters_add t (da_Counters a)) m c = counters_add c (agents_sum m)"
  by (induction m arbitrary: c) (auto simp: agents_sum_def add_ac)

lemma totals_sum: "totals d = counters_add (dg_Session d) (agents_sum (dg_Agents d))"
  by (simp add: totals_def fold_sum)

lemma agents_sum_put:
  "m_get m k = Some a \<Longrightarrow> da_Counters b = counters_add (da_Counters a) x \<Longrightarrow>
     agents_sum (m_put k b m) = counters_add (agents_sum m) x"
proof (induction m)
  case (Cons p m)
  then show ?case by (cases p) (auto simp: m_get_def m_put_def agents_sum_def add_ac split: if_splits)
qed (simp add: m_get_def)

lemma agents_sum_new:
  "m_get m k = None \<Longrightarrow> da_Counters b = no_counters \<Longrightarrow> agents_sum (m_put k b m) = agents_sum m"
proof (induction m)
  case (Cons p m)
  then show ?case by (cases p) (auto simp: m_get_def m_put_def agents_sum_def split: if_splits)
qed (simp add: m_put_def agents_sum_def)

definition one_command :: counters where "one_command = no_counters\<lparr>ct_Commands := 1\<rparr>"
definition one_failed :: counters where "one_failed = no_counters\<lparr>ct_Failed := 1\<rparr>"
definition one_file :: counters where "one_file = no_counters\<lparr>ct_Files := 1\<rparr>"
definition one_ok :: counters where "one_ok = no_counters\<lparr>ct_EgressOK := 1\<rparr>"
definition one_blocked :: counters where "one_blocked = no_counters\<lparr>ct_EgressBlocked := 1\<rparr>"
definition one_secret :: counters where "one_secret = no_counters\<lparr>ct_Secrets := 1\<rparr>"

lemmas ones = one_command_def one_failed_def one_file_def one_ok_def one_blocked_def one_secret_def

lemma add_ones:
  "c\<lparr>ct_Commands := ct_Commands c + 1\<rparr> = counters_add c one_command" "c\<lparr>ct_Failed := ct_Failed c + 1\<rparr> = counters_add c one_failed"
  "c\<lparr>ct_Files := ct_Files c + 1\<rparr> = counters_add c one_file" "c\<lparr>ct_EgressOK := ct_EgressOK c + 1\<rparr> = counters_add c one_ok"
  "c\<lparr>ct_EgressBlocked := ct_EgressBlocked c + 1\<rparr> = counters_add c one_blocked" "c\<lparr>ct_Secrets := ct_Secrets c + 1\<rparr> = counters_add c one_secret"
  by (simp_all add: ones no_counters_def counters_add_def)

text \<open>What one event adds.\<close>

definition exit_failed :: "event \<Rightarrow> bool" where
  "exit_failed e \<longleftrightarrow> get_intp e ''code'' \<noteq> Some 0"

definition adds :: "event \<Rightarrow> counters" where
  "adds e =
     (let t = get_str e ''type'' in
      if t = ''command.exit'' then (if exit_failed e then one_failed else no_counters)
      else if t = ''command.start'' then one_command
      else if t = ''file.write'' then one_file
      else if t = ''egress.attempt'' \<and> get_str e ''reason'' \<noteq> ''foreign_peer''
      then (if egress_allowed e then one_ok else one_blocked)
      else if t = ''secret.use'' then one_secret else no_counters)"

lemma totals_cong: "dg_Session d' = dg_Session d \<Longrightarrow> dg_Agents d' = dg_Agents d \<Longrightarrow> totals d' = totals d"
  by (simp add: totals_sum)

lemma totals_count:
  assumes "\<And>c. f c = counters_add c x" and "ag = [] \<or> m_get (dg_Agents d) ag \<noteq> None"
  shows "totals (count ag f d) = counters_add (totals d) x"
proof (cases "ag = []")
  case True
  then show ?thesis by (simp add: count_def totals_sum assms(1) add_ac)
next
  case False
  then obtain a where a: "m_get (dg_Agents d) ag = Some a" using assms(2) by auto
  let ?b = "a\<lparr>da_Counters := f (da_Counters a)\<rparr>"
  have "agents_sum (m_put ag ?b (dg_Agents d)) = counters_add (agents_sum (dg_Agents d)) x"
    by (rule agents_sum_put[OF a]) (simp add: assms(1))
  then show ?thesis using False a by (simp add: count_def totals_sum upd_agent_def add_ac)
qed

lemma totals_upd:
  assumes "\<And>a. da_Counters (f a) = da_Counters a"
  shows "totals (upd_agent n f d) = totals d"
proof (cases "m_get (dg_Agents d) n")
  case (Some a)
  have "agents_sum (m_put n (f a) (dg_Agents d)) = counters_add (agents_sum (dg_Agents d)) no_counters"
    by (rule agents_sum_put[OF Some]) (simp add: assms)
  then show ?thesis using Some by (simp add: upd_agent_def totals_sum)
qed (simp add: upd_agent_def)

lemma totals_seen: "totals (seen_agent e d) = totals d"
  using agents_sum_new[of "dg_Agents d" "get_str e ''agent''"]
  by (simp add: seen_agent_def Let_def find_agent_def totals_sum)

lemma agent_there: "get_str e ''agent'' = [] \<or> m_get (dg_Agents (seen_agent e d)) (get_str e ''agent'') \<noteq> None"
  using seen_keys[of e d] unfolding key_in[symmetric] by auto

lemma totals_egress:
  assumes "get_str e ''agent'' = [] \<or> m_get (dg_Agents d) (get_str e ''agent'') \<noteq> None"
  shows "totals (absorb_egress e d) = counters_add (totals d)
     (if get_str e ''reason'' = ''foreign_peer'' then no_counters else if egress_allowed e then one_ok else one_blocked)"
proof (cases "get_str e ''reason'' = ''foreign_peer''")
  case True
  then show ?thesis by (simp add: absorb_egress_def totals_sum)
next
  case False
  let ?f = "\<lambda>c. if egress_allowed e then c\<lparr>ct_EgressOK := ct_EgressOK c + 1\<rparr> else c\<lparr>ct_EgressBlocked := ct_EgressBlocked c + 1\<rparr>"
  have "totals (absorb_egress e d) = totals (count (get_str e ''agent'') ?f d)"
    using False by (intro totals_cong) (simp_all add: absorb_egress_def Let_def)
  also have "\<dots> = counters_add (totals d) (if egress_allowed e then one_ok else one_blocked)"
    by (rule totals_count[OF _ assms]) (simp add: add_ones)
  finally show ?thesis using False by simp
qed

lemma totals_secret:
  assumes "get_str e ''agent'' = [] \<or> m_get (dg_Agents d) (get_str e ''agent'') \<noteq> None"
  shows "totals (absorb_secret e d) = counters_add (totals d) one_secret"
proof -
  have "totals (absorb_secret e d) = totals (count (get_str e ''agent'') (\<lambda>c. c\<lparr>ct_Secrets := ct_Secrets c + 1\<rparr>) d)"
    by (intro totals_cong) (simp_all add: absorb_secret_def Let_def)
  also have "\<dots> = counters_add (totals d) one_secret" by (rule totals_count[OF _ assms]) (simp add: add_ones)
  finally show ?thesis .
qed

lemma totals_state:
  assumes "get_str e ''agent'' = [] \<or> m_get (dg_Agents d) (get_str e ''agent'') \<noteq> None" and "\<not> is_exit e"
  shows "totals (absorb_state e d) = counters_add (totals d) (adds e)"
proof -
  let ?t = "get_str e ''type''"
  consider "?t = ''command.start''" | "?t = ''file.write''" | "?t = ''egress.attempt''" | "?t = ''secret.use''"
    | (none) "?t \<noteq> ''command.start''" "?t \<noteq> ''file.write''" "?t \<noteq> ''egress.attempt''" "?t \<noteq> ''secret.use''" by blast
  then show ?thesis
  proof cases
    case none
    have "totals (absorb_state e d) = totals d"
      by (rule absorb_state_split[where P = "\<lambda>x. totals x = totals d"])
        (use none in \<open>auto simp: keep_receipt_def keep_policy_def totals_upd intro: totals_cong\<close>)
    then show ?thesis using none assms(2) by (simp add: adds_def is_exit_def)
  qed (use assms in \<open>simp_all add: state_at adds_def add_ones totals_count[of _ one_command] totals_count[of _ one_file]
      totals_egress totals_secret\<close>)
qed

lemma totals_exit:
  assumes "get_str e ''agent'' = [] \<or> m_get (dg_Agents d) (get_str e ''agent'') \<noteq> None" and "is_exit e"
  shows "totals (fst (absorbExit e d)) = counters_add (totals d) (adds e)"
proof -
  let ?d1 = "case m_get (dg_open d) (get_str e ''call'') of
      Some i \<Rightarrow> (upd_heap i (\<lambda>x. x\<lparr>en_Event := (en_Event x)(''code'' := e ''code'', ''duration_ms'' := e ''duration_ms'', ''error'' := e ''error''),
          en_Refused := exit_failed e, en_Exited := True\<rparr>) d)\<lparr>dg_open := m_del (get_str e ''call'') (dg_open d)\<rparr>
    | None \<Rightarrow> d"
  have f: "(case get_intp e ''code'' of None \<Rightarrow> - 1 | Some n \<Rightarrow> n) \<noteq> 0 \<longleftrightarrow> exit_failed e"
    by (auto simp: exit_failed_def split: option.splits)
  have "fst (absorbExit e d) = (if exit_failed e then count (get_str e ''agent'') (\<lambda>c. c\<lparr>ct_Failed := ct_Failed c + 1\<rparr>) ?d1 else ?d1)"
    unfolding absorbExit_def Let_def fst_conv f ..
  moreover have s: "dg_Session ?d1 = dg_Session d" "dg_Agents ?d1 = dg_Agents d" by (simp_all split: option.splits)
  ultimately show ?thesis
    using assms totals_count[of "\<lambda>c. c\<lparr>ct_Failed := ct_Failed c + 1\<rparr>" one_failed "get_str e ''agent''" ?d1] totals_cong[OF s]
    by (simp add: adds_def is_exit_def add_ones)
qed

lemma totals_absorb: "totals (fst (absorb e d)) = counters_add (totals d) (adds e)"
proof -
  let ?s = "seen_agent e d"
  note there = agent_there[of e d]
  consider (out) "is_output e" | (ended) "is_exit e" "\<not> is_output e" | (other) "\<not> is_exit e" "\<not> is_output e" by blast
  then show ?thesis
  proof cases
    case out
    have "totals (fst (absorbOutput e ?s)) = totals ?s" by (rule totals_cong) simp_all
    then show ?thesis using out by (simp add: absorb_cases totals_seen adds_def is_output_def)
  next
    case ended
    then show ?thesis using totals_exit[OF there ended(1)] by (simp add: absorb_cases totals_seen)
  next
    case other
    have "totals (fst (absorb_entry e ?s)) = totals (absorb_state e ?s)" by (rule totals_cong) simp_all
    then show ?thesis using other totals_state[OF there other(1)] by (simp add: absorb_cases totals_seen)
  qed
qed

text \<open>The counters as a count.\<close>

definition counted :: "event list \<Rightarrow> counters" where
  "counted es = \<lparr>ct_Commands = tally (\<lambda>e. get_str e ''type'' = ''command.start'') es,
     ct_Failed = tally (\<lambda>e. get_str e ''type'' = ''command.exit'' \<and> exit_failed e) es,
     ct_Files = tally (\<lambda>e. get_str e ''type'' = ''file.write'') es,
     ct_EgressOK = tally (\<lambda>e. get_str e ''type'' = ''egress.attempt'' \<and> get_str e ''reason'' \<noteq> ''foreign_peer'' \<and> egress_allowed e) es,
     ct_EgressBlocked = tally (\<lambda>e. get_str e ''type'' = ''egress.attempt'' \<and> get_str e ''reason'' \<noteq> ''foreign_peer'' \<and> \<not> egress_allowed e) es,
     ct_Secrets = tally (\<lambda>e. get_str e ''type'' = ''secret.use'') es\<rparr>"

lemma counted_snoc: "counted (es @ [e]) = counters_add (counted es) (adds e)"
  by (simp add: counted_def adds_def Let_def ones no_counters_def counters_add_def)

lemma walk_totals: "totals (digestWalk es) = counted es"
proof (induction es rule: rev_induct)
  case Nil
  then show ?case by (simp add: walk_Nil emptyDigest_def totals_def counted_def no_counters_def)
next
  case (snoc e es)
  then show ?case by (simp add: walk_snoc totals_absorb counted_snoc)
qed

section \<open>The timeline\<close>

definition is_start :: "event \<Rightarrow> bool" where "is_start e \<longleftrightarrow> get_str e ''type'' = ''command.start''"

definition with_output :: "event \<Rightarrow> dentry \<Rightarrow> dentry" where
  "with_output e x = x\<lparr>en_Output := en_Output x @ (if get_str e ''stream'' = ''stderr'' then ''stderr: '' else []) @
     decode_lax (get_str e ''data'')\<rparr>"

definition with_exit :: "event \<Rightarrow> dentry \<Rightarrow> dentry" where
  "with_exit e x = x\<lparr>en_Event := (en_Event x)(''code'' := e ''code'', ''duration_ms'' := e ''duration_ms'', ''error'' := e ''error''),
     en_Refused := exit_failed e, en_Exited := True\<rparr>"

text \<open>The entry of a command called \<open>c\<close>, once the events after it are known: its outputs up to
  its exit, or up to the next start that takes its name.\<close>

fun settle :: "string \<Rightarrow> dentry \<Rightarrow> event list \<Rightarrow> dentry" where
  "settle c x [] = x"
| "settle c x (e # es) =
     (if get_str e ''call'' \<noteq> c then settle c x es
      else if is_output e then settle c (with_output e x) es
      else if is_exit e then with_exit e x
      else if is_start e then x
      else settle c x es)"

fun timeline :: "event list \<Rightarrow> dentry list" where
  "timeline [] = []"
| "timeline (e # es) =
     (if is_output e \<or> is_exit e then timeline es
      else if is_start e then settle (get_str e ''call'') (entry_of e) es # timeline es
      else entry_of e # timeline es)"

text \<open>A digest that keeps its timeline: every entry of the heap, and the open commands are entries
  of their own.\<close>

definition kept :: "digest \<Rightarrow> bool" where
  "kept d \<longleftrightarrow> dg_KeepTimeline d \<and> dg_Timeline d = [0..<length (dg_heap d)] \<and>
     (\<forall>c i. m_get (dg_open d) c = Some i \<longrightarrow> i < length (dg_heap d)) \<and>
     (\<forall>c c' i. m_get (dg_open d) c = Some i \<longrightarrow> m_get (dg_open d) c' = Some i \<longrightarrow> c = c')"

text \<open>What the entries come to when \<open>es\<close> follow.\<close>

definition comes_to :: "digest \<Rightarrow> event list \<Rightarrow> dentry list \<Rightarrow> bool" where
  "comes_to d es h \<longleftrightarrow> length h = length (dg_heap d) \<and>
     (\<forall>i < length h. i \<notin> ran (m_get (dg_open d)) \<longrightarrow> h ! i = dg_heap d ! i) \<and>
     (\<forall>c i. m_get (dg_open d) c = Some i \<longrightarrow> h ! i = settle c (dg_heap d ! i) es)"

lemma state_heap [simp]: "dg_heap (absorb_state e d) = dg_heap d"
  by (rule absorb_state_split[where P = "\<lambda>x. dg_heap x = dg_heap d"]) simp_all

lemma state_timeline [simp]: "dg_Timeline (absorb_state e d) = dg_Timeline d"
  by (rule absorb_state_split[where P = "\<lambda>x. dg_Timeline x = dg_Timeline d"]) simp_all

lemma state_open [simp]: "dg_open (absorb_state e d) = dg_open d"
  by (rule absorb_state_split[where P = "\<lambda>x. dg_open x = dg_open d"]) simp_all

lemma state_keep [simp]: "dg_KeepTimeline (absorb_state e d) = dg_KeepTimeline d"
  by (rule absorb_state_split[where P = "\<lambda>x. dg_KeepTimeline x = dg_KeepTimeline d"]) simp_all

lemma absorb_keep: "dg_KeepTimeline (fst (absorb e d)) = dg_KeepTimeline d"
  by (simp add: absorb_cases)

lemma output_step:
  assumes "is_output e" and "dg_KeepTimeline d"
  shows "dg_heap (fst (absorb e d)) =
       (case m_get (dg_open d) (get_str e ''call'') of Some i \<Rightarrow> (dg_heap d)[i := with_output e (dg_heap d ! i)] | None \<Rightarrow> dg_heap d)"
    and "dg_open (fst (absorb e d)) = dg_open d" and "dg_Timeline (fst (absorb e d)) = dg_Timeline d"
  using assms by (simp_all add: absorb_cases absorbOutput_def Let_def with_output_def split: option.splits)

lemma exit_step:
  assumes "is_exit e"
  shows "dg_heap (fst (absorb e d)) =
       (case m_get (dg_open d) (get_str e ''call'') of Some i \<Rightarrow> (dg_heap d)[i := with_exit e (dg_heap d ! i)] | None \<Rightarrow> dg_heap d)"
    and "m_get (dg_open (fst (absorb e d))) = (m_get (dg_open d))(get_str e ''call'' := None)"
    and "dg_Timeline (fst (absorb e d)) = dg_Timeline d"
proof -
  have no: "\<not> is_output e" using assms by (simp add: is_output_def is_exit_def)
  have f: "(case get_intp e ''code'' of None \<Rightarrow> - 1 | Some n \<Rightarrow> n) \<noteq> 0 \<longleftrightarrow> exit_failed e"
    by (auto simp: exit_failed_def split: option.splits)
  show "dg_heap (fst (absorb e d)) =
       (case m_get (dg_open d) (get_str e ''call'') of Some i \<Rightarrow> (dg_heap d)[i := with_exit e (dg_heap d ! i)] | None \<Rightarrow> dg_heap d)"
    using assms no by (simp add: absorb_cases absorbExit_def Let_def f with_exit_def split: option.splits)
  show "m_get (dg_open (fst (absorb e d))) = (m_get (dg_open d))(get_str e ''call'' := None)"
    using assms no by (auto simp: absorb_cases absorbExit_def Let_def gm.get_del_fun split: option.splits)
  show "dg_Timeline (fst (absorb e d)) = dg_Timeline d" using assms no by (simp add: absorb_cases)
qed

lemma entry_step:
  assumes "\<not> is_output e" and "\<not> is_exit e" and "dg_KeepTimeline d"
  shows "dg_heap (fst (absorb e d)) = dg_heap d @ [entry_of e]"
    and "m_get (dg_open (fst (absorb e d))) = (if is_start e then (m_get (dg_open d))(get_str e ''call'' \<mapsto> length (dg_heap d)) else m_get (dg_open d))"
    and "dg_Timeline (fst (absorb e d)) = dg_Timeline d @ [length (dg_heap d)]"
  using assms by (simp_all add: absorb_cases absorb_entry_def Let_def is_start_def gm.get_put_fun)

lemma kept_absorb:
  assumes k: "kept d"
  shows "kept (fst (absorb e d))"
proof -
  have keep: "dg_KeepTimeline d" and tl: "dg_Timeline d = [0..<length (dg_heap d)]"
    and bd: "\<And>c i. m_get (dg_open d) c = Some i \<Longrightarrow> i < length (dg_heap d)"
    and inj: "\<And>c c' i. m_get (dg_open d) c = Some i \<Longrightarrow> m_get (dg_open d) c' = Some i \<Longrightarrow> c = c'"
    using k unfolding kept_def by blast+
  consider (out) "is_output e" | (ended) "is_exit e" | (other) "\<not> is_output e" "\<not> is_exit e" by blast
  then show ?thesis
  proof cases
    case out
    have "length (dg_heap (fst (absorb e d))) = length (dg_heap d)" using output_step(1)[OF out keep] by (simp split: option.splits)
    then show ?thesis unfolding kept_def absorb_keep output_step(2,3)[OF out keep]
      using k unfolding kept_def by (simp only: simp_thms) blast
  next
    case ended
    have "length (dg_heap (fst (absorb e d))) = length (dg_heap d)" using exit_step(1)[OF ended, of d] by (simp split: option.splits)
    moreover have old: "m_get (dg_open (fst (absorb e d))) c = Some i \<Longrightarrow> m_get (dg_open d) c = Some i" for c i
      using exit_step(2)[OF ended, of d] by (simp split: if_splits)
    have "i < length (dg_heap d)" if "m_get (dg_open (fst (absorb e d))) c = Some i" for c i using bd[OF old[OF that]] .
    moreover have "c = c'" if "m_get (dg_open (fst (absorb e d))) c = Some i" "m_get (dg_open (fst (absorb e d))) c' = Some i" for c c' i
      using inj[OF old[OF that(1)] old[OF that(2)]] .
    ultimately show ?thesis unfolding kept_def absorb_keep exit_step(3)[OF ended, of d] using keep tl by simp
  next
    case other
    note st = entry_step[OF other keep]
    have old: "m_get (dg_open (fst (absorb e d))) c = Some i \<Longrightarrow> i = length (dg_heap d) \<and> c = get_str e ''call'' \<or> m_get (dg_open d) c = Some i" for c i
      using st(2) by (simp split: if_splits)
    have "m_get (dg_open (fst (absorb e d))) c = Some i \<Longrightarrow> i < length (dg_heap (fst (absorb e d)))" for c i
      using old[of c i] bd[of c i] st(1) by auto
    moreover have "c = c'" if "m_get (dg_open (fst (absorb e d))) c = Some i" "m_get (dg_open (fst (absorb e d))) c' = Some i" for c c' i
      using old[OF that(1)] old[OF that(2)] inj[of c i c'] bd[of c i] bd[of c' i] by auto
    ultimately show ?thesis using st(1,3) keep tl unfolding kept_def absorb_keep by simp
  qed
qed

lemma comes_to_output:
  assumes k: "kept d" and o': "is_output e" and h: "comes_to (fst (absorb e d)) es h"
  shows "comes_to d (e # es) h"
proof -
  have keep: "dg_KeepTimeline d"
    and inj: "\<And>c c' i. m_get (dg_open d) c = Some i \<Longrightarrow> m_get (dg_open d) c' = Some i \<Longrightarrow> c = c'"
    and bd: "\<And>c i. m_get (dg_open d) c = Some i \<Longrightarrow> i < length (dg_heap d)"
    using k unfolding kept_def by blast+
  note st = output_step[OF o' keep]
  have other: "dg_heap (fst (absorb e d)) ! i = dg_heap d ! i" if "m_get (dg_open d) (get_str e ''call'') \<noteq> Some i" for i
    using that st(1) by (auto split: option.splits)
  have mine: "dg_heap (fst (absorb e d)) ! i = with_output e (dg_heap d ! i)" if "m_get (dg_open d) (get_str e ''call'') = Some i" for i
    using that st(1) bd[OF that] by simp
  have "length h = length (dg_heap d)" using h st(1) by (simp add: comes_to_def split: option.splits)
  moreover have "h ! i = dg_heap d ! i" if "i < length h" "i \<notin> ran (m_get (dg_open d))" for i
    using h that st(2) other[of i] by (auto simp: comes_to_def ran_def)
  moreover have "h ! i = settle c (dg_heap d ! i) (e # es)" if "m_get (dg_open d) c = Some i" for c i
  proof (cases "c = get_str e ''call''")
    case True
    then show ?thesis using h that st(2) mine[of i] o' by (auto simp: comes_to_def)
  next
    case False
    then have "m_get (dg_open d) (get_str e ''call'') \<noteq> Some i" using inj that by blast
    then show ?thesis using h that st(2) other[of i] False by (auto simp: comes_to_def)
  qed
  ultimately show ?thesis unfolding comes_to_def by blast
qed

lemma comes_to_exit:
  assumes k: "kept d" and x: "is_exit e" and h: "comes_to (fst (absorb e d)) es h"
  shows "comes_to d (e # es) h"
proof -
  have inj: "\<And>c c' i. m_get (dg_open d) c = Some i \<Longrightarrow> m_get (dg_open d) c' = Some i \<Longrightarrow> c = c'"
    and bd: "\<And>c i. m_get (dg_open d) c = Some i \<Longrightarrow> i < length (dg_heap d)"
    using k unfolding kept_def by blast+
  note st = exit_step[OF x, of d]
  have no: "\<not> is_output e" using x by (simp add: is_output_def is_exit_def)
  have other: "dg_heap (fst (absorb e d)) ! i = dg_heap d ! i" if "m_get (dg_open d) (get_str e ''call'') \<noteq> Some i" for i
    using that st(1) by (auto split: option.splits)
  have mine: "dg_heap (fst (absorb e d)) ! i = with_exit e (dg_heap d ! i)" if "m_get (dg_open d) (get_str e ''call'') = Some i" for i
    using that st(1) bd[OF that] by simp
  have len: "length h = length (dg_heap d)" using h st(1) by (simp add: comes_to_def split: option.splits)
  have closed: "h ! i = dg_heap (fst (absorb e d)) ! i" if "i < length h" "i \<notin> ran ((m_get (dg_open d))(get_str e ''call'' := None))" for i
    using h that st(2) by (simp add: comes_to_def)
  have "h ! i = dg_heap d ! i" if "i < length h" "i \<notin> ran (m_get (dg_open d))" for i
    using closed[of i] that other[of i] by (auto simp: ran_def split: if_splits)
  moreover have "h ! i = settle c (dg_heap d ! i) (e # es)" if "m_get (dg_open d) c = Some i" for c i
  proof (cases "c = get_str e ''call''")
    case True
    have "i \<notin> ran ((m_get (dg_open d))(get_str e ''call'' := None))" using inj[OF that] True by (auto simp: ran_def split: if_splits)
    then show ?thesis using closed[of i] bd[OF that] len mine[of i] that True x no by simp
  next
    case False
    then have n: "m_get (dg_open d) (get_str e ''call'') \<noteq> Some i" using inj that by blast
    have "m_get (dg_open (fst (absorb e d))) c = Some i" using st(2) that False by simp
    then show ?thesis using h other[OF n] False by (auto simp: comes_to_def)
  qed
  ultimately show ?thesis using len unfolding comes_to_def by blast
qed

lemma comes_to_entry:
  assumes k: "kept d" and o': "\<not> is_output e" "\<not> is_exit e" and h: "comes_to (fst (absorb e d)) es h"
  shows "\<exists>g. h = g @ [if is_start e then settle (get_str e ''call'') (entry_of e) es else entry_of e] \<and> comes_to d (e # es) g"
proof -
  let ?n = "length (dg_heap d)" and ?c = "get_str e ''call''"
  have keep: "dg_KeepTimeline d"
    and inj: "\<And>c c' i. m_get (dg_open d) c = Some i \<Longrightarrow> m_get (dg_open d) c' = Some i \<Longrightarrow> c = c'"
    and bd: "\<And>c i. m_get (dg_open d) c = Some i \<Longrightarrow> i < ?n"
    using k unfolding kept_def by blast+
  note st = entry_step[OF o' keep]
  have len: "length h = Suc ?n" using h st(1) by (simp add: comes_to_def)
  have split: "h = take ?n h @ [h ! ?n]" using take_Suc_conv_app_nth[of ?n h] len by simp
  have fresh: "?n \<notin> ran (m_get (dg_open d))" using bd by (fastforce simp: ran_def)
  have at: "i < ?n \<Longrightarrow> dg_heap (fst (absorb e d)) ! i = dg_heap d ! i" for i using st(1) by (simp add: nth_append)
  have last: "h ! ?n = (if is_start e then settle ?c (entry_of e) es else entry_of e)"
  proof (cases "is_start e")
    case True
    then have "m_get (dg_open (fst (absorb e d))) ?c = Some ?n" using st(2) by simp
    then show ?thesis using h True st(1) by (simp add: comes_to_def)
  next
    case False
    then have "?n \<notin> ran (m_get (dg_open (fst (absorb e d))))" using st(2) fresh by simp
    then show ?thesis using h False st(1) len by (simp add: comes_to_def)
  qed
  have "h ! i = dg_heap d ! i" if "i < ?n" "i \<notin> ran (m_get (dg_open d))" for i
  proof -
    have "i \<notin> ran (m_get (dg_open (fst (absorb e d))))" using st(2) that by (auto simp: ran_def split: if_splits)
    then show ?thesis using h at[OF that(1)] len that(1) by (simp add: comes_to_def)
  qed
  moreover have "h ! i = settle c (dg_heap d ! i) (e # es)" if "m_get (dg_open d) c = Some i" for c i
  proof (cases "is_start e \<and> c = ?c")
    case True
    have "i \<notin> ran (m_get (dg_open (fst (absorb e d))))"
      using st(2) True inj[OF that] bd[OF that] by (auto simp: ran_def split: if_splits)
    then show ?thesis using h at[OF bd[OF that]] len bd[OF that] True o' by (simp add: comes_to_def)
  next
    case False
    then have "m_get (dg_open (fst (absorb e d))) c = Some i" using st(2) that by auto
    then have "h ! i = settle c (dg_heap d ! i) es" using h at[OF bd[OF that]] by (simp add: comes_to_def)
    then show ?thesis using False o' by auto
  qed
  ultimately have "comes_to d (e # es) (take ?n h)" using len bd by (simp add: comes_to_def)
  moreover have "h = take ?n h @ [if is_start e then settle ?c (entry_of e) es else entry_of e]" using split unfolding last .
  ultimately show ?thesis by blast
qed

lemma absorb_all_timeline:
  "kept d \<Longrightarrow> \<exists>h. comes_to d es h \<and> dg_heap (absorb_all es d) = h @ timeline es \<and> kept (absorb_all es d)"
proof (induction es arbitrary: d)
  case Nil
  have "comes_to d [] (dg_heap d)" by (simp add: comes_to_def)
  then show ?case using Nil by (auto simp: absorb_all_def)
next
  case (Cons e es)
  obtain h where h: "comes_to (fst (absorb e d)) es h" "dg_heap (absorb_all es (fst (absorb e d))) = h @ timeline es"
      "kept (absorb_all es (fst (absorb e d)))"
    using Cons.IH[OF kept_absorb[OF Cons.prems]] by blast
  have all: "absorb_all (e # es) d = absorb_all es (fst (absorb e d))" by (simp add: absorb_all_def)
  consider (out) "is_output e" | (ended) "is_exit e" | (other) "\<not> is_output e" "\<not> is_exit e" by blast
  then show ?case
  proof cases
    case out
    then show ?thesis using comes_to_output[OF Cons.prems out h(1)] h(2,3) all by auto
  next
    case ended
    then show ?thesis using comes_to_exit[OF Cons.prems ended h(1)] h(2,3) all by auto
  next
    case other
    then show ?thesis using comes_to_entry[OF Cons.prems other h(1)] h(2,3) all by auto
  qed
qed

lemma walk_timeline: "map ((!) (dg_heap (digestWalk es))) (dg_Timeline (digestWalk es)) = timeline es"
proof -
  have k: "kept newDigest" by (simp add: kept_def newDigest_def emptyDigest_def)
  obtain h where h: "comes_to newDigest es h" "dg_heap (digestWalk es) = h @ timeline es" "kept (digestWalk es)"
    using absorb_all_timeline[OF k, of es] unfolding digestWalk_def by blast
  have "h = []" using h(1) by (simp add: comes_to_def newDigest_def emptyDigest_def)
  then show ?thesis using h(2,3) by (simp add: kept_def map_nth)
qed

end
