(* ===== verification/Digest_Properties.thy ===== *)
theory Digest_Properties
  imports Digest_Fold
begin

text \<open>
  What a digest says of the record it was folded from: it stays within its bound, its numbers are
  counts of events, and its timeline puts each command together with what it printed and how it
  ended.
\<close>

section \<open>Bounds\<close>

text \<open>
  C22. Whatever is recorded, a digest tracks at most \<open>MaxDistinctKeys\<close> pairs, hosts, store keys,
  secrets and peers, each of them once; and an agent has one row and is not a peer as well.
\<close>
theorem digest_bounded:
  "length (tb_order (dg_Pairs (digestWalk es))) \<le> MaxDistinctKeys \<and> length (tb_order (dg_Domains (digestWalk es))) \<le> MaxDistinctKeys \<and>
   length (tb_order (dg_Store (digestWalk es))) \<le> MaxDistinctKeys \<and> length (dg_Secrets (digestWalk es)) \<le> MaxDistinctKeys \<and>
   length (dg_PeerOnly (digestWalk es)) \<le> MaxDistinctKeys \<and>
   distinct (tb_order (dg_Pairs (digestWalk es))) \<and> distinct (tb_order (dg_Domains (digestWalk es))) \<and>
   distinct (tb_order (dg_Store (digestWalk es))) \<and> distinct (dg_Secrets (digestWalk es)) \<and> distinct (dg_PeerOnly (digestWalk es)) \<and>
   set (dg_PeerOnly (digestWalk es)) \<inter> named es = {} \<and> distinct (dg_AgentOrder (digestWalk es))"
proof -
  have "distinct (tb_order (dg_Pairs (digestWalk es))) \<and> distinct (tb_order (dg_Domains (digestWalk es))) \<and> distinct (tb_order (dg_Store (digestWalk es)))"
    using walk_ok[of es] by (simp add: table_ok_def m_ok_keys)
  moreover have a: "agents_ok (digestWalk es)" "set (m_keys (dg_Agents (digestWalk es))) = named es" using walk_agents[of es] by simp_all
  moreover have "set (dg_PeerOnly (digestWalk es)) \<inter> named es = {}"
    using walk_peers[of es] a(2) by (simp add: peers_ok_def)
  ultimately show ?thesis
    using walk_ok[of es] walk_peers[of es] by (simp add: table_ok_def peers_ok_def secrets_ok_def agents_ok_def m_ok_keys)
qed

section \<open>Numbers\<close>

text \<open>
  C14. The totals are counts over the events, whichever agent they name: commands started, commands
  that ended with another code than 0 or with none, files written, attempts allowed and blocked
  other than the host's own, and secrets used.
\<close>
theorem totals_exact: "totals (digestWalk es) = counted es"
  by (rule walk_totals)

text \<open>
  C13. A row of a table is the sum over all events of its key, the first included, with bytes
  modulo the 64-bit wrap-around; and a table is marked truncated exactly when a key of some event
  has no row.
\<close>
theorem tables_exact:
  "(case m_get (tb_map (dg_Domains (digestWalk es))) h of None \<Rightarrow> True | Some r \<Rightarrow> r =
      \<lparr>dm_Host = h,
       dm_Allowed = tally (\<lambda>e. attempt_on h e \<and> egress_allowed e) es,
       dm_Blocked = tally (\<lambda>e. attempt_on h e \<and> \<not> egress_allowed e) es,
       dm_Terminated = tally (\<lambda>e. attempt_on h e \<and> egress_allowed e \<and> get_str e ''mode'' = ''terminated'') es,
       dm_BytesIn = amount (attempt_on h) (\<lambda>e. get_int e ''bytes_in'') es,
       dm_BytesOut = amount (attempt_on h) (\<lambda>e. get_int e ''bytes_out'') es\<rparr>) \<and>
   (case m_get (tb_map (dg_Pairs (digestWalk es))) p of None \<Rightarrow> True | Some r \<Rightarrow> r =
      \<lparr>pc_Messages = tally (message_of p) es, pc_Refused = tally (refusal_of p) es,
       pc_Bytes = amount (message_of p) (\<lambda>e. get_int e ''bytes'') es\<rparr>) \<and>
   (case m_get (tb_map (dg_Store (digestWalk es))) k of None \<Rightarrow> True | Some r \<Rightarrow> r =
      \<lparr>sk_Key = k, sk_Gets = tally (\<lambda>e. access_of k e \<and> get_str e ''kind'' = ''get'') es,
       sk_Puts = tally (\<lambda>e. access_of k e \<and> get_str e ''kind'' = ''put'') es,
       sk_Deletes = tally (\<lambda>e. access_of k e \<and> get_str e ''kind'' = ''delete'') es,
       sk_Denied = tally (\<lambda>e. access_of k e \<and> get_str e ''outcome'' \<noteq> ''delivered'') es,
       sk_Bytes = amount (\<lambda>e. access_of k e \<and> get_str e ''outcome'' = ''delivered'') (\<lambda>e. get_int e ''bytes'') es\<rparr>) \<and>
   (tb_truncated (dg_Domains (digestWalk es)) \<longleftrightarrow> \<not> touched (domain_touches es) \<subseteq> dom (m_get (tb_map (dg_Domains (digestWalk es))))) \<and>
   (tb_truncated (dg_Pairs (digestWalk es)) \<longleftrightarrow> \<not> touched (pair_touches es) \<subseteq> dom (m_get (tb_map (dg_Pairs (digestWalk es))))) \<and>
   (tb_truncated (dg_Store (digestWalk es)) \<longleftrightarrow> \<not> touched (store_touches es) \<subseteq> dom (m_get (tb_map (dg_Store (digestWalk es)))))"
proof -
  note s = walk_says[of es]
  have "h \<noteq> []" if "m_get (tb_map (dg_Domains (digestWalk es))) h = Some r" for r
    using says_row[OF s(1) that] by (auto simp: touched_def domain_touches_def)
  then show ?thesis
    using says_row[OF s(1), of h] says_row[OF s(2), of p] says_row[OF s(3), of k] domain_row[of h es] pair_row[of es p] store_row[of es k]
      says_truncated[OF s(1)] says_truncated[OF s(2)] says_truncated[OF s(3)]
    by (simp split: option.splits)
qed

text \<open>The snapshot has every row, in the order its key was first seen.\<close>

lemma rows_all: "m_ok mp \<Longrightarrow> rows mp (m_keys mp) = mp"
proof -
  assume "m_ok mp"
  then have "List.map_filter (\<lambda>k. map_option (Pair k) (m_get mp k)) (map fst xs) = xs" if "set xs \<subseteq> set mp" for xs
    using that
  proof (induction xs)
    case (Cons x xs)
    then have "m_get mp (fst x) = Some (snd x)" by (simp add: m_get_entry)
    then show ?case using Cons by (simp add: List.map_filter_def)
  qed (simp add: List.map_filter_def)
  then show ?thesis by (simp add: rows_def m_keys_def)
qed

lemma snapshot_rows:
  "sn_Domains (takeSnapshot (digestWalk es)) = map snd (tb_map (dg_Domains (digestWalk es)))"
  "sn_Pairs (takeSnapshot (digestWalk es)) = tb_map (dg_Pairs (digestWalk es))"
  "sn_Store (takeSnapshot (digestWalk es)) = map snd (tb_map (dg_Store (digestWalk es)))"
  "sn_Agents (takeSnapshot (digestWalk es)) = map snd (dg_Agents (digestWalk es))"
proof -
  have "agents_ok (digestWalk es)" using walk_agents by simp
  then show "sn_Domains (takeSnapshot (digestWalk es)) = map snd (tb_map (dg_Domains (digestWalk es)))"
    "sn_Pairs (takeSnapshot (digestWalk es)) = tb_map (dg_Pairs (digestWalk es))"
    "sn_Store (takeSnapshot (digestWalk es)) = map snd (tb_map (dg_Store (digestWalk es)))"
    "sn_Agents (takeSnapshot (digestWalk es)) = map snd (dg_Agents (digestWalk es))"
    using walk_ok[of es] by (simp_all add: takeSnapshot_def table_ok_def agents_ok_def rows_all)
qed

section \<open>The timeline\<close>

text \<open>
  C12. The timeline has one entry for every event but the outputs and exits, in order. The entry of
  a command carries the output of every chunk of its call up to its exit, and what that exit said;
  a chunk after the exit, or after another start took the name, is not in it.
\<close>
theorem timeline_exact: "map ((!) (dg_heap (digestWalk es))) (dg_Timeline (digestWalk es)) = timeline es"
  by (rule walk_timeline)

text \<open>The bytes a chunk shows are those that were sent, when they were sent as base64.\<close>

lemma decode_lax_quanta: "b64_quanta s = Some v \<Longrightarrow> b64_prefix s = v"
proof (induction s arbitrary: v rule: b64_quanta.induct)
  case (2 p q r s t)
  then show ?case by (auto split: option.splits if_splits)
qed auto

lemma decode_lax_encode: "decode_lax (b64_encode v) = v"
  using b64_decode_encode[of v] decode_lax_quanta by (simp add: decode_lax_def b64_decode_def)

end
