(* ===== verification/Go_Net.thy ===== *)
theory Go_Net
  imports Prelude "HOL-Library.Word"
begin

text \<open>
  What the egress proxy uses of Go's standard library: the rest of package \<open>strings\<close>,
  \<open>net.SplitHostPort\<close>, \<open>net.ParseIP\<close> with the \<open>netip\<close> addresses under it, and
  \<open>path.Clean\<close>. An argument \<open>uni\<close> is what \<open>strings.ToLower\<close> does to a string
  with a byte outside ASCII, where it consults the Unicode tables.
\<close>

section \<open>Package strings\<close>

definition lower_char :: "char \<Rightarrow> char" where
  "lower_char c = (if 65 \<le> byte c \<and> byte c \<le> 90 then char_of (byte c + 32) else c)"

definition toLower :: "(string \<Rightarrow> string) \<Rightarrow> string \<Rightarrow> string" where
  "toLower uni s = (if list_all (\<lambda>c. byte c < 128) s then map lower_char s else uni s)"

definition trimPrefix :: "string \<Rightarrow> string \<Rightarrow> string" where
  "trimPrefix s p = (if hasPrefix s p then drop (length p) s else s)"

definition trimSuffix :: "string \<Rightarrow> string \<Rightarrow> string" where
  "trimSuffix s p = (case cutSuffix s p of Some t \<Rightarrow> t | None \<Rightarrow> s)"

text \<open>\<open>strings.TrimRight(s, string(c))\<close>.\<close>

definition trimRight :: "string \<Rightarrow> char \<Rightarrow> string" where
  "trimRight s c = rev (dropWhile (\<lambda>x. x = c) (rev s))"

text \<open>\<open>strings.Cut\<close> and \<open>strings.Split\<close> at a character.\<close>

definition cut :: "string \<Rightarrow> char \<Rightarrow> string \<times> string \<times> bool" where
  "cut s c = (case indexOf s [c] of None \<Rightarrow> (s, [], False) | Some i \<Rightarrow> (take i s, drop (Suc i) s, True))"

fun split_on :: "char \<Rightarrow> string \<Rightarrow> string list" where
  "split_on c [] = [[]]"
| "split_on c (x # xs) =
     (if x = c then [] # split_on c xs
      else case split_on c xs of h # t \<Rightarrow> (x # h) # t | [] \<Rightarrow> [[x]])"

definition lastIndexChar :: "string \<Rightarrow> char \<Rightarrow> nat option" where
  "lastIndexChar s c = lastIndexOf s [c]"

lemma split_on_not_Nil [simp]: "split_on c s \<noteq> []"
  by (induction s) (auto split: list.splits)

lemma split_join: "join (split_on c s) [c] = s"
proof (induction s)
  case (Cons x s)
  obtain h t where "split_on c s = h # t" by (cases "split_on c s") simp_all
  with Cons show ?case by (cases t) auto
qed simp

lemma split_no_sep: "x \<in> set (split_on c s) \<Longrightarrow> c \<notin> set x"
proof (induction s arbitrary: x)
  case (Cons y s)
  then show ?case by (cases "split_on c s") (auto split: if_splits)
qed simp

lemma split_on_append: "c \<notin> set a \<Longrightarrow> split_on c (a @ c # s) = a # split_on c s"
  by (induction a) auto

lemma split_on_single: "c \<notin> set a \<Longrightarrow> split_on c a = [a]"
  by (induction a) auto

text \<open>\<open>strings.TrimSpace\<close>: the white space of Unicode, as the bytes of its UTF-8 encoding.\<close>

definition spaces :: "string list" where
  "spaces = [[CHR 0x09], [CHR 0x0A], [CHR 0x0B], [CHR 0x0C], [CHR 0x0D], [CHR 0x20],
     [CHR 0xC2, CHR 0x85], [CHR 0xC2, CHR 0xA0], [CHR 0xE1, CHR 0x9A, CHR 0x80],
     [CHR 0xE2, CHR 0x80, CHR 0x80], [CHR 0xE2, CHR 0x80, CHR 0x81], [CHR 0xE2, CHR 0x80, CHR 0x82],
     [CHR 0xE2, CHR 0x80, CHR 0x83], [CHR 0xE2, CHR 0x80, CHR 0x84], [CHR 0xE2, CHR 0x80, CHR 0x85],
     [CHR 0xE2, CHR 0x80, CHR 0x86], [CHR 0xE2, CHR 0x80, CHR 0x87], [CHR 0xE2, CHR 0x80, CHR 0x88],
     [CHR 0xE2, CHR 0x80, CHR 0x89], [CHR 0xE2, CHR 0x80, CHR 0x8A], [CHR 0xE2, CHR 0x80, CHR 0xA8],
     [CHR 0xE2, CHR 0x80, CHR 0xA9], [CHR 0xE2, CHR 0x80, CHR 0xAF], [CHR 0xE2, CHR 0x81, CHR 0x9F],
     [CHR 0xE3, CHR 0x80, CHR 0x80]]"

fun strip_first :: "string list \<Rightarrow> string \<Rightarrow> string option" where
  "strip_first [] s = None"
| "strip_first (w # ws) s = (if w \<noteq> [] \<and> hasPrefix s w then Some (drop (length w) s) else strip_first ws s)"

lemma strip_first_shorter: "strip_first ws s = Some t \<Longrightarrow> length t < length s"
proof (induction ws)
  case (Cons w ws)
  then show ?case by (cases "w \<noteq> [] \<and> hasPrefix s w") (auto simp: hasPrefix_iff)
qed simp

function strip_all :: "string list \<Rightarrow> string \<Rightarrow> string" where
  "strip_all ws s = (case strip_first ws s of None \<Rightarrow> s | Some t \<Rightarrow> strip_all ws t)"
  by pat_completeness auto

termination
  by (relation "measure (length \<circ> snd)") (auto dest: strip_first_shorter)

declare strip_all.simps [simp del]

definition trimSpace :: "string \<Rightarrow> string" where
  "trimSpace s = rev (strip_all (map rev spaces) (rev (strip_all spaces s)))"

section \<open>Package net\<close>

text \<open>\<open>net.SplitHostPort\<close>; \<open>None\<close> is its error.\<close>

definition splitHostPort :: "string \<Rightarrow> (string \<times> string) option" where
  "splitHostPort hp =
     (case lastIndexChar hp CHR '':'' of
        None \<Rightarrow> None
      | Some i \<Rightarrow>
          if hd hp = CHR ''[''
          then (case indexOf hp '']'' of
                  None \<Rightarrow> None
                | Some e \<Rightarrow>
                    if e + 1 = length hp then None
                    else if e + 1 \<noteq> i then None
                    else if CHR ''['' \<in> set (drop 1 hp) \<or> CHR '']'' \<in> set (drop (e + 1) hp) then None
                    else Some (take (e - 1) (drop 1 hp), drop (i + 1) hp))
          else if CHR '':'' \<in> set (take i hp) then None
          else if CHR ''['' \<in> set hp \<or> CHR '']'' \<in> set hp then None
          else Some (take i hp, drop (i + 1) hp))"

section \<open>Addresses\<close>

text \<open>A \<open>netip.Addr\<close>: invalid, 32 bits, or 128 bits with a zone.\<close>

datatype addr = NoAddr | Addr4 "32 word" | Addr6 "128 word" string

definition bytes_val :: "nat list \<Rightarrow> int" where
  "bytes_val bs = foldl (\<lambda>a b. a * 256 + int b) 0 bs"

definition octet :: "string \<Rightarrow> nat option" where
  "octet s =
     (if s \<noteq> [] \<and> list_all is_digit s \<and> (length s = 1 \<or> hd s \<noteq> CHR ''0'') \<and> digits_val 0 s \<le> 255
      then Some (digits_val 0 s) else None)"

fun octets :: "string list \<Rightarrow> nat list option" where
  "octets [] = Some []"
| "octets (f # fs) = (case octet f of None \<Rightarrow> None | Some n \<Rightarrow> map_option (\<lambda>ns. n # ns) (octets fs))"

definition ipv4_fields :: "string \<Rightarrow> nat list option" where
  "ipv4_fields s = (let fs = split_on CHR ''.'' s in if length fs = 4 then octets fs else None)"

definition hex_digit :: "char \<Rightarrow> nat option" where
  "hex_digit c =
     (if is_digit c then Some (digit_val c)
      else if 97 \<le> byte c \<and> byte c \<le> 102 then Some (byte c - 87)
      else if 65 \<le> byte c \<and> byte c \<le> 70 then Some (byte c - 55) else None)"

fun hex_val :: "nat \<Rightarrow> string \<Rightarrow> nat" where
  "hex_val acc [] = acc"
| "hex_val acc (c # s) = (case hex_digit c of None \<Rightarrow> acc | Some d \<Rightarrow> hex_val (acc * 16 + d) s)"

text \<open>
  The loop of \<open>parseIPv6\<close>, with the bytes so far, where the ellipsis is, and the text left.
  It stops with the bytes and the ellipsis, or with an error.
\<close>

function ipv6_loop :: "nat list \<Rightarrow> nat option \<Rightarrow> string \<Rightarrow> (nat list \<times> nat option \<times> string) option" where
  "ipv6_loop ip ell s =
     (if 16 \<le> length ip then Some (ip, ell, s)
      else let g = takeWhile (\<lambda>c. hex_digit c \<noteq> None) s; t = drop (length g) s; n = hex_val 0 g in
        if 4 < length g \<or> g = [] then None
        else if t \<noteq> [] \<and> hd t = CHR ''.''
        then if ell = None \<and> length ip \<noteq> 12 \<or> 16 < length ip + 4 then None
             else map_option (\<lambda>f. (ip @ f, ell, [])) (ipv4_fields s)
        else let ip = ip @ [n div 256, n mod 256] in
          if t = [] then Some (ip, ell, [])
          else if hd t \<noteq> CHR '':'' \<or> length t = 1 then None
          else if hd (tl t) = CHR '':''
          then if ell \<noteq> None then None
               else if tl (tl t) = [] then Some (ip, Some (length ip), [])
               else ipv6_loop ip (Some (length ip)) (tl (tl t))
          else ipv6_loop ip ell (tl t))"
  by pat_completeness auto

termination
  by (relation "measure (\<lambda>(ip, ell, s). 16 - length ip)") auto

declare ipv6_loop.simps [simp del]

definition ipv6_finish :: "string \<Rightarrow> nat list \<times> nat option \<times> string \<Rightarrow> addr option" where
  "ipv6_finish zone r =
     (case r of (ip, ell, s) \<Rightarrow>
        if s \<noteq> [] then None
        else if length ip < 16
        then (case ell of
                None \<Rightarrow> None
              | Some e \<Rightarrow> Some (Addr6 (of_int (bytes_val (take e ip @ replicate (16 - length ip) 0 @ drop e ip))) zone))
        else if ell \<noteq> None then None else Some (Addr6 (of_int (bytes_val ip)) zone))"

definition parseIPv6 :: "string \<Rightarrow> addr option" where
  "parseIPv6 s =
     (case cut s CHR ''%'' of (s, zone, has) \<Rightarrow>
        if has \<and> zone = [] then None
        else if hasPrefix s ''::''
        then if s = ''::'' then Some (Addr6 0 zone)
             else Option.bind (ipv6_loop [] (Some 0) (drop 2 s)) (ipv6_finish zone)
        else Option.bind (ipv6_loop [] None s) (ipv6_finish zone))"

definition parseAddr :: "string \<Rightarrow> addr option" where
  "parseAddr s =
     (case find (\<lambda>c. c \<in> {CHR ''.'', CHR '':'', CHR ''%''}) s of
        None \<Rightarrow> None
      | Some c \<Rightarrow>
          if c = CHR ''.'' then map_option (\<lambda>bs. Addr4 (of_int (bytes_val bs))) (ipv4_fields s)
          else if c = CHR '':'' then parseIPv6 s else None)"

text \<open>\<open>net.ParseIP\<close>, which refuses a zone.\<close>

definition parseIP :: "string \<Rightarrow> addr option" where
  "parseIP s = (case parseAddr s of Some (Addr6 w z) \<Rightarrow> if z = [] then Some (Addr6 w z) else None | r \<Rightarrow> r)"

definition unmap :: "addr \<Rightarrow> addr" where
  "unmap a = (case a of Addr6 w z \<Rightarrow> if drop_bit 32 w = 0xFFFF then Addr4 (ucast w) else a | _ \<Rightarrow> a)"

definition noZone :: "addr \<Rightarrow> addr" where
  "noZone a = (case a of Addr6 w z \<Rightarrow> Addr6 w [] | _ \<Rightarrow> a)"

text \<open>\<open>netip.Prefix\<close> and its \<open>Contains\<close>, which is false of an address of the other family or with a zone.\<close>

datatype prefix = Prefix4 "32 word" nat | Prefix6 "128 word" nat

fun prefix_contains :: "prefix \<Rightarrow> addr \<Rightarrow> bool" where
  "prefix_contains (Prefix4 p n) (Addr4 a) = (drop_bit (32 - n) a = drop_bit (32 - n) p)"
| "prefix_contains (Prefix6 p n) (Addr6 a z) = (z = [] \<and> drop_bit (128 - n) a = drop_bit (128 - n) p)"
| "prefix_contains _ _ = False"

definition v4 :: "nat \<Rightarrow> nat \<Rightarrow> nat \<Rightarrow> nat \<Rightarrow> 32 word" where
  "v4 a b c d = of_int (bytes_val [a, b, c, d])"

end
