(* ===== verification/Go_Path.thy ===== *)
theory Go_Path
  imports Go_Net
begin

text \<open>
  What the program uses of package \<open>path\<close>, and paths as lists of segments: the shape of a cleaned
  path, the segments under the root, joining and the directory of a path.
\<close>

section \<open>Package path\<close>

text \<open>\<open>path.Clean\<close>: the kept elements, last first.\<close>

fun clean_segs :: "bool \<Rightarrow> string list \<Rightarrow> string list \<Rightarrow> string list" where
  "clean_segs rooted out [] = out"
| "clean_segs rooted out (x # xs) =
     (if x = [] \<or> x = ''.'' then clean_segs rooted out xs
      else if x = ''..''
      then if out \<noteq> [] \<and> hd out \<noteq> ''..'' then clean_segs rooted (tl out) xs
           else if rooted then clean_segs rooted out xs
           else clean_segs rooted (x # out) xs
      else clean_segs rooted (x # out) xs)"

definition path_clean :: "string \<Rightarrow> string" where
  "path_clean p =
     (if p = [] then ''.''
      else let rooted = (hd p = CHR ''/'');
               c = join (rev (clean_segs rooted [] (split_on CHR ''/'' p))) ''/''
           in if rooted then CHR ''/'' # c else if c = [] then ''.'' else c)"

definition slash :: char where "slash = CHR ''/''"

text \<open>\<open>path.Join\<close>, \<open>path.Dir\<close> and \<open>path.IsAbs\<close>.\<close>

definition path_join :: "string list \<Rightarrow> string" where
  "path_join xs = (case filter (\<lambda>x. x \<noteq> []) xs of [] \<Rightarrow> [] | ys \<Rightarrow> path_clean (join ys ''/''))"

definition path_dir :: "string \<Rightarrow> string" where
  "path_dir p = path_clean (case lastIndexChar p CHR ''/'' of None \<Rightarrow> [] | Some i \<Rightarrow> take (i + 1) p)"

definition path_isAbs :: "string \<Rightarrow> bool" where
  "path_isAbs p \<longleftrightarrow> p \<noteq> [] \<and> hd p = CHR ''/''"

section \<open>Normal forms as segments\<close>

text \<open>
  A rooted path in normal form, as \<open>path.Clean\<close> leaves one but for a slash at the end: the
  segments under the root, none of them empty, \<open>.\<close> or \<open>..\<close>.
\<close>

definition plain_seg :: "string \<Rightarrow> bool" where
  "plain_seg x \<longleftrightarrow> x \<noteq> [] \<and> x \<noteq> ''.'' \<and> x \<noteq> ''..'' \<and> slash \<notin> set x"

definition segments :: "string \<Rightarrow> string list" where
  "segments p = filter (\<lambda>x. x \<noteq> []) (split_on slash p)"

lemma clean_segs_plain:
  "list_all (\<lambda>x. slash \<notin> set x) xs \<Longrightarrow> list_all plain_seg out \<Longrightarrow> list_all plain_seg (clean_segs True out xs)"
proof (induction xs arbitrary: out)
  case (Cons x xs)
  have t: "list_all plain_seg (tl out)" using Cons.prems(2) by (cases out) simp_all
  consider "x = [] \<or> x = ''.''" | "x = ''..''" | "plain_seg x"
    using Cons.prems(1) by (auto simp only: plain_seg_def list.pred_inject)
  then show ?case
  proof cases
    case 1
    then have "clean_segs True out (x # xs) = clean_segs True out xs" by (simp only: clean_segs.simps if_True)
    then show ?thesis using Cons by simp
  next
    case 2
    have "''..'' \<noteq> ([] :: string)" "''..'' \<noteq> ''.''" by simp_all
    then have "clean_segs True out (''..'' # xs) =
        (if out \<noteq> [] \<and> hd out \<noteq> ''..'' then clean_segs True (tl out) xs else clean_segs True out xs)"
      by (simp only: clean_segs.simps if_True if_False simp_thms)
    then show ?thesis using Cons t 2 by (simp only: split: if_splits) (auto simp only: list.pred_inject)
  next
    case 3
    then have "clean_segs True out (x # xs) = clean_segs True (x # out) xs" by (simp add: plain_seg_def)
    then show ?thesis using Cons 3 by simp
  qed
qed simp

lemma split_join_plain:
  "list_all (\<lambda>x. c \<notin> set x) xs \<Longrightarrow> xs \<noteq> [] \<Longrightarrow> split_on c (join xs [c]) = xs"
proof (induction xs "[c]" rule: join.induct)
  case (3 x y xs)
  then show ?case by (simp add: split_on_append)
qed (simp_all add: split_on_single)

lemma clean_rooted:
  assumes "p \<noteq> []" and "hd p = slash"
  shows "\<exists>xs. list_all plain_seg xs \<and> path_clean p = slash # join xs [slash]"
proof -
  have "list_all (\<lambda>x. slash \<notin> set x) (split_on slash p)" using split_no_sep by (force simp: list_all_iff)
  then have "list_all plain_seg (clean_segs True [] (split_on slash p))" by (intro clean_segs_plain) simp_all
  then have "list_all plain_seg (rev (clean_segs True [] (split_on slash p)))" by simp
  moreover have "path_clean p = slash # join (rev (clean_segs True [] (split_on slash p))) [slash]"
    using assms by (simp add: path_clean_def slash_def)
  ultimately show ?thesis by blast
qed

lemma segments_root: "list_all plain_seg xs \<Longrightarrow> segments (slash # join xs [slash]) = xs"
proof (cases "xs = []")
  case False
  assume p: "list_all plain_seg xs"
  then have "list_all (\<lambda>x. slash \<notin> set x) xs" by (simp add: list_all_iff plain_seg_def)
  with False have "split_on slash (join xs [slash]) = xs" by (intro split_join_plain)
  moreover have "filter (\<lambda>x. x \<noteq> []) xs = xs" using p by (simp add: filter_id_conv list_all_iff plain_seg_def)
  ultimately show ?thesis by (simp add: segments_def)
qed (simp add: segments_def)

lemma split_on_slash: "split_on c (a @ c # s) = split_on c a @ split_on c s"
proof (induction a)
  case (Cons x a)
  then show ?case by (cases "split_on c a") auto
qed simp

lemma segments_slash: "segments (a @ slash # s) = segments a @ segments s"
  by (simp add: segments_def split_on_slash)

lemma segments_end: "segments (a @ [slash]) = segments a"
  using segments_slash[of a "[]"] by (simp add: segments_def)

lemma normal_segments:
  assumes "p \<noteq> []" and "hd p = slash" and "path_clean p = p \<or> path_clean p @ [slash] = p"
  shows "list_all plain_seg (segments p)"
proof -
  obtain xs where xs: "list_all plain_seg xs" "path_clean p = slash # join xs [slash]" using clean_rooted[OF assms(1,2)] by blast
  then have "segments (path_clean p) = xs" using segments_root by simp
  moreover have "segments p = segments (path_clean p)" using assms(3) segments_end by metis
  ultimately show ?thesis using xs(1) by simp
qed

text \<open>Cleaning a path of plain segments drops the empty ones.\<close>

lemma clean_segs_id:
  "list_all (\<lambda>x. x = [] \<or> plain_seg x) xs \<Longrightarrow> clean_segs rooted out xs = rev (filter (\<lambda>x. x \<noteq> []) xs) @ out"
proof (induction xs arbitrary: out)
  case (Cons x xs)
  then consider "x = []" | "plain_seg x" by auto
  then show ?case
  proof cases
    case 2
    then have "clean_segs rooted out (x # xs) = clean_segs rooted (x # out) xs" by (simp add: plain_seg_def)
    moreover have "x \<noteq> []" using 2 by (simp add: plain_seg_def)
    ultimately show ?thesis using Cons by simp
  qed (use Cons in simp)
qed simp

lemma join_plain_split: "list_all plain_seg xs \<Longrightarrow> split_on slash (join xs [slash]) = (if xs = [] then [[]] else xs)"
  using split_join_plain[of slash xs] by (auto simp: plain_seg_def list_all_iff)

lemma clean_relative:
  assumes "list_all plain_seg xs" and "xs \<noteq> []"
  shows "path_clean (join xs [slash]) = join xs [slash]" and "path_clean (join xs [slash] @ [slash]) = join xs [slash]"
proof -
  let ?p = "join xs [slash]"
  have sp: "split_on slash ?p = xs" using join_plain_split[OF assms(1)] assms(2) by simp
  have ne: "?p \<noteq> []"
  proof
    assume "?p = []"
    then have "xs = [[]]" using sp by simp
    then show False using assms(1) by (simp add: plain_seg_def)
  qed
  have h: "hd ?p \<noteq> slash" using assms ne by (cases xs; cases "tl xs"; cases "hd xs") (auto simp: plain_seg_def)
  have f: "filter (\<lambda>x. x \<noteq> []) xs = xs" using assms(1) by (simp add: filter_id_conv list_all_iff plain_seg_def)
  have c1: "clean_segs False [] xs = rev xs" using clean_segs_id[of xs False "[]"] assms(1) f by (simp add: list_all_iff)
  show "path_clean ?p = ?p" using ne h sp c1 by (simp add: path_clean_def slash_def)
  have sp2: "split_on slash (?p @ [slash]) = xs @ [[]]" using split_on_slash[of slash ?p "[]"] sp by simp
  have "clean_segs False [] (xs @ [[]]) = rev xs" using clean_segs_id[of "xs @ [[]]" False "[]"] assms(1) f by (simp add: list_all_iff)
  then show "path_clean (?p @ [slash]) = ?p" using ne h sp2 by (simp add: path_clean_def slash_def)
qed

lemma join_snoc: "xs \<noteq> [] \<Longrightarrow> ys \<noteq> [] \<Longrightarrow> join (xs @ ys) [c] = join xs [c] @ c # join ys [c]"
proof (induction xs "[c]" rule: join.induct)
  case (2 x)
  then show ?case by (cases ys) simp_all
qed auto

end
