(* ===== verification/Diff.thy ===== *)
theory Diff
  imports Go_Map Go_Path Utf8
begin

text \<open>
  \<^verbatim>\<open>internal/sandbox/diff.go\<close>: what changed in a workspace while a sandbox had it. The
  directory on the disk is a tree whose nodes hold what each system call answers for them: the
  permission bits of \<open>Info\<close> (\<open>None\<close> when the entry vanished), the list of
  \<open>ReadDir\<close>, the target of \<open>Readlink\<close>, the bytes of \<open>ReadFile\<close>. SHA-256 is
  the parameter \<open>sha\<close>; the two places a file is read from again while comparing are the
  parameters \<open>nowFile\<close> and \<open>oldFile\<close>.
\<close>

section \<open>The manifest\<close>

record manifest_entry =
  me_Path :: string
  me_Mode :: string
  me_Dir :: bool
  me_Link :: string
  me_Size :: int
  me_SHA256 :: string

record change =
  cg_Path :: string
  cg_Kind :: char
  cg_Added :: nat
  cg_Removed :: nat
  cg_Bytes :: int
  cg_Mode :: string
  cg_Binary :: bool

definition no_change :: change where
  "no_change = \<lparr>cg_Path = [], cg_Kind = CHR 0x00, cg_Added = 0, cg_Removed = 0, cg_Bytes = 0, cg_Mode = [],
     cg_Binary = False\<rparr>"

definition diffLineLimit :: nat where "diffLineLimit = 5000"

text \<open>The directory: \<open>Folder\<close> with no list is one that could not be read.\<close>

datatype ftree =
  Folder string "nat option" "ftree list option"
| Symlink string "nat option" string
| Regular string "nat option" int "bytes option"
| Special string "nat option"

fun f_name :: "ftree \<Rightarrow> string" where
  "f_name (Folder n _ _) = n"
| "f_name (Symlink n _ _) = n"
| "f_name (Regular n _ _ _) = n"
| "f_name (Special n _) = n"

fun f_perm :: "ftree \<Rightarrow> nat option" where
  "f_perm (Folder _ p _) = p"
| "f_perm (Symlink _ p _) = p"
| "f_perm (Regular _ p _ _) = p"
| "f_perm (Special _ p) = p"

fun is_folder :: "ftree \<Rightarrow> bool" where
  "is_folder (Folder _ _ _) = True"
| "is_folder _ = False"

datatype scan_error = RootGone | CannotList string | CannotRead string

text \<open>How a step of \<open>filepath.WalkDir\<close> ends: nil, \<open>fs.SkipDir\<close> or an error.\<close>

datatype walk_end = GoOn | SkipDir | Stop scan_error

definition lost_found :: string where "lost_found = ''lost+found''"

definition oct_digit :: "nat \<Rightarrow> char" where "oct_digit n = digit_char (n mod 8)"

definition mode_text :: "nat \<Rightarrow> string" where
  "mode_text p = [oct_digit (p div 512), oct_digit (p div 64), oct_digit (p div 8), oct_digit p]"

text \<open>The callback of \<open>scanTree\<close> on one entry below the root.\<close>

definition visit :: "(bytes \<Rightarrow> string) \<Rightarrow> string \<Rightarrow> ftree \<Rightarrow> manifest_entry list \<times> walk_end" where
  "visit sha rel t =
     (if rel = lost_found then ([], SkipDir)
      else case f_perm t of None \<Rightarrow> ([], GoOn)
      | Some p \<Rightarrow>
          let e = \<lparr>me_Path = rel, me_Mode = mode_text p, me_Dir = False, me_Link = [], me_Size = 0, me_SHA256 = []\<rparr>
          in case t of
               Folder _ _ _ \<Rightarrow> ([e\<lparr>me_Dir := True\<rparr>], GoOn)
             | Symlink _ _ target \<Rightarrow> ([e\<lparr>me_Link := target\<rparr>], GoOn)
             | Regular _ _ _ None \<Rightarrow> ([], Stop (CannotRead rel))
             | Regular _ _ sz (Some b) \<Rightarrow> ([e\<lparr>me_Size := sz, me_SHA256 := sha b\<rparr>], GoOn)
             | Special _ _ \<Rightarrow> ([], GoOn))"

definition rel_join :: "string \<Rightarrow> string \<Rightarrow> string" where
  "rel_join dir n = (if dir = [] then n else dir @ slash # n)"

text \<open>\<open>filepath.WalkDir\<close>: \<open>SkipDir\<close> on a directory skips it, on anything else the rest of the
  directory it is in.\<close>

fun walk_node :: "(bytes \<Rightarrow> string) \<Rightarrow> string \<Rightarrow> ftree \<Rightarrow> manifest_entry list \<times> walk_end"
and walk_nodes :: "(bytes \<Rightarrow> string) \<Rightarrow> string \<Rightarrow> ftree list \<Rightarrow> manifest_entry list \<times> walk_end" where
  "walk_node sha rel t =
     (case visit sha rel t of
        (es, GoOn) \<Rightarrow>
          (case t of
             Folder _ _ (Some ts) \<Rightarrow> (let (fs, r) = walk_nodes sha rel ts in (es @ fs, r))
           | Folder _ _ None \<Rightarrow> (es, Stop (CannotList rel))
           | _ \<Rightarrow> (es, GoOn))
      | (es, SkipDir) \<Rightarrow> (es, if is_folder t then GoOn else SkipDir)
      | (es, Stop x) \<Rightarrow> (es, Stop x))"
| "walk_nodes sha dir [] = ([], GoOn)"
| "walk_nodes sha dir (t # ts) =
     (case walk_node sha (rel_join dir (f_name t)) t of
        (es, GoOn) \<Rightarrow> (let (fs, r) = walk_nodes sha dir ts in (es @ fs, r))
      | (es, SkipDir) \<Rightarrow> (es, GoOn)
      | (es, Stop x) \<Rightarrow> (es, Stop x))"

declare walk_node.simps [simp del]

definition scanTree :: "(bytes \<Rightarrow> string) \<Rightarrow> ftree option \<Rightarrow> scan_error + manifest_entry list" where
  "scanTree sha root =
     (case root of None \<Rightarrow> Inl RootGone
      | Some (Folder _ _ None) \<Rightarrow> Inl (CannotList [])
      | Some (Folder _ _ (Some ts)) \<Rightarrow>
          (case walk_nodes sha [] ts of
             (es, Stop x) \<Rightarrow> Inl x
           | (es, _) \<Rightarrow> Inr (sort_key me_Path es))
      | Some _ \<Rightarrow> Inr [])"

section \<open>Lines\<close>

definition isText :: "bytes \<Rightarrow> bool" where
  "isText b \<longleftrightarrow> CHR 0x00 \<notin> set b \<and> length b < 8388608"

definition newline_char :: char where "newline_char = CHR 0x0A"

definition splitLines :: "bytes \<Rightarrow> string list" where
  "splitLines b = (let s = trimSuffix b [newline_char] in if s = [] then [] else split_on newline_char s)"

text \<open>\<open>lcs\<close> keeps two rows of the table, which change places after each line of \<open>a\<close>.\<close>

definition lcs_cell :: "string \<Rightarrow> string list \<Rightarrow> nat list \<Rightarrow> nat \<Rightarrow> nat list \<Rightarrow> nat list" where
  "lcs_cell x b prev j cur =
     cur[j := if x = b ! (j - 1) then prev ! (j - 1) + 1
              else if cur ! (j - 1) \<le> prev ! j then prev ! j
              else cur ! (j - 1)]"

definition lcs_row :: "string list \<Rightarrow> string \<Rightarrow> nat list \<times> nat list \<Rightarrow> nat list \<times> nat list" where
  "lcs_row b x rows = (fold (lcs_cell x b (fst rows)) [1..<Suc (length b)] (snd rows), fst rows)"

definition lcs :: "string list \<Rightarrow> string list \<Rightarrow> nat" where
  "lcs a b =
     (if a = [] \<or> b = [] then 0
      else let zeros = replicate (length b + 1) 0
           in fst (fold (lcs_row b) a (zeros, zeros)) ! length b)"

definition countLines :: "(string \<Rightarrow> bytes option) \<Rightarrow> string \<Rightarrow> nat \<times> int \<times> bool" where
  "countLines nowFile path =
     (case nowFile path of None \<Rightarrow> (0, 0, False)
      | Some b \<Rightarrow> if \<not> isText b then (0, int (length b), True)
                  else (length (splitLines b), int (length b), False))"

definition diffCounts :: "(string \<Rightarrow> bytes option) \<Rightarrow> (string \<Rightarrow> bytes option) \<Rightarrow> string \<Rightarrow> nat \<times> nat \<times> bool" where
  "diffCounts nowFile oldFile path =
     (case nowFile path of None \<Rightarrow> (0, 0, True)
      | Some nowBytes \<Rightarrow>
          case oldFile path of None \<Rightarrow> (0, 0, True)
          | Some oldBytes \<Rightarrow>
              if \<not> isText nowBytes \<or> \<not> isText oldBytes then (0, 0, True)
              else let a = splitLines oldBytes; b = splitLines nowBytes
                   in if diffLineLimit < length a \<or> diffLineLimit < length b then (0, 0, True)
                      else (length b - lcs a b, length a - lcs a b, False))"

section \<open>The comparison\<close>

definition mode_arrow :: "manifest_entry \<Rightarrow> manifest_entry \<Rightarrow> string" where
  "mode_arrow was e = me_Mode was @ [CHR 0x20, CHR 0xE2, CHR 0x86, CHR 0x92, CHR 0x20] @ me_Mode e"

definition added_change :: "(string \<Rightarrow> bytes option) \<Rightarrow> manifest_entry \<Rightarrow> change" where
  "added_change nowFile e =
     (let c = no_change\<lparr>cg_Path := me_Path e, cg_Kind := CHR ''A''\<rparr>
      in if me_Dir e then c
         else case countLines nowFile (me_Path e) of
           (n, sz, bin) \<Rightarrow> c\<lparr>cg_Added := n, cg_Bytes := sz, cg_Binary := bin\<rparr>)"

definition compare_entry ::
  "(string \<Rightarrow> bytes option) \<Rightarrow> (string \<Rightarrow> bytes option) \<Rightarrow> (string, manifest_entry) gmap \<Rightarrow> manifest_entry \<Rightarrow> change list" where
  "compare_entry nowFile oldFile was e =
     (case m_get was (me_Path e) of
        None \<Rightarrow> [added_change nowFile e]
      | Some old \<Rightarrow>
          let m = no_change\<lparr>cg_Path := me_Path e, cg_Kind := CHR ''M''\<rparr>
          in if me_Dir e \<or> me_Dir old then
               (if me_Mode e \<noteq> me_Mode old then [m\<lparr>cg_Mode := mode_arrow old e\<rparr>] else [])
             else if me_SHA256 e \<noteq> me_SHA256 old then
               (case diffCounts nowFile oldFile (me_Path e) of (a, r, bin) \<Rightarrow>
                  [m\<lparr>cg_Bytes := me_Size e - me_Size old,
                     cg_Mode := if me_Mode e \<noteq> me_Mode old then mode_arrow old e else [],
                     cg_Added := a, cg_Removed := r, cg_Binary := bin\<rparr>])
             else if me_Mode e \<noteq> me_Mode old then [m\<lparr>cg_Mode := mode_arrow old e\<rparr>]
             else [])"

definition deleted_change :: "manifest_entry \<Rightarrow> change" where
  "deleted_change e = no_change\<lparr>cg_Path := me_Path e, cg_Kind := CHR ''D'', cg_Bytes := - me_Size e\<rparr>"

definition compare_entries ::
  "(string \<Rightarrow> bytes option) \<Rightarrow> (string \<Rightarrow> bytes option) \<Rightarrow> manifest_entry list \<Rightarrow> manifest_entry list \<Rightarrow> change list" where
  "compare_entries nowFile oldFile packed now =
     (let was = fold (\<lambda>e. m_put (me_Path e) e) packed [];
          seen = map me_Path now
      in sort_key cg_Path (concat (map (compare_entry nowFile oldFile was) now) @
           map deleted_change (filter (\<lambda>e. me_Path e \<notin> set seen) packed)))"

definition compareTree ::
  "(bytes \<Rightarrow> string) \<Rightarrow> (string \<Rightarrow> bytes option) \<Rightarrow> (string \<Rightarrow> bytes option) \<Rightarrow> manifest_entry list \<Rightarrow> ftree option \<Rightarrow>
   scan_error + change list" where
  "compareTree sha nowFile oldFile packed tree =
     (case scanTree sha tree of Inl x \<Rightarrow> Inl x | Inr now \<Rightarrow> Inr (compare_entries nowFile oldFile packed now))"

section \<open>What is shown\<close>

definition minus_sign :: string where "minus_sign = [CHR 0xE2, CHR 0x88, CHR 0x92]"

definition signed :: "int \<Rightarrow> string" where
  "signed n = (if n < 0 then minus_sign @ itoa (go_int (- n)) else CHR ''+'' # itoa n)"

definition change_detail :: "change \<Rightarrow> string" where
  "change_detail c =
     (let detail =
        (if cg_Binary c \<and> cg_Bytes c \<noteq> 0 then signed (cg_Bytes c) @ '' bytes''
         else if cg_Binary c then ''binary''
         else if 0 < cg_Added c \<and> 0 < cg_Removed c then
           CHR ''+'' # itoa (int (cg_Added c)) @ CHR 0x20 # minus_sign @ itoa (int (cg_Removed c))
         else if 0 < cg_Added c then CHR ''+'' # itoa (int (cg_Added c))
         else if 0 < cg_Removed c then minus_sign @ itoa (int (cg_Removed c))
         else if cg_Bytes c \<noteq> 0 then signed (cg_Bytes c) @ '' bytes''
         else [])
      in if cg_Mode c \<noteq> [] then
           (if detail \<noteq> [] then detail @ [CHR 0x20, CHR 0xC2, CHR 0xB7, CHR 0x20] else detail) @ ''mode '' @ cg_Mode c
         else detail)"

text \<open>The runes of a string, an invalid byte counting as one: what \<open>%-*s\<close> pads by.\<close>

function rune_count :: "string \<Rightarrow> nat" where
  "rune_count s =
     (if s = [] then 0
      else case rune_len s of None \<Rightarrow> 1 + rune_count (tl s) | Some n \<Rightarrow> 1 + rune_count (drop n s))"
  by pat_completeness auto

termination
proof (relation "measure length")
  fix s :: string and n
  assume "s \<noteq> []" and "rune_len s = Some n"
  then show "(drop n s, s) \<in> measure length" using rune_len_pos[of s n] by simp
qed auto

declare rune_count.simps [simp del]

definition pad_right :: "nat \<Rightarrow> string \<Rightarrow> string" where
  "pad_right n s = s @ replicate (n - rune_count s) CHR 0x20"

definition change_width :: "change list \<Rightarrow> nat" where
  "change_width cs = min 60 (fold (\<lambda>c w. if w < length (cg_Path c) then length (cg_Path c) else w) cs 0)"

definition formatChanges :: "change list \<Rightarrow> string" where
  "formatChanges cs =
     (if cs = [] then ''  no changes'' @ [newline_char]
      else concat (map (\<lambda>c. CHR 0x20 # cg_Kind c # CHR 0x20 # pad_right (change_width cs) (cg_Path c) @
        [CHR 0x20, CHR 0x20] @ change_detail c @ [newline_char]) cs))"

definition count_changes :: "change list \<Rightarrow> nat \<times> nat \<times> nat" where
  "count_changes cs = fold (\<lambda>c (a, m, d).
     if cg_Kind c = CHR ''A'' then (a + 1, m, d)
     else if cg_Kind c = CHR ''M'' then (a, m + 1, d)
     else if cg_Kind c = CHR ''D'' then (a, m, d + 1) else (a, m, d)) cs (0, 0, 0)"

end
