(* ===== verification/Diff_Lines.thy ===== *)
theory Diff_Lines
  imports Diff
begin

text \<open>
  \<open>lcs\<close> against its specification: the length of a longest common subsequence. Two rolling rows
  hold the last two rows of the table; the row that is being written still holds values of two lines
  before, which no cell reads.
\<close>

definition common_subseqs :: "'a list \<Rightarrow> 'a list \<Rightarrow> 'a list set" where
  "common_subseqs a b = {c. subseq c a \<and> subseq c b}"

definition common :: "'a list \<Rightarrow> 'a list \<Rightarrow> nat" where
  "common a b = Max (length ` common_subseqs a b)"

definition longest :: "'a list \<Rightarrow> 'a list \<Rightarrow> nat \<Rightarrow> bool" where
  "longest a b n \<longleftrightarrow> (\<exists>c. subseq c a \<and> subseq c b \<and> length c = n) \<and> (\<forall>c. subseq c a \<longrightarrow> subseq c b \<longrightarrow> length c \<le> n)"

lemma common_eqI: "longest a b n \<Longrightarrow> common a b = n"
proof -
  assume l: "longest a b n"
  then have "\<forall>m \<in> length ` common_subseqs a b. m \<le> n" by (auto simp: longest_def common_subseqs_def)
  moreover have "n \<in> length ` common_subseqs a b" using l by (auto simp: longest_def common_subseqs_def)
  moreover have "finite (length ` common_subseqs a b)" using calculation(1) finite_nat_set_iff_bounded_le by blast
  ultimately show ?thesis unfolding common_def by (intro Max_eqI) blast+
qed

lemma longest_common: "longest a b (common a b)"
proof -
  have fin: "finite (length ` common_subseqs a b)"
    by (rule finite_subset[of _ "{..length a}"]) (auto simp: common_subseqs_def dest: list_emb_length)
  have ne: "length ` common_subseqs a b \<noteq> {}" by (auto simp: common_subseqs_def intro!: exI[of _ "[]"])
  have "common a b \<in> length ` common_subseqs a b" unfolding common_def by (rule Max_in[OF fin ne])
  moreover have "length c \<le> common a b" if "subseq c a" "subseq c b" for c
    unfolding common_def using that fin by (intro Max_ge) (auto simp: common_subseqs_def)
  ultimately show ?thesis unfolding longest_def by (auto simp: common_subseqs_def)
qed

lemma common_Nil [simp]: "common [] b = 0" "common a [] = 0"
  by (rule common_eqI, simp add: longest_def)+

lemma subseq_snoc: "subseq c (a @ [x]) \<longleftrightarrow> subseq c a \<or> (\<exists>d. c = d @ [x] \<and> subseq d a)"
proof
  assume "subseq c (a @ [x])"
  then obtain c1 c2 where c: "c = c1 @ c2" "subseq c1 a" "subseq c2 [x]" by (auto simp: subseq_append_iff)
  then have "c2 = [] \<or> c2 = [x]" by (cases c2) (auto elim!: list_emb.cases split: if_splits)
  then show "subseq c a \<or> (\<exists>d. c = d @ [x] \<and> subseq d a)" using c by auto
next
  assume "subseq c a \<or> (\<exists>d. c = d @ [x] \<and> subseq d a)"
  then show "subseq c (a @ [x])" by (auto simp: list_emb_append_mono intro: list_emb_append2)
qed

lemma common_same: "common (a @ [x]) (b @ [x]) = common a b + 1"
proof (rule common_eqI)
  obtain c where c: "subseq c a" "subseq c b" "length c = common a b" using longest_common[of a b] by (auto simp: longest_def)
  have max: "length d \<le> common a b" if "subseq d a" "subseq d b" for d using longest_common[of a b] that by (simp add: longest_def)
  have "length d \<le> common a b + 1" if d: "subseq d (a @ [x])" "subseq d (b @ [x])" for d
  proof (cases d rule: rev_cases)
    case (snoc e z)
    have "subseq e a" "subseq e b" using d unfolding snoc subseq_snoc by (auto dest: list_emb_appendD intro: subseq_order.trans list_emb_append2)
    then show ?thesis using max snoc by fastforce
  qed simp
  moreover have "subseq (c @ [x]) (a @ [x])" "subseq (c @ [x]) (b @ [x])" using c by (simp_all add: list_emb_append_mono)
  ultimately show "longest (a @ [x]) (b @ [x]) (common a b + 1)" using c(3) unfolding longest_def by (metis length_append_singleton Suc_eq_plus1)
qed

lemma common_differ:
  assumes "x \<noteq> y"
  shows "common (a @ [x]) (b @ [y]) = max (common a (b @ [y])) (common (a @ [x]) b)"
proof (rule common_eqI)
  let ?m = "max (common a (b @ [y])) (common (a @ [x]) b)"
  have "length d \<le> ?m" if d: "subseq d (a @ [x])" "subseq d (b @ [y])" for d
  proof -
    have "subseq d a \<or> subseq d b" using d assms by (auto simp: subseq_snoc)
    then show ?thesis using d longest_common[of a "b @ [y]"] longest_common[of "a @ [x]" b] unfolding longest_def
      by (meson max.coboundedI1 max.coboundedI2)
  qed
  moreover have "\<exists>c. subseq c (a @ [x]) \<and> subseq c (b @ [y]) \<and> length c = ?m"
    using longest_common[of a "b @ [y]"] longest_common[of "a @ [x]" b] unfolding longest_def max_def subseq_snoc by metis
  ultimately show "longest (a @ [x]) (b @ [y]) ?m" unfolding longest_def by blast
qed

section \<open>The rows\<close>

definition row_holds :: "string list \<Rightarrow> string list \<Rightarrow> nat \<Rightarrow> nat list \<Rightarrow> bool" where
  "row_holds p b k r \<longleftrightarrow> length r = length b + 1 \<and> (\<forall>j \<le> k. r ! j = common p (take j b))"

lemma cell_holds:
  assumes "row_holds p b (length b) prev" and "row_holds (p @ [x]) b k cur" and "k < length b"
  shows "row_holds (p @ [x]) b (Suc k) (lcs_cell x b prev (Suc k) cur)"
proof -
  have "take (Suc k) b = take k b @ [b ! k]" using assms(3) by (simp add: take_Suc_conv_app_nth)
  then have "common (p @ [x]) (take (Suc k) b) =
      (if x = b ! k then prev ! k + 1 else if cur ! k \<le> prev ! Suc k then prev ! Suc k else cur ! k)"
    using assms by (auto simp: row_holds_def common_same common_differ)
  then show ?thesis using assms(2,3) by (auto simp: row_holds_def lcs_cell_def nth_list_update le_Suc_eq)
qed

lemma row_step:
  assumes "row_holds p b (length b) prev" and "length cur = length b + 1" and "cur ! 0 = 0"
  shows "row_holds (p @ [x]) b (length b) (fold (lcs_cell x b prev) [1..<Suc (length b)] cur)"
proof -
  have "row_holds (p @ [x]) b k (fold (lcs_cell x b prev) [1..<Suc k] cur)" if "k \<le> length b" for k
    using that
  proof (induction k)
    case 0
    then show ?case using assms(2,3) by (simp add: row_holds_def)
  next
    case (Suc k)
    then have "row_holds (p @ [x]) b k (fold (lcs_cell x b prev) [1..<Suc k] cur)" "k < length b" by simp_all
    from cell_holds[OF assms(1) this] show ?case by simp
  qed
  then show ?thesis by simp
qed

lemma rows_hold:
  assumes "row_holds p b (length b) r" and "length s = length b + 1" and "s ! 0 = 0"
  shows "row_holds (p @ a) b (length b) (fst (fold (lcs_row b) a (r, s)))"
  using assms
proof (induction a arbitrary: p r s)
  case (Cons x a)
  let ?r = "fold (lcs_cell x b r) [1..<Suc (length b)] s"
  have "row_holds (p @ [x]) b (length b) ?r" using row_step Cons.prems by blast
  moreover have "length r = length b + 1" "r ! 0 = 0" using Cons.prems(1) by (simp_all add: row_holds_def)
  ultimately have "row_holds ((p @ [x]) @ a) b (length b) (fst (fold (lcs_row b) a (?r, r)))" by (rule Cons.IH)
  moreover have "lcs_row b x (r, s) = (?r, r)" by (simp add: lcs_row_def)
  ultimately show ?case by (simp only: fold_simps append_assoc append_Cons append_Nil)
qed simp

lemma lcs_common: "lcs a b = common a b"
proof (cases "a = [] \<or> b = []")
  case False
  let ?z = "replicate (length b + 1) (0 :: nat)"
  have "row_holds [] b (length b) ?z" by (simp add: row_holds_def del: replicate_Suc)
  from rows_hold[OF this, of ?z a] have "row_holds a b (length b) (fst (fold (lcs_row b) a (?z, ?z)))"
    by (simp del: replicate.simps add: nth_replicate)
  then show ?thesis using False by (simp add: lcs_def row_holds_def)
qed (auto simp: lcs_def)

end
