(* ===== verification/Diff_Scan.thy ===== *)
theory Diff_Scan
  imports Diff
begin

text \<open>
  The walk of a directory against a lookup by path: the entries of a scan are those of the nodes that
  can be reached from the root through the entries the walk gets to, each path once.
\<close>

definition name_ok :: "string \<Rightarrow> bool" where
  "name_ok n \<longleftrightarrow> n \<noteq> [] \<and> slash \<notin> set n"

fun tree_ok :: "ftree \<Rightarrow> bool" where
  "tree_ok (Folder _ _ (Some ts)) \<longleftrightarrow> distinct (map f_name ts) \<and> list_all (\<lambda>t. name_ok (f_name t) \<and> tree_ok t) ts"
| "tree_ok _ \<longleftrightarrow> True"

definition trees_ok :: "ftree list \<Rightarrow> bool" where
  "trees_ok ts \<longleftrightarrow> distinct (map f_name ts) \<and> list_all (\<lambda>t. name_ok (f_name t) \<and> tree_ok t) ts"

fun find_node :: "ftree list \<Rightarrow> string list \<Rightarrow> ftree option" where
  "find_node ts [] = None"
| "find_node ts (n # ns) =
     (case find (\<lambda>t. f_name t = n) ts of None \<Rightarrow> None
      | Some t \<Rightarrow> if ns = [] then Some t
                  else case t of Folder _ _ (Some us) \<Rightarrow> find_node us ns | _ \<Rightarrow> None)"

text \<open>What the manifest says of a node, when it says anything.\<close>

definition entry_at :: "(bytes \<Rightarrow> string) \<Rightarrow> string \<Rightarrow> ftree \<Rightarrow> manifest_entry option" where
  "entry_at sha rel t =
     (case (f_perm t, t) of
        (Some p, Folder _ _ _) \<Rightarrow> Some \<lparr>me_Path = rel, me_Mode = mode_text p, me_Dir = True, me_Link = [], me_Size = 0, me_SHA256 = []\<rparr>
      | (Some p, Symlink _ _ target) \<Rightarrow>
          Some \<lparr>me_Path = rel, me_Mode = mode_text p, me_Dir = False, me_Link = target, me_Size = 0, me_SHA256 = []\<rparr>
      | (Some p, Regular _ _ sz (Some b)) \<Rightarrow>
          Some \<lparr>me_Path = rel, me_Mode = mode_text p, me_Dir = False, me_Link = [], me_Size = sz, me_SHA256 = sha b\<rparr>
      | _ \<Rightarrow> None)"

text \<open>The entries of the root the walk gets to: up to a \<open>lost+found\<close> that is not a directory.\<close>

definition reached :: "ftree list \<Rightarrow> ftree list" where
  "reached ts = filter (\<lambda>t. f_name t \<noteq> lost_found) (takeWhile (\<lambda>t. f_name t \<noteq> lost_found \<or> is_folder t) ts)"

definition entries_of :: "(bytes \<Rightarrow> string) \<Rightarrow> string \<Rightarrow> ftree list \<Rightarrow> manifest_entry set" where
  "entries_of sha dir ts = {e. \<exists>ns t. find_node ts ns = Some t \<and> entry_at sha (rel_join dir (join ns [slash])) t = Some e}"

lemma visit_entry:
  assumes "rel \<noteq> lost_found" and "visit sha rel t = (es, r)"
  shows "r \<noteq> SkipDir" and "r = GoOn \<Longrightarrow> set es = set_option (entry_at sha rel t)" and "length es \<le> 1"
    and "r = GoOn \<or> (\<exists>x. r = Stop x)"
  using assms by (cases t; auto simp: visit_def entry_at_def Let_def split: option.splits)+

lemma entry_path: "entry_at sha rel t = Some e \<Longrightarrow> me_Path e = rel"
  by (cases t) (auto simp: entry_at_def split: option.splits)

lemma rel_join_seg: "dir \<noteq> [] \<Longrightarrow> rel_join dir n = dir @ slash # n"
  by (simp add: rel_join_def)

lemma rel_join_Cons: "ns \<noteq> [] \<Longrightarrow> n \<noteq> [] \<Longrightarrow> rel_join dir (join (n # ns) [slash]) = rel_join (rel_join dir n) (join ns [slash])"
  by (cases ns) (auto simp: rel_join_def)

lemma no_slash_lost: "slash \<notin> set lost_found"
  by (simp add: lost_found_def slash_def)

lemma rel_join_lost: "dir \<noteq> [] \<or> n \<noteq> lost_found \<Longrightarrow> rel_join dir n \<noteq> lost_found"
proof
  assume d: "dir \<noteq> [] \<or> n \<noteq> lost_found" and eq: "rel_join dir n = lost_found"
  then have "dir @ slash # n = lost_found" by (auto simp: rel_join_def split: if_splits)
  then have "slash \<in> set lost_found" by (metis in_set_conv_decomp)
  then show False using no_slash_lost by simp
qed

lemma rel_join_not_Nil: "name_ok n \<Longrightarrow> rel_join dir n \<noteq> []"
  by (auto simp: rel_join_def name_ok_def)

lemma trees_ok_Cons: "trees_ok (t # ts) \<longleftrightarrow> f_name t \<notin> f_name ` set ts \<and> name_ok (f_name t) \<and> tree_ok t \<and> trees_ok ts"
  by (auto simp: trees_ok_def)

lemma tree_ok_Folder: "tree_ok (Folder n p (Some us)) \<longleftrightarrow> trees_ok us"
  by (simp add: trees_ok_def)

lemma find_node_not_Nil: "find_node ts ns = Some t \<Longrightarrow> ns \<noteq> []"
  by (cases ns) auto

lemma find_node_Nil [simp]: "find_node [] ns = None"
  by (cases ns) auto

text \<open>A forest is its first tree and the rest.\<close>

definition kids :: "ftree \<Rightarrow> ftree list" where
  "kids t = (case t of Folder _ _ (Some us) \<Rightarrow> us | _ \<Rightarrow> [])"

definition entries_under :: "(bytes \<Rightarrow> string) \<Rightarrow> string \<Rightarrow> ftree \<Rightarrow> manifest_entry set" where
  "entries_under sha rel t =
     set_option (entry_at sha rel t) \<union> entries_of sha rel (kids t)"

lemma entries_of_Nil [simp]: "entries_of sha dir [] = {}"
  by (simp add: entries_of_def)

lemma find_node_first:
  "find_node (t # ts) (f_name t # ns) =
     (if ns = [] then Some t else find_node (kids t) ns)"
  by (cases t) (simp_all add: kids_def split: option.splits)

lemma find_node_other: "ns \<noteq> [] \<Longrightarrow> hd ns \<noteq> f_name t \<Longrightarrow> find_node (t # ts) ns = find_node ts ns"
  by (cases ns) auto

lemma find_node_head: "find_node ts ns = Some t \<Longrightarrow> hd ns \<in> f_name ` set ts"
  by (cases ns) (auto simp: find_Some_iff split: option.splits)

lemma entries_first:
  assumes "name_ok (f_name t)"
  shows "{e. \<exists>ns u. find_node (t # ts) (f_name t # ns) = Some u \<and>
            entry_at sha (rel_join dir (join (f_name t # ns) [slash])) u = Some e} =
         entries_under sha (rel_join dir (f_name t)) t"
    (is "{e. \<exists>ns u. ?P ns u e} = _")
proof -
  have n: "f_name t \<noteq> []" using assms by (simp add: name_ok_def)
  have one: "?P [] u e \<longleftrightarrow> u = t \<and> entry_at sha (rel_join dir (f_name t)) t = Some e" for u e
    unfolding find_node_first by auto
  have more: "?P ns u e \<longleftrightarrow> find_node (kids t) ns = Some u \<and> entry_at sha (rel_join (rel_join dir (f_name t)) (join ns [slash])) u = Some e"
    if "ns \<noteq> []" for ns u e
    unfolding find_node_first rel_join_Cons[OF that n, of dir] using that by simp
  have deep: "(\<exists>ns u. ns \<noteq> [] \<and> ?P ns u e) \<longleftrightarrow> e \<in> entries_of sha (rel_join dir (f_name t)) (kids t)" for e
  proof
    assume "\<exists>ns u. ns \<noteq> [] \<and> ?P ns u e"
    then obtain ns u where nu: "ns \<noteq> []" "?P ns u e" by blast
    show "e \<in> entries_of sha (rel_join dir (f_name t)) (kids t)"
      unfolding entries_of_def mem_Collect_eq by (rule exI, rule exI, rule iffD1[OF more[OF nu(1)] nu(2)])
  next
    assume "e \<in> entries_of sha (rel_join dir (f_name t)) (kids t)"
    then obtain ns u where nu: "find_node (kids t) ns = Some u" "entry_at sha (rel_join (rel_join dir (f_name t)) (join ns [slash])) u = Some e"
      unfolding entries_of_def by blast
    have "ns \<noteq> []" by (rule find_node_not_Nil[OF nu(1)])
    moreover have "?P ns u e" by (rule iffD2[OF more[OF calculation] conjI[OF nu]])
    ultimately show "\<exists>ns u. ns \<noteq> [] \<and> ?P ns u e" by blast
  qed
  show ?thesis
  proof (rule set_eqI)
    fix e
    have split: "(\<exists>ns u. P ns u) \<longleftrightarrow> (\<exists>u. P [] u) \<or> (\<exists>ns u. ns \<noteq> [] \<and> P ns u)" for P :: "string list \<Rightarrow> ftree \<Rightarrow> bool" by metis
    have "e \<in> {e. \<exists>ns u. ?P ns u e} \<longleftrightarrow> (\<exists>u. ?P [] u e) \<or> (\<exists>ns u. ns \<noteq> [] \<and> ?P ns u e)"
      unfolding mem_Collect_eq by (rule split)
    then show "e \<in> {e. \<exists>ns u. ?P ns u e} \<longleftrightarrow> e \<in> entries_under sha (rel_join dir (f_name t)) t"
      unfolding deep one entries_under_def by auto
  qed
qed

lemma entries_of_Cons:
  assumes "trees_ok (t # ts)"
  shows "entries_of sha dir (t # ts) = entries_under sha (rel_join dir (f_name t)) t \<union> entries_of sha dir ts"
proof -
  let ?Q = "\<lambda>fs ns u e. find_node fs ns = Some u \<and> entry_at sha (rel_join dir (join ns [slash])) u = Some e"
  have "?Q (t # ts) ns u e \<longleftrightarrow> (\<exists>ms. ns = f_name t # ms \<and> ?Q (t # ts) (f_name t # ms) u e) \<or> ?Q ts ns u e" for ns u e
  proof (cases "ns \<noteq> [] \<and> hd ns = f_name t")
    case True
    then obtain ms where "ns = f_name t # ms" by (cases ns) auto
    moreover have "find_node ts ns \<noteq> Some u" using True assms find_node_head[of ts ns u] by (auto simp: trees_ok_Cons)
    ultimately show ?thesis by auto
  next
    case False
    then have "find_node (t # ts) ns = find_node ts ns" "\<nexists>ms. ns = f_name t # ms"
      using find_node_other[of ns t ts] by (cases "ns = []"; auto)+
    then show ?thesis by simp
  qed
  note q = this
  have split: "(\<And>ns u e. Q ns u e \<longleftrightarrow> (\<exists>ms. ns = n # ms \<and> Q (n # ms) u e) \<or> R ns u e) \<Longrightarrow>
      {e. \<exists>ns u. Q ns u e} = {e. \<exists>ms u. Q (n # ms) u e} \<union> {e. \<exists>ns u. R ns u e}"
    for Q R :: "string list \<Rightarrow> ftree \<Rightarrow> manifest_entry \<Rightarrow> bool" and n
  proof (rule set_eqI)
    fix e assume Q: "\<And>ns u e. Q ns u e \<longleftrightarrow> (\<exists>ms. ns = n # ms \<and> Q (n # ms) u e) \<or> R ns u e"
    have "(\<exists>ns u. Q ns u e) \<longleftrightarrow> (\<exists>ms u. Q (n # ms) u e) \<or> (\<exists>ns u. R ns u e)"
    proof
      assume "\<exists>ns u. Q ns u e"
      then obtain ns u where "Q ns u e" by blast
      then show "(\<exists>ms u. Q (n # ms) u e) \<or> (\<exists>ns u. R ns u e)" using Q[of ns u e] by blast
    next
      assume "(\<exists>ms u. Q (n # ms) u e) \<or> (\<exists>ns u. R ns u e)"
      moreover have "Q ns u e" if "R ns u e" for ns u using Q[of ns u e] that by (rule iffD2[OF _ disjI2])
      ultimately show "\<exists>ns u. Q ns u e" by (elim disjE exE) (intro exI, assumption)+
    qed
    then show "e \<in> {e. \<exists>ns u. Q ns u e} \<longleftrightarrow> e \<in> {e. \<exists>ms u. Q (n # ms) u e} \<union> {e. \<exists>ns u. R ns u e}"
      unfolding Un_iff mem_Collect_eq .
  qed
  have "entries_of sha dir (t # ts) = {e. \<exists>ms u. ?Q (t # ts) (f_name t # ms) u e} \<union> entries_of sha dir ts"
    unfolding entries_of_def by (rule split[where Q = "?Q (t # ts)" and R = "?Q ts" and n = "f_name t"]) (rule q)
  also have "{e. \<exists>ms u. ?Q (t # ts) (f_name t # ms) u e} = entries_under sha (rel_join dir (f_name t)) t"
    using entries_first[of t ts sha dir] assms unfolding trees_ok_Cons by blast
  finally show ?thesis .
qed

text \<open>The walk.\<close>

lemma walk_deep:
  fixes t :: ftree and ts :: "ftree list"
  shows "rel \<noteq> lost_found \<Longrightarrow> rel \<noteq> [] \<Longrightarrow> tree_ok t \<Longrightarrow> walk_node sha rel t = (es, r) \<Longrightarrow> r = GoOn \<or> r = SkipDir \<Longrightarrow>
      r = GoOn \<and> set es = entries_under sha rel t"
    and "dir \<noteq> [] \<Longrightarrow> trees_ok ts \<Longrightarrow> walk_nodes sha dir ts = (es, r) \<Longrightarrow> r = GoOn \<or> r = SkipDir \<Longrightarrow>
      r = GoOn \<and> set es = entries_of sha dir ts"
proof (induction sha rel t and sha dir ts arbitrary: es r and es r rule: walk_node_walk_nodes.induct)
  case (1 sha rel t)
  obtain fs q where v: "visit sha rel t = (fs, q)" by fastforce
  note vis = visit_entry[OF 1(2) v]
  have q: "q = GoOn" using vis(1,4) 1(5,6) by (auto simp: walk_node.simps v)
  show ?case
  proof (cases "\<exists>n p us. t = Folder n p (Some us)")
    case True
    then obtain n p us where t: "t = Folder n p (Some us)" by blast
    obtain gs s where w: "walk_nodes sha rel us = (gs, s)" by fastforce
    have "es = fs @ gs" "r = s" using 1(5) v[unfolded t] by (simp_all add: walk_node.simps q t w)
    moreover have "trees_ok us" using 1(4) unfolding t tree_ok_Folder .
    ultimately have "s = GoOn \<and> set gs = entries_of sha rel us" using 1(1)[OF v[symmetric] q t _ 1(3) _ w] 1(6) by simp
    then show ?thesis using \<open>es = fs @ gs\<close> \<open>r = s\<close> vis(2) q by (simp add: entries_under_def kids_def t)
  next
    case False
    have "walk_node sha rel t = (case t of
             Folder _ _ (Some ts) \<Rightarrow> (let (gs, r) = walk_nodes sha rel ts in (fs @ gs, r))
           | Folder _ _ None \<Rightarrow> (fs, Stop (CannotList rel))
           | _ \<Rightarrow> (fs, GoOn))" by (simp add: walk_node.simps v q)
    then have "es = fs \<and> r = GoOn \<and> kids t = []" using 1(5,6) False by (cases t) (auto simp: kids_def split: option.splits)
    then show ?thesis using vis(2) q by (simp add: entries_under_def)
  qed
next
  case (3 sha dir t ts)
  let ?rel = "rel_join dir (f_name t)"
  have ok: "name_ok (f_name t)" "tree_ok t" "trees_ok ts" using 3(4) by (simp_all add: trees_ok_Cons)
  obtain fs q where n: "walk_node sha ?rel t = (fs, q)" by fastforce
  obtain gs s where w: "walk_nodes sha dir ts = (gs, s)" by fastforce
  have q: "q = GoOn \<or> q = SkipDir" using 3(5,6) n by (cases q) auto
  have one: "q = GoOn \<and> set fs = entries_under sha ?rel t"
    by (rule 3(1)[OF _ _ ok(2) n q]) (use rel_join_lost 3(3) rel_join_not_Nil[OF ok(1)] in auto)
  then have e: "es = fs @ gs" "r = s" using 3(5) by (simp_all add: n w)
  have "s = GoOn \<and> set gs = entries_of sha dir ts" using 3(2)[OF n[symmetric] _ 3(3) ok(3) w] one e(2) 3(6) by simp
  then show ?case using one e entries_of_Cons[OF 3(4), of sha dir] by simp
qed auto

lemma rel_join_root: "rel_join [] n = n"
  by (simp add: rel_join_def)

lemma walk_root:
  "trees_ok ts \<Longrightarrow> walk_nodes sha [] ts = (es, r) \<Longrightarrow> r = GoOn \<or> r = SkipDir \<Longrightarrow> set es = entries_of sha [] (reached ts)"
proof (induction ts arbitrary: es r)
  case (Cons t ts)
  have ok: "name_ok (f_name t)" "tree_ok t" "trees_ok ts" using Cons.prems(1) by (simp_all add: trees_ok_Cons)
  obtain fs q where n: "walk_node sha (f_name t) t = (fs, q)" by fastforce
  obtain gs s where w: "walk_nodes sha [] ts = (gs, s)" by fastforce
  show ?case
  proof (cases "f_name t = lost_found")
    case True
    then have v: "fs = []" "q = (if is_folder t then GoOn else SkipDir)" using n by (simp_all add: walk_node.simps visit_def)
    show ?thesis
    proof (cases "is_folder t")
      case f: True
      then have "es = gs" "r = s" using Cons.prems(2) v n[unfolded True] by (simp_all add: rel_join_root w True)
      then show ?thesis using Cons.IH[OF ok(3) w] Cons.prems(3) True f by (simp add: reached_def)
    next
      case False
      then show ?thesis using Cons.prems(2) v True n[unfolded True] by (simp add: rel_join_root reached_def)
    qed
  next
    case False
    have q: "q = GoOn \<or> q = SkipDir" using Cons.prems(2,3) n by (cases q) (auto simp: rel_join_root)
    have one: "q = GoOn \<and> set fs = entries_under sha (f_name t) t"
      by (rule walk_deep(1)[OF False _ ok(2) n q]) (use ok(1) in \<open>simp add: name_ok_def\<close>)
    then have e: "es = fs @ gs" "r = s" using Cons.prems(2) by (simp_all add: rel_join_root n w)
    have "set gs = entries_of sha [] (reached ts)" using Cons.IH[OF ok(3) w] Cons.prems(3) e(2) by simp
    moreover have "reached (t # ts) = t # reached ts" using False by (simp add: reached_def)
    moreover have "trees_ok (t # reached ts)"
      using Cons.prems(1) by (auto simp: trees_ok_def reached_def list_all_iff distinct_map intro: inj_on_subset dest: set_takeWhileD)
    ultimately show ?thesis using one e entries_of_Cons[of t "reached ts" sha "[]"] by (simp add: rel_join_root)
  qed
qed (simp add: reached_def)

section \<open>Each path once\<close>

definition under :: "string \<Rightarrow> string \<Rightarrow> bool" where
  "under rel p \<longleftrightarrow> p = rel \<or> hasPrefix p (rel @ [slash])"

lemma under_join: "rel \<noteq> [] \<Longrightarrow> under (rel_join rel n) p \<Longrightarrow> hasPrefix p (rel @ [slash]) \<and> p \<noteq> rel"
  by (auto simp: under_def rel_join_def hasPrefix_iff)

lemma under_name:
  assumes "slash \<notin> set n" and "slash \<notin> set m" and "under (rel_join dir n) p" and "under (rel_join dir m) p"
  shows "n = m"
proof -
  have "takeWhile (\<lambda>c. c \<noteq> slash) (drop (if dir = [] then 0 else Suc (length dir)) p) = k"
    if "slash \<notin> set k" "under (rel_join dir k) p" for k
  proof -
    have tw: "takeWhile (\<lambda>c. c \<noteq> slash) (k @ slash # t) = k" "takeWhile (\<lambda>c. c \<noteq> slash) k = k" for t
      using that(1) by (induction k) auto
    show ?thesis using that(2) by (auto simp: under_def rel_join_def hasPrefix_iff tw)
  qed
  then show ?thesis using assms by blast
qed

lemma visit_path: "visit sha rel t = (es, r) \<Longrightarrow> length es \<le> 1 \<and> (\<forall>e \<in> set es. me_Path e = rel)"
  by (cases t) (auto simp: visit_def Let_def split: if_splits option.splits)

lemma walk_distinct:
  fixes t :: ftree and ts :: "ftree list"
  shows "rel \<noteq> [] \<Longrightarrow> tree_ok t \<Longrightarrow> distinct (map me_Path (fst (walk_node sha rel t))) \<and>
      (\<forall>e \<in> set (fst (walk_node sha rel t)). under rel (me_Path e))"
    and "trees_ok ts \<Longrightarrow> distinct (map me_Path (fst (walk_nodes sha dir ts))) \<and>
      (\<forall>e \<in> set (fst (walk_nodes sha dir ts)). \<exists>t \<in> set ts. under (rel_join dir (f_name t)) (me_Path e))"
proof (induction sha rel t and sha dir ts rule: walk_node_walk_nodes.induct)
  case (1 sha rel t)
  obtain fs q where v: "visit sha rel t = (fs, q)" by fastforce
  have vp: "length fs \<le> 1" "\<forall>e \<in> set fs. me_Path e = rel" using visit_path[OF v] by simp_all
  have d: "distinct (map me_Path fs)" using vp(1) by (cases fs) auto
  have wn: "walk_node sha rel t = (case q of
        GoOn \<Rightarrow> (case t of
             Folder _ _ (Some ts) \<Rightarrow> (let (gs, r) = walk_nodes sha rel ts in (fs @ gs, r))
           | Folder _ _ None \<Rightarrow> (fs, Stop (CannotList rel))
           | _ \<Rightarrow> (fs, GoOn))
      | SkipDir \<Rightarrow> (fs, if is_folder t then GoOn else SkipDir)
      | Stop x \<Rightarrow> (fs, Stop x))" by (simp add: walk_node.simps v)
  have own: "fst (walk_node sha rel t) = fs \<or> (\<exists>n p us. t = Folder n p (Some us) \<and> q = GoOn \<and>
      fst (walk_node sha rel t) = fs @ fst (walk_nodes sha rel us))"
    unfolding wn by (cases q; cases t) (auto split: option.splits prod.splits)
  then show ?case
  proof (elim disjE exE conjE)
    fix n p us assume t: "t = Folder n p (Some us)" and q: "q = GoOn" and w: "fst (walk_node sha rel t) = fs @ fst (walk_nodes sha rel us)"
    have "trees_ok us" using 1(3) unfolding t tree_ok_Folder .
    then have ih: "distinct (map me_Path (fst (walk_nodes sha rel us)))"
      "\<forall>e \<in> set (fst (walk_nodes sha rel us)). \<exists>t \<in> set us. under (rel_join rel (f_name t)) (me_Path e)"
      using 1(1)[OF v[symmetric] q t refl] by simp_all
    then have "\<forall>e \<in> set (fst (walk_nodes sha rel us)). hasPrefix (me_Path e) (rel @ [slash]) \<and> me_Path e \<noteq> rel"
      using under_join[OF 1(2)] by blast
    then show ?thesis unfolding w using d ih(1) vp(2) by (auto simp: under_def)
  qed (use d vp(2) in \<open>simp add: under_def\<close>)
next
  case (3 sha dir t ts)
  let ?rel = "rel_join dir (f_name t)"
  have ok: "name_ok (f_name t)" "tree_ok t" "trees_ok ts" using 3(3) by (simp_all add: trees_ok_Cons)
  obtain fs q where n: "walk_node sha ?rel t = (fs, q)" by fastforce
  have one: "distinct (map me_Path fs)" "\<forall>e \<in> set fs. under ?rel (me_Path e)"
    using 3(1)[OF rel_join_not_Nil[OF ok(1)] ok(2)] by (simp_all add: n)
  show ?case
  proof (cases "q = GoOn")
    case True
    let ?gs = "fst (walk_nodes sha dir ts)"
    have ih: "distinct (map me_Path ?gs)" "\<forall>e \<in> set ?gs. \<exists>u \<in> set ts. under (rel_join dir (f_name u)) (me_Path e)"
      using 3(2)[OF n[symmetric] True ok(3)] by simp_all
    have "me_Path e \<noteq> me_Path g" if eg: "e \<in> set fs" "g \<in> set ?gs" for e g
    proof
      assume eq: "me_Path e = me_Path g"
      obtain u where u: "u \<in> set ts" "under (rel_join dir (f_name u)) (me_Path g)" using ih(2) eg(2) by blast
      have "slash \<notin> set (f_name u)" "slash \<notin> set (f_name t)" using ok(1,3) u(1) by (auto simp: trees_ok_def list_all_iff name_ok_def)
      then have "f_name u = f_name t" using under_name one(2) eg(1) u(2) unfolding eq[symmetric] by blast
      moreover have "f_name t \<notin> f_name ` set ts" using 3(3) unfolding trees_ok_Cons by blast
      ultimately show False using u(1) by (metis image_eqI)
    qed
    then have dj: "distinct (map me_Path (fs @ ?gs))" using one(1) ih(1) by (auto simp: image_iff)
    have "fst (walk_nodes sha dir (t # ts)) = fs @ ?gs" using True by (simp add: n split: prod.splits)
    then show ?thesis using dj one(2) ih(2) by (auto simp del: walk_nodes.simps)
  next
    case False
    then have "fst (walk_nodes sha dir (t # ts)) = fs" by (cases q) (simp_all add: n)
    then show ?thesis using one by (simp del: walk_nodes.simps)
  qed
qed simp

end
