(* ===== verification/Diff_Properties.thy ===== *)
theory Diff_Properties
  imports Diff_Lines Diff_Scan
begin

text \<open>
  What a review of a workspace is shown: every path of the two manifests once, with the change the
  manifests make of it; the lines of a changed file counted by a longest common subsequence.
\<close>

text \<open>What is on disk under a path, and the change two entries of one path make.\<close>

definition entry_for :: "manifest_entry list \<Rightarrow> string \<Rightarrow> manifest_entry option" where
  "entry_for es p = find (\<lambda>e. me_Path e = p) es"

definition same_entry :: "manifest_entry \<Rightarrow> manifest_entry \<Rightarrow> bool" where
  "same_entry was e \<longleftrightarrow> me_Mode was = me_Mode e \<and> me_Dir was = me_Dir e \<and>
     (me_Dir e \<or> me_SHA256 was = me_SHA256 e \<and> me_Link was = me_Link e)"

text \<open>What the comparison asks; it sees neither a new target nor a file in the place of a directory.\<close>

definition looks_same :: "manifest_entry \<Rightarrow> manifest_entry \<Rightarrow> bool" where
  "looks_same was e \<longleftrightarrow> me_Mode was = me_Mode e \<and> (me_Dir was \<or> me_Dir e \<or> me_SHA256 was = me_SHA256 e)"

text \<open>No path became a directory or ceased to be one, and no link has a new target.\<close>

definition kinds_kept :: "manifest_entry list \<Rightarrow> manifest_entry list \<Rightarrow> bool" where
  "kinds_kept packed now \<longleftrightarrow> (\<forall>p. case (entry_for packed p, entry_for now p) of
     (Some w, Some e) \<Rightarrow> me_Dir w = me_Dir e \<and> (me_SHA256 w = me_SHA256 e \<longrightarrow> me_Dir e \<or> me_Link w = me_Link e)
   | _ \<Rightarrow> True)"

lemma kept_looks:
  "kinds_kept packed now \<Longrightarrow> entry_for packed p = Some w \<Longrightarrow> entry_for now p = Some e \<Longrightarrow> looks_same w e = same_entry w e"
  unfolding kinds_kept_def looks_same_def same_entry_def by (drule spec[of _ p]) auto

definition modified_change ::
  "(string \<Rightarrow> bytes option) \<Rightarrow> (string \<Rightarrow> bytes option) \<Rightarrow> manifest_entry \<Rightarrow> manifest_entry \<Rightarrow> change" where
  "modified_change nowFile oldFile was e =
     (let c = no_change\<lparr>cg_Path := me_Path e, cg_Kind := CHR ''M'',
                         cg_Mode := if me_Mode was = me_Mode e then [] else mode_arrow was e\<rparr>
      in if me_Dir was \<or> me_Dir e \<or> me_SHA256 was = me_SHA256 e then c
         else case diffCounts nowFile oldFile (me_Path e) of (a, r, bin) \<Rightarrow>
           c\<lparr>cg_Bytes := me_Size e - me_Size was, cg_Added := a, cg_Removed := r, cg_Binary := bin\<rparr>)"

definition change_at ::
  "(string \<Rightarrow> bytes option) \<Rightarrow> (string \<Rightarrow> bytes option) \<Rightarrow> manifest_entry option \<Rightarrow> manifest_entry option \<Rightarrow> change list" where
  "change_at nowFile oldFile was new =
     (case (was, new) of
        (None, None) \<Rightarrow> []
      | (None, Some e) \<Rightarrow> [added_change nowFile e]
      | (Some w, None) \<Rightarrow> [deleted_change w]
      | (Some w, Some e) \<Rightarrow> if same_entry w e then [] else [modified_change nowFile oldFile w e])"

lemma entry_for_Cons: "entry_for (e # es) p = (if me_Path e = p then Some e else entry_for es p)"
  by (simp add: entry_for_def)

lemma entry_for_Nil [simp]: "entry_for [] p = None"
  by (simp add: entry_for_def)

lemma entry_for_None: "entry_for es p = None \<longleftrightarrow> p \<notin> me_Path ` set es"
  by (induction es) (auto simp: entry_for_Cons)

lemma entry_for_path: "entry_for es p = Some e \<Longrightarrow> me_Path e = p"
  by (induction es) (auto simp: entry_for_Cons split: if_splits)

lemma was_entry:
  assumes "distinct (map me_Path packed)"
  shows "m_get (fold (\<lambda>e. m_put (me_Path e) e) packed m) p = (case entry_for packed p of None \<Rightarrow> m_get m p | Some e \<Rightarrow> Some e)"
  using assms
proof (induction packed arbitrary: m)
  case (Cons e es)
  have ih: "m_get (fold (\<lambda>e. m_put (me_Path e) e) es (m_put (me_Path e) e m)) p =
      (case entry_for es p of None \<Rightarrow> m_get (m_put (me_Path e) e m) p | Some x \<Rightarrow> Some x)" using Cons by simp
  have "me_Path e = p \<Longrightarrow> entry_for es p = None" using Cons.prems by (auto simp: entry_for_None)
  then show ?case unfolding fold_simps comp_def ih by (auto simp: entry_for_Cons split: option.splits)
qed (simp split: option.splits)

lemma filter_path_unique:
  assumes "distinct (map me_Path es)" and "\<And>e c. c \<in> set (f e) \<Longrightarrow> cg_Path c = me_Path e"
  shows "filter (\<lambda>c. cg_Path c = p) (concat (map f es)) = (case entry_for es p of None \<Rightarrow> [] | Some e \<Rightarrow> f e)"
  using assms(1)
proof (induction es)
  case (Cons e es)
  have "filter (\<lambda>c. cg_Path c = p) (f e) = (if me_Path e = p then f e else [])"
    using assms(2)[of _ e] by (auto simp: filter_id_conv filter_empty_conv)
  moreover have "me_Path e = p \<Longrightarrow> entry_for es p = None" using Cons.prems by (auto simp: entry_for_None)
  ultimately show ?case using Cons by (simp add: entry_for_Cons)
qed simp

lemma compare_entry_path: "c \<in> set (compare_entry nf af was e) \<Longrightarrow> cg_Path c = me_Path e"
  by (auto simp: compare_entry_def added_change_def Let_def no_change_def split: option.splits if_splits prod.splits)

lemma compare_entry_at:
  "compare_entry nf af was e = (case m_get was (me_Path e) of None \<Rightarrow> [added_change nf e]
     | Some w \<Rightarrow> if looks_same w e then [] else [modified_change nf af w e])"
  by (auto simp: compare_entry_def looks_same_def modified_change_def Let_def no_change_def split: option.splits prod.splits)

lemma filter_sort_key: "filter (\<lambda>x. f x = k) (sort_key f xs) = filter (\<lambda>x. f x = k) xs"
  by (rule stable_sort_key_sort_key[unfolded stable_sort_key_def, rule_format])

lemma deleted_paths:
  assumes "distinct (map me_Path packed)"
  shows "filter (\<lambda>c. cg_Path c = p) (map deleted_change (filter (\<lambda>e. me_Path e \<notin> set (map me_Path now)) packed)) =
    (case entry_for packed p of None \<Rightarrow> [] | Some e \<Rightarrow> if entry_for now p = None then [deleted_change e] else [])"
proof -
  let ?f = "\<lambda>e. if me_Path e \<notin> set (map me_Path now) then [deleted_change e] else []"
  have "map deleted_change (filter (\<lambda>e. me_Path e \<notin> set (map me_Path now)) es) = concat (map ?f es)" for es
    by (induction es) auto
  moreover have "filter (\<lambda>c. cg_Path c = p) (concat (map ?f packed)) = (case entry_for packed p of None \<Rightarrow> [] | Some e \<Rightarrow> ?f e)"
    by (rule filter_path_unique[OF assms]) (auto simp: deleted_change_def no_change_def split: if_splits)
  moreover have "entry_for now p = None \<longleftrightarrow> p \<notin> set (map me_Path now)" by (simp add: entry_for_None)
  ultimately show ?thesis by (auto split: option.splits dest: entry_for_path)
qed

lemma changes_at:
  assumes "distinct (map me_Path packed)" and "distinct (map me_Path now)" and "kinds_kept packed now"
  shows "filter (\<lambda>c. cg_Path c = p) (compare_entries nf af packed now) = change_at nf af (entry_for packed p) (entry_for now p)"
proof -
  let ?was = "fold (\<lambda>e. m_put (me_Path e) e) packed []"
  have "filter (\<lambda>c. cg_Path c = p) (concat (map (compare_entry nf af ?was) now)) =
      (case entry_for now p of None \<Rightarrow> [] | Some e \<Rightarrow> compare_entry nf af ?was e)"
    by (rule filter_path_unique[OF assms(2)]) (rule compare_entry_path)
  moreover have "m_get ?was p = entry_for packed p" by (simp add: was_entry[OF assms(1)] split: option.splits)
  ultimately have "filter (\<lambda>c. cg_Path c = p) (compare_entries nf af packed now) =
      (case entry_for now p of None \<Rightarrow> [] | Some e \<Rightarrow> compare_entry nf af ?was e) @
      (case entry_for packed p of None \<Rightarrow> [] | Some e \<Rightarrow> if entry_for now p = None then [deleted_change e] else [])"
    and was: "m_get ?was p = entry_for packed p"
    unfolding compare_entries_def Let_def filter_sort_key filter_append deleted_paths[OF assms(1)] by simp_all
  moreover have "compare_entry nf af ?was e = change_at nf af (entry_for packed p) (Some e)" if "entry_for now p = Some e" for e
  proof -
    have "me_Path e = p" using that by (rule entry_for_path)
    then show ?thesis unfolding compare_entry_at \<open>me_Path e = p\<close> was change_at_def using kept_looks[OF assms(3) _ that] by (simp split: option.splits)
  qed
  ultimately show ?thesis using entry_for_path[of now p] by (cases "entry_for now p") (auto simp: change_at_def split: option.splits)
qed

lemma scan_walk:
  assumes "scanTree sha (Some (Folder n pm (Some ts))) = Inr es"
  obtains fs r where "walk_nodes sha [] ts = (fs, r)" "r = GoOn \<or> r = SkipDir" "es = sort_key me_Path fs"
  using assms by (auto simp: scanTree_def split: prod.splits walk_end.splits)

lemma scan_distinct:
  assumes "tree_ok (Folder n pm (Some ts))" and "scanTree sha (Some (Folder n pm (Some ts))) = Inr es"
  shows "distinct (map me_Path es)"
proof -
  obtain fs r where w: "walk_nodes sha [] ts = (fs, r)" "es = sort_key me_Path fs" using scan_walk[OF assms(2)] by blast
  have "trees_ok ts" using assms(1) unfolding tree_ok_Folder .
  then have "distinct (map me_Path fs)" using walk_distinct(2)[of ts sha "[]"] by (simp add: w)
  then show ?thesis by (simp add: w distinct_map)
qed

text \<open>
  C30. The lines added and removed of a changed file are those outside a longest common subsequence
  of the two contents, when both are readable text within the limit; otherwise the change is a
  binary one.
\<close>

theorem numstat_exact:
  "diffCounts nowFile oldFile p =
     (case (oldFile p, nowFile p) of
        (Some old, Some new) \<Rightarrow>
          (if isText old \<and> isText new \<and> length (splitLines old) \<le> diffLineLimit \<and> length (splitLines new) \<le> diffLineLimit
           then let most = Max (length ` {c. subseq c (splitLines old) \<and> subseq c (splitLines new)})
                in (length (splitLines new) - most, length (splitLines old) - most, False)
           else (0, 0, True))
      | _ \<Rightarrow> (0, 0, True))"
  by (auto simp: diffCounts_def lcs_common common_def common_subseqs_def Let_def split: option.splits)

text \<open>
  C29. A scan of a readable directory holds exactly the entries of the nodes that can be found by
  path, each path once and in the order of paths. At the root it gets to the entries before the
  first \<open>lost+found\<close> that is not a directory.
\<close>

theorem scan_exact:
  assumes "tree_ok (Folder n pm (Some ts))" and "scanTree sha (Some (Folder n pm (Some ts))) = Inr es"
  shows "set es = {e. \<exists>ns t. find_node (reached ts) ns = Some t \<and> entry_at sha (join ns [slash]) t = Some e} \<and>
    sorted (map me_Path es) \<and> distinct (map me_Path es)"
proof -
  obtain fs r where w: "walk_nodes sha [] ts = (fs, r)" "r = GoOn \<or> r = SkipDir" "es = sort_key me_Path fs"
    using scan_walk[OF assms(2)] by blast
  have "trees_ok ts" using assms(1) unfolding tree_ok_Folder .
  then have "set es = entries_of sha [] (reached ts)" using walk_root w(1,2) by (simp add: w(3))
  then show ?thesis using scan_distinct[OF assms] by (simp add: entries_of_def rel_join_root w(3))
qed

definition demo_tree :: ftree where
  "demo_tree = Folder ''root'' (Some 448) (Some [Regular ''a'' (Some 420) 1 (Some ''x''), Symlink ''b'' (Some 511) ''a''])"

lemma demo_scan:
  "scanTree (\<lambda>b. b) (Some demo_tree) =
     Inr [\<lparr>me_Path = ''a'', me_Mode = mode_text 420, me_Dir = False, me_Link = [], me_Size = 1, me_SHA256 = ''x''\<rparr>,
          \<lparr>me_Path = ''b'', me_Mode = mode_text 511, me_Dir = False, me_Link = ''a'', me_Size = 0, me_SHA256 = []\<rparr>]"
  by (simp add: scanTree_def demo_tree_def walk_node.simps visit_def rel_join_def lost_found_def)

lemma scan_exact_witness:
  "\<exists>es. scanTree (\<lambda>b. b) (Some demo_tree) = Inr es \<and>
    set es = {e. \<exists>ns t. find_node (reached [Regular ''a'' (Some 420) 1 (Some ''x''), Symlink ''b'' (Some 511) ''a'']) ns = Some t \<and>
      entry_at (\<lambda>b. b) (join ns [slash]) t = Some e} \<and> sorted (map me_Path es) \<and> distinct (map me_Path es)"
proof -
  have "tree_ok demo_tree" by (simp add: demo_tree_def name_ok_def slash_def)
  then show ?thesis using scan_exact[OF _ demo_scan[unfolded demo_tree_def]] demo_scan unfolding demo_tree_def by blast
qed

text \<open>
  C28. Of a manifest and the directory that came back, when no path turned into a directory or out of
  one and no symbolic link was given a new target, every path is reported as the two entries
  make it: added, deleted, or modified when the modes differ or, of two files, the digests; nothing else
  is reported, no path twice, and the report is in the order of paths. A path of both
  that is not reported has the same mode, kind, digest and target.
\<close>

theorem changes_exact:
  assumes "distinct (map me_Path packed)" and "tree_ok (Folder n pm (Some ts))"
    and "scanTree sha (Some (Folder n pm (Some ts))) = Inr now" and "kinds_kept packed now"
  shows "\<exists>cs. compareTree sha nowFile oldFile packed (Some (Folder n pm (Some ts))) = Inr cs \<and> sorted (map cg_Path cs) \<and>
    (\<forall>p. filter (\<lambda>c. cg_Path c = p) cs = change_at nowFile oldFile (entry_for packed p) (entry_for now p))"
proof -
  have "distinct (map me_Path now)" by (rule scan_distinct[OF assms(2,3)])
  then have "\<forall>p. filter (\<lambda>c. cg_Path c = p) (compare_entries nowFile oldFile packed now) =
      change_at nowFile oldFile (entry_for packed p) (entry_for now p)"
    using changes_at[OF assms(1) _ assms(4)] by blast
  moreover have "sorted (map cg_Path (compare_entries nowFile oldFile packed now))" by (simp add: compare_entries_def)
  moreover have "compareTree sha nowFile oldFile packed (Some (Folder n pm (Some ts))) = Inr (compare_entries nowFile oldFile packed now)"
    by (simp add: compareTree_def assms(3))
  ultimately show ?thesis by blast
qed

definition demo_packed :: "manifest_entry list" where
  "demo_packed = [\<lparr>me_Path = ''a'', me_Mode = mode_text 420, me_Dir = False, me_Link = [], me_Size = 1, me_SHA256 = ''y''\<rparr>,
     \<lparr>me_Path = ''b'', me_Mode = mode_text 511, me_Dir = False, me_Link = ''a'', me_Size = 0, me_SHA256 = []\<rparr>,
     \<lparr>me_Path = ''c'', me_Mode = mode_text 493, me_Dir = True, me_Link = [], me_Size = 0, me_SHA256 = []\<rparr>]"

lemma changes_exact_witness:
  "\<exists>now cs. scanTree (\<lambda>b. b) (Some demo_tree) = Inr now \<and>
    compareTree (\<lambda>b. b) (\<lambda>_. None) (\<lambda>_. None) demo_packed (Some demo_tree) = Inr cs \<and> sorted (map cg_Path cs) \<and>
    (\<forall>p. filter (\<lambda>c. cg_Path c = p) cs = change_at (\<lambda>_. None) (\<lambda>_. None) (entry_for demo_packed p) (entry_for now p))"
proof -
  have "tree_ok demo_tree" by (simp add: demo_tree_def name_ok_def slash_def)
  moreover have "distinct (map me_Path demo_packed)" by (simp add: demo_packed_def)
  moreover have "kinds_kept demo_packed [\<lparr>me_Path = ''a'', me_Mode = mode_text 420, me_Dir = False, me_Link = [], me_Size = 1, me_SHA256 = ''x''\<rparr>,
          \<lparr>me_Path = ''b'', me_Mode = mode_text 511, me_Dir = False, me_Link = ''a'', me_Size = 0, me_SHA256 = []\<rparr>]"
    by (simp add: kinds_kept_def demo_packed_def entry_for_Cons)
  ultimately show ?thesis using changes_exact[OF _ _ demo_scan[unfolded demo_tree_def]] demo_scan unfolding demo_tree_def by blast
qed

end
