(* ===== verification/Egress_Scope.thy ===== *)
theory Egress_Scope
  imports Go_Path
begin

text \<open>
  Where a credential may be spent (\<open>internal/egress/scope.go\<close>): the literal form of a request
  path, the normal form of a bound one, and the coverage of one by the other, on segments.
\<close>

text \<open>
  The parts of an \<open>http.Request\<close> the proxy looks at; \<open>rq_Path\<close> and \<open>rq_EscapedPath\<close>
  are \<open>URL.Path\<close> and \<open>URL.EscapedPath()\<close>. A header maps canonical names to their lines.
\<close>

type_synonym header = "(string \<times> string list) list"

record request =
  rq_Method :: string
  rq_Host :: string
  rq_URLScheme :: string
  rq_URLHost :: string
  rq_Path :: string
  rq_EscapedPath :: string
  rq_Header :: header
  rq_Length :: int
  rq_Close :: bool

datatype withheld = WithheldNone | WithheldPath | WithheldNotPlain | WithheldUnencrypted | WithheldHostMismatch | WithheldNotViaConnect

definition literal_char :: "char \<Rightarrow> bool" where
  "literal_char b \<longleftrightarrow>
     (65 \<le> byte b \<and> byte b \<le> 90) \<or> (97 \<le> byte b \<and> byte b \<le> 122) \<or> is_digit b \<or>
     b \<in> {CHR ''-'', CHR ''.'', CHR ''_'', CHR ''~''} \<or> b = slash"

fun literal_path :: "string \<Rightarrow> bool" where
  "literal_path [] = True"
| "literal_path (b # s) =
     (if literal_char b then literal_path s
      else if b = CHR ''%'' \<and> take 2 s = ''20'' then literal_path (drop 2 s)
      else False)"

definition literalAndNormal :: "string \<Rightarrow> string \<Rightarrow> bool" where
  "literalAndNormal escaped decoded \<longleftrightarrow>
     literal_path escaped \<and> (path_clean decoded = decoded \<or> path_clean decoded @ [slash] = decoded)"

datatype scope_error = ScopeNoSlash | ScopeNotNormal string string

definition canonicalScopePath :: "string \<Rightarrow> scope_error option" where
  "canonicalScopePath p =
     (if p = [] \<or> hd p \<noteq> slash then Some ScopeNoSlash
      else let c = path_clean p in
        if c = p \<or> c \<noteq> [slash] \<and> c @ [slash] = p then None
        else Some (ScopeNotNormal p (if hasSuffix p [slash] \<and> c \<noteq> [slash] then c @ [slash] else c)))"

definition covered :: "string \<Rightarrow> string \<Rightarrow> bool" where
  "covered pre p \<longleftrightarrow>
     (if \<not> hasSuffix pre [slash] then p = pre else p = trimSuffix pre [slash] \<or> hasPrefix p pre)"

text \<open>\<open>Scope.covers\<close>: whether a request is inside the scope \<open>path\<close>, and why not.\<close>

definition covers :: "string \<Rightarrow> request \<Rightarrow> bool \<times> withheld" where
  "covers path req =
     (if path = [] then (True, WithheldNone)
      else if canonicalScopePath path \<noteq> None then (False, WithheldPath)
      else if \<not> literalAndNormal (rq_EscapedPath req) (rq_Path req) then (False, WithheldNotPlain)
      else if \<not> covered path (rq_Path req) then (False, WithheldPath)
      else (True, WithheldNone))"

section \<open>Escapes\<close>

text \<open>\<open>url.PathUnescape\<close>.\<close>

fun unescape :: "string \<Rightarrow> string option" where
  "unescape [] = Some []"
| "unescape (b # s) =
     (if b = CHR ''%''
      then case s of
             h # l # t \<Rightarrow>
               (case (hex_digit h, hex_digit l) of
                  (Some x, Some y) \<Rightarrow> map_option (Cons (char_of (16 * x + y))) (unescape t)
                | _ \<Rightarrow> None)
           | _ \<Rightarrow> None
      else map_option (Cons b) (unescape s))"

text \<open>A literal path is cut into the same segments before and after it is decoded.\<close>

lemma literal_segments:
  "literal_path e \<Longrightarrow> unescape e = Some p \<Longrightarrow> map unescape (split_on slash e) = map Some (split_on slash p)"
proof (induction e arbitrary: p rule: literal_path.induct)
  case 1
  then show ?case by simp
next
  case (2 b s)
  show ?case
  proof (cases "literal_char b")
    case True
    then have nb: "b \<noteq> CHR ''%''" by (auto simp: literal_char_def slash_def is_digit_def)
    then obtain q where q: "unescape s = Some q" "p = b # q" using "2.prems"(2) by auto
    have ih: "map unescape (split_on slash s) = map Some (split_on slash q)" using "2.IH"(1)[OF True _ q(1)] "2.prems"(1) True by simp
    obtain h t where h: "split_on slash s = h # t" by (cases "split_on slash s") simp_all
    obtain h' t' where h': "split_on slash q = h' # t'" by (cases "split_on slash q") simp_all
    show ?thesis
    proof (cases "b = slash")
      case False
      then show ?thesis using ih h h' q(2) nb by simp
    qed (use ih q(2) in simp)
  next
    case False
    then have b: "b = CHR ''%''" "take 2 s = ''20''" "literal_path (drop 2 s)" using "2.prems"(1) by (auto split: if_splits)
    then obtain t where t: "s = CHR ''2'' # CHR ''0'' # t" by (cases s; cases "tl s") auto
    have x: "hex_digit CHR ''2'' = Some 2" "hex_digit CHR ''0'' = Some 0" by (simp_all add: hex_digit_def is_digit_def digit_val_def)
    have sp: "char_of (32 :: nat) = CHR 0x20" by (simp add: char_of_eq_iff)
    obtain q where q: "unescape t = Some q" "p = CHR 0x20 # q" using x "2.prems"(2) b(1) t by (auto simp: sp)
    have ih: "map unescape (split_on slash t) = map Some (split_on slash q)"
      using "2.IH"(2)[OF False, of q] b t q(1) by simp
    obtain h r where h: "split_on slash t = h # r" by (cases "split_on slash t") simp_all
    obtain h' r' where h': "split_on slash q = h' # r'" by (cases "split_on slash q") simp_all
    have "split_on slash (b # s) = (CHR ''%'' # CHR ''2'' # CHR ''0'' # h) # r" using h b(1) t by (simp add: slash_def)
    moreover have "split_on slash p = (CHR '' '' # h') # r'" using h' q(2) by (simp add: slash_def)
    moreover have "unescape h = Some h'" "map unescape r = map Some r'" using ih h h' by auto
    ultimately show ?thesis using x by (simp add: sp)
  qed
qed

lemma covers_segments:
  assumes "covers path req = (True, w)" and "path \<noteq> []"
  shows "literal_path (rq_EscapedPath req) \<and> list_all plain_seg (segments (rq_Path req)) \<and> list_all plain_seg (segments path) \<and>
    (\<exists>ys. segments (rq_Path req) = segments path @ ys) \<and> (\<not> hasSuffix path [slash] \<longrightarrow> rq_Path req = path)"
proof -
  let ?p = "rq_Path req"
  have c: "canonicalScopePath path = None" "literalAndNormal (rq_EscapedPath req) ?p" "covered path ?p"
    using assms by (auto simp: covers_def split: if_splits)
  have n: "literal_path (rq_EscapedPath req)" "path_clean ?p = ?p \<or> path_clean ?p @ [slash] = ?p"
    using c(2) by (auto simp: literalAndNormal_def)
  have path: "hd path = slash" "path_clean path = path \<or> path_clean path @ [slash] = path"
    using c(1) assms(2) by (auto simp: canonicalScopePath_def Let_def split: if_splits)
  have pne: "?p \<noteq> []" using n(2) by (auto simp: path_clean_def)
  have ph: "hd ?p = slash \<and> (\<exists>ys. segments ?p = segments path @ ys)"
  proof (cases "hasSuffix path [slash]")
    case False
    then have "?p = path" using c(3) by (simp add: covered_def)
    then show ?thesis using path(1) by simp
  next
    case True
    then obtain a where a: "path = a @ [slash]" by (auto simp: hasSuffix_iff)
    then have "trimSuffix path [slash] = a" by (simp add: trimSuffix_def cutSuffix_Some[THEN iffD2])
    then consider "?p = a" | t where "?p = a @ slash # t" using c(3) True a by (auto simp: covered_def hasPrefix_iff)
    then show ?thesis
    proof cases
      case 1
      then show ?thesis using pne path(1) a segments_end by auto
    next
      case 2
      have "segments ?p = segments path @ segments t" using segments_end[of a] segments_slash[of a t] by (simp only: 2 a)
      moreover have "hd ?p = slash" using path(1) 2 a by (cases a) simp_all
      ultimately show ?thesis by blast
    qed
  qed
  have "\<not> hasSuffix path [slash] \<longrightarrow> ?p = path" using c(3) by (simp add: covered_def)
  then show ?thesis using n(1) ph normal_segments[OF pne _ n(2)] normal_segments[OF assms(2) path] by blast
qed

end
