(* ===== verification/Egress_Policy.thy ===== *)
theory Egress_Policy
  imports Egress_Scope
begin

text \<open>
  The policy of the egress proxy: domains, the one suffix rule, the allowlist and its check, bound
  secrets and the grammar that names them (\<open>internal/egress/secret.go\<close> and the \<open>Policy\<close> of
  \<open>proxy.go\<close>).
\<close>

section \<open>Domains\<close>

definition ipLiteral :: "string \<Rightarrow> bool" where
  "ipLiteral d \<longleftrightarrow> parseIP (trimSuffix (trimPrefix d ''['') '']'') \<noteq> None"

definition normaliseDomain :: "(string \<Rightarrow> string) \<Rightarrow> string \<Rightarrow> string" where
  "normaliseDomain uni s = trimPrefix (trimRight (toLower uni s) CHR ''.'') ''*.''"

definition numericLabels :: "string \<Rightarrow> bool" where
  "numericLabels d \<longleftrightarrow> list_all (\<lambda>l. l \<noteq> [] \<and> list_all is_digit l) (split_on CHR ''.'' d)"

definition host_char :: "char \<Rightarrow> bool" where
  "host_char c \<longleftrightarrow> (97 \<le> byte c \<and> byte c \<le> 122) \<or> is_digit c \<or> c \<in> {CHR ''-'', CHR ''.'', CHR ''_'', CHR '':''}"

definition plausibleHost :: "string \<Rightarrow> bool" where
  "plausibleHost host \<longleftrightarrow> host \<noteq> [] \<and> list_all host_char host"

definition domainCovers :: "string \<Rightarrow> string \<Rightarrow> bool" where
  "domainCovers entry host \<longleftrightarrow>
     (if host = entry then True
      else if ipLiteral host \<or> ipLiteral entry then False
      else hasSuffix host (CHR ''.'' # entry))"

definition label_ok :: "string \<Rightarrow> bool" where
  "label_ok l \<longleftrightarrow> l \<noteq> [] \<and> list_ex (\<lambda>c. (97 \<le> byte c \<and> byte c \<le> 122) \<or> is_digit c) l"

definition validDomain :: "string \<Rightarrow> bool" where
  "validDomain d \<longleftrightarrow>
     (if ipLiteral d then True
      else if \<not> plausibleHost d then False
      else if length (split_on CHR ''.'' d) < 2 then False
      else if numericLabels d then False
      else list_all label_ok (split_on CHR ''.'' d))"

section \<open>The allowlist\<close>

datatype allow_error = SingleLabel string | NumericDomain string

fun checkAllowList :: "(string \<Rightarrow> string) \<Rightarrow> string list \<Rightarrow> allow_error option" where
  "checkAllowList uni [] = None"
| "checkAllowList uni (a # as) =
     (let d = normaliseDomain uni a in
      if d = [] then checkAllowList uni as
      else if ipLiteral d then checkAllowList uni as
      else if length (split_on CHR ''.'' d) < 2 then Some (SingleLabel d)
      else if numericLabels d then Some (NumericDomain d)
      else checkAllowList uni as)"

section \<open>Secrets\<close>

text \<open>The scope of a secret is its only field, the path; the value is what no text shows.\<close>

record secret =
  se_Name :: string
  se_Domain :: string
  se_Scheme :: string
  se_Path :: string
  se_value :: bytes

definition minScrub :: nat where "minScrub = 8"

definition secretHeader :: "secret \<Rightarrow> string" where
  "secretHeader s = se_Scheme s @ '' '' @ se_value s"

definition secretString :: "secret \<Rightarrow> string" where
  "secretString s = ''Secret{'' @ se_Name s @ ''@'' @ se_Domain s @ '' scheme='' @ se_Scheme s @ ''}''"

record secretSpec =
  sx_Name :: string
  sx_Host :: string
  sx_Path :: string
  sx_Scheme :: string

datatype secret_error =
    BadByte char
  | NotNameAtDomain
  | BadVariableName string
  | ManyAts
  | UnknownScheme string
  | NotADomain string
  | WildcardPath string
  | BadScopePath scope_error
  | SecretSingleLabel string
  | Unreachable
  | NoVariable string
  | EmptyVariable string

definition spec_byte_bad :: "char \<Rightarrow> bool" where
  "spec_byte_bad c \<longleftrightarrow> c = CHR ''?'' \<or> c = CHR ''#'' \<or> byte c < 32 \<or> byte c = 127"

text \<open>The scheme of the host part and the host part without it.\<close>

definition spec_scheme :: "(string \<Rightarrow> string) \<Rightarrow> string \<Rightarrow> secret_error + (string \<times> string)" where
  "spec_scheme uni hostpart =
     (case lastIndexChar hostpart CHR '':'' of
        None \<Rightarrow> Inr (''Bearer'', hostpart)
      | Some at \<Rightarrow>
          if at = 0 then Inr (''Bearer'', hostpart)
          else let s = toLower uni (drop (at + 1) hostpart) in
            if s = ''bearer'' then Inr (''Bearer'', take at hostpart)
            else if s = ''basic'' then Inr (''Basic'', take at hostpart)
            else Inl (UnknownScheme (drop (at + 1) hostpart)))"

definition spec_host :: "(string \<Rightarrow> string) \<Rightarrow> string \<Rightarrow> secret_error + string" where
  "spec_host uni hostpart =
     (let d = normaliseDomain uni hostpart in
      if d \<noteq> [] \<and> length (split_on CHR ''.'' d) < 2 then Inl (SecretSingleLabel d)
      else if \<not> validDomain d then Inl Unreachable
      else Inr d)"

definition spec_path :: "string \<Rightarrow> string \<Rightarrow> bool \<Rightarrow> secret_error + string" where
  "spec_path hostpart rest hasPath =
     (if \<not> hasPath then Inr []
      else if hasPrefix hostpart ''*.'' then Inl (WildcardPath hostpart)
      else case canonicalScopePath (slash # rest) of
             Some err \<Rightarrow> Inl (BadScopePath err)
           | None \<Rightarrow> Inr (slash # rest))"

definition parseSecretSpec :: "(string \<Rightarrow> string) \<Rightarrow> string \<Rightarrow> secret_error + secretSpec" where
  "parseSecretSpec uni spec =
     (case find spec_byte_bad spec of
        Some c \<Rightarrow> Inl (BadByte c)
      | None \<Rightarrow>
          (case cut spec CHR ''@'' of (name, target, ok) \<Rightarrow>
             if \<not> ok \<or> name = [] \<or> target = [] then Inl NotNameAtDomain
             else if list_ex (\<lambda>c. c \<in> {CHR ''='', CHR ''/'', CHR '':''}) name then Inl (BadVariableName name)
             else if CHR ''@'' \<in> set target then Inl ManyAts
             else case cut target slash of (hostpart, rest, hasPath) \<Rightarrow>
               (case spec_scheme uni hostpart of
                  Inl err \<Rightarrow> Inl err
                | Inr (scheme, hostpart) \<Rightarrow>
                    if CHR '':'' \<in> set hostpart then Inl (NotADomain hostpart)
                    else case spec_path hostpart rest hasPath of
                           Inl err \<Rightarrow> Inl err
                         | Inr path \<Rightarrow>
                             (case spec_host uni hostpart of
                                Inl err \<Rightarrow> Inl err
                              | Inr host \<Rightarrow>
                                  Inr \<lparr>sx_Name = name, sx_Host = host, sx_Path = path, sx_Scheme = scheme\<rparr>))))"

text \<open>\<open>ParseSecret\<close>, with the host environment and whether the warning is printed.\<close>

definition parseSecret :: "(string \<Rightarrow> string) \<Rightarrow> (string \<Rightarrow> bytes option) \<Rightarrow> string \<Rightarrow> secret_error + (secret \<times> bool)" where
  "parseSecret uni env spec =
     (case parseSecretSpec uni spec of
        Inl err \<Rightarrow> Inl err
      | Inr parsed \<Rightarrow>
          (case env (sx_Name parsed) of
             None \<Rightarrow> Inl (NoVariable (sx_Name parsed))
           | Some value \<Rightarrow>
               if value = [] then Inl (EmptyVariable (sx_Name parsed))
               else Inr (\<lparr>se_Name = sx_Name parsed, se_Domain = sx_Host parsed, se_Scheme = sx_Scheme parsed,
                          se_Path = sx_Path parsed, se_value = value\<rparr>, length value < minScrub)))"

section \<open>The policy\<close>

record policy =
  po_Allow :: "string list"
  po_Ports :: "int list"
  po_Secrets :: "secret list"

definition defaultPorts :: "int list" where "defaultPorts = [80, 443]"

definition fold_host :: "(string \<Rightarrow> string) \<Rightarrow> string \<Rightarrow> string" where
  "fold_host uni host = toLower uni (trimSuffix host ''.'')"

definition allowsHost :: "(string \<Rightarrow> string) \<Rightarrow> policy \<Rightarrow> string \<Rightarrow> bool" where
  "allowsHost uni p host =
     list_ex (\<lambda>a. domainCovers (normaliseDomain uni a) (fold_host uni host)) (po_Allow p)"

definition effectivePorts :: "policy \<Rightarrow> int list" where
  "effectivePorts p = (if 0 < length (po_Ports p) then po_Ports p else defaultPorts)"

definition allowsPort :: "policy \<Rightarrow> int \<Rightarrow> bool" where
  "allowsPort p port = list_ex (\<lambda>allowed. port = allowed) (effectivePorts p)"

definition bindsHost :: "secret \<Rightarrow> string \<Rightarrow> bool" where
  "bindsHost s host = (if se_Path s \<noteq> [] then host = se_Domain s else domainCovers (se_Domain s) host)"

definition secretsFor :: "(string \<Rightarrow> string) \<Rightarrow> policy \<Rightarrow> string \<Rightarrow> secret list" where
  "secretsFor uni p host = filter (\<lambda>s. bindsHost s (fold_host uni host)) (po_Secrets p)"

section \<open>Which credential, if any\<close>

definition sameHost :: "(string \<Rightarrow> string) \<Rightarrow> string \<Rightarrow> string \<Rightarrow> bool" where
  "sameHost uni reqHost bound \<longleftrightarrow>
     (if reqHost = [] then True
      else let h = (case splitHostPort reqHost of Some (only, _) \<Rightarrow> only | None \<Rightarrow> reqHost)
           in toLower uni (trimRight h CHR ''.'') = bound)"

fun pick_loop :: "secret list \<Rightarrow> request \<Rightarrow> withheld \<Rightarrow> secret option \<times> withheld" where
  "pick_loop [] req why = (None, why)"
| "pick_loop (s # ss) req why =
     (case covers (se_Path s) req of
        (True, _) \<Rightarrow> (Some s, WithheldNone)
      | (False, reason) \<Rightarrow> pick_loop ss req (if why = WithheldNone then reason else why))"

definition pick :: "(string \<Rightarrow> string) \<Rightarrow> secret list \<Rightarrow> request \<Rightarrow> string \<Rightarrow> secret option \<times> withheld" where
  "pick uni bound req host =
     (if \<not> sameHost uni (rq_Host req) host then (None, WithheldHostMismatch)
      else pick_loop bound req WithheldNone)"

end
