(* ===== verification/Proto_Text.thy ===== *)
theory Proto_Text
  imports Utf8 Json
begin

text \<open>
  What the host makes of text a guest chose (\<open>internal/proto/proto.go\<close>): \<open>SafeText\<close> for the
  short strings of a frame, \<open>SafeBody\<close> for captured output, and the \<open>Sanitize\<close> methods of the
  frames. \<open>strconv.Quote\<close> is modelled; \<open>unicode.IsPrint\<close> beyond ASCII is a table of the
  Unicode version Go ships, here a parameter \<open>uni\<close> on code points.
\<close>

section \<open>Runes\<close>

text \<open>The code point of one valid encoding.\<close>

definition rune_val :: "string \<Rightarrow> nat" where
  "rune_val e = (case map byte e of
     [a] \<Rightarrow> a
   | [a, b] \<Rightarrow> (a - 192) * 64 + (b - 128)
   | [a, b, c] \<Rightarrow> (a - 224) * 4096 + (b - 128) * 64 + (c - 128)
   | [a, b, c, d] \<Rightarrow> (a - 240) * 262144 + (b - 128) * 4096 + (c - 128) * 64 + (d - 128)
   | _ \<Rightarrow> 0)"

definition isPrint :: "(nat \<Rightarrow> bool) \<Rightarrow> nat \<Rightarrow> bool" where
  "isPrint uni r = (if r < 128 then 32 \<le> r \<and> r < 127 else uni r)"

section \<open>Quoting\<close>

fun hex_digits :: "nat \<Rightarrow> nat \<Rightarrow> string" where
  "hex_digits 0 n = []"
| "hex_digits (Suc w) n = hex_digits w (n div 16) @ [hex_char (n mod 16)]"

definition byte_escape :: "nat \<Rightarrow> string" where
  "byte_escape n = backslash # CHR ''x'' # hex_digits 2 n"

text \<open>\<open>appendEscapedRune\<close> of \<open>strconv\<close>, on the bytes of a valid rune.\<close>

definition quote_rune :: "(nat \<Rightarrow> bool) \<Rightarrow> string \<Rightarrow> string" where
  "quote_rune uni e =
     (let r = rune_val e in
      if r = 0x22 \<or> r = 0x5C then backslash # e
      else if isPrint uni r then e
      else if r = 7 then [backslash, CHR ''a'']
      else if r = 8 then [backslash, CHR ''b'']
      else if r = 12 then [backslash, CHR ''f'']
      else if r = 10 then [backslash, CHR ''n'']
      else if r = 13 then [backslash, CHR ''r'']
      else if r = 9 then [backslash, CHR ''t'']
      else if r = 11 then [backslash, CHR ''v'']
      else if r < 0x20 \<or> r = 0x7F then byte_escape r
      else if r < 0x10000 then backslash # CHR ''u'' # hex_digits 4 r
      else backslash # CHR ''U'' # hex_digits 8 r)"

function quote_body :: "(nat \<Rightarrow> bool) \<Rightarrow> string \<Rightarrow> string" where
  "quote_body uni s =
     (case s of
        [] \<Rightarrow> []
      | c # t \<Rightarrow>
          (case rune_len s of
             None \<Rightarrow> byte_escape (byte c) @ quote_body uni t
           | Some n \<Rightarrow> quote_rune uni (take n s) @ quote_body uni (drop n s)))"
  by pat_completeness auto

termination
proof (relation "measure (length \<circ> snd)")
  fix uni :: "nat \<Rightarrow> bool" and s :: string and c t n
  assume "s = c # t" and "rune_len s = Some n"
  then show "((uni, drop n s), (uni, s)) \<in> measure (length \<circ> snd)" using rune_len_pos by fastforce
qed auto

declare quote_body.simps [simp del]

definition goQuote :: "(nat \<Rightarrow> bool) \<Rightarrow> string \<Rightarrow> string" where
  "goQuote uni s = CHR 0x22 # quote_body uni s @ [CHR 0x22]"

section \<open>SafeText\<close>

text \<open>The loop over the runes of a valid string: none could break a line.\<close>

function text_ok :: "(nat \<Rightarrow> bool) \<Rightarrow> string \<Rightarrow> bool" where
  "text_ok uni s =
     (if s = [] then True
      else case rune_len s of
             None \<Rightarrow> False
           | Some n \<Rightarrow>
               (let r = rune_val (take n s) in
                if r < 0x20 \<or> r = 0x7F \<or> \<not> isPrint uni r then False else text_ok uni (drop n s)))"
  by pat_completeness auto

termination
proof (relation "measure (length \<circ> snd)")
  fix uni :: "nat \<Rightarrow> bool" and s :: string and n x
  assume "s \<noteq> []" and "rune_len s = Some n"
  then show "((uni, drop n s), (uni, s)) \<in> measure (length \<circ> snd)" using rune_len_pos[of s n] by simp
qed simp

declare text_ok.simps [simp del]

definition safeText :: "(nat \<Rightarrow> bool) \<Rightarrow> string \<Rightarrow> string" where
  "safeText uni s = (if \<not> valid_utf8 s then goQuote uni s else if \<not> text_ok uni s then goQuote uni s else s)"

section \<open>SafeBody\<close>

definition esc_byte :: char where "esc_byte = CHR 0x1B"

definition maxSGRParams :: nat where "maxSGRParams = 64"

text \<open>The first index from \<open>i\<close> below \<open>2 + maxSGRParams\<close> whose byte is outside \<open>p\<close>.\<close>

fun sgr_skip :: "(nat \<Rightarrow> bool) \<Rightarrow> string \<Rightarrow> nat \<Rightarrow> nat" where
  "sgr_skip p [] i = i"
| "sgr_skip p (c # t) i = (if i < 2 + maxSGRParams \<and> p (byte c) then sgr_skip p t (i + 1) else i)"

definition sgrLen :: "string \<Rightarrow> nat" where
  "sgrLen s =
     (if length s < 3 \<or> s ! 0 \<noteq> esc_byte \<or> s ! 1 \<noteq> CHR ''['' then 0
      else let i = sgr_skip (\<lambda>b. 0x30 \<le> b \<and> b \<le> 0x3F) (drop 2 s) 2;
               j = sgr_skip (\<lambda>b. 0x20 \<le> b \<and> b \<le> 0x2F) (drop i s) i
           in if j < length s \<and> s ! j = CHR ''m'' then j + 1 else 0)"

definition bodyNeedsSanitising :: "string \<Rightarrow> bool" where
  "bodyNeedsSanitising s =
     list_ex (\<lambda>c. c \<noteq> CHR 0x0A \<and> c \<noteq> CHR 0x09 \<and> (byte c < 0x20 \<or> byte c = 0x7F \<or> 0x80 \<le> byte c)) s"

text \<open>U+FFFD, what \<open>WriteRune(utf8.RuneError)\<close> writes.\<close>

definition rune_error :: string where "rune_error = [CHR 0xEF, CHR 0xBF, CHR 0xBD]"

function body_loop :: "(nat \<Rightarrow> bool) \<Rightarrow> string \<Rightarrow> string" where
  "body_loop uni s =
     (case s of
        [] \<Rightarrow> []
      | c # t \<Rightarrow>
          if byte c < 0x80 then
            if c = CHR 0x0A \<or> c = CHR 0x09 then c # body_loop uni t
            else if c = esc_byte then
              (if 0 < sgrLen s then take (sgrLen s) s @ body_loop uni (drop (sgrLen s) s)
               else rune_error @ body_loop uni t)
            else if byte c < 0x20 \<or> byte c = 0x7F then rune_error @ body_loop uni t
            else c # body_loop uni t
          else (case rune_len s of
                  None \<Rightarrow> rune_error @ body_loop uni t
                | Some n \<Rightarrow>
                    if \<not> isPrint uni (rune_val (take n s)) then rune_error @ body_loop uni (drop n s)
                    else take n s @ body_loop uni (drop n s)))"
  by pat_completeness auto

termination
proof (relation "measure (length \<circ> snd)")
  fix uni :: "nat \<Rightarrow> bool" and s :: string and c t n
  assume "s = c # t" and "rune_len s = Some n"
  then show "((uni, drop n s), (uni, s)) \<in> measure (length \<circ> snd)" using rune_len_pos by fastforce
next
  fix uni :: "nat \<Rightarrow> bool" and s :: string and c t n
  assume "s = c # t" and "rune_len s = Some n"
  then show "((uni, drop n s), (uni, s)) \<in> measure (length \<circ> snd)" using rune_len_pos by fastforce
qed auto

declare body_loop.simps [simp del]

definition safeBody :: "(nat \<Rightarrow> bool) \<Rightarrow> string \<Rightarrow> string" where
  "safeBody uni s = (if \<not> bodyNeedsSanitising s then s else body_loop uni s)"

end
