(* ===== verification/Config_Text.thy ===== *)
theory Config_Text
  imports Egress_Policy Proto_Text
begin

text \<open>
  The values of a policy file, \<^verbatim>\<open>internal/config/config.go\<close>: comments, quoted
  strings, arrays, numbers, sizes, rates, percentages and durations, with every refusal a value of
  \<open>cfg_error\<close>. The first field of an error is the place it names, \<open>path:line\<close>.
  \<open>Panic\<close> is an index out of range or a nil pointer.
\<close>

section \<open>Durations\<close>

text \<open>
  \<open>time.ParseDuration\<close>: a duration in nanoseconds. The digits after a point are scaled in
  \<open>float64\<close>, whose values are pairs of a numerator and a denominator here; \<open>fl64\<close> rounds to 53
  significant bits, half to even, which is exact in the range these sums stay in.
\<close>

fun bits :: "nat \<Rightarrow> nat" where
  "bits n = (if n = 0 then 0 else 1 + bits (n div 2))"

declare bits.simps [simp del]

definition round_even :: "nat \<Rightarrow> nat \<Rightarrow> nat" where
  "round_even a b = (let q = a div b; r = a mod b in if 2 * r < b \<or> 2 * r = b \<and> even q then q else q + 1)"

definition fl64 :: "nat \<times> nat \<Rightarrow> nat \<times> nat" where
  "fl64 x = (case x of (a, b) \<Rightarrow>
     if a = 0 then (0, 1)
     else let s = 53 + int (bits b) - int (bits a);
              s = (if (a * 2 ^ nat s) div (b * 2 ^ nat (- s)) < 2 ^ 53 then s else s - 1);
              m = round_even (a * 2 ^ nat s) (b * 2 ^ nat (- s))
          in (m * 2 ^ nat (- s), 2 ^ nat s))"

definition fl_mul :: "nat \<times> nat \<Rightarrow> nat \<times> nat \<Rightarrow> nat \<times> nat" where
  "fl_mul x y = fl64 (fst x * fst y, snd x * snd y)"

definition fl_div :: "nat \<times> nat \<Rightarrow> nat \<times> nat \<Rightarrow> nat \<times> nat" where
  "fl_div x y = fl64 (fst x * snd y, snd x * fst y)"

definition fl_trunc :: "nat \<times> nat \<Rightarrow> nat" where
  "fl_trunc x = fst x div snd x"

definition two63 :: nat where "two63 = 2 ^ 63"

text \<open>\<open>leadingInt\<close>; \<open>None\<close> is its overflow.\<close>

fun leadingInt :: "nat \<Rightarrow> string \<Rightarrow> (nat \<times> string) option" where
  "leadingInt x [] = Some (x, [])"
| "leadingInt x (c # s) =
     (if \<not> is_digit c then Some (x, c # s)
      else if two63 div 10 < x then None
      else let y = x * 10 + digit_val c in if two63 < y then None else leadingInt y s)"

text \<open>\<open>leadingFraction\<close>: the digits that fit, the power of ten they are over, and the rest.\<close>

fun leadingFraction :: "bool \<Rightarrow> nat \<Rightarrow> nat \<times> nat \<Rightarrow> string \<Rightarrow> nat \<times> (nat \<times> nat) \<times> string" where
  "leadingFraction over x scale [] = (x, scale, [])"
| "leadingFraction over x scale (c # s) =
     (if \<not> is_digit c then (x, scale, c # s)
      else if over \<or> (two63 - 1) div 10 < x then leadingFraction True x scale s
      else let y = x * 10 + digit_val c in
        if two63 < y then leadingFraction True x scale s
        else leadingFraction False y (fl_mul scale (10, 1)) s)"

definition duration_unit :: "string \<Rightarrow> nat option" where
  "duration_unit u =
     (if u = ''ns'' then Some 1
      else if u \<in> {''us'', [CHR 0xC2, CHR 0xB5, CHR ''s''], [CHR 0xCE, CHR 0xBC, CHR ''s'']} then Some 1000
      else if u = ''ms'' then Some 1000000
      else if u = ''s'' then Some 1000000000
      else if u = ''m'' then Some 60000000000
      else if u = ''h'' then Some 3600000000000
      else None)"

text \<open>What follows the digits: the fraction after a point, and whether it has a digit.\<close>

definition point_part :: "string \<Rightarrow> nat \<times> (nat \<times> nat) \<times> string \<times> bool" where
  "point_part s =
     (if hasPrefix s ''.''
      then case leadingFraction False 0 (1, 1) (tl s) of (f, scale, r) \<Rightarrow> (f, scale, r, r \<noteq> tl s)
      else (0, (1, 1), s, False))"

definition unit_char :: "char \<Rightarrow> bool" where
  "unit_char c \<longleftrightarrow> c \<noteq> CHR ''.'' \<and> \<not> is_digit c"

text \<open>The nanoseconds of a number and its unit; \<open>None\<close> is an overflow.\<close>

definition scaled :: "nat \<Rightarrow> nat \<Rightarrow> nat \<times> nat \<Rightarrow> nat \<Rightarrow> nat option" where
  "scaled v f scale unit =
     (if two63 div unit < v then None
      else let n = v * unit + (if 0 < f then fl_trunc (fl_mul (fl64 (f, 1)) (fl_div (unit, 1) scale)) else 0)
           in if 0 < f \<and> two63 < n then None else Some n)"

text \<open>One number with its unit: its nanoseconds and the rest.\<close>

definition duration_step :: "string \<Rightarrow> (nat \<times> string) option" where
  "duration_step s =
     (if s = [] \<or> unit_char (hd s) then None
      else case leadingInt 0 s of None \<Rightarrow> None
      | Some (v, s1) \<Rightarrow>
          (case point_part s1 of (f, scale, s2, post) \<Rightarrow>
             let u = takeWhile unit_char s2 in
             if s1 = s \<and> \<not> post then None
             else if u = [] then None
             else case duration_unit u of None \<Rightarrow> None
             | Some unit \<Rightarrow> map_option (\<lambda>n. (n, dropWhile unit_char s2)) (scaled v f scale unit)))"

lemma leadingInt_rest: "leadingInt x s = Some (v, r) \<Longrightarrow> length r \<le> length s"
  by (induction x s arbitrary: v r rule: leadingInt.induct) (fastforce simp: Let_def split: if_splits)+

lemma leadingFraction_rest: "leadingFraction b x sc s = (v, sc', r) \<Longrightarrow> length r \<le> length s"
  by (induction b x sc s arbitrary: v sc' r rule: leadingFraction.induct) (fastforce simp: Let_def split: if_splits)+

lemma point_part_rest: "point_part s = (f, scale, r, post) \<Longrightarrow> length r \<le> length s"
  by (fastforce simp: point_part_def hasPrefix_iff split: if_splits prod.splits dest: leadingFraction_rest)

lemma dropWhile_shorter: "takeWhile P s \<noteq> [] \<Longrightarrow> length (dropWhile P s) < length s"
  by (cases s) (auto simp: le_imp_less_Suc length_dropWhile_le split: if_splits)

lemma duration_step_shorter:
  assumes "duration_step s = Some (n, r)"
  shows "length r < length s"
proof -
  from assms obtain v s1 where v: "leadingInt 0 s = Some (v, s1)" by (auto simp: duration_step_def split: if_splits option.splits)
  obtain f scale s2 post where p: "point_part s1 = (f, scale, s2, post)" by (rule prod_cases4)
  have "takeWhile unit_char s2 \<noteq> [] \<and> r = dropWhile unit_char s2"
    using assms by (simp add: duration_step_def v p Let_def split: if_splits option.splits)
  then have "length r < length s2" using dropWhile_shorter by blast
  then show ?thesis using leadingInt_rest[OF v] point_part_rest[OF p] by simp
qed

function duration_loop :: "nat \<Rightarrow> string \<Rightarrow> nat option" where
  "duration_loop d s =
     (if s = [] then Some d
      else case duration_step s of None \<Rightarrow> None
      | Some (n, rest) \<Rightarrow> (let d' = (d + n) mod 2 ^ 64 in if two63 < d' then None else duration_loop d' rest))"
  by pat_completeness auto

termination
  by (relation "measure (length \<circ> snd)") (auto dest: duration_step_shorter)

declare duration_loop.simps [simp del]

definition parseGoDuration :: "string \<Rightarrow> int option" where
  "parseGoDuration s =
     (let neg = (hasPrefix s ''-'');
          t = (if hasPrefix s ''-'' \<or> hasPrefix s ''+'' then tl s else s)
      in if t = ''0'' then Some 0
         else if t = [] then None
         else case duration_loop 0 t of None \<Rightarrow> None
         | Some d \<Rightarrow> if neg then Some (- int d) else if two63 - 1 < d then None else Some (int d))"

lemma duration_loop_bound: "duration_loop d s = Some n \<Longrightarrow> d \<le> two63 \<Longrightarrow> n \<le> two63"
  by (induction d s arbitrary: n rule: duration_loop.induct)
    (subst (asm) (2) duration_loop.simps, auto simp: Let_def split: if_splits option.splits)

lemma parseGoDuration_int64: "parseGoDuration s = Some n \<Longrightarrow> in_int64 n"
  using duration_loop_bound[of 0] by (fastforce simp: parseGoDuration_def Let_def in_int64_def two63_def split: if_splits option.splits)

section \<open>Values\<close>

text \<open>Why a value is refused: \<open>BadValue\<close> names the place, the fault and the value or key.\<close>

datatype value_fault =
    NotQuoted | NotNumber | NotArray | NotBool | EmptySize | NotSize | NegativeSize | TooLarge | UnderMiB
  | NotDuration | NotPositive | NotWhole | NegativeCount | NotPercent | BadPercent | NotPort
  | CountLow | CountHigh | NotShared | BadPluginName | LongPluginName

datatype cfg_error =
    Panic
  | BadValue string value_fault string
  | UnknownKey string string string
  | NoEquals string
  | BadHeader string string
  | BadSecretSpec string "secret_error option"
  | BadAllowList "string option" allow_error
  | NegativeMachine
  | BadEntry int string

text \<open>\<open>x.Field, err = parse(...)\<close> followed by \<open>return err\<close>.\<close>

definition assign :: "('a \<Rightarrow> 'b) \<Rightarrow> 'e + 'a \<Rightarrow> 'e + 'b" where
  "assign f r = (case r of Inl e \<Rightarrow> Inl e | Inr v \<Rightarrow> Inr (f v))"

definition on_ok :: "'e + 'a \<Rightarrow> ('a \<Rightarrow> 'e + 'b) \<Rightarrow> 'e + 'b" where
  "on_ok r f = (case r of Inl e \<Rightarrow> Inl e | Inr v \<Rightarrow> f v)"

lemma assign_Inr: "assign f r = Inr y \<longleftrightarrow> (\<exists>x. r = Inr x \<and> y = f x)"
  by (auto simp: assign_def split: sum.splits)

lemma on_ok_Inr: "on_ok r f = Inr y \<longleftrightarrow> (\<exists>x. r = Inr x \<and> f x = Inr y)"
  by (auto simp: on_ok_def split: sum.splits)

lemma assign_Inl [simp]: "assign f r = Inl e \<longleftrightarrow> r = Inl e"
  by (auto simp: assign_def split: sum.splits)

lemma on_ok_Inl: "on_ok r f = Inl e \<longleftrightarrow> r = Inl e \<or> (\<exists>x. r = Inr x \<and> f x = Inl e)"
  by (auto simp: on_ok_def split: sum.splits)

section \<open>Strings\<close>

definition dq_char :: char where "dq_char = CHR 0x22"
definition sq_char :: char where "sq_char = CHR 0x27"

text \<open>\<open>strings.Trim\<close> with a set of ASCII characters.\<close>

definition trim_set :: "char set \<Rightarrow> string \<Rightarrow> string" where
  "trim_set cs s = rev (dropWhile (\<lambda>c. c \<in> cs) (rev (dropWhile (\<lambda>c. c \<in> cs) s)))"

text \<open>\<open>stripComment\<close> copies runes; a byte that is no part of one is written as U+FFFD.\<close>

function strip_comment :: "bool \<Rightarrow> string \<Rightarrow> string" where
  "strip_comment inQuote s =
     (if s = [] then []
      else case rune_len s of
        None \<Rightarrow> rune_error @ strip_comment inQuote (tl s)
      | Some n \<Rightarrow>
          let r = take n s in
          if r = [dq_char] then r @ strip_comment (\<not> inQuote) (drop n s)
          else if r = ''#'' \<and> \<not> inQuote then []
          else r @ strip_comment inQuote (drop n s))"
  by pat_completeness auto

termination
  by (relation "measure (length \<circ> snd)") (auto dest!: rune_len_pos)

declare strip_comment.simps [simp del]

definition stripComment :: "string \<Rightarrow> string" where
  "stripComment s = strip_comment False s"

definition parseString :: "string \<Rightarrow> string \<Rightarrow> cfg_error + string" where
  "parseString v where' =
     (if length v < 2 \<or> \<not> hasPrefix v [dq_char] \<or> \<not> hasSuffix v [dq_char] then Inl (BadValue where' NotQuoted v)
      else Inr (take (length v - 2) (tl v)))"

definition parseInt :: "string \<Rightarrow> string \<Rightarrow> cfg_error + int" where
  "parseInt v where' = (case atoi v of None \<Rightarrow> Inl (BadValue where' NotNumber v) | Some n \<Rightarrow> Inr n)"

definition parseBool :: "string \<Rightarrow> string \<Rightarrow> cfg_error + bool" where
  "parseBool value where' =
     (if trimSpace value = ''true'' then Inr True
      else if trimSpace value = ''false'' then Inr False
      else Inl (BadValue where' NotBool value))"

section \<open>Arrays\<close>

text \<open>\<open>splitTopLevel\<close>: the element being read, in reverse, and the rest of the text.\<close>

fun split_top :: "bool \<Rightarrow> string \<Rightarrow> string \<Rightarrow> string list" where
  "split_top q acc [] = [rev acc]"
| "split_top q acc (c # s) =
     (if c = CHR 0x5C then
        (case s of
           d # s' \<Rightarrow> if q then split_top q (d # c # acc) s' else split_top q (c # acc) s
         | [] \<Rightarrow> split_top q (c # acc) s)
      else if c = dq_char then split_top (\<not> q) (c # acc) s
      else if c = CHR '','' \<and> \<not> q then rev acc # split_top q [] s
      else split_top q (c # acc) s)"

definition splitTopLevel :: "string \<Rightarrow> string list" where
  "splitTopLevel s = split_top False [] s"

fun parse_parts :: "string list \<Rightarrow> string \<Rightarrow> cfg_error + string list" where
  "parse_parts [] where' = Inr []"
| "parse_parts (p # ps) where' =
     (let part = trimSpace p in
      if part = [] then parse_parts ps where'
      else on_ok (parseString part where') (\<lambda>s. assign ((#) s) (parse_parts ps where')))"

definition parseArray :: "string \<Rightarrow> string \<Rightarrow> cfg_error + string list" where
  "parseArray v where' =
     (if \<not> hasPrefix v ''['' \<or> \<not> hasSuffix v '']'' then Inl (BadValue where' NotArray v)
      else if length v < 2 then Inl Panic
      else let inner = trimSpace (take (length v - 2) (tl v))
           in if inner = [] then Inr [] else parse_parts (splitTopLevel inner) where')"

section \<open>Sizes\<close>

definition size_shift :: "char \<Rightarrow> nat" where
  "size_shift c =
     (if c \<in> {CHR ''K'', CHR ''k''} then 10 else if c \<in> {CHR ''M'', CHR ''m''} then 20
      else if c \<in> {CHR ''G'', CHR ''g''} then 30 else if c \<in> {CHR ''T'', CHR ''t''} then 40 else 0)"

definition max_int64 :: int where "max_int64 = 2 ^ 63 - 1"

definition unquoted :: "string \<Rightarrow> string \<Rightarrow> string" where
  "unquoted value where' = (case parseString value where' of Inr s \<Rightarrow> s | Inl _ \<Rightarrow> trim_set {dq_char, sq_char} value)"

definition parseBytes :: "string \<Rightarrow> string \<Rightarrow> cfg_error + int" where
  "parseBytes value where' =
     (let s = trimSpace (unquoted value where') in
      if s = [] then Inl (BadValue where' EmptySize [])
      else let k = size_shift (last s);
               mult = 2 ^ k :: int;
               t = (if k = 0 then s else butlast s)
           in case atoi (trimSpace t) of
                None \<Rightarrow> Inl (BadValue where' NotSize value)
              | Some n \<Rightarrow>
                  if n < 0 then Inl (BadValue where' NegativeSize [])
                  else if 1 < mult \<and> max_int64 div mult < n then Inl (BadValue where' TooLarge value)
                  else Inr (go_int (n * mult)))"

definition parseMiB :: "string \<Rightarrow> string \<Rightarrow> cfg_error + int" where
  "parseMiB value where' =
     on_ok (parseBytes value where') (\<lambda>b.
       if 0 < b \<and> b < 2 ^ 20 then Inl (BadValue where' UnderMiB value) else Inr (b div 2 ^ 20))"

section \<open>Numbers\<close>

definition parseCount :: "string \<Rightarrow> string \<Rightarrow> string \<Rightarrow> cfg_error + int" where
  "parseCount value where' key =
     on_ok (parseInt value where') (\<lambda>n. if n < 0 then Inl (BadValue where' NegativeCount key) else Inr n)"

definition trim_value :: "string \<Rightarrow> string" where
  "trim_value value = trimSpace (trim_set {dq_char, sq_char} value)"

definition parseRate :: "string \<Rightarrow> string \<Rightarrow> string \<Rightarrow> cfg_error + int" where
  "parseRate value where' key =
     (case parseInt (trim_value value) where' of
        Inl _ \<Rightarrow> Inl (BadValue where' NotWhole (key @ ''='' @ value))
      | Inr n \<Rightarrow> if n \<le> 0 then Inl (BadValue where' NotPositive key) else Inr n)"

definition parsePercent :: "string \<Rightarrow> string \<Rightarrow> cfg_error + int" where
  "parsePercent value where' =
     (let t = trim_value value in
      if \<not> hasSuffix t ''%'' then Inl (BadValue where' NotPercent value)
      else case atoi (trimSpace (trimSuffix t ''%'')) of
             None \<Rightarrow> Inl (BadValue where' BadPercent value)
           | Some n \<Rightarrow> if n \<le> 0 then Inl (BadValue where' BadPercent value) else Inr n)"

definition parsePort :: "string \<Rightarrow> string \<Rightarrow> string \<Rightarrow> cfg_error + int" where
  "parsePort value where' key =
     on_ok (parseRate value where' key) (\<lambda>n. if 65535 < n then Inl (BadValue where' NotPort key) else Inr n)"

definition parseDuration :: "string \<Rightarrow> string \<Rightarrow> string \<Rightarrow> cfg_error + int" where
  "parseDuration value where' key =
     (case parseGoDuration (trim_value value) of
        None \<Rightarrow> Inl (BadValue where' NotDuration (key @ ''='' @ value))
      | Some d \<Rightarrow> if d \<le> 0 then Inl (BadValue where' NotPositive key) else Inr d)"

text \<open>The flags \<open>--mem\<close>, \<open>--disk\<close> and their like read the grammar of the file.\<close>

definition parseMemMiB :: "string \<Rightarrow> cfg_error + int" where
  "parseMemMiB v =
     (let t = trim_value v in
      if t = [] then Inl (BadValue [] EmptySize [])
      else case atoi t of
             Some n \<Rightarrow> if n \<le> 0 then Inl (BadValue [] NotPositive []) else Inr n
           | None \<Rightarrow> parseMiB v ''--mem'')"

definition parseSize :: "string \<Rightarrow> cfg_error + int" where
  "parseSize v = parseBytes v ''--disk''"

end
