(* ===== verification/Config.thy ===== *)
theory Config
  imports Config_Text Go_Map
begin

text \<open>
  The policy file \<open>kelyfos.toml\<close>: \<^verbatim>\<open>internal/config/config.go\<close>,
  \<^verbatim>\<open>team.go\<close>, \<^verbatim>\<open>plugin.go\<close> and \<^verbatim>\<open>forward.go\<close>. A file is
  read line by line; a header selects a section and, for an array of tables, starts an element; a key
  is assigned to the last element of its section. A pointer the parser has not set is \<open>None\<close> or the
  empty list, and using it is \<open>Panic\<close>.
\<close>

section \<open>Data\<close>

record agent_resources =
  ar_CPUs :: int
  ar_MemMiB :: int
  ar_DiskByte :: int
  ar_ScratchByte :: int
  ar_CPUQuota :: int
  ar_NetMbpsRx :: int
  ar_NetMbpsTx :: int
  ar_DiskIOPS :: int
  ar_DiskMbps :: int
  ar_MaxRuntime :: int
  ar_IdleTimeout :: int

definition no_resources :: agent_resources where
  "no_resources = \<lparr>ar_CPUs = 0, ar_MemMiB = 0, ar_DiskByte = 0, ar_ScratchByte = 0, ar_CPUQuota = 0, ar_NetMbpsRx = 0,
     ar_NetMbpsTx = 0, ar_DiskIOPS = 0, ar_DiskMbps = 0, ar_MaxRuntime = 0, ar_IdleTimeout = 0\<rparr>"

record spawn_budget =
  sb_Max :: int
  sb_Images :: "string list"
  sb_Lifetime :: int
  sb_Resources :: agent_resources

definition no_spawn :: spawn_budget where
  "no_spawn = \<lparr>sb_Max = 0, sb_Images = [], sb_Lifetime = 0, sb_Resources = no_resources\<rparr>"

record team_agent =
  ta_Name :: string
  ta_Image :: string
  ta_Count :: int
  ta_Allow :: "string list"
  ta_Secrets :: "string list"
  ta_Workspace :: string
  ta_Resources :: agent_resources
  ta_Spawn :: "spawn_budget option"
  ta_Line :: int

definition new_agent :: "int \<Rightarrow> team_agent" where
  "new_agent line = \<lparr>ta_Name = [], ta_Image = [], ta_Count = 1, ta_Allow = [], ta_Secrets = [], ta_Workspace = [],
     ta_Resources = no_resources, ta_Spawn = None, ta_Line = line\<rparr>"

record team_edge =
  te_From :: string
  te_To :: string
  te_Bidirectional :: bool
  te_Line :: int

record store_key =
  tk_Name :: string
  tk_Read :: "string list"
  tk_Write :: "string list"
  tk_Line :: int

record team_store =
  ts_Enabled :: bool
  ts_Keys :: "store_key list"

record team =
  tm_Name :: string
  tm_RecordPayloads :: bool
  tm_Agents :: "team_agent list"
  tm_Edges :: "team_edge list"
  tm_Store :: "team_store option"
  tm_CPUQuota :: int
  tm_ResLine :: "(string, int) gmap"

definition no_team :: team where
  "no_team = \<lparr>tm_Name = [], tm_RecordPayloads = False, tm_Agents = [], tm_Edges = [], tm_Store = None, tm_CPUQuota = 0,
     tm_ResLine = []\<rparr>"

record plugin =
  pg_Name :: string
  pg_Path :: string
  pg_Command :: string
  pg_Args :: "string list"
  pg_Line :: int

record forward =
  fw_Host :: int
  fw_Guest :: int
  fw_Line :: int

record config =
  cf_Image :: string
  cf_Arch :: string
  cf_Allow :: "string list"
  cf_Secrets :: "string list"
  cf_Workspace :: string
  cf_Vcpus :: int
  cf_MemMiB :: int
  cf_Res :: agent_resources
  cf_MCPMaxSandboxes :: int
  cf_Plugins :: "plugin list"
  cf_Forwards :: "forward list"
  cf_ResLine :: "(string, int) gmap"
  cf_Notify :: bool
  cf_Team :: "team option"
  cf_Sessions :: "int option"
  cf_Path :: string

definition new_config :: "string \<Rightarrow> config" where
  "new_config path = \<lparr>cf_Image = [], cf_Arch = [], cf_Allow = [], cf_Secrets = [], cf_Workspace = [], cf_Vcpus = 0, cf_MemMiB = 0,
     cf_Res = no_resources, cf_MCPMaxSandboxes = 0, cf_Plugins = [], cf_Forwards = [], cf_ResLine = [], cf_Notify = False,
     cf_Team = None, cf_Sessions = None, cf_Path = path\<rparr>"

definition maxAgentCount :: int where "maxAgentCount = 64"
definition pluginNameMax :: nat where "pluginNameMax = 24"

section \<open>Places\<close>

definition line_place :: "string \<Rightarrow> nat \<Rightarrow> string" where
  "line_place path n = path @ CHR '':'' # itoa (int n)"

definition lineOf :: "string \<Rightarrow> int" where
  "lineOf where' =
     (case lastIndexChar where' CHR '':'' of None \<Rightarrow> 0
      | Some i \<Rightarrow> (case parseInt (drop (i + 1) where') where' of Inl _ \<Rightarrow> 0 | Inr n \<Rightarrow> n))"

section \<open>Headers\<close>

definition ensureTeam :: "config \<Rightarrow> config" where
  "ensureTeam c = (case cf_Team c of None \<Rightarrow> c\<lparr>cf_Team := Some no_team\<rparr> | Some _ \<Rightarrow> c)"

definition with_team :: "(team \<Rightarrow> cfg_error + team) \<Rightarrow> config \<Rightarrow> cfg_error + config" where
  "with_team f c = (case cf_Team c of None \<Rightarrow> Inl Panic | Some t \<Rightarrow> assign (\<lambda>t. c\<lparr>cf_Team := Some t\<rparr>) (f t))"

text \<open>The last element of an array of tables.\<close>

definition with_last :: "('a \<Rightarrow> cfg_error + 'a) \<Rightarrow> 'a list \<Rightarrow> cfg_error + 'a list" where
  "with_last f xs = (if xs = [] then Inl Panic else assign (\<lambda>x. butlast xs @ [x]) (f (last xs)))"

definition ensure_spawn :: "team_agent \<Rightarrow> team_agent" where
  "ensure_spawn a = (case ta_Spawn a of None \<Rightarrow> a\<lparr>ta_Spawn := Some no_spawn\<rparr> | Some _ \<Rightarrow> a)"

definition ensure_store :: "team \<Rightarrow> team" where
  "ensure_store t = (case tm_Store t of None \<Rightarrow> t\<lparr>tm_Store := Some \<lparr>ts_Enabled = False, ts_Keys = []\<rparr>\<rparr> | Some _ \<Rightarrow> t)"

definition in_team :: "(team \<Rightarrow> team) \<Rightarrow> config \<Rightarrow> config" where
  "in_team f c = (let c = ensureTeam c in c\<lparr>cf_Team := map_option f (cf_Team c)\<rparr>)"

definition add_key :: "store_key \<Rightarrow> team \<Rightarrow> team" where
  "add_key k t = (let t = ensure_store t in t\<lparr>tm_Store := map_option (\<lambda>s. s\<lparr>ts_Keys := ts_Keys s @ [k]\<rparr>) (tm_Store t)\<rparr>)"

definition agent_tables :: "string set" where
  "agent_tables = {''team.agent.resources'', ''team.agent.spawn'', ''team.agent.spawn.resources''}"

definition section_header :: "bool \<Rightarrow> string \<Rightarrow> int \<Rightarrow> string \<Rightarrow> config \<Rightarrow> cfg_error + (config \<times> string)" where
  "section_header array name l where' c =
     (if \<not> array \<and> name \<in> {''sandbox'', ''resources'', ''mcp''} then Inr (c, name)
      else if \<not> array \<and> name = ''sessions''
      then Inr (case cf_Sessions c of None \<Rightarrow> c\<lparr>cf_Sessions := Some 0\<rparr> | Some _ \<Rightarrow> c, name)
      else if \<not> array \<and> name \<in> {''team'', ''team.resources''} then Inr (ensureTeam c, name)
      else if array \<and> name = ''team.agent''
      then Inr (in_team (\<lambda>t. t\<lparr>tm_Agents := tm_Agents t @ [new_agent l]\<rparr>) c, name)
      else if \<not> array \<and> name \<in> agent_tables
      then (case cf_Team c of None \<Rightarrow> Inl (BadHeader where' name)
            | Some t \<Rightarrow>
                if tm_Agents t = [] then Inl (BadHeader where' name)
                else if name = ''team.agent.resources'' then Inr (c, name)
                else Inr (c\<lparr>cf_Team := Some (t\<lparr>tm_Agents := butlast (tm_Agents t) @ [ensure_spawn (last (tm_Agents t))]\<rparr>)\<rparr>, name))
      else if \<not> array \<and> name = ''team.store'' then Inr (in_team ensure_store c, name)
      else if array \<and> name = ''team.store.key''
      then Inr (in_team (add_key \<lparr>tk_Name = [], tk_Read = [], tk_Write = [], tk_Line = l\<rparr>) c, name)
      else if array \<and> name = ''forward''
      then Inr (c\<lparr>cf_Forwards := cf_Forwards c @ [\<lparr>fw_Host = 0, fw_Guest = 0, fw_Line = l\<rparr>]\<rparr>, ''forward'')
      else if array \<and> name = ''plugin''
      then Inr (c\<lparr>cf_Plugins := cf_Plugins c @ [\<lparr>pg_Name = [], pg_Path = [], pg_Command = [], pg_Args = [], pg_Line = l\<rparr>]\<rparr>, ''plugin'')
      else if array \<and> name = ''team.edge''
      then Inr (in_team (\<lambda>t. t\<lparr>tm_Edges := tm_Edges t @ [\<lparr>te_From = [], te_To = [], te_Bidirectional = True, te_Line = l\<rparr>]\<rparr>) c, name)
      else Inl (BadHeader where' name))"

definition config_header :: "config \<Rightarrow> string \<Rightarrow> string \<Rightarrow> cfg_error + (config \<times> string)" where
  "config_header c line where' =
     (let name = trim_set {CHR ''['', CHR '']''} line in
      if \<not> hasSuffix line '']'' then Inl (BadHeader where' line)
      else if name = [] then Inl (BadHeader where' [])
      else section_header (hasPrefix line ''[['') name (lineOf where') where' c)"

section \<open>Keys\<close>

definition assignResources :: "agent_resources \<Rightarrow> string \<Rightarrow> string \<Rightarrow> string \<Rightarrow> cfg_error + agent_resources" where
  "assignResources r key value where' =
     (if key = ''cpus'' then assign (\<lambda>n. r\<lparr>ar_CPUs := n\<rparr>) (parseInt value where')
      else if key = ''mem'' then assign (\<lambda>n. r\<lparr>ar_MemMiB := n\<rparr>) (parseMiB value where')
      else if key = ''disk'' then assign (\<lambda>n. r\<lparr>ar_DiskByte := n\<rparr>) (parseBytes value where')
      else if key = ''scratch'' then assign (\<lambda>n. r\<lparr>ar_ScratchByte := n\<rparr>) (parseBytes value where')
      else if key = ''cpu_quota'' then assign (\<lambda>n. r\<lparr>ar_CPUQuota := n\<rparr>) (parsePercent value where')
      else if key = ''net_mbps_rx'' then assign (\<lambda>n. r\<lparr>ar_NetMbpsRx := n\<rparr>) (parseRate value where' key)
      else if key = ''net_mbps_tx'' then assign (\<lambda>n. r\<lparr>ar_NetMbpsTx := n\<rparr>) (parseRate value where' key)
      else if key = ''disk_iops'' then assign (\<lambda>n. r\<lparr>ar_DiskIOPS := n\<rparr>) (parseRate value where' key)
      else if key = ''disk_mbps'' then assign (\<lambda>n. r\<lparr>ar_DiskMbps := n\<rparr>) (parseRate value where' key)
      else if key = ''max_runtime'' then assign (\<lambda>n. r\<lparr>ar_MaxRuntime := n\<rparr>) (parseDuration value where' key)
      else if key = ''idle_timeout'' then assign (\<lambda>n. r\<lparr>ar_IdleTimeout := n\<rparr>) (parseDuration value where' key)
      else Inl (UnknownKey where' key ''resources''))"

text \<open>The same keys under \<open>[resources]\<close>, where \<open>cpus\<close> refuses a negative count.\<close>

definition runResources :: "agent_resources \<Rightarrow> string \<Rightarrow> string \<Rightarrow> string \<Rightarrow> cfg_error + agent_resources" where
  "runResources r key value where' =
     (if key = ''cpus'' then assign (\<lambda>n. r\<lparr>ar_CPUs := n\<rparr>) (parseCount value where' key)
      else if key = ''mem'' then assign (\<lambda>n. r\<lparr>ar_MemMiB := n\<rparr>) (parseMiB value where')
      else if key = ''disk'' then assign (\<lambda>n. r\<lparr>ar_DiskByte := n\<rparr>) (parseBytes value where')
      else if key = ''cpu_quota'' then assign (\<lambda>n. r\<lparr>ar_CPUQuota := n\<rparr>) (parsePercent value where')
      else if key = ''net_mbps_rx'' then assign (\<lambda>n. r\<lparr>ar_NetMbpsRx := n\<rparr>) (parseRate value where' key)
      else if key = ''net_mbps_tx'' then assign (\<lambda>n. r\<lparr>ar_NetMbpsTx := n\<rparr>) (parseRate value where' key)
      else if key = ''disk_iops'' then assign (\<lambda>n. r\<lparr>ar_DiskIOPS := n\<rparr>) (parseRate value where' key)
      else if key = ''disk_mbps'' then assign (\<lambda>n. r\<lparr>ar_DiskMbps := n\<rparr>) (parseRate value where' key)
      else if key = ''scratch'' then assign (\<lambda>n. r\<lparr>ar_ScratchByte := n\<rparr>) (parseBytes value where')
      else if key = ''max_runtime'' then assign (\<lambda>n. r\<lparr>ar_MaxRuntime := n\<rparr>) (parseDuration value where' key)
      else if key = ''idle_timeout'' then assign (\<lambda>n. r\<lparr>ar_IdleTimeout := n\<rparr>) (parseDuration value where' key)
      else Inl (UnknownKey where' key ''resources''))"

definition agentKey :: "string \<Rightarrow> string \<Rightarrow> string \<Rightarrow> team_agent \<Rightarrow> cfg_error + team_agent" where
  "agentKey key value where' a =
     (if key = ''name'' then assign (\<lambda>s. a\<lparr>ta_Name := s\<rparr>) (parseString value where')
      else if key = ''image'' then assign (\<lambda>s. a\<lparr>ta_Image := s\<rparr>) (parseString value where')
      else if key = ''workspace'' then assign (\<lambda>s. a\<lparr>ta_Workspace := s\<rparr>) (parseString value where')
      else if key = ''count''
      then on_ok (parseInt value where') (\<lambda>n.
             if n < 1 then Inl (BadValue where' CountLow [])
             else if maxAgentCount < n then Inl (BadValue where' CountHigh (itoa n))
             else Inr (a\<lparr>ta_Count := n\<rparr>))
      else if key = ''allow'' then assign (\<lambda>xs. a\<lparr>ta_Allow := xs\<rparr>) (parseArray value where')
      else if key = ''secrets'' then assign (\<lambda>xs. a\<lparr>ta_Secrets := xs\<rparr>) (parseArray value where')
      else Inl (UnknownKey where' key ''team.agent''))"

definition spawnKey :: "string \<Rightarrow> string \<Rightarrow> string \<Rightarrow> spawn_budget \<Rightarrow> cfg_error + spawn_budget" where
  "spawnKey key value where' s =
     (if key = ''max'' then assign (\<lambda>n. s\<lparr>sb_Max := n\<rparr>) (parseInt value where')
      else if key = ''image'' then assign (\<lambda>xs. s\<lparr>sb_Images := xs\<rparr>) (parseArray value where')
      else if key = ''lifetime'' then assign (\<lambda>n. s\<lparr>sb_Lifetime := n\<rparr>) (parseDuration value where' key)
      else Inl (UnknownKey where' key ''team.agent.spawn''))"

definition with_spawn :: "(spawn_budget \<Rightarrow> cfg_error + spawn_budget) \<Rightarrow> team_agent \<Rightarrow> cfg_error + team_agent" where
  "with_spawn f a = (case ta_Spawn a of None \<Rightarrow> Inl Panic | Some s \<Rightarrow> assign (\<lambda>s. a\<lparr>ta_Spawn := Some s\<rparr>) (f s))"

definition with_store :: "(team_store \<Rightarrow> cfg_error + team_store) \<Rightarrow> team \<Rightarrow> cfg_error + team" where
  "with_store f t = (case tm_Store t of None \<Rightarrow> Inl Panic | Some s \<Rightarrow> assign (\<lambda>s. t\<lparr>tm_Store := Some s\<rparr>) (f s))"

definition edgeKey :: "string \<Rightarrow> string \<Rightarrow> string \<Rightarrow> team_edge \<Rightarrow> cfg_error + team_edge" where
  "edgeKey key value where' e =
     (if key = ''from'' then assign (\<lambda>s. e\<lparr>te_From := s\<rparr>) (parseString value where')
      else if key = ''to'' then assign (\<lambda>s. e\<lparr>te_To := s\<rparr>) (parseString value where')
      else if key = ''bidirectional'' then assign (\<lambda>b. e\<lparr>te_Bidirectional := b\<rparr>) (parseBool value where')
      else Inl (UnknownKey where' key ''team.edge''))"

definition storeKey :: "string \<Rightarrow> string \<Rightarrow> string \<Rightarrow> store_key \<Rightarrow> cfg_error + store_key" where
  "storeKey key value where' k =
     (if key = ''name'' then assign (\<lambda>s. k\<lparr>tk_Name := s\<rparr>) (parseString value where')
      else if key = ''read'' then assign (\<lambda>xs. k\<lparr>tk_Read := xs\<rparr>) (parseArray value where')
      else if key = ''write'' then assign (\<lambda>xs. k\<lparr>tk_Write := xs\<rparr>) (parseArray value where')
      else Inl (UnknownKey where' key ''team.store.key''))"

definition not_shared :: "string list" where
  "not_shared = [''cpus'', ''mem'', ''disk'', ''scratch'', ''net_mbps_rx'', ''net_mbps_tx'', ''disk_iops'', ''disk_mbps'',
     ''max_runtime'', ''idle_timeout'']"

definition team_table :: "string \<Rightarrow> string \<Rightarrow> string \<Rightarrow> string \<Rightarrow> team \<Rightarrow> cfg_error + team" where
  "team_table section key value where' t =
     (if section = ''team'' then
        (if key = ''name'' then assign (\<lambda>s. t\<lparr>tm_Name := s\<rparr>) (parseString value where')
         else if key = ''record_payloads'' then assign (\<lambda>b. t\<lparr>tm_RecordPayloads := b\<rparr>) (parseBool value where')
         else Inl (UnknownKey where' key section))
      else if section = ''team.resources'' then
        (let t = t\<lparr>tm_ResLine := m_put key (lineOf where') (tm_ResLine t)\<rparr> in
         if key = ''cpu_quota'' then assign (\<lambda>n. t\<lparr>tm_CPUQuota := n\<rparr>) (parsePercent value where')
         else if key \<in> set not_shared then Inl (BadValue where' NotShared key)
         else Inl (UnknownKey where' key section))
      else if section = ''team.agent'' then assign (\<lambda>as. t\<lparr>tm_Agents := as\<rparr>) (with_last (agentKey key value where') (tm_Agents t))
      else if section = ''team.agent.resources'' then
        assign (\<lambda>as. t\<lparr>tm_Agents := as\<rparr>)
          (with_last (\<lambda>a. assign (\<lambda>r. a\<lparr>ta_Resources := r\<rparr>) (assignResources (ta_Resources a) key value where')) (tm_Agents t))
      else if section = ''team.agent.spawn'' then
        assign (\<lambda>as. t\<lparr>tm_Agents := as\<rparr>) (with_last (with_spawn (spawnKey key value where')) (tm_Agents t))
      else if section = ''team.agent.spawn.resources'' then
        assign (\<lambda>as. t\<lparr>tm_Agents := as\<rparr>)
          (with_last (with_spawn (\<lambda>s. assign (\<lambda>r. s\<lparr>sb_Resources := r\<rparr>) (assignResources (sb_Resources s) key value where')))
             (tm_Agents t))
      else if section = ''team.edge'' then assign (\<lambda>es. t\<lparr>tm_Edges := es\<rparr>) (with_last (edgeKey key value where') (tm_Edges t))
      else if section = ''team.store'' then
        with_store (\<lambda>s.
          if key = ''enabled'' then assign (\<lambda>b. s\<lparr>ts_Enabled := b\<rparr>) (parseBool value where')
          else Inl (UnknownKey where' key section)) t
      else if section = ''team.store.key'' then
        with_store (\<lambda>s. assign (\<lambda>ks. s\<lparr>ts_Keys := ks\<rparr>) (with_last (storeKey key value where') (ts_Keys s))) t
      else Inl (BadHeader where' section))"

definition teamKey :: "string \<Rightarrow> string \<Rightarrow> string \<Rightarrow> string \<Rightarrow> config \<Rightarrow> cfg_error + config" where
  "teamKey section key value where' c = with_team (team_table section key value where') c"

text \<open>The regular expression \<open>^[a-z][a-z0-9-]*$\<close>.\<close>

definition lower_letter :: "char \<Rightarrow> bool" where
  "lower_letter c \<longleftrightarrow> 97 \<le> byte c \<and> byte c \<le> 122"

definition pluginName :: "string \<Rightarrow> bool" where
  "pluginName s = (case s of [] \<Rightarrow> False | c # t \<Rightarrow> lower_letter c \<and> list_all (\<lambda>c. lower_letter c \<or> is_digit c \<or> c = CHR ''-'') t)"

definition pluginKey :: "string \<Rightarrow> string \<Rightarrow> string \<Rightarrow> plugin \<Rightarrow> cfg_error + plugin" where
  "pluginKey key value where' p =
     (if key = ''name''
      then on_ok (parseString value where') (\<lambda>s.
             if \<not> pluginName s then Inl (BadValue where' BadPluginName s)
             else if pluginNameMax < length s then Inl (BadValue where' LongPluginName s)
             else Inr (p\<lparr>pg_Name := s\<rparr>))
      else if key = ''path'' then assign (\<lambda>s. p\<lparr>pg_Path := s\<rparr>) (parseString value where')
      else if key = ''command'' then assign (\<lambda>s. p\<lparr>pg_Command := s\<rparr>) (parseString value where')
      else if key = ''args'' then assign (\<lambda>xs. p\<lparr>pg_Args := xs\<rparr>) (parseArray value where')
      else Inl (UnknownKey where' key ''plugin''))"

definition forwardKey :: "string \<Rightarrow> string \<Rightarrow> string \<Rightarrow> forward \<Rightarrow> cfg_error + forward" where
  "forwardKey key value where' f =
     (if key = ''host'' then assign (\<lambda>n. f\<lparr>fw_Host := n\<rparr>) (parsePort value where' key)
      else if key = ''guest'' then assign (\<lambda>n. f\<lparr>fw_Guest := n\<rparr>) (parsePort value where' key)
      else Inl (UnknownKey where' key ''forward''))"

definition sandboxKey :: "string \<Rightarrow> string \<Rightarrow> string \<Rightarrow> config \<Rightarrow> cfg_error + config" where
  "sandboxKey key value where' c =
     (if key = ''image'' then assign (\<lambda>s. c\<lparr>cf_Image := s\<rparr>) (parseString value where')
      else if key = ''arch'' then assign (\<lambda>s. c\<lparr>cf_Arch := s\<rparr>) (parseString value where')
      else if key = ''workspace'' then assign (\<lambda>s. c\<lparr>cf_Workspace := s\<rparr>) (parseString value where')
      else if key = ''allow'' then assign (\<lambda>xs. c\<lparr>cf_Allow := xs\<rparr>) (parseArray value where')
      else if key = ''secrets'' then assign (\<lambda>xs. c\<lparr>cf_Secrets := xs\<rparr>) (parseArray value where')
      else if key = ''vcpus'' then assign (\<lambda>n. c\<lparr>cf_Vcpus := n\<rparr>) (parseInt value where')
      else if key = ''mem_mib'' then assign (\<lambda>n. c\<lparr>cf_MemMiB := n\<rparr>) (parseInt value where')
      else if key = ''notify'' then assign (\<lambda>b. c\<lparr>cf_Notify := b\<rparr>) (parseBool value where')
      else Inl (UnknownKey where' key []))"

text \<open>One assignment, in the order the sections are asked for.\<close>

definition config_key :: "string \<Rightarrow> string \<Rightarrow> string \<Rightarrow> string \<Rightarrow> nat \<Rightarrow> config \<Rightarrow> cfg_error + config" where
  "config_key section key value where' n c =
     (if section = ''plugin'' then assign (\<lambda>ps. c\<lparr>cf_Plugins := ps\<rparr>) (with_last (pluginKey key value where') (cf_Plugins c))
      else if section = ''forward'' then assign (\<lambda>fs. c\<lparr>cf_Forwards := fs\<rparr>) (with_last (forwardKey key value where') (cf_Forwards c))
      else if section = ''sessions'' then
        (if key = ''retention_days''
         then (case cf_Sessions c of None \<Rightarrow> Inl Panic
               | Some _ \<Rightarrow> assign (\<lambda>n. c\<lparr>cf_Sessions := Some n\<rparr>) (parseCount value where' key))
         else Inl (UnknownKey where' key ''sessions''))
      else if section = ''mcp'' then
        (if key = ''max_sandboxes'' then assign (\<lambda>n. c\<lparr>cf_MCPMaxSandboxes := n\<rparr>) (parseRate value where' key)
         else Inl (UnknownKey where' key ''mcp''))
      else if hasPrefix section ''team'' then teamKey section key value where' c
      else if section = ''resources'' then
        (let c = c\<lparr>cf_ResLine := m_put key (int n) (cf_ResLine c)\<rparr>
         in assign (\<lambda>r. c\<lparr>cf_Res := r\<rparr>) (runResources (cf_Res c) key value where'))
      else sandboxKey key value where' c)"

text \<open>One line, and all of them.\<close>

definition config_line :: "string \<Rightarrow> nat \<Rightarrow> string \<Rightarrow> config \<times> string \<Rightarrow> cfg_error + (config \<times> string)" where
  "config_line path n raw st =
     (let line = trimSpace (stripComment raw); where' = line_place path n in
      if line = [] then Inr st
      else if hasPrefix line ''['' then config_header (fst st) line where'
      else case cut line CHR ''='' of (key, value, ok) \<Rightarrow>
        if \<not> ok then Inl (NoEquals where')
        else assign (\<lambda>c. (c, snd st)) (config_key (snd st) (trimSpace key) (trimSpace value) where' n (fst st)))"

fun config_lines :: "string \<Rightarrow> nat \<Rightarrow> string list \<Rightarrow> config \<times> string \<Rightarrow> cfg_error + (config \<times> string)" where
  "config_lines path n [] st = Inr st"
| "config_lines path n (raw # raws) st = on_ok (config_line path n raw st) (config_lines path (n + 1) raws)"

section \<open>The whole file\<close>

fun check_secrets :: "(string \<Rightarrow> string) \<Rightarrow> string list \<Rightarrow> cfg_error option" where
  "check_secrets uni [] = None"
| "check_secrets uni (s # ss) =
     (if CHR ''='' \<in> set s then Some (BadSecretSpec s None)
      else if CHR ''@'' \<notin> set s then Some (BadSecretSpec s None)
      else case parseSecretSpec uni s of
             Inl e \<Rightarrow> Some (BadSecretSpec s (Some e))
           | Inr _ \<Rightarrow> check_secrets uni ss)"

fun check_agents_allow :: "(string \<Rightarrow> string) \<Rightarrow> team_agent list \<Rightarrow> cfg_error option" where
  "check_agents_allow uni [] = None"
| "check_agents_allow uni (a # as) =
     (case checkAllowList uni (ta_Allow a) of
        Some e \<Rightarrow> Some (BadAllowList (Some (ta_Name a)) e)
      | None \<Rightarrow> check_agents_allow uni as)"

definition validate :: "(string \<Rightarrow> string) \<Rightarrow> config \<Rightarrow> cfg_error option" where
  "validate uni c =
     (case check_secrets uni (cf_Secrets c) of
        Some e \<Rightarrow> Some e
      | None \<Rightarrow>
          (case checkAllowList uni (cf_Allow c) of
             Some e \<Rightarrow> Some (BadAllowList None e)
           | None \<Rightarrow>
               (case (case cf_Team c of None \<Rightarrow> None | Some t \<Rightarrow> check_agents_allow uni (tm_Agents t)) of
                  Some e \<Rightarrow> Some e
                | None \<Rightarrow> if cf_Vcpus c < 0 \<or> cf_MemMiB c < 0 then Some NegativeMachine else None)))"

definition parse :: "(string \<Rightarrow> string) \<Rightarrow> bytes \<Rightarrow> string \<Rightarrow> cfg_error + config" where
  "parse uni blob path =
     on_ok (config_lines path 1 (split_on CHR 0x0A blob) (new_config path, [])) (\<lambda>st.
       case validate uni (fst st) of None \<Rightarrow> Inr (fst st) | Some e \<Rightarrow> Inl e)"

definition ceiling_line :: "config \<Rightarrow> string \<Rightarrow> int option" where
  "ceiling_line c key = m_get (cf_ResLine c) key"

text \<open>What a single key cannot see.\<close>

fun check_plugins :: "plugin list \<Rightarrow> (string, int) gmap \<Rightarrow> cfg_error option" where
  "check_plugins [] seen = None"
| "check_plugins (p # ps) seen =
     (if pg_Name p = [] \<or> pg_Path p = [] \<or> pg_Command p = [] then Some (BadEntry (pg_Line p) (pg_Name p))
      else case m_get seen (pg_Name p) of
             Some _ \<Rightarrow> Some (BadEntry (pg_Line p) (pg_Name p))
           | None \<Rightarrow> check_plugins ps (m_put (pg_Name p) (pg_Line p) seen))"

definition checkPlugins :: "config \<Rightarrow> cfg_error option" where
  "checkPlugins c = check_plugins (cf_Plugins c) []"

fun check_forwards :: "forward list \<Rightarrow> (int, int) gmap \<Rightarrow> cfg_error option" where
  "check_forwards [] seen = None"
| "check_forwards (f # fs) seen =
     (if fw_Host f = 0 \<or> fw_Guest f = 0 then Some (BadEntry (fw_Line f) [])
      else case m_get seen (fw_Host f) of
             Some _ \<Rightarrow> Some (BadEntry (fw_Line f) (itoa (fw_Host f)))
           | None \<Rightarrow> check_forwards fs (m_put (fw_Host f) (fw_Line f) seen))"

definition checkForwards :: "config \<Rightarrow> cfg_error option" where
  "checkForwards c = check_forwards (cf_Forwards c) []"

end
