(* ===== verification/Config_Inv.thy ===== *)
theory Config_Inv
  imports Config
begin

text \<open>
  What the parser keeps of the configuration it builds: the section it is in has the table, and the
  element, its keys are assigned to, and every value is one its reader lets through. No index and no
  pointer is used that the file did not set.
\<close>

section \<open>Values\<close>

definition cap :: "int \<Rightarrow> bool" where
  "cap n \<longleftrightarrow> 0 \<le> n \<and> in_int64 n"

lemma atoi_fits: "atoi s = Some n \<Longrightarrow> in_int64 n"
  by (auto simp: atoi_def split: if_splits option.splits)

lemma cap_0 [simp]: "cap 0"
  by (simp add: cap_def in_int64_def)

lemma parseInt_int64: "parseInt v w = Inr n \<Longrightarrow> in_int64 n"
  by (auto simp: parseInt_def atoi_fits split: option.splits)

lemma parseCount_cap: "parseCount v w k = Inr n \<Longrightarrow> cap n"
  by (auto simp: parseCount_def on_ok_Inr cap_def dest: parseInt_int64 split: if_splits)

lemma parseBytes_cap: "parseBytes v w = Inr n \<Longrightarrow> cap n"
proof -
  assume p: "parseBytes v w = Inr n"
  let ?s = "trimSpace (unquoted v w)"
  let ?k = "size_shift (last ?s)"
  from p obtain m where m: "0 \<le> m" "in_int64 m" "1 < (2 :: int) ^ ?k \<Longrightarrow> m \<le> max_int64 div 2 ^ ?k" "n = go_int (m * 2 ^ ?k)"
    by (auto simp: parseBytes_def Let_def atoi_fits not_less split: if_splits option.splits)
  have "m * 2 ^ ?k \<le> max_int64"
  proof (cases "1 < (2 :: int) ^ ?k")
    case True
    have "max_int64 div 2 ^ ?k * 2 ^ ?k \<le> max_int64" by (simp add: minus_mod_eq_div_mult[symmetric])
    moreover have "m * 2 ^ ?k \<le> max_int64 div 2 ^ ?k * 2 ^ ?k" using m(3)[OF True] by (intro mult_right_mono) simp_all
    ultimately show ?thesis by linarith
  next
    case False
    moreover have "(1 :: int) \<le> 2 ^ ?k" by simp
    ultimately have "(2 :: int) ^ ?k = 1" by linarith
    then show ?thesis using m(2) by (simp add: in_int64_def max_int64_def)
  qed
  moreover have "0 \<le> m * 2 ^ ?k" using m(1) by simp
  ultimately have "in_int64 (m * 2 ^ ?k)" by (simp add: in_int64_def max_int64_def)
  then show "cap n" using \<open>0 \<le> m * 2 ^ ?k\<close> m(4) by (simp add: cap_def go_int_id)
qed

lemma parseMiB_cap: "parseMiB v w = Inr n \<Longrightarrow> cap n"
proof -
  assume "parseMiB v w = Inr n"
  then obtain b where b: "parseBytes v w = Inr b" "n = b div 2 ^ 20" by (auto simp: parseMiB_def on_ok_Inr split: if_splits)
  have "0 \<le> b" "b < 2 ^ 63" using parseBytes_cap[OF b(1)] by (simp_all add: cap_def in_int64_def)
  moreover have "0 \<le> b div 2 ^ 20" using calculation(1) by (simp add: pos_imp_zdiv_nonneg_iff)
  moreover have "b div 2 ^ 20 \<le> b" using zdiv_mono2[OF calculation(1), of 1 "2 ^ 20"] by simp
  ultimately show "cap n" by (simp add: cap_def in_int64_def b(2))
qed

lemma parseRate_cap: "parseRate v w k = Inr n \<Longrightarrow> cap n \<and> 0 < n"
  by (auto simp: parseRate_def cap_def dest: parseInt_int64 split: sum.splits if_splits)

lemma parsePercent_cap: "parsePercent v w = Inr n \<Longrightarrow> cap n"
  by (auto simp: parsePercent_def Let_def cap_def dest: atoi_fits split: if_splits option.splits)

lemma parseDuration_cap: "parseDuration v w k = Inr n \<Longrightarrow> cap n"
  by (auto simp: parseDuration_def cap_def dest: parseGoDuration_int64 split: if_splits option.splits)

lemma parsePort_range: "parsePort v w k = Inr n \<Longrightarrow> 0 \<le> n \<and> n \<le> 65535"
  by (auto simp: parsePort_def on_ok_Inr cap_def dest!: parseRate_cap split: if_splits)

lemmas scalar_caps = parseCount_cap parseBytes_cap parseMiB_cap parsePercent_cap parseDuration_cap

section \<open>No panic in a value\<close>

lemma parseString_safe [simp]: "parseString v w \<noteq> Inl Panic"
  by (simp add: parseString_def)

lemma parseInt_safe [simp]: "parseInt v w \<noteq> Inl Panic"
  by (simp add: parseInt_def split: option.splits)

lemma parseBool_safe [simp]: "parseBool v w \<noteq> Inl Panic"
  by (simp add: parseBool_def)

lemma parse_parts_safe: "parse_parts ps w \<noteq> Inl Panic"
  by (induction ps) (auto simp: Let_def on_ok_Inl)

lemma parseArray_safe [simp]: "parseArray v w \<noteq> Inl Panic"
proof
  assume p: "parseArray v w = Inl Panic"
  then have v: "hasPrefix v ''[''" "hasSuffix v '']''" "length v < 2"
    using parse_parts_safe by (auto simp: parseArray_def Let_def split: if_splits)
  then obtain t where "v = CHR ''['' # t" by (auto simp: hasPrefix_iff)
  then show False using v(2,3) by (auto simp: hasSuffix_iff Cons_eq_append_conv)
qed

lemma parseBytes_safe [simp]: "parseBytes v w \<noteq> Inl Panic"
  by (auto simp: parseBytes_def Let_def split: option.splits)

lemma parseMiB_safe [simp]: "parseMiB v w \<noteq> Inl Panic"
  by (auto simp: parseMiB_def on_ok_Inl split: if_splits)

lemma parseCount_safe [simp]: "parseCount v w k \<noteq> Inl Panic"
  by (auto simp: parseCount_def on_ok_Inl split: if_splits)

lemma parseRate_safe [simp]: "parseRate v w k \<noteq> Inl Panic"
  by (auto simp: parseRate_def split: sum.splits)

lemma parsePercent_safe [simp]: "parsePercent v w \<noteq> Inl Panic"
  by (auto simp: parsePercent_def Let_def split: option.splits)

lemma parsePort_safe [simp]: "parsePort v w k \<noteq> Inl Panic"
  by (auto simp: parsePort_def on_ok_Inl split: if_splits)

lemma parseDuration_safe [simp]: "parseDuration v w k \<noteq> Inl Panic"
  by (auto simp: parseDuration_def split: option.splits)

lemma assignResources_safe [simp]: "assignResources r k v w \<noteq> Inl Panic"
  by (simp add: assignResources_def)

lemma runResources_safe [simp]: "runResources r k v w \<noteq> Inl Panic"
  by (simp add: runResources_def)

lemma agentKey_safe [simp]: "agentKey k v w a \<noteq> Inl Panic"
  by (auto simp: agentKey_def on_ok_Inl split: if_splits)

lemma spawnKey_safe [simp]: "spawnKey k v w s \<noteq> Inl Panic"
  by (simp add: spawnKey_def)

lemma edgeKey_safe [simp]: "edgeKey k v w e \<noteq> Inl Panic"
  by (simp add: edgeKey_def)

lemma storeKey_safe [simp]: "storeKey k v w e \<noteq> Inl Panic"
  by (simp add: storeKey_def)

lemma pluginKey_safe [simp]: "pluginKey k v w p \<noteq> Inl Panic"
  by (auto simp: pluginKey_def on_ok_Inl split: if_splits)

lemma forwardKey_safe [simp]: "forwardKey k v w f \<noteq> Inl Panic"
  by (simp add: forwardKey_def)

lemma sandboxKey_safe [simp]: "sandboxKey k v w c \<noteq> Inl Panic"
  by (simp add: sandboxKey_def)

lemma with_last_Panic: "with_last f xs = Inl Panic \<longleftrightarrow> xs = [] \<or> f (last xs) = Inl Panic"
  by (simp add: with_last_def)

lemma with_spawn_Panic: "with_spawn f a = Inl Panic \<longleftrightarrow> ta_Spawn a = None \<or> (\<exists>s. ta_Spawn a = Some s \<and> f s = Inl Panic)"
  by (auto simp: with_spawn_def split: option.splits)

lemma with_store_Panic: "with_store f t = Inl Panic \<longleftrightarrow> tm_Store t = None \<or> (\<exists>s. tm_Store t = Some s \<and> f s = Inl Panic)"
  by (auto simp: with_store_def split: option.splits)

section \<open>The state of the parser\<close>

text \<open>Each section has what its keys are assigned to.\<close>

definition team_ready :: "string \<Rightarrow> team \<Rightarrow> bool" where
  "team_ready sec t \<longleftrightarrow>
     (sec \<in> {''team.agent'', ''team.agent.resources'', ''team.agent.spawn'', ''team.agent.spawn.resources''} \<longrightarrow> tm_Agents t \<noteq> []) \<and>
     (sec \<in> {''team.agent.spawn'', ''team.agent.spawn.resources''} \<longrightarrow> ta_Spawn (last (tm_Agents t)) \<noteq> None) \<and>
     (sec = ''team.edge'' \<longrightarrow> tm_Edges t \<noteq> []) \<and>
     (sec \<in> {''team.store'', ''team.store.key''} \<longrightarrow> tm_Store t \<noteq> None) \<and>
     (sec = ''team.store.key'' \<longrightarrow> (\<forall>s. tm_Store t = Some s \<longrightarrow> ts_Keys s \<noteq> []))"

definition team_sections :: "string list" where
  "team_sections = [''team'', ''team.resources'', ''team.agent'', ''team.agent.resources'', ''team.agent.spawn'',
     ''team.agent.spawn.resources'', ''team.edge'', ''team.store'', ''team.store.key'']"

definition section_ready :: "string \<Rightarrow> config \<Rightarrow> bool" where
  "section_ready sec c \<longleftrightarrow>
     (sec = ''plugin'' \<longrightarrow> cf_Plugins c \<noteq> []) \<and> (sec = ''forward'' \<longrightarrow> cf_Forwards c \<noteq> []) \<and>
     (sec = ''sessions'' \<longrightarrow> cf_Sessions c \<noteq> None) \<and>
     (sec \<in> set team_sections \<longrightarrow> (\<exists>t. cf_Team c = Some t \<and> team_ready sec t)) \<and>
     sec \<in> set ([[], ''sandbox'', ''resources'', ''mcp'', ''sessions'', ''plugin'', ''forward''] @ team_sections)"

text \<open>Each value is one its reader lets through.\<close>

definition rates_ok :: "agent_resources \<Rightarrow> bool" where
  "rates_ok r \<longleftrightarrow> cap (ar_MemMiB r) \<and> cap (ar_DiskByte r) \<and> cap (ar_ScratchByte r) \<and> cap (ar_CPUQuota r) \<and>
     cap (ar_NetMbpsRx r) \<and> cap (ar_NetMbpsTx r) \<and> cap (ar_DiskIOPS r) \<and> cap (ar_DiskMbps r) \<and>
     cap (ar_MaxRuntime r) \<and> cap (ar_IdleTimeout r)"

definition agent_ok :: "team_agent \<Rightarrow> bool" where
  "agent_ok a \<longleftrightarrow> 1 \<le> ta_Count a \<and> ta_Count a \<le> maxAgentCount \<and> rates_ok (ta_Resources a) \<and>
     (\<forall>s. ta_Spawn a = Some s \<longrightarrow> cap (sb_Lifetime s) \<and> rates_ok (sb_Resources s))"

definition team_ok :: "team \<Rightarrow> bool" where
  "team_ok t \<longleftrightarrow> list_all agent_ok (tm_Agents t) \<and> cap (tm_CPUQuota t)"

definition plugin_ok :: "plugin \<Rightarrow> bool" where
  "plugin_ok p \<longleftrightarrow> pg_Name p = [] \<or> pluginName (pg_Name p) \<and> length (pg_Name p) \<le> pluginNameMax"

definition forward_ok :: "forward \<Rightarrow> bool" where
  "forward_ok f \<longleftrightarrow> 0 \<le> fw_Host f \<and> fw_Host f \<le> 65535 \<and> 0 \<le> fw_Guest f \<and> fw_Guest f \<le> 65535"

definition values_ok :: "config \<Rightarrow> bool" where
  "values_ok c \<longleftrightarrow> cap (ar_CPUs (cf_Res c)) \<and> rates_ok (cf_Res c) \<and> cap (cf_MCPMaxSandboxes c) \<and>
     (\<forall>n. cf_Sessions c = Some n \<longrightarrow> cap n) \<and> list_all plugin_ok (cf_Plugins c) \<and> list_all forward_ok (cf_Forwards c) \<and>
     (\<forall>t. cf_Team c = Some t \<longrightarrow> team_ok t)"

lemma rates_no_resources [simp]: "rates_ok no_resources"
  by (simp add: rates_ok_def no_resources_def)

lemma agent_ok_new [simp]: "agent_ok (new_agent l)"
  by (simp add: agent_ok_def new_agent_def maxAgentCount_def)

lemma assignResources_ok: "assignResources r k v w = Inr r' \<Longrightarrow> rates_ok r \<Longrightarrow> rates_ok r'"
  by (auto simp: assignResources_def assign_Inr rates_ok_def split: if_splits dest: scalar_caps parseRate_cap)

lemma runResources_ok:
  "runResources r k v w = Inr r' \<Longrightarrow> rates_ok r \<Longrightarrow> cap (ar_CPUs r) \<Longrightarrow> rates_ok r' \<and> cap (ar_CPUs r')"
  by (auto simp: runResources_def assign_Inr rates_ok_def split: if_splits dest: scalar_caps parseRate_cap)

lemma agentKey_ok: "agentKey k v w a = Inr a' \<Longrightarrow> agent_ok a \<Longrightarrow> agent_ok a' \<and> ta_Spawn a' = ta_Spawn a"
  by (auto simp: agentKey_def assign_Inr on_ok_Inr agent_ok_def split: if_splits)

lemma spawnKey_ok: "spawnKey k v w s = Inr s' \<Longrightarrow> cap (sb_Lifetime s) \<and> rates_ok (sb_Resources s) \<Longrightarrow> cap (sb_Lifetime s') \<and> rates_ok (sb_Resources s')"
  by (auto simp: spawnKey_def assign_Inr split: if_splits dest: parseDuration_cap)

lemma with_spawn_ok:
  assumes "with_spawn f a = Inr a'" and "agent_ok a"
    and "\<And>s s'. f s = Inr s' \<Longrightarrow> cap (sb_Lifetime s) \<and> rates_ok (sb_Resources s) \<Longrightarrow> cap (sb_Lifetime s') \<and> rates_ok (sb_Resources s')"
  shows "agent_ok a' \<and> ta_Spawn a' \<noteq> None"
  using assms by (auto simp: with_spawn_def assign_Inr agent_ok_def split: option.splits)

lemma with_last_Inr: "with_last f xs = Inr ys \<longleftrightarrow> (\<exists>y. xs \<noteq> [] \<and> f (last xs) = Inr y \<and> ys = butlast xs @ [y])"
  by (auto simp: with_last_def assign_Inr)

lemma with_last_all:
  assumes "with_last f xs = Inr ys" and "list_all P xs" and "\<And>x y. f x = Inr y \<Longrightarrow> P x \<Longrightarrow> P y"
  shows "list_all P ys"
proof -
  obtain y where y: "xs \<noteq> []" "f (last xs) = Inr y" "ys = butlast xs @ [y]" using assms(1) by (auto simp: with_last_Inr)
  have "P y" using y(1,2) assms(2,3) by (auto simp: list_all_iff)
  then show ?thesis using y assms(2) by (auto simp: list_all_iff dest: in_set_butlastD)
qed

lemma pluginKey_ok: "pluginKey k v w p = Inr p' \<Longrightarrow> plugin_ok p \<Longrightarrow> plugin_ok p'"
  by (auto simp: pluginKey_def assign_Inr on_ok_Inr plugin_ok_def split: if_splits)

lemma forwardKey_ok: "forwardKey k v w f = Inr f' \<Longrightarrow> forward_ok f \<Longrightarrow> forward_ok f'"
  by (auto simp: forwardKey_def assign_Inr forward_ok_def split: if_splits dest: parsePort_range)

text \<open>
  A header leaves its section ready, a key keeps it so; both keep the values, and neither panics.
\<close>

section \<open>Headers\<close>

text \<open>A step that does not panic and whose result has a property; one branch at a time.\<close>

definition good :: "('a \<Rightarrow> bool) \<Rightarrow> cfg_error + 'a \<Rightarrow> bool" where
  "good Q r \<longleftrightarrow> r \<noteq> Inl Panic \<and> (\<forall>x. r = Inr x \<longrightarrow> Q x)"

lemma good_Inr [simp]: "good Q (Inr x) \<longleftrightarrow> Q x"
  by (simp add: good_def)

lemma good_Inl [simp]: "good Q (Inl e) \<longleftrightarrow> e \<noteq> Panic"
  by (simp add: good_def)

lemma good_if: "(P \<Longrightarrow> good Q x) \<Longrightarrow> good Q y \<Longrightarrow> good Q (if P then x else y)"
  by simp

lemma good_assign: "good (\<lambda>x. Q (f x)) r \<Longrightarrow> good Q (assign f r)"
  by (auto simp: good_def assign_Inr)

lemma goodI: "r \<noteq> Inl Panic \<Longrightarrow> (\<And>x. r = Inr x \<Longrightarrow> Q x) \<Longrightarrow> good Q r"
  by (simp add: good_def)

lemma in_team_Some: "\<exists>t. cf_Team (in_team f c) = Some (f t) \<and> cf_Team (ensureTeam c) = Some t"
  by (auto simp: in_team_def Let_def ensureTeam_def split: option.splits)

lemma team_ok_no_team [simp]: "team_ok no_team"
  by (simp add: team_ok_def no_team_def)

lemma ensureTeam_ok: "values_ok c \<Longrightarrow> values_ok (ensureTeam c)"
  by (auto simp: values_ok_def ensureTeam_def split: option.splits)

lemma in_team_ok: "values_ok c \<Longrightarrow> (\<And>t. team_ok t \<Longrightarrow> team_ok (f t)) \<Longrightarrow> values_ok (in_team f c)"
  using ensureTeam_ok[of c] in_team_Some[of f c] by (auto simp: values_ok_def in_team_def Let_def)

lemma ensure_store_ok: "team_ok t \<Longrightarrow> team_ok (ensure_store t)"
  by (auto simp: ensure_store_def team_ok_def split: option.splits)

lemma add_key_ok: "team_ok t \<Longrightarrow> team_ok (add_key k t)"
  using ensure_store_ok[of t] by (simp add: add_key_def Let_def team_ok_def)

lemma ensure_spawn_ok: "agent_ok a \<Longrightarrow> agent_ok (ensure_spawn a)"
  by (auto simp: ensure_spawn_def agent_ok_def no_spawn_def split: option.splits)

lemma ensure_spawn_Some: "ta_Spawn (ensure_spawn a) \<noteq> None"
  by (auto simp: ensure_spawn_def split: option.splits)

lemma last_agent_ok: "team_ok t \<Longrightarrow> tm_Agents t \<noteq> [] \<Longrightarrow> agent_ok a \<Longrightarrow> team_ok (t\<lparr>tm_Agents := butlast (tm_Agents t) @ [a]\<rparr>)"
  by (auto simp: team_ok_def list_all_iff dest: in_set_butlastD)

lemma team_section_ready: "sec \<in> set team_sections \<Longrightarrow> cf_Team c = Some t \<Longrightarrow> team_ready sec t \<Longrightarrow> section_ready sec c"
  by (auto simp: section_ready_def team_sections_def)

lemma in_team_ready:
  assumes "sec \<in> set team_sections" and "\<And>t. team_ready sec (f t)"
  shows "section_ready sec (in_team f c)"
  using in_team_Some[of f c] assms team_section_ready by blast

definition parser_ok :: "config \<times> string \<Rightarrow> bool" where
  "parser_ok st \<longleftrightarrow> section_ready (snd st) (fst st) \<and> values_ok (fst st)"

lemma parser_ok_pair [simp]: "parser_ok (c, sec) \<longleftrightarrow> section_ready sec c \<and> values_ok c"
  by (simp add: parser_ok_def)

lemma ready_plain: "sec \<in> {''sandbox'', ''resources'', ''mcp''} \<Longrightarrow> section_ready sec c"
  by (auto simp: section_ready_def team_sections_def)

lemma ready_team:
  assumes "sec \<in> {''team'', ''team.resources''}"
  shows "section_ready sec (ensureTeam c)"
proof -
  obtain t where "cf_Team (ensureTeam c) = Some t" using in_team_Some by blast
  then show ?thesis using assms by (auto simp: team_sections_def team_ready_def intro!: team_section_ready)
qed

lemma header_agent: "values_ok c \<Longrightarrow> parser_ok (in_team (\<lambda>t. t\<lparr>tm_Agents := tm_Agents t @ [new_agent l]\<rparr>) c, ''team.agent'')"
  using in_team_ready[of "''team.agent''" "\<lambda>t. t\<lparr>tm_Agents := tm_Agents t @ [new_agent l]\<rparr>" c]
    in_team_ok[of c "\<lambda>t. t\<lparr>tm_Agents := tm_Agents t @ [new_agent l]\<rparr>"]
  by (simp add: team_sections_def team_ready_def team_ok_def)

lemma header_edge: "values_ok c \<Longrightarrow> parser_ok (in_team (\<lambda>t. t\<lparr>tm_Edges := tm_Edges t @ [e]\<rparr>) c, ''team.edge'')"
  using in_team_ready[of "''team.edge''" "\<lambda>t. t\<lparr>tm_Edges := tm_Edges t @ [e]\<rparr>" c] in_team_ok[of c "\<lambda>t. t\<lparr>tm_Edges := tm_Edges t @ [e]\<rparr>"]
  by (simp add: team_sections_def team_ready_def team_ok_def)

lemma header_store: "values_ok c \<Longrightarrow> parser_ok (in_team ensure_store c, ''team.store'')"
  using in_team_ready[of "''team.store''" ensure_store c] in_team_ok[of c ensure_store] ensure_store_ok
  by (simp add: team_sections_def team_ready_def ensure_store_def split: option.splits)

lemma header_key: "values_ok c \<Longrightarrow> parser_ok (in_team (add_key k) c, ''team.store.key'')"
proof -
  have "team_ready ''team.store.key'' (add_key k t)" for t
    by (auto simp: team_ready_def ensure_store_def add_key_def Let_def split: option.splits)
  then have "section_ready ''team.store.key'' (in_team (add_key k) c)" by (intro in_team_ready) (simp_all add: team_sections_def)
  moreover assume "values_ok c"
  ultimately show ?thesis using in_team_ok[of c "add_key k"] add_key_ok by simp
qed

lemma header_spawn:
  assumes "values_ok c" and "cf_Team c = Some t" and "tm_Agents t \<noteq> []" and "name \<in> agent_tables" and "name \<noteq> ''team.agent.resources''"
  shows "parser_ok (c\<lparr>cf_Team := Some (t\<lparr>tm_Agents := butlast (tm_Agents t) @ [ensure_spawn (last (tm_Agents t))]\<rparr>)\<rparr>, name)"
proof -
  have ok: "team_ok t" using assms(1,2) by (simp add: values_ok_def)
  have "agent_ok (last (tm_Agents t))" using ok assms(3) by (simp add: team_ok_def list_all_iff)
  then have "values_ok (c\<lparr>cf_Team := Some (t\<lparr>tm_Agents := butlast (tm_Agents t) @ [ensure_spawn (last (tm_Agents t))]\<rparr>)\<rparr>)"
    using assms(1) last_agent_ok[OF ok assms(3) ensure_spawn_ok] by (simp add: values_ok_def)
  moreover have "section_ready name (c\<lparr>cf_Team := Some (t\<lparr>tm_Agents := butlast (tm_Agents t) @ [ensure_spawn (last (tm_Agents t))]\<rparr>)\<rparr>)"
    using assms(4,5) ensure_spawn_Some by (intro team_section_ready) (auto simp: agent_tables_def team_sections_def team_ready_def)
  ultimately show ?thesis by simp
qed

lemma header_agent_resources: "values_ok c \<Longrightarrow> cf_Team c = Some t \<Longrightarrow> tm_Agents t \<noteq> [] \<Longrightarrow> parser_ok (c, ''team.agent.resources'')"
  by (auto simp: team_sections_def team_ready_def intro!: team_section_ready)

lemma section_header_good:
  assumes "values_ok c"
  shows "good parser_ok (section_header array name l w c)"
proof -
  have tables: "good parser_ok (case cf_Team c of None \<Rightarrow> Inl (BadHeader w name)
      | Some t \<Rightarrow> if tm_Agents t = [] then Inl (BadHeader w name)
          else if name = ''team.agent.resources'' then Inr (c, name)
          else Inr (c\<lparr>cf_Team := Some (t\<lparr>tm_Agents := butlast (tm_Agents t) @ [ensure_spawn (last (tm_Agents t))]\<rparr>)\<rparr>, name))"
    if "name \<in> agent_tables"
    using header_spawn[OF assms _ _ that] header_agent_resources[OF assms] by (simp split: option.splits)
  have sessions: "good parser_ok (Inr (case cf_Sessions c of None \<Rightarrow> c\<lparr>cf_Sessions := Some 0\<rparr> | Some _ \<Rightarrow> c, ''sessions''))"
    using assms by (simp add: section_ready_def values_ok_def team_sections_def split: option.splits)
  have entries: "parser_ok (c\<lparr>cf_Forwards := cf_Forwards c @ [\<lparr>fw_Host = 0, fw_Guest = 0, fw_Line = l\<rparr>]\<rparr>, ''forward'')"
    "parser_ok (c\<lparr>cf_Plugins := cf_Plugins c @ [\<lparr>pg_Name = [], pg_Path = [], pg_Command = [], pg_Args = [], pg_Line = l\<rparr>]\<rparr>, ''plugin'')"
    using assms by (simp_all add: section_ready_def values_ok_def team_sections_def forward_ok_def plugin_ok_def)
  show ?thesis
    unfolding section_header_def
    by (intro good_if)
      (use assms tables sessions entries ready_plain ready_team ensureTeam_ok header_agent header_edge header_store header_key in
        \<open>simp_all del: parser_ok_pair, simp_all\<close>)
qed

lemma header_good: "values_ok c \<Longrightarrow> good parser_ok (config_header c line w)"
  unfolding config_header_def Let_def by (intro good_if section_header_good) simp_all

section \<open>Keys\<close>

lemma with_last_good:
  assumes "xs \<noteq> []" and "\<And>x. x \<in> set xs \<Longrightarrow> P x" and "\<And>x. P x \<Longrightarrow> good P (f x)"
  shows "good (\<lambda>ys. list_all P ys \<and> ys \<noteq> []) (with_last f xs)"
proof -
  have "good P (f (last xs))" using assms by simp
  then have "good (\<lambda>x. list_all P (butlast xs @ [x]) \<and> butlast xs @ [x] \<noteq> []) (f (last xs))"
    using assms(2) by (auto simp: good_def list_all_iff dest: in_set_butlastD)
  then show ?thesis using assms(1) by (simp add: with_last_def good_assign)
qed

lemma with_last_spawn_good:
  assumes "xs \<noteq> []" and "list_all agent_ok xs" and "good (\<lambda>y. agent_ok y \<and> R y) (f (last xs))"
  shows "good (\<lambda>ys. list_all agent_ok ys \<and> ys \<noteq> [] \<and> R (last ys)) (with_last f xs)"
proof -
  have "good (\<lambda>x. list_all agent_ok (butlast xs @ [x]) \<and> butlast xs @ [x] \<noteq> [] \<and> R (last (butlast xs @ [x]))) (f (last xs))"
    using assms(2,3) by (auto simp: good_def list_all_iff dest: in_set_butlastD)
  then show ?thesis using assms(1) by (simp add: with_last_def good_assign)
qed

definition team_good :: "string \<Rightarrow> team \<Rightarrow> bool" where
  "team_good sec t \<longleftrightarrow> team_ready sec t \<and> team_ok t"

lemma team_agents_good:
  assumes "team_good sec t" and "tm_Agents t \<noteq> []" and "good (\<lambda>y. agent_ok y \<and> (sec \<in> {''team.agent.spawn'', ''team.agent.spawn.resources''} \<longrightarrow> ta_Spawn y \<noteq> None)) (f (last (tm_Agents t)))"
  shows "good (team_good sec) (assign (\<lambda>as. t\<lparr>tm_Agents := as\<rparr>) (with_last f (tm_Agents t)))"
proof -
  have "list_all agent_ok (tm_Agents t)" using assms(1) by (simp add: team_good_def team_ok_def)
  from with_last_spawn_good[where R = "\<lambda>y. sec \<in> {''team.agent.spawn'', ''team.agent.spawn.resources''} \<longrightarrow> ta_Spawn y \<noteq> None" and f = f,
      OF assms(2) this assms(3)] show ?thesis
    using assms(1) by (intro good_assign) (auto simp: good_def team_good_def team_ready_def team_ok_def)
qed

lemma agent_last_ok: "team_good sec t \<Longrightarrow> tm_Agents t \<noteq> [] \<Longrightarrow> agent_ok (last (tm_Agents t))"
  by (simp add: team_good_def team_ok_def list_all_iff)

lemma with_spawn_good:
  assumes "agent_ok a" and "ta_Spawn a \<noteq> None"
    and "\<And>s. cap (sb_Lifetime s) \<and> rates_ok (sb_Resources s) \<Longrightarrow> good (\<lambda>s. cap (sb_Lifetime s) \<and> rates_ok (sb_Resources s)) (f s)"
  shows "good (\<lambda>y. agent_ok y \<and> (b \<longrightarrow> ta_Spawn y \<noteq> None)) (with_spawn f a)"
proof -
  obtain s where s: "ta_Spawn a = Some s" using assms(2) by blast
  have "good (\<lambda>s. cap (sb_Lifetime s) \<and> rates_ok (sb_Resources s)) (f s)" using assms(1,3) s by (simp add: agent_ok_def)
  then show ?thesis unfolding with_spawn_def s option.case
    by (intro good_assign) (use assms(1) in \<open>auto simp: good_def agent_ok_def\<close>)
qed

lemma assignResources_good: "rates_ok r \<Longrightarrow> good rates_ok (assignResources r k v w)"
  by (rule goodI) (auto dest: assignResources_ok)

lemma agentKey_good: "agent_ok a \<Longrightarrow> good (\<lambda>y. agent_ok y \<and> (False \<longrightarrow> Q)) (agentKey k v w a)"
  by (rule goodI) (auto dest: agentKey_ok)

lemma spawnKey_good:
  "cap (sb_Lifetime s) \<and> rates_ok (sb_Resources s) \<Longrightarrow> good (\<lambda>s. cap (sb_Lifetime s) \<and> rates_ok (sb_Resources s)) (spawnKey k v w s)"
  by (rule goodI) (auto dest: spawnKey_ok)

lemma team_scalar_good:
  "team_good sec t \<Longrightarrow> (\<And>x. team_good sec (f x)) \<Longrightarrow> r \<noteq> Inl Panic \<Longrightarrow> good (team_good sec) (assign f r)"
  by (intro good_assign goodI) simp_all

lemma team_resources_good:
  assumes "team_good ''team.resources'' t"
  shows "good (team_good ''team.resources'') (team_table ''team.resources'' k v w t)"
proof -
  let ?t = "t\<lparr>tm_ResLine := m_put k (lineOf w) (tm_ResLine t)\<rparr>"
  have "good (team_good ''team.resources'') (assign (\<lambda>n. ?t\<lparr>tm_CPUQuota := n\<rparr>) (parsePercent v w))"
    using assms parsePercent_cap by (intro good_assign goodI) (auto simp: team_good_def team_ready_def team_ok_def)
  then show ?thesis by (cases "k = ''cpu_quota''") (simp_all add: team_table_def Let_def)
qed

lemma team_store_good:
  assumes "team_good sec t" and "tm_Store t = Some s" and "good (\<lambda>s. sec = ''team.store.key'' \<longrightarrow> ts_Keys s \<noteq> []) (f s)"
  shows "good (team_good sec) (with_store f t)"
  unfolding with_store_def assms(2) option.case
  by (intro good_assign) (use assms in \<open>auto simp: good_def team_good_def team_ready_def team_ok_def\<close>)

lemma with_last_not_Nil: "xs \<noteq> [] \<Longrightarrow> (\<And>x. f x \<noteq> Inl Panic) \<Longrightarrow> good (\<lambda>ys. ys \<noteq> []) (with_last f xs)"
  by (auto simp: good_def with_last_def assign_Inr)

lemma team_section_cases:
  "sec \<in> set team_sections \<Longrightarrow> sec = ''team'' \<or> sec = ''team.resources'' \<or> sec = ''team.agent'' \<or> sec = ''team.agent.resources'' \<or>
     sec = ''team.agent.spawn'' \<or> sec = ''team.agent.spawn.resources'' \<or> sec = ''team.edge'' \<or> sec = ''team.store'' \<or> sec = ''team.store.key''"
  by (simp add: team_sections_def)

lemma team_good_store: "team_good ''team.store'' t \<Longrightarrow> tm_Store t \<noteq> None"
  by (simp add: team_good_def team_ready_def)

lemma team_good_keys: "team_good ''team.store.key'' t \<Longrightarrow> tm_Store t \<noteq> None \<and> (\<forall>b. tm_Store t = Some b \<longrightarrow> ts_Keys b \<noteq> [])"
  by (simp add: team_good_def team_ready_def)

lemma team_table_good:
  assumes "sec \<in> set team_sections" and "team_good sec t"
  shows "good (team_good sec) (team_table sec k v w t)"
proof -
  have agents: "tm_Agents t \<noteq> []" if "sec \<in> {''team.agent'', ''team.agent.resources'', ''team.agent.spawn'', ''team.agent.spawn.resources''}"
    using assms(2) that by (auto simp: team_good_def team_ready_def)
  have spawn: "ta_Spawn (last (tm_Agents t)) \<noteq> None" if "sec \<in> {''team.agent.spawn'', ''team.agent.spawn.resources''}"
    using assms(2) that unfolding team_good_def team_ready_def by blast
  have c1: "sec = ''team'' \<Longrightarrow> ?thesis"
    using assms(2) by (auto simp: team_table_def team_good_def team_ready_def team_ok_def intro!: team_scalar_good)
  have c2: "sec = ''team.resources'' \<Longrightarrow> ?thesis" using team_resources_good assms(2) by simp
  have c3: "?thesis" if s: "sec = ''team.agent''"
  proof -
    have ag: "tm_Agents t \<noteq> []" using agents s by simp
    from team_agents_good[of sec t "agentKey k v w", OF assms(2) ag] agentKey_good[OF agent_last_ok[OF assms(2) ag], of _ k v w] s
    show ?thesis by (simp add: team_table_def)
  qed
  have c4: "?thesis" if s: "sec = ''team.agent.resources''"
  proof -
    let ?f = "\<lambda>a. assign (\<lambda>r. a\<lparr>ta_Resources := r\<rparr>) (assignResources (ta_Resources a) k v w)"
    have ag: "tm_Agents t \<noteq> []" using agents s by simp
    note la = agent_last_ok[OF assms(2) ag]
    have "rates_ok (ta_Resources (last (tm_Agents t)))" using la by (simp add: agent_ok_def)
    from assignResources_good[OF this, of k v w] have "good agent_ok (?f (last (tm_Agents t)))"
      using la by (intro good_assign) (auto simp: good_def agent_ok_def)
    then show ?thesis using team_agents_good[of sec t ?f, OF assms(2) ag] s by (simp add: team_table_def)
  qed
  have c5: "?thesis" if s: "sec = ''team.agent.spawn''"
  proof -
    have ag: "tm_Agents t \<noteq> []" using agents s by simp
    have sp: "ta_Spawn (last (tm_Agents t)) \<noteq> None" using spawn s by blast
    have "good (\<lambda>y. agent_ok y \<and> (sec \<in> {''team.agent.spawn'', ''team.agent.spawn.resources''} \<longrightarrow> ta_Spawn y \<noteq> None))
        (with_spawn (spawnKey k v w) (last (tm_Agents t)))"
      by (rule with_spawn_good[OF agent_last_ok[OF assms(2) ag] sp]) (rule spawnKey_good)
    then show ?thesis using team_agents_good[of sec t "with_spawn (spawnKey k v w)", OF assms(2) ag] s by (simp add: team_table_def)
  qed
  have c6: "?thesis" if s: "sec = ''team.agent.spawn.resources''"
  proof -
    let ?f = "\<lambda>b. assign (\<lambda>r. b\<lparr>sb_Resources := r\<rparr>) (assignResources (sb_Resources b) k v w)"
    have ag: "tm_Agents t \<noteq> []" using agents s by simp
    have sp: "ta_Spawn (last (tm_Agents t)) \<noteq> None" using spawn s by blast
    have f: "good (\<lambda>s. cap (sb_Lifetime s) \<and> rates_ok (sb_Resources s)) (?f b)" if "cap (sb_Lifetime b) \<and> rates_ok (sb_Resources b)" for b
      using assignResources_good[of "sb_Resources b" k v w] that by (intro good_assign) (auto simp: good_def)
    have "good (\<lambda>y. agent_ok y \<and> (sec \<in> {''team.agent.spawn'', ''team.agent.spawn.resources''} \<longrightarrow> ta_Spawn y \<noteq> None))
        (with_spawn ?f (last (tm_Agents t)))"
      by (rule with_spawn_good[OF agent_last_ok[OF assms(2) ag] sp]) (rule f)
    then show ?thesis using team_agents_good[of sec t "with_spawn ?f", OF assms(2) ag] s by (simp add: team_table_def)
  qed
  have c7: "?thesis" if s: "sec = ''team.edge''"
  proof -
    have "tm_Edges t \<noteq> []" using assms(2) s by (simp add: team_good_def team_ready_def)
    from with_last_not_Nil[OF this, of "edgeKey k v w"] have "good (team_good sec) (assign (\<lambda>es. t\<lparr>tm_Edges := es\<rparr>) (with_last (edgeKey k v w) (tm_Edges t)))"
      using assms(2) s by (intro good_assign) (auto simp: good_def team_good_def team_ready_def team_ok_def)
    then show ?thesis using s by (simp add: team_table_def)
  qed
  have c8: "?thesis" if s: "sec = ''team.store''"
  proof -
    let ?f = "\<lambda>s. if k = ''enabled'' then assign (\<lambda>b. s\<lparr>ts_Enabled := b\<rparr>) (parseBool v w) else Inl (UnknownKey w k ''team.store'')"
    have "tm_Store t \<noteq> None" by (rule team_good_store[OF assms(2)[unfolded s]])
    then obtain b where b: "tm_Store t = Some b" by blast
    have "?f b \<noteq> Inl Panic" by simp
    then have "good (\<lambda>s. ''team.store'' = ''team.store.key'' \<longrightarrow> ts_Keys s \<noteq> []) (?f b)" by (simp add: good_def del: assign_Inl)
    from team_store_good[of "''team.store''" t b ?f, OF assms(2)[unfolded s] b this] show ?thesis unfolding s by (simp add: team_table_def)
  qed
  have c9: "?thesis" if s: "sec = ''team.store.key''"
  proof -
    let ?f = "\<lambda>s. assign (\<lambda>ks. s\<lparr>ts_Keys := ks\<rparr>) (with_last (storeKey k v w) (ts_Keys s))"
    have r: "tm_Store t \<noteq> None" "\<forall>b. tm_Store t = Some b \<longrightarrow> ts_Keys b \<noteq> []"
      using team_good_keys[OF assms(2)[unfolded s]] by blast+
    then obtain b where b: "tm_Store t = Some b" "ts_Keys b \<noteq> []" by blast
    from with_last_not_Nil[OF b(2), of "storeKey k v w"]
    have "good (\<lambda>s. ''team.store.key'' = ''team.store.key'' \<longrightarrow> ts_Keys s \<noteq> []) (?f b)"
      by (intro good_assign) (simp add: good_def)
    from team_store_good[of "''team.store.key''" t b ?f, OF assms(2)[unfolded s] b(1) this] show ?thesis unfolding s by (simp add: team_table_def)
  qed
  from team_section_cases[OF assms(1)] show ?thesis by (elim disjE) (erule c1 c2 c3 c4 c5 c6 c7 c8 c9)+
qed

section \<open>The whole file\<close>

text \<open>
  From line to line the parser is in a section it is ready for, and holds values it
  may hold.
\<close>

lemma ready_section:
  "section_ready sec c \<Longrightarrow> sec \<in> set team_sections \<or> sec = ''plugin'' \<or> sec = ''forward'' \<or> sec = ''sessions'' \<or> sec = ''mcp'' \<or> sec = ''resources'' \<or>
     sec = [] \<or> sec = ''sandbox''"
  unfolding section_ready_def set_append Un_iff by auto

lemma team_prefix: "sec \<in> set team_sections \<Longrightarrow> hasPrefix sec ''team'' \<and> sec \<notin> {''plugin'', ''forward'', ''sessions'', ''mcp''}"
  by (drule team_section_cases, elim disjE) (simp_all add: hasPrefix_def)

lemma ready_team_good: "section_ready sec c \<Longrightarrow> values_ok c \<Longrightarrow> sec \<in> set team_sections \<Longrightarrow> \<exists>t. cf_Team c = Some t \<and> team_good sec t"
  unfolding section_ready_def values_ok_def team_good_def by blast

lemma team_key_good:
  assumes "section_ready sec c" and "values_ok c" and "sec \<in> set team_sections"
  shows "good (\<lambda>c. section_ready sec c \<and> values_ok c) (config_key sec k v w n c)"
proof -
  obtain t where t: "cf_Team c = Some t" "team_good sec t" using ready_team_good[OF assms] by blast
  have "good (\<lambda>c. section_ready sec c \<and> values_ok c) (assign (\<lambda>t. c\<lparr>cf_Team := Some t\<rparr>) (team_table sec k v w t))"
  proof (intro good_assign)
    have "section_ready sec (c\<lparr>cf_Team := Some t'\<rparr>) \<and> values_ok (c\<lparr>cf_Team := Some t'\<rparr>)" if "team_good sec t'" for t'
      using that assms(2) team_section_ready[OF assms(3), of "c\<lparr>cf_Team := Some t'\<rparr>" t'] by (simp add: values_ok_def team_good_def)
    then show "good (\<lambda>t. section_ready sec (c\<lparr>cf_Team := Some t\<rparr>) \<and> values_ok (c\<lparr>cf_Team := Some t\<rparr>)) (team_table sec k v w t)"
      using team_table_good[OF assms(3) t(2), of k v w] by (simp add: good_def)
  qed
  then show ?thesis using team_prefix[OF assms(3)] by (simp add: config_key_def teamKey_def with_team_def t(1))
qed

lemma keep_ready:
  "section_ready sec c \<Longrightarrow> cf_Team c' = cf_Team c \<Longrightarrow> (cf_Plugins c \<noteq> [] \<longrightarrow> cf_Plugins c' \<noteq> []) \<Longrightarrow> (cf_Forwards c \<noteq> [] \<longrightarrow> cf_Forwards c' \<noteq> []) \<Longrightarrow>
     (cf_Sessions c \<noteq> None \<longrightarrow> cf_Sessions c' \<noteq> None) \<Longrightarrow> section_ready sec c'"
  unfolding section_ready_def by (elim conjE, intro conjI) simp_all

lemma entry_key_good:
  assumes "section_ready sec c" and "values_ok c"
  shows "sec = ''plugin'' \<Longrightarrow> good (\<lambda>c. section_ready sec c \<and> values_ok c) (config_key sec k v w n c)"
    and "sec = ''forward'' \<Longrightarrow> good (\<lambda>c. section_ready sec c \<and> values_ok c) (config_key sec k v w n c)"
proof -
  assume s: "sec = ''plugin''"
  have "cf_Plugins c \<noteq> []" using assms(1) s by (simp add: section_ready_def)
  moreover have "list_all plugin_ok (cf_Plugins c)" using assms(2) by (simp add: values_ok_def)
  ultimately have "good (\<lambda>ys. list_all plugin_ok ys \<and> ys \<noteq> []) (with_last (pluginKey k v w) (cf_Plugins c))"
    by (intro with_last_good) (auto simp: list_all_iff intro!: goodI dest: pluginKey_ok)
  then have "good (\<lambda>c. section_ready sec c \<and> values_ok c) (assign (\<lambda>ps. c\<lparr>cf_Plugins := ps\<rparr>) (with_last (pluginKey k v w) (cf_Plugins c)))"
    using assms(2) by (intro good_assign) (auto simp: good_def values_ok_def intro!: keep_ready[OF assms(1)])
  then show "good (\<lambda>c. section_ready sec c \<and> values_ok c) (config_key sec k v w n c)" unfolding s by (simp add: config_key_def)
next
  assume s: "sec = ''forward''"
  have "cf_Forwards c \<noteq> []" using assms(1) s by (simp add: section_ready_def)
  moreover have "list_all forward_ok (cf_Forwards c)" using assms(2) by (simp add: values_ok_def)
  ultimately have "good (\<lambda>ys. list_all forward_ok ys \<and> ys \<noteq> []) (with_last (forwardKey k v w) (cf_Forwards c))"
    by (intro with_last_good) (auto simp: list_all_iff intro!: goodI dest: forwardKey_ok)
  then have "good (\<lambda>c. section_ready sec c \<and> values_ok c) (assign (\<lambda>fs. c\<lparr>cf_Forwards := fs\<rparr>) (with_last (forwardKey k v w) (cf_Forwards c)))"
    using assms(2) by (intro good_assign) (auto simp: good_def values_ok_def intro!: keep_ready[OF assms(1)])
  then show "good (\<lambda>c. section_ready sec c \<and> values_ok c) (config_key sec k v w n c)" unfolding s by (simp add: config_key_def)
qed

lemma sessions_key_good:
  assumes "section_ready ''sessions'' c" and "values_ok c"
  shows "good (\<lambda>c. section_ready ''sessions'' c \<and> values_ok c) (config_key ''sessions'' k v w n c)"
proof -
  obtain m where m: "cf_Sessions c = Some m" using assms(1) by (auto simp: section_ready_def)
  have "good (\<lambda>c. section_ready ''sessions'' c \<and> values_ok c) (assign (\<lambda>n. c\<lparr>cf_Sessions := Some n\<rparr>) (parseCount v w k))"
    using assms(2) parseCount_cap by (intro good_assign goodI) (auto simp: values_ok_def intro!: keep_ready[OF assms(1)])
  then show ?thesis by (cases "k = ''retention_days''") (simp_all add: config_key_def m)
qed

lemma mcp_key_good:
  assumes "section_ready ''mcp'' c" and "values_ok c"
  shows "good (\<lambda>c. section_ready ''mcp'' c \<and> values_ok c) (config_key ''mcp'' k v w n c)"
proof -
  have "good (\<lambda>c. section_ready ''mcp'' c \<and> values_ok c) (assign (\<lambda>n. c\<lparr>cf_MCPMaxSandboxes := n\<rparr>) (parseRate v w k))"
    using assms(2) parseRate_cap by (intro good_assign goodI) (auto simp: values_ok_def intro!: keep_ready[OF assms(1)])
  then show ?thesis by (cases "k = ''max_sandboxes''") (simp_all add: config_key_def)
qed

lemma resources_key_good:
  assumes "section_ready ''resources'' c" and "values_ok c"
  shows "good (\<lambda>c. section_ready ''resources'' c \<and> values_ok c) (config_key ''resources'' k v w n c)"
proof -
  let ?c = "c\<lparr>cf_ResLine := m_put k (int n) (cf_ResLine c)\<rparr>"
  have "good (\<lambda>r. rates_ok r \<and> cap (ar_CPUs r)) (runResources (cf_Res ?c) k v w)"
    using assms(2) runResources_ok by (intro goodI) (auto simp: values_ok_def)
  then have "good (\<lambda>c. section_ready ''resources'' c \<and> values_ok c) (assign (\<lambda>r. ?c\<lparr>cf_Res := r\<rparr>) (runResources (cf_Res ?c) k v w))"
    using assms(2) by (intro good_assign) (auto simp: good_def values_ok_def intro!: keep_ready[OF assms(1)])
  then show ?thesis by (simp add: config_key_def Let_def hasPrefix_def)
qed

lemma sandboxKey_keeps:
  "good (\<lambda>c'. cf_Team c' = cf_Team c \<and> cf_Plugins c' = cf_Plugins c \<and> cf_Forwards c' = cf_Forwards c \<and> cf_Sessions c' = cf_Sessions c \<and>
    cf_Res c' = cf_Res c \<and> cf_MCPMaxSandboxes c' = cf_MCPMaxSandboxes c) (sandboxKey k v w c)"
  unfolding sandboxKey_def by (intro good_if good_assign goodI) simp_all

lemma sandbox_key_good:
  assumes "section_ready sec c" and "values_ok c" and "sec = [] \<or> sec = ''sandbox''"
  shows "good (\<lambda>c. section_ready sec c \<and> values_ok c) (config_key sec k v w n c)"
proof -
  have "good (\<lambda>c. section_ready sec c \<and> values_ok c) (sandboxKey k v w c)"
    using sandboxKey_keeps[of c k v w] assms(2) by (auto simp: good_def values_ok_def intro!: keep_ready[OF assms(1)])
  moreover have "config_key sec k v w n c = sandboxKey k v w c" using assms(3) by (elim disjE) (simp_all add: config_key_def hasPrefix_def)
  ultimately show ?thesis by simp
qed

lemma config_key_good:
  assumes "section_ready sec c" and "values_ok c"
  shows "good (\<lambda>c. section_ready sec c \<and> values_ok c) (config_key sec k v w n c)"
  using ready_section[OF assms(1)] team_key_good[OF assms] entry_key_good[OF assms] sessions_key_good mcp_key_good resources_key_good
    sandbox_key_good[OF assms] assms by (elim disjE) simp_all

lemma config_line_good:
  assumes "parser_ok st"
  shows "good parser_ok (config_line path n raw st)"
proof -
  obtain c sec where st: "st = (c, sec)" by (cases st)
  have ok: "section_ready sec c" "values_ok c" using assms by (simp_all add: st)
  have "good parser_ok (assign (\<lambda>c. (c, sec)) (config_key sec k v w n c))" for k v w
    using config_key_good[OF ok, of k v w n] by (intro good_assign) simp
  then show ?thesis using assms header_good[OF ok(2)]
    by (simp add: config_line_def Let_def st del: parser_ok_pair split: prod.split)
qed

lemma config_lines_good: "parser_ok st \<Longrightarrow> good parser_ok (config_lines path n raws st)"
proof (induction raws arbitrary: n st)
  case (Cons raw raws)
  have "good parser_ok (config_line path n raw st)" by (rule config_line_good[OF Cons.prems])
  then show ?case using Cons.IH by (cases "config_line path n raw st") (auto simp: on_ok_def)
qed simp

lemma new_config_ok: "parser_ok (new_config path, [])"
  by (simp add: section_ready_def values_ok_def new_config_def no_resources_def rates_ok_def team_sections_def)

lemma parse_good: "good (\<lambda>c. values_ok c \<and> validate uni c = None) (parse uni blob path)"
proof -
  have g: "good parser_ok (config_lines path 1 (split_on CHR 0x0A blob) (new_config path, []))"
    by (rule config_lines_good[OF new_config_ok])
  have v: "validate uni c \<noteq> Some Panic" for c
  proof -
    have "check_secrets uni ss \<noteq> Some Panic" for ss by (induction ss) (auto split: sum.splits)
    moreover have "check_agents_allow uni as \<noteq> Some Panic" for as by (induction as) (auto split: option.splits)
    ultimately show ?thesis by (auto simp: validate_def split: option.splits)
  qed
  show ?thesis using g v
    by (cases "config_lines path 1 (split_on CHR 0x0A blob) (new_config path, [])")
      (auto simp: parse_def on_ok_def good_def parser_ok_def split: option.splits)
qed

end
