(* ===== verification/Config_Schema.thy ===== *)
theory Config_Schema
  imports Config
begin

text \<open>
  \<^verbatim>\<open>internal/config/schema.go\<close>: the keys of the policy file as a table, from which the
  reference is written and the hint of an unknown key is built. The prose of a row (\<open>Default\<close>,
  \<open>Doc\<close>) is left out; a reason for a refusal is a flag.
\<close>

datatype key_type = TypeString | TypeStrings | TypeInt | TypeBool | TypeSize | TypePercent | TypeDuration

record key_row =
  kr_Section :: string
  kr_Name :: string
  kr_Type :: key_type
  kr_Sample :: string
  kr_Refused :: bool
  kr_RefusedLater :: bool

definition key_accepted :: "key_row \<Rightarrow> bool" where
  "key_accepted k \<longleftrightarrow> \<not> kr_Refused k \<and> \<not> kr_RefusedLater k"

definition quoted :: "string \<Rightarrow> string" where
  "quoted s = dq_char # s @ [dq_char]"

definition arrayed :: "string \<Rightarrow> string" where
  "arrayed s = CHR ''['' # quoted s @ '']''"

definition schema_row :: "string \<Rightarrow> string \<Rightarrow> key_type \<Rightarrow> string \<Rightarrow> key_row" where
  "schema_row section name type sample =
     \<lparr>kr_Section = section, kr_Name = name, kr_Type = type, kr_Sample = sample, kr_Refused = False, kr_RefusedLater = False\<rparr>"

definition resourceKeys :: "key_row list" where
  "resourceKeys =
     [schema_row [] ''cpus'' TypeInt ''2'', schema_row [] ''mem'' TypeSize (quoted ''2G''), schema_row [] ''disk'' TypeSize (quoted ''4G''),
      schema_row [] ''scratch'' TypeSize (quoted ''512M''), schema_row [] ''cpu_quota'' TypePercent (quoted ''150%''),
      schema_row [] ''net_mbps_rx'' TypeInt ''50'', schema_row [] ''net_mbps_tx'' TypeInt ''50'', schema_row [] ''disk_iops'' TypeInt ''500'',
      schema_row [] ''disk_mbps'' TypeInt ''100'', schema_row [] ''max_runtime'' TypeDuration (quoted ''30m''),
      schema_row [] ''idle_timeout'' TypeDuration (quoted ''5m'')]"

definition inSection :: "string \<Rightarrow> key_row list \<Rightarrow> key_row list" where
  "inSection section keys = map (\<lambda>k. k\<lparr>kr_Section := section\<rparr>) keys"

definition sandbox_rows :: "key_row list" where
  "sandbox_rows =
     [schema_row [] ''image'' TypeString (quoted ''dev''), schema_row [] ''arch'' TypeString (quoted ''x86_64''),
      schema_row [] ''workspace'' TypeString (quoted ''.''), schema_row [] ''allow'' TypeStrings (arrayed ''github.com''),
      schema_row [] ''secrets'' TypeStrings (arrayed ''GITHUB_TOKEN@api.github.com''), schema_row [] ''vcpus'' TypeInt ''2'',
      schema_row [] ''mem_mib'' TypeInt ''1024'', schema_row [] ''notify'' TypeBool ''true'']"

definition entry_rows :: "key_row list" where
  "entry_rows =
     [schema_row ''sessions'' ''retention_days'' TypeInt ''365'', schema_row ''mcp'' ''max_sandboxes'' TypeInt ''2'',
      schema_row ''plugin'' ''name'' TypeString (quoted ''browser''), schema_row ''plugin'' ''path'' TypeString (quoted ''./plugins/browser''),
      schema_row ''plugin'' ''command'' TypeString (quoted ''node''), schema_row ''plugin'' ''args'' TypeStrings (arrayed ''server.js''),
      schema_row ''forward'' ''host'' TypeInt ''8080'', schema_row ''forward'' ''guest'' TypeInt ''80'',
      schema_row ''team'' ''name'' TypeString (quoted ''reviewers''), schema_row ''team'' ''record_payloads'' TypeBool ''true'',
      schema_row ''team.resources'' ''cpu_quota'' TypePercent (quoted ''200%'')]"

definition shared_rows :: "key_row list" where
  "shared_rows = map (\<lambda>k. k\<lparr>kr_Section := ''team.resources'', kr_Refused := True\<rparr>) (filter (\<lambda>k. kr_Name k \<noteq> ''cpu_quota'') resourceKeys)"

definition agent_rows :: "key_row list" where
  "agent_rows =
     [schema_row ''team.agent'' ''name'' TypeString (quoted ''master''), schema_row ''team.agent'' ''image'' TypeString (quoted ''dev''),
      schema_row ''team.agent'' ''workspace'' TypeString (quoted ''./ws''), schema_row ''team.agent'' ''count'' TypeInt ''4'',
      schema_row ''team.agent'' ''allow'' TypeStrings (arrayed ''example.com''), schema_row ''team.agent'' ''secrets'' TypeStrings (arrayed ''TOKEN@example.com'')]"

definition agent_resource_rows :: "key_row list" where
  "agent_resource_rows = map (\<lambda>k. k\<lparr>kr_Section := ''team.agent.resources'', kr_RefusedLater := (kr_Name k = ''idle_timeout'')\<rparr>) resourceKeys"

definition spawn_rows :: "key_row list" where
  "spawn_rows =
     [schema_row ''team.agent.spawn'' ''max'' TypeInt ''2'', schema_row ''team.agent.spawn'' ''image'' TypeStrings (arrayed ''dev''),
      schema_row ''team.agent.spawn'' ''lifetime'' TypeDuration (quoted ''10m'')]"

definition spawn_resource_rows :: "key_row list" where
  "spawn_resource_rows = map (\<lambda>k. k\<lparr>kr_Section := ''team.agent.spawn.resources'',
     kr_RefusedLater := (kr_Name k = ''idle_timeout'' \<or> kr_Name k = ''max_runtime'')\<rparr>) resourceKeys"

definition edge_rows :: "key_row list" where
  "edge_rows =
     [schema_row ''team.edge'' ''from'' TypeString (quoted ''master''), schema_row ''team.edge'' ''to'' TypeString (quoted ''worker-*''),
      schema_row ''team.edge'' ''bidirectional'' TypeBool ''false'', schema_row ''team.store'' ''enabled'' TypeBool ''true'',
      schema_row ''team.store.key'' ''name'' TypeString (quoted ''findings/*''), schema_row ''team.store.key'' ''read'' TypeStrings (arrayed ''*''),
      schema_row ''team.store.key'' ''write'' TypeStrings (arrayed ''master'')]"

definition Schema :: "key_row list" where
  "Schema = inSection [] sandbox_rows @ inSection ''resources'' resourceKeys @ entry_rows @ shared_rows @ agent_rows @
     agent_resource_rows @ spawn_rows @ spawn_resource_rows @ edge_rows"

definition KeysIn :: "string \<Rightarrow> key_row list" where
  "KeysIn section = filter (\<lambda>k. kr_Section k = section) Schema"

text \<open>The hint after an unknown key.\<close>

definition knownKeys :: "string \<Rightarrow> string" where
  "knownKeys section =
     (let names = sort (map kr_Name (filter (\<lambda>k. key_accepted k \<or> kr_RefusedLater k) (KeysIn section)))
      in if names = [] then [] else CHR 0x0A # ''    this section takes: '' @ join names '', '')"

section \<open>The names of each section\<close>

definition names_in :: "string \<Rightarrow> string list" where
  "names_in section = map kr_Name (KeysIn section)"

definition resource_names :: "string list" where
  "resource_names = [''cpus'', ''mem'', ''disk'', ''scratch'', ''cpu_quota'', ''net_mbps_rx'', ''net_mbps_tx'', ''disk_iops'',
     ''disk_mbps'', ''max_runtime'', ''idle_timeout'']"

lemma rows_in: "filter (\<lambda>k. kr_Section k = s) (map (\<lambda>k. k\<lparr>kr_Section := t\<rparr>) ks) = (if s = t then map (\<lambda>k. k\<lparr>kr_Section := t\<rparr>) ks else [])"
  by (induction ks) auto

lemma resource_rows_names:
  "map kr_Name (filter (\<lambda>k. kr_Section k = s) (inSection t resourceKeys)) = (if s = t then resource_names else [])"
  "map kr_Name (filter (\<lambda>k. kr_Section k = s) agent_resource_rows) = (if s = ''team.agent.resources'' then resource_names else [])"
  "map kr_Name (filter (\<lambda>k. kr_Section k = s) spawn_resource_rows) = (if s = ''team.agent.spawn.resources'' then resource_names else [])"
  "map kr_Name (filter (\<lambda>k. kr_Section k = s) shared_rows) = (if s = ''team.resources'' then filter (\<lambda>n. n \<noteq> ''cpu_quota'') resource_names else [])"
  by (simp_all add: inSection_def agent_resource_rows_def spawn_resource_rows_def shared_rows_def resourceKeys_def schema_row_def resource_names_def)

lemma sandbox_rows_names: "map kr_Name (filter (\<lambda>k. kr_Section k = s) (inSection [] sandbox_rows)) =
    (if s = [] then [''image'', ''arch'', ''workspace'', ''allow'', ''secrets'', ''vcpus'', ''mem_mib'', ''notify''] else [])"
  by (simp add: inSection_def sandbox_rows_def schema_row_def)

lemmas names_in_rows = names_in_def KeysIn_def Schema_def resource_rows_names sandbox_rows_names entry_rows_def agent_rows_def
  spawn_rows_def edge_rows_def schema_row_def

lemma names_sandbox: "names_in [] = [''image'', ''arch'', ''workspace'', ''allow'', ''secrets'', ''vcpus'', ''mem_mib'', ''notify'']"
  by (simp add: names_in_rows)

lemma names_resources:
  "names_in ''resources'' = resource_names" "names_in ''team.agent.resources'' = resource_names"
  "names_in ''team.agent.spawn.resources'' = resource_names"
  "names_in ''team.resources'' = ''cpu_quota'' # filter (\<lambda>n. n \<noteq> ''cpu_quota'') resource_names"
  by (simp_all add: names_in_rows)

lemma names_entries:
  "names_in ''sessions'' = [''retention_days'']" "names_in ''mcp'' = [''max_sandboxes'']"
  "names_in ''plugin'' = [''name'', ''path'', ''command'', ''args'']" "names_in ''forward'' = [''host'', ''guest'']"
  by (simp_all add: names_in_rows)

lemma names_team:
  "names_in ''team'' = [''name'', ''record_payloads'']"
  "names_in ''team.agent'' = [''name'', ''image'', ''workspace'', ''count'', ''allow'', ''secrets'']"
  "names_in ''team.agent.spawn'' = [''max'', ''image'', ''lifetime'']" "names_in ''team.edge'' = [''from'', ''to'', ''bidirectional'']"
  "names_in ''team.store'' = [''enabled'']" "names_in ''team.store.key'' = [''name'', ''read'', ''write'']"
  by (simp_all add: names_in_rows)

section \<open>Unknown to the parser\<close>

fun unknown_error :: "cfg_error \<Rightarrow> bool" where
  "unknown_error (UnknownKey _ _ _) = True"
| "unknown_error _ = False"

definition is_unknown :: "cfg_error + 'a \<Rightarrow> bool" where
  "is_unknown r = (case r of Inl e \<Rightarrow> unknown_error e | Inr _ \<Rightarrow> False)"

lemma unknown_Inl [simp]: "is_unknown (Inl e) = unknown_error e"
  by (simp add: is_unknown_def)

lemma unknown_Inr [simp]: "\<not> is_unknown (Inr x)"
  by (simp add: is_unknown_def)

lemma unknown_assign [simp]: "is_unknown (assign f r) = is_unknown r"
  by (cases r) (simp_all add: assign_def)

lemma unknown_if [simp]: "is_unknown (if P then x else y) \<longleftrightarrow> (if P then is_unknown x else is_unknown y)"
  by simp

lemma unknown_on_ok: "\<not> is_unknown r \<Longrightarrow> (\<And>x. \<not> is_unknown (f x)) \<Longrightarrow> \<not> is_unknown (on_ok r f)"
  by (cases r) (simp_all add: on_ok_def)

lemma known_scalars [simp]:
  "\<not> is_unknown (parseString v w)" "\<not> is_unknown (parseInt v w)" "\<not> is_unknown (parseBool v w)" "\<not> is_unknown (parseBytes v w)"
  "\<not> is_unknown (parseRate v w k)" "\<not> is_unknown (parsePercent v w)" "\<not> is_unknown (parseDuration v w k)"
  by (auto simp: parseString_def parseInt_def parseBool_def parseBytes_def parseRate_def parsePercent_def parseDuration_def Let_def
      split: option.splits sum.splits)

lemma known_compound [simp]:
  "\<not> is_unknown (parseMiB v w)" "\<not> is_unknown (parseCount v w k)" "\<not> is_unknown (parsePort v w k)"
  unfolding parseMiB_def parseCount_def parsePort_def by (rule unknown_on_ok; simp)+

lemma known_parts: "\<not> is_unknown (parse_parts ps w)"
  by (induction ps) (simp_all add: Let_def unknown_on_ok)

lemma known_array [simp]: "\<not> is_unknown (parseArray v w)"
  by (simp add: parseArray_def Let_def known_parts)

lemma unknown_resources:
  "is_unknown (assignResources r k v w) \<longleftrightarrow> k \<notin> set resource_names" "is_unknown (runResources r k v w) \<longleftrightarrow> k \<notin> set resource_names"
  by (simp_all add: assignResources_def runResources_def resource_names_def)

lemma unknown_agent: "is_unknown (agentKey k v w a) \<longleftrightarrow> k \<notin> set (names_in ''team.agent'')"
  unfolding agentKey_def names_team by (simp add: unknown_on_ok)

lemma unknown_spawn: "is_unknown (spawnKey k v w a) \<longleftrightarrow> k \<notin> set (names_in ''team.agent.spawn'')"
  unfolding spawnKey_def names_team by simp

lemma unknown_edge: "is_unknown (edgeKey k v w a) \<longleftrightarrow> k \<notin> set (names_in ''team.edge'')"
  unfolding edgeKey_def names_team by simp

lemma unknown_store: "is_unknown (storeKey k v w a) \<longleftrightarrow> k \<notin> set (names_in ''team.store.key'')"
  unfolding storeKey_def names_team by simp

lemma unknown_plugin: "is_unknown (pluginKey k v w a) \<longleftrightarrow> k \<notin> set (names_in ''plugin'')"
  unfolding pluginKey_def names_entries by (simp add: unknown_on_ok)

lemma unknown_forward: "is_unknown (forwardKey k v w a) \<longleftrightarrow> k \<notin> set (names_in ''forward'')"
  unfolding forwardKey_def names_entries by simp

lemma unknown_sandbox: "is_unknown (sandboxKey k v w c) \<longleftrightarrow> k \<notin> set (names_in [])"
  unfolding sandboxKey_def names_sandbox by simp

lemma unknown_last: "xs \<noteq> [] \<Longrightarrow> is_unknown (with_last f xs) \<longleftrightarrow> is_unknown (f (last xs))"
  by (simp add: with_last_def)

lemma unknown_with_spawn: "ta_Spawn a = Some s \<Longrightarrow> is_unknown (with_spawn f a) \<longleftrightarrow> is_unknown (f s)"
  by (simp add: with_spawn_def)

lemma unknown_with_store: "tm_Store t = Some s \<Longrightarrow> is_unknown (with_store f t) \<longleftrightarrow> is_unknown (f s)"
  by (simp add: with_store_def)

end
