(* ===== verification/Config_Properties.thy ===== *)
theory Config_Properties
  imports Config_Inv Config_Schema
begin

text \<open>
  What the reader of a policy file promises: it never panics, what it accepts is within bounds and
  names no secret's value, its keys are those of the published table, a size is the number that was
  written or a refusal, and a comma inside a quoted element does not tear it.
\<close>

section \<open>Accepted files\<close>

lemma check_secrets_all: "check_secrets uni ss = None \<longleftrightarrow>
    list_all (\<lambda>s. CHR ''='' \<notin> set s \<and> CHR ''@'' \<in> set s \<and> (\<exists>x. parseSecretSpec uni s = Inr x)) ss"
  by (induction ss) (auto split: sum.splits)

lemma check_agents_all: "check_agents_allow uni as = None \<longleftrightarrow> list_all (\<lambda>a. checkAllowList uni (ta_Allow a) = None) as"
  by (induction as) (auto split: option.splits)

text \<open>
  C23. For any bytes at all the parser returns a policy or an error and never panics. In a policy it
  returns, no ceiling of \<open>[resources]\<close>, \<open>[mcp]\<close>, \<open>[sessions]\<close> or \<open>[team.resources]\<close> is negative or beyond
  64 bits, nor is \<open>vcpus\<close> or \<open>mem_mib\<close> negative; the same holds of every ceiling of an agent of the team and of
  the workers it may spawn, but of three numbers that are read as plain integers and may be negative:
  \<open>cpus\<close> of either and \<open>max\<close> of a spawn budget. Ports and the count of an agent are in range, the name
  of a plugin can prefix a tool's, no top-level secret contains a value and every one of them
  parses (the secrets of an agent are left to the plan of the team), and \<open>CheckAllowList\<close> accepts the top-level
  allow list and every agent's.
\<close>

theorem policy_safe:
  "case parse uni blob path of
     Inl e \<Rightarrow> e \<noteq> Panic
   | Inr c \<Rightarrow>
       cap (ar_CPUs (cf_Res c)) \<and> rates_ok (cf_Res c) \<and> cap (cf_MCPMaxSandboxes c) \<and> 0 \<le> cf_Vcpus c \<and> 0 \<le> cf_MemMiB c \<and>
       list_all plugin_ok (cf_Plugins c) \<and> list_all forward_ok (cf_Forwards c) \<and>
       list_all (\<lambda>s. CHR ''='' \<notin> set s \<and> CHR ''@'' \<in> set s \<and> (\<exists>x. parseSecretSpec uni s = Inr x)) (cf_Secrets c) \<and>
       checkAllowList uni (cf_Allow c) = None \<and>
       (case cf_Sessions c of None \<Rightarrow> True | Some n \<Rightarrow> cap n) \<and>
       (case cf_Team c of None \<Rightarrow> True
        | Some t \<Rightarrow> cap (tm_CPUQuota t) \<and> list_all (\<lambda>a. agent_ok a \<and> checkAllowList uni (ta_Allow a) = None) (tm_Agents t))"
proof (cases "parse uni blob path")
  case (Inl e)
  then show ?thesis using parse_good[of uni blob path] by (simp add: good_def)
next
  case (Inr c)
  have v: "values_ok c" "validate uni c = None" using parse_good[of uni blob path] by (simp_all add: good_def Inr)
  from v(2) have "list_all (\<lambda>s. CHR ''='' \<notin> set s \<and> CHR ''@'' \<in> set s \<and> (\<exists>x. parseSecretSpec uni s = Inr x)) (cf_Secrets c)"
    "checkAllowList uni (cf_Allow c) = None" "0 \<le> cf_Vcpus c" "0 \<le> cf_MemMiB c"
    "case cf_Team c of None \<Rightarrow> True | Some t \<Rightarrow> list_all (\<lambda>a. checkAllowList uni (ta_Allow a) = None) (tm_Agents t)"
    unfolding check_secrets_all[symmetric] check_agents_all[symmetric]
    by (auto simp: validate_def split: option.splits if_splits)
  then show ?thesis using v(1)
    by (auto simp: Inr values_ok_def team_ok_def list_all_iff split: option.splits)
qed

section \<open>Keys\<close>

text \<open>
  C24. The keys the parser knows are the rows of the schema: in every section it can be in, a key is
  refused as unknown exactly when the table the reference is generated from has no row for it there.
\<close>

theorem schema_exact:
  assumes "section_ready sec c"
  shows "is_unknown (config_key sec k v w n c) \<longleftrightarrow> k \<notin> set (map kr_Name (KeysIn (if sec = ''sandbox'' then [] else sec)))"
proof -
  let ?T = "is_unknown (config_key sec k v w n c) \<longleftrightarrow> k \<notin> set (names_in (if sec = ''sandbox'' then [] else sec))"
  have team: ?T if sec: "sec \<in> set team_sections"
  proof -
    obtain t where t: "cf_Team c = Some t" "team_ready sec t" using assms sec unfolding section_ready_def by blast
    have ck: "is_unknown (config_key sec k v w n c) \<longleftrightarrow> is_unknown (team_table sec k v w t)"
      using team_prefix[OF sec] by (simp add: config_key_def teamKey_def with_team_def t(1))
    from team_section_cases[OF sec] show ?thesis unfolding ck using t(2)
      by (elim disjE)
        (auto simp: team_table_def team_ready_def Let_def unknown_last unknown_resources unknown_agent unknown_edge unknown_store
          unknown_spawn unknown_with_spawn unknown_with_store names_resources names_team resource_names_def not_shared_def)
  qed
  have "?T"
    using ready_section[OF assms]
  proof (elim disjE)
    assume "sec \<in> set team_sections"
    then show ?thesis by (rule team)
  next
    assume s: "sec = ''plugin''"
    then have "cf_Plugins c \<noteq> []" using assms by (simp add: section_ready_def)
    then show ?thesis by (simp add: s config_key_def unknown_last unknown_plugin)
  next
    assume s: "sec = ''forward''"
    then have "cf_Forwards c \<noteq> []" using assms by (simp add: section_ready_def)
    then show ?thesis by (simp add: s config_key_def unknown_last unknown_forward)
  next
    assume s: "sec = ''sessions''"
    then obtain m where "cf_Sessions c = Some m" using assms by (auto simp: section_ready_def)
    then show ?thesis by (simp add: s config_key_def names_entries)
  next
    assume s: "sec = ''resources''"
    then show ?thesis by (simp add: config_key_def hasPrefix_def Let_def unknown_resources names_resources)
  qed (simp_all add: config_key_def names_entries hasPrefix_def unknown_sandbox)
  then show ?thesis by (simp add: names_in_def)
qed

lemma schema_exact_witness:
  "is_unknown (config_key ''mcp'' ''max_boxes'' ''2'' ''p:1'' 1 (new_config ''p''))"
proof -
  have "section_ready ''mcp'' (new_config ''p'')" by (simp add: ready_plain)
  from schema_exact[OF this, of "''max_boxes''" "''2''" "''p:1''" 1] show ?thesis
    unfolding names_in_def[symmetric] by (simp add: names_entries)
qed

section \<open>Sizes\<close>

text \<open>The number a size is written as, whatever its length.\<close>

definition big_int :: "string \<Rightarrow> int option" where
  "big_int s =
     (case s of [] \<Rightarrow> None
      | c # t \<Rightarrow>
          if c = CHR ''-'' then map_option (\<lambda>n. - int n) (atoi_unsigned t)
          else if c = CHR ''+'' then map_option int (atoi_unsigned t)
          else map_option int (atoi_unsigned s))"

definition size_value :: "string \<Rightarrow> int option" where
  "size_value s =
     (if s = [] then None
      else map_option (\<lambda>n. n * 2 ^ size_shift (last s)) (big_int (trimSpace (if size_shift (last s) = 0 then s else butlast s))))"

lemma atoi_big: "atoi s = (case big_int s of None \<Rightarrow> None | Some n \<Rightarrow> if in_int64 n then Some n else None)"
  by (simp add: atoi_def big_int_def)

lemma shifted_fits:
  assumes "0 \<le> n"
  shows "in_int64 n \<and> \<not> (1 < (2 :: int) ^ k \<and> max_int64 div 2 ^ k < n) \<longleftrightarrow> n * 2 ^ k < 2 ^ 63"
proof -
  have p: "(1 :: int) \<le> 2 ^ k" by simp
  have le: "n \<le> n * 2 ^ k" using mult_left_mono[OF p assms] by simp
  have d: "max_int64 div 2 ^ k < n \<longleftrightarrow> max_int64 < n * 2 ^ k"
  proof -
    let ?q = "max_int64 div 2 ^ k"
    have m: "max_int64 = ?q * 2 ^ k + max_int64 mod 2 ^ k" by (rule div_mult_mod_eq[symmetric])
    have r: "0 \<le> max_int64 mod 2 ^ k" "max_int64 mod 2 ^ k < 2 ^ k" by simp_all
    have "max_int64 < n * 2 ^ k" if "?q < n"
    proof -
      have "(?q + 1) * 2 ^ k \<le> n * 2 ^ k" using that by (intro mult_right_mono) simp_all
      then have "?q * 2 ^ k + 2 ^ k \<le> n * 2 ^ k" by (simp add: distrib_right)
      then show ?thesis using m r(2) by linarith
    qed
    moreover have "n * 2 ^ k \<le> max_int64" if "\<not> ?q < n"
    proof -
      have "n * 2 ^ k \<le> ?q * 2 ^ k" using that by (intro mult_right_mono) simp_all
      then show ?thesis using m r(1) by linarith
    qed
    ultimately show ?thesis by linarith
  qed
  show ?thesis
  proof (cases "1 < (2 :: int) ^ k")
    case True
    then show ?thesis using le assms d by (auto simp: in_int64_def max_int64_def)
  next
    case False
    then have "(2 :: int) ^ k = 1" using p by linarith
    then show ?thesis using assms by (simp add: in_int64_def)
  qed
qed

text \<open>
  C25. A size is read exactly: the parser answers with a number precisely when it is the one written,
  times its unit, and that product is not negative and fits 63 bits. No product wraps and none that
  fits is refused.
\<close>

theorem sizes_exact:
  "parseBytes value w = Inr n \<longleftrightarrow> size_value (trimSpace (unquoted value w)) = Some n \<and> 0 \<le> n \<and> n < 2 ^ 63"
proof -
  let ?s = "trimSpace (unquoted value w)"
  let ?k = "size_shift (last ?s)"
  let ?t = "trimSpace (if ?k = 0 then ?s else butlast ?s)"
  show ?thesis
  proof (cases "?s = [] \<or> big_int ?t = None")
    case True
    then show ?thesis by (auto simp: parseBytes_def size_value_def Let_def atoi_big)
  next
    case False
    then obtain m where m: "?s \<noteq> []" "big_int ?t = Some m" by blast
    have v: "size_value ?s = Some (m * 2 ^ ?k)" using m by (simp add: size_value_def)
    have neg: "m < 0 \<longleftrightarrow> m * 2 ^ ?k < 0" by (simp add: mult_less_0_iff)
    have p: "parseBytes value w = Inr n \<longleftrightarrow> in_int64 m \<and> 0 \<le> m \<and> \<not> (1 < (2 :: int) ^ ?k \<and> max_int64 div 2 ^ ?k < m) \<and> go_int (m * 2 ^ ?k) = n"
      using m by (auto simp: parseBytes_def Let_def atoi_big not_less)
    have "go_int (m * 2 ^ ?k) = m * 2 ^ ?k" if "0 \<le> m" "m * 2 ^ ?k < 2 ^ 63"
    proof (rule go_int_id)
      have "0 \<le> m * 2 ^ ?k" using that(1) by simp
      then show "in_int64 (m * 2 ^ ?k)" using that(2) by (simp add: in_int64_def)
    qed
    then show ?thesis unfolding p v using shifted_fits[of m ?k] neg by (auto simp: not_less)
  qed
qed

section \<open>Arrays\<close>

text \<open>
  What may stand between two quotes: a backslash takes the character after it along, so there is one
  after it, and a quote comes only after a backslash.
\<close>

fun element_ok :: "string \<Rightarrow> bool" where
  "element_ok [] = True"
| "element_ok (c # s) =
     (if c = CHR 0x5C then (case s of [] \<Rightarrow> False | d # t \<Rightarrow> element_ok t) else c \<noteq> dq_char \<and> element_ok s)"

definition write_array :: "string list \<Rightarrow> string" where
  "write_array xs = CHR ''['' # join (map quoted xs) '', '' @ '']''"

lemma split_quoted: "element_ok x \<Longrightarrow> split_top True acc (x @ dq_char # s) = split_top False (dq_char # rev x @ acc) s"
proof (induction x arbitrary: acc rule: element_ok.induct)
  case 1
  then show ?case by (simp add: dq_char_def)
next
  case (2 c u)
  show ?case
  proof (cases "c = CHR 0x5C")
    case True
    with 2(3) obtain d t where u: "u = d # t" "element_ok t" by (cases u) simp_all
    show ?thesis using 2(1)[OF True u] u(1) True by simp
  next
    case False
    with 2(3) have "c \<noteq> dq_char" "element_ok u" by (simp_all split: if_splits)
    then show ?thesis using 2(2)[OF False \<open>element_ok u\<close>] False by (simp add: dq_char_def)
  qed
qed

lemma split_element: "element_ok x \<Longrightarrow> split_top False acc (quoted x @ s) = split_top False (rev (quoted x) @ acc) s"
  using split_quoted[of x "dq_char # acc" s] by (simp add: quoted_def dq_char_def)

lemma split_elements:
  assumes "list_all element_ok (x # xs)"
  shows "split_top False acc (join (map quoted (x # xs)) '', '') = (rev acc @ quoted x) # map (\<lambda>y. CHR '' '' # quoted y) xs"
  using assms
proof (induction xs arbitrary: x acc)
  case Nil
  then show ?case using split_element[of x acc "[]"] by simp
next
  case (Cons y ys)
  have "split_top False acc (join (map quoted (x # y # ys)) '', '') =
      split_top False acc (quoted x @ CHR '','' # CHR '' '' # join (map quoted (y # ys)) '', '')" by simp
  also have "\<dots> = (rev acc @ quoted x) # split_top False '' '' (join (map quoted (y # ys)) '', '')"
    using Cons.prems split_element[of x acc "CHR '','' # CHR '' '' # join (map quoted (y # ys)) '', ''"] by (simp add: dq_char_def)
  also have "split_top False '' '' (join (map quoted (y # ys)) '', '') = (CHR '' '' # quoted y) # map (\<lambda>y. CHR '' '' # quoted y) ys"
    using Cons.IH[of y "'' ''"] Cons.prems by simp
  finally show ?case by simp
qed

lemma strip_quote: "strip_first spaces (dq_char # s) = None" "strip_first (map rev spaces) (dq_char # s) = None"
  by (simp_all add: spaces_def hasPrefix_def dq_char_def)

lemma trim_quoted: "trimSpace (dq_char # s @ [dq_char]) = dq_char # s @ [dq_char]"
  by (simp add: trimSpace_def strip_all.simps[of spaces] strip_all.simps[of "map rev spaces"] strip_quote)

lemma trim_space_quoted: "trimSpace (CHR '' '' # quoted x) = quoted x"
proof -
  have "strip_first spaces (CHR '' '' # quoted x) = Some (quoted x)" by (simp add: spaces_def hasPrefix_def)
  then have "strip_all spaces (CHR '' '' # quoted x) = strip_all spaces (quoted x)" by (simp add: strip_all.simps[of spaces "CHR '' '' # quoted x"])
  then show ?thesis using trim_quoted[of x] by (simp add: trimSpace_def quoted_def)
qed

lemma string_quoted: "parseString (quoted x) w = Inr x"
  by (simp add: parseString_def quoted_def hasPrefix_def hasSuffix_def)

lemma quoted_not_Nil [simp]: "quoted x \<noteq> []"
  by (simp add: quoted_def)

lemma parse_parts_quoted:
  "(\<And>y. y \<in> set ys \<Longrightarrow> trimSpace (f y) = quoted y) \<Longrightarrow> parse_parts (map f ys) w = Inr ys"
  by (induction ys) (simp_all add: Let_def string_quoted on_ok_def assign_def)

lemma join_quoted_ends: "\<exists>s. join (map quoted (x # xs)) '', '' = dq_char # s @ [dq_char]"
proof (induction xs arbitrary: x)
  case (Cons y ys)
  then obtain s where s: "join (map quoted (y # ys)) '', '' = dq_char # s @ [dq_char]" by blast
  have "join (map quoted (x # y # ys)) '', '' = quoted x @ '', '' @ join (map quoted (y # ys)) '', ''" by simp
  also have "\<dots> = dq_char # (x @ dq_char # CHR '','' # CHR '' '' # dq_char # s) @ [dq_char]" unfolding s by (simp add: quoted_def)
  finally show ?case by blast
qed (simp add: quoted_def)

text \<open>
  C27. An array that is written is read back: elements in quotes, between commas, in which every
  backslash is followed by the character it escapes and every quote is escaped so. A comma, a bracket
  or an escaped quote inside an element stays in it, and an element comes back as it was written, its
  escapes with it.
\<close>

theorem array_roundtrip:
  assumes "list_all element_ok xs"
  shows "parseArray (write_array xs) w = Inr xs"
proof (cases xs)
  case Nil
  have "trimSpace [] = []" by (simp add: trimSpace_def strip_all.simps spaces_def hasPrefix_def)
  then show ?thesis by (simp add: Nil write_array_def parseArray_def hasPrefix_def hasSuffix_def)
next
  case (Cons x ys)
  let ?i = "join (map quoted (x # ys)) '', ''"
  obtain s where s: "?i = dq_char # s @ [dq_char]" using join_quoted_ends by blast
  have inner: "take (length (write_array xs) - 2) (tl (write_array xs)) = ?i" by (simp add: write_array_def Cons)
  have outer: "hasPrefix (write_array xs) ''[''" "hasSuffix (write_array xs) '']''" "\<not> length (write_array xs) < 2"
    by (simp_all add: write_array_def hasPrefix_def hasSuffix_def)
  have "splitTopLevel ?i = quoted x # map (\<lambda>y. CHR '' '' # quoted y) ys"
    unfolding splitTopLevel_def using split_elements[of x ys "[]"] assms Cons by simp
  moreover have "parse_parts (quoted x # map (\<lambda>y. CHR '' '' # quoted y) ys) w = Inr (x # ys)"
    using parse_parts_quoted[of ys "\<lambda>y. CHR '' '' # quoted y" w] trim_space_quoted trim_quoted[of x, folded quoted_def]
    by (simp add: Let_def string_quoted on_ok_def assign_def)
  moreover have "parseArray (write_array xs) w = parse_parts (splitTopLevel ?i) w"
  proof -
    have "trimSpace ?i = ?i" "?i \<noteq> []" unfolding s by (rule trim_quoted) simp
    then show ?thesis unfolding parseArray_def Let_def inner using outer by (simp only: simp_thms if_False)
  qed
  ultimately show ?thesis by (simp only: Cons)
qed

lemma array_roundtrip_witness:
  "parseArray (write_array [''--y=a,b'', [CHR 0x5C, dq_char, CHR '','', CHR 0x5C, CHR 0x5C], []]) ''p:1'' =
     Inr [''--y=a,b'', [CHR 0x5C, dq_char, CHR '','', CHR 0x5C, CHR 0x5C], []]"
  by (rule array_roundtrip) (simp add: dq_char_def)

section \<open>Entries\<close>

lemma check_plugins_exact:
  "check_plugins ps seen = None \<longleftrightarrow>
     list_all (\<lambda>p. pg_Name p \<noteq> [] \<and> pg_Path p \<noteq> [] \<and> pg_Command p \<noteq> [] \<and> m_get seen (pg_Name p) = None) ps \<and> distinct (map pg_Name ps)"
  by (induction ps arbitrary: seen) (auto simp: list_all_iff split: option.splits if_splits, metis imageI)

lemma check_forwards_exact:
  "check_forwards fs seen = None \<longleftrightarrow>
     list_all (\<lambda>f. fw_Host f \<noteq> 0 \<and> fw_Guest f \<noteq> 0 \<and> m_get seen (fw_Host f) = None) fs \<and> distinct (map fw_Host fs)"
  by (induction fs arbitrary: seen) (auto simp: list_all_iff split: option.splits if_splits, metis imageI)

text \<open>
  C26. A file that is accepted and whose entries pass both checks forwards each host port once, from a
  port in 1..65535 to one in 1..65535, and packs plugins with a path, a command and names of their own
  that can prefix a tool's; and entries that are so are refused by neither check.
\<close>

theorem entries_exact:
  assumes "parse uni blob path = Inr c"
  shows "checkPlugins c = None \<and> checkForwards c = None \<longleftrightarrow>
     list_all (\<lambda>p. pluginName (pg_Name p) \<and> length (pg_Name p) \<le> pluginNameMax \<and> pg_Path p \<noteq> [] \<and> pg_Command p \<noteq> []) (cf_Plugins c) \<and>
     distinct (map pg_Name (cf_Plugins c)) \<and>
     list_all (\<lambda>f. fw_Host f \<in> {1..65535} \<and> fw_Guest f \<in> {1..65535}) (cf_Forwards c) \<and>
     distinct (map fw_Host (cf_Forwards c))"
proof -
  have "values_ok c" using parse_good[of uni blob path] by (simp add: good_def assms)
  then have v: "list_all plugin_ok (cf_Plugins c)" "list_all forward_ok (cf_Forwards c)" by (simp_all add: values_ok_def)
  have "list_all (\<lambda>p. pg_Name p \<noteq> [] \<and> pg_Path p \<noteq> [] \<and> pg_Command p \<noteq> []) (cf_Plugins c) \<longleftrightarrow>
    list_all (\<lambda>p. pluginName (pg_Name p) \<and> length (pg_Name p) \<le> pluginNameMax \<and> pg_Path p \<noteq> [] \<and> pg_Command p \<noteq> []) (cf_Plugins c)"
    using v(1) by (auto simp: list_all_iff plugin_ok_def pluginName_def)
  moreover have "list_all (\<lambda>f. fw_Host f \<noteq> 0 \<and> fw_Guest f \<noteq> 0) (cf_Forwards c) \<longleftrightarrow>
    list_all (\<lambda>f. fw_Host f \<in> {1..65535} \<and> fw_Guest f \<in> {1..65535}) (cf_Forwards c)"
    using v(2) by (force simp: list_all_iff forward_ok_def)
  ultimately show ?thesis by (simp add: checkPlugins_def checkForwards_def check_plugins_exact check_forwards_exact)
qed

definition forward_file :: string where
  "forward_file = ''[[forward]]'' @ CHR 0x0A # ''host = 8080'' @ CHR 0x0A # ''guest = 80 # http'' @ CHR 0x0A # []"

lemma forward_file_parsed:
  "parse id forward_file ''p'' = Inr (new_config ''p''\<lparr>cf_Forwards := [\<lparr>fw_Host = 8080, fw_Guest = 80, fw_Line = 1\<rparr>]\<rparr>)"
  by code_simp

lemma entries_exact_witness:
  "case parse id forward_file ''p'' of Inl _ \<Rightarrow> False | Inr c \<Rightarrow> checkPlugins c = None \<and> checkForwards c = None \<and> cf_Forwards c \<noteq> []"
  using entries_exact[OF forward_file_parsed] by (simp add: forward_file_parsed new_config_def)

end
