(* ===== verification/Proto_Safe.thy ===== *)
theory Proto_Safe
  imports Proto_Text
begin

text \<open>
  What comes out of \<open>SafeText\<close> and \<open>SafeBody\<close>: only what can stand on a terminal line, and only
  that passes unchanged.
\<close>

section \<open>Text\<close>

lemma text_ok_Nil [simp]: "text_ok uni []"
  by (subst text_ok.simps) simp

lemma isPrint_range: "isPrint uni r \<Longrightarrow> \<not> r < 0x20 \<and> r \<noteq> 0x7F"
  by (auto simp: isPrint_def split: if_splits)

lemma text_ok_step:
  "rune_len s = Some n \<Longrightarrow> text_ok uni s \<longleftrightarrow> isPrint uni (rune_val (take n s)) \<and> text_ok uni (drop n s)"
  using isPrint_range[of uni "rune_val (take n s)"]
  by (subst text_ok.simps) (auto simp: Let_def rune_len_def split: if_splits)

lemma text_ok_rune_len: "text_ok uni s \<Longrightarrow> s \<noteq> [] \<Longrightarrow> rune_len s \<noteq> None"
  by (subst (asm) text_ok.simps) (auto split: option.splits)

lemma rune_val_ascii: "byte c < 128 \<Longrightarrow> rune_val [c] = byte c"
  by (simp add: rune_val_def)

lemma text_ok_ascii: "byte c < 128 \<Longrightarrow> text_ok uni (c # s) \<longleftrightarrow> 32 \<le> byte c \<and> byte c < 127 \<and> text_ok uni s"
  using text_ok_step[OF rune_len_ascii[of c s], of uni] by (simp add: rune_val_ascii isPrint_def)

lemma text_ok_append: "text_ok uni s \<Longrightarrow> text_ok uni (s @ t) = text_ok uni t"
proof (induction s rule: valid_utf8.induct)
  case (1 s)
  show ?case
  proof (cases "s = []")
    case False
    then obtain n where n: "rune_len s = Some n" using text_ok_rune_len "1.prems" by blast
    have d: "isPrint uni (rune_val (take n s))" "text_ok uni (drop n s)" using "1.prems" text_ok_step[OF n] by blast+
    have l: "n \<le> length s" using rune_len_pos[OF n] by blast
    have "text_ok uni (drop n s @ t) = text_ok uni t" by (rule "1.IH"[OF False n d(2)])
    then show ?thesis using text_ok_step[OF rune_len_append[OF n, of t]] d(1) l by simp
  qed simp
qed

lemma text_ok_valid: "text_ok uni s \<Longrightarrow> valid_utf8 s"
proof (induction s rule: valid_utf8.induct)
  case (1 s)
  show ?case
  proof (cases "s = []")
    case False
    then obtain n where n: "rune_len s = Some n" using text_ok_rune_len "1.prems" by blast
    then show ?thesis using "1.IH"[OF False n] "1.prems" text_ok_step[OF n] valid_utf8_step[OF n] by blast
  qed simp
qed

definition shown :: "char \<Rightarrow> bool" where
  "shown c \<longleftrightarrow> 32 \<le> byte c \<and> byte c < 127"

lemma text_ok_shown: "list_all shown s \<Longrightarrow> text_ok uni s"
  by (induction s) (auto simp: shown_def text_ok_ascii)

lemma hex_digits_shown: "list_all shown (hex_digits w n)"
proof (induction w arbitrary: n)
  case (Suc w)
  have "n mod 16 < 16" by simp
  then have "shown (hex_char (n mod 16))" by (auto simp: hex_char_def shown_def)
  then show ?case using Suc by simp
qed simp

lemma byte_escape_shown: "list_all shown (byte_escape n)"
  using hex_digits_shown[of 2 n] by (simp add: byte_escape_def shown_def backslash_def del: hex_digits.simps)

lemma quote_rune_ok:
  assumes e: "rune_len e = Some (length e)"
  shows "text_ok uni (quote_rune uni e)"
proof -
  let ?r = "rune_val e"
  have k: "text_ok uni e" if "isPrint uni ?r" using text_ok_step[OF e, of uni] that by simp
  have b: "text_ok uni (backslash # x) = text_ok uni x" for x by (simp add: text_ok_ascii backslash_def)
  have u: "text_ok uni (CHR ''u'' # x) = text_ok uni x" "text_ok uni (CHR ''U'' # x) = text_ok uni x" for x
    by (simp_all add: text_ok_ascii)
  have h: "text_ok uni (hex_digits w ?r)" for w by (rule text_ok_shown[OF hex_digits_shown])
  have l: "text_ok uni [CHR ''a'']" "text_ok uni [CHR ''b'']" "text_ok uni [CHR ''f'']" "text_ok uni [CHR ''n'']"
    "text_ok uni [CHR ''r'']" "text_ok uni [CHR ''t'']" "text_ok uni [CHR ''v'']"
    by (simp_all add: text_ok_ascii)
  show ?thesis
  proof (cases "?r = 0x22 \<or> ?r = 0x5C")
    case True
    then have "isPrint uni ?r" by (auto simp: isPrint_def)
    then show ?thesis using True k by (simp add: quote_rune_def b)
  next
    case False
    then show ?thesis using k text_ok_shown[OF byte_escape_shown, of uni ?r]
      by (simp add: quote_rune_def b u l h Let_def del: hex_digits.simps)
  qed
qed

lemma quote_body_ok: "text_ok uni (quote_body uni s)"
proof (induction uni s rule: quote_body.induct)
  case (1 uni s)
  show ?case
  proof (cases s)
    case Nil
    then show ?thesis by (subst quote_body.simps) simp
  next
    case (Cons c t)
    show ?thesis
    proof (cases "rune_len s")
      case None
      then show ?thesis using "1.IH"(1)[OF Cons None] text_ok_append[OF text_ok_shown[OF byte_escape_shown]] Cons
        by (subst quote_body.simps) simp
    next
      case (Some n)
      have l: "n \<le> length s" using rune_len_pos[OF Some] by blast
      then have "rune_len (take n s) = Some (length (take n s))" using rune_len_take[OF Some order_refl] by simp
      then show ?thesis using "1.IH"(2)[OF Cons Some] text_ok_append[OF quote_rune_ok] Cons Some
        by (subst quote_body.simps) simp
    qed
  qed
qed

lemma goQuote_ok: "text_ok uni (goQuote uni s)"
  using text_ok_append[OF quote_body_ok, of uni s "[CHR 0x22]"] by (simp add: goQuote_def text_ok_ascii)

lemma safeText_ok: "text_ok uni (safeText uni s)"
  using goQuote_ok by (simp add: safeText_def)

lemma safeText_id: "text_ok uni s \<Longrightarrow> safeText uni s = s"
  using text_ok_valid by (simp add: safeText_def)

section \<open>SGR sequences\<close>

definition sgr_form :: "nat \<Rightarrow> string \<Rightarrow> bool" where
  "sgr_form n s \<longleftrightarrow>
     (\<exists>p i r. s = esc_byte # CHR ''['' # p @ i @ CHR ''m'' # r \<and> list_all (\<lambda>c. 0x30 \<le> byte c \<and> byte c \<le> 0x3F) p \<and>
        list_all (\<lambda>c. 0x20 \<le> byte c \<and> byte c \<le> 0x2F) i \<and> length p + length i \<le> maxSGRParams \<and> n = 3 + length p + length i)"

lemma sgr_skip_split:
  "\<exists>x y. s = x @ y \<and> sgr_skip p s i = i + length x \<and> list_all (\<lambda>c. p (byte c)) x \<and> (i \<le> 2 + maxSGRParams \<longrightarrow> i + length x \<le> 2 + maxSGRParams)"
proof (induction s arbitrary: i)
  case (Cons c s)
  show ?case
  proof (cases "i < 2 + maxSGRParams \<and> p (byte c)")
    case True
    obtain x y where "s = x @ y" "sgr_skip p s (i + 1) = i + 1 + length x" "list_all (\<lambda>c. p (byte c)) x"
      "i + 1 \<le> 2 + maxSGRParams \<longrightarrow> i + 1 + length x \<le> 2 + maxSGRParams" using Cons.IH[of "i + 1"] by blast
    then show ?thesis using True by (intro exI[of _ "c # x"] exI[of _ y]) auto
  next
    case False
    then show ?thesis by (intro exI[of _ "[]"] exI[of _ "c # s"]) auto
  qed
qed simp

lemma sgr_skip_exact:
  "list_all (\<lambda>c. p (byte c)) x \<Longrightarrow> i + length x \<le> 2 + maxSGRParams \<Longrightarrow> \<not> p (byte c) \<Longrightarrow> sgr_skip p (x @ c # y) i = i + length x"
  by (induction x arbitrary: i) auto

lemma sgrLen_form: "0 < sgrLen s \<Longrightarrow> sgr_form (sgrLen s) s"
proof -
  assume n: "0 < sgrLen s"
  then have h: "\<not> (length s < 3 \<or> s ! 0 \<noteq> esc_byte \<or> s ! 1 \<noteq> CHR ''['')" unfolding sgrLen_def by (auto split: if_splits)
  then obtain t where s: "s = esc_byte # CHR ''['' # t" by (cases s; cases "tl s") auto
  let ?p = "\<lambda>b::nat. 0x30 \<le> b \<and> b \<le> 0x3F" and ?q = "\<lambda>b::nat. 0x20 \<le> b \<and> b \<le> 0x2F"
  obtain x y where x: "t = x @ y" "sgr_skip ?p t 2 = 2 + length x" "list_all (\<lambda>c. ?p (byte c)) x" "2 + length x \<le> 2 + maxSGRParams"
    using sgr_skip_split[of t ?p 2] by (auto simp: maxSGRParams_def)
  have d: "drop (2 + length x) s = y" by (simp add: s x(1))
  obtain u v where u: "y = u @ v" "sgr_skip ?q y (2 + length x) = 2 + length x + length u" "list_all (\<lambda>c. ?q (byte c)) u"
      "2 + length x + length u \<le> 2 + maxSGRParams"
    using sgr_skip_split[of y ?q "2 + length x"] x(4) by auto
  have j: "2 + length x + length u < length s \<and> s ! (2 + length x + length u) = CHR ''m''" "sgrLen s = 3 + length x + length u"
    using n h x(2) u(2) d unfolding sgrLen_def by (auto simp: Let_def s split: if_splits)
  have "v \<noteq> []" using j(1) by (auto simp: s x(1) u(1))
  moreover have "s ! (2 + length x + length u) = hd v" using \<open>v \<noteq> []\<close> by (cases v) (auto simp: s x(1) u(1) nth_append)
  ultimately obtain r where "v = CHR ''m'' # r" using j(1) by (cases v) auto
  then show ?thesis unfolding sgr_form_def using x(3) u(3,4) j(2) s x(1) u(1)
    by (intro exI[of _ x] exI[of _ u] exI[of _ r]) simp
qed

lemma form_sgrLen: "sgr_form n s \<Longrightarrow> sgrLen s = n"
proof -
  assume "sgr_form n s"
  then obtain p i r where f: "s = esc_byte # CHR ''['' # p @ i @ CHR ''m'' # r" "list_all (\<lambda>c. 0x30 \<le> byte c \<and> byte c \<le> 0x3F) p"
      "list_all (\<lambda>c. 0x20 \<le> byte c \<and> byte c \<le> 0x2F) i" "length p + length i \<le> maxSGRParams" "n = 3 + length p + length i"
    unfolding sgr_form_def by blast
  let ?p = "\<lambda>b::nat. 0x30 \<le> b \<and> b \<le> 0x3F" and ?q = "\<lambda>b::nat. 0x20 \<le> b \<and> b \<le> 0x2F"
  have a: "sgr_skip ?p (p @ i @ CHR ''m'' # r) 2 = 2 + length p"
  proof (cases i)
    case Nil
    then show ?thesis using sgr_skip_exact[of ?p p 2 "CHR ''m''" r] f(2,4) by simp
  next
    case (Cons c i')
    then show ?thesis using sgr_skip_exact[of ?p p 2 c "i' @ CHR ''m'' # r"] f(2-4) by simp
  qed
  have b: "sgr_skip ?q (i @ CHR ''m'' # r) (2 + length p) = 2 + length p + length i"
    using sgr_skip_exact[of ?q i "2 + length p" "CHR ''m''" r] f(3,4) by simp
  show ?thesis unfolding sgrLen_def using a b f(5) by (simp add: f(1) Let_def nth_append)
qed

lemma sgrLen_le: "sgrLen s \<le> length s"
  by (simp add: sgrLen_def Let_def)

lemma sgrLen_cut:
  assumes "0 < sgrLen s"
  shows "sgrLen (take (sgrLen s) s @ t) = sgrLen s"
proof -
  obtain p i r where f: "s = esc_byte # CHR ''['' # p @ i @ CHR ''m'' # r" "list_all (\<lambda>c. 0x30 \<le> byte c \<and> byte c \<le> 0x3F) p"
      "list_all (\<lambda>c. 0x20 \<le> byte c \<and> byte c \<le> 0x2F) i" "length p + length i \<le> maxSGRParams" "sgrLen s = 3 + length p + length i"
    using sgrLen_form[OF assms] unfolding sgr_form_def by blast
  let ?x = "esc_byte # CHR ''['' # p @ i @ ''m''"
  have x: "s = ?x @ r" "sgrLen s = length ?x" using f(1,5) by simp_all
  have "take (sgrLen s) s = ?x" unfolding x(2) by (subst x(1)) simp
  then have "take (sgrLen s) s @ t = esc_byte # CHR ''['' # p @ i @ CHR ''m'' # t" by simp
  then have "sgr_form (sgrLen s) (take (sgrLen s) s @ t)" unfolding sgr_form_def using f(2-5) by blast
  then show ?thesis by (rule form_sgrLen)
qed

lemma sgrLen_esc: "0 < sgrLen s \<Longrightarrow> \<exists>t. s = esc_byte # t"
  using sgrLen_form unfolding sgr_form_def by blast

section \<open>Bodies\<close>

text \<open>What may stand in a body: newline, tab, an SGR sequence, printable runes.\<close>

function body_ok :: "(nat \<Rightarrow> bool) \<Rightarrow> string \<Rightarrow> bool" where
  "body_ok uni s =
     (case s of
        [] \<Rightarrow> True
      | c # t \<Rightarrow>
          if c = CHR 0x0A \<or> c = CHR 0x09 then body_ok uni t
          else if c = esc_byte then (if 0 < sgrLen s then body_ok uni (drop (sgrLen s) s) else False)
          else (case rune_len s of
                  None \<Rightarrow> False
                | Some n \<Rightarrow> (if isPrint uni (rune_val (take n s)) then body_ok uni (drop n s) else False)))"
  by pat_completeness auto

termination
proof (relation "measure (length \<circ> snd)")
  fix uni :: "nat \<Rightarrow> bool" and s :: string and c t n
  assume "s = c # t" and "rune_len s = Some n"
  then show "((uni, drop n s), (uni, s)) \<in> measure (length \<circ> snd)" using rune_len_pos by fastforce
qed auto

declare body_ok.simps [simp del]

lemma body_ok_Nil [simp]: "body_ok uni []"
  by (subst body_ok.simps) simp

definition plain_gap :: "char \<Rightarrow> bool" where
  "plain_gap c \<longleftrightarrow> c = CHR 0x0A \<or> c = CHR 0x09"

lemma body_ok_gap: "plain_gap c \<Longrightarrow> body_ok uni (c # t) = body_ok uni t"
  by (subst body_ok.simps) (simp add: plain_gap_def)

lemma body_ok_sgr: "0 < sgrLen s \<Longrightarrow> body_ok uni s = body_ok uni (drop (sgrLen s) s)"
  using sgrLen_esc[of s] by (subst body_ok.simps) (auto simp: esc_byte_def)

lemma body_ok_rune:
  "rune_len s = Some n \<Longrightarrow> \<not> plain_gap (hd s) \<Longrightarrow> hd s \<noteq> esc_byte \<Longrightarrow>
    body_ok uni s \<longleftrightarrow> isPrint uni (rune_val (take n s)) \<and> body_ok uni (drop n s)"
  by (subst body_ok.simps) (auto simp: plain_gap_def rune_len_def split: list.splits)

lemma printable_head: "rune_len s = Some n \<Longrightarrow> isPrint uni (rune_val (take n s)) \<Longrightarrow> \<not> plain_gap (hd s) \<and> hd s \<noteq> esc_byte"
proof -
  assume n: "rune_len s = Some n" and p: "isPrint uni (rune_val (take n s))"
  obtain c t where s: "s = c # t" using n by (cases s) (auto simp: rune_len_def)
  show ?thesis
  proof (cases "byte c < 128")
    case True
    then have "n = 1" using n rune_len_ascii[of c t] s by simp
    then have "isPrint uni (byte c)" using p True s by (simp add: rune_val_ascii)
    then have "32 \<le> byte c" using True by (simp add: isPrint_def)
    then show ?thesis by (auto simp: s plain_gap_def esc_byte_def)
  next
    case False
    then show ?thesis by (auto simp: s plain_gap_def esc_byte_def)
  qed
qed

lemma body_ok_printable:
  "rune_len s = Some n \<Longrightarrow> isPrint uni (rune_val (take n s)) \<Longrightarrow> body_ok uni s = body_ok uni (drop n s)"
  using body_ok_rune printable_head by blast

text \<open>A printable rune, the replacement rune, an SGR sequence: what the loop puts in front.\<close>

lemma body_ok_front:
  "rune_len e = Some (length e) \<Longrightarrow> isPrint uni (rune_val e) \<Longrightarrow> body_ok uni (e @ s) = body_ok uni s"
  using body_ok_printable[OF rune_len_append[of e "length e" s], of uni] by simp

lemma body_ok_error: "uni 0xFFFD \<Longrightarrow> body_ok uni (rune_error @ s) = body_ok uni s"
  by (rule body_ok_front) (simp_all add: rune_error_def rune_len_def lead_len_def second_ok_def cont_def rune_val_def isPrint_def)

lemma body_ok_sgr_front: "0 < sgrLen s \<Longrightarrow> body_ok uni (take (sgrLen s) s @ t) = body_ok uni t"
  using body_ok_sgr[of "take (sgrLen s) s @ t" uni] sgrLen_cut[of s t] sgrLen_le[of s] by simp

lemma body_ok_shown: "shown c \<Longrightarrow> body_ok uni (c # s) = body_ok uni s"
  using body_ok_front[of "[c]" uni s] rune_len_ascii[of c "[]"] by (simp add: shown_def rune_val_ascii isPrint_def)

text \<open>The first character of a string as the loop and the recogniser meet it.\<close>

lemma body_cases:
  assumes "s = c # t"
  obtains (gap) "plain_gap c" "body_loop uni s = c # body_loop uni t"
  | (sgr) "c = esc_byte" "0 < sgrLen s" "body_loop uni s = take (sgrLen s) s @ body_loop uni (drop (sgrLen s) s)"
  | (shown) "shown c" "body_loop uni s = c # body_loop uni t"
  | (rune) n where "rune_len s = Some n" "isPrint uni (rune_val (take n s))" "body_loop uni s = take n s @ body_loop uni (drop n s)"
  | (error) n where "0 < n" "body_loop uni s = rune_error @ body_loop uni (drop n s)" "\<not> body_ok uni s"
proof -
  note b = body_loop.simps[of uni s] and k = body_ok.simps[of uni s]
  consider (a) "plain_gap c" | (b) "c = esc_byte" "0 < sgrLen s" | (b') "c = esc_byte" "sgrLen s = 0"
    | (d) "shown c" | (e) "byte c < 128" "\<not> plain_gap c" "c \<noteq> esc_byte" "\<not> shown c"
    | (f) n where "\<not> byte c < 128" "rune_len s = Some n" | (g) "\<not> byte c < 128" "rune_len s = None"
    by (cases "rune_len s") blast+
  then show thesis
  proof cases
    case a
    then show thesis using b assms by (intro gap) (auto simp: plain_gap_def)
  next
    case b
    then show thesis using body_loop.simps[of uni s] assms by (intro sgr) (simp_all add: esc_byte_def)
  next
    case b'
    have "body_loop uni s = rune_error @ body_loop uni (drop 1 s)" using b b' assms by (simp add: esc_byte_def)
    moreover have "\<not> body_ok uni s" using k b' assms by (simp add: esc_byte_def)
    ultimately show thesis by (intro error[of 1]) simp_all
  next
    case d
    then show thesis using b assms by (intro shown) (auto simp: shown_def esc_byte_def)
  next
    case e
    then have r: "byte c < 32 \<or> byte c = 127" by (auto simp: shown_def)
    have "body_loop uni s = rune_error @ body_loop uni (drop 1 s)" using b e r assms by (simp add: plain_gap_def)
    moreover have "rune_len s = Some 1" using e(1) rune_len_ascii assms by simp
    then have "\<not> body_ok uni s" using k e r assms by (auto simp: plain_gap_def rune_val_ascii isPrint_def)
    ultimately show thesis by (intro error[of 1]) simp_all
  next
    case (f n)
    have ne: "c \<noteq> esc_byte" "\<not> plain_gap c" using f(1) by (auto simp: esc_byte_def plain_gap_def)
    show thesis
    proof (cases "isPrint uni (rune_val (take n s))")
      case True
      then show thesis using f b assms by (intro rune[of n]) simp_all
    next
      case False
      moreover have "body_loop uni s = rune_error @ body_loop uni (drop n s)" using b f False assms by simp
      moreover have "0 < n" using rune_len_pos[OF f(2)] by simp
      moreover have "\<not> body_ok uni s" using k f False ne assms by (simp add: plain_gap_def)
      ultimately show thesis by (intro error[of n])
    qed
  next
    case g
    have ne: "c \<noteq> esc_byte" "\<not> plain_gap c" using g(1) by (auto simp: esc_byte_def plain_gap_def)
    have "body_loop uni s = rune_error @ body_loop uni (drop 1 s)" using b g assms by simp
    moreover have "\<not> body_ok uni s" using k g ne assms by (simp add: plain_gap_def)
    ultimately show thesis by (intro error[of 1]) simp_all
  qed
qed

lemma body_loop_Nil [simp]: "body_loop uni [] = []"
  by (subst body_loop.simps) simp

lemma body_loop_ok:
  assumes u: "uni 0xFFFD"
  shows "body_ok uni (body_loop uni s)"
proof (induction s rule: length_induct)
  case (1 s)
  show ?case
  proof (cases s)
    case (Cons c t)
    have i: "body_ok uni (body_loop uni (drop n s))" if "0 < n" for n using 1 Cons that by simp
    show ?thesis
    proof (rule body_cases[OF Cons, of uni])
      assume "plain_gap c" "body_loop uni s = c # body_loop uni t"
      then show ?thesis using i[of 1] Cons by (simp add: body_ok_gap)
    next
      assume "0 < sgrLen s" "body_loop uni s = take (sgrLen s) s @ body_loop uni (drop (sgrLen s) s)"
      then show ?thesis using i[of "sgrLen s"] by (simp add: body_ok_sgr_front)
    next
      assume "shown c" "body_loop uni s = c # body_loop uni t"
      then show ?thesis using i[of 1] Cons by (simp add: body_ok_shown)
    next
      fix n assume n: "rune_len s = Some n" "isPrint uni (rune_val (take n s))" "body_loop uni s = take n s @ body_loop uni (drop n s)"
      have p: "0 < n" "n \<le> length s" using rune_len_pos[OF n(1)] by simp_all
      have "rune_len (take n s) = Some (length (take n s))" using rune_len_take[OF n(1) order_refl] p(2) by simp
      then show ?thesis using body_ok_front n(2,3) i[OF p(1)] by simp
    next
      fix n assume "0 < n" "body_loop uni s = rune_error @ body_loop uni (drop n s)"
      then show ?thesis using i[of n] by (simp add: body_ok_error[of uni, OF u])
    qed
  qed simp
qed

lemma body_loop_id: "body_ok uni s \<Longrightarrow> body_loop uni s = s"
proof (induction s rule: length_induct)
  case (1 s)
  show ?case
  proof (cases s)
    case (Cons c t)
    have i: "body_loop uni (drop n s) = drop n s" if "0 < n" "body_ok uni (drop n s)" for n using "1.IH" Cons that by simp
    show ?thesis
    proof (rule body_cases[OF Cons, of uni])
      assume c: "plain_gap c" "body_loop uni s = c # body_loop uni t"
      then show ?thesis using i[of 1] Cons "1.prems" body_ok_gap[OF c(1)] by simp
    next
      assume "0 < sgrLen s" "body_loop uni s = take (sgrLen s) s @ body_loop uni (drop (sgrLen s) s)"
      then show ?thesis using i[of "sgrLen s"] "1.prems" body_ok_sgr by simp
    next
      assume c: "shown c" "body_loop uni s = c # body_loop uni t"
      then show ?thesis using i[of 1] Cons "1.prems" body_ok_shown[OF c(1)] by simp
    next
      fix n assume n: "rune_len s = Some n" "isPrint uni (rune_val (take n s))" "body_loop uni s = take n s @ body_loop uni (drop n s)"
      have "0 < n" using rune_len_pos[OF n(1)] by simp
      then show ?thesis using i[of n] "1.prems" body_ok_printable[OF n(1,2)] n(3) by simp
    qed (use "1.prems" in blast)
  qed simp
qed

lemma clean_body_ok: "\<not> bodyNeedsSanitising s \<Longrightarrow> body_ok uni s"
proof (induction s)
  case (Cons c s)
  then have i: "body_ok uni s" by (simp add: bodyNeedsSanitising_def)
  have "plain_gap c \<or> shown c" using Cons.prems by (auto simp: bodyNeedsSanitising_def plain_gap_def shown_def)
  then show ?case using i body_ok_gap body_ok_shown by blast
qed simp

lemma safeBody_ok: "uni 0xFFFD \<Longrightarrow> body_ok uni (safeBody uni s)"
  using body_loop_ok clean_body_ok by (simp add: safeBody_def)

lemma safeBody_id: "body_ok uni s \<Longrightarrow> safeBody uni s = s"
  using body_loop_id by (simp add: safeBody_def)

end
