(* ===== verification/Proto_Frame.thy ===== *)
theory Proto_Frame
  imports Proto_Safe Recorder_Codec Team_Serve
begin

text \<open>
  The frames of \<open>internal/proto/proto.go\<close> that the host decodes off a guest's channel, as
  \<open>json.Unmarshal\<close> fills them, and their \<open>Sanitize\<close> methods. A pointer field is an option.
  The locale \<open>sanitizer\<close> is the contract of the interface \<open>Sanitizer\<close>: what it returns is
  clean, and a clean frame comes back as it is; each frame type is an instance.
\<close>

section \<open>The contract\<close>

locale sanitizer =
  fixes san :: "'a \<Rightarrow> 'a" and clean :: "'a \<Rightarrow> bool"
  assumes makes_clean: "clean (san x)" and keeps_clean: "clean x \<Longrightarrow> san x = x"
begin

lemma idem: "san (san x) = san x"
  by (rule keeps_clean[OF makes_clean])

lemma unchanged_iff: "san x = x \<longleftrightarrow> clean x"
  using makes_clean[of x] keeps_clean by auto

lemma image_clean: "range san = {x. clean x}"
  using makes_clean keeps_clean by (auto simp: image_iff) metis

end

section \<open>Errors\<close>

record perr =
  pe_Kind :: string
  pe_Message :: string

definition errorKinds :: "string list" where
  "errorKinds = [''bad_request'', ''not_found'', ''denied'', ''timeout'', ''killed'', ''io'', ''internal'']"

definition knownErrorKind :: "string \<Rightarrow> bool" where
  "knownErrorKind k = (k \<in> set errorKinds)"

definition sanitizeError :: "(nat \<Rightarrow> bool) \<Rightarrow> perr \<Rightarrow> perr" where
  "sanitizeError uni e =
     (let k = safeText uni (pe_Kind e); m = safeText uni (pe_Message e) in
      if knownErrorKind k then \<lparr>pe_Kind = k, pe_Message = m\<rparr>
      else \<lparr>pe_Kind = ''internal'',
            pe_Message = (if k \<noteq> [] then (if m = [] then k else k @ '': '' @ m) else m)\<rparr>)"

text \<open>\<open>Error.Error()\<close>, what is printed.\<close>

definition errorText :: "(nat \<Rightarrow> bool) \<Rightarrow> perr \<Rightarrow> string" where
  "errorText uni e = safeText uni (pe_Kind e) @ '': '' @ safeText uni (pe_Message e)"

definition error_clean :: "(nat \<Rightarrow> bool) \<Rightarrow> perr \<Rightarrow> bool" where
  "error_clean uni e \<longleftrightarrow> knownErrorKind (pe_Kind e) \<and> text_ok uni (pe_Message e)"

lemma known_kind_ok: "knownErrorKind k \<Longrightarrow> text_ok uni k"
  by (rule text_ok_shown) (auto simp: knownErrorKind_def errorKinds_def shown_def)

lemma colon_ok: "text_ok uni ('': '' @ s) = text_ok uni s"
  by (rule text_ok_append[OF text_ok_shown]) (simp add: shown_def)

lemma sanitize_error: "sanitizer (sanitizeError uni) (error_clean uni)"
proof
  fix e
  show "error_clean uni (sanitizeError uni e)"
    using safeText_ok[of uni "pe_Kind e"] safeText_ok[of uni "pe_Message e"]
      text_ok_append[of uni "safeText uni (pe_Kind e)"] colon_ok[of uni]
    by (auto simp: error_clean_def sanitizeError_def Let_def) (simp_all add: knownErrorKind_def errorKinds_def)
next
  fix e :: perr
  assume "error_clean uni e"
  then show "sanitizeError uni e = e"
    using known_kind_ok[of "pe_Kind e" uni] by (simp add: error_clean_def sanitizeError_def safeText_id)
qed

interpretation err: sanitizer "sanitizeError uni" "error_clean uni"
  by (rule sanitize_error)

text \<open>A nil error stays nil.\<close>

definition sanitizeErrorP :: "(nat \<Rightarrow> bool) \<Rightarrow> perr option \<Rightarrow> perr option" where
  "sanitizeErrorP uni e = map_option (sanitizeError uni) e"

definition errorP_clean :: "(nat \<Rightarrow> bool) \<Rightarrow> perr option \<Rightarrow> bool" where
  "errorP_clean uni e \<longleftrightarrow> pred_option (error_clean uni) e"

interpretation errp: sanitizer "sanitizeErrorP uni" "errorP_clean uni"
proof
  show "errorP_clean uni (sanitizeErrorP uni e)" for e
    using err.makes_clean by (cases e) (auto simp: errorP_clean_def sanitizeErrorP_def)
  show "errorP_clean uni e \<Longrightarrow> sanitizeErrorP uni e = e" for e
    using err.keeps_clean by (cases e) (auto simp: errorP_clean_def sanitizeErrorP_def)
qed

definition set_perr :: "string \<Rightarrow> json \<Rightarrow> perr \<Rightarrow> perr option" where
  "set_perr k j e =
     (if k = ''kind'' then map_option (\<lambda>s. e\<lparr>pe_Kind := s\<rparr>) (decode_str j (pe_Kind e))
      else map_option (\<lambda>s. e\<lparr>pe_Message := s\<rparr>) (decode_str j (pe_Message e)))"

definition decode_errorP :: "json \<Rightarrow> perr option \<Rightarrow> perr option option" where
  "decode_errorP j old =
     (if j = JNull then Some None
      else map_option Some (decode_obj [''kind'', ''message''] set_perr j
             (case old of Some x \<Rightarrow> x | None \<Rightarrow> \<lparr>pe_Kind = [], pe_Message = []\<rparr>)))"

fun decode_bool :: "json \<Rightarrow> bool \<Rightarrow> bool option" where
  "decode_bool (JBool b) old = Some b"
| "decode_bool JNull old = Some old"
| "decode_bool _ old = None"

definition decode_intP :: "json \<Rightarrow> int option \<Rightarrow> int option option" where
  "decode_intP j old =
     (if j = JNull then Some None else map_option Some (decode_num j (case old of Some i \<Rightarrow> i | None \<Rightarrow> 0)))"

text \<open>\<open>json.Unmarshal\<close> of a line into a struct with these fields, from its zero value.\<close>

definition decode_frame :: "string list \<Rightarrow> (string \<Rightarrow> json \<Rightarrow> 'a \<Rightarrow> 'a option) \<Rightarrow> 'a \<Rightarrow> string \<Rightarrow> 'a option" where
  "decode_frame names put z s = (case json_parse s of None \<Rightarrow> None | Some j \<Rightarrow> decode_obj names put j z)"

section \<open>The exec channel\<close>

text \<open>An argv on the wire: base64 per element.\<close>

definition encodeCmd :: "bytes list \<Rightarrow> string list" where
  "encodeCmd argv = map b64_encode argv"

text \<open>The index of the first element that is not base64, or the argv.\<close>

fun decode_cmd_from :: "nat \<Rightarrow> string list \<Rightarrow> nat + bytes list" where
  "decode_cmd_from i [] = Inr []"
| "decode_cmd_from i (c # cs) =
     (case b64_decode c of
        None \<Rightarrow> Inl i
      | Some b \<Rightarrow> (case decode_cmd_from (i + 1) cs of Inl e \<Rightarrow> Inl e | Inr bs \<Rightarrow> Inr (b # bs)))"

definition decodeCmd :: "string list \<Rightarrow> nat + bytes list" where
  "decodeCmd cmd = decode_cmd_from 0 cmd"

lemma decode_cmd_encode: "decode_cmd_from i (map b64_encode argv) = Inr argv"
  by (induction argv arbitrary: i) (simp_all add: b64_decode_encode)

lemma decode_cmd_error:
  "decode_cmd_from i cmd = Inl e \<longleftrightarrow>
     i \<le> e \<and> e < i + length cmd \<and> b64_decode (cmd ! (e - i)) = None \<and> (\<forall>k < e - i. b64_decode (cmd ! k) \<noteq> None)"
proof (induction cmd arbitrary: i)
  case (Cons c cmd)
  show ?case
  proof (cases "b64_decode c")
    case None
    have "e = i" if "i \<le> e" "\<forall>k < e - i. b64_decode ((c # cmd) ! k) \<noteq> None"
      using that(1) spec[OF that(2), of 0] None by (cases "e = i") auto
    then show ?thesis using None by auto
  next
    case (Some b)
    have *: "decode_cmd_from i (c # cmd) = Inl e \<longleftrightarrow> decode_cmd_from (i + 1) cmd = Inl e"
      using Some by (auto split: sum.splits)
    show ?thesis
    proof (cases "e = i")
      case True
      then show ?thesis unfolding * Cons.IH using Some by auto
    next
      case False
      have "(\<forall>k < e - i. b64_decode ((c # cmd) ! k) \<noteq> None) \<longleftrightarrow> (\<forall>k < e - (i + 1). b64_decode (cmd ! k) \<noteq> None)"
        if "i < e"
      proof -
        have "e - i = Suc (e - (i + 1))" using that by simp
        then show ?thesis using Some by (simp add: All_less_Suc2)
      qed
      moreover have "(c # cmd) ! (e - i) = cmd ! (e - (i + 1))" if "i < e"
        using that by (simp add: nth_Cons')
      ultimately show ?thesis unfolding * Cons.IH using False by auto
    qed
  qed
qed simp

record exec_response =
  er_V :: int
  er_ID :: string
  er_Stream :: string
  er_Data :: string
  er_Code :: "int option"
  er_Signal :: string
  er_Error :: "perr option"

definition set_exec :: "string \<Rightarrow> json \<Rightarrow> exec_response \<Rightarrow> exec_response option" where
  "set_exec k j r =
     (if k = ''v'' then map_option (\<lambda>x. r\<lparr>er_V := x\<rparr>) (decode_num j (er_V r))
      else if k = ''id'' then map_option (\<lambda>x. r\<lparr>er_ID := x\<rparr>) (decode_str j (er_ID r))
      else if k = ''stream'' then map_option (\<lambda>x. r\<lparr>er_Stream := x\<rparr>) (decode_str j (er_Stream r))
      else if k = ''data'' then map_option (\<lambda>x. r\<lparr>er_Data := x\<rparr>) (decode_str j (er_Data r))
      else if k = ''code'' then map_option (\<lambda>x. r\<lparr>er_Code := x\<rparr>) (decode_intP j (er_Code r))
      else if k = ''signal'' then map_option (\<lambda>x. r\<lparr>er_Signal := x\<rparr>) (decode_str j (er_Signal r))
      else map_option (\<lambda>x. r\<lparr>er_Error := x\<rparr>) (decode_errorP j (er_Error r)))"

definition decode_exec :: "string \<Rightarrow> exec_response option" where
  "decode_exec = decode_frame [''v'', ''id'', ''stream'', ''data'', ''code'', ''signal'', ''error''] set_exec
     \<lparr>er_V = 0, er_ID = [], er_Stream = [], er_Data = [], er_Code = None, er_Signal = [], er_Error = None\<rparr>"

definition sanitizeExec :: "(nat \<Rightarrow> bool) \<Rightarrow> exec_response \<Rightarrow> exec_response" where
  "sanitizeExec uni r =
     r\<lparr>er_ID := safeText uni (er_ID r), er_Stream := safeText uni (er_Stream r),
       er_Signal := safeText uni (er_Signal r), er_Error := sanitizeErrorP uni (er_Error r)\<rparr>"

definition exec_clean :: "(nat \<Rightarrow> bool) \<Rightarrow> exec_response \<Rightarrow> bool" where
  "exec_clean uni r \<longleftrightarrow>
     text_ok uni (er_ID r) \<and> text_ok uni (er_Stream r) \<and> text_ok uni (er_Signal r) \<and> errorP_clean uni (er_Error r)"

interpretation exec: sanitizer "sanitizeExec uni" "exec_clean uni"
  by unfold_locales (simp_all add: sanitizeExec_def exec_clean_def safeText_ok safeText_id errp.makes_clean errp.keeps_clean)

section \<open>The ready and event channels\<close>

record ready =
  ry_V :: int
  ry_Type :: string
  ry_BootID :: string
  ry_Arch :: string
  ry_Kernel :: string
  ry_Supervisor :: string
  ry_MonotonicNS :: int
  ry_Overlay :: bool
  ry_Profile :: string
  ry_ProfileError :: string

definition sanitizeReady :: "(nat \<Rightarrow> bool) \<Rightarrow> ready \<Rightarrow> ready" where
  "sanitizeReady uni r =
     r\<lparr>ry_Type := safeText uni (ry_Type r), ry_BootID := safeText uni (ry_BootID r),
       ry_Arch := safeText uni (ry_Arch r), ry_Kernel := safeText uni (ry_Kernel r),
       ry_Supervisor := safeText uni (ry_Supervisor r), ry_Profile := safeText uni (ry_Profile r),
       ry_ProfileError := safeText uni (ry_ProfileError r)\<rparr>"

definition ready_clean :: "(nat \<Rightarrow> bool) \<Rightarrow> ready \<Rightarrow> bool" where
  "ready_clean uni r \<longleftrightarrow>
     list_all (text_ok uni) [ry_Type r, ry_BootID r, ry_Arch r, ry_Kernel r, ry_Supervisor r, ry_Profile r, ry_ProfileError r]"

interpretation rdy: sanitizer "sanitizeReady uni" "ready_clean uni"
  by unfold_locales (simp_all add: sanitizeReady_def ready_clean_def safeText_ok safeText_id)

record heartbeat =
  hb_V :: int
  hb_Type :: string
  hb_UptimeMS :: int

definition sanitizeHeartbeat :: "(nat \<Rightarrow> bool) \<Rightarrow> heartbeat \<Rightarrow> heartbeat" where
  "sanitizeHeartbeat uni h = h\<lparr>hb_Type := safeText uni (hb_Type h)\<rparr>"

interpretation beat: sanitizer "sanitizeHeartbeat uni" "\<lambda>h. text_ok uni (hb_Type h)"
  by unfold_locales (simp_all add: sanitizeHeartbeat_def safeText_ok safeText_id)

record guest_event =
  ge_V :: int
  ge_Type :: string
  ge_MonotonicNS :: int
  ge_PID :: int
  ge_Comm :: string
  ge_RSSKiB :: int
  ge_Name :: string
  ge_Tool :: string
  ge_Outcome :: string
  ge_DurationMS :: int
  ge_Message :: string
  ge_Args :: string

definition set_guest_event :: "string \<Rightarrow> json \<Rightarrow> guest_event \<Rightarrow> guest_event option" where
  "set_guest_event k j e =
     (if k = ''v'' then map_option (\<lambda>x. e\<lparr>ge_V := x\<rparr>) (decode_num j (ge_V e))
      else if k = ''type'' then map_option (\<lambda>x. e\<lparr>ge_Type := x\<rparr>) (decode_str j (ge_Type e))
      else if k = ''monotonic_ns'' then map_option (\<lambda>x. e\<lparr>ge_MonotonicNS := x\<rparr>) (decode_num j (ge_MonotonicNS e))
      else if k = ''pid'' then map_option (\<lambda>x. e\<lparr>ge_PID := x\<rparr>) (decode_num j (ge_PID e))
      else if k = ''comm'' then map_option (\<lambda>x. e\<lparr>ge_Comm := x\<rparr>) (decode_str j (ge_Comm e))
      else if k = ''rss_kib'' then map_option (\<lambda>x. e\<lparr>ge_RSSKiB := x\<rparr>) (decode_num j (ge_RSSKiB e))
      else if k = ''name'' then map_option (\<lambda>x. e\<lparr>ge_Name := x\<rparr>) (decode_str j (ge_Name e))
      else if k = ''tool'' then map_option (\<lambda>x. e\<lparr>ge_Tool := x\<rparr>) (decode_str j (ge_Tool e))
      else if k = ''outcome'' then map_option (\<lambda>x. e\<lparr>ge_Outcome := x\<rparr>) (decode_str j (ge_Outcome e))
      else if k = ''duration_ms'' then map_option (\<lambda>x. e\<lparr>ge_DurationMS := x\<rparr>) (decode_num j (ge_DurationMS e))
      else if k = ''message'' then map_option (\<lambda>x. e\<lparr>ge_Message := x\<rparr>) (decode_str j (ge_Message e))
      else map_option (\<lambda>x. e\<lparr>ge_Args := x\<rparr>) (decode_str j (ge_Args e)))"

definition guest_event_fields :: "string list" where
  "guest_event_fields = [''v'', ''type'', ''monotonic_ns'', ''pid'', ''comm'', ''rss_kib'', ''name'', ''tool'',
     ''outcome'', ''duration_ms'', ''message'', ''args'']"

definition no_guest_event :: guest_event where
  "no_guest_event = \<lparr>ge_V = 0, ge_Type = [], ge_MonotonicNS = 0, ge_PID = 0, ge_Comm = [], ge_RSSKiB = 0, ge_Name = [],
     ge_Tool = [], ge_Outcome = [], ge_DurationMS = 0, ge_Message = [], ge_Args = []\<rparr>"

definition decode_guest_event :: "string \<Rightarrow> guest_event option" where
  "decode_guest_event = decode_frame guest_event_fields set_guest_event no_guest_event"

definition sanitizeGuestEvent :: "(nat \<Rightarrow> bool) \<Rightarrow> guest_event \<Rightarrow> guest_event" where
  "sanitizeGuestEvent uni e =
     e\<lparr>ge_Type := safeText uni (ge_Type e), ge_Comm := safeText uni (ge_Comm e), ge_Name := safeText uni (ge_Name e),
       ge_Tool := safeText uni (ge_Tool e), ge_Outcome := safeText uni (ge_Outcome e),
       ge_Message := safeText uni (ge_Message e), ge_Args := safeText uni (ge_Args e)\<rparr>"

definition guest_event_clean :: "(nat \<Rightarrow> bool) \<Rightarrow> guest_event \<Rightarrow> bool" where
  "guest_event_clean uni e \<longleftrightarrow>
     list_all (text_ok uni) [ge_Type e, ge_Comm e, ge_Name e, ge_Tool e, ge_Outcome e, ge_Message e, ge_Args e]"

interpretation gev: sanitizer "sanitizeGuestEvent uni" "guest_event_clean uni"
  by unfold_locales (simp_all add: sanitizeGuestEvent_def guest_event_clean_def safeText_ok safeText_id)

section \<open>The team and control channels\<close>

text \<open>The request the broker serves, with the two fields of the frame it does not read.\<close>

record team_frame =
  tf_V :: int
  tf_ID :: string
  tf_req :: team_request

definition set_team_frame :: "string \<Rightarrow> json \<Rightarrow> team_frame \<Rightarrow> team_frame option" where
  "set_team_frame k j f =
     (let q = tf_req f in
      if k = ''v'' then map_option (\<lambda>x. f\<lparr>tf_V := x\<rparr>) (decode_num j (tf_V f))
      else if k = ''id'' then map_option (\<lambda>x. f\<lparr>tf_ID := x\<rparr>) (decode_str j (tf_ID f))
      else map_option (\<lambda>q. f\<lparr>tf_req := q\<rparr>)
       (if k = ''op'' then map_option (\<lambda>x. q\<lparr>rq_op := x\<rparr>) (decode_str j (rq_op q))
        else if k = ''to'' then map_option (\<lambda>x. q\<lparr>rq_to := x\<rparr>) (decode_str j (rq_to q))
        else if k = ''body'' then map_option (\<lambda>x. q\<lparr>rq_body := x\<rparr>) (decode_str j (rq_body q))
        else if k = ''correlate'' then map_option (\<lambda>x. q\<lparr>rq_correlate := x\<rparr>) (decode_str j (rq_correlate q))
        else if k = ''key'' then map_option (\<lambda>x. q\<lparr>rq_key := x\<rparr>) (decode_str j (rq_key q))
        else if k = ''image'' then map_option (\<lambda>x. q\<lparr>rq_image := x\<rparr>) (decode_str j (rq_image q))
        else map_option (\<lambda>x. q\<lparr>rq_timeout := word_of_int x\<rparr>) (decode_num j (sint (rq_timeout q)))))"

definition decode_team_frame :: "string \<Rightarrow> team_frame option" where
  "decode_team_frame =
     decode_frame [''v'', ''id'', ''op'', ''to'', ''body'', ''correlate'', ''key'', ''image'', ''timeout_ms''] set_team_frame
       \<lparr>tf_V = 0, tf_ID = [], tf_req = \<lparr>rq_op = [], rq_to = [], rq_body = [], rq_correlate = [], rq_key = [],
        rq_image = [], rq_timeout = 0\<rparr>\<rparr>"

definition sanitizeTeam :: "(nat \<Rightarrow> bool) \<Rightarrow> team_frame \<Rightarrow> team_frame" where
  "sanitizeTeam uni f =
     (let q = tf_req f in
      f\<lparr>tf_ID := safeText uni (tf_ID f),
        tf_req := q\<lparr>rq_op := safeText uni (rq_op q), rq_to := safeText uni (rq_to q),
          rq_correlate := safeText uni (rq_correlate q), rq_key := safeText uni (rq_key q),
          rq_image := safeText uni (rq_image q)\<rparr>\<rparr>)"

definition team_clean :: "(nat \<Rightarrow> bool) \<Rightarrow> team_frame \<Rightarrow> bool" where
  "team_clean uni f \<longleftrightarrow>
     list_all (text_ok uni) [tf_ID f, rq_op (tf_req f), rq_to (tf_req f), rq_correlate (tf_req f), rq_key (tf_req f),
       rq_image (tf_req f)]"

interpretation team: sanitizer "sanitizeTeam uni" "team_clean uni"
  by unfold_locales (simp_all add: sanitizeTeam_def team_clean_def Let_def safeText_ok safeText_id)

record control_response =
  cr_V :: int
  cr_ID :: string
  cr_OK :: bool
  cr_Error :: "perr option"
  cr_Profile :: string
  cr_ProfileError :: string

definition set_control :: "string \<Rightarrow> json \<Rightarrow> control_response \<Rightarrow> control_response option" where
  "set_control k j r =
     (if k = ''v'' then map_option (\<lambda>x. r\<lparr>cr_V := x\<rparr>) (decode_num j (cr_V r))
      else if k = ''id'' then map_option (\<lambda>x. r\<lparr>cr_ID := x\<rparr>) (decode_str j (cr_ID r))
      else if k = ''ok'' then map_option (\<lambda>x. r\<lparr>cr_OK := x\<rparr>) (decode_bool j (cr_OK r))
      else if k = ''error'' then map_option (\<lambda>x. r\<lparr>cr_Error := x\<rparr>) (decode_errorP j (cr_Error r))
      else if k = ''profile'' then map_option (\<lambda>x. r\<lparr>cr_Profile := x\<rparr>) (decode_str j (cr_Profile r))
      else map_option (\<lambda>x. r\<lparr>cr_ProfileError := x\<rparr>) (decode_str j (cr_ProfileError r)))"

definition decode_control :: "string \<Rightarrow> control_response option" where
  "decode_control = decode_frame [''v'', ''id'', ''ok'', ''error'', ''profile'', ''profile_error''] set_control
     \<lparr>cr_V = 0, cr_ID = [], cr_OK = False, cr_Error = None, cr_Profile = [], cr_ProfileError = []\<rparr>"

definition sanitizeControl :: "(nat \<Rightarrow> bool) \<Rightarrow> control_response \<Rightarrow> control_response" where
  "sanitizeControl uni r =
     r\<lparr>cr_ID := safeText uni (cr_ID r), cr_Profile := safeText uni (cr_Profile r),
       cr_ProfileError := safeText uni (cr_ProfileError r), cr_Error := sanitizeErrorP uni (cr_Error r)\<rparr>"

definition control_clean :: "(nat \<Rightarrow> bool) \<Rightarrow> control_response \<Rightarrow> bool" where
  "control_clean uni r \<longleftrightarrow>
     text_ok uni (cr_ID r) \<and> text_ok uni (cr_Profile r) \<and> text_ok uni (cr_ProfileError r) \<and> errorP_clean uni (cr_Error r)"

interpretation ctl: sanitizer "sanitizeControl uni" "control_clean uni"
  by unfold_locales
    (simp_all add: sanitizeControl_def control_clean_def safeText_ok safeText_id errp.makes_clean errp.keeps_clean)

section \<open>The shell and forward channels\<close>

record shell_exit =
  sx_Op :: string
  sx_Code :: int
  sx_Signal :: string
  sx_Error :: string

definition sanitizeShellExit :: "(nat \<Rightarrow> bool) \<Rightarrow> shell_exit \<Rightarrow> shell_exit" where
  "sanitizeShellExit uni e =
     e\<lparr>sx_Op := safeText uni (sx_Op e), sx_Signal := safeText uni (sx_Signal e), sx_Error := safeText uni (sx_Error e)\<rparr>"

definition shell_exit_clean :: "(nat \<Rightarrow> bool) \<Rightarrow> shell_exit \<Rightarrow> bool" where
  "shell_exit_clean uni e \<longleftrightarrow> list_all (text_ok uni) [sx_Op e, sx_Signal e, sx_Error e]"

interpretation sx: sanitizer "sanitizeShellExit uni" "shell_exit_clean uni"
  by unfold_locales (simp_all add: sanitizeShellExit_def shell_exit_clean_def safeText_ok safeText_id)

text \<open>The peek at a control frame that tells which shape to decode it into.\<close>

record shell_op =
  so_Op :: string

definition sanitizeShellOp :: "(nat \<Rightarrow> bool) \<Rightarrow> shell_op \<Rightarrow> shell_op" where
  "sanitizeShellOp uni x = x\<lparr>so_Op := safeText uni (so_Op x)\<rparr>"

interpretation sop: sanitizer "sanitizeShellOp uni" "\<lambda>x. text_ok uni (so_Op x)"
  by unfold_locales (simp_all add: sanitizeShellOp_def safeText_ok safeText_id)

record forward_open =
  fo_V :: int
  fo_Op :: string
  fo_Port :: int

record forward_reply =
  fr_V :: int
  fr_OK :: bool
  fr_Error :: string

definition sanitizeForward :: "(nat \<Rightarrow> bool) \<Rightarrow> forward_reply \<Rightarrow> forward_reply" where
  "sanitizeForward uni r = r\<lparr>fr_Error := safeText uni (fr_Error r)\<rparr>"

interpretation fwd: sanitizer "sanitizeForward uni" "\<lambda>r. text_ok uni (fr_Error r)"
  by unfold_locales (simp_all add: sanitizeForward_def safeText_ok safeText_id)

end
