(* ===== verification/Proto_Stream.thy ===== *)
theory Proto_Stream
  imports Proto_Frame Recorder_File
begin

text \<open>
  The newline-delimited transport of \<open>internal/proto/proto.go\<close>: \<open>Writer.Write\<close>,
  \<open>Reader.Read\<close> over \<open>bufio.Scanner\<close>, and \<open>DrainOverlongLine\<close>. A connection is the list of
  what its reads will return: bytes, and an error or none; a read takes at most what the
  caller's buffer holds, and after the list comes the end of the stream.
\<close>

section \<open>Connections\<close>

datatype io_error = EndOfFile | NoProgress | IOFailure string

type_synonym conn = "(bytes \<times> io_error option) list"

definition conn_read :: "nat \<Rightarrow> conn \<Rightarrow> bytes \<times> io_error option \<times> conn" where
  "conn_read n c =
     (case c of
        [] \<Rightarrow> ([], Some EndOfFile, [])
      | (b, e) # t \<Rightarrow> if length b \<le> n then (b, e, t) else (take n b, None, (drop n b, e) # t))"

definition conn_weight :: "conn \<Rightarrow> nat" where
  "conn_weight c = sum_list (map (\<lambda>(b, e). Suc (length b)) c)"

lemma conn_read_weight: "conn_read n c = (b, e, c') \<Longrightarrow> b \<noteq> [] \<Longrightarrow> conn_weight c' < conn_weight c"
  by (auto simp: conn_read_def conn_weight_def split: list.splits prod.splits if_splits)

lemma conn_read_le: "conn_read n c = (b, e, c') \<Longrightarrow> conn_weight c' \<le> conn_weight c"
  by (auto simp: conn_read_def conn_weight_def split: list.splits prod.splits if_splits)

section \<open>The scanner\<close>

text \<open>\<open>bufio.Scanner\<close> as the reader sets it up: the unread part of the buffer, where it starts,
  the buffer's length, the limit, and the error it met.\<close>

datatype scan_error = ScanIO io_error | ErrTooLong

record scanner =
  sc_data :: bytes
  sc_start :: nat
  sc_size :: nat
  sc_max :: nat
  sc_err :: "scan_error option"

definition newScanner :: "nat \<Rightarrow> scanner" where
  "newScanner m = \<lparr>sc_data = [], sc_start = 0, sc_size = 65536, sc_max = m, sc_err = None\<rparr>"

text \<open>\<open>ScanLines\<close>: how far to advance and the token, if there is one.\<close>

definition scanLines :: "bytes \<Rightarrow> bool \<Rightarrow> (nat \<times> bytes) option" where
  "scanLines s atEOF =
     (if atEOF \<and> s = [] then None
      else case indexOf s [newline] of
             Some i \<Rightarrow> Some (i + 1, dropCR (take i s))
           | None \<Rightarrow> if atEOF then Some (length s, dropCR s) else None)"

text \<open>One read, repeated while it brings nothing and no error, a hundred times at most.\<close>

primrec fill :: "nat \<Rightarrow> nat \<Rightarrow> conn \<Rightarrow> bytes \<times> io_error option \<times> conn" where
  "fill 0 n c =
     (case conn_read n c of (b, e, c') \<Rightarrow> if e \<noteq> None \<or> b \<noteq> [] then (b, e, c') else ([], Some NoProgress, c'))"
| "fill (Suc k) n c =
     (case conn_read n c of (b, e, c') \<Rightarrow> if e \<noteq> None \<or> b \<noteq> [] then (b, e, c') else fill k n c')"

definition maxConsecutiveEmptyReads :: nat where "maxConsecutiveEmptyReads = 100"

text \<open>Space for the next read: shift the data down, then double the buffer up to the limit.\<close>

definition shifted :: "scanner \<Rightarrow> scanner" where
  "shifted s =
     (if 0 < sc_start s \<and> (sc_start s + length (sc_data s) = sc_size s \<or> sc_size s div 2 < sc_start s)
      then s\<lparr>sc_start := 0\<rparr> else s)"

definition grown :: "scanner \<Rightarrow> scanner option" where
  "grown s =
     (if sc_start s + length (sc_data s) = sc_size s
      then if sc_max s \<le> sc_size s then None
           else Some (s\<lparr>sc_start := 0, sc_size := min (sc_size s * 2) (sc_max s)\<rparr>)
      else Some s)"

lemma fill_weight: "fill k n c = (b, e, c') \<Longrightarrow> e = None \<Longrightarrow> conn_weight c' < conn_weight c"
proof (induction k arbitrary: c)
  case 0
  then show ?case by (auto split: prod.splits if_splits dest: conn_read_weight)
next
  case (Suc k)
  obtain b1 e1 c1 where r: "conn_read n c = (b1, e1, c1)" by (metis prod_cases3)
  then show ?case
    using Suc.prems Suc.IH[of c1] conn_read_weight[OF r] conn_read_le[OF r] by (auto split: if_splits)
qed

definition room :: "scanner \<Rightarrow> nat" where
  "room s = sc_size s - (sc_start s + length (sc_data s))"

text \<open>A reader: the scanner and the connection it scans. \<open>scan\<close> returns the token, if any; a
  reader whose buffer is full with no room to grow has met a line too long.\<close>

record reader =
  rd_scan :: scanner
  rd_conn :: conn

definition newReader :: "nat \<Rightarrow> conn \<Rightarrow> reader" where
  "newReader m c = \<lparr>rd_scan = newScanner m, rd_conn = c\<rparr>"

definition MaxProtoLine :: nat where "MaxProtoLine = 2 ^ 20"
definition MaxMCPLine :: nat where "MaxMCPLine = 16 * 2 ^ 20"

definition note_error :: "io_error option \<Rightarrow> scan_error option" where
  "note_error e = map_option ScanIO e"

function scan :: "reader \<Rightarrow> bytes option \<times> reader" where
  "scan r =
     (let s = rd_scan r;
          tok = (if sc_data s \<noteq> [] \<or> sc_err s \<noteq> None then scanLines (sc_data s) (sc_err s \<noteq> None) else None) in
      case tok of
        Some (n, t) \<Rightarrow> (Some t, r\<lparr>rd_scan := s\<lparr>sc_data := drop n (sc_data s), sc_start := sc_start s + n\<rparr>\<rparr>)
      | None \<Rightarrow>
          if sc_err s \<noteq> None then (None, r\<lparr>rd_scan := s\<lparr>sc_data := [], sc_start := 0\<rparr>\<rparr>)
          else (case grown (shifted s) of
                  None \<Rightarrow> (None, r\<lparr>rd_scan := (shifted s)\<lparr>sc_err := Some ErrTooLong\<rparr>\<rparr>)
                | Some g \<Rightarrow>
                    (case fill maxConsecutiveEmptyReads (room g) (rd_conn r) of
                       (b, e, c) \<Rightarrow> scan \<lparr>rd_scan = g\<lparr>sc_data := sc_data g @ b, sc_err := note_error e\<rparr>, rd_conn = c\<rparr>)))"
  by pat_completeness auto

termination
proof (relation "measure (\<lambda>r. if sc_err (rd_scan r) = None then Suc (conn_weight (rd_conn r)) else 0)", goal_cases)
  case 2
  show ?case using fill_weight[OF 2(6)[symmetric, folded 2(7)]] 2(4) by (auto simp: note_error_def 2(1))
qed simp

declare scan.simps [simp del]

text \<open>\<open>Scanner.Err\<close>: the end of the stream is not an error.\<close>

definition scan_err :: "scanner \<Rightarrow> scan_error option" where
  "scan_err s = (if sc_err s = Some (ScanIO EndOfFile) then None else sc_err s)"

section \<open>Reading frames\<close>

datatype read_error = ReadEOF | ReadIO io_error | LineTooLong | BlankFlood | MalformedFrame

definition maxBlankLines :: nat where "maxBlankLines = 1024"

text \<open>\<open>Reader.Read\<close>: \<open>dec\<close> is \<open>json.Unmarshal\<close> into the caller's type and \<open>san\<close> its \<open>Sanitize\<close>
  (the identity for a type without one); \<open>k\<close> blank lines are still tolerated.\<close>

primrec read_loop :: "nat \<Rightarrow> (bytes \<Rightarrow> 'a option) \<Rightarrow> ('a \<Rightarrow> 'a) \<Rightarrow> reader \<Rightarrow> (read_error + 'a) \<times> reader" where
  "read_loop 0 dec san r =
     (case scan r of
        (None, r') \<Rightarrow>
          (Inl (case scan_err (rd_scan r') of None \<Rightarrow> ReadEOF | Some ErrTooLong \<Rightarrow> LineTooLong | Some (ScanIO e) \<Rightarrow> ReadIO e), r')
      | (Some t, r') \<Rightarrow>
          (let l = dropCR t in
           if l = [] then (Inl BlankFlood, r')
           else case dec l of None \<Rightarrow> (Inl MalformedFrame, r') | Some v \<Rightarrow> (Inr (san v), r')))"
| "read_loop (Suc k) dec san r =
     (case scan r of
        (None, r') \<Rightarrow>
          (Inl (case scan_err (rd_scan r') of None \<Rightarrow> ReadEOF | Some ErrTooLong \<Rightarrow> LineTooLong | Some (ScanIO e) \<Rightarrow> ReadIO e), r')
      | (Some t, r') \<Rightarrow>
          (let l = dropCR t in
           if l = [] then read_loop k dec san r'
           else case dec l of None \<Rightarrow> (Inl MalformedFrame, r') | Some v \<Rightarrow> (Inr (san v), r')))"

definition read_frame :: "(bytes \<Rightarrow> 'a option) \<Rightarrow> ('a \<Rightarrow> 'a) \<Rightarrow> reader \<Rightarrow> (read_error + 'a) \<times> reader" where
  "read_frame = read_loop maxBlankLines"

text \<open>The results of so many reads in a row.\<close>

primrec read_frames :: "nat \<Rightarrow> (bytes \<Rightarrow> 'a option) \<Rightarrow> ('a \<Rightarrow> 'a) \<Rightarrow> reader \<Rightarrow> (read_error + 'a) list \<times> reader" where
  "read_frames 0 dec san r = ([], r)"
| "read_frames (Suc n) dec san r =
     (case read_frame dec san r of (x, r') \<Rightarrow> (case read_frames n dec san r' of (xs, r'') \<Rightarrow> (x # xs, r'')))"

section \<open>Draining\<close>

definition maxDrainOverlong :: nat where "maxDrainOverlong = 4 * MaxMCPLine"

definition resetScanner :: "reader \<Rightarrow> reader" where
  "resetScanner r = r\<lparr>rd_scan := newScanner (sc_max (rd_scan r))\<rparr>"

datatype drain_error = DrainTooLong | DrainIO io_error

text \<open>\<open>DrainOverlongLine\<close>, on the connection itself; \<open>n\<close> bytes have been discarded.\<close>

function drain_loop :: "nat \<Rightarrow> reader \<Rightarrow> drain_error option \<times> reader" where
  "drain_loop n r =
     (case conn_read 32768 (rd_conn r) of
        (b, e, c) \<Rightarrow>
          let r' = r\<lparr>rd_conn := c\<rparr> in
          if newline \<in> set b then (None, resetScanner r')
          else if maxDrainOverlong < n + length b then (Some DrainTooLong, r')
          else (case e of Some x \<Rightarrow> (Some (DrainIO x), r') | None \<Rightarrow> drain_loop (n + length b) r'))"
  by pat_completeness auto

termination
proof (relation "measure (\<lambda>(n, r). conn_weight (rd_conn r))", goal_cases)
  case 2
  then show ?case
    by (auto simp: conn_read_def conn_weight_def split: list.splits prod.splits if_splits)
qed simp

declare drain_loop.simps [simp del]

definition drainOverlongLine :: "reader \<Rightarrow> drain_error option \<times> reader" where
  "drainOverlongLine = drain_loop 0"

section \<open>Writing frames\<close>

text \<open>\<open>Writer.Write\<close> of a value already marshalled to JSON: what goes onto the wire.\<close>

definition write_frame :: "nat \<Rightarrow> json \<Rightarrow> read_error + bytes" where
  "write_frame m j = (let b = render j in if m < length b + 1 then Inl LineTooLong else Inr (b @ [newline]))"

end
