(* ===== verification/Proto_Framing.thy ===== *)
theory Proto_Framing
  imports Proto_Stream
begin

text \<open>
  What the transport promises, stated on the bytes alone, and the proof that the reader keeps
  it however the connection cuts those bytes into reads. \<open>flow\<close> is all a reader still has to
  deliver: the rest of the stream, or the refused start of a line too long.
\<close>

section \<open>The contract\<close>

datatype flow = Flow bytes | Stuck bytes

definition capacity :: "nat \<Rightarrow> nat" where
  "capacity m = max 65536 m"

fun flow_scan :: "nat \<Rightarrow> flow \<Rightarrow> bytes option \<times> bool \<times> flow" where
  "flow_scan m (Flow s) =
     (case indexOf (take (capacity m) s) [newline] of
        Some i \<Rightarrow> (Some (dropCR (take i s)), False, Flow (drop (i + 1) s))
      | None \<Rightarrow>
          if capacity m \<le> length s then (None, True, Stuck (take (capacity m) s))
          else if s = [] then (None, False, Flow [])
          else (Some (dropCR s), False, Flow []))"
| "flow_scan m (Stuck s) = (if s = [] then (None, True, Stuck []) else (Some (dropCR s), True, Stuck []))"

primrec flow_loop :: "nat \<Rightarrow> nat \<Rightarrow> (bytes \<Rightarrow> 'a option) \<Rightarrow> ('a \<Rightarrow> 'a) \<Rightarrow> flow \<Rightarrow> (read_error + 'a) \<times> flow" where
  "flow_loop 0 m dec san f =
     (case flow_scan m f of
        (None, long, f') \<Rightarrow> (Inl (if long then LineTooLong else ReadEOF), f')
      | (Some t, _, f') \<Rightarrow>
          (if dropCR t = [] then (Inl BlankFlood, f')
           else case dec (dropCR t) of None \<Rightarrow> (Inl MalformedFrame, f') | Some v \<Rightarrow> (Inr (san v), f')))"
| "flow_loop (Suc k) m dec san f =
     (case flow_scan m f of
        (None, long, f') \<Rightarrow> (Inl (if long then LineTooLong else ReadEOF), f')
      | (Some t, _, f') \<Rightarrow>
          (if dropCR t = [] then flow_loop k m dec san f'
           else case dec (dropCR t) of None \<Rightarrow> (Inl MalformedFrame, f') | Some v \<Rightarrow> (Inr (san v), f')))"

primrec flow_frames :: "nat \<Rightarrow> nat \<Rightarrow> (bytes \<Rightarrow> 'a option) \<Rightarrow> ('a \<Rightarrow> 'a) \<Rightarrow> flow \<Rightarrow> (read_error + 'a) list" where
  "flow_frames 0 m dec san f = []"
| "flow_frames (Suc n) m dec san f =
     (case flow_loop maxBlankLines m dec san f of (x, f') \<Rightarrow> x # flow_frames n m dec san f')"

section \<open>Quiet connections\<close>

definition sent :: "conn \<Rightarrow> bytes" where
  "sent c = concat (map fst c)"

definition quiet :: "conn \<Rightarrow> bool" where
  "quiet c \<longleftrightarrow> list_all (\<lambda>(b, e). b \<noteq> [] \<and> e = None) c"

lemma sent_simps [simp]: "sent [] = []" "sent ((b, e) # c) = b @ sent c"
  by (simp_all add: sent_def)

lemma quiet_simps [simp]: "quiet []" "quiet ((b, e) # c) \<longleftrightarrow> b \<noteq> [] \<and> e = None \<and> quiet c"
  by (simp_all add: quiet_def)

lemma quiet_read:
  assumes "quiet c" and "c \<noteq> []" and "0 < n"
  obtains b c' where "conn_read n c = (b, None, c')" "b \<noteq> []" "length b \<le> n" "sent c = b @ sent c'" "quiet c'"
    "conn_weight c' < conn_weight c"
proof -
  obtain b t where c: "c = (b, None) # t" "b \<noteq> []" "quiet t" using assms by (cases c) auto
  show thesis
  proof (cases "length b \<le> n")
    case True
    then show thesis using c by (intro that[of b t]) (auto simp: conn_read_def conn_weight_def)
  next
    case False
    then show thesis using c assms(3) by (intro that[of "take n b" "(drop n b, None) # t"]) (auto simp: conn_read_def conn_weight_def)
  qed
qed

lemma quiet_fill:
  assumes "quiet c" and "c \<noteq> []" and "0 < n"
  obtains b c' where "fill k n c = (b, None, c')" "b \<noteq> []" "length b \<le> n" "sent c = b @ sent c'" "quiet c'"
    "conn_weight c' < conn_weight c"
proof -
  obtain b c' where r: "conn_read n c = (b, None, c')" "b \<noteq> []" "length b \<le> n" "sent c = b @ sent c'" "quiet c'"
    "conn_weight c' < conn_weight c"
    by (rule quiet_read[OF assms])
  then show thesis by (intro that[of b c']) (cases k; simp)+
qed

lemma fill_end: "fill k n [] = ([], Some EndOfFile, [])"
  by (cases k) (simp_all add: conn_read_def)

section \<open>The scanner refines the contract\<close>

definition stream :: "reader \<Rightarrow> bytes" where
  "stream r = sc_data (rd_scan r) @ sent (rd_conn r)"

definition buffered :: "nat \<Rightarrow> scanner \<Rightarrow> bool" where
  "buffered m s \<longleftrightarrow> sc_max s = m \<and> 65536 \<le> sc_size s \<and> sc_size s \<le> capacity m \<and> sc_start s + length (sc_data s) \<le> sc_size s"

fun represents :: "nat \<Rightarrow> reader \<Rightarrow> flow \<Rightarrow> bool" where
  "represents m r (Flow s) \<longleftrightarrow>
     buffered m (rd_scan r) \<and> quiet (rd_conn r) \<and> stream r = s \<and>
     (sc_err (rd_scan r) = None \<or>
      sc_err (rd_scan r) = Some (ScanIO EndOfFile) \<and> rd_conn r = [] \<and> length (sc_data (rd_scan r)) < capacity m)"
| "represents m r (Stuck s) \<longleftrightarrow>
     sc_max (rd_scan r) = m \<and> sc_err (rd_scan r) = Some ErrTooLong \<and> sc_data (rd_scan r) = s \<and> newline \<notin> set s"

lemma new_represents: "quiet c \<Longrightarrow> represents m (newReader m c) (Flow (sent c))"
  by (simp add: newReader_def newScanner_def buffered_def stream_def capacity_def)

lemma index_none: "indexOf s [c] = None \<longleftrightarrow> c \<notin> set s"
  by (induction s) (auto simp: hasPrefix_def)

lemma index_at: "c \<notin> set l \<Longrightarrow> indexOf (l @ c # t) [c] = Some (length l)"
  by (induction l) (auto simp: hasPrefix_def)

lemma index_some: "indexOf s [c] = Some i \<Longrightarrow> \<exists>t. s = take i s @ c # t \<and> c \<notin> set (take i s) \<and> i < length s"
proof (induction s arbitrary: i)
  case (Cons d s)
  show ?case
  proof (cases "d = c")
    case False
    then obtain j where j: "indexOf s [c] = Some j" "i = Suc j" using Cons.prems by (auto simp: hasPrefix_def)
    then show ?thesis using Cons.IH[OF j(1)] False by auto
  qed (use Cons.prems in \<open>auto simp: hasPrefix_def\<close>)
qed simp

lemma scan_lines_at:
  assumes "newline \<notin> set l"
  shows "scanLines (l @ newline # t) b = Some (length l + 1, dropCR l)"
  using index_at[OF assms] by (simp add: scanLines_def)

lemma scan_lines_none: "newline \<notin> set s \<Longrightarrow> scanLines s False = None"
  using index_none[of s newline] by (simp add: scanLines_def)

lemma scan_lines_end: "newline \<notin> set s \<Longrightarrow> scanLines s True = (if s = [] then None else Some (length s, dropCR s))"
  using index_none[of s newline] by (simp add: scanLines_def)

lemma flow_line:
  assumes "newline \<notin> set l" and "length l < capacity m"
  shows "flow_scan m (Flow (l @ newline # t)) = (Some (dropCR l), False, Flow t)"
proof -
  have "take (capacity m) (l @ newline # t) = l @ newline # take (capacity m - length l - 1) t"
    using assms(2) by (simp add: take_Cons')
  then show ?thesis using index_at[OF assms(1)] by simp
qed

lemma flow_end:
  assumes "newline \<notin> set s" and "length s < capacity m"
  shows "flow_scan m (Flow s) = (if s = [] then (None, False, Flow []) else (Some (dropCR s), False, Flow []))"
proof -
  have "indexOf (take (capacity m) s) [newline] = None" using assms(1) by (auto simp: index_none dest: in_set_takeD)
  then show ?thesis using assms(2) by simp
qed

lemma flow_long:
  assumes "newline \<notin> set x" and "length x = capacity m"
  shows "flow_scan m (Flow (x @ t)) = (None, True, Stuck x)"
proof -
  have "indexOf (take (capacity m) (x @ t)) [newline] = None" using assms by (simp add: index_none)
  then show ?thesis using assms(2) by simp
qed

text \<open>What one scan has to do for the flow it represents.\<close>

definition scanned :: "nat \<Rightarrow> reader \<Rightarrow> flow \<Rightarrow> bool" where
  "scanned m r f \<longleftrightarrow>
     (case (scan r, flow_scan m f) of
        ((t, r'), (t', long, f')) \<Rightarrow>
          t = t' \<and> represents m r' f' \<and>
          (t = None \<longrightarrow> scan_err (rd_scan r') = (if long then Some ErrTooLong else None)))"

lemma capacity_pos: "0 < capacity m"
  by (simp add: capacity_def)

lemma scan_token:
  assumes "buffered m (rd_scan r)" and "quiet (rd_conn r)" and "sc_data (rd_scan r) = l @ newline # t" and "newline \<notin> set l"
    and e: "sc_err (rd_scan r) = None \<or> sc_err (rd_scan r) = Some (ScanIO EndOfFile) \<and> rd_conn r = []"
  shows "scanned m r (Flow (stream r))"
proof -
  let ?s = "rd_scan r"
  let ?r = "r\<lparr>rd_scan := ?s\<lparr>sc_data := t, sc_start := sc_start ?s + (length l + 1)\<rparr>\<rparr>"
  have l: "length l < capacity m" and cap: "length t < capacity m" using assms(1,3) by (auto simp: buffered_def)
  have "scan r = (Some (dropCR l), ?r)"
    using scan_lines_at[OF assms(4)] assms(3) by (subst scan.simps) (simp add: Let_def)
  moreover have "flow_scan m (Flow (stream r)) = (Some (dropCR l), False, Flow (t @ sent (rd_conn r)))"
    using flow_line[OF assms(4) l] assms(3) by (simp add: stream_def)
  moreover have "represents m ?r (Flow (t @ sent (rd_conn r)))"
    using assms(1,2,3) e cap by (auto simp: buffered_def stream_def)
  ultimately show ?thesis by (simp add: scanned_def)
qed

lemma scan_eof:
  assumes "represents m r (Flow s)" and "sc_err (rd_scan r) = Some (ScanIO EndOfFile)"
  shows "scanned m r (Flow s)"
proof -
  have f: "buffered m (rd_scan r)" "rd_conn r = []" "sc_data (rd_scan r) = s" "length s < capacity m"
    using assms by (auto simp: stream_def)
  show ?thesis
  proof (cases "newline \<in> set s")
    case True
    then obtain l t where "s = l @ newline # t" "newline \<notin> set l" using split_list_first by fastforce
    then show ?thesis using scan_token[of m r l t] f assms(2) by (simp add: stream_def)
  next
    case False
    have "scan r = (if s = [] then (None, r\<lparr>rd_scan := (rd_scan r)\<lparr>sc_data := [], sc_start := 0\<rparr>\<rparr>)
        else (Some (dropCR s), r\<lparr>rd_scan := (rd_scan r)\<lparr>sc_data := [], sc_start := sc_start (rd_scan r) + length s\<rparr>\<rparr>))"
      using scan_lines_end[OF False] f assms(2) by (subst scan.simps) (simp add: Let_def)
    then show ?thesis
      using flow_end[OF False f(4)] f assms(2) capacity_pos[of m]
      by (auto simp: scanned_def buffered_def stream_def scan_err_def)
  qed
qed

lemma grown_room:
  assumes "buffered m s" and "grown (shifted s) = Some g"
  shows "buffered m g \<and> sc_data g = sc_data s \<and> 0 < room g \<and> sc_err g = sc_err s"
proof -
  have sh: "buffered m (shifted s)" "sc_data (shifted s) = sc_data s" "sc_err (shifted s) = sc_err s"
      "sc_start (shifted s) + length (sc_data s) = sc_size (shifted s) \<Longrightarrow> sc_start (shifted s) = 0"
    using assms(1) by (auto simp: shifted_def buffered_def)
  show ?thesis
  proof (cases "sc_start (shifted s) + length (sc_data (shifted s)) = sc_size (shifted s)")
    case True
    then have g: "g = (shifted s)\<lparr>sc_start := 0, sc_size := min (sc_size (shifted s) * 2) (sc_max (shifted s))\<rparr>"
      and m: "sc_size (shifted s) < sc_max (shifted s)" using assms(2) by (auto simp: grown_def split: if_splits)
    show ?thesis using sh m True unfolding g by (auto simp: buffered_def room_def capacity_def)
  next
    case False
    then have "g = shifted s" using assms(2) by (simp add: grown_def)
    then show ?thesis using sh False by (auto simp: buffered_def room_def)
  qed
qed

lemma grown_none:
  assumes "buffered m s" and "grown (shifted s) = None"
  shows "length (sc_data s) = capacity m"
  using assms by (auto simp: grown_def shifted_def buffered_def capacity_def split: if_splits)

lemma scan_flow: "represents m r (Flow s) \<Longrightarrow> scanned m r (Flow s)"
proof (induction "conn_weight (rd_conn r)" arbitrary: r rule: less_induct)
  case less
  let ?s = "rd_scan r"
  show ?case
  proof (cases "sc_err ?s = None")
    case False
    then show ?thesis using scan_eof[OF less.prems] less.prems by auto
  next
    case None: True
    have f: "buffered m ?s" "quiet (rd_conn r)" "s = sc_data ?s @ sent (rd_conn r)" using less.prems by (auto simp: stream_def)
    show ?thesis
    proof (cases "newline \<in> set (sc_data ?s)")
      case True
      then obtain l t where "sc_data ?s = l @ newline # t" "newline \<notin> set l" using split_list_first by fastforce
      then show ?thesis using scan_token[of m r l t] f None by (simp add: stream_def)
    next
      case False
      have tok: "(if sc_data ?s \<noteq> [] \<or> sc_err ?s \<noteq> None then scanLines (sc_data ?s) (sc_err ?s \<noteq> None) else None) = None"
        using scan_lines_none[OF False] None by simp
      show ?thesis
      proof (cases "grown (shifted ?s)")
        case N: None
        have "scan r = (None, r\<lparr>rd_scan := (shifted ?s)\<lparr>sc_err := Some ErrTooLong\<rparr>\<rparr>)"
          using tok None N by (subst scan.simps) (simp add: Let_def)
        moreover have "flow_scan m (Flow s) = (None, True, Stuck (sc_data ?s))"
          using flow_long[OF False grown_none[OF f(1) N]] f(3) by simp
        moreover have "sc_max (shifted ?s) = m" "sc_data (shifted ?s) = sc_data ?s" using f(1) by (auto simp: shifted_def buffered_def)
        ultimately show ?thesis using False by (simp add: scanned_def scan_err_def)
      next
        case (Some g)
        have g: "buffered m g" "sc_data g = sc_data ?s" "0 < room g" "sc_err g = None"
          using grown_room[OF f(1) Some] None by auto
        obtain b e c where b: "fill maxConsecutiveEmptyReads (room g) (rd_conn r) = (b, e, c)" by (metis prod_cases3)
        let ?r = "\<lparr>rd_scan = g\<lparr>sc_data := sc_data g @ b, sc_err := note_error e\<rparr>, rd_conn = c\<rparr>"
        have step: "scan r = scan ?r"
          using tok None Some b by (subst scan.simps) (simp add: Let_def)
        have "scanned m ?r (Flow s)"
        proof (cases "rd_conn r = []")
          case True
          then have e: "b = []" "e = Some EndOfFile" "c = []" using b fill_end by auto
          have "represents m ?r (Flow s)" using g f True e by (auto simp: buffered_def stream_def note_error_def room_def)
          then show ?thesis by (rule scan_eof) (simp add: e note_error_def)
        next
          case ne: False
          have q: "e = None" "length b \<le> room g" "sent (rd_conn r) = b @ sent c" "quiet c" "conn_weight c < conn_weight (rd_conn r)"
            using quiet_fill[OF f(2) ne g(3), of maxConsecutiveEmptyReads] b by (metis prod.inject)+
          have "represents m ?r (Flow s)" using g f q by (auto simp: buffered_def stream_def note_error_def room_def)
          then show ?thesis using less.hyps[of ?r] q(5) by simp
        qed
        then show ?thesis by (simp add: scanned_def step)
      qed
    qed
  qed
qed

lemma scan_stuck:
  assumes "represents m r (Stuck s)"
  shows "scanned m r (Stuck s)"
proof -
  have f: "sc_err (rd_scan r) = Some ErrTooLong" "sc_data (rd_scan r) = s" "newline \<notin> set s" "sc_max (rd_scan r) = m"
    using assms by auto
  have "scan r = (if s = [] then (None, r\<lparr>rd_scan := (rd_scan r)\<lparr>sc_data := [], sc_start := 0\<rparr>\<rparr>)
      else (Some (dropCR s), r\<lparr>rd_scan := (rd_scan r)\<lparr>sc_data := [], sc_start := sc_start (rd_scan r) + length s\<rparr>\<rparr>))"
    using scan_lines_end[OF f(3)] f by (subst scan.simps) (simp add: Let_def)
  then show ?thesis using f by (auto simp: scanned_def scan_err_def)
qed

lemma scan_refines: "represents m r f \<Longrightarrow> scanned m r f"
  by (cases f) (auto intro: scan_flow scan_stuck)

section \<open>Reading\<close>

lemma read_loop_refines:
  assumes "represents m r f"
  shows "\<exists>r'. read_loop k dec san r = (fst (flow_loop k m dec san f), r') \<and> represents m r' (snd (flow_loop k m dec san f))"
  using assms
proof (induction k arbitrary: r f)
  case 0
  obtain t r' where s: "scan r = (t, r')" by (cases "scan r")
  obtain long f' where f: "flow_scan m f = (t, long, f')" and r: "represents m r' f'"
      "t = None \<Longrightarrow> scan_err (rd_scan r') = (if long then Some ErrTooLong else None)"
    using scan_refines[OF "0.prems"] by (auto simp: scanned_def s split: prod.splits)
  show ?case using s f r by (cases t) (auto simp: Let_def split: option.splits)
next
  case (Suc k)
  obtain t r' where s: "scan r = (t, r')" by (cases "scan r")
  obtain long f' where f: "flow_scan m f = (t, long, f')" and r: "represents m r' f'"
      "t = None \<Longrightarrow> scan_err (rd_scan r') = (if long then Some ErrTooLong else None)"
    using scan_refines[OF Suc.prems] by (auto simp: scanned_def s split: prod.splits)
  show ?case using s f r Suc.IH[OF r(1)] by (cases t) (auto simp: Let_def split: option.splits)
qed

lemma read_frames_refines: "represents m r f \<Longrightarrow> fst (read_frames n dec san r) = flow_frames n m dec san f"
proof (induction n arbitrary: r f)
  case (Suc n)
  obtain r' where "read_frame dec san r = (fst (flow_loop maxBlankLines m dec san f), r')"
      "represents m r' (snd (flow_loop maxBlankLines m dec san f))"
    using read_loop_refines[OF Suc.prems] unfolding read_frame_def by blast
  then show ?case using Suc.IH[of r' "snd (flow_loop maxBlankLines m dec san f)"] by (auto split: prod.splits)
qed simp

section \<open>Written frames\<close>

definition outcome :: "(bytes \<Rightarrow> 'a option) \<Rightarrow> ('a \<Rightarrow> 'a) \<Rightarrow> bytes \<Rightarrow> read_error + 'a" where
  "outcome dec san l = (case dec l of None \<Rightarrow> Inl MalformedFrame | Some v \<Rightarrow> Inr (san v))"

definition frame_line :: "nat \<Rightarrow> bytes \<Rightarrow> bool" where
  "frame_line m l \<longleftrightarrow> l \<noteq> [] \<and> printable l \<and> length l < capacity m"

lemma printable_line: "printable l \<Longrightarrow> newline \<notin> set l \<and> dropCR l = l"
proof -
  assume p: "printable l"
  have "newline \<notin> set l" using p by (auto simp: printable_def list_all_iff newline_def)
  moreover have "last l \<noteq> CHR 0x0D" if "l \<noteq> []"
    using p last_in_set[OF that] by (force simp: printable_def list_all_iff)
  ultimately show ?thesis by (auto simp: dropCR_def)
qed

lemma flow_frame:
  assumes "frame_line m l"
  shows "flow_loop k m dec san (Flow (l @ newline # t)) = (outcome dec san l, Flow t)"
proof -
  have "flow_scan m (Flow (l @ newline # t)) = (Some l, False, Flow t)"
    using flow_line[of l m t] printable_line[of l] assms by (simp add: frame_line_def del: flow_scan.simps)
  then show ?thesis
    using printable_line[of l] assms
    by (cases k) (auto simp: frame_line_def outcome_def simp del: flow_scan.simps split: option.splits)
qed

lemma flow_frames_lines:
  "list_all (frame_line m) ls \<Longrightarrow>
     flow_frames (length ls + n) m dec san (Flow (concat (map (\<lambda>l. l @ [newline]) ls) @ t)) =
     map (outcome dec san) ls @ flow_frames n m dec san (Flow t)"
proof (induction ls)
  case (Cons l ls)
  then show ?case using flow_frame[of m l maxBlankLines dec san] by simp
qed simp

lemma render_line:
  assumes "fits d j" and "write_frame m j = Inr b"
  shows "b = render j @ [newline] \<and> frame_line m (render j)"
proof -
  have "opens (render j @ [])" by (rule render_opens[OF assms(1)])
  then have "render j \<noteq> []" by (auto simp: opens_def)
  then show ?thesis
    using assms printable_render[OF assms(1)] by (auto simp: write_frame_def Let_def frame_line_def capacity_def split: if_splits)
qed

section \<open>Draining\<close>

lemma quiet_append [simp]: "quiet (a @ b) \<longleftrightarrow> quiet a \<and> quiet b"
  by (simp add: quiet_def)

lemma fill_quiet:
  assumes "quiet ((y, e) # a)" and "0 < n"
  shows "fill k n ((y, e) # a @ c) = (take n y, None, (if length y \<le> n then a else (drop n y, None) # a) @ c)"
  using assms by (cases k) (auto simp: conn_read_def)

lemma take_drop_rest: "take n z @ drop n z @ w = z @ w"
  by (simp add: append_assoc[symmetric] del: append_assoc)

text \<open>
  A line too long fills the buffer: of the reads \<open>a\<close> that bring it, however they cut it, what does not
  fit is still on the connection.
\<close>

lemma scan_long:
  "buffered m (rd_scan r) \<Longrightarrow> sc_err (rd_scan r) = None \<Longrightarrow> rd_conn r = a @ c \<Longrightarrow> quiet a \<Longrightarrow>
     sc_data (rd_scan r) @ sent a = x @ y \<Longrightarrow> length x = capacity m \<Longrightarrow> newline \<notin> set x \<Longrightarrow>
     \<exists>r' a'. scan r = (None, r') \<and> rd_conn r' = a' @ c \<and> quiet a' \<and> sent a' = y \<and> sc_max (rd_scan r') = m \<and>
       sc_err (rd_scan r') = Some ErrTooLong"
proof (induction "conn_weight (rd_conn r)" arbitrary: r a rule: less_induct)
  case less
  let ?s = "rd_scan r"
  have le: "length (sc_data ?s) \<le> length x" using less.prems(1,6) by (simp add: buffered_def)
  then have px: "x = sc_data ?s @ drop (length (sc_data ?s)) x"
    using less.prems(5) by (metis append_eq_append_conv_if append_take_drop_id)
  then have nl: "newline \<notin> set (sc_data ?s)" using less.prems(7) by (metis Un_iff set_append)
  have tok: "(if sc_data ?s \<noteq> [] \<or> sc_err ?s \<noteq> None then scanLines (sc_data ?s) (sc_err ?s \<noteq> None) else None) = None"
    using scan_lines_none[OF nl] less.prems(2) by simp
  show ?case
  proof (cases "grown (shifted ?s)")
    case None
    then have "length (sc_data ?s) = capacity m" by (rule grown_none[OF less.prems(1)])
    then have y: "sent a = y" using less.prems(5,6) by (simp add: append_eq_append_conv)
    have "scan r = (None, r\<lparr>rd_scan := (shifted ?s)\<lparr>sc_err := Some ErrTooLong\<rparr>\<rparr>)"
      using tok None less.prems(2) by (subst scan.simps) (simp add: Let_def)
    moreover have "sc_max (shifted ?s) = m" using less.prems(1) by (simp add: buffered_def shifted_def)
    ultimately show ?thesis using y less.prems(3,4) by auto
  next
    case (Some g)
    note g = grown_room[OF less.prems(1) Some]
    have "length (sc_data ?s) < capacity m" using g by (auto simp: buffered_def room_def)
    then have "sent a \<noteq> []" using less.prems(5,6) by auto
    then obtain z a2 where a: "a = (z, None) # a2" "z \<noteq> []" "quiet a2" using less.prems(4) by (cases a) auto
    let ?a = "(if length z \<le> room g then a2 else (drop (room g) z, None) # a2)"
    let ?r = "\<lparr>rd_scan = g\<lparr>sc_data := sc_data g @ take (room g) z, sc_err := None\<rparr>, rd_conn = ?a @ c\<rparr>"
    have "scan r = scan ?r"
      using tok Some less.prems(2,3,4) g fill_quiet[of z None a2 "room g" maxConsecutiveEmptyReads c] a(1)
      by (subst scan.simps) (simp add: Let_def note_error_def)
    moreover have "\<exists>r' a'. scan ?r = (None, r') \<and> rd_conn r' = a' @ c \<and> quiet a' \<and> sent a' = y \<and> sc_max (rd_scan r') = m \<and>
       sc_err (rd_scan r') = Some ErrTooLong"
    proof (rule less.hyps[of _ ?a])
      show "conn_weight (rd_conn ?r) < conn_weight (rd_conn r)"
        using a g by (auto simp: less.prems(3) conn_weight_def)
      show "buffered m (rd_scan ?r)" using g by (auto simp: buffered_def room_def)
      show "sc_data (rd_scan ?r) @ sent ?a = x @ y" using less.prems(5) a(1) g by (simp add: take_drop_rest)
      show "quiet ?a" using a g by auto
    qed (use less.prems in simp_all)
    ultimately show ?thesis by simp
  qed
qed

lemma read_long:
  assumes "quiet a" and "sent a = x @ y" and "length x = capacity m" and "newline \<notin> set x"
  shows "\<exists>r a'. read_frame dec san (newReader m (a @ c)) = (Inl LineTooLong, r) \<and> rd_conn r = a' @ c \<and> quiet a' \<and> sent a' = y \<and>
     sc_max (rd_scan r) = m"
proof -
  have "buffered m (rd_scan (newReader m (a @ c)))" by (simp add: newReader_def newScanner_def buffered_def capacity_def)
  then obtain r a' where r: "scan (newReader m (a @ c)) = (None, r)" "rd_conn r = a' @ c" "quiet a'" "sent a' = y"
      "sc_max (rd_scan r) = m" "sc_err (rd_scan r) = Some ErrTooLong"
    using scan_long[of m "newReader m (a @ c)" a c x y] assms by (auto simp: newReader_def newScanner_def)
  then show ?thesis by (simp add: read_frame_def maxBlankLines_def numeral_eq_Suc scan_err_def)
qed

text \<open>The rest of the line is read and thrown away up to its newline, which ends the last of the reads.\<close>

lemma drain_line:
  "rd_conn r = a @ c \<Longrightarrow> quiet a \<Longrightarrow> sent a = t @ [newline] \<Longrightarrow> newline \<notin> set t \<Longrightarrow> n + length t \<le> maxDrainOverlong \<Longrightarrow>
     drain_loop n r = (None, newReader (sc_max (rd_scan r)) c)"
proof (induction "length t" arbitrary: r a t n rule: less_induct)
  case less
  obtain z a2 where a: "a = (z, None) # a2" "z \<noteq> []" "quiet a2" using less.prems(2,3) by (cases a) auto
  obtain b d where rd: "conn_read 32768 (rd_conn r) = (b, None, d @ c)" "b \<noteq> []" "b @ sent d = t @ [newline]" "quiet d"
  proof (cases "length z \<le> 32768")
    case True
    then show ?thesis using that[of z a2] less.prems(1,3) a by (simp add: conn_read_def)
  next
    case False
    then show ?thesis using that[of "take 32768 z" "(drop 32768 z, None) # a2"] less.prems(1,3) a
      by (simp add: conn_read_def take_drop_rest)
  qed
  show ?case
  proof (cases "sent d = []")
    case True
    then have "d = []" using rd(4) by (cases d) auto
    moreover have "newline \<in> set b" using rd(3) True by simp
    ultimately show ?thesis using rd(1)
      by (subst drain_loop.simps) (simp add: Let_def resetScanner_def newReader_def)
  next
    case False
    then obtain u z' where u': "sent d = u @ [z']" by (cases "sent d" rule: rev_cases) auto
    then have "(b @ u) @ [z'] = t @ [newline]" using rd(3) by simp
    then have u: "sent d = u @ [newline]" "t = b @ u" using u' unfolding append1_eq_conv by simp_all
    have nl: "newline \<notin> set b" "newline \<notin> set u" using less.prems(4) unfolding u(2) by simp_all
    have lt: "length t = length b + length u" unfolding u(2) by (rule length_append)
    have "length u < length t" using rd(2) lt by (cases b) simp_all
    moreover have "n + length b + length u \<le> maxDrainOverlong" using less.prems(5) lt by linarith
    ultimately have "drain_loop (n + length b) (r\<lparr>rd_conn := d @ c\<rparr>) = (None, newReader (sc_max (rd_scan r)) c)"
      using less.hyps[of u "r\<lparr>rd_conn := d @ c\<rparr>" d "n + length b"] rd(4) u(1) nl(2) by simp
    moreover have "\<not> maxDrainOverlong < n + length b" using less.prems(5) lt by linarith
    ultimately show ?thesis using rd(1) nl(1) by (subst drain_loop.simps) (simp add: Let_def)
  qed
qed

end
