(* ===== verification/Proto_Shell.thy ===== *)
theory Proto_Shell
  imports Proto_Framing Json_Local
begin

text \<open>
  The shell channel (\<open>internal/proto/shell.go\<close>: a kind, a big-endian length, a payload) and the
  handshake of the forward channel (\<open>internal/proto/forward.go\<close>), over the same connections.
\<close>

section \<open>Shell frames\<close>

definition ShellData :: char where "ShellData = CHR 0x01"
definition ShellControl :: char where "ShellControl = CHR 0x02"
definition MaxShellFrame :: nat where "MaxShellFrame = 2 ^ 20"

datatype full_error = FullIO io_error | UnexpectedEOF

datatype shell_error = ShellIO full_error | ShellTooLong nat | UnknownShellKind

text \<open>\<open>PutUint32\<close> of the length converted to 32 bits, and \<open>Uint32\<close>.\<close>

definition put_be32 :: "nat \<Rightarrow> bytes" where
  "put_be32 n = [char_of (n div 16777216 mod 256), char_of (n div 65536 mod 256), char_of (n div 256 mod 256), char_of (n mod 256)]"

definition be32 :: "bytes \<Rightarrow> nat" where
  "be32 s = foldl (\<lambda>a c. a * 256 + byte c) 0 s"

definition writeShellFrame :: "char \<Rightarrow> bytes \<Rightarrow> shell_error + bytes" where
  "writeShellFrame k p =
     (if MaxShellFrame < length p then Inl (ShellTooLong (length p))
      else let head = k # put_be32 (length p) in
           if p = [] then Inr head else Inr (head @ p))"

definition writeShellControl :: "json \<Rightarrow> shell_error + bytes" where
  "writeShellControl v = writeShellFrame ShellControl (render v)"

text \<open>\<open>io.ReadFull\<close> of \<open>n\<close> bytes, \<open>got\<close> of them read.\<close>

function read_full :: "nat \<Rightarrow> bytes \<Rightarrow> conn \<Rightarrow> (full_error + bytes) \<times> conn" where
  "read_full n got c =
     (if n \<le> length got then (Inr got, c)
      else case conn_read (n - length got) c of
             (b, e, c') \<Rightarrow>
               if n \<le> length (got @ b) then (Inr (got @ b), c')
               else (case e of
                       None \<Rightarrow> read_full n (got @ b) c'
                     | Some x \<Rightarrow> (Inl (if x = EndOfFile \<and> got @ b \<noteq> [] then UnexpectedEOF else FullIO x), c')))"
  by pat_completeness auto

termination
proof (relation "measure (\<lambda>(n, got, c). conn_weight c)", goal_cases)
  case 2
  then show ?case by (auto simp: conn_read_def conn_weight_def split: list.splits prod.splits if_splits)
qed simp

declare read_full.simps [simp del]

definition readShellFrame :: "conn \<Rightarrow> (shell_error + char \<times> bytes) \<times> conn" where
  "readShellFrame c =
     (case read_full 5 [] c of
        (Inl e, c1) \<Rightarrow> (Inl (ShellIO e), c1)
      | (Inr head, c1) \<Rightarrow>
          (let n = be32 (tl head) in
           if MaxShellFrame < n then (Inl (ShellTooLong n), c1)
           else if hd head \<noteq> ShellData \<and> hd head \<noteq> ShellControl then (Inl UnknownShellKind, c1)
           else if n = 0 then (Inr (hd head, []), c1)
           else (case read_full n [] c1 of
                   (Inl e, c2) \<Rightarrow> (Inl (ShellIO e), c2)
                 | (Inr buf, c2) \<Rightarrow> (Inr (hd head, buf), c2))))"

primrec readShellFrames :: "nat \<Rightarrow> conn \<Rightarrow> (shell_error + char \<times> bytes) list" where
  "readShellFrames 0 c = []"
| "readShellFrames (Suc n) c = (case readShellFrame c of (x, c') \<Rightarrow> x # readShellFrames n c')"

lemma be32_put: "n < 2 ^ 32 \<Longrightarrow> be32 (put_be32 n) = n"
proof -
  assume n: "n < 2 ^ 32"
  have "n = n div 256 * 256 + n mod 256" "n div 256 = n div 65536 * 256 + n div 256 mod 256"
    "n div 65536 = n div 16777216 * 256 + n div 65536 mod 256"
    using div_mult_mod_eq[of n 256] div_mult_mod_eq[of "n div 256" 256] div_mult_mod_eq[of "n div 65536" 256]
    by (simp_all add: div_mult2_eq[symmetric])
  moreover have "n div 16777216 < 256" using n by (intro less_mult_imp_div_less) simp
  ultimately show ?thesis by (simp add: be32_def put_be32_def)
qed

lemma read_full_quiet:
  "quiet c \<Longrightarrow> length got \<le> n \<Longrightarrow> n \<le> length got + length (sent c) \<Longrightarrow>
     \<exists>c'. read_full n got c = (Inr (got @ take (n - length got) (sent c)), c') \<and> quiet c' \<and> sent c' = drop (n - length got) (sent c)"
proof (induction "conn_weight c" arbitrary: c got rule: less_induct)
  case less
  show ?case
  proof (cases "n \<le> length got")
    case True
    then show ?thesis using less.prems by (subst read_full.simps) simp
  next
    case False
    have "c \<noteq> []" using False less.prems(3) by auto
    then obtain b c' where r: "conn_read (n - length got) c = (b, None, c')" "length b \<le> n - length got"
        "sent c = b @ sent c'" "quiet c'" "conn_weight c' < conn_weight c"
      using quiet_read[OF less.prems(1)] False by (metis diff_is_0_eq less_nat_zero_code linorder_neqE_nat)
    show ?thesis
    proof (cases "n \<le> length (got @ b)")
      case True
      then show ?thesis using False r by (subst read_full.simps) simp
    next
      case F: False
      have "\<exists>c''. read_full n (got @ b) c' = (Inr ((got @ b) @ take (n - length (got @ b)) (sent c')), c'') \<and> quiet c'' \<and>
          sent c'' = drop (n - length (got @ b)) (sent c')"
        using less.prems r F by (intro less.hyps) auto
      then show ?thesis using False F r by (subst read_full.simps) simp
    qed
  qed
qed

lemma read_full_end: "0 < n \<Longrightarrow> read_full n [] [] = (Inl (FullIO EndOfFile), [])"
  by (subst read_full.simps) (simp add: conn_read_def)

lemma read_full_length: "read_full n got c = (Inr s, c') \<Longrightarrow> length got \<le> n \<Longrightarrow> length s = n"
proof (induction n got c rule: read_full.induct)
  case (1 n got c)
  obtain b e c1 where r: "conn_read (n - length got) c = (b, e, c1)" by (metis prod_cases3)
  have b: "length b \<le> n - length got" using r by (auto simp: conn_read_def split: list.splits prod.splits if_splits)
  show ?case
    using "1.prems" "1.IH"[OF _ r[symmetric] refl] r b
    by (subst (asm) read_full.simps) (auto split: if_splits option.splits)
qed

definition shell_ok :: "char \<times> bytes \<Rightarrow> bool" where
  "shell_ok f \<longleftrightarrow> (fst f = ShellData \<or> fst f = ShellControl) \<and> length (snd f) \<le> MaxShellFrame"

lemma write_shell:
  "shell_ok f \<Longrightarrow> writeShellFrame (fst f) (snd f) = Inr (fst f # put_be32 (length (snd f)) @ snd f)"
  by (simp add: shell_ok_def writeShellFrame_def Let_def)

lemma read_shell:
  assumes ok: "shell_ok f" and q: "quiet c" and s: "sent c = fst f # put_be32 (length (snd f)) @ snd f @ t"
  shows "\<exists>c'. readShellFrame c = (Inr f, c') \<and> quiet c' \<and> sent c' = t"
proof -
  let ?h = "fst f # put_be32 (length (snd f))"
  have hl: "length ?h = 5" by (simp add: put_be32_def)
  have sh: "sent c = ?h @ (snd f @ t)" using s by simp
  have tk: "take 5 (sent c) = ?h" "drop 5 (sent c) = snd f @ t" "5 \<le> length (sent c)"
    unfolding sh using hl by (metis append_eq_conv_conj, metis append_eq_conv_conj, simp)
  obtain c1 where c1: "read_full 5 [] c = (Inr ?h, c1)" "quiet c1" "sent c1 = snd f @ t"
    using read_full_quiet[OF q, of "[]" 5] tk by auto
  have n: "be32 (put_be32 (length (snd f))) = length (snd f)"
    using ok by (intro be32_put) (simp add: shell_ok_def MaxShellFrame_def)
  have k: "hd ?h = fst f" "tl ?h = put_be32 (length (snd f))" by simp_all
  show ?thesis
  proof (cases "snd f = []")
    case True
    have "readShellFrame c = (Inr (fst f, []), c1)"
      using ok True n unfolding readShellFrame_def c1(1) by (auto simp: shell_ok_def Let_def)
    then show ?thesis using c1 True by (metis append_Nil prod.collapse)
  next
    case False
    obtain c2 where c2: "read_full (length (snd f)) [] c1 = (Inr (snd f), c2)" "quiet c2" "sent c2 = t"
      using read_full_quiet[OF c1(2), of "[]" "length (snd f)"] c1(3) by auto
    have "readShellFrame c = (Inr (fst f, snd f), c2)"
      using ok False n c2(1) unfolding readShellFrame_def c1(1) by (auto simp: shell_ok_def Let_def)
    then show ?thesis using c2 by simp
  qed
qed

lemma read_shells:
  "list_all shell_ok fs \<Longrightarrow> quiet c \<Longrightarrow> sent c = concat (map (\<lambda>f. fst f # put_be32 (length (snd f)) @ snd f) fs) \<Longrightarrow>
     readShellFrames (length fs + 1) c = map Inr fs @ [Inl (ShellIO (FullIO EndOfFile))]"
proof (induction fs arbitrary: c)
  case Nil
  have "c = []" using Nil.prems(2,3) by (cases c) auto
  then show ?case by (simp add: readShellFrame_def read_full_end)
next
  case (Cons f fs)
  obtain c' where "readShellFrame c = (Inr f, c')" "quiet c'" "sent c' = concat (map (\<lambda>f. fst f # put_be32 (length (snd f)) @ snd f) fs)"
    using read_shell[of f c] Cons.prems by auto
  then show ?case using Cons.IH[of c'] Cons.prems(1) by simp
qed

section \<open>The forward handshake\<close>

text \<open>\<open>bufio.Reader\<close>: the unread part of its buffer, the buffer's length, the error met.\<close>

record bufreader =
  br_data :: bytes
  br_size :: nat
  br_err :: "io_error option"
  br_conn :: conn

definition newBufReader :: "conn \<Rightarrow> bufreader" where
  "newBufReader c = \<lparr>br_data = [], br_size = 4096, br_err = None, br_conn = c\<rparr>"

datatype slice_error = SliceIO io_error | BufferFull

text \<open>\<open>ReadSlice\<close> of a line: what it returns, and how it ended.\<close>

function read_slice :: "bufreader \<Rightarrow> (bytes \<times> slice_error option) \<times> bufreader" where
  "read_slice r =
     (case indexOf (br_data r) [newline] of
        Some i \<Rightarrow> ((take (i + 1) (br_data r), None), r\<lparr>br_data := drop (i + 1) (br_data r)\<rparr>)
      | None \<Rightarrow>
          (case br_err r of
             Some e \<Rightarrow> ((br_data r, Some (SliceIO e)), r\<lparr>br_data := [], br_err := None\<rparr>)
           | None \<Rightarrow>
               if br_size r \<le> length (br_data r) then ((br_data r, Some BufferFull), r\<lparr>br_data := []\<rparr>)
               else (case fill (maxConsecutiveEmptyReads - 1) (br_size r - length (br_data r)) (br_conn r) of
                       (b, e, c) \<Rightarrow> read_slice (r\<lparr>br_data := br_data r @ b, br_err := e, br_conn := c\<rparr>))))"
  by pat_completeness auto

termination
proof (relation "measure (\<lambda>r. if br_err r = None then Suc (conn_weight (br_conn r)) else 0)", goal_cases)
  case 2
  show ?case using fill_weight[OF 2(4)[symmetric, folded 2(5)]] 2(2) by auto
qed simp

declare read_slice.simps [simp del]

definition MaxForwardLine :: nat where "MaxForwardLine = 4096"

datatype forward_error = ForwardTooLong | ForwardIO io_error | ForwardNotJSON | ForwardNotOpen string | ForwardBadPort int

definition readForwardLine :: "bufreader \<Rightarrow> (forward_error + bytes) \<times> bufreader" where
  "readForwardLine r =
     (case read_slice r of
        ((line, e), r') \<Rightarrow>
          if e = Some BufferFull \<or> MaxForwardLine < length line then (Inl ForwardTooLong, r')
          else (case e of Some (SliceIO x) \<Rightarrow> (Inl (ForwardIO x), r') | _ \<Rightarrow> (Inr line, r')))"

definition protoVersion :: int where "protoVersion = 1"

definition writeForwardOpen :: "int \<Rightarrow> bytes" where
  "writeForwardOpen port =
     render (JObj [(''v'', JNum (itoa protoVersion)), (''op'', JStr ''open''), (''port'', JNum (itoa port))]) @ [newline]"

definition set_open :: "string \<Rightarrow> json \<Rightarrow> forward_open \<Rightarrow> forward_open option" where
  "set_open k j f =
     (if k = ''v'' then map_option (\<lambda>x. f\<lparr>fo_V := x\<rparr>) (decode_num j (fo_V f))
      else if k = ''op'' then map_option (\<lambda>x. f\<lparr>fo_Op := x\<rparr>) (decode_str j (fo_Op f))
      else map_option (\<lambda>x. f\<lparr>fo_Port := x\<rparr>) (decode_num j (fo_Port f)))"

definition readForwardOpen :: "bufreader \<Rightarrow> (forward_error + forward_open) \<times> bufreader" where
  "readForwardOpen r =
     (case readForwardLine r of
        (Inl e, r') \<Rightarrow> (Inl e, r')
      | (Inr line, r') \<Rightarrow>
          (case decode_frame [''v'', ''op'', ''port''] set_open \<lparr>fo_V = 0, fo_Op = [], fo_Port = 0\<rparr> line of
             None \<Rightarrow> (Inl ForwardNotJSON, r')
           | Some f \<Rightarrow>
               if fo_Op f \<noteq> ''open'' then (Inl (ForwardNotOpen (fo_Op f)), r')
               else if fo_Port f < 1 \<or> 65535 < fo_Port f then (Inl (ForwardBadPort (fo_Port f)), r')
               else (Inr f, r')))"

definition writeForwardReply :: "string \<Rightarrow> bytes" where
  "writeForwardReply msg =
     render (JObj ([(''v'', JNum (itoa protoVersion)), (''ok'', JBool (msg = []))] @ (if msg = [] then [] else [(''error'', JStr msg)]))) @ [newline]"

definition set_reply :: "string \<Rightarrow> json \<Rightarrow> forward_reply \<Rightarrow> forward_reply option" where
  "set_reply k j f =
     (if k = ''v'' then map_option (\<lambda>x. f\<lparr>fr_V := x\<rparr>) (decode_num j (fr_V f))
      else if k = ''ok'' then map_option (\<lambda>x. f\<lparr>fr_OK := x\<rparr>) (decode_bool j (fr_OK f))
      else map_option (\<lambda>x. f\<lparr>fr_Error := x\<rparr>) (decode_str j (fr_Error f)))"

definition readForwardReply :: "(nat \<Rightarrow> bool) \<Rightarrow> bufreader \<Rightarrow> (forward_error + forward_reply) \<times> bufreader" where
  "readForwardReply uni r =
     (case readForwardLine r of
        (Inl e, r') \<Rightarrow> (Inl e, r')
      | (Inr line, r') \<Rightarrow>
          (case decode_frame [''v'', ''ok'', ''error''] set_reply \<lparr>fr_V = 0, fr_OK = False, fr_Error = []\<rparr> line of
             None \<Rightarrow> (Inl ForwardNotJSON, r')
           | Some f \<Rightarrow> (Inr (sanitizeForward uni f), r')))"

text \<open>What the reader has still to deliver to whoever copies the stream from it.\<close>

definition br_stream :: "bufreader \<Rightarrow> bytes" where
  "br_stream r = br_data r @ sent (br_conn r)"

lemma read_slice_line:
  assumes "quiet (br_conn r)" and "br_err r = None" and "length (br_data r) \<le> br_size r"
    and "br_stream r = l @ newline # t" and "newline \<notin> set l" and "length l < br_size r"
  shows "\<exists>r'. read_slice r = ((l @ [newline], None), r') \<and> br_stream r' = t"
  using assms
proof (induction "conn_weight (br_conn r)" arbitrary: r rule: less_induct)
  case less
  show ?case
  proof (cases "newline \<in> set (br_data r)")
    case True
    then obtain x y where d: "br_data r = x @ newline # y" "newline \<notin> set x" using split_list_first by fastforce
    have "x @ newline # (y @ sent (br_conn r)) = l @ newline # t" using less.prems(4) d by (simp add: br_stream_def)
    moreover have "length x = length l"
      using index_at[OF d(2), of "y @ sent (br_conn r)"] index_at[OF less.prems(5), of t] calculation by simp
    ultimately have "x = l" "y @ sent (br_conn r) = t" by simp_all
    then show ?thesis using d index_at[OF d(2)] by (subst read_slice.simps) (simp add: br_stream_def)
  next
    case False
    have short: "length (br_data r) < br_size r"
    proof (rule ccontr)
      assume "\<not> length (br_data r) < br_size r"
      then have "length l < length (br_data r)" using less.prems(3,6) by simp
      then have "(br_data r @ sent (br_conn r)) ! length l \<in> set (br_data r)" by (simp add: nth_append)
      then show False using False less.prems(4) by (simp add: br_stream_def)
    qed
    have "br_conn r \<noteq> []" using False less.prems(4) by (auto simp: br_stream_def)
    then obtain b c where b: "fill (maxConsecutiveEmptyReads - 1) (br_size r - length (br_data r)) (br_conn r) = (b, None, c)"
        "length b \<le> br_size r - length (br_data r)" "sent (br_conn r) = b @ sent c" "quiet c" "conn_weight c < conn_weight (br_conn r)"
      using quiet_fill[OF less.prems(1), of "br_size r - length (br_data r)" "maxConsecutiveEmptyReads - 1"] short
      by (metis zero_less_diff)
    let ?r = "r\<lparr>br_data := br_data r @ b, br_err := None, br_conn := c\<rparr>"
    have "\<exists>r'. read_slice ?r = ((l @ [newline], None), r') \<and> br_stream r' = t"
      using less.prems b short by (intro less.hyps) (auto simp: br_stream_def)
    moreover have "read_slice r = read_slice ?r"
      using False less.prems(2) short b(1) index_none[of "br_data r" newline] by (subst read_slice.simps) simp
    ultimately show ?thesis by simp
  qed
qed

lemma forward_line:
  assumes "quiet c" and "sent c = l @ newline # t" and "newline \<notin> set l" and "length l < MaxForwardLine"
  shows "\<exists>r'. readForwardLine (newBufReader c) = (Inr (l @ [newline]), r') \<and> br_stream r' = t"
proof -
  obtain r' where "read_slice (newBufReader c) = ((l @ [newline], None), r')" "br_stream r' = t"
    using read_slice_line[of "newBufReader c" l t] assms by (auto simp: newBufReader_def br_stream_def MaxForwardLine_def)
  then show ?thesis using assms(4) by (simp add: readForwardLine_def MaxForwardLine_def)
qed

lemma parse_with_newline:
  assumes "fits maxNestingDepth j"
  shows "json_parse (render j @ [newline]) = Some (norm j)"
proof -
  have "parse_value maxNestingDepth (render j @ []) = Some (norm j, [])" by (rule parse_render[OF assms]) (simp add: follows_def)
  moreover have "value_end [newline]" by (simp add: value_end_def is_ws_def newline_def)
  ultimately have "parse_value maxNestingDepth (render j @ [newline]) = Some (norm j, [newline])"
    using parse_value_moves[of maxNestingDepth maxNestingDepth] unfolding moves_def by fastforce
  moreover have "skip_ws (render j @ [newline]) = render j @ [newline]" using opens_ws[OF render_opens[OF assms]] by blast
  moreover have "skip_ws [newline] = []" by (simp add: skip_ws_def is_ws_def newline_def)
  ultimately show ?thesis by (simp add: json_parse_def)
qed

end
