(* ===== verification/Proto_Properties.thy ===== *)
theory Proto_Properties
  imports Proto_Shell
begin

text \<open>
  The properties of the wire format: what survives of the text a guest chose, what the host
  ever sees of a frame, and that the three framings deliver exactly what was written however a
  connection cuts the bytes into reads.
\<close>

section \<open>Guest text\<close>

lemma text_ok_bytes: "text_ok uni s \<Longrightarrow> list_all (\<lambda>c. 32 \<le> byte c \<and> byte c \<noteq> 127) s"
proof (induction s rule: valid_utf8.induct)
  case (1 s)
  show ?case
  proof (cases s)
    case (Cons c t)
    then obtain n where n: "rune_len s = Some n" using text_ok_rune_len "1.prems" by blast
    have h: "list_all (\<lambda>c. 32 \<le> byte c \<and> byte c \<noteq> 127) (drop n s)"
      using "1.IH"[OF _ n] "1.prems" text_ok_step[OF n] Cons by simp
    have "list_all (\<lambda>c. 32 \<le> byte c \<and> byte c \<noteq> 127) (take n s)"
    proof -
      obtain a u v where sh: "s = a # u @ v" "length u = n - 1" "list_all cont u" "1 < n \<Longrightarrow> \<not> byte a < 128"
        by (rule rune_shape[OF n]) blast
      have tk: "take n s = a # u" using sh(1,2) rune_len_pos[OF n] by (cases n) auto
      have "list_all (\<lambda>c. 32 \<le> byte c \<and> byte c \<noteq> 127) u" using sh(3) by (auto simp: list_all_iff cont_def)
      moreover have "32 \<le> byte a \<and> byte a \<noteq> 127"
      proof (cases "byte a < 128")
        case True
        then show ?thesis using "1.prems" text_ok_ascii[OF True, of uni "u @ v"] sh(1) by simp
      qed simp
      ultimately show ?thesis using tk by simp
    qed
    then show ?thesis using h by (metis append_take_drop_id list_all_append)
  qed simp
qed

text \<open>
  C33. Whatever a guest sends, \<open>SafeText\<close> returns valid UTF-8 of printable runes and no control
  byte; applied again it changes nothing, and it leaves a string alone exactly when every rune
  of it is printable. It is therefore not injective: a quoted string and its quotation are
  recorded alike.
\<close>
theorem safe_text:
  "text_ok uni (safeText uni s) \<and> valid_utf8 (safeText uni s) \<and>
   list_all (\<lambda>c. 32 \<le> byte c \<and> byte c \<noteq> 127) (safeText uni s) \<and>
   safeText uni (safeText uni s) = safeText uni s \<and> (safeText uni s = s \<longleftrightarrow> text_ok uni s)"
  using safeText_ok[of uni s] safeText_id text_ok_valid text_ok_bytes by metis

text \<open>
  \<open>SafeBody\<close> returns only newlines, tabs, printable runes and escape sequences of the form
  \<open>CSI ... m\<close>; applied again it changes nothing, and it leaves output of that form alone.
\<close>
theorem safe_body:
  assumes "uni 0xFFFD"
  shows "body_ok uni (safeBody uni s) \<and> safeBody uni (safeBody uni s) = safeBody uni s \<and>
     (safeBody uni s = s \<longleftrightarrow> body_ok uni s)"
  using safeBody_ok[of uni s, OF assms] safeBody_id by metis

text \<open>The sequence that switches a terminal's key reporting is of that form.\<close>

lemma safe_body_witness:
  "(\<lambda>r. r = 0xFFFD) 0xFFFD \<and> safeBody (\<lambda>r. r = 0xFFFD) (esc_byte # ''[>4;2m'') = esc_byte # ''[>4;2m''"
proof -
  have "sgrLen (esc_byte # ''[>4;2m'') = 7" by (simp add: sgrLen_def Let_def esc_byte_def maxSGRParams_def)
  then have "body_ok (\<lambda>r. r = 0xFFFD) (esc_byte # ''[>4;2m'')" using body_ok_sgr[of "esc_byte # ''[>4;2m''"] by simp
  then show ?thesis using safe_body[of "\<lambda>r. r = 0xFFFD" "esc_byte # ''[>4;2m''"] by simp
qed

section \<open>Frames\<close>

lemma read_loop_result:
  "case fst (read_loop k dec san r) of Inl _ \<Rightarrow> True | Inr v \<Rightarrow> \<exists>x. v = san x"
proof (induction k arbitrary: r)
  case 0
  show ?case by (auto simp: Let_def split: prod.splits option.splits sum.splits)
next
  case (Suc k)
  then show ?case by (auto simp: Let_def split: prod.splits option.splits sum.splits) 
qed

context sanitizer
begin

lemma read_clean: "case fst (read_frame dec san r) of Inl _ \<Rightarrow> True | Inr v \<Rightarrow> clean v"
  using read_loop_result[where k = maxBlankLines and dec = dec and san = san and r = r] makes_clean
  by (auto simp: read_frame_def split: sum.splits)

end

text \<open>A quoted string is no error kind, so quoting cannot forge one.\<close>

lemma quoted_unknown: "\<not> knownErrorKind (goQuote uni s)"
  by (auto simp: knownErrorKind_def errorKinds_def goQuote_def)

lemma error_kind: "pe_Kind (sanitizeError uni e) = (if knownErrorKind (pe_Kind e) then pe_Kind e else ''internal'')"
proof (cases "knownErrorKind (pe_Kind e)")
  case True
  then show ?thesis using safeText_id[OF known_kind_ok[OF True], of uni] by (simp add: sanitizeError_def)
next
  case False
  then have "\<not> knownErrorKind (safeText uni (pe_Kind e))" using quoted_unknown by (auto simp: safeText_def)
  then show ?thesis using False by (simp add: sanitizeError_def Let_def)
qed

text \<open>
  C8. A frame the host reads off a guest's channel is clean: every string of it is printable,
  and the kind of an error is the one sent when that is one of the seven the protocol defines,
  and \<open>internal\<close> otherwise.
\<close>
theorem host_reads_clean:
  "(case fst (read_frame decode_exec (sanitizeExec uni) r) of Inl _ \<Rightarrow> True | Inr v \<Rightarrow> exec_clean uni v) \<and>
   (case fst (read_frame decode_guest_event (sanitizeGuestEvent uni) r) of Inl _ \<Rightarrow> True | Inr v \<Rightarrow> guest_event_clean uni v) \<and>
   (case fst (read_frame decode_team_frame (sanitizeTeam uni) r) of Inl _ \<Rightarrow> True | Inr v \<Rightarrow> team_clean uni v) \<and>
   (case fst (read_frame decode_control (sanitizeControl uni) r) of Inl _ \<Rightarrow> True | Inr v \<Rightarrow> control_clean uni v) \<and>
   pe_Kind (sanitizeError uni e) = (if knownErrorKind (pe_Kind e) then pe_Kind e else ''internal'')"
  using exec.read_clean gev.read_clean team.read_clean ctl.read_clean error_kind by blast

text \<open>
  C5. However the connection cuts the bytes into reads, \<open>Reader.Read\<close> delivers what the
  contract on the bytes alone says: frames up to the larger of 64 KiB and the limit, blank
  lines skipped up to the bound, a line too long refused, and then its start handed over as if
  it were a frame.
\<close>
theorem reader_refines:
  assumes "quiet c"
  shows "fst (read_frames n dec san (newReader m c)) = flow_frames n m dec san (Flow (sent c))"
  by (rule read_frames_refines[OF new_represents[OF assms]])

lemma reader_refines_witness:
  "quiet [(''nul'', None), (''l'' @ [newline], None)] \<and>
   fst (read_frames 2 json_parse id (newReader 7 [(''nul'', None), (''l'' @ [newline], None)])) = [Inr JNull, Inl ReadEOF]"
proof -
  have j: "json_parse ''null'' = Some JNull" using json_parse_render[of JNull] by simp
  have l: "frame_line 7 ''null''" by (simp add: frame_line_def capacity_def)
  have "flow_frames (1 + 1) 7 json_parse id (Flow (''null'' @ newline # [])) = [Inr JNull, Inl ReadEOF]"
    using flow_frames_lines[of 7 "[''null'']" 1 json_parse id "[]"] l j flow_end[of "[]" 7] capacity_pos[of 7]
    by (simp add: outcome_def maxBlankLines_def numeral_eq_Suc)
  then show ?thesis
    using reader_refines[of "[(''nul'', None), (''l'' @ [newline], None)]" 2 json_parse id 7] by (simp add: numeral_2_eq_2)
qed

text \<open>
  C32. What \<open>Writer.Write\<close> wrote is what \<open>Reader.Read\<close> reads back, in order and then the
  end, however the connection cuts the bytes into reads and whatever type the frames are
  decoded into and sanitised as.
\<close>
theorem frames_roundtrip:
  assumes "list_all (fits maxNestingDepth) js" and "map (write_frame m) js = map Inr bs"
    and "quiet c" and "sent c = concat bs"
  shows "fst (read_frames (length js + 1) (\<lambda>l. Option.bind (json_parse l) dec) san (newReader m c)) =
     map (\<lambda>j. case dec (norm j) of None \<Rightarrow> Inl MalformedFrame | Some v \<Rightarrow> Inr (san v)) js @ [Inl ReadEOF]"
proof -
  let ?dec = "\<lambda>l. Option.bind (json_parse l) dec"
  have w: "bs = map (\<lambda>l. l @ [newline]) (map render js) \<and> list_all (frame_line m) (map render js)"
    using assms(1,2)
  proof (induction js arbitrary: bs)
    case (Cons j js)
    then obtain b bs' where b: "bs = b # bs'" by (cases bs) auto
    then show ?case using Cons render_line[of maxNestingDepth j m b] by auto
  qed simp
  have "flow_frames (length (map render js) + 1) m ?dec san (Flow (concat bs)) =
      map (outcome ?dec san) (map render js) @ flow_frames 1 m ?dec san (Flow [])"
    using flow_frames_lines[of m "map render js" 1 ?dec san "[]"] w by simp
  moreover have "flow_frames 1 m ?dec san (Flow []) = [Inl ReadEOF]"
    using flow_end[of "[]" m] capacity_pos[of m] by (simp add: maxBlankLines_def numeral_eq_Suc)
  moreover have "map (outcome ?dec san) (map render js) =
      map (\<lambda>j. case dec (norm j) of None \<Rightarrow> Inl MalformedFrame | Some v \<Rightarrow> Inr (san v)) js"
    using assms(1) json_parse_render by (auto simp: outcome_def list_all_iff)
  ultimately show ?thesis
    unfolding read_frames_refines[OF new_represents[OF assms(3)]] assms(4) length_map by (simp only:)
qed

lemma frames_roundtrip_witness:
  "map (write_frame 16) [JStr ''ab'', JBool True] = map Inr [quote_char # ''ab'' @ [quote_char, newline], ''true'' @ [newline]] \<and>
   fst (read_frames 3 (\<lambda>l. Option.bind (json_parse l) Some) id
     (newReader 16 [([quote_char], None), (''ab'' @ [quote_char, newline] @ ''t'', None), (''rue'' @ [newline], None)])) =
   [Inr (JStr ''ab''), Inr (JBool True), Inl ReadEOF]"
proof -
  have w: "map (write_frame 16) [JStr ''ab'', JBool True] = map Inr [quote_char # ''ab'' @ [quote_char, newline], ''true'' @ [newline]]"
    by (simp add: write_frame_def quote_str_def escape.simps esc_ascii_def rune_len_def quote_char_def backslash_def)
  show ?thesis
    using w frames_roundtrip[OF _ w, where c = "[([quote_char], None), (''ab'' @ [quote_char, newline] @ ''t'', None), (''rue'' @ [newline], None)]"
      and dec = Some and san = id] by (simp add: numeral_3_eq_3 maxNestingDepth_def)
qed

text \<open>
  C34. The reader survives a line that is too long. When a peer's line is over the limit by at most
  what draining reads, however the connection cuts it, and the peer sends nothing more in the read that
  brings its newline, the read fails with the line being too long, \<open>DrainOverlongLine\<close> succeeds, and the
  reader is then a fresh one at what comes after the line: nothing of the line is left, nothing behind it is lost.
\<close>
theorem drain_resyncs:
  assumes "quiet a" and "sent a = l @ [newline]" and "newline \<notin> set l"
    and "capacity m \<le> length l" and "length l \<le> capacity m + maxDrainOverlong"
  shows "case read_frame dec san (newReader m (a @ c)) of
     (res, r) \<Rightarrow> res = Inl LineTooLong \<and> drainOverlongLine r = (None, newReader m c)"
proof -
  let ?x = "take (capacity m) l" and ?t = "drop (capacity m) l"
  have "sent a = ?x @ (?t @ [newline])" "length ?x = capacity m" "newline \<notin> set ?x" "newline \<notin> set ?t"
    using assms(2-4) by (auto dest: in_set_takeD in_set_dropD)
  then obtain r a' where r: "read_frame dec san (newReader m (a @ c)) = (Inl LineTooLong, r)" "rd_conn r = a' @ c" "quiet a'"
      "sent a' = ?t @ [newline]" "sc_max (rd_scan r) = m"
    using read_long[OF assms(1)] by metis
  then show ?thesis using drain_line[OF r(2-4) \<open>newline \<notin> set ?t\<close>, of 0] assms(5) by (simp add: drainOverlongLine_def)
qed

text \<open>The frame behind the line, in a read of its own, is then the next one.\<close>

lemma drain_resyncs_witness:
  "case read_frame json_parse id (newReader 7 [(replicate 65536 (CHR ''x''), None), (''yz'' @ [newline], None), (''null'' @ [newline], None)]) of
     (res, r) \<Rightarrow> res = Inl LineTooLong \<and> drainOverlongLine r = (None, newReader 7 [(''null'' @ [newline], None)])"
  using drain_resyncs[of "[(replicate 65536 (CHR ''x''), None), (''yz'' @ [newline], None)]" "replicate 65536 (CHR ''x'') @ ''yz''" 7,
      where dec = json_parse and san = id and c = "[(''null'' @ [newline], None)]"]
  by (simp add: capacity_def newline_def maxDrainOverlong_def MaxMCPLine_def)

section \<open>The other channels\<close>

lemma read_shell_ok: "case fst (readShellFrame c) of Inl _ \<Rightarrow> True | Inr f \<Rightarrow> shell_ok f"
  using read_full_length[of _ "[]"]
  by (auto simp: readShellFrame_def Let_def shell_ok_def split: prod.splits sum.splits if_splits)

text \<open>
  Shell frames of the two kinds and at most a megabyte are read back as written, however the
  connection cuts the bytes; and whatever bytes arrive, a frame the reader returns is of one of
  the two kinds and at most a megabyte.
\<close>
theorem shell_roundtrip:
  assumes "list_all (\<lambda>f. fst f = ShellData \<or> fst f = ShellControl) fs"
    and "map (\<lambda>f. writeShellFrame (fst f) (snd f)) fs = map Inr bs" and "quiet c" and "sent c = concat bs"
  shows "readShellFrames (length fs + 1) c = map Inr fs @ [Inl (ShellIO (FullIO EndOfFile))] \<and>
     (case fst (readShellFrame c') of Inl _ \<Rightarrow> True | Inr f \<Rightarrow> shell_ok f)"
proof -
  have w: "bs = map (\<lambda>f. fst f # put_be32 (length (snd f)) @ snd f) fs \<and> list_all shell_ok fs"
    using assms(1,2)
  proof (induction fs arbitrary: bs)
    case (Cons f fs)
    then obtain b bs' where b: "bs = b # bs'" by (cases bs) auto
    have "shell_ok f" using Cons.prems b by (auto simp: shell_ok_def writeShellFrame_def split: if_splits)
    then show ?case using Cons b write_shell[of f] by auto
  qed simp
  then show ?thesis using read_shells[OF _ assms(3), of fs] assms(4) read_shell_ok by simp
qed

lemma shell_roundtrip_witness:
  "map (\<lambda>f. writeShellFrame (fst f) (snd f)) [(ShellData, ''ls'')] = map Inr [ShellData # put_be32 2 @ ''ls''] \<and>
   readShellFrames 2 [(ShellData # put_be32 2 @ ''l'', None), (''s'', None)] = [Inr (ShellData, ''ls''), Inl (ShellIO (FullIO EndOfFile))]"
proof -
  have w: "map (\<lambda>f. writeShellFrame (fst f) (snd f)) [(ShellData, ''ls'')] = map Inr [ShellData # put_be32 2 @ ''ls'']"
    by (simp add: writeShellFrame_def MaxShellFrame_def put_be32_def)
  show ?thesis
    using w shell_roundtrip[OF _ w, of "[(ShellData # put_be32 2 @ ''l'', None), (''s'', None)]"] by (simp add: numeral_2_eq_2)
qed

lemma digits_length: "n < 10 ^ k \<Longrightarrow> 0 < k \<Longrightarrow> length (digits n) \<le> k"
proof (induction k arbitrary: n)
  case (Suc k)
  show ?case
  proof (cases "n < 10")
    case True
    then show ?thesis by (subst digits.simps) simp
  next
    case False
    then have "0 < k" using Suc.prems(1) by (cases k) auto
    moreover have "n div 10 < 10 ^ k" using Suc.prems(1) by (intro less_mult_imp_div_less) (simp add: mult.commute)
    ultimately have "length (digits (n div 10)) \<le> k" by (intro Suc.IH)
    then show ?thesis using False by (subst digits.simps) simp
  qed
qed simp

lemma open_json:
  assumes "in_int64 port"
  shows "decode_frame [''v'', ''op'', ''port''] set_open \<lparr>fo_V = 0, fo_Op = [], fo_Port = 0\<rparr> (writeForwardOpen port) =
     Some \<lparr>fo_V = 1, fo_Op = ''open'', fo_Port = port\<rparr>"
proof -
  let ?j = "JObj [(''v'', JNum (itoa protoVersion)), (''op'', JStr ''open''), (''port'', JNum (itoa port))]"
  have f: "fits maxNestingDepth ?j" by (simp add: maxNestingDepth_def numeral_eq_Suc itoa_is_num)
  have "in_int64 protoVersion" by (simp add: protoVersion_def in_int64_def)
  then show ?thesis
    using parse_with_newline[OF f] decode_int_itoa[OF assms] decode_int_itoa[of protoVersion]
    by (simp add: writeForwardOpen_def decode_frame_def field_for_def set_open_def protoVersion_def del: render.simps)
qed

text \<open>
  The forward handshake is exact: the request \<open>WriteForwardOpen\<close> wrote is accepted with the
  port it names, and the reader has then still to deliver every byte that came after it and
  nothing else, however the connection cuts them into reads.
\<close>
theorem forward_handshake:
  assumes "1 \<le> port" and "port \<le> 65535" and "quiet c" and "sent c = writeForwardOpen port @ payload_bytes"
  shows "case readForwardOpen (newBufReader c) of
     (res, r) \<Rightarrow> res = Inr \<lparr>fo_V = 1, fo_Op = ''open'', fo_Port = port\<rparr> \<and> br_stream r = payload_bytes"
proof -
  let ?j = "JObj [(''v'', JNum (itoa protoVersion)), (''op'', JStr ''open''), (''port'', JNum (itoa port))]"
  have i: "in_int64 port" using assms(1,2) by (simp add: in_int64_def)
  have f: "fits maxNestingDepth ?j" by (simp add: maxNestingDepth_def numeral_eq_Suc itoa_is_num)
  have "newline \<notin> set (render ?j)" using printable_line[OF printable_render[OF f]] by blast
  moreover have "length (itoa port) \<le> 5" using digits_length[of "nat port" 5] assms(1,2) by (simp add: itoa_def)
  then have "length (render ?j) < MaxForwardLine"
    using digits_length[of "Suc 0" 1] assms(1)
    by (simp add: MaxForwardLine_def quote_str_def escape.simps esc_ascii_def quote_char_def backslash_def protoVersion_def itoa_def)
  ultimately obtain r where "readForwardLine (newBufReader c) = (Inr (writeForwardOpen port), r)" "br_stream r = payload_bytes"
    using forward_line[OF assms(3), of "render ?j" payload_bytes] assms(4) by (auto simp: writeForwardOpen_def)
  then show ?thesis using open_json[OF i] assms(1,2) by (simp add: readForwardOpen_def)
qed

lemma forward_handshake_witness:
  "(1::int) \<le> 8080 \<and> (8080::int) \<le> 65535 \<and>
   (case readForwardOpen (newBufReader [(writeForwardOpen 8080 @ ''GE'', None), (''T'', None)]) of
      (res, r) \<Rightarrow> res = Inr \<lparr>fo_V = 1, fo_Op = ''open'', fo_Port = 8080\<rparr> \<and> br_stream r = ''GET'')"
  using forward_handshake[of 8080 "[(writeForwardOpen 8080 @ ''GE'', None), (''T'', None)]" "''GET''"] by simp

text \<open>The answer, within the bound on a handshake line, in the same way.\<close>

lemma reply_json:
  "decode_frame [''v'', ''ok'', ''error''] set_reply \<lparr>fr_V = 0, fr_OK = False, fr_Error = []\<rparr> (writeForwardReply msg) =
     Some \<lparr>fr_V = 1, fr_OK = (msg = []), fr_Error = to_valid msg\<rparr>"
proof -
  let ?j = "JObj ([(''v'', JNum (itoa protoVersion)), (''ok'', JBool (msg = []))] @ (if msg = [] then [] else [(''error'', JStr msg)]))"
  have f: "fits maxNestingDepth ?j" by (simp add: maxNestingDepth_def numeral_eq_Suc itoa_is_num)
  have "in_int64 protoVersion" by (simp add: protoVersion_def in_int64_def)
  then show ?thesis
    using parse_with_newline[OF f] decode_int_itoa[of protoVersion]
    by (simp add: writeForwardReply_def decode_frame_def field_for_def set_reply_def protoVersion_def del: render.simps)
qed

lemma reply_handshake:
  assumes "quiet c" and "sent c = writeForwardReply msg @ t" and "length (writeForwardReply msg) \<le> MaxForwardLine"
  shows "case readForwardReply uni (newBufReader c) of
     (res, r) \<Rightarrow> res = Inr \<lparr>fr_V = 1, fr_OK = (msg = []), fr_Error = safeText uni (to_valid msg)\<rparr> \<and> br_stream r = t"
proof -
  let ?j = "JObj ([(''v'', JNum (itoa protoVersion)), (''ok'', JBool (msg = []))] @ (if msg = [] then [] else [(''error'', JStr msg)]))"
  have f: "fits maxNestingDepth ?j" by (simp add: maxNestingDepth_def numeral_eq_Suc itoa_is_num)
  have "newline \<notin> set (render ?j)" using printable_line[OF printable_render[OF f]] by blast
  moreover have "length (render ?j) < MaxForwardLine" using assms(3) by (simp add: writeForwardReply_def del: render.simps)
  ultimately obtain r where "readForwardLine (newBufReader c) = (Inr (writeForwardReply msg), r)" "br_stream r = t"
    using forward_line[OF assms(1), of "render ?j" t] assms(2) by (auto simp: writeForwardReply_def)
  then show ?thesis using reply_json[of msg] by (simp add: readForwardReply_def sanitizeForward_def)
qed

end
