(* ===== verification/Egress_Scrub.thy ===== *)
theory Egress_Scrub
  imports Egress_Policy
begin

text \<open>
  Echo suppression (\<open>internal/egress/scrub.go\<close>): the scrubber that replaces bound credentials in
  a byte stream, the reader that applies it to whatever chunks the origin sends, and the lemmas on
  what a consumer of that reader can see.
\<close>

section \<open>The scrubber\<close>

text \<open>
  A pattern of the scrubber is the name and the value of a secret. The calls of \<open>hit\<close> are kept
  in order.
\<close>

record scrubPat =
  sp_name :: string
  sp_v :: bytes

record scrubber =
  sc_pats :: "scrubPat list"
  sc_max :: nat
  sc_seen :: "string list"
  sc_hits :: "string list"

fun collect_pats :: "secret list \<Rightarrow> scrubPat list \<times> nat \<Rightarrow> scrubPat list \<times> nat" where
  "collect_pats [] (ps, mx) = (ps, mx)"
| "collect_pats (sec # secs) (ps, mx) =
     (if length (se_value sec) < minScrub then collect_pats secs (ps, mx)
      else collect_pats secs (ps @ [\<lparr>sp_name = se_Name sec, sp_v = se_value sec\<rparr>],
             if mx < length (se_value sec) then length (se_value sec) else mx))"

definition newScrubber :: "secret list \<Rightarrow> scrubber option" where
  "newScrubber secrets =
     (case collect_pats secrets ([], 0) of
        (ps, mx) \<Rightarrow> if ps = [] then None else Some \<lparr>sc_pats = ps, sc_max = mx, sc_seen = [], sc_hits = []\<rparr>)"

definition star :: char where "star = CHR ''*''"

text \<open>
  The loop over one pattern. A pattern is never empty (\<open>newScrubber\<close> takes none shorter than
  eight bytes); on an empty one the code would not end.
\<close>

function scrub_pat :: "bytes \<Rightarrow> bytes \<Rightarrow> bytes \<times> bool" where
  "scrub_pat v b =
     (if v = [] then (b, False)
      else case indexOf b v of
             None \<Rightarrow> (b, False)
           | Some j \<Rightarrow>
               (take j b @ replicate (length v) star @ fst (scrub_pat v (drop (j + length v) b)), True))"
  by pat_completeness auto

termination
proof (relation "measure (length \<circ> snd)", simp)
  fix v b :: bytes and j
  assume v: "v \<noteq> []" and j: "indexOf b v = Some j"
  from indexOf_Some[OF j] have "b \<noteq> []" using v by auto
  then show "((v, drop (j + length v) b), v, b) \<in> measure (length \<circ> snd)" using v by (cases v) auto
qed

declare scrub_pat.simps [simp del]

fun scrub_pats :: "scrubPat list \<Rightarrow> bytes \<times> bool \<times> string list \<times> string list \<Rightarrow> bytes \<times> bool \<times> string list \<times> string list" where
  "scrub_pats [] s = s"
| "scrub_pats (p # ps) (b, changed, seen, hits) =
     (case scrub_pat (sp_v p) b of
        (b', False) \<Rightarrow> scrub_pats ps (b', changed, seen, hits)
      | (b', True) \<Rightarrow>
          if sp_name p \<in> set seen then scrub_pats ps (b', True, seen, hits)
          else scrub_pats ps (b', True, sp_name p # seen, hits @ [sp_name p]))"

definition scrub :: "scrubber \<Rightarrow> bytes \<Rightarrow> bytes \<times> bool \<times> scrubber" where
  "scrub s b =
     (case scrub_pats (sc_pats s) (b, False, sc_seen s, sc_hits s) of
        (b', changed, seen, hits) \<Rightarrow> (b', changed, s\<lparr>sc_seen := seen, sc_hits := hits\<rparr>))"

section \<open>The reader\<close>

text \<open>
  The source is what its successive reads return: bytes, and an error with the last of them; after
  that, the end of the stream.
\<close>

datatype read_error = EOF | ReadError string

record scrubReader =
  sr_src :: "(bytes \<times> read_error option) list"
  sr_s :: scrubber
  sr_buf :: bytes
  sr_eof :: bool
  sr_rerr :: "read_error option"

definition src_read :: "(bytes \<times> read_error option) list \<Rightarrow> bytes \<times> read_error option \<times> (bytes \<times> read_error option) list" where
  "src_read src = (case src of [] \<Rightarrow> ([], Some EOF, []) | (b, e) # rest \<Rightarrow> (b, e, rest))"

definition wrap :: "scrubber \<Rightarrow> (bytes \<times> read_error option) list \<Rightarrow> scrubReader" where
  "wrap s src = \<lparr>sr_src = src, sr_s = s, sr_buf = [], sr_eof = False, sr_rerr = None\<rparr>"

text \<open>\<open>Read\<close> into a slice of \<open>n\<close> bytes.\<close>

definition hold :: "scrubReader \<Rightarrow> nat" where
  "hold r = (if sr_eof r then 0 else sc_max (sr_s r) - 1)"

definition refill :: "scrubReader \<Rightarrow> scrubReader" where
  "refill r =
     (case src_read (sr_src r) of
        (b, None, rest) \<Rightarrow> r\<lparr>sr_src := rest, sr_buf := sr_buf r @ b\<rparr>
      | (b, Some e, rest) \<Rightarrow> r\<lparr>sr_src := rest, sr_buf := sr_buf r @ b, sr_eof := True, sr_rerr := Some e\<rparr>)"

function scrub_read :: "nat \<Rightarrow> scrubReader \<Rightarrow> bytes \<times> read_error option \<times> scrubReader" where
  "scrub_read n r =
     (if hold r < length (sr_buf r)
      then case scrub (sr_s r) (sr_buf r) of
             (b, changed, s) \<Rightarrow>
               let m = min n (length b - hold r)
               in (take m b, None, r\<lparr>sr_s := s, sr_buf := drop m b\<rparr>)
      else if sr_eof r
      then ([], Some (case sr_rerr r of None \<Rightarrow> EOF | Some e \<Rightarrow> e),
            if sr_rerr r = None then r\<lparr>sr_rerr := Some EOF\<rparr> else r)
      else scrub_read n (refill r))"
  by pat_completeness auto

termination
  by (relation "measure (\<lambda>(n, r). if sr_eof r then 0 else Suc (length (sr_src r)))")
    (auto simp: refill_def src_read_def split: list.splits option.splits prod.splits)

declare scrub_read.simps [simp del]

text \<open>A consumer that reads with slices of the lengths \<open>ns\<close>, and what it has got.\<close>

fun read_all :: "nat list \<Rightarrow> scrubReader \<Rightarrow> bytes \<times> read_error option \<times> scrubReader" where
  "read_all [] r = ([], None, r)"
| "read_all (n # ns) r =
     (case scrub_read n r of
        (b, Some e, r') \<Rightarrow> (b, Some e, r')
      | (b, None, r') \<Rightarrow> (case read_all ns r' of (bs, err, r'') \<Rightarrow> (b @ bs, err, r'')))"

text \<open>The bytes of a source, up to its first error.\<close>

fun source_bytes :: "(bytes \<times> read_error option) list \<Rightarrow> bytes" where
  "source_bytes [] = []"
| "source_bytes ((b, e) # src) = b @ (if e = None then source_bytes src else [])"

section \<open>Starred strings\<close>

text \<open>\<open>x\<close> is \<open>y\<close> with some bytes replaced, each inside an occurrence of a pattern in \<open>y\<close>.\<close>

definition occurs_at :: "bytes \<Rightarrow> nat \<Rightarrow> bytes \<Rightarrow> bool" where
  "occurs_at v k x \<longleftrightarrow> hasPrefix (drop k x) v"

definition starred :: "bytes list \<Rightarrow> bytes \<Rightarrow> bytes \<Rightarrow> bool" where
  "starred vs x y \<longleftrightarrow> length x = length y \<and>
     (\<forall>i < length x. x ! i = y ! i \<or>
        (x ! i = star \<and> (\<exists>v \<in> set vs. \<exists>k \<le> i. i < k + length v \<and> occurs_at v k y)))"

lemma occurs_nth: "occurs_at v k x \<longleftrightarrow> v = [] \<or> (k + length v \<le> length x \<and> (\<forall>i < length v. x ! (k + i) = v ! i))"
proof -
  have "take (length v) (drop k x) = v \<longleftrightarrow> v = [] \<or> (k + length v \<le> length x \<and> (\<forall>i < length v. x ! (k + i) = v ! i))"
  proof (cases "v = []")
    case False
    have "take (length v) (drop k x) = v \<longleftrightarrow> length v \<le> length x - k \<and> (\<forall>i < length v. drop k x ! i = v ! i)"
      by (subst list_eq_iff_nth_eq) (auto simp: min_def)
    then show ?thesis using False by (cases "k \<le> length x") auto
  qed simp
  then show ?thesis by (simp add: occurs_at_def hasPrefix_def)
qed

lemma starred_refl: "starred vs x x"
  by (simp add: starred_def)

lemma starred_occurs:
  assumes "starred vs x y" and "occurs_at v k x" and "star \<notin> set v"
  shows "occurs_at v k y"
proof (cases "v = []")
  case False
  then have x: "k + length v \<le> length x" "\<forall>i < length v. x ! (k + i) = v ! i" using assms(2) unfolding occurs_nth by blast+
  have "y ! (k + i) = v ! i" if i: "i < length v" for i
  proof -
    have "k + i < length x" "x ! (k + i) = v ! i" using x i by simp_all
    moreover have "v ! i \<noteq> star" using assms(3) i by (metis nth_mem)
    ultimately show ?thesis using assms(1) unfolding starred_def by metis
  qed
  moreover have "length x = length y" using assms(1) by (simp add: starred_def)
  ultimately show ?thesis using x(1) unfolding occurs_nth by auto
qed (simp add: occurs_nth)

lemma starredD: "starred vs x y \<Longrightarrow> i < length x \<Longrightarrow>
    x ! i = y ! i \<or> (x ! i = star \<and> (\<exists>v \<in> set vs. \<exists>k \<le> i. i < k + length v \<and> occurs_at v k y))"
  by (simp add: starred_def)

lemma starred_length: "starred vs x y \<Longrightarrow> length x = length y"
  by (simp add: starred_def)

lemma starred_trans:
  assumes "starred vs x y" and "starred vs y z" and "\<forall>v \<in> set vs. star \<notin> set v"
  shows "starred vs x z"
proof -
  have l: "length x = length y" "length y = length z" using assms(1,2) by (simp_all add: starred_length)
  have "x ! i = z ! i \<or> (x ! i = star \<and> (\<exists>v \<in> set vs. \<exists>k \<le> i. i < k + length v \<and> occurs_at v k z))" if i: "i < length x" for i
  proof (cases "x ! i = y ! i")
    case True
    then show ?thesis using starredD[OF assms(2), of i] i l by simp
  next
    case False
    then obtain v k where v: "x ! i = star" "v \<in> set vs" "k \<le> i" "i < k + length v" "occurs_at v k y"
      using starredD[OF assms(1) i] by blast
    have "occurs_at v k z" using starred_occurs[OF assms(2) v(5)] assms(3) v(2) by blast
    with v show ?thesis by blast
  qed
  then show ?thesis using l by (simp add: starred_def)
qed

lemma starred_append:
  assumes "starred vs x y"
  shows "starred vs (a @ x @ b) (a @ y @ b)"
proof -
  have l: "length x = length y" using assms by (rule starred_length)
  have "(a @ x @ b) ! i = (a @ y @ b) ! i \<or> ((a @ x @ b) ! i = star \<and>
      (\<exists>v \<in> set vs. \<exists>k \<le> i. i < k + length v \<and> occurs_at v k (a @ y @ b)))" if i: "i < length (a @ x @ b)" for i
  proof (cases "length a \<le> i \<and> i < length a + length x")
    case True
    then have j: "i - length a < length x" and e: "(a @ x @ b) ! i = x ! (i - length a)" "(a @ y @ b) ! i = y ! (i - length a)"
      using l by (auto simp: nth_append)
    from starredD[OF assms j] show ?thesis
    proof
      assume "x ! (i - length a) = y ! (i - length a)"
      then show ?thesis using e by simp
    next
      assume "x ! (i - length a) = star \<and> (\<exists>v \<in> set vs. \<exists>k \<le> i - length a. i - length a < k + length v \<and> occurs_at v k y)"
      then obtain v k where v: "x ! (i - length a) = star" "v \<in> set vs" "k \<le> i - length a" "i - length a < k + length v" "occurs_at v k y"
        by blast
      have "occurs_at v (length a + k) (a @ y @ b)"
      proof -
        have "k \<le> length y" using v(3) j l by simp
        then have "drop (length a + k) (a @ y @ b) = drop k y @ b" by simp
        then show ?thesis using v(5) by (auto simp: occurs_at_def hasPrefix_iff)
      qed
      moreover have "length a + k \<le> i" "i < length a + k + length v" using v(3,4) True by linarith+
      ultimately show ?thesis using v(1,2) e(1) by auto
    qed
  next
    case False
    then show ?thesis using l by (auto simp: nth_append)
  qed
  then show ?thesis using l by (simp add: starred_def)
qed

section \<open>What one scrub does\<close>

text \<open>No pattern starts among the first \<open>n\<close> bytes.\<close>

definition free :: "bytes list \<Rightarrow> nat \<Rightarrow> bytes \<Rightarrow> bool" where
  "free vs n x \<longleftrightarrow> (\<forall>v \<in> set vs. \<forall>k < n. \<not> occurs_at v k x)"

lemma free_starred:
  assumes "starred ws x y" and "\<forall>v \<in> set vs. star \<notin> set v" and "free vs n y"
  shows "free vs n x"
  using starred_occurs[OF assms(1)] assms(2,3) unfolding free_def by blast

lemma scrub_pat_spec:
  assumes "v \<noteq> []" and "star \<notin> set v"
  shows "starred [v] (fst (scrub_pat v b)) b \<and> free [v] (length b) (fst (scrub_pat v b))"
  using assms
proof (induction v b rule: scrub_pat.induct)
  case (1 v b)
  show ?case
  proof (cases "indexOf b v")
    case None
    have "\<not> occurs_at v k b" for k
    proof
      assume "occurs_at v k b"
      then obtain t where "drop k b = v @ t" by (auto simp: occurs_at_def hasPrefix_iff)
      then have "b = take k b @ v @ t" by (metis append_take_drop_id)
      then show False using None indexOf_None by blast
    qed
    then show ?thesis using None 1(2) starred_refl by (simp add: scrub_pat.simps[of v b] free_def)
  next
    case (Some j)
    let ?rest = "drop (j + length v) b"
    let ?r = "fst (scrub_pat v ?rest)"
    let ?s = "replicate (length v) star"
    have ih: "starred [v] ?r ?rest" "free [v] (length ?rest) ?r" using 1(1)[OF 1(2) Some] 1(2,3) by auto
    obtain t where t: "b = take j b @ v @ t" "j \<le> length b" using indexOf_Some[OF Some] by blast
    then have b: "b = take j b @ v @ ?rest" and lj: "length (take j b) = j" by (metis append_assoc append_eq_conv_conj length_append length_take min.absorb2)+
    have m: "min (length b) j = j" using t(2) by simp
    have e: "fst (scrub_pat v b) = take j b @ ?s @ ?r" using Some 1(2) by (simp add: scrub_pat.simps[of v b])
    have "drop j b = v @ ?rest" using b lj by (metis append_eq_conv_conj)
    then have occ: "occurs_at v j b" by (simp add: occurs_at_def)
    have l: "length b = j + length v + length ?rest" using arg_cong[OF b, of length] lj by (simp only: length_append add.assoc)
    have s1: "starred [v] (take j b @ ?s @ ?rest) b"
    proof -
      have "(take j b @ ?s @ ?rest) ! i = b ! i \<or> ((take j b @ ?s @ ?rest) ! i = star \<and>
          (\<exists>w \<in> set [v]. \<exists>k \<le> i. i < k + length w \<and> occurs_at w k b))" if i: "i < length b" for i
      proof (cases "j \<le> i \<and> i < j + length v")
        case True
        then have "i - j < length v" by linarith
        with True have "(take j b @ ?s @ ?rest) ! i = star" by (simp add: nth_append m)
        then show ?thesis using True occ by auto
      next
        case False
        have eq: "b ! i = (take j b @ v @ ?rest) ! i" by (rule arg_cong[OF b, of "\<lambda>x. x ! i"])
        have "\<not> (\<not> i < j \<and> i - j < length v)" using False by linarith
        then have "(take j b @ ?s @ ?rest) ! i = (take j b @ v @ ?rest) ! i" by (auto simp: nth_append m)
        then show ?thesis using eq by simp
      qed
      moreover have "length (take j b @ ?s @ ?rest) = length b"
        using l lj by (simp only: length_append length_replicate add.assoc)
      ultimately show ?thesis unfolding starred_def by presburger
    qed
    have "starred [v] (take j b @ ?s @ ?r) (take j b @ ?s @ ?rest)"
      using starred_append[OF ih(1), of "take j b @ ?s" "[]"] by simp
    from starred_trans[OF this s1] 1(3) have s: "starred [v] (take j b @ ?s @ ?r) b" by simp
    have "\<not> occurs_at v k (take j b @ ?s @ ?r)" if k: "k < length b" for k
    proof
      assume o: "occurs_at v k (take j b @ ?s @ ?r)"
      then have ok: "occurs_at v k b" using starred_occurs[OF s] 1(3) by blast
      have "\<not> k < j" using indexOf_first[OF Some] ok by (auto simp: occurs_at_def)
      moreover have "\<not> (j \<le> k \<and> k < j + length v)"
      proof
        assume jk: "j \<le> k \<and> k < j + length v"
        have "(take j b @ ?s @ ?r) ! (k + 0) = v ! 0" using o 1(2) unfolding occurs_nth by blast
        moreover have "k - j < length v" using jk by linarith
        then have "(take j b @ ?s @ ?r) ! k = star" using jk by (simp add: nth_append m)
        ultimately have "v ! 0 = star" by simp
        then show False using 1(2,3) by (metis length_greater_0_conv nth_mem)
      qed
      ultimately have kj: "j + length v \<le> k" by simp
      then have "drop k (take j b @ ?s @ ?r) = drop (k - (j + length v)) ?r" by (simp add: m)
      then have "occurs_at v (k - (j + length v)) ?r" using o by (simp add: occurs_at_def)
      moreover have "k - (j + length v) < length ?rest" using kj k l by linarith
      ultimately show False using ih(2) by (simp add: free_def)
    qed
    then show ?thesis using s e by (simp add: free_def)
  qed
qed

definition pat_values :: "scrubber \<Rightarrow> bytes list" where
  "pat_values s = map sp_v (sc_pats s)"

text \<open>Every pattern is long enough to be scrubbed, at most as long as \<open>max\<close>, and has no asterisk.\<close>

definition scrubber_ok :: "scrubber \<Rightarrow> bool" where
  "scrubber_ok s \<longleftrightarrow> (\<forall>v \<in> set (pat_values s). v \<noteq> [] \<and> star \<notin> set v \<and> length v \<le> sc_max s)"

lemma starred_mono: "starred vs x y \<Longrightarrow> set vs \<subseteq> set ws \<Longrightarrow> starred ws x y"
  unfolding starred_def by blast

lemma scrub_pats_spec:
  assumes "\<forall>v \<in> set (map sp_v ps). v \<noteq> [] \<and> star \<notin> set v" and "scrub_pats ps (b, ch, seen, hits) = (b', ch', seen', hits')"
  shows "starred (map sp_v ps) b' b \<and> free (map sp_v ps) (length b) b'"
  using assms
proof (induction ps arbitrary: b ch seen hits)
  case Nil
  then show ?case by (simp add: starred_refl free_def)
next
  case (Cons p ps)
  let ?v = "sp_v p"
  obtain x c where x: "scrub_pat ?v b = (x, c)" by fastforce
  have v: "?v \<noteq> []" "star \<notin> set ?v" using Cons.prems(1) by auto
  have s: "starred [?v] x b" "free [?v] (length b) x" using scrub_pat_spec[OF v, of b] x by auto
  obtain ch1 seen1 hits1 where r: "scrub_pats ps (x, ch1, seen1, hits1) = (b', ch', seen', hits')"
    using Cons.prems(2) x by (auto split: bool.splits if_splits)
  have ih: "starred (map sp_v ps) b' x" "free (map sp_v ps) (length x) b'" using Cons.IH[OF _ r] Cons.prems(1) by auto
  have "starred (map sp_v (p # ps)) b' x" "starred (map sp_v (p # ps)) x b"
    using starred_mono[OF ih(1), of "map sp_v (p # ps)"] starred_mono[OF s(1), of "map sp_v (p # ps)"] by auto
  then have "starred (map sp_v (p # ps)) b' b" using starred_trans Cons.prems(1) by blast
  moreover have "free [?v] (length b) b'" using free_starred[OF ih(1) _ s(2)] v(2) by simp
  then have "free (map sp_v (p # ps)) (length b) b'"
    using ih(2) starred_length[OF s(1)] by (auto simp: free_def)
  ultimately show ?case by simp
qed

lemma scrub_spec:
  assumes "scrubber_ok s" and "scrub s b = (b', ch, s')"
  shows "starred (pat_values s) b' b \<and> free (pat_values s) (length b) b' \<and> sc_pats s' = sc_pats s \<and> sc_max s' = sc_max s"
proof -
  obtain seen hits where r: "scrub_pats (sc_pats s) (b, False, sc_seen s, sc_hits s) = (b', ch, seen, hits)"
    and s': "s' = s\<lparr>sc_seen := seen, sc_hits := hits\<rparr>" using assms(2) by (auto simp: scrub_def split: prod.splits)
  have "\<forall>v \<in> set (map sp_v (sc_pats s)). v \<noteq> [] \<and> star \<notin> set v" using assms(1) by (simp add: scrubber_ok_def pat_values_def)
  from scrub_pats_spec[OF this r] s' show ?thesis by (simp add: pat_values_def)
qed

lemma scrub_pat_same: "snd (scrub_pat v b) = False \<Longrightarrow> fst (scrub_pat v b) = b"
  by (subst scrub_pat.simps, subst (asm) scrub_pat.simps) (auto split: option.splits)

lemma scrub_pats_same:
  "scrub_pats ps (b, ch, seen, hits) = (b', ch', seen', hits') \<Longrightarrow> (ch \<longrightarrow> ch') \<and> (\<not> ch' \<longrightarrow> b' = b)"
proof (induction ps arbitrary: b ch seen hits)
  case (Cons p ps)
  obtain x c where x: "scrub_pat (sp_v p) b = (x, c)" by fastforce
  show ?case
  proof (cases c)
    case False
    then have "scrub_pats ps (x, ch, seen, hits) = (b', ch', seen', hits')" "x = b"
      using Cons.prems x scrub_pat_same[of "sp_v p" b] by auto
    then show ?thesis using Cons.IH by simp
  next
    case True
    then obtain seen1 hits1 where "scrub_pats ps (x, True, seen1, hits1) = (b', ch', seen', hits')"
      using Cons.prems x by (auto split: if_splits)
    from Cons.IH[OF this] show ?thesis by simp
  qed
qed simp

lemma scrub_same: "scrub s b = (b', False, s') \<Longrightarrow> b' = b"
  using scrub_pats_same by (auto simp: scrub_def split: prod.splits)

section \<open>What a consumer sees\<close>

text \<open>
  After a consumer got \<open>D\<close> of a source that began as \<open>S\<close>: what it got and what the reader holds
  is the source so far with occurrences replaced, no pattern starts in what it got, and enough is held
  to see any that will.
\<close>

definition scrub_inv :: "scrubber \<Rightarrow> bytes \<Rightarrow> bytes \<Rightarrow> scrubReader \<Rightarrow> bool" where
  "scrub_inv s S D r \<longleftrightarrow>
     sc_pats (sr_s r) = sc_pats s \<and> sc_max (sr_s r) = sc_max s \<and>
     (\<exists>T. S = T @ (if sr_eof r then [] else source_bytes (sr_src r)) \<and>
        starred (pat_values s) (D @ sr_buf r) T) \<and>
     free (pat_values s) (length D) (D @ sr_buf r) \<and>
     (D \<noteq> [] \<longrightarrow> \<not> sr_eof r \<longrightarrow> sc_max s - 1 \<le> length (sr_buf r))"

lemma wrap_inv: "scrub_inv s (source_bytes src) [] (wrap s src)"
  by (simp add: scrub_inv_def wrap_def starred_refl free_def)

lemma occurs_append: "occurs_at v k x \<Longrightarrow> k < length x \<Longrightarrow> occurs_at v k (x @ y)"
  by (auto simp: occurs_at_def hasPrefix_iff)

lemma occurs_within: "occurs_at v k (x @ y) \<Longrightarrow> k + length v \<le> length x \<Longrightarrow> occurs_at v k x"
  by (auto simp: occurs_at_def hasPrefix_def)

lemma refill_inv:
  assumes "scrubber_ok s" and "scrub_inv s S D r" and "\<not> sr_eof r"
  shows "scrub_inv s S D (refill r)"
proof -
  obtain b e rest where sr: "src_read (sr_src r) = (b, e, rest)" by (metis prod_cases3)
  then have src: "source_bytes (sr_src r) = b @ (if e = None then source_bytes rest else [])"
    by (auto simp: src_read_def split: list.splits)
  have r': "sr_s (refill r) = sr_s r" "sr_buf (refill r) = sr_buf r @ b" "sr_eof (refill r) = (e \<noteq> None)"
    "e = None \<Longrightarrow> sr_src (refill r) = rest" using assms(3) by (auto simp: refill_def sr split: option.splits)
  from assms(2,3) obtain T where T: "S = T @ source_bytes (sr_src r)" "starred (pat_values s) (D @ sr_buf r) T"
    by (auto simp: scrub_inv_def)
  have "S = (T @ b) @ (if sr_eof (refill r) then [] else source_bytes (sr_src (refill r)))"
    using T(1) src r'(3,4) by auto
  moreover have "starred (pat_values s) (D @ sr_buf (refill r)) (T @ b)"
    using starred_append[OF T(2), of "[]" b] r'(2) by simp
  moreover have "free (pat_values s) (length D) (D @ sr_buf (refill r))"
  proof (cases "D = []")
    case False
    then have h: "sc_max s - 1 \<le> length (sr_buf r)" using assms(2,3) by (simp add: scrub_inv_def)
    have "\<not> occurs_at v k ((D @ sr_buf r) @ b)" if v: "v \<in> set (pat_values s)" "k < length D" for v k
    proof
      assume o: "occurs_at v k ((D @ sr_buf r) @ b)"
      have "length v \<le> sc_max s" using assms(1) v(1) by (simp add: scrubber_ok_def)
      then have "k + length v \<le> length (D @ sr_buf r)" using h v(2) by simp
      from occurs_within[OF o this] show False using assms(2) v by (auto simp: scrub_inv_def free_def)
    qed
    then show ?thesis using r'(2) by (simp add: free_def)
  qed (simp add: free_def)
  moreover have "D \<noteq> [] \<longrightarrow> \<not> sr_eof (refill r) \<longrightarrow> sc_max s - 1 \<le> length (sr_buf (refill r))"
    using assms(2,3) r'(2) by (auto simp: scrub_inv_def)
  ultimately show ?thesis using assms(2) r'(1) unfolding scrub_inv_def by metis
qed

lemma deliver_inv:
  assumes "scrubber_ok s" and "scrub_inv s S D r" and "hold r < length (sr_buf r)" and "scrub (sr_s r) (sr_buf r) = (b, ch, t)"
    and "m = min n (length b - hold r)"
  shows "scrub_inv s S (D @ take m b) (r\<lparr>sr_s := t, sr_buf := drop m b\<rparr>)"
proof -
  have i: "sc_pats (sr_s r) = sc_pats s" "sc_max (sr_s r) = sc_max s" "free (pat_values s) (length D) (D @ sr_buf r)"
    using assms(2) by (auto simp: scrub_inv_def)
  then have "scrubber_ok (sr_s r)" "pat_values (sr_s r) = pat_values s" using assms(1) by (auto simp: scrubber_ok_def pat_values_def)
  with scrub_spec[OF _ assms(4)] i have b: "starred (pat_values s) b (sr_buf r)" "free (pat_values s) (length (sr_buf r)) b"
    "sc_pats t = sc_pats s" "sc_max t = sc_max s" by auto
  have stars: "\<forall>v \<in> set (pat_values s). star \<notin> set v" using assms(1) by (simp add: scrubber_ok_def)
  from assms(2) obtain T where T: "S = T @ (if sr_eof r then [] else source_bytes (sr_src r))" "starred (pat_values s) (D @ sr_buf r) T"
    by (auto simp: scrub_inv_def)
  have db: "starred (pat_values s) (D @ b) (D @ sr_buf r)" using starred_append[OF b(1), of D "[]"] by simp
  have "starred (pat_values s) (D @ b) T" by (rule starred_trans[OF db T(2) stars])
  moreover have "free (pat_values s) (length (D @ take m b)) (D @ b)"
  proof -
    have "free (pat_values s) (length D) (D @ b)" using free_starred[OF db stars i(3)] .
    moreover have "\<not> occurs_at v k (D @ b)" if "v \<in> set (pat_values s)" "length D \<le> k" "k < length D + length (take m b)" for v k
    proof -
      have "drop k (D @ b) = drop (k - length D) b" using that(2) by simp
      moreover have "k - length D < length (sr_buf r)" using that(2,3) starred_length[OF b(1)] by simp
      ultimately show ?thesis using b(2) that(1) by (simp add: occurs_at_def free_def)
    qed
    ultimately show ?thesis unfolding free_def length_append by (meson not_less)
  qed
  moreover have "\<not> sr_eof r \<longrightarrow> sc_max s - 1 \<le> length (drop m b)"
    using assms(3,5) starred_length[OF b(1)] i(2) by (auto simp: hold_def)
  ultimately show ?thesis using T(1) b(3,4) by (auto simp: scrub_inv_def)
qed

lemma scrub_read_inv:
  assumes "scrubber_ok s" and "scrub_inv s S D r" and "scrub_read n r = (b, e, r')"
  shows "scrub_inv s S (D @ b) r' \<and> (e \<noteq> None \<longrightarrow> b = [] \<and> sr_eof r' \<and> sr_buf r' = []) \<and> (e = None \<longrightarrow> 0 < n \<longrightarrow> b \<noteq> [])"
  using assms(2,3)
proof (induction n r rule: scrub_read.induct)
  case (1 n r)
  consider "hold r < length (sr_buf r)" | "\<not> hold r < length (sr_buf r)" "sr_eof r" | "\<not> hold r < length (sr_buf r)" "\<not> sr_eof r"
    by blast
  then show ?case
  proof cases
    case 1
    obtain x ch t where x: "scrub (sr_s r) (sr_buf r) = (x, ch, t)" by (metis prod_cases3)
    have res: "b = take (min n (length x - hold r)) x" "e = None"
      "r' = r\<lparr>sr_s := t, sr_buf := drop (min n (length x - hold r)) x\<rparr>"
      using "1.prems"(2) 1 x by (auto simp: scrub_read.simps[of n r] Let_def)
    have "length x = length (sr_buf r)"
      using scrub_spec[OF _ x] assms(1) "1.prems"(1) starred_length
      by (force simp: scrub_inv_def scrubber_ok_def pat_values_def)
    then have "0 < n \<longrightarrow> b \<noteq> []" using 1 res(1) by (cases x) auto
    with deliver_inv[OF assms(1) "1.prems"(1) 1 x refl, of n] show ?thesis using res by simp
  next
    case 2
    then have "sr_buf r = []" "b = []" "sr_eof r'" "sr_buf r' = []" "e \<noteq> None" "r' = r \<or> r' = r\<lparr>sr_rerr := Some EOF\<rparr>"
      using "1.prems"(2) by (auto simp: scrub_read.simps[of n r] hold_def split: if_splits)
    with "1.prems"(1) show ?thesis by (auto simp: scrub_inv_def)
  next
    case 3
    then have "scrub_read n (refill r) = (b, e, r')" using "1.prems"(2) by (simp add: scrub_read.simps[of n r])
    then show ?thesis using "1.IH" 3 refill_inv[OF assms(1) "1.prems"(1) 3(2)] by blast
  qed
qed

lemma read_all_inv:
  assumes "scrubber_ok s" and "scrub_inv s S D r" and "read_all ns r = (b, e, r')"
  shows "scrub_inv s S (D @ b) r' \<and> (e \<noteq> None \<longrightarrow> sr_eof r' \<and> sr_buf r' = []) \<and>
    (e = None \<longrightarrow> (\<forall>n \<in> set ns. 0 < n) \<longrightarrow> length ns \<le> length b)"
  using assms(2,3)
proof (induction ns arbitrary: D r b)
  case (Cons n ns)
  obtain x f t where x: "scrub_read n r = (x, f, t)" by (metis prod_cases3)
  note step = scrub_read_inv[OF assms(1) Cons.prems(1) x]
  show ?case
  proof (cases f)
    case None
    obtain y where y: "read_all ns t = (y, e, r')" "b = x @ y" using Cons.prems(2) x None by (auto split: prod.splits)
    have x1: "0 < n \<longrightarrow> 1 \<le> length x" using step None by (cases x) auto
    have "scrub_inv s S (D @ x) t" using step by simp
    from Cons.IH[OF this y(1)] x1 y(2) show ?thesis by auto
  qed (use Cons.prems(2) x step in auto)
qed simp

lemma collect_pats_spec:
  assumes "collect_pats secs (ps, mx) = (qs, my)" and "\<forall>p \<in> set ps. length (sp_v p) \<le> mx"
  shows "set (map sp_v qs) = set (map sp_v ps) \<union> {v \<in> se_value ` set secs. minScrub \<le> length v} \<and> (\<forall>p \<in> set qs. length (sp_v p) \<le> my)"
  using assms
proof (induction secs arbitrary: ps mx)
  case (Cons sec secs)
  show ?case
  proof (cases "length (se_value sec) < minScrub")
    case False
    let ?mx = "if mx < length (se_value sec) then length (se_value sec) else mx"
    let ?ps = "ps @ [\<lparr>sp_name = se_Name sec, sp_v = se_value sec\<rparr>]"
    have "collect_pats secs (?ps, ?mx) = (qs, my)" using Cons.prems(1) False by simp
    moreover have "\<forall>p \<in> set ?ps. length (sp_v p) \<le> ?mx" using Cons.prems(2) by auto
    ultimately show ?thesis using Cons.IH False by auto
  qed (use Cons in auto)
qed simp

lemma newScrubber_spec:
  assumes "newScrubber secs = Some s"
  shows "set (pat_values s) = {v \<in> se_value ` set secs. minScrub \<le> length v} \<and> (\<forall>v \<in> set (pat_values s). length v \<le> sc_max s)"
proof -
  obtain ps mx where c: "collect_pats secs ([], 0) = (ps, mx)" by fastforce
  with assms have "sc_pats s = ps" "sc_max s = mx" by (auto simp: newScrubber_def split: if_splits)
  moreover have "set (map sp_v ps) = {v \<in> se_value ` set secs. minScrub \<le> length v}" using collect_pats_spec[OF c] by simp
  moreover have "\<forall>v \<in> set (map sp_v ps). length v \<le> mx" using conjunct2[OF collect_pats_spec[OF c]] by auto
  ultimately show ?thesis by (simp only: pat_values_def)
qed

text \<open>The scrubbed stream: what holds of everything a consumer got.\<close>

lemma scrubbed_stream:
  assumes "scrubber_ok s" and "read_all ns (wrap s src) = (D, err, r)"
  shows "free (pat_values s) (length D) D \<and> length D \<le> length (source_bytes src) \<and>
    (\<forall>i < length D. D ! i = source_bytes src ! i \<or> (D ! i = star \<and>
       (\<exists>v \<in> set (pat_values s). \<exists>k \<le> i. i < k + length v \<and> occurs_at v k (source_bytes src)))) \<and>
    (err \<noteq> None \<longrightarrow> length D = length (source_bytes src)) \<and>
    (err = None \<longrightarrow> (\<forall>n \<in> set ns. 0 < n) \<longrightarrow> length ns \<le> length D)"
proof -
  let ?S = "source_bytes src"
  note i = read_all_inv[OF assms(1) wrap_inv assms(2), simplified]
  then have inv: "scrub_inv s ?S D r" by blast
  then obtain T where "?S = T @ (if sr_eof r then [] else source_bytes (sr_src r))" "starred (pat_values s) (D @ sr_buf r) T"
    unfolding scrub_inv_def by blast
  then obtain R where T: "?S = T @ R" "starred (pat_values s) (D @ sr_buf r) T" "sr_eof r \<longrightarrow> R = []" by fastforce
  have l: "length (D @ sr_buf r) = length T" by (rule starred_length[OF T(2)])
  have f: "free (pat_values s) (length D) D"
    using inv occurs_append unfolding scrub_inv_def free_def by blast
  have c: "D ! i = ?S ! i \<or> (D ! i = star \<and> (\<exists>v \<in> set (pat_values s). \<exists>k \<le> i. i < k + length v \<and> occurs_at v k ?S))"
    if d: "i < length D" for i
  proof -
    have e: "(D @ sr_buf r) ! i = D ! i" "?S ! i = T ! i" using d l T(1) by (simp_all add: nth_append)
    have "i < length (D @ sr_buf r)" using d by simp
    from starredD[OF T(2) this] show ?thesis
    proof
      assume "(D @ sr_buf r) ! i = star \<and> (\<exists>v \<in> set (pat_values s). \<exists>k \<le> i. i < k + length v \<and> occurs_at v k T)"
      then obtain v k where v: "(D @ sr_buf r) ! i = star" "v \<in> set (pat_values s)" "k \<le> i" "i < k + length v" "occurs_at v k T"
        by blast
      have "k < length T" using v(3) d l by simp
      then have "occurs_at v k ?S" using occurs_append[OF v(5)] T(1) by simp
      then show ?thesis using v e by auto
    qed (use e in simp)
  qed
  have "length D \<le> length ?S" using l T(1) by simp
  moreover have "err \<noteq> None \<longrightarrow> length D = length ?S" using conjunct1[OF conjunct2[OF i]] l T(1,3) by auto
  ultimately show ?thesis using f c i by blast
qed

end
