(* ===== verification/Egress_Response.thy ===== *)
theory Egress_Response
  imports Egress_Scrub
begin

text \<open>
  The response a guest may have (\<open>scrubResponse\<close> of \<open>internal/egress/scrub.go\<close>): headers,
  body and trailers scrubbed of the credentials bound to the host, or a refusal when the body arrives
  in an encoding the scrubber cannot read.
\<close>

section \<open>Content-Encoding\<close>

definition headerValues :: "header \<Rightarrow> string \<Rightarrow> string list" where
  "headerValues h k = (case map_of h k of None \<Rightarrow> [] | Some vs \<Rightarrow> vs)"

definition isIdentity :: "string \<Rightarrow> bool" where
  "isIdentity s \<longleftrightarrow> map lower_char s = ''identity''"

definition unscrubbableEncoding :: "header \<Rightarrow> string" where
  "unscrubbableEncoding h =
     (case find (\<lambda>c. c \<noteq> [] \<and> \<not> isIdentity c)
             (map trimSpace (concat (map (split_on CHR '','') (headerValues h ''Content-Encoding'')))) of
        None \<Rightarrow> [] | Some c \<Rightarrow> c)"

text \<open>The codings a response names, over all its lines; the scrubber reads a body only when each is the identity.\<close>

definition codings :: "header \<Rightarrow> string list" where
  "codings h = map trimSpace (concat (map (split_on CHR '','') (headerValues h ''Content-Encoding'')))"

lemma unscrubbable_exact: "unscrubbableEncoding h = [] \<longleftrightarrow> (\<forall>c \<in> set (codings h). c = [] \<or> isIdentity c)"
proof (cases "find (\<lambda>c. c \<noteq> [] \<and> \<not> isIdentity c) (codings h)")
  case None
  then have "\<forall>c \<in> set (codings h). c = [] \<or> isIdentity c" by (auto simp: find_None_iff)
  then show ?thesis using None by (simp add: unscrubbableEncoding_def codings_def[symmetric])
next
  case (Some c)
  then have "c \<in> set (codings h) \<and> c \<noteq> [] \<and> \<not> isIdentity c" by (auto simp: find_Some_iff)
  then show ?thesis using Some by (auto simp: unscrubbableEncoding_def codings_def[symmetric])
qed

text \<open>\<open>Header.Set\<close>, and \<open>askForIdentity\<close>.\<close>

definition headerSet :: "header \<Rightarrow> string \<Rightarrow> string \<Rightarrow> header" where
  "headerSet h k v =
     (if map_of h k = None then h @ [(k, [v])] else map (\<lambda>(j, vs). if j = k then (j, [v]) else (j, vs)) h)"

definition askForIdentity :: "request \<Rightarrow> request" where
  "askForIdentity req = req\<lparr>rq_Header := headerSet (rq_Header req) ''Accept-Encoding'' ''identity''\<rparr>"

section \<open>Responses\<close>

text \<open>\<open>rs_ReqMethod\<close> is the method of the request it answers, when the response carries it.\<close>

record response =
  rs_Status :: int
  rs_Header :: header
  rs_Trailer :: header
  rs_NoBody :: bool
  rs_Src :: "(bytes \<times> read_error option) list"
  rs_ReqMethod :: "string option"
  rs_Length :: int
  rs_Chunked :: bool
  rs_Close :: bool

definition bodyless :: "response \<Rightarrow> bool" where
  "bodyless resp \<longleftrightarrow>
     (if rs_NoBody resp then True
      else if rs_ReqMethod resp = Some ''HEAD'' then True
      else rs_Status resp = 204 \<or> rs_Status resp = 304)"

fun scrub_values :: "scrubber \<Rightarrow> string list \<Rightarrow> string list \<times> scrubber" where
  "scrub_values s [] = ([], s)"
| "scrub_values s (v # vs) =
     (case scrub s v of (b, changed, s') \<Rightarrow>
        (case scrub_values s' vs of (ws, s'') \<Rightarrow> ((if changed then b else v) # ws, s'')))"

fun scrub_header :: "scrubber \<Rightarrow> header \<Rightarrow> header \<times> scrubber" where
  "scrub_header s [] = ([], s)"
| "scrub_header s ((k, vs) # h) =
     (case scrub_values s vs of (ws, s') \<Rightarrow> (case scrub_header s' h of (h', s'') \<Rightarrow> ((k, ws) # h', s'')))"

text \<open>What the guest is given to read: the body as it came, or through the scrubber.\<close>

datatype body = RawBody "(bytes \<times> read_error option) list" | ScrubbedBody scrubReader

record delivery =
  dv_enc :: string
  dv_Header :: header
  dv_Body :: body
  dv_hits :: "string list"

definition scrubResponse :: "secret list \<Rightarrow> response \<Rightarrow> delivery" where
  "scrubResponse secrets resp =
     (case newScrubber secrets of
        None \<Rightarrow> \<lparr>dv_enc = [], dv_Header = rs_Header resp, dv_Body = RawBody (rs_Src resp), dv_hits = []\<rparr>
      | Some s \<Rightarrow>
          (case scrub_header s (rs_Header resp) of
             (h, s') \<Rightarrow>
               if bodyless resp
               then \<lparr>dv_enc = [], dv_Header = h, dv_Body = RawBody (rs_Src resp), dv_hits = sc_hits s'\<rparr>
               else if unscrubbableEncoding h \<noteq> []
               then \<lparr>dv_enc = unscrubbableEncoding h, dv_Header = h, dv_Body = RawBody (rs_Src resp), dv_hits = sc_hits s'\<rparr>
               else \<lparr>dv_enc = [], dv_Header = h, dv_Body = ScrubbedBody (wrap s' (rs_Src resp)), dv_hits = sc_hits s'\<rparr>))"

text \<open>
  The guest's copy of a scrubbed body, read to its end with slices of the lengths \<open>ns\<close>, and the
  trailers: scrubbed when the body ends, with what the scrubber has seen by then.
\<close>

definition readBody :: "nat list \<Rightarrow> scrubReader \<Rightarrow> header \<Rightarrow> bytes \<times> read_error option \<times> header \<times> string list" where
  "readBody ns r trailer =
     (case read_all ns r of
        (b, err, r') \<Rightarrow>
          if err = Some EOF
          then (case scrub_header (sr_s r') trailer of (t, s) \<Rightarrow> (b, err, t, sc_hits s))
          else (b, err, trailer, sc_hits (sr_s r')))"

section \<open>Nothing bound comes back\<close>

definition no_pattern :: "bytes list \<Rightarrow> string \<Rightarrow> bool" where
  "no_pattern vs x \<longleftrightarrow> (\<forall>v \<in> set vs. \<forall>a b. x \<noteq> a @ v @ b)"

lemma no_pattern_free:
  assumes "\<forall>v \<in> set vs. v \<noteq> []"
  shows "no_pattern vs x \<longleftrightarrow> free vs (length x) x"
proof -
  have "(\<exists>a b. x = a @ v @ b) \<longleftrightarrow> (\<exists>k < length x. occurs_at v k x)" if "v \<noteq> []" for v
  proof
    assume "\<exists>a b. x = a @ v @ b"
    then obtain a b where x: "x = a @ v @ b" by blast
    then have "occurs_at v (length a) x" by (simp add: occurs_at_def)
    moreover have "length a < length x" using x that by (cases v) auto
    ultimately show "\<exists>k < length x. occurs_at v k x" by blast
  next
    assume "\<exists>k < length x. occurs_at v k x"
    then obtain k t where "drop k x = v @ t" by (auto simp: occurs_at_def hasPrefix_iff)
    then have "x = take k x @ v @ t" by (metis append_take_drop_id)
    then show "\<exists>a b. x = a @ v @ b" by blast
  qed
  then show ?thesis using assms unfolding no_pattern_def free_def by metis
qed

lemma scrub_clean:
  assumes "scrubber_ok s" and "scrub s x = (b, ch, t)"
  shows "no_pattern (pat_values s) (if ch then b else x) \<and> length (if ch then b else x) = length x \<and>
    scrubber_ok t \<and> pat_values t = pat_values s"
proof -
  note sp = scrub_spec[OF assms]
  have nn: "\<forall>v \<in> set (pat_values s). v \<noteq> []" using assms(1) by (simp add: scrubber_ok_def)
  have b: "no_pattern (pat_values s) b" using sp starred_length by (metis no_pattern_free[OF nn])
  have e: "\<not> ch \<Longrightarrow> b = x" using scrub_same[of s x b t] assms(2) by simp
  show ?thesis using b e sp assms(1) starred_length by (auto simp: scrubber_ok_def pat_values_def)
qed

lemma scrub_values_clean:
  "scrubber_ok s \<Longrightarrow> scrub_values s vs = (ws, t) \<Longrightarrow>
    (\<forall>w \<in> set ws. no_pattern (pat_values s) w) \<and> map length ws = map length vs \<and> scrubber_ok t \<and> pat_values t = pat_values s"
proof (induction vs arbitrary: s ws)
  case (Cons v vs)
  obtain b ch s' where b: "scrub s v = (b, ch, s')" by (metis prod_cases3)
  obtain us where u: "scrub_values s' vs = (us, t)" "ws = (if ch then b else v) # us"
    using Cons.prems(2) b by (auto split: prod.splits)
  note c = scrub_clean[OF Cons.prems(1) b]
  with Cons.IH[OF _ u(1)] u(2) show ?case by auto
qed simp

lemma scrub_header_clean:
  "scrubber_ok s \<Longrightarrow> scrub_header s h = (h', t) \<Longrightarrow>
    (\<forall>(k, ws) \<in> set h'. \<forall>w \<in> set ws. no_pattern (pat_values s) w) \<and> map fst h' = map fst h \<and>
    scrubber_ok t \<and> pat_values t = pat_values s"
proof (induction h arbitrary: s h')
  case (Cons f h)
  obtain k vs where f: "f = (k, vs)" by (cases f)
  obtain ws s' where w: "scrub_values s vs = (ws, s')" by fastforce
  obtain g where g: "scrub_header s' h = (g, t)" "h' = (k, ws) # g"
    using Cons.prems(2) f w by (auto split: prod.splits)
  note c = scrub_values_clean[OF Cons.prems(1) w]
  with Cons.IH[OF _ g(1)] g(2) f show ?case by auto
qed simp

text \<open>No value of a secret long enough to be scrubbed occurs in \<open>x\<close>.\<close>

definition no_secret :: "secret list \<Rightarrow> string \<Rightarrow> bool" where
  "no_secret secrets x \<longleftrightarrow> (\<forall>s \<in> set secrets. minScrub \<le> length (se_value s) \<longrightarrow> (\<forall>a b. x \<noteq> a @ se_value s @ b))"

definition star_free :: "secret list \<Rightarrow> bool" where
  "star_free secrets \<longleftrightarrow> (\<forall>s \<in> set secrets. star \<notin> set (se_value s))"

lemma newScrubber_ok:
  assumes "newScrubber secrets = Some s" and "star_free secrets"
  shows "scrubber_ok s" and "no_pattern (pat_values s) x = no_secret secrets x"
proof -
  note sp = newScrubber_spec[OF assms(1)]
  then have m: "v \<in> set (pat_values s) \<longleftrightarrow> (\<exists>sec \<in> set secrets. v = se_value sec \<and> minScrub \<le> length v)" for v by blast
  show "scrubber_ok s" unfolding scrubber_ok_def
  proof
    fix v assume v: "v \<in> set (pat_values s)"
    then obtain sec where "sec \<in> set secrets" "v = se_value sec" "minScrub \<le> length v" using m by blast
    note sec = this
    have "v \<noteq> []" using sec(3) by (cases v) (simp_all add: minScrub_def)
    moreover have "star \<notin> set v" using assms(2) sec(1,2) unfolding star_free_def by blast
    moreover have "length v \<le> sc_max s" using sp v by blast
    ultimately show "v \<noteq> [] \<and> star \<notin> set v \<and> length v \<le> sc_max s" by simp
  qed
  show "no_pattern (pat_values s) x = no_secret secrets x" unfolding no_pattern_def no_secret_def conjunct1[OF sp] by blast
qed

lemma newScrubber_Some:
  assumes "sec \<in> set secrets" and "minScrub \<le> length (se_value sec)"
  obtains s where "newScrubber secrets = Some s"
proof (cases "newScrubber secrets")
  case None
  obtain ps mx where c: "collect_pats secrets ([], 0) = (ps, mx)" by fastforce
  with None have "ps = []" by (auto simp: newScrubber_def split: if_splits)
  then show ?thesis using collect_pats_spec[OF c] assms by auto
qed simp

lemma readBody_clean:
  assumes "scrubber_ok s" and "readBody ns (wrap s src) trailer = (b, err, t, hits)"
  shows "no_pattern (pat_values s) b \<and> length b \<le> length (source_bytes src) \<and>
    (err \<noteq> None \<longrightarrow> length b = length (source_bytes src)) \<and>
    (err = Some EOF \<longrightarrow> (\<forall>(k, ws) \<in> set t. \<forall>w \<in> set ws. no_pattern (pat_values s) w)) \<and>
    (\<forall>i < length b. b ! i = source_bytes src ! i \<or> (b ! i = star \<and>
       (\<exists>v \<in> set (pat_values s). \<exists>k \<le> i. i < k + length v \<and> occurs_at v k (source_bytes src)))) \<and>
    (err = None \<longrightarrow> (\<forall>n \<in> set ns. 0 < n) \<longrightarrow> length ns \<le> length b)"
proof -
  obtain D e r where r: "read_all ns (wrap s src) = (D, e, r)" by (metis prod_cases3)
  have nn: "\<forall>v \<in> set (pat_values s). v \<noteq> []" using assms(1) by (simp add: scrubber_ok_def)
  have be: "b = D" "err = e" using assms(2) r by (auto simp: readBody_def split: if_splits prod.splits)
  have "scrub_inv s (source_bytes src) D r" using read_all_inv[OF assms(1) wrap_inv r] by simp
  then have "scrubber_ok (sr_s r)" "pat_values (sr_s r) = pat_values s"
    using assms(1) by (auto simp: scrub_inv_def scrubber_ok_def pat_values_def)
  note ok = this
  have c: "err = Some EOF \<longrightarrow> (\<forall>(k, ws) \<in> set t. \<forall>w \<in> set ws. no_pattern (pat_values s) w)"
  proof
    assume "err = Some EOF"
    then obtain u where "scrub_header (sr_s r) trailer = (t, u)"
      using assms(2) r be by (auto simp: readBody_def split: prod.splits)
    from scrub_header_clean[OF ok(1) this] ok(2) show "\<forall>(k, ws) \<in> set t. \<forall>w \<in> set ws. no_pattern (pat_values s) w" by simp
  qed
  note st = scrubbed_stream[OF assms(1) r, folded be]
  have p: "no_pattern (pat_values s) b" using st no_pattern_free[OF nn] by simp
  show ?thesis using p c conjunct1[OF conjunct2[OF st]] conjunct1[OF conjunct2[OF conjunct2[OF st]]]
      conjunct1[OF conjunct2[OF conjunct2[OF conjunct2[OF st]]]] conjunct2[OF conjunct2[OF conjunct2[OF conjunct2[OF st]]]]
    by (intro conjI) assumption+
qed

end
