(* ===== verification/Egress_Dial.thy ===== *)
theory Egress_Dial
  imports Egress_Policy
begin

text \<open>
  The addresses the proxy refuses to dial once a name has resolved (\<open>internal/egress/dial.go\<close>):
  the table of prefixes, the IPv6 forms that carry an IPv4 address, and the hook every dial runs.
\<close>

unbundle bit_operations_syntax

section \<open>The table\<close>

definition unsafePrefixes :: "prefix list" where
  "unsafePrefixes = [
     Prefix4 (v4 0 0 0 0) 8, Prefix4 (v4 10 0 0 0) 8, Prefix4 (v4 100 64 0 0) 10, Prefix4 (v4 127 0 0 0) 8,
     Prefix4 (v4 169 254 0 0) 16, Prefix4 (v4 172 16 0 0) 12, Prefix4 (v4 192 0 0 0) 24, Prefix4 (v4 192 0 2 0) 24,
     Prefix4 (v4 192 168 0 0) 16, Prefix4 (v4 198 18 0 0) 15, Prefix4 (v4 198 51 100 0) 24,
     Prefix4 (v4 203 0 113 0) 24, Prefix4 (v4 224 0 0 0) 4, Prefix4 (v4 240 0 0 0) 4,
     Prefix4 (v4 168 63 129 16) 32,
     Prefix6 0 128, Prefix6 1 128, Prefix6 0x0064ff9b000100000000000000000000 48,
     Prefix6 0xfc000000000000000000000000000000 7, Prefix6 0xfe800000000000000000000000000000 10,
     Prefix6 0xff000000000000000000000000000000 8]"

definition nat64WellKnown :: prefix where "nat64WellKnown = Prefix6 0x0064ff9b000000000000000000000000 96"
definition sixToFour :: prefix where "sixToFour = Prefix6 0x20020000000000000000000000000000 16"
definition v4Compatible :: prefix where "v4Compatible = Prefix6 0 96"

definition embeddedV4 :: "addr \<Rightarrow> addr option" where
  "embeddedV4 a =
     (case a of
        Addr6 w z \<Rightarrow>
          if prefix_contains nat64WellKnown a \<or> prefix_contains v4Compatible a then Some (Addr4 (ucast w))
          else if prefix_contains sixToFour a then Some (Addr4 (ucast (drop_bit 80 w)))
          else None
      | _ \<Rightarrow> None)"

text \<open>
  \<open>isUnsafeResolvedAddr\<close>; the call on an embedded address is written as the check of the table,
  because an IPv4 address embeds none.
\<close>

definition unsafe_table :: "addr \<Rightarrow> bool" where
  "unsafe_table a = list_ex (\<lambda>p. prefix_contains p a) unsafePrefixes"

definition isUnsafeResolvedAddr :: "addr \<Rightarrow> bool" where
  "isUnsafeResolvedAddr a =
     (let a = noZone (unmap a) in
      if a = NoAddr then True
      else case embeddedV4 a of Some v \<Rightarrow> unsafe_table v | None \<Rightarrow> unsafe_table a)"

section \<open>The dial\<close>

datatype dial_refusal = NotAnIP string | UnsafeAddr string addr

text \<open>The hook of a dial to \<open>host\<close>, on the numeric address about to be connected to.\<close>

definition refuseUnsafeResolvedAddr :: "string \<Rightarrow> string \<Rightarrow> dial_refusal option" where
  "refuseUnsafeResolvedAddr host address =
     (let ipStr = (case splitHostPort address of Some (ip, _) \<Rightarrow> ip | None \<Rightarrow> address) in
      case parseAddr ipStr of
        None \<Rightarrow> Some (NotAnIP ipStr)
      | Some a \<Rightarrow>
          let a = noZone (unmap a) in
          if isUnsafeResolvedAddr a then Some (UnsafeAddr host a) else None)"

text \<open>\<open>dialerFor\<close>: whether the hook is armed, and what the dialer does with an address.\<close>

definition dialerFor :: "string \<Rightarrow> string \<Rightarrow> dial_refusal option" where
  "dialerFor host address = (if parseIP host = None then refuseUnsafeResolvedAddr host address else None)"

section \<open>Ranges\<close>

text \<open>An IPv4 prefix as an interval.\<close>

lemma div_range:
  fixes a k m :: nat
  assumes "0 < m"
  shows "a div m = k \<longleftrightarrow> k * m \<le> a \<and> a < (k + 1) * m"
proof
  assume "a div m = k"
  then show "k * m \<le> a \<and> a < (k + 1) * m"
    using assms div_times_less_eq_dividend[of a m] dividend_less_times_div[of m a] by (auto simp: mult.commute)
next
  assume "k * m \<le> a \<and> a < (k + 1) * m"
  then show "a div m = k" by (intro div_nat_eqI) (simp_all add: mult.commute)
qed

text \<open>An IPv4 address as a number.\<close>

definition ip4 :: "nat \<Rightarrow> nat \<Rightarrow> nat \<Rightarrow> nat \<Rightarrow> nat" where
  "ip4 a b c d = ((a * 256 + b) * 256 + c) * 256 + d"

lemma unat_v4:
  assumes "ip4 x y z w < 2 ^ 32"
  shows "unat (v4 x y z w) = ip4 x y z w"
proof -
  have "bytes_val [x, y, z, w] = int (ip4 x y z w)" by (simp add: bytes_val_def ip4_def)
  then have "v4 x y z w = of_nat (ip4 x y z w)" by (simp add: v4_def)
  then show ?thesis using assms by (simp add: take_bit_nat_eq_self unat_of_nat)
qed

lemma prefix4_range:
  assumes "ip4 x y z w = k * 2 ^ (32 - n)" and "h + 1 = (k + 1) * 2 ^ (32 - n)" and "ip4 x y z w < 2 ^ 32"
  shows "prefix_contains (Prefix4 (v4 x y z w) n) (Addr4 a) \<longleftrightarrow> ip4 x y z w \<le> unat a \<and> unat a \<le> h"
proof -
  have "prefix_contains (Prefix4 (v4 x y z w) n) (Addr4 a) \<longleftrightarrow> unat (drop_bit (32 - n) a) = unat (drop_bit (32 - n) (v4 x y z w))"
    by (simp only: prefix_contains.simps word_unat_eq_iff)
  also have "\<dots> \<longleftrightarrow> unat a div 2 ^ (32 - n) = k"
    by (simp only: unat_drop_bit_eq unat_v4[OF assms(3)] assms(1)) (simp only: drop_bit_eq_div, simp)
  also have "\<dots> \<longleftrightarrow> k * 2 ^ (32 - n) \<le> unat a \<and> unat a < (k + 1) * 2 ^ (32 - n)"
    by (rule div_range) simp
  finally have "prefix_contains (Prefix4 (v4 x y z w) n) (Addr4 a) \<longleftrightarrow> ip4 x y z w \<le> unat a \<and> unat a < h + 1"
    by (simp only: assms(1,2))
  then show ?thesis by auto
qed

text \<open>The IPv4 addresses refused, as ranges with both ends.\<close>

definition unsafe_ranges :: "(nat \<times> nat) list" where
  "unsafe_ranges = [
     (ip4 0 0 0 0, ip4 0 255 255 255), (ip4 10 0 0 0, ip4 10 255 255 255), (ip4 100 64 0 0, ip4 100 127 255 255),
     (ip4 127 0 0 0, ip4 127 255 255 255), (ip4 169 254 0 0, ip4 169 254 255 255), (ip4 172 16 0 0, ip4 172 31 255 255),
     (ip4 192 0 0 0, ip4 192 0 0 255), (ip4 192 0 2 0, ip4 192 0 2 255), (ip4 192 168 0 0, ip4 192 168 255 255),
     (ip4 198 18 0 0, ip4 198 19 255 255), (ip4 198 51 100 0, ip4 198 51 100 255), (ip4 203 0 113 0, ip4 203 0 113 255),
     (ip4 224 0 0 0, ip4 239 255 255 255), (ip4 240 0 0 0, ip4 255 255 255 255), (ip4 168 63 129 16, ip4 168 63 129 16)]"

lemma unsafe_table4: "unsafe_table (Addr4 a) \<longleftrightarrow> list_ex (\<lambda>(l, h). l \<le> unat a \<and> unat a \<le> h) unsafe_ranges"
proof -
  have r:
    "prefix_contains (Prefix4 (v4 0 0 0 0) 8) (Addr4 a) \<longleftrightarrow> ip4 0 0 0 0 \<le> unat a \<and> unat a \<le> ip4 0 255 255 255"
    "prefix_contains (Prefix4 (v4 10 0 0 0) 8) (Addr4 a) \<longleftrightarrow> ip4 10 0 0 0 \<le> unat a \<and> unat a \<le> ip4 10 255 255 255"
    "prefix_contains (Prefix4 (v4 100 64 0 0) 10) (Addr4 a) \<longleftrightarrow> ip4 100 64 0 0 \<le> unat a \<and> unat a \<le> ip4 100 127 255 255"
    "prefix_contains (Prefix4 (v4 127 0 0 0) 8) (Addr4 a) \<longleftrightarrow> ip4 127 0 0 0 \<le> unat a \<and> unat a \<le> ip4 127 255 255 255"
    "prefix_contains (Prefix4 (v4 169 254 0 0) 16) (Addr4 a) \<longleftrightarrow> ip4 169 254 0 0 \<le> unat a \<and> unat a \<le> ip4 169 254 255 255"
    "prefix_contains (Prefix4 (v4 172 16 0 0) 12) (Addr4 a) \<longleftrightarrow> ip4 172 16 0 0 \<le> unat a \<and> unat a \<le> ip4 172 31 255 255"
    "prefix_contains (Prefix4 (v4 192 0 0 0) 24) (Addr4 a) \<longleftrightarrow> ip4 192 0 0 0 \<le> unat a \<and> unat a \<le> ip4 192 0 0 255"
    "prefix_contains (Prefix4 (v4 192 0 2 0) 24) (Addr4 a) \<longleftrightarrow> ip4 192 0 2 0 \<le> unat a \<and> unat a \<le> ip4 192 0 2 255"
    "prefix_contains (Prefix4 (v4 192 168 0 0) 16) (Addr4 a) \<longleftrightarrow> ip4 192 168 0 0 \<le> unat a \<and> unat a \<le> ip4 192 168 255 255"
    "prefix_contains (Prefix4 (v4 198 18 0 0) 15) (Addr4 a) \<longleftrightarrow> ip4 198 18 0 0 \<le> unat a \<and> unat a \<le> ip4 198 19 255 255"
    "prefix_contains (Prefix4 (v4 198 51 100 0) 24) (Addr4 a) \<longleftrightarrow> ip4 198 51 100 0 \<le> unat a \<and> unat a \<le> ip4 198 51 100 255"
    "prefix_contains (Prefix4 (v4 203 0 113 0) 24) (Addr4 a) \<longleftrightarrow> ip4 203 0 113 0 \<le> unat a \<and> unat a \<le> ip4 203 0 113 255"
    "prefix_contains (Prefix4 (v4 224 0 0 0) 4) (Addr4 a) \<longleftrightarrow> ip4 224 0 0 0 \<le> unat a \<and> unat a \<le> ip4 239 255 255 255"
    "prefix_contains (Prefix4 (v4 240 0 0 0) 4) (Addr4 a) \<longleftrightarrow> ip4 240 0 0 0 \<le> unat a \<and> unat a \<le> ip4 255 255 255 255"
    "prefix_contains (Prefix4 (v4 168 63 129 16) 32) (Addr4 a) \<longleftrightarrow> ip4 168 63 129 16 \<le> unat a \<and> unat a \<le> ip4 168 63 129 16"
    by (rule prefix4_range[where k = 0], simp add: ip4_def, simp add: ip4_def, simp add: ip4_def,
        rule prefix4_range[where k = 10], simp add: ip4_def, simp add: ip4_def, simp add: ip4_def,
        rule prefix4_range[where k = 401], simp add: ip4_def, simp add: ip4_def, simp add: ip4_def,
        rule prefix4_range[where k = 127], simp add: ip4_def, simp add: ip4_def, simp add: ip4_def,
        rule prefix4_range[where k = 43518], simp add: ip4_def, simp add: ip4_def, simp add: ip4_def,
        rule prefix4_range[where k = 2753], simp add: ip4_def, simp add: ip4_def, simp add: ip4_def,
        rule prefix4_range[where k = 12582912], simp add: ip4_def, simp add: ip4_def, simp add: ip4_def,
        rule prefix4_range[where k = 12582914], simp add: ip4_def, simp add: ip4_def, simp add: ip4_def,
        rule prefix4_range[where k = 49320], simp add: ip4_def, simp add: ip4_def, simp add: ip4_def,
        rule prefix4_range[where k = 25353], simp add: ip4_def, simp add: ip4_def, simp add: ip4_def,
        rule prefix4_range[where k = 12989284], simp add: ip4_def, simp add: ip4_def, simp add: ip4_def,
        rule prefix4_range[where k = 13303921], simp add: ip4_def, simp add: ip4_def, simp add: ip4_def,
        rule prefix4_range[where k = 14], simp add: ip4_def, simp add: ip4_def, simp add: ip4_def,
        rule prefix4_range[where k = 15], simp add: ip4_def, simp add: ip4_def, simp add: ip4_def,
        rule prefix4_range[where k = 2822734096], simp add: ip4_def, simp add: ip4_def, simp add: ip4_def)
  have o: "prefix_contains (Prefix6 p n) (Addr4 a) \<longleftrightarrow> False" for p n by simp
  show ?thesis by (simp only: unsafe_table_def unsafePrefixes_def unsafe_ranges_def list_ex_Cons_iff list_ex_Nil_iff r o prod.case simp_thms)
qed

section \<open>Spellings of an IPv4 address\<close>

lemma split_low:
  fixes hi :: "128 word" and a :: "32 word"
  assumes "take_bit 96 hi = hi"
  shows "drop_bit 32 (push_bit 32 hi OR ucast a) = hi" "ucast (push_bit 32 hi OR ucast a) = a"
proof -
  have h: "bit hi n \<Longrightarrow> n < 96" for n using assms by (metis bit_take_bit_iff)
  show "drop_bit 32 (push_bit 32 hi OR ucast a) = hi"
    by (rule bit_word_eqI) (auto simp: bit_simps dest: h bit_imp_le_length)
  show "ucast (push_bit 32 hi OR ucast a) = a"
    by (rule bit_word_eqI) (auto simp: bit_simps dest: bit_imp_le_length)
qed

lemma six_parts:
  fixes hi :: "128 word" and a :: "32 word" and r :: "80 word"
  assumes "take_bit 16 hi = hi"
  shows "drop_bit 112 (push_bit 112 hi OR push_bit 80 (ucast a) OR ucast r :: 128 word) = hi"
    "ucast (drop_bit 80 (push_bit 112 hi OR push_bit 80 (ucast a) OR ucast r :: 128 word)) = a"
proof -
  have l: "bit hi n \<Longrightarrow> n < 16" for n using assms by (metis bit_take_bit_iff)
  show "drop_bit 112 (push_bit 112 hi OR push_bit 80 (ucast a) OR ucast r :: 128 word) = hi"
    by (rule bit_word_eqI) (auto simp: bit_simps dest: l bit_imp_le_length)
  show "ucast (drop_bit 80 (push_bit 112 hi OR push_bit 80 (ucast a) OR ucast r :: 128 word)) = a"
    by (rule bit_word_eqI) (auto simp: bit_simps dest: bit_imp_le_length)
qed

lemma embedded4:
  "isUnsafeResolvedAddr (Addr4 a) = unsafe_table (Addr4 a)"
  by (simp add: isUnsafeResolvedAddr_def unmap_def noZone_def embeddedV4_def)

lemma mapped_unsafe:
  "isUnsafeResolvedAddr (Addr6 (push_bit 32 0xFFFF OR ucast (a :: 32 word)) z) = unsafe_table (Addr4 a)"
proof -
  have "take_bit 96 (0xFFFF :: 128 word) = 0xFFFF" by simp
  from split_low[OF this, of a] show ?thesis
    unfolding isUnsafeResolvedAddr_def unmap_def noZone_def embeddedV4_def Let_def addr.case by simp
qed

lemma low_unsafe:
  fixes hi :: "128 word" and a :: "32 word"
  assumes "take_bit 96 hi = hi" and "hi = 0 \<or> hi = 0x0064ff9b0000000000000000"
  shows "isUnsafeResolvedAddr (Addr6 (push_bit 32 hi OR ucast a) z) = unsafe_table (Addr4 a)"
proof -
  let ?w = "push_bit 32 hi OR ucast a :: 128 word"
  note s = split_low[OF assms(1), of a]
  have n: "drop_bit 32 ?w \<noteq> 0xFFFF" using s(1) assms(2) by auto
  have "prefix_contains nat64WellKnown (Addr6 ?w []) \<or> prefix_contains v4Compatible (Addr6 ?w [])"
    using assms(2) s(1) by (auto simp: nat64WellKnown_def v4Compatible_def)
  then have "embeddedV4 (Addr6 ?w []) = Some (Addr4 a)" using s(2) by (simp add: embeddedV4_def)
  then show ?thesis using n by (simp add: isUnsafeResolvedAddr_def unmap_def noZone_def)
qed

lemma six_diverts:
  fixes w :: "128 word"
  assumes "drop_bit 112 w = 0x2002"
  shows "isUnsafeResolvedAddr (Addr6 w z) = unsafe_table (Addr4 (ucast (drop_bit 80 w)))"
proof -
  have d: "drop_bit 80 (drop_bit 32 w) = 0x2002" using assms by simp
  have n: "drop_bit 32 w \<noteq> 0xFFFF" "drop_bit 32 w \<noteq> 0" "drop_bit 32 w \<noteq> 0x0064ff9b0000000000000000"
  proof -
    have "drop_bit 80 (0xFFFF :: 128 word) = 0" "drop_bit 80 (0x0064ff9b0000000000000000 :: 128 word) = 0x64" by simp_all
    moreover have "(0 :: 128 word) \<noteq> 0x2002" "(0x64 :: 128 word) \<noteq> 0x2002" by simp_all
    ultimately show "drop_bit 32 w \<noteq> 0xFFFF" "drop_bit 32 w \<noteq> 0" "drop_bit 32 w \<noteq> 0x0064ff9b0000000000000000"
      using d by (metis drop_bit_of_0)+
  qed
  have "\<not> prefix_contains nat64WellKnown (Addr6 w [])" "\<not> prefix_contains v4Compatible (Addr6 w [])"
    using n(2,3) by (simp_all add: nat64WellKnown_def v4Compatible_def)
  moreover have "prefix_contains sixToFour (Addr6 w [])" using assms by (simp add: sixToFour_def)
  ultimately have "embeddedV4 (Addr6 w []) = Some (Addr4 (ucast (drop_bit 80 w)))" by (simp add: embeddedV4_def)
  then show ?thesis using n(1) by (simp add: isUnsafeResolvedAddr_def unmap_def noZone_def)
qed

lemma six_unsafe:
  fixes a :: "32 word" and r :: "80 word"
  shows "isUnsafeResolvedAddr (Addr6 (push_bit 112 0x2002 OR push_bit 80 (ucast a) OR ucast r) z) = unsafe_table (Addr4 a)"
proof -
  have "take_bit 16 (0x2002 :: 128 word) = 0x2002" by simp
  from six_parts[OF this, of a r] six_diverts show ?thesis by metis
qed

lemma zone_unsafe: "isUnsafeResolvedAddr (Addr6 w z) = isUnsafeResolvedAddr (Addr6 w [])"
  by (simp add: isUnsafeResolvedAddr_def unmap_def noZone_def)

end
