(* ===== verification/Egress_Proxy.thy ===== *)
theory Egress_Proxy
  imports Egress_Response Egress_Dial Utf8
begin

text \<open>
  The proxy (\<open>internal/egress/proxy.go\<close>): who it serves, what target a request names, the
  decision on it, and the record of every attempt. The proxy's callbacks are the lists of the calls
  made to them; the texts it answers with are constructors of \<open>reply\<close> with what they quote.
\<close>

section \<open>Records\<close>

datatype mode = ModeNone | ModeTunnelled | ModeTerminated | ModePlain | ModeDirectTLS

datatype reason =
    ReasonNone | ReasonNotAllowed | ReasonBadPort | ReasonBadRequest | ReasonDialFailed | ReasonPinned
  | ReasonHeaderTooLarge | ReasonUnsafeResolvedAddr | ReasonForeignPeer | ReasonStalled | ReasonCeilingReached

text \<open>An address in a text field is kept as the address it is the text of.\<close>

record attempt =
  at_Host :: string
  at_Port :: int
  at_Allowed :: bool
  at_Reason :: reason
  at_Mode :: mode
  at_BytesIn :: int
  at_BytesOut :: int
  at_Peer :: "addr option"
  at_ResolvedAddr :: "addr option"
  at_Detail :: string

definition refused :: "string \<Rightarrow> int \<Rightarrow> reason \<Rightarrow> attempt" where
  "refused host port r =
     \<lparr>at_Host = host, at_Port = port, at_Allowed = False, at_Reason = r, at_Mode = ModeNone, at_BytesIn = 0,
      at_BytesOut = 0, at_Peer = None, at_ResolvedAddr = None, at_Detail = []\<rparr>"

definition allowed_attempt :: "string \<Rightarrow> int \<Rightarrow> mode \<Rightarrow> int \<Rightarrow> int \<Rightarrow> reason \<Rightarrow> attempt" where
  "allowed_attempt host port md bin bout r =
     (refused host port r)\<lparr>at_Allowed := True, at_Mode := md, at_BytesIn := bin, at_BytesOut := bout\<rparr>"

record proxy =
  px_Policy :: policy
  px_Peer :: addr
  px_hasCA :: bool
  px_events :: "attempt list"
  px_used :: "(string \<times> string) list"
  px_withheld :: "(string \<times> string \<times> withheld) list"
  px_scrubbed :: "(string \<times> string) list"
  px_unscrubbable :: "(string \<times> string) list"
  px_foreignSeen :: "addr option list"
  px_lastActive :: int

definition touch :: "int \<Rightarrow> proxy \<Rightarrow> proxy" where
  "touch now p = p\<lparr>px_lastActive := now\<rparr>"

definition report :: "int \<Rightarrow> attempt \<Rightarrow> proxy \<Rightarrow> proxy" where
  "report now a p = (touch now p)\<lparr>px_events := px_events p @ [a]\<rparr>"

section \<open>Who is served\<close>

datatype remote = NotTCP | BadSlice | RemoteIP addr

definition maxForeignPeersRecorded :: nat where "maxForeignPeersRecorded = 256"

definition reportForeignPeer :: "addr option \<Rightarrow> proxy \<Rightarrow> proxy" where
  "reportForeignPeer from_addr p =
     (if from_addr \<in> set (px_foreignSeen p) \<or> maxForeignPeersRecorded \<le> length (px_foreignSeen p) then p
      else p\<lparr>px_foreignSeen := from_addr # px_foreignSeen p,
             px_events := px_events p @ [(refused [] 0 ReasonForeignPeer)\<lparr>at_Peer := from_addr\<rparr>]\<rparr>)"

definition foreignPeer :: "remote \<Rightarrow> proxy \<Rightarrow> bool \<times> proxy" where
  "foreignPeer r p =
     (if px_Peer p = NoAddr then (False, p)
      else case r of
             NotTCP \<Rightarrow> (True, reportForeignPeer None p)
           | BadSlice \<Rightarrow> (True, reportForeignPeer None p)
           | RemoteIP a \<Rightarrow>
               if unmap a \<noteq> unmap (px_Peer p) then (True, reportForeignPeer (Some (unmap a)) p) else (False, p))"

section \<open>The target of a request\<close>

datatype target_error = NoHost | BadPort string | HostTooLong nat | BadHost string

definition maxHostnameBytes :: nat where "maxHostnameBytes = 253"

definition target_of :: "request \<Rightarrow> string" where
  "target_of req =
     (if rq_Method req = ''CONNECT'' then (if rq_URLHost req = [] then rq_Host req else rq_URLHost req)
      else if rq_URLHost req \<noteq> [] then rq_URLHost req else rq_Host req)"

definition splitTarget :: "(string \<Rightarrow> string) \<Rightarrow> request \<Rightarrow> target_error + (string \<times> int)" where
  "splitTarget uni req =
     (let target = target_of req in
      if target = [] then Inl NoHost
      else let (host, portStr) =
             (case splitHostPort target of
                Some hp \<Rightarrow> hp
              | None \<Rightarrow> (target, if rq_Method req = ''CONNECT'' \<or> rq_URLScheme req = ''https'' then ''443'' else ''80''))
           in case atoi portStr of
                None \<Rightarrow> Inl (BadPort portStr)
              | Some port \<Rightarrow>
                  if port < 1 \<or> 65535 < port then Inl (BadPort portStr)
                  else let host = toLower uni host in
                    if maxHostnameBytes < length host then Inl (HostTooLong (length host))
                    else if \<not> plausibleHost host then Inl (BadHost host)
                    else Inr (host, port))"

section \<open>Answers\<close>

datatype reply =
    RBadTarget target_error
  | REgressHost string
  | REgressPort string int
  | RNoCA
  | RLeaf string
  | RResolvedAddr string
  | RUnreachable string
  | RStalled
  | RCeiling
  | RHeaderTooLarge
  | RUnscrubbable string string

text \<open>Dropping bytes from the end until the rest is UTF-8, as two error texts are cut.\<close>

function trim_valid :: "string \<Rightarrow> string" where
  "trim_valid s = (if s = [] \<or> valid_utf8 s then s else trim_valid (butlast s))"
  by pat_completeness auto

termination
  by (relation "measure length") auto

declare trim_valid.simps [simp del]

definition maxAttemptDetail :: nat where "maxAttemptDetail = 200"

definition detailOf :: "string option \<Rightarrow> string" where
  "detailOf err =
     (case err of
        None \<Rightarrow> []
      | Some d \<Rightarrow>
          if maxAttemptDetail < length d
          then trim_valid (take maxAttemptDetail d) @ [CHR 0xE2, CHR 0x80, CHR 0xA6] else d)"

definition maxRefusedEncoding :: nat where "maxRefusedEncoding = 64"

definition unscrubbableRefusal :: "string \<Rightarrow> string \<Rightarrow> reply" where
  "unscrubbableRefusal host enc =
     RUnscrubbable host (if maxRefusedEncoding < length enc then trim_valid (take maxRefusedEncoding enc) else enc)"

text \<open>A failed dial: the hook refused the address, or the network did, with the address if it names one.\<close>

datatype dial_error = DialUnsafe addr | DialFailed "addr option" string

definition reportDialFailure :: "int \<Rightarrow> string \<Rightarrow> int \<Rightarrow> dial_error \<Rightarrow> proxy \<Rightarrow> proxy \<times> int \<times> reply" where
  "reportDialFailure now host port err p =
     (case err of
        DialUnsafe a \<Rightarrow>
          (report now ((refused host port ReasonUnsafeResolvedAddr)\<lparr>at_ResolvedAddr := Some a\<rparr>) p, 403, RResolvedAddr host)
      | DialFailed a text \<Rightarrow>
          (report now ((refused host port ReasonDialFailed)\<lparr>at_ResolvedAddr := a, at_Detail := detailOf (Some text)\<rparr>) p,
           502, RUnreachable host))"

section \<open>The decision\<close>

datatype read_outcome = ReqOK request | ReqEOF | ReqBad

datatype action =
    Dropped
  | Answered int reply
  | GoTerminate string int "secret list"
  | GoTunnel string int
  | GoForward request string int

definition decide :: "(string \<Rightarrow> string) \<Rightarrow> int \<Rightarrow> request \<Rightarrow> proxy \<Rightarrow> proxy \<times> action" where
  "decide uni now req p =
     (case splitTarget uni req of
        Inl err \<Rightarrow> (report now (refused [] 0 ReasonBadRequest) p, Answered 400 (RBadTarget err))
      | Inr (host, port) \<Rightarrow>
          if \<not> allowsHost uni (px_Policy p) host
          then (report now (refused host port ReasonNotAllowed) p, Answered 403 (REgressHost host))
          else if \<not> allowsPort (px_Policy p) port
          then (report now (refused host port ReasonBadPort) p, Answered 403 (REgressPort host port))
          else if rq_Method req = ''CONNECT''
          then let bound = secretsFor uni (px_Policy p) host
               in (p, if bound \<noteq> [] then GoTerminate host port bound else GoTunnel host port)
          else (p, GoForward req host port))"

definition handle :: "(string \<Rightarrow> string) \<Rightarrow> int \<Rightarrow> remote \<Rightarrow> read_outcome \<Rightarrow> proxy \<Rightarrow> proxy \<times> action" where
  "handle uni now r out p =
     (case foreignPeer r p of
        (True, p') \<Rightarrow> (p', Dropped)
      | (False, p') \<Rightarrow>
          let p = touch now p' in
          (case out of
             ReqBad \<Rightarrow> (report now (refused [] 0 ReasonBadRequest) p, Dropped)
           | ReqEOF \<Rightarrow> (p, Dropped)
           | ReqOK req \<Rightarrow> decide uni now req p))"

end
