(* ===== verification/Egress_Legs.thy ===== *)
theory Egress_Legs
  imports Egress_Proxy
begin

text \<open>
  The three ways a request leaves the proxy: \<open>tunnel\<close> and \<open>forwardHTTP\<close> of
  \<open>internal/egress/proxy.go\<close>, and the keep-alive loop of \<open>terminate\<close>
  (\<open>internal/egress/terminate.go\<close>). What the guest, the origin and the clock do is an argument:
  the outcome of each dial, read, round trip and write, and how long each wait took.
\<close>

section \<open>Ends\<close>

datatype copy_error = CopyTimeout | CopyOther

definition closedBy :: "bool \<Rightarrow> copy_error option list \<Rightarrow> reason" where
  "closedBy pastHard errs =
     (if list_ex (\<lambda>e. e = Some CopyTimeout) errs
      then if pastHard then ReasonCeilingReached else ReasonStalled
      else ReasonNone)"

text \<open>\<open>notAfter\<close>, \<open>connCeiling\<close> and \<open>bodyStallBound\<close>, on nanoseconds.\<close>

definition second :: int where "second = 1000000000"
definition readHeaderTimeout :: int where "readHeaderTimeout = 10 * second"
definition maxRequestsPerTerminatedConn :: nat where "maxRequestsPerTerminatedConn = 4096"
definition terminatedIdleTimeout :: int where "terminatedIdleTimeout = 2 * 60 * second"
definition maxTerminatedIdleTotal :: int where "maxTerminatedIdleTotal = 10 * 60 * second"
definition bodyStallTimeout :: int where "bodyStallTimeout = 10 * second"
definition maxTerminatedConnTime :: int where "maxTerminatedConnTime = 3600 * second"

definition notAfter :: "int \<Rightarrow> int \<Rightarrow> int" where
  "notAfter t ceiling = (if ceiling < t then ceiling else t)"

definition connCeiling :: "int \<Rightarrow> int" where
  "connCeiling override = (if 0 < override then override else maxTerminatedConnTime)"

definition bodyStallBound :: "int \<Rightarrow> int" where
  "bodyStallBound override = (if 0 < override then override else bodyStallTimeout)"

section \<open>The tunnel\<close>

record tunnel_io =
  tn_now :: int
  tn_dial :: "dial_error option"
  tn_established :: bool
  tn_out :: int
  tn_in :: int
  tn_outErr :: "copy_error option"
  tn_inErr :: "copy_error option"
  tn_pastHard :: bool

definition tunnel :: "string \<Rightarrow> int \<Rightarrow> tunnel_io \<Rightarrow> proxy \<Rightarrow> proxy \<times> (int \<times> reply) option" where
  "tunnel host port i p =
     (case tn_dial i of
        Some err \<Rightarrow> (case reportDialFailure (tn_now i) host port err p of (p', code, r) \<Rightarrow> (p', Some (code, r)))
      | None \<Rightarrow>
          if \<not> tn_established i then (p, None)
          else (report (tn_now i)
                  (allowed_attempt host port ModeTunnelled (tn_in i) (tn_out i)
                     (closedBy (tn_pastHard i) [tn_outErr i, tn_inErr i])) p, None))"

section \<open>A plain request\<close>

definition joinHostPort :: "string \<Rightarrow> int \<Rightarrow> string" where
  "joinHostPort host port =
     (if CHR '':'' \<in> set host then ''['' @ host @ '']:'' @ itoa port else host @ '':'' @ itoa port)"

definition scrubbed_events :: "string list \<Rightarrow> string \<Rightarrow> proxy \<Rightarrow> proxy" where
  "scrubbed_events hits host p = p\<lparr>px_scrubbed := px_scrubbed p @ map (\<lambda>n. (n, host)) hits\<rparr>"

text \<open>
  What the guest gets of a response and the credentials seen in it: the body read with slices of the
  lengths \<open>ns\<close> until it ends or the write of the response fails.
\<close>

definition deliver_body :: "nat list \<Rightarrow> response \<Rightarrow> delivery \<Rightarrow> bytes \<times> header \<times> string list" where
  "deliver_body ns resp dv =
     (case dv_Body dv of
        RawBody src \<Rightarrow> (take (sum_list ns) (source_bytes src), rs_Trailer resp, dv_hits dv)
      | ScrubbedBody r \<Rightarrow> (case readBody ns r (rs_Trailer resp) of (b, err, t, hits) \<Rightarrow> (b, t, hits)))"

record forward_io =
  fw_now :: int
  fw_pastHard :: bool
  fw_stalled :: bool
  fw_trip :: "dial_error + response"
  fw_ns :: "nat list"
  fw_werr :: "copy_error option"

definition prepare_forward :: "(string \<Rightarrow> string) \<Rightarrow> policy \<Rightarrow> request \<Rightarrow> string \<Rightarrow> int \<Rightarrow> request" where
  "prepare_forward uni pol req host port =
     (let req = (if secretsFor uni pol host \<noteq> [] then askForIdentity req else req);
          req = (if rq_URLScheme req = [] then req\<lparr>rq_URLScheme := ''http''\<rparr> else req)
      in if rq_URLHost req = [] then req\<lparr>rq_URLHost := joinHostPort host port\<rparr> else req)"

text \<open>The result: the proxy, the request sent upstream, an answer of its own or the body delivered.\<close>

definition forwardHTTP ::
  "(string \<Rightarrow> string) \<Rightarrow> request \<Rightarrow> string \<Rightarrow> int \<Rightarrow> forward_io \<Rightarrow> proxy \<Rightarrow> proxy \<times> request \<times> ((int \<times> reply) + bytes)" where
  "forwardHTTP uni req host port i p =
     (let https = (rq_URLScheme req = ''https'');
          bound = secretsFor uni (px_Policy p) host;
          p = (if bound \<noteq> []
               then p\<lparr>px_withheld := px_withheld p @
                 [(se_Name (hd bound), host, if https then WithheldNotViaConnect else WithheldUnencrypted)]\<rparr>
               else p);
          sent = prepare_forward uni (px_Policy p) req host port
      in case fw_trip i of
           Inl err \<Rightarrow>
             if fw_pastHard i
             then (report (fw_now i) (refused host port ReasonCeilingReached) p, sent, Inl (504, RCeiling))
             else if fw_stalled i
             then (report (fw_now i) (refused host port ReasonStalled) p, sent, Inl (408, RStalled))
             else (case reportDialFailure (fw_now i) host port err p of (p', code, r) \<Rightarrow> (p', sent, Inl (code, r)))
         | Inr resp \<Rightarrow>
             let mode = (if https then ModeDirectTLS else ModePlain);
                 out = (if 0 < rq_Length req then rq_Length req else 0);
                 dv = scrubResponse (secretsFor uni (px_Policy p) host) resp
             in if dv_enc dv \<noteq> []
                then (report (fw_now i) (allowed_attempt host port mode 0 out ReasonNone)
                        (scrubbed_events (dv_hits dv) host
                           (p\<lparr>px_unscrubbable := px_unscrubbable p @ [(host, dv_enc dv)]\<rparr>)),
                      sent, Inl (502, unscrubbableRefusal host (dv_enc dv)))
                else (case deliver_body (fw_ns i) resp dv of
                        (b, t, hits) \<Rightarrow>
                          (report (fw_now i)
                             (allowed_attempt host port mode (int (length b)) out (closedBy (fw_pastHard i) [fw_werr i]))
                             (scrubbed_events hits host p), sent, Inr b)))"

section \<open>A terminated connection\<close>

text \<open>
  One turn of the keep-alive loop: how long the guest was silent and whether a byte came, how long its
  header took and what it was, the round trip, and the write of the response.
\<close>

datatype head_outcome = HeadOK request | HeadTooLarge | HeadEOF | HeadBad

record turn =
  tu_now :: int
  tu_pastHard :: bool
  tu_wait :: int
  tu_byte :: bool
  tu_head :: int
  tu_read :: head_outcome
  tu_trip_time :: int
  tu_wroteHeaders :: bool
  tu_trip :: "dial_error + response"
  tu_ns :: "nat list"
  tu_werr :: bool

record conn =
  cn_proxy :: proxy
  cn_requests :: nat
  cn_idle :: int
  cn_in :: int
  cn_out :: int
  cn_sent :: "(request \<times> secret option \<times> bool) list"
  cn_answers :: "(int \<times> reply) list"

text \<open>
  How a turn ends: another one follows, the loop breaks and the connection is summed up, or the
  function returns at once.
\<close>

datatype turn_end = Again | Break | Return

definition wait_of :: "int \<Rightarrow> nat \<Rightarrow> int \<Rightarrow> int" where
  "wait_of idleBudget requests idle =
     (let wait = (if requests = 0 then readHeaderTimeout else terminatedIdleTimeout);
          left = idleBudget - idle
      in if left < wait then left else wait)"

definition secret_event :: "secret option \<Rightarrow> bool \<Rightarrow> string \<Rightarrow> proxy \<Rightarrow> proxy" where
  "secret_event attached gone host p =
     (case attached of
        Some s \<Rightarrow> if gone then p\<lparr>px_used := px_used p @ [(se_Name s, host)]\<rparr> else p
      | None \<Rightarrow> p)"

text \<open>The request as it is sent upstream, the credential attached, and the reason for one withheld.\<close>

definition prepare_upstream ::
  "(string \<Rightarrow> string) \<Rightarrow> secret list \<Rightarrow> string \<Rightarrow> int \<Rightarrow> request \<Rightarrow> request \<times> secret option \<times> withheld" where
  "prepare_upstream uni bound host port req =
     (let req = req\<lparr>rq_URLScheme := ''https'', rq_URLHost := joinHostPort host port\<rparr>;
          req = (if bound \<noteq> [] then askForIdentity req else req)
      in case pick uni bound req host of
           (Some s, why) \<Rightarrow>
             (req\<lparr>rq_Header := headerSet (rq_Header req) ''Authorization'' (secretHeader s)\<rparr>, Some s, why)
         | (None, why) \<Rightarrow> (req, None, why))"

definition withheld_event :: "secret list \<Rightarrow> string \<Rightarrow> secret option \<Rightarrow> withheld \<Rightarrow> proxy \<Rightarrow> proxy" where
  "withheld_event bound host attached why p =
     (if attached = None \<and> bound \<noteq> []
      then p\<lparr>px_withheld := px_withheld p @ [(se_Name (hd bound), host, why)]\<rparr> else p)"

text \<open>From the round trip to the end of the turn.\<close>

definition exchange ::
  "(string \<Rightarrow> string) \<Rightarrow> string \<Rightarrow> int \<Rightarrow> request \<Rightarrow> request \<Rightarrow> secret option \<Rightarrow> turn \<Rightarrow> conn \<Rightarrow> conn \<times> turn_end" where
  "exchange uni host port req sent attached t c =
     (let c = c\<lparr>cn_idle := cn_idle c + tu_trip_time t, cn_proxy := touch (tu_now t) (cn_proxy c)\<rparr>;
          gone = (\<not> isl (tu_trip t) \<or> tu_wroteHeaders t);
          c = c\<lparr>cn_proxy := secret_event attached gone host (cn_proxy c), cn_sent := cn_sent c @ [(sent, attached, gone)]\<rparr>
      in case tu_trip t of
           Inl err \<Rightarrow>
             (case reportDialFailure (tu_now t) host port err (cn_proxy c) of
                (p, code, r) \<Rightarrow> (c\<lparr>cn_proxy := p, cn_answers := cn_answers c @ [(code, r)]\<rparr>, Return))
         | Inr resp \<Rightarrow>
             let c = c\<lparr>cn_out := cn_out c + (if 0 < rq_Length req then rq_Length req else 0)\<rparr>;
                 dv = scrubResponse (secretsFor uni (px_Policy (cn_proxy c)) host) resp
             in if dv_enc dv \<noteq> []
                then (c\<lparr>cn_proxy := scrubbed_events (dv_hits dv) host
                          ((cn_proxy c)\<lparr>px_unscrubbable := px_unscrubbable (cn_proxy c) @ [(host, dv_enc dv)]\<rparr>),
                        cn_answers := cn_answers c @ [(502, unscrubbableRefusal host (dv_enc dv))]\<rparr>, Break)
                else let c = c\<lparr>cn_in := cn_in c + (if 0 < rs_Length resp then rs_Length resp else 0)\<rparr>;
                         indeterminate = (rs_Length resp < 0 \<and> \<not> rs_Chunked resp)
                     in case deliver_body (tu_ns t) resp dv of
                          (b, tr, hits) \<Rightarrow>
                            (c\<lparr>cn_proxy := scrubbed_events hits host (cn_proxy c)\<rparr>,
                             if tu_werr t \<or> indeterminate \<or> rs_Close resp \<or> rq_Close req then Break else Again))"

definition turn_step ::
  "(string \<Rightarrow> string) \<Rightarrow> int \<Rightarrow> string \<Rightarrow> int \<Rightarrow> secret list \<Rightarrow> turn \<Rightarrow> conn \<Rightarrow> conn \<times> turn_end" where
  "turn_step uni idleBudget host port bound t c =
     (if maxRequestsPerTerminatedConn \<le> cn_requests c \<or> tu_pastHard t then (c, Break)
      else if wait_of idleBudget (cn_requests c) (cn_idle c) \<le> 0 then (c, Break)
      else if \<not> tu_byte t then (c, Break)
      else let c = c\<lparr>cn_idle := cn_idle c + tu_wait t + tu_head t\<rparr> in
        case tu_read t of
          HeadTooLarge \<Rightarrow>
            (c\<lparr>cn_proxy := report (tu_now t) (refused host port ReasonHeaderTooLarge) (cn_proxy c),
               cn_answers := cn_answers c @ [(431, RHeaderTooLarge)]\<rparr>, Break)
        | HeadEOF \<Rightarrow> (c, Break)
        | HeadBad \<Rightarrow>
            if cn_in c = 0 \<and> cn_out c = 0
            then (c\<lparr>cn_proxy := report (tu_now t) (refused host port ReasonBadRequest) (cn_proxy c)\<rparr>, Return)
            else (c, Break)
        | HeadOK req \<Rightarrow>
            (case prepare_upstream uni bound host port req of
               (sent, attached, why) \<Rightarrow>
                 exchange uni host port req sent attached t
                   (c\<lparr>cn_proxy := withheld_event bound host attached why (cn_proxy c)\<rparr>)))"

text \<open>The loop over the turns; when there are no more the guest has gone.\<close>

fun term_loop ::
  "(string \<Rightarrow> string) \<Rightarrow> int \<Rightarrow> string \<Rightarrow> int \<Rightarrow> secret list \<Rightarrow> turn list \<Rightarrow> conn \<Rightarrow> conn \<times> turn_end" where
  "term_loop uni idleBudget host port bound [] c = (c, Break)"
| "term_loop uni idleBudget host port bound (t # ts) c =
     (case turn_step uni idleBudget host port bound t c of
        (c', Again) \<Rightarrow> term_loop uni idleBudget host port bound ts (c'\<lparr>cn_requests := cn_requests c' + 1\<rparr>)
      | (c', e) \<Rightarrow> (c', e))"

text \<open>What comes before the loop: the leaf certificate, the 200, the handshake.\<close>

record term_io =
  te_now :: int
  te_leafErr :: "string option"
  te_established :: bool
  te_handshake :: bool
  te_end :: int

definition terminate ::
  "(string \<Rightarrow> string) \<Rightarrow> int \<Rightarrow> string \<Rightarrow> int \<Rightarrow> secret list \<Rightarrow> term_io \<Rightarrow> turn list \<Rightarrow> proxy \<Rightarrow> conn" where
  "terminate uni override host port bound i ts p =
     (let c = \<lparr>cn_proxy = p, cn_requests = 0, cn_idle = 0, cn_in = 0, cn_out = 0, cn_sent = [], cn_answers = []\<rparr> in
      if \<not> px_hasCA p
      then c\<lparr>cn_proxy := report (te_now i) (refused host port ReasonBadRequest) p, cn_answers := [(500, RNoCA)]\<rparr>
      else case te_leafErr i of
        Some err \<Rightarrow>
          c\<lparr>cn_proxy := report (te_now i) (refused host port ReasonBadRequest) p, cn_answers := [(500, RLeaf err)]\<rparr>
      | None \<Rightarrow>
          if \<not> te_established i then c
          else if \<not> te_handshake i
          then c\<lparr>cn_proxy := report (te_now i) (refused host port ReasonPinned) p\<rparr>
          else (case term_loop uni (if 0 < override then override else maxTerminatedIdleTotal) host port bound ts c of
                  (c', Return) \<Rightarrow> c'
                | (c', e) \<Rightarrow>
                    c'\<lparr>cn_proxy := report (te_end i)
                         (allowed_attempt host port ModeTerminated (cn_in c') (cn_out c') ReasonNone) (cn_proxy c')\<rparr>))"

end
