(* ===== verification/Egress_Run.thy ===== *)
theory Egress_Run
  imports Egress_Legs
begin

text \<open>
  Lemmas on whole connections: what the steps of the proxy leave alone, the log of a terminated
  connection against the record of credentials used, and the serving of a sequence of connections.
\<close>

section \<open>Frames\<close>

named_theorems px_frame

lemma touch_frame [px_frame, simp]:
  "px_Policy (touch now p) = px_Policy p" "px_Peer (touch now p) = px_Peer p" "px_hasCA (touch now p) = px_hasCA p"
  "px_events (touch now p) = px_events p" "px_used (touch now p) = px_used p" "px_withheld (touch now p) = px_withheld p"
  "px_foreignSeen (touch now p) = px_foreignSeen p" "px_lastActive (touch now p) = now"
  by (simp_all add: touch_def)

lemma report_frame [px_frame, simp]:
  "px_Policy (report now a p) = px_Policy p" "px_Peer (report now a p) = px_Peer p" "px_hasCA (report now a p) = px_hasCA p"
  "px_events (report now a p) = px_events p @ [a]" "px_used (report now a p) = px_used p"
  "px_withheld (report now a p) = px_withheld p" "px_foreignSeen (report now a p) = px_foreignSeen p"
  by (simp_all add: report_def)

lemma reportDialFailure_frame:
  assumes "reportDialFailure now host port err p = (p', code, r)"
  shows "px_used p' = px_used p" "px_Policy p' = px_Policy p" "px_foreignSeen p' = px_foreignSeen p" "px_Peer p' = px_Peer p"
    "\<exists>a. px_events p' = px_events p @ [a] \<and> \<not> at_Allowed a \<and> at_Host a = host \<and> at_Port a = port"
  using assms by (auto simp: reportDialFailure_def refused_def split: dial_error.splits)

lemma scrubbed_frame [px_frame, simp]:
  "px_used (scrubbed_events hits host p) = px_used p" "px_Policy (scrubbed_events hits host p) = px_Policy p"
  "px_events (scrubbed_events hits host p) = px_events p"
  by (simp_all add: scrubbed_events_def)

lemma withheld_frame [px_frame, simp]:
  "px_used (withheld_event bound host att why p) = px_used p" "px_Policy (withheld_event bound host att why p) = px_Policy p"
  "px_events (withheld_event bound host att why p) = px_events p"
  by (simp_all add: withheld_event_def)

section \<open>The log of a terminated connection\<close>

text \<open>The uses of a credential a log shows: the entries with one attached that left.\<close>

definition used_log :: "string \<Rightarrow> (request \<times> secret option \<times> bool) list \<Rightarrow> (string \<times> string) list" where
  "used_log host log = concat (map (\<lambda>(req, att, gone). case att of Some s \<Rightarrow> if gone then [(se_Name s, host)] else [] | None \<Rightarrow> []) log)"

lemma used_log_append [simp]: "used_log host (l @ [(req, att, gone)]) = used_log host l @
    (case att of Some s \<Rightarrow> if gone then [(se_Name s, host)] else [] | None \<Rightarrow> [])"
  by (simp add: used_log_def)

text \<open>What may stand in the log of a connection to \<open>host\<close>, sent for a request \<open>q\<close> the guest made.\<close>

definition sent_ok ::
  "(string \<Rightarrow> string) \<Rightarrow> string \<Rightarrow> int \<Rightarrow> secret list \<Rightarrow> request \<Rightarrow> request \<times> secret option \<times> bool \<Rightarrow> bool" where
  "sent_ok uni host port bound q e \<longleftrightarrow>
     (case e of (req, att, gone) \<Rightarrow>
        rq_URLScheme req = ''https'' \<and> rq_URLHost req = joinHostPort host port \<and>
        rq_Host req = rq_Host q \<and> rq_Path req = rq_Path q \<and> rq_EscapedPath req = rq_EscapedPath q \<and>
        (case att of
           None \<Rightarrow> rq_Header req = rq_Header (if bound \<noteq> [] then askForIdentity q else q)
         | Some s \<Rightarrow>
             s \<in> set bound \<and> sameHost uni (rq_Host q) host \<and> fst (covers (se_Path s) q) \<and>
             map_of (rq_Header req) ''Authorization'' = Some [secretHeader s]))"

lemma pick_loop_Some: "pick_loop ss req why = (Some s, w) \<Longrightarrow> s \<in> set ss \<and> fst (covers (se_Path s) req)"
  by (induction ss req why rule: pick_loop.induct) (auto split: prod.splits bool.splits if_splits)

lemma covers_cong:
  "rq_Path r = rq_Path q \<Longrightarrow> rq_EscapedPath r = rq_EscapedPath q \<Longrightarrow> covers path r = covers path q"
  by (simp add: covers_def)

lemma map_of_map_key: "map_of (map (\<lambda>(j, vs). if j = k then (j, v) else (j, vs)) h) k = map_option (\<lambda>_. v) (map_of h k)"
  by (induction h) auto

lemma headerSet_get: "map_of (headerSet h k v) k = Some [v]"
proof (cases "map_of h k")
  case None
  then show ?thesis by (simp add: headerSet_def map_add_def)
next
  case (Some x)
  then show ?thesis using map_of_map_key[of k "[v]" h] by (simp add: headerSet_def)
qed

lemma askForIdentity_frame [simp]:
  "rq_Host (askForIdentity q) = rq_Host q" "rq_Path (askForIdentity q) = rq_Path q" "rq_EscapedPath (askForIdentity q) = rq_EscapedPath q"
  "rq_URLScheme (askForIdentity q) = rq_URLScheme q" "rq_URLHost (askForIdentity q) = rq_URLHost q"
  by (simp_all add: askForIdentity_def)

lemma prepare_sent:
  assumes "prepare_upstream uni bound host port q = (req, att, why)"
  shows "sent_ok uni host port bound q (req, att, gone)"
proof -
  let ?u = "q\<lparr>rq_URLScheme := ''https'', rq_URLHost := joinHostPort host port\<rparr>"
  obtain r where rd: "r = (if bound \<noteq> [] then askForIdentity ?u else ?u)" by simp
  then have r: "rq_Host r = rq_Host q" "rq_Path r = rq_Path q" "rq_EscapedPath r = rq_EscapedPath q"
    "rq_URLScheme r = ''https''" "rq_URLHost r = joinHostPort host port"
    "rq_Header r = rq_Header (if bound \<noteq> [] then askForIdentity q else q)"
    by (simp_all add: askForIdentity_def)
  show ?thesis
  proof (cases "fst (pick uni bound r host)")
    case None
    then have "req = r" "att = None" using assms by (auto simp: prepare_upstream_def Let_def rd split: prod.splits option.splits)
    then show ?thesis using r by (simp add: sent_ok_def)
  next
    case (Some s)
    then obtain w where p: "pick uni bound r host = (Some s, w)" by (metis prod.collapse)
    then have req: "req = r\<lparr>rq_Header := headerSet (rq_Header r) ''Authorization'' (secretHeader s)\<rparr>" "att = Some s"
      using assms by (auto simp: prepare_upstream_def Let_def rd)
    have h: "sameHost uni (rq_Host r) host" and l: "pick_loop bound r WithheldNone = (Some s, w)"
      using p by (auto simp only: pick_def split: if_splits)
    have "covers (se_Path s) r = covers (se_Path s) q" using r by (intro covers_cong)
    then have "s \<in> set bound" "fst (covers (se_Path s) q)" using pick_loop_Some[OF l] by simp_all
    then show ?thesis using h r req headerSet_get by (simp add: sent_ok_def)
  qed
qed

text \<open>What a step may add to the record of attempts: nothing before another turn, at most one refusal.\<close>

definition step_events :: "turn_end \<Rightarrow> attempt list \<Rightarrow> bool" where
  "step_events e evs \<longleftrightarrow> list_all (\<lambda>a. \<not> at_Allowed a) evs \<and> length evs \<le> 1 \<and> (e = Again \<longrightarrow> evs = [])"

lemma exchange_frame:
  assumes "exchange uni host port req sent att t c = (c', e)"
  shows "\<exists>gone evs. cn_sent c' = cn_sent c @ [(sent, att, gone)] \<and>
    px_used (cn_proxy c') = px_used (cn_proxy c) @ used_log host [(sent, att, gone)] \<and>
    cn_requests c' = cn_requests c \<and> px_events (cn_proxy c') = px_events (cn_proxy c) @ evs \<and> step_events e evs"
proof -
  obtain gone where g: "gone = (\<not> isl (tu_trip t) \<or> tu_wroteHeaders t)" by simp
  obtain c1 where c1: "c1 = c\<lparr>cn_idle := cn_idle c + tu_trip_time t, cn_proxy := secret_event att gone host (touch (tu_now t) (cn_proxy c)),
      cn_sent := cn_sent c @ [(sent, att, gone)]\<rparr>" by simp
  have f: "cn_sent c1 = cn_sent c @ [(sent, att, gone)]" "px_used (cn_proxy c1) = px_used (cn_proxy c) @ used_log host [(sent, att, gone)]"
    "cn_requests c1 = cn_requests c" "px_events (cn_proxy c1) = px_events (cn_proxy c)"
    by (auto simp: c1 secret_event_def used_log_def split: option.splits)
  have "cn_sent c' = cn_sent c1 \<and> px_used (cn_proxy c') = px_used (cn_proxy c1) \<and> cn_requests c' = cn_requests c1 \<and>
      (\<exists>evs. px_events (cn_proxy c') = px_events (cn_proxy c1) @ evs \<and> step_events e evs)"
  proof (cases "tu_trip t")
    case (Inl err)
    obtain p code r where d: "reportDialFailure (tu_now t) host port err (cn_proxy c1) = (p, code, r)" by (metis prod_cases3)
    then have "c' = c1\<lparr>cn_proxy := p, cn_answers := cn_answers c1 @ [(code, r)]\<rparr>" "e = Return"
      using assms Inl g c1 by (simp_all add: exchange_def Let_def)
    then show ?thesis using reportDialFailure_frame[OF d] by (auto simp: step_events_def)
  next
    case (Inr resp)
    then show ?thesis using assms g c1
      by (auto simp: exchange_def Let_def step_events_def split: if_splits prod.splits)
  qed
  then show ?thesis using f by (metis (no_types))
qed

lemma turn_step_frame:
  assumes "turn_step uni budget host port bound t c = (c', e)"
  shows "cn_requests c' = cn_requests c \<and>
    (\<exists>evs. px_events (cn_proxy c') = px_events (cn_proxy c) @ evs \<and> step_events e evs) \<and>
    (cn_sent c' = cn_sent c \<and> px_used (cn_proxy c') = px_used (cn_proxy c) \<and> e \<noteq> Again \<or>
     cn_requests c < maxRequestsPerTerminatedConn \<and>
     (\<exists>q x. tu_read t = HeadOK q \<and> sent_ok uni host port bound q x \<and> cn_sent c' = cn_sent c @ [x] \<and>
        px_used (cn_proxy c') = px_used (cn_proxy c) @ used_log host [x]))"
proof (cases "maxRequestsPerTerminatedConn \<le> cn_requests c \<or> tu_pastHard t \<or> wait_of budget (cn_requests c) (cn_idle c) \<le> 0 \<or> \<not> tu_byte t")
  case True
  then have "c' = c" "e = Break" using assms by (auto simp: turn_step_def split: if_splits)
  then show ?thesis by (simp add: step_events_def)
next
  case False
  obtain c0 where c0: "c0 = c\<lparr>cn_idle := cn_idle c + tu_wait t + tu_head t\<rparr>" by simp
  show ?thesis
  proof (cases "tu_read t")
    case (HeadOK q)
    obtain sent att why where u: "prepare_upstream uni bound host port q = (sent, att, why)" by (metis prod_cases3)
    obtain c1 where c1: "c1 = c0\<lparr>cn_proxy := withheld_event bound host att why (cn_proxy c0)\<rparr>" by simp
    have x: "exchange uni host port q sent att t c1 = (c', e)"
      using assms False HeadOK u c0 c1 by (simp add: turn_step_def Let_def)
    from exchange_frame[OF this] obtain gone evs where g: "cn_sent c' = cn_sent c1 @ [(sent, att, gone)]"
      "px_used (cn_proxy c') = px_used (cn_proxy c1) @ used_log host [(sent, att, gone)]"
      "cn_requests c' = cn_requests c1" "px_events (cn_proxy c') = px_events (cn_proxy c1) @ evs" "step_events e evs" by blast
    have "cn_sent c1 = cn_sent c" "px_used (cn_proxy c1) = px_used (cn_proxy c)" "cn_requests c1 = cn_requests c"
      "px_events (cn_proxy c1) = px_events (cn_proxy c)" by (simp_all add: c1 c0)
    then show ?thesis using g prepare_sent[OF u, of gone] False HeadOK by auto
  qed (use assms False in \<open>auto simp: turn_step_def Let_def step_events_def refused_def split: if_splits\<close>)
qed

text \<open>A connection so far: its log is sound, no longer than the requests served, and the record of used credentials is that of the log.\<close>

definition conn_ok ::
  "(string \<Rightarrow> string) \<Rightarrow> string \<Rightarrow> int \<Rightarrow> secret list \<Rightarrow> turn list \<Rightarrow> proxy \<Rightarrow> conn \<Rightarrow> bool" where
  "conn_ok uni host port bound ts p c \<longleftrightarrow>
     (\<forall>x \<in> set (cn_sent c). \<exists>q t. t \<in> set ts \<and> tu_read t = HeadOK q \<and> sent_ok uni host port bound q x) \<and>
     length (cn_sent c) \<le> cn_requests c \<and> px_used (cn_proxy c) = px_used p @ used_log host (cn_sent c) \<and>
     px_events (cn_proxy c) = px_events p"

definition conn_end ::
  "(string \<Rightarrow> string) \<Rightarrow> string \<Rightarrow> int \<Rightarrow> secret list \<Rightarrow> turn list \<Rightarrow> proxy \<Rightarrow> conn \<Rightarrow> bool" where
  "conn_end uni host port bound ts p c \<longleftrightarrow>
     (\<forall>x \<in> set (cn_sent c). \<exists>q t. t \<in> set ts \<and> tu_read t = HeadOK q \<and> sent_ok uni host port bound q x) \<and>
     length (cn_sent c) \<le> maxRequestsPerTerminatedConn \<and> px_used (cn_proxy c) = px_used p @ used_log host (cn_sent c) \<and>
     (\<exists>evs. px_events (cn_proxy c) = px_events p @ evs \<and> list_all (\<lambda>a. \<not> at_Allowed a) evs \<and> length evs \<le> 1)"

lemma term_loop_end:
  "set us \<subseteq> set ts \<Longrightarrow> conn_ok uni host port bound ts p c \<Longrightarrow> cn_requests c \<le> maxRequestsPerTerminatedConn \<Longrightarrow>
    term_loop uni budget host port bound us c = (c', e) \<Longrightarrow> conn_end uni host port bound ts p c'"
proof (induction us arbitrary: c)
  case Nil
  then show ?case by (auto simp: conn_ok_def conn_end_def)
next
  case (Cons t us)
  obtain d f where s: "turn_step uni budget host port bound t c = (d, f)" by fastforce
  note fr = turn_step_frame[OF s]
  then obtain evs where ev: "px_events (cn_proxy d) = px_events (cn_proxy c) @ evs" "step_events f evs" by blast
  have ok: "\<forall>x \<in> set (cn_sent c). \<exists>q t. t \<in> set ts \<and> tu_read t = HeadOK q \<and> sent_ok uni host port bound q x"
    "length (cn_sent c) \<le> cn_requests c" "px_used (cn_proxy c) = px_used p @ used_log host (cn_sent c)"
    "px_events (cn_proxy c) = px_events p" using Cons.prems(2) by (auto simp: conn_ok_def)
  have t: "t \<in> set ts" using Cons.prems(1) by simp
  have "\<forall>x \<in> set (cn_sent d). \<exists>q t. t \<in> set ts \<and> tu_read t = HeadOK q \<and> sent_ok uni host port bound q x"
    using conjunct2[OF conjunct2[OF fr]]
  proof (elim disjE conjE exE)
    fix q x assume "tu_read t = HeadOK q" "sent_ok uni host port bound q x" "cn_sent d = cn_sent c @ [x]"
    then show ?thesis using ok(1) t by (metis Un_iff empty_set set_append set_ConsD empty_iff)
  qed (use ok(1) in simp)
  moreover have "length (cn_sent d) \<le> cn_requests c + 1" "length (cn_sent d) \<le> maxRequestsPerTerminatedConn"
    "px_used (cn_proxy d) = px_used p @ used_log host (cn_sent d)" "cn_requests d = cn_requests c"
    "f = Again \<longrightarrow> cn_requests c < maxRequestsPerTerminatedConn"
    using fr ok(2,3) Cons.prems(3) by (auto simp: used_log_def)
  ultimately have d: "\<forall>x \<in> set (cn_sent d). \<exists>q t. t \<in> set ts \<and> tu_read t = HeadOK q \<and> sent_ok uni host port bound q x"
    "length (cn_sent d) \<le> cn_requests c + 1" "length (cn_sent d) \<le> maxRequestsPerTerminatedConn"
    "px_used (cn_proxy d) = px_used p @ used_log host (cn_sent d)" "cn_requests d = cn_requests c"
    "f = Again \<longrightarrow> cn_requests c < maxRequestsPerTerminatedConn" by simp_all
  show ?case
  proof (cases f)
    case Again
    then have "px_events (cn_proxy d) = px_events p" using ev ok(4) by (simp add: step_events_def)
    then have "conn_ok uni host port bound ts p (d\<lparr>cn_requests := cn_requests d + 1\<rparr>)"
      using d by (simp add: conn_ok_def)
    moreover have "term_loop uni budget host port bound us (d\<lparr>cn_requests := cn_requests d + 1\<rparr>) = (c', e)"
      using Cons.prems(4) s Again by simp
    ultimately show ?thesis using Cons.IH[of "d\<lparr>cn_requests := cn_requests d + 1\<rparr>"] Cons.prems(1) d(5,6) Again by simp
  qed (use Cons.prems(4) s d ev ok(4) in \<open>auto simp: conn_end_def step_events_def\<close>)
qed

lemma terminate_end:
  "conn_end uni host port bound ts p c \<Longrightarrow> \<exists>evs. px_events (cn_proxy c) = px_events p @ evs \<and> filter at_Allowed evs = [] \<and> length evs \<le> 1"
  by (auto simp: conn_end_def list_all_iff filter_empty_conv)

lemma terminate_log:
  assumes "c = terminate uni override host port bound i ts p"
  shows "(\<forall>x \<in> set (cn_sent c). \<exists>q t. t \<in> set ts \<and> tu_read t = HeadOK q \<and> sent_ok uni host port bound q x) \<and>
    length (cn_sent c) \<le> maxRequestsPerTerminatedConn \<and> px_used (cn_proxy c) = px_used p @ used_log host (cn_sent c) \<and>
    (\<exists>evs. px_events (cn_proxy c) = px_events p @ evs \<and> length (filter at_Allowed evs) \<le> 1 \<and> length evs \<le> 2)"
proof -
  let ?c = "\<lparr>cn_proxy = p, cn_requests = 0, cn_idle = 0, cn_in = 0, cn_out = 0, cn_sent = [], cn_answers = []\<rparr>"
  let ?b = "if 0 < override then override else maxTerminatedIdleTotal"
  obtain d e where l: "term_loop uni ?b host port bound ts ?c = (d, e)" by fastforce
  have "conn_ok uni host port bound ts p ?c" by (simp add: conn_ok_def used_log_def)
  from term_loop_end[OF subset_refl this _ l] have d: "conn_end uni host port bound ts p d" by simp
  note ev = terminate_end[OF d]
  show ?thesis
  proof (cases "px_hasCA p \<and> te_leafErr i = None \<and> te_established i \<and> te_handshake i")
    case False
    then have "cn_sent c = []" "px_used (cn_proxy c) = px_used p"
      "\<exists>evs. px_events (cn_proxy c) = px_events p @ evs \<and> filter at_Allowed evs = [] \<and> length evs \<le> 1"
      using assms by (auto simp: terminate_def Let_def refused_def split: option.splits)
    then show ?thesis by (force simp: used_log_def)
  next
    case True
    show ?thesis
    proof (cases "e = Return")
      case True
      then have "c = d" using assms l \<open>px_hasCA p \<and> _\<close> by (simp add: terminate_def)
      then show ?thesis using d ev unfolding conn_end_def by force
    next
      case False
      then have "c = d\<lparr>cn_proxy := report (te_end i)
          (allowed_attempt host port ModeTerminated (cn_in d) (cn_out d) ReasonNone) (cn_proxy d)\<rparr>"
        using assms l True by (cases e) (simp_all add: terminate_def)
      then have "cn_sent c = cn_sent d" "px_used (cn_proxy c) = px_used (cn_proxy d)"
        "px_events (cn_proxy c) = px_events (cn_proxy d) @ [allowed_attempt host port ModeTerminated (cn_in d) (cn_out d) ReasonNone]"
        by simp_all
      then show ?thesis using d ev unfolding conn_end_def by force
    qed
  qed
qed

section \<open>Idle time\<close>

text \<open>The deadlines the code arms are kept: each wait ends by its bound, each header by its own, each origin answers within \<open>T\<close>.\<close>

fun deadlines_kept ::
  "(string \<Rightarrow> string) \<Rightarrow> int \<Rightarrow> int \<Rightarrow> string \<Rightarrow> int \<Rightarrow> secret list \<Rightarrow> turn list \<Rightarrow> conn \<Rightarrow> bool" where
  "deadlines_kept uni budget T host port bound [] c = True"
| "deadlines_kept uni budget T host port bound (t # ts) c =
     (0 \<le> tu_wait t \<and> tu_wait t \<le> max 0 (wait_of budget (cn_requests c) (cn_idle c)) \<and>
      0 \<le> tu_head t \<and> tu_head t \<le> readHeaderTimeout \<and> 0 \<le> tu_trip_time t \<and> tu_trip_time t \<le> T \<and>
      (case turn_step uni budget host port bound t c of
         (c', Again) \<Rightarrow> deadlines_kept uni budget T host port bound ts (c'\<lparr>cn_requests := cn_requests c' + 1\<rparr>)
       | _ \<Rightarrow> True))"

definition turn_cost :: "turn \<Rightarrow> int" where
  "turn_cost t = tu_wait t + tu_head t + tu_trip_time t"

lemma exchange_idle:
  "exchange uni host port req sent att t c = (c', e) \<Longrightarrow> cn_idle c' = cn_idle c + tu_trip_time t"
  by (auto simp: exchange_def Let_def split: sum.splits prod.splits if_splits)

lemma turn_step_idle:
  assumes "turn_step uni budget host port bound t c = (c', e)" and "0 \<le> tu_trip_time t"
  shows "c' = c \<and> e = Break \<or>
    0 < wait_of budget (cn_requests c) (cn_idle c) \<and>
    cn_idle c + tu_wait t + tu_head t \<le> cn_idle c' \<and> cn_idle c' \<le> cn_idle c + turn_cost t \<and>
    (e = Again \<longrightarrow> cn_idle c' = cn_idle c + turn_cost t)"
proof (cases "maxRequestsPerTerminatedConn \<le> cn_requests c \<or> tu_pastHard t \<or> wait_of budget (cn_requests c) (cn_idle c) \<le> 0 \<or> \<not> tu_byte t")
  case True
  then show ?thesis using assms by (auto simp: turn_step_def split: if_splits)
next
  case False
  show ?thesis
  proof (cases "tu_read t")
    case (HeadOK q)
    obtain sent att why where u: "prepare_upstream uni bound host port q = (sent, att, why)" by (metis prod_cases3)
    have "exchange uni host port q sent att t (c\<lparr>cn_idle := cn_idle c + tu_wait t + tu_head t,
        cn_proxy := withheld_event bound host att why (cn_proxy c)\<rparr>) = (c', e)"
      using assms False HeadOK u by (simp add: turn_step_def Let_def)
    from exchange_idle[OF this] have "cn_idle c' = cn_idle c + turn_cost t" by (simp add: turn_cost_def)
    then show ?thesis using False assms(2) by (simp add: turn_cost_def)
  qed (use assms False in \<open>auto simp: turn_step_def Let_def turn_cost_def split: if_splits\<close>)
qed

lemma wait_of_le: "wait_of budget n idle \<le> budget - idle"
  by (simp add: wait_of_def Let_def)

lemma term_loop_idle:
  assumes "0 \<le> T"
  shows "deadlines_kept uni budget T host port bound ts c \<Longrightarrow> cn_idle c \<le> budget + readHeaderTimeout + T \<Longrightarrow>
    int (cn_requests c) * d \<le> cn_idle c \<Longrightarrow> \<forall>t \<in> set ts. d \<le> turn_cost t \<Longrightarrow>
    term_loop uni budget host port bound ts c = (c', e) \<Longrightarrow>
    cn_idle c' \<le> budget + readHeaderTimeout + T \<and> int (cn_requests c') * d \<le> cn_idle c'"
proof (induction ts arbitrary: c)
  case (Cons t ts)
  obtain g f where s: "turn_step uni budget host port bound t c = (g, f)" by fastforce
  have k: "0 \<le> tu_wait t" "tu_wait t \<le> max 0 (wait_of budget (cn_requests c) (cn_idle c))" "0 \<le> tu_head t"
    "tu_head t \<le> readHeaderTimeout" "0 \<le> tu_trip_time t" "tu_trip_time t \<le> T" "d \<le> turn_cost t"
    using Cons.prems(1,4) by auto
  have r: "cn_requests g = cn_requests c" using turn_step_frame[OF s] by blast
  have i: "cn_idle g \<le> budget + readHeaderTimeout + T" "int (cn_requests g) * d \<le> cn_idle g"
    "f = Again \<longrightarrow> int (cn_requests g + 1) * d \<le> cn_idle g"
    using turn_step_idle[OF s k(5)] k wait_of_le[of budget "cn_requests c" "cn_idle c"] Cons.prems(2,3) r
    by (auto simp: turn_cost_def algebra_simps)
  show ?case
  proof (cases f)
    case Again
    have a: "deadlines_kept uni budget T host port bound ts (g\<lparr>cn_requests := cn_requests g + 1\<rparr>)"
      using Cons.prems(1) s Again by simp
    have b: "term_loop uni budget host port bound ts (g\<lparr>cn_requests := cn_requests g + 1\<rparr>) = (c', e)"
      using Cons.prems(5) s Again by simp
    show ?thesis using Cons.IH[OF a _ _ _ b] i Again Cons.prems(4) by simp
  qed (use Cons.prems(5) s i in auto)
qed auto

section \<open>Serving\<close>

text \<open>Connections one after the other, up to the decision on each.\<close>

definition serve_all :: "(string \<Rightarrow> string) \<Rightarrow> (int \<times> remote \<times> read_outcome) list \<Rightarrow> proxy \<Rightarrow> proxy" where
  "serve_all uni conns p = fold (\<lambda>(now, r, out) p. fst (handle uni now r out p)) conns p"

definition is_foreign :: "addr \<Rightarrow> remote \<Rightarrow> bool" where
  "is_foreign peer r \<longleftrightarrow> peer \<noteq> NoAddr \<and> (case r of RemoteIP a \<Rightarrow> unmap a \<noteq> unmap peer | _ \<Rightarrow> True)"

lemma foreignPeer_iff: "fst (foreignPeer r p) = is_foreign (px_Peer p) r"
  by (auto simp: foreignPeer_def is_foreign_def split: remote.splits)

lemma foreign_step:
  assumes "is_foreign (px_Peer p) r"
  shows "\<exists>from. handle uni now r out p = (reportForeignPeer from p, Dropped)"
  using assms by (cases r) (auto simp: handle_def foreignPeer_def is_foreign_def)

lemma not_foreign: "\<not> is_foreign (px_Peer p) r \<Longrightarrow> foreignPeer r p = (False, p)"
  by (cases r) (auto simp: foreignPeer_def is_foreign_def)

text \<open>The decision: what is admitted, and what the record says of a refusal.\<close>

lemma decide_cases:
  assumes "decide uni now req p = (p', act)"
  shows "px_foreignSeen p' = px_foreignSeen p \<and> px_Peer p' = px_Peer p \<and> px_Policy p' = px_Policy p \<and> px_used p' = px_used p \<and>
    (case act of
       Answered code rep \<Rightarrow> \<exists>a. px_events p' = px_events p @ [a] \<and> \<not> at_Allowed a \<and> at_Reason a \<noteq> ReasonForeignPeer
     | Dropped \<Rightarrow> False
     | GoTerminate host port bound \<Rightarrow>
         p' = p \<and> splitTarget uni req = Inr (host, port) \<and> rq_Method req = ''CONNECT'' \<and> allowsHost uni (px_Policy p) host \<and>
         allowsPort (px_Policy p) port \<and> bound = secretsFor uni (px_Policy p) host \<and> bound \<noteq> []
     | GoTunnel host port \<Rightarrow>
         p' = p \<and> splitTarget uni req = Inr (host, port) \<and> rq_Method req = ''CONNECT'' \<and> allowsHost uni (px_Policy p) host \<and>
         allowsPort (px_Policy p) port \<and> secretsFor uni (px_Policy p) host = []
     | GoForward q host port \<Rightarrow>
         p' = p \<and> q = req \<and> splitTarget uni req = Inr (host, port) \<and> rq_Method req \<noteq> ''CONNECT'' \<and>
         allowsHost uni (px_Policy p) host \<and> allowsPort (px_Policy p) port)"
proof (cases "splitTarget uni req")
  case (Inl err)
  then show ?thesis using assms by (auto simp: decide_def refused_def)
next
  case (Inr hp)
  obtain host port where hp: "hp = (host, port)" by fastforce
  show ?thesis using assms Inr hp by (auto simp: decide_def refused_def Let_def split: if_splits)
qed

lemma handle_cases:
  assumes "\<not> is_foreign (px_Peer p) r"
  shows "handle uni now r out p =
    (case out of ReqBad \<Rightarrow> (report now (refused [] 0 ReasonBadRequest) (touch now p), Dropped)
     | ReqEOF \<Rightarrow> (touch now p, Dropped) | ReqOK req \<Rightarrow> decide uni now req (touch now p))"
  by (simp add: handle_def not_foreign[OF assms] Let_def)

lemma handle_step:
  assumes "\<not> is_foreign (px_Peer p) r" and "handle uni now r out p = (p', act)"
  shows "px_foreignSeen p' = px_foreignSeen p \<and> px_Peer p' = px_Peer p \<and>
    (\<exists>evs. px_events p' = px_events p @ evs \<and> (\<forall>a \<in> set evs. at_Reason a \<noteq> ReasonForeignPeer))"
proof (cases out)
  case (ReqOK req)
  then have d: "decide uni now req (touch now p) = (p', act)" using assms by (simp add: handle_cases)
  show ?thesis using decide_cases[OF d] by (cases act) auto
qed (use assms in \<open>auto simp: handle_cases refused_def\<close>)

definition foreign_event :: "attempt \<Rightarrow> bool" where
  "foreign_event a \<longleftrightarrow> at_Reason a = ReasonForeignPeer"

definition foreign_inv :: "proxy \<Rightarrow> proxy \<Rightarrow> bool" where
  "foreign_inv p q \<longleftrightarrow> px_Peer q = px_Peer p \<and> distinct (px_foreignSeen q) \<and> length (px_foreignSeen q) \<le> maxForeignPeersRecorded \<and>
     (\<exists>evs. px_events q = px_events p @ evs \<and> rev (map at_Peer (filter foreign_event evs)) = px_foreignSeen q)"

lemma foreign_record:
  assumes "foreign_inv p q"
  shows "foreign_inv p (reportForeignPeer from_addr q) \<and> px_lastActive (reportForeignPeer from_addr q) = px_lastActive q \<and>
    px_used (reportForeignPeer from_addr q) = px_used q"
proof (cases "from_addr \<in> set (px_foreignSeen q) \<or> maxForeignPeersRecorded \<le> length (px_foreignSeen q)")
  case True
  then show ?thesis using assms by (simp add: reportForeignPeer_def)
next
  case False
  obtain evs where ev: "px_events q = px_events p @ evs" "rev (map at_Peer (filter foreign_event evs)) = px_foreignSeen q"
    using assms by (auto simp: foreign_inv_def)
  obtain a where a: "a = (refused [] 0 ReasonForeignPeer)\<lparr>at_Peer := from_addr\<rparr>" by simp
  have r: "px_events (reportForeignPeer from_addr q) = px_events q @ [a]"
    "px_foreignSeen (reportForeignPeer from_addr q) = from_addr # px_foreignSeen q"
    using False by (simp_all add: reportForeignPeer_def a)
  have "foreign_event a" "at_Peer a = from_addr" by (simp_all add: a foreign_event_def refused_def)
  then have "rev (map at_Peer (filter foreign_event (evs @ [a]))) = px_foreignSeen (reportForeignPeer from_addr q)"
    by (simp only: filter_append filter.simps map_append list.map rev_append rev.simps if_True ev(2) r(2) append.simps)
  moreover have "px_events (reportForeignPeer from_addr q) = px_events p @ (evs @ [a])" using ev(1) r(1) by simp
  ultimately have "\<exists>evs. px_events (reportForeignPeer from_addr q) = px_events p @ evs \<and>
      rev (map at_Peer (filter foreign_event evs)) = px_foreignSeen (reportForeignPeer from_addr q)" by blast
  then show ?thesis using False assms unfolding foreign_inv_def by (auto simp: reportForeignPeer_def)
qed

lemma serve_foreign:
  "foreign_inv p q \<Longrightarrow> foreign_inv p (serve_all uni conns q) \<and>
    ((\<forall>(now, r, out) \<in> set conns. is_foreign (px_Peer p) r) \<longrightarrow>
      px_lastActive (serve_all uni conns q) = px_lastActive q \<and> px_used (serve_all uni conns q) = px_used q)"
proof (induction conns arbitrary: q)
  case (Cons x conns)
  obtain now r out where x: "x = (now, r, out)" by (metis prod_cases3)
  obtain q' act where h: "handle uni now r out q = (q', act)" by fastforce
  have peer: "px_Peer q = px_Peer p" using Cons.prems by (simp add: foreign_inv_def)
  have st: "foreign_inv p q' \<and> (is_foreign (px_Peer p) r \<longrightarrow> px_lastActive q' = px_lastActive q \<and> px_used q' = px_used q)"
  proof (cases "is_foreign (px_Peer p) r")
    case True
    then obtain from_addr where "q' = reportForeignPeer from_addr q" using foreign_step[of q r uni now out] h peer by auto
    then show ?thesis using foreign_record[OF Cons.prems] by simp
  next
    case False
    then have s: "px_foreignSeen q' = px_foreignSeen q \<and> px_Peer q' = px_Peer q \<and>
        (\<exists>evs. px_events q' = px_events q @ evs \<and> (\<forall>a \<in> set evs. at_Reason a \<noteq> ReasonForeignPeer))"
      using handle_step[OF _ h] peer by simp
    then obtain evs where e: "px_events q' = px_events q @ evs" "filter foreign_event evs = []"
      by (auto simp: foreign_event_def filter_empty_conv)
    obtain evs' where "px_events q = px_events p @ evs'" "rev (map at_Peer (filter foreign_event evs')) = px_foreignSeen q"
      using Cons.prems by (auto simp: foreign_inv_def)
    then have "px_events q' = px_events p @ (evs' @ evs)" "rev (map at_Peer (filter foreign_event (evs' @ evs))) = px_foreignSeen q'"
      using e s by simp_all
    then show ?thesis using s Cons.prems False unfolding foreign_inv_def by auto
  qed
  have "serve_all uni (x # conns) q = serve_all uni conns q'" using h by (simp add: serve_all_def x)
  then show ?case using Cons.IH[of q'] st by (auto simp: x)
qed (simp add: serve_all_def)

end
