(* ===== verification/Egress_Properties.thy ===== *)
theory Egress_Properties
  imports Egress_Run
begin

text \<open>
  The properties of the egress proxy: where a credential may go, what may come back, which hosts and
  addresses are reached, and the record of every attempt.
\<close>

section \<open>What comes back\<close>


definition ex_secret :: "string \<Rightarrow> secret" where
  "ex_secret path = \<lparr>se_Name = ''TOKEN'', se_Domain = ''api.github.com'', se_Scheme = ''Bearer'', se_Path = path, se_value = ''s3cr3t-value''\<rparr>"



section \<open>Where a credential may go\<close>


definition ex_request :: "string \<Rightarrow> string \<Rightarrow> string \<Rightarrow> string \<Rightarrow> request" where
  "ex_request meth target path escaped = \<lparr>rq_Method = meth, rq_Host = target, rq_URLScheme = [], rq_URLHost = [],
     rq_Path = path, rq_EscapedPath = escaped, rq_Header = [], rq_Length = 0, rq_Close = False\<rparr>"


lemma lower_dot: "lower_char c = CHR ''.'' \<Longrightarrow> c = CHR ''.''"
proof (rule ccontr)
  assume l: "lower_char c = CHR ''.''" and n: "c \<noteq> CHR ''.''"
  then have c: "byte c \<le> 90" "char_of (byte c + 32) = CHR ''.''" "65 \<le> byte c" by (auto simp: lower_char_def split: if_splits)
  have "byte (char_of (byte c + 32)) = byte c + 32" using c(1) by simp
  then show False using c(2,3) by simp
qed

lemma trimRight_suffix: "\<not> hasSuffix (trimRight s c) [c]"
proof
  assume "hasSuffix (trimRight s c) [c]"
  then obtain t where "rev (dropWhile (\<lambda>x. x = c) (rev s)) = t @ [c]" by (auto simp: hasSuffix_iff trimRight_def)
  then have "dropWhile (\<lambda>x. x = c) (rev s) = c # rev t" by (simp add: rev_swap)
  then show False by (simp add: dropWhile_eq_Cons_conv)
qed

lemma trimRight_subset: "set (trimRight s c) \<subseteq> set s"
  using set_dropWhileD by (fastforce simp: trimRight_def)

lemma toLower_dot:
  assumes "list_all (\<lambda>c. byte c < 128) s"
  shows "\<not> hasSuffix (toLower uni (trimRight s CHR ''.'')) ''.''"
proof
  have "list_all (\<lambda>c. byte c < 128) (trimRight s CHR ''.'')" using assms trimRight_subset by (fastforce simp: list_all_iff)
  moreover assume "hasSuffix (toLower uni (trimRight s CHR ''.'')) ''.''"
  ultimately have "hasSuffix (map lower_char (trimRight s CHR ''.'')) ''.''" by (simp add: toLower_def)
  then obtain t where "map lower_char (trimRight s CHR ''.'') = t @ ''.''" by (auto simp: hasSuffix_iff)
  then obtain u c where "trimRight s CHR ''.'' = u @ [c]" "lower_char c = CHR ''.''" by (auto simp: map_eq_append_conv)
  then show False using trimRight_suffix[of s "CHR ''.''"] lower_dot by (auto simp: hasSuffix_iff)
qed

lemma splitHostPort_set: "splitHostPort s = Some (h, p) \<Longrightarrow> set h \<subseteq> set s"
  by (auto simp: splitHostPort_def split: option.splits if_splits dest!: in_set_takeD in_set_dropD)

text \<open>
  A fully qualified name keeps its bindings and loses its credential. With a dot at its end a
  host is allowed and bound exactly as without it, so the connection is terminated; but no request
  on it that carries a Host header, whatever that header names, gets a credential.
\<close>
theorem fqdn_withheld:
  assumes "\<not> hasSuffix name ''.''" and "rq_Host req \<noteq> []" and "list_all (\<lambda>c. byte c < 128) (rq_Host req)"
  shows "allowsHost uni p (name @ ''.'') = allowsHost uni p name \<and> secretsFor uni p (name @ ''.'') = secretsFor uni p name \<and>
    pick uni bound req (name @ ''.'') = (None, WithheldHostMismatch)"
proof -
  have "trimSuffix name ''.'' = name" using assms(1) by (simp add: trimSuffix_def cutSuffix_def)
  moreover have "trimSuffix (name @ ''.'') ''.'' = name" by (simp add: trimSuffix_def cutSuffix_Some[THEN iffD2])
  ultimately have f: "fold_host uni (name @ ''.'') = fold_host uni name" by (simp only: fold_host_def)
  obtain h where h: "(case splitHostPort (rq_Host req) of Some (only, _) \<Rightarrow> only | None \<Rightarrow> rq_Host req) = h" "set h \<subseteq> set (rq_Host req)"
    using splitHostPort_set by (cases "splitHostPort (rq_Host req)") fastforce+
  then have "list_all (\<lambda>c. byte c < 128) h" using assms(3) by (auto simp: list_all_iff)
  from toLower_dot[OF this, of uni] have "toLower uni (trimRight h CHR ''.'') \<noteq> name @ ''.''" by (auto simp: hasSuffix_iff)
  then have "\<not> sameHost uni (rq_Host req) (name @ ''.'')" using assms(2) h(1) by (simp only: sameHost_def Let_def if_False simp_thms)
  then show ?thesis by (simp add: allowsHost_def secretsFor_def f pick_def)
qed

theorem fqdn_withheld_witness:
  "secretsFor id \<lparr>po_Allow = [], po_Ports = [], po_Secrets = [ex_secret []]\<rparr> ''api.github.com.'' = [ex_secret []] \<and>
   pick id [ex_secret []] (ex_request ''GET'' ''api.github.com.'' ''/'' ''/'') ''api.github.com.'' = (None, WithheldHostMismatch)"
proof -
  let ?q = "ex_request ''GET'' ''api.github.com.'' ''/'' ''/''"
  have "\<not> hasSuffix ''api.github.com'' ''.''" "rq_Host ?q \<noteq> []" "list_all (\<lambda>c. byte c < 128) (rq_Host ?q)"
    by (simp_all add: hasSuffix_def hasPrefix_def ex_request_def)
  note t = fqdn_withheld[OF this, of id "\<lparr>po_Allow = [], po_Ports = [], po_Secrets = [ex_secret []]\<rparr>" "[ex_secret []]"]
  have "secretsFor id \<lparr>po_Allow = [], po_Ports = [], po_Secrets = [ex_secret []]\<rparr> ''api.github.com'' = [ex_secret []]"
    by (simp add: secretsFor_def bindsHost_def ex_secret_def domainCovers_def fold_host_def trimSuffix_def cutSuffix_def
        hasSuffix_def hasPrefix_def toLower_def lower_char_def)
  with t show ?thesis by simp
qed

section \<open>What is reached\<close>

lemma label_suffix:
  "hasSuffix h (c # d) \<longleftrightarrow> (\<exists>ls. ls \<noteq> [] \<and> split_on c h = ls @ split_on c d)"
proof
  assume "hasSuffix h (c # d)"
  then obtain a where "h = a @ c # d" by (auto simp: hasSuffix_iff)
  then have "split_on c h = split_on c a @ split_on c d" by (simp only: split_on_slash)
  then show "\<exists>ls. ls \<noteq> [] \<and> split_on c h = ls @ split_on c d" using split_on_not_Nil by blast
next
  assume "\<exists>ls. ls \<noteq> [] \<and> split_on c h = ls @ split_on c d"
  then obtain ls where "ls \<noteq> []" "split_on c h = ls @ split_on c d" by blast
  then have "h = join ls [c] @ c # d" using join_snoc[of ls "split_on c d" c] split_join[of c h] split_join[of c d] by simp
  then show "hasSuffix h (c # d)" by (simp add: hasSuffix_iff)
qed

lemma checked_entry:
  "checkAllowList uni as = None \<Longrightarrow> a \<in> set as \<Longrightarrow>
    normaliseDomain uni a = [] \<or> ipLiteral (normaliseDomain uni a) \<or>
    (2 \<le> length (split_on CHR ''.'' (normaliseDomain uni a)) \<and> \<not> numericLabels (normaliseDomain uni a))"
  by (induction as) (auto simp: Let_def split: if_splits)

lemma domainCovers_iff:
  "domainCovers d h \<longleftrightarrow> h = d \<or> \<not> ipLiteral d \<and> \<not> ipLiteral h \<and> hasSuffix h (CHR ''.'' # d)"
  unfolding domainCovers_def if_bool_eq_conj by blast

lemma allow_shape:
  "(D \<longleftrightarrow> h \<or> \<not> i \<and> \<not> j \<and> E) \<Longrightarrow> e \<or> i \<or> (L \<and> \<not> N) \<Longrightarrow> \<not> e \<Longrightarrow>
    (D \<longleftrightarrow> h \<or> (e \<and> \<not> j \<and> S) \<or> (L \<and> \<not> N \<and> \<not> i \<and> \<not> j \<and> E))"
  by blast

lemma allowlist_shape:
  assumes "checkAllowList uni (po_Allow p) = None"
  shows "allowsHost uni p host \<longleftrightarrow>
    (\<exists>a \<in> set (po_Allow p).
       fold_host uni host = normaliseDomain uni a \<or>
       (normaliseDomain uni a = [] \<and> \<not> ipLiteral (fold_host uni host) \<and> hasSuffix (fold_host uni host) ''.'') \<or>
       (2 \<le> length (split_on CHR ''.'' (normaliseDomain uni a)) \<and> \<not> numericLabels (normaliseDomain uni a) \<and>
        \<not> ipLiteral (normaliseDomain uni a) \<and> \<not> ipLiteral (fold_host uni host) \<and>
        (\<exists>ls. ls \<noteq> [] \<and> split_on CHR ''.'' (fold_host uni host) = ls @ split_on CHR ''.'' (normaliseDomain uni a))))"
proof -
  have ip0: "\<not> ipLiteral []" by (simp add: ipLiteral_def trimPrefix_def trimSuffix_def cutSuffix_def hasPrefix_def hasSuffix_def
        parseIP_def parseAddr_def)
  have *: "domainCovers d h \<longleftrightarrow> h = d \<or> (d = [] \<and> \<not> ipLiteral h \<and> hasSuffix h ''.'') \<or>
       (2 \<le> length (split_on CHR ''.'' d) \<and> \<not> numericLabels d \<and> \<not> ipLiteral d \<and> \<not> ipLiteral h \<and>
        (\<exists>ls. ls \<noteq> [] \<and> split_on CHR ''.'' h = ls @ split_on CHR ''.'' d))"
    if "d = [] \<or> ipLiteral d \<or> (2 \<le> length (split_on CHR ''.'' d) \<and> \<not> numericLabels d)" for d h
  proof (cases "d = []")
    case False
    have "domainCovers d h \<longleftrightarrow> h = d \<or> \<not> ipLiteral d \<and> \<not> ipLiteral h \<and>
        (\<exists>ls. ls \<noteq> [] \<and> split_on CHR ''.'' h = ls @ split_on CHR ''.'' d)"
      unfolding label_suffix[symmetric] by (rule domainCovers_iff)
    from allow_shape[OF this that False] show ?thesis .
  qed (simp add: domainCovers_def ip0)
  show ?thesis unfolding allowsHost_def list_ex_iff by (rule bex_cong[OF refl]) (rule *[OF checked_entry[OF assms]])
qed

text \<open>
  C18. What an allowlist admits. Under a list the check accepts and whose entries all name something
  (none is empty once lower-cased and stripped of its dots and its \<open>*.\<close>), a host is admitted exactly
  when, lower-cased and less one dot at its end, it is the name of an entry, or neither is an address
  and its labels are some labels followed by those of the entry; and an entry that admits by its labels
  has at least two of them, not all numbers. So no list admits all names under a top-level domain, and an
  address is admitted only by itself.
\<close>
theorem allowlist_exact:
  assumes "checkAllowList uni (po_Allow p) = None" and "\<forall>a \<in> set (po_Allow p). normaliseDomain uni a \<noteq> []"
  shows "allowsHost uni p host \<longleftrightarrow>
    (\<exists>a \<in> set (po_Allow p).
       fold_host uni host = normaliseDomain uni a \<or>
       (2 \<le> length (split_on CHR ''.'' (normaliseDomain uni a)) \<and> \<not> numericLabels (normaliseDomain uni a) \<and>
        \<not> ipLiteral (normaliseDomain uni a) \<and> \<not> ipLiteral (fold_host uni host) \<and>
        (\<exists>ls. ls \<noteq> [] \<and> split_on CHR ''.'' (fold_host uni host) = ls @ split_on CHR ''.'' (normaliseDomain uni a))))"
  unfolding allowlist_shape[OF assms(1)] by (rule bex_cong[OF refl]) (use assms(2) in blast)

theorem allowlist_exact_witness:
  "checkAllowList id [''github.com''] = None \<and>
   allowsHost id \<lparr>po_Allow = [''github.com''], po_Ports = [], po_Secrets = []\<rparr> ''api.GitHub.com.''"
proof -
  let ?p = "\<lparr>po_Allow = [''github.com''], po_Ports = [], po_Secrets = []\<rparr>"
  have n: "normaliseDomain id ''github.com'' = ''github.com''"
    by (simp add: normaliseDomain_def toLower_def trimRight_def trimPrefix_def hasPrefix_def lower_char_def)
  have f: "fold_host id ''api.GitHub.com.'' = ''api.github.com''"
    by (simp add: fold_host_def toLower_def trimSuffix_def cutSuffix_def hasSuffix_def hasPrefix_def lower_char_def char_of_eq_iff)
  have ip: "\<not> ipLiteral ''github.com''" "\<not> ipLiteral ''api.github.com''"
    by (simp_all add: ipLiteral_def trimPrefix_def trimSuffix_def cutSuffix_def hasPrefix_def hasSuffix_def
        parseIP_def parseAddr_def ipv4_fields_def octet_def is_digit_def)
  have nn: "\<not> numericLabels ''github.com''" by (simp add: numericLabels_def is_digit_def)
  have c: "checkAllowList id (po_Allow ?p) = None" using n ip nn by simp
  have "split_on CHR ''.'' ''api.github.com'' = [''api''] @ split_on CHR ''.'' ''github.com''" by simp
  then have "allowsHost id ?p ''api.GitHub.com.''"
    using allowlist_exact[OF c, of "''api.GitHub.com.''"] n f ip nn by auto
  then show ?thesis using c by simp
qed

text \<open>
  C20. An address is refused in every spelling or in none. An IPv4 address is refused exactly in the
  listed ranges, and written as an IPv4-mapped, NAT64, IPv4-compatible or 6to4 address, with any
  zone, it is refused exactly when it is refused as IPv4.
\<close>
theorem unsafe_every_spelling:
  fixes a :: "32 word" and r :: "80 word"
  shows "isUnsafeResolvedAddr (Addr4 a) = list_ex (\<lambda>(l, h). l \<le> unat a \<and> unat a \<le> h) unsafe_ranges \<and>
    isUnsafeResolvedAddr (Addr6 (push_bit 32 0xFFFF OR ucast a) z) = isUnsafeResolvedAddr (Addr4 a) \<and>
    isUnsafeResolvedAddr (Addr6 (push_bit 32 0x0064ff9b0000000000000000 OR ucast a) z) = isUnsafeResolvedAddr (Addr4 a) \<and>
    isUnsafeResolvedAddr (Addr6 (ucast a) z) = isUnsafeResolvedAddr (Addr4 a) \<and>
    isUnsafeResolvedAddr (Addr6 (push_bit 112 0x2002 OR push_bit 80 (ucast a) OR ucast r) z) = isUnsafeResolvedAddr (Addr4 a)"
proof (intro conjI)
  have "take_bit 96 (0x0064ff9b0000000000000000 :: 128 word) = 0x0064ff9b0000000000000000" by simp
  from low_unsafe[OF this] show "isUnsafeResolvedAddr (Addr6 (push_bit 32 0x0064ff9b0000000000000000 OR ucast a) z) = isUnsafeResolvedAddr (Addr4 a)"
    by (simp only: embedded4 simp_thms)
  show "isUnsafeResolvedAddr (Addr6 (ucast a) z) = isUnsafeResolvedAddr (Addr4 a)"
    using low_unsafe[of 0 a z] by (simp add: embedded4)
qed (simp_all only: embedded4 unsafe_table4 mapped_unsafe six_unsafe)

section \<open>Whole connections\<close>



definition ex_proxy :: proxy where
  "ex_proxy = \<lparr>px_Policy = \<lparr>po_Allow = [''github.com''], po_Ports = [], po_Secrets = [ex_secret []]\<rparr>, px_Peer = Addr4 1, px_hasCA = True,
     px_events = [], px_used = [], px_withheld = [], px_scrubbed = [], px_unscrubbable = [], px_foreignSeen = [], px_lastActive = 0\<rparr>"

lemma ex_handle:
  "handle id 5 (RemoteIP (Addr4 1)) (ReqOK (ex_request ''CONNECT'' ''api.github.com:443'' [] [])) ex_proxy =
    (touch 5 ex_proxy, GoTerminate ''api.github.com'' 443 [ex_secret []])"
proof -
  have ip: "\<not> ipLiteral ''github.com''" "\<not> ipLiteral ''api.github.com''"
    by (simp_all add: ipLiteral_def trimPrefix_def trimSuffix_def cutSuffix_def hasPrefix_def hasSuffix_def
        parseIP_def parseAddr_def ipv4_fields_def octet_def is_digit_def)
  have f: "fold_host id ''api.github.com'' = ''api.github.com''"
    by (simp add: fold_host_def toLower_def trimSuffix_def cutSuffix_def hasSuffix_def hasPrefix_def lower_char_def)
  have n: "normaliseDomain id ''github.com'' = ''github.com''"
    by (simp add: normaliseDomain_def toLower_def trimRight_def trimPrefix_def hasPrefix_def lower_char_def)
  have a: "allowsHost id (px_Policy ex_proxy) ''api.github.com''"
    using ip by (simp add: allowsHost_def ex_proxy_def f n domainCovers_def hasSuffix_def hasPrefix_def)
  have b: "secretsFor id (px_Policy ex_proxy) ''api.github.com'' = [ex_secret []]"
    by (simp add: secretsFor_def ex_proxy_def f bindsHost_def ex_secret_def domainCovers_def)
  have s: "splitHostPort ''api.github.com:443'' = Some (''api.github.com'', ''443'')"
    by (simp add: splitHostPort_def lastIndexChar_def hasPrefix_def)
  have t: "splitTarget id (ex_request ''CONNECT'' ''api.github.com:443'' [] []) = Inr (''api.github.com'', 443)"
    by (simp add: splitTarget_def target_of_def ex_request_def s atoi_def in_int64_def is_digit_def digit_val_def toLower_def
        lower_char_def maxHostnameBytes_def plausibleHost_def host_char_def)
  have p: "allowsPort (px_Policy ex_proxy) 443" by (simp add: allowsPort_def effectivePorts_def defaultPorts_def ex_proxy_def)
  have h: "handle id 5 (RemoteIP (Addr4 1)) out ex_proxy =
      (case out of ReqBad \<Rightarrow> (report 5 (refused [] 0 ReasonBadRequest) (touch 5 ex_proxy), Dropped)
       | ReqEOF \<Rightarrow> (touch 5 ex_proxy, Dropped) | ReqOK req \<Rightarrow> decide id 5 req (touch 5 ex_proxy))" for out
    by (rule handle_cases) (simp add: is_foreign_def ex_proxy_def)
  show ?thesis using a b t p by (simp add: h decide_def ex_request_def)
qed


text \<open>
  C9. A credential leaves only by its own door and never unrecorded. On a connection the proxy
  decided to terminate, every request sent upstream is one the guest made, addressed over TLS to the
  host and port of the decision; a credential is attached only of a secret bound to that host, to a
  request that names that host in its Host header and whose path the secret covers; at most 4096
  requests are sent; the record of uses is exactly the log of requests that left with a credential;
  and the connection adds at most one allowed attempt and one refusal to the record.
\<close>
theorem credential_mediated:
  assumes "handle uni now r out p = (p1, GoTerminate host port bound)"
    and "c = terminate uni override host port bound i ts p1"
  shows "allowsHost uni (px_Policy p) host \<and>
    (\<forall>s \<in> set bound. s \<in> set (po_Secrets (px_Policy p)) \<and> bindsHost s (fold_host uni host)) \<and>
    (\<forall>x \<in> set (cn_sent c). \<exists>q t. t \<in> set ts \<and> tu_read t = HeadOK q \<and> sent_ok uni host port bound q x) \<and>
    length (cn_sent c) \<le> 4096 \<and>
    px_used (cn_proxy c) = px_used p @ used_log host (cn_sent c) \<and>
    (\<exists>evs. px_events (cn_proxy c) = px_events p @ evs \<and> length (filter at_Allowed evs) \<le> 1 \<and> length evs \<le> 2)"
proof -
  have f: "\<not> is_foreign (px_Peer p) r" using foreign_step[of p r uni now out] assms(1) by auto
  obtain req where "decide uni now req (touch now p) = (p1, GoTerminate host port bound)"
    using assms(1) handle_cases[OF f, of uni now out] by (cases out) auto
  from decide_cases[OF this] have d: "p1 = touch now p" "allowsHost uni (px_Policy p) host" "bound = secretsFor uni (px_Policy p) host" by auto
  then have "\<forall>s \<in> set bound. s \<in> set (po_Secrets (px_Policy p)) \<and> bindsHost s (fold_host uni host)" by (auto simp: secretsFor_def)
  then show ?thesis using terminate_log[OF assms(2)] d by (simp add: maxRequestsPerTerminatedConn_def)
qed

definition ex_turn :: "request \<Rightarrow> turn" where
  "ex_turn q = \<lparr>tu_now = 0, tu_pastHard = False, tu_wait = 1, tu_byte = True, tu_head = 1, tu_read = HeadOK q, tu_trip_time = 1,
     tu_wroteHeaders = True, tu_trip = Inl (DialFailed None []), tu_ns = [], tu_werr = False\<rparr>"

definition ex_io :: term_io where
  "ex_io = \<lparr>te_now = 0, te_leafErr = None, te_established = True, te_handshake = True, te_end = 0\<rparr>"

text \<open>The credential is recorded although the origin reset the connection: the request had left.\<close>

theorem credential_mediated_witness:
  "px_used (cn_proxy (terminate id 0 ''api.github.com'' 443 [ex_secret []] ex_io
     [ex_turn (ex_request ''GET'' ''api.github.com'' ''/'' ''/'')] (touch 5 ex_proxy))) = [(''TOKEN'', ''api.github.com'')]"
proof -
  let ?q = "ex_request ''GET'' ''api.github.com'' ''/'' ''/''"
  let ?c = "terminate id 0 ''api.github.com'' 443 [ex_secret []] ex_io [ex_turn ?q] (touch 5 ex_proxy)"
  have s: "splitHostPort ''api.github.com'' = None"
    by (simp add: splitHostPort_def lastIndexChar_def hasPrefix_def)
  have h: "sameHost id ''api.github.com'' ''api.github.com''"
    by (simp add: sameHost_def s toLower_def trimRight_def lower_char_def)
  have p: "se_Path (ex_secret []) = []" "se_Name (ex_secret []) = ''TOKEN''" by (simp_all add: ex_secret_def)
  obtain sent why where u: "prepare_upstream id [ex_secret []] ''api.github.com'' 443 ?q = (sent, Some (ex_secret []), why)"
    using h by (auto simp: prepare_upstream_def Let_def pick_def covers_def p ex_request_def askForIdentity_def)
  have "cn_sent ?c = [(sent, Some (ex_secret []), True)]"
    using u by (simp add: terminate_def ex_io_def ex_turn_def ex_proxy_def turn_step_def maxRequestsPerTerminatedConn_def
        wait_of_def readHeaderTimeout_def maxTerminatedIdleTotal_def second_def exchange_def Let_def reportDialFailure_def)
  then show ?thesis using credential_mediated[OF ex_handle refl, of 0 ex_io "[ex_turn ?q]"]
    by (simp add: used_log_def p ex_proxy_def)
qed

text \<open>
  The idle budget bounds occupancy. When the deadlines the loop arms are kept and each origin
  answers within \<open>T\<close>, a terminated connection spends at most the idle budget, one header timeout and
  \<open>T\<close> on waiting, reading headers and waiting for origins; and when every turn costs at least
  \<open>d\<close>, it serves no more requests than that total holds turns.
\<close>
theorem idle_bounded:
  assumes "deadlines_kept uni budget T host port bound ts
      \<lparr>cn_proxy = p, cn_requests = 0, cn_idle = 0, cn_in = 0, cn_out = 0, cn_sent = [], cn_answers = []\<rparr>"
    and "c = fst (term_loop uni budget host port bound ts
      \<lparr>cn_proxy = p, cn_requests = 0, cn_idle = 0, cn_in = 0, cn_out = 0, cn_sent = [], cn_answers = []\<rparr>)"
    and "0 \<le> T" and "0 \<le> budget" and "\<forall>t \<in> set ts. d \<le> turn_cost t"
  shows "cn_idle c \<le> budget + readHeaderTimeout + T \<and> int (cn_requests c) * d \<le> budget + readHeaderTimeout + T"
proof -
  let ?c = "\<lparr>cn_proxy = p, cn_requests = 0, cn_idle = 0, cn_in = 0, cn_out = 0, cn_sent = [], cn_answers = []\<rparr>"
  obtain e where "term_loop uni budget host port bound ts ?c = (c, e)" using assms(2) by (metis prod.collapse)
  from term_loop_idle[OF assms(3,1) _ _ assms(5) this] assms(3,4)
  show ?thesis by (simp add: readHeaderTimeout_def second_def)
qed

theorem idle_bounded_witness:
  "cn_idle (fst (term_loop id maxTerminatedIdleTotal ''api.github.com'' 443 [ex_secret []] [ex_turn (ex_request ''GET'' [] ''/'' ''/'')]
     \<lparr>cn_proxy = ex_proxy, cn_requests = 0, cn_idle = 0, cn_in = 0, cn_out = 0, cn_sent = [], cn_answers = []\<rparr>))
   \<le> maxTerminatedIdleTotal + readHeaderTimeout + 5"
proof -
  let ?t = "ex_turn (ex_request ''GET'' [] ''/'' ''/'')"
  let ?c = "\<lparr>cn_proxy = ex_proxy, cn_requests = 0, cn_idle = 0, cn_in = 0, cn_out = 0, cn_sent = [], cn_answers = []\<rparr>"
  have w: "tu_wait ?t = 1" "tu_head ?t = 1" "tu_trip_time ?t = 1" by (simp_all add: ex_turn_def)
  have "deadlines_kept id maxTerminatedIdleTotal 5 ''api.github.com'' 443 [ex_secret []] [?t] ?c"
    by (simp add: w wait_of_def readHeaderTimeout_def maxTerminatedIdleTotal_def second_def split: prod.splits turn_end.splits)
  from idle_bounded[OF this refl, of 3] show ?thesis by (simp add: turn_cost_def w maxTerminatedIdleTotal_def second_def)
qed

text \<open>
  C21. Strangers cost a bounded record and keep nothing awake. Over any sequence of connections the
  attempts recorded for callers that are not the guest are at most 256 and no two for one address; a
  sequence of such callers only leaves the idle clock and the credentials used as they were.
\<close>
theorem foreign_peers_bounded:
  assumes "px_foreignSeen p = []"
  shows "(\<exists>evs. px_events (serve_all uni conns p) = px_events p @ evs \<and>
      length (filter foreign_event evs) \<le> 256 \<and> distinct (map at_Peer (filter foreign_event evs))) \<and>
    ((\<forall>(now, r, out) \<in> set conns. is_foreign (px_Peer p) r) \<longrightarrow>
      px_lastActive (serve_all uni conns p) = px_lastActive p \<and> px_used (serve_all uni conns p) = px_used p)"
proof -
  have "foreign_inv p p" using assms by (simp add: foreign_inv_def)
  note s = serve_foreign[OF this, of uni conns]
  then obtain evs where "px_events (serve_all uni conns p) = px_events p @ evs"
    "rev (map at_Peer (filter foreign_event evs)) = px_foreignSeen (serve_all uni conns p)"
    "distinct (px_foreignSeen (serve_all uni conns p))" "length (px_foreignSeen (serve_all uni conns p)) \<le> 256"
    by (auto simp: foreign_inv_def maxForeignPeersRecorded_def)
  note e = this
  have "distinct (map at_Peer (filter foreign_event evs))" using e(3) by (simp add: e(2)[symmetric])
  moreover have "length (filter foreign_event evs) \<le> 256" using e(4) by (simp add: e(2)[symmetric])
  ultimately show ?thesis using e(1) s by blast
qed

theorem foreign_peers_bounded_witness:
  "px_lastActive (serve_all id [(9, RemoteIP (Addr4 2), ReqEOF), (10, NotTCP, ReqEOF)] ex_proxy) = 0"
  using foreign_peers_bounded[of ex_proxy id "[(9, RemoteIP (Addr4 2), ReqEOF), (10, NotTCP, ReqEOF)]"]
  by (simp add: ex_proxy_def is_foreign_def unmap_def)

end
