(* ===== verification/Image_Entry.thy ===== *)
theory Image_Entry
  imports Go_Path Go_Map
begin

text \<open>
  Reading a filesystem the guest wrote, first half (\<open>internal/sandbox/extract.go\<close>): the listing
  of an image by \<open>debugfs\<close>, the parsing of its records and the refusal of every entry the host
  will not use. \<open>debugfs\<close> itself is a parameter: what a script gives on its two streams and
  the error of the process.
\<close>

unbundle bit_operations_syntax

section \<open>Refusals\<close>

text \<open>The reasons of an \<open>ErrHostileImage\<close>, with what their texts quote, and any other error.\<close>

datatype hostile =
    TreeTooDeep
  | TooManyEntries
  | NoListing "string list"
  | ListsNothing string
  | NotARecord string string
  | NoName string
  | NameSeparator string
  | NameNUL string
  | NameDots string string
  | NameTooLong string nat
  | NameQuote string
  | NameControl string char
  | UnreadableMode string string
  | NotAFile string "32 word"
  | UnreadableSize string string
  | LinkNoTarget string
  | LinkNUL string
  | LinkHostPath string string
  | LinkOutside string string
  | ChainLeaves string string
  | ChainTooLong string string
  | ChainBudget string
  | NoContents "string list"
  | HolesDeclared int int string int
  | NotExtracted string
  | NotReadable string
  | ShortDump string int int
  | ShortCopy int string int
  | NoTarget string
  | ShortTarget string nat int

datatype image_error = Hostile hostile | IOFailed string

section \<open>Entries\<close>

datatype entry_kind = KindFile | KindDir | KindSymlink

record imageEntry =
  ie_path :: string
  ie_mode :: "32 word"
  ie_kind :: entry_kind
  ie_size :: int

definition maxImageEntries :: nat where "maxImageEntries = 500000"

definition dquote :: char where "dquote = CHR 0x22"
definition squote :: char where "squote = CHR 0x27"

definition name_control :: "char \<Rightarrow> bool" where
  "name_control c \<longleftrightarrow> byte c < 32 \<or> byte c = 127"

definition validName :: "string \<Rightarrow> string \<Rightarrow> hostile option" where
  "validName dir name =
     (if CHR ''/'' \<in> set name then Some (NameSeparator (path_join [dir, name]))
      else if CHR 0x00 \<in> set name then Some (NameNUL dir)
      else if name = ''.'' \<or> name = ''..'' then Some (NameDots dir name)
      else if 255 < length name then Some (NameTooLong dir (length name))
      else if dquote \<in> set name \<or> squote \<in> set name then Some (NameQuote (path_join [dir, name]))
      else case find name_control name of
             Some c \<Rightarrow> Some (NameControl (path_join [dir, name]) c)
           | None \<Rightarrow> None)"

text \<open>\<open>strconv.ParseUint(s, 8, 32)\<close>.\<close>

definition octal_digit :: "char \<Rightarrow> bool" where
  "octal_digit c \<longleftrightarrow> 48 \<le> byte c \<and> byte c \<le> 55"

definition octal_val :: "string \<Rightarrow> nat" where
  "octal_val s = foldl (\<lambda>n c. 8 * n + (byte c - 48)) 0 s"

definition parseOctal32 :: "string \<Rightarrow> nat option" where
  "parseOctal32 s = (if s \<noteq> [] \<and> list_all octal_digit s \<and> octal_val s < 2 ^ 32 then Some (octal_val s) else None)"

definition kindOf :: "32 word \<Rightarrow> entry_kind option" where
  "kindOf raw =
     (let k = raw AND 0xF000 in
      if k = 0x4000 then Some KindDir else if k = 0x8000 then Some KindFile else if k = 0xA000 then Some KindSymlink else None)"

text \<open>\<open>entryFrom\<close>: nothing for an entry that is left out, an entry, or the refusal.\<close>

definition entryFrom :: "string \<Rightarrow> string \<Rightarrow> hostile + imageEntry option" where
  "entryFrom dir rec =
     (let fields = split_on CHR ''/'' rec in
      if length fields \<noteq> 8 \<or> fields ! 0 \<noteq> [] \<or> fields ! 7 \<noteq> [] then Inl (NotARecord dir rec)
      else let name = fields ! 5 in
        if name = ''.'' \<or> name = ''..'' then Inr None
        else if name = [] then Inl (NoName dir)
        else if dir = ''/'' \<and> name = ''lost+found'' then Inr None
        else case validName dir name of
          Some err \<Rightarrow> Inl err
        | None \<Rightarrow>
            (case parseOctal32 (fields ! 2) of
               None \<Rightarrow> Inl (UnreadableMode dir (fields ! 2))
             | Some n \<Rightarrow>
                 let raw = of_nat n; full = path_join [dir, name] in
                 (case kindOf raw of
                    None \<Rightarrow> Inl (NotAFile full raw)
                  | Some kind \<Rightarrow>
                      let e = \<lparr>ie_path = trimPrefix full ''/'', ie_mode = raw AND 0xFFF, ie_kind = kind, ie_size = 0\<rparr> in
                      if kind = KindDir then Inr (Some e)
                      else (case atoi (fields ! 6) of
                              None \<Rightarrow> Inl (UnreadableSize full (fields ! 6))
                            | Some sz \<Rightarrow>
                                if sz < 0 then Inl (UnreadableSize full (fields ! 6))
                                else Inr (Some (e\<lparr>ie_size := sz\<rparr>))))))"

section \<open>Listing\<close>

type_synonym debugfs = "string \<Rightarrow> string \<times> string \<times> string option"

definition newline :: char where "newline = CHR 0x0A"
definition lsCommand :: string where "lsCommand = ''ls -l -p '' @ [dquote]"
definition lsEcho :: string where "lsEcho = ''debugfs: '' @ lsCommand"

definition debugfsErrors :: "string \<Rightarrow> string list" where
  "debugfsErrors stderr =
     filter (\<lambda>line. line \<noteq> [] \<and> list_ex (hasPrefix line) [''dump: '', ''ls: '', ''stat: '', ''debugfs: ''])
       (map trimSpace (split_on newline stderr))"

definition block_of :: "(string, string list) gmap \<Rightarrow> string \<Rightarrow> string list" where
  "block_of blocks d = (case m_get blocks d of None \<Rightarrow> [] | Some ls \<Rightarrow> ls)"

text \<open>The lines of the output, each attributed to the directory of the echo above it.\<close>

fun attribute_lines :: "string list \<Rightarrow> string \<Rightarrow> (string, string list) gmap \<Rightarrow> (string, string list) gmap" where
  "attribute_lines [] current blocks = blocks"
| "attribute_lines (line # lines) current blocks =
     (if hasPrefix line lsEcho
      then attribute_lines lines (trimSuffix (drop (length lsEcho) line) [dquote]) blocks
      else if current = [] \<or> trimSpace line = [] then attribute_lines lines current blocks
      else attribute_lines lines current (m_put current (block_of blocks current @ [line]) blocks))"

definition listDirs :: "debugfs \<Rightarrow> string list \<Rightarrow> image_error + (string, string list) gmap" where
  "listDirs run dirs =
     (case run (concat (map (\<lambda>d. lsCommand @ d @ [dquote, newline]) dirs)) of
        (out, stderr, Some err) \<Rightarrow> Inl (IOFailed (err @ '': '' @ trimSpace stderr))
      | (out, stderr, None) \<Rightarrow>
          if debugfsErrors stderr \<noteq> [] then Inl (Hostile (NoListing (debugfsErrors stderr)))
          else let blocks = attribute_lines (split_on newline out) [] [] in
            (case find (\<lambda>d. block_of blocks d = []) dirs of
               Some d \<Rightarrow> Inl (Hostile (ListsNothing d))
             | None \<Rightarrow> Inr blocks))"

text \<open>The records of one directory, and of the directories of one level: the entries so far and the next level.\<close>

fun list_block :: "string \<Rightarrow> string list \<Rightarrow> imageEntry list \<times> string list \<Rightarrow> hostile + imageEntry list \<times> string list" where
  "list_block dir [] acc = Inr acc"
| "list_block dir (rec # recs) (out, nxt) =
     (case entryFrom dir rec of
        Inl err \<Rightarrow> Inl err
      | Inr None \<Rightarrow> list_block dir recs (out, nxt)
      | Inr (Some e) \<Rightarrow>
          if maxImageEntries \<le> length out then Inl TooManyEntries
          else list_block dir recs (out @ [e], if ie_kind e = KindDir then nxt @ [CHR ''/'' # ie_path e] else nxt))"

fun list_level :: "(string, string list) gmap \<Rightarrow> string list \<Rightarrow> imageEntry list \<times> string list \<Rightarrow> hostile + imageEntry list \<times> string list" where
  "list_level blocks [] acc = Inr acc"
| "list_level blocks (dir # dirs) acc =
     (case list_block dir (block_of blocks dir) acc of
        Inl err \<Rightarrow> Inl err
      | Inr acc' \<Rightarrow> list_level blocks dirs acc')"

function list_levels :: "debugfs \<Rightarrow> nat \<Rightarrow> string list \<Rightarrow> imageEntry list \<Rightarrow> image_error + imageEntry list" where
  "list_levels run depth level out =
     (if level = [] then Inr out
      else if 128 < depth then Inl (Hostile TreeTooDeep)
      else case listDirs run level of
             Inl err \<Rightarrow> Inl err
           | Inr blocks \<Rightarrow>
               (case list_level blocks level (out, []) of
                  Inl err \<Rightarrow> Inl (Hostile err)
                | Inr (out', nxt) \<Rightarrow> list_levels run (depth + 1) nxt out'))"
  by pat_completeness auto

termination
  by (relation "measure (\<lambda>(run, depth, level, out). 129 - depth)") auto

declare list_levels.simps [simp del]

definition listImage :: "debugfs \<Rightarrow> image_error + imageEntry list" where
  "listImage run = list_levels run 0 [''/''] []"

section \<open>Modes\<close>

definition perm :: "32 word \<Rightarrow> 32 word" where "perm m = m AND 0x1FF"

definition safeMode :: "32 word \<Rightarrow> bool \<Rightarrow> 32 word" where
  "safeMode m dir = (let p = perm m AND NOT 0x2 in if dir then p OR 0x140 else p OR 0x100)"

definition extractMode :: "32 word \<Rightarrow> bool \<Rightarrow> 32 word" where
  "extractMode m dir = (if dir then safeMode m True OR 0x1C0 else safeMode m False OR 0x180)"

section \<open>Sizes\<close>

text \<open>The sum is an \<open>int64\<close>: it wraps.\<close>

definition int64_add :: "int \<Rightarrow> int \<Rightarrow> int" where
  "int64_add a b = (a + b + 2 ^ 63) mod 2 ^ 64 - 2 ^ 63"

definition stagingBytes :: "imageEntry list \<Rightarrow> int" where
  "stagingBytes entries = foldl (\<lambda>total e. if ie_kind e \<noteq> KindDir then int64_add total (ie_size e) else total) 0 entries"

definition largest_entry :: "imageEntry list \<Rightarrow> imageEntry" where
  "largest_entry entries =
     foldl (\<lambda>l e. if ie_kind e \<noteq> KindDir \<and> ie_size l < ie_size e then e else l)
       \<lparr>ie_path = [], ie_mode = 0, ie_kind = KindFile, ie_size = 0\<rparr> entries"

text \<open>The size of the image file is nothing when it cannot be had.\<close>

definition declaredSizeFits :: "imageEntry list \<Rightarrow> int \<Rightarrow> int option \<Rightarrow> hostile option" where
  "declaredSizeFits entries tot disk =
     (case disk of
        None \<Rightarrow> None
      | Some sz \<Rightarrow>
          if tot \<le> sz then None
          else let l = largest_entry entries in Some (HolesDeclared tot sz (ie_path l) (ie_size l)))"

definition checkedTarget :: "imageEntry \<Rightarrow> string \<Rightarrow> hostile + string" where
  "checkedTarget e target =
     (if int (length target) \<noteq> ie_size e then Inl (ShortTarget (ie_path e) (length target) (ie_size e)) else Inr target)"

section \<open>Lemmas on modes\<close>

lemma safeMode_alt: "safeMode m dir = (m AND 0x1FD) OR (if dir then 0x140 else 0x100)"
  by (simp add: safeMode_def perm_def Let_def and.assoc)

text \<open>What is never left on the host, what is always there, and what is the guest's.\<close>

lemma safeMode_bits:
  "safeMode m dir AND 0xFFFFFE02 = 0"
  "safeMode m dir AND 0x100 = 0x100"
  "safeMode m True AND 0x40 = 0x40"
  "safeMode m dir AND (if dir then 0xBD else 0xFD) = m AND (if dir then 0xBD else 0xFD)"
  by (simp_all add: safeMode_alt bit.conj_disj_distrib2 and.assoc)

lemma safeMode_keeps:
  assumes "m AND 0x1FF = m" and "m AND 0x2 = 0" and "m AND (if dir then 0x140 else 0x100) = (if dir then 0x140 else 0x100)"
  shows "safeMode m dir = m"
proof -
  have "m = (m AND 0x1FF)" using assms(1) by simp
  also have "(m AND 0x1FF) = (m AND (0x1FD OR 0x2))" by simp
  also have "\<dots> = (m AND 0x1FD) OR (m AND 0x2)" by (simp only: bit.conj_disj_distrib)
  finally have k: "m AND 0x1FD = m" using assms(2) by simp
  have "m OR (m AND f) = m" for f by (rule bit_word_eqI) (auto simp: bit_simps)
  from this[of "if dir then 0x140 else 0x100"] show ?thesis unfolding safeMode_alt k assms(3) .
qed

lemma safeMode_idem: "safeMode (safeMode m dir) dir = safeMode m dir"
  by (simp add: safeMode_alt bit.conj_disj_distrib2 and.assoc or.assoc)

lemma extractMode_bits:
  "extractMode m dir = (m AND 0x1FD) OR (if dir then 0x1C0 else 0x180)" "extractMode m dir AND 0xFFFFFE02 = 0" "extractMode m dir AND 0x180 = 0x180"
  by (simp_all add: extractMode_def safeMode_alt bit.conj_disj_distrib2 and.assoc or.assoc)

section \<open>Lemmas on entries\<close>

text \<open>A name the host uses: one plain segment, of at most 255 bytes, with nothing that ends a quoted argument or a line.\<close>

definition safe_name :: "string \<Rightarrow> bool" where
  "safe_name n \<longleftrightarrow> plain_seg n \<and> length n \<le> 255 \<and> dquote \<notin> set n \<and> squote \<notin> set n \<and> list_all (\<lambda>c. \<not> name_control c) n"

lemma validName_safe: "n \<noteq> [] \<Longrightarrow> validName dir n = None \<longleftrightarrow> safe_name n"
  by (auto simp: validName_def safe_name_def plain_seg_def slash_def find_None_iff list_all_iff find_Some_iff
      name_control_def split: option.splits)

lemma safe_plain: "list_all safe_name ds \<Longrightarrow> list_all plain_seg ds"
  by (auto simp: list_all_iff safe_name_def)

text \<open>The name of a directory as it is asked for: rooted.\<close>

definition dir_name :: "string list \<Rightarrow> string" where
  "dir_name ds = slash # join ds [slash]"

lemma split_snoc:
  assumes "list_all plain_seg ds" and "plain_seg n"
  shows "filter (\<lambda>x. x \<noteq> []) (split_on slash (dir_name ds @ slash # n)) = ds @ [n]"
proof -
  have n: "split_on slash n = [n]" using assms(2) by (simp add: split_on_single plain_seg_def)
  have "split_on slash (dir_name ds @ slash # n) = [] # split_on slash (join ds [slash]) @ [n]"
    by (simp only: split_on_slash n dir_name_def append.simps split_on.simps) simp
  moreover have "filter (\<lambda>x. x \<noteq> []) ds = ds" "n \<noteq> []" using assms by (auto simp: filter_id_conv list_all_iff plain_seg_def)
  ultimately show ?thesis using join_plain_split[OF assms(1)] by auto
qed

lemma path_join_entry:
  assumes "list_all plain_seg ds" and "plain_seg n"
  shows "path_join [dir_name ds, n] = dir_name (ds @ [n])"
proof -
  let ?p = "dir_name ds @ slash # n"
  have ne: "dir_name ds \<noteq> []" "n \<noteq> []" using assms(2) by (auto simp: dir_name_def plain_seg_def)
  have e: "x = [] \<or> plain_seg x" if "x \<in> set (split_on slash ?p)" for x
  proof (cases "x = []")
    case False
    then have "x \<in> set (filter (\<lambda>x. x \<noteq> []) (split_on slash ?p))" using that by simp
    then show ?thesis using assms split_snoc[OF assms] by (auto simp: list_all_iff)
  qed simp
  then have "clean_segs True [] (split_on slash ?p) = rev (filter (\<lambda>x. x \<noteq> []) (split_on slash ?p))"
    using clean_segs_id[of "split_on slash ?p" True "[]"] by (simp add: list_all_iff)
  then have "path_clean ?p = dir_name (ds @ [n])"
    using split_snoc[OF assms] by (simp add: path_clean_def slash_def dir_name_def)
  then show ?thesis using ne by (simp add: path_join_def slash_def)
qed

definition entry_at :: "string list \<Rightarrow> imageEntry \<Rightarrow> bool" where
  "entry_at ds e \<longleftrightarrow> ie_path e = join ds [slash] \<and> ds \<noteq> [] \<and> list_all safe_name ds \<and> 0 \<le> ie_size e \<and> ie_size e < 2 ^ 63 \<and>
     ie_mode e AND 0xFFF = ie_mode e \<and> (ie_kind e = KindDir \<longrightarrow> ie_size e = 0)"

lemma atoi_int64: "atoi s = Some n \<Longrightarrow> n < 2 ^ 63"
  by (auto simp: atoi_def in_int64_def split: option.splits if_splits)

lemma entryFrom_ok:
  assumes "entryFrom (dir_name ds) rec = Inr (Some e)" and "list_all safe_name ds"
  shows "\<exists>n. entry_at (ds @ [n]) e"
proof -
  let ?fs = "split_on CHR ''/'' rec"
  let ?n = "?fs ! 5"
  have len: "length ?fs = 8" using assms(1) by (auto simp: entryFrom_def Let_def split: if_splits)
  have v: "?n \<noteq> []" "validName (dir_name ds) ?n = None"
    using assms(1) by (auto simp: entryFrom_def Let_def split: if_splits option.splits)
  then have s: "safe_name ?n" using validName_safe by blast
  have full: "path_join [dir_name ds, ?n] = dir_name (ds @ [?n])"
    using s safe_plain[OF assms(2)] by (intro path_join_entry) (simp_all add: safe_name_def)
  have tp: "trimPrefix (dir_name (ds @ [?n])) ''/'' = join (ds @ [?n]) [slash]"
    by (simp add: trimPrefix_def dir_name_def slash_def hasPrefix_def)
  have m: "(x AND 0xFFF) AND 0xFFF = x AND 0xFFF" for x :: "32 word" by (simp add: and.assoc)
  have "entry_at (ds @ [?n]) e"
    using assms len v s m by (auto simp: entryFrom_def entry_at_def Let_def full tp dest: atoi_int64 split: if_splits option.splits)
  then show ?thesis by blast
qed

text \<open>What the listing keeps: every entry has its place, and the directories on the way are entries.\<close>

definition listed :: "imageEntry list \<Rightarrow> bool" where
  "listed out \<longleftrightarrow> length out \<le> maxImageEntries \<and>
     (\<forall>e \<in> set out. \<exists>ds. entry_at ds e \<and> length ds \<le> 129 \<and>
        (butlast ds \<noteq> [] \<longrightarrow> (\<exists>p \<in> set out. ie_kind p = KindDir \<and> ie_path p = join (butlast ds) [slash])))"

definition level_ok :: "imageEntry list \<Rightarrow> nat \<Rightarrow> string list \<Rightarrow> bool" where
  "level_ok out depth level \<longleftrightarrow>
     (\<forall>d \<in> set level. \<exists>ds. d = dir_name ds \<and> list_all safe_name ds \<and> length ds = depth \<and>
        (ds \<noteq> [] \<longrightarrow> (\<exists>p \<in> set out. ie_kind p = KindDir \<and> ie_path p = join ds [slash])))"

lemma listed_mono: "level_ok out depth level \<Longrightarrow> set out \<subseteq> set out' \<Longrightarrow> level_ok out' depth level"
  unfolding level_ok_def by blast

lemma list_block_ok:
  "list_block (dir_name ds) recs (out, nxt) = Inr (out', nxt') \<Longrightarrow> list_all safe_name ds \<Longrightarrow> length ds < 129 \<Longrightarrow>
    (ds \<noteq> [] \<Longrightarrow> \<exists>p \<in> set out. ie_kind p = KindDir \<and> ie_path p = join ds [slash]) \<Longrightarrow>
    listed out \<Longrightarrow> level_ok out (Suc (length ds)) nxt \<Longrightarrow>
    listed out' \<and> level_ok out' (Suc (length ds)) nxt' \<and> set out \<subseteq> set out'"
proof (induction recs arbitrary: out nxt)
  case (Cons rec recs)
  obtain r where r: "entryFrom (dir_name ds) rec = Inr r" using Cons.prems(1) by (auto split: sum.splits)
  show ?case
  proof (cases r)
    case None
    then show ?thesis using Cons r by simp
  next
    case (Some e)
    let ?nxt = "if ie_kind e = KindDir then nxt @ [CHR ''/'' # ie_path e] else nxt"
    from r Some have e: "entryFrom (dir_name ds) rec = Inr (Some e)" by simp
    have b: "list_block (dir_name ds) recs (out @ [e], ?nxt) = Inr (out', nxt')" "length out < maxImageEntries"
      using Cons.prems(1) e by (auto split: if_splits)
    obtain n where n: "entry_at (ds @ [n]) e" using entryFrom_ok[OF e Cons.prems(2)] by blast
    have p: "ds \<noteq> [] \<Longrightarrow> \<exists>p \<in> set (out @ [e]). ie_kind p = KindDir \<and> ie_path p = join ds [slash]" using Cons.prems(4) by auto
    have l: "listed (out @ [e])" unfolding listed_def
    proof
      show "length (out @ [e]) \<le> maxImageEntries" using b(2) by simp
      show "\<forall>e' \<in> set (out @ [e]). \<exists>ds. entry_at ds e' \<and> length ds \<le> 129 \<and>
          (butlast ds \<noteq> [] \<longrightarrow> (\<exists>p \<in> set (out @ [e]). ie_kind p = KindDir \<and> ie_path p = join (butlast ds) [slash]))"
      proof
        fix e' assume "e' \<in> set (out @ [e])"
        then consider "e' \<in> set out" | "e' = e" by auto
        then show "\<exists>ds. entry_at ds e' \<and> length ds \<le> 129 \<and>
            (butlast ds \<noteq> [] \<longrightarrow> (\<exists>p \<in> set (out @ [e]). ie_kind p = KindDir \<and> ie_path p = join (butlast ds) [slash]))"
        proof cases
          case 1
          then obtain xs where "entry_at xs e'" "length xs \<le> 129"
            "butlast xs \<noteq> [] \<longrightarrow> (\<exists>p \<in> set out. ie_kind p = KindDir \<and> ie_path p = join (butlast xs) [slash])"
            using Cons.prems(5) unfolding listed_def by blast
          then show ?thesis by (intro exI[of _ xs]) auto
        next
          case 2
          then show ?thesis using n p Cons.prems(3) by (intro exI[of _ "ds @ [n]"]) (auto simp: butlast_append)
        qed
      qed
    qed
    have v: "level_ok (out @ [e]) (Suc (length ds)) ?nxt"
    proof (cases "ie_kind e = KindDir")
      case True
      have "CHR ''/'' # ie_path e = dir_name (ds @ [n])" using n by (simp add: entry_at_def dir_name_def slash_def)
      moreover have "\<exists>p \<in> set (out @ [e]). ie_kind p = KindDir \<and> ie_path p = join (ds @ [n]) [slash]" using True n by (auto simp: entry_at_def)
      moreover have "list_all safe_name (ds @ [n])" using n by (simp add: entry_at_def)
      ultimately have "\<exists>xs. CHR ''/'' # ie_path e = dir_name xs \<and> list_all safe_name xs \<and> length xs = Suc (length ds) \<and>
          (xs \<noteq> [] \<longrightarrow> (\<exists>p \<in> set (out @ [e]). ie_kind p = KindDir \<and> ie_path p = join xs [slash]))"
        by (intro exI[of _ "ds @ [n]"]) simp
      then show ?thesis using True listed_mono[OF Cons.prems(6), of "out @ [e]"] unfolding level_ok_def by auto
    next
      case False
      then show ?thesis using listed_mono[OF Cons.prems(6), of "out @ [e]"] by auto
    qed
    show ?thesis using Cons.IH[OF b(1) Cons.prems(2,3) p l v] by auto
  qed
qed simp

lemma list_level_ok:
  "list_level blocks level (out, nxt) = Inr (out', nxt') \<Longrightarrow> depth < 129 \<Longrightarrow> level_ok out depth level \<Longrightarrow>
    listed out \<Longrightarrow> level_ok out (Suc depth) nxt \<Longrightarrow> listed out' \<and> level_ok out' (Suc depth) nxt'"
proof (induction level arbitrary: out nxt)
  case (Cons d level)
  obtain o1 n1 where b: "list_block d (block_of blocks d) (out, nxt) = Inr (o1, n1)"
    using Cons.prems(1) by (auto split: sum.splits)
  obtain ds where ds: "d = dir_name ds" "list_all safe_name ds" "length ds = depth"
    "ds \<noteq> [] \<longrightarrow> (\<exists>p \<in> set out. ie_kind p = KindDir \<and> ie_path p = join ds [slash])"
    using Cons.prems(3) unfolding level_ok_def by auto
  have s: "listed o1 \<and> level_ok o1 (Suc depth) n1 \<and> set out \<subseteq> set o1"
    using list_block_ok[OF b[unfolded ds(1)] ds(2)] ds(3,4) Cons.prems(2,4,5) by auto
  moreover have "level_ok o1 depth level" using listed_mono[of out depth level o1] Cons.prems(3) s by (auto simp: level_ok_def)
  moreover have "list_level blocks level (o1, n1) = Inr (out', nxt')" using Cons.prems(1) b by simp
  ultimately show ?case using Cons.IH Cons.prems(2) by blast
qed simp

lemma list_levels_ok:
  "list_levels run depth level out = Inr es \<Longrightarrow> level_ok out depth level \<Longrightarrow> listed out \<Longrightarrow> listed es"
proof (induction run depth level out rule: list_levels.induct)
  case (1 run depth level out)
  show ?case
  proof (cases "level = []")
    case True
    then show ?thesis using "1.prems" by (simp add: list_levels.simps)
  next
    case False
    obtain blocks where b: "listDirs run level = Inr blocks" and d: "\<not> 128 < depth"
      using "1.prems"(1) False by (subst (asm) list_levels.simps) (auto split: if_splits sum.splits)
    obtain o1 nxt where l: "list_level blocks level (out, []) = Inr (o1, nxt)"
      using "1.prems"(1) False b d by (subst (asm) list_levels.simps) (auto split: sum.splits)
    have r: "list_levels run (depth + 1) nxt o1 = Inr es"
      using "1.prems"(1) False b d l by (subst (asm) list_levels.simps) simp
    have "listed o1 \<and> level_ok o1 (Suc depth) nxt"
      using d by (intro list_level_ok[OF l _ "1.prems"(2,3)]) (simp_all add: level_ok_def)
    then show ?thesis using "1.IH"[OF False d b l refl r] by simp
  qed
qed

lemma listImage_ok: "listImage run = Inr es \<Longrightarrow> listed es"
  unfolding listImage_def
  by (erule list_levels_ok) (auto simp: level_ok_def listed_def dir_name_def slash_def)

end
