(* ===== verification/Image_Links.thy ===== *)
theory Image_Links
  imports Image_Entry
begin

text \<open>
  The symbolic links of an image (\<open>validLink\<close>, \<open>linkWalker\<close> and \<open>validLinkChain\<close> of
  \<open>internal/sandbox/extract.go\<close>): the check of one link, the walk of a chain of them with its
  budgets and its watch for cycles, and a reference resolution without any bound that an accepted
  chain keeps inside the tree. What the staging tree answers to \<open>os.Readlink\<close> is an argument
  \<open>rl\<close>, the empty string for a name that is no link.
\<close>

section \<open>One link\<close>

definition validLink :: "string \<Rightarrow> string \<Rightarrow> hostile option" where
  "validLink from target =
     (if target = [] then Some (LinkNoTarget from)
      else if CHR 0x00 \<in> set target then Some (LinkNUL from)
      else if path_isAbs target then Some (LinkHostPath from target)
      else let landing = path_join [path_dir from, target] in
        if landing = ''..'' \<or> hasPrefix landing ''../'' then Some (LinkOutside from target) else None)"

section \<open>A chain of links\<close>

definition maxLinkHops :: nat where "maxLinkHops = 64"
definition maxLinkSteps :: nat where "maxLinkSteps = 2 ^ 20"
definition cycleWatchFrom :: nat where "cycleWatchFrom = 8"

datatype link_error = LinkEscapes | LinkTooDeep | LinkCycles | LinkBudget

record linkWalker =
  lw_links :: "(string, string) gmap"
  lw_steps :: nat

definition newLinkWalker :: "nat \<Rightarrow> linkWalker" where
  "newLinkWalker steps = \<lparr>lw_links = [], lw_steps = steps\<rparr>"

definition readlink :: "(string \<Rightarrow> string) \<Rightarrow> string \<Rightarrow> linkWalker \<Rightarrow> string \<times> linkWalker" where
  "readlink rl r w =
     (case m_get (lw_links w) r of
        Some target \<Rightarrow> (target, w)
      | None \<Rightarrow> (rl r, w\<lparr>lw_links := m_put r (rl r) (lw_links w)\<rparr>))"

definition splitPath :: "string \<Rightarrow> string list" where
  "splitPath p = (if p = [] \<or> p = ''.'' then [] else split_on CHR ''/'' p)"

text \<open>The directory above, as the code cuts it off the string.\<close>

definition parent_dir :: "string \<Rightarrow> string" where
  "parent_dir cur = (case lastIndexChar cur CHR ''/'' of Some i \<Rightarrow> take i cur | None \<Rightarrow> [])"

definition nul :: char where "nul = CHR 0x00"

definition link_state :: "string \<Rightarrow> string \<Rightarrow> string list \<Rightarrow> string" where
  "link_state cur link todo = cur @ nul # link @ nul # join todo ''/''"

lemma readlink_steps: "readlink rl r w = (t, w') \<Longrightarrow> lw_steps w' = lw_steps w"
  by (auto simp: readlink_def split: option.splits)

function walk_loop ::
  "(string \<Rightarrow> string) \<Rightarrow> string \<Rightarrow> nat \<Rightarrow> string list \<Rightarrow> nat \<Rightarrow> string list \<Rightarrow> linkWalker \<Rightarrow> link_error option \<times> linkWalker" where
  "walk_loop rl cur depth [] hops seen w = (None, w)"
| "walk_loop rl cur depth (seg # todo) hops seen w =
     (let w = w\<lparr>lw_steps := lw_steps w + 1\<rparr> in
      if maxLinkSteps < lw_steps w then (Some LinkBudget, w)
      else if seg = [] \<or> seg = ''.'' then walk_loop rl cur depth todo hops seen w
      else if seg = ''..''
      then if depth = 0 then (Some LinkEscapes, w)
           else walk_loop rl (parent_dir cur) (depth - 1) todo hops seen w
      else let probe = (if cur \<noteq> [] then cur @ CHR ''/'' # seg else seg) in
        case readlink rl probe w of (link, w) \<Rightarrow>
          if link = [] then walk_loop rl probe (depth + 1) todo hops seen w
          else if path_isAbs link then (Some LinkEscapes, w)
          else if maxLinkHops < hops + 1 then (Some LinkTooDeep, w)
          else if cycleWatchFrom < hops + 1 \<and> link_state cur link todo \<in> set seen then (Some LinkCycles, w)
          else walk_loop rl cur depth (splitPath link @ todo) (hops + 1)
                 (if cycleWatchFrom < hops + 1 then link_state cur link todo # seen else seen) w)"
  by pat_completeness auto

termination
  by (relation "measure (\<lambda>(rl, cur, depth, todo, hops, seen, w). Suc maxLinkSteps - lw_steps w)")
    (auto dest!: sym[of _ "readlink _ _ _"] readlink_steps)

definition walk :: "(string \<Rightarrow> string) \<Rightarrow> string \<Rightarrow> string \<Rightarrow> linkWalker \<Rightarrow> link_error option \<times> linkWalker" where
  "walk rl from target w =
     (if path_isAbs target then (Some LinkEscapes, w)
      else let cur = path_dir from in
        if cur = ''.'' then walk_loop rl [] 0 (splitPath target) 0 [] w
        else walk_loop rl cur (count_list cur CHR ''/'' + 1) (splitPath target) 0 [] w)"

definition validLinkChain :: "(string \<Rightarrow> string) \<Rightarrow> string \<Rightarrow> string \<Rightarrow> linkWalker \<Rightarrow> hostile option \<times> linkWalker" where
  "validLinkChain rl from target w =
     (case walk rl from target w of
        (Some LinkEscapes, w) \<Rightarrow> (Some (ChainLeaves from target), w)
      | (Some LinkTooDeep, w) \<Rightarrow> (Some (ChainTooLong from target), w)
      | (Some LinkBudget, w) \<Rightarrow> (Some (ChainBudget from), w)
      | (Some LinkCycles, w) \<Rightarrow> (None, w)
      | (None, w) \<Rightarrow> (None, w))"

section \<open>Resolution without bounds\<close>

text \<open>
  How a tool that follows links resolves a path: a place is the directory it stands in, as
  segments, and the segments left; \<open>Outside\<close> is reached by climbing above the tree or by an
  absolute link. Empty segments and dots are dropped when a target is cut.
\<close>

datatype place = At "string list" "string list" | Outside

definition cut_target :: "string \<Rightarrow> string list" where
  "cut_target t = filter (\<lambda>s. s \<noteq> [] \<and> s \<noteq> ''.'') (split_on slash t)"

inductive follows :: "(string \<Rightarrow> string) \<Rightarrow> place \<Rightarrow> place \<Rightarrow> bool" for rl where
  up: "follows rl (At (dir @ [d]) (''..'' # todo)) (At dir todo)"
| above: "follows rl (At [] (''..'' # todo)) Outside"
| enter: "s \<noteq> ''..'' \<Longrightarrow> rl (join (dir @ [s]) [slash]) = [] \<Longrightarrow> follows rl (At dir (s # todo)) (At (dir @ [s]) todo)"
| redirect: "s \<noteq> ''..'' \<Longrightarrow> rl (join (dir @ [s]) [slash]) = t \<Longrightarrow> t \<noteq> [] \<Longrightarrow> \<not> path_isAbs t \<Longrightarrow>
    follows rl (At dir (s # todo)) (At dir (cut_target t @ todo))"
| absolute: "s \<noteq> ''..'' \<Longrightarrow> path_isAbs (rl (join (dir @ [s]) [slash])) \<Longrightarrow> follows rl (At dir (s # todo)) Outside"

inductive_cases follows_nil: "follows rl (At dir []) p"
inductive_cases follows_cons: "follows rl (At dir (s # todo)) p"
inductive_cases follows_outside: "follows rl Outside p"

text \<open>A link at the segments \<open>ds @ [n]\<close> whose target leads outside.\<close>

definition escapes :: "(string \<Rightarrow> string) \<Rightarrow> string list \<Rightarrow> string \<Rightarrow> bool" where
  "escapes rl ds target \<longleftrightarrow> path_isAbs target \<or> (follows rl)\<^sup>*\<^sup>* (At ds (cut_target target)) Outside"

lemma abs_not_nil: "path_isAbs t \<Longrightarrow> t \<noteq> []"
  by (simp add: path_isAbs_def)

lemma follows_det: "follows rl p q \<Longrightarrow> follows rl p r \<Longrightarrow> q = r"
  by (induction rule: follows.induct) (auto elim!: follows_cons dest: abs_not_nil)

lemma outside_stuck: "(follows rl)\<^sup>*\<^sup>* Outside p \<Longrightarrow> p = Outside"
  by (induction rule: rtranclp_induct) (auto elim: follows_outside)

text \<open>Every step of a deterministic run is on the way to its end.\<close>

lemma det_step:
  assumes "follows rl p q"
  shows "(follows rl)\<^sup>*\<^sup>* p Outside \<longleftrightarrow> (follows rl)\<^sup>*\<^sup>* q Outside"
proof
  assume "(follows rl)\<^sup>*\<^sup>* p Outside"
  then show "(follows rl)\<^sup>*\<^sup>* q Outside"
  proof (cases rule: converse_rtranclpE)
    case base
    then show ?thesis using assms by (auto elim: follows_outside)
  next
    case (step r)
    then show ?thesis using follows_det[OF assms step(1)] by simp
  qed
qed (use assms in \<open>rule converse_rtranclp_into_rtranclp\<close>)

lemma no_escape_from_cycle:
  assumes "(follows rl)\<^sup>+\<^sup>+ p p"
  shows "\<not> (follows rl)\<^sup>*\<^sup>* p Outside"
proof
  assume "(follows rl)\<^sup>*\<^sup>* p Outside"
  then have "(follows rl)\<^sup>+\<^sup>+ Outside Outside" using assms
  proof (induction rule: converse_rtranclp_induct)
    case (step p q)
    from step.prems obtain r where "follows rl p r" "(follows rl)\<^sup>*\<^sup>* r p" by (blast dest: tranclpD)
    then have "(follows rl)\<^sup>*\<^sup>* q p" using follows_det[OF step.hyps(1)] by blast
    then have "(follows rl)\<^sup>+\<^sup>+ q q" using step.hyps(1) by (rule rtranclp_into_tranclp1)
    then show ?case by (rule step.IH)
  qed
  then show False by (auto dest!: tranclpD elim: follows_outside)
qed

section \<open>Strings and segments\<close>

definition norm :: "string list \<Rightarrow> string list" where
  "norm todo = filter (\<lambda>s. s \<noteq> [] \<and> s \<noteq> ''.'') todo"

lemma norm_simps [simp]:
  "norm [] = []" "norm (a @ b) = norm a @ norm b"
  "norm (s # todo) = (if s = [] \<or> s = ''.'' then norm todo else s # norm todo)"
  by (simp_all add: norm_def)

lemma norm_splitPath: "norm (splitPath t) = cut_target t"
  by (simp add: splitPath_def cut_target_def norm_def slash_def)

lemma splitPath_quiet: "nul \<notin> set t \<Longrightarrow> list_all (\<lambda>s. slash \<notin> set s \<and> nul \<notin> set s) (splitPath t)"
proof -
  assume n: "nul \<notin> set t"
  have "set s \<subseteq> set t" if "s \<in> set (split_on c t)" for s c
    using that
  proof (induction t arbitrary: s)
    case (Cons x t)
    then show ?case by (cases "split_on c t") (fastforce split: if_splits)+
  qed simp
  with n show ?thesis using split_no_sep[of _ slash t] by (auto simp: splitPath_def list_all_iff slash_def)
qed

lemma join_Nil_iff: "list_all plain_seg ds \<Longrightarrow> join ds [slash] = [] \<longleftrightarrow> ds = []"
  using join_plain_split[of ds] by (cases ds) (auto simp: plain_seg_def split: if_splits)

lemma join_inj: "list_all plain_seg ds \<Longrightarrow> list_all plain_seg es \<Longrightarrow> join ds [slash] = join es [slash] \<Longrightarrow> ds = es"
proof -
  assume p: "list_all plain_seg ds" "list_all plain_seg es" and j: "join ds [slash] = join es [slash]"
  have "(if ds = [] then [[]] else ds) = (if es = [] then [[]] else es)"
    using join_plain_split[OF p(1)] join_plain_split[OF p(2)] unfolding j by simp
  moreover have "\<not> plain_seg []" by (simp add: plain_seg_def)
  ultimately show "ds = es" using p by (cases "ds = []"; cases "es = []") auto
qed

lemma probe_join: "list_all plain_seg ds \<Longrightarrow>
    (if join ds [slash] \<noteq> [] then join ds [slash] @ CHR ''/'' # s else s) = join (ds @ [s]) [slash]"
proof (cases "ds = []")
  case False
  assume "list_all plain_seg ds"
  then have "join ds [slash] \<noteq> []" using False by (simp add: join_Nil_iff)
  then show ?thesis using join_snoc[OF False, of "[s]" slash] by (simp add: slash_def)
qed simp

lemma lastIndex_after: "c \<notin> set b \<Longrightarrow> lastIndexChar (a @ c # b) c = Some (length a)"
proof (induction a)
  case Nil
  have "lastIndexOf b [c] = None" using Nil by (induction b) (auto simp: hasPrefix_def)
  then show ?case by (simp add: lastIndexChar_def hasPrefix_def)
qed (simp add: lastIndexChar_def)

lemma lastIndex_none: "c \<notin> set b \<Longrightarrow> lastIndexChar b c = None"
  by (induction b) (auto simp: lastIndexChar_def hasPrefix_def)

lemma parent_join: "list_all plain_seg (ds @ [d]) \<Longrightarrow> parent_dir (join (ds @ [d]) [slash]) = join ds [slash]"
proof (cases "ds = []")
  case False
  assume p: "list_all plain_seg (ds @ [d])"
  then have "slash \<notin> set d" by (simp add: plain_seg_def)
  from lastIndex_after[OF this, of "join ds [slash]"] show ?thesis
    using join_snoc[OF False, of "[d]" slash] by (simp add: parent_dir_def slash_def)
next
  case True
  assume p: "list_all plain_seg (ds @ [d])"
  then show ?thesis using True lastIndex_none[of slash d] by (simp add: parent_dir_def plain_seg_def slash_def)
qed

text \<open>A key names its state, up to segments that are dropped.\<close>

lemma append_sep_inj: "c \<notin> set a \<Longrightarrow> c \<notin> set a' \<Longrightarrow> a @ c # b = a' @ c # b' \<Longrightarrow> a = a' \<and> b = b'"
proof (induction a arbitrary: a')
  case Nil
  then show ?case by (cases a') auto
next
  case (Cons x a)
  then show ?case by (cases a') auto
qed

lemma join_norm:
  assumes "list_all (\<lambda>s. slash \<notin> set s) xs" and "list_all (\<lambda>s. slash \<notin> set s) ys" and "join xs [slash] = join ys [slash]"
  shows "norm xs = norm ys"
proof -
  have "norm xs = norm (split_on slash (join xs [slash]))" if "list_all (\<lambda>s. slash \<notin> set s) xs" for xs
    using split_join_plain[OF that] by (cases "xs = []") simp_all
  then show ?thesis using assms by metis
qed

lemma link_state_inj:
  assumes "link_state cur link todo = link_state cur' link' todo'"
    and "nul \<notin> set cur" "nul \<notin> set link" "nul \<notin> set cur'" "nul \<notin> set link'"
    and "list_all (\<lambda>s. slash \<notin> set s) todo" "list_all (\<lambda>s. slash \<notin> set s) todo'"
  shows "cur = cur' \<and> link = link' \<and> norm todo = norm todo'"
proof -
  have a: "cur = cur' \<and> link @ nul # join todo [slash] = link' @ nul # join todo' [slash]"
    using append_sep_inj[OF assms(2,4)] assms(1) by (simp add: link_state_def slash_def)
  then have "link = link' \<and> join todo [slash] = join todo' [slash]" using append_sep_inj[OF assms(3,5)] by blast
  then show ?thesis using a join_norm[OF assms(6,7)] by blast
qed

section \<open>An accepted chain stays inside\<close>

definition cache_ok :: "(string \<Rightarrow> string) \<Rightarrow> linkWalker \<Rightarrow> bool" where
  "cache_ok rl w \<longleftrightarrow> (\<forall>r t. m_get (lw_links w) r = Some t \<longrightarrow> t = rl r)"

lemma readlink_ok:
  "cache_ok rl w \<Longrightarrow> readlink rl r w = (t, w') \<Longrightarrow> t = rl r \<and> cache_ok rl w' \<and> lw_steps w' = lw_steps w"
  by (auto simp: readlink_def cache_ok_def gm.get_put split: option.splits if_splits)

lemma cache_step [simp]: "cache_ok rl (w\<lparr>lw_steps := n\<rparr>) = cache_ok rl w"
  by (simp add: cache_ok_def)

lemma walk_loop_cache:
  "cache_ok rl w \<Longrightarrow> walk_loop rl cur depth todo hops seen w = (res, w') \<Longrightarrow> cache_ok rl w'"
proof (induction rl cur depth todo hops seen w rule: walk_loop.induct)
  case (2 rl cur depth seg todo hops seen w)
  obtain t v where r: "readlink rl (if cur \<noteq> [] then cur @ CHR ''/'' # seg else seg) (w\<lparr>lw_steps := lw_steps w + 1\<rparr>) = (t, v)"
    by fastforce
  obtain w1 where w1: "w1 = w\<lparr>lw_steps := lw_steps w + 1\<rparr>" by simp
  then have c: "cache_ok rl w1" using "2.prems"(1) by simp
  have "cache_ok rl v" using readlink_ok[OF c] r w1 by simp
  then show ?case using "2.IH" "2.prems"(2) r c unfolding walk_loop.simps Let_def w1[symmetric]
    by (auto split: if_splits)
qed simp

definition seen_ok :: "(string \<Rightarrow> string) \<Rightarrow> string list \<Rightarrow> place \<Rightarrow> bool" where
  "seen_ok rl seen p \<longleftrightarrow>
     (\<forall>k \<in> set seen. \<exists>ds link todo. k = link_state (join ds [slash]) link todo \<and> list_all plain_seg ds \<and>
        nul \<notin> set (join ds [slash]) \<and> nul \<notin> set link \<and> list_all (\<lambda>s. slash \<notin> set s) todo \<and>
        (follows rl)\<^sup>*\<^sup>* (At ds (cut_target link @ norm todo)) p)"

lemma seen_step: "seen_ok rl seen p \<Longrightarrow> follows rl p q \<Longrightarrow> seen_ok rl seen q"
  unfolding seen_ok_def by (meson rtranclp.rtrancl_into_rtrancl)

lemma walk_loop_inside:
  "walk_loop rl cur depth todo hops seen w = (res, w') \<Longrightarrow> res = None \<or> res = Some LinkCycles \<Longrightarrow>
    cur = join ds [slash] \<Longrightarrow> list_all plain_seg ds \<Longrightarrow> nul \<notin> set cur \<Longrightarrow> depth = length ds \<Longrightarrow>
    list_all (\<lambda>s. slash \<notin> set s \<and> nul \<notin> set s) todo \<Longrightarrow> cache_ok rl w \<Longrightarrow> seen_ok rl seen (At ds (norm todo)) \<Longrightarrow>
    \<forall>r. nul \<notin> set (rl r) \<Longrightarrow> \<not> (follows rl)\<^sup>*\<^sup>* (At ds (norm todo)) Outside"
proof (induction rl cur depth todo hops seen w arbitrary: ds rule: walk_loop.induct)
  case (1 rl cur depth hops seen w)
  then show ?case by (auto elim: converse_rtranclpE follows_nil)
next
  case (2 rl cur depth seg todo hops seen w)
  obtain w1 where w1: "w1 = w\<lparr>lw_steps := lw_steps w + 1\<rparr>" by simp
  have c1: "cache_ok rl w1" using "2.prems"(8) w1 by simp
  have b: "\<not> maxLinkSteps < lw_steps w1" using "2.prems"(1,2) by (auto simp: Let_def w1 split: if_splits)
  have seg: "slash \<notin> set seg" "nul \<notin> set seg" and td: "list_all (\<lambda>s. slash \<notin> set s \<and> nul \<notin> set s) todo" using "2.prems"(7) by simp_all
  note u = walk_loop.simps(2)[of rl cur depth seg todo hops seen w, unfolded Let_def w1[symmetric]]
  consider (skip) "seg = [] \<or> seg = ''.''" | (up) "seg = ''..''" | (name) "plain_seg seg"
    using seg by (auto simp: plain_seg_def)
  then show ?case
  proof cases
    case skip
    then have r: "walk_loop rl cur depth todo hops seen w1 = (res, w')" using "2.prems"(1) b u by simp
    show ?thesis using "2.IH"(1)[OF w1 b skip r "2.prems"(2-6) td c1 _ "2.prems"(10)] "2.prems"(9) skip by simp
  next
    case up
    have d: "depth \<noteq> 0" using "2.prems"(1,2) b u up by (auto split: if_splits)
    then obtain es e where es: "ds = es @ [e]" using "2.prems"(6) by (cases ds rule: rev_cases) auto
    have pc: "parent_dir cur = join es [slash]" using parent_join[of es e] "2.prems"(3,4) es by simp
    have r: "walk_loop rl (parent_dir cur) (depth - 1) todo hops seen w1 = (res, w')" using "2.prems"(1) b u up d by simp
    have st: "follows rl (At ds (norm (seg # todo))) (At es (norm todo))" using up es by (simp add: follows.up)
    have np: "nul \<notin> set (parent_dir cur)" using "2.prems"(5) by (auto simp: parent_dir_def split: option.splits dest: in_set_takeD)
    have ns: "\<not> (seg = [] \<or> seg = ''.'')" using up by simp
    have ep: "list_all plain_seg es" "depth - 1 = length es" using "2.prems"(4,6) es by simp_all
    have "\<not> (follows rl)\<^sup>*\<^sup>* (At es (norm todo)) Outside"
      using "2.IH"(2)[OF w1 b ns up d r "2.prems"(2) pc ep(1) np ep(2) td c1 seen_step[OF "2.prems"(9) st] "2.prems"(10)] .
    then show ?thesis using det_step[OF st] by simp
  next
    case name
    have sg: "seg \<noteq> []" "seg \<noteq> ''.''" "seg \<noteq> ''..''" using name by (simp_all add: plain_seg_def)
    have ns: "\<not> (seg = [] \<or> seg = ''.'')" using sg by simp
    obtain probe where pr: "probe = (if cur \<noteq> [] then cur @ CHR ''/'' # seg else seg)" by simp
    have pj: "probe = join (ds @ [seg]) [slash]" by (simp only: pr "2.prems"(3) probe_join[OF "2.prems"(4)])
    obtain link v where rd: "readlink rl probe w1 = (link, v)" by fastforce
    note lk = readlink_ok[OF c1 rd]
    have ln: "nul \<notin> set link" using lk "2.prems"(10) by simp
    note u = u[folded pr, unfolded rd prod.case]
    have nseg: "norm (seg # todo) = seg # norm todo" using sg by simp
    have na: "link \<noteq> [] \<Longrightarrow> \<not> path_isAbs link" using "2.prems"(1,2) b u sg by (auto split: if_splits)
    show ?thesis
    proof (cases "link = []")
      case True
      have r: "walk_loop rl probe (depth + 1) todo hops seen v = (res, w')" using "2.prems"(1) b u sg True by simp
      have st: "follows rl (At ds (norm (seg # todo))) (At (ds @ [seg]) (norm todo))"
        using follows.enter[of seg rl ds "norm todo"] sg lk pj True by simp
      have np: "nul \<notin> set probe" using "2.prems"(5) seg(2) pr by (auto simp: nul_def)
      have dp: "list_all plain_seg (ds @ [seg])" "depth + 1 = length (ds @ [seg])" using "2.prems"(4,6) name by simp_all
      have "\<not> (follows rl)\<^sup>*\<^sup>* (At (ds @ [seg]) (norm todo)) Outside"
        using "2.IH"(3)[OF w1 b ns sg(3) pr rd[symmetric] True r "2.prems"(2) pj dp(1) np dp(2) td conjunct1[OF conjunct2[OF lk]]
            seen_step[OF "2.prems"(9) st] "2.prems"(10)] .
      then show ?thesis using det_step[OF st] by simp
    next
      case False
      let ?q = "At ds (norm (splitPath link @ todo))"
      have h: "\<not> maxLinkHops < hops + 1" using "2.prems"(1,2) b u sg False na by (auto split: if_splits)
      have q: "?q = At ds (cut_target link @ norm todo)" by (simp add: norm_splitPath)
      have st: "follows rl (At ds (norm (seg # todo))) ?q"
        unfolding q nseg using follows.redirect[of seg rl ds link "norm todo"] sg(3) lk pj False na by simp
      show ?thesis
      proof (cases "cycleWatchFrom < hops + 1 \<and> link_state cur link todo \<in> set seen")
        case True
        then obtain es l t where k: "link_state cur link todo = link_state (join es [slash]) l t" "list_all plain_seg es"
          "nul \<notin> set (join es [slash])" "nul \<notin> set l" "list_all (\<lambda>s. slash \<notin> set s) t"
          "(follows rl)\<^sup>*\<^sup>* (At es (cut_target l @ norm t)) (At ds (norm (seg # todo)))"
          using "2.prems"(9) unfolding seen_ok_def by blast
        have tq: "list_all (\<lambda>s. slash \<notin> set s) todo" using td by (simp add: list_all_iff)
        from link_state_inj[OF k(1) "2.prems"(5) ln k(3,4) tq k(5)]
        have e: "cur = join es [slash]" "link = l" "norm todo = norm t" by blast+
        have "ds = es" using join_inj[OF "2.prems"(4) k(2)] e(1) "2.prems"(3) by simp
        then have "(follows rl)\<^sup>*\<^sup>* ?q (At ds (norm (seg # todo)))" using k(6) e q by simp
        then have "(follows rl)\<^sup>+\<^sup>+ ?q ?q" using st by (rule rtranclp_into_tranclp1)
        from no_escape_from_cycle[OF this] show ?thesis using det_step[OF st] by simp
      next
        case False2: False
        let ?seen = "if cycleWatchFrom < hops + 1 then link_state cur link todo # seen else seen"
        have r: "walk_loop rl cur depth (splitPath link @ todo) (hops + 1) ?seen v = (res, w')"
          using "2.prems"(1) unfolding u by (simp only: b ns sg(3) False na[OF False] h False2 if_False)
        have "seen_ok rl seen ?q" by (rule seen_step[OF "2.prems"(9) st])
        moreover have "\<exists>ds' l t. link_state cur link todo = link_state (join ds' [slash]) l t \<and> list_all plain_seg ds' \<and>
            nul \<notin> set (join ds' [slash]) \<and> nul \<notin> set l \<and> list_all (\<lambda>s. slash \<notin> set s) t \<and>
            (follows rl)\<^sup>*\<^sup>* (At ds' (cut_target l @ norm t)) ?q"
          using "2.prems"(3-5) ln td q by (intro exI[of _ ds] exI[of _ link] exI[of _ todo]) (auto simp: list_all_iff)
        ultimately have so: "seen_ok rl ?seen ?q" unfolding seen_ok_def by simp
        have tl: "list_all (\<lambda>s. slash \<notin> set s \<and> nul \<notin> set s) (splitPath link @ todo)" using splitPath_quiet[OF ln] td by simp
        have "\<not> (follows rl)\<^sup>*\<^sup>* ?q Outside"
          using "2.IH"(4)[OF w1 b ns sg(3) pr rd[symmetric] False na[OF False] h False2 r "2.prems"(2-6) tl conjunct1[OF conjunct2[OF lk]] so "2.prems"(10)] .
        then show ?thesis using det_step[OF st] by simp
      qed
    qed
  qed
qed

text \<open>And a chain refused because it leaves does leave.\<close>

lemma walk_loop_leaves:
  "walk_loop rl cur depth todo hops seen w = (Some LinkEscapes, w') \<Longrightarrow>
    cur = join ds [slash] \<Longrightarrow> list_all plain_seg ds \<Longrightarrow> depth = length ds \<Longrightarrow>
    list_all (\<lambda>s. slash \<notin> set s) todo \<Longrightarrow> cache_ok rl w \<Longrightarrow> (follows rl)\<^sup>*\<^sup>* (At ds (norm todo)) Outside"
proof (induction rl cur depth todo hops seen w arbitrary: ds rule: walk_loop.induct)
  case (1 rl cur depth hops seen w)
  then show ?case by simp
next
  case (2 rl cur depth seg todo hops seen w)
  obtain w1 where w1: "w1 = w\<lparr>lw_steps := lw_steps w + 1\<rparr>" by simp
  have c1: "cache_ok rl w1" using "2.prems"(6) w1 by simp
  have b: "\<not> maxLinkSteps < lw_steps w1" using "2.prems"(1) by (auto simp: Let_def w1 split: if_splits)
  have seg: "slash \<notin> set seg" and td: "list_all (\<lambda>s. slash \<notin> set s) todo" using "2.prems"(5) by simp_all
  note u = walk_loop.simps(2)[of rl cur depth seg todo hops seen w, unfolded Let_def w1[symmetric]]
  consider (skip) "seg = [] \<or> seg = ''.''" | (up) "seg = ''..''" | (name) "plain_seg seg"
    using seg by (auto simp: plain_seg_def)
  then show ?case
  proof cases
    case skip
    then have r: "walk_loop rl cur depth todo hops seen w1 = (Some LinkEscapes, w')" using "2.prems"(1) b u by simp
    show ?thesis using "2.IH"(1)[OF w1 b skip r "2.prems"(2-4) td c1] skip by simp
  next
    case up
    have ns: "\<not> (seg = [] \<or> seg = ''.'')" using up by simp
    show ?thesis
    proof (cases "depth = 0")
      case True
      then show ?thesis using "2.prems"(4) up by (auto intro: follows.above)
    next
      case False
      then obtain es e where es: "ds = es @ [e]" using "2.prems"(4) by (cases ds rule: rev_cases) auto
      have pc: "parent_dir cur = join es [slash]" using parent_join[of es e] "2.prems"(2,3) es by simp
      have r: "walk_loop rl (parent_dir cur) (depth - 1) todo hops seen w1 = (Some LinkEscapes, w')" using "2.prems"(1) b u up False by simp
      have st: "follows rl (At ds (norm (seg # todo))) (At es (norm todo))" using up es by (simp add: follows.up)
      have ep: "list_all plain_seg es" "depth - 1 = length es" using "2.prems"(3,4) es by simp_all
      show ?thesis using "2.IH"(2)[OF w1 b ns up False r pc ep td c1] det_step[OF st] by simp
    qed
  next
    case name
    have sg: "seg \<noteq> []" "seg \<noteq> ''.''" "seg \<noteq> ''..''" using name by (simp_all add: plain_seg_def)
    have ns: "\<not> (seg = [] \<or> seg = ''.'')" using sg by simp
    obtain probe where pr: "probe = (if cur \<noteq> [] then cur @ CHR ''/'' # seg else seg)" by simp
    have pj: "probe = join (ds @ [seg]) [slash]" by (simp only: pr "2.prems"(2) probe_join[OF "2.prems"(3)])
    obtain link v where rd: "readlink rl probe w1 = (link, v)" by fastforce
    note lk = readlink_ok[OF c1 rd]
    note u = u[folded pr, unfolded rd prod.case]
    have nseg: "norm (seg # todo) = seg # norm todo" using sg by simp
    consider (enter) "link = []" | (abs) "path_isAbs link" | (hop) "link \<noteq> []" "\<not> path_isAbs link" by blast
    then show ?thesis
    proof cases
      case enter
      have r: "walk_loop rl probe (depth + 1) todo hops seen v = (Some LinkEscapes, w')" using "2.prems"(1) b u sg enter by simp
      have st: "follows rl (At ds (norm (seg # todo))) (At (ds @ [seg]) (norm todo))"
        using follows.enter[of seg rl ds "norm todo"] sg lk pj enter by simp
      have dp: "list_all plain_seg (ds @ [seg])" "depth + 1 = length (ds @ [seg])" using "2.prems"(3,4) name by simp_all
      show ?thesis using "2.IH"(3)[OF w1 b ns sg(3) pr rd[symmetric] enter r pj dp td conjunct1[OF conjunct2[OF lk]]] det_step[OF st] by simp
    next
      case abs
      then have "follows rl (At ds (norm (seg # todo))) Outside"
        unfolding nseg using sg(3) lk pj by (intro follows.absolute) simp_all
      then show ?thesis by (rule r_into_rtranclp)
    next
      case hop
      let ?q = "At ds (norm (splitPath link @ todo))"
      have h: "\<not> maxLinkHops < hops + 1" and nc: "\<not> (cycleWatchFrom < hops + 1 \<and> link_state cur link todo \<in> set seen)"
        using "2.prems"(1) b u sg hop by (auto split: if_splits)
      have st: "follows rl (At ds (norm (seg # todo))) ?q"
        unfolding nseg using follows.redirect[of seg rl ds link "norm todo"] sg(3) lk pj hop by (simp add: norm_splitPath)
      have r: "walk_loop rl cur depth (splitPath link @ todo) (hops + 1)
          (if cycleWatchFrom < hops + 1 then link_state cur link todo # seen else seen) v = (Some LinkEscapes, w')"
        using "2.prems"(1) unfolding u by (simp only: b ns sg(3) hop h nc if_False)
      have tl: "list_all (\<lambda>s. slash \<notin> set s) (splitPath link @ todo)"
        using td split_no_sep[of _ slash link] by (auto simp: splitPath_def list_all_iff slash_def)
      show ?thesis
        using "2.IH"(4)[OF w1 b ns sg(3) pr rd[symmetric] hop(1,2) h nc r "2.prems"(2-4) tl conjunct1[OF conjunct2[OF lk]]] det_step[OF st] by simp
    qed
  qed
qed

text \<open>The directory a link sits in.\<close>

lemma path_dir_join:
  assumes "list_all plain_seg (ds @ [n])"
  shows "path_dir (join (ds @ [n]) [slash]) = (if ds = [] then ''.'' else join ds [slash])"
proof (cases "ds = []")
  case True
  then show ?thesis using assms lastIndex_none[of slash n] by (simp add: path_dir_def plain_seg_def slash_def path_clean_def)
next
  case False
  have "slash \<notin> set n" using assms by (simp add: plain_seg_def)
  then have "lastIndexChar (join (ds @ [n]) [slash]) slash = Some (length (join ds [slash]))"
    using lastIndex_after join_snoc[OF False, of "[n]" slash] by simp
  then have "path_dir (join (ds @ [n]) [slash]) = path_clean (join ds [slash] @ [slash])"
    using join_snoc[OF False, of "[n]" slash] by (simp add: path_dir_def slash_def)
  then show ?thesis using clean_relative(2)[of ds] assms False by simp
qed

lemma count_join: "list_all plain_seg ds \<Longrightarrow> ds \<noteq> [] \<Longrightarrow> count_list (join ds [slash]) slash + 1 = length ds"
proof (induction ds rule: rev_induct)
  case (snoc d ds)
  have d: "count_list d slash = 0" using snoc.prems by (simp add: plain_seg_def)
  show ?case
  proof (cases "ds = []")
    case False
    then show ?thesis using snoc d join_snoc[OF False, of "[d]" slash] by (simp add: count_list_append)
  qed (simp add: d)
qed simp

lemma join_dot: "list_all plain_seg ds \<Longrightarrow> ds \<noteq> [] \<Longrightarrow> join ds [slash] \<noteq> ''.''"
  using join_plain_split[of ds] by (auto simp: plain_seg_def slash_def)

lemma walk_start:
  assumes "list_all plain_seg (ds @ [n])" and "\<not> path_isAbs target"
  shows "walk rl (join (ds @ [n]) [slash]) target w = walk_loop rl (join ds [slash]) (length ds) (splitPath target) 0 [] w"
proof (cases "ds = []")
  case True
  then show ?thesis using assms path_dir_join[OF assms(1)] by (simp add: walk_def)
next
  case False
  have p: "list_all plain_seg ds" using assms(1) by simp
  from path_dir_join[OF assms(1)] False have d: "path_dir (join (ds @ [n]) [slash]) = join ds [slash]" by simp
  show ?thesis using assms(2) join_dot[OF p False] count_join[OF p False] unfolding walk_def d by (simp add: slash_def)
qed

lemma walk_cache: "cache_ok rl w \<Longrightarrow> walk rl from target w = (res, w') \<Longrightarrow> cache_ok rl w'"
  unfolding walk_def Let_def by (auto split: if_splits intro: walk_loop_cache)

lemma walk_spec:
  assumes "list_all safe_name (ds @ [n])" and "nul \<notin> set target" and "\<forall>r. nul \<notin> set (rl r)" and "cache_ok rl w"
    and "walk rl (join (ds @ [n]) [slash]) target w = (res, w')"
  shows "(res = None \<or> res = Some LinkCycles \<longrightarrow> \<not> escapes rl ds target) \<and> (res = Some LinkEscapes \<longrightarrow> escapes rl ds target) \<and>
    cache_ok rl w'"
proof (cases "path_isAbs target")
  case True
  then show ?thesis using assms(4,5) by (auto simp: walk_def escapes_def)
next
  case False
  have p: "list_all plain_seg (ds @ [n])" "list_all plain_seg ds" using safe_plain[OF assms(1)] by simp_all
  note wl = assms(5)[unfolded walk_start[OF p(1) False]]
  have q: "nul \<notin> set (join ds [slash])"
  proof -
    have "nul \<notin> set d" if "d \<in> set ds" for d
    proof
      assume "nul \<in> set d"
      moreover have "\<forall>c \<in> set d. \<not> name_control c" using assms(1) that by (auto simp: safe_name_def list_all_iff)
      moreover have "name_control nul" by (simp add: name_control_def nul_def)
      ultimately show False by blast
    qed
    then show ?thesis by (induction ds "[slash]" rule: join.induct) (auto simp: nul_def slash_def)
  qed
  have tq: "list_all (\<lambda>s. slash \<notin> set s \<and> nul \<notin> set s) (splitPath target)" by (rule splitPath_quiet[OF assms(2)])
  then have tl: "list_all (\<lambda>s. slash \<notin> set s) (splitPath target)" by (simp add: list_all_iff)
  have so: "seen_ok rl [] p" for p by (simp add: seen_ok_def)
  have "res = None \<or> res = Some LinkCycles \<longrightarrow> \<not> escapes rl ds target"
    using walk_loop_inside[OF wl _ refl p(2) q refl tq assms(4) so assms(3)] False by (auto simp: escapes_def norm_splitPath)
  moreover have "res = Some LinkEscapes \<longrightarrow> escapes rl ds target"
    using walk_loop_leaves[OF _ refl p(2) refl tl assms(4)] wl by (auto simp: escapes_def norm_splitPath)
  ultimately show ?thesis using walk_loop_cache[OF assms(4) wl] by blast
qed

end
