(* ===== verification/Image_Extract.thy ===== *)
theory Image_Extract
  imports Image_Links
begin

text \<open>
  Writing what an image holds (\<open>extractImage\<close>, \<open>dumpFiles\<close>, \<open>readLink\<close> and
  \<open>copyThrough\<close> of \<open>internal/sandbox/extract.go\<close>). The tree is the log of what was done
  through the root; two names are the same file when \<open>key\<close>, an argument, maps them to the same
  value, so that the results hold on a filesystem that folds case or normalises. What
  \<open>debugfs\<close> writes and prints and what each system call answers are arguments.
\<close>

section \<open>The tree\<close>

datatype root_op =
    Mkdir string "32 word"
  | Symlink string string
  | WriteFile string string "32 word"
  | Chmod string "32 word"

fun made_at :: "root_op \<Rightarrow> string option" where
  "made_at (Mkdir p m) = Some p"
| "made_at (Symlink t p) = Some p"
| "made_at (WriteFile p b m) = Some p"
| "made_at (Chmod p m) = None"

definition tree_has :: "(string \<Rightarrow> string) \<Rightarrow> root_op list \<Rightarrow> string \<Rightarrow> bool" where
  "tree_has key log p \<longleftrightarrow> list_ex (\<lambda>x. map_option key (made_at x) = Some (key p)) log"

text \<open>\<open>os.Readlink\<close> in the tree.\<close>

fun tree_link :: "(string \<Rightarrow> string) \<Rightarrow> root_op list \<Rightarrow> string \<Rightarrow> string" where
  "tree_link key [] r = []"
| "tree_link key (Symlink t p # log) r = (if key p = key r then t else tree_link key log r)"
| "tree_link key (x # log) r = tree_link key log r"

section \<open>What the world answers\<close>

text \<open>
  The data directory (\<open>Root()\<close>), the failure of making a directory in it and the temporary directory
  made there; the size of the image and of the free space where they can be had; the bytes a dump left at a destination; what \<open>stat\<close> prints of a link; the failures of the calls on a
  path; how many bytes of a copy landed; the mode bits the host put on a directory.
\<close>

record world =
  wo_root :: string
  wo_mkroot :: "string \<Rightarrow> string option"
  wo_mktemp :: "string \<Rightarrow> string + string"
  wo_disk :: "int option"
  wo_free :: "int option"
  wo_debugfs :: debugfs
  wo_staged :: "string \<Rightarrow> string option"
  wo_stat :: "string \<Rightarrow> string + string"
  wo_mkdir :: "string \<Rightarrow> string option"
  wo_symlink :: "string \<Rightarrow> string option"
  wo_open :: "string \<Rightarrow> string option"
  wo_copy :: "string \<Rightarrow> string + int"
  wo_close :: "string \<Rightarrow> string option"
  wo_chmod :: "string \<Rightarrow> string option"
  wo_lstat :: "string \<Rightarrow> 32 word option"

section \<open>Dumping\<close>

text \<open>\<open>stagingRoot\<close>: a quote of either kind in the path would close the argument of the command.\<close>

definition stagingRoot :: "world \<Rightarrow> image_error + string" where
  "stagingRoot wo =
     (let dir = path_join [wo_root wo, ''extract'']
      in if list_ex (\<lambda>c. c = dquote \<or> c = CHR 0x27) dir then
           Inl (IOFailed (''the staging directory '' @ dir @ '' contains a quote character, which cannot be closed safely inside the debugfs command that writes into it; set KELYFOS_CACHE to a path without one''))
         else (case wo_mkroot wo dir of Some err \<Rightarrow> Inl (IOFailed err) | None \<Rightarrow> Inr dir))"

definition dump_line :: "string \<Rightarrow> nat \<times> imageEntry \<Rightarrow> string" where
  "dump_line dir ie =
     ''dump -p '' @ [dquote] @ ''/'' @ ie_path (snd ie) @ [dquote] @ '' '' @ [dquote] @ dir @ ''/'' @ itoa (int (fst ie)) @ [dquote, newline]"

definition staged_at :: "string \<Rightarrow> imageEntry list \<Rightarrow> (string, string) gmap" where
  "staged_at dir entries =
     fold (\<lambda>(i, e) m. if ie_kind e = KindDir then m else m_put (ie_path e) (dir @ ''/'' @ itoa (int i)) m) (enumerate 0 entries) []"

definition dump_script :: "string \<Rightarrow> entry_kind \<Rightarrow> imageEntry list \<Rightarrow> string" where
  "dump_script dir kind entries = concat (map (dump_line dir) (filter (\<lambda>(i, e). ie_kind e = kind) (enumerate 0 entries)))"

definition run_pass :: "debugfs \<Rightarrow> string \<Rightarrow> bool \<Rightarrow> image_error option" where
  "run_pass run script stderrFatal =
     (if script = [] then None
      else case run script of
             (out, stderr, Some err) \<Rightarrow> Some (IOFailed (err @ '': '' @ trimSpace stderr))
           | (out, stderr, None) \<Rightarrow>
               if stderrFatal \<and> debugfsErrors stderr \<noteq> [] then Some (Hostile (NoContents (debugfsErrors stderr))) else None)"

definition checkFreeSpace :: "int option \<Rightarrow> int \<Rightarrow> image_error option" where
  "checkFreeSpace free need =
     (case free of None \<Rightarrow> None | Some f \<Rightarrow> if f < need then Some (IOFailed ''no space'') else None)"

definition dumpFiles :: "world \<Rightarrow> imageEntry list \<Rightarrow> image_error + (string, string) gmap" where
  "dumpFiles wo entries =
     (case stagingRoot wo of
        Inl err \<Rightarrow> Inl err
      | Inr root \<Rightarrow>
     (case wo_mktemp wo root of
        Inl err \<Rightarrow> Inl (IOFailed err)
      | Inr dir \<Rightarrow>
          let tot = stagingBytes entries in
          (case declaredSizeFits entries tot (wo_disk wo) of
             Some err \<Rightarrow> Inl (Hostile err)
           | None \<Rightarrow>
               (case checkFreeSpace (wo_free wo) tot of
                  Some err \<Rightarrow> Inl err
                | None \<Rightarrow>
                    (case run_pass (wo_debugfs wo) (dump_script dir KindFile entries) True of
                       Some err \<Rightarrow> Inl err
                     | None \<Rightarrow>
                         (case run_pass (wo_debugfs wo) (dump_script dir KindSymlink entries) False of
                            Some err \<Rightarrow> Inl err
                          | None \<Rightarrow> Inr (staged_at dir entries)))))))"

section \<open>Links and files\<close>

definition staged_of :: "(string, string) gmap \<Rightarrow> string \<Rightarrow> string" where
  "staged_of staged p = (case m_get staged p of None \<Rightarrow> [] | Some d \<Rightarrow> d)"

definition fastLink :: string where "fastLink = ''Fast link dest: ''"

definition readLink :: "world \<Rightarrow> imageEntry \<Rightarrow> string \<Rightarrow> image_error + string" where
  "readLink wo e staged =
     (case (if staged \<noteq> [] then wo_staged wo staged else None) of
        Some (c # b) \<Rightarrow> map_sum Hostile id (checkedTarget e (c # b))
      | _ \<Rightarrow>
          (case wo_stat wo (ie_path e) of
             Inl err \<Rightarrow> Inl (IOFailed err)
           | Inr out \<Rightarrow>
               (case find (\<lambda>l. hasPrefix l fastLink) (map trimSpace (split_on newline out)) of
                  None \<Rightarrow> Inl (Hostile (NoTarget (ie_path e)))
                | Some l \<Rightarrow>
                    map_sum Hostile id
                      (checkedTarget e (trimSuffix (trimPrefix (drop (length fastLink) l) [dquote]) [dquote])))))"

definition copyThrough :: "world \<Rightarrow> imageEntry \<Rightarrow> string \<Rightarrow> root_op list \<Rightarrow> image_error + root_op list" where
  "copyThrough wo e src log =
     (if src = [] then Inl (Hostile (NotExtracted (ie_path e)))
      else case wo_staged wo src of
        None \<Rightarrow> Inl (Hostile (NotReadable (ie_path e)))
      | Some b \<Rightarrow>
          if int (length b) \<noteq> ie_size e then Inl (Hostile (ShortDump (ie_path e) (int (length b)) (ie_size e)))
          else case wo_open wo (ie_path e) of
            Some err \<Rightarrow> Inl (IOFailed err)
          | None \<Rightarrow>
              (case wo_copy wo (ie_path e) of
                 Inl err \<Rightarrow> Inl (IOFailed err)
               | Inr n \<Rightarrow>
                   (case wo_close wo (ie_path e) of
                      Some err \<Rightarrow> Inl (IOFailed err)
                    | None \<Rightarrow>
                        if n \<noteq> ie_size e then Inl (Hostile (ShortCopy n (ie_path e) (ie_size e)))
                        else case wo_chmod wo (ie_path e) of
                          Some err \<Rightarrow> Inl (IOFailed err)
                        | None \<Rightarrow>
                            Inr (log @ [WriteFile (ie_path e) (take (nat n) b) (extractMode (ie_mode e) False),
                                        Chmod (ie_path e) (safeMode (ie_mode e) False)]))))"

section \<open>Extraction\<close>

fun make_dirs :: "world \<Rightarrow> (string \<Rightarrow> string) \<Rightarrow> imageEntry list \<Rightarrow> root_op list \<Rightarrow> image_error + root_op list" where
  "make_dirs wo key [] log = Inr log"
| "make_dirs wo key (e # es) log =
     (if ie_kind e \<noteq> KindDir then make_dirs wo key es log
      else if tree_has key log (ie_path e) then make_dirs wo key es log
      else case wo_mkdir wo (ie_path e) of
             Some err \<Rightarrow> Inl (IOFailed err)
           | None \<Rightarrow> make_dirs wo key es (log @ [Mkdir (ie_path e) (extractMode (ie_mode e) True)]))"

fun read_targets :: "world \<Rightarrow> (string, string) gmap \<Rightarrow> imageEntry list \<Rightarrow> (string, string) gmap \<Rightarrow> image_error + (string, string) gmap" where
  "read_targets wo staged [] targets = Inr targets"
| "read_targets wo staged (e # es) targets =
     (if ie_kind e \<noteq> KindSymlink then read_targets wo staged es targets
      else case readLink wo e (staged_of staged (ie_path e)) of
             Inl err \<Rightarrow> Inl err
           | Inr target \<Rightarrow>
               (case validLink (ie_path e) target of
                  Some err \<Rightarrow> Inl (Hostile err)
                | None \<Rightarrow> read_targets wo staged es (m_put (ie_path e) target targets)))"

fun make_links :: "world \<Rightarrow> (string \<Rightarrow> string) \<Rightarrow> (string, string) gmap \<Rightarrow> imageEntry list \<Rightarrow> root_op list \<Rightarrow> image_error + root_op list" where
  "make_links wo key targets [] log = Inr log"
| "make_links wo key targets (e # es) log =
     (if ie_kind e \<noteq> KindSymlink then make_links wo key targets es log
      else if tree_has key log (ie_path e) then make_links wo key targets es log
      else case wo_symlink wo (ie_path e) of
             Some err \<Rightarrow> Inl (IOFailed err)
           | None \<Rightarrow> make_links wo key targets es (log @ [Symlink (staged_of targets (ie_path e)) (ie_path e)]))"

fun check_chains :: "(string \<Rightarrow> string) \<Rightarrow> (string, string) gmap \<Rightarrow> imageEntry list \<Rightarrow> linkWalker \<Rightarrow> hostile option" where
  "check_chains rl targets [] w = None"
| "check_chains rl targets (e # es) w =
     (if ie_kind e \<noteq> KindSymlink then check_chains rl targets es w
      else case validLinkChain rl (ie_path e) (staged_of targets (ie_path e)) w of
             (Some err, w') \<Rightarrow> Some err
           | (None, w') \<Rightarrow> check_chains rl targets es w')"

fun copy_files :: "world \<Rightarrow> (string, string) gmap \<Rightarrow> imageEntry list \<Rightarrow> root_op list \<Rightarrow> image_error + root_op list" where
  "copy_files wo staged [] log = Inr log"
| "copy_files wo staged (e # es) log =
     (if ie_kind e \<noteq> KindFile then copy_files wo staged es log
      else case copyThrough wo e (staged_of staged (ie_path e)) log of
             Inl err \<Rightarrow> Inl err
           | Inr log' \<Rightarrow> copy_files wo staged es log')"

definition special_bits :: "32 word" where "special_bits = 0xD00000"

fun set_modes :: "world \<Rightarrow> imageEntry list \<Rightarrow> root_op list \<Rightarrow> image_error + root_op list" where
  "set_modes wo [] log = Inr log"
| "set_modes wo (e # es) log =
     (if ie_kind e \<noteq> KindDir then set_modes wo es log
      else let mode = safeMode (ie_mode e) True;
               mode = (case wo_lstat wo (ie_path e) of None \<Rightarrow> mode | Some m \<Rightarrow> mode OR (m AND special_bits))
           in case wo_chmod wo (ie_path e) of
                Some err \<Rightarrow> Inl (IOFailed err)
              | None \<Rightarrow> set_modes wo es (log @ [Chmod (ie_path e) mode]))"

definition by_depth :: "imageEntry list \<Rightarrow> imageEntry list" where
  "by_depth entries = sort_key (\<lambda>e. count_list (ie_path e) CHR ''/'') entries"

definition extractImage :: "world \<Rightarrow> (string \<Rightarrow> string) \<Rightarrow> imageEntry list \<Rightarrow> image_error + root_op list" where
  "extractImage wo key entries =
     (let sorted = by_depth entries in
      case make_dirs wo key sorted [] of
        Inl err \<Rightarrow> Inl err
      | Inr log \<Rightarrow>
          (case dumpFiles wo sorted of
             Inl err \<Rightarrow> Inl err
           | Inr staged \<Rightarrow>
               (case read_targets wo staged sorted [] of
                  Inl err \<Rightarrow> Inl err
                | Inr targets \<Rightarrow>
                    (case make_links wo key targets sorted log of
                       Inl err \<Rightarrow> Inl err
                     | Inr log \<Rightarrow>
                         (case check_chains (tree_link key log) targets sorted (newLinkWalker 0) of
                            Some err \<Rightarrow> Inl (Hostile err)
                          | None \<Rightarrow>
                              (case copy_files wo staged sorted log of
                                 Inl err \<Rightarrow> Inl err
                               | Inr log \<Rightarrow> set_modes wo (rev sorted) log))))))"

section \<open>What each phase adds\<close>

lemma make_dirs_adds:
  "make_dirs wo key es log = Inr log' \<Longrightarrow> \<exists>ops. log' = log @ ops \<and>
    (\<forall>x \<in> set ops. \<exists>e \<in> set es. ie_kind e = KindDir \<and> x = Mkdir (ie_path e) (extractMode (ie_mode e) True))"
proof (induction wo key es log rule: make_dirs.induct)
  case (2 wo key e es log)
  consider (skip) "ie_kind e \<noteq> KindDir \<or> tree_has key log (ie_path e)"
    | (new) "ie_kind e = KindDir" "\<not> tree_has key log (ie_path e)" by blast
  then show ?case
  proof cases
    case skip
    then have "make_dirs wo key es log = Inr log'" using "2.prems" by (simp split: if_splits)
    then show ?thesis using "2.IH"(1,2) skip by fastforce
  next
    case new
    then have m: "wo_mkdir wo (ie_path e) = None" "make_dirs wo key es (log @ [Mkdir (ie_path e) (extractMode (ie_mode e) True)]) = Inr log'"
      using "2.prems" by (auto split: option.splits)
    from "2.IH"(3)[OF _ new(2) m(1,2)] new(1) show ?thesis by fastforce
  qed
qed simp

lemma make_links_adds:
  "make_links wo key targets es log = Inr log' \<Longrightarrow> \<exists>ops. log' = log @ ops \<and>
    (\<forall>x \<in> set ops. \<exists>e \<in> set es. ie_kind e = KindSymlink \<and> x = Symlink (staged_of targets (ie_path e)) (ie_path e))"
proof (induction wo key targets es log rule: make_links.induct)
  case (2 wo key targets e es log)
  consider (skip) "ie_kind e \<noteq> KindSymlink \<or> tree_has key log (ie_path e)"
    | (new) "ie_kind e = KindSymlink" "\<not> tree_has key log (ie_path e)" by blast
  then show ?case
  proof cases
    case skip
    then have "make_links wo key targets es log = Inr log'" using "2.prems" by (simp split: if_splits)
    then show ?thesis using "2.IH"(1,2) skip by fastforce
  next
    case new
    then have m: "wo_symlink wo (ie_path e) = None"
      "make_links wo key targets es (log @ [Symlink (staged_of targets (ie_path e)) (ie_path e)]) = Inr log'"
      using "2.prems" by (auto split: option.splits)
    from "2.IH"(3)[OF _ new(2) m(1,2)] new(1) show ?thesis by fastforce
  qed
qed simp

lemma readLink_size: "readLink wo e staged = Inr t \<Longrightarrow> int (length t) = ie_size e"
  by (auto simp: readLink_def checkedTarget_def split: option.splits list.splits sum.splits if_splits)

lemma read_targets_keep:
  "read_targets wo staged es targets = Inr targets' \<Longrightarrow> (\<exists>t. m_get targets p = Some t) \<Longrightarrow> \<exists>t. m_get targets' p = Some t"
proof (induction wo staged es targets rule: read_targets.induct)
  case (2 wo staged e es targets)
  then show ?case by (auto simp: gm.get_put split: if_splits sum.splits option.splits)
qed simp

lemma read_targets_ok:
  "read_targets wo staged es targets = Inr targets' \<Longrightarrow> \<forall>p t. m_get targets p = Some t \<longrightarrow> validLink p t = None \<Longrightarrow>
    (\<forall>p t. m_get targets' p = Some t \<longrightarrow> validLink p t = None) \<and>
    (\<forall>e \<in> set es. ie_kind e = KindSymlink \<longrightarrow> (\<exists>t. m_get targets' (ie_path e) = Some t))"
proof (induction wo staged es targets rule: read_targets.induct)
  case (2 wo staged e es targets)
  show ?case
  proof (cases "ie_kind e = KindSymlink")
    case True
    then obtain t where t: "readLink wo e (staged_of staged (ie_path e)) = Inr t" "validLink (ie_path e) t = None"
      "read_targets wo staged es (m_put (ie_path e) t targets) = Inr targets'"
      using "2.prems"(1) by (auto split: sum.splits option.splits)
    have "\<forall>p u. m_get (m_put (ie_path e) t targets) p = Some u \<longrightarrow> validLink p u = None"
      using "2.prems"(2) t(2) by (simp add: gm.get_put)
    note ih = "2.IH"(2)[OF _ t(1,2,3) this]
    have "\<exists>u. m_get targets' (ie_path e) = Some u" by (rule read_targets_keep[OF t(3)]) (simp add: gm.get_put)
    then show ?thesis using ih True by simp
  qed (use 2 in simp)
qed simp

lemma check_chains_inside:
  "check_chains rl targets es w = None \<Longrightarrow> cache_ok rl w \<Longrightarrow> \<forall>r. nul \<notin> set (rl r) \<Longrightarrow>
    \<forall>e \<in> set es. ie_kind e = KindSymlink \<longrightarrow> nul \<notin> set (staged_of targets (ie_path e)) \<Longrightarrow>
    e \<in> set es \<Longrightarrow> ie_kind e = KindSymlink \<Longrightarrow> entry_at (ds @ [n]) e \<Longrightarrow> \<not> escapes rl ds (staged_of targets (ie_path e))"
proof (induction rl targets es w rule: check_chains.induct)
  case (2 rl targets f es w)
  show ?case
  proof (cases "ie_kind f = KindSymlink")
    case True
    obtain w' where c: "validLinkChain rl (ie_path f) (staged_of targets (ie_path f)) w = (None, w')"
      "check_chains rl targets es w' = None" using "2.prems"(1) True by (auto split: prod.splits option.splits)
    obtain res where k: "walk rl (ie_path f) (staged_of targets (ie_path f)) w = (res, w')" "res = None \<or> res = Some LinkCycles"
      using c(1) by (auto simp: validLinkChain_def split: prod.splits option.splits link_error.splits)
    have wk: "cache_ok rl w'" by (rule walk_cache[OF "2.prems"(2) k(1)])
    show ?thesis
    proof (cases "e = f")
      case True
      have "list_all safe_name (ds @ [n])" "ie_path f = join (ds @ [n]) [slash]" using "2.prems"(7) True by (simp_all add: entry_at_def)
      moreover have "nul \<notin> set (staged_of targets (ie_path f))" using "2.prems"(4) \<open>ie_kind f = KindSymlink\<close> by simp
      ultimately show ?thesis using walk_spec[of ds n _ rl w res w'] "2.prems"(2,3) k True by simp
    next
      case False
      then show ?thesis using "2.IH"(2)[OF _ c(1)[symmetric] refl c(2) wk "2.prems"(3)] "2.prems"(4-7) True by simp
    qed
  qed (use 2 in auto)
qed simp

text \<open>What a file of the image leaves: its staged bytes, as many as declared, under a safe mode.\<close>

definition file_op :: "world \<Rightarrow> (string, string) gmap \<Rightarrow> imageEntry list \<Rightarrow> root_op \<Rightarrow> bool" where
  "file_op wo staged es x \<longleftrightarrow>
     (\<exists>e \<in> set es. ie_kind e = KindFile \<and>
        ((\<exists>b. x = WriteFile (ie_path e) b (extractMode (ie_mode e) False) \<and> int (length b) = ie_size e \<and>
            wo_staged wo (staged_of staged (ie_path e)) = Some b) \<or>
         x = Chmod (ie_path e) (safeMode (ie_mode e) False)))"

text \<open>A file written whole, and left with its final mode right after.\<close>

definition written :: "imageEntry \<Rightarrow> root_op list \<Rightarrow> bool" where
  "written e ops \<longleftrightarrow>
     (\<exists>l b r. ops = l @ WriteFile (ie_path e) b (extractMode (ie_mode e) False) # Chmod (ie_path e) (safeMode (ie_mode e) False) # r \<and>
        int (length b) = ie_size e)"

lemma writtenI:
  "ops = l @ WriteFile (ie_path e) b (extractMode (ie_mode e) False) # Chmod (ie_path e) (safeMode (ie_mode e) False) # r \<Longrightarrow>
    int (length b) = ie_size e \<Longrightarrow> written e ops"
  unfolding written_def by blast

lemma written_append:
  assumes "written e ops"
  shows "written e (l @ ops @ r)"
proof -
  obtain l' b r' where "ops = l' @ WriteFile (ie_path e) b (extractMode (ie_mode e) False) # Chmod (ie_path e) (safeMode (ie_mode e) False) # r'"
    "int (length b) = ie_size e" using assms unfolding written_def by blast
  then show ?thesis by (intro writtenI[of _ "l @ l'" e b "r' @ r"]) simp_all
qed

lemma copyThrough_adds:
  assumes "copyThrough wo e (staged_of staged (ie_path e)) log = Inr log'" and "ie_kind e = KindFile" and "e \<in> set es"
  shows "\<exists>ops. log' = log @ ops \<and> (\<forall>x \<in> set ops. file_op wo staged es x) \<and> written e ops"
proof -
  obtain b n where b: "wo_staged wo (staged_of staged (ie_path e)) = Some b" "int (length b) = ie_size e" "n = ie_size e"
    "log' = log @ [WriteFile (ie_path e) (take (nat n) b) (extractMode (ie_mode e) False), Chmod (ie_path e) (safeMode (ie_mode e) False)]"
    using assms(1) by (auto simp: copyThrough_def split: if_splits option.splits sum.splits)
  have "take (nat n) b = b" using b(2,3) by simp
  then show ?thesis using b assms(2,3)
    by (intro exI[of _ "[WriteFile (ie_path e) b (extractMode (ie_mode e) False), Chmod (ie_path e) (safeMode (ie_mode e) False)]"])
      (auto simp: file_op_def intro: writtenI[of _ "[]" e b "[]"])
qed

lemma copy_files_adds:
  "copy_files wo staged es log = Inr log' \<Longrightarrow> set es \<subseteq> set all_es \<Longrightarrow> \<exists>ops. log' = log @ ops \<and>
    (\<forall>x \<in> set ops. file_op wo staged all_es x) \<and> (\<forall>e \<in> set es. ie_kind e = KindFile \<longrightarrow> written e ops)"
proof (induction wo staged es log rule: copy_files.induct)
  case (2 wo staged e es log)
  show ?case
  proof (cases "ie_kind e = KindFile")
    case True
    then obtain l where l: "copyThrough wo e (staged_of staged (ie_path e)) log = Inr l" "copy_files wo staged es l = Inr log'"
      using "2.prems"(1) by (auto split: sum.splits)
    obtain o1 where o1: "l = log @ o1" "\<forall>x \<in> set o1. file_op wo staged all_es x" "written e o1"
      using copyThrough_adds[OF l(1) True, of all_es] "2.prems"(2) by auto
    obtain o2 where o2: "log' = l @ o2" "\<forall>x \<in> set o2. file_op wo staged all_es x"
      "\<forall>e \<in> set es. ie_kind e = KindFile \<longrightarrow> written e o2"
      using "2.IH"(2)[OF _ l] True "2.prems"(2) by auto
    have "written e (o1 @ o2)" using written_append[OF o1(3), of "[]" o2] by simp
    moreover have "\<forall>e' \<in> set es. ie_kind e' = KindFile \<longrightarrow> written e' (o1 @ o2)"
      using o2(3) written_append[of _ o2 o1 "[]"] by simp
    ultimately show ?thesis using o1 o2 by (intro exI[of _ "o1 @ o2"]) auto
  qed (use 2 in simp)
qed simp

lemma set_modes_adds:
  "set_modes wo es log = Inr log' \<Longrightarrow> \<exists>ops. log' = log @ ops \<and>
    (\<forall>x \<in> set ops. \<exists>e \<in> set es. ie_kind e = KindDir \<and> (\<exists>h. x = Chmod (ie_path e) (safeMode (ie_mode e) True OR (h AND special_bits)))) \<and>
    (\<forall>e \<in> set es. ie_kind e = KindDir \<longrightarrow> (\<exists>m. Chmod (ie_path e) m \<in> set ops))"
proof (induction wo es log rule: set_modes.induct)
  case (2 wo e es log)
  show ?case
  proof (cases "ie_kind e = KindDir")
    case True
    obtain h where h: "(case wo_lstat wo (ie_path e) of None \<Rightarrow> safeMode (ie_mode e) True | Some m \<Rightarrow> safeMode (ie_mode e) True OR (m AND special_bits)) =
        safeMode (ie_mode e) True OR (h AND special_bits)"
      by (cases "wo_lstat wo (ie_path e)") (auto intro: that[of 0])
    have m: "set_modes wo es (log @ [Chmod (ie_path e) (safeMode (ie_mode e) True OR (h AND special_bits))]) = Inr log'"
      "wo_chmod wo (ie_path e) = None"
      using "2.prems" True h by (auto simp: Let_def split: option.splits)
    obtain ops where o: "log' = (log @ [Chmod (ie_path e) (safeMode (ie_mode e) True OR (h AND special_bits))]) @ ops"
      "\<forall>x \<in> set ops. \<exists>e \<in> set es. ie_kind e = KindDir \<and> (\<exists>h. x = Chmod (ie_path e) (safeMode (ie_mode e) True OR (h AND special_bits)))"
      "\<forall>e \<in> set es. ie_kind e = KindDir \<longrightarrow> (\<exists>m. Chmod (ie_path e) m \<in> set ops)"
      using "2.IH"(2)[OF _ refl h[symmetric] m(2,1)] True by blast
    show ?thesis using o True by (intro exI[of _ "Chmod (ie_path e) (safeMode (ie_mode e) True OR (h AND special_bits)) # ops"]) auto
  qed (use 2 in simp)
qed simp

lemma tree_link_keeps: "\<forall>x \<in> set ops. \<nexists>t p. x = Symlink t p \<Longrightarrow> tree_link key (log @ ops) r = tree_link key log r"
proof (induction log)
  case Nil
  then show ?case
  proof (induction ops)
    case (Cons x ops)
    then show ?case by (cases x) auto
  qed simp
next
  case (Cons x log)
  then show ?case by (cases x) auto
qed

lemma tree_link_from: "tree_link key log r \<noteq> [] \<Longrightarrow> \<exists>p. Symlink (tree_link key log r) p \<in> set log"
proof (induction log)
  case (Cons x log)
  then show ?case by (cases x) (auto split: if_splits)
qed simp

section \<open>The whole extraction\<close>

lemma by_depth_set [simp]: "set (by_depth es) = set es"
  by (simp add: by_depth_def)

lemma extractImage_parts:
  assumes "extractImage wo key es = Inr log"
  shows "\<exists>dirs staged targets links files modes. log = dirs @ links @ files @ modes \<and>
     make_dirs wo key (by_depth es) [] = Inr dirs \<and> dumpFiles wo (by_depth es) = Inr staged \<and>
     read_targets wo staged (by_depth es) [] = Inr targets \<and>
     make_links wo key targets (by_depth es) dirs = Inr (dirs @ links) \<and>
     check_chains (tree_link key (dirs @ links)) targets (by_depth es) (newLinkWalker 0) = None \<and>
     copy_files wo staged (by_depth es) (dirs @ links) = Inr (dirs @ links @ files) \<and>
     set_modes wo (rev (by_depth es)) (dirs @ links @ files) = Inr log"
proof -
  from assms obtain dirs staged targets l1 l2 where p: "make_dirs wo key (by_depth es) [] = Inr dirs"
    "dumpFiles wo (by_depth es) = Inr staged" "read_targets wo staged (by_depth es) [] = Inr targets"
    "make_links wo key targets (by_depth es) dirs = Inr l1"
    "check_chains (tree_link key l1) targets (by_depth es) (newLinkWalker 0) = None"
    "copy_files wo staged (by_depth es) l1 = Inr l2" "set_modes wo (rev (by_depth es)) l2 = Inr log"
    by (auto simp: extractImage_def Let_def split: sum.splits option.splits)
  obtain links where l: "l1 = dirs @ links" using make_links_adds[OF p(4)] by blast
  obtain files where f: "l2 = l1 @ files" using copy_files_adds[OF p(6) order_refl] by blast
  obtain modes where m: "log = l2 @ modes" using set_modes_adds[OF p(7)] by blast
  show ?thesis using p unfolding m f l
    by (intro exI[of _ dirs] exI[of _ staged] exI[of _ targets] exI[of _ links] exI[of _ files] exI[of _ modes]) simp
qed

end
