(* ===== verification/Image_Properties.thy ===== *)
theory Image_Properties
  imports Image_Extract
begin

text \<open>
  What the extraction of a filesystem the guest wrote promises: what a listing can hold, that a
  script for \<open>debugfs\<close> says what was meant, that the check of a chain of links is exact, what is
  left in the tree, and where the arithmetic of sizes ends.
\<close>

section \<open>An image to run on\<close>

text \<open>A directory with a link to a file and the file, which the guest made writable for everyone.\<close>

definition sample_run :: debugfs where
  "sample_run script =
     (lsEcho @ ''/'' @ [dquote, newline] @ ''/2/040755/0/0/./4096/'' @ [newline] @ ''/12/120777/0/0/l/1/'' @ [newline] @ ''/13/100666/0/0/f/3/'',
      [], None)"

definition sample_world :: world where
  "sample_world =
     \<lparr>wo_root = ''/s'', wo_mkroot = (\<lambda>_. None), wo_mktemp = (\<lambda>_. Inr ''/s''), wo_disk = Some 4096, wo_free = None, wo_debugfs = sample_run,
      wo_staged = (\<lambda>d. if d = ''/s/0'' then Some ''f'' else if d = ''/s/1'' then Some ''abc'' else None),
      wo_stat = (\<lambda>p. Inl ''no stat''), wo_mkdir = (\<lambda>p. None), wo_symlink = (\<lambda>p. None), wo_open = (\<lambda>p. None),
      wo_copy = (\<lambda>p. Inr 3), wo_close = (\<lambda>p. None), wo_chmod = (\<lambda>p. None), wo_lstat = (\<lambda>p. None)\<rparr>"

definition sample_entries :: "imageEntry list" where
  "sample_entries =
     [\<lparr>ie_path = ''l'', ie_mode = 0x1FF, ie_kind = KindSymlink, ie_size = 1\<rparr>,
      \<lparr>ie_path = ''f'', ie_mode = 0x1B6, ie_kind = KindFile, ie_size = 3\<rparr>]"

lemma trimSpace_none: "strip_first spaces s = None \<Longrightarrow> strip_first (map rev spaces) (rev s) = None \<Longrightarrow> trimSpace s = s"
  by (simp add: trimSpace_def strip_all.simps)

lemma trimSpace_slashes [simp]: "trimSpace (CHR ''/'' # s @ ''/'') = CHR ''/'' # s @ ''/''"
  by (rule trimSpace_none) (simp_all add: spaces_def hasPrefix_def)

lemma trimSpace_nil [simp]: "trimSpace [] = []"
  by (rule trimSpace_none) (simp_all add: spaces_def hasPrefix_def)

definition sample_lines :: "string list" where
  "sample_lines = map (\<lambda>s. CHR ''/'' # s @ ''/'') [''2/040755/0/0/./4096'', ''12/120777/0/0/l/1'', ''13/100666/0/0/f/3'']"

lemma sample_split: "split_on newline (fst (sample_run s)) = (lsEcho @ ''/'' @ [dquote]) # sample_lines"
  by (simp add: sample_run_def lsEcho_def lsCommand_def dquote_def newline_def sample_lines_def)

lemma sample_attribute:
  "attribute_lines ((lsEcho @ ''/'' @ [dquote]) # sample_lines) [] [] = [(''/'', sample_lines)]"
proof -
  have d: "trimSuffix (drop (length lsEcho) (lsEcho @ ''/'' @ [dquote])) [dquote] = ''/''"
    by (simp add: trimSuffix_def cutSuffix_def hasSuffix_def hasPrefix_def)
  have h: "hasPrefix (lsEcho @ s) lsEcho" "\<not> hasPrefix (CHR ''/'' # s) lsEcho" for s
    by (simp_all add: hasPrefix_iff) (simp add: lsEcho_def)
  show ?thesis
    by (simp only: attribute_lines.simps h d if_True)
      (simp add: sample_lines_def h block_of_def m_put_def m_get_def del: append_Cons)
qed

lemma listDirs_one:
  assumes "run (lsCommand @ d @ [dquote, newline]) = (out, [], None)"
    and "attribute_lines (split_on newline out) [] [] = [(d, l # ls)]"
  shows "listDirs run [d] = Inr [(d, l # ls)]"
proof -
  have "debugfsErrors [] = []" by (simp add: debugfsErrors_def)
  then show ?thesis using assms by (simp add: listDirs_def block_of_def m_get_def Let_def)
qed

lemma sample_block: "listDirs sample_run [''/''] = Inr [(''/'', sample_lines)]"
proof -
  obtain x where x: "x = lsCommand @ ''/'' @ [dquote, newline]" by simp
  obtain out where r: "sample_run x = (out, [], None)" "out = fst (sample_run x)" by (simp add: sample_run_def)
  obtain l ls where l: "sample_lines = l # ls" by (simp add: sample_lines_def)
  have "attribute_lines (split_on newline out) [] [] = [(''/'', l # ls)]"
    unfolding r(2) sample_split l[symmetric] by (rule sample_attribute)
  then show ?thesis unfolding l using r(1) unfolding x by (intro listDirs_one)
qed

lemma sample_entry:
  "entryFrom ''/'' (sample_lines ! 0) = Inr None"
  "entryFrom ''/'' (sample_lines ! 1) = Inr (Some (sample_entries ! 0))"
  "entryFrom ''/'' (sample_lines ! 2) = Inr (Some (sample_entries ! 1))"
  by (simp_all add: entryFrom_def validName_def name_control_def dquote_def squote_def parseOctal32_def octal_digit_def octal_val_def
      kindOf_def path_join_def path_clean_def trimPrefix_def hasPrefix_def atoi_def in_int64_def is_digit_def digit_val_def
      sample_entries_def sample_lines_def)

lemma sample_listed: "listImage sample_run = Inr sample_entries"
proof -
  have e: "list_levels sample_run d [] es = Inr es" for d es by (simp add: list_levels.simps)
  obtain a b c where l: "sample_lines = [a, b, c]" by (simp add: sample_lines_def)
  have "list_level [(''/'', [a, b, c])] [''/''] ([], []) = Inr (sample_entries, [])"
    using sample_entry unfolding l by (simp add: block_of_def m_get_def maxImageEntries_def sample_entries_def)
  then show ?thesis by (simp add: listImage_def list_levels.simps[of _ 0] sample_block l e)
qed

text \<open>What the extraction of the sample does.\<close>

definition sample_log :: "root_op list" where
  "sample_log = [Symlink ''f'' ''l'', WriteFile ''f'' ''abc'' 0x1B4, Chmod ''f'' 0x1B4]"

lemma sample_staged: "staged_at ''/s'' sample_entries = [(''l'', ''/s/0''), (''f'', ''/s/1'')]"
proof -
  have "itoa 0 = ''0''" "itoa 1 = ''1''"
    by (simp_all add: itoa_def digits.simps[of 0] digits.simps[of "Suc 0"] digits.simps[of 1] digit_char_def char_of_eq_iff)
  then show ?thesis by (simp add: staged_at_def sample_entries_def m_put_def)
qed

lemma sample_dump: "dumpFiles sample_world sample_entries = Inr (staged_at ''/s'' sample_entries)"
proof -
  have b: "stagingBytes sample_entries = 4" by (simp add: stagingBytes_def sample_entries_def int64_add_def)
  have "debugfsErrors [] = []" by (simp add: debugfsErrors_def)
  then have r: "run_pass sample_run x f = None" for x f by (simp add: run_pass_def sample_run_def)
  have "stagingRoot sample_world = Inr ''/s/extract''" by code_simp
  then show ?thesis by (simp add: dumpFiles_def b r sample_world_def declaredSizeFits_def checkFreeSpace_def Let_def)
qed

lemma sample_order: "by_depth sample_entries = sample_entries"
  by (simp add: by_depth_def sample_entries_def)

lemma sample_extracted: "extractImage sample_world id sample_entries = Inr sample_log"
proof -
  let ?st = "[(''l'', ''/s/0''), (''f'', ''/s/1'')]"
  have so: "staged_of ?st ''l'' = ''/s/0''" "staged_of ?st ''f'' = ''/s/1''" "staged_of [(''l'', ''f'')] ''l'' = ''f''"
    by (simp_all add: staged_of_def m_get_def)
  have d: "make_dirs sample_world id sample_entries [] = Inr []" by (simp add: sample_entries_def)
  have v: "validLink ''l'' ''f'' = None"
    by (simp add: validLink_def path_isAbs_def path_join_def path_dir_def path_clean_def lastIndexChar_def hasPrefix_def)
  have t: "read_targets sample_world ?st sample_entries [] = Inr [(''l'', ''f'')]"
    by (simp add: sample_entries_def so readLink_def checkedTarget_def sample_world_def v m_put_def)
  have l: "make_links sample_world id [(''l'', ''f'')] sample_entries [] = Inr [Symlink ''f'' ''l'']"
    by (simp add: sample_entries_def tree_has_def sample_world_def so)
  have w: "validLinkChain (tree_link id [Symlink ''f'' ''l'']) ''l'' ''f'' (newLinkWalker 0) =
      (None, \<lparr>lw_links = [(''f'', [])], lw_steps = 1\<rparr>)"
    by (simp add: validLinkChain_def walk_def path_isAbs_def path_dir_def path_clean_def lastIndexChar_def hasPrefix_def splitPath_def
        newLinkWalker_def maxLinkSteps_def readlink_def m_get_def m_put_def)
  have c: "check_chains (tree_link id [Symlink ''f'' ''l'']) [(''l'', ''f'')] sample_entries (newLinkWalker 0) = None"
    using w by (simp add: sample_entries_def so)
  have f: "copy_files sample_world ?st sample_entries [Symlink ''f'' ''l''] = Inr sample_log"
    by (simp add: sample_entries_def so copyThrough_def sample_world_def sample_log_def safeMode_alt extractMode_bits)
  have m: "set_modes sample_world (rev sample_entries) sample_log = Inr sample_log" by (simp add: sample_entries_def)
  show ?thesis by (simp add: extractImage_def sample_order sample_dump sample_staged d t l c f m Let_def)
qed

section \<open>Links\<close>

text \<open>
  C3. Every symbolic link an extraction leaves is an entry of the image, at its place, with a target
  of the length its record declares, that is relative and stays in the tree on its own, and from
  which no resolution through the links of the finished tree, however long, gets outside.
\<close>

theorem extracted_links_stay:
  assumes "listImage run = Inr es" and "extractImage wo key es = Inr log" and "Symlink t p \<in> set log"
  shows "\<exists>ds n. p = join (ds @ [n]) ''/'' \<and> list_all safe_name (ds @ [n]) \<and>
    (\<exists>e \<in> set es. ie_kind e = KindSymlink \<and> ie_path e = p) \<and>
    validLink p t = None \<and> \<not> escapes (tree_link key log) ds t"
proof -
  from extractImage_parts[OF assms(2)] obtain dirs staged targets links files modes where x: "log = dirs @ links @ files @ modes"
    "make_dirs wo key (by_depth es) [] = Inr dirs" "read_targets wo staged (by_depth es) [] = Inr targets"
    "make_links wo key targets (by_depth es) dirs = Inr (dirs @ links)"
    "check_chains (tree_link key (dirs @ links)) targets (by_depth es) (newLinkWalker 0) = None"
    "copy_files wo staged (by_depth es) (dirs @ links) = Inr (dirs @ links @ files)"
    "set_modes wo (rev (by_depth es)) (dirs @ links @ files) = Inr log" by blast
  have d: "\<forall>x \<in> set dirs. \<nexists>t p. x = Symlink t p" using make_dirs_adds[OF x(2)] by auto
  have l: "\<forall>x \<in> set links. \<exists>e \<in> set es. ie_kind e = KindSymlink \<and> x = Symlink (staged_of targets (ie_path e)) (ie_path e)"
    using make_links_adds[OF x(4)] by auto
  have f: "\<forall>x \<in> set files. \<nexists>t p. x = Symlink t p" using copy_files_adds[OF x(6) order_refl] by (auto simp: file_op_def)
  have m: "\<forall>x \<in> set modes. \<nexists>t p. x = Symlink t p" using set_modes_adds[OF x(7)] unfolding x(1) by auto
  obtain e where e: "e \<in> set es" "ie_kind e = KindSymlink" "t = staged_of targets (ie_path e)" "p = ie_path e"
    using assms(3) d l f m unfolding x(1) by auto
  have v: "\<forall>p t. m_get targets p = Some t \<longrightarrow> validLink p t = None"
    "\<forall>e \<in> set es. ie_kind e = KindSymlink \<longrightarrow> (\<exists>t. m_get targets (ie_path e) = Some t)"
    using read_targets_ok[OF x(3)] by (simp_all add: m_get_def)
  have vl: "validLink (ie_path e) (staged_of targets (ie_path e)) = None" if "e \<in> set es" "ie_kind e = KindSymlink" for e
    using v that by (auto simp: staged_of_def)
  have nul: "nul \<notin> set t" if "validLink p t = None" for p t
    using that by (auto simp: validLink_def nul_def split: if_splits)
  have "\<forall>x \<in> set (files @ modes). \<nexists>t p. x = Symlink t p" using f m by auto
  from tree_link_keeps[OF this, of key "dirs @ links"]
  have rl: "tree_link key log = tree_link key (dirs @ links)" unfolding x(1) by (intro ext) simp
  have "nul \<notin> set (tree_link key (dirs @ links) r)" for r
  proof (cases "tree_link key (dirs @ links) r = []")
    case False
    then obtain q where "Symlink (tree_link key (dirs @ links) r) q \<in> set (dirs @ links)" using tree_link_from by blast
    then show ?thesis using d l vl nul by fastforce
  qed simp
  moreover obtain ds where ds: "entry_at ds e" using listImage_ok[OF assms(1)] e(1) unfolding listed_def by blast
  moreover obtain ks n where k: "ds = ks @ [n]" using ds by (cases ds rule: rev_cases) (auto simp: entry_at_def)
  ultimately have "\<not> escapes (tree_link key (dirs @ links)) ks t"
    unfolding e(3) using x(5) e(1,2) vl nul
    by (intro check_chains_inside[OF x(5), of e ks n]) (auto simp: cache_ok_def newLinkWalker_def m_get_def)
  then show ?thesis unfolding rl using ds e vl[OF e(1,2)] k
    by (intro exI[of _ ks] exI[of _ n]) (auto simp: entry_at_def slash_def)
qed

lemma extracted_links_stay_witness:
  "\<exists>ds n. ''l'' = join (ds @ [n]) ''/'' \<and> list_all safe_name (ds @ [n]) \<and>
    (\<exists>e \<in> set sample_entries. ie_kind e = KindSymlink \<and> ie_path e = ''l'') \<and>
    validLink ''l'' ''f'' = None \<and> \<not> escapes (tree_link id sample_log) ds ''f''"
  by (rule extracted_links_stay[OF sample_listed sample_extracted]) (simp add: sample_log_def)

text \<open>
  C31. The check of a chain is exact where it decides: a link it accepts, also one in a cycle, never
  resolves to a place outside, and one it refuses for leaving does.
\<close>

theorem chain_check_exact:
  assumes "list_all safe_name (ds @ [n])" and "nul \<notin> set target" and "\<forall>r. nul \<notin> set (rl r)"
    and "validLinkChain rl (join (ds @ [n]) ''/'') target (newLinkWalker steps) = (res, w)"
  shows "(res = None \<longrightarrow> \<not> escapes rl ds target) \<and>
    (res = Some (ChainLeaves (join (ds @ [n]) ''/'') target) \<longrightarrow> escapes rl ds target)"
proof -
  obtain r w' where k: "walk rl (join (ds @ [n]) [slash]) target (newLinkWalker steps) = (r, w')" by fastforce
  have c: "cache_ok rl (newLinkWalker steps)" by (simp add: cache_ok_def newLinkWalker_def m_get_def)
  have "res = None \<longrightarrow> r = None \<or> r = Some LinkCycles" "res = Some (ChainLeaves (join (ds @ [n]) ''/'') target) \<longrightarrow> r = Some LinkEscapes"
    using assms(4) k by (auto simp: validLinkChain_def slash_def split: option.splits link_error.splits)
  then show ?thesis using walk_spec[OF assms(1-3) c k] by blast
qed

text \<open>Three links, each of which stays inside on its own: the third leaves.\<close>

definition composed :: "string \<Rightarrow> string" where
  "composed r = (if r = ''sub/d1'' then ''..'' else if r = ''sub/d2'' then ''d1/..'' else if r = ''sub/leak'' then ''d2/etc'' else [])"

lemma composed_leaves:
  "fst (validLinkChain composed ''sub/leak'' ''d2/etc'' (newLinkWalker 0)) = Some (ChainLeaves ''sub/leak'' ''d2/etc'')"
  by (simp add: validLinkChain_def walk_def path_isAbs_def path_dir_def path_clean_def lastIndexChar_def hasPrefix_def splitPath_def
      newLinkWalker_def maxLinkSteps_def maxLinkHops_def cycleWatchFrom_def parent_dir_def readlink_def m_get_def m_put_def composed_def)

lemma chain_check_exact_witness: "escapes composed [''sub''] ''d2/etc''"
proof -
  obtain w where w: "validLinkChain composed ''sub/leak'' ''d2/etc'' (newLinkWalker 0) = (Some (ChainLeaves ''sub/leak'' ''d2/etc''), w)"
    using composed_leaves by (cases "validLinkChain composed ''sub/leak'' ''d2/etc'' (newLinkWalker 0)") simp
  have "list_all safe_name ([''sub''] @ [''leak''])"
    by (simp add: safe_name_def plain_seg_def slash_def dquote_def squote_def name_control_def)
  moreover have "\<forall>r. nul \<notin> set (composed r)" by (simp add: composed_def nul_def)
  ultimately show ?thesis using chain_check_exact[of "[''sub'']" "''leak''" "''d2/etc''" composed 0 _ w] w
    by (simp add: nul_def)
qed

section \<open>Contents\<close>

text \<open>What an operation on the tree may be.\<close>

definition op_ok :: "imageEntry list \<Rightarrow> root_op \<Rightarrow> bool" where
  "op_ok es x = (case x of
     Mkdir p m \<Rightarrow> (\<exists>e \<in> set es. ie_kind e = KindDir \<and> ie_path e = p)
   | Symlink t p \<Rightarrow> (\<exists>e \<in> set es. ie_kind e = KindSymlink \<and> ie_path e = p)
   | WriteFile p b m \<Rightarrow> (\<exists>e \<in> set es. ie_kind e = KindFile \<and> ie_path e = p \<and> int (length b) = ie_size e)
   | Chmod p m \<Rightarrow> (\<exists>e \<in> set es. ie_kind e \<noteq> KindSymlink \<and> ie_path e = p) \<and> m AND 0x2 = 0 \<and> m AND 0x100 = 0x100)"

lemma safeMode_final: "safeMode m dir AND 0x2 = 0" "safeMode m dir AND 0x100 = 0x100"
  "(safeMode m dir OR (h AND special_bits)) AND 0x2 = 0" "(safeMode m dir OR (h AND special_bits)) AND 0x100 = 0x100"
  by (simp_all add: safeMode_alt special_bits_def bit.conj_disj_distrib2 and.assoc)

lemma chmod_ok:
  "e \<in> set es \<Longrightarrow> ie_kind e \<noteq> KindSymlink \<Longrightarrow> m AND 0x2 = 0 \<Longrightarrow> m AND 0x100 = 0x100 \<Longrightarrow> op_ok es (Chmod (ie_path e) m)"
  by (auto simp: op_ok_def)

lemma file_op_ok: "file_op wo staged (by_depth es) x \<Longrightarrow> op_ok es x"
  by (auto simp: file_op_def safeMode_final intro!: chmod_ok) (auto simp: op_ok_def)

lemma mode_op_ok:
  assumes "\<exists>e \<in> set es. ie_kind e = KindDir \<and> (\<exists>h. x = Chmod (ie_path e) (safeMode (ie_mode e) True OR (h AND special_bits)))"
  shows "op_ok es x"
proof -
  obtain e h where "e \<in> set es" "ie_kind e = KindDir" "x = Chmod (ie_path e) (safeMode (ie_mode e) True OR (h AND special_bits))"
    using assms by blast
  then show ?thesis by (simp add: chmod_ok safeMode_final)
qed

text \<open>
  C35. All an extraction does in the tree is to make a directory, a link or a file of the image, and
  to set the mode of one; what a file gets is as long as its record declares; every mode set leaves
  the owner able to read and nobody else of the machine able to write; and every file of the image is
  written whole, with its final mode right after.
\<close>

theorem extracted_content:
  assumes "extractImage wo key es = Inr log"
  shows "list_all (op_ok es) log \<and> (\<forall>e \<in> set es. ie_kind e = KindFile \<longrightarrow> written e log)"
proof -
  from extractImage_parts[OF assms] obtain dirs staged targets links files modes where x: "log = dirs @ links @ files @ modes"
    "make_dirs wo key (by_depth es) [] = Inr dirs"
    "make_links wo key targets (by_depth es) dirs = Inr (dirs @ links)"
    "copy_files wo staged (by_depth es) (dirs @ links) = Inr (dirs @ links @ files)"
    "set_modes wo (rev (by_depth es)) (dirs @ links @ files) = Inr log" by blast
  have "list_all (op_ok es) dirs" using make_dirs_adds[OF x(2)] by (fastforce simp: list_all_iff op_ok_def)
  moreover have "list_all (op_ok es) links" using make_links_adds[OF x(3)] by (fastforce simp: list_all_iff op_ok_def)
  moreover have "list_all (op_ok es) files"
    using copy_files_adds[OF x(4) order_refl] file_op_ok by (auto simp: list_all_iff)
  moreover have "list_all (op_ok es) modes"
    using set_modes_adds[OF x(5)] mode_op_ok[of es] unfolding x(1) by (auto simp: list_all_iff)
  moreover have "\<forall>e \<in> set es. ie_kind e = KindFile \<longrightarrow> written e log"
    using copy_files_adds[OF x(4) order_refl] written_append[of _ files "dirs @ links" modes] unfolding x(1) by simp
  ultimately show ?thesis unfolding x(1) by simp
qed

lemma extracted_content_witness: "list_all (op_ok sample_entries) sample_log \<and> written (sample_entries ! 1) sample_log"
  using extracted_content[OF sample_extracted] by (simp add: sample_entries_def)

section \<open>Listing\<close>

text \<open>
  A listing holds at most 500000 entries, each at a place of plain names with no quote or control
  character and at most 129 names deep, in a directory that is an entry too, with a size that an
  \<open>int64\<close> holds.
\<close>

theorem listing_sound:
  assumes "listImage run = Inr es"
  shows "length es \<le> 500000 \<and>
    (\<forall>e \<in> set es. \<exists>ds. ie_path e = join ds ''/'' \<and> 1 \<le> length ds \<and> length ds \<le> 129 \<and> list_all safe_name ds \<and>
       0 \<le> ie_size e \<and> ie_size e < 2 ^ 63 \<and> (length ds = 1 \<or> (\<exists>p \<in> set es. ie_kind p = KindDir \<and> ie_path p = join (butlast ds) ''/'')))"
proof -
  note l = listImage_ok[OF assms, unfolded listed_def]
  have "\<exists>ds. ie_path e = join ds ''/'' \<and> 1 \<le> length ds \<and> length ds \<le> 129 \<and> list_all safe_name ds \<and>
       0 \<le> ie_size e \<and> ie_size e < 2 ^ 63 \<and> (length ds = 1 \<or> (\<exists>p \<in> set es. ie_kind p = KindDir \<and> ie_path p = join (butlast ds) ''/''))"
    if e: "e \<in> set es" for e
  proof -
    obtain ds where d: "entry_at ds e" "length ds \<le> 129"
      "butlast ds \<noteq> [] \<longrightarrow> (\<exists>p \<in> set es. ie_kind p = KindDir \<and> ie_path p = join (butlast ds) [slash])"
      using bspec[OF conjunct2[OF l] e] by blast
    have "1 \<le> length ds" "length ds = 1 \<or> butlast ds \<noteq> []"
      using d(1) by (cases ds rule: rev_cases; simp add: entry_at_def)+
    then show ?thesis using d by (intro exI[of _ ds]) (auto simp: entry_at_def slash_def)
  qed
  then show ?thesis using l by (simp add: maxImageEntries_def)
qed

lemma listing_sound_witness:
  "length sample_entries \<le> 500000 \<and> (\<exists>ds. ie_path (sample_entries ! 1) = join ds ''/'' \<and> 1 \<le> length ds \<and> list_all safe_name ds)"
proof -
  have "sample_entries ! 1 \<in> set sample_entries" by (simp add: sample_entries_def)
  then show ?thesis using listing_sound[OF sample_listed] by blast
qed

section \<open>The script of a dump\<close>

lemma digit_plain: "is_digit c \<Longrightarrow> c \<noteq> dquote \<and> c \<noteq> newline"
  by (auto simp: is_digit_def dquote_def newline_def)

lemma itoa_plain: "dquote \<notin> set (itoa (int n)) \<and> newline \<notin> set (itoa (int n))"
proof -
  have "list_all is_digit (itoa (int n))" using digits_all by (simp add: itoa_nonneg)
  then show ?thesis using digit_plain by (auto simp: list_all_iff)
qed

lemma entry_at_plain: "entry_at ds e \<Longrightarrow> dquote \<notin> set (ie_path e) \<and> newline \<notin> set (ie_path e)"
proof -
  assume e: "entry_at ds e"
  have "name_control newline" by (simp add: name_control_def newline_def)
  then have "\<forall>d \<in> set ds. dquote \<notin> set d \<and> newline \<notin> set d"
    using e by (fastforce simp: entry_at_def safe_name_def list_all_iff)
  then have "dquote \<notin> set (join ds [slash]) \<and> newline \<notin> set (join ds [slash])"
    by (induction ds "[slash]" rule: join.induct) (auto simp: slash_def dquote_def newline_def)
  then show ?thesis using e by (simp add: entry_at_def)
qed

lemma split_lines: "\<forall>l \<in> set ls. c \<notin> set l \<Longrightarrow> split_on c (concat (map (\<lambda>l. l @ [c]) ls)) = ls @ [[]]"
  by (induction ls) (simp_all add: split_on_append)

text \<open>
  Whatever names an image holds, the script of a dump is one command for each entry of the kind,
  and each command is the two quoted arguments meant: the path in the image and a destination that
  only this host numbered.
\<close>

theorem dump_script_exact:
  assumes "listImage run = Inr es" and "set ordered = set es" and "dquote \<notin> set dir" and "newline \<notin> set dir"
  shows "map (split_on dquote) (split_on newline (dump_script dir kind ordered)) =
    map (\<lambda>(i, e). [''dump -p '', CHR ''/'' # ie_path e, '' '', dir @ ''/'' @ itoa (int i), []])
      (filter (\<lambda>(i, e). ie_kind e = kind) (enumerate 0 ordered)) @ [[[]]]"
proof -
  let ?ies = "filter (\<lambda>(i, e). ie_kind e = kind) (enumerate 0 ordered)"
  let ?line = "\<lambda>(i, e). ''dump -p '' @ [dquote] @ (CHR ''/'' # ie_path e) @ [dquote] @ '' '' @ [dquote] @ (dir @ ''/'' @ itoa (int i)) @ [dquote]"
  have e: "dquote \<notin> set (ie_path e) \<and> newline \<notin> set (ie_path e)" if "(i, e) \<in> set ?ies" for i e
  proof -
    have "e \<in> set ordered" using that by (auto simp: enumerate_eq_zip dest: set_zip_rightD)
    then obtain ds where "entry_at ds e" using listImage_ok[OF assms(1)] assms(2) unfolding listed_def by blast
    then show ?thesis by (rule entry_at_plain)
  qed
  have n: "\<forall>l \<in> set (map ?line ?ies). newline \<notin> set l"
    using e itoa_plain assms(4) by (fastforce simp: newline_def dquote_def)
  have "dump_script dir kind ordered = concat (map (\<lambda>l. l @ [newline]) (map ?line ?ies))"
    by (auto simp: dump_script_def dump_line_def intro!: arg_cong[of _ _ concat])
  then have s: "split_on newline (dump_script dir kind ordered) = map ?line ?ies @ [[]]" using split_lines[OF n] by simp
  have q: "split_on dquote (?line x) = [''dump -p '', CHR ''/'' # ie_path (snd x), '' '', dir @ ''/'' @ itoa (int (fst x)), []]"
    if "x \<in> set ?ies" for x
  proof -
    obtain i e' where x: "x = (i, e')" by (cases x)
    have d: "dquote \<notin> set ''dump -p ''" "dquote \<notin> set '' ''" "dquote \<notin> set (CHR ''/'' # ie_path e')" "dquote \<notin> set (dir @ ''/'' @ itoa (int i))"
      using e[of i e'] that x itoa_plain assms(3) by (simp_all add: dquote_def)
    have "?line x = ''dump -p '' @ dquote # (CHR ''/'' # ie_path e') @ dquote # '' '' @ dquote # (dir @ ''/'' @ itoa (int i)) @ dquote # []"
      by (simp add: x)
    then show ?thesis by (simp only: split_on_append[OF d(1)] split_on_append[OF d(2)] split_on_append[OF d(3)] split_on_append[OF d(4)] x)
        simp
  qed
  show ?thesis unfolding s using q by (auto simp: case_prod_unfold)
qed

lemma dump_script_exact_witness:
  "map (split_on dquote) (split_on newline (dump_script ''/s'' KindFile sample_entries)) =
    map (\<lambda>(i, e). [''dump -p '', CHR ''/'' # ie_path e, '' '', ''/s'' @ ''/'' @ itoa (int i), []])
      (filter (\<lambda>(i, e). ie_kind e = KindFile) (enumerate 0 sample_entries)) @ [[[]]]"
  by (rule dump_script_exact[OF sample_listed refl]) (simp_all add: dquote_def newline_def)

section \<open>Sizes\<close>

definition declared :: "imageEntry list \<Rightarrow> int" where
  "declared es = sum_list (map ie_size (filter (\<lambda>e. ie_kind e \<noteq> KindDir) es))"

lemma int64_add_wraps: "int64_add (int64_add a b) c = int64_add a (b + c)"
  by (simp add: int64_add_def mod_simps algebra_simps)

lemma stagingBytes_from:
  "foldl (\<lambda>total e. if ie_kind e \<noteq> KindDir then int64_add total (ie_size e) else total) (int64_add 0 a) es = int64_add 0 (a + declared es)"
  by (induction es arbitrary: a) (simp_all add: declared_def int64_add_wraps add.assoc)

lemma int64_add_id: "int64_add 0 n = n \<longleftrightarrow> - (2 ^ 63) \<le> n \<and> n < 2 ^ 63"
proof
  assume e: "int64_add 0 n = n"
  obtain k where k: "k = (n + 2 ^ 63) mod 2 ^ 64" "0 \<le> k" "k < 2 ^ 64" by simp
  then have "k - 2 ^ 63 = n" using e by (simp add: int64_add_def)
  then show "- (2 ^ 63) \<le> n \<and> n < 2 ^ 63" using k(2,3) by auto
next
  assume n: "- (2 ^ 63) \<le> n \<and> n < 2 ^ 63"
  then have "(n + 2 ^ 63) mod 2 ^ 64 = n + 2 ^ 63" by (intro mod_pos_pos_trivial) simp_all
  then show "int64_add 0 n = n" by (simp add: int64_add_def)
qed

text \<open>Two records of a directory, each of a file that says it holds the most an \<open>int64\<close> can.\<close>

definition vast_records :: "string list" where
  "vast_records = map (\<lambda>n. ''/12/100644/0/0/'' @ n @ ''/9223372036854775807/'') [''a'', ''b'']"

definition vast_entries :: "imageEntry list" where
  "vast_entries = map (\<lambda>n. \<lparr>ie_path = n, ie_mode = 0x1A4, ie_kind = KindFile, ie_size = 2 ^ 63 - 1\<rparr>) [''a'', ''b'']"

lemma vast_parsed: "list_all2 (\<lambda>r e. entryFrom ''/'' r = Inr (Some e)) vast_records vast_entries"
  by (simp add: vast_records_def vast_entries_def entryFrom_def validName_def name_control_def dquote_def squote_def parseOctal32_def
      octal_digit_def octal_val_def kindOf_def path_join_def path_clean_def trimPrefix_def hasPrefix_def atoi_def in_int64_def
      is_digit_def digit_val_def)

text \<open>
  What a dump is said to need is the declared total as an \<open>int64\<close> holds it: the total itself
  exactly when that fits. Two records that are accepted declare more than that, the sum is negative,
  and both checks of the size pass on a disk of one page with nothing free.
\<close>

theorem staging_total:
  "stagingBytes es = (declared es + 2 ^ 63) mod 2 ^ 64 - 2 ^ 63 \<and>
   (stagingBytes es = declared es \<longleftrightarrow> - (2 ^ 63) \<le> declared es \<and> declared es < 2 ^ 63) \<and>
   list_all2 (\<lambda>r e. entryFrom ''/'' r = Inr (Some e)) vast_records vast_entries \<and>
   stagingBytes vast_entries = -2 \<and>
   declaredSizeFits vast_entries (stagingBytes vast_entries) (Some 4096) = None \<and>
   checkFreeSpace (Some 0) (stagingBytes vast_entries) = None"
proof -
  have "int64_add 0 0 = 0" by (simp add: int64_add_def)
  then have t: "stagingBytes es = int64_add 0 (declared es)" for es
    using stagingBytes_from[of 0 es] by (simp add: stagingBytes_def)
  have "declared vast_entries = 2 ^ 64 - 2" by (simp add: declared_def vast_entries_def)
  then have v: "stagingBytes vast_entries = -2" by (simp add: t int64_add_def)
  have "stagingBytes es = (declared es + 2 ^ 63) mod 2 ^ 64 - 2 ^ 63" by (simp add: t int64_add_def)
  moreover have "stagingBytes es = declared es \<longleftrightarrow> - (2 ^ 63) \<le> declared es \<and> declared es < 2 ^ 63"
    unfolding t by (rule int64_add_id)
  ultimately show ?thesis using vast_parsed v by (simp add: declaredSizeFits_def checkFreeSpace_def)
qed

end
