(* ===== verification/Spec2Isabelle.thy ===== *)
theory Spec2Isabelle
  imports Team_Properties Graph_Properties Recorder_Properties Erase_Properties Digest_Properties Diff_Properties Config_Properties Proto_Properties Egress_Properties Image_Properties
begin

text \<open>
  A verification library of KelyfOS (\<open>kelyfos\<close>), a program that runs coding agents in
  sandboxes and in teams of sandboxes. It models the parts of the host that decide and record: who in
  a team may talk to whom, what an agent may reach on the network and with which credential, what was
  done, that the record of it cannot be altered unnoticed and that its content can still be erased,
  how host and guest talk, how a run is drawn, and how a filesystem that a guest wrote is read
  back. Every definition is executable and is translated from
  the Go source under \<open>src/internal/\<close>; a theorem that promises something of the program is
  numbered \<open>C\<close>\<^emph>\<open>n\<close> in the theories named \<open>*_Properties\<close>.

  \<^bold>\<open>Foundations.\<close> \<open>Prelude\<close>: strings as byte lists, \<open>strings.HasPrefix\<close>, \<open>Index\<close>,
  \<open>Split\<close>, \<open>strconv.Atoi\<close> and \<open>Itoa\<close>, sorting. \<open>Utf8\<close>: \<open>unicode/utf8\<close> and the cut of
  \<open>argsummary\<close>. \<open>Go_Map\<close>: Go's map as an association list under the locale \<open>go_map\<close>.
  \<open>Go_Net\<close>, \<open>Go_Path\<close>: what is used of \<open>net\<close>, \<open>net/netip\<close>, \<open>net/url\<close>,
  \<open>strings.TrimSpace\<close> and \<open>path\<close>. \<open>Base64\<close>. \<open>Json\<close>, \<open>Json_Roundtrip\<close>:
  \<open>encoding/json\<close>. \<open>Json_Local\<close> shows that the parser reads a value the same wherever it
  stands, \<open>Json_Raw\<close> the token walk of a \<open>json.Decoder\<close> that keeps raw bytes, and
  \<open>Json_Compact\<close> that compacting a value leaves what it decodes to.

  \<^bold>\<open>Teams\<close> (\<open>internal/team\<close>). \<open>Topology\<close> is the declared
  graph of who may initiate to whom, \<open>Team_Store\<close> the shared key-value store with its ceilings
  and first-match rules, \<open>Broker\<close> the mailboxes, delivery, spawning and despawning,
  \<open>Team_Serve\<close> the dispatch of a guest's requests. Two theories take the goroutines apart.
  \<open>Ask_Machine\<close> is the race of an answer with a timeout as a step relation, in which what a
  call decides to record is due first and is written in a step of its own. \<open>Team_Steps\<close> splits
  \<open>deliver\<close>, \<open>Recv\<close>, \<open>Spawn\<close> and \<open>Despawn\<close> into their critical sections,
  interleaves those of any calls, and keeps the channel of a despawned worker for the calls that still
  hold it. \<open>Broker_Inv\<close> and \<open>Team_Properties\<close> show the invariants over any run, what every
  call does on every branch, that a call by itself is the operation of \<open>Broker\<close>, that no interleaving carries
  a message past the declared edges, and that a question has one outcome, which is what the record says.

  \<^bold>\<open>Graphs\<close> (\<open>internal/graph\<close>). \<open>Graph\<close> normalises an input, \<open>Graph_Search\<close> and
  \<open>Graph_Reach\<close> compute who can reach whom through messages and shared stores,
  \<open>Graph_Place\<close> and \<open>Graph_Layout\<close> lay the graph out. \<open>Graph_Properties\<close>: the closure is
  the length of a shortest walk, the order of an input does not matter, and a layout places and routes
  everything once.

  \<^bold>\<open>The flight recorder\<close> (\<open>internal/recorder/recorder.go\<close>). \<open>Recorder_Event\<close> has the
  event as a table of fields with its JSON form, \<open>Recorder_Clip\<close> the cutting of what does not fit
  a line, \<open>Recorder_Chain\<close> the hash chain, its verifier and its anchor, \<open>Recorder\<close> the
  recorder and its append. \<open>Recorder_Codec\<close>, \<open>Recorder_Line\<close>, \<open>Recorder_File\<close>,
  \<open>Recorder_Fit\<close>, \<open>Recorder_Session\<close> and \<open>Recorder_Tamper\<close> hold the lemmas,
  \<open>Recorder_Demo\<close> a run the witnesses evaluate, \<open>Recorder_Properties\<close> the results: what is
  recorded verifies, a changed record does not unless SHA-256 collides, events survive the round trip.

  \<^bold>\<open>Erasure\<close> (\<open>internal/recorder/erase.go\<close>). \<open>Recorder_Erase\<close> is the whole of
  \<open>Erase\<close>: the checks, the redaction of each line on its raw members beside that of the decoded
  event, the new chain and its writing. \<open>Recorder_Fields\<close>, \<open>Recorder_Redact\<close>,
  \<open>Recorder_Rechain\<close>, \<open>Recorder_Erased\<close> and \<open>Recorder_Own\<close> hold the lemmas,
  \<open>Recorder_Erase_Demo\<close> an erasure that succeeds, \<open>Erase_Properties\<close> the results: the new
  chain verifies, it reads as the old one with its content replaced, it is not erased twice, and no
  line the program wrote is refused.

  \<^bold>\<open>The digest\<close> (\<open>internal/digest/digest.go\<close>). \<open>Digest\<close> is the fold every view of
  a record reads: counters, bounded tables, agents and peers, the timeline on a heap of entries.
  \<open>Digest_Inv\<close>, \<open>Digest_Agents\<close> and \<open>Digest_Fold\<close> hold the lemmas,
  \<open>Digest_Properties\<close> the results: what is bounded, that every number is a count over the
  events, and that each command has the output and the exit that belong to it.

  \<^bold>\<open>The wire format\<close> (\<open>internal/proto\<close>). \<open>Proto_Text\<close> is \<open>SafeText\<close>
  and \<open>SafeBody\<close>, \<open>Proto_Frame\<close> the frames with their \<open>Sanitize\<close> methods as instances of
  one contract, \<open>Proto_Stream\<close> the line-delimited reader and writer over a model of
  \<open>bufio.Scanner\<close>, \<open>Proto_Shell\<close> the shell frames and the forward handshake.
  \<open>Proto_Safe\<close> and \<open>Proto_Framing\<close> hold the lemmas, \<open>Proto_Properties\<close> the results:
  what survives of a guest's text, that only clean frames are seen, that framing does not depend
  on how a connection cuts the bytes, and that the reader goes on behind a line too long once it is drained. A connection is the
  list of what its reads return; it is \<open>quiet\<close> when none fails or is empty.

  \<^bold>\<open>Egress\<close> (\<open>internal/egress\<close>). \<open>Egress_Scope\<close> decides whether a path is inside a
  secret's scope, \<open>Egress_Policy\<close> parses secrets and allow-lists and picks a credential,
  \<open>Egress_Scrub\<close> and \<open>Egress_Response\<close> remove secrets from what goes back to the guest,
  \<open>Egress_Dial\<close> refuses addresses no guest may reach, \<open>Egress_Legs\<close> and
  \<open>Egress_Proxy\<close> serve a connection, plain, tunnelled or terminated. \<open>Egress_Run\<close> has the
  frame lemmas of a connection, \<open>Egress_Properties\<close> what the guest can and cannot obtain.

  \<^bold>\<open>Reading an image back\<close> (\<open>internal/sandbox/extract.go\<close>). \<open>Image_Entry\<close> lists and
  validates, \<open>Image_Links\<close> follows chains of symbolic links under a budget,
  \<open>Image_Extract\<close> writes the tree. \<open>Image_Properties\<close>: no link that is left leads outside,
  contents are whole, modes are safe, and what a listing can hold.

  \<^bold>\<open>What changed\<close> (\<open>internal/sandbox/diff.go\<close>). \<open>Diff\<close> scans a directory as
  \<open>filepath.WalkDir\<close> does, compares it with the manifest of the packing, counts lines and prints
  the answer. \<open>Diff_Scan\<close> sets the walk against a lookup by path, \<open>Diff_Lines\<close> the two
  rolling rows of \<open>lcs\<close> against the longest common subsequence; \<open>Diff_Properties\<close>: a scan
  holds each node it reaches once, and each path that keeps its kind and its link's target is reported as its two entries make it.

  \<^bold>\<open>Configuration\<close> (\<open>internal/config\<close>). \<open>Config_Text\<close> reads the values of
  \<open>kelyfos.toml\<close> and holds \<open>time.ParseDuration\<close>, \<open>Config\<close> reads its headers and keys line by line,
  \<open>Config_Schema\<close> is the published table of keys. \<open>Config_Inv\<close>
  states which element a section needs, shows that a header provides it and a key keeps it, and carries
  this over a file. \<open>Config_Properties\<close>: the parser does not panic,
  what the numbers, secrets and allow lists it accepts can be, keys and schema agree, sizes and arrays are read as written.

  \<^bold>\<open>How the parts meet.\<close> The broker and the proxy report events, which the recorder fits into
  lines and chains and an erasure rewrites; the frames a guest sends carry the requests the broker
  serves; a team's topology event and the graph are built from the same declarations. The
  parts are composed where the code composes them: \<open>Team_Serve\<close> over store and broker, the broker
  over the topology, the proxy over policy, scope, dial and scrubber, the extraction over listing
  and links.

  \<^bold>\<open>Parameters.\<close> Code that is not in the repository, and the world, are arguments: \<open>sha\<close>
  is SHA-256 as a function on byte strings (nothing is assumed of it; results that need
  collision-freedom carry the collision as an alternative), \<open>uni\<close> the Unicode tables behind
  case folding or printability, \<open>io\<close> and the outcome arguments of a step say what a system call, a dial, a read or
  the clock answered, \<open>rl\<close>, \<open>key\<close> and \<open>world\<close> what the filesystem answers, and a
  \<open>debugfs\<close> is a function from a script to its output.

  \<^bold>\<open>Reading the model.\<close> A Go struct is a record, an enumeration a datatype, an error a value of
  a datatype with what its text quotes. A nil slice and an empty one are one list where the code
  treats them alike. What runs under one hold of a mutex is one step. An operation that takes locks one
  after the other is one step where it is run by itself (\<open>Broker\<close>, \<open>Broker_Inv\<close>), and its sections
  are steps of their own where calls interleave (\<open>Team_Steps\<close>). A callback is a list of what it was called with, in order.
  An integer that can wrap has the wrap-around written out or a \<open>word\<close> type; a sequence number is
  an \<open>int\<close> with the bound of \<open>2 ^ 60\<close> operations stated where a result needs it. A
  \<open>float64\<close> of JSON is its literal, one of a duration a fraction rounded to 53 bits. Loops over input are structural; those that are not have a
  \<open>termination\<close> proof: the walk of a chain by its step budget, the listing by its depth, the
  scanners by the length of what is left. Where fuel occurs (JSON arrays and objects, breadth-first
  search) it is the length of the input or the number of nodes, and lemmas show that it is enough.

  \<^bold>\<open>Not modelled.\<close> Starting and confining a virtual machine, its network and control groups
  (\<open>internal/sandbox\<close> but for the extraction and the diff), the command line and its views
  (\<open>src/host\<close>), the guest's supervisor, the shim, finding and trusting a policy file,
  exporters, reports and the drawing of a layout: most of that is input and output around the parts above or calls of
  libraries. Certificates and TLS are the library's. Goroutines are modelled by the order in which
  their steps take effect, not by a memory model.
\<close>

end
